(* ===== verification/Prelude.thy ===== *)
theory Prelude
  imports Main "HOL-Library.Word"
begin

text \<open>
  Shared vocabulary of the development: the machine types of \<^verbatim>\<open>include/types.h\<close> for the
  64-bit build, byte-addressed memory, and the generic lemmas on words, lists and memory
  regions that the component theories use.
\<close>

unbundle bit_operations_syntax

named_theorems mem_simps \<open>reads and writes of byte-addressed memory\<close>
named_theorems region_simps \<open>membership in address ranges\<close>

section \<open>Machine types\<close>

type_synonym byte = "8 word"
type_synonym u16 = "16 word"
type_synonym u32 = "32 word"
type_synonym u64 = "64 word"
type_synonym addr = "64 word"
type_synonym mem = "addr \<Rightarrow> byte"

text \<open>A line feed, for the format strings of the source.\<close>

abbreviation nl :: string where "nl \<equiv> [CHR 0x0A]"

section \<open>Words\<close>

lemma unat_add_of_nat:
  fixes a :: "'a::len word"
  assumes "unat a + i < 2 ^ LENGTH('a)"
  shows "unat (a + word_of_nat i) = unat a + i"
proof -
  have "i < 2 ^ LENGTH('a)" using assms by simp
  then show ?thesis
    using assms by (simp add: unat_word_ariths unat_of_nat take_bit_nat_eq_self)
qed

lemma add_of_nat_inj:
  fixes a :: "'a::len word"
  assumes "i < 2 ^ LENGTH('a)" "j < 2 ^ LENGTH('a)"
    and eq: "a + word_of_nat i = a + word_of_nat j"
  shows "i = j"
proof -
  from eq have "(word_of_nat i :: 'a word) = word_of_nat j" by simp
  then have "unat (word_of_nat i :: 'a word) = unat (word_of_nat j :: 'a word)" by simp
  then show ?thesis using assms by (simp add: unat_of_nat take_bit_nat_eq_self)
qed

lemma u64_bound: "unat (n :: u64) < 2 ^ 64"
  using unsigned_less [of n, where 'a = nat] by simp

lemma uint_eq_iff [simp]: "uint x = uint y \<longleftrightarrow> x = y"
  by (simp add: word_uint_eq_iff)

lemma uint_eq_0 [simp]: "uint x = 0 \<longleftrightarrow> x = 0"
  by (metis uint_eq_iff unsigned_0)

lemma word_of_nat_eqI:
  "a mod 2 ^ LENGTH('a) = b mod 2 ^ LENGTH('a) \<Longrightarrow> (word_of_nat a :: 'a::len word) = word_of_nat b"
  by (simp add: word_unat_eq_iff unat_of_nat take_bit_eq_mod)

lemma add_Suc_of_nat:
  "(a :: 'a::len word) + word_of_nat (Suc i) = (a + 1) + word_of_nat i"
  by simp

section \<open>Address ranges\<close>

text \<open>The \<^term>\<open>n\<close> addresses from \<^term>\<open>a\<close> on; the range wraps as pointers do.\<close>

definition region :: "addr \<Rightarrow> nat \<Rightarrow> addr set" where
  "region a n = (\<lambda>i. a + word_of_nat i) ` {..<n}"

lemma region_0 [simp]: "region a 0 = {}"
  by (simp add: region_def)

lemma in_region_iff: "x \<in> region a n \<longleftrightarrow> (\<exists>i<n. x = a + word_of_nat i)"
  by (auto simp: region_def)

lemma region_mem [intro]: "i < n \<Longrightarrow> a + word_of_nat i \<in> region a n"
  by (auto simp: region_def)

lemma region_Suc: "region a (Suc n) = insert a (region (a + 1) n)"
proof -
  have "{..<Suc n} = insert 0 (Suc ` {..<n})"
    by (auto simp: image_iff less_Suc_eq_0_disj)
  then show ?thesis by (simp add: region_def image_image add.assoc)
qed

lemma region_Suc_last: "region a (Suc n) = insert (a + word_of_nat n) (region a n)"
  by (auto simp: region_def lessThan_Suc)

lemma in_region_unat:
  assumes "unat a + n \<le> 2 ^ 64"
  shows "x \<in> region a n \<longleftrightarrow> unat a \<le> unat x \<and> unat x < unat a + n"
proof
  assume "x \<in> region a n"
  then obtain i where i: "i < n" "x = a + word_of_nat i" by (auto simp: in_region_iff)
  with assms have "unat x = unat a + i" by (simp add: unat_add_of_nat)
  with i show "unat a \<le> unat x \<and> unat x < unat a + n" by simp
next
  assume h: "unat a \<le> unat x \<and> unat x < unat a + n"
  then have "unat (a + word_of_nat (unat x - unat a)) = unat x"
    using unsigned_less [of x] by (subst unat_add_of_nat) simp_all
  then have "x = a + word_of_nat (unat x - unat a)" by (simp add: word_unat_eq_iff)
  moreover from h have "unat x - unat a < n" by arith
  ultimately show "x \<in> region a n" unfolding in_region_iff by blast
qed

lemma first_not_in_rest:
  assumes "n < 2 ^ 64"
  shows "(a :: addr) \<notin> region (a + 1) n"
proof
  assume "a \<in> region (a + 1) n"
  then obtain i where "i < n" "a = a + 1 + word_of_nat i" by (auto simp: in_region_iff)
  then have "a + word_of_nat 0 = a + word_of_nat (Suc i)" by simp
  then have "(0::nat) = Suc i"
    by (rule add_of_nat_inj [rotated 2]) (use \<open>i < n\<close> assms in simp_all)
  then show False by simp
qed

section \<open>Bytes in memory\<close>

fun bytes_at :: "mem \<Rightarrow> addr \<Rightarrow> byte list \<Rightarrow> bool" where
  "bytes_at m a [] = True"
| "bytes_at m a (b # bs) = (m a = b \<and> bytes_at m (a + 1) bs)"

lemma bytes_at_nth:
  "bytes_at m a bs \<longleftrightarrow> (\<forall>i<length bs. m (a + word_of_nat i) = bs ! i)"
proof (induction bs arbitrary: a)
  case Nil
  then show ?case by simp
next
  case (Cons b bs)
  have "(\<forall>i<length (b # bs). m (a + word_of_nat i) = (b # bs) ! i) \<longleftrightarrow>
      m a = b \<and> (\<forall>i<length bs. m (a + 1 + word_of_nat i) = bs ! i)"
    by (auto simp: less_Suc_eq_0_disj add.assoc)
  with Cons.IH show ?case by simp
qed

lemma bytes_at_append:
  "bytes_at m a (xs @ ys) \<longleftrightarrow> bytes_at m a xs \<and> bytes_at m (a + word_of_nat (length xs)) ys"
  by (induction xs arbitrary: a) (auto simp: add.assoc)

text \<open>A write outside the range leaves the bytes there as they were.\<close>

lemma bytes_at_cong:
  assumes "\<And>x. x \<in> region a (length bs) \<Longrightarrow> m' x = m x"
  shows "bytes_at m' a bs = bytes_at m a bs"
proof -
  have "m' (a + word_of_nat i) = m (a + word_of_nat i)" if "i < length bs" for i
    using that by (intro assms) (auto simp: in_region_iff)
  then show ?thesis by (simp add: bytes_at_nth)
qed

section \<open>Lists\<close>

lemma take_Suc_nth: "n < length xs \<Longrightarrow> take (Suc n) xs = take n xs @ [xs ! n]"
  by (rule take_Suc_conv_app_nth)

lemma map_upt_Suc_first: "map f [0..<Suc n] = f 0 # map (\<lambda>i. f (Suc i)) [0..<n]"
  by (simp add: map_upt_Suc del: upt_Suc)

end
