(* ===== verification/CString.thy ===== *)
theory CString
  imports Prelude
begin

text \<open>
  The kernel's own C string library, \<^verbatim>\<open>lib/string.c\<close>, over byte-addressed memory. A loop whose
  bound is a counter is structural recursion on that counter; a loop that only stops at a
  NUL byte is a \<^theory_text>\<open>partial_function\<close> in the option monad, with \<^term>\<open>None\<close> for a
  string that never ends. Pointer arithmetic wraps at 64 bits.

  The second half relates the pointer-level functions to byte lists: \<open>cstr_at\<close> says which
  list a pointer denotes, and each function gets an exact description of its result and of
  the memory it writes.
\<close>

section \<open>The functions of lib/string.c\<close>

fun memset_loop :: "mem \<Rightarrow> addr \<Rightarrow> byte \<Rightarrow> nat \<Rightarrow> mem" where
  "memset_loop m p c 0 = m"
| "memset_loop m p c (Suc n) = memset_loop (m(p := c)) (p + 1) c n"

definition memset :: "mem \<Rightarrow> addr \<Rightarrow> 32 word \<Rightarrow> u64 \<Rightarrow> mem \<times> addr" where
  "memset m s c n = (memset_loop m s (ucast c) (unat n), s)"

fun copy_fwd :: "mem \<Rightarrow> addr \<Rightarrow> addr \<Rightarrow> nat \<Rightarrow> mem" where
  "copy_fwd m d s 0 = m"
| "copy_fwd m d s (Suc n) = copy_fwd (m(d := m s)) (d + 1) (s + 1) n"

definition memcpy :: "mem \<Rightarrow> addr \<Rightarrow> addr \<Rightarrow> u64 \<Rightarrow> mem \<times> addr" where
  "memcpy m dest src n = (copy_fwd m dest src (unat n), dest)"

fun copy_bwd :: "mem \<Rightarrow> addr \<Rightarrow> addr \<Rightarrow> nat \<Rightarrow> mem" where
  "copy_bwd m d s 0 = m"
| "copy_bwd m d s (Suc n) = copy_bwd (m(d - 1 := m (s - 1))) (d - 1) (s - 1) n"

definition memmove :: "mem \<Rightarrow> addr \<Rightarrow> addr \<Rightarrow> u64 \<Rightarrow> mem \<times> addr" where
  "memmove m dest src n =
     (if dest < src then copy_fwd m dest src (unat n)
      else copy_bwd m (dest + n) (src + n) (unat n), dest)"

fun memcmp_loop :: "mem \<Rightarrow> addr \<Rightarrow> addr \<Rightarrow> nat \<Rightarrow> int" where
  "memcmp_loop m p1 p2 0 = 0"
| "memcmp_loop m p1 p2 (Suc n) =
     (if m p1 \<noteq> m p2 then uint (m p1) - uint (m p2) else memcmp_loop m (p1 + 1) (p2 + 1) n)"

definition memcmp :: "mem \<Rightarrow> addr \<Rightarrow> addr \<Rightarrow> u64 \<Rightarrow> int" where
  "memcmp m s1 s2 n = memcmp_loop m s1 s2 (unat n)"

partial_function (option) strlen_loop :: "mem \<Rightarrow> addr \<Rightarrow> u64 \<Rightarrow> u64 option" where
  "strlen_loop m s len = (if m s \<noteq> 0 then strlen_loop m (s + 1) (len + 1) else Some len)"

definition strlen :: "mem \<Rightarrow> addr \<Rightarrow> u64 option" where
  "strlen m s = strlen_loop m s 0"

partial_function (option) strcmp :: "mem \<Rightarrow> addr \<Rightarrow> addr \<Rightarrow> int option" where
  "strcmp m s1 s2 =
     (if m s1 \<noteq> 0 \<and> m s1 = m s2 then strcmp m (s1 + 1) (s2 + 1)
      else Some (uint (m s1) - uint (m s2)))"

fun strncmp_loop :: "mem \<Rightarrow> addr \<Rightarrow> addr \<Rightarrow> nat \<Rightarrow> int" where
  "strncmp_loop m s1 s2 0 = 0"
| "strncmp_loop m s1 s2 (Suc n) =
     (if m s1 \<noteq> 0 \<and> m s1 = m s2 then strncmp_loop m (s1 + 1) (s2 + 1) n
      else uint (m s1) - uint (m s2))"

definition strncmp :: "mem \<Rightarrow> addr \<Rightarrow> addr \<Rightarrow> u64 \<Rightarrow> int" where
  "strncmp m s1 s2 n = strncmp_loop m s1 s2 (unat n)"

text \<open>\<open>while ((*d++ = *src++));\<close> copies the NUL too, then stops.\<close>

partial_function (option) strcpy_loop :: "mem \<Rightarrow> addr \<Rightarrow> addr \<Rightarrow> mem option" where
  "strcpy_loop m d s =
     (let m' = m(d := m s) in if m s \<noteq> 0 then strcpy_loop m' (d + 1) (s + 1) else Some m')"

definition strcpy :: "mem \<Rightarrow> addr \<Rightarrow> addr \<Rightarrow> (mem \<times> addr) option" where
  "strcpy m dest src = map_option (\<lambda>m'. (m', dest)) (strcpy_loop m dest src)"

text \<open>
  The first loop of \<open>strncpy\<close>, \<open>while (n && (*d++ = *src++)) n--;\<close>: when the byte copied is
  the NUL the loop stops without counting it. The result is the memory, the write pointer
  and what is left of \<open>n\<close> for the padding loop.
\<close>

fun strncpy_loop :: "mem \<Rightarrow> addr \<Rightarrow> addr \<Rightarrow> nat \<Rightarrow> mem \<times> addr \<times> nat" where
  "strncpy_loop m d s 0 = (m, d, 0)"
| "strncpy_loop m d s (Suc n) =
     (let m' = m(d := m s) in
      if m s \<noteq> 0 then strncpy_loop m' (d + 1) (s + 1) n else (m', d + 1, Suc n))"

definition strncpy :: "mem \<Rightarrow> addr \<Rightarrow> addr \<Rightarrow> u64 \<Rightarrow> mem \<times> addr" where
  "strncpy m dest src n =
     (case strncpy_loop m dest src (unat n) of (m', d, k) \<Rightarrow> (memset_loop m' d 0 k, dest))"

partial_function (option) strend :: "mem \<Rightarrow> addr \<Rightarrow> addr option" where
  "strend m d = (if m d \<noteq> 0 then strend m (d + 1) else Some d)"

definition strcat :: "mem \<Rightarrow> addr \<Rightarrow> addr \<Rightarrow> (mem \<times> addr) option" where
  "strcat m dest src =
     Option.bind (strend m dest) (\<lambda>d. map_option (\<lambda>m'. (m', dest)) (strcpy_loop m d src))"

section \<open>What a pointer denotes\<close>

definition cstr_at :: "mem \<Rightarrow> addr \<Rightarrow> byte list \<Rightarrow> bool" where
  "cstr_at m a s \<longleftrightarrow> bytes_at m a (s @ [0]) \<and> 0 \<notin> set s"

lemma cstr_at_Nil [simp]: "cstr_at m a [] \<longleftrightarrow> m a = 0"
  by (simp add: cstr_at_def)

lemma cstr_at_Cons [simp]:
  "cstr_at m a (c # s) \<longleftrightarrow> m a = c \<and> c \<noteq> 0 \<and> cstr_at m (a + 1) s"
  by (auto simp: cstr_at_def)

text \<open>A pointer denotes at most one string.\<close>

lemma cstr_at_unique: "cstr_at m a s \<Longrightarrow> cstr_at m a t \<Longrightarrow> s = t"
proof (induction s arbitrary: a t)
  case Nil
  then show ?case by (cases t) auto
next
  case (Cons c s)
  then show ?case by (cases t) auto
qed

lemma cstr_at_length:
  assumes "cstr_at m a s"
  shows "length s < 2 ^ 64"
proof (rule ccontr)
  assume "\<not> length s < 2 ^ 64"
  then have len: "length s \<ge> 2 ^ 64" by simp
  let ?k = "length s - 2 ^ 64"
  have k: "?k < length s" using len by simp
  from assms have at: "m (a + word_of_nat i) = (s @ [0]) ! i" if "i < length s + 1" for i
    using that by (simp add: cstr_at_def bytes_at_nth)
  have "(word_of_nat (length s) :: addr) = word_of_nat (?k + 2 ^ 64)" using len by simp
  also have "\<dots> = word_of_nat ?k" by (rule word_of_nat_eqI) simp
  finally have "m (a + word_of_nat ?k) = m (a + word_of_nat (length s))" by simp
  with at [of "?k"] at [of "length s"] k have "s ! ?k = 0" by (simp add: nth_append)
  with k assms show False by (metis cstr_at_def nth_mem)
qed

lemma cstr_at_cong:
  assumes "\<And>x. x \<in> region a (Suc (length s)) \<Longrightarrow> m' x = m x"
  shows "cstr_at m' a s = cstr_at m a s"
  unfolding cstr_at_def using bytes_at_cong [of a "s @ [0]" m' m] assms by simp

section \<open>Fills and copies\<close>

lemma memset_loop_eq:
  "n \<le> 2 ^ 64 \<Longrightarrow> memset_loop m p c n = (\<lambda>x. if x \<in> region p n then c else m x)"
proof (induction n arbitrary: m p)
  case 0
  then show ?case by simp
next
  case (Suc n)
  then show ?case using first_not_in_rest [of n p] by (auto simp: region_Suc)
qed

lemma memset_eq [mem_simps]:
  "fst (memset m s c n) = (\<lambda>x. if x \<in> region s (unat n) then ucast c else m x)"
  using u64_bound [of n] by (simp add: memset_def memset_loop_eq)

text \<open>What any correct copy of \<open>n\<close> bytes does: each byte of the target range takes the value
  its source byte had before the copy, and nothing else changes.\<close>

definition copied :: "mem \<Rightarrow> addr \<Rightarrow> addr \<Rightarrow> nat \<Rightarrow> mem" where
  "copied m d s n = (\<lambda>x. if x \<in> region d n then m (s + (x - d)) else m x)"

lemma copied_bytes_at:
  assumes "bytes_at m s bs"
  shows "bytes_at (copied m d s (length bs)) d bs"
  using assms by (auto simp: bytes_at_nth copied_def in_region_iff)

lemma copied_outside: "x \<notin> region d n \<Longrightarrow> copied m d s n x = m x"
  by (simp add: copied_def)

text \<open>Peeling the first byte off a copy, provided its write does not hit a later read.\<close>

lemma copied_step:
  assumes "d \<notin> region (s + 1) n" and c: "m s = c"
  shows "copied (m(d := c)) (d + 1) (s + 1) n = copied m d s (Suc n)"
proof
  fix x show "copied (m(d := c)) (d + 1) (s + 1) n x = copied m d s (Suc n) x"
  proof (cases "x \<in> region (d + 1) n")
    case True
    then obtain i where i: "i < n" "x = d + 1 + word_of_nat i" by (auto simp: in_region_iff)
    then have "s + 1 + word_of_nat i \<in> region (s + 1) n" by (auto simp: in_region_iff)
    with assms(1) have "d \<noteq> s + 1 + word_of_nat i" by metis
    with i True show ?thesis by (auto simp: copied_def region_Suc algebra_simps)
  next
    case False
    then show ?thesis by (auto simp: copied_def region_Suc c)
  qed
qed

text \<open>The forward loop is correct as long as no byte is overwritten before it is read.\<close>

lemma copy_fwd_eq:
  assumes "n < 2 ^ 64"
    and "\<And>i j. i < j \<Longrightarrow> j < n \<Longrightarrow> d + word_of_nat i \<noteq> s + word_of_nat j"
  shows "copy_fwd m d s n = copied m d s n"
  using assms
proof (induction n arbitrary: m d s)
  case 0
  then show ?case by (simp add: copied_def fun_eq_iff)
next
  case (Suc n)
  have IH: "copy_fwd (m(d := m s)) (d + 1) (s + 1) n = copied (m(d := m s)) (d + 1) (s + 1) n"
  proof (rule Suc.IH)
    show "d + 1 + word_of_nat i \<noteq> s + 1 + word_of_nat j" if "i < j" "j < n" for i j
      using Suc.prems(2) [of "Suc i" "Suc j"] that by (simp add: add.assoc)
  qed (use Suc.prems in simp)
  have "d \<notin> region (s + 1) n"
    using Suc.prems(2) [of 0 "Suc i" for i] by (fastforce simp: in_region_iff add.assoc)
  with IH show ?case by (simp add: copied_step)
qed

lemma copy_bwd_eq:
  assumes "n < 2 ^ 64"
    and "\<And>i j. j < i \<Longrightarrow> i < n \<Longrightarrow> d + word_of_nat i \<noteq> s + word_of_nat j"
  shows "copy_bwd m (d + word_of_nat n) (s + word_of_nat n) n = copied m d s n"
  using assms
proof (induction n arbitrary: m)
  case 0
  then show ?case by (simp add: copied_def fun_eq_iff)
next
  case (Suc n)
  let ?m = "m(d + word_of_nat n := m (s + word_of_nat n))"
  have IH: "copy_bwd ?m (d + word_of_nat n) (s + word_of_nat n) n = copied ?m d s n"
    by (rule Suc.IH) (use Suc.prems in simp_all)
  have "copied ?m d s n x = copied m d s (Suc n) x" for x
  proof (cases "x \<in> region d n")
    case True
    then obtain i where i: "i < n" "x = d + word_of_nat i" by (auto simp: in_region_iff)
    then have "d + word_of_nat n \<noteq> s + word_of_nat i"
      using Suc.prems(2) [of i n] by simp
    with i True show ?thesis by (auto simp: copied_def region_Suc_last)
  next
    case False
    then show ?thesis by (auto simp: copied_def region_Suc_last)
  qed
  with IH show ?case by (simp add: fun_eq_iff algebra_simps)
qed

lemma memcpy_copied:
  assumes "region dest (unat n) \<inter> region src (unat n) = {}"
  shows "fst (memcpy m dest src n) = copied m dest src (unat n)"
proof -
  have "copy_fwd m dest src (unat n) = copied m dest src (unat n)"
  proof (rule copy_fwd_eq)
    show "unat n < 2 ^ 64" by (rule u64_bound)
    fix i j assume "i < j" "j < unat n"
    then have "dest + word_of_nat i \<in> region dest (unat n)"
      "src + word_of_nat j \<in> region src (unat n)" by (auto intro!: region_mem)
    with assms show "dest + word_of_nat i \<noteq> src + word_of_nat j" by auto
  qed
  then show ?thesis by (simp add: memcpy_def)
qed

lemma memmove_copied:
  assumes "unat dest + unat n \<le> 2 ^ 64" "unat src + unat n \<le> 2 ^ 64"
  shows "fst (memmove m dest src n) = copied m dest src (unat n)"
proof -
  have n: "unat n < 2 ^ 64" by (rule u64_bound)
  have d: "unat (dest + word_of_nat i) = unat dest + i"
    and s: "unat (src + word_of_nat i) = unat src + i" if "i < unat n" for i
    using assms that by (simp_all add: unat_add_of_nat)
  show ?thesis
  proof (cases "dest < src")
    case True
    then have lt: "unat dest < unat src" by (simp add: word_less_nat_alt)
    have "dest + word_of_nat i \<noteq> src + word_of_nat j" if "i < j" "j < unat n" for i j
    proof
      assume "dest + word_of_nat i = src + word_of_nat j"
      then have "unat dest + i = unat src + j" using d [of i] s [of j] that by simp
      with lt that show False by simp
    qed
    with True n show ?thesis by (simp add: memmove_def copy_fwd_eq)
  next
    case False
    then have le: "unat src \<le> unat dest" by (simp add: word_less_nat_alt)
    have "dest + word_of_nat i \<noteq> src + word_of_nat j" if "j < i" "i < unat n" for i j
    proof
      assume "dest + word_of_nat i = src + word_of_nat j"
      then have "unat dest + i = unat src + j" using d [of i] s [of j] that by simp
      with le that show False by simp
    qed
    with n have "copy_bwd m (dest + word_of_nat (unat n)) (src + word_of_nat (unat n)) (unat n)
        = copied m dest src (unat n)"
      by (intro copy_bwd_eq)
    with False show ?thesis by (simp add: memmove_def)
  qed
qed

section \<open>Comparisons\<close>

lemma memcmp_loop_0: "memcmp_loop m p q n = 0 \<longleftrightarrow>
    (\<forall>i<n. m (p + word_of_nat i) = m (q + word_of_nat i))"
proof (induction n arbitrary: p q)
  case 0
  then show ?case by simp
next
  case (Suc n)
  have "(\<forall>i<Suc n. m (p + word_of_nat i) = m (q + word_of_nat i)) \<longleftrightarrow>
      m p = m q \<and> (\<forall>i<n. m (p + 1 + word_of_nat i) = m (q + 1 + word_of_nat i))"
    by (auto simp: less_Suc_eq_0_disj add.assoc)
  with Suc.IH show ?case by simp
qed

text \<open>The difference of the first bytes that differ, the shorter string read up to its NUL.\<close>

fun str_diff :: "byte list \<Rightarrow> byte list \<Rightarrow> int" where
  "str_diff [] [] = 0"
| "str_diff [] (y # ys) = - uint y"
| "str_diff (x # xs) [] = uint x"
| "str_diff (x # xs) (y # ys) = (if x = y then str_diff xs ys else uint x - uint y)"

lemma str_diff_0:
  "0 \<notin> set s \<Longrightarrow> 0 \<notin> set t \<Longrightarrow> str_diff s t = 0 \<longleftrightarrow> s = t"
  by (induction s t rule: str_diff.induct) auto

lemma str_diff_neg:
  "0 \<notin> set s \<Longrightarrow> 0 \<notin> set t \<Longrightarrow>
    str_diff s t < 0 \<longleftrightarrow> (s, t) \<in> lexord {(x, y). x < y}"
  by (induction s t rule: str_diff.induct)
    (auto simp: word_less_def order.strict_iff_order [of 0])

lemma strcmp_eq:
  "cstr_at m a s \<Longrightarrow> cstr_at m b t \<Longrightarrow> strcmp m a b = Some (str_diff s t)"
proof (induction s t arbitrary: a b rule: str_diff.induct)
  case 1
  then show ?case by (simp add: strcmp.simps [of m a b])
next
  case (2 y ys)
  then show ?case by (simp add: strcmp.simps [of m a b])
next
  case (3 x xs)
  then show ?case by (simp add: strcmp.simps [of m a b])
next
  case (4 x xs y ys)
  then show ?case by (simp add: strcmp.simps [of m a b])
qed

lemma strncmp_loop_eq:
  "cstr_at m a s \<Longrightarrow> cstr_at m b t \<Longrightarrow>
    strncmp_loop m a b n = str_diff (take n s) (take n t)"
proof (induction n arbitrary: a b s t)
  case 0
  then show ?case by simp
next
  case (Suc n)
  then show ?case by (cases s; cases t) auto
qed

lemma strlen_loop_eq:
  "cstr_at m a s \<Longrightarrow> strlen_loop m a k = Some (k + word_of_nat (length s))"
proof (induction s arbitrary: a k)
  case Nil
  then show ?case by (simp add: strlen_loop.simps [of m a k])
next
  case (Cons c s)
  then show ?case by (simp add: strlen_loop.simps [of m a k] add.assoc)
qed

lemma strlen_eq: "cstr_at m a s \<Longrightarrow> strlen m a = Some (word_of_nat (length s))"
  by (simp add: strlen_def strlen_loop_eq)

section \<open>String copies\<close>

lemma strcpy_loop_eq:
  assumes "cstr_at m s str"
    and "region d (Suc (length str)) \<inter> region s (Suc (length str)) = {}"
  shows "strcpy_loop m d s = Some (copied m d s (Suc (length str)))"
  using assms
proof (induction str arbitrary: m d s)
  case Nil
  then show ?case
    by (auto simp: strcpy_loop.simps [of m d s] copied_def region_Suc fun_eq_iff)
next
  case (Cons c str)
  let ?m = "m(d := m s)" and ?n = "Suc (length str)"
  have dj: "region (d + 1) ?n \<inter> region (s + 1) ?n = {}"
    and d: "d \<notin> region (s + 1) ?n"
    using Cons.prems(2) by (auto simp: region_Suc)
  have "cstr_at ?m (s + 1) str"
    using Cons.prems(1) d by (subst cstr_at_cong [of _ _ _ m]) auto
  then have "strcpy_loop ?m (d + 1) (s + 1) = Some (copied ?m (d + 1) (s + 1) ?n)"
    using dj by (rule Cons.IH)
  then show ?case
    using Cons.prems(1) d by (simp add: strcpy_loop.simps [of m d s] copied_step)
qed

lemma strend_eq: "cstr_at m a s \<Longrightarrow> strend m a = Some (a + word_of_nat (length s))"
proof (induction s arbitrary: a)
  case Nil
  then show ?case by (simp add: strend.simps [of m a])
next
  case (Cons c s)
  then show ?case by (simp add: strend.simps [of m a] add.assoc)
qed

lemma strncpy_loop_short:
  assumes "cstr_at m s str" "length str < n"
    and "region d (Suc (length str)) \<inter> region s (Suc (length str)) = {}"
  shows "strncpy_loop m d s n =
    (copied m d s (Suc (length str)), d + word_of_nat (Suc (length str)), n - length str)"
  using assms
proof (induction str arbitrary: m d s n)
  case Nil
  then show ?case
    by (cases n) (auto simp: copied_def region_Suc fun_eq_iff)
next
  case (Cons c str)
  then obtain k where n: "n = Suc k" by (cases n) auto
  let ?m = "m(d := m s)"
  have dj: "region (d + 1) (Suc (length str)) \<inter> region (s + 1) (Suc (length str)) = {}"
    and d: "d \<notin> region (s + 1) (Suc (length str))"
    using Cons.prems(3) by (auto simp: region_Suc)
  have "cstr_at ?m (s + 1) str"
    using Cons.prems(1) d by (subst cstr_at_cong [of _ _ _ m]) auto
  then have "strncpy_loop ?m (d + 1) (s + 1) k = (copied ?m (d + 1) (s + 1) (Suc (length str)),
      d + 1 + word_of_nat (Suc (length str)), k - length str)"
    by (rule Cons.IH) (use Cons.prems(2) n dj in auto)
  then show ?case using Cons.prems(1) n d by (simp add: copied_step add.assoc)
qed

lemma strncpy_loop_full:
  assumes "bytes_at m s bs" "0 \<notin> set bs" "length bs < 2 ^ 64"
    and "region d (length bs) \<inter> region s (length bs) = {}"
  shows "strncpy_loop m d s (length bs) =
    (copied m d s (length bs), d + word_of_nat (length bs), 0)"
  using assms
proof (induction bs arbitrary: m d s)
  case Nil
  then show ?case by (simp add: copied_def fun_eq_iff)
next
  case (Cons c bs)
  let ?m = "m(d := m s)"
  have dj: "region (d + 1) (length bs) \<inter> region (s + 1) (length bs) = {}"
    and d: "d \<notin> region (s + 1) (length bs)"
    using Cons.prems(4) by (auto simp: region_Suc)
  have bs: "bytes_at ?m (s + 1) bs"
    using Cons.prems(1) d by (subst bytes_at_cong [of _ _ _ m]) auto
  from bs have "strncpy_loop ?m (d + 1) (s + 1) (length bs) =
      (copied ?m (d + 1) (s + 1) (length bs), d + 1 + word_of_nat (length bs), 0)"
    by (rule Cons.IH) (use Cons.prems dj in auto)
  then show ?case using Cons.prems d by (simp add: copied_step add.assoc)
qed

section \<open>Properties\<close>

text \<open>
  \<open>memmove\<close> copies \<open>n\<close> bytes correctly whether or not the two ranges overlap: the target
  holds the bytes the source held before the call, every other byte is unchanged, and the
  target pointer is returned. The ranges only must not wrap around the address space.
\<close>

theorem memmove_correct:
  assumes "bytes_at m src bs" and "length bs = unat n"
    and "unat dest + unat n \<le> 2 ^ 64" and "unat src + unat n \<le> 2 ^ 64"
  shows "bytes_at (fst (memmove m dest src n)) dest bs
    \<and> (\<forall>x. x \<notin> region dest (unat n) \<longrightarrow> fst (memmove m dest src n) x = m x)
    \<and> snd (memmove m dest src n) = dest"
proof -
  have eq: "fst (memmove m dest src n) = copied m dest src (length bs)"
    using assms memmove_copied by simp
  moreover have "snd (memmove m dest src n) = dest" by (simp add: memmove_def)
  ultimately show ?thesis
    using copied_bytes_at [OF assms(1)] by (simp add: copied_outside assms(2))
qed

theorem memmove_correct_witness:
  "bytes_at (fst (memmove (\<lambda>x. ucast x) 5 3 4)) 5 [3, 4, 5, 6]"
  using memmove_correct [of "\<lambda>x. ucast x" 3 "[3, 4, 5, 6]" 4 5] by simp

text \<open>
  \<open>strcmp\<close> terminates on two C strings and orders them: it returns 0 exactly when they are
  equal, and a negative value exactly when the first comes before the second in the
  byte-wise lexicographic order.
\<close>

theorem strcmp_orders:
  assumes "cstr_at m a s" and "cstr_at m b t"
  shows "\<exists>r. strcmp m a b = Some r \<and> (r = 0 \<longleftrightarrow> s = t)
    \<and> (r < 0 \<longleftrightarrow> (s, t) \<in> lexord {(x, y). x < y})"
proof -
  have "0 \<notin> set s" "0 \<notin> set t" using assms by (simp_all add: cstr_at_def)
  with strcmp_eq [OF assms] show ?thesis by (simp add: str_diff_0 str_diff_neg)
qed

theorem strcmp_orders_witness:
  "\<exists>r. strcmp ((\<lambda>_. 0)(10 := 97, 20 := 98)) 10 20 = Some r \<and> r < 0"
  using strcmp_orders [of "(\<lambda>_. 0)(10 := 97, 20 := 98)" 10 "[97]" 20 "[98]"] by auto

text \<open>
  \<open>strncpy\<close> writes one byte too many when the source is shorter than \<open>n\<close>. The byte loop
  stops at the NUL without counting it, and the padding loop then writes \<open>n - strlen(src)\<close>
  further zeros: \<open>n + 1\<close> bytes in all, the last one just past the \<open>n\<close>-byte buffer.
\<close>

theorem strncpy_writes_past_n:
  assumes "cstr_at m src s" and "length s < unat n"
    and "region dest (Suc (length s)) \<inter> region src (Suc (length s)) = {}"
  shows "bytes_at (fst (strncpy m dest src n)) dest (s @ replicate (unat n - length s + 1) 0)
    \<and> fst (strncpy m dest src n) (dest + n) = 0"
proof -
  let ?l = "length s" and ?k = "unat n - length s"
  let ?pad = "region (dest + word_of_nat (Suc ?l)) ?k"
  have n: "unat n < 2 ^ 64" by (rule u64_bound)
  have eq: "fst (strncpy m dest src n) = (\<lambda>x. if x \<in> ?pad then 0 else copied m dest src (Suc ?l) x)"
    using n by (simp add: strncpy_def strncpy_loop_short [OF assms] memset_loop_eq)
  have pad: "dest + word_of_nat i \<in> ?pad \<longleftrightarrow> ?l < i" if "i \<le> unat n" for i
  proof
    assume "dest + word_of_nat i \<in> ?pad"
    then obtain j where "j < ?k" "dest + word_of_nat i = dest + word_of_nat (Suc ?l + j)"
      by (auto simp: in_region_iff add.assoc)
    then have "i = Suc ?l + j"
      by (intro add_of_nat_inj [of _ "Suc ?l + j" dest]) (use n that in simp_all)
    then show "?l < i" by simp
  next
    assume "?l < i"
    then have "dest + word_of_nat i = dest + word_of_nat (Suc ?l) + word_of_nat (i - (Suc ?l))"
      by (simp add: add.assoc flip: of_nat_add)
    moreover have "i - (Suc ?l) < ?k" using that \<open>?l < i\<close> by simp
    ultimately show "dest + word_of_nat i \<in> ?pad" by (metis region_mem)
  qed
  have copy: "copied m dest src (Suc ?l) (dest + word_of_nat i) = (s @ [0]) ! i" if "i \<le> ?l" for i
    using assms(1) that by (auto simp: copied_def cstr_at_def bytes_at_nth)
  have "fst (strncpy m dest src n) (dest + word_of_nat i) = (s @ replicate (?k + 1) 0) ! i"
    if "i \<le> unat n" for i
    using pad [OF that] copy [of i] that by (auto simp: eq nth_append)
  from this [of "unat n"] this show ?thesis
    using assms(2) by (auto simp: bytes_at_nth nth_append)
qed

theorem strncpy_writes_past_n_witness:
  "fst (strncpy ((\<lambda>_. 255)(10 := 97, 11 := 0)) 20 10 4) 24 = 0"
proof -
  let ?m = "(\<lambda>_. 255)(10 := 97, 11 := 0) :: mem"
  have "cstr_at ?m 10 [97]" by simp
  moreover have "region 20 (length [97::byte] + 1) \<inter> region 10 (length [97::byte] + 1) = {}"
    by (simp add: region_Suc)
  ultimately have "fst (strncpy ?m 20 10 4) (20 + 4) = 0"
    using strncpy_writes_past_n [of ?m 10 "[97]" 4 20] by simp
  then show ?thesis by simp
qed

end
