(* ===== verification/Page_Alloc.thy ===== *)
theory Page_Alloc
  imports Prelude
begin

text \<open>
  The contract between the physical memory manager and the code that takes pages from it
  (page tables, the loader, the network driver): what a call of the allocator promises, and
  what follows for any number of calls. A null pointer is the address 0.
\<close>

locale page_allocator =
  fixes alloc :: "'s \<Rightarrow> 's \<times> 'a::len word"
    and dealloc :: "'s \<Rightarrow> 'a word \<Rightarrow> 's"
    and avail :: "'s \<Rightarrow> 'a word set"
    and ok :: "'s \<Rightarrow> bool"
  assumes alloc_page: "ok s \<Longrightarrow> alloc s = (s', a) \<Longrightarrow> a \<noteq> 0 \<Longrightarrow>
      a \<in> avail s \<and> avail s' = avail s - {a} \<and> ok s'"
    and alloc_null: "ok s \<Longrightarrow> alloc s = (s', 0) \<Longrightarrow> avail s = {} \<and> s' = s"
    and page_aligned: "ok s \<Longrightarrow> a \<in> avail s \<Longrightarrow> a \<noteq> 0 \<and> unat a mod 4096 = 0"
    and dealloc_page: "ok s \<Longrightarrow> alloc s = (s', a) \<Longrightarrow> a \<noteq> 0 \<Longrightarrow>
      avail (dealloc s' a) = avail s \<and> ok (dealloc s' a)"
begin

lemma alloc_cases:
  assumes "ok s" and "alloc s = (s', a)"
  shows "ok s' \<and> avail s' = avail s - {a} \<and> (a = 0 \<longleftrightarrow> avail s = {})"
proof (cases "a = 0")
  case True
  with assms alloc_null [of s s'] show ?thesis by simp
next
  case False
  with assms alloc_page [of s s' a] show ?thesis by auto
qed

end

text \<open>The addresses that a run of \<open>n\<close> calls returns.\<close>

fun alloc_list :: "('s \<Rightarrow> 's \<times> 'a::len word) \<Rightarrow> nat \<Rightarrow> 's \<Rightarrow> 's \<times> 'a word list" where
  "alloc_list alloc 0 s = (s, [])"
| "alloc_list alloc (Suc n) s =
     (let (s', a) = alloc s; (s'', as) = alloc_list alloc n s' in (s'', a # as))"

context page_allocator begin

lemma alloc_list_ok:
  assumes "ok s" and "alloc_list alloc n s = (s', as)"
  shows "ok s' \<and> avail s' = avail s - set as \<and> set as \<subseteq> insert 0 (avail s)"
  using assms
proof (induction n arbitrary: s s' as)
  case 0
  then show ?case by simp
next
  case (Suc n)
  obtain t a where t: "alloc s = (t, a)" by fastforce
  obtain u bs where u: "alloc_list alloc n t = (u, bs)" by fastforce
  from Suc.prems t u have eq: "s' = u" "as = a # bs" by simp_all
  have step: "ok t \<and> avail t = avail s - {a} \<and> (a = 0 \<longleftrightarrow> avail s = {})"
    using Suc.prems(1) t by (rule alloc_cases)
  then have "ok u \<and> avail u = avail t - set bs \<and> set bs \<subseteq> insert 0 (avail t)"
    using u by (intro Suc.IH) simp_all
  moreover have "a \<in> insert 0 (avail s)" using alloc_page [OF Suc.prems(1) t] by auto
  ultimately show ?case using eq step by auto
qed

text \<open>Pages handed out by successive calls are pairwise different.\<close>

lemma alloc_list_distinct:
  assumes "ok s" and "alloc_list alloc n s = (s', as)" and "0 \<notin> set as"
  shows "distinct as \<and> set as \<subseteq> avail s"
  using assms
proof (induction n arbitrary: s s' as)
  case 0
  then show ?case by simp
next
  case (Suc n)
  obtain t a where t: "alloc s = (t, a)" by fastforce
  obtain u bs where u: "alloc_list alloc n t = (u, bs)" by fastforce
  from Suc.prems t u have eq: "as = a # bs" and nz: "a \<noteq> 0" "0 \<notin> set bs" by auto
  have "ok t" using alloc_cases [OF Suc.prems(1) t] by simp
  then have "distinct bs \<and> set bs \<subseteq> avail t" using u nz(2) by (rule Suc.IH)
  with alloc_page [OF Suc.prems(1) t nz(1)] eq show ?case by auto
qed

end

end
