(* ===== verification/Pmm.thy ===== *)
theory Pmm
  imports Page_Alloc
begin

text \<open>
  The physical memory manager, \<^verbatim>\<open>mem/pmm.c\<close>: a bitmap with one bit per 4096-byte page (1 is
  used), the number of pages and the number of free pages. The bitmap is the list of its
  bytes; bit operations are on the bytes, as in the code. Loop counters are \<^typ>\<open>nat\<close>: they
  run below \<open>total_pages\<close>, which is at most \<open>2\<^sup>5\<^sup>2\<close> (an address divided by 4096), so no
  counter wraps, except in \<open>pmm_free_pages\<close> where the wrap is written out.
\<close>

section \<open>State and bit access\<close>

record pmm =
  bitmap :: "byte list"
  total_pages :: u64
  free_pages :: u64

definition PAGE_SIZE :: nat where
  "PAGE_SIZE = 4096"

definition bitmap_set :: "pmm \<Rightarrow> nat \<Rightarrow> pmm" where
  "bitmap_set p i = p\<lparr>bitmap := (bitmap p)[i div 8 := bitmap p ! (i div 8) OR push_bit (i mod 8) 1]\<rparr>"

definition bitmap_clear :: "pmm \<Rightarrow> nat \<Rightarrow> pmm" where
  "bitmap_clear p i =
     p\<lparr>bitmap := (bitmap p)[i div 8 := bitmap p ! (i div 8) AND NOT (push_bit (i mod 8) 1)]\<rparr>"

definition bitmap_test :: "pmm \<Rightarrow> nat \<Rightarrow> bool" where
  "bitmap_test p i = ((bitmap p ! (i div 8)) AND push_bit (i mod 8) 1 \<noteq> 0)"

section \<open>Operations\<close>

definition pmm_init :: "u64 \<Rightarrow> pmm" where
  "pmm_init mem_size =
     (let total = mem_size div word_of_nat PAGE_SIZE;
          bitmap_size = (unat total + 7) div 8
      in \<lparr>bitmap = replicate bitmap_size 255, total_pages = total, free_pages = 0\<rparr>)"

definition mark_page :: "pmm \<Rightarrow> nat \<Rightarrow> bool \<Rightarrow> pmm" where
  "mark_page p page used =
     (if used then
        (if \<not> bitmap_test p page then
           let p' = bitmap_set p page in
           if free_pages p' > 0 then p'\<lparr>free_pages := free_pages p' - 1\<rparr> else p'
         else p)
      else
        (if bitmap_test p page then
           let p' = bitmap_clear p page in p'\<lparr>free_pages := free_pages p' + 1\<rparr>
         else p))"

function mark_region_from :: "pmm \<Rightarrow> nat \<Rightarrow> nat \<Rightarrow> nat \<Rightarrow> bool \<Rightarrow> pmm" where
  "mark_region_from p start_page page_count i used =
     (if i < page_count \<and> start_page + i < unat (total_pages p)
      then mark_region_from (mark_page p (start_page + i) used) start_page page_count (Suc i) used
      else p)"
  by pat_completeness auto
termination by (relation "measure (\<lambda>(p, s, c, i, u). c - i)") auto

definition pmm_mark_region :: "pmm \<Rightarrow> addr \<Rightarrow> u64 \<Rightarrow> bool \<Rightarrow> pmm" where
  "pmm_mark_region p base len used =
     mark_region_from p (unat base div PAGE_SIZE) (unat len div PAGE_SIZE) 0 used"

text \<open>A returned pointer is the address of the page; 0 is \<open>NULL\<close>.\<close>

function alloc_page_from :: "pmm \<Rightarrow> nat \<Rightarrow> pmm \<times> addr" where
  "alloc_page_from p i =
     (if i < unat (total_pages p) then
        (if \<not> bitmap_test p i then
           (let p' = bitmap_set p i in
            (p'\<lparr>free_pages := free_pages p' - 1\<rparr>, word_of_nat (i * PAGE_SIZE)))
         else alloc_page_from p (Suc i))
      else (p, 0))"
  by pat_completeness auto
termination by (relation "measure (\<lambda>(p, i). unat (total_pages p) - i)") auto

definition pmm_alloc_page :: "pmm \<Rightarrow> pmm \<times> addr" where
  "pmm_alloc_page p = alloc_page_from p 0"

fun set_run :: "pmm \<Rightarrow> nat \<Rightarrow> nat \<Rightarrow> pmm" where
  "set_run p start 0 = p"
| "set_run p start (Suc n) = set_run (bitmap_set p start) (Suc start) n"

function alloc_pages_from :: "pmm \<Rightarrow> u64 \<Rightarrow> nat \<Rightarrow> nat \<Rightarrow> nat \<Rightarrow> pmm \<times> addr" where
  "alloc_pages_from p count i consecutive start_page =
     (if i < unat (total_pages p) then
        (if \<not> bitmap_test p i then
           (let start_page' = (if consecutive = 0 then i else start_page);
                consecutive' = Suc consecutive in
            if consecutive' = unat count then
              (let p' = set_run p start_page' (unat count) in
               (p'\<lparr>free_pages := free_pages p' - count\<rparr>, word_of_nat (start_page' * PAGE_SIZE)))
            else alloc_pages_from p count (Suc i) consecutive' start_page')
         else alloc_pages_from p count (Suc i) 0 start_page)
      else (p, 0))"
  by pat_completeness auto
termination by (relation "measure (\<lambda>(p, c, i, k, s). unat (total_pages p) - i)") auto

definition pmm_alloc_pages :: "pmm \<Rightarrow> u64 \<Rightarrow> pmm \<times> addr" where
  "pmm_alloc_pages p count = (if count = 0 then (p, 0) else alloc_pages_from p count 0 0 0)"

definition free_one :: "pmm \<Rightarrow> nat \<Rightarrow> pmm" where
  "free_one p page =
     (if page < unat (total_pages p) \<and> bitmap_test p page then
        (let p' = bitmap_clear p page in p'\<lparr>free_pages := free_pages p' + 1\<rparr>)
      else p)"

definition pmm_free_page :: "pmm \<Rightarrow> addr \<Rightarrow> pmm" where
  "pmm_free_page p ptr = (if ptr = 0 then p else free_one p (unat ptr div PAGE_SIZE))"

fun free_run :: "pmm \<Rightarrow> u64 \<Rightarrow> nat \<Rightarrow> pmm" where
  "free_run p page 0 = p"
| "free_run p page (Suc n) = free_run (free_one p (unat page)) (page + 1) n"

definition pmm_free_pages :: "pmm \<Rightarrow> addr \<Rightarrow> u64 \<Rightarrow> pmm" where
  "pmm_free_pages p ptr count =
     (if ptr = 0 then p else free_run p (ptr div word_of_nat PAGE_SIZE) (unat count))"

definition pmm_get_free_memory :: "pmm \<Rightarrow> u64" where
  "pmm_get_free_memory p = free_pages p * word_of_nat PAGE_SIZE"

definition pmm_get_total_memory :: "pmm \<Rightarrow> u64" where
  "pmm_get_total_memory p = total_pages p * word_of_nat PAGE_SIZE"

declare mark_region_from.simps [simp del] alloc_page_from.simps [simp del]
  alloc_pages_from.simps [simp del]

section \<open>The bitmap as a set of pages\<close>

definition bitmap_ok :: "pmm \<Rightarrow> bool" where
  "bitmap_ok p \<longleftrightarrow> length (bitmap p) = (unat (total_pages p) + 7) div 8"

definition free_set :: "pmm \<Rightarrow> nat set" where
  "free_set p = {i. i < unat (total_pages p) \<and> \<not> bitmap_test p i}"

lemma finite_free_set [simp]: "finite (free_set p)"
  by (simp add: free_set_def)

lemma bitmap_test_bit: "bitmap_test p i = bit (bitmap p ! (i div 8)) (i mod 8)"
  by (simp add: bitmap_test_def bit_iff_and_push_bit_not_eq_0)

lemma total_pages_bit_ops [simp]:
  "total_pages (bitmap_set p i) = total_pages p" "free_pages (bitmap_set p i) = free_pages p"
  "total_pages (bitmap_clear p i) = total_pages p" "free_pages (bitmap_clear p i) = free_pages p"
  by (simp_all add: bitmap_set_def bitmap_clear_def)

lemma bitmap_test_free_pages [simp]: "bitmap_test (p\<lparr>free_pages := k\<rparr>) i = bitmap_test p i"
  by (simp add: bitmap_test_def)

lemma bitmap_ok_ops [simp]:
  "bitmap_ok (bitmap_set p i) = bitmap_ok p" "bitmap_ok (bitmap_clear p i) = bitmap_ok p"
  "bitmap_ok (p\<lparr>free_pages := k\<rparr>) = bitmap_ok p"
  by (simp_all add: bitmap_ok_def bitmap_set_def bitmap_clear_def)

lemma bitmap_index:
  "bitmap_ok p \<Longrightarrow> i < unat (total_pages p) \<Longrightarrow> i div 8 < length (bitmap p)"
  by (simp add: bitmap_ok_def)

lemma bitmap_test_set [simp]:
  assumes "bitmap_ok p" "i < unat (total_pages p)"
  shows "bitmap_test (bitmap_set p i) j \<longleftrightarrow> j = i \<or> bitmap_test p j"
proof -
  have eq: "j = i" if "i div 8 = j div 8" "i mod 8 = j mod 8"
    using that by (metis mult_div_mod_eq)
  have lt: "i mod 8 < 8" by simp
  show ?thesis
    using bitmap_index [OF assms] eq lt
    by (auto simp: bitmap_test_bit bitmap_set_def nth_list_update bit_simps)
qed

lemma bitmap_test_clear [simp]:
  assumes "bitmap_ok p" "i < unat (total_pages p)"
  shows "bitmap_test (bitmap_clear p i) j \<longleftrightarrow> j \<noteq> i \<and> bitmap_test p j"
proof -
  have eq: "j = i" if "i div 8 = j div 8" "i mod 8 = j mod 8"
    using that by (metis mult_div_mod_eq)
  have lt: "i mod 8 < 8" "j mod 8 < 8" by simp_all
  show ?thesis
    using bitmap_index [OF assms] eq lt
    by (auto simp: bitmap_test_bit bitmap_clear_def nth_list_update bit_simps)
qed

lemma free_set_set: "bitmap_ok p \<Longrightarrow> i < unat (total_pages p) \<Longrightarrow>
    free_set (bitmap_set p i) = free_set p - {i}"
  by (auto simp: free_set_def)

lemma free_set_clear: "bitmap_ok p \<Longrightarrow> i < unat (total_pages p) \<Longrightarrow>
    free_set (bitmap_clear p i) = insert i (free_set p)"
  by (auto simp: free_set_def)

lemma free_set_free_pages [simp]: "free_set (p\<lparr>free_pages := k\<rparr>) = free_set p"
  by (simp add: free_set_def)

section \<open>The accounting invariant\<close>

text \<open>
  The bitmap has a bit for every page, \<open>free_pages\<close> counts the clear bits, and page addresses
  fit in 64 bits.
\<close>

definition pmm_inv :: "pmm \<Rightarrow> bool" where
  "pmm_inv p \<longleftrightarrow> bitmap_ok p \<and> unat (total_pages p) \<le> 2 ^ 52
     \<and> unat (free_pages p) = card (free_set p)"

lemma card_free_set_le: "card (free_set p) \<le> unat (total_pages p)"
proof -
  have "card (free_set p) \<le> card {..<unat (total_pages p)}"
    by (intro card_mono) (auto simp: free_set_def)
  then show ?thesis by simp
qed

text \<open>Taking one free page and giving one back, with the counter.\<close>

definition take_page :: "pmm \<Rightarrow> nat \<Rightarrow> pmm" where
  "take_page p i = (bitmap_set p i)\<lparr>free_pages := free_pages p - 1\<rparr>"

definition give_page :: "pmm \<Rightarrow> nat \<Rightarrow> pmm" where
  "give_page p i = (bitmap_clear p i)\<lparr>free_pages := free_pages p + 1\<rparr>"

lemma free_set_bound: "i \<in> free_set p \<Longrightarrow> i < unat (total_pages p)"
  by (simp add: free_set_def)

lemma take_page_inv:
  assumes "pmm_inv p" "i \<in> free_set p"
  shows "pmm_inv (take_page p i)" and "free_set (take_page p i) = free_set p - {i}"
    and "total_pages (take_page p i) = total_pages p"
proof -
  have i: "i < unat (total_pages p)" using assms(2) by (rule free_set_bound)
  have pos: "0 < unat (free_pages p)"
    using assms by (auto simp: pmm_inv_def card_gt_0_iff)
  then have "unat (free_pages p - 1) = unat (free_pages p) - 1"
    by (metis One_nat_def Suc_leI unat_1 unat_sub word_le_nat_alt)
  with assms i show "pmm_inv (take_page p i)"
    by (auto simp: pmm_inv_def take_page_def free_set_set)
  show "free_set (take_page p i) = free_set p - {i}"
    using assms i by (simp add: take_page_def free_set_set pmm_inv_def)
qed (simp add: take_page_def)

lemma give_page_inv:
  assumes "pmm_inv p" "i < unat (total_pages p)" "bitmap_test p i"
  shows "pmm_inv (give_page p i)" and "free_set (give_page p i) = insert i (free_set p)"
    and "total_pages (give_page p i) = total_pages p"
proof -
  have "i \<notin> free_set p" using assms by (simp add: free_set_def)
  moreover have "unat (free_pages p) < 2 ^ 64 - 1"
    using assms(1) card_free_set_le [of p] by (simp add: pmm_inv_def)
  then have "unat (free_pages p + 1) = Suc (unat (free_pages p))"
    using unat_add_of_nat [of "free_pages p" 1] by simp
  ultimately show "pmm_inv (give_page p i)"
    using assms by (simp add: pmm_inv_def give_page_def free_set_clear)
  show "free_set (give_page p i) = insert i (free_set p)"
    using assms by (simp add: give_page_def free_set_clear pmm_inv_def)
qed (simp add: give_page_def)

lemma mark_page_cases:
  assumes "pmm_inv p" "i < unat (total_pages p)"
  shows "mark_page p i u =
    (if u \<and> i \<in> free_set p then take_page p i
     else if \<not> u \<and> i \<notin> free_set p then give_page p i else p)"
proof -
  have "free_pages p > 0" if "i \<in> free_set p"
    using assms(1) that
    by (metis card_gt_0_iff empty_iff finite_free_set pmm_inv_def unat_gt_0 word_gt_0)
  with assms show ?thesis
    by (auto simp: mark_page_def take_page_def give_page_def Let_def free_set_def)
qed

lemma mark_page_inv:
  assumes "pmm_inv p" "i < unat (total_pages p)"
  shows "pmm_inv (mark_page p i u)"
    and "free_set (mark_page p i u) = (if u then free_set p - {i} else insert i (free_set p))"
    and "total_pages (mark_page p i u) = total_pages p"
  using assms take_page_inv [of p i] give_page_inv [of p i]
  by (auto simp: mark_page_cases free_set_def)

lemma free_one_eq: "free_one p i =
    (if i < unat (total_pages p) \<and> i \<notin> free_set p then give_page p i else p)"
  by (auto simp: free_one_def give_page_def Let_def free_set_def)

lemma free_one_inv:
  assumes "pmm_inv p"
  shows "pmm_inv (free_one p i)" and "total_pages (free_one p i) = total_pages p"
    and "free_set (free_one p i) = (if i < unat (total_pages p) then insert i (free_set p) else free_set p)"
  using assms give_page_inv [of p i] by (auto simp: free_one_eq free_set_def)

lemma free_run_inv: "pmm_inv p \<Longrightarrow> pmm_inv (free_run p page n)"
  by (induction n arbitrary: p page) (auto simp: free_one_inv)

lemma mark_region_from_spec:
  assumes "pmm_inv p"
  shows "pmm_inv (mark_region_from p s c i u)
    \<and> total_pages (mark_region_from p s c i u) = total_pages p
    \<and> free_set (mark_region_from p s c i u) =
       (let r = {k. s + i \<le> k \<and> k < s + c \<and> k < unat (total_pages p)}
        in if u then free_set p - r else free_set p \<union> r)"
  using assms
proof (induction p s c i u rule: mark_region_from.induct)
  case (1 p s c i u)
  show ?case
  proof (cases "i < c \<and> s + i < unat (total_pages p)")
    case True
    have split: "{k. s + i \<le> k \<and> k < s + c \<and> k < unat (total_pages p)} =
        insert (s + i) {k. s + Suc i \<le> k \<and> k < s + c \<and> k < unat (total_pages p)}"
      using True by auto
    show ?thesis
      using "1.IH" [OF True] mark_page_inv [OF "1.prems", of "s + i" u] True
      by (auto simp: mark_region_from.simps [of p s c i u] split Let_def)
  next
    case False
    then have "{k. s + i \<le> k \<and> k < s + c \<and> k < unat (total_pages p)} = {}" by auto
    with False "1.prems" show ?thesis
      by (simp only: mark_region_from.simps [of p s c i u] if_False Let_def) auto
  qed
qed

section \<open>Allocation\<close>

text \<open>The scan for a free page finds the lowest one from its start, or fails when there is none.\<close>

lemma alloc_page_from_spec:
  "(\<exists>j. j \<in> free_set p \<and> i \<le> j \<and> (\<forall>k\<in>free_set p. i \<le> k \<longrightarrow> j \<le> k)
      \<and> alloc_page_from p i = (take_page p j, word_of_nat (j * PAGE_SIZE)))
   \<or> (\<forall>j\<in>free_set p. j < i) \<and> alloc_page_from p i = (p, 0)"
proof (induction p i rule: alloc_page_from.induct)
  case (1 p i)
  show ?case
  proof (cases "i \<in> free_set p")
    case True
    then have "alloc_page_from p i = (take_page p i, word_of_nat (i * PAGE_SIZE))"
      by (simp add: alloc_page_from.simps [of p i] free_set_def take_page_def Let_def)
    with True show ?thesis by blast
  next
    case False
    show ?thesis
    proof (cases "i < unat (total_pages p)")
      case True
      with False have used: "bitmap_test p i" by (simp add: free_set_def)
      have "alloc_page_from p i = alloc_page_from p (Suc i)"
        using True used by (simp add: alloc_page_from.simps [of p i])
      with "1.IH" [OF True] used False show ?thesis
        by (auto simp: Suc_le_eq less_Suc_eq order.strict_iff_order)
    next
      case out: False
      then show ?thesis
        by (auto simp: alloc_page_from.simps [of p i] free_set_def)
    qed
  qed
qed

definition run_free :: "pmm \<Rightarrow> nat \<Rightarrow> nat \<Rightarrow> bool" where
  "run_free p s n \<longleftrightarrow> (\<forall>k<n. s + k \<in> free_set p)"

lemma set_run_spec:
  assumes "bitmap_ok p" "s + n \<le> unat (total_pages p)"
  shows "bitmap_ok (set_run p s n) \<and> total_pages (set_run p s n) = total_pages p
    \<and> free_pages (set_run p s n) = free_pages p
    \<and> free_set (set_run p s n) = free_set p - {s..<s + n}"
  using assms
proof (induction n arbitrary: p s)
  case 0
  then show ?case by simp
next
  case (Suc n)
  then show ?case
    using Suc.IH [of "bitmap_set p s" "Suc s"] by (auto simp: free_set_set)
qed

definition take_run :: "pmm \<Rightarrow> nat \<Rightarrow> u64 \<Rightarrow> pmm" where
  "take_run p s count = (set_run p s (unat count))\<lparr>free_pages := free_pages p - count\<rparr>"

lemma run_free_bound:
  assumes "run_free p s n" "0 < n"
  shows "s + n \<le> unat (total_pages p)"
proof -
  from assms have "s + (n - 1) \<in> free_set p" unfolding run_free_def by (metis diff_less less_one)
  with assms(2) show ?thesis by (auto dest: free_set_bound)
qed

lemma take_run_inv:
  assumes "pmm_inv p" "run_free p s (unat count)" "0 < count"
  shows "pmm_inv (take_run p s count)" and "total_pages (take_run p s count) = total_pages p"
    and "free_set (take_run p s count) = free_set p - {s..<s + unat count}"
proof -
  let ?n = "unat count"
  have n: "0 < ?n" using assms(3) by (simp add: unat_gt_0 word_gt_0)
  have bound: "s + ?n \<le> unat (total_pages p)" using assms(2) n by (rule run_free_bound)
  note spec = set_run_spec [OF _ bound]
  have sub: "{s..<s + ?n} \<subseteq> free_set p"
    using assms(2) by (auto simp: run_free_def) (metis add_diff_inverse_nat add_less_cancel_left not_less)
  then have card: "card (free_set p - {s..<s + ?n}) = card (free_set p) - ?n"
    by (simp add: card_Diff_subset)
  moreover have "?n \<le> card (free_set p)" using sub by (metis card_atLeastLessThan card_mono diff_add_inverse finite_free_set)
  then have "unat (free_pages p - count) = unat (free_pages p) - ?n"
    using assms(1) by (simp add: pmm_inv_def unat_sub word_le_nat_alt)
  ultimately show "pmm_inv (take_run p s count)"
    using assms(1) spec by (auto simp: pmm_inv_def take_run_def)
  show "free_set (take_run p s count) = free_set p - {s..<s + unat count}"
    "total_pages (take_run p s count) = total_pages p"
    using assms(1) spec by (simp_all add: take_run_def pmm_inv_def)
qed

text \<open>
  The scan for \<open>count\<close> consecutive free pages: at index \<open>i\<close> the last \<open>k\<close> pages are free and no
  earlier start has a full run. It finds the lowest run, or there is none.
\<close>

lemma alloc_pages_from_spec:
  assumes "0 < unat count" "k < unat count" "k \<le> i" "0 < k \<Longrightarrow> start = i - k"
    and "\<And>x. i - k \<le> x \<Longrightarrow> x < i \<Longrightarrow> x \<in> free_set p"
    and "\<And>s. s < i - k \<Longrightarrow> \<not> run_free p s (unat count)"
  shows "(\<exists>s. run_free p s (unat count) \<and> (\<forall>t < s. \<not> run_free p t (unat count))
      \<and> alloc_pages_from p count i k start = (take_run p s count, word_of_nat (s * PAGE_SIZE)))
    \<or> (\<forall>s. \<not> run_free p s (unat count)) \<and> alloc_pages_from p count i k start = (p, 0)"
  using assms
proof (induction p count i k start rule: alloc_pages_from.induct)
  case (1 p count i k start)
  let ?c = "unat count" and ?start = "if k = 0 then i else start"
  have start: "?start = i - k" using "1.prems"(4) by (cases k) auto
  note unf = alloc_pages_from.simps [of p count i k start]
  consider (out) "unat (total_pages p) \<le> i" | (full) "i \<in> free_set p" "Suc k = ?c"
    | (more) "i \<in> free_set p" "Suc k \<noteq> ?c" | (used) "i < unat (total_pages p)" "bitmap_test p i"
    unfolding free_set_def by (cases "unat (total_pages p) \<le> i") auto
  then show ?case
  proof cases
    case out
    have "\<not> run_free p s ?c" for s
    proof
      assume run: "run_free p s ?c"
      with "1.prems"(6) have "i - k \<le> s" by (meson not_less)
      with out run_free_bound [OF run "1.prems"(1)] "1.prems"(2,3) show False by linarith
    qed
    with out show ?thesis by (simp add: unf)
  next
    case full
    have "run_free p (i - k) ?c"
      unfolding run_free_def
    proof (intro allI impI)
      fix j assume "j < ?c"
      with full "1.prems"(3) have "i - k + j < i \<or> i - k + j = i" by arith
      with full(1) "1.prems"(5) [of "i - k + j"] show "i - k + j \<in> free_set p" by auto
    qed
    moreover have "alloc_pages_from p count i k start =
        (take_run p (i - k) count, word_of_nat ((i - k) * PAGE_SIZE))"
    proof -
      have "i - k + ?c \<le> unat (total_pages p)"
        using full free_set_bound [of i p] "1.prems"(3) by arith
      moreover have "free_pages (set_run q s n) = free_pages q" for q s n
        by (induction n arbitrary: q s) simp_all
      ultimately show ?thesis
        using full start by (simp add: unf free_set_def take_run_def Let_def)
    qed
    ultimately show ?thesis using "1.prems"(6) by blast
  next
    case more
    then have i: "i < unat (total_pages p)" "\<not> bitmap_test p i" by (simp_all add: free_set_def)
    have free: "x \<in> free_set p" if "Suc i - Suc k \<le> x" "x < Suc i" for x
      using that more(1) "1.prems"(5) [of x] by (cases "x = i") auto
    show ?thesis
      using "1.IH"(1) [OF i refl refl more(2) "1.prems"(1) _ _ _ free] start i more(2) "1.prems"(2,3,6)
      by (auto simp: unf Let_def)
  next
    case used
    have none: "\<not> run_free p s ?c" if "s < Suc i" for s
    proof
      assume run: "run_free p s ?c"
      with "1.prems"(6) have "i - k \<le> s" by (meson not_less)
      then have "i - s < ?c" using "1.prems"(2,3) by arith
      with run that have "s + (i - s) \<in> free_set p" unfolding run_free_def by blast
      with that used show False by (simp add: free_set_def)
    qed
    then show ?thesis
      using "1.IH"(2) [of] used "1.prems"(1) by (simp add: unf)
  qed
qed

lemma pmm_alloc_page_spec:
  "free_set p = {} \<and> pmm_alloc_page p = (p, 0)
   \<or> free_set p \<noteq> {} \<and> pmm_alloc_page p =
       (take_page p (Min (free_set p)), word_of_nat (Min (free_set p) * PAGE_SIZE))"
  using alloc_page_from_spec [of p 0]
proof (elim disjE exE conjE)
  fix j assume j: "j \<in> free_set p" "\<forall>k\<in>free_set p. 0 \<le> k \<longrightarrow> j \<le> k"
    and eq: "alloc_page_from p 0 = (take_page p j, word_of_nat (j * PAGE_SIZE))"
  then have "Min (free_set p) = j" by (intro Min_eqI) auto
  with j eq show ?thesis by (auto simp: pmm_alloc_page_def)
qed (auto simp: pmm_alloc_page_def)

lemma page_address:
  assumes "pmm_inv p" "i < unat (total_pages p)"
  shows "unat (word_of_nat (i * PAGE_SIZE) :: addr) = i * 4096"
proof -
  have "i * 4096 < 2 ^ 64" using assms by (simp add: pmm_inv_def)
  then show ?thesis
    by (simp add: PAGE_SIZE_def unat_of_nat take_bit_nat_eq_self del: of_nat_mult)
qed

lemma clear_take_page:
  assumes "pmm_inv p" "i \<in> free_set p"
  shows "free_one (take_page p i) i = p"
proof -
  have i: "i < unat (total_pages p)" "\<not> bitmap_test p i" and bm: "bitmap_ok p"
    using assms by (auto simp: free_set_def pmm_inv_def)
  let ?b = "bitmap p ! (i div 8)" and ?k = "i mod 8"
  have "\<not> bit ?b ?k" using i by (simp add: bitmap_test_bit)
  then have "(?b OR push_bit ?k 1) AND NOT (push_bit ?k 1) = ?b"
    by (intro bit_word_eqI) (auto simp: bit_simps)
  then have "bitmap_clear (bitmap_set p i) i = p"
    using bitmap_index [OF bm i(1)] by (simp add: bitmap_clear_def bitmap_set_def)
  moreover have "give_page (take_page p i) i =
      (bitmap_clear (bitmap_set p i) i)\<lparr>free_pages := free_pages p\<rparr>"
    by (simp add: give_page_def take_page_def bitmap_clear_def bitmap_set_def)
  ultimately show ?thesis
    using take_page_inv [OF assms] i(1) by (simp add: free_one_eq)
qed

section \<open>The allocator contract\<close>

definition pmm_ready :: "pmm \<Rightarrow> bool" where
  "pmm_ready p \<longleftrightarrow> pmm_inv p \<and> 0 \<notin> free_set p"

definition pmm_avail :: "pmm \<Rightarrow> addr set" where
  "pmm_avail p = (\<lambda>i. word_of_nat (i * PAGE_SIZE)) ` free_set p"

lemma pmm_avail_inj:
  assumes "pmm_inv p"
  shows "inj_on (\<lambda>i. word_of_nat (i * PAGE_SIZE) :: addr) (free_set p)"
  using page_address [OF assms] by (intro inj_onI) (metis free_set_bound mult_cancel2 zero_neq_numeral)

lemma pmm_avail_page:
  assumes "pmm_ready p" "i \<in> free_set p"
  shows "(word_of_nat (i * PAGE_SIZE) :: addr) \<noteq> 0"
proof -
  have "0 < i" using assms by (cases i) (auto simp: pmm_ready_def)
  with page_address [of p i] assms show ?thesis
    by (metis free_set_bound mult_is_0 not_less0 pmm_ready_def unsigned_0 zero_neq_numeral)
qed

lemma take_page_avail:
  assumes "pmm_ready p" "i \<in> free_set p"
  shows "pmm_ready (take_page p i)"
    and "pmm_avail (take_page p i) = pmm_avail p - {word_of_nat (i * PAGE_SIZE)}"
  using assms take_page_inv [of p i] inj_on_image_set_diff [OF pmm_avail_inj, of p "free_set p" "{i}"]
  by (auto simp: pmm_ready_def pmm_avail_def)

interpretation pmm: page_allocator pmm_alloc_page pmm_free_page pmm_avail pmm_ready
proof unfold_locales
  fix p p' a
  assume ok: "pmm_ready p" and al: "pmm_alloc_page p = (p', a)"
  {
    assume "a \<noteq> 0"
    with al pmm_alloc_page_spec [of p] obtain i where i: "i \<in> free_set p" "p' = take_page p i"
      "a = word_of_nat (i * PAGE_SIZE)"
      by (metis Min_in finite_free_set prod.inject)
    then show "a \<in> pmm_avail p \<and> pmm_avail p' = pmm_avail p - {a} \<and> pmm_ready p'"
      using take_page_avail [OF ok i(1)] by (auto simp: pmm_avail_def)
    have "unat a div PAGE_SIZE = i"
      using page_address [of p i] i ok by (simp add: pmm_ready_def free_set_bound PAGE_SIZE_def)
    with i \<open>a \<noteq> 0\<close> ok have "pmm_free_page p' a = p"
      by (simp add: pmm_free_page_def pmm_ready_def clear_take_page)
    with ok show "pmm_avail (pmm_free_page p' a) = pmm_avail p \<and> pmm_ready (pmm_free_page p' a)"
      by simp
  }
next
  fix p p' assume ok: "pmm_ready p" and al: "pmm_alloc_page p = (p', 0)"
  have "free_set p = {}"
  proof (rule ccontr)
    assume ne: "free_set p \<noteq> {}"
    then have "Min (free_set p) \<in> free_set p" by simp
    with ok have "(word_of_nat (Min (free_set p) * PAGE_SIZE) :: addr) \<noteq> 0" by (rule pmm_avail_page)
    with al ne pmm_alloc_page_spec [of p] show False by simp
  qed
  with al pmm_alloc_page_spec [of p] show "pmm_avail p = {} \<and> p' = p" by (simp add: pmm_avail_def)
next
  fix p a assume "pmm_ready p" "a \<in> pmm_avail p"
  then show "a \<noteq> 0 \<and> unat a mod 4096 = 0"
    using page_address [of p] pmm_avail_page [of p]
    by (auto simp: pmm_avail_def pmm_ready_def free_set_bound)
qed

section \<open>Properties\<close>

datatype pmm_call = Mark_region addr u64 bool | Alloc_page | Alloc_pages u64
  | Free_page addr | Free_pages addr u64

fun pmm_step :: "pmm \<Rightarrow> pmm_call \<Rightarrow> pmm" where
  "pmm_step p (Mark_region base len used) = pmm_mark_region p base len used"
| "pmm_step p Alloc_page = fst (pmm_alloc_page p)"
| "pmm_step p (Alloc_pages count) = fst (pmm_alloc_pages p count)"
| "pmm_step p (Free_page ptr) = pmm_free_page p ptr"
| "pmm_step p (Free_pages ptr count) = pmm_free_pages p ptr count"

lemma pmm_alloc_pages_spec:
  assumes "0 < count"
  shows "(\<exists>s. run_free p s (unat count) \<and> (\<forall>t < s. \<not> run_free p t (unat count))
      \<and> pmm_alloc_pages p count = (take_run p s count, word_of_nat (s * PAGE_SIZE)))
    \<or> (\<forall>s. \<not> run_free p s (unat count)) \<and> pmm_alloc_pages p count = (p, 0)"
proof -
  have c: "0 < unat count" using assms by (simp add: unat_gt_0 word_gt_0)
  then have "count \<noteq> 0" by auto
  then show ?thesis using alloc_pages_from_spec [of count 0 0 0 p] c
    by (simp add: pmm_alloc_pages_def)
qed

lemma free_run_total: "total_pages (free_run p page n) = total_pages p"
proof (induction n arbitrary: p page)
  case (Suc n)
  have "total_pages (free_one p (unat page)) = total_pages p"
    by (simp add: free_one_def Let_def)
  with Suc show ?case by simp
qed simp

lemma pmm_step_inv:
  assumes "pmm_inv p"
  shows "pmm_inv (pmm_step p c) \<and> total_pages (pmm_step p c) = total_pages p"
proof (cases c)
  case (Mark_region base len used)
  with mark_region_from_spec [OF assms] show ?thesis by (simp add: pmm_mark_region_def)
next
  case Alloc_page
  with pmm_alloc_page_spec [of p] take_page_inv [OF assms] assms show ?thesis
    by (metis Min_in finite_free_set fst_conv pmm_step.simps(2))
next
  case (Alloc_pages count)
  show ?thesis
  proof (cases "count = 0")
    case True
    with Alloc_pages assms show ?thesis by (simp add: pmm_alloc_pages_def)
  next
    case False
    then have "0 < count" by (simp add: word_gt_0)
    with pmm_alloc_pages_spec [OF this, of p] take_run_inv [OF assms] Alloc_pages assms
    show ?thesis by auto
  qed
next
  case (Free_page ptr)
  with free_one_inv [OF assms] assms show ?thesis by (simp add: pmm_free_page_def)
next
  case (Free_pages ptr count)
  with free_run_inv [OF assms] assms show ?thesis
    by (simp add: pmm_free_pages_def free_run_total)
qed

lemma pmm_init_inv: "pmm_inv (pmm_init mem_size)" "free_set (pmm_init mem_size) = {}"
proof -
  let ?p = "pmm_init mem_size"
  have total: "unat (total_pages ?p) = unat mem_size div 4096"
    by (simp add: pmm_init_def Let_def PAGE_SIZE_def unat_div)
  have bits: "bitmap_test ?p i" if "i < unat (total_pages ?p)" for i
  proof -
    have "i div 8 < (unat (mem_size div 4096) + 7) div 8"
      using that by (simp add: pmm_init_def Let_def PAGE_SIZE_def)
    moreover have "bit (255 :: byte) (i mod 8)"
    proof -
      have "(255 :: byte) = - 1" by simp
      then show ?thesis by (simp only: bit_minus_1_iff) simp
    qed
    ultimately show ?thesis by (simp add: bitmap_test_bit pmm_init_def Let_def PAGE_SIZE_def)
  qed
  then show free: "free_set ?p = {}" by (auto simp: free_set_def)
  show "pmm_inv ?p"
    using free total u64_bound [of mem_size]
    by (simp add: pmm_inv_def bitmap_ok_def pmm_init_def Let_def)
qed

text \<open>
  C1: the free-page count never drifts. After \<open>pmm_init\<close> and any sequence of calls of the
  memory manager, with any arguments, \<open>free_pages\<close> is exactly the number of clear bits among
  the managed pages (so the counter never wraps), and the number of pages is unchanged.
\<close>

theorem pmm_accounting:
  "unat (free_pages (foldl pmm_step (pmm_init mem_size) calls)) =
     card {i. i < unat mem_size div 4096 \<and> \<not> bitmap_test (foldl pmm_step (pmm_init mem_size) calls) i}"
proof -
  have "pmm_inv (foldl pmm_step p calls) \<and> total_pages (foldl pmm_step p calls) = total_pages p"
    if "pmm_inv p" for p
    using that by (induction calls arbitrary: p) (simp_all add: pmm_step_inv)
  from this [OF pmm_init_inv(1)] show ?thesis
    by (simp add: pmm_inv_def free_set_def pmm_init_def Let_def PAGE_SIZE_def unat_div)
qed

text \<open>The memory set-up of \<open>kernel_main\<close>: 128 MB managed, 32 MB from 1 MB on given out.\<close>

definition pmm_boot :: pmm where
  "pmm_boot = pmm_mark_region (pmm_init (128 * 1024 * 1024)) 0x100000 (32 * 1024 * 1024) False"

lemma pmm_mark_region_spec:
  assumes "pmm_inv p"
  shows "pmm_inv (pmm_mark_region p base len used)
    \<and> total_pages (pmm_mark_region p base len used) = total_pages p
    \<and> free_set (pmm_mark_region p base len used) =
       (let r = {k. unat base div 4096 \<le> k \<and> k < unat base div 4096 + unat len div 4096
                  \<and> k < unat (total_pages p)}
        in if used then free_set p - r else free_set p \<union> r)"
  using mark_region_from_spec [OF assms, of "unat base div 4096" "unat len div 4096" 0 used]
  by (simp add: pmm_mark_region_def PAGE_SIZE_def)

lemma pmm_boot_free: "free_set pmm_boot = {256..<8448}" "pmm_inv pmm_boot" "pmm_ready pmm_boot"
proof -
  have total: "unat (total_pages (pmm_init (128 * 1024 * 1024))) = 32768"
    by (simp add: pmm_init_def Let_def PAGE_SIZE_def)
  have "pmm_inv pmm_boot \<and> free_set pmm_boot =
      {k. unat (0x100000 :: u64) div 4096 \<le> k \<and> k < unat (0x100000 :: u64) div 4096 +
        unat (32 * 1024 * 1024 :: u64) div 4096 \<and> k < 32768}"
    unfolding pmm_boot_def
    using pmm_mark_region_spec [OF pmm_init_inv(1) [of "128 * 1024 * 1024"],
        where base = "0x100000" and len = "32 * 1024 * 1024" and used = False]
    by (simp only: total pmm_init_inv(2) Let_def if_False Un_empty_left simp_thms)
  moreover have "unat (0x100000 :: u64) div 4096 = 256"
    and "unat (32 * 1024 * 1024 :: u64) div 4096 = 8192" by simp_all
  ultimately have *: "pmm_inv pmm_boot \<and>
      free_set pmm_boot = {k. 256 \<le> k \<and> k < 256 + 8192 \<and> k < 32768}"
    by (simp only:)
  have "{k :: nat. 256 \<le> k \<and> k < 256 + 8192 \<and> k < 32768} = {256..<8448}"
    by (rule set_eqI) (simp only: mem_Collect_eq atLeastLessThan_iff, linarith)
  with * show free: "free_set pmm_boot = {256..<8448}" and inv: "pmm_inv pmm_boot"
    by (simp_all only:)
  from free inv show "pmm_ready pmm_boot" by (simp add: pmm_ready_def)
qed

text \<open>
  \<open>pmm_alloc_page\<close> returns the lowest free page and marks only that page used, or returns
  \<open>NULL\<close> and changes nothing when no page is free; freeing the page it returned restores the
  memory manager to the state before, byte for byte. (Page 0 must be in use: its address is
  \<open>NULL\<close>.)
\<close>

theorem pmm_alloc_page_lowest:
  assumes "pmm_ready p" and "pmm_alloc_page p = (p', a)"
  shows "if free_set p = {} then a = 0 \<and> p' = p
    else unat a = Min (free_set p) * 4096 \<and> free_set p' = free_set p - {Min (free_set p)}
      \<and> pmm_ready p' \<and> pmm_free_page p' a = p"
proof (cases "free_set p = {}")
  case True
  with assms(2) pmm_alloc_page_spec [of p] show ?thesis by simp
next
  case False
  let ?i = "Min (free_set p)"
  have i: "?i \<in> free_set p" using False by simp
  have inv: "pmm_inv p" using assms(1) by (simp add: pmm_ready_def)
  have p': "p' = take_page p ?i" and a: "a = word_of_nat (?i * PAGE_SIZE)"
    using assms(2) False pmm_alloc_page_spec [of p] by simp_all
  have addr: "unat a = ?i * 4096" using a page_address [OF inv free_set_bound [OF i]] by simp
  have "pmm_free_page p' a = p"
    using pmm_avail_page [OF assms(1) i] clear_take_page [OF inv i] p' a addr
    by (simp add: pmm_free_page_def PAGE_SIZE_def)
  with False addr p' take_page_inv [OF inv i] take_page_avail [OF assms(1) i] show ?thesis by simp
qed

theorem pmm_alloc_page_lowest_witness:
  "unat (snd (pmm_alloc_page pmm_boot)) = 0x100000
   \<and> pmm_free_page (fst (pmm_alloc_page pmm_boot)) (snd (pmm_alloc_page pmm_boot)) = pmm_boot"
proof -
  have "Min {256..<8448::nat} = 256" by (intro Min_eqI) auto
  with pmm_alloc_page_lowest [OF pmm_boot_free(3) surjective_pairing] show ?thesis
    by (simp add: pmm_boot_free)
qed



end
