(* ===== verification/Kheap.thy ===== *)
theory Kheap
  imports CString
begin

text \<open>
  The kernel heap, \<^verbatim>\<open>mem/kheap.c\<close>: a singly linked list of block headers, each 24 bytes
  (\<open>size\<close>, \<open>is_free\<close> and padding, \<open>next\<close>) in front of its payload, first fit with splitting,
  and coalescing of neighbours in \<open>kfree\<close>. Headers live in a store from addresses to
  headers; reading where there is none is undefined behaviour and gives \<^term>\<open>None\<close>, as does a walk
  that never ends.

  The second half is a refinement: a heap whose headers tile its memory is described by the
  list of its blocks (size and free flag), and the pointer code is proved to compute a
  first-fit allocation and a merge on that list.
\<close>

section \<open>State and operations\<close>

record heap_block =
  hb_size :: u64
  hb_free :: bool
  hb_next :: addr

record kheap =
  heap_head :: addr
  hblocks :: "addr \<rightharpoonup> heap_block"

definition BLOCK_HEADER_SIZE :: nat where
  "BLOCK_HEADER_SIZE = 24"

definition kheap_init :: "addr \<Rightarrow> u64 \<Rightarrow> kheap" where
  "kheap_init start initial_size =
     \<lparr>heap_head = start,
      hblocks = [start \<mapsto> \<lparr>hb_size = initial_size - word_of_nat BLOCK_HEADER_SIZE,
                            hb_free = True, hb_next = 0\<rparr>]\<rparr>"

text \<open>The body of the first-fit loop once a block is found: split it if the rest can hold a
  header and 16 bytes, mark it used, return its payload.\<close>

definition take_block :: "kheap \<Rightarrow> addr \<Rightarrow> heap_block \<Rightarrow> u64 \<Rightarrow> kheap \<times> addr" where
  "take_block h cur b sz =
     (let hdr = word_of_nat BLOCK_HEADER_SIZE;
          H = hblocks h;
          H' = (if hb_size b \<ge> sz + hdr + 16 then
                  (let new_block = cur + hdr + sz in
                   H(new_block \<mapsto> \<lparr>hb_size = hb_size b - sz - hdr, hb_free = True,
                                     hb_next = hb_next b\<rparr>,
                     cur \<mapsto> \<lparr>hb_size = sz, hb_free = False, hb_next = new_block\<rparr>))
                else H(cur \<mapsto> b\<lparr>hb_free := False\<rparr>))
      in (h\<lparr>hblocks := H'\<rparr>, cur + hdr))"

partial_function (option) kmalloc_loop :: "kheap \<Rightarrow> addr \<Rightarrow> u64 \<Rightarrow> (kheap \<times> addr) option" where
  "kmalloc_loop h cur sz =
     (if cur = 0 then Some (h, 0)
      else Option.bind (hblocks h cur) (\<lambda>b.
        if hb_free b \<and> hb_size b \<ge> sz then Some (take_block h cur b sz)
        else kmalloc_loop h (hb_next b) sz))"

definition kmalloc :: "kheap \<Rightarrow> u64 \<Rightarrow> (kheap \<times> addr) option" where
  "kmalloc h sz =
     (if sz = 0 then Some (h, 0)
      else kmalloc_loop h (heap_head h) ((sz + 15) AND NOT 15))"

definition kzalloc :: "kheap \<Rightarrow> mem \<Rightarrow> u64 \<Rightarrow> (kheap \<times> mem \<times> addr) option" where
  "kzalloc h m sz =
     Option.bind (kmalloc h sz) (\<lambda>(h', ptr).
       Some (h', if ptr \<noteq> 0 then fst (memset m ptr 0 sz) else m, ptr))"

text \<open>The coalescing loop of \<open>kfree\<close>: merge a free block with its free successor and stay,
  otherwise move on. The absorbed header stays in memory, unlinked.\<close>

partial_function (option) coalesce :: "kheap \<Rightarrow> addr \<Rightarrow> kheap option" where
  "coalesce h cur =
     (if cur = 0 then Some h
      else Option.bind (hblocks h cur) (\<lambda>c.
        if hb_next c = 0 then Some h
        else Option.bind (hblocks h (hb_next c)) (\<lambda>n.
          if hb_free c \<and> hb_free n then
            coalesce (h\<lparr>hblocks := (hblocks h)(cur \<mapsto>
              c\<lparr>hb_size := hb_size c + (word_of_nat BLOCK_HEADER_SIZE + hb_size n),
                hb_next := hb_next n\<rparr>)\<rparr>) cur
          else coalesce h (hb_next c))))"

definition kfree :: "kheap \<Rightarrow> addr \<Rightarrow> kheap option" where
  "kfree h ptr =
     (if ptr = 0 then Some h
      else let block = ptr - word_of_nat BLOCK_HEADER_SIZE in
        Option.bind (hblocks h block) (\<lambda>b.
          coalesce (h\<lparr>hblocks := (hblocks h)(block \<mapsto> b\<lparr>hb_free := True\<rparr>)\<rparr>) (heap_head h)))"

section \<open>The abstract heap\<close>

text \<open>A block is its payload size and whether it is free; the heap is the list of its blocks,
  laid out without gaps from the heap's start.\<close>

type_synonym ablock = "nat \<times> bool"

fun heap_size :: "ablock list \<Rightarrow> nat" where
  "heap_size [] = 0"
| "heap_size ((s, f) # bs) = 24 + s + heap_size bs"

text \<open>First fit; the result holds the new blocks and the payload's offset from the start.\<close>

fun first_fit :: "nat \<Rightarrow> ablock list \<Rightarrow> (ablock list \<times> nat) option" where
  "first_fit n [] = None"
| "first_fit n ((s, f) # bs) =
     (if f \<and> n \<le> s then
        Some (if n + 40 \<le> s then (n, False) # (s - n - 24, True) # bs else (s, False) # bs, 24)
      else map_option (\<lambda>(bs', off). ((s, f) # bs', 24 + s + off)) (first_fit n bs))"

fun merge_free :: "ablock list \<Rightarrow> ablock list" where
  "merge_free [] = []"
| "merge_free [b] = [b]"
| "merge_free ((s, f) # (t, g) # bs) =
     (if f \<and> g then merge_free ((s + 24 + t, True) # bs) else (s, f) # merge_free ((t, g) # bs))"

fun mark_free :: "nat \<Rightarrow> ablock list \<Rightarrow> ablock list" where
  "mark_free off [] = []"
| "mark_free off ((s, f) # bs) =
     (if off = 24 then (s, True) # bs else (s, f) # mark_free (off - (24 + s)) bs)"

text \<open>The payload ranges (first address and size) of the blocks with flag \<open>f\<close>.\<close>

fun ranges :: "bool \<Rightarrow> nat \<Rightarrow> ablock list \<Rightarrow> (nat \<times> nat) set" where
  "ranges f a [] = {}"
| "ranges f a ((s, g) # bs) =
     (if g = f then insert (a + 24, s) (ranges f (a + 24 + s) bs) else ranges f (a + 24 + s) bs)"

fun no_free_pair :: "ablock list \<Rightarrow> bool" where
  "no_free_pair ((s, f) # (t, g) # bs) = (\<not> (f \<and> g) \<and> no_free_pair ((t, g) # bs))"
| "no_free_pair _ = True"

section \<open>Facts about the abstract heap\<close>

lemma first_fit_size: "first_fit n bs = Some (bs', off) \<Longrightarrow> heap_size bs' = heap_size bs \<and> bs' \<noteq> []"
  by (induction n bs arbitrary: bs' off rule: first_fit.induct) (auto split: if_splits)

lemma first_fit_None: "first_fit n bs = None \<longleftrightarrow> (\<forall>(a, s) \<in> ranges True k bs. s < n)"
  by (induction n bs arbitrary: k rule: first_fit.induct) auto

lemma range_bounds: "(x, l) \<in> ranges f a bs \<Longrightarrow> a + 24 \<le> x \<and> x + l \<le> a + heap_size bs"
  by (induction bs arbitrary: a) (force split: if_splits)+

lemma ranges_disjoint:
  "(x, l) \<in> ranges f a bs \<Longrightarrow> (y, k) \<in> ranges g a bs \<Longrightarrow>
    f \<noteq> g \<or> x \<noteq> y \<Longrightarrow> x + l \<le> y \<or> y + k \<le> x"
proof (induction bs arbitrary: a)
  case Nil
  then show ?case by simp
next
  case (Cons b bs)
  obtain s h where b: "b = (s, h)" by fastforce
  from Cons.prems b show ?case
    using Cons.IH [of "a + 24 + s"] range_bounds [of x l f "a + 24 + s" bs]
      range_bounds [of y k g "a + 24 + s" bs]
    by (auto split: if_splits)
qed

lemma ranges_used_first:
  "first_fit n bs = Some (bs', off) \<Longrightarrow>
    \<exists>l\<ge>n. ranges False a bs' = insert (a + off, l) (ranges False a bs)
      \<and> (\<exists>k\<ge>l. (a + off, k) \<in> ranges True a bs) \<and> 24 \<le> off"
proof (induction n bs arbitrary: a bs' off rule: first_fit.induct)
  case (1 n)
  then show ?case by simp
next
  case (2 n s f bs)
  show ?case
  proof (cases "f \<and> n \<le> s")
    case True
    let ?l = "if n + 40 \<le> s then n else s"
    from True "2.prems" have "n \<le> ?l" "?l \<le> s" "off = 24"
      "ranges False a bs' = insert (a + off, ?l) (ranges False a ((s, f) # bs))"
      by (auto simp: ac_simps)
    moreover from True have "(a + 24, s) \<in> ranges True a ((s, f) # bs)" by simp
    ultimately show ?thesis by (metis order_refl)
  next
    case False
    with "2.prems" obtain cs o' where cs: "first_fit n bs = Some (cs, o')"
      "bs' = (s, f) # cs" "off = 24 + s + o'" by auto
    from "2.IH" [OF False cs(1), of "a + 24 + s"] obtain l where
      "l \<ge> n" "ranges False (a + 24 + s) cs = insert (a + 24 + s + o', l) (ranges False (a + 24 + s) bs)"
      "\<exists>k\<ge>l. (a + 24 + s + o', k) \<in> ranges True (a + 24 + s) bs" "24 \<le> o'" by blast
    with cs show ?thesis by (intro exI [of _ l]) (auto simp: add.assoc)
  qed
qed

lemma merge_free_Cons:
  "\<not> (f \<and> bs \<noteq> [] \<and> snd (hd bs)) \<Longrightarrow> merge_free ((s, f) # bs) = (s, f) # merge_free bs"
  by (cases bs) auto

lemma merge_free_id: "no_free_pair bs \<Longrightarrow> merge_free bs = bs"
  by (induction bs rule: no_free_pair.induct) (auto simp: merge_free_Cons)

lemma merge_free_nonempty: "bs \<noteq> [] \<Longrightarrow> merge_free bs \<noteq> []"
  by (induction bs rule: merge_free.induct) auto

lemma merge_free_size: "heap_size (merge_free bs) = heap_size bs"
  by (induction bs rule: merge_free.induct) auto

lemma merge_free_hd: "bs \<noteq> [] \<Longrightarrow> snd (hd (merge_free bs)) = snd (hd bs)"
  by (induction bs rule: merge_free.induct) auto

lemma no_free_pair_Cons:
  "no_free_pair ((s, f) # bs) \<longleftrightarrow> \<not> (f \<and> bs \<noteq> [] \<and> snd (hd bs)) \<and> no_free_pair bs"
  by (cases bs) auto

lemma merge_free_no_pair: "no_free_pair (merge_free bs)"
proof (induction bs rule: merge_free.induct)
  case (3 s f t g bs)
  then show ?case
    using merge_free_hd [of "(t, g) # bs"] by (auto simp: no_free_pair_Cons)
qed auto

lemma merge_free_used: "ranges False a (merge_free bs) = ranges False a bs"
  by (induction bs arbitrary: a rule: merge_free.induct) (auto simp: add.assoc)

section \<open>Headers in memory\<close>

text \<open>The headers from address \<open>a\<close> on are those of the blocks \<open>bs\<close>: each sits right after the
  payload of the one before it and points to it; the last points to NULL.\<close>

definition link :: "nat \<Rightarrow> ablock list \<Rightarrow> addr" where
  "link a bs = (if bs = [] then 0 else word_of_nat a)"

fun chain :: "(addr \<rightharpoonup> heap_block) \<Rightarrow> nat \<Rightarrow> ablock list \<Rightarrow> bool" where
  "chain H a [] = True"
| "chain H a ((s, f) # bs) =
     (H (word_of_nat a) = Some \<lparr>hb_size = word_of_nat s, hb_free = f, hb_next = link (a + 24 + s) bs\<rparr>
      \<and> chain H (a + 24 + s) bs)"

lemma link_simps [simp]:
  "link a [] = 0" "link a (b # bs) = word_of_nat a"
  by (simp_all add: link_def)

lemma chain_cong:
  "(\<And>x. a \<le> unat x \<Longrightarrow> H' x = H x) \<Longrightarrow> a + heap_size bs \<le> 2 ^ 64 \<Longrightarrow>
    chain H' a bs = chain H a bs"
proof (induction bs arbitrary: a)
  case Nil
  then show ?case by simp
next
  case (Cons b bs)
  obtain s f where b: "b = (s, f)" by fastforce
  have "H' (word_of_nat a) = H (word_of_nat a)"
    using Cons.prems b by (simp add: unat_of_nat take_bit_nat_eq_self)
  moreover have "chain H' (a + 24 + s) bs = chain H (a + 24 + s) bs"
    using Cons.prems b by (intro Cons.IH) auto
  ultimately show ?case by (simp add: b)
qed

lemma u64_le_of_nat:
  "n < 2 ^ 64 \<Longrightarrow> s < 2 ^ 64 \<Longrightarrow> (word_of_nat n :: u64) \<le> word_of_nat s \<longleftrightarrow> n \<le> s"
  by (simp add: word_le_nat_alt unat_of_nat take_bit_nat_eq_self)

lemma u64_of_nat_eq_0: "a < 2 ^ 64 \<Longrightarrow> (word_of_nat a :: u64) = 0 \<longleftrightarrow> a = 0"
  by (simp add: word_unat_eq_iff unat_of_nat take_bit_nat_eq_self)

lemma u64_of_nat_neq: "a < 2 ^ 64 \<Longrightarrow> b < 2 ^ 64 \<Longrightarrow> (word_of_nat a :: u64) = word_of_nat b \<longleftrightarrow> a = b"
  by (simp add: word_unat_eq_iff unat_of_nat take_bit_nat_eq_self)

section \<open>The pointer code refines the abstract heap\<close>

lemma take_block_chain:
  assumes ch: "chain H a ((s, True) # bs)" and fit: "n \<le> s"
    and bnd: "a + heap_size ((s, True) # bs) + 40 \<le> 2 ^ 64"
    and hb: "H (word_of_nat a) = Some b"
  obtains H' where
    "take_block \<lparr>heap_head = hd0, hblocks = H\<rparr> (word_of_nat a) b (word_of_nat n) =
       (\<lparr>heap_head = hd0, hblocks = H'\<rparr>, word_of_nat (a + 24))"
    "chain H' a (if n + 40 \<le> s then (n, False) # (s - n - 24, True) # bs else (s, False) # bs)"
    "\<And>x. unat x < a \<Longrightarrow> H' x = H x"
proof -
  have b: "b = \<lparr>hb_size = word_of_nat s, hb_free = True, hb_next = link (a + 24 + s) bs\<rparr>"
    using ch hb by simp
  have ub: "unat (word_of_nat a :: addr) = a" "unat (word_of_nat (a + 24 + n) :: addr) = a + 24 + n"
    using bnd fit by (simp_all add: unat_of_nat take_bit_nat_eq_self del: of_nat_add)
  have rest: "chain H (a + 24 + s) bs" using ch by simp
  have split_iff: "(word_of_nat n + 24 + 16 \<le> (word_of_nat s :: u64)) \<longleftrightarrow> n + 40 \<le> s"
    using u64_le_of_nat [of "n + 40" s] bnd fit by (simp add: add.assoc)
  show thesis
  proof (cases "n + 40 \<le> s")
    case True
    let ?nb = "word_of_nat (a + 24 + n) :: addr"
    let ?new = "\<lparr>hb_size = word_of_nat (s - n - 24), hb_free = True, hb_next = link (a + 24 + s) bs\<rparr>"
    let ?cur = "\<lparr>hb_size = word_of_nat n, hb_free = False, hb_next = ?nb\<rparr>"
    let ?H = "H(?nb \<mapsto> ?new, word_of_nat a \<mapsto> ?cur)"
    have ne: "?nb \<noteq> word_of_nat a"
      using u64_of_nat_neq [of "a + 24 + n" a] bnd fit by (simp del: of_nat_add)
    have "chain ?H (a + 24 + s) bs = chain H (a + 24 + s) bs"
    proof (rule chain_cong)
      fix x :: addr assume "a + 24 + s \<le> unat x"
      then show "?H x = H x" using ub True by auto
    qed (use bnd in simp)
    then have "chain ?H a ((n, False) # (s - n - 24, True) # bs)"
      using rest ne True by (simp add: add.assoc del: of_nat_add)
    moreover have "?H x = H x" if "unat x < a" for x :: addr using that ub by auto
    moreover have "take_block \<lparr>heap_head = hd0, hblocks = H\<rparr> (word_of_nat a) b (word_of_nat n) =
       (\<lparr>heap_head = hd0, hblocks = ?H\<rparr>, word_of_nat (a + 24))"
      using True split_iff
      by (simp add: take_block_def Let_def BLOCK_HEADER_SIZE_def b diff_diff_eq of_nat_diff)
    ultimately show thesis using True by (intro that [of ?H]) auto
  next
    case False
    let ?H = "H(word_of_nat a \<mapsto> b\<lparr>hb_free := False\<rparr>)"
    have "chain ?H (a + 24 + s) bs = chain H (a + 24 + s) bs"
    proof (rule chain_cong)
      fix x :: addr assume "a + 24 + s \<le> unat x"
      then show "?H x = H x" using ub by auto
    qed (use bnd in simp)
    moreover have "?H x = H x" if "unat x < a" for x :: addr using that ub by auto
    moreover have "take_block \<lparr>heap_head = hd0, hblocks = H\<rparr> (word_of_nat a) b (word_of_nat n) =
       (\<lparr>heap_head = hd0, hblocks = ?H\<rparr>, word_of_nat (a + 24))"
      using False split_iff by (simp add: take_block_def Let_def BLOCK_HEADER_SIZE_def b)
    ultimately show thesis using False rest by (intro that [of ?H]) (auto simp: b)
  qed
qed

lemma kmalloc_loop_refines:
  assumes "chain H a bs" "0 < a" "n < 2 ^ 64" "a + heap_size bs + 40 \<le> 2 ^ 64"
  shows "\<exists>H'. kmalloc_loop \<lparr>heap_head = hd0, hblocks = H\<rparr> (link a bs) (word_of_nat n) =
      Some (\<lparr>heap_head = hd0, hblocks = H'\<rparr>,
        case first_fit n bs of None \<Rightarrow> 0 | Some (bs', off) \<Rightarrow> word_of_nat (a + off)) \<and>
    chain H' a (case first_fit n bs of None \<Rightarrow> bs | Some (bs', off) \<Rightarrow> bs') \<and>
    (\<forall>x. unat x < a \<longrightarrow> H' x = H x)"
  using assms
proof (induction bs arbitrary: a)
  case Nil
  then show ?case by (simp add: kmalloc_loop.simps)
next
  case (Cons b bs)
  obtain s f where b: "b = (s, f)" by fastforce
  let ?hb = "\<lparr>hb_size = word_of_nat s, hb_free = f, hb_next = link (a + 24 + s) bs\<rparr>"
  have hb: "H (word_of_nat a) = Some ?hb" using Cons.prems(1) by (simp add: b)
  have a0: "(word_of_nat a :: addr) \<noteq> 0"
    using Cons.prems u64_of_nat_eq_0 [of a] by simp
  have le: "(word_of_nat n :: u64) \<le> word_of_nat s \<longleftrightarrow> n \<le> s"
    using Cons.prems b u64_le_of_nat [of n s] by simp
  show ?case
  proof (cases "f \<and> n \<le> s")
    case True
    with Cons.prems b hb obtain H' where
      "take_block \<lparr>heap_head = hd0, hblocks = H\<rparr> (word_of_nat a) ?hb (word_of_nat n) =
         (\<lparr>heap_head = hd0, hblocks = H'\<rparr>, word_of_nat (a + 24))"
      "chain H' a (if n + 40 \<le> s then (n, False) # (s - n - 24, True) # bs else (s, False) # bs)"
      "\<And>x. unat x < a \<Longrightarrow> H' x = H x"
      using take_block_chain [of H a s bs n ?hb hd0] by auto
    with True le hb a0 show ?thesis
      by (simp add: b kmalloc_loop.simps [of _ "word_of_nat a"])
  next
    case False
    have ch: "chain H (a + 24 + s) bs" using Cons.prems(1) by (simp add: b)
    obtain H' where H':
      "kmalloc_loop \<lparr>heap_head = hd0, hblocks = H\<rparr> (link (a + 24 + s) bs) (word_of_nat n) =
        Some (\<lparr>heap_head = hd0, hblocks = H'\<rparr>,
          case first_fit n bs of None \<Rightarrow> 0 | Some (bs', off) \<Rightarrow> word_of_nat (a + 24 + s + off))"
      "chain H' (a + 24 + s) (case first_fit n bs of None \<Rightarrow> bs | Some (bs', off) \<Rightarrow> bs')"
      "\<forall>x. unat x < a + 24 + s \<longrightarrow> H' x = H x"
      using Cons.IH [OF ch] Cons.prems b by auto
    have "unat (word_of_nat a :: addr) = a"
      using Cons.prems by (simp add: unat_of_nat take_bit_nat_eq_self)
    then have "H' (word_of_nat a) = H (word_of_nat a)" using H'(3) by simp
    moreover have "\<forall>x. unat x < a \<longrightarrow> H' x = H x" using H'(3) by simp
    moreover have "link (a + 24 + s) (case first_fit n bs of None \<Rightarrow> bs | Some (bs', off) \<Rightarrow> bs')
        = link (a + 24 + s) bs"
      by (cases "first_fit n bs"; cases bs) (auto simp: link_def dest: first_fit_size)
    ultimately show ?thesis using False le hb a0 H'
      by (intro exI [of _ H'], cases "first_fit n bs")
        (auto simp: b kmalloc_loop.simps [of _ "word_of_nat a"] add.assoc)
  qed
qed

lemma coalesce_refines:
  assumes "chain H a bs" "0 < a" "a + heap_size bs \<le> 2 ^ 64"
  shows "\<exists>H'. coalesce \<lparr>heap_head = hd0, hblocks = H\<rparr> (link a bs) =
      Some \<lparr>heap_head = hd0, hblocks = H'\<rparr> \<and> chain H' a (merge_free bs) \<and>
    (\<forall>x. unat x < a \<longrightarrow> H' x = H x)"
  using assms
proof (induction bs arbitrary: a H rule: merge_free.induct)
  case 1
  then show ?case by (simp add: coalesce.simps)
next
  case (2 b)
  obtain s f where "b = (s, f)" by fastforce
  with 2 show ?case
    by (auto simp: coalesce.simps [of _ "word_of_nat a"])
next
  case (3 s f t g bs)
  have ua: "unat (word_of_nat a :: addr) = a" "unat (word_of_nat (a + 24 + s) :: addr) = a + 24 + s"
    using 3 by (simp_all add: unat_of_nat take_bit_nat_eq_self del: of_nat_add)
  then have nz: "(word_of_nat a :: addr) \<noteq> 0" "(word_of_nat (a + 24 + s) :: addr) \<noteq> 0"
    using \<open>0 < a\<close> by (metis add_is_0 less_numeral_extra(3) unsigned_0)+
  let ?n = "\<lparr>hb_size = word_of_nat t, hb_free = g, hb_next = link (a + 24 + s + 24 + t) bs\<rparr>"
  let ?c = "\<lparr>hb_size = word_of_nat s, hb_free = f, hb_next = word_of_nat (a + 24 + s)\<rparr>"
  have c: "H (word_of_nat a) = Some ?c" and n: "H (word_of_nat (a + 24 + s)) = Some ?n"
    and rest: "chain H (a + 24 + s + 24 + t) bs" and tail: "chain H (a + 24 + s) ((t, g) # bs)"
    using "3.prems"(1) by (simp_all del: of_nat_add)
  show ?case
  proof (cases "f \<and> g")
    case True
    let ?H = "H(word_of_nat a \<mapsto> \<lparr>hb_size = word_of_nat s + (24 + word_of_nat t), hb_free = True,
        hb_next = link (a + 24 + s + 24 + t) bs\<rparr>)"
    have "chain ?H (a + 24 + s + 24 + t) bs = chain H (a + 24 + s + 24 + t) bs"
    proof (rule chain_cong)
      fix x :: addr assume "a + 24 + s + 24 + t \<le> unat x"
      then show "?H x = H x" using ua by auto
    qed (use "3.prems" in simp)
    then have "chain ?H a ((s + 24 + t, True) # bs)"
      using rest by (simp add: add.assoc)
    from "3.IH"(1) [OF True this] "3.prems" obtain H' where H':
      "coalesce \<lparr>heap_head = hd0, hblocks = ?H\<rparr> (word_of_nat a) = Some \<lparr>heap_head = hd0, hblocks = H'\<rparr>"
      "chain H' a (merge_free ((s + 24 + t, True) # bs))" "\<forall>x. unat x < a \<longrightarrow> H' x = ?H x"
      by (auto simp: add.assoc simp del: fun_upd_apply)
    have "coalesce \<lparr>heap_head = hd0, hblocks = H\<rparr> (word_of_nat a) =
        coalesce \<lparr>heap_head = hd0, hblocks = ?H\<rparr> (word_of_nat a)"
      using True nz c n
      by (subst coalesce.simps) (simp add: BLOCK_HEADER_SIZE_def del: of_nat_add)
    with H' True ua show ?thesis by (intro exI [of _ H']) auto
  next
    case False
    obtain H' where H':
      "coalesce \<lparr>heap_head = hd0, hblocks = H\<rparr> (word_of_nat (a + 24 + s)) =
         Some \<lparr>heap_head = hd0, hblocks = H'\<rparr>"
      "chain H' (a + 24 + s) (merge_free ((t, g) # bs))" "\<forall>x. unat x < a + 24 + s \<longrightarrow> H' x = H x"
      using "3.IH"(2) [OF False tail] "3.prems" by (auto simp del: of_nat_add)
    have "coalesce \<lparr>heap_head = hd0, hblocks = H\<rparr> (word_of_nat a) =
        coalesce \<lparr>heap_head = hd0, hblocks = H\<rparr> (word_of_nat (a + 24 + s))"
      using False nz c n
      by (subst coalesce.simps) (auto simp del: of_nat_add)
    moreover have "merge_free ((s, f) # (t, g) # bs) = (s, f) # merge_free ((t, g) # bs)"
      using False by auto
    moreover have "H' (word_of_nat a) = Some ?c" using H'(3) ua c by simp
    moreover have "link (a + 24 + s) (merge_free ((t, g) # bs)) = word_of_nat (a + 24 + s)"
      using merge_free_nonempty [of "(t, g) # bs"] by (simp add: link_def)
    ultimately show ?thesis using H' by (intro exI [of _ H']) (simp del: of_nat_add)
  qed
qed

section \<open>The heap invariant\<close>

text \<open>The heap from address \<open>a\<close> on has the blocks \<open>bs\<close>; 40 bytes above it are needed so that
  the split test \<open>size + BLOCK_HEADER_SIZE + 16\<close> cannot wrap for a size that fits.\<close>

definition heap_blocks :: "kheap \<Rightarrow> nat \<Rightarrow> ablock list \<Rightarrow> bool" where
  "heap_blocks h a bs \<longleftrightarrow> heap_head h = word_of_nat a \<and> 0 < a \<and> bs \<noteq> [] \<and>
     a + heap_size bs + 40 \<le> 2 ^ 64 \<and> chain (hblocks h) a bs"

definition align16 :: "nat \<Rightarrow> nat" where
  "align16 n = (n + 15) div 16 * 16"

lemma align16_bounds: "n \<le> align16 n" "align16 n < n + 16" "0 < n \<Longrightarrow> 0 < align16 n"
  by (auto simp: align16_def)

lemma and_not_15: "(w :: u64) AND NOT 15 = push_bit 4 (drop_bit 4 w)"
proof -
  have "(15 :: u64) = mask 4" by (simp add: mask_eq_exp_minus_1)
  show ?thesis unfolding \<open>15 = mask 4\<close> by (intro bit_word_eqI) (auto simp: bit_simps)
qed

lemma unat_and_not_15: "unat ((w :: u64) AND NOT 15) = unat w div 16 * 16"
proof -
  have "unat w div 16 * 16 < 2 ^ 64" using u64_bound [of w] by simp
  then show ?thesis
    unfolding and_not_15 by (simp add: push_bit_eq_mult drop_bit_eq_div unat_word_ariths unat_div)
qed

lemma kmalloc_align:
  assumes "unat (sz :: u64) \<le> 2 ^ 64 - 16"
  shows "(sz + 15) AND NOT 15 = word_of_nat (align16 (unat sz))"
proof -
  have u: "unat (sz + 15) = unat sz + 15"
    using assms unat_add_of_nat [of sz 15] by simp
  have "(unat sz + 15) div 16 * 16 < 2 ^ 64" using u64_bound [of "sz + 15"] unfolding u by simp
  moreover have "(sz + 15) AND NOT 15 = word_of_nat (unat ((sz + 15) AND NOT 15))"
    by simp
  ultimately show ?thesis
    unfolding unat_and_not_15 u align16_def by simp
qed

lemma heap_blocks_init:
  assumes "0 < a" "24 \<le> n" "a + n + 40 \<le> 2 ^ 64"
  shows "heap_blocks (kheap_init (word_of_nat a) (word_of_nat n)) a [(n - 24, True)]"
  using assms by (simp add: heap_blocks_def kheap_init_def BLOCK_HEADER_SIZE_def of_nat_diff)

lemma kmalloc_abstract:
  assumes "heap_blocks h a bs" "sz \<noteq> 0" "unat sz \<le> 2 ^ 64 - 16"
  shows "\<exists>h'. kmalloc h sz = Some (h', case first_fit (align16 (unat sz)) bs of
        None \<Rightarrow> 0 | Some (bs', off) \<Rightarrow> word_of_nat (a + off)) \<and>
      heap_blocks h' a (case first_fit (align16 (unat sz)) bs of None \<Rightarrow> bs | Some (bs', off) \<Rightarrow> bs')"
proof -
  let ?n = "align16 (unat sz)"
  have h: "heap_head h = link a bs" "0 < a" "a + heap_size bs + 40 \<le> 2 ^ 64" "chain (hblocks h) a bs"
    and h': "h = \<lparr>heap_head = heap_head h, hblocks = hblocks h\<rparr>"
    using assms(1) by (auto simp: heap_blocks_def link_def)
  show ?thesis
  proof (cases "?n < 2 ^ 64")
    case True
    from kmalloc_loop_refines [OF h(4,2) True h(3), of "heap_head h"] obtain H' where
      "kmalloc_loop h (heap_head h) (word_of_nat ?n) = Some (\<lparr>heap_head = heap_head h, hblocks = H'\<rparr>,
          case first_fit ?n bs of None \<Rightarrow> 0 | Some (bs', off) \<Rightarrow> word_of_nat (a + off))"
      "chain H' a (case first_fit ?n bs of None \<Rightarrow> bs | Some (bs', off) \<Rightarrow> bs')"
      unfolding h'[symmetric] h(1)[symmetric] by blast
    with assms show ?thesis
      unfolding kmalloc_def kmalloc_align [OF assms(3)]
      by (cases "first_fit ?n bs") (auto simp: heap_blocks_def dest: first_fit_size)
  next
    case False
    then show ?thesis using assms(3) by (auto simp: align16_def)
  qed
qed

lemma mark_free_nonempty: "bs \<noteq> [] \<Longrightarrow> mark_free off bs \<noteq> []"
  by (cases bs) (auto split: if_splits)

lemma mark_free_size [simp]: "heap_size (mark_free off bs) = heap_size bs"
  by (induction off bs rule: mark_free.induct) auto

lemma mark_free_chain:
  assumes "chain H a bs" "(p, l) \<in> ranges f a bs" "a + heap_size bs \<le> 2 ^ 64"
  shows "\<exists>b. H (word_of_nat (p - 24)) = Some b \<and>
    chain (H(word_of_nat (p - 24) \<mapsto> b\<lparr>hb_free := True\<rparr>)) a (mark_free (p - a) bs)"
  using assms
proof (induction bs arbitrary: a)
  case Nil
  then show ?case by simp
next
  case (Cons c bs)
  obtain s g where c: "c = (s, g)" by fastforce
  show ?case
  proof (cases "p = a + 24")
    case True
    let ?b = "\<lparr>hb_size = word_of_nat s, hb_free = g, hb_next = link (a + 24 + s) bs\<rparr>"
    have ua: "unat (word_of_nat a :: addr) = a"
      using Cons.prems c by (simp add: unat_of_nat take_bit_nat_eq_self)
    have "chain (H(word_of_nat a \<mapsto> ?b\<lparr>hb_free := True\<rparr>)) (a + 24 + s) bs = chain H (a + 24 + s) bs"
    proof (rule chain_cong)
      fix x :: addr assume "a + 24 + s \<le> unat x"
      then show "(H(word_of_nat a \<mapsto> ?b\<lparr>hb_free := True\<rparr>)) x = H x" using ua by auto
    qed (use Cons.prems c in simp)
    then show ?thesis using Cons.prems c True
      by (intro exI [of _ ?b]) (simp del: fun_upd_apply add: fun_upd_same)
  next
    case False
    then have p: "(p, l) \<in> ranges f (a + 24 + s) bs" using Cons.prems(2) c by (auto split: if_splits)
    then have le: "a + 24 + s + 24 \<le> p" "p + l \<le> a + 24 + s + heap_size bs"
      using range_bounds by blast+
    from Cons.IH [of "a + 24 + s"] p Cons.prems c obtain b where b:
      "H (word_of_nat (p - 24)) = Some b"
      "chain (H(word_of_nat (p - 24) \<mapsto> b\<lparr>hb_free := True\<rparr>)) (a + 24 + s) (mark_free (p - (a + 24 + s)) bs)"
      by (auto simp del: fun_upd_apply)
    have ne: "(word_of_nat a :: addr) \<noteq> word_of_nat (p - 24)"
      using le Cons.prems c by (subst u64_of_nat_neq) auto
    have "mark_free (p - a) (c # bs) = c # mark_free (p - (a + 24 + s)) bs"
    proof -
      have "p - a \<noteq> 24" "p - a - (24 + s) = p - (a + 24 + s)" using le by simp_all
      then show ?thesis by (simp add: c)
    qed
    moreover have "link (a + 24 + s) (mark_free (p - (a + 24 + s)) bs) = link (a + 24 + s) bs"
      using mark_free_nonempty [of bs] by (cases bs) (auto simp: link_def)
    ultimately show ?thesis using b ne Cons.prems(1)
      by (intro exI [of _ b]) (simp add: c fun_upd_other del: fun_upd_apply)
  qed
qed

lemma kfree_abstract:
  assumes h: "heap_blocks h a bs" and p: "(p, l) \<in> ranges f a bs"
  shows "\<exists>h'. kfree h (word_of_nat p) = Some h' \<and> heap_blocks h' a (merge_free (mark_free (p - a) bs))"
proof -
  let ?bs = "mark_free (p - a) bs"
  have hb: "heap_head h = word_of_nat a" "0 < a" "bs \<noteq> []" "a + heap_size bs + 40 \<le> 2 ^ 64"
    "chain (hblocks h) a bs" using h by (auto simp: heap_blocks_def)
  have pb: "a + 24 \<le> p" "p + l \<le> a + heap_size bs" using range_bounds p by blast+
  then have p0: "(word_of_nat p :: addr) \<noteq> 0" using hb u64_of_nat_eq_0 [of p] by simp
  obtain b where b: "hblocks h (word_of_nat (p - 24)) = Some b"
    "chain ((hblocks h)(word_of_nat (p - 24) \<mapsto> b\<lparr>hb_free := True\<rparr>)) a ?bs"
    using mark_free_chain [OF hb(5) p] hb(4) by auto
  have pm: "word_of_nat p - 24 = (word_of_nat (p - 24) :: addr)"
    using pb by (simp add: of_nat_diff)
  have hd: "word_of_nat a = link a ?bs"
    using mark_free_nonempty [OF hb(3)] by (simp add: link_def)
  from coalesce_refines [OF b(2) hb(2), of "word_of_nat a"] hb(4) obtain H' where
    "coalesce \<lparr>heap_head = word_of_nat a, hblocks = (hblocks h)(word_of_nat (p - 24) \<mapsto> b\<lparr>hb_free := True\<rparr>)\<rparr>
       (link a ?bs) = Some \<lparr>heap_head = word_of_nat a, hblocks = H'\<rparr>"
    "chain H' a (merge_free ?bs)" by auto
  moreover have "kfree h (word_of_nat p) = coalesce \<lparr>heap_head = word_of_nat a,
      hblocks = (hblocks h)(word_of_nat (p - 24) \<mapsto> b\<lparr>hb_free := True\<rparr>)\<rparr> (link a ?bs)"
    using p0 b(1) hb(1) hd by (cases h) (simp add: kfree_def BLOCK_HEADER_SIZE_def pm)
  ultimately show ?thesis
    using hb mark_free_nonempty [OF hb(3), of "p - a"] merge_free_nonempty [of ?bs]
    by (intro exI [of _ "\<lparr>heap_head = word_of_nat a, hblocks = H'\<rparr>"])
      (simp add: heap_blocks_def merge_free_size)
qed

lemma mark_free_used:
  "(p, l) \<in> ranges False a bs \<Longrightarrow>
    ranges False a (mark_free (p - a) bs) = ranges False a bs - {(p, l)}"
proof (induction bs arbitrary: a)
  case Nil
  then show ?case by simp
next
  case (Cons c bs)
  obtain s g where c: "c = (s, g)" by fastforce
  have above: "a + 24 + s + 24 \<le> x" if "(x, k) \<in> ranges False (a + 24 + s) bs" for x k
    using range_bounds that by blast
  show ?case
  proof (cases "p = a + 24")
    case True
    with Cons.prems above [of p l] have "\<not> g" "l = s" by (auto simp: c split: if_splits)
    with True above [of "a + 24" s] show ?thesis by (auto simp: c)
  next
    case False
    with Cons.prems have p: "(p, l) \<in> ranges False (a + 24 + s) bs" by (auto simp: c split: if_splits)
    then have "p - a \<noteq> 24" "p - a - (24 + s) = p - (a + 24 + s)" using above [OF p] by simp_all
    with Cons.IH [OF p] False show ?thesis by (auto simp: c)
  qed
qed

text \<open>Giving back what a first fit handed out restores the list of blocks, provided no two
  neighbours were free before.\<close>

lemma first_fit_mark_free:
  "first_fit n bs = Some (bs', off) \<Longrightarrow> no_free_pair bs \<Longrightarrow> merge_free (mark_free off bs') = bs"
proof (induction n bs arbitrary: bs' off rule: first_fit.induct)
  case (1 n)
  then show ?case by simp
next
  case (2 n s f bs)
  have rest: "merge_free bs = bs" "\<not> (f \<and> bs \<noteq> [] \<and> snd (hd bs))" "no_free_pair bs"
    using "2.prems"(2) by (auto simp: no_free_pair_Cons merge_free_id)
  show ?case
  proof (cases "f \<and> n \<le> s")
    case True
    with "2.prems"(1) rest show ?thesis
      by (cases "n + 40 \<le> s") (auto simp: merge_free_Cons)
  next
    case False
    with "2.prems" obtain cs o' where cs: "first_fit n bs = Some (cs, o')"
      "bs' = (s, f) # cs" "off = 24 + s + o'" by auto
    have IH: "merge_free (mark_free o' cs) = bs" using "2.IH" [OF False cs(1) rest(3)] .
    have "24 \<le> o'" using ranges_used_first [OF cs(1), of 0] by blast
    then have "mark_free off bs' = (s, f) # mark_free o' cs" using cs by simp
    moreover have "\<not> (f \<and> mark_free o' cs \<noteq> [] \<and> snd (hd (mark_free o' cs)))"
      using rest(2) IH merge_free_hd [of "mark_free o' cs"] merge_free_nonempty [of "mark_free o' cs"]
      by auto
    ultimately show ?thesis using IH by (simp add: merge_free_Cons)
  qed
qed

section \<open>Properties\<close>



text \<open>C4: freeing a block in use returns, removes exactly that block from the blocks in use,
  leaves no two free neighbours, and keeps the heap's extent.\<close>

theorem kfree_coalesces:
  assumes "heap_blocks h a bs" "(p, l) \<in> ranges False a bs"
  shows "\<exists>h' bs'. kfree h (word_of_nat p) = Some h' \<and> heap_blocks h' a bs' \<and> no_free_pair bs' \<and>
    heap_size bs' = heap_size bs \<and> ranges False a bs' = ranges False a bs - {(p, l)}"
  using kfree_abstract [OF assms] mark_free_used [OF assms(2)]
    merge_free_no_pair [of "mark_free (p - a) bs"]
  by (metis mark_free_size merge_free_size merge_free_used)

lemma kheap_example:
  obtains h where "kmalloc (kheap_init 4096 4096) 100 = Some (h, 4120)"
    "heap_blocks h 4096 [(112, False), (3936, True)]"
  using kmalloc_abstract [of "kheap_init 4096 4096" 4096 "[(4072, True)]" 100]
    heap_blocks_init [of 4096 4096] by (auto simp: align16_def)

theorem kfree_coalesces_witness:
  "\<exists>h h' bs'. kmalloc (kheap_init 4096 4096) 100 = Some (h, 4120) \<and>
    kfree h (word_of_nat 4120) = Some h' \<and> heap_blocks h' 4096 bs' \<and> no_free_pair bs' \<and>
    heap_size bs' = heap_size [(112, False), (3936, True)] \<and>
    ranges False 4096 bs' = ranges False 4096 [(112, False), (3936, True)] - {(4120, 112)}"
proof -
  obtain h where h: "kmalloc (kheap_init 4096 4096) 100 = Some (h, 4120)"
    "heap_blocks h 4096 [(112, False), (3936, True)]" by (rule kheap_example)
  have "(4120, 112) \<in> ranges False 4096 [(112, False), (3936, True)]" by simp
  from kfree_coalesces [OF h(2) this] h(1) show ?thesis by blast
qed

text \<open>Freeing what \<open>kmalloc\<close> just returned restores the block list, when no two neighbours
  were free before.\<close>

theorem kmalloc_kfree:
  assumes "heap_blocks h a bs" "no_free_pair bs" "sz \<noteq> 0" "unat sz \<le> 2 ^ 64 - 16"
    and "kmalloc h sz = Some (h', p)" "p \<noteq> 0"
  shows "\<exists>h''. kfree h' p = Some h'' \<and> heap_blocks h'' a bs"
proof -
  obtain bs' off where r: "first_fit (align16 (unat sz)) bs = Some (bs', off)"
    and p: "p = word_of_nat (a + off)" and h': "heap_blocks h' a bs'"
    using kmalloc_abstract [OF assms(1,3,4)] assms(5,6) by (auto split: option.splits)
  obtain l where "(a + off, l) \<in> ranges False a bs'" "24 \<le> off"
    using ranges_used_first [OF r, of a] by blast
  from kfree_abstract [OF h' this(1)] show ?thesis
    using first_fit_mark_free [OF r assms(2)] by (simp add: p)
qed

theorem kmalloc_kfree_witness:
  "\<exists>h h''. kmalloc (kheap_init 4096 4096) 100 = Some (h, 4120) \<and> kfree h 4120 = Some h'' \<and>
    heap_blocks h'' 4096 [(4072, True)]"
proof -
  obtain h where h: "kmalloc (kheap_init 4096 4096) 100 = Some (h, 4120)" by (rule kheap_example)
  have "heap_blocks (kheap_init 4096 4096) 4096 [(4072, True)]"
    using heap_blocks_init [of 4096 4096] by simp
  from kmalloc_kfree [OF this _ _ _ h] h show ?thesis by auto
qed

text \<open>A size above \<open>2 ^ 64 - 16\<close> wraps to 0 when it is rounded up, so on a fresh heap
  \<open>kmalloc\<close> answers it with a block of no bytes instead of NULL.\<close>

theorem kmalloc_size_wraps:
  assumes "2 ^ 64 - 16 < unat sz" "0 < a" "64 \<le> n" "a + n + 40 \<le> 2 ^ 64"
  shows "\<exists>h'. kmalloc (kheap_init (word_of_nat a) (word_of_nat n)) sz = Some (h', word_of_nat (a + 24)) \<and>
    heap_blocks h' a [(0, False), (n - 48, True)]"
proof -
  let ?h = "kheap_init (word_of_nat a) (word_of_nat n)"
  have h: "heap_blocks ?h a [(n - 24, True)]" using assms by (intro heap_blocks_init) auto
  have "unat (sz + 15) < 16"
    using assms(1) u64_bound [of sz] by (simp add: unat_word_ariths le_mod_geq)
  then have "unat ((sz + 15) AND NOT 15) = 0" unfolding unat_and_not_15 by simp
  then have z: "(sz + 15) AND NOT 15 = word_of_nat 0" unfolding semiring_1_class.of_nat_0 unat_eq_0 .
  have "chain (hblocks ?h) a [(n - 24, True)]" using h by (simp add: heap_blocks_def)
  moreover have "first_fit 0 [(n - 24, True)] = Some ([(0, False), (n - 48, True)], 24)"
    using assms by auto
  ultimately obtain H' where
    "kmalloc_loop ?h (word_of_nat a) 0 = Some (\<lparr>heap_head = word_of_nat a, hblocks = H'\<rparr>, word_of_nat (a + 24))"
    "chain H' a [(0, False), (n - 48, True)]"
    using kmalloc_loop_refines [of "hblocks ?h" a "[(n - 24, True)]" 0 "word_of_nat a"] assms
    by (simp add: kheap_init_def del: chain.simps) blast
  moreover have "sz \<noteq> 0" "heap_head ?h = word_of_nat a" using assms(1) by (auto simp: kheap_init_def)
  ultimately show ?thesis using assms
    unfolding kmalloc_def z by (auto simp: heap_blocks_def)
qed

theorem kmalloc_size_wraps_witness:
  "\<exists>h'. kmalloc (kheap_init 4096 4096) (- 1) = Some (h', 4120) \<and>
    heap_blocks h' 4096 [(0, False), (4048, True)]"
proof -
  have "unat (- 1 :: u64) = 2 ^ 64 - 1" by (simp add: unsigned_minus_1_eq_mask mask_eq_exp_minus_1)
  then show ?thesis using kmalloc_size_wraps [of "- 1" 4096 4096] by simp
qed

end
