(* ===== verification/Io.thy ===== *)
theory Io
  imports Prelude
begin

text \<open>
  Port input and output, \<^verbatim>\<open>include/io.h\<close>. What the drivers do to the hardware is the list of
  port accesses they make, in order; what the hardware answers is a parameter: a function of
  the accesses made so far and the port read, so that a device may keep any state it likes.
\<close>

datatype io_event =
    Outb u16 byte | Inb u16 byte
  | Outw u16 u16 | Inw u16 u16
  | Outl u16 u32 | Inl u16 u32
  | Cli | Sti | Hlt

type_synonym io_trace = "io_event list"

text \<open>The devices behind the ports.\<close>

record devices =
  in8 :: "io_trace \<Rightarrow> u16 \<Rightarrow> byte"
  in16 :: "io_trace \<Rightarrow> u16 \<Rightarrow> u16"
  in32 :: "io_trace \<Rightarrow> u16 \<Rightarrow> u32"

definition outb :: "u16 \<Rightarrow> byte \<Rightarrow> io_trace \<Rightarrow> io_trace" where
  "outb port v t = t @ [Outb port v]"

definition inb :: "devices \<Rightarrow> u16 \<Rightarrow> io_trace \<Rightarrow> byte \<times> io_trace" where
  "inb dv port t = (let v = in8 dv t port in (v, t @ [Inb port v]))"

definition outw :: "u16 \<Rightarrow> u16 \<Rightarrow> io_trace \<Rightarrow> io_trace" where
  "outw port v t = t @ [Outw port v]"

definition inw :: "devices \<Rightarrow> u16 \<Rightarrow> io_trace \<Rightarrow> u16 \<times> io_trace" where
  "inw dv port t = (let v = in16 dv t port in (v, t @ [Inw port v]))"

definition outl :: "u16 \<Rightarrow> u32 \<Rightarrow> io_trace \<Rightarrow> io_trace" where
  "outl port v t = t @ [Outl port v]"

definition inl :: "devices \<Rightarrow> u16 \<Rightarrow> io_trace \<Rightarrow> u32 \<times> io_trace" where
  "inl dv port t = (let v = in32 dv t port in (v, t @ [Inl port v]))"

definition io_wait :: "io_trace \<Rightarrow> io_trace" where
  "io_wait t = outb 0x80 0 t"

definition cli :: "io_trace \<Rightarrow> io_trace" where
  "cli t = t @ [Cli]"

definition sti :: "io_trace \<Rightarrow> io_trace" where
  "sti t = t @ [Sti]"

definition hlt :: "io_trace \<Rightarrow> io_trace" where
  "hlt t = t @ [Hlt]"

lemmas io_defs = outb_def inb_def outw_def inw_def outl_def inl_def io_wait_def cli_def sti_def hlt_def

section \<open>What a trace wrote to a port\<close>

fun written :: "u16 \<Rightarrow> io_trace \<Rightarrow> byte list" where
  "written port [] = []"
| "written port (Outb p v # t) = (if p = port then v # written port t else written port t)"
| "written port (_ # t) = written port t"

lemma written_append [simp]: "written port (t @ u) = written port t @ written port u"
  by (induction port t rule: written.induct) auto

lemma written_outb: "written port (outb p v t) = written port t @ (if p = port then [v] else [])"
  by (simp add: outb_def)

lemma written_inb [simp]: "written port (snd (inb dv p t)) = written port t"
  by (simp add: inb_def Let_def)

end
