(* ===== verification/Bounded_Queue.thy ===== *)
theory Bounded_Queue
  imports Main
begin

text \<open>
  The interface of a bounded queue that drops what does not fit: the contract between a
  producer that must never block (an interrupt handler) and its reader.
\<close>

text \<open>Operations on a queue: \<^term>\<open>Some c\<close> puts \<open>c\<close>, \<^term>\<open>None\<close> takes one element if there is one.
  The list version is the specification.\<close>

fun list_run :: "nat \<Rightarrow> 'c list \<Rightarrow> 'c option list \<Rightarrow> 'c list \<times> 'c list" where
  "list_run cap q [] = ([], q)"
| "list_run cap q (Some c # ops) = list_run cap (if length q < cap then q @ [c] else q) ops"
| "list_run cap [] (None # ops) = list_run cap [] ops"
| "list_run cap (x # q) (None # ops) = (case list_run cap q ops of (out, r) \<Rightarrow> (x # out, r))"

fun queue_run :: "('s \<Rightarrow> 'c \<Rightarrow> 's) \<Rightarrow> ('s \<Rightarrow> 'c \<times> 's) \<Rightarrow> ('s \<Rightarrow> bool) \<Rightarrow> 's \<Rightarrow> 'c option list \<Rightarrow> 'c list \<times> 's" where
  "queue_run put get nonempty s [] = ([], s)"
| "queue_run put get nonempty s (Some c # ops) = queue_run put get nonempty (put s c) ops"
| "queue_run put get nonempty s (None # ops) =
     (if nonempty s then
        (case get s of (c, s') \<Rightarrow> case queue_run put get nonempty s' ops of (out, r) \<Rightarrow> (c # out, r))
      else queue_run put get nonempty s ops)"

lemma list_run_puts: "list_run cap q (map Some cs) = ([], q @ List.take (cap - length q) cs)"
proof (induction cs arbitrary: q)
  case Nil
  then show ?case by simp
next
  case (Cons c cs)
  show ?case
  proof (cases "length q < cap")
    case True
    then have "cap - length q = Suc (cap - Suc (length q))" by simp
    with True Cons show ?thesis by simp
  next
    case False
    with Cons show ?thesis by simp
  qed
qed

text \<open>While the queue never holds more than its capacity, nothing is lost and the order is kept:
  what came out followed by what is left is what was there followed by what was put.\<close>

lemma list_run_fifo:
  "list_run cap q ops = (out, r) \<Longrightarrow> length q + length (filter (\<lambda>x. x \<noteq> None) ops) \<le> cap \<Longrightarrow>
    out @ r = q @ map the (filter (\<lambda>x. x \<noteq> None) ops)"
  by (induction cap q ops arbitrary: out r rule: list_run.induct) (auto split: prod.splits)

locale bounded_queue =
  fixes put :: "'s \<Rightarrow> 'c \<Rightarrow> 's"
    and get :: "'s \<Rightarrow> 'c \<times> 's"
    and nonempty :: "'s \<Rightarrow> bool"
    and contents :: "'s \<Rightarrow> 'c list"
    and ok :: "'s \<Rightarrow> bool"
    and cap :: nat
  assumes put_ok: "ok s \<Longrightarrow> ok (put s c)"
    and put_contents: "ok s \<Longrightarrow>
      contents (put s c) = (if length (contents s) < cap then contents s @ [c] else contents s)"
    and nonempty_iff: "ok s \<Longrightarrow> nonempty s \<longleftrightarrow> contents s \<noteq> []"
    and get_head: "ok s \<Longrightarrow> contents s = c # cs \<Longrightarrow>
      fst (get s) = c \<and> contents (snd (get s)) = cs \<and> ok (snd (get s))"
    and cap_bound: "ok s \<Longrightarrow> length (contents s) \<le> cap"
begin

lemma get_cases:
  assumes "ok s" "contents s \<noteq> []"
  obtains s' where "get s = (hd (contents s), s')" "contents s' = tl (contents s)" "ok s'"
  using get_head [of s "hd (contents s)" "tl (contents s)"] assms
  by (cases "get s") (auto simp: neq_Nil_conv)

theorem run_refines:
  "ok s \<Longrightarrow> fst (queue_run put get nonempty s ops) = fst (list_run cap (contents s) ops) \<and>
    contents (snd (queue_run put get nonempty s ops)) = snd (list_run cap (contents s) ops) \<and>
    ok (snd (queue_run put get nonempty s ops))"
proof (induction ops arbitrary: s)
  case Nil
  then show ?case by simp
next
  case (Cons op ops)
  show ?case
  proof (cases op)
    case (Some c)
    then show ?thesis
      using Cons.IH [of "put s c"] put_ok [OF Cons.prems] put_contents [OF Cons.prems] by simp
  next
    case None
    show ?thesis
    proof (cases "contents s = []")
      case True
      then show ?thesis using None Cons nonempty_iff [OF Cons.prems] by simp
    next
      case False
      obtain s' where s': "get s = (hd (contents s), s')" "contents s' = tl (contents s)" "ok s'"
        by (rule get_cases [OF Cons.prems False])
      obtain c cs where c: "contents s = c # cs" using False by (cases "contents s") auto
      show ?thesis
        using None c s' Cons.IH [OF s'(3)] nonempty_iff [OF Cons.prems]
        by (auto split: prod.splits)
    qed
  qed
qed

end

end
