(* ===== verification/Keyboard.thy ===== *)
theory Keyboard
  imports Io Bounded_Queue
begin

text \<open>
  The PS/2 keyboard driver, \<^verbatim>\<open>drivers/keyboard.c\<close>: the interrupt handler turns scancodes into
  characters and puts them in a ring buffer of 256 slots, of which 255 can be in use; the
  reader takes them out, and \<open>keyboard_readline\<close> edits a line.

  The ring buffer is proved to implement a bounded queue, stated as a locale; what a reader
  sees for a sequence of interrupts and reads is proved once for any such queue.
\<close>

section \<open>State and scancode tables\<close>

definition KBD_BUFFER_SIZE :: int where
  "KBD_BUFFER_SIZE = 256"

record kbd =
  kbd_buffer :: "char list"
  kbd_head :: int
  kbd_tail :: int
  shift_pressed :: bool

definition kbd_start :: kbd where
  "kbd_start = \<lparr>kbd_buffer = replicate 256 (CHR 0x00), kbd_head = 0, kbd_tail = 0,
     shift_pressed = False\<rparr>"

text \<open>Entries the initialiser leaves out are 0.\<close>

definition table128 :: "char list \<Rightarrow> char list" where
  "table128 cs = cs @ replicate (128 - length cs) (CHR 0x00)"

definition kbd_scancodes :: "char list" where
  "kbd_scancodes = table128
     ([CHR 0x00, CHR 0x1B] @ ''1234567890-='' @ [CHR 0x08] @
      [CHR 0x09] @ ''qwertyuiop[]'' @ [CHR 0x0A] @
      [CHR 0x00] @
      ''asdfghjkl;'' @ [CHR 0x27, CHR 0x60] @
      [CHR 0x00] @
      [CHR 0x5C] @ ''zxcvbnm,./'' @
      [CHR 0x00] @
      ''*'' @
      [CHR 0x00] @
      '' '' @
      [CHR 0x00])"

definition kbd_scancodes_shift :: "char list" where
  "kbd_scancodes_shift = table128
     ([CHR 0x00, CHR 0x1B] @ ''!@#$%^&*()_+'' @ [CHR 0x08] @
      [CHR 0x09] @ ''QWERTYUIOP{}'' @ [CHR 0x0A] @
      [CHR 0x00] @
      ''ASDFGHJKL:'' @ [CHR 0x22, CHR 0x7E] @
      [CHR 0x00] @
      ''|ZXCVBNM<>?'' @
      [CHR 0x00] @
      ''*'' @
      [CHR 0x00] @
      '' '' @
      [CHR 0x00])"

section \<open>Operations\<close>

definition kbd_put :: "kbd \<Rightarrow> char \<Rightarrow> kbd" where
  "kbd_put k c =
     (let next = (kbd_head k + 1) mod KBD_BUFFER_SIZE in
      if next \<noteq> kbd_tail k
      then k\<lparr>kbd_buffer := (kbd_buffer k)[nat (kbd_head k) := c], kbd_head := next\<rparr>
      else k)"

text \<open>The handler; its argument is the byte \<^verbatim>\<open>inb(0x60)\<close> returned.\<close>

definition keyboard_interrupt_handler :: "byte \<Rightarrow> kbd \<Rightarrow> kbd" where
  "keyboard_interrupt_handler scancode k =
     (if scancode = 0x2A \<or> scancode = 0x36 then k\<lparr>shift_pressed := True\<rparr>
      else if scancode = 0xAA \<or> scancode = 0xB6 then k\<lparr>shift_pressed := False\<rparr>
      else if scancode AND 0x80 \<noteq> 0 then k
      else if scancode < 128 then
        (let c = (if shift_pressed k then kbd_scancodes_shift ! unat scancode
                  else kbd_scancodes ! unat scancode) in
         if c \<noteq> CHR 0x00 then kbd_put k c else k)
      else k)"

definition keyboard_has_char :: "kbd \<Rightarrow> bool" where
  "keyboard_has_char k = (kbd_head k \<noteq> kbd_tail k)"

definition kbd_take :: "kbd \<Rightarrow> char \<times> kbd" where
  "kbd_take k =
     (kbd_buffer k ! nat (kbd_tail k), k\<lparr>kbd_tail := (kbd_tail k + 1) mod KBD_BUFFER_SIZE\<rparr>)"

text \<open>\<open>keyboard_getchar\<close> halts until an interrupt brings a character. The second argument lists
  the scancodes that arrive while the processor is halted, one per \<^verbatim>\<open>hlt\<close>; \<^term>\<open>None\<close> means that
  it still waits after the last of them.\<close>

fun keyboard_getchar :: "kbd \<Rightarrow> byte list \<Rightarrow> (char \<times> kbd \<times> byte list) option" where
  "keyboard_getchar k irqs =
     (if keyboard_has_char k then (case kbd_take k of (c, k') \<Rightarrow> Some (c, k', irqs))
      else (case irqs of
          [] \<Rightarrow> None
        | s # rest \<Rightarrow> keyboard_getchar (keyboard_interrupt_handler s k) rest))"

declare keyboard_getchar.simps [simp del]

text \<open>\<open>keyboard_readline\<close>: \<open>buf\<close> is the part of the caller's buffer written so far
  (its length is \<open>idx\<close>), \<open>out\<close> what is echoed. The loop ends at a newline or when
  \<open>max_len - 1\<close> characters are in; \<^verbatim>\<open>max_len - 1\<close> wraps for \<^verbatim>\<open>max_len = 0\<close>.\<close>

partial_function (option) readline_loop ::
  "u64 \<Rightarrow> kbd \<Rightarrow> byte list \<Rightarrow> char list \<Rightarrow> string \<Rightarrow> (char list \<times> string \<times> kbd \<times> byte list) option" where
  "readline_loop max_len k irqs buf out =
     (if word_of_nat (length buf) < max_len - 1 then
        Option.bind (keyboard_getchar k irqs) (\<lambda>(c, k', irqs').
          if c = CHR 0x0A \<or> c = CHR 0x0D then Some (buf, out @ [CHR 0x0A], k', irqs')
          else if c = CHR 0x08 then
            (if buf \<noteq> [] then readline_loop max_len k' irqs' (butlast buf) (out @ [CHR 0x08, CHR 0x20, CHR 0x08])
             else readline_loop max_len k' irqs' buf out)
          else if 32 \<le> (of_char c :: nat) \<and> (of_char c :: nat) \<le> 126 then
            readline_loop max_len k' irqs' (buf @ [c]) (out @ [c])
          else readline_loop max_len k' irqs' buf out)
      else Some (buf, out, k, irqs))"

definition keyboard_readline ::
  "u64 \<Rightarrow> kbd \<Rightarrow> byte list \<Rightarrow> (char list \<times> string \<times> kbd \<times> byte list) option" where
  "keyboard_readline max_len k irqs = readline_loop max_len k irqs [] []"

text \<open>\<open>keyboard_init\<close> registers the handler for interrupt 33; the table is an argument.\<close>

definition keyboard_init :: "(nat \<Rightarrow> (byte \<Rightarrow> kbd \<Rightarrow> kbd) option) \<Rightarrow> nat \<Rightarrow> (byte \<Rightarrow> kbd \<Rightarrow> kbd) option" where
  "keyboard_init table = table(33 := Some keyboard_interrupt_handler)"

section \<open>The ring buffer is a bounded queue\<close>

definition kbd_ok :: "kbd \<Rightarrow> bool" where
  "kbd_ok k \<longleftrightarrow> length (kbd_buffer k) = 256 \<and> 0 \<le> kbd_head k \<and> kbd_head k < 256 \<and>
     0 \<le> kbd_tail k \<and> kbd_tail k < 256"

definition kbd_fill :: "kbd \<Rightarrow> nat" where
  "kbd_fill k = nat ((kbd_head k - kbd_tail k) mod 256)"

definition kbd_contents :: "kbd \<Rightarrow> char list" where
  "kbd_contents k = map (\<lambda>i. kbd_buffer k ! nat ((kbd_tail k + int i) mod 256)) [0..<kbd_fill k]"

lemma kbd_fill_cases:
  assumes "kbd_ok k"
  shows "int (kbd_fill k) = (if kbd_tail k \<le> kbd_head k then kbd_head k - kbd_tail k
    else kbd_head k - kbd_tail k + 256)"
proof (cases "kbd_tail k \<le> kbd_head k")
  case True
  with assms show ?thesis by (simp add: kbd_fill_def kbd_ok_def)
next
  case False
  with assms have "(kbd_head k - kbd_tail k + 256) mod 256 = kbd_head k - kbd_tail k + 256"
    by (intro mod_pos_pos_trivial) (auto simp: kbd_ok_def)
  then have "(kbd_head k - kbd_tail k) mod 256 = kbd_head k - kbd_tail k + 256"
    by (simp only: mod_add_self2)
  with False assms show ?thesis by (simp add: kbd_fill_def kbd_ok_def)
qed

lemma kbd_fill_less: "kbd_ok k \<Longrightarrow> kbd_fill k \<le> 255"
  using kbd_fill_cases [of k] by (auto simp: kbd_ok_def split: if_splits)

lemma mod256: "0 \<le> (x::int) \<Longrightarrow> x < 512 \<Longrightarrow> x mod 256 = (if x < 256 then x else x - 256)"
proof (cases "x < 256")
  case False
  assume "0 \<le> x" "x < 512"
  with False have "(x - 256) mod 256 = x - 256" by (intro mod_pos_pos_trivial) auto
  then show ?thesis using False by simp
qed simp

lemma kbd_put_full:
  assumes "kbd_ok k"
  shows "(kbd_head k + 1) mod 256 = kbd_tail k \<longleftrightarrow> kbd_fill k = 255"
  using assms kbd_fill_cases [OF assms] mod256 [of "kbd_head k + 1"]
  by (auto simp: kbd_ok_def split: if_splits)

lemma kbd_put_ok: "kbd_ok k \<Longrightarrow> kbd_ok (kbd_put k c)"
  by (auto simp: kbd_ok_def kbd_put_def Let_def KBD_BUFFER_SIZE_def)

lemma kbd_put_contents:
  assumes ok: "kbd_ok k"
  shows "kbd_contents (kbd_put k c) =
    (if length (kbd_contents k) < 255 then kbd_contents k @ [c] else kbd_contents k)"
proof (cases "kbd_fill k = 255")
  case True
  then show ?thesis
    using kbd_put_full [OF ok] by (simp add: kbd_put_def KBD_BUFFER_SIZE_def kbd_contents_def)
next
  case False
  let ?k = "kbd_put k c"
  have k: "kbd_head ?k = (kbd_head k + 1) mod 256" "kbd_tail ?k = kbd_tail k"
    "kbd_buffer ?k = (kbd_buffer k)[nat (kbd_head k) := c]"
    using False kbd_put_full [OF ok] by (simp_all add: kbd_put_def KBD_BUFFER_SIZE_def Let_def)
  have fill: "kbd_fill ?k = Suc (kbd_fill k)"
    using kbd_fill_cases [OF ok] kbd_fill_cases [OF kbd_put_ok [OF ok], of c] k False ok
      mod256 [of "kbd_head k + 1"] kbd_fill_less [OF ok]
    by (auto simp: kbd_ok_def split: if_splits)
  have same: "kbd_buffer ?k ! nat ((kbd_tail k + int i) mod 256) =
      kbd_buffer k ! nat ((kbd_tail k + int i) mod 256)" if "i < kbd_fill k" for i
    using kbd_fill_cases [OF ok] ok that mod256 [of "kbd_tail k + int i"] kbd_fill_less [OF ok]
    by (auto simp: k kbd_ok_def nth_list_update split: if_splits)
  have last: "kbd_buffer ?k ! nat ((kbd_tail k + int (kbd_fill k)) mod 256) = c"
    using kbd_fill_cases [OF ok] ok mod256 [of "kbd_tail k + int (kbd_fill k)"] kbd_fill_less [OF ok]
    by (auto simp: k kbd_ok_def split: if_splits)
  show ?thesis
    using False kbd_fill_less [OF ok] same last by (simp add: kbd_contents_def k(2) fill)
qed

lemma kbd_has_char_iff: "kbd_ok k \<Longrightarrow> keyboard_has_char k \<longleftrightarrow> kbd_contents k \<noteq> []"
  using kbd_fill_cases [of k]
  by (auto simp: keyboard_has_char_def kbd_contents_def kbd_ok_def split: if_splits)

lemma kbd_take_head:
  assumes ok: "kbd_ok k" and c: "kbd_contents k = c # cs"
  shows "fst (kbd_take k) = c \<and> kbd_contents (snd (kbd_take k)) = cs \<and> kbd_ok (snd (kbd_take k))"
proof -
  let ?k = "snd (kbd_take k)"
  have k: "kbd_head ?k = kbd_head k" "kbd_tail ?k = (kbd_tail k + 1) mod 256" "kbd_buffer ?k = kbd_buffer k"
    by (simp_all add: kbd_take_def KBD_BUFFER_SIZE_def)
  have ok': "kbd_ok ?k" using ok by (simp add: kbd_ok_def k)
  obtain n where n: "kbd_fill k = Suc n" using c by (cases "kbd_fill k") (auto simp: kbd_contents_def)
  have fill: "kbd_fill ?k = n"
    using kbd_fill_cases [OF ok] kbd_fill_cases [OF ok'] n ok mod256 [of "kbd_tail k + 1"]
    by (auto simp: kbd_ok_def k split: if_splits)
  have "(kbd_tail ?k + int i) mod 256 = (kbd_tail k + int (Suc i)) mod 256" for i
    by (simp add: k mod_simps add.assoc)
  then have "kbd_contents k = fst (kbd_take k) # kbd_contents ?k"
    unfolding kbd_contents_def n fill k(3) map_upt_Suc_first using ok
    by (simp add: kbd_take_def kbd_ok_def)
  with c ok' show ?thesis by simp
qed

interpretation kbdq: bounded_queue kbd_put kbd_take keyboard_has_char kbd_contents kbd_ok 255
proof
  show "length (kbd_contents k) \<le> 255" if "kbd_ok k" for k
    using kbd_fill_less [OF that] by (simp add: kbd_contents_def)
qed (fact kbd_put_ok kbd_put_contents kbd_has_char_iff kbd_take_head)+

section \<open>What a stream of scancodes means\<close>

definition decode1 :: "bool \<Rightarrow> byte \<Rightarrow> bool \<times> char option" where
  "decode1 sh s =
     (if s = 0x2A \<or> s = 0x36 then (True, None)
      else if s = 0xAA \<or> s = 0xB6 then (False, None)
      else if s < 128 then
        (let c = (if sh then kbd_scancodes_shift else kbd_scancodes) ! unat s in
         (sh, if c = CHR 0x00 then None else Some c))
      else (sh, None))"

fun decode :: "bool \<Rightarrow> byte list \<Rightarrow> char list" where
  "decode sh [] = []"
| "decode sh (s # ss) =
     (case decode1 sh s of (sh', None) \<Rightarrow> decode sh' ss | (sh', Some c) \<Rightarrow> c # decode sh' ss)"

lemma release_bit: "(s :: byte) AND 0x80 \<noteq> 0 \<longleftrightarrow> \<not> s < 128"
proof -
  have "s AND 0x80 = 0 \<longleftrightarrow> \<not> bit s 7"
    using and_exp_eq_0_iff_not_bit [of s 7] by simp
  also have "bit s 7 \<longleftrightarrow> odd (unat s div 128)"
    using bit_unsigned_iff [where 'a = nat, of s 7] by (simp add: bit_iff_odd)
  also have "odd (unat s div 128) \<longleftrightarrow> \<not> unat s < 128"
  proof -
    have "unat s div 128 < 2" using unsigned_less [of s, where 'a = nat] by simp
    then have "unat s div 128 = 0 \<or> unat s div 128 = 1" by arith
    then show ?thesis by (auto simp: div_eq_0_iff)
  qed
  finally show ?thesis by (simp add: word_less_nat_alt)
qed

lemma handler_decode:
  "keyboard_interrupt_handler s k =
    (case decode1 (shift_pressed k) s of
       (sh, None) \<Rightarrow> k\<lparr>shift_pressed := sh\<rparr>
     | (sh, Some c) \<Rightarrow> kbd_put (k\<lparr>shift_pressed := sh\<rparr>) c)"
  by (simp add: keyboard_interrupt_handler_def decode1_def release_bit Let_def)

lemma shift_irrelevant [simp]:
  "kbd_ok (k\<lparr>shift_pressed := b\<rparr>) = kbd_ok k"
  "kbd_contents (k\<lparr>shift_pressed := b\<rparr>) = kbd_contents k"
  by (simp_all add: kbd_ok_def kbd_contents_def kbd_fill_def)

lemma kbd_put_shift [simp]: "shift_pressed (kbd_put k c) = shift_pressed k"
  by (simp add: kbd_put_def Let_def)

lemma kbd_put_set_shift: "kbd_put (k\<lparr>shift_pressed := b\<rparr>) c = (kbd_put k c)\<lparr>shift_pressed := b\<rparr>"
  by (simp add: kbd_put_def Let_def)

lemma kbd_take_shift [simp]: "shift_pressed (snd (kbd_take k)) = shift_pressed k"
  by (simp add: kbd_take_def)

section \<open>Interrupts and reads in any order\<close>

datatype kbd_event = Irq byte | Read

fun kbd_run :: "kbd \<Rightarrow> kbd_event list \<Rightarrow> char list" where
  "kbd_run k [] = []"
| "kbd_run k (Irq s # evs) = kbd_run (keyboard_interrupt_handler s k) evs"
| "kbd_run k (Read # evs) =
     (if keyboard_has_char k then (case kbd_take k of (c, k') \<Rightarrow> c # kbd_run k' evs)
      else kbd_run k evs)"

fun kbd_ops :: "bool \<Rightarrow> kbd_event list \<Rightarrow> char option list" where
  "kbd_ops sh [] = []"
| "kbd_ops sh (Irq s # evs) =
     (case decode1 sh s of (sh', None) \<Rightarrow> kbd_ops sh' evs | (sh', Some c) \<Rightarrow> Some c # kbd_ops sh' evs)"
| "kbd_ops sh (Read # evs) = None # kbd_ops sh evs"

lemma kbd_run_queue_run:
  "kbd_run (k\<lparr>shift_pressed := b\<rparr>) evs =
    fst (queue_run kbd_put kbd_take keyboard_has_char k (kbd_ops b evs))"
proof (induction evs arbitrary: k b)
  case Nil
  then show ?case by simp
next
  case (Cons e evs)
  show ?case
  proof (cases e)
    case (Irq s)
    then show ?thesis
      using Cons.IH by (auto simp: handler_decode kbd_put_set_shift split: prod.splits option.splits)
  next
    case Read
    have "kbd_take (k\<lparr>shift_pressed := b\<rparr>) = (fst (kbd_take k), (snd (kbd_take k))\<lparr>shift_pressed := b\<rparr>)"
      by (simp add: kbd_take_def)
    with Read show ?thesis
      using Cons.IH by (simp add: keyboard_has_char_def split: prod.splits)
  qed
qed

lemma kbd_start_ok: "kbd_ok kbd_start" "kbd_contents kbd_start = []" "\<not> shift_pressed kbd_start"
  by (simp_all add: kbd_ok_def kbd_contents_def kbd_fill_def kbd_start_def)

text \<open>C11: whatever interleaving of keyboard interrupts and reads happens from boot on, the reader
  gets what a first-in first-out queue of capacity 255 gives for the decoded keys: characters
  come out in the order typed, and a key is lost only when 255 are already waiting.\<close>

theorem keyboard_is_fifo:
  "kbd_run kbd_start evs = fst (list_run 255 [] (kbd_ops False evs))"
proof -
  have "kbd_start = kbd_start\<lparr>shift_pressed := False\<rparr>" by (simp add: kbd_start_def)
  then have "kbd_run kbd_start evs =
      fst (queue_run kbd_put kbd_take keyboard_has_char kbd_start (kbd_ops False evs))"
    using kbd_run_queue_run [of False kbd_start evs] by simp
  also have "\<dots> = fst (list_run 255 [] (kbd_ops False evs))"
    using kbdq.run_refines [OF kbd_start_ok(1)] kbd_start_ok(2) by simp
  finally show ?thesis .
qed

section \<open>Reading a line\<close>

text \<open>Every character the reader can still get: what is buffered, then what the waiting
  interrupts bring.\<close>

definition kbd_stream :: "kbd \<Rightarrow> byte list \<Rightarrow> char list" where
  "kbd_stream k irqs = kbd_contents k @ decode (shift_pressed k) irqs"

lemma getchar_stream:
  "kbd_ok k \<Longrightarrow> keyboard_getchar k irqs = r \<Longrightarrow>
    (case r of None \<Rightarrow> kbd_stream k irqs = []
     | Some (c, k', irqs') \<Rightarrow> kbd_ok k' \<and> kbd_stream k irqs = c # kbd_stream k' irqs')"
proof (induction irqs arbitrary: k)
  case Nil
  show ?case
  proof (cases "kbd_contents k")
    case Nil
    with Nil.prems show ?thesis
      by (auto simp: keyboard_getchar.simps [of k] kbd_has_char_iff kbd_stream_def)
  next
    case (Cons c cs)
    with kbd_take_head [OF Nil.prems(1) this] Nil.prems show ?thesis
      by (auto simp: keyboard_getchar.simps [of k] kbd_has_char_iff kbd_stream_def
          split: prod.splits)
  qed
next
  case (Cons s irqs)
  show ?case
  proof (cases "kbd_contents k")
    case Nil
    let ?k = "keyboard_interrupt_handler s k"
    have "kbd_ok ?k"
      using Cons.prems(1) by (auto simp: handler_decode kbd_put_ok split: prod.splits option.splits)
    moreover have "kbd_stream ?k irqs = kbd_stream k (s # irqs)"
      using Nil Cons.prems(1)
      by (auto simp: handler_decode kbd_stream_def kbd_put_contents split: prod.splits option.splits)
    moreover have "keyboard_getchar k (s # irqs) = keyboard_getchar ?k irqs"
      using Nil Cons.prems(1) by (simp add: keyboard_getchar.simps [of k] kbd_has_char_iff)
    ultimately show ?thesis using Cons.IH [of ?k] Cons.prems(2) by (auto split: option.splits)
  next
    case c: (Cons c cs)
    with kbd_take_head [OF Cons.prems(1) this] kbd_take_shift [of k] Cons.prems show ?thesis
      by (auto simp: keyboard_getchar.simps [of k] kbd_has_char_iff kbd_stream_def
          simp del: kbd_take_shift split: prod.splits)
  qed
qed

definition printable :: "char \<Rightarrow> bool" where
  "printable c \<longleftrightarrow> 32 \<le> (of_char c :: nat) \<and> (of_char c :: nat) \<le> 126"

text \<open>The line editor on plain characters: at most \<open>m\<close> of them.\<close>

fun edit_line :: "nat \<Rightarrow> char list \<Rightarrow> char list \<Rightarrow> char list option" where
  "edit_line m buf [] = (if length buf < m then None else Some buf)"
| "edit_line m buf (c # cs) =
     (if length buf < m then
        (if c = CHR 0x0A \<or> c = CHR 0x0D then Some buf
         else if c = CHR 0x08 then edit_line m (butlast buf) cs
         else edit_line m (if printable c then buf @ [c] else buf) cs)
      else Some buf)"

lemma edit_line_bounds:
  "edit_line m buf cs = Some line \<Longrightarrow> length buf \<le> m \<Longrightarrow> list_all printable buf \<Longrightarrow>
    length line \<le> m \<and> list_all printable line"
proof (induction cs arbitrary: buf)
  case (Cons c cs)
  have bl: "list_all printable (butlast buf)"
    using Cons.prems(3) by (auto simp: list_all_iff dest: in_set_butlastD)
  show ?case
  proof (cases "length buf < m")
    case True
    then show ?thesis
      using Cons.IH [of "butlast buf"] Cons.IH [of "if printable c then buf @ [c] else buf"]
        Cons.prems bl by (auto split: if_splits)
  qed (use Cons.prems in simp)
qed (auto split: if_splits)

lemma readline_more:
  "length buf \<le> unat m - 1 \<Longrightarrow> (m :: u64) \<noteq> 0 \<Longrightarrow>
    word_of_nat (length buf) < m - 1 \<longleftrightarrow> length buf < unat m - 1"
proof -
  assume a: "length buf \<le> unat m - 1" "m \<noteq> 0"
  then have "unat (m - 1) = unat m - 1" by (simp add: unat_minus_one)
  moreover have "unat (word_of_nat (length buf) :: u64) = length buf"
    using a u64_bound [of m] by (simp add: unat_of_nat take_bit_nat_eq_self)
  ultimately show ?thesis by (simp add: word_less_nat_alt)
qed

lemma readline_loop_edit:
  assumes "kbd_ok k" "max_len \<noteq> 0" "length buf \<le> unat max_len - 1"
  shows "map_option fst (readline_loop max_len k irqs buf out) =
    edit_line (unat max_len - 1) buf (kbd_stream k irqs)"
  using assms
proof (induction "kbd_stream k irqs" arbitrary: k irqs buf out)
  case Nil
  from Nil.hyps getchar_stream [OF Nil.prems(1) refl, of irqs] have "keyboard_getchar k irqs = None"
    by (auto split: option.splits)
  then show ?case unfolding Nil.hyps [symmetric]
    using Nil.prems by (subst readline_loop.simps) (simp add: readline_more)
next
  case (Cons c cs)
  obtain k' irqs' where g: "keyboard_getchar k irqs = Some (c, k', irqs')" "kbd_ok k'"
    "cs = kbd_stream k' irqs'"
    using Cons.hyps getchar_stream [OF Cons.prems(1) refl, of irqs] by (auto split: option.splits)
  have IH: "length b \<le> unat max_len - 1 \<Longrightarrow>
      map_option fst (readline_loop max_len k' irqs' b o') = edit_line (unat max_len - 1) b cs" for b o'
    using Cons.hyps(1) [OF g(3)] g Cons.prems by simp
  show ?case unfolding Cons.hyps(2) [symmetric]
    using Cons.prems by (subst readline_loop.simps) (auto simp: readline_more g IH printable_def)
qed



lemma readline_example:
  "edit_line 3 [] (kbd_stream kbd_start [0x23, 0x17, 0x0E, 0x12, 0x1C]) = Some ''he''"
  by (simp add: kbd_stream_def kbd_start_ok decode1_def kbd_scancodes_def table128_def printable_def)

end
