(* ===== verification/Serial.thy ===== *)
theory Serial
  imports Io
begin

text \<open>
  The serial console, \<^verbatim>\<open>drivers/serial.c\<close>, as port accesses. Waiting for the transmitter is a loop
  that ends only if the UART becomes ready, so every operation is in the option monad. Strings
  are the characters before the NUL.
\<close>

definition COM1 :: u16 where
  "COM1 = 0x3F8"

definition serial_init :: "io_trace \<Rightarrow> io_trace" where
  "serial_init t =
     (let t = outb (COM1 + 1) 0x00 t;
          t = outb (COM1 + 3) 0x80 t;
          t = outb (COM1 + 0) 0x03 t;
          t = outb (COM1 + 1) 0x00 t;
          t = outb (COM1 + 3) 0x03 t;
          t = outb (COM1 + 2) 0xC7 t;
          t = outb (COM1 + 4) 0x0B t
      in t)"

definition serial_is_transmit_empty :: "devices \<Rightarrow> io_trace \<Rightarrow> byte \<times> io_trace" where
  "serial_is_transmit_empty dv t = (case inb dv (COM1 + 5) t of (v, t') \<Rightarrow> (v AND 0x20, t'))"

partial_function (option) serial_wait :: "devices \<Rightarrow> io_trace \<Rightarrow> io_trace option" where
  "serial_wait dv t =
     (case serial_is_transmit_empty dv t of (v, t') \<Rightarrow>
        if v = 0 then serial_wait dv t' else Some t')"

definition serial_putc :: "devices \<Rightarrow> char \<Rightarrow> io_trace \<Rightarrow> io_trace option" where
  "serial_putc dv c t = map_option (outb COM1 (of_char c)) (serial_wait dv t)"

fun serial_print :: "devices \<Rightarrow> string \<Rightarrow> io_trace \<Rightarrow> io_trace option" where
  "serial_print dv [] t = Some t"
| "serial_print dv (c # s) t =
     Option.bind (if c = CHR 0x0A then serial_putc dv (CHR 0x0D) t else Some t) (\<lambda>t1.
     Option.bind (serial_putc dv c t1) (\<lambda>t2. serial_print dv s t2))"

definition serial_println :: "devices \<Rightarrow> string \<Rightarrow> io_trace \<Rightarrow> io_trace option" where
  "serial_println dv s t =
     Option.bind (serial_print dv s t) (\<lambda>t1.
     Option.bind (serial_putc dv (CHR 0x0D) t1) (serial_putc dv (CHR 0x0A)))"

text \<open>The loop filling \<open>buf\<close> from its last digit on; \<open>n\<close> is the number of digits still to write.\<close>

fun hex_loop :: "nat \<Rightarrow> u64 \<Rightarrow> string \<Rightarrow> string" where
  "hex_loop 0 val buf = buf"
| "hex_loop (Suc n) val buf =
     hex_loop n (drop_bit 4 val) (''0123456789abcdef'' ! unat (val AND 0xF) # buf)"

definition serial_print_hex :: "devices \<Rightarrow> u64 \<Rightarrow> io_trace \<Rightarrow> io_trace option" where
  "serial_print_hex dv val t = serial_print dv (hex_loop 16 val []) t"

text \<open>The digits of a positive number, lowest first, as \<open>buf\<close> collects them.\<close>

function dec_loop :: "int \<Rightarrow> string" where
  "dec_loop val =
     (if val > 0 then char_of (48 + nat (val mod 10)) # dec_loop (val div 10) else [])"
  by pat_completeness auto
termination by (relation "measure nat") auto

declare dec_loop.simps [simp del]

fun put_all :: "devices \<Rightarrow> string \<Rightarrow> io_trace \<Rightarrow> io_trace option" where
  "put_all dv [] t = Some t"
| "put_all dv (c # s) t = Option.bind (serial_putc dv c t) (put_all dv s)"

definition serial_print_dec :: "devices \<Rightarrow> u64 \<Rightarrow> io_trace \<Rightarrow> io_trace option" where
  "serial_print_dec dv val t =
     Option.bind (if sint val < 0 then serial_putc dv (CHR ''-'') t else Some t) (\<lambda>t.
       let val = (if sint val < 0 then - val else val) in
       if val = 0 then serial_putc dv (CHR ''0'') t
       else put_all dv (rev (dec_loop (sint val))) t)"

text \<open>The arguments of \<open>serial_printf\<close>; \<^term>\<open>Astr None\<close> is a null pointer. Taking an argument
  that is not there, or one of another type, is undefined behaviour and gives \<^term>\<open>None\<close>; so
  does a format that ends in a single percent sign, after which the loop steps over the NUL.\<close>

datatype printf_arg = Astr "string option" | Aint "32 word" | Ahex u64

fun serial_printf :: "devices \<Rightarrow> string \<Rightarrow> printf_arg list \<Rightarrow> io_trace \<Rightarrow> io_trace option" where
  "serial_printf dv [] args t = Some t"
| "serial_printf dv (c # fmt) args t =
     (if c = CHR ''%'' then
        (case fmt of
           [] \<Rightarrow> None
         | d # fmt' \<Rightarrow>
             if d = CHR ''s'' then
               (case args of
                  Astr s # args' \<Rightarrow>
                    Option.bind (serial_print dv (case s of None \<Rightarrow> ''(null)'' | Some s \<Rightarrow> s) t)
                      (serial_printf dv fmt' args')
                | _ \<Rightarrow> None)
             else if d = CHR ''d'' then
               (case args of
                  Aint i # args' \<Rightarrow>
                    Option.bind (serial_print_dec dv (scast i) t) (serial_printf dv fmt' args')
                | _ \<Rightarrow> None)
             else if d = CHR ''x'' then
               (case args of
                  Ahex x # args' \<Rightarrow>
                    Option.bind (serial_print_hex dv x t) (serial_printf dv fmt' args')
                | _ \<Rightarrow> None)
             else if d = CHR ''c'' then
               (case args of
                  Aint i # args' \<Rightarrow>
                    Option.bind (serial_putc dv (char_of (unat (ucast i :: byte))) t) (serial_printf dv fmt' args')
                | _ \<Rightarrow> None)
             else if d = CHR ''%'' then
               Option.bind (serial_putc dv (CHR ''%'') t) (serial_printf dv fmt' args)
             else serial_printf dv fmt' args t)
      else
        Option.bind (if c = CHR 0x0A then serial_putc dv (CHR 0x0D) t else Some t) (\<lambda>t1.
        Option.bind (serial_putc dv c t1) (serial_printf dv fmt args)))"

section \<open>What reaches the line\<close>

text \<open>A UART that is ready after finitely many polls, whatever happened before.\<close>

fun poll :: "devices \<Rightarrow> nat \<Rightarrow> io_trace \<Rightarrow> io_trace" where
  "poll dv 0 t = t"
| "poll dv (Suc n) t = poll dv n (snd (inb dv (COM1 + 5) t))"

definition uart_live :: "devices \<Rightarrow> bool" where
  "uart_live dv \<longleftrightarrow> (\<forall>t. \<exists>n. in8 dv (poll dv n t) (COM1 + 5) AND 0x20 \<noteq> 0)"

lemma serial_wait_poll:
  "in8 dv (poll dv n t) (COM1 + 5) AND 0x20 \<noteq> 0 \<Longrightarrow>
    \<exists>t'. serial_wait dv t = Some t' \<and> written COM1 t' = written COM1 t"
proof (induction n arbitrary: t)
  case 0
  then show ?case
    by (subst serial_wait.simps)
      (simp add: serial_is_transmit_empty_def inb_def Let_def)
next
  case (Suc n)
  then show ?case
    by (subst serial_wait.simps)
      (fastforce simp: serial_is_transmit_empty_def inb_def Let_def)
qed

definition sends :: "string \<Rightarrow> io_trace \<Rightarrow> io_trace option \<Rightarrow> bool" where
  "sends s t r \<longleftrightarrow> (\<exists>t'. r = Some t' \<and> written COM1 t' = written COM1 t @ map of_char s)"

lemma sends_bind [intro]:
  assumes "sends s t r" "\<And>t'. sends u t' (f t')"
  shows "sends (s @ u) t (Option.bind r f)"
  using assms unfolding sends_def by (metis append.assoc bind.bind_lunit map_append)

lemma sends_Nil [simp]: "sends [] t (Some t)"
  by (simp add: sends_def)

lemma sends_putc: "uart_live dv \<Longrightarrow> sends [c] t (serial_putc dv c t)"
  using serial_wait_poll [of dv _ t]
  by (fastforce simp: uart_live_def serial_putc_def sends_def written_outb)

definition crlf :: "string \<Rightarrow> string" where
  "crlf s = concat (map (\<lambda>c. if c = CHR 0x0A then [CHR 0x0D, CHR 0x0A] else [c]) s)"

lemma crlf_simps [simp]:
  "crlf [] = []"
  "crlf (c # s) = (if c = CHR 0x0A then [CHR 0x0D, c] else [c]) @ crlf s"
  by (simp_all add: crlf_def)

lemma sends_crlf_putc:
  assumes "uart_live dv"
  shows "sends (if c = CHR 0x0A then [CHR 0x0D] else []) t
    (if c = CHR 0x0A then serial_putc dv (CHR 0x0D) t else Some t)"
  using sends_putc [OF assms] by simp

lemma sends_print:
  assumes "uart_live dv"
  shows "sends (crlf s) t (serial_print dv s t)"
proof (induction s arbitrary: t)
  case (Cons c s)
  have "sends ((if c = CHR 0x0A then [CHR 0x0D] else []) @ [c] @ crlf s) t (serial_print dv (c # s) t)"
    unfolding serial_print.simps
    by (intro sends_bind sends_crlf_putc sends_putc Cons.IH assms)
  then show ?case by (cases "c = CHR 0x0A") auto
qed simp

lemma sends_put_all:
  assumes "uart_live dv"
  shows "sends s t (put_all dv s t)"
proof (induction s arbitrary: t)
  case (Cons c s)
  have "sends ([c] @ s) t (put_all dv (c # s) t)"
    unfolding put_all.simps by (intro sends_bind sends_putc Cons.IH assms)
  then show ?case by simp
qed simp

section \<open>Numbers\<close>

definition dec_value :: "string \<Rightarrow> int" where
  "dec_value s = foldl (\<lambda>n c. 10 * n + (int (of_char c) - 48)) 0 s"

fun parse_int :: "string \<Rightarrow> int" where
  "parse_int (CHR ''-'' # s) = - dec_value s"
| "parse_int s = dec_value s"

definition is_digit :: "char \<Rightarrow> bool" where
  "is_digit c \<longleftrightarrow> 48 \<le> (of_char c :: nat) \<and> (of_char c :: nat) \<le> 57"

definition show_int :: "int \<Rightarrow> string" where
  "show_int i = (if i < 0 then ''-'' else []) @ (if i = 0 then ''0'' else rev (dec_loop \<bar>i\<bar>))"

lemma dec_value_snoc: "dec_value (s @ [c]) = 10 * dec_value s + (int (of_char c) - 48)"
  by (simp add: dec_value_def)

lemma digit_char:
  "0 \<le> d \<Longrightarrow> d < 10 \<Longrightarrow> int (of_char (char_of (48 + nat d) :: char)) = 48 + d"
  by (simp add: of_char_of)

lemma dec_loop_value: "0 \<le> i \<Longrightarrow> dec_value (rev (dec_loop i)) = i"
proof (induction i rule: dec_loop.induct)
  case (1 i)
  show ?case
  proof (cases "0 < i")
    case True
    then have "dec_value (rev (dec_loop i)) = 10 * dec_value (rev (dec_loop (i div 10))) + i mod 10"
      by (subst dec_loop.simps) (simp add: dec_value_snoc digit_char)
    with 1 True show ?thesis by (simp add: pos_imp_zdiv_nonneg_iff)
  next
    case False
    with 1 show ?thesis by (subst dec_loop.simps) (simp add: dec_value_def)
  qed
qed

lemma dec_loop_digits: "list_all is_digit (dec_loop i)"
proof (induction i rule: dec_loop.induct)
  case (1 i)
  have "is_digit (char_of (48 + nat (i mod 10)))"
    using digit_char [of "i mod 10"] pos_mod_bound [of 10 i] pos_mod_sign [of 10 i]
    unfolding is_digit_def by linarith
  with 1 show ?case by (subst dec_loop.simps) simp
qed

lemma dec_loop_Nil: "dec_loop i = [] \<longleftrightarrow> i \<le> 0"
  by (subst dec_loop.simps) auto

lemma parse_show_int: "parse_int (show_int i) = i"
proof (cases "i < 0")
  case True
  then show ?thesis by (simp add: show_int_def dec_loop_value)
next
  case False
  have np: "parse_int s = dec_value s" if "list_all is_digit s" for s
    using that by (cases s rule: parse_int.cases) (auto simp: is_digit_def)
  show ?thesis
  proof (cases "i = 0")
    case True
    then show ?thesis by (simp add: show_int_def np is_digit_def) (simp add: dec_value_def)
  next
    case nz: False
    with False show ?thesis
      by (simp add: show_int_def np dec_loop_digits list_all_rev dec_loop_value)
  qed
qed

lemma hex_loop_length: "length (hex_loop n val buf) = n + length buf"
  by (induction n val buf rule: hex_loop.induct) auto

section \<open>Formatted output\<close>

text \<open>The text a conversion writes and the arguments it leaves.\<close>

definition directive :: "char \<Rightarrow> printf_arg list \<Rightarrow> (string \<times> printf_arg list) option" where
  "directive d args =
     (if d = CHR ''s'' then
        (case args of Astr s # r \<Rightarrow> Some (crlf (case s of None \<Rightarrow> ''(null)'' | Some s \<Rightarrow> s), r) | _ \<Rightarrow> None)
      else if d = CHR ''d'' then (case args of Aint i # r \<Rightarrow> Some (show_int (sint i), r) | _ \<Rightarrow> None)
      else if d = CHR ''x'' then (case args of Ahex x # r \<Rightarrow> Some (hex_loop 16 x [], r) | _ \<Rightarrow> None)
      else if d = CHR ''c'' then
        (case args of Aint i # r \<Rightarrow> Some ([char_of (unat (ucast i :: byte))], r) | _ \<Rightarrow> None)
      else if d = CHR ''%'' then Some (''%'', args)
      else Some ([], args))"

fun render :: "string \<Rightarrow> printf_arg list \<Rightarrow> string option" where
  "render [] args = Some []"
| "render (c # fmt) args =
     (if c = CHR ''%'' then
        (case fmt of [] \<Rightarrow> None
         | d # fmt' \<Rightarrow>
             Option.bind (directive d args) (\<lambda>(s, args'). map_option ((@) s) (render fmt' args')))
      else map_option ((@) (crlf [c])) (render fmt args))"

text \<open>\<^verbatim>\<open>val = -val\<close> does not overflow for a sign-extended \<^verbatim>\<open>int\<close>.\<close>

lemma sint_scast32: "sint (scast (i :: u32) :: u64) = sint i"
  by (rule sint_up_scast) (simp add: is_up)

lemma sint_uminus_scast: "sint (- (scast (i :: u32) :: u64)) = - sint i"
proof -
  have b: "- (2 ^ 31) \<le> sint i" "sint i < 2 ^ 31"
    using sint_greater_eq [of i] sint_less [of i] by simp_all
  show ?thesis
    unfolding sint_word_minus sint_scast32 using b by (intro signed_take_bit_int_eq_self) auto
qed

lemma scast32_eq_0: "(scast (i :: u32) :: u64) = 0 \<longleftrightarrow> sint i = 0"
  unfolding sint_scast32 [symmetric] by (metis signed_0 word_eq_iff_signed)

lemma sends_print_dec:
  assumes "uart_live dv"
  shows "sends (show_int (sint i)) t (serial_print_dec dv (scast (i :: u32)) t)"
proof -
  let ?v = "if sint i < 0 then - scast i else scast i :: u64"
  have v: "sint ?v = \<bar>sint i\<bar>" by (simp add: sint_uminus_scast sint_scast32)
  then have z: "?v = 0 \<longleftrightarrow> sint i = 0" by (auto simp: scast32_eq_0)
  have "sends (if sint i = 0 then ''0'' else rev (dec_loop \<bar>sint i\<bar>)) u
      (if ?v = 0 then serial_putc dv (CHR ''0'') u else put_all dv (rev (dec_loop (sint ?v))) u)" for u
    unfolding z v by (simp add: sends_putc sends_put_all assms)
  moreover have "sends (if sint i < 0 then ''-'' else []) t
      (if sint i < 0 then serial_putc dv (CHR ''-'') t else Some t)"
    by (simp add: sends_putc assms)
  ultimately show ?thesis
    unfolding serial_print_dec_def show_int_def sint_scast32 Let_def by blast
qed

lemma hex_digit: "n < 16 \<Longrightarrow> ''0123456789abcdef'' ! n \<noteq> CHR 0x0A"
  by (auto simp: less_Suc_eq numeral_eq_Suc)

lemma hex_loop_crlf: "crlf buf = buf \<Longrightarrow> crlf (hex_loop n val buf) = hex_loop n val buf"
proof (induction n val buf rule: hex_loop.induct)
  case (2 n val buf)
  have "unat (val AND 0xF) < 16"
    using word_and_le1 [of val 15] by (simp add: word_le_nat_alt)
  with 2 show ?case by (simp add: hex_digit)
qed simp

lemma sends_print_hex:
  assumes "uart_live dv"
  shows "sends (hex_loop 16 x []) t (serial_print_hex dv x t)"
  using sends_print [OF assms, of "hex_loop 16 x []" t] hex_loop_crlf [of "[]" 16 x]
  by (simp add: serial_print_hex_def)

text \<open>An operation that fails, or sends a given text.\<close>

definition renders :: "string option \<Rightarrow> io_trace \<Rightarrow> io_trace option \<Rightarrow> bool" where
  "renders so t r \<longleftrightarrow> (case so of None \<Rightarrow> r = None | Some s \<Rightarrow> sends s t r)"

lemma renders_bind:
  assumes "sends s t r" "\<And>t'. renders so t' (f t')"
  shows "renders (map_option ((@) s) so) t (Option.bind r f)"
proof (cases so)
  case None
  with assms(2) have "f = (\<lambda>_. None)" by (auto simp: renders_def)
  then show ?thesis by (simp add: renders_def None)
next
  case (Some u)
  with assms show ?thesis by (auto simp: renders_def)
qed

lemma renders_crlf_char:
  assumes "uart_live dv" "\<And>t'. renders so t' (f t')"
  shows "renders (map_option ((@) (crlf [c])) so) t
    (Option.bind (if c = CHR 0x0A then serial_putc dv (CHR 0x0D) t else Some t)
      (\<lambda>t1. Option.bind (serial_putc dv c t1) f))"
proof -
  have "sends (crlf [c]) t (Option.bind (if c = CHR 0x0A then serial_putc dv (CHR 0x0D) t else Some t)
      (serial_putc dv c))"
    using sends_bind [OF sends_crlf_putc [OF assms(1)] sends_putc [OF assms(1)], of c c t]
    by (cases "c = CHR 0x0A") auto
  from renders_bind [OF this assms(2)] show ?thesis by simp
qed

lemma renders_printf:
  assumes "uart_live dv"
  shows "renders (render fmt args) t (serial_printf dv fmt args t)"
proof (induction fmt args arbitrary: t rule: render.induct)
  case (1 args)
  then show ?case by (simp add: renders_def)
next
  case (2 c fmt args)
  show ?case
  proof (cases "c = CHR ''%''")
    case False
    with 2 renders_crlf_char [OF assms] show ?thesis by simp
  next
    case pc: True
    show ?thesis
    proof (cases fmt)
      case Nil
      with pc show ?thesis by (simp add: renders_def)
    next
      case (Cons d fmt')
      have IH: "directive d args = Some (s, args') \<Longrightarrow> renders (render fmt' args') t (serial_printf dv fmt' args' t)"
        for s args' t using 2 pc Cons by blast
      note sends = sends_print [OF assms] sends_print_dec [OF assms] sends_print_hex [OF assms]
        sends_putc [OF assms]
      show ?thesis
      proof (cases "directive d args")
        case None
        then show ?thesis using pc Cons
          by (auto simp: renders_def directive_def split: if_splits list.splits printf_arg.splits)
      next
        case (Some p)
        obtain s args' where p: "directive d args = Some (s, args')" using Some by (cases p) auto
        obtain r0 where r0: "serial_printf dv (c # fmt) args t = Option.bind r0 (serial_printf dv fmt' args')"
          "sends s t r0"
        proof (cases "d \<in> set ''sdxc%''")
          case True
          then show ?thesis using that p pc Cons sends
            by (auto simp: directive_def split: if_splits list.splits printf_arg.splits)
        next
          case False
          then show ?thesis using that [of "Some t"] p pc Cons by (simp add: directive_def)
        qed
        then show ?thesis
          using renders_bind [OF r0(2) IH [OF p]] p pc Cons by simp
      qed
    qed
  qed
qed

lemma serial_printf_total:
  assumes "uart_live dv" "render fmt args \<noteq> None"
  obtains t' where "serial_printf dv fmt args t = Some t'"
  using renders_printf [OF assms(1), of fmt args t] assms(2) by (auto simp: renders_def sends_def)

text \<open>C19: with a live UART, \<open>serial_printf\<close> sends exactly the text its format and arguments
  stand for, with every newline as CR LF, and takes no argument that is not there.\<close>

theorem serial_printf_renders:
  assumes "uart_live dv"
  shows "case render fmt args of
      None \<Rightarrow> serial_printf dv fmt args t = None
    | Some s \<Rightarrow> sends s t (serial_printf dv fmt args t)"
  using renders_printf [OF assms] by (simp add: renders_def)

definition ready_uart :: devices where
  "ready_uart = \<lparr>in8 = (\<lambda>t p. 0x60), in16 = (\<lambda>t p. 0), in32 = (\<lambda>t p. 0)\<rparr>"

lemma ready_uart_live: "uart_live ready_uart"
  by (simp add: uart_live_def ready_uart_def)

theorem serial_printf_renders_witness:
  "case render ''pid %d%%'' [Aint 42] of
      None \<Rightarrow> serial_printf ready_uart ''pid %d%%'' [Aint 42] [] = None
    | Some s \<Rightarrow> sends s [] (serial_printf ready_uart ''pid %d%%'' [Aint 42] [])"
  by (rule serial_printf_renders) (rule ready_uart_live)

text \<open>The decimal conversion of every \<^verbatim>\<open>int\<close>, the smallest included, sends a numeral that
  reads back as that number.\<close>

theorem serial_decimal_roundtrip:
  assumes "uart_live dv"
  shows "\<exists>s. sends s t (serial_print_dec dv (scast (i :: u32)) t) \<and> parse_int s = sint i"
  using sends_print_dec [OF assms] parse_show_int by blast

theorem serial_decimal_roundtrip_witness:
  "\<exists>s. sends s [] (serial_print_dec ready_uart (scast (- 42 :: u32)) []) \<and> parse_int s = sint (- 42 :: u32)"
  by (rule serial_decimal_roundtrip) (rule ready_uart_live)

end
