(* ===== verification/Speaker.thy ===== *)
theory Speaker
  imports Io
begin

text \<open>
  The PC speaker, \<^verbatim>\<open>drivers/speaker.c\<close>: a divisor for channel 2 of the timer on port 42h, and the
  gate and data bits (the two lowest) of port 61h.
\<close>

definition speaker_play_tone :: "devices \<Rightarrow> u32 \<Rightarrow> io_trace \<Rightarrow> io_trace" where
  "speaker_play_tone dv freq_hz t =
     (if freq_hz = 0 then t
      else
        (let d = 1193180 div freq_hz;
             t = outb 0x43 0xB6 t;
             t = outb 0x42 (ucast (d AND 0xFF)) t;
             t = outb 0x42 (ucast (drop_bit 8 d AND 0xFF)) t;
             (tmp, t) = inb dv 0x61 t
         in if tmp \<noteq> tmp OR 3 then outb 0x61 (tmp OR 3) t else t))"

definition speaker_stop :: "devices \<Rightarrow> io_trace \<Rightarrow> io_trace" where
  "speaker_stop dv t = (let (v, t) = inb dv 0x61 t in outb 0x61 (v AND 0xFC) t)"

definition speaker_delay :: "u32 \<Rightarrow> io_trace \<Rightarrow> io_trace" where
  "speaker_delay count t = (io_wait ^^ unat count) t"

definition speaker_beep :: "devices \<Rightarrow> u32 \<Rightarrow> u32 \<Rightarrow> io_trace \<Rightarrow> io_trace" where
  "speaker_beep dv freq_hz duration_ticks t =
     speaker_stop dv (speaker_delay (duration_ticks * 1000) (speaker_play_tone dv freq_hz t))"

definition siren_cycle :: "devices \<Rightarrow> io_trace \<Rightarrow> io_trace" where
  "siren_cycle dv t =
     speaker_delay 200000 (speaker_play_tone dv 440
       (speaker_delay 200000 (speaker_play_tone dv 880 t)))"

definition speaker_panic_siren :: "devices \<Rightarrow> io_trace \<Rightarrow> io_trace" where
  "speaker_panic_siren dv t = speaker_stop dv ((siren_cycle dv ^^ 4) t)"

section \<open>What the timer and the gate see\<close>

lemma written_delay [simp]: "port \<noteq> 0x80 \<Longrightarrow> written port (speaker_delay n t) = written port t"
proof -
  assume "port \<noteq> 0x80"
  then have "written port ((io_wait ^^ k) t) = written port t" for k
    by (induction k) (simp_all add: io_wait_def written_outb)
  then show ?thesis by (simp add: speaker_delay_def)
qed

definition divisor_bytes :: "u32 \<Rightarrow> byte list" where
  "divisor_bytes d = [ucast d, ucast (drop_bit 8 d)]"

lemma play_tone_divisor:
  "written 0x42 (speaker_play_tone dv f t) =
    written 0x42 t @ (if f = 0 then [] else divisor_bytes (1193180 div f))"
proof -
  have "ucast (d AND 0xFF) = (ucast d :: byte)" for d :: u32
  proof -
    have "(0xFF :: u32) = mask 8" by (simp add: mask_eq_exp_minus_1)
    show ?thesis unfolding \<open>0xFF = mask 8\<close> by (intro bit_word_eqI) (auto simp: bit_simps)
  qed
  then show ?thesis
    by (simp add: speaker_play_tone_def Let_def inb_def written_outb divisor_bytes_def
        written_append split: prod.splits)
qed

lemma stop_silences: "last (written 0x61 (speaker_stop dv t)) AND 3 = 0"
  by (simp add: speaker_stop_def inb_def written_outb Let_def) (simp add: and.assoc)

text \<open>A beep programs timer channel 2 with the quotient of the clock and the frequency, low
  byte first, and ends with both speaker bits off, whatever the frequency and duration.\<close>

theorem speaker_beep_correct:
  "written 0x42 (speaker_beep dv f n t) =
     written 0x42 t @ (if f = 0 then [] else divisor_bytes (1193180 div f)) \<and>
   last (written 0x61 (speaker_beep dv f n t)) AND 3 = 0"
proof
  have "written 0x42 (speaker_stop dv u) = written 0x42 u" for u
    by (simp add: speaker_stop_def inb_def written_outb Let_def)
  then show "written 0x42 (speaker_beep dv f n t) =
     written 0x42 t @ (if f = 0 then [] else divisor_bytes (1193180 div f))"
    by (simp add: speaker_beep_def play_tone_divisor)
  show "last (written 0x61 (speaker_beep dv f n t)) AND 3 = 0"
    by (simp add: speaker_beep_def stop_silences)
qed

end
