(* ===== verification/Page_Tree.thy ===== *)
theory Page_Tree
  imports Page_Alloc "HOL-Library.Sublist"
begin

text \<open>
  Multi-level page tables, as both \<^verbatim>\<open>arch/x86_64/paging.c\<close> and \<^verbatim>\<open>arch/x86/paging.c\<close> build them:
  a table is a page of entries of \<open>esz\<close> bytes; an entry is present if its lowest bit is set and
  then holds the address of a page in its upper bits. Memory is a function from the address of
  an entry to the entry; tables are page aligned, so entries never overlap.

  The operations are parameters away from the code: how a page is allocated and how large an
  entry is. The lemmas live in a locale that extends the allocator contract.
\<close>

section \<open>Entries\<close>

definition PAGE_PRESENT :: "'a::len word" where
  "PAGE_PRESENT = 1"

definition PAGE_WRITABLE :: "'a::len word" where
  "PAGE_WRITABLE = 2"

definition PAGE_USER :: "'a::len word" where
  "PAGE_USER = 4"

definition page_base :: "'a::len word \<Rightarrow> 'a word" where
  "page_base e = e AND NOT 0xFFF"

definition is_present :: "'a::len word \<Rightarrow> bool" where
  "is_present e \<longleftrightarrow> e AND PAGE_PRESENT \<noteq> 0"

definition slot :: "'a::len word \<Rightarrow> 'a word \<Rightarrow> 'a word \<Rightarrow> 'a word" where
  "slot esz t i = t + esz * i"

text \<open>\<^verbatim>\<open>memset(p, 0, PAGE_SIZE)\<close> on the entries of a page.\<close>

definition zero_page :: "'a::len word \<Rightarrow> ('a word \<Rightarrow> 'a word) \<Rightarrow> ('a word \<Rightarrow> 'a word)" where
  "zero_page p m = (\<lambda>x. if x - p < 4096 then 0 else m x)"

text \<open>One level of the descent in \<open>vmm_map_page\<close>: the table that entry \<open>i\<close> of table \<open>t\<close> points to,
  allocated and cleared first if there is none.\<close>

definition next_table ::
  "('s \<Rightarrow> 's \<times> 'a word) \<Rightarrow> 'a word \<Rightarrow> 'a word \<Rightarrow> 'a word \<Rightarrow> 'a word \<Rightarrow>
    ('a word \<Rightarrow> 'a word) \<times> 's \<Rightarrow> 'a::len word \<times> ('a word \<Rightarrow> 'a word) \<times> 's" where
  "next_table alloc esz flags t i ms =
     (case ms of (m, fs) \<Rightarrow>
        if \<not> is_present (m (slot esz t i)) then
          (case alloc fs of (fs', p) \<Rightarrow>
             (p, (zero_page p m)(slot esz t i :=
                p OR PAGE_PRESENT OR PAGE_WRITABLE OR (flags AND PAGE_USER)), fs'))
        else (page_base (m (slot esz t i)), m, fs))"

text \<open>The table at the end of a path of indices, and an entry of a last-level table (0 when
  the path leads nowhere).\<close>

fun walk :: "'a::len word \<Rightarrow> ('a word \<Rightarrow> 'a word) \<Rightarrow> 'a word \<Rightarrow> 'a word list \<Rightarrow> 'a word option" where
  "walk esz m t [] = Some t"
| "walk esz m t (i # is) =
     (if is_present (m (slot esz t i)) then walk esz m (page_base (m (slot esz t i))) is else None)"

definition leaf :: "'a::len word \<Rightarrow> ('a word \<Rightarrow> 'a word) \<Rightarrow> 'a word \<Rightarrow> 'a word list \<Rightarrow> 'a word \<Rightarrow> 'a word" where
  "leaf esz m root path i = (case walk esz m root path of None \<Rightarrow> 0 | Some t \<Rightarrow> m (slot esz t i))"

lemma walk_snoc:
  "walk esz m t (q @ [j]) =
    Option.bind (walk esz m t q) (\<lambda>u. if is_present (m (slot esz u j)) then Some (page_base (m (slot esz u j))) else None)"
  by (induction q arbitrary: t) auto

lemma not_present_0 [simp]: "\<not> is_present 0"
  by (simp add: is_present_def)

lemma is_present_bit: "is_present e \<longleftrightarrow> bit e 0"
  by (simp add: is_present_def PAGE_PRESENT_def and_one_eq bit_0 odd_iff_mod_2_eq_one mod2_eq_if)

lemma table_flags: "page_base (PAGE_PRESENT OR PAGE_WRITABLE OR (flags AND PAGE_USER)) = 0"
proof -
  have m: "(0xFFF :: 'a::len word) = mask 12" and "(4 :: 'a word) = 2 ^ 2"
    by (simp_all add: mask_eq_exp_minus_1)
  have "bit (4 :: 'a word) n \<Longrightarrow> n < 12" for n
    unfolding \<open>4 = 2 ^ 2\<close> bit_exp_iff by simp
  then show ?thesis
    unfolding page_base_def PAGE_PRESENT_def PAGE_WRITABLE_def PAGE_USER_def m
    by (intro bit_word_eqI) (auto simp: bit_simps)
qed

definition aligned :: "'a::len word \<Rightarrow> bool" where
  "aligned t \<longleftrightarrow> unat t mod 4096 = 0"

lemma mask12: "12 < LENGTH('a::len) \<Longrightarrow> (0xFFF :: 'a word) = mask 12"
  by (simp add: mask_eq_exp_minus_1)

lemma aligned_take_bit: "aligned t \<longleftrightarrow> take_bit 12 t = 0"
proof -
  have "unat (take_bit 12 t) = unat t mod 4096"
    unfolding unsigned_take_bit_eq by (simp add: take_bit_eq_mod)
  then show ?thesis unfolding aligned_def by (metis unat_eq_0)
qed

text \<open>An entry made of a page address and flag bits below 4096.\<close>

lemma page_base_entry:
  assumes "aligned (t :: 'a::len word)" "page_base b = 0"
  shows "page_base (t OR b) = t"
proof -
  have "t AND NOT 0xFFF = t"
  proof -
    have "t AND mask 12 = 0" using assms(1) by (simp add: aligned_take_bit flip: take_bit_eq_mask)
    moreover have "(0xFFF :: 'a word) = mask 12" by (simp add: mask_eq_exp_minus_1)
    ultimately show ?thesis
      by (metis (no_types, lifting) and.right_neutral bit.conj_cancel_right bit.conj_disj_distrib
          bit.disj_cancel_right or.left_neutral)
  qed
  with assms(2) show ?thesis by (simp add: page_base_def bit.conj_disj_distrib2)
qed

section \<open>The contract of a page-table tree\<close>

locale page_tables = page_allocator alloc dealloc avail ok
  for alloc :: "'s \<Rightarrow> 's \<times> 'a::len word" and dealloc :: "'s \<Rightarrow> 'a word \<Rightarrow> 's"
    and avail :: "'s \<Rightarrow> 'a word set" and ok :: "'s \<Rightarrow> bool" +
  fixes esz :: "'a word" and N :: nat
  assumes width: "12 < LENGTH('a)" and table_fills_page: "unat esz * N = 4096"
begin

definition index_path :: "'a word list \<Rightarrow> bool" where
  "index_path p \<longleftrightarrow> (\<forall>i \<in> set p. unat i < N)"

text \<open>Every table of the first \<open>k\<close> levels is page aligned, is not available to the allocator, and
  is reached by one path only.\<close>

definition tree_ok :: "('a word \<Rightarrow> 'a word) \<Rightarrow> 'a word \<Rightarrow> nat \<Rightarrow> 'a word set \<Rightarrow> bool" where
  "tree_ok m root k A \<longleftrightarrow>
     (\<forall>p t. index_path p \<longrightarrow> length p \<le> k \<longrightarrow> walk esz m root p = Some t \<longrightarrow> aligned t \<and> t \<notin> A) \<and>
     (\<forall>p q t. index_path p \<longrightarrow> length p \<le> k \<longrightarrow> index_path q \<longrightarrow> length q \<le> k \<longrightarrow>
        walk esz m root p = Some t \<longrightarrow> walk esz m root q = Some t \<longrightarrow> p = q)"

lemma tree_okD:
  assumes "tree_ok m root k A" "index_path p" "length p \<le> k" "walk esz m root p = Some t"
  shows "aligned t" "t \<notin> A"
    and "index_path q \<Longrightarrow> length q \<le> k \<Longrightarrow> walk esz m root q = Some t \<Longrightarrow> q = p"
  using assms unfolding tree_ok_def by blast+

lemma index_path_snoc [simp]: "index_path (p @ [i]) \<longleftrightarrow> index_path p \<and> unat i < N"
  by (auto simp: index_path_def)

lemma slot_offset:
  assumes "unat i < N"
  shows "unat (esz * i) = unat esz * unat i" "unat esz * unat i < 4096"
proof -
  have pos: "0 < unat esz" using table_fills_page by (cases "unat esz") auto
  with assms have "unat esz * unat i < unat esz * N" by simp
  then show b: "unat esz * unat i < 4096" using table_fills_page by simp
  have "(4096::nat) = 2 ^ 12" by simp
  also have "\<dots> \<le> 2 ^ LENGTH('a)" using width by (intro power_increasing) auto
  finally have "unat esz * unat i < 2 ^ LENGTH('a)" using b by linarith
  then show "unat (esz * i) = unat esz * unat i" by (simp add: unat_word_ariths)
qed

lemma aligned_room:
  assumes "aligned (t :: 'a word)"
  shows "unat t + 4096 \<le> 2 ^ LENGTH('a)"
proof -
  obtain r where r: "2 ^ LENGTH('a) = 4096 * (r :: nat)"
  proof (rule that)
    show "2 ^ LENGTH('a) = 4096 * (2 ^ (LENGTH('a) - 12) :: nat)"
      using power_add [of "2::nat" 12 "LENGTH('a) - 12"] width by simp
  qed
  obtain k where k: "unat t = 4096 * k" using assms unfolding aligned_def by auto
  have "unat t < 2 ^ LENGTH('a)" by simp
  then have "k < r" using r k by simp
  then have "4096 * Suc k \<le> 4096 * r" by (simp only: mult_le_mono2 Suc_leI)
  with r k show ?thesis by simp
qed

lemma unat_slot:
  assumes "aligned t" "unat i < N"
  shows "unat (slot esz t i) = unat t + unat esz * unat i"
  using aligned_room [OF assms(1)] slot_offset [OF assms(2)]
  unfolding slot_def by (subst unat_plus_if') simp

lemma slot_inj:
  assumes "aligned t" "aligned u" "unat i < N" "unat j < N"
  shows "slot esz t i = slot esz u j \<longleftrightarrow> t = u \<and> i = j"
proof
  assume "slot esz t i = slot esz u j"
  then have eq: "unat t + unat esz * unat i = unat u + unat esz * unat j"
    using assms by (metis unat_slot)
  have "unat t div 4096 * 4096 = unat t" "unat u div 4096 * 4096 = unat u"
    using assms(1,2) by (auto simp: aligned_def)
  moreover have "(unat t + unat esz * unat i) div 4096 = unat t div 4096"
    "(unat u + unat esz * unat j) div 4096 = unat u div 4096"
    using slot_offset [OF assms(3)] slot_offset [OF assms(4)] assms(1,2)
    by (auto simp: aligned_def div_add1_eq)
  ultimately have "unat t = unat u" using eq by metis
  moreover have "0 < unat esz" using table_fills_page by (cases "unat esz") auto
  ultimately show "t = u \<and> i = j" using eq by (simp add: word_unat_eq_iff)
qed simp

lemma unat_4096: "unat (4096 :: 'a word) = 4096"
proof -
  have "(4096::nat) = 2 ^ 12" by simp
  also have "\<dots> < 2 ^ LENGTH('a)" using width by (intro power_strict_increasing) auto
  finally have "take_bit LENGTH('a) (4096 :: nat) = 4096" by (rule take_bit_nat_eq_self)
  then show ?thesis by simp
qed

lemma aligned_apart:
  assumes "aligned t" "aligned u" "t \<noteq> u"
  shows "unat t + 4096 \<le> unat u \<or> unat u + 4096 \<le> unat (t :: 'a word)"
proof -
  have "4096 dvd unat t" "4096 dvd unat u" using assms(1,2) unfolding aligned_def by auto
  then obtain i j where ij: "unat t = 4096 * i" "unat u = 4096 * j" by (elim dvdE)
  have "i \<noteq> j" using assms(3) ij by (metis unsigned_word_eqI)
  then have "Suc i \<le> j \<or> Suc j \<le> i" by arith
  with ij show ?thesis by auto
qed

lemma zero_page_slot:
  assumes "aligned n" "aligned u" "unat j < N"
  shows "zero_page n m (slot esz u j) = (if u = n then 0 else m (slot esz u j))"
proof (cases "u = n")
  case True
  have "slot esz n j - n = esz * j" by (simp add: slot_def)
  moreover have "esz * j < 4096"
    using slot_offset [OF assms(3)] unfolding word_less_nat_alt unat_4096 by simp
  ultimately show ?thesis using True by (simp add: zero_page_def)
next
  case False
  have "\<not> unat (slot esz u j - n) < 4096"
    using aligned_apart [OF assms(1,2)] False aligned_room [OF assms(1)] slot_offset(2) [OF assms(3)]
    unfolding unat_sub_if' unat_slot [OF assms(2,3)] by auto
  then have "\<not> slot esz u j - n < 4096" unfolding word_less_nat_alt unat_4096 .
  then show ?thesis using False by (simp add: zero_page_def)
qed

lemma walk_aligned: "tree_ok m root k A \<Longrightarrow> index_path q \<Longrightarrow> length q \<le> k \<Longrightarrow>
    walk esz m root q = Some u \<Longrightarrow> aligned u"
  by (rule tree_okD(1))

definition link_table where
  "link_table m t i n e = (zero_page n m)(slot esz t i := e)"

text \<open>Linking a fresh, cleared page into an empty entry of a table above the last level: the walk
  gains exactly that page, and no last-level entry changes.\<close>

lemma link_table_slot:
  assumes "aligned t" "aligned u" "aligned n" "unat i < N" "unat j < N" "t \<noteq> n"
  shows "link_table m t i n e (slot esz u j) =
    (if u = t \<and> j = i then e else if u = n then 0 else m (slot esz u j))"
  using assms by (auto simp: link_table_def zero_page_slot slot_inj)

lemma walk_link_table:
  assumes tree: "tree_ok m root k A" and p: "index_path p" "length p < k" and i: "unat i < N"
    and t: "walk esz m root p = Some t" and empty: "\<not> is_present (m (slot esz t i))"
    and n: "n \<in> A" "aligned n" and e: "is_present e" "page_base e = n"
  shows "index_path q \<Longrightarrow> length q \<le> k \<Longrightarrow> walk esz (link_table m t i n e) root q =
    (if q = p @ [i] then Some n else walk esz m root q)"
proof (induction q rule: rev_induct)
  case Nil
  then show ?case by simp
next
  case (snoc j q)
  let ?m = "link_table m t i n e"
  have q: "index_path q" "length q \<le> k" "unat j < N" using snoc.prems by auto
  have tn: "aligned t" "t \<noteq> n" using tree_okD [OF tree p(1) _ t] p(2) n by auto
  have none: "walk esz m root (p @ [i]) = None" using t empty by (simp add: walk_snoc)
  show ?case
  proof (cases "q = p @ [i]")
    case True
    then have "walk esz ?m root q = Some n" using snoc.IH q by simp
    then have "walk esz ?m root (q @ [j]) = None"
      using link_table_slot [OF tn(1) n(2) n(2) i q(3) tn(2)] tn(2) by (auto simp: walk_snoc)
    moreover have "walk esz m root (q @ [j]) = None" using True none by (subst walk_snoc) simp
    ultimately show ?thesis using True by simp
  next
    case False
    then have IH: "walk esz ?m root q = walk esz m root q" using snoc.IH q by simp
    show ?thesis
    proof (cases "walk esz m root q")
      case None
      then show ?thesis using IH t by (auto simp: walk_snoc)
    next
      case (Some u)
      have u: "aligned u" "u \<noteq> n" using tree_okD [OF tree q(1,2) Some] n by auto
      have "u = t \<longleftrightarrow> q = p" using tree_okD(3) [OF tree q(1,2) Some p(1)] p(2) t Some by auto
      then show ?thesis
        using IH Some link_table_slot [OF tn(1) u(1) n(2) i q(3) tn(2)] u(2) e
        by (auto simp: walk_snoc)
    qed
  qed
qed

lemma leaf_link_table:
  assumes tree: "tree_ok m root k A" and p: "index_path p" "length p < k" and i: "unat i < N"
    and t: "walk esz m root p = Some t" and empty: "\<not> is_present (m (slot esz t i))"
    and n: "n \<in> A" "aligned n" and e: "is_present e" "page_base e = n"
    and q: "index_path q" "length q = k" "unat j < N"
  shows "leaf esz (link_table m t i n e) root q j = leaf esz m root q j"
proof (cases "walk esz m root q")
  case None
  have tn: "aligned t" "t \<noteq> n" using tree_okD [OF tree p(1) _ t] p(2) n by auto
  show ?thesis
    using walk_link_table [OF tree p i t empty n e q(1)] q None
      link_table_slot [OF tn(1) n(2) n(2) i q(3) tn(2)] tn(2)
    by (auto simp: leaf_def)
next
  case (Some u)
  have tn: "aligned t" "t \<noteq> n" using tree_okD [OF tree p(1) _ t] p(2) n by auto
  have u: "aligned u" "u \<noteq> n" using tree_okD [OF tree q(1) _ Some] q n by auto
  have "u \<noteq> t" using tree_okD(3) [OF tree q(1) _ Some p(1)] p(2) q(2) t Some by auto
  moreover have "q \<noteq> p @ [i]" using Some t empty by (auto simp: walk_snoc)
  ultimately show ?thesis
    using walk_link_table [OF tree p i t empty n e q(1)] q Some
      link_table_slot [OF tn(1) u(1) n(2) i q(3) tn(2)] u(2)
    by (simp add: leaf_def)
qed

lemma tree_ok_link_table:
  assumes tree: "tree_ok m root k A" and p: "index_path p" "length p < k" and i: "unat i < N"
    and t: "walk esz m root p = Some t" and empty: "\<not> is_present (m (slot esz t i))"
    and n: "n \<in> A" "aligned n" and e: "is_present e" "page_base e = n"
  shows "tree_ok (link_table m t i n e) root k (A - {n})"
proof -
  note w = walk_link_table [OF tree p i t empty n e]
  have none: "walk esz m root (p @ [i]) = None" using t empty by (simp add: walk_snoc)
  show ?thesis
    unfolding tree_ok_def
  proof (intro conjI allI impI)
    fix q u assume "index_path q" "length q \<le> k" "walk esz (link_table m t i n e) root q = Some u"
    then show "aligned u" "u \<notin> A - {n}"
      using w [of q] tree_okD(1,2) [OF tree, of q u] n by (auto split: if_splits)
  next
    fix q r u
    assume q: "index_path q" "length q \<le> k" "walk esz (link_table m t i n e) root q = Some u"
      and r: "index_path r" "length r \<le> k" "walk esz (link_table m t i n e) root r = Some u"
    show "q = r"
      using q r w [of q] w [of r] tree_okD(2) [OF tree, of q u] tree_okD(2) [OF tree, of r u]
        tree_okD(3) [OF tree, of q u r] n
      by (auto split: if_splits)
  qed
qed

section \<open>Descending and writing the last entry\<close>

lemma next_table_step:
  assumes tree: "tree_ok m root k (avail fs)" and p: "index_path p" "length p < k"
    and i: "unat i < N" and t: "walk esz m root p = Some t"
    and fs: "ok fs" "avail fs \<noteq> {}"
    and step: "next_table alloc esz flags t i (m, fs) = (t', m', fs')"
  shows "tree_ok m' root k (avail fs')" "walk esz m' root (p @ [i]) = Some t'" "ok fs'"
    and "avail fs' = avail fs \<or> (\<exists>n \<in> avail fs. avail fs' = avail fs - {n})"
    and "\<And>q j. index_path q \<Longrightarrow> length q = k \<Longrightarrow> unat j < N \<Longrightarrow>
      leaf esz m' root q j = leaf esz m root q j"
proof -
  have "tree_ok m' root k (avail fs') \<and> walk esz m' root (p @ [i]) = Some t' \<and> ok fs' \<and>
    (avail fs' = avail fs \<or> (\<exists>n \<in> avail fs. avail fs' = avail fs - {n})) \<and>
    (\<forall>q j. index_path q \<longrightarrow> length q = k \<longrightarrow> unat j < N \<longrightarrow> leaf esz m' root q j = leaf esz m root q j)"
  proof (cases "is_present (m (slot esz t i))")
    case True
    then show ?thesis using step tree fs t by (auto simp: next_table_def walk_snoc)
  next
    case False
    obtain gs n where n: "alloc fs = (gs, n)" by fastforce
    let ?b = "PAGE_PRESENT OR PAGE_WRITABLE OR (flags AND PAGE_USER)"
    let ?e = "n OR ?b"
    from False step n have s: "t' = n" "fs' = gs" "m' = link_table m t i n ?e"
      by (auto simp: next_table_def link_table_def)
    have a: "ok gs" "avail gs = avail fs - {n}" "n \<in> avail fs"
      using alloc_cases [OF fs(1) n] alloc_page [OF fs(1) n] fs(2) by auto
    then have al: "aligned n" using page_aligned [OF fs(1)] by (simp add: aligned_def)
    have e: "is_present ?e" "page_base ?e = n"
      using page_base_entry [OF al table_flags] by (simp_all add: is_present_bit bit_simps PAGE_PRESENT_def)
    note l = tree p i t False a(3) al e
    show ?thesis
      using tree_ok_link_table [OF l] walk_link_table [OF l, of "p @ [i]"] leaf_link_table [OF l] a s p i
      by auto
  qed
  then show "tree_ok m' root k (avail fs')" "walk esz m' root (p @ [i]) = Some t'" "ok fs'"
    "avail fs' = avail fs \<or> (\<exists>n \<in> avail fs. avail fs' = avail fs - {n})"
    "\<And>q j. index_path q \<Longrightarrow> length q = k \<Longrightarrow> unat j < N \<Longrightarrow> leaf esz m' root q j = leaf esz m root q j"
    by blast+
qed

lemma leaf_write:
  assumes tree: "tree_ok m root k A" and p: "index_path p" "length p = k" and i: "unat i < N"
    and t: "walk esz m root p = Some t"
  shows "tree_ok (m(slot esz t i := e)) root k A"
    and "\<And>q j. index_path q \<Longrightarrow> length q = k \<Longrightarrow> unat j < N \<Longrightarrow>
      leaf esz (m(slot esz t i := e)) root q j = (if q = p \<and> j = i then e else leaf esz m root q j)"
proof -
  let ?m = "m(slot esz t i := e)"
  have al: "aligned t" using tree_okD(1) [OF tree p(1) _ t] p(2) by simp
  have w: "index_path q \<Longrightarrow> length q \<le> k \<Longrightarrow> walk esz ?m root q = walk esz m root q" for q
  proof (induction q rule: rev_induct)
    case (snoc j q)
    have q: "index_path q" "length q < k" "unat j < N" using snoc.prems by auto
    have "?m (slot esz u j) = m (slot esz u j)" if u: "walk esz m root q = Some u" for u
    proof -
      have "aligned u" using tree_okD(1) [OF tree q(1) _ u] q(2) by simp
      moreover have "u \<noteq> t" using tree_okD(3) [OF tree q(1) _ u p(1)] p q t by auto
      ultimately show ?thesis using slot_inj [OF _ al q(3) i, of u] by simp
    qed
    with snoc show ?case by (cases "walk esz m root q") (auto simp: walk_snoc)
  qed simp
  then show "tree_ok ?m root k A" using tree by (simp add: tree_ok_def)
  show "leaf esz ?m root q j = (if q = p \<and> j = i then e else leaf esz m root q j)"
    if q: "index_path q" "length q = k" "unat j < N" for q j
  proof (cases "walk esz m root q")
    case None
    then show ?thesis using w [of q] q t by (auto simp: leaf_def)
  next
    case (Some u)
    have "aligned u" using tree_okD(1) [OF tree q(1) _ Some] q by simp
    moreover have "u = t \<longleftrightarrow> q = p" using tree_okD(3) [OF tree q(1) _ Some p(1)] p q t Some by auto
    ultimately show ?thesis using w [of q] q Some slot_inj [OF _ al q(3) i, of u] by (auto simp: leaf_def)
  qed
qed

end

end
