(* ===== verification/Paging64.thy ===== *)
theory Paging64
  imports Page_Tree Pmm
begin

text \<open>
  The virtual memory manager of the 64-bit kernel, \<^verbatim>\<open>arch/x86_64/paging.c\<close>: four-level page tables
  of 512 entries, whose tables come from the physical page allocator. \<open>cr3\<close> is what the
  register holds; \<open>tlb\<close> lists the addresses invalidated.
\<close>

record vmm =
  kernel_pml4 :: addr
  ptmem :: "addr \<Rightarrow> u64"
  frames :: pmm
  tlb :: "addr list"

definition vmm_init :: "u64 \<Rightarrow> vmm \<Rightarrow> vmm" where
  "vmm_init cr3 s = s\<lparr>kernel_pml4 := cr3 AND NOT 0xFFF\<rparr>"

definition vmm_map_page :: "u64 \<Rightarrow> vmm \<Rightarrow> addr \<Rightarrow> addr \<Rightarrow> u64 \<Rightarrow> vmm" where
  "vmm_map_page cr3 s phys virt flags =
     (let pml4_idx = drop_bit 39 virt AND 0x1FF;
          pdpt_idx = drop_bit 30 virt AND 0x1FF;
          pd_idx = drop_bit 21 virt AND 0x1FF;
          pt_idx = drop_bit 12 virt AND 0x1FF;
          s = (if kernel_pml4 s = 0 then vmm_init cr3 s else s);
          (pdpt, ms) = next_table pmm_alloc_page 8 flags (kernel_pml4 s) pml4_idx (ptmem s, frames s);
          (pd, ms) = next_table pmm_alloc_page 8 flags pdpt pdpt_idx ms;
          (pt, m, fs) = next_table pmm_alloc_page 8 flags pd pd_idx ms
      in s\<lparr>ptmem := m(slot 8 pt pt_idx := (phys AND NOT 0xFFF) OR flags OR PAGE_PRESENT),
           frames := fs, tlb := tlb s @ [virt]\<rparr>)"

definition vmm_unmap_page :: "vmm \<Rightarrow> addr \<Rightarrow> vmm" where
  "vmm_unmap_page s virt =
     (let pml4_idx = drop_bit 39 virt AND 0x1FF;
          pdpt_idx = drop_bit 30 virt AND 0x1FF;
          pd_idx = drop_bit 21 virt AND 0x1FF;
          pt_idx = drop_bit 12 virt AND 0x1FF;
          m = ptmem s;
          e4 = m (slot 8 (kernel_pml4 s) pml4_idx) in
      if kernel_pml4 s = 0 \<or> \<not> is_present e4 then s
      else let pdpt = page_base e4; e3 = m (slot 8 pdpt pdpt_idx) in
      if \<not> is_present e3 then s
      else let pd = page_base e3; e2 = m (slot 8 pd pd_idx) in
      if \<not> is_present e2 then s
      else let pt = page_base e2 in
      s\<lparr>ptmem := m(slot 8 pt pt_idx := 0), tlb := tlb s @ [virt]\<rparr>)"

definition vmm_get_phys :: "vmm \<Rightarrow> addr \<Rightarrow> addr" where
  "vmm_get_phys s virt =
     (let pml4_idx = drop_bit 39 virt AND 0x1FF;
          pdpt_idx = drop_bit 30 virt AND 0x1FF;
          pd_idx = drop_bit 21 virt AND 0x1FF;
          pt_idx = drop_bit 12 virt AND 0x1FF;
          m = ptmem s;
          e4 = m (slot 8 (kernel_pml4 s) pml4_idx) in
      if kernel_pml4 s = 0 \<or> \<not> is_present e4 then 0
      else let pdpt = page_base e4; e3 = m (slot 8 pdpt pdpt_idx) in
      if \<not> is_present e3 then 0
      else let pd = page_base e3; e2 = m (slot 8 pd pd_idx) in
      if \<not> is_present e2 then 0
      else let pt = page_base e2; e1 = m (slot 8 pt pt_idx) in
      if \<not> is_present e1 then 0
      else (e1 AND NOT 0xFFF) OR (virt AND 0xFFF))"

text \<open>\<open>vmm_switch_pml4\<close> loads the register.\<close>

definition vmm_switch_pml4 :: "addr \<Rightarrow> u64" where
  "vmm_switch_pml4 pml4_phys = pml4_phys"

section \<open>Address spaces\<close>

interpretation pt64: page_tables pmm_alloc_page pmm_free_page pmm_avail pmm_ready 8 512
  by unfold_locales simp_all

definition vpath :: "addr \<Rightarrow> u64 list" where
  "vpath v = [drop_bit 39 v AND 0x1FF, drop_bit 30 v AND 0x1FF, drop_bit 21 v AND 0x1FF]"

definition vlast :: "addr \<Rightarrow> u64" where
  "vlast v = drop_bit 12 v AND 0x1FF"

text \<open>The 36 bits that select a page; the 16 bits above them are ignored, as by the code.\<close>

definition page_number :: "addr \<Rightarrow> u64" where
  "page_number v = take_bit 36 (drop_bit 12 v)"

lemma mask9: "(0x1FF :: u64) = mask 9"
  by (simp add: mask_eq_exp_minus_1)

lemma index_less: "unat ((x :: u64) AND 0x1FF) < 512"
  using word_and_le1 [of x 511] by (simp add: word_le_nat_alt)

lemma vpath_index [simp]: "pt64.index_path (vpath v)" "length (vpath v) = 3" "unat (vlast v) < 512"
  by (auto simp: pt64.index_path_def vpath_def vlast_def index_less)

lemma same_page: "vpath v = vpath w \<and> vlast v = vlast w \<longleftrightarrow> page_number v = page_number w"
proof
  have "page_number x = vlast x OR push_bit 9 (vpath x ! 2) OR push_bit 18 (vpath x ! 1)
      OR push_bit 27 (vpath x ! 0)" for x
  proof (rule bit_word_eqI)
    fix n :: nat
    have "9 \<le> n \<Longrightarrow> 21 + (n - 9) = 12 + n" "18 \<le> n \<Longrightarrow> 30 + (n - 18) = 12 + n"
      "27 \<le> n \<Longrightarrow> 39 + (n - 27) = 12 + n" by simp_all
    then show "bit (page_number x) n = bit (vlast x OR push_bit 9 (vpath x ! 2) OR
        push_bit 18 (vpath x ! 1) OR push_bit 27 (vpath x ! 0)) n"
      unfolding page_number_def vlast_def vpath_def mask9
      by (cases "n < 9"; cases "n < 18"; cases "n < 27") (auto simp: bit_simps)
  qed
  then show "vpath v = vpath w \<and> vlast v = vlast w \<Longrightarrow> page_number v = page_number w" by simp
next
  have "vpath x = [take_bit 9 (drop_bit 27 (page_number x)), take_bit 9 (drop_bit 18 (page_number x)),
      take_bit 9 (drop_bit 9 (page_number x))] \<and> vlast x = take_bit 9 (page_number x)" for x
    unfolding page_number_def vlast_def vpath_def mask9 list.inject
    by (intro conjI bit_word_eqI) (auto simp: bit_simps)
  then show "page_number v = page_number w \<Longrightarrow> vpath v = vpath w \<and> vlast v = vlast w" by metis
qed

definition translate :: "u64 \<Rightarrow> addr \<Rightarrow> addr" where
  "translate e v = (if is_present e then page_base e OR (v AND 0xFFF) else 0)"

definition vmm_leaf :: "vmm \<Rightarrow> addr \<Rightarrow> u64" where
  "vmm_leaf s v = leaf 8 (ptmem s) (kernel_pml4 s) (vpath v) (vlast v)"

lemma get_phys_leaf: "kernel_pml4 s \<noteq> 0 \<Longrightarrow> vmm_get_phys s v = translate (vmm_leaf s v) v"
  by (simp add: vmm_get_phys_def Let_def vmm_leaf_def leaf_def vpath_def vlast_def translate_def
      page_base_def)

definition vmm_ok :: "vmm \<Rightarrow> bool" where
  "vmm_ok s \<longleftrightarrow> kernel_pml4 s \<noteq> 0 \<and> pmm_ready (frames s) \<and>
     pt64.tree_ok (ptmem s) (kernel_pml4 s) 3 (pmm_avail (frames s))"

text \<open>Mapping a page, the root in place and enough pages free.\<close>

lemma map_page_leaf:
  assumes ok: "vmm_ok s" and room: "3 \<le> card (pmm_avail (frames s))"
  shows "vmm_ok (vmm_map_page cr3 s phys virt flags)"
    and "vmm_leaf (vmm_map_page cr3 s phys virt flags) v =
      (if page_number v = page_number virt then (phys AND NOT 0xFFF) OR flags OR PAGE_PRESENT
       else vmm_leaf s v)"
    and "card (pmm_avail (frames s)) \<le> 3 + card (pmm_avail (frames (vmm_map_page cr3 s phys virt flags)))"
    and "pmm_avail (frames (vmm_map_page cr3 s phys virt flags)) \<subseteq> pmm_avail (frames s)"
    and "kernel_pml4 (vmm_map_page cr3 s phys virt flags) = kernel_pml4 s"
proof -
  let ?root = "kernel_pml4 s" and ?m = "ptmem s" and ?fs = "frames s"
  obtain i4 i3 i2 where path: "vpath virt = [i4, i3, i2]" by (simp add: vpath_def)
  have idx: "pt64.index_path [i4, i3, i2]" using vpath_index(1) [of virt] path by simp
  then have ip: "pt64.index_path []" "pt64.index_path [i4]" "pt64.index_path [i4, i3]"
    and i: "unat i4 < 512" "unat i3 < 512" "unat i2 < 512"
    by (auto simp: pt64.index_path_def)
  have len: "length ([] :: u64 list) < 3" "length [i4] < 3" "length [i4, i3] < 3" "length [i4, i3, i2] = 3"
    by simp_all
  obtain t3 m3 f3 where s3: "next_table pmm_alloc_page 8 flags ?root i4 (?m, ?fs) = (t3, m3, f3)"
    by (metis prod_cases3)
  obtain t2 m2 f2 where s2: "next_table pmm_alloc_page 8 flags t3 i3 (m3, f3) = (t2, m2, f2)"
    by (metis prod_cases3)
  obtain t1 m1 f1 where s1: "next_table pmm_alloc_page 8 flags t2 i2 (m2, f2) = (t1, m1, f1)"
    by (metis prod_cases3)
  have fin: "finite (pmm_avail fs)" for fs by (simp add: pmm_avail_def)
  have smaller: "2 \<le> n \<Longrightarrow> n \<le> card A \<Longrightarrow> finite A \<Longrightarrow> B = A \<or> (\<exists>x\<in>A. B = A - {x}) \<Longrightarrow>
      n - 1 \<le> card B \<and> B \<noteq> {}" for n and A B :: "addr set"
  proof -
    assume a: "2 \<le> n" "n \<le> card A" "finite A" "B = A \<or> (\<exists>x\<in>A. B = A - {x})"
    then have "n - 1 \<le> card B" by (auto simp: card_Diff_singleton)
    with a(1) show ?thesis by auto
  qed
  have ok0: "pt64.tree_ok ?m ?root 3 (pmm_avail ?fs)" "pmm_ready ?fs" "?root \<noteq> 0"
    using ok by (auto simp: vmm_ok_def)
  have ne0: "pmm_avail ?fs \<noteq> {}" using room by auto
  note st3 = pt64.next_table_step [OF ok0(1) ip(1) len(1) i(1) walk.simps(1) ok0(2) ne0 s3, unfolded append.simps]
  have a3: "2 \<le> card (pmm_avail f3) \<and> pmm_avail f3 \<noteq> {}"
    using smaller [of 3, OF _ room fin st3(4)] by simp
  note st2 = pt64.next_table_step [OF st3(1) ip(2) len(2) i(2) st3(2) st3(3) conjunct2 [OF a3] s2, unfolded append.simps]
  have a2: "1 \<le> card (pmm_avail f2) \<and> pmm_avail f2 \<noteq> {}"
    using smaller [of 2, OF _ conjunct1 [OF a3] fin st2(4)] by simp
  note st1 = pt64.next_table_step [OF st2(1) ip(3) len(3) i(3) st2(2) st2(3) conjunct2 [OF a2] s1, unfolded append.simps]
  let ?e = "(phys AND NOT 0xFFF) OR flags OR PAGE_PRESENT"
  note w = pt64.leaf_write [OF st1(1) idx len(4) vpath_index(3) [of virt] st1(2), where e = ?e]
  have map: "vmm_map_page cr3 s phys virt flags =
      s\<lparr>ptmem := m1(slot 8 t1 (vlast virt) := ?e), frames := f1, tlb := tlb s @ [virt]\<rparr>"
    using path s3 s2 s1 ok0(3) by (simp add: vmm_map_page_def vpath_def vlast_def)
  have drop: "finite A \<Longrightarrow> B = A \<or> (\<exists>x\<in>A. B = A - {x}) \<Longrightarrow> card A \<le> 1 + card B" for A B :: "addr set"
    by (auto simp: card_Diff_singleton)
  show "card (pmm_avail (frames s)) \<le> 3 + card (pmm_avail (frames (vmm_map_page cr3 s phys virt flags)))"
    using drop [OF fin st3(4)] drop [OF fin st2(4)] drop [OF fin st1(4)] by (simp add: map)
  show "pmm_avail (frames (vmm_map_page cr3 s phys virt flags)) \<subseteq> pmm_avail (frames s)"
    using st3(4) st2(4) st1(4) by (auto simp: map)
  show "kernel_pml4 (vmm_map_page cr3 s phys virt flags) = kernel_pml4 s"
    by (simp add: map)
  show "vmm_ok (vmm_map_page cr3 s phys virt flags)"
    using w(1) st1(3) ok0(3) by (simp add: map vmm_ok_def)
  show "vmm_leaf (vmm_map_page cr3 s phys virt flags) v =
      (if page_number v = page_number virt then ?e else vmm_leaf s v)"
    using w(2) [of "vpath v" "vlast v"] st1(5) [of "vpath v" "vlast v"] st2(5) [of "vpath v" "vlast v"]
      st3(5) [of "vpath v" "vlast v"] same_page [of v virt] path
    by (auto simp: map vmm_leaf_def)
qed

lemma unmap_page_leaf:
  assumes ok: "vmm_ok s"
  shows "vmm_ok (vmm_unmap_page s virt)"
    and "vmm_leaf (vmm_unmap_page s virt) v = (if page_number v = page_number virt then 0 else vmm_leaf s v)"
    and "frames (vmm_unmap_page s virt) = frames s"
proof -
  have root: "kernel_pml4 s \<noteq> 0" using ok by (simp add: vmm_ok_def)
  show "frames (vmm_unmap_page s virt) = frames s"
    by (simp add: vmm_unmap_page_def Let_def)
  show "vmm_ok (vmm_unmap_page s virt)"
    "vmm_leaf (vmm_unmap_page s virt) v = (if page_number v = page_number virt then 0 else vmm_leaf s v)"
  proof (atomize (full), cases "walk 8 (ptmem s) (kernel_pml4 s) (vpath virt)")
    case None
    then have "vmm_unmap_page s virt = s"
      using root by (auto simp: vmm_unmap_page_def vpath_def Let_def split: if_splits)
    moreover have "vmm_leaf s v = 0" if "page_number v = page_number virt"
      using that None same_page [of v virt] by (simp add: vmm_leaf_def leaf_def)
    ultimately show "vmm_ok (vmm_unmap_page s virt) \<and> vmm_leaf (vmm_unmap_page s virt) v =
        (if page_number v = page_number virt then 0 else vmm_leaf s v)" using ok by simp
  next
    case (Some t)
    then have u: "vmm_unmap_page s virt =
        s\<lparr>ptmem := (ptmem s)(slot 8 t (vlast virt) := 0), tlb := tlb s @ [virt]\<rparr>"
      using root by (auto simp: vmm_unmap_page_def vpath_def vlast_def Let_def split: if_splits)
    have tree: "pt64.tree_ok (ptmem s) (kernel_pml4 s) 3 (pmm_avail (frames s))"
      using ok by (simp add: vmm_ok_def)
    note w = pt64.leaf_write [OF tree vpath_index(1) vpath_index(2) vpath_index(3) [of virt] Some, where e = 0]
    show "vmm_ok (vmm_unmap_page s virt) \<and> vmm_leaf (vmm_unmap_page s virt) v =
        (if page_number v = page_number virt then 0 else vmm_leaf s v)"
      using w(1) w(2) [of "vpath v" "vlast v"] ok same_page [of v virt]
      by (auto simp: u vmm_ok_def vmm_leaf_def)
  qed
qed

section \<open>An address space is a map from page numbers to entries\<close>

datatype vmm_call = Map_page addr addr u64 | Unmap_page addr

fun vmm_step :: "u64 \<Rightarrow> vmm \<Rightarrow> vmm_call \<Rightarrow> vmm" where
  "vmm_step cr3 s (Map_page phys virt flags) = vmm_map_page cr3 s phys virt flags"
| "vmm_step cr3 s (Unmap_page virt) = vmm_unmap_page s virt"

fun space_step :: "(addr \<Rightarrow> u64) \<Rightarrow> vmm_call \<Rightarrow> (addr \<Rightarrow> u64)" where
  "space_step f (Map_page phys virt flags) =
     (\<lambda>v. if page_number v = page_number virt then (phys AND NOT 0xFFF) OR flags OR PAGE_PRESENT else f v)"
| "space_step f (Unmap_page virt) = (\<lambda>v. if page_number v = page_number virt then 0 else f v)"

lemma vmm_step_leaf:
  assumes "vmm_ok s" "3 \<le> card (pmm_avail (frames s))"
  shows "vmm_ok (vmm_step cr3 s c) \<and> vmm_leaf (vmm_step cr3 s c) = space_step (vmm_leaf s) c \<and>
    card (pmm_avail (frames s)) \<le> 3 + card (pmm_avail (frames (vmm_step cr3 s c)))"
proof (cases c)
  case (Map_page phys virt flags)
  then show ?thesis using map_page_leaf [OF assms] by (auto simp: fun_eq_iff)
next
  case (Unmap_page virt)
  then show ?thesis using unmap_page_leaf [OF assms(1)] by (auto simp: fun_eq_iff)
qed

lemma vmm_run_leaf:
  assumes "vmm_ok s" "3 * length cs \<le> card (pmm_avail (frames s))"
  shows "vmm_ok (foldl (vmm_step cr3) s cs) \<and>
    vmm_leaf (foldl (vmm_step cr3) s cs) = foldl space_step (vmm_leaf s) cs"
  using assms
proof (induction cs arbitrary: s)
  case (Cons c cs)
  have "3 \<le> card (pmm_avail (frames s))" using Cons.prems(2) by simp
  from vmm_step_leaf [OF Cons.prems(1) this, of cr3 c] show ?case
    using Cons.IH [of "vmm_step cr3 s c"] Cons.prems(2) by simp
qed simp

text \<open>C5: after any sequence of \<open>vmm_map_page\<close> and \<open>vmm_unmap_page\<close> calls for which the allocator
  has pages, \<open>vmm_get_phys\<close> answers every address as a flat map from page numbers to entries
  does: a call changes the translation of its own page and of no other, although the calls
  build, share and reuse page tables.\<close>

theorem vmm_refines_flat_map:
  assumes "vmm_ok s" "3 * length cs \<le> card (pmm_avail (frames s))"
  shows "vmm_get_phys (foldl (vmm_step cr3) s cs) v = translate (foldl space_step (vmm_leaf s) cs v) v"
proof -
  have "kernel_pml4 (foldl (vmm_step cr3) s cs) \<noteq> 0"
    using vmm_run_leaf [OF assms, of cr3] by (simp add: vmm_ok_def)
  then show ?thesis using get_phys_leaf vmm_run_leaf [OF assms, of cr3] by simp
qed

definition vmm_example :: vmm where
  "vmm_example = \<lparr>kernel_pml4 = 0x1000, ptmem = (\<lambda>_. 0), frames = pmm_boot, tlb = []\<rparr>"

lemma boot_avail: "card (pmm_avail pmm_boot) = 8192" "0x1000 \<notin> pmm_avail pmm_boot"
proof -
  have "card (pmm_avail pmm_boot) = card (free_set pmm_boot)"
    unfolding pmm_avail_def by (rule card_image) (rule pmm_avail_inj [OF pmm_boot_free(2)])
  then show "card (pmm_avail pmm_boot) = 8192" unfolding pmm_boot_free(1) by simp
  show "0x1000 \<notin> pmm_avail pmm_boot"
  proof
    assume "0x1000 \<in> pmm_avail pmm_boot"
    then obtain i where i: "i \<in> free_set pmm_boot" "(0x1000 :: addr) = word_of_nat (i * PAGE_SIZE)"
      unfolding pmm_avail_def by blast
    then have "i * 4096 = unat (0x1000 :: addr)"
      using page_address [OF pmm_boot_free(2) free_set_bound [OF i(1)]] by simp
    then have "i = 1" by simp
    with i(1) show False unfolding pmm_boot_free(1) by simp
  qed
qed

lemma vmm_example_ok: "vmm_ok vmm_example"
proof -
  have "walk 8 (\<lambda>_. 0) t p = (if p = [] then Some t else None)" for t :: addr and p
    by (cases p) simp_all
  then show ?thesis
    using boot_avail(2) pmm_boot_free(3)
    by (simp add: vmm_ok_def vmm_example_def pt64.tree_ok_def aligned_def)
qed

theorem vmm_refines_flat_map_witness:
  "vmm_get_phys (foldl (vmm_step 0) vmm_example [Map_page 0x5000 0x400000 3, Map_page 0x7000 0x401000 3,
     Unmap_page 0x401000]) 0x400123 = 0x5123"
proof -
  let ?cs = "[Map_page 0x5000 0x400000 3, Map_page 0x7000 0x401000 3, Unmap_page 0x401000]"
  have c: "3 * length ?cs \<le> card (pmm_avail (frames vmm_example))"
    by (simp add: vmm_example_def boot_avail)
  have n: "page_number 0x400123 = 0x400" "page_number 0x400000 = 0x400" "page_number 0x401000 = 0x401"
    by (simp_all add: page_number_def)
  then have "foldl space_step (vmm_leaf vmm_example) ?cs 0x400123 = 0x5003"
    by (simp add: PAGE_PRESENT_def)
  then show ?thesis
    unfolding vmm_refines_flat_map [OF vmm_example_ok c]
    by (simp add: translate_def is_present_def PAGE_PRESENT_def page_base_def)
qed

end
