(* ===== verification/Paging32.thy ===== *)
theory Paging32
  imports Page_Tree Pmm
begin

text \<open>
  The virtual memory manager of the 32-bit kernel, \<^verbatim>\<open>arch/x86/paging.c\<close>: a page directory and page
  tables of 1024 four-byte entries. Addresses are 32 bits wide; the page allocator is that of
  \<^verbatim>\<open>mem/pmm.c\<close>, whose page addresses fit in 32 bits as long as it manages at most 4 GB.
\<close>

record vmm32 =
  kernel_page_dir :: u32
  ptmem32 :: "u32 \<Rightarrow> u32"
  frames32 :: pmm
  tlb32 :: "u32 list"

definition alloc_page32 :: "pmm \<Rightarrow> pmm \<times> u32" where
  "alloc_page32 p = (case pmm_alloc_page p of (p', a) \<Rightarrow> (p', ucast a))"

definition vmm_init32 :: "u32 \<Rightarrow> vmm32 \<Rightarrow> vmm32" where
  "vmm_init32 cr3 s = s\<lparr>kernel_page_dir := cr3 AND NOT 0xFFF\<rparr>"

definition vmm_map_page32 :: "u32 \<Rightarrow> vmm32 \<Rightarrow> u32 \<Rightarrow> u32 \<Rightarrow> u64 \<Rightarrow> vmm32" where
  "vmm_map_page32 cr3 s phys virt flags =
     (let pd_idx = drop_bit 22 virt AND 0x3FF;
          pt_idx = drop_bit 12 virt AND 0x3FF;
          s = (if kernel_page_dir s = 0 then vmm_init32 cr3 s else s);
          (pt, m, fs) = next_table alloc_page32 4 (ucast flags) (kernel_page_dir s) pd_idx (ptmem32 s, frames32 s)
      in s\<lparr>ptmem32 := m(slot 4 pt pt_idx := (phys AND NOT 0xFFF) OR (ucast flags AND 0xFFF) OR PAGE_PRESENT),
           frames32 := fs, tlb32 := tlb32 s @ [virt]\<rparr>)"

definition vmm_unmap_page32 :: "vmm32 \<Rightarrow> u32 \<Rightarrow> vmm32" where
  "vmm_unmap_page32 s virt =
     (let pd_idx = drop_bit 22 virt AND 0x3FF;
          pt_idx = drop_bit 12 virt AND 0x3FF;
          e = ptmem32 s (slot 4 (kernel_page_dir s) pd_idx) in
      if kernel_page_dir s = 0 \<or> \<not> is_present e then s
      else let pt = page_base e in
      s\<lparr>ptmem32 := (ptmem32 s)(slot 4 pt pt_idx := 0), tlb32 := tlb32 s @ [virt]\<rparr>)"

definition vmm_get_phys32 :: "vmm32 \<Rightarrow> u32 \<Rightarrow> u32" where
  "vmm_get_phys32 s virt =
     (let pd_idx = drop_bit 22 virt AND 0x3FF;
          pt_idx = drop_bit 12 virt AND 0x3FF;
          e = ptmem32 s (slot 4 (kernel_page_dir s) pd_idx) in
      if kernel_page_dir s = 0 \<or> \<not> is_present e then 0
      else let pt = page_base e; e1 = ptmem32 s (slot 4 pt pt_idx) in
      if \<not> is_present e1 then 0
      else (e1 AND NOT 0xFFF) OR (virt AND 0xFFF))"

definition vmm_switch_pml4_32 :: "u32 \<Rightarrow> u32" where
  "vmm_switch_pml4_32 pml4_phys = pml4_phys"

section \<open>The allocator seen through 32-bit pointers\<close>

definition ready32 :: "pmm \<Rightarrow> bool" where
  "ready32 p \<longleftrightarrow> pmm_ready p \<and> (\<forall>a \<in> pmm_avail p. unat a < 2 ^ 32)"

definition avail32 :: "pmm \<Rightarrow> u32 set" where
  "avail32 p = ucast ` pmm_avail p"

lemma ucast32_inj:
  "unat (a :: addr) < 2 ^ 32 \<Longrightarrow> unat (ucast a :: u32) = unat a"
  by (simp add: unsigned_ucast_eq take_bit_nat_eq_self)

lemma ucast32_back:
  assumes "unat (a :: addr) < 2 ^ 32"
  shows "ucast (ucast a :: u32) = a"
proof -
  have up: "unat (ucast w :: addr) = unat w" for w :: u32
  proof -
    have "unat w < 2 ^ 64" using unsigned_less [of w, where 'a = nat] by simp
    then show ?thesis unfolding unsigned_ucast_eq by (intro take_bit_nat_eq_self) simp
  qed
  have "unat (ucast (ucast a :: u32) :: addr) = unat a"
    unfolding up by (rule ucast32_inj [OF assms])
  then show ?thesis by (rule unsigned_word_eqI)
qed

lemma ready32_inj: "ready32 p \<Longrightarrow> inj_on (ucast :: addr \<Rightarrow> u32) (pmm_avail p)"
  by (rule inj_onI) (metis ready32_def ucast32_inj unsigned_word_eqI)

interpretation pmm32: page_allocator alloc_page32 "\<lambda>p a. pmm_free_page p (ucast a)" avail32 ready32
proof unfold_locales
  fix p p' a
  assume ok: "ready32 p" and al: "alloc_page32 p = (p', a)"
  obtain b where b: "pmm_alloc_page p = (p', b)" "a = ucast b"
    using al by (auto simp: alloc_page32_def split: prod.splits)
  have rd: "pmm_ready p" using ok by (simp add: ready32_def)
  {
    assume "a \<noteq> 0"
    then have "b \<noteq> 0" using b by auto
    with pmm.alloc_page [OF rd b(1)] have s: "b \<in> pmm_avail p" "pmm_avail p' = pmm_avail p - {b}" "pmm_ready p'"
      by auto
    have "ucast ` (pmm_avail p - {b}) = avail32 p - {a}"
      using inj_on_image_set_diff [OF ready32_inj [OF ok], of "pmm_avail p" "{b}"] s(1)
      by (simp add: avail32_def b(2))
    then show "a \<in> avail32 p \<and> avail32 p' = avail32 p - {a} \<and> ready32 p'"
      using s ok by (auto simp: avail32_def b(2) ready32_def)
    have "ucast a = b" using s(1) ok ucast32_back by (simp add: b(2) ready32_def)
    then show "avail32 (pmm_free_page p' (ucast a)) = avail32 p \<and> ready32 (pmm_free_page p' (ucast a))"
      using pmm.dealloc_page [OF rd b(1) \<open>b \<noteq> 0\<close>] ok by (simp add: avail32_def ready32_def)
  }
next
  fix p p' assume ok: "ready32 p" and al: "alloc_page32 p = (p', 0)"
  obtain b where b: "pmm_alloc_page p = (p', b)" "(0 :: u32) = ucast b"
    using al by (auto simp: alloc_page32_def split: prod.splits)
  have rd: "pmm_ready p" using ok by (simp add: ready32_def)
  have "b = 0"
  proof (rule ccontr)
    assume nz: "b \<noteq> 0"
    then have "b \<in> pmm_avail p" using pmm.alloc_page [OF rd b(1)] by simp
    then have "unat (ucast b :: u32) = unat b" using ok ucast32_inj by (simp add: ready32_def)
    with b(2) nz show False by (metis unat_eq_0 unsigned_0)
  qed
  with pmm.alloc_null [OF rd] b(1) show "avail32 p = {} \<and> p' = p" by (simp add: avail32_def)
next
  fix p a assume ok: "ready32 p" and "a \<in> avail32 p"
  then obtain b where b: "b \<in> pmm_avail p" "a = ucast b" by (auto simp: avail32_def)
  have "unat a = unat b" using ok b ucast32_inj by (simp add: ready32_def)
  with pmm.page_aligned [of p b] ok b show "a \<noteq> 0 \<and> unat a mod 4096 = 0"
    by (metis ready32_def unat_eq_0)
qed

interpretation pt32: page_tables alloc_page32 "\<lambda>p a. pmm_free_page p (ucast a)" avail32 ready32 4 1024
  by unfold_locales simp_all

section \<open>Address spaces\<close>

definition dir_index :: "u32 \<Rightarrow> u32" where
  "dir_index v = drop_bit 22 v AND 0x3FF"

definition tab_index :: "u32 \<Rightarrow> u32" where
  "tab_index v = drop_bit 12 v AND 0x3FF"

lemma index10_less: "unat ((x :: u32) AND 0x3FF) < 1024"
  using word_and_le1 [of x 1023] by (simp add: word_le_nat_alt)

lemma index32 [simp]: "unat (dir_index v) < 1024" "unat (tab_index v) < 1024"
  by (simp_all add: dir_index_def tab_index_def index10_less)

lemma same_page32: "dir_index v = dir_index w \<and> tab_index v = tab_index w \<longleftrightarrow> drop_bit 12 v = drop_bit 12 w"
proof
  have m: "(0x3FF :: u32) = mask 10" by (simp add: mask_eq_exp_minus_1)
  have "drop_bit 12 x = tab_index x OR push_bit 10 (dir_index x)" for x
  proof (rule bit_word_eqI)
    fix n :: nat
    have "10 \<le> n \<Longrightarrow> 22 + (n - 10) = 12 + n" by simp
    then show "bit (drop_bit 12 x) n = bit (tab_index x OR push_bit 10 (dir_index x)) n"
      unfolding dir_index_def tab_index_def m
      by (cases "n < 10"; cases "n < 20") (auto simp: bit_simps dest: bit_imp_le_length)
  qed
  then show "dir_index v = dir_index w \<and> tab_index v = tab_index w \<Longrightarrow> drop_bit 12 v = drop_bit 12 w" by simp
next
  have "dir_index x = drop_bit 10 (drop_bit 12 x) AND 0x3FF \<and> tab_index x = drop_bit 12 x AND 0x3FF" for x
    by (simp add: dir_index_def tab_index_def)
  then show "drop_bit 12 v = drop_bit 12 w \<Longrightarrow> dir_index v = dir_index w \<and> tab_index v = tab_index w" by metis
qed

definition vmm_leaf32 :: "vmm32 \<Rightarrow> u32 \<Rightarrow> u32" where
  "vmm_leaf32 s v = leaf 4 (ptmem32 s) (kernel_page_dir s) [dir_index v] (tab_index v)"

definition vmm_ok32 :: "vmm32 \<Rightarrow> bool" where
  "vmm_ok32 s \<longleftrightarrow> kernel_page_dir s \<noteq> 0 \<and> ready32 (frames32 s) \<and>
     pt32.tree_ok (ptmem32 s) (kernel_page_dir s) 1 (avail32 (frames32 s))"

lemma get_phys_leaf32:
  "kernel_page_dir s \<noteq> 0 \<Longrightarrow> vmm_get_phys32 s v =
    (if is_present (vmm_leaf32 s v) then page_base (vmm_leaf32 s v) OR (v AND 0xFFF) else 0)"
  by (simp add: vmm_get_phys32_def Let_def vmm_leaf32_def leaf_def dir_index_def tab_index_def page_base_def)

lemma map_page_leaf32:
  assumes ok: "vmm_ok32 s" and room: "avail32 (frames32 s) \<noteq> {}"
  shows "vmm_ok32 (vmm_map_page32 cr3 s phys virt flags)"
    and "vmm_leaf32 (vmm_map_page32 cr3 s phys virt flags) v =
      (if drop_bit 12 v = drop_bit 12 virt then (phys AND NOT 0xFFF) OR (ucast flags AND 0xFFF) OR PAGE_PRESENT
       else vmm_leaf32 s v)"
proof -
  let ?root = "kernel_page_dir s"
  have idx: "pt32.index_path []" "pt32.index_path [dir_index w]" for w
    by (auto simp: pt32.index_path_def)
  have len: "length ([] :: u32 list) < 1" "length [dir_index w] = 1" for w by simp_all
  obtain t m f where st: "next_table alloc_page32 4 (ucast flags) ?root (dir_index virt) (ptmem32 s, frames32 s)
      = (t, m, f)" by (metis prod_cases3)
  have ok0: "pt32.tree_ok (ptmem32 s) ?root 1 (avail32 (frames32 s))" "ready32 (frames32 s)" "?root \<noteq> 0"
    using ok by (auto simp: vmm_ok32_def)
  note s1 = pt32.next_table_step [OF ok0(1) idx(1) len(1) index32(1) walk.simps(1) ok0(2) room st,
      unfolded append.simps]
  let ?e = "(phys AND NOT 0xFFF) OR (ucast flags AND 0xFFF) OR PAGE_PRESENT"
  note w = pt32.leaf_write [OF s1(1) idx(2) len(2) index32(2) [of virt] s1(2), where e = ?e]
  have map: "vmm_map_page32 cr3 s phys virt flags =
      s\<lparr>ptmem32 := m(slot 4 t (tab_index virt) := ?e), frames32 := f, tlb32 := tlb32 s @ [virt]\<rparr>"
    using st ok0(3) by (simp add: vmm_map_page32_def dir_index_def tab_index_def)
  show "vmm_ok32 (vmm_map_page32 cr3 s phys virt flags)"
    using w(1) s1(3) ok0(3) by (simp add: map vmm_ok32_def)
  show "vmm_leaf32 (vmm_map_page32 cr3 s phys virt flags) v =
      (if drop_bit 12 v = drop_bit 12 virt then ?e else vmm_leaf32 s v)"
    using w(2) [OF idx(2) len(2) index32(2), of v v] s1(5) [OF idx(2) len(2) index32(2), of v v]
      same_page32 [of v virt]
    by (auto simp: map vmm_leaf32_def)
qed

text \<open>On the 32-bit kernel a page mapped by \<open>vmm_map_page\<close> translates to its physical page at
  the same offset, and no other page's translation changes.\<close>

theorem vmm_map_page32_translates:
  assumes "vmm_ok32 s" "avail32 (frames32 s) \<noteq> {}"
  shows "vmm_get_phys32 (vmm_map_page32 cr3 s phys virt flags) v =
    (if drop_bit 12 v = drop_bit 12 virt then (phys AND NOT 0xFFF) OR (v AND 0xFFF)
     else vmm_get_phys32 s v)"
proof -
  let ?f = "ucast flags AND 0xFFF :: u32"
  have k: "kernel_page_dir s \<noteq> 0" "kernel_page_dir (vmm_map_page32 cr3 s phys virt flags) \<noteq> 0"
    using map_page_leaf32(1) [OF assms, of cr3 phys virt flags] assms(1) by (auto simp: vmm_ok32_def)
  have m: "(0xFFF :: u32) = mask 12" by (simp add: mask_eq_exp_minus_1)
  have e: "is_present ((phys AND NOT 0xFFF) OR ?f OR PAGE_PRESENT)"
    by (simp add: is_present_bit bit_simps PAGE_PRESENT_def)
  have "page_base ((phys AND NOT 0xFFF) OR ?f OR PAGE_PRESENT) = phys AND NOT 0xFFF"
    unfolding page_base_def PAGE_PRESENT_def m by (intro bit_word_eqI) (auto simp: bit_simps)
  with e show ?thesis
    using map_page_leaf32(2) [OF assms] get_phys_leaf32 k by simp
qed

definition vmm_example32 :: vmm32 where
  "vmm_example32 = \<lparr>kernel_page_dir = 0x1000, ptmem32 = (\<lambda>_. 0), frames32 = pmm_boot, tlb32 = []\<rparr>"

lemma boot_avail32: "ready32 pmm_boot" "avail32 pmm_boot \<noteq> {}" "0x1000 \<notin> avail32 pmm_boot"
proof -
  have a: "\<exists>i. 256 \<le> i \<and> i < 8448 \<and> unat x = i * 4096" if x: "x \<in> pmm_avail pmm_boot" for x
  proof -
    obtain i where i: "i \<in> free_set pmm_boot" "x = word_of_nat (i * PAGE_SIZE)"
      using x unfolding pmm_avail_def by blast
    moreover have "256 \<le> i \<and> i < 8448" using i(1) unfolding pmm_boot_free(1) by simp
    ultimately show ?thesis using page_address [OF pmm_boot_free(2) free_set_bound [OF i(1)]] by blast
  qed
  have lt: "unat x < 2 ^ 32" if "x \<in> pmm_avail pmm_boot" for x using a [OF that] by auto
  then show "ready32 pmm_boot" using pmm_boot_free(3) by (simp add: ready32_def)
  have "256 \<in> free_set pmm_boot" unfolding pmm_boot_free(1) by simp
  then show "avail32 pmm_boot \<noteq> {}" unfolding avail32_def pmm_avail_def by blast
  show "0x1000 \<notin> avail32 pmm_boot"
  proof
    assume "0x1000 \<in> avail32 pmm_boot"
    then obtain x where x: "x \<in> pmm_avail pmm_boot" "(0x1000 :: u32) = ucast x" by (auto simp: avail32_def)
    then have "unat x = 4096" using ucast32_inj [OF lt [OF x(1)]] unfolding x(2) [symmetric] by simp
    with a [OF x(1)] show False by auto
  qed
qed

lemma vmm_example32_ok: "vmm_ok32 vmm_example32"
proof -
  have "walk 4 (\<lambda>_. 0) t p = (if p = [] then Some t else None)" for t :: u32 and p
    by (cases p) simp_all
  then show ?thesis
    using boot_avail32
    by (simp add: vmm_ok32_def vmm_example32_def pt32.tree_ok_def aligned_def)
qed

theorem vmm_map_page32_translates_witness:
  "vmm_get_phys32 (vmm_map_page32 0 vmm_example32 0x5000 0x400000 3) 0x400123 = 0x5123"
proof -
  have "drop_bit 12 (0x400123 :: u32) = drop_bit 12 0x400000" by simp
  then show ?thesis
    using vmm_map_page32_translates [OF vmm_example32_ok, of 0 "0x5000" "0x400000" 3 "0x400123"] boot_avail32(2)
    by (simp add: vmm_example32_def)
qed

end
