(* ===== verification/Vfs.thy ===== *)
theory Vfs
  imports Prelude
begin

text \<open>
  The virtual file system, \<^verbatim>\<open>fs/vfs.c\<close> and \<^verbatim>\<open>include/vfs.h\<close>: nodes with function pointers, path
  lookup and mounting. Nodes live in a store indexed by node numbers (the C pointers); a
  function pointer is a tag of the datatype \<open>handler\<close>, and calling it is a parameter of the
  operations here (\<open>fd\<close> for \<open>finddir\<close> and so on), as the code calls through the pointer
  without knowing the driver behind it. The drivers give the tags their meaning in the
  theories that follow. A path is the list of its characters before the NUL.

  Allocation of a node (\<^verbatim>\<open>kzalloc\<close>) takes the next node number; a heap that is full is not
  modelled here.
\<close>

section \<open>Nodes\<close>

text \<open>The functions whose addresses the drivers store in nodes.\<close>

datatype handler =
    Fat_read | Fat_readdir | Fat_finddir
  | Jurk_read | Jurk_readdir | Jurk_finddir
  | Dev_readdir | Dev_finddir
  | Dev_null_write | Dev_zero_read | Dev_urandom_read | Dev_console_write | Dev_kbd_read
  | Dev_fb_write | Dev_eth_read | Dev_eth_write

text \<open>Driver private data: first cluster and size of a FAT file, inode index of a JurkVFS file.\<close>

datatype priv = Fat_priv u32 u32 | Jurk_priv u32

type_synonym nid = nat

record vfs_node =
  node_name :: string
  flags :: u32
  node_length :: u32
  inode :: u32
  read_fn :: "handler option"
  write_fn :: "handler option"
  open_fn :: "handler option"
  close_fn :: "handler option"
  readdir_fn :: "handler option"
  finddir_fn :: "handler option"
  node_ptr :: "nid option"
  device_priv :: "priv option"

record dirent =
  d_name :: string
  d_inode :: u32
  d_flags :: u32

definition VFS_FILE :: u32 where "VFS_FILE = 0x01"
definition VFS_DIRECTORY :: u32 where "VFS_DIRECTORY = 0x02"
definition VFS_CHARDEVICE :: u32 where "VFS_CHARDEVICE = 0x03"
definition VFS_BLOCKDEVICE :: u32 where "VFS_BLOCKDEVICE = 0x04"
definition FS_MAX_NAME :: nat where "FS_MAX_NAME = 128"

lemmas vfs_flags = VFS_FILE_def VFS_DIRECTORY_def VFS_CHARDEVICE_def VFS_BLOCKDEVICE_def

text \<open>What \<^verbatim>\<open>kzalloc(sizeof(vfs_node_t))\<close> gives.\<close>

definition zero_node :: vfs_node where
  "zero_node = \<lparr>node_name = [], flags = 0, node_length = 0, inode = 0, read_fn = None, write_fn = None,
     open_fn = None, close_fn = None, readdir_fn = None, finddir_fn = None, node_ptr = None,
     device_priv = None\<rparr>"

record vfs =
  nodes :: "nid \<Rightarrow> vfs_node"
  next_nid :: nid
  vfs_root :: "nid option"
  klog :: "string list"

definition new_node :: "vfs_node \<Rightarrow> 'a vfs_scheme \<Rightarrow> nid \<times> 'a vfs_scheme" where
  "new_node n s = (next_nid s, s\<lparr>nodes := (nodes s)(next_nid s := n), next_nid := Suc (next_nid s)\<rparr>)"

definition is_directory :: "vfs_node \<Rightarrow> bool" where
  "is_directory n \<longleftrightarrow> flags n AND VFS_DIRECTORY \<noteq> 0"

section \<open>Operations\<close>

text \<open>Searching or listing a directory may take forever (its cluster chain may be a cycle) or
  read a name that is not terminated: \<^term>\<open>None\<close>. \<^term>\<open>Some (None, s)\<close> is the null pointer.\<close>

type_synonym 'a found = "(nid option \<times> 'a vfs_scheme) option"
type_synonym 'a finddir_op = "handler \<Rightarrow> 'a vfs_scheme \<Rightarrow> nid \<Rightarrow> string \<Rightarrow> 'a found"

definition vfs_init :: "'a vfs_scheme \<Rightarrow> 'a vfs_scheme" where
  "vfs_init s =
     (case new_node (zero_node\<lparr>node_name := ''/'', flags := VFS_DIRECTORY\<rparr>) s of
        (r, s') \<Rightarrow> s'\<lparr>vfs_root := Some r\<rparr>)"

text \<open>Reading and writing go through the node's own function, or answer 0. \<open>rd\<close> and \<open>wr\<close> stand
  for the call through the pointer; the result is the count and what the call leaves behind.\<close>

definition vfs_read ::
  "(handler \<Rightarrow> 'a vfs_scheme \<Rightarrow> nid \<Rightarrow> u32 \<Rightarrow> u32 \<Rightarrow> (u32 \<times> byte list \<times> 'a vfs_scheme) option) \<Rightarrow>
    'a vfs_scheme \<Rightarrow> nid option \<Rightarrow> u32 \<Rightarrow> u32 \<Rightarrow> (u32 \<times> byte list \<times> 'a vfs_scheme) option" where
  "vfs_read rd s node offset sz =
     (case node of
        None \<Rightarrow> Some (0, [], s)
      | Some n \<Rightarrow> (case read_fn (nodes s n) of
          Some h \<Rightarrow> rd h s n offset sz
        | None \<Rightarrow> Some (0, [], s)))"

definition vfs_write ::
  "(handler \<Rightarrow> 'a vfs_scheme \<Rightarrow> nid \<Rightarrow> u32 \<Rightarrow> u32 \<Rightarrow> byte list \<Rightarrow> (u32 \<times> 'a vfs_scheme) option) \<Rightarrow>
    'a vfs_scheme \<Rightarrow> nid option \<Rightarrow> u32 \<Rightarrow> u32 \<Rightarrow> byte list \<Rightarrow> (u32 \<times> 'a vfs_scheme) option" where
  "vfs_write wr s node offset sz buffer =
     (case node of
        None \<Rightarrow> Some (0, s)
      | Some n \<Rightarrow> (case write_fn (nodes s n) of
          Some h \<Rightarrow> wr h s n offset sz buffer
        | None \<Rightarrow> Some (0, s)))"

definition vfs_open :: "(handler \<Rightarrow> 'a vfs_scheme \<Rightarrow> nid \<Rightarrow> 'a vfs_scheme) \<Rightarrow> 'a vfs_scheme \<Rightarrow> nid option \<Rightarrow> 'a vfs_scheme" where
  "vfs_open op s node =
     (case node of None \<Rightarrow> s
      | Some n \<Rightarrow> (case open_fn (nodes s n) of Some h \<Rightarrow> op h s n | None \<Rightarrow> s))"

definition vfs_close :: "(handler \<Rightarrow> 'a vfs_scheme \<Rightarrow> nid \<Rightarrow> 'a vfs_scheme) \<Rightarrow> 'a vfs_scheme \<Rightarrow> nid option \<Rightarrow> 'a vfs_scheme" where
  "vfs_close op s node =
     (case node of None \<Rightarrow> s
      | Some n \<Rightarrow> (case close_fn (nodes s n) of Some h \<Rightarrow> op h s n | None \<Rightarrow> s))"

definition vfs_readdir ::
  "(handler \<Rightarrow> 'a vfs_scheme \<Rightarrow> nid \<Rightarrow> u32 \<Rightarrow> dirent option option) \<Rightarrow>
    'a vfs_scheme \<Rightarrow> nid option \<Rightarrow> u32 \<Rightarrow> dirent option option" where
  "vfs_readdir rdd s node index =
     (case node of
        None \<Rightarrow> Some None
      | Some n \<Rightarrow>
          (if \<not> is_directory (nodes s n) then Some None
           else (case readdir_fn (nodes s n) of None \<Rightarrow> Some None | Some h \<Rightarrow> rdd h s n index)))"

definition vfs_finddir ::
  "'a finddir_op \<Rightarrow> 'a vfs_scheme \<Rightarrow> nid option \<Rightarrow> string \<Rightarrow> 'a found" where
  "vfs_finddir fd s node name =
     (case node of
        None \<Rightarrow> Some (None, s)
      | Some n \<Rightarrow>
          (if \<not> is_directory (nodes s n) then Some (None, s)
           else (case finddir_fn (nodes s n) of None \<Rightarrow> Some (None, s) | Some h \<Rightarrow> fd h s n name)))"

text \<open>One token: characters up to a slash, the end, or the room in \<^verbatim>\<open>token\<close>.\<close>

fun take_token :: "nat \<Rightarrow> string \<Rightarrow> string \<times> string" where
  "take_token 0 path = ([], path)"
| "take_token (Suc room) [] = ([], [])"
| "take_token (Suc room) (c # path) =
     (if c = CHR ''/'' then ([], c # path)
      else (case take_token room path of (t, rest) \<Rightarrow> (c # t, rest)))"

definition skip_slash :: "string \<Rightarrow> string" where
  "skip_slash path = (case path of [] \<Rightarrow> [] | c # rest \<Rightarrow> if c = CHR ''/'' then rest else path)"

definition follow :: "'a vfs_scheme \<Rightarrow> nid \<Rightarrow> nid" where
  "follow s n = (case node_ptr (nodes s n) of Some t \<Rightarrow> t | None \<Rightarrow> n)"

lemma take_token_length: "take_token r p = (t, rest) \<Longrightarrow> length p = length t + length rest"
  by (induction r p arbitrary: t rest rule: take_token.induct) (auto split: if_splits prod.splits)

lemma skip_slash_length: "length (skip_slash p) \<le> length p"
  by (auto simp: skip_slash_def split: list.splits)

lemma take_token_progress:
  assumes "p \<noteq> []" "take_token (Suc r) p = (t, rest)"
  shows "length (skip_slash rest) < length p"
proof (cases t)
  case Nil
  then show ?thesis using assms
    by (cases p) (auto simp: skip_slash_def split: if_splits prod.splits)
next
  case (Cons c u)
  then show ?thesis using take_token_length [OF assms(2)] skip_slash_length [of rest] by simp
qed

function lookup_loop :: "'a finddir_op \<Rightarrow> 'a vfs_scheme \<Rightarrow> nid \<Rightarrow> string \<Rightarrow> 'a found" where
  "lookup_loop fd s current path =
     (if path = [] then Some (Some current, s)
      else (case take_token (FS_MAX_NAME - 1) path of (token, rest) \<Rightarrow>
        let path' = skip_slash rest in
        if token = [] then lookup_loop fd s current path'
        else (case vfs_finddir fd s (Some (follow s current)) token of
                None \<Rightarrow> None
              | Some (None, s') \<Rightarrow> Some (None, s')
              | Some (Some next, s') \<Rightarrow> lookup_loop fd s' next path')))"
  by pat_completeness auto
termination
  by (relation "measure (\<lambda>(fd, s, c, p). length p)")
    (use take_token_progress [OF _ sym, where r = 126] in \<open>auto simp: FS_MAX_NAME_def\<close>)

declare lookup_loop.simps [simp del]

definition vfs_lookup :: "'a finddir_op \<Rightarrow> 'a vfs_scheme \<Rightarrow> string \<Rightarrow> 'a found" where
  "vfs_lookup fd s path =
     (case vfs_root s of
        None \<Rightarrow> Some (None, s)
      | Some r \<Rightarrow>
          (if path = ''/'' then Some (Some r, s)
           else (case lookup_loop fd s r (skip_slash path) of
                   None \<Rightarrow> None
                 | Some (None, s') \<Rightarrow> Some (None, s')
                 | Some (Some current, s') \<Rightarrow> Some (Some (follow s' current), s'))))"

definition vfs_mount :: "'a finddir_op \<Rightarrow> 'a vfs_scheme \<Rightarrow> string \<Rightarrow> nid option \<Rightarrow> (int \<times> 'a vfs_scheme) option" where
  "vfs_mount fd s path target =
     (case target of
        None \<Rightarrow> Some (-1, s)
      | Some t \<Rightarrow>
          (if path = ''/'' then Some (0, s\<lparr>vfs_root := Some t\<rparr>)
           else (case vfs_lookup fd s path of
                   None \<Rightarrow> None
                 | Some (None, s') \<Rightarrow>
                     Some (-1, s'\<lparr>klog := klog s' @ [''VFS: Mount point '' @ path @ '' not found!'']\<rparr>)
                 | Some (Some mp, s') \<Rightarrow>
                     Some (0, s'\<lparr>nodes := (nodes s')(mp := (nodes s' mp)\<lparr>node_ptr := Some t\<rparr>),
                            klog := klog s' @ [''VFS: Mounted target to '' @ path]\<rparr>))))"

section \<open>Paths as lists of components\<close>

fun split_slash :: "string \<Rightarrow> string list" where
  "split_slash [] = [[]]"
| "split_slash (c # p) =
     (if c = CHR ''/'' then [] # split_slash p
      else (case split_slash p of t # ts \<Rightarrow> (c # t) # ts | [] \<Rightarrow> [[c]]))"

definition path_parts :: "string \<Rightarrow> string list" where
  "path_parts p = filter (\<lambda>t. t \<noteq> []) (split_slash p)"

text \<open>Following a list of components, and mount pointers on the way.\<close>

fun walk_parts :: "'a finddir_op \<Rightarrow> 'a vfs_scheme \<Rightarrow> nid \<Rightarrow> string list \<Rightarrow> 'a found" where
  "walk_parts fd s n [] = Some (Some n, s)"
| "walk_parts fd s n (t # ts) =
     (case vfs_finddir fd s (Some (follow s n)) t of
        None \<Rightarrow> None
      | Some (None, s') \<Rightarrow> Some (None, s')
      | Some (Some m, s') \<Rightarrow> walk_parts fd s' m ts)"

lemma split_slash_nonempty: "split_slash p \<noteq> []"
  by (cases p) (auto split: list.splits)

lemma take_token_split:
  "length (hd (split_slash p)) \<le> r \<Longrightarrow> take_token r p = (t, rest) \<Longrightarrow>
    t = hd (split_slash p) \<and> (rest = [] \<and> tl (split_slash p) = [] \<or>
      (\<exists>q. rest = CHR ''/'' # q \<and> tl (split_slash p) = split_slash q))"
proof (induction r p arbitrary: t rest rule: take_token.induct)
  case (1 path)
  then show ?case by (cases path) (auto split: if_splits list.splits)
next
  case (2 room)
  then show ?case by simp
next
  case (3 room c path)
  show ?case
  proof (cases "c = CHR ''/''")
    case True
    with 3 show ?thesis by auto
  next
    case False
    obtain u v where uv: "take_token room path = (u, v)" by fastforce
    obtain w ws where ws: "split_slash path = w # ws"
      using split_slash_nonempty [of path] by (cases "split_slash path") auto
    from 3 False uv ws show ?thesis by auto
  qed
qed

lemma split_skip: "take_token r p = (t, rest) \<Longrightarrow> length (hd (split_slash p)) \<le> r \<Longrightarrow> p \<noteq> [] \<Longrightarrow>
    path_parts p = (if t = [] then path_parts (skip_slash rest) else t # path_parts (skip_slash rest))"
proof -
  assume a: "take_token r p = (t, rest)" "length (hd (split_slash p)) \<le> r" "p \<noteq> []"
  have p: "split_slash p = hd (split_slash p) # tl (split_slash p)"
    using split_slash_nonempty by simp
  from take_token_split [OF a(2,1)] show ?thesis
  proof (elim conjE disjE exE)
    assume "t = hd (split_slash p)" "rest = []" "tl (split_slash p) = []"
    then show ?thesis by (subst path_parts_def, subst p) (simp add: skip_slash_def path_parts_def)
  next
    fix q assume "t = hd (split_slash p)" "rest = CHR ''/'' # q" "tl (split_slash p) = split_slash q"
    then show ?thesis by (subst path_parts_def, subst p) (simp add: skip_slash_def path_parts_def)
  qed
qed

definition names_fit :: "string \<Rightarrow> bool" where
  "names_fit p \<longleftrightarrow> (\<forall>t \<in> set (split_slash p). length t \<le> 127)"

lemma names_fit_hd: "names_fit p \<Longrightarrow> length (hd (split_slash p)) \<le> 127"
  using split_slash_nonempty [of p] by (simp add: names_fit_def)

lemma names_fit_rest:
  assumes "names_fit p" "take_token 127 p = (t, rest)"
  shows "names_fit (skip_slash rest)"
  using take_token_split [OF names_fit_hd [OF assms(1)] assms(2)] assms(1)
    list.set_sel(2) [OF split_slash_nonempty [of p]]
  by (auto simp: names_fit_def skip_slash_def)

lemma lookup_loop_walk:
  "names_fit p \<Longrightarrow> lookup_loop fd s n p = walk_parts fd s n (path_parts p)"
proof (induction "length p" arbitrary: s n p rule: less_induct)
  case less
  show ?case
  proof (cases "p = []")
    case True
    then show ?thesis by (simp add: lookup_loop.simps path_parts_def)
  next
    case False
    obtain t rest where t: "take_token 127 p = (t, rest)" by fastforce
    have lt: "length (skip_slash rest) < length p"
      using take_token_progress [of p 126 t rest] False t by simp
    note IH = less.hyps [OF lt names_fit_rest [OF less.prems t]]
    have parts: "path_parts p = (if t = [] then path_parts (skip_slash rest) else t # path_parts (skip_slash rest))"
      by (rule split_skip [OF t names_fit_hd [OF less.prems] False])
    show ?thesis
      using False t IH parts
      by (subst lookup_loop.simps) (auto simp: FS_MAX_NAME_def Let_def split: option.splits prod.splits)
  qed
qed

lemma path_parts_skip_slash: "path_parts (skip_slash p) = path_parts p"
  by (cases p) (auto simp: skip_slash_def path_parts_def)

lemma names_fit_skip_slash: "names_fit p \<Longrightarrow> names_fit (skip_slash p)"
  by (cases p) (auto simp: skip_slash_def names_fit_def)

text \<open>C6: when every component of a path has at most 127 characters, \<open>vfs_lookup\<close> follows the
  non-empty components between the slashes from the root, one \<open>finddir\<close> each, steps through a
  mount pointer before each of them and once at the end, and fails at the first component that
  is not found. Leading, repeated and trailing slashes change nothing.\<close>

theorem vfs_lookup_walks:
  assumes "names_fit path" "vfs_root s = Some r" "path \<noteq> ''/''"
  shows "vfs_lookup fd s path =
    (case walk_parts fd s r (path_parts path) of
       None \<Rightarrow> None
     | Some (None, s') \<Rightarrow> Some (None, s')
     | Some (Some n, s') \<Rightarrow> Some (Some (follow s' n), s'))"
  using assms lookup_loop_walk [OF names_fit_skip_slash [OF assms(1)], of fd s r]
  by (simp add: vfs_lookup_def path_parts_skip_slash)

definition vfs_empty :: vfs where
  "vfs_empty = \<lparr>nodes = (\<lambda>_. zero_node), next_nid = 1, vfs_root = None, klog = []\<rparr>"

theorem vfs_lookup_walks_witness:
  "vfs_lookup (\<lambda>h s n name. Some (if name = ''dev'' then Some 7 else None, s)) (vfs_init vfs_empty) ''//dev/'' =
    (case walk_parts (\<lambda>h s n name. Some (if name = ''dev'' then Some 7 else None, s)) (vfs_init vfs_empty) 1
       (path_parts ''//dev/'') of
       None \<Rightarrow> None
     | Some (None, s') \<Rightarrow> Some (None, s')
     | Some (Some n, s') \<Rightarrow> Some (Some (follow s' n), s'))"
  by (rule vfs_lookup_walks)
    (simp_all add: names_fit_def vfs_init_def new_node_def vfs_empty_def)

end
