(* ===== verification/Bytes.thy ===== *)
theory Bytes
  imports Prelude
begin

text \<open>
  Reading packed structures from an image: little-endian integers and C strings at byte
  offsets. An image is a function from offsets to bytes, as a pointer to it is: nothing stops
  a read beyond its end.
\<close>

type_synonym image = "nat \<Rightarrow> byte"

definition le16 :: "image \<Rightarrow> nat \<Rightarrow> u16" where
  "le16 img a = ucast (img a) OR push_bit 8 (ucast (img (a + 1)))"

definition le32 :: "image \<Rightarrow> nat \<Rightarrow> u32" where
  "le32 img a = ucast (img a) OR push_bit 8 (ucast (img (a + 1))) OR
     push_bit 16 (ucast (img (a + 2))) OR push_bit 24 (ucast (img (a + 3)))"

definition le64 :: "image \<Rightarrow> nat \<Rightarrow> u64" where
  "le64 img a = ucast (le32 img a) OR push_bit 32 (ucast (le32 img (a + 4)))"

definition bytes_of :: "image \<Rightarrow> nat \<Rightarrow> nat \<Rightarrow> byte list" where
  "bytes_of img a n = map img [a..<a + n]"

lemma length_bytes_of [simp]: "length (bytes_of img a n) = n"
  by (simp add: bytes_of_def)

lemma nth_bytes_of: "i < n \<Longrightarrow> bytes_of img a n ! i = img (a + i)"
  by (simp add: bytes_of_def)

lemma bytes_of_0 [simp]: "bytes_of img a 0 = []"
  by (simp add: bytes_of_def)

lemma bytes_of_append: "bytes_of img a (m + n) = bytes_of img a m @ bytes_of img (a + m) n"
  by (rule nth_equalityI) (auto simp: nth_append nth_bytes_of add.assoc)

lemma take_drop_bytes_of:
  "o' + n \<le> sz \<Longrightarrow> take n (drop o' (bytes_of img a sz)) = bytes_of img (a + o') n"
  by (rule nth_equalityI) (auto simp: nth_bytes_of add.assoc)

definition char_of_byte :: "byte \<Rightarrow> char" where
  "char_of_byte b = char_of (unat b)"

text \<open>The C string at an offset, if a NUL ever ends it.\<close>

partial_function (option) cstr :: "image \<Rightarrow> nat \<Rightarrow> string option" where
  "cstr img a =
     (if img a = 0 then Some [] else Option.bind (cstr img (a + 1)) (\<lambda>s. Some (char_of_byte (img a) # s)))"

lemma cstr_ends:
  "img (a + n) = 0 \<Longrightarrow> \<exists>s. cstr img a = Some s \<and> length s \<le> n"
proof (induction n arbitrary: a)
  case 0
  then show ?case by (simp add: cstr.simps)
next
  case (Suc n)
  show ?case
  proof (cases "img a = 0")
    case True
    then show ?thesis by (simp add: cstr.simps)
  next
    case False
    from Suc.IH [of "a + 1"] Suc.prems obtain s where "cstr img (a + 1) = Some s" "length s \<le> n" by auto
    with False show ?thesis by (subst cstr.simps) simp
  qed
qed

text \<open>\<^verbatim>\<open>strcpy\<close> into a buffer of \<open>cap\<close> bytes; a longer string overflows it.\<close>

definition copy_name :: "nat \<Rightarrow> string \<Rightarrow> string option" where
  "copy_name cap s = (if length s < cap then Some s else None)"

end
