(* ===== verification/Directory.thy ===== *)
theory Directory
  imports Main
begin

text \<open>
  What a directory promises its users, whatever the file system behind it: listing it by index
  runs through its entries in order, and searching it by name gives the first entry of that
  name. \<open>visible\<close> says which names a listing shows (FAT hides the dot entries).
\<close>

locale directory =
  fixes entries :: "'d \<Rightarrow> (string \<times> 'e) list"
    and list_at :: "'d \<Rightarrow> nat \<Rightarrow> (string \<times> 'e) option"
    and find_name :: "'d \<Rightarrow> string \<Rightarrow> 'e option"
    and visible :: "string \<Rightarrow> bool"
    and ok :: "'d \<Rightarrow> bool"
  assumes list_at_nth: "ok d \<Longrightarrow> list_at d i = (if i < length (entries d) then Some (entries d ! i) else None)"
    and find_first: "ok d \<Longrightarrow> visible name \<Longrightarrow> find_name d name = map_of (entries d) name"
begin

text \<open>What a listing shows can be found, and what can be found is listed.\<close>

lemma listed_found:
  assumes "ok d" "distinct (map fst (entries d))" "visible name" "list_at d i = Some (name, e)"
  shows "find_name d name = Some e"
proof -
  from assms(1,4) have "(name, e) \<in> set (entries d)"
    by (auto simp: list_at_nth split: if_splits) (metis nth_mem)
  with assms(1-3) show ?thesis by (simp add: find_first)
qed

lemma found_listed:
  assumes "ok d" "visible name" "find_name d name = Some e"
  obtains i where "list_at d i = Some (name, e)"
proof -
  from assms have "(name, e) \<in> set (entries d)" by (simp add: find_first map_of_SomeD)
  then obtain i where "i < length (entries d)" "entries d ! i = (name, e)"
    by (auto simp: in_set_conv_nth)
  with assms(1) have "list_at d i = Some (name, e)" by (simp add: list_at_nth)
  then show ?thesis by (rule that)
qed

lemma listing_ends: "ok d \<Longrightarrow> list_at d i = None \<longleftrightarrow> length (entries d) \<le> i"
  by (auto simp: list_at_nth)

end

end
