(* ===== verification/Jurkvfs.thy ===== *)
theory Jurkvfs
  imports Vfs Bytes Directory
begin

text \<open>
  The JurkVFS disk format, \<^verbatim>\<open>fs/jurkvfs.c\<close> and \<^verbatim>\<open>include/jurkvfs.h\<close>: a header of 64 bytes, a table of
  92-byte inodes that name their parent, and the file data. The disk is an image in memory;
  \<^term>\<open>None\<close> is undefined behaviour (a name that no NUL ends, or that overflows a node's name).
\<close>

section \<open>On-disk structures\<close>

definition JURKVFS_MAGIC :: "byte list" where
  "JURKVFS_MAGIC = map of_char ''JURKVFS1''"

definition JURKVFS_TYPE_FILE :: u32 where "JURKVFS_TYPE_FILE = 1"
definition JURKVFS_TYPE_DIR :: u32 where "JURKVFS_TYPE_DIR = 2"

record jurkvfs_header =
  jh_magic :: "byte list"
  jh_version :: u32
  jh_block_size :: u32
  total_inodes :: u32
  inode_table_offset :: u32
  data_offset :: u32
  jh_total_size :: u32

record jurkvfs_inode =
  ji_name :: "string option"
  ji_type :: u32
  ji_size :: u32
  ji_offset :: u32
  parent_inode :: u32
  ji_permissions :: u32

definition read_header :: "image \<Rightarrow> jurkvfs_header" where
  "read_header img =
     \<lparr>jh_magic = bytes_of img 0 8, jh_version = le32 img 8, jh_block_size = le32 img 12,
      total_inodes = le32 img 16, inode_table_offset = le32 img 20, data_offset = le32 img 24,
      jh_total_size = le32 img 28\<rparr>"

definition read_inode :: "image \<Rightarrow> nat \<Rightarrow> jurkvfs_inode" where
  "read_inode img a =
     \<lparr>ji_name = cstr img a, ji_type = le32 img (a + 64), ji_size = le32 img (a + 68),
      ji_offset = le32 img (a + 72), parent_inode = le32 img (a + 76), ji_permissions = le32 img (a + 80)\<rparr>"

section \<open>The driver\<close>

record jurkvfs_fs =
  jdisk_data :: image
  jdisk_size :: u64

definition fs_header :: "jurkvfs_fs \<Rightarrow> jurkvfs_header" where
  "fs_header fs = read_header (jdisk_data fs)"

text \<open>\<^verbatim>\<open>fs->inodes[i]\<close>; an inode takes 92 bytes.\<close>

definition fs_inode :: "jurkvfs_fs \<Rightarrow> u32 \<Rightarrow> jurkvfs_inode" where
  "fs_inode fs i = read_inode (jdisk_data fs) (unat (inode_table_offset (fs_header fs)) + 92 * unat i)"

definition jurkvfs_read_impl :: "jurkvfs_fs \<Rightarrow> vfs_node \<Rightarrow> u32 \<Rightarrow> u32 \<Rightarrow> u32 \<times> byte list" where
  "jurkvfs_read_impl fs node offset sz =
     (case device_priv node of
        Some (Jurk_priv inode_index) \<Rightarrow>
          (let nd = fs_inode fs inode_index in
           if offset \<ge> ji_size nd then (0, [])
           else (let sz = (if offset + sz > ji_size nd then ji_size nd - offset else sz);
                     data_base = unat (data_offset (fs_header fs)) in
                 (sz, bytes_of (jdisk_data fs) (data_base + unat (ji_offset nd) + unat offset) (unat sz))))
      | _ \<Rightarrow> (0, []))"

function readdir_loop :: "jurkvfs_fs \<Rightarrow> u32 \<Rightarrow> u32 \<Rightarrow> nat \<Rightarrow> u32 \<Rightarrow> dirent option option" where
  "readdir_loop fs dir index i current_match =
     (if i < unat (total_inodes (fs_header fs)) then
        (let nd = fs_inode fs (word_of_nat i) in
         if parent_inode nd = dir \<and> word_of_nat i \<noteq> dir then
           (if current_match = index then
              Option.bind (Option.bind (ji_name nd) (copy_name FS_MAX_NAME)) (\<lambda>nm.
                Some (Some \<lparr>d_name = nm, d_inode = word_of_nat i,
                  d_flags = (if ji_type nd = JURKVFS_TYPE_DIR then VFS_DIRECTORY else VFS_FILE)\<rparr>))
            else readdir_loop fs dir index (Suc i) (current_match + 1))
         else readdir_loop fs dir index (Suc i) current_match)
      else Some None)"
  by pat_completeness auto
termination by (relation "measure (\<lambda>(fs, d, x, i, m). unat (total_inodes (fs_header fs)) - i)") auto

declare readdir_loop.simps [simp del]

definition jurkvfs_readdir_impl :: "jurkvfs_fs \<Rightarrow> vfs_node \<Rightarrow> u32 \<Rightarrow> dirent option option" where
  "jurkvfs_readdir_impl fs node index =
     (case device_priv node of
        Some (Jurk_priv dir) \<Rightarrow> readdir_loop fs dir index 0 0
      | _ \<Rightarrow> Some None)"

definition jurkvfs_node :: "jurkvfs_fs \<Rightarrow> u32 \<Rightarrow> string \<Rightarrow> vfs_node" where
  "jurkvfs_node fs inode_idx name =
     (let nd = fs_inode fs inode_idx;
          node = zero_node\<lparr>node_name := name, inode := inode_idx, node_length := ji_size nd,
                           device_priv := Some (Jurk_priv inode_idx)\<rparr> in
      if ji_type nd = JURKVFS_TYPE_DIR
      then node\<lparr>flags := VFS_DIRECTORY, readdir_fn := Some Jurk_readdir, finddir_fn := Some Jurk_finddir\<rparr>
      else node\<lparr>flags := VFS_FILE, read_fn := Some Jurk_read\<rparr>)"

definition jurkvfs_create_vfs_node :: "jurkvfs_fs \<Rightarrow> u32 \<Rightarrow> 'a vfs_scheme \<Rightarrow> 'a found" where
  "jurkvfs_create_vfs_node fs inode_idx s =
     Option.bind (Option.bind (ji_name (fs_inode fs inode_idx)) (copy_name FS_MAX_NAME)) (\<lambda>name.
       case new_node (jurkvfs_node fs inode_idx name) s of (n, s') \<Rightarrow> Some (Some n, s'))"

function jurk_find_loop :: "jurkvfs_fs \<Rightarrow> u32 \<Rightarrow> string \<Rightarrow> nat \<Rightarrow> u32 option option" where
  "jurk_find_loop fs dir name i =
     (if i < unat (total_inodes (fs_header fs)) then
        (let nd = fs_inode fs (word_of_nat i) in
         if parent_inode nd = dir \<and> word_of_nat i \<noteq> dir then
           Option.bind (ji_name nd) (\<lambda>nm.
             if nm = name then Some (Some (word_of_nat i)) else jurk_find_loop fs dir name (Suc i))
         else jurk_find_loop fs dir name (Suc i))
      else Some None)"
  by pat_completeness auto
termination by (relation "measure (\<lambda>(fs, d, x, i). unat (total_inodes (fs_header fs)) - i)") auto

declare jurk_find_loop.simps [simp del]

definition jurkvfs_finddir_impl :: "jurkvfs_fs \<Rightarrow> 'a vfs_scheme \<Rightarrow> nid \<Rightarrow> string \<Rightarrow> 'a found" where
  "jurkvfs_finddir_impl fs s node name =
     (case device_priv (nodes s node) of
        Some (Jurk_priv dir) \<Rightarrow>
          (case jurk_find_loop fs dir name 0 of
             None \<Rightarrow> None
           | Some None \<Rightarrow> Some (None, s)
           | Some (Some i) \<Rightarrow> jurkvfs_create_vfs_node fs i s)
      | _ \<Rightarrow> Some (None, s))"

text \<open>The disk image may be a null pointer. The first component of the result is the file system
  now current, if the image is accepted.\<close>

definition jurkvfs_init :: "image option \<Rightarrow> u64 \<Rightarrow> 'a vfs_scheme \<Rightarrow> (jurkvfs_fs option \<times> nid option \<times> 'a vfs_scheme) option" where
  "jurkvfs_init disk_image image_size s =
     (case disk_image of
        None \<Rightarrow> Some (None, None, s)
      | Some img \<Rightarrow>
          (if image_size < 64 then Some (None, None, s)
           else if jh_magic (read_header img) \<noteq> JURKVFS_MAGIC then
             Some (None, None, s\<lparr>klog := klog s @ [''JurkVFS: Invalid disk magic! Expected JURKVFS1'']\<rparr>)
           else
             (let fs = \<lparr>jdisk_data = img, jdisk_size = image_size\<rparr>;
                  s = s\<lparr>klog := klog s @ [''JurkVFS: Mounted valid raw VFS disk image'']\<rparr> in
              Option.bind (jurkvfs_create_vfs_node fs 0 s) (\<lambda>(n, s'). Some (Some fs, n, s')))))"

section \<open>Directories\<close>

definition jurk_children :: "jurkvfs_fs \<Rightarrow> u32 \<Rightarrow> u32 list" where
  "jurk_children fs dir =
     filter (\<lambda>i. parent_inode (fs_inode fs i) = dir \<and> i \<noteq> dir) (map word_of_nat [0..<unat (total_inodes (fs_header fs))])"

definition jurk_name :: "jurkvfs_fs \<Rightarrow> u32 \<Rightarrow> string" where
  "jurk_name fs i = (case ji_name (fs_inode fs i) of None \<Rightarrow> [] | Some s \<Rightarrow> s)"

definition jurk_entries :: "jurkvfs_fs \<times> u32 \<Rightarrow> (string \<times> u32) list" where
  "jurk_entries d = map (\<lambda>i. (jurk_name (fst d) i, i)) (jurk_children (fst d) (snd d))"

text \<open>The names of a directory's children end with a NUL and fit a node.\<close>

definition jurk_names_ok :: "jurkvfs_fs \<times> u32 \<Rightarrow> bool" where
  "jurk_names_ok d \<longleftrightarrow> (\<forall>i \<in> set (jurk_children (fst d) (snd d)).
     \<exists>s. ji_name (fs_inode (fst d) i) = Some s \<and> length s < 128)"

definition jurk_list_at :: "jurkvfs_fs \<times> u32 \<Rightarrow> nat \<Rightarrow> (string \<times> u32) option" where
  "jurk_list_at d i =
     (if i < 2 ^ 32 then
        (case readdir_loop (fst d) (snd d) (word_of_nat i) 0 0 of
           Some (Some e) \<Rightarrow> Some (d_name e, d_inode e) | _ \<Rightarrow> None)
      else None)"

definition jurk_find_name :: "jurkvfs_fs \<times> u32 \<Rightarrow> string \<Rightarrow> u32 option" where
  "jurk_find_name d name = (case jurk_find_loop (fst d) (snd d) name 0 of Some r \<Rightarrow> r | None \<Rightarrow> None)"

definition children_from :: "jurkvfs_fs \<Rightarrow> u32 \<Rightarrow> nat \<Rightarrow> u32 list" where
  "children_from fs dir i =
     filter (\<lambda>i. parent_inode (fs_inode fs i) = dir \<and> i \<noteq> dir) (map word_of_nat [i..<unat (total_inodes (fs_header fs))])"

lemma children_from_step:
  "children_from fs dir i =
    (if i < unat (total_inodes (fs_header fs)) then
       (if parent_inode (fs_inode fs (word_of_nat i)) = dir \<and> word_of_nat i \<noteq> dir
        then word_of_nat i # children_from fs dir (Suc i) else children_from fs dir (Suc i))
     else [])"
  by (auto simp: children_from_def upt_conv_Cons)

lemma children_from_0: "children_from fs dir 0 = jurk_children fs dir"
  by (simp add: children_from_def jurk_children_def)

definition child_dirent :: "jurkvfs_fs \<Rightarrow> u32 \<Rightarrow> dirent" where
  "child_dirent fs i = \<lparr>d_name = jurk_name fs i, d_inode = i,
     d_flags = (if ji_type (fs_inode fs i) = JURKVFS_TYPE_DIR then VFS_DIRECTORY else VFS_FILE)\<rparr>"

lemma readdir_loop_children:
  assumes "\<forall>k \<in> set (children_from fs dir i). \<exists>s. ji_name (fs_inode fs k) = Some s \<and> length s < 128"
    and "m + length (children_from fs dir i) \<le> 2 ^ 32" "m \<le> unat index"
  shows "readdir_loop fs dir index i (word_of_nat m) =
    Some (if unat index - m < length (children_from fs dir i)
          then Some (child_dirent fs (children_from fs dir i ! (unat index - m))) else None)"
  using assms
proof (induction "unat (total_inodes (fs_header fs)) - i" arbitrary: i m rule: less_induct)
  case less
  let ?nd = "fs_inode fs (word_of_nat i)"
  show ?case
  proof (cases "i < unat (total_inodes (fs_header fs))")
    case False
    then show ?thesis by (subst readdir_loop.simps) (simp add: children_from_step)
  next
    case lt: True
    show ?thesis
    proof (cases "parent_inode ?nd = dir \<and> word_of_nat i \<noteq> dir")
      case child: True
      with lt have c: "children_from fs dir i = word_of_nat i # children_from fs dir (Suc i)"
        by (simp add: children_from_step [of fs dir i])
      have m: "m < 2 ^ 32" using less.prems(2) c by simp
      then have eq: "(word_of_nat m :: u32) = index \<longleftrightarrow> m = unat index"
        by (auto simp: word_unat_eq_iff unat_of_nat take_bit_nat_eq_self)
      obtain s where s: "ji_name ?nd = Some s" "length s < 128"
        using less.prems(1) c by auto
      show ?thesis
      proof (cases "m = unat index")
        case True
        with lt child s eq c show ?thesis
          by (subst readdir_loop.simps)
            (simp add: Let_def copy_name_def FS_MAX_NAME_def child_dirent_def jurk_name_def)
      next
        case False
        have IH: "readdir_loop fs dir index (Suc i) (word_of_nat (Suc m)) =
            Some (if unat index - Suc m < length (children_from fs dir (Suc i))
              then Some (child_dirent fs (children_from fs dir (Suc i) ! (unat index - Suc m))) else None)"
          using less.hyps [of "Suc i" "Suc m"] less.prems False lt c by simp
        obtain k where k: "unat index - m = Suc k" "unat index - Suc m = k"
          using False less.prems(3) by (metis Suc_diff_Suc le_neq_implies_less)
        from lt child False eq IH show ?thesis
          by (subst readdir_loop.simps) (simp add: c k add.commute)
      qed
    next
      case False
      with lt have "children_from fs dir i = children_from fs dir (Suc i)"
        by (simp add: children_from_step [of fs dir i])
      with lt less.hyps [of "Suc i" m] less.prems show ?thesis
        by (subst readdir_loop.simps) (simp add: Let_def False)
    qed
  qed
qed

lemma jurk_children_bound: "length (jurk_children fs dir) < 2 ^ 32"
proof -
  have "length (jurk_children fs dir) \<le> unat (total_inodes (fs_header fs))"
    unfolding jurk_children_def by (rule order_trans [OF length_filter_le]) simp
  also have "\<dots> < 2 ^ 32" using unsigned_less [of "total_inodes (fs_header fs)", where 'a = nat] by simp
  finally show ?thesis .
qed

lemma readdir_children:
  assumes "jurk_names_ok (fs, dir)"
  shows "readdir_loop fs dir index 0 0 =
    Some (if unat index < length (jurk_children fs dir)
          then Some (child_dirent fs (jurk_children fs dir ! unat index)) else None)"
  using readdir_loop_children [of fs dir 0 0 index] assms jurk_children_bound [of fs dir]
  by (simp add: children_from_0 jurk_names_ok_def)

lemma find_loop_children:
  assumes "\<forall>k \<in> set (children_from fs dir i). \<exists>s. ji_name (fs_inode fs k) = Some s \<and> length s < 128"
  shows "jurk_find_loop fs dir name i = Some (map_of (map (\<lambda>k. (jurk_name fs k, k)) (children_from fs dir i)) name)"
  using assms
proof (induction fs dir name i rule: jurk_find_loop.induct)
  case (1 fs dir name i)
  let ?nd = "fs_inode fs (word_of_nat i)"
  show ?case
  proof (cases "i < unat (total_inodes (fs_header fs))")
    case False
    then show ?thesis by (subst jurk_find_loop.simps) (simp add: children_from_step)
  next
    case lt: True
    show ?thesis
    proof (cases "parent_inode ?nd = dir \<and> word_of_nat i \<noteq> dir")
      case child: True
      with lt have c: "children_from fs dir i = word_of_nat i # children_from fs dir (Suc i)"
        by (simp add: children_from_step [of fs dir i])
      obtain s where s: "ji_name ?nd = Some s" using "1.prems" c by auto
      show ?thesis
        using "1.IH"(1) [OF lt refl child s] "1.prems" lt child s c
        by (subst jurk_find_loop.simps) (auto simp: jurk_name_def)
    next
      case False
      with lt have "children_from fs dir i = children_from fs dir (Suc i)"
        by (simp add: children_from_step [of fs dir i])
      with lt 1 show ?thesis by (subst jurk_find_loop.simps) (simp add: Let_def False)
    qed
  qed
qed

lemma find_children:
  assumes "jurk_names_ok (fs, dir)"
  shows "jurk_find_loop fs dir name 0 = Some (map_of (jurk_entries (fs, dir)) name)"
  using find_loop_children [of fs dir 0 name] assms
  by (simp add: children_from_0 jurk_names_ok_def jurk_entries_def)

interpretation jurk_dir: directory jurk_entries jurk_list_at jurk_find_name "\<lambda>_. True" jurk_names_ok
proof unfold_locales
  fix d i assume ok: "jurk_names_ok d"
  obtain fs dir where d: "d = (fs, dir)" by fastforce
  show "jurk_list_at d i = (if i < length (jurk_entries d) then Some (jurk_entries d ! i) else None)"
  proof (cases "i < 2 ^ 32")
    case True
    then have "unat (word_of_nat i :: u32) = i" by (simp add: unat_of_nat take_bit_nat_eq_self)
    then show ?thesis using True readdir_children [of fs dir "word_of_nat i"] ok
      by (simp add: d jurk_list_at_def jurk_entries_def child_dirent_def)
  next
    case False
    then show ?thesis using jurk_children_bound [of fs dir]
      by (simp add: d jurk_list_at_def jurk_entries_def)
  qed
next
  fix d name assume "jurk_names_ok d"
  then show "jurk_find_name d name = map_of (jurk_entries d) name"
    by (cases d) (simp add: jurk_find_name_def find_children)
qed

section \<open>A disk with one file\<close>

definition demo_image :: image where
  "demo_image = (\<lambda>_. 0)(0 := 0x4A, 1 := 0x55, 2 := 0x52, 3 := 0x4B, 4 := 0x56, 5 := 0x46, 6 := 0x53, 7 := 0x31,
     16 := 2, 20 := 64, 24 := 248, 64 := 0x2F, 128 := 2, 156 := 0x61, 220 := 1, 224 := 5,
     248 := 0x68, 249 := 0x65, 250 := 0x6C, 251 := 0x6C, 252 := 0x6F)"

definition demo_fs :: jurkvfs_fs where
  "demo_fs = \<lparr>jdisk_data = demo_image, jdisk_size = 253\<rparr>"

lemma demo_header: "total_inodes (fs_header demo_fs) = 2" "inode_table_offset (fs_header demo_fs) = 64"
  "data_offset (fs_header demo_fs) = 248"
  by (simp_all add: fs_header_def read_header_def demo_fs_def demo_image_def le32_def)

lemma char_of_byte_a: "char_of_byte 97 = CHR ''a''"
  by code_simp

lemma demo_inode:
  "ji_name (fs_inode demo_fs 1) = Some ''a''" "ji_type (fs_inode demo_fs 1) = 1"
  "ji_size (fs_inode demo_fs 1) = 5" "ji_offset (fs_inode demo_fs 1) = 0" "parent_inode (fs_inode demo_fs 1) = 0"
  by (simp_all add: fs_inode_def demo_header)
    (simp_all add: read_inode_def demo_fs_def demo_image_def le32_def cstr.simps char_of_byte_a)

lemma demo_children: "jurk_children demo_fs 0 = [1]"
proof -
  have "[0..<unat (2 :: u32)] = [0, 1]" by (simp add: upt_rec)
  then show ?thesis by (simp add: jurk_children_def demo_header demo_inode)
qed

lemma demo_dir: "jurk_names_ok (demo_fs, 0)" "jurk_entries (demo_fs, 0) = [(''a'', 1)]"
  by (simp_all add: jurk_names_ok_def jurk_entries_def demo_children demo_inode jurk_name_def)

definition demo_vfs :: vfs where
  "demo_vfs = snd (new_node (jurkvfs_node demo_fs 0 ''/'')
     \<lparr>nodes = (\<lambda>_. zero_node), next_nid = 1, vfs_root = None, klog = []\<rparr>)"

text \<open>Listing a JurkVFS directory and searching it agree: an entry that \<open>readdir\<close> shows under a
  name no sibling shares is what \<open>finddir\<close> opens under that name, as a node with the inode, size
  and kind that the disk gives it.\<close>

theorem jurkvfs_list_then_find:
  assumes "jurk_names_ok (fs, dir)" "distinct (map fst (jurk_entries (fs, dir)))"
    and "device_priv (nodes s n) = Some (Jurk_priv dir)"
    and "jurkvfs_readdir_impl fs (nodes s n) index = Some (Some e)"
  shows "jurkvfs_finddir_impl fs s n (d_name e) =
    Some (Some (next_nid s), snd (new_node (jurkvfs_node fs (d_inode e) (d_name e)) s))"
proof -
  let ?i = "d_inode e"
  have rd: "readdir_loop fs dir index 0 0 = Some (Some e)"
    using assms(3,4) by (simp add: jurkvfs_readdir_impl_def)
  then have "jurk_list_at (fs, dir) (unat index) = Some (d_name e, ?i)"
    using unsigned_less [of index, where 'a = nat] by (simp add: jurk_list_at_def)
  with jurk_dir.listed_found [OF assms(1,2) TrueI] have "jurk_find_name (fs, dir) (d_name e) = Some ?i" by blast
  then have find: "jurk_find_loop fs dir (d_name e) 0 = Some (Some ?i)"
    using find_children [OF assms(1)] by (simp add: jurk_find_name_def)
  have "unat index < length (jurk_children fs dir)" "e = child_dirent fs (jurk_children fs dir ! unat index)"
    using rd readdir_children [OF assms(1), of index] by (auto split: if_splits)
  then have mem: "?i \<in> set (jurk_children fs dir)" and nm: "d_name e = jurk_name fs ?i"
    by (auto simp: child_dirent_def)
  then obtain nm where "ji_name (fs_inode fs ?i) = Some nm" "length nm < 128"
    using assms(1) by (auto simp: jurk_names_ok_def)
  with nm have "jurkvfs_create_vfs_node fs ?i s =
      Some (Some (next_nid s), snd (new_node (jurkvfs_node fs ?i (d_name e)) s))"
    by (simp add: jurkvfs_create_vfs_node_def copy_name_def FS_MAX_NAME_def jurk_name_def new_node_def)
  with find assms(3) show ?thesis by (simp add: jurkvfs_finddir_impl_def)
qed

theorem jurkvfs_list_then_find_witness:
  "jurkvfs_readdir_impl demo_fs (nodes demo_vfs 1) 0 = Some (Some (child_dirent demo_fs 1)) \<and>
   jurkvfs_finddir_impl demo_fs demo_vfs 1 ''a'' = Some (Some 2, snd (new_node (jurkvfs_node demo_fs 1 ''a'') demo_vfs))"
proof -
  have p: "device_priv (nodes demo_vfs 1) = Some (Jurk_priv 0)"
    by (simp add: demo_vfs_def new_node_def jurkvfs_node_def Let_def)
  have e: "jurkvfs_readdir_impl demo_fs (nodes demo_vfs 1) 0 = Some (Some (child_dirent demo_fs 1))"
    using readdir_children [OF demo_dir(1), of 0] by (simp add: jurkvfs_readdir_impl_def p demo_children del: One_nat_def)
  have "distinct (map fst (jurk_entries (demo_fs, 0)))" by (simp add: demo_dir)
  from jurkvfs_list_then_find [OF demo_dir(1) this p e] e show ?thesis
    by (simp add: child_dirent_def jurk_name_def demo_inode) (simp add: demo_vfs_def new_node_def)
qed

section \<open>Reading\<close>

definition jurk_file_data :: "jurkvfs_fs \<Rightarrow> u32 \<Rightarrow> byte list" where
  "jurk_file_data fs i =
     bytes_of (jdisk_data fs) (unat (data_offset (fs_header fs)) + unat (ji_offset (fs_inode fs i)))
       (unat (ji_size (fs_inode fs i)))"

lemma jurk_read_bytes:
  assumes "device_priv node = Some (Jurk_priv i)" "unat offset + unat sz < 2 ^ 32"
  shows "case jurkvfs_read_impl fs node offset sz of (count, data) \<Rightarrow>
    data = take (unat sz) (drop (unat offset) (jurk_file_data fs i)) \<and> unat count = length data"
proof -
  let ?n = "ji_size (fs_inode fs i)"
  have sum: "unat (offset + sz) = unat offset + unat sz"
    using assms(2) by (simp add: unat_word_ariths)
  show ?thesis
  proof (cases "offset \<ge> ?n")
    case True
    then show ?thesis
      by (simp add: jurkvfs_read_impl_def assms(1) Let_def jurk_file_data_def word_le_nat_alt)
  next
    case False
    let ?k = "if offset + sz > ?n then ?n - offset else sz"
    have lt: "unat offset < unat ?n" using False by (simp add: word_le_nat_alt)
    then have diff: "unat (?n - offset) = unat ?n - unat offset"
      by (simp add: unat_sub_if')
    then have k: "unat ?k = min (unat sz) (unat ?n - unat offset)"
      using lt sum by (auto simp: word_less_nat_alt)
    have "take (unat sz) (drop (unat offset) (jurk_file_data fs i)) =
        take (unat ?k) (drop (unat offset) (jurk_file_data fs i))"
      unfolding k by (simp add: jurk_file_data_def min_def)
    also have "\<dots> = bytes_of (jdisk_data fs)
        (unat (data_offset (fs_header fs)) + unat (ji_offset (fs_inode fs i)) + unat offset) (unat ?k)"
      unfolding jurk_file_data_def by (rule take_drop_bytes_of) (use k lt in simp)
    finally show ?thesis using False by (simp add: jurkvfs_read_impl_def assms(1) Let_def)
  qed
qed

text \<open>C13: a read returns exactly the part of the file's data that starts at the offset and has the
  size asked, cut at the end of the file, as long as \<^verbatim>\<open>offset + size\<close> does not wrap.\<close>

theorem jurkvfs_read_slice:
  assumes "device_priv node = Some (Jurk_priv i)" "unat offset + unat sz < 2 ^ 32"
  shows "case jurkvfs_read_impl fs node offset sz of (count, data) \<Rightarrow>
    data = take (unat sz) (drop (unat offset) (jurk_file_data fs i)) \<and> unat count = length data"
  by (rule jurk_read_bytes [OF assms])

theorem jurkvfs_read_slice_witness:
  "case jurkvfs_read_impl demo_fs (jurkvfs_node demo_fs 1 ''a'') 1 3 of (count, data) \<Rightarrow>
    data = take (unat (3 :: u32)) (drop (unat (1 :: u32)) (jurk_file_data demo_fs 1)) \<and> unat count = length data"
  by (rule jurkvfs_read_slice) (simp_all add: jurkvfs_node_def Let_def)

text \<open>When \<^verbatim>\<open>offset + size\<close> wraps to at most the size of the file, the clamp does not happen: the
  read copies \<open>size\<close> bytes, past the end of the file, into the caller's buffer.\<close>

theorem jurkvfs_read_wraps:
  assumes "device_priv node = Some (Jurk_priv i)" "offset < ji_size (fs_inode fs i)"
    and "2 ^ 32 \<le> unat offset + unat sz"
    and "unat offset + unat sz \<le> 2 ^ 32 + unat (ji_size (fs_inode fs i))"
  shows "fst (jurkvfs_read_impl fs node offset sz) = sz \<and>
    length (snd (jurkvfs_read_impl fs node offset sz)) = unat sz \<and>
    length (jurk_file_data fs i) < unat offset + unat sz"
proof -
  let ?n = "ji_size (fs_inode fs i)"
  have b: "unat offset < 2 ^ 32" "unat sz < 2 ^ 32" "unat ?n < 2 ^ 32"
    using unsigned_less [of offset, where 'a = nat] unsigned_less [of sz, where 'a = nat]
      unsigned_less [of ?n, where 'a = nat] by simp_all
  have "unat (offset + sz) = unat offset + unat sz - 2 ^ 32"
    using assms(3) b by (simp add: unat_word_ariths le_mod_geq)
  then have "\<not> offset + sz > ?n" using assms(4) by (simp add: word_less_nat_alt)
  then show ?thesis using assms(1-3) b
    by (simp add: jurkvfs_read_impl_def Let_def jurk_file_data_def not_le)
qed

theorem jurkvfs_read_wraps_witness:
  "fst (jurkvfs_read_impl demo_fs (jurkvfs_node demo_fs 1 ''a'') 1 0xFFFFFFFF) = 0xFFFFFFFF"
proof -
  have "device_priv (jurkvfs_node demo_fs 1 ''a'') = Some (Jurk_priv 1)"
    by (simp add: jurkvfs_node_def Let_def)
  then show ?thesis
    using jurkvfs_read_wraps [of "jurkvfs_node demo_fs 1 ''a''" 1 1 demo_fs "0xFFFFFFFF"]
    by (simp add: demo_inode)
qed

end
