(* ===== verification/Fat32.thy ===== *)
theory Fat32
  imports Vfs Bytes Directory
begin

text \<open>
  The FAT32 driver, \<^verbatim>\<open>fs/fat32.c\<close> and \<^verbatim>\<open>include/fat32.h\<close>: cluster chains, 8.3 names, directory
  listing and search, reading and mounting. Sector and cluster arithmetic is 32 bits wide, as in
  the code; the resulting offset is added to the disk's address. The loops along a chain end
  only if the chain does, so they are in the option monad.
\<close>

section \<open>On-disk structures\<close>

record fat32_dirent =
  fd_name :: "char list"
  fd_attr :: byte
  first_cluster_hi :: u16
  first_cluster_lo :: u16
  fd_size :: u32

definition read_dirent :: "image \<Rightarrow> nat \<Rightarrow> fat32_dirent" where
  "read_dirent img a =
     \<lparr>fd_name = map char_of_byte (bytes_of img a 11), fd_attr = img (a + 11),
      first_cluster_hi = le16 img (a + 20), first_cluster_lo = le16 img (a + 26),
      fd_size = le32 img (a + 28)\<rparr>"

definition FAT_ATTR_VOLUME_ID :: byte where "FAT_ATTR_VOLUME_ID = 0x08"
definition FAT_ATTR_DIRECTORY :: byte where "FAT_ATTR_DIRECTORY = 0x10"
definition FAT_ATTR_LFN :: byte where "FAT_ATTR_LFN = 0x01 OR 0x02 OR 0x04 OR 0x08"

record fat32_bpb =
  bpb_bytes_per_sector :: u16
  bpb_sectors_per_cluster :: byte
  reserved_sector_count :: u16
  num_fats :: byte
  table_size_32 :: u32
  bpb_root_cluster :: u32
  fs_type :: "byte list"

definition read_bpb :: "image \<Rightarrow> nat \<Rightarrow> fat32_bpb" where
  "read_bpb img a =
     \<lparr>bpb_bytes_per_sector = le16 img (a + 11), bpb_sectors_per_cluster = img (a + 13),
      reserved_sector_count = le16 img (a + 14), num_fats = img (a + 16),
      table_size_32 = le32 img (a + 36), bpb_root_cluster = le32 img (a + 44),
      fs_type = bytes_of img (a + 82) 8\<rparr>"

record fat32_fs =
  disk_base :: image
  disk_size :: u64
  partition_offset :: u32
  bytes_per_sector :: u32
  sectors_per_cluster :: u32
  cluster_size :: u32
  reserved_sectors :: u32
  fat_start_sector :: u32
  fat_size_sectors :: u32
  data_start_sector :: u32
  root_cluster :: u32

section \<open>Clusters and names\<close>

definition fat32_get_next_cluster :: "fat32_fs \<Rightarrow> u32 \<Rightarrow> u32" where
  "fat32_get_next_cluster fs cluster =
     (let fat_offset = cluster * 4;
          fat_sector = fat_start_sector fs + fat_offset div bytes_per_sector fs;
          ent_offset = fat_offset mod bytes_per_sector fs;
          sector_ptr = unat (fat_sector * bytes_per_sector fs)
      in le32 (disk_base fs) (sector_ptr + unat ent_offset) AND 0x0FFFFFFF)"

definition fat32_get_cluster_ptr :: "fat32_fs \<Rightarrow> u32 \<Rightarrow> nat option" where
  "fat32_get_cluster_ptr fs cluster =
     (if cluster < 2 then None
      else let sector = data_start_sector fs + (cluster - 2) * sectors_per_cluster fs in
        Some (unat (sector * bytes_per_sector fs)))"

definition to_lower :: "char \<Rightarrow> char" where
  "to_lower c = (if 65 \<le> (of_char c :: nat) \<and> (of_char c :: nat) \<le> 90 then char_of (of_char c + 32 :: nat) else c)"

fun name_part :: "char list \<Rightarrow> string" where
  "name_part [] = []"
| "name_part (c # cs) = (if c = CHR '' '' then [] else to_lower c # name_part cs)"

text \<open>What \<^verbatim>\<open>out\<close> holds as a C string.\<close>

definition fat32_format_name :: "char list \<Rightarrow> string" where
  "fat32_format_name raw =
     takeWhile (\<lambda>c. c \<noteq> CHR 0x00)
       (name_part (take 8 raw) @
        (if raw ! 8 \<noteq> CHR '' '' then CHR ''.'' # name_part (take 3 (drop 8 raw)) else []))"

section \<open>Reading\<close>

fun skip_loop :: "fat32_fs \<Rightarrow> u32 \<Rightarrow> nat \<Rightarrow> u32" where
  "skip_loop fs cluster 0 = cluster"
| "skip_loop fs cluster (Suc skip) =
     (if cluster < 0x0FFFFFF8 then skip_loop fs (fat32_get_next_cluster fs cluster) skip else cluster)"

partial_function (option) read_loop ::
  "fat32_fs \<Rightarrow> u32 \<Rightarrow> u32 \<Rightarrow> u32 \<Rightarrow> u32 \<Rightarrow> byte list \<Rightarrow> (u32 \<times> byte list) option" where
  "read_loop fs cluster cluster_offset sz bytes_read buffer =
     (if bytes_read < sz \<and> cluster < 0x0FFFFFF8 then
        (case fat32_get_cluster_ptr fs cluster of
           None \<Rightarrow> Some (bytes_read, buffer)
         | Some cptr \<Rightarrow>
             (let to_copy = cluster_size fs - cluster_offset;
                  to_copy = (if to_copy > sz - bytes_read then sz - bytes_read else to_copy) in
              read_loop fs (fat32_get_next_cluster fs cluster) 0 sz (bytes_read + to_copy)
                (buffer @ bytes_of (disk_base fs) (cptr + unat cluster_offset) (unat to_copy))))
      else Some (bytes_read, buffer))"

definition fat32_read_impl :: "fat32_fs \<Rightarrow> vfs_node \<Rightarrow> u32 \<Rightarrow> u32 \<Rightarrow> (u32 \<times> byte list) option" where
  "fat32_read_impl fs node offset sz =
     (case device_priv node of
        Some (Fat_priv first_cluster file_size) \<Rightarrow>
          (if offset \<ge> file_size then Some (0, [])
           else
             (let sz = (if offset + sz > file_size then file_size - offset else sz);
                  skip_clusters = offset div cluster_size fs;
                  cluster_offset = offset mod cluster_size fs;
                  cluster = skip_loop fs first_cluster (unat skip_clusters) in
              read_loop fs cluster cluster_offset sz 0 []))
      | _ \<Rightarrow> Some (0, []))"

section \<open>Directories\<close>

definition cluster_entries :: "fat32_fs \<Rightarrow> nat \<Rightarrow> fat32_dirent list" where
  "cluster_entries fs cptr =
     map (\<lambda>i. read_dirent (disk_base fs) (cptr + 32 * i)) [0..<unat (cluster_size fs div 32)]"

text \<open>The scan of one cluster: \<^term>\<open>Inl r\<close> returns \<open>r\<close>, \<^term>\<open>Inr m\<close> goes on to the next cluster.\<close>

fun readdir_scan :: "fat32_dirent list \<Rightarrow> u32 \<Rightarrow> u32 \<Rightarrow> fat32_dirent option + u32" where
  "readdir_scan [] index current_match = Inr current_match"
| "readdir_scan (e # es) index current_match =
     (if fd_name e ! 0 = CHR 0x00 then Inl None
      else if fd_name e ! 0 = CHR 0xE5 then readdir_scan es index current_match
      else if fd_attr e = FAT_ATTR_LFN then readdir_scan es index current_match
      else if fd_attr e AND FAT_ATTR_VOLUME_ID \<noteq> 0 then readdir_scan es index current_match
      else if fd_name e ! 0 = CHR ''.'' then readdir_scan es index current_match
      else if current_match = index then Inl (Some e)
      else readdir_scan es index (current_match + 1))"

definition first_cluster_of :: "fat32_dirent \<Rightarrow> u32" where
  "first_cluster_of e = push_bit 16 (ucast (first_cluster_hi e)) OR ucast (first_cluster_lo e)"

definition fat_dirent :: "fat32_dirent \<Rightarrow> dirent" where
  "fat_dirent e = \<lparr>d_name = fat32_format_name (fd_name e), d_inode = first_cluster_of e,
     d_flags = (if fd_attr e AND FAT_ATTR_DIRECTORY \<noteq> 0 then VFS_DIRECTORY else VFS_FILE)\<rparr>"

partial_function (option) fat_readdir_loop :: "fat32_fs \<Rightarrow> u32 \<Rightarrow> u32 \<Rightarrow> u32 \<Rightarrow> fat32_dirent option option" where
  "fat_readdir_loop fs cluster index current_match =
     (if cluster < 0x0FFFFFF8 then
        (case fat32_get_cluster_ptr fs cluster of
           None \<Rightarrow> Some None
         | Some cptr \<Rightarrow>
             (case readdir_scan (cluster_entries fs cptr) index current_match of
                Inl r \<Rightarrow> Some r
              | Inr m \<Rightarrow> fat_readdir_loop fs (fat32_get_next_cluster fs cluster) index m))
      else Some None)"

definition fat32_readdir_impl :: "fat32_fs \<Rightarrow> vfs_node \<Rightarrow> u32 \<Rightarrow> dirent option option" where
  "fat32_readdir_impl fs node index =
     (case device_priv node of
        Some (Fat_priv first_cluster file_size) \<Rightarrow>
          map_option (map_option fat_dirent) (fat_readdir_loop fs first_cluster index 0)
      | _ \<Rightarrow> Some None)"

fun finddir_scan :: "fat32_dirent list \<Rightarrow> string \<Rightarrow> fat32_dirent option + unit" where
  "finddir_scan [] name = Inr ()"
| "finddir_scan (e # es) name =
     (if fd_name e ! 0 = CHR 0x00 then Inl None
      else if fd_name e ! 0 = CHR 0xE5 then finddir_scan es name
      else if fd_attr e = FAT_ATTR_LFN then finddir_scan es name
      else if fd_attr e AND FAT_ATTR_VOLUME_ID \<noteq> 0 then finddir_scan es name
      else if fat32_format_name (fd_name e) = name then Inl (Some e)
      else finddir_scan es name)"

partial_function (option) fat_finddir_loop :: "fat32_fs \<Rightarrow> u32 \<Rightarrow> string \<Rightarrow> fat32_dirent option option" where
  "fat_finddir_loop fs cluster name =
     (if cluster < 0x0FFFFFF8 then
        (case fat32_get_cluster_ptr fs cluster of
           None \<Rightarrow> Some None
         | Some cptr \<Rightarrow>
             (case finddir_scan (cluster_entries fs cptr) name of
                Inl r \<Rightarrow> Some r
              | Inr _ \<Rightarrow> fat_finddir_loop fs (fat32_get_next_cluster fs cluster) name))
      else Some None)"

definition fat32_create_node :: "string \<Rightarrow> u32 \<Rightarrow> u32 \<Rightarrow> bool \<Rightarrow> 'a vfs_scheme \<Rightarrow> nid \<times> 'a vfs_scheme" where
  "fat32_create_node name cluster sz is_dir s =
     (let node = zero_node\<lparr>node_name := name, inode := cluster, node_length := sz,
                           device_priv := Some (Fat_priv cluster sz)\<rparr> in
      new_node
        (if is_dir
         then node\<lparr>flags := VFS_DIRECTORY, readdir_fn := Some Fat_readdir, finddir_fn := Some Fat_finddir\<rparr>
         else node\<lparr>flags := VFS_FILE, read_fn := Some Fat_read\<rparr>) s)"

definition fat32_finddir_impl :: "fat32_fs \<Rightarrow> 'a vfs_scheme \<Rightarrow> nid \<Rightarrow> string \<Rightarrow> 'a found" where
  "fat32_finddir_impl fs s node name =
     (case device_priv (nodes s node) of
        Some (Fat_priv first_cluster file_size) \<Rightarrow>
          (case fat_finddir_loop fs first_cluster name of
             None \<Rightarrow> None
           | Some None \<Rightarrow> Some (None, s)
           | Some (Some e) \<Rightarrow>
               (case fat32_create_node (fat32_format_name (fd_name e)) (first_cluster_of e) (fd_size e)
                       (fd_attr e AND FAT_ATTR_DIRECTORY \<noteq> 0) s of
                  (n, s') \<Rightarrow> Some (Some n, s')))
      | _ \<Rightarrow> Some (None, s))"

section \<open>Mounting\<close>

definition fat32_init :: "image option \<Rightarrow> u64 \<Rightarrow> 'a vfs_scheme \<Rightarrow> fat32_fs option \<times> nid option \<times> 'a vfs_scheme" where
  "fat32_init disk_data size_bytes s =
     (case disk_data of
        None \<Rightarrow> (None, None, s)
      | Some raw \<Rightarrow>
          if size_bytes < 512 then (None, None, s)
          else
            (let mbr = raw 510 = 0x55 \<and> raw 511 = 0xAA \<and> (raw (446 + 4) = 0x0B \<or> raw (446 + 4) = 0x0C);
                 partition_lba = (if mbr then le32 raw (446 + 8) else 0);
                 s = (if mbr then s\<lparr>klog := klog s @ [''FAT32: Found MBR FAT32 partition'']\<rparr> else s);
                 bpb = read_bpb raw (unat (partition_lba * 512)) in
             if bpb_bytes_per_sector bpb = 0 \<or> bpb_sectors_per_cluster bpb = 0 then (None, None, s)
             else if fs_type bpb \<noteq> map of_char ''FAT32   '' \<and> bpb_root_cluster bpb = 0 then (None, None, s)
             else
               (let fat_start = partition_lba + ucast (reserved_sector_count bpb);
                    fs = \<lparr>disk_base = raw, disk_size = size_bytes, partition_offset = partition_lba * 512,
                          bytes_per_sector = ucast (bpb_bytes_per_sector bpb),
                          sectors_per_cluster = ucast (bpb_sectors_per_cluster bpb),
                          cluster_size = ucast (bpb_bytes_per_sector bpb) * ucast (bpb_sectors_per_cluster bpb),
                          reserved_sectors = ucast (reserved_sector_count bpb),
                          fat_start_sector = fat_start,
                          fat_size_sectors = table_size_32 bpb,
                          data_start_sector = fat_start + ucast (num_fats bpb) * table_size_32 bpb,
                          root_cluster = bpb_root_cluster bpb\<rparr>;
                    s = s\<lparr>klog := klog s @ [''FAT32: Initialized successfully!'']\<rparr>;
                    (n, s) = fat32_create_node ''/'' (root_cluster fs) 0 True s
                in (Some fs, Some n, s))))"

section \<open>Cluster chains\<close>

text \<open>The clusters from \<open>c\<close> on to the end-of-chain mark.\<close>

fun is_chain :: "fat32_fs \<Rightarrow> u32 \<Rightarrow> u32 list \<Rightarrow> bool" where
  "is_chain fs c [] = (\<not> c < 0x0FFFFFF8)"
| "is_chain fs c (d # ds) =
     (d = c \<and> 2 \<le> c \<and> c < 0x0FFFFFF8 \<and> is_chain fs (fat32_get_next_cluster fs c) ds)"

definition cptr_of :: "fat32_fs \<Rightarrow> u32 \<Rightarrow> nat" where
  "cptr_of fs c = unat ((data_start_sector fs + (c - 2) * sectors_per_cluster fs) * bytes_per_sector fs)"

definition cluster_bytes :: "fat32_fs \<Rightarrow> u32 \<Rightarrow> byte list" where
  "cluster_bytes fs c = bytes_of (disk_base fs) (cptr_of fs c) (unat (cluster_size fs))"

definition chain_data :: "fat32_fs \<Rightarrow> u32 list \<Rightarrow> byte list" where
  "chain_data fs cs = concat (map (cluster_bytes fs) cs)"

lemma cluster_ptr: "2 \<le> c \<Longrightarrow> fat32_get_cluster_ptr fs c = Some (cptr_of fs c)"
  by (simp add: fat32_get_cluster_ptr_def cptr_of_def Let_def not_less)

lemma chain_data_simps [simp]:
  "chain_data fs [] = []" "chain_data fs (c # cs) = cluster_bytes fs c @ chain_data fs cs"
  by (simp_all add: chain_data_def)

lemma length_cluster_bytes [simp]: "length (cluster_bytes fs c) = unat (cluster_size fs)"
  by (simp add: cluster_bytes_def)

lemma skip_loop_chain:
  "is_chain fs c cs \<Longrightarrow> is_chain fs (skip_loop fs c k) (drop k cs) \<and>
    chain_data fs (drop k cs) = drop (k * unat (cluster_size fs)) (chain_data fs cs)"
proof (induction k arbitrary: c cs)
  case 0
  then show ?case by simp
next
  case (Suc k)
  show ?case
  proof (cases cs)
    case Nil
    with Suc.prems show ?thesis by simp
  next
    case (Cons d ds)
    with Suc.IH [of "fat32_get_next_cluster fs c" ds] Suc.prems show ?thesis by (simp add: add.commute)
  qed
qed

lemma read_loop_chain:
  assumes "is_chain fs c cs" "br \<le> sz" "off < cluster_size fs"
  shows "read_loop fs c off sz br buf =
    (let data = take (unat sz - unat br) (drop (unat off) (chain_data fs cs)) in
     Some (br + word_of_nat (length data), buf @ data))"
  using assms
proof (induction cs arbitrary: c br off buf)
  case Nil
  then show ?case by (subst read_loop.simps) simp
next
  case (Cons d cs)
  then have c: "2 \<le> c" "c < 0x0FFFFFF8" "is_chain fs (fat32_get_next_cluster fs c) cs" and d: "d = c"
    by auto
  show ?case
  proof (cases "br < sz")
    case False
    then have "unat sz - unat br = 0" by (simp add: word_less_nat_alt)
    with False show ?thesis by (subst read_loop.simps) simp
  next
    case True
    let ?cs = "unat (cluster_size fs)"
    let ?n = "if cluster_size fs - off > sz - br then sz - br else cluster_size fs - off"
    have room: "unat (cluster_size fs - off) = ?cs - unat off" "unat off < ?cs"
      using Cons.prems(3) by (simp_all add: word_less_nat_alt unat_sub_if')
    have left: "unat (sz - br) = unat sz - unat br" "unat br < unat sz"
      using True by (simp_all add: word_less_nat_alt unat_sub_if')
    have n: "unat ?n = min (?cs - unat off) (unat sz - unat br)"
      using room left by (auto simp: word_less_nat_alt)
    have br': "unat (br + ?n) = unat br + unat ?n" "br + ?n \<le> sz"
    proof -
      have "unat br + unat ?n \<le> unat sz" using n left by linarith
      moreover have "unat sz < 2 ^ 32" using unsigned_less [of sz, where 'a = nat] by simp
      ultimately show "unat (br + ?n) = unat br + unat ?n" by (simp add: unat_word_ariths)
      with \<open>unat br + unat ?n \<le> unat sz\<close> show "br + ?n \<le> sz" by (simp add: word_le_nat_alt)
    qed
    have piece: "bytes_of (disk_base fs) (cptr_of fs c + unat off) (unat ?n) =
        take (unat ?n) (drop (unat off) (cluster_bytes fs c))"
      unfolding cluster_bytes_def using n room by (intro take_drop_bytes_of [symmetric]) linarith
    have pos: "0 < cluster_size fs" using Cons.prems(3) by (metis word_not_simps(1) word_neq_0_conv)
    let ?m = "unat sz - unat br"
    have whole: "take ?m (drop (unat off) (chain_data fs (c # cs))) =
        take (unat ?n) (drop (unat off) (cluster_bytes fs c)) @ take (?m - unat ?n) (chain_data fs cs)"
      using room n by (auto simp: min_def)
    have len: "length (take (unat ?n) (drop (unat off) (cluster_bytes fs c))) = unat ?n"
      using n room by simp
    have IH: "read_loop fs (fat32_get_next_cluster fs c) 0 sz (br + ?n) b =
        Some (br + ?n + word_of_nat (length (take (?m - unat ?n) (chain_data fs cs))),
              b @ take (?m - unat ?n) (chain_data fs cs))" for b
      using Cons.IH [OF c(3) br'(2) pos, of b] br'(1) by (simp add: Let_def diff_diff_add)
    have "read_loop fs c off sz br buf =
        read_loop fs (fat32_get_next_cluster fs c) 0 sz (br + ?n)
          (buf @ bytes_of (disk_base fs) (cptr_of fs c + unat off) (unat ?n))"
      using True c by (subst read_loop.simps) (simp add: cluster_ptr Let_def)
    then show ?thesis unfolding d Let_def IH piece whole using len by (simp add: add.assoc)
  qed
qed

lemma fat_read_bytes:
  assumes "is_chain fs first cs" "cluster_size fs \<noteq> 0"
    and "device_priv node = Some (Fat_priv first file_size)" "unat offset + unat sz < 2 ^ 32"
  shows "\<exists>count data. fat32_read_impl fs node offset sz = Some (count, data) \<and>
    data = take (unat sz) (drop (unat offset) (take (unat file_size) (chain_data fs cs))) \<and>
    unat count = length data"
proof (cases "offset \<ge> file_size")
  case True
  then show ?thesis by (simp add: fat32_read_impl_def assms(3) word_le_nat_alt)
next
  case False
  let ?c = "unat (cluster_size fs)"
  let ?k = "if offset + sz > file_size then file_size - offset else sz"
  have lt: "unat offset < unat file_size" using False by (simp add: word_le_nat_alt)
  have sum: "unat (offset + sz) = unat offset + unat sz"
    using assms(4) by (simp add: unat_word_ariths)
  have "unat (file_size - offset) = unat file_size - unat offset" using lt by (simp add: unat_sub_if')
  then have k: "unat ?k = min (unat sz) (unat file_size - unat offset)"
    using lt sum by (auto simp: word_less_nat_alt)
  let ?q = "unat (offset div cluster_size fs)" and ?r = "offset mod cluster_size fs"
  have qr: "?q * ?c + unat ?r = unat offset" by (simp add: unat_div unat_mod)
  have r: "?r < cluster_size fs"
    using assms(2) by (simp add: word_less_nat_alt unat_mod unat_gt_0)
  note skip = skip_loop_chain [OF assms(1), of ?q]
  let ?data = "take (unat ?k) (drop (unat ?r) (chain_data fs (drop ?q cs)))"
  have "fat32_read_impl fs node offset sz = Some (word_of_nat (length ?data), ?data)"
    using False read_loop_chain [OF conjunct1 [OF skip] word_zero_le r, of ?k "[]"]
    by (simp add: fat32_read_impl_def assms(3) Let_def)
  moreover have "?data = take (unat sz) (drop (unat offset) (take (unat file_size) (chain_data fs cs)))"
    unfolding conjunct2 [OF skip] k using qr by (simp add: drop_take add.commute min.commute)
  moreover have "unat (word_of_nat (length ?data) :: u32) = length ?data"
  proof -
    have "length ?data \<le> unat ?k" by simp
    also have "\<dots> < 2 ^ 32" using unsigned_less [of ?k, where 'a = nat] by simp
    finally show ?thesis by (simp add: unat_of_nat take_bit_nat_eq_self)
  qed
  ultimately show ?thesis by metis
qed


section \<open>Directory contents\<close>

definition chain_entries :: "fat32_fs \<Rightarrow> u32 list \<Rightarrow> fat32_dirent list" where
  "chain_entries fs cs = concat (map (\<lambda>c. cluster_entries fs (cptr_of fs c)) cs)"

text \<open>The entries before the end mark that are neither deleted nor labels nor parts of long names.\<close>

definition live_entry :: "fat32_dirent \<Rightarrow> bool" where
  "live_entry e \<longleftrightarrow> fd_name e ! 0 \<noteq> CHR 0xE5 \<and> fd_attr e \<noteq> FAT_ATTR_LFN \<and> fd_attr e AND FAT_ATTR_VOLUME_ID = 0"

definition live_entries :: "fat32_dirent list \<Rightarrow> fat32_dirent list" where
  "live_entries es = filter live_entry (takeWhile (\<lambda>e. fd_name e ! 0 \<noteq> CHR 0x00) es)"

definition listed_entries :: "fat32_dirent list \<Rightarrow> fat32_dirent list" where
  "listed_entries es = filter (\<lambda>e. fd_name e ! 0 \<noteq> CHR ''.'') (live_entries es)"

definition has_end :: "fat32_dirent list \<Rightarrow> bool" where
  "has_end es \<longleftrightarrow> (\<exists>e \<in> set es. fd_name e ! 0 = CHR 0x00)"

lemma live_entries_simps [simp]:
  "live_entries [] = []"
  "live_entries (e # es) = (if fd_name e ! 0 = CHR 0x00 then []
     else if live_entry e then e # live_entries es else live_entries es)"
  by (simp_all add: live_entries_def)

lemma live_entries_append:
  "live_entries (es @ fs) = live_entries es @ (if has_end es then [] else live_entries fs)"
  by (induction es) (auto simp: has_end_def)

lemma listed_entries_append:
  "listed_entries (es @ fs) = listed_entries es @ (if has_end es then [] else listed_entries fs)"
  by (simp add: listed_entries_def live_entries_append)

lemma listed_entries_simps [simp]:
  "listed_entries [] = []"
  "listed_entries (e # es) = (if fd_name e ! 0 = CHR 0x00 then []
     else if live_entry e \<and> fd_name e ! 0 \<noteq> CHR ''.'' then e # listed_entries es else listed_entries es)"
  by (simp_all add: listed_entries_def)

lemma readdir_scan_listed:
  assumes "m + length (listed_entries es) \<le> 2 ^ 32" "m \<le> unat index"
  shows "readdir_scan es index (word_of_nat m) =
    (if unat index - m < length (listed_entries es) then Inl (Some (listed_entries es ! (unat index - m)))
     else if has_end es then Inl None else Inr (word_of_nat (m + length (listed_entries es))))"
  using assms
proof (induction es arbitrary: m)
  case Nil
  then show ?case by (simp add: has_end_def)
next
  case (Cons e es)
  show ?case
  proof (cases "fd_name e ! 0 = CHR 0x00")
    case True
    then show ?thesis by (simp add: has_end_def)
  next
    case nul: False
    show ?thesis
    proof (cases "live_entry e \<and> fd_name e ! 0 \<noteq> CHR ''.''")
      case True
      with nul have l: "listed_entries (e # es) = e # listed_entries es" by simp
      have "m < 2 ^ 32" using Cons.prems(1) l by simp
      then have eq: "(word_of_nat m :: u32) = index \<longleftrightarrow> m = unat index"
        by (auto simp: word_unat_eq_iff unat_of_nat take_bit_nat_eq_self)
      show ?thesis
      proof (cases "m = unat index")
        case True
        with \<open>live_entry e \<and> _\<close> nul eq show ?thesis by (simp add: live_entry_def)
      next
        case ne: False
        obtain k where k: "unat index - m = Suc k" "unat index - Suc m = k"
          using ne Cons.prems(2) by (metis Suc_diff_Suc le_neq_implies_less)
        have "readdir_scan (e # es) index (word_of_nat m) = readdir_scan es index (word_of_nat (Suc m))"
          using True nul ne eq by (simp add: live_entry_def add.commute)
        also have "\<dots> = (if unat index - Suc m < length (listed_entries es)
            then Inl (Some (listed_entries es ! (unat index - Suc m)))
            else if has_end es then Inl None else Inr (word_of_nat (Suc m + length (listed_entries es))))"
          using Cons.prems l ne by (intro Cons.IH) simp_all
        finally show ?thesis unfolding l using k nul by (simp add: has_end_def)
      qed
    next
      case False
      with nul have l: "listed_entries (e # es) = listed_entries es" by auto
      have "readdir_scan (e # es) index (word_of_nat m) = readdir_scan es index (word_of_nat m)"
        using False nul by (auto simp: live_entry_def)
      with Cons l nul show ?thesis by (simp add: has_end_def)
    qed
  qed
qed

lemma chain_entries_simps [simp]:
  "chain_entries fs [] = []"
  "chain_entries fs (c # cs) = cluster_entries fs (cptr_of fs c) @ chain_entries fs cs"
  by (simp_all add: chain_entries_def)

lemma readdir_loop_listed:
  assumes "is_chain fs c cs" "m + length (listed_entries (chain_entries fs cs)) \<le> 2 ^ 32" "m \<le> unat index"
  shows "fat_readdir_loop fs c index (word_of_nat m) =
    Some (let l = listed_entries (chain_entries fs cs) in
      if unat index - m < length l then Some (l ! (unat index - m)) else None)"
  using assms
proof (induction cs arbitrary: c m)
  case Nil
  then show ?case by (subst fat_readdir_loop.simps) simp
next
  case (Cons d cs)
  then have c: "2 \<le> c" "c < 0x0FFFFFF8" "is_chain fs (fat32_get_next_cluster fs c) cs" and d: "d = c"
    by auto
  let ?es = "cluster_entries fs (cptr_of fs c)"
  let ?n = "length (listed_entries ?es)"
  have scan: "readdir_scan ?es index (word_of_nat m) =
      (if unat index - m < ?n then Inl (Some (listed_entries ?es ! (unat index - m)))
       else if has_end ?es then Inl None else Inr (word_of_nat (m + ?n)))"
    using Cons.prems(2,3) d by (intro readdir_scan_listed) (simp_all add: listed_entries_append)
  show ?case
  proof (cases "unat index - m < ?n \<or> has_end ?es")
    case True
    then show ?thesis using c scan
      by (subst fat_readdir_loop.simps)
        (auto simp: d cluster_ptr Let_def listed_entries_append nth_append)
  next
    case False
    then have "fat_readdir_loop fs c index (word_of_nat m) =
        fat_readdir_loop fs (fat32_get_next_cluster fs c) index (word_of_nat (m + ?n))"
      using c scan by (subst fat_readdir_loop.simps) (simp add: cluster_ptr)
    also have "\<dots> = Some (let l = listed_entries (chain_entries fs cs) in
        if unat index - (m + ?n) < length l then Some (l ! (unat index - (m + ?n))) else None)"
    proof (rule Cons.IH [OF c(3)])
      have "\<not> unat index - m < ?n" using False by simp
      then show "m + ?n \<le> unat index" using Cons.prems(3) by linarith
    qed (use Cons.prems(2) d False in \<open>simp add: listed_entries_append\<close>)
    finally show ?thesis using False
      by (auto simp: d Let_def listed_entries_append nth_append)
  qed
qed

lemma finddir_scan_live:
  "finddir_scan es name =
    (case find (\<lambda>e. fat32_format_name (fd_name e) = name) (live_entries es) of
       Some e \<Rightarrow> Inl (Some e)
     | None \<Rightarrow> if has_end es then Inl None else Inr ())"
  by (induction es) (auto simp: has_end_def live_entry_def)

lemma find_append: "find P (xs @ ys) = (case find P xs of Some x \<Rightarrow> Some x | None \<Rightarrow> find P ys)"
  by (induction xs) auto

lemma finddir_loop_live:
  "is_chain fs c cs \<Longrightarrow> fat_finddir_loop fs c name =
    Some (find (\<lambda>e. fat32_format_name (fd_name e) = name) (live_entries (chain_entries fs cs)))"
proof (induction cs arbitrary: c)
  case Nil
  then show ?case by (subst fat_finddir_loop.simps) simp
next
  case (Cons d cs)
  then show ?case
    by (subst fat_finddir_loop.simps)
      (auto simp: cluster_ptr finddir_scan_live live_entries_append find_append split: option.splits)
qed

section \<open>The directory contract\<close>

text \<open>A directory is a file system, its first cluster and the chain from there.\<close>

type_synonym fat_dir = "fat32_fs \<times> u32 \<times> u32 list"

definition fat_entries :: "fat_dir \<Rightarrow> (string \<times> fat32_dirent) list" where
  "fat_entries d = (case d of (fs, c, cs) \<Rightarrow>
     map (\<lambda>e. (fat32_format_name (fd_name e), e)) (listed_entries (chain_entries fs cs)))"

definition fat_list_at :: "fat_dir \<Rightarrow> nat \<Rightarrow> (string \<times> fat32_dirent) option" where
  "fat_list_at d i = (case d of (fs, c, cs) \<Rightarrow>
     if i < 2 ^ 32 then
       (case fat_readdir_loop fs c (word_of_nat i) 0 of
          Some (Some e) \<Rightarrow> Some (fat32_format_name (fd_name e), e) | _ \<Rightarrow> None)
     else None)"

definition fat_find_name :: "fat_dir \<Rightarrow> string \<Rightarrow> fat32_dirent option" where
  "fat_find_name d name = (case d of (fs, c, cs) \<Rightarrow>
     case fat_finddir_loop fs c name of Some r \<Rightarrow> r | None \<Rightarrow> None)"

definition no_dot :: "string \<Rightarrow> bool" where
  "no_dot name \<longleftrightarrow> name = [] \<or> hd name \<noteq> CHR ''.''"

definition fat_dir_ok :: "fat_dir \<Rightarrow> bool" where
  "fat_dir_ok d \<longleftrightarrow> (case d of (fs, c, cs) \<Rightarrow>
     is_chain fs c cs \<and> length (listed_entries (chain_entries fs cs)) \<le> 2 ^ 32)"

lemma dot_entry_name:
  assumes "length (fd_name e) = 11" "fd_name e ! 0 = CHR ''.''"
  shows "\<not> no_dot (fat32_format_name (fd_name e))"
proof (cases "fd_name e")
  case Nil
  with assms show ?thesis by simp
next
  case (Cons c cs)
  with assms show ?thesis by (simp add: fat32_format_name_def no_dot_def to_lower_def)
qed

lemma chain_entry_length: "e \<in> set (chain_entries fs cs) \<Longrightarrow> length (fd_name e) = 11"
  by (auto simp: chain_entries_def cluster_entries_def read_dirent_def)

lemma live_entries_subset: "set (live_entries es) \<subseteq> set es"
  by (auto simp: live_entries_def dest: set_takeWhileD)

lemma find_live_listed:
  assumes "no_dot name" "\<forall>e \<in> set es. length (fd_name e) = 11"
  shows "find (\<lambda>e. fat32_format_name (fd_name e) = name) es =
    map_of (map (\<lambda>e. (fat32_format_name (fd_name e), e)) (filter (\<lambda>e. fd_name e ! 0 \<noteq> CHR ''.'') es)) name"
  using assms by (induction es) (auto dest: dot_entry_name)

interpretation fat_dir: directory fat_entries fat_list_at fat_find_name no_dot fat_dir_ok
proof unfold_locales
  fix d i assume ok: "fat_dir_ok d"
  obtain fs c cs where d: "d = (fs, c, cs)" by (cases d)
  show "fat_list_at d i = (if i < length (fat_entries d) then Some (fat_entries d ! i) else None)"
  proof (cases "i < 2 ^ 32")
    case True
    then have "unat (word_of_nat i :: u32) = i" by (simp add: unat_of_nat take_bit_nat_eq_self)
    then show ?thesis using True readdir_loop_listed [of fs c cs 0 "word_of_nat i"] ok
      by (simp add: d fat_list_at_def fat_entries_def fat_dir_ok_def Let_def)
  next
    case False
    then show ?thesis using ok by (simp add: d fat_list_at_def fat_entries_def fat_dir_ok_def)
  qed
next
  fix d name assume ok: "fat_dir_ok d" and name: "no_dot name"
  obtain fs c cs where d: "d = (fs, c, cs)" by (cases d)
  have "\<forall>e \<in> set (live_entries (chain_entries fs cs)). length (fd_name e) = 11"
    using chain_entry_length live_entries_subset by blast
  with find_live_listed [OF name this] finddir_loop_live [of fs c cs name] ok
  show "fat_find_name d name = map_of (fat_entries d) name"
    by (simp add: d fat_find_name_def fat_entries_def fat_dir_ok_def listed_entries_def)
qed

section \<open>A small disk\<close>

text \<open>One root directory cluster with the file \<^verbatim>\<open>A.TXT\<close> of five bytes in cluster 3.\<close>

definition fat_demo_image :: image where
  "fat_demo_image = (\<lambda>_. 0)(72 := 0xFF, 73 := 0xFF, 74 := 0xFF, 75 := 0x0F, 76 := 0xFF, 77 := 0xFF, 78 := 0xFF, 79 := 0x0F,
     128 := 0x41, 129 := 0x20, 130 := 0x20, 131 := 0x20, 132 := 0x20, 133 := 0x20, 134 := 0x20, 135 := 0x20,
     136 := 0x54, 137 := 0x58, 138 := 0x54, 139 := 0x20, 154 := 3, 156 := 5,
     192 := 0x68, 193 := 0x65, 194 := 0x6C, 195 := 0x6C, 196 := 0x6F)"

definition fat_demo_on :: "image \<Rightarrow> fat32_fs" where
  "fat_demo_on img = \<lparr>disk_base = img, disk_size = 512, partition_offset = 0, bytes_per_sector = 64,
     sectors_per_cluster = 1, cluster_size = 64, reserved_sectors = 1, fat_start_sector = 1,
     fat_size_sectors = 1, data_start_sector = 2, root_cluster = 2\<rparr>"

abbreviation fat_demo :: fat32_fs where
  "fat_demo \<equiv> fat_demo_on fat_demo_image"

lemma fat_demo_chain: "is_chain fat_demo 2 [2]" "is_chain fat_demo 3 [3]"
proof -
  have "fat32_get_next_cluster fat_demo 2 = 0x0FFFFFFF" "fat32_get_next_cluster fat_demo 3 = 0x0FFFFFFF"
    by (simp_all add: fat32_get_next_cluster_def fat_demo_on_def Let_def) (simp_all add: le32_def fat_demo_image_def)
  then show "is_chain fat_demo 2 [2]" "is_chain fat_demo 3 [3]" by simp_all
qed

definition fat_demo_entry :: fat32_dirent where
  "fat_demo_entry = \<lparr>fd_name = ''A       TXT'', fd_attr = 0x20, first_cluster_hi = 0, first_cluster_lo = 3, fd_size = 5\<rparr>"

lemma char_of_byte_demo: "map char_of_byte [0x41, 0x20, 0x20, 0x20, 0x20, 0x20, 0x20, 0x20, 0x54, 0x58, 0x54] = ''A       TXT''"
  by code_simp

lemma char_of_byte_0: "char_of_byte 0 = CHR 0x00"
  by code_simp

lemma fat_demo_entries:
  "listed_entries (chain_entries fat_demo [2]) = [fat_demo_entry]"
proof -
  have p: "cptr_of fat_demo 2 = 128" by (simp add: cptr_of_def fat_demo_on_def)
  have n: "[0..<unat (cluster_size fat_demo div 32)] = [0, 1]"
    by (simp add: fat_demo_on_def upt_rec)
  have upt11: "[a..<a + 11] = [a, a+1, a+2, a+3, a+4, a+5, a+6, a+7, a+8, a+9, a+10]" for a :: nat
    by (simp add: upt_rec)
  have "bytes_of fat_demo_image 128 11 = [0x41, 0x20, 0x20, 0x20, 0x20, 0x20, 0x20, 0x20, 0x54, 0x58, 0x54]"
    unfolding bytes_of_def upt11 by (simp add: fat_demo_image_def)
  then have e0: "read_dirent fat_demo_image 128 = fat_demo_entry"
    unfolding read_dirent_def fat_demo_entry_def
    by (simp only: char_of_byte_demo) (simp add: le16_def le32_def fat_demo_image_def)
  have "bytes_of fat_demo_image 160 11 = 0 # bytes_of fat_demo_image 161 10"
    unfolding bytes_of_def upt11 by (simp add: fat_demo_image_def upt_rec)
  then have e1: "fd_name (read_dirent fat_demo_image 160) ! 0 = CHR 0x00"
    by (simp add: read_dirent_def char_of_byte_0)
  have l: "fat_demo_entry \<in> Collect live_entry" "fd_name fat_demo_entry ! 0 = CHR ''A''"
    by (simp_all add: live_entry_def fat_demo_entry_def FAT_ATTR_LFN_def FAT_ATTR_VOLUME_ID_def)
  have "chain_entries fat_demo [2] = [read_dirent fat_demo_image 128, read_dirent fat_demo_image 160]"
    by (simp add: cluster_entries_def p n) (simp add: fat_demo_on_def)
  with e0 e1 l show ?thesis by simp
qed

lemma fat_demo_name: "fat32_format_name ''A       TXT'' = ''a.txt''"
  by code_simp

definition fat_demo_vfs :: vfs where
  "fat_demo_vfs = snd (fat32_create_node ''/'' 2 0 True
     \<lparr>nodes = (\<lambda>_. zero_node), next_nid = 1, vfs_root = None, klog = []\<rparr>)"




section \<open>8.3 names\<close>

definition pad :: "nat \<Rightarrow> char list \<Rightarrow> char list" where
  "pad n cs = cs @ replicate (n - length cs) (CHR '' '')"

definition name_chars :: "char list \<Rightarrow> bool" where
  "name_chars cs \<longleftrightarrow> CHR '' '' \<notin> set cs \<and> CHR 0x00 \<notin> set cs"

lemma name_part_pad: "CHR '' '' \<notin> set cs \<Longrightarrow> name_part (cs @ replicate n (CHR '' '')) = map to_lower cs"
  by (induction cs) (cases n; auto)+

lemma to_lower_nul: "to_lower c = CHR 0x00 \<longleftrightarrow> c = CHR 0x00"
proof -
  have "char_of (of_char c + 32 :: nat) \<noteq> CHR 0x00" if "(of_char c :: nat) \<le> 90"
  proof
    assume "char_of (of_char c + 32 :: nat) = CHR 0x00"
    then have "of_char (char_of (of_char c + 32 :: nat)) = (of_char (CHR 0x00) :: nat)" by simp
    with that show False by simp
  qed
  then show ?thesis by (auto simp: to_lower_def)
qed

lemma takeWhile_lower: "name_chars cs \<Longrightarrow> takeWhile (\<lambda>c. c \<noteq> CHR 0x00) (map to_lower cs @ r) =
    map to_lower cs @ takeWhile (\<lambda>c. c \<noteq> CHR 0x00) r"
  by (induction cs) (auto simp: name_chars_def to_lower_nul)

text \<open>An 8.3 directory entry with base name \<open>b\<close> and extension \<open>x\<close>, padded with blanks on disk, is
  presented as the lower-case base, followed by a dot and the lower-case extension if there is
  one: at most 12 characters.\<close>

theorem fat32_name_decoded:
  assumes "name_chars b" "length b \<le> 8" "name_chars x" "length x \<le> 3"
  shows "fat32_format_name (pad 8 b @ pad 3 x) =
      map to_lower b @ (if x = [] then [] else CHR ''.'' # map to_lower x) \<and>
    length (fat32_format_name (pad 8 b @ pad 3 x)) \<le> 12"
proof -
  have len: "length (pad 8 b) = 8" "length (pad 3 x) = 3" using assms by (simp_all add: pad_def)
  have ext: "(pad 8 b @ pad 3 x) ! 8 \<noteq> CHR '' '' \<longleftrightarrow> x \<noteq> []"
  proof -
    have "(pad 8 b @ pad 3 x) ! 8 = pad 3 x ! 0" using len by (simp add: nth_append)
    then show ?thesis using assms(3) by (cases x) (auto simp: pad_def name_chars_def)
  qed
  have parts: "name_part (pad 8 b) = map to_lower b" "name_part (pad 3 x) = map to_lower x"
    using assms(1,3) by (simp_all add: pad_def name_part_pad name_chars_def)
  have tail: "takeWhile (\<lambda>c. c \<noteq> CHR 0x00) (map to_lower x) = map to_lower x"
    using takeWhile_lower [OF assms(3), of "[]"] by simp
  have eq: "fat32_format_name (pad 8 b @ pad 3 x) =
      map to_lower b @ (if x = [] then [] else CHR ''.'' # map to_lower x)"
    unfolding fat32_format_name_def ext using takeWhile_lower [OF assms(1)]
    by (simp add: len parts tail)
  then show ?thesis using assms(2,4) by simp
qed

theorem fat32_name_decoded_witness:
  "fat32_format_name (pad 8 ''KERNEL'' @ pad 3 ''BIN'') = ''kernel.bin''"
proof -
  have "map to_lower ''KERNEL'' = ''kernel''" "map to_lower ''BIN'' = ''bin''" by code_simp+
  then show ?thesis
    using fat32_name_decoded [of "''KERNEL''" "''BIN''"] by (simp add: name_chars_def)
qed

section \<open>A cluster chain that is a cycle\<close>

text \<open>If the chain of a directory comes back to a cluster, and that cluster holds neither an
  end mark nor a name to stop at, the search for a name never returns: the loop has no bound on
  the number of clusters it visits.\<close>

theorem fat32_finddir_cycle_diverges:
  assumes "fat32_get_next_cluster fs c = c" "2 \<le> c" "c < 0x0FFFFFF8"
    and "finddir_scan (cluster_entries fs (cptr_of fs c)) name = Inr ()"
  shows "fat_finddir_loop fs c name = None"
proof -
  let ?P = "\<lambda>g k nm (y :: fat32_dirent option). \<not> (g = fs \<and> k = c \<and> nm = name)"
  have "\<not> (g = fs \<and> k = c \<and> nm = name)" if "fat_finddir_loop g k nm = Some y" for g k nm y
  proof (rule fat_finddir_loop.raw_induct [where P = ?P, OF _ that])
    fix loop g k nm y
    assume IH: "\<And>g k nm y. loop g k nm = Some y \<Longrightarrow> \<not> (g = fs \<and> k = c \<and> nm = name)"
      and body: "(if k < 268435448
        then case fat32_get_cluster_ptr g k of None \<Rightarrow> Some None
             | Some cptr \<Rightarrow> (case finddir_scan (cluster_entries g cptr) nm of Inl r \<Rightarrow> Some r
                 | Inr _ \<Rightarrow> loop g (fat32_get_next_cluster g k) nm)
        else Some None) = Some y"
    show "\<not> (g = fs \<and> k = c \<and> nm = name)"
    proof
      assume "g = fs \<and> k = c \<and> nm = name"
      with body assms have "loop fs c name = Some y" by (simp add: cluster_ptr)
      from IH [OF this] show False by simp
    qed
  qed
  then show ?thesis by (cases "fat_finddir_loop fs c name") auto
qed

theorem fat32_finddir_cycle_diverges_witness:
  "fat_finddir_loop (fat_demo_on ((\<lambda>_. 0)(72 := 2, 128 := 0xE5, 160 := 0xE5))) 2 ''a.txt'' = None"
proof (rule fat32_finddir_cycle_diverges)
  let ?img = "(\<lambda>_. 0)(72 := 2, 128 := 0xE5, 160 := 0xE5) :: image"
  show "fat32_get_next_cluster (fat_demo_on ?img) 2 = 2"
    by (simp add: fat32_get_next_cluster_def fat_demo_on_def Let_def le32_def)
  have n: "[0..<unat (cluster_size (fat_demo_on ?img) div 32)] = [0, 1]"
    by (simp add: fat_demo_on_def upt_rec)
  have e5: "fd_name (read_dirent ?img a) ! 0 = CHR 0xE5" if "?img a = 0xE5" for a
  proof -
    have "char_of_byte 0xE5 = CHR 0xE5" by code_simp
    with that show ?thesis by (simp add: read_dirent_def nth_bytes_of)
  qed
  have "cluster_entries (fat_demo_on ?img) (cptr_of (fat_demo_on ?img) 2) = [read_dirent ?img 128, read_dirent ?img 160]"
    by (simp add: cluster_entries_def n) (simp add: cptr_of_def fat_demo_on_def)
  then show "finddir_scan (cluster_entries (fat_demo_on ?img) (cptr_of (fat_demo_on ?img) 2)) ''a.txt'' = Inr ()"
    by (simp add: e5)
qed simp_all

end
