(* ===== verification/Pci.thy ===== *)
theory Pci
  imports Serial
begin

text \<open>
  PCI enumeration, \<^verbatim>\<open>drivers/pci.c\<close> and \<^verbatim>\<open>include/pci.h\<close>: configuration reads through the address
  and data ports, and a table of at most 64 devices. The state is the table (its length is
  \<open>pci_device_count\<close>) and the trace of port accesses; a step is \<^term>\<open>None\<close> if the serial
  message it prints never gets out.
\<close>

definition PCI_CONFIG_ADDRESS :: u16 where "PCI_CONFIG_ADDRESS = 0xCF8"
definition PCI_CONFIG_DATA :: u16 where "PCI_CONFIG_DATA = 0xCFC"
definition MAX_PCI_DEVICES :: nat where "MAX_PCI_DEVICES = 64"

record pci_device =
  pci_bus :: byte
  pci_slot :: byte
  pci_func :: byte
  vendor_id :: u16
  device_id :: u16
  class_id :: byte
  pci_subclass :: byte
  prog_if :: byte
  irq :: byte
  bar :: "u32 list"

type_synonym pci_state = "pci_device list \<times> io_trace"

definition config_address :: "byte \<Rightarrow> byte \<Rightarrow> byte \<Rightarrow> byte \<Rightarrow> u32" where
  "config_address bus slot func offset =
     push_bit 16 (ucast bus) OR push_bit 11 (ucast slot) OR push_bit 8 (ucast func) OR
     (ucast offset AND 0xFC) OR 0x80000000"

definition pci_read_config :: "devices \<Rightarrow> byte \<Rightarrow> byte \<Rightarrow> byte \<Rightarrow> byte \<Rightarrow> io_trace \<Rightarrow> u32 \<times> io_trace" where
  "pci_read_config dv bus slot func offset t =
     inl dv PCI_CONFIG_DATA (outl PCI_CONFIG_ADDRESS (config_address bus slot func offset) t)"

definition pci_write_config :: "byte \<Rightarrow> byte \<Rightarrow> byte \<Rightarrow> byte \<Rightarrow> u32 \<Rightarrow> io_trace \<Rightarrow> io_trace" where
  "pci_write_config bus slot func offset val t =
     outl PCI_CONFIG_DATA val (outl PCI_CONFIG_ADDRESS (config_address bus slot func offset) t)"

fun read_bars :: "devices \<Rightarrow> byte \<Rightarrow> byte \<Rightarrow> byte \<Rightarrow> nat \<Rightarrow> io_trace \<Rightarrow> u32 list \<times> io_trace" where
  "read_bars dv bus slot func 0 t = ([], t)"
| "read_bars dv bus slot func (Suc n) t =
     (let (bs, t) = read_bars dv bus slot func n t;
          (b, t) = pci_read_config dv bus slot func (0x10 + word_of_nat n * 4) t
      in (bs @ [b], t))"

definition pci_check_function :: "devices \<Rightarrow> byte \<Rightarrow> byte \<Rightarrow> byte \<Rightarrow> pci_state \<Rightarrow> pci_state option" where
  "pci_check_function dv bus slot func s =
     (case s of (devs, t) \<Rightarrow>
      let (reg0, t) = pci_read_config dv bus slot func 0x00 t;
          vid = ucast (reg0 AND 0xFFFF);
          did = ucast (drop_bit 16 reg0 AND 0xFFFF) in
      if vid = 0xFFFF \<or> length devs \<ge> MAX_PCI_DEVICES then Some (devs, t)
      else
        let (reg8, t) = pci_read_config dv bus slot func 0x08 t;
            cid = ucast (drop_bit 24 reg8 AND 0xFF);
            sub = ucast (drop_bit 16 reg8 AND 0xFF);
            pif = ucast (drop_bit 8 reg8 AND 0xFF);
            (reg3c, t) = pci_read_config dv bus slot func 0x3C t;
            (bars, t) = read_bars dv bus slot func 6 t;
            d = \<lparr>pci_bus = bus, pci_slot = slot, pci_func = func, vendor_id = vid, device_id = did,
                 class_id = cid, pci_subclass = sub, prog_if = pif, irq = ucast (reg3c AND 0xFF), bar = bars\<rparr>
        in map_option (\<lambda>t. (devs @ [d], t))
             (serial_printf dv (''PCI: Found [%x:%x] class %d:%d at %d:%d.%d'' @ [CHR 0x0A])
                [Ahex (ucast vid), Ahex (ucast did), Aint (ucast cid), Aint (ucast sub),
                 Aint (ucast bus), Aint (ucast slot), Aint (ucast func)] t))"

text \<open>Functions 1 to 7 of a multi-function device.\<close>

fun scan_functions :: "devices \<Rightarrow> byte \<Rightarrow> byte \<Rightarrow> byte list \<Rightarrow> pci_state \<Rightarrow> pci_state option" where
  "scan_functions dv bus slot [] s = Some s"
| "scan_functions dv bus slot (f # fs) s =
     (case s of (devs, t) \<Rightarrow>
      let (reg0, t) = pci_read_config dv bus slot f 0x00 t in
      Option.bind
        (if (ucast (reg0 AND 0xFFFF) :: u16) \<noteq> 0xFFFF then pci_check_function dv bus slot f (devs, t)
         else Some (devs, t))
        (scan_functions dv bus slot fs))"

definition scan_slot :: "devices \<Rightarrow> byte \<Rightarrow> byte \<Rightarrow> pci_state \<Rightarrow> pci_state option" where
  "scan_slot dv bus slot s =
     (case s of (devs, t) \<Rightarrow>
      let (reg0, t) = pci_read_config dv bus slot 0 0x00 t in
      if (ucast (reg0 AND 0xFFFF) :: u16) \<noteq> 0xFFFF then
        Option.bind (pci_check_function dv bus slot 0 (devs, t)) (\<lambda>(devs, t).
          let (regc, t) = pci_read_config dv bus slot 0 0x0C t in
          if drop_bit 16 regc AND 0x80 \<noteq> 0
          then scan_functions dv bus slot (map word_of_nat [1..<8]) (devs, t)
          else Some (devs, t))
      else Some (devs, t))"

fun scan_slots :: "devices \<Rightarrow> (byte \<times> byte) list \<Rightarrow> pci_state \<Rightarrow> pci_state option" where
  "scan_slots dv [] s = Some s"
| "scan_slots dv ((bus, slot) # bs) s = Option.bind (scan_slot dv bus slot s) (scan_slots dv bs)"

definition bus_slots :: "(byte \<times> byte) list" where
  "bus_slots = concat (map (\<lambda>b. map (\<lambda>s. (word_of_nat b, word_of_nat s)) [0..<32]) [0..<256])"

definition pci_scan :: "devices \<Rightarrow> io_trace \<Rightarrow> pci_state option" where
  "pci_scan dv t = scan_slots dv bus_slots ([], t)"

fun pci_find_device :: "pci_device list \<Rightarrow> u16 \<Rightarrow> u16 \<Rightarrow> pci_device option" where
  "pci_find_device [] vid did = None"
| "pci_find_device (d # ds) vid did =
     (if vendor_id d = vid \<and> device_id d = did then Some d else pci_find_device ds vid did)"

definition pci_get_device_count :: "pci_device list \<Rightarrow> u32" where
  "pci_get_device_count devs = word_of_nat (length devs)"

definition pci_get_device :: "pci_device list \<Rightarrow> u32 \<Rightarrow> pci_device option" where
  "pci_get_device devs index = (if unat index < length devs then Some (devs ! unat index) else None)"

section \<open>A bus that answers from a configuration space\<close>

fun last_outl :: "u16 \<Rightarrow> io_trace \<Rightarrow> u32 option" where
  "last_outl p [] = None"
| "last_outl p (Outl q v # t) = (case last_outl p t of None \<Rightarrow> if q = p then Some v else None | Some w \<Rightarrow> Some w)"
| "last_outl p (_ # t) = last_outl p t"

lemma last_outl_append:
  "last_outl p (t @ u) = (case last_outl p u of None \<Rightarrow> last_outl p t | Some w \<Rightarrow> Some w)"
  by (induction p t rule: last_outl.induct) (auto split: option.splits)

text \<open>Reading the data port gives the register that the address port was last set to.\<close>

definition pci_answers :: "devices \<Rightarrow> (u32 \<Rightarrow> u32) \<Rightarrow> bool" where
  "pci_answers dv cfg \<longleftrightarrow> (\<forall>t a. last_outl PCI_CONFIG_ADDRESS t = Some a \<longrightarrow> in32 dv t PCI_CONFIG_DATA = cfg a)"

definition cfg_read :: "(u32 \<Rightarrow> u32) \<Rightarrow> byte \<Rightarrow> byte \<Rightarrow> byte \<Rightarrow> byte \<Rightarrow> u32" where
  "cfg_read cfg bus slot func offset = cfg (config_address bus slot func offset)"

lemma read_config_eq:
  "pci_answers dv cfg \<Longrightarrow> fst (pci_read_config dv bus slot func offset t) = cfg_read cfg bus slot func offset"
  by (simp add: pci_read_config_def inl_def outl_def Let_def pci_answers_def last_outl_append cfg_read_def)

lemma read_bars_eq:
  "pci_answers dv cfg \<Longrightarrow> fst (read_bars dv bus slot func n t) =
    map (\<lambda>i. cfg_read cfg bus slot func (0x10 + word_of_nat i * 4)) [0..<n]"
  by (induction n arbitrary: t) (auto simp: read_config_eq split: prod.splits dest: arg_cong [where f = fst])

section \<open>What a scan finds\<close>

definition device_at :: "(u32 \<Rightarrow> u32) \<Rightarrow> byte \<Rightarrow> byte \<Rightarrow> byte \<Rightarrow> pci_device" where
  "device_at cfg bus slot func =
     (let r0 = cfg_read cfg bus slot func 0; r8 = cfg_read cfg bus slot func 0x08 in
      \<lparr>pci_bus = bus, pci_slot = slot, pci_func = func,
       vendor_id = ucast (r0 AND 0xFFFF), device_id = ucast (drop_bit 16 r0 AND 0xFFFF),
       class_id = ucast (drop_bit 24 r8 AND 0xFF), pci_subclass = ucast (drop_bit 16 r8 AND 0xFF),
       prog_if = ucast (drop_bit 8 r8 AND 0xFF), irq = ucast (cfg_read cfg bus slot func 0x3C AND 0xFF),
       bar = map (\<lambda>i. cfg_read cfg bus slot func (0x10 + word_of_nat i * 4)) [0..<6]\<rparr>)"

definition present :: "(u32 \<Rightarrow> u32) \<Rightarrow> byte \<Rightarrow> byte \<Rightarrow> byte \<Rightarrow> bool" where
  "present cfg bus slot func \<longleftrightarrow> (ucast (cfg_read cfg bus slot func 0 AND 0xFFFF) :: u16) \<noteq> 0xFFFF"

definition multi_function :: "(u32 \<Rightarrow> u32) \<Rightarrow> byte \<Rightarrow> byte \<Rightarrow> bool" where
  "multi_function cfg bus slot \<longleftrightarrow> drop_bit 16 (cfg_read cfg bus slot 0 0x0C) AND 0x80 \<noteq> 0"

definition slot_functions :: "(u32 \<Rightarrow> u32) \<Rightarrow> byte \<Rightarrow> byte \<Rightarrow> byte list" where
  "slot_functions cfg bus slot =
     (if present cfg bus slot 0 then
        0 # (if multi_function cfg bus slot then filter (present cfg bus slot) (map word_of_nat [1..<8]) else [])
      else [])"

definition bus_devices :: "(u32 \<Rightarrow> u32) \<Rightarrow> (byte \<times> byte) list \<Rightarrow> pci_device list" where
  "bus_devices cfg bs = concat (map (\<lambda>(b, s). map (device_at cfg b s) (slot_functions cfg b s)) bs)"

lemma found_message:
  assumes "uart_live dv"
  obtains t' where "serial_printf dv (''PCI: Found [%x:%x] class %d:%d at %d:%d.%d'' @ [CHR 0x0A])
    [Ahex a, Ahex b, Aint c, Aint d, Aint e, Aint f, Aint g] t = Some t'"
proof -
  have "render (''PCI: Found [%x:%x] class %d:%d at %d:%d.%d'' @ [CHR 0x0A])
      [Ahex a, Ahex b, Aint c, Aint d, Aint e, Aint f, Aint g] \<noteq> None"
    by (simp add: directive_def)
  then show thesis using serial_printf_total [OF assms] that by blast
qed

lemma check_function_spec:
  assumes "pci_answers dv cfg" "uart_live dv"
  shows "\<exists>t'. pci_check_function dv bus slot func (take 64 ds, t) =
    Some (take 64 (ds @ (if present cfg bus slot func then [device_at cfg bus slot func] else [])), t')"
proof -
  obtain t0 where r0: "pci_read_config dv bus slot func 0 t = (cfg_read cfg bus slot func 0, t0)"
    using read_config_eq [OF assms(1)] by (metis prod.collapse)
  show ?thesis
  proof (cases "present cfg bus slot func \<and> length ds < 64")
    case True
    obtain t8 where r8: "pci_read_config dv bus slot func 8 t0 = (cfg_read cfg bus slot func 8, t8)"
      using read_config_eq [OF assms(1)] by (metis prod.collapse)
    obtain t3 where r3: "pci_read_config dv bus slot func 0x3C t8 = (cfg_read cfg bus slot func 0x3C, t3)"
      using read_config_eq [OF assms(1)] by (metis prod.collapse)
    obtain tb where rb: "read_bars dv bus slot func 6 t3 =
        (map (\<lambda>i. cfg_read cfg bus slot func (0x10 + word_of_nat i * 4)) [0..<6], tb)"
      using read_bars_eq [OF assms(1)] by (metis prod.collapse)
    let ?d = "device_at cfg bus slot func"
    obtain t' where m: "serial_printf dv (''PCI: Found [%x:%x] class %d:%d at %d:%d.%d'' @ [CHR 0x0A])
        [Ahex (ucast (vendor_id ?d)), Ahex (ucast (device_id ?d)), Aint (ucast (class_id ?d)),
         Aint (ucast (pci_subclass ?d)), Aint (ucast bus), Aint (ucast slot), Aint (ucast func)] tb = Some t'"
      by (rule found_message [OF assms(2)])
    have d: "?d = \<lparr>pci_bus = bus, pci_slot = slot, pci_func = func, vendor_id = vendor_id ?d, device_id = device_id ?d,
        class_id = class_id ?d, pci_subclass = pci_subclass ?d, prog_if = prog_if ?d, irq = irq ?d, bar = bar ?d\<rparr>"
      by (simp add: device_at_def Let_def)
    from True have "pci_check_function dv bus slot func (take 64 ds, t) = Some (ds @ [?d], t')"
      unfolding pci_check_function_def MAX_PCI_DEVICES_def present_def
      using m by (simp add: r0 r8 r3 rb Let_def device_at_def del: serial_printf.simps)
    with True show ?thesis by (simp add: take_Cons')
  next
    case False
    then show ?thesis
      by (auto simp: pci_check_function_def MAX_PCI_DEVICES_def present_def r0 Let_def not_less)
  qed
qed

lemma scan_functions_spec:
  assumes "pci_answers dv cfg" "uart_live dv"
  shows "\<exists>t'. scan_functions dv bus slot fs (take 64 ds, t) =
    Some (take 64 (ds @ map (device_at cfg bus slot) (filter (present cfg bus slot) fs)), t')"
proof (induction fs arbitrary: ds t)
  case Nil
  then show ?case by simp
next
  case (Cons f fs)
  obtain t0 where r0: "pci_read_config dv bus slot f 0 t = (cfg_read cfg bus slot f 0, t0)"
    using read_config_eq [OF assms(1)] by (metis prod.collapse)
  show ?case
  proof (cases "present cfg bus slot f")
    case True
    obtain t1 where "pci_check_function dv bus slot f (take 64 ds, t0) = Some (take 64 (ds @ [device_at cfg bus slot f]), t1)"
      using check_function_spec [OF assms, of bus slot f ds t0] True by auto
    then show ?thesis
      using True Cons.IH [of "ds @ [device_at cfg bus slot f]" t1] r0 by (simp add: present_def)
  next
    case False
    then show ?thesis using Cons.IH [of ds t0] r0 by (simp add: present_def)
  qed
qed

lemma scan_slot_spec:
  assumes "pci_answers dv cfg" "uart_live dv"
  shows "\<exists>t'. scan_slot dv bus slot (take 64 ds, t) =
    Some (take 64 (ds @ map (device_at cfg bus slot) (slot_functions cfg bus slot)), t')"
proof -
  obtain t0 where r0: "pci_read_config dv bus slot 0 0 t = (cfg_read cfg bus slot 0 0, t0)"
    using read_config_eq [OF assms(1)] by (metis prod.collapse)
  show ?thesis
  proof (cases "present cfg bus slot 0")
    case True
    obtain t1 where c: "pci_check_function dv bus slot 0 (take 64 ds, t0) = Some (take 64 (ds @ [device_at cfg bus slot 0]), t1)"
      using check_function_spec [OF assms, of bus slot 0 ds t0] True by auto
    obtain t2 where rc: "pci_read_config dv bus slot 0 0x0C t1 = (cfg_read cfg bus slot 0 0x0C, t2)"
      using read_config_eq [OF assms(1)] by (metis prod.collapse)
    show ?thesis
      using True c rc r0 scan_functions_spec [OF assms, of bus slot "map word_of_nat [1..<8]" "ds @ [device_at cfg bus slot 0]" t2]
      by (simp add: scan_slot_def present_def slot_functions_def multi_function_def)
  next
    case False
    then show ?thesis using r0 by (simp add: scan_slot_def present_def slot_functions_def)
  qed
qed

lemma scan_slots_spec:
  assumes "pci_answers dv cfg" "uart_live dv"
  shows "\<exists>t'. scan_slots dv bs (take 64 ds, t) = Some (take 64 (ds @ bus_devices cfg bs), t')"
proof (induction bs arbitrary: ds t)
  case Nil
  then show ?case by (simp add: bus_devices_def)
next
  case (Cons b bs)
  obtain bus slot where b: "b = (bus, slot)" by fastforce
  let ?l = "map (device_at cfg bus slot) (slot_functions cfg bus slot)"
  obtain t' where "scan_slot dv bus slot (take 64 ds, t) = Some (take 64 (ds @ ?l), t')"
    using scan_slot_spec [OF assms] by blast
  then show ?case using Cons.IH [of "ds @ ?l" t'] by (simp add: b bus_devices_def)
qed

text \<open>C14: on a machine whose configuration space answers reads, \<open>pci_scan\<close> records, in order of bus,
  slot and function, the functions that are present (functions above 0 only for multi-function
  devices), each with the fields of its own registers, up to the 64 that the table holds.\<close>

theorem pci_scan_complete:
  assumes "pci_answers dv cfg" "uart_live dv"
  shows "\<exists>t'. pci_scan dv t = Some (take 64 (bus_devices cfg bus_slots), t')"
  using scan_slots_spec [OF assms, of bus_slots "[]" t] by (simp add: pci_scan_def)

definition demo_devices :: devices where
  "demo_devices = \<lparr>in8 = (\<lambda>t p. 0x60), in16 = (\<lambda>t p. 0),
     in32 = (\<lambda>t p. if last_outl PCI_CONFIG_ADDRESS t = Some 0x80001800 then 0x100E8086 else 0xFFFFFFFF)\<rparr>"

theorem pci_scan_complete_witness:
  "\<exists>t'. pci_scan demo_devices [] =
    Some (take 64 (bus_devices (\<lambda>a. if a = 0x80001800 then 0x100E8086 else 0xFFFFFFFF) bus_slots), t')"
  by (rule pci_scan_complete)
    (auto simp: pci_answers_def demo_devices_def uart_live_def)

end
