(* ===== verification/E1000.thy ===== *)
theory E1000
  imports Pci Pmm
begin

text \<open>
  The Intel e1000 network driver, \<^verbatim>\<open>drivers/e1000.c\<close>: register accesses, two rings of 32
  descriptors, and packet buffers that are pages of the physical allocator. Register writes are
  recorded in order; what a register reads, and how the card changes the status byte of a
  descriptor while the driver polls it, are parameters. Packet data is written to byte-addressed
  memory. The driver does not check the allocator for NULL, and the model does not either.
\<close>

section \<open>Registers, descriptors, state\<close>

definition REG_EEPROM :: u16 where "REG_EEPROM = 0x0014"
definition REG_RCTRL :: u16 where "REG_RCTRL = 0x0100"
definition REG_RXDESCLO :: u16 where "REG_RXDESCLO = 0x2800"
definition REG_RXDESCHI :: u16 where "REG_RXDESCHI = 0x2804"
definition REG_RXDESCLEN :: u16 where "REG_RXDESCLEN = 0x2808"
definition REG_RXDESCHEAD :: u16 where "REG_RXDESCHEAD = 0x2810"
definition REG_RXDESCTAIL :: u16 where "REG_RXDESCTAIL = 0x2818"
definition REG_TCTRL :: u16 where "REG_TCTRL = 0x0400"
definition REG_TXDESCLO :: u16 where "REG_TXDESCLO = 0x3800"
definition REG_TXDESCHI :: u16 where "REG_TXDESCHI = 0x3804"
definition REG_TXDESCLEN :: u16 where "REG_TXDESCLEN = 0x3808"
definition REG_TXDESCHEAD :: u16 where "REG_TXDESCHEAD = 0x3810"
definition REG_TXDESCTAIL :: u16 where "REG_TXDESCTAIL = 0x3818"

definition E1000_NUM_RX_DESC :: nat where "E1000_NUM_RX_DESC = 32"
definition E1000_NUM_TX_DESC :: nat where "E1000_NUM_TX_DESC = 32"

record rx_desc =
  rx_addr :: u64
  rx_length :: u16
  rx_checksum :: u16
  rx_status :: byte
  rx_errors :: byte
  rx_special :: u16

record tx_desc =
  tx_addr :: u64
  tx_length :: u16
  tx_cso :: byte
  tx_cmd :: byte
  tx_status :: byte
  tx_css :: byte
  tx_special :: u16

definition zero_rx :: rx_desc where
  "zero_rx = \<lparr>rx_addr = 0, rx_length = 0, rx_checksum = 0, rx_status = 0, rx_errors = 0, rx_special = 0\<rparr>"

definition zero_tx :: tx_desc where
  "zero_tx = \<lparr>tx_addr = 0, tx_length = 0, tx_cso = 0, tx_cmd = 0, tx_status = 0, tx_css = 0, tx_special = 0\<rparr>"

text \<open>A ring is \<^term>\<open>None\<close> while its pointer is NULL; otherwise its address and descriptors.\<close>

record e1000 =
  mmio_base :: u64
  mac_addr :: "byte list"
  rx_descs :: "(addr \<times> rx_desc list) option"
  tx_descs :: "(addr \<times> tx_desc list) option"
  rx_cur :: nat
  tx_cur :: nat
  reg_writes :: "(u16 \<times> u32) list"
  npages :: pmm
  nmem :: mem

definition write_reg :: "u16 \<Rightarrow> u32 \<Rightarrow> e1000 \<Rightarrow> e1000" where
  "write_reg reg val e = e\<lparr>reg_writes := reg_writes e @ [(reg, val)]\<rparr>"

definition write_bytes :: "mem \<Rightarrow> addr \<Rightarrow> byte list \<Rightarrow> mem" where
  "write_bytes m a bs = (\<lambda>x. if unat (x - a) < length bs then bs ! unat (x - a) else m x)"

text \<open>\<open>regs e n\<close> is the value of the EEPROM register at the \<open>n\<close>-th poll in state \<open>e\<close>.\<close>

partial_function (option) eeprom_wait :: "(nat \<Rightarrow> u32) \<Rightarrow> nat \<Rightarrow> u32 option" where
  "eeprom_wait seen n = (if seen n AND push_bit 4 1 \<noteq> 0 then Some (seen n) else eeprom_wait seen (Suc n))"

definition read_eeprom :: "(e1000 \<Rightarrow> nat \<Rightarrow> u32) \<Rightarrow> byte \<Rightarrow> e1000 \<Rightarrow> (u16 \<times> e1000) option" where
  "read_eeprom regs a e =
     (let e = write_reg REG_EEPROM (1 OR push_bit 8 (ucast a)) e in
      map_option (\<lambda>val. (ucast (drop_bit 16 val AND 0xFFFF), e)) (eeprom_wait (regs e) 0))"

text \<open>The loop that gives every receive descriptor a page.\<close>

fun fill_rx :: "nat \<Rightarrow> pmm \<Rightarrow> pmm \<times> rx_desc list" where
  "fill_rx 0 p = (p, [])"
| "fill_rx (Suc n) p =
     (let (p, ds) = fill_rx n p; (p, a) = pmm_alloc_page p
      in (p, ds @ [zero_rx\<lparr>rx_addr := a, rx_status := 0\<rparr>]))"

definition e1000_init ::
  "devices \<Rightarrow> (e1000 \<Rightarrow> nat \<Rightarrow> u32) \<Rightarrow> pci_device option \<Rightarrow> e1000 \<Rightarrow> io_trace \<Rightarrow> (bool \<times> e1000 \<times> io_trace) option" where
  "e1000_init dv regs pci_dev e t =
     (case pci_dev of
        None \<Rightarrow> Some (False, e, t)
      | Some d \<Rightarrow>
          (let (cmd, t) = pci_read_config dv (pci_bus d) (pci_slot d) (pci_func d) 0x04 t;
               t = pci_write_config (pci_bus d) (pci_slot d) (pci_func d) 0x04 (cmd OR 0x06) t;
               e = e\<lparr>mmio_base := ucast (bar d ! 0) AND NOT 0xF\<rparr> in
           Option.bind (read_eeprom regs 0 e) (\<lambda>(m0, e).
           Option.bind (read_eeprom regs 1 e) (\<lambda>(m1, e).
           Option.bind (read_eeprom regs 2 e) (\<lambda>(m2, e).
           let e = (if m0 \<noteq> 0xFFFF \<and> m1 \<noteq> 0xFFFF \<and> m2 \<noteq> 0xFFFF
                    then e\<lparr>mac_addr := [ucast (m0 AND 0xFF), ucast (drop_bit 8 m0), ucast (m1 AND 0xFF),
                                         ucast (drop_bit 8 m1), ucast (m2 AND 0xFF), ucast (drop_bit 8 m2)]\<rparr>
                    else e) in
           Option.bind (serial_printf dv (''e1000: Initialized at MMIO 0x%x, MAC: %x:%x:%x:%x:%x:%x'' @ [CHR 0x0A])
             (Ahex (mmio_base e) # map (\<lambda>b. Ahex (ucast b)) (mac_addr e)) t) (\<lambda>t.
           let (p, rx) = pmm_alloc_page (npages e);
               (p, tx) = pmm_alloc_page p;
               (p, rds) = fill_rx E1000_NUM_RX_DESC p;
               e = e\<lparr>npages := p, rx_descs := Some (rx, rds), tx_descs := Some (tx, replicate E1000_NUM_TX_DESC zero_tx)\<rparr>;
               e = write_reg REG_RXDESCLO (ucast rx) e;
               e = write_reg REG_RXDESCHI 0 e;
               e = write_reg REG_RXDESCLEN (word_of_nat (E1000_NUM_RX_DESC * 16)) e;
               e = write_reg REG_RXDESCHEAD 0 e;
               e = write_reg REG_RXDESCTAIL (word_of_nat (E1000_NUM_RX_DESC - 1)) e;
               e = write_reg REG_TXDESCLO (ucast tx) e;
               e = write_reg REG_TXDESCHI 0 e;
               e = write_reg REG_TXDESCLEN (word_of_nat (E1000_NUM_TX_DESC * 16)) e;
               e = write_reg REG_TXDESCHEAD 0 e;
               e = write_reg REG_TXDESCTAIL 0 e;
               e = write_reg REG_RCTRL (push_bit 1 1 OR push_bit 3 1 OR push_bit 4 1 OR push_bit 15 1) e;
               e = write_reg REG_TCTRL (push_bit 1 1 OR push_bit 3 1 OR push_bit 4 0xF OR push_bit 12 0x40) e
           in Some (True, e, t)))))))"

text \<open>Polling the status of the descriptor just handed over: \<open>status n\<close> is what the \<open>n\<close>-th poll
  reads.\<close>

partial_function (option) tx_wait :: "(nat \<Rightarrow> byte) \<Rightarrow> nat \<Rightarrow> byte option" where
  "tx_wait status n = (if status n AND 0xFF \<noteq> 0 then Some (status n) else tx_wait status (Suc n))"

definition tx_buffer :: "e1000 \<Rightarrow> tx_desc \<Rightarrow> e1000 \<times> addr" where
  "tx_buffer e d =
     (if tx_addr d = 0 then (case pmm_alloc_page (npages e) of (p, a) \<Rightarrow> (e\<lparr>npages := p\<rparr>, a))
      else (e, tx_addr d))"

definition e1000_send_packet :: "(e1000 \<Rightarrow> nat \<Rightarrow> byte) \<Rightarrow> byte list \<Rightarrow> u16 \<Rightarrow> e1000 \<Rightarrow> (int \<times> e1000) option" where
  "e1000_send_packet status packet len e =
     (case tx_descs e of
        None \<Rightarrow> Some (-1, e)
      | Some (ring, ds) \<Rightarrow>
          (let cur = tx_cur e; d = ds ! cur;
               (e, buf) = tx_buffer e d;
               e = e\<lparr>nmem := write_bytes (nmem e) buf (take (unat len) packet)\<rparr>;
               d = d\<lparr>tx_addr := buf, tx_length := len, tx_cmd := 1 OR 2 OR 8, tx_status := 0\<rparr>;
               e = e\<lparr>tx_descs := Some (ring, ds[cur := d]), tx_cur := (cur + 1) mod E1000_NUM_TX_DESC\<rparr>;
               e = write_reg REG_TXDESCTAIL (word_of_nat (tx_cur e)) e in
           map_option (\<lambda>st. (uint len, e\<lparr>tx_descs := Some (ring, ds[cur := d\<lparr>tx_status := st\<rparr>])\<rparr>))
             (tx_wait (status e) 0)))"

definition e1000_receive_packet :: "u16 \<Rightarrow> e1000 \<Rightarrow> int \<times> byte list \<times> e1000" where
  "e1000_receive_packet max_length e =
     (case rx_descs e of
        None \<Rightarrow> (-1, [], e)
      | Some (ring, ds) \<Rightarrow>
          (let cur = rx_cur e; d = ds ! cur in
           if rx_status d AND 0x01 = 0 then (0, [], e)
           else
             let len = (if rx_length d > max_length then max_length else rx_length d);
                 data = map (\<lambda>i. nmem e (rx_addr d + word_of_nat i)) [0..<unat len];
                 e = e\<lparr>rx_descs := Some (ring, ds[cur := d\<lparr>rx_status := 0\<rparr>]),
                       rx_cur := (cur + 1) mod E1000_NUM_RX_DESC\<rparr>;
                 e = write_reg REG_RXDESCTAIL (word_of_nat cur) e
             in (uint len, data, e)))"

definition e1000_get_mac :: "e1000 \<Rightarrow> byte list" where
  "e1000_get_mac e = mac_addr e"

section \<open>Invariant of the transmit ring\<close>

text \<open>The ring has 32 descriptors, the current one is among them, and the pages that descriptors
  own are pairwise different and no longer available to the allocator.\<close>

definition tx_owned :: "tx_desc list \<Rightarrow> addr list" where
  "tx_owned ds = filter (\<lambda>a. a \<noteq> 0) (map tx_addr ds)"

definition tx_ok :: "e1000 \<Rightarrow> bool" where
  "tx_ok e \<longleftrightarrow> tx_cur e < 32 \<and> pmm_ready (npages e) \<and>
     (\<forall>ring ds. tx_descs e = Some (ring, ds) \<longrightarrow> length ds = 32 \<and> distinct (tx_owned ds) \<and>
        (\<forall>a \<in> set (tx_owned ds). unat a mod 4096 = 0 \<and> a \<notin> pmm_avail (npages e)))"

lemma tx_wait_ends: "status (n + k) AND 0xFF \<noteq> 0 \<Longrightarrow> \<exists>st. tx_wait status n = Some st"
proof (induction k arbitrary: n)
  case 0
  then show ?case by (subst tx_wait.simps) simp
next
  case (Suc k)
  then show ?case by (subst tx_wait.simps) simp
qed

lemma distinct_map_update:
  assumes "distinct (filter P (map f xs))" "i < length xs"
    and "P (f y) \<Longrightarrow> \<forall>j < length xs. j \<noteq> i \<longrightarrow> f (xs ! j) \<noteq> f y"
  shows "distinct (filter P (map f (xs[i := y])))"
proof -
  have eq: "xs = take i xs @ xs ! i # drop (Suc i) xs" using assms(2) by (simp add: id_take_nth_drop)
  have up: "xs[i := y] = take i xs @ y # drop (Suc i) xs" using assms(2) by (simp add: upd_conv_take_nth_drop)
  have "distinct (filter P (map f (take i xs)) @ filter P (map f (drop (Suc i) xs)))"
    using assms(1) by (subst (asm) eq) (auto split: if_splits)
  moreover have "f y \<notin> f ` set (take i xs) \<union> f ` set (drop (Suc i) xs)" if "P (f y)"
  proof
    assume "f y \<in> f ` set (take i xs) \<union> f ` set (drop (Suc i) xs)"
    then obtain x where x: "x \<in> set (take i xs) \<union> set (drop (Suc i) xs)" "f y = f x" by auto
    have "\<exists>j < length xs. j \<noteq> i \<and> x = xs ! j"
    proof (cases "x \<in> set (take i xs)")
      case True
      then obtain k where "k < i" "x = xs ! k" by (auto simp: in_set_conv_nth)
      with assms(2) show ?thesis by (intro exI [of _ k]) auto
    next
      case False
      with x(1) obtain k where "k < length xs - Suc i" "x = xs ! Suc (i + k)" by (auto simp: in_set_conv_nth)
      then show ?thesis by (intro exI [of _ "Suc (i + k)"]) auto
    qed
    then obtain j where "j < length xs" "j \<noteq> i" "x = xs ! j" by blast
    with assms(3) that x(2) show False by auto
  qed
  ultimately show ?thesis unfolding up by auto
qed

text \<open>Where the packet goes, and the state with that page taken.\<close>

lemma tx_buffer_spec:
  assumes ok: "tx_ok e" and d: "tx_descs e = Some (ring, ds)" and b: "tx_buffer e (ds ! tx_cur e) = (e1, buf)"
  shows "tx_descs e1 = tx_descs e" "tx_cur e1 = tx_cur e" "nmem e1 = nmem e" "pmm_ready (npages e1)"
    and "pmm_avail (npages e1) \<subseteq> pmm_avail (npages e)"
    and "buf \<noteq> 0 \<Longrightarrow> unat buf mod 4096 = 0 \<and> buf \<notin> pmm_avail (npages e1) \<and>
      (\<forall>j < 32. j \<noteq> tx_cur e \<longrightarrow> tx_addr (ds ! j) \<noteq> buf)"
proof -
  have len: "length ds = 32" and cur: "tx_cur e < 32" and rd: "pmm_ready (npages e)"
    and own: "distinct (tx_owned ds)" "\<forall>a \<in> set (tx_owned ds). unat a mod 4096 = 0 \<and> a \<notin> pmm_avail (npages e)"
    using ok d by (auto simp: tx_ok_def)
  have others: "tx_addr (ds ! j) \<in> set (tx_owned ds)" if "j < 32" "tx_addr (ds ! j) \<noteq> 0" for j
    using that len by (auto simp: tx_owned_def)
  have all: "tx_descs e1 = tx_descs e \<and> tx_cur e1 = tx_cur e \<and> nmem e1 = nmem e \<and> pmm_ready (npages e1) \<and>
    pmm_avail (npages e1) \<subseteq> pmm_avail (npages e) \<and>
    (buf \<noteq> 0 \<longrightarrow> unat buf mod 4096 = 0 \<and> buf \<notin> pmm_avail (npages e1) \<and>
      (\<forall>j < 32. j \<noteq> tx_cur e \<longrightarrow> tx_addr (ds ! j) \<noteq> buf))"
  proof (cases "tx_addr (ds ! tx_cur e) = 0")
    case True
    obtain p a where p: "pmm_alloc_page (npages e) = (p, a)" by fastforce
    with b True have e1: "e1 = e\<lparr>npages := p\<rparr>" "buf = a" by (auto simp: tx_buffer_def)
    have al: "pmm_ready p \<and> pmm_avail p = pmm_avail (npages e) - {a} \<and> (a = 0 \<longleftrightarrow> pmm_avail (npages e) = {})"
      by (rule pmm.alloc_cases [OF rd p])
    have "a \<noteq> 0 \<Longrightarrow> a \<in> pmm_avail (npages e)" using pmm.alloc_page [OF rd p] by simp
    with al pmm.page_aligned [OF rd, of a] own(2) others show ?thesis by (auto simp: e1)
  next
    case False
    with b have e1: "e1 = e" "buf = tx_addr (ds ! tx_cur e)" by (auto simp: tx_buffer_def)
    have "tx_addr (ds ! j) \<noteq> buf" if "j < 32" "j \<noteq> tx_cur e" for j
    proof
      assume eq: "tx_addr (ds ! j) = buf"
      have "i < length xs \<Longrightarrow> j < length xs \<Longrightarrow> i < j \<Longrightarrow> P (xs ! i) \<Longrightarrow> xs ! i = xs ! j \<Longrightarrow> \<not> distinct (filter P xs)"
        for i j P and xs :: "addr list"
      proof (induction xs arbitrary: i j)
        case (Cons x xs)
        then obtain j' where j': "j = Suc j'" by (cases j) auto
        show ?case
        proof (cases i)
          case 0
          then have "x = xs ! j'" "P x" "j' < length xs" using Cons.prems j' by auto
          then show ?thesis by (auto simp: in_set_conv_nth)
        next
          case (Suc i')
          then show ?thesis using Cons.IH [of i' j'] Cons.prems j' by auto
        qed
      qed simp
      from this [of "min j (tx_cur e)" "map tx_addr ds" "max j (tx_cur e)" "\<lambda>a. a \<noteq> 0"]
      show False using own(1) that eq e1(2) False len cur by (auto simp: tx_owned_def min_def max_def split: if_splits)
    qed
    with own(2) others [OF cur] False rd show ?thesis by (auto simp: e1)
  qed
  then show "tx_descs e1 = tx_descs e" "tx_cur e1 = tx_cur e" "nmem e1 = nmem e" "pmm_ready (npages e1)"
    "pmm_avail (npages e1) \<subseteq> pmm_avail (npages e)"
    "buf \<noteq> 0 \<Longrightarrow> unat buf mod 4096 = 0 \<and> buf \<notin> pmm_avail (npages e1) \<and>
      (\<forall>j < 32. j \<noteq> tx_cur e \<longrightarrow> tx_addr (ds ! j) \<noteq> buf)" by auto
qed

lemma tx_owned_update:
  assumes "length ds = 32" "i < 32" "distinct (tx_owned ds)"
    and "tx_addr d \<noteq> 0 \<Longrightarrow> \<forall>j < 32. j \<noteq> i \<longrightarrow> tx_addr (ds ! j) \<noteq> tx_addr d"
  shows "distinct (tx_owned (ds[i := d]))" "set (tx_owned (ds[i := d])) \<subseteq> insert (tx_addr d) (set (tx_owned ds))"
proof -
  show "distinct (tx_owned (ds[i := d]))"
    unfolding tx_owned_def using assms by (intro distinct_map_update) (auto simp: tx_owned_def)
  show "set (tx_owned (ds[i := d])) \<subseteq> insert (tx_addr d) (set (tx_owned ds))"
    using set_update_subset_insert [of ds i d] by (auto simp: tx_owned_def)
qed


definition demo_nic :: e1000 where
  "demo_nic = \<lparr>mmio_base = 0xFEB80000, mac_addr = [0x52, 0x54, 0, 0x12, 0x34, 0x56], rx_descs = None,
     tx_descs = Some (0x2000, replicate 32 zero_tx), rx_cur = 0, tx_cur = 31, reg_writes = [],
     npages = pmm_boot, nmem = (\<lambda>_. 0)\<rparr>"

lemma demo_nic_ok: "tx_ok demo_nic"
  using pmm_boot_free(3) by (simp add: tx_ok_def demo_nic_def tx_owned_def zero_tx_def)


end
