(* ===== verification/Framebuffer.thy ===== *)
theory Framebuffer
  imports Prelude
begin

text \<open>
  The framebuffer console, \<^verbatim>\<open>drivers/framebuffer.c\<close> and \<^verbatim>\<open>include/framebuffer.h\<close>: pixels,
  rectangles, the 8x16 font, the text cursor with its scrolling, and boxes. The pixel memory is a
  map from 32-bit pixel indices (relative to \<^verbatim>\<open>fb_addr\<close>) to colours; the index arithmetic is the
  32-bit one of the code. Shown: what a character paints, that no operation writes outside the
  buffer, that printing keeps the cursor on the screen, and what the erase sequence of the line
  editor does to the cursor.
\<close>

definition COLOR_BLACK :: u32 where "COLOR_BLACK = 0x00000000"
definition COLOR_BLUE :: u32 where "COLOR_BLUE = 0x000000AA"
definition COLOR_CYAN :: u32 where "COLOR_CYAN = 0x0000AAAA"
definition COLOR_RED :: u32 where "COLOR_RED = 0x00AA0000"
definition COLOR_LIGHT_GRAY :: u32 where "COLOR_LIGHT_GRAY = 0x00AAAAAA"
definition COLOR_LIGHT_GREEN :: u32 where "COLOR_LIGHT_GREEN = 0x0055FF55"
definition COLOR_LIGHT_CYAN :: u32 where "COLOR_LIGHT_CYAN = 0x0055FFFF"
definition COLOR_LIGHT_RED :: u32 where "COLOR_LIGHT_RED = 0x00FF5555"
definition COLOR_YELLOW :: u32 where "COLOR_YELLOW = 0x00FFFF55"
definition COLOR_WHITE :: u32 where "COLOR_WHITE = 0x00FFFFFF"

record fb =
  fb_addr :: addr
  fb_pixels :: "nat \<Rightarrow> u32"
  fb_w :: u32
  fb_h :: u32
  fb_pitch :: u32
  fb_bpp :: u16
  cursor_x :: u32
  cursor_y :: u32

section \<open>Pixels and rectangles\<close>

definition set_pixel :: "fb \<Rightarrow> u32 \<Rightarrow> u32 \<Rightarrow> u32 \<Rightarrow> fb" where
  "set_pixel s x y color =
     s\<lparr>fb_pixels := (fb_pixels s)(unat (y * (fb_pitch s div 4) + x) := color)\<rparr>"

definition fb_put_pixel :: "fb \<Rightarrow> u32 \<Rightarrow> u32 \<Rightarrow> u32 \<Rightarrow> fb" where
  "fb_put_pixel s x y color =
     (if fb_addr s = 0 \<or> x \<ge> fb_w s \<or> y \<ge> fb_h s then s else set_pixel s x y color)"

lemma next_unat: "c < (n :: u32) \<Longrightarrow> unat (c + 1) = Suc (unat c)"
  using unsigned_less [of n, where 'a = nat]
  by (simp add: word_less_nat_alt unat_plus_if')

function fill_cols :: "fb \<Rightarrow> u32 \<Rightarrow> u32 \<Rightarrow> u32 \<Rightarrow> u32 \<Rightarrow> u32 \<Rightarrow> fb" where
  "fill_cols s x row cx width color =
     (if cx < width \<and> x + cx < fb_w s
      then fill_cols (set_pixel s (x + cx) row color) x row (cx + 1) width color
      else s)"
  by pat_completeness auto
termination
  by (relation "measure (\<lambda>(s, x, r, cx, width, c). unat width - unat cx)")
    (auto simp: next_unat word_less_nat_alt)

function fill_rows :: "fb \<Rightarrow> u32 \<Rightarrow> u32 \<Rightarrow> u32 \<Rightarrow> u32 \<Rightarrow> u32 \<Rightarrow> u32 \<Rightarrow> fb" where
  "fill_rows s x y cy width height color =
     (if cy < height \<and> y + cy < fb_h s
      then fill_rows (fill_cols s x (y + cy) 0 width color) x y (cy + 1) width height color
      else s)"
  by pat_completeness auto
termination
  by (relation "measure (\<lambda>(s, x, y, cy, width, height, c). unat height - unat cy)")
    (auto simp: next_unat word_less_nat_alt)

declare fill_cols.simps [simp del] fill_rows.simps [simp del]

definition fb_fill_rect :: "fb \<Rightarrow> u32 \<Rightarrow> u32 \<Rightarrow> u32 \<Rightarrow> u32 \<Rightarrow> u32 \<Rightarrow> fb" where
  "fb_fill_rect s x y width height color =
     (if fb_addr s = 0 then s else fill_rows s x y 0 width height color)"

definition fb_clear :: "fb \<Rightarrow> u32 \<Rightarrow> fb" where
  "fb_clear s color = (fb_fill_rect s 0 0 (fb_w s) (fb_h s) color)\<lparr>cursor_x := 0, cursor_y := 0\<rparr>"

definition fb_init :: "fb \<Rightarrow> addr \<Rightarrow> u32 \<Rightarrow> u32 \<Rightarrow> u32 \<Rightarrow> u16 \<Rightarrow> fb" where
  "fb_init s addr width height pitch bpp =
     fb_clear (s\<lparr>fb_addr := addr, fb_w := width, fb_h := height, fb_pitch := pitch, fb_bpp := bpp,
       cursor_x := 0, cursor_y := 0\<rparr>) COLOR_BLACK"

definition fb_get_width :: "fb \<Rightarrow> u32" where "fb_get_width s = fb_w s"
definition fb_get_height :: "fb \<Rightarrow> u32" where "fb_get_height s = fb_h s"
definition fb_get_buffer :: "fb \<Rightarrow> addr" where "fb_get_buffer s = fb_addr s"

section \<open>Characters\<close>

definition font8x16 :: "byte list list" where
  "font8x16 = [
    [0x00, 0x00, 0x00, 0x00, 0x00, 0x00, 0x00, 0x00, 0x00, 0x00, 0x00, 0x00, 0x00, 0x00, 0x00, 0x00],
    [0x00, 0x00, 0x18, 0x3C, 0x3C, 0x3C, 0x18, 0x18, 0x18, 0x00, 0x18, 0x18, 0x00, 0x00, 0x00, 0x00],
    [0x00, 0x66, 0x66, 0x24, 0x00, 0x00, 0x00, 0x00, 0x00, 0x00, 0x00, 0x00, 0x00, 0x00, 0x00, 0x00],
    [0x00, 0x00, 0x6C, 0x6C, 0xFE, 0x6C, 0x6C, 0x6C, 0xFE, 0x6C, 0x6C, 0x00, 0x00, 0x00, 0x00, 0x00],
    [0x18, 0x18, 0x7C, 0xC6, 0xC2, 0xC0, 0x7C, 0x06, 0x06, 0x86, 0xC6, 0x7C, 0x18, 0x18, 0x00, 0x00],
    [0x00, 0x00, 0x00, 0x00, 0xC2, 0xC6, 0x0C, 0x18, 0x30, 0x60, 0xC6, 0x86, 0x00, 0x00, 0x00, 0x00],
    [0x00, 0x00, 0x38, 0x6C, 0x68, 0x70, 0x38, 0x6E, 0xDC, 0xCC, 0xCE, 0x7B, 0x00, 0x00, 0x00, 0x00],
    [0x00, 0x18, 0x18, 0x30, 0x00, 0x00, 0x00, 0x00, 0x00, 0x00, 0x00, 0x00, 0x00, 0x00, 0x00, 0x00],
    [0x00, 0x0C, 0x18, 0x30, 0x30, 0x60, 0x60, 0x60, 0x60, 0x30, 0x30, 0x18, 0x0C, 0x00, 0x00, 0x00],
    [0x00, 0x30, 0x18, 0x0C, 0x0C, 0x06, 0x06, 0x06, 0x06, 0x0C, 0x0C, 0x18, 0x30, 0x00, 0x00, 0x00],
    [0x00, 0x00, 0x00, 0x66, 0x3C, 0xFF, 0x3C, 0x66, 0x00, 0x00, 0x00, 0x00, 0x00, 0x00, 0x00, 0x00],
    [0x00, 0x00, 0x00, 0x18, 0x18, 0x7E, 0x18, 0x18, 0x00, 0x00, 0x00, 0x00, 0x00, 0x00, 0x00, 0x00],
    [0x00, 0x00, 0x00, 0x00, 0x00, 0x00, 0x00, 0x00, 0x00, 0x18, 0x18, 0x18, 0x30, 0x00, 0x00, 0x00],
    [0x00, 0x00, 0x00, 0x00, 0x00, 0xFE, 0x00, 0x00, 0x00, 0x00, 0x00, 0x00, 0x00, 0x00, 0x00, 0x00],
    [0x00, 0x00, 0x00, 0x00, 0x00, 0x00, 0x00, 0x00, 0x00, 0x00, 0x18, 0x18, 0x00, 0x00, 0x00, 0x00],
    [0x00, 0x00, 0x02, 0x06, 0x0C, 0x18, 0x30, 0x60, 0xC0, 0x80, 0x00, 0x00, 0x00, 0x00, 0x00, 0x00],
    [0x00, 0x00, 0x7C, 0xC6, 0xCE, 0xDE, 0xF6, 0xE6, 0xC6, 0xC6, 0x7C, 0x00, 0x00, 0x00, 0x00, 0x00],
    [0x00, 0x00, 0x18, 0x38, 0x78, 0x18, 0x18, 0x18, 0x18, 0x18, 0x7E, 0x00, 0x00, 0x00, 0x00, 0x00],
    [0x00, 0x00, 0x7C, 0xC6, 0x06, 0x0C, 0x18, 0x30, 0x60, 0xC0, 0xFE, 0x00, 0x00, 0x00, 0x00, 0x00],
    [0x00, 0x00, 0x7C, 0xC6, 0x06, 0x06, 0x3C, 0x06, 0x06, 0xC6, 0x7C, 0x00, 0x00, 0x00, 0x00, 0x00],
    [0x00, 0x00, 0x0C, 0x1C, 0x3C, 0x6C, 0xCC, 0xFE, 0x0C, 0x0C, 0x1E, 0x00, 0x00, 0x00, 0x00, 0x00],
    [0x00, 0x00, 0xFE, 0xC0, 0xC0, 0xFC, 0x06, 0x06, 0x06, 0xC6, 0x7C, 0x00, 0x00, 0x00, 0x00, 0x00],
    [0x00, 0x00, 0x38, 0x60, 0xC0, 0xFC, 0xC6, 0xC6, 0xC6, 0xC6, 0x7C, 0x00, 0x00, 0x00, 0x00, 0x00],
    [0x00, 0x00, 0xFE, 0xC6, 0x06, 0x0C, 0x18, 0x30, 0x30, 0x30, 0x30, 0x00, 0x00, 0x00, 0x00, 0x00],
    [0x00, 0x00, 0x7C, 0xC6, 0xC6, 0xC6, 0x7C, 0xC6, 0xC6, 0xC6, 0x7C, 0x00, 0x00, 0x00, 0x00, 0x00],
    [0x00, 0x00, 0x7C, 0xC6, 0xC6, 0xC6, 0x7E, 0x06, 0x06, 0x0C, 0x78, 0x00, 0x00, 0x00, 0x00, 0x00],
    [0x00, 0x00, 0x00, 0x18, 0x18, 0x00, 0x00, 0x00, 0x18, 0x18, 0x00, 0x00, 0x00, 0x00, 0x00, 0x00],
    [0x00, 0x00, 0x00, 0x18, 0x18, 0x00, 0x00, 0x00, 0x18, 0x18, 0x18, 0x30, 0x00, 0x00, 0x00, 0x00],
    [0x00, 0x06, 0x0C, 0x18, 0x30, 0x60, 0x30, 0x18, 0x0C, 0x06, 0x00, 0x00, 0x00, 0x00, 0x00, 0x00],
    [0x00, 0x00, 0x00, 0x00, 0xFE, 0x00, 0xFE, 0x00, 0x00, 0x00, 0x00, 0x00, 0x00, 0x00, 0x00, 0x00],
    [0x00, 0x60, 0x30, 0x18, 0x0C, 0x06, 0x0C, 0x18, 0x30, 0x60, 0x00, 0x00, 0x00, 0x00, 0x00, 0x00],
    [0x00, 0x00, 0x7C, 0xC6, 0x0C, 0x18, 0x18, 0x18, 0x00, 0x18, 0x18, 0x00, 0x00, 0x00, 0x00, 0x00],
    [0x00, 0x00, 0x7C, 0xC6, 0xDE, 0xDE, 0xDE, 0xDC, 0xC0, 0xC2, 0x7C, 0x00, 0x00, 0x00, 0x00, 0x00],
    [0x00, 0x00, 0x18, 0x3C, 0x66, 0x66, 0x7E, 0x66, 0x66, 0x66, 0x66, 0x00, 0x00, 0x00, 0x00, 0x00],
    [0x00, 0x00, 0xFC, 0x66, 0x66, 0x7C, 0x66, 0x66, 0x66, 0x66, 0xFC, 0x00, 0x00, 0x00, 0x00, 0x00],
    [0x00, 0x00, 0x3C, 0x66, 0xC2, 0xC0, 0xC0, 0xC0, 0xC2, 0x66, 0x3C, 0x00, 0x00, 0x00, 0x00, 0x00],
    [0x00, 0x00, 0xF8, 0x6C, 0x66, 0x66, 0x66, 0x66, 0x66, 0x6C, 0xF8, 0x00, 0x00, 0x00, 0x00, 0x00],
    [0x00, 0x00, 0xFE, 0x66, 0x62, 0x68, 0x78, 0x68, 0x62, 0x66, 0xFE, 0x00, 0x00, 0x00, 0x00, 0x00],
    [0x00, 0x00, 0xFE, 0x66, 0x62, 0x68, 0x78, 0x68, 0x60, 0x60, 0xF0, 0x00, 0x00, 0x00, 0x00, 0x00],
    [0x00, 0x00, 0x3C, 0x66, 0xC2, 0xC0, 0xC0, 0xDE, 0xC6, 0x66, 0x3E, 0x00, 0x00, 0x00, 0x00, 0x00],
    [0x00, 0x00, 0x66, 0x66, 0x66, 0x7E, 0x66, 0x66, 0x66, 0x66, 0x66, 0x00, 0x00, 0x00, 0x00, 0x00],
    [0x00, 0x00, 0x7E, 0x18, 0x18, 0x18, 0x18, 0x18, 0x18, 0x18, 0x7E, 0x00, 0x00, 0x00, 0x00, 0x00],
    [0x00, 0x00, 0x1E, 0x0C, 0x0C, 0x0C, 0x0C, 0x0C, 0xCC, 0xCC, 0x78, 0x00, 0x00, 0x00, 0x00, 0x00],
    [0x00, 0x00, 0xE6, 0x66, 0x6C, 0x68, 0x78, 0x6C, 0x66, 0x66, 0xE6, 0x00, 0x00, 0x00, 0x00, 0x00],
    [0x00, 0x00, 0xF0, 0x60, 0x60, 0x60, 0x60, 0x60, 0x62, 0x66, 0xFE, 0x00, 0x00, 0x00, 0x00, 0x00],
    [0x00, 0x00, 0xC6, 0xEE, 0xFE, 0xFE, 0xD6, 0xC6, 0xC6, 0xC6, 0xC6, 0x00, 0x00, 0x00, 0x00, 0x00],
    [0x00, 0x00, 0xC6, 0xE6, 0xF6, 0xFE, 0xDE, 0xCE, 0xC6, 0xC6, 0xC6, 0x00, 0x00, 0x00, 0x00, 0x00],
    [0x00, 0x00, 0x7C, 0xC6, 0xC6, 0xC6, 0xC6, 0xC6, 0xC6, 0xC6, 0x7C, 0x00, 0x00, 0x00, 0x00, 0x00],
    [0x00, 0x00, 0xFC, 0x66, 0x66, 0x7C, 0x60, 0x60, 0x60, 0x60, 0xF0, 0x00, 0x00, 0x00, 0x00, 0x00],
    [0x00, 0x00, 0x7C, 0xC6, 0xC6, 0xC6, 0xC6, 0xC6, 0xD6, 0xDE, 0x7C, 0x0C, 0x0E, 0x00, 0x00, 0x00],
    [0x00, 0x00, 0xFC, 0x66, 0x66, 0x7C, 0x6C, 0x66, 0x66, 0x66, 0xE6, 0x00, 0x00, 0x00, 0x00, 0x00],
    [0x00, 0x00, 0x7C, 0xC6, 0x60, 0x38, 0x0C, 0x06, 0x06, 0xC6, 0x7C, 0x00, 0x00, 0x00, 0x00, 0x00],
    [0x00, 0x00, 0x7E, 0x7E, 0x5A, 0x18, 0x18, 0x18, 0x18, 0x18, 0x3C, 0x00, 0x00, 0x00, 0x00, 0x00],
    [0x00, 0x00, 0xC6, 0xC6, 0xC6, 0xC6, 0xC6, 0xC6, 0xC6, 0xC6, 0x7C, 0x00, 0x00, 0x00, 0x00, 0x00],
    [0x00, 0x00, 0xC6, 0xC6, 0xC6, 0xC6, 0xC6, 0x6C, 0x6C, 0x38, 0x10, 0x00, 0x00, 0x00, 0x00, 0x00],
    [0x00, 0x00, 0xC6, 0xC6, 0xC6, 0xD6, 0xD6, 0xFE, 0xFE, 0xEE, 0x6C, 0x00, 0x00, 0x00, 0x00, 0x00],
    [0x00, 0x00, 0xC6, 0xC6, 0x6C, 0x38, 0x38, 0x6C, 0xC6, 0xC6, 0xC6, 0x00, 0x00, 0x00, 0x00, 0x00],
    [0x00, 0x00, 0x66, 0x66, 0x66, 0x66, 0x3C, 0x18, 0x18, 0x18, 0x3C, 0x00, 0x00, 0x00, 0x00, 0x00],
    [0x00, 0x00, 0xFE, 0xC6, 0x8C, 0x18, 0x30, 0x60, 0xC2, 0xC6, 0xFE, 0x00, 0x00, 0x00, 0x00, 0x00],
    [0x00, 0x3C, 0x30, 0x30, 0x30, 0x30, 0x30, 0x30, 0x30, 0x30, 0x30, 0x30, 0x3C, 0x00, 0x00, 0x00],
    [0x00, 0x00, 0x80, 0xC0, 0x60, 0x30, 0x18, 0x0C, 0x06, 0x02, 0x00, 0x00, 0x00, 0x00, 0x00, 0x00],
    [0x00, 0x3C, 0x0C, 0x0C, 0x0C, 0x0C, 0x0C, 0x0C, 0x0C, 0x0C, 0x0C, 0x0C, 0x3C, 0x00, 0x00, 0x00],
    [0x00, 0x10, 0x38, 0x6C, 0xC6, 0x00, 0x00, 0x00, 0x00, 0x00, 0x00, 0x00, 0x00, 0x00, 0x00, 0x00],
    [0x00, 0x00, 0x00, 0x00, 0x00, 0x00, 0x00, 0x00, 0x00, 0x00, 0x00, 0x00, 0xFF, 0x00, 0x00, 0x00],
    [0x00, 0x30, 0x18, 0x0C, 0x00, 0x00, 0x00, 0x00, 0x00, 0x00, 0x00, 0x00, 0x00, 0x00, 0x00, 0x00],
    [0x00, 0x00, 0x00, 0x00, 0x78, 0x0C, 0x7C, 0xCC, 0xCC, 0xCC, 0x76, 0x00, 0x00, 0x00, 0x00, 0x00],
    [0x00, 0x00, 0xE0, 0x60, 0x60, 0x7C, 0x66, 0x66, 0x66, 0x66, 0xDC, 0x00, 0x00, 0x00, 0x00, 0x00],
    [0x00, 0x00, 0x00, 0x00, 0x78, 0xCC, 0xC0, 0xC0, 0xC0, 0xCC, 0x78, 0x00, 0x00, 0x00, 0x00, 0x00],
    [0x00, 0x00, 0x1C, 0x0C, 0x0C, 0x7C, 0xCC, 0xCC, 0xCC, 0xCC, 0x76, 0x00, 0x00, 0x00, 0x00, 0x00],
    [0x00, 0x00, 0x00, 0x00, 0x78, 0xCC, 0xFC, 0xC0, 0xC0, 0xCC, 0x78, 0x00, 0x00, 0x00, 0x00, 0x00],
    [0x00, 0x00, 0x38, 0x6C, 0x64, 0x60, 0xF0, 0x60, 0x60, 0x60, 0xF0, 0x00, 0x00, 0x00, 0x00, 0x00],
    [0x00, 0x00, 0x00, 0x00, 0x76, 0xCC, 0xCC, 0xCC, 0x7C, 0x0C, 0xCC, 0x78, 0x00, 0x00, 0x00, 0x00],
    [0x00, 0x00, 0xE0, 0x60, 0x60, 0x6C, 0x76, 0x66, 0x66, 0x66, 0xE6, 0x00, 0x00, 0x00, 0x00, 0x00],
    [0x00, 0x00, 0x18, 0x18, 0x00, 0x78, 0x18, 0x18, 0x18, 0x18, 0x7E, 0x00, 0x00, 0x00, 0x00, 0x00],
    [0x00, 0x00, 0x0C, 0x0C, 0x00, 0x3C, 0x0C, 0x0C, 0x0C, 0x0C, 0xCC, 0x78, 0x00, 0x00, 0x00, 0x00],
    [0x00, 0x00, 0xE0, 0x60, 0x60, 0x66, 0x6C, 0x78, 0x6C, 0x66, 0xE6, 0x00, 0x00, 0x00, 0x00, 0x00],
    [0x00, 0x00, 0x78, 0x18, 0x18, 0x18, 0x18, 0x18, 0x18, 0x18, 0x7E, 0x00, 0x00, 0x00, 0x00, 0x00],
    [0x00, 0x00, 0x00, 0x00, 0xFE, 0xD6, 0xD6, 0xD6, 0xD6, 0xD6, 0xD6, 0x00, 0x00, 0x00, 0x00, 0x00],
    [0x00, 0x00, 0x00, 0x00, 0xDC, 0x66, 0x66, 0x66, 0x66, 0x66, 0x66, 0x00, 0x00, 0x00, 0x00, 0x00],
    [0x00, 0x00, 0x00, 0x00, 0x78, 0xCC, 0xCC, 0xCC, 0xCC, 0xCC, 0x78, 0x00, 0x00, 0x00, 0x00, 0x00],
    [0x00, 0x00, 0x00, 0x00, 0xDC, 0x66, 0x66, 0x7C, 0x60, 0x60, 0xF0, 0x00, 0x00, 0x00, 0x00, 0x00],
    [0x00, 0x00, 0x00, 0x00, 0x76, 0xCC, 0xCC, 0x7C, 0x0C, 0x0C, 0x1E, 0x00, 0x00, 0x00, 0x00, 0x00],
    [0x00, 0x00, 0x00, 0x00, 0xDC, 0x76, 0x66, 0x60, 0x60, 0x60, 0xF0, 0x00, 0x00, 0x00, 0x00, 0x00],
    [0x00, 0x00, 0x00, 0x00, 0x7C, 0xC6, 0x70, 0x1C, 0x06, 0xC6, 0x7C, 0x00, 0x00, 0x00, 0x00, 0x00],
    [0x00, 0x00, 0x10, 0x30, 0xFC, 0x30, 0x30, 0x30, 0x30, 0x34, 0x18, 0x00, 0x00, 0x00, 0x00, 0x00],
    [0x00, 0x00, 0x00, 0x00, 0xCC, 0xCC, 0xCC, 0xCC, 0xCC, 0xCC, 0x76, 0x00, 0x00, 0x00, 0x00, 0x00],
    [0x00, 0x00, 0x00, 0x00, 0xC6, 0xC6, 0xC6, 0xC6, 0x6C, 0x38, 0x10, 0x00, 0x00, 0x00, 0x00, 0x00],
    [0x00, 0x00, 0x00, 0x00, 0xC6, 0xC6, 0xD6, 0xD6, 0xFE, 0xEE, 0x6C, 0x00, 0x00, 0x00, 0x00, 0x00],
    [0x00, 0x00, 0x00, 0x00, 0xC6, 0x6C, 0x38, 0x38, 0x6C, 0xC6, 0xC6, 0x00, 0x00, 0x00, 0x00, 0x00],
    [0x00, 0x00, 0x00, 0x00, 0xC6, 0xC6, 0xC6, 0xC6, 0x7E, 0x06, 0x0C, 0x78, 0x00, 0x00, 0x00, 0x00],
    [0x00, 0x00, 0x00, 0x00, 0xFC, 0x8C, 0x18, 0x30, 0x60, 0xC2, 0xFC, 0x00, 0x00, 0x00, 0x00, 0x00],
    [0x00, 0x0E, 0x18, 0x18, 0x18, 0x70, 0x18, 0x18, 0x18, 0x18, 0x0E, 0x00, 0x00, 0x00, 0x00, 0x00],
    [0x00, 0x18, 0x18, 0x18, 0x18, 0x18, 0x18, 0x18, 0x18, 0x18, 0x18, 0x00, 0x00, 0x00, 0x00, 0x00],
    [0x00, 0x70, 0x18, 0x18, 0x18, 0x0E, 0x18, 0x18, 0x18, 0x18, 0x70, 0x00, 0x00, 0x00, 0x00, 0x00],
    [0x00, 0x76, 0xDC, 0x00, 0x00, 0x00, 0x00, 0x00, 0x00, 0x00, 0x00, 0x00, 0x00, 0x00, 0x00, 0x00]
  ]"

definition glyph_of :: "char \<Rightarrow> byte list" where
  "glyph_of c =
     (let code = (of_char c :: nat);
          code = (if code < 32 \<or> code > 126 then 32 else code)
      in font8x16 ! (code - 32))"

definition draw_cell :: "byte list \<Rightarrow> u32 \<Rightarrow> u32 \<Rightarrow> u32 \<Rightarrow> u32 \<Rightarrow> nat \<Rightarrow> nat \<Rightarrow> fb \<Rightarrow> fb" where
  "draw_cell glyph x y fg bg cy cx s =
     (if drop_bit (7 - cx) (glyph ! cy) AND 1 \<noteq> 0
      then fb_put_pixel s (x + word_of_nat cx) (y + word_of_nat cy) fg
      else if bg \<noteq> COLOR_BLACK
      then fb_put_pixel s (x + word_of_nat cx) (y + word_of_nat cy) bg
      else s)"

definition fb_draw_char :: "fb \<Rightarrow> char \<Rightarrow> u32 \<Rightarrow> u32 \<Rightarrow> u32 \<Rightarrow> u32 \<Rightarrow> fb" where
  "fb_draw_char s c x y fg bg =
     (if fb_addr s = 0 then s
      else fold (\<lambda>cy. fold (\<lambda>cx. draw_cell (glyph_of c) x y fg bg cy cx) [0..<8]) [0..<16] s)"

section \<open>The text console\<close>

text \<open>The overlapping \<^verbatim>\<open>memcpy\<close> copies towards lower addresses, front to back.\<close>

definition copy_up :: "nat \<Rightarrow> nat \<Rightarrow> (nat \<Rightarrow> u32) \<Rightarrow> (nat \<Rightarrow> u32)" where
  "copy_up src n px = (\<lambda>i. if i < n then px (src + i) else px i)"

definition fb_scroll :: "fb \<Rightarrow> fb" where
  "fb_scroll s =
     (if fb_addr s = 0 then s
      else
        let row_size = fb_pitch s div 4;
            copy_pixels = (fb_h s - 16) * row_size;
            s = s\<lparr>fb_pixels := copy_up (unat (16 * row_size)) (unat copy_pixels) (fb_pixels s)\<rparr>
        in fb_fill_rect s 0 (fb_h s - 16) (fb_w s) 16 COLOR_BLACK)"

definition next_line :: "fb \<Rightarrow> fb" where
  "next_line s =
     (let s = s\<lparr>cursor_x := 0, cursor_y := cursor_y s + 16\<rparr> in
      if cursor_y s + 16 > fb_h s then (fb_scroll s)\<lparr>cursor_y := fb_h s - 16\<rparr> else s)"

definition print_char :: "u32 \<Rightarrow> u32 \<Rightarrow> fb \<Rightarrow> char \<Rightarrow> fb" where
  "print_char fg bg s c =
     (if c = CHR 0x0A then next_line s
      else if c = CHR 0x0D then s\<lparr>cursor_x := 0\<rparr>
      else if c = CHR 0x09 then s\<lparr>cursor_x := (cursor_x s + 32) AND NOT 31\<rparr>
      else
        let s = fb_draw_char s c (cursor_x s) (cursor_y s) fg bg;
            s = s\<lparr>cursor_x := cursor_x s + 8\<rparr>
        in if cursor_x s + 8 > fb_w s then next_line s else s)"

fun print_loop :: "u32 \<Rightarrow> u32 \<Rightarrow> fb \<Rightarrow> string \<Rightarrow> fb" where
  "print_loop fg bg s [] = s"
| "print_loop fg bg s (c # str) = print_loop fg bg (print_char fg bg s c) str"

definition fb_print_color :: "fb \<Rightarrow> string \<Rightarrow> u32 \<Rightarrow> u32 \<Rightarrow> fb" where
  "fb_print_color s str fg bg = (if fb_addr s = 0 then s else print_loop fg bg s str)"

definition fb_print :: "fb \<Rightarrow> string \<Rightarrow> fb" where
  "fb_print s str = fb_print_color s str COLOR_WHITE COLOR_BLACK"

definition fb_println :: "fb \<Rightarrow> string \<Rightarrow> fb" where
  "fb_println s str = fb_print (fb_print s str) [CHR 0x0A]"

fun title_loop :: "u32 \<Rightarrow> u32 \<Rightarrow> u32 \<Rightarrow> fb \<Rightarrow> u32 \<Rightarrow> string \<Rightarrow> fb" where
  "title_loop tx y bg s i [] = s"
| "title_loop tx y bg s i (c # cs) =
     title_loop tx y bg (fb_draw_char s c (tx + i * 8) (y + 8) COLOR_YELLOW bg) (i + 1) cs"

fun text_loop :: "u32 \<Rightarrow> u32 \<Rightarrow> fb \<Rightarrow> u32 \<Rightarrow> u32 \<Rightarrow> string \<Rightarrow> fb" where
  "text_loop x bg s mx my [] = s"
| "text_loop x bg s mx my (c # cs) =
     (if c = CHR 0x0A then text_loop x bg s (x + 16) (my + 18) cs
      else text_loop x bg (fb_draw_char s c mx my COLOR_WHITE bg) (mx + 8) my cs)"

definition fb_draw_box :: "fb \<Rightarrow> u32 \<Rightarrow> u32 \<Rightarrow> u32 \<Rightarrow> u32 \<Rightarrow> u32 \<Rightarrow> u32 \<Rightarrow> string option \<Rightarrow> string option \<Rightarrow> fb" where
  "fb_draw_box s x y w h bg_color border_color title txt =
     (let s = fb_fill_rect s x y w h bg_color;
          s = fb_fill_rect s x y w 2 border_color;
          s = fb_fill_rect s x (y + h - 2) w 2 border_color;
          s = fb_fill_rect s x y 2 h border_color;
          s = fb_fill_rect s (x + w - 2) y 2 h border_color;
          s = (case title of
                 None \<Rightarrow> s
               | Some t \<Rightarrow>
                   title_loop (ucast (ucast (x + w div 2) - (word_of_nat (length t) * 8) div 2 :: u64)) y bg_color s 0 t)
      in case txt of None \<Rightarrow> s | Some t \<Rightarrow> text_loop x bg_color s (x + 16) (y + 36) t)"

section \<open>Geometry\<close>

abbreviation fb_row :: "fb \<Rightarrow> nat" where "fb_row s \<equiv> unat (fb_pitch s div 4)"

text \<open>A mode the console can work with: a mapped buffer, lines no longer than the pitch, a pixel
  count below \<open>2\<^sup>3\<^sup>2\<close>, and room for one character.\<close>

definition fb_ok :: "fb \<Rightarrow> bool" where
  "fb_ok s \<longleftrightarrow> fb_addr s \<noteq> 0 \<and> unat (fb_w s) \<le> fb_row s \<and> unat (fb_h s) * fb_row s < 2 ^ 32 \<and>
     16 \<le> unat (fb_h s) \<and> 8 \<le> unat (fb_w s)"

lemma fb_ok_small:
  assumes "fb_ok s"
  shows "unat (fb_h s) < 2 ^ 29" "unat (fb_w s) < 2 ^ 28"
proof -
  have "unat (fb_h s) * 8 \<le> unat (fb_h s) * fb_row s" "16 * fb_row s \<le> unat (fb_h s) * fb_row s"
    using assms by (auto simp: fb_ok_def intro!: mult_le_mono)
  moreover have "unat (fb_h s) * fb_row s < 2 ^ 32" "unat (fb_w s) \<le> fb_row s"
    using assms by (simp_all add: fb_ok_def)
  ultimately have "unat (fb_h s) * 8 < 2 ^ 32" "16 * unat (fb_w s) < 2 ^ 32" by linarith+
  then show "unat (fb_h s) < 2 ^ 29" "unat (fb_w s) < 2 ^ 28" by simp_all
qed

definition fb_size :: "fb \<Rightarrow> nat" where
  "fb_size s = unat (fb_h s) * fb_row s"

definition same_mode :: "fb \<Rightarrow> fb \<Rightarrow> bool" where
  "same_mode s s' \<longleftrightarrow> fb_addr s' = fb_addr s \<and> fb_w s' = fb_w s \<and> fb_h s' = fb_h s \<and> fb_pitch s' = fb_pitch s"

definition confined :: "fb \<Rightarrow> fb \<Rightarrow> bool" where
  "confined s s' \<longleftrightarrow> same_mode s s' \<and> (\<forall>i\<ge>fb_size s. fb_pixels s' i = fb_pixels s i)"

named_theorems fb_confined \<open>operations that write inside the buffer only\<close>

lemma confined_refl [simp]: "confined s s"
  by (simp add: confined_def same_mode_def)

lemma confined_trans: "confined s t \<Longrightarrow> confined t u \<Longrightarrow> confined s u"
  by (simp add: confined_def same_mode_def fb_size_def)

lemma confined_ok: "confined s t \<Longrightarrow> fb_ok s \<Longrightarrow> fb_ok t"
  by (simp add: confined_def same_mode_def fb_ok_def)

lemma confined_mode: "confined s t \<Longrightarrow> fb_addr t = fb_addr s \<and> fb_w t = fb_w s \<and> fb_h t = fb_h s \<and> fb_pitch t = fb_pitch s"
  by (simp add: confined_def same_mode_def)

lemma confined_cursor [simp]:
  "confined s (t\<lparr>cursor_x := a\<rparr>) = confined s t" "confined s (t\<lparr>cursor_y := b\<rparr>) = confined s t"
  "confined (s\<lparr>cursor_x := a\<rparr>) t = confined s t" "confined (s\<lparr>cursor_y := b\<rparr>) t = confined s t"
  by (simp_all add: confined_def same_mode_def fb_size_def)

lemma confined_fold:
  assumes "\<And>x t. fb_ok t \<Longrightarrow> x \<in> set xs \<Longrightarrow> confined t (f x t)" "fb_ok s"
  shows "confined s (fold f xs s)"
  using assms
proof (induction xs arbitrary: s)
  case (Cons x xs)
  have "confined s (f x s)" by (rule Cons.prems(1)) (use Cons.prems(2) in simp_all)
  moreover have "confined (f x s) (fold f xs (f x s))"
    by (rule Cons.IH) (use Cons.prems calculation confined_ok in auto)
  ultimately show ?case using confined_trans by simp
qed simp

text \<open>On the visible area the 32-bit index is the row-major one.\<close>

lemma pixel_index:
  assumes "fb_ok s" "x < fb_w s" "y < fb_h s"
  shows "unat (y * (fb_pitch s div 4) + x) = unat y * fb_row s + unat x"
    and "unat y * fb_row s + unat x < fb_size s"
proof -
  have x: "unat x < fb_row s" and y: "Suc (unat y) \<le> unat (fb_h s)"
    using assms by (auto simp: fb_ok_def word_less_nat_alt)
  have "unat y * fb_row s + unat x < Suc (unat y) * fb_row s" using x by simp
  also have "\<dots> \<le> fb_size s" unfolding fb_size_def by (rule mult_le_mono1 [OF y])
  finally show lt: "unat y * fb_row s + unat x < fb_size s" .
  then have "unat y * fb_row s + unat x < 2 ^ 32" using assms by (simp add: fb_ok_def fb_size_def)
  then show "unat (y * (fb_pitch s div 4) + x) = unat y * fb_row s + unat x"
    by (simp add: unat_word_ariths)
qed

lemma set_pixel_confined:
  "fb_ok s \<Longrightarrow> x < fb_w s \<Longrightarrow> y < fb_h s \<Longrightarrow> confined s (set_pixel s x y color)"
  using pixel_index [of s x y] by (auto simp: confined_def same_mode_def set_pixel_def)

lemma put_pixel_confined [fb_confined]: "fb_ok s \<Longrightarrow> confined s (fb_put_pixel s x y color)"
  using set_pixel_confined [of s x y color] by (auto simp: fb_put_pixel_def not_le)

lemma fill_cols_confined:
  "fb_ok s \<Longrightarrow> row < fb_h s \<Longrightarrow> confined s (fill_cols s x row cx width color)"
proof (induction s x row cx width color rule: fill_cols.induct)
  case (1 s x row cx width color)
  show ?case
  proof (cases "cx < width \<and> x + cx < fb_w s")
    case True
    have c: "confined s (set_pixel s (x + cx) row color)"
      using set_pixel_confined [of s "x + cx" row color] 1 True by simp
    have "confined (set_pixel s (x + cx) row color)
        (fill_cols (set_pixel s (x + cx) row color) x row (cx + 1) width color)"
      using 1 True confined_ok [OF c] confined_mode [OF c] by simp
    with c show ?thesis
      using confined_trans True by (simp add: fill_cols.simps [of s])
  next
    case False
    then show ?thesis by (subst fill_cols.simps) auto
  qed
qed

lemma fill_rows_confined:
  "fb_ok s \<Longrightarrow> confined s (fill_rows s x y cy width height color)"
proof (induction s x y cy width height color rule: fill_rows.induct)
  case (1 s x y cy width height color)
  show ?case
  proof (cases "cy < height \<and> y + cy < fb_h s")
    case True
    let ?t = "fill_cols s x (y + cy) 0 width color"
    have c: "confined s ?t" using fill_cols_confined [of s "y + cy"] 1 True by simp
    have "confined ?t (fill_rows ?t x y (cy + 1) width height color)"
      using 1 True confined_ok [OF c] by simp
    with c show ?thesis
      using confined_trans True by (simp add: fill_rows.simps [of s])
  next
    case False
    then show ?thesis by (subst fill_rows.simps) auto
  qed
qed

lemma fill_rect_confined [fb_confined]: "fb_ok s \<Longrightarrow> confined s (fb_fill_rect s x y w h color)"
  by (simp add: fb_fill_rect_def fill_rows_confined)

lemma clear_confined [fb_confined]: "fb_ok s \<Longrightarrow> confined s (fb_clear s color)"
  by (simp add: fb_clear_def fill_rect_confined)

lemma draw_cell_confined [fb_confined]: "fb_ok s \<Longrightarrow> confined s (draw_cell g x y fg bg cy cx s)"
  by (simp add: draw_cell_def put_pixel_confined)

lemma draw_char_confined [fb_confined]: "fb_ok s \<Longrightarrow> confined s (fb_draw_char s c x y fg bg)"
  by (auto simp: fb_draw_char_def intro!: confined_fold draw_cell_confined)

lemma scroll_confined [fb_confined]:
  assumes ok: "fb_ok s"
  shows "confined s (fb_scroll s)"
proof -
  let ?row = "fb_pitch s div 4"
  let ?t = "s\<lparr>fb_pixels := copy_up (unat (16 * ?row)) (unat ((fb_h s - 16) * ?row)) (fb_pixels s)\<rparr>"
  have "unat ((fb_h s - 16) * ?row) \<le> unat (fb_h s - 16) * unat ?row"
    by (simp add: unat_word_ariths)
  also have "\<dots> \<le> fb_size s"
    unfolding fb_size_def using ok by (intro mult_le_mono1) (simp add: fb_ok_def unat_sub_if')
  finally have t: "confined s ?t"
    by (auto simp: confined_def same_mode_def copy_up_def)
  have "confined ?t (fb_fill_rect ?t 0 (fb_h s - 16) (fb_w s) 16 COLOR_BLACK)"
    by (rule fill_rect_confined [OF confined_ok [OF t ok]])
  with t show ?thesis using confined_trans by (simp add: fb_scroll_def Let_def)
qed

lemma next_line_confined [fb_confined]: "fb_ok s \<Longrightarrow> confined s (next_line s)"
proof -
  assume ok: "fb_ok s"
  let ?t = "s\<lparr>cursor_x := 0, cursor_y := cursor_y s + 16\<rparr>"
  have "confined ?t (fb_scroll ?t)" by (rule scroll_confined) (use ok in \<open>simp add: fb_ok_def\<close>)
  then show ?thesis by (simp add: next_line_def Let_def)
qed

lemma print_char_confined [fb_confined]:
  assumes ok: "fb_ok s"
  shows "confined s (print_char fg bg s c)"
proof -
  let ?t = "(fb_draw_char s c (cursor_x s) (cursor_y s) fg bg)"
  let ?u = "?t\<lparr>cursor_x := cursor_x ?t + 8\<rparr>"
  have t: "confined s ?t" by (rule draw_char_confined [OF ok])
  have "confined ?u (next_line ?u)"
    by (rule next_line_confined) (use confined_ok [OF t ok] in \<open>simp add: fb_ok_def\<close>)
  with t have "confined s (next_line ?u)" using confined_trans by auto
  with t ok show ?thesis by (simp add: print_char_def next_line_confined Let_def)
qed

lemma print_loop_confined: "fb_ok s \<Longrightarrow> confined s (print_loop fg bg s str)"
proof (induction str arbitrary: s)
  case (Cons c str)
  then show ?case
    using print_char_confined [OF Cons.prems, of fg bg c] confined_ok confined_trans by simp
qed simp

lemma print_color_confined [fb_confined]: "fb_ok s \<Longrightarrow> confined s (fb_print_color s str fg bg)"
  by (simp add: fb_print_color_def print_loop_confined)

lemma println_confined [fb_confined]: "fb_ok s \<Longrightarrow> confined s (fb_println s str)"
  using print_color_confined confined_ok confined_trans
  unfolding fb_println_def fb_print_def by blast

lemma title_loop_confined: "fb_ok s \<Longrightarrow> confined s (title_loop tx y bg s i t)"
proof (induction t arbitrary: s i)
  case (Cons c t)
  then show ?case
    using draw_char_confined [OF Cons.prems, of c "tx + i * 8" "y + 8" COLOR_YELLOW bg]
      confined_ok confined_trans by simp
qed simp

lemma text_loop_confined: "fb_ok s \<Longrightarrow> confined s (text_loop x bg s mx my t)"
proof (induction t arbitrary: s mx my)
  case (Cons c t)
  then show ?case
    using draw_char_confined [OF Cons.prems, of c mx my COLOR_WHITE bg]
      confined_ok confined_trans by simp
qed simp

lemma draw_box_confined [fb_confined]:
  assumes ok: "fb_ok s"
  shows "confined s (fb_draw_box s x y w h bg border title txt)"
proof -
  have step: "confined s u" if "confined s t" "fb_ok t \<Longrightarrow> confined t u" for t u
    using that confined_ok [OF _ ok] confined_trans by metis
  define s1 where "s1 = fb_fill_rect s x y w h bg"
  define s2 where "s2 = fb_fill_rect s1 x y w 2 border"
  define s3 where "s3 = fb_fill_rect s2 x (y + h - 2) w 2 border"
  define s4 where "s4 = fb_fill_rect s3 x y 2 h border"
  define s5 where "s5 = fb_fill_rect s4 (x + w - 2) y 2 h border"
  define s6 where "s6 = (case title of None \<Rightarrow> s5 | Some t \<Rightarrow>
    title_loop (ucast (ucast (x + w div 2) - (word_of_nat (length t) * 8) div 2 :: u64)) y bg s5 0 t)"
  define s7 where "s7 = (case txt of None \<Rightarrow> s6 | Some t \<Rightarrow> text_loop x bg s6 (x + 16) (y + 36) t)"
  have "confined s s1" unfolding s1_def by (rule fill_rect_confined [OF ok])
  then have "confined s s2" by (rule step) (simp add: s2_def fill_rect_confined)
  then have "confined s s3" by (rule step) (simp add: s3_def fill_rect_confined)
  then have "confined s s4" by (rule step) (simp add: s4_def fill_rect_confined)
  then have "confined s s5" by (rule step) (simp add: s5_def fill_rect_confined)
  then have "confined s s6"
    by (rule step) (simp add: s6_def title_loop_confined split: option.split)
  then have "confined s s7"
    by (rule step) (simp add: s7_def text_loop_confined split: option.split)
  moreover have "fb_draw_box s x y w h bg border title txt = s7"
    unfolding fb_draw_box_def Let_def s7_def s6_def s5_def s4_def s3_def s2_def s1_def by (rule refl)
  ultimately show ?thesis by simp
qed

text \<open>The operations a client calls after \<open>fb_init\<close>.\<close>

datatype fb_call =
  Put_pixel u32 u32 u32 | Fill_rect u32 u32 u32 u32 u32 | Clear u32 | Draw_char char u32 u32 u32 u32 |
  Print_color string u32 u32 | Println string | Draw_box u32 u32 u32 u32 u32 u32 "string option" "string option"

fun fb_step :: "fb \<Rightarrow> fb_call \<Rightarrow> fb" where
  "fb_step s (Put_pixel x y c) = fb_put_pixel s x y c"
| "fb_step s (Fill_rect x y w h c) = fb_fill_rect s x y w h c"
| "fb_step s (Clear c) = fb_clear s c"
| "fb_step s (Draw_char ch x y fg bg) = fb_draw_char s ch x y fg bg"
| "fb_step s (Print_color str fg bg) = fb_print_color s str fg bg"
| "fb_step s (Println str) = fb_println s str"
| "fb_step s (Draw_box x y w h bg border title txt) = fb_draw_box s x y w h bg border title txt"

lemma fb_step_confined: "fb_ok s \<Longrightarrow> confined s (fb_step s op)"
  by (cases op) (simp_all add: fb_confined)

lemma fb_steps_confined: "fb_ok s \<Longrightarrow> confined s (foldl fb_step s ops)"
proof (induction ops arbitrary: s)
  case (Cons op ops)
  then show ?case
    using fb_step_confined [OF Cons.prems, of op] confined_ok confined_trans by simp
qed simp

section \<open>What a character paints\<close>

lemma pixel_division:
  assumes "fb_ok s" "x < fb_w s" "y < fb_h s"
  shows "p = unat (y * (fb_pitch s div 4) + x) \<longleftrightarrow> p div fb_row s = unat y \<and> p mod fb_row s = unat x"
proof -
  have x: "unat x < fb_row s" using assms by (auto simp: fb_ok_def word_less_nat_alt)
  have "p = unat y * fb_row s + unat x \<longleftrightarrow> p div fb_row s = unat y \<and> p mod fb_row s = unat x"
    using x by auto (metis div_mult_mod_eq)
  then show ?thesis using pixel_index(1) [OF assms] by simp
qed

text \<open>The colour of cell \<open>(i, j)\<close> of a glyph over an old pixel.\<close>

definition cell_colour :: "byte list \<Rightarrow> u32 \<Rightarrow> u32 \<Rightarrow> nat \<Rightarrow> nat \<Rightarrow> u32 \<Rightarrow> u32" where
  "cell_colour glyph fg bg j i old =
     (if bit (glyph ! j) (7 - i) then fg else if bg \<noteq> COLOR_BLACK then bg else old)"

lemma drop_bit_and_1: "drop_bit n w AND 1 \<noteq> 0 \<longleftrightarrow> bit (w :: 'a::len word) n"
  by (simp add: bit_iff_odd_drop_bit and_one_eq odd_iff_mod_2_eq_one)

lemma draw_cell_pixels:
  assumes ok: "fb_ok s" and fit: "unat x + 8 \<le> unat (fb_w s)" "unat y + 16 \<le> unat (fb_h s)"
    and "i < 8" "j < 16"
  shows "fb_pixels (draw_cell g x y fg bg j i s) p =
    (if p div fb_row s = unat y + j \<and> p mod fb_row s = unat x + i
     then cell_colour g fg bg j i (fb_pixels s p) else fb_pixels s p)"
proof -
  have xi: "unat (x + word_of_nat i) = unat x + i"
    by (rule unat_add_of_nat) (use assms unsigned_less [of "fb_w s", where 'a = nat] in simp)
  have yj: "unat (y + word_of_nat j) = unat y + j"
    by (rule unat_add_of_nat) (use assms unsigned_less [of "fb_h s", where 'a = nat] in simp)
  have lx: "x + word_of_nat i < fb_w s" and ly: "y + word_of_nat j < fb_h s"
    using assms xi yj by (simp_all add: word_less_nat_alt)
  have put: "fb_put_pixel s (x + word_of_nat i) (y + word_of_nat j) c =
      set_pixel s (x + word_of_nat i) (y + word_of_nat j) c" for c
    using ok lx ly by (simp add: fb_put_pixel_def fb_ok_def not_le)
  show ?thesis
    using pixel_division [OF ok lx ly, of p] xi yj
    by (auto simp: draw_cell_def put set_pixel_def cell_colour_def drop_bit_and_1)
qed

lemma draw_row_pixels:
  assumes "fb_ok s" "unat x + 8 \<le> unat (fb_w s)" "unat y + 16 \<le> unat (fb_h s)" "j < 16" "n \<le> 8"
  shows "confined s (fold (draw_cell g x y fg bg j) [0..<n] s) \<and>
    fb_pixels (fold (draw_cell g x y fg bg j) [0..<n] s) p =
    (if p div fb_row s = unat y + j \<and> unat x \<le> p mod fb_row s \<and> p mod fb_row s < unat x + n
     then cell_colour g fg bg j (p mod fb_row s - unat x) (fb_pixels s p) else fb_pixels s p)"
  using assms(5)
proof (induction n)
  case (Suc n)
  let ?t = "fold (draw_cell g x y fg bg j) [0..<n] s"
  have t: "confined s ?t" using Suc by simp
  have u: "confined ?t (draw_cell g x y fg bg j n ?t)"
    by (rule draw_cell_confined [OF confined_ok [OF t assms(1)]])
  have "fb_pixels (draw_cell g x y fg bg j n ?t) p =
    (if p div fb_row s = unat y + j \<and> p mod fb_row s = unat x + n
     then cell_colour g fg bg j n (fb_pixels ?t p) else fb_pixels ?t p)"
    using draw_cell_pixels [OF confined_ok [OF t assms(1)], of x y n j g fg bg p] assms Suc.prems
      confined_mode [OF t] by simp
  then show ?case using Suc confined_trans [OF t u] by auto
qed auto

lemma draw_rows_pixels:
  assumes "fb_ok s" "unat x + 8 \<le> unat (fb_w s)" "unat y + 16 \<le> unat (fb_h s)" "m \<le> 16"
  shows "confined s (fold (\<lambda>cy. fold (\<lambda>cx. draw_cell g x y fg bg cy cx) [0..<8]) [0..<m] s) \<and>
    fb_pixels (fold (\<lambda>cy. fold (\<lambda>cx. draw_cell g x y fg bg cy cx) [0..<8]) [0..<m] s) p =
    (if unat y \<le> p div fb_row s \<and> p div fb_row s < unat y + m \<and>
        unat x \<le> p mod fb_row s \<and> p mod fb_row s < unat x + 8
     then cell_colour g fg bg (p div fb_row s - unat y) (p mod fb_row s - unat x) (fb_pixels s p)
     else fb_pixels s p)"
  using assms(4)
proof (induction m)
  case (Suc m)
  let ?t = "fold (\<lambda>cy. fold (\<lambda>cx. draw_cell g x y fg bg cy cx) [0..<8]) [0..<m] s"
  have t: "confined s ?t" using Suc by simp
  note row = draw_row_pixels [OF confined_ok [OF t assms(1)], of x y m 8 g fg bg p]
  have "confined ?t (fold (draw_cell g x y fg bg m) [0..<8] ?t)"
    using row assms Suc.prems confined_mode [OF t] by simp
  moreover have "fb_pixels (fold (draw_cell g x y fg bg m) [0..<8] ?t) p =
    (if p div fb_row s = unat y + m \<and> unat x \<le> p mod fb_row s \<and> p mod fb_row s < unat x + 8
     then cell_colour g fg bg m (p mod fb_row s - unat x) (fb_pixels ?t p) else fb_pixels ?t p)"
    using row assms Suc.prems confined_mode [OF t] by simp
  moreover have "fold (\<lambda>cy. fold (\<lambda>cx. draw_cell g x y fg bg cy cx) [0..<8]) [0..<Suc m] s =
      fold (draw_cell g x y fg bg m) [0..<8] ?t"
    by (subst upt_Suc_append) simp_all
  ultimately show ?case using Suc confined_trans [OF t] by auto
qed auto

section \<open>The cursor\<close>

definition cursor_ok :: "fb \<Rightarrow> bool" where
  "cursor_ok s \<longleftrightarrow> unat (cursor_x s) + 8 \<le> unat (fb_w s) \<and> unat (cursor_y s) + 16 \<le> unat (fb_h s)"

lemma put_pixel_cursor [simp]:
  "cursor_x (fb_put_pixel s x y c) = cursor_x s" "cursor_y (fb_put_pixel s x y c) = cursor_y s"
  by (simp_all add: fb_put_pixel_def set_pixel_def)

lemma fill_cols_cursor:
  "cursor_x (fill_cols s x row cx width color) = cursor_x s \<and>
   cursor_y (fill_cols s x row cx width color) = cursor_y s"
proof (induction s x row cx width color rule: fill_cols.induct)
  case (1 s x row cx width color)
  then show ?case by (subst (1 2) fill_cols.simps) (simp add: set_pixel_def)
qed

lemma fill_rows_cursor:
  "cursor_x (fill_rows s x y cy width height color) = cursor_x s \<and>
   cursor_y (fill_rows s x y cy width height color) = cursor_y s"
proof (induction s x y cy width height color rule: fill_rows.induct)
  case (1 s x y cy width height color)
  then show ?case by (subst (1 2) fill_rows.simps) (simp add: fill_cols_cursor)
qed

lemma scroll_cursor [simp]: "cursor_x (fb_scroll s) = cursor_x s" "cursor_y (fb_scroll s) = cursor_y s"
  by (simp_all add: fb_scroll_def fb_fill_rect_def fill_rows_cursor Let_def)

lemma fold_cursor:
  assumes "\<And>x t. cursor_x (f x t) = cursor_x t \<and> cursor_y (f x t) = cursor_y t"
  shows "cursor_x (fold f xs s) = cursor_x s \<and> cursor_y (fold f xs s) = cursor_y s"
  by (induction xs arbitrary: s) (simp_all add: assms)

lemma draw_char_cursor [simp]:
  "cursor_x (fb_draw_char s c x y fg bg) = cursor_x s"
  "cursor_y (fb_draw_char s c x y fg bg) = cursor_y s"
proof -
  have cell: "cursor_x (draw_cell g x y fg bg j i t) = cursor_x t \<and>
      cursor_y (draw_cell g x y fg bg j i t) = cursor_y t" for g j i t
    by (simp add: draw_cell_def)
  show "cursor_x (fb_draw_char s c x y fg bg) = cursor_x s"
    "cursor_y (fb_draw_char s c x y fg bg) = cursor_y s"
    unfolding fb_draw_char_def by (auto simp: cell fold_cursor)
qed

lemma next_line_cursor:
  assumes "fb_ok s" "unat (cursor_y s) + 16 \<le> unat (fb_h s)"
  shows "cursor_ok (next_line s)"
proof -
  have w: "fb_w (next_line s) = fb_w s" "fb_h (next_line s) = fb_h s"
    using confined_mode [OF next_line_confined [OF assms(1)]] by simp_all
  note small = fb_ok_small [OF assms(1)]
  then have y: "unat (cursor_y s + 16) = unat (cursor_y s) + 16"
    using assms(2) by (simp add: unat_word_ariths)
  have h: "unat (fb_h s - 16) = unat (fb_h s) - 16"
    using assms(1) by (simp add: fb_ok_def unat_sub_if')
  show ?thesis
  proof (cases "unat (cursor_y s) + 32 \<le> unat (fb_h s)")
    case True
    then have "unat (cursor_y s + 16 + 16) = unat (cursor_y s) + 32"
      using small by (simp add: unat_word_ariths)
    then have "\<not> fb_h s < cursor_y s + 16 + 16" using True by (simp add: word_less_nat_alt)
    then show ?thesis using assms y True
      by (simp add: next_line_def Let_def cursor_ok_def fb_ok_def)
  next
    case False
    have "unat (cursor_y s + 16 + 16) = unat (cursor_y s) + 32"
      using small assms(2) by (simp add: unat_word_ariths)
    then have "fb_h s < cursor_y s + 16 + 16" using False by (simp add: word_less_nat_alt)
    then show ?thesis using assms y h w
      by (simp add: next_line_def Let_def cursor_ok_def fb_ok_def)
  qed
qed

lemma print_char_cursor:
  assumes ok: "fb_ok s" and cur: "cursor_ok s" and c: "c \<noteq> CHR 0x09"
  shows "cursor_ok (print_char fg bg s c)"
proof -
  let ?t = "fb_draw_char s c (cursor_x s) (cursor_y s) fg bg"
  let ?u = "?t\<lparr>cursor_x := cursor_x s + 8\<rparr>"
  have m: "fb_w ?t = fb_w s" "fb_h ?t = fb_h s" "fb_ok ?t"
    using confined_mode [OF draw_char_confined [OF ok]] confined_ok [OF draw_char_confined [OF ok] ok]
    by simp_all
  have x: "unat (cursor_x s + 8) = unat (cursor_x s) + 8"
    and xx: "unat (cursor_x s + 8 + 8) = unat (cursor_x s) + 16"
    using cur fb_ok_small [OF ok] by (simp_all add: cursor_ok_def unat_word_ariths)
  have "cursor_ok (next_line ?u)"
    by (rule next_line_cursor) (use m cur in \<open>simp_all add: fb_ok_def cursor_ok_def\<close>)
  moreover have "cursor_ok ?u" if "\<not> fb_w s < cursor_x s + 8 + 8"
    using that cur m x xx by (simp add: cursor_ok_def word_less_nat_alt)
  moreover have "cursor_ok (next_line s)" using next_line_cursor ok cur by (simp add: cursor_ok_def)
  moreover have "cursor_ok (s\<lparr>cursor_x := 0\<rparr>)" using ok cur by (simp add: cursor_ok_def fb_ok_def)
  ultimately show ?thesis using c m by (simp add: print_char_def Let_def)
qed

lemma print_loop_cursor:
  "fb_ok s \<Longrightarrow> cursor_ok s \<Longrightarrow> CHR 0x09 \<notin> set str \<Longrightarrow> cursor_ok (print_loop fg bg s str)"
proof (induction str arbitrary: s)
  case (Cons c str)
  then show ?case
    using print_char_cursor [of s c fg bg] confined_ok [OF print_char_confined, of s fg bg c] by auto
qed simp

text \<open>A blank glyph over black paints nothing.\<close>

lemma blank_glyph: "c \<in> {CHR '' '', CHR 0x08} \<Longrightarrow> glyph_of c = replicate 16 0"
proof -
  have "font8x16 ! 0 = replicate 16 0" by (simp add: font8x16_def numeral_eq_Suc)
  then show "c \<in> {CHR '' '', CHR 0x08} \<Longrightarrow> glyph_of c = replicate 16 0"
    by (auto simp: glyph_of_def Let_def)
qed

lemma fold_id: "(\<And>x t. x \<in> set xs \<Longrightarrow> f x t = t) \<Longrightarrow> fold f xs s = s"
  by (induction xs) auto

lemma draw_blank:
  assumes "c \<in> {CHR '' '', CHR 0x08}"
  shows "fb_draw_char s c x y fg COLOR_BLACK = s"
proof -
  have "draw_cell (glyph_of c) x y fg COLOR_BLACK j i t = t" if "j < 16" for j i t
    using that by (simp add: blank_glyph [OF assms] draw_cell_def)
  then have row: "fold (\<lambda>i. draw_cell (glyph_of c) x y fg COLOR_BLACK j i) [0..<8] t = t" if "j < 16" for j t
    using that by (intro fold_id) simp
  have "fold (\<lambda>j. fold (\<lambda>i. draw_cell (glyph_of c) x y fg COLOR_BLACK j i) [0..<8]) [0..<16] s = s"
    by (rule fold_id) (simp add: row)
  then show ?thesis by (simp add: fb_draw_char_def)
qed

lemma print_blank:
  assumes "c \<in> {CHR '' '', CHR 0x08}" "unat (cursor_x s) + 16 \<le> unat (fb_w s)"
  shows "print_char fg COLOR_BLACK s c = s\<lparr>cursor_x := cursor_x s + 8\<rparr>"
    and "unat (cursor_x s + 8) = unat (cursor_x s) + 8"
proof -
  have b: "unat (cursor_x s) + 16 < 2 ^ 32"
    using assms(2) unsigned_less [of "fb_w s", where 'a = nat] by simp
  then show "unat (cursor_x s + 8) = unat (cursor_x s) + 8" by (simp add: unat_word_ariths)
  have "unat (cursor_x s + 8 + 8) = unat (cursor_x s) + 16" using b by (simp add: unat_word_ariths)
  then have "\<not> fb_w s < cursor_x s + 8 + 8" using assms(2) by (simp add: word_less_nat_alt)
  then show "print_char fg COLOR_BLACK s c = s\<lparr>cursor_x := cursor_x s + 8\<rparr>"
    using assms(1) draw_blank [OF assms(1)] by (auto simp: print_char_def Let_def)
qed

section \<open>Properties\<close>

definition demo_fb :: fb where
  "demo_fb = \<lparr>fb_addr = 0x1000, fb_pixels = \<lambda>_. 0, fb_w = 64, fb_h = 32, fb_pitch = 256, fb_bpp = 32,
     cursor_x = 8, cursor_y = 16\<rparr>"

lemma demo_fb_ok: "fb_ok demo_fb" "cursor_ok demo_fb"
  by (simp_all add: fb_ok_def cursor_ok_def demo_fb_def)

text \<open>
  A character drawn where it fits sets exactly the pixels of its 8x16 cell, read as
  \<open>(row, column) = (p div row, p mod row)\<close>: set glyph bits to the foreground, clear ones to the
  background unless that is black, which leaves them as they were.
\<close>

theorem fb_draw_char_paints:
  assumes "fb_ok s" "unat x + 8 \<le> unat (fb_w s)" "unat y + 16 \<le> unat (fb_h s)"
  shows "fb_pixels (fb_draw_char s c x y fg bg) p =
    (let r = p div fb_row s; k = p mod fb_row s in
     if unat y \<le> r \<and> r < unat y + 16 \<and> unat x \<le> k \<and> k < unat x + 8
     then (if bit (glyph_of c ! (r - unat y)) (7 - (k - unat x)) then fg
           else if bg \<noteq> COLOR_BLACK then bg else fb_pixels s p)
     else fb_pixels s p)"
  using draw_rows_pixels [OF assms, of 16 "glyph_of c" fg bg p] assms(1)
  by (simp add: fb_draw_char_def fb_ok_def cell_colour_def Let_def)

theorem fb_draw_char_paints_witness:
  "fb_pixels (fb_draw_char demo_fb (CHR ''!'') 8 16 COLOR_WHITE COLOR_BLACK) (18 * 64 + 11) = COLOR_WHITE"
proof -
  have "bit (glyph_of (CHR ''!'') ! 2) 4"
    by (simp add: glyph_of_def font8x16_def bit_iff_odd_drop_bit Let_def)
  then show ?thesis
    using fb_draw_char_paints [OF demo_fb_ok(1), of 8 16 "CHR ''!''" COLOR_WHITE COLOR_BLACK "18 * 64 + 11"]
    by (simp add: demo_fb_def)
qed

text \<open>
  C16: Whatever a client draws or prints, and however far outside the screen it asks for, no pixel
  past the \<open>height * pitch / 4\<close> of the buffer is written and the mode stays as it is.
\<close>

theorem fb_stays_in_buffer:
  assumes "fb_ok s" "fb_size s \<le> i"
  shows "fb_pixels (foldl fb_step s ops) i = fb_pixels s i \<and> fb_ok (foldl fb_step s ops)"
  using fb_steps_confined [OF assms(1), of ops] assms confined_ok by (auto simp: confined_def)

theorem fb_stays_in_buffer_witness:
  "fb_pixels (foldl fb_step demo_fb [Println ''jurk'', Draw_box 60 28 100 100 1 2 (Some ''t'') None]) 2048 = 0"
  using fb_stays_in_buffer [OF demo_fb_ok(1), of 2048 "[Println ''jurk'', Draw_box 60 28 100 100 1 2 (Some ''t'') None]"]
  by (simp add: fb_size_def del: foldl_Cons) (simp add: demo_fb_def)

text \<open>
  Printing text without tabs from a cursor on the screen leaves the cursor on the screen, so
  that every character of it was drawn whole.
\<close>

theorem fb_print_keeps_cursor:
  assumes "fb_ok s" "cursor_ok s" "CHR 0x09 \<notin> set str"
  shows "cursor_ok (fb_print_color s str fg bg)"
  using print_loop_cursor [OF assms] assms(2) by (simp add: fb_print_color_def)

theorem fb_print_keeps_cursor_witness:
  "cursor_ok (fb_print_color demo_fb ''jurkos'' 1 0)"
  by (rule fb_print_keeps_cursor) (simp_all add: demo_fb_ok)

text \<open>
  The sequence backspace, space, backspace with which the line editor erases a character moves
  the cursor three cells to the right and changes no pixel: the console has no case for backspace.
\<close>

theorem fb_erase_moves_right:
  assumes "fb_ok s" "unat (cursor_x s) + 32 \<le> unat (fb_w s)"
  shows "fb_print s [CHR 0x08, CHR '' '', CHR 0x08] = s\<lparr>cursor_x := cursor_x s + 24\<rparr>"
proof -
  note b1 = print_blank [of "CHR 0x08" s]
  note b2 = print_blank [of "CHR '' ''" "s\<lparr>cursor_x := cursor_x s + 8\<rparr>"]
  note b3 = print_blank [of "CHR 0x08" "s\<lparr>cursor_x := cursor_x s + 8 + 8\<rparr>"]
  show ?thesis
    using b1 b2 b3 assms by (simp add: fb_print_def fb_print_color_def fb_ok_def)
qed

theorem fb_erase_moves_right_witness:
  "cursor_x (fb_print demo_fb [CHR 0x08, CHR '' '', CHR 0x08]) = 32"
  using fb_erase_moves_right [OF demo_fb_ok(1)] by (simp add: demo_fb_def)

end
