(* ===== verification/Devfs.thy ===== *)
theory Devfs
  imports Fat32 Jurkvfs Keyboard Serial E1000 Framebuffer
begin

text \<open>
  The device file system, \<^verbatim>\<open>fs/devfs.c\<close>, over the state of the whole kernel: the node store of the
  VFS extended with the device tree and with the drivers behind the device nodes. A device entry
  is a node with a list of at most 16 children. The handlers that the nodes of all file systems
  name are tied together in \<open>kernel_finddir\<close>, \<open>kernel_readdir\<close>, \<open>kernel_read\<close> and
  \<open>kernel_write\<close>. Shown: the tree invariant, that listing and searching agree (an interpretation
  of \<open>directory\<close>), and that a registered device is found under its path.
\<close>

definition MAX_CHILDREN :: nat where "MAX_CHILDREN = 16"

record kernel = vfs +
  dev_root :: "nid option"
  dev_children :: "nid \<Rightarrow> nid list"
  urandom_seed :: u32
  screen :: fb
  ports :: io_trace
  keyboard :: kbd
  scancodes :: "byte list"
  nic :: e1000
  pci_devices :: "pci_device list"
  current_fat :: fat32_fs
  current_jurk :: jurkvfs_fs

section \<open>Directories\<close>

definition devfs_readdir_impl :: "kernel \<Rightarrow> nid \<Rightarrow> u32 \<Rightarrow> dirent option" where
  "devfs_readdir_impl s entry index =
     (if unat index \<ge> length (dev_children s entry) then None
      else let child = nodes s (dev_children s entry ! unat index) in
        Some \<lparr>d_name = node_name child, d_inode = inode child, d_flags = flags child\<rparr>)"

fun child_named :: "kernel \<Rightarrow> nid list \<Rightarrow> string \<Rightarrow> nid option" where
  "child_named s [] name = None"
| "child_named s (c # cs) name =
     (if node_name (nodes s c) = name then Some c else child_named s cs name)"

definition devfs_finddir_impl :: "kernel \<Rightarrow> nid \<Rightarrow> string \<Rightarrow> nid option" where
  "devfs_finddir_impl s entry name = child_named s (dev_children s entry) name"

section \<open>Device handlers\<close>

definition dev_null_write :: "kernel \<Rightarrow> u32 \<Rightarrow> u32 \<Rightarrow> byte list \<Rightarrow> u32 \<times> kernel" where
  "dev_null_write s offset sz buffer = (sz, s)"

definition dev_zero_read :: "kernel \<Rightarrow> u32 \<Rightarrow> u32 \<Rightarrow> u32 \<times> byte list \<times> kernel" where
  "dev_zero_read s offset sz = (sz, replicate (unat sz) 0, s)"

fun urandom_loop :: "nat \<Rightarrow> u32 \<Rightarrow> byte list \<times> u32" where
  "urandom_loop 0 seed = ([], seed)"
| "urandom_loop (Suc n) seed =
     (let seed = seed * 1103515245 + 12345; (bs, seed') = urandom_loop n seed
      in (ucast (drop_bit 16 seed) # bs, seed'))"

definition dev_urandom_read :: "kernel \<Rightarrow> u32 \<Rightarrow> u32 \<Rightarrow> u32 \<times> byte list \<times> kernel" where
  "dev_urandom_read s offset sz =
     (case urandom_loop (unat sz) (urandom_seed s) of (bs, seed') \<Rightarrow> (sz, bs, s\<lparr>urandom_seed := seed'\<rparr>))"

text \<open>A zero byte is the empty string to \<open>fb_print\<close>.\<close>

fun console_loop :: "devices \<Rightarrow> byte list \<Rightarrow> kernel \<Rightarrow> kernel option" where
  "console_loop dv [] s = Some s"
| "console_loop dv (b # bs) s =
     (let str = (if b = 0 then [] else [char_of_byte b]);
          s = s\<lparr>screen := fb_print (screen s) str\<rparr> in
      Option.bind (serial_putc dv (char_of_byte b) (ports s)) (\<lambda>t. console_loop dv bs (s\<lparr>ports := t\<rparr>)))"

definition dev_console_write :: "devices \<Rightarrow> kernel \<Rightarrow> u32 \<Rightarrow> u32 \<Rightarrow> byte list \<Rightarrow> (u32 \<times> kernel) option" where
  "dev_console_write dv s offset sz buffer =
     map_option (\<lambda>s'. (sz, s')) (console_loop dv (take (unat sz) buffer) s)"

fun kbd_read_loop :: "nat \<Rightarrow> kbd \<Rightarrow> byte list \<Rightarrow> (byte list \<times> kbd \<times> byte list) option" where
  "kbd_read_loop 0 k irqs = Some ([], k, irqs)"
| "kbd_read_loop (Suc n) k irqs =
     Option.bind (keyboard_getchar k irqs) (\<lambda>(c, k, irqs).
     Option.bind (kbd_read_loop n k irqs) (\<lambda>(bs, k, irqs). Some (of_char c # bs, k, irqs)))"

definition dev_kbd_read :: "kernel \<Rightarrow> u32 \<Rightarrow> u32 \<Rightarrow> (u32 \<times> byte list \<times> kernel) option" where
  "dev_kbd_read s offset sz =
     map_option (\<lambda>(bs, k, irqs). (sz, bs, s\<lparr>keyboard := k, scancodes := irqs\<rparr>))
       (kbd_read_loop (unat sz) (keyboard s) (scancodes s))"

text \<open>The frame buffer device writes bytes into the little-endian pixel words, without a bound.\<close>

definition poke_byte :: "(nat \<Rightarrow> u32) \<Rightarrow> nat \<Rightarrow> byte \<Rightarrow> (nat \<Rightarrow> u32)" where
  "poke_byte px k b =
     px(k div 4 := (px (k div 4) AND NOT (push_bit (8 * (k mod 4)) 0xFF)) OR push_bit (8 * (k mod 4)) (ucast b))"

fun poke_bytes :: "(nat \<Rightarrow> u32) \<Rightarrow> nat \<Rightarrow> byte list \<Rightarrow> (nat \<Rightarrow> u32)" where
  "poke_bytes px k [] = px"
| "poke_bytes px k (b # bs) = poke_bytes (poke_byte px k b) (Suc k) bs"

definition dev_fb_write :: "kernel \<Rightarrow> u32 \<Rightarrow> u32 \<Rightarrow> byte list \<Rightarrow> u32 \<times> kernel" where
  "dev_fb_write s offset sz buffer =
     (if fb_get_buffer (screen s) = 0 then (0, s)
      else (sz, s\<lparr>screen := (screen s)\<lparr>fb_pixels :=
              poke_bytes (fb_pixels (screen s)) (unat offset) (take (unat sz) buffer)\<rparr>\<rparr>))"

definition dev_eth_write ::
  "(e1000 \<Rightarrow> nat \<Rightarrow> byte) \<Rightarrow> kernel \<Rightarrow> u32 \<Rightarrow> u32 \<Rightarrow> byte list \<Rightarrow> (u32 \<times> kernel) option" where
  "dev_eth_write status s offset sz buffer =
     map_option (\<lambda>(r, e). (word_of_int r, s\<lparr>nic := e\<rparr>)) (e1000_send_packet status buffer (ucast sz) (nic s))"

definition dev_eth_read :: "kernel \<Rightarrow> u32 \<Rightarrow> u32 \<Rightarrow> u32 \<times> byte list \<times> kernel" where
  "dev_eth_read s offset sz =
     (case e1000_receive_packet (ucast sz) (nic s) of (r, data, e) \<Rightarrow> (word_of_int r, data, s\<lparr>nic := e\<rparr>))"

section \<open>Handlers of all file systems\<close>

text \<open>What a call through a node's function pointer runs. A pointer of another signature is never
  stored in the field.\<close>

fun kernel_finddir :: "handler \<Rightarrow> kernel \<Rightarrow> nid \<Rightarrow> string \<Rightarrow> (nid option \<times> kernel) option" where
  "kernel_finddir Fat_finddir s n name = fat32_finddir_impl (current_fat s) s n name"
| "kernel_finddir Jurk_finddir s n name = jurkvfs_finddir_impl (current_jurk s) s n name"
| "kernel_finddir Dev_finddir s n name = Some (devfs_finddir_impl s n name, s)"
| "kernel_finddir _ s n name = None"

fun kernel_readdir :: "handler \<Rightarrow> kernel \<Rightarrow> nid \<Rightarrow> u32 \<Rightarrow> dirent option option" where
  "kernel_readdir Fat_readdir s n index = fat32_readdir_impl (current_fat s) (nodes s n) index"
| "kernel_readdir Jurk_readdir s n index = jurkvfs_readdir_impl (current_jurk s) (nodes s n) index"
| "kernel_readdir Dev_readdir s n index = Some (devfs_readdir_impl s n index)"
| "kernel_readdir _ s n index = None"

fun kernel_read :: "handler \<Rightarrow> kernel \<Rightarrow> nid \<Rightarrow> u32 \<Rightarrow> u32 \<Rightarrow> (u32 \<times> byte list \<times> kernel) option" where
  "kernel_read Fat_read s n offset sz =
     map_option (\<lambda>(r, bs). (r, bs, s)) (fat32_read_impl (current_fat s) (nodes s n) offset sz)"
| "kernel_read Jurk_read s n offset sz =
     (case jurkvfs_read_impl (current_jurk s) (nodes s n) offset sz of (r, bs) \<Rightarrow> Some (r, bs, s))"
| "kernel_read Dev_zero_read s n offset sz = Some (dev_zero_read s offset sz)"
| "kernel_read Dev_urandom_read s n offset sz = Some (dev_urandom_read s offset sz)"
| "kernel_read Dev_kbd_read s n offset sz = dev_kbd_read s offset sz"
| "kernel_read Dev_eth_read s n offset sz = Some (dev_eth_read s offset sz)"
| "kernel_read _ s n offset sz = None"

fun kernel_write :: "devices \<Rightarrow> (e1000 \<Rightarrow> nat \<Rightarrow> byte) \<Rightarrow>
    handler \<Rightarrow> kernel \<Rightarrow> nid \<Rightarrow> u32 \<Rightarrow> u32 \<Rightarrow> byte list \<Rightarrow> (u32 \<times> kernel) option" where
  "kernel_write dv st Dev_null_write s n offset sz buffer = Some (dev_null_write s offset sz buffer)"
| "kernel_write dv st Dev_console_write s n offset sz buffer = dev_console_write dv s offset sz buffer"
| "kernel_write dv st Dev_fb_write s n offset sz buffer = Some (dev_fb_write s offset sz buffer)"
| "kernel_write dv st Dev_eth_write s n offset sz buffer = dev_eth_write st s offset sz buffer"
| "kernel_write dv st _ s n offset sz buffer = None"

section \<open>Registration\<close>

definition devfs_create_entry :: "string \<Rightarrow> u32 \<Rightarrow> kernel \<Rightarrow> nid \<times> kernel" where
  "devfs_create_entry name fl s =
     (case new_node (zero_node\<lparr>node_name := name, flags := fl,
              readdir_fn := Some Dev_readdir, finddir_fn := Some Dev_finddir\<rparr>) s of
        (n, s) \<Rightarrow> (n, s\<lparr>dev_children := (dev_children s)(n := [])\<rparr>))"

definition add_child :: "nid \<Rightarrow> nid \<Rightarrow> kernel \<Rightarrow> kernel" where
  "add_child parent c s =
     (if length (dev_children s parent) < MAX_CHILDREN
      then s\<lparr>dev_children := (dev_children s)(parent := dev_children s parent @ [c])\<rparr> else s)"

definition devfs_register_folder :: "string \<Rightarrow> kernel \<Rightarrow> kernel" where
  "devfs_register_folder folder_path s =
     (case dev_root s of
        None \<Rightarrow> s
      | Some r \<Rightarrow> (case devfs_create_entry folder_path VFS_DIRECTORY s of (sub, s) \<Rightarrow> add_child r sub s))"

text \<open>The folder of that name below the root, created if there is none.\<close>

definition folder_for :: "nid \<Rightarrow> string \<Rightarrow> kernel \<Rightarrow> nid \<times> kernel" where
  "folder_for r folder s =
     (case child_named s (dev_children s r) folder of
        Some f \<Rightarrow> (f, s)
      | None \<Rightarrow> (case devfs_create_entry folder VFS_DIRECTORY s of (f, s) \<Rightarrow> (f, add_child r f s)))"

definition add_device ::
  "nid \<Rightarrow> string \<Rightarrow> u32 \<Rightarrow> handler option \<Rightarrow> handler option \<Rightarrow> kernel \<Rightarrow> nid \<times> kernel" where
  "add_device parent name fl rd wr s =
     (let (entry, s) = devfs_create_entry name fl s;
          s = s\<lparr>nodes := (nodes s)(entry := (nodes s entry)\<lparr>read_fn := rd, write_fn := wr\<rparr>)\<rparr>
      in (entry, add_child parent entry s))"

text \<open>The folder and node names are copied into arrays of 32 and 64 characters: \<^term>\<open>None\<close> is
  their overflow.\<close>

definition devfs_register ::
  "string \<Rightarrow> u32 \<Rightarrow> handler option \<Rightarrow> handler option \<Rightarrow> kernel \<Rightarrow> (nid option \<times> kernel) option" where
  "devfs_register path fl rd wr s =
     (case dev_root s of
        None \<Rightarrow> Some (None, s)
      | Some r \<Rightarrow>
          (let folder = takeWhile (\<lambda>c. c \<noteq> CHR ''/'') path;
               slash = dropWhile (\<lambda>c. c \<noteq> CHR ''/'') path;
               name = (if slash \<noteq> [] then tl slash else path) in
           if slash \<noteq> [] \<and> length folder \<ge> 32 \<or> length name \<ge> 64 then None
           else
             (let (parent, s) = (if slash \<noteq> [] then folder_for r folder s else (r, s));
                  (entry, s) = add_device parent name fl rd wr s
              in Some (Some entry, s))))"

fun register_all :: "(string \<times> u32 \<times> handler option \<times> handler option) list \<Rightarrow> kernel \<Rightarrow> kernel option" where
  "register_all [] s = Some s"
| "register_all ((path, fl, rd, wr) # ds) s =
     Option.bind (devfs_register path fl rd wr s) (\<lambda>(_, s). register_all ds s)"

definition builtin_devices :: "(string \<times> u32 \<times> handler option \<times> handler option) list" where
  "builtin_devices = [
     (''null'', VFS_CHARDEVICE, None, Some Dev_null_write),
     (''zero'', VFS_CHARDEVICE, Some Dev_zero_read, None),
     (''urandom'', VFS_CHARDEVICE, Some Dev_urandom_read, None),
     (''console'', VFS_CHARDEVICE, None, Some Dev_console_write),
     (''tty'', VFS_CHARDEVICE, Some Dev_kbd_read, Some Dev_console_write),
     (''ttyS0'', VFS_CHARDEVICE, None, Some Dev_console_write),
     (''fb0'', VFS_CHARDEVICE, None, Some Dev_fb_write),
     (''input/kbd0'', VFS_CHARDEVICE, Some Dev_kbd_read, None),
     (''net/eth0'', VFS_CHARDEVICE, Some Dev_eth_read, Some Dev_eth_write),
     (''disk/jurk_root'', VFS_BLOCKDEVICE, None, None),
     (''disk/sda'', VFS_BLOCKDEVICE, None, None)]"

definition digit :: "nat \<Rightarrow> char" where
  "digit n = char_of (48 + n)"

definition pci_node :: "pci_device \<Rightarrow> string" where
  "pci_node d = ''pci/'' @ [digit (unat (pci_bus d) div 10), digit (unat (pci_bus d) mod 10), CHR '':'',
     digit (unat (pci_slot d) div 10), digit (unat (pci_slot d) mod 10), CHR ''.'', digit (unat (pci_func d))]"

text \<open>The loop over the PCI devices: what it registers.\<close>

definition pci_entries :: "pci_device list \<Rightarrow> (string \<times> u32 \<times> handler option \<times> handler option) list" where
  "pci_entries devs =
     map (\<lambda>d. (pci_node d, VFS_CHARDEVICE, None, None))
       (List.map_filter (pci_get_device devs) (map word_of_nat [0..<unat (pci_get_device_count devs)]))"

definition devfs_init :: "kernel \<Rightarrow> kernel option" where
  "devfs_init s =
     (case devfs_create_entry ''dev'' VFS_DIRECTORY s of (r, s) \<Rightarrow>
      Option.bind (register_all builtin_devices (s\<lparr>dev_root := Some r\<rparr>)) (\<lambda>s.
      Option.bind (register_all (pci_entries (pci_devices s)) s) (\<lambda>s.
      Option.bind (vfs_mount kernel_finddir s ''/dev'' (dev_root s)) (\<lambda>(_, s).
      Some (s\<lparr>klog := klog s @ [''DevFS: Successfully populated and mounted /dev with device tree.'']\<rparr>)))))"

section \<open>Device directories as directories\<close>

lemma child_named_map_of: "child_named s cs name = map_of (map (\<lambda>c. (node_name (nodes s c), c)) cs) name"
  by (induction cs) auto

lemma map_of_pair:
  "map_option g (map_of (map (\<lambda>c. (f c, c)) cs) name) = map_of (map (\<lambda>c. (f c, g c)) cs) name"
  by (induction cs) auto

definition dev_entries :: "kernel \<times> nid \<Rightarrow> (string \<times> u32 \<times> u32) list" where
  "dev_entries d = (case d of (s, n) \<Rightarrow>
     map (\<lambda>c. (node_name (nodes s c), inode (nodes s c), flags (nodes s c))) (dev_children s n))"

definition dev_list_at :: "kernel \<times> nid \<Rightarrow> nat \<Rightarrow> (string \<times> u32 \<times> u32) option" where
  "dev_list_at d i = (case d of (s, n) \<Rightarrow>
     if i < 2 ^ 32 then map_option (\<lambda>e. (d_name e, d_inode e, d_flags e)) (devfs_readdir_impl s n (word_of_nat i))
     else None)"

definition dev_find_name :: "kernel \<times> nid \<Rightarrow> string \<Rightarrow> (u32 \<times> u32) option" where
  "dev_find_name d name = (case d of (s, n) \<Rightarrow>
     map_option (\<lambda>c. (inode (nodes s c), flags (nodes s c))) (devfs_finddir_impl s n name))"

definition dev_dir_ok :: "kernel \<times> nid \<Rightarrow> bool" where
  "dev_dir_ok d \<longleftrightarrow> length (dev_children (fst d) (snd d)) \<le> MAX_CHILDREN"

interpretation dev_dir: directory dev_entries dev_list_at dev_find_name "\<lambda>_. True" dev_dir_ok
proof unfold_locales
  fix d i assume ok: "dev_dir_ok d"
  obtain s n where d: "d = (s, n)" by fastforce
  have "unat (word_of_nat i :: u32) = i" if "i < 2 ^ 32"
    using that by (simp add: unat_of_nat take_bit_nat_eq_self)
  then show "dev_list_at d i = (if i < length (dev_entries d) then Some (dev_entries d ! i) else None)"
    using ok by (auto simp: d dev_list_at_def dev_entries_def dev_dir_ok_def devfs_readdir_impl_def
        MAX_CHILDREN_def Let_def)
next
  fix d :: "kernel \<times> nid" and name
  obtain s n where d: "d = (s, n)" by fastforce
  show "dev_find_name d name = map_of (dev_entries d) name"
    unfolding d dev_find_name_def dev_entries_def devfs_finddir_impl_def prod.case
    by (simp add: child_named_map_of map_of_pair)
qed

section \<open>The device tree\<close>

text \<open>Every folder has at most 16 children, and children are allocated after their parent, so
  that the entries below the root form a tree.\<close>

definition dev_wf :: "kernel \<Rightarrow> nid \<Rightarrow> bool" where
  "dev_wf s r \<longleftrightarrow> dev_root s = Some r \<and> r < next_nid s \<and>
     (\<forall>n. length (dev_children s n) \<le> MAX_CHILDREN \<and> (\<forall>c \<in> set (dev_children s n). n < c \<and> c < next_nid s))"

lemma create_entry_eq:
  "devfs_create_entry name fl s = (next_nid s,
     s\<lparr>nodes := (nodes s)(next_nid s := zero_node\<lparr>node_name := name, flags := fl,
         readdir_fn := Some Dev_readdir, finddir_fn := Some Dev_finddir\<rparr>),
       next_nid := Suc (next_nid s), dev_children := (dev_children s)(next_nid s := [])\<rparr>)"
  by (simp add: devfs_create_entry_def new_node_def)

lemma dev_wfI:
  assumes "dev_root s = Some r" "r < next_nid s"
    and "\<And>n. length (dev_children s n) \<le> MAX_CHILDREN"
    and "\<And>n c. c \<in> set (dev_children s n) \<Longrightarrow> n < c \<and> c < next_nid s"
  shows "dev_wf s r"
  using assms unfolding dev_wf_def by blast

lemma dev_wfD:
  assumes "dev_wf s r"
  shows "dev_root s = Some r" "r < next_nid s"
    and "\<And>n. length (dev_children s n) \<le> MAX_CHILDREN"
    and "\<And>n c. c \<in> set (dev_children s n) \<Longrightarrow> n < c \<and> c < next_nid s"
  using assms unfolding dev_wf_def by blast+

lemma dev_wf_cong:
  "dev_root t = dev_root s \<Longrightarrow> next_nid t = next_nid s \<Longrightarrow> dev_children t = dev_children s \<Longrightarrow>
     dev_wf t r \<longleftrightarrow> dev_wf s r"
  unfolding dev_wf_def by (simp only:)

lemma create_entry_dev_wf:
  assumes "dev_wf s r"
  shows "dev_wf (snd (devfs_create_entry name fl s)) r"
proof (rule dev_wfI; (unfold create_entry_eq snd_conv)?)
  let ?s = "s\<lparr>nodes := (nodes s)(next_nid s := zero_node\<lparr>node_name := name, flags := fl,
         readdir_fn := Some Dev_readdir, finddir_fn := Some Dev_finddir\<rparr>),
       next_nid := Suc (next_nid s), dev_children := (dev_children s)(next_nid s := [])\<rparr>"
  show "dev_root ?s = Some r" "r < next_nid ?s"
    using dev_wfD(1,2) [OF assms] by simp_all
  show "length (dev_children ?s n) \<le> MAX_CHILDREN" for n
    using dev_wfD(3) [OF assms, of n] by (cases "n = next_nid s") simp_all
  show "n < c \<and> c < next_nid ?s" if "c \<in> set (dev_children ?s n)" for n c
    using that dev_wfD(4) [OF assms, of c n] by (cases "n = next_nid s") simp_all
qed

lemma create_entry_wf:
  assumes "dev_wf s r" "devfs_create_entry name fl s = (n, s')"
  shows "dev_wf s' r \<and> n = next_nid s \<and> next_nid s' = Suc n \<and> dev_children s' n = [] \<and>
     (\<forall>m < n. nodes s' m = nodes s m \<and> dev_children s' m = dev_children s m) \<and>
     nodes s' n = zero_node\<lparr>node_name := name, flags := fl, readdir_fn := Some Dev_readdir, finddir_fn := Some Dev_finddir\<rparr>"
  using create_entry_dev_wf [OF assms(1), of name fl] assms(2) by (auto simp: create_entry_eq)

lemma add_child_simps [simp]:
  "nodes (add_child p c s) = nodes s" "next_nid (add_child p c s) = next_nid s"
  "dev_root (add_child p c s) = dev_root s"
  "dev_children (add_child p c s) = (if length (dev_children s p) < MAX_CHILDREN
     then (dev_children s)(p := dev_children s p @ [c]) else dev_children s)"
  by (simp_all add: add_child_def)

lemma add_child_wf:
  assumes wf: "dev_wf s r" and "p < c" "c < next_nid s"
  shows "dev_wf (add_child p c s) r"
proof (cases "length (dev_children s p) < MAX_CHILDREN")
  case True
  show ?thesis
  proof (rule dev_wfI)
    show "dev_root (add_child p c s) = Some r" "r < next_nid (add_child p c s)"
      using dev_wfD(1,2) [OF wf] by simp_all
    show "length (dev_children (add_child p c s) n) \<le> MAX_CHILDREN" for n
      using True dev_wfD(3) [OF wf, of n] by (cases "n = p") simp_all
    show "n < k \<and> k < next_nid (add_child p c s)"
      if "k \<in> set (dev_children (add_child p c s) n)" for n k
      using that True assms(2,3) dev_wfD(4) [OF wf, of k n] by (cases "n = p") auto
  qed
qed (use wf in \<open>simp add: add_child_def\<close>)

lemma child_named_in: "child_named s cs name = Some c \<Longrightarrow> c \<in> set cs \<and> node_name (nodes s c) = name"
  by (induction cs) (auto split: if_splits)

lemma child_named_append:
  "child_named s (cs @ [c]) name = (case child_named s cs name of
     Some x \<Rightarrow> Some x | None \<Rightarrow> if node_name (nodes s c) = name then Some c else None)"
  by (induction cs) auto

lemma child_named_cong:
  "(\<And>c. c \<in> set cs \<Longrightarrow> nodes s c = nodes s' c) \<Longrightarrow> child_named s cs name = child_named s' cs name"
  by (induction cs) auto

text \<open>What a registration leaves as it was, and what it adds.\<close>

definition extends :: "kernel \<Rightarrow> kernel \<Rightarrow> bool" where
  "extends s s' \<longleftrightarrow> next_nid s \<le> next_nid s' \<and> (\<forall>n < next_nid s. nodes s' n = nodes s n) \<and> vfs_root s' = vfs_root s"

lemma extends_trans: "extends s t \<Longrightarrow> extends t u \<Longrightarrow> extends s u"
  by (simp add: extends_def)

lemma folder_for_wf:
  assumes wf: "dev_wf s r" and f: "folder_for r folder s = (f, s')"
  shows "dev_wf s' r \<and> f < next_nid s' \<and> extends s s'"
proof (cases "child_named s (dev_children s r) folder")
  case None
  obtain g s0 where g: "devfs_create_entry folder VFS_DIRECTORY s = (g, s0)" by fastforce
  note c = create_entry_wf [OF wf g]
  have "dev_wf (add_child r g s0) r"
    using add_child_wf [of s0 r r g] c dev_wfD(2) [OF wf] by linarith
  moreover have "f = g" "s' = add_child r g s0" using f None g by (auto simp: folder_for_def)
  moreover have "extends s s0" using g by (auto simp: create_entry_eq extends_def)
  ultimately show ?thesis using c by (simp add: extends_def add_child_def)
next
  case (Some g)
  then have "f = g" "s' = s" using f by (simp_all add: folder_for_def)
  then show ?thesis
    using wf child_named_in [OF Some] dev_wfD(4) [OF wf, of g r] by (simp add: extends_def)
qed

lemma add_device_eq:
  "add_device p name fl rd wr s =
    (next_nid s, add_child p (next_nid s)
      (s\<lparr>next_nid := Suc (next_nid s), dev_children := (dev_children s)(next_nid s := []),
         nodes := (nodes s)(next_nid s := zero_node\<lparr>node_name := name, flags := fl,
           readdir_fn := Some Dev_readdir, finddir_fn := Some Dev_finddir, read_fn := rd, write_fn := wr\<rparr>)\<rparr>))"
  by (simp add: add_device_def create_entry_eq zero_node_def)

lemma add_device_wf:
  assumes wf: "dev_wf s r" and p: "p < next_nid s"
  shows "dev_wf (snd (add_device p name fl rd wr s)) r" "extends s (snd (add_device p name fl rd wr s))"
proof -
  let ?t = "s\<lparr>next_nid := Suc (next_nid s), dev_children := (dev_children s)(next_nid s := []),
         nodes := (nodes s)(next_nid s := zero_node\<lparr>node_name := name, flags := fl,
           readdir_fn := Some Dev_readdir, finddir_fn := Some Dev_finddir, read_fn := rd, write_fn := wr\<rparr>)\<rparr>"
  have "dev_wf ?t r"
    by (rule dev_wf_cong [THEN iffD2, OF _ _ _ create_entry_dev_wf [OF wf, of name fl]])
      (simp_all add: create_entry_eq)
  then show "dev_wf (snd (add_device p name fl rd wr s)) r"
    unfolding add_device_eq snd_conv by (rule add_child_wf) (use p in simp_all)
  show "extends s (snd (add_device p name fl rd wr s))"
    unfolding add_device_eq extends_def by (simp add: add_child_def)
qed

lemma register_wf:
  assumes wf: "dev_wf s r" and reg: "devfs_register path fl rd wr s = Some (n, s')"
  shows "dev_wf s' r \<and> extends s s'"
proof -
  let ?folder = "takeWhile (\<lambda>c. c \<noteq> CHR ''/'') path"
  let ?slash = "dropWhile (\<lambda>c. c \<noteq> CHR ''/'') path"
  let ?name = "if ?slash \<noteq> [] then tl ?slash else path"
  obtain p s1 where p: "(if ?slash \<noteq> [] then folder_for r ?folder s else (r, s)) = (p, s1)" by fastforce
  have s': "s' = snd (add_device p ?name fl rd wr s1)"
    using reg p dev_wfD(1) [OF wf]
    by (simp add: devfs_register_def Let_def split: if_splits prod.splits)
  have "dev_wf s1 r \<and> p < next_nid s1 \<and> extends s s1"
    using p folder_for_wf [OF wf, of ?folder p s1] wf dev_wfD(2) [OF wf]
    by (auto simp: extends_def split: if_splits)
  then show ?thesis unfolding s' using add_device_wf extends_trans by blast
qed

lemma register_all_wf:
  "dev_wf s r \<Longrightarrow> register_all ds s = Some s' \<Longrightarrow> dev_wf s' r \<and> extends s s'"
proof (induction ds arbitrary: s)
  case Nil
  then show ?case by (simp add: extends_def)
next
  case (Cons d ds)
  obtain path fl rd wr where d: "d = (path, fl, rd, wr)" by (cases d)
  from Cons.prems obtain n t where t: "devfs_register path fl rd wr s = Some (n, t)" "register_all ds t = Some s'"
    by (auto simp: d bind_eq_Some_conv)
  from register_wf [OF Cons.prems(1) t(1)] Cons.IH [of t] t(2) show ?case
    using extends_trans by blast
qed

text \<open>The path of an entry: the folder and the name.\<close>

lemma split_folder:
  assumes "CHR ''/'' \<notin> set folder"
  shows "takeWhile (\<lambda>c. c \<noteq> CHR ''/'') (folder @ CHR ''/'' # name) = folder"
    "dropWhile (\<lambda>c. c \<noteq> CHR ''/'') (folder @ CHR ''/'' # name) = CHR ''/'' # name"
  using assms by (induction folder) auto

lemma add_device_found:
  assumes wf: "dev_wf s r" and p: "p < next_nid s"
    and free: "child_named s (dev_children s p) name = None"
  shows "fst (add_device p name fl rd wr s) = next_nid s"
    and "devfs_finddir_impl (snd (add_device p name fl rd wr s)) p name =
      (if length (dev_children s p) < MAX_CHILDREN then Some (next_nid s) else None)"
    and "q < next_nid s \<Longrightarrow> child_named s (dev_children s q) other = Some c \<Longrightarrow>
      devfs_finddir_impl (snd (add_device p name fl rd wr s)) q other = Some c"
proof -
  let ?s' = "snd (add_device p name fl rd wr s)"
  have old: "nodes ?s' c = nodes s c" if "c < next_nid s" for c
    using that by (simp add: add_device_eq)
  have kids: "child_named ?s' (dev_children s q) x = child_named s (dev_children s q) x" if "q < next_nid s" for q x
    by (rule child_named_cong) (use old dev_wfD(4) [OF wf] in simp)
  have ch: "dev_children ?s' q = dev_children s q @ (if q = p \<and> length (dev_children s p) < MAX_CHILDREN then [next_nid s] else [])"
    if "q < next_nid s" for q
    using that p by (auto simp: add_device_eq)
  have nm: "node_name (nodes ?s' (next_nid s)) = name" by (simp add: add_device_eq)
  show "fst (add_device p name fl rd wr s) = next_nid s" by (simp add: add_device_eq)
  show "devfs_finddir_impl ?s' p name = (if length (dev_children s p) < MAX_CHILDREN then Some (next_nid s) else None)"
    using ch [OF p] kids [OF p] free nm by (simp add: devfs_finddir_impl_def child_named_append)
  show "devfs_finddir_impl ?s' q other = Some c"
    if "q < next_nid s" "child_named s (dev_children s q) other = Some c"
    using ch [OF that(1)] kids [OF that(1), of other] that
    by (auto simp: devfs_finddir_impl_def child_named_append)
qed

section \<open>Initialisation\<close>

text \<open>What may be in the store before the device tree is built: device lists of earlier trees.\<close>

definition dev_ok :: "kernel \<Rightarrow> bool" where
  "dev_ok s \<longleftrightarrow> (\<forall>n. length (dev_children s n) \<le> MAX_CHILDREN \<and> (\<forall>c \<in> set (dev_children s n). n < c \<and> c < next_nid s))"

lemma create_root_wf:
  assumes "dev_ok s" "devfs_create_entry name fl s = (r, s')"
  shows "dev_wf (s'\<lparr>dev_root := Some r\<rparr>) r" "extends s (s'\<lparr>dev_root := Some r\<rparr>)"
proof -
  have e: "r = next_nid s" "dev_children s' = (dev_children s)(next_nid s := [])" "next_nid s' = Suc (next_nid s)"
    using assms(2) by (auto simp: create_entry_eq)
  show "dev_wf (s'\<lparr>dev_root := Some r\<rparr>) r"
  proof (rule dev_wfI)
    show "dev_root (s'\<lparr>dev_root := Some r\<rparr>) = Some r" "r < next_nid (s'\<lparr>dev_root := Some r\<rparr>)"
      using e by simp_all
    show "length (dev_children (s'\<lparr>dev_root := Some r\<rparr>) n) \<le> MAX_CHILDREN" for n
      using assms(1) e by (cases "n = r") (simp_all add: dev_ok_def)
    show "n < c \<and> c < next_nid (s'\<lparr>dev_root := Some r\<rparr>)"
      if "c \<in> set (dev_children (s'\<lparr>dev_root := Some r\<rparr>) n)" for n c
      using assms(1) e that less_SucI [of c "next_nid s"] by (cases "n = r") (auto simp: dev_ok_def)
  qed
  show "extends s (s'\<lparr>dev_root := Some r\<rparr>)"
    using assms(2) by (auto simp: create_entry_eq extends_def)
qed

section \<open>A small kernel state\<close>

definition demo_kernel :: kernel where
  "demo_kernel = \<lparr>nodes = (\<lambda>_. zero_node), next_nid = 1, vfs_root = None, klog = [],
     dev_root = Some 0, dev_children = (\<lambda>_. []), urandom_seed = 0x12345678, screen = demo_fb, ports = [],
     keyboard = kbd_start, scancodes = [], nic = demo_nic, pci_devices = [], current_fat = fat_demo,
     current_jurk = demo_fs\<rparr>"

lemma demo_kernel_wf: "dev_wf demo_kernel 0"
  by (rule dev_wfI) (simp_all add: demo_kernel_def)

section \<open>Properties\<close>

text \<open>
  Registering a device \<open>folder/name\<close> creates the folder if it is missing and keeps the tree
  well formed; the node it returns has the flags and handlers asked for and is found in the folder
  under its name, unless the folder already had 16 children: then a node is returned all the same,
  but no path leads to it.
\<close>

theorem devfs_register_found:
  assumes wf: "dev_wf s r" and path: "CHR ''/'' \<notin> set folder" "length folder < 32" "length name < 64"
    and f: "folder_for r folder s = (f, s1)"
    and linked: "child_named s1 (dev_children s1 r) folder = Some f"
    and free: "child_named s1 (dev_children s1 f) name = None"
  shows "\<exists>n s'. devfs_register (folder @ CHR ''/'' # name) fl rd wr s = Some (Some n, s') \<and> dev_wf s' r \<and>
    flags (nodes s' n) = fl \<and> read_fn (nodes s' n) = rd \<and> write_fn (nodes s' n) = wr \<and>
    devfs_finddir_impl s' r folder = Some f \<and>
    devfs_finddir_impl s' f name = (if length (dev_children s1 f) < MAX_CHILDREN then Some n else None)"
proof -
  note 1 = folder_for_wf [OF wf f]
  let ?a = "add_device f name fl rd wr s1"
  note a = add_device_found [of s1 r f name, where fl = fl and rd = rd and wr = wr]
  have "devfs_register (folder @ CHR ''/'' # name) fl rd wr s = Some (Some (fst ?a), snd ?a)"
    using dev_wfD(1) [OF wf] path f split_folder [OF path(1), of name]
    by (simp add: devfs_register_def Let_def split_beta)
  moreover have "dev_wf (snd ?a) r" using add_device_wf [of s1 r f] 1 by blast
  moreover have "devfs_finddir_impl (snd ?a) r folder = Some f"
    using a(3) [OF _ _ free, of r folder f] 1 linked dev_wfD(2) [of s1 r] by blast
  moreover have "devfs_finddir_impl (snd ?a) f name = (if length (dev_children s1 f) < MAX_CHILDREN then Some (fst ?a) else None)"
    using a(1,2) 1 free by simp
  moreover have "flags (nodes (snd ?a) (fst ?a)) = fl" "read_fn (nodes (snd ?a) (fst ?a)) = rd"
      "write_fn (nodes (snd ?a) (fst ?a)) = wr"
    by (simp_all add: add_device_eq)
  ultimately show ?thesis by blast
qed

theorem devfs_register_found_witness:
  "\<exists>n s'. devfs_register ''net/eth0'' VFS_CHARDEVICE (Some Dev_eth_read) (Some Dev_eth_write) demo_kernel = Some (Some n, s') \<and>
     devfs_finddir_impl s' 1 ''eth0'' = Some n"
proof -
  let ?s1 = "snd (folder_for 0 ''net'' demo_kernel)"
  have f: "folder_for 0 ''net'' demo_kernel = (1, ?s1)"
    by (simp add: folder_for_def create_entry_eq demo_kernel_def)
  have "dev_children ?s1 0 = [1]" "dev_children ?s1 1 = []" "node_name (nodes ?s1 1) = ''net''"
    by (simp_all add: folder_for_def create_entry_eq demo_kernel_def MAX_CHILDREN_def)
  then show ?thesis
    using devfs_register_found [OF demo_kernel_wf _ _ _ f, where name = "''eth0''" and fl = VFS_CHARDEVICE
      and rd = "Some Dev_eth_read" and wr = "Some Dev_eth_write"]
    by (auto simp: MAX_CHILDREN_def)
qed

end
