(* ===== verification/Mounts.thy ===== *)
theory Mounts
  imports Devfs
begin

text \<open>
  How the file systems are put together at boot (\<^verbatim>\<open>kernel_main.c\<close>, lines 381 to 408): the locale
  \<open>disk_backend\<close> states what a disk file system promises to a path lookup, and is interpreted on
  FAT32 and on JurkVFS; from it follows where lookups can lead after the mounts of boot.
\<close>

section \<open>Disks\<close>

text \<open>The promise of a disk file system to a lookup: what it finds is a new node, made for this
  lookup alone, that is no mount point and no device.\<close>

definition disk_node :: "vfs_node \<Rightarrow> bool" where
  "disk_node v \<longleftrightarrow> node_ptr v = None \<and> readdir_fn v \<noteq> Some Dev_readdir \<and>
     finddir_fn v \<in> {None, Some Fat_finddir, Some Jurk_finddir}"

locale disk_backend =
  fixes h :: handler
  assumes found_fresh: "kernel_finddir h s n name = Some (Some m, s') \<Longrightarrow>
      \<exists>v. disk_node v \<and> (m, s') = new_node v s"
    and not_found: "kernel_finddir h s n name = Some (None, s') \<Longrightarrow> s' = s"
begin

lemma found_extends:
  assumes "kernel_finddir h s n name = Some (Some m, s')"
  shows "next_nid s \<le> m \<and> m < next_nid s' \<and> disk_node (nodes s' m) \<and> extends s s' \<and>
    dev_children s' = dev_children s \<and> dev_root s' = dev_root s"
  using found_fresh [OF assms] by (auto simp: new_node_def extends_def)

end

lemma fat_create_disk: "\<exists>v. disk_node v \<and> fat32_create_node name c sz is_dir s = new_node v s"
  by (rule exI, rule conjI [rotated], unfold fat32_create_node_def Let_def, rule refl)
    (simp add: disk_node_def zero_node_def)

interpretation fat: disk_backend Fat_finddir
proof unfold_locales
  fix s n name m s'
  assume "kernel_finddir Fat_finddir s n name = Some (Some m, s')"
  then obtain e where "fat32_create_node (fat32_format_name (fd_name e)) (first_cluster_of e) (fd_size e)
      (fd_attr e AND FAT_ATTR_DIRECTORY \<noteq> 0) s = (m, s')"
    by (auto simp: fat32_finddir_impl_def split: option.splits priv.splits prod.splits)
  then show "\<exists>v. disk_node v \<and> (m, s') = new_node v s"
    using fat_create_disk by metis
next
  fix s n name s'
  assume "kernel_finddir Fat_finddir s n name = Some (None, s')"
  then show "s' = s"
    by (auto simp: fat32_finddir_impl_def split: option.splits priv.splits prod.splits)
qed

lemma jurk_create_node:
  "jurkvfs_create_vfs_node fs i s = Some (r, s') \<Longrightarrow>
     \<exists>nm m. r = Some m \<and> new_node (jurkvfs_node fs i nm) s = (m, s')"
  by (auto simp: jurkvfs_create_vfs_node_def bind_eq_Some_conv new_node_def)

lemma jurk_disk_node: "disk_node (jurkvfs_node fs i nm)"
  by (simp add: jurkvfs_node_def disk_node_def zero_node_def Let_def)

interpretation jurk: disk_backend Jurk_finddir
proof unfold_locales
  fix s n name m s'
  assume "kernel_finddir Jurk_finddir s n name = Some (Some m, s')"
  then obtain i where "jurkvfs_create_vfs_node (current_jurk s) i s = Some (Some m, s')"
    by (auto simp: jurkvfs_finddir_impl_def split: option.splits priv.splits)
  from jurk_create_node [OF this] obtain nm where "new_node (jurkvfs_node (current_jurk s) i nm) s = (m, s')"
    by auto
  then show "\<exists>v. disk_node v \<and> (m, s') = new_node v s" using jurk_disk_node by metis
next
  fix s n name s'
  assume "kernel_finddir Jurk_finddir s n name = Some (None, s')"
  then show "s' = s"
    by (auto simp: jurkvfs_finddir_impl_def jurkvfs_create_vfs_node_def bind_eq_Some_conv
        split: option.splits priv.splits prod.splits)
qed

lemma disk_finddir:
  assumes "disk_node (nodes s n)" "vfs_finddir kernel_finddir s (Some n) name = Some (m, s')"
  shows "extends s s' \<and> dev_children s' = dev_children s \<and> dev_root s' = dev_root s \<and>
    (case m of None \<Rightarrow> s' = s | Some k \<Rightarrow> next_nid s \<le> k \<and> k < next_nid s' \<and> disk_node (nodes s' k))"
proof (cases "is_directory (nodes s n) \<and> finddir_fn (nodes s n) \<noteq> None")
  case True
  then obtain h where h: "h = Fat_finddir \<or> h = Jurk_finddir" "kernel_finddir h s n name = Some (m, s')"
    using assms by (fastforce simp: vfs_finddir_def disk_node_def)
  show ?thesis
  proof (cases m)
    case None
    then have "s' = s" using h fat.not_found jurk.not_found by blast
    then show ?thesis by (simp add: None extends_def)
  next
    case (Some k)
    then show ?thesis using h fat.found_extends jurk.found_extends by auto
  qed
next
  case False
  then have "m = None" "s' = s" using assms(2) by (auto simp: vfs_finddir_def split: if_splits option.splits)
  then show ?thesis by (simp add: extends_def)
qed

text \<open>Looking a path up from a disk node ends there or at a new disk node.\<close>

lemma follow_disk: "disk_node (nodes s n) \<Longrightarrow> follow s n = n"
  by (simp add: follow_def disk_node_def)

lemma disk_lookup_loop:
  assumes "disk_node (nodes s n)" "n < next_nid s" "lookup_loop kernel_finddir s n path = Some (m, s')"
  shows "extends s s' \<and> dev_children s' = dev_children s \<and> dev_root s' = dev_root s \<and>
    (case m of None \<Rightarrow> True | Some k \<Rightarrow> (k = n \<or> next_nid s \<le> k) \<and> k < next_nid s' \<and> disk_node (nodes s' k))"
  using assms
proof (induction "length path" arbitrary: s n path rule: less_induct)
  case less
  show ?case
  proof (cases "path = []")
    case True
    then show ?thesis using less.prems by (auto simp: lookup_loop.simps extends_def)
  next
    case False
    obtain t rest where t: "take_token 127 path = (t, rest)" by fastforce
    have lt: "length (skip_slash rest) < length path"
      using take_token_progress [of path 126 t rest] False t by simp
    show ?thesis
    proof (cases "t = []")
      case True
      then show ?thesis
        using less.hyps [OF lt less.prems(1,2)] less.prems(3) False t
        by (simp add: lookup_loop.simps [of _ _ _ path] FS_MAX_NAME_def)
    next
      case tok: False
      obtain k s1 where k: "vfs_finddir kernel_finddir s (Some n) t = Some (k, s1)"
        using less.prems(3) False t tok follow_disk [OF less.prems(1)]
        by (auto simp: lookup_loop.simps [of _ _ _ path] FS_MAX_NAME_def Let_def split: option.splits)
      note d = disk_finddir [OF less.prems(1) k]
      show ?thesis
      proof (cases k)
        case None
        then show ?thesis
          using d less.prems(3) False t tok k follow_disk [OF less.prems(1)]
          by (auto simp: lookup_loop.simps [of _ _ _ path] FS_MAX_NAME_def Let_def)
      next
        case (Some j)
        with less.prems(3) False t tok k follow_disk [OF less.prems(1)]
        have "lookup_loop kernel_finddir s1 j (skip_slash rest) = Some (m, s')"
          by (simp add: lookup_loop.simps [of _ _ _ path] FS_MAX_NAME_def Let_def)
        with less.hyps [OF lt, of s1 j] d Some show ?thesis
          by (auto simp: extends_def split: option.splits)
      qed
    qed
  qed
qed

lemma lookup_dev:
  "lookup_loop fd s n ''dev'' =
     (case vfs_finddir fd s (Some (follow s n)) ''dev'' of
        None \<Rightarrow> None | Some (None, s') \<Rightarrow> Some (None, s') | Some (Some k, s') \<Rightarrow> Some (Some k, s'))"
  by (simp add: lookup_loop.simps FS_MAX_NAME_def eval_nat_numeral skip_slash_def
      split: option.splits prod.splits)

text \<open>A state whose root is a disk, or the empty root \<open>vfs_init\<close> makes.\<close>

definition disk_root :: "kernel \<Rightarrow> nid \<Rightarrow> bool" where
  "disk_root s r \<longleftrightarrow> vfs_root s = Some r \<and> r < next_nid s \<and> disk_node (nodes s r)"

lemma extends_root: "disk_root s r \<Longrightarrow> extends s s' \<Longrightarrow> disk_root s' r"
  by (auto simp: disk_root_def extends_def)

lemma mount_dev:
  assumes root: "disk_root s r" and wf: "dev_wf s d"
    and m: "vfs_mount kernel_finddir s ''/dev'' (Some d) = Some (c, s')"
  shows "disk_root s' r \<and> dev_wf s' d"
proof -
  have r: "vfs_root s = Some r" "r < next_nid s" "disk_node (nodes s r)"
    using root by (simp_all add: disk_root_def)
  obtain k s1 where k: "vfs_finddir kernel_finddir s (Some r) ''dev'' = Some (k, s1)"
    using m r follow_disk [OF r(3)]
    by (auto simp: vfs_mount_def vfs_lookup_def skip_slash_def lookup_dev split: option.splits)
  note d = disk_finddir [OF r(3) k]
  have root1: "disk_root s1 r" using extends_root [OF root] d by blast
  have wf1: "dev_wf t d" if "dev_root t = dev_root s1" "next_nid t = next_nid s1" "dev_children t = dev_children s1" for t
  proof (rule dev_wfI)
    show "dev_root t = Some d" "d < next_nid t"
      using that d dev_wfD(1,2) [OF wf] by (auto simp: extends_def)
    show "length (dev_children t n) \<le> MAX_CHILDREN" for n
      using that d dev_wfD(3) [OF wf] by simp
    show "n < c \<and> c < next_nid t" if "c \<in> set (dev_children t n)" for n c
      using that \<open>next_nid t = next_nid s1\<close> \<open>dev_children t = dev_children s1\<close> d dev_wfD(4) [OF wf, of c n]
      by (auto simp: extends_def)
  qed
  show ?thesis
  proof (cases k)
    case None
    then have "s' = s1\<lparr>klog := klog s1 @ [''VFS: Mount point '' @ ''/dev'' @ '' not found!'']\<rparr>"
      using m r k follow_disk [OF r(3)]
      by (simp add: vfs_mount_def vfs_lookup_def skip_slash_def lookup_dev)
    then show ?thesis using root1 wf1 by (simp add: disk_root_def)
  next
    case (Some j)
    then have "j \<noteq> r" "disk_node (nodes s1 j)" using d r(2) by auto
    moreover from this Some have "s' = s1\<lparr>nodes := (nodes s1)(j := (nodes s1 j)\<lparr>node_ptr := Some d\<rparr>),
        klog := klog s1 @ [''VFS: Mounted target to '' @ ''/dev'']\<rparr>"
      using m r k follow_disk [OF r(3)] follow_disk [of s1 j]
      by (simp add: vfs_mount_def vfs_lookup_def skip_slash_def lookup_dev)
    ultimately show ?thesis using root1 wf1 by (simp add: disk_root_def)
  qed
qed

lemma devfs_init_root:
  assumes root: "disk_root s r" and ok: "dev_ok s" and init: "devfs_init s = Some s'"
  shows "disk_root s' r \<and> (\<exists>d. dev_wf s' d)"
proof -
  obtain d s0 where e: "devfs_create_entry ''dev'' VFS_DIRECTORY s = (d, s0)" by fastforce
  from init e obtain s1 s2 c s3 where
    1: "register_all builtin_devices (s0\<lparr>dev_root := Some d\<rparr>) = Some s1" and
    2: "register_all (pci_entries (pci_devices s1)) s1 = Some s2" and
    3: "vfs_mount kernel_finddir s2 ''/dev'' (dev_root s2) = Some (c, s3)" and
    4: "s' = s3\<lparr>klog := klog s3 @ [''DevFS: Successfully populated and mounted /dev with device tree.'']\<rparr>"
    by (auto simp: devfs_init_def bind_eq_Some_conv)
  note w0 = create_root_wf [OF ok e]
  note w1 = register_all_wf [OF w0(1) 1]
  have w2: "dev_wf s2 d \<and> extends s1 s2" using register_all_wf [OF _ 2] w1 by blast
  then have "extends s s2" using w0(2) w1 extends_trans by blast
  then have "disk_root s3 r \<and> dev_wf s3 d"
    using mount_dev [of s2 r d c s3] extends_root [OF root] w2 3 dev_wfD(1) [of s2 d] by simp
  moreover from this have "dev_wf s' d"
    by (intro dev_wf_cong [of s' s3, THEN iffD2]) (simp_all add: 4)
  ultimately show ?thesis by (auto simp: 4 disk_root_def)
qed

section \<open>Mounting the file systems at boot\<close>

text \<open>The part of \<^verbatim>\<open>kernel_main\<close> that sets up the file systems (lines 381 to 408): the memory root, the
  device tree, and the disk module if the boot loader passed one. The result says which root
  is mounted.\<close>

datatype root_fs = Memory_root | Fat_disk | Jurk_disk

definition mount_disk :: "(image \<times> u64) option \<Rightarrow> kernel \<Rightarrow> (root_fs \<times> kernel) option" where
  "mount_disk module s =
     (case module of
        None \<Rightarrow> Some (Memory_root, s)
      | Some (img, sz) \<Rightarrow>
          (case fat32_init (Some img) sz s of
             (Some fs, Some fat_root, s) \<Rightarrow>
               Option.bind (vfs_mount kernel_finddir (s\<lparr>current_fat := fs\<rparr>) ''/'' (Some fat_root)) (\<lambda>(_, s).
               map_option (\<lambda>s. (Fat_disk, s)) (devfs_init s))
           | (_, _, s) \<Rightarrow>
               Option.bind (jurkvfs_init (Some img) sz s) (\<lambda>(fs, jurk_root, s).
                 case (fs, jurk_root) of
                   (Some fs, Some jr) \<Rightarrow>
                     Option.bind (vfs_mount kernel_finddir (s\<lparr>current_jurk := fs\<rparr>) ''/'' (Some jr)) (\<lambda>(_, s).
                     map_option (\<lambda>s. (Jurk_disk, s)) (devfs_init s))
                 | _ \<Rightarrow> Some (Memory_root, s))))"

definition boot_filesystems :: "(image \<times> u64) option \<Rightarrow> kernel \<Rightarrow> (root_fs \<times> kernel) option" where
  "boot_filesystems module s = Option.bind (devfs_init (vfs_init s)) (mount_disk module)"

lemma dev_wf_ok: "dev_wf s d \<Longrightarrow> dev_ok s"
  by (simp add: dev_wf_def dev_ok_def)

lemma vfs_init_root:
  assumes "dev_ok s"
  shows "disk_root (vfs_init s) (next_nid s)" "dev_ok (vfs_init s)"
proof -
  show "disk_root (vfs_init s) (next_nid s)"
    by (simp add: vfs_init_def new_node_def disk_root_def disk_node_def zero_node_def)
  have "c < Suc (next_nid s)" if "c \<in> set (dev_children s n)" for n c
    using assms that less_SucI unfolding dev_ok_def by blast
  then show "dev_ok (vfs_init s)"
    using assms by (simp add: vfs_init_def new_node_def dev_ok_def)
qed

lemma new_disk_root:
  assumes "dev_ok s" "disk_node v" "new_node v s = (n, s')"
  shows "disk_root (s'\<lparr>vfs_root := Some n\<rparr>) n" "dev_ok s'"
proof -
  have s': "n = next_nid s" "s' = s\<lparr>nodes := (nodes s)(n := v), next_nid := Suc n\<rparr>"
    using assms(3) by (auto simp: new_node_def)
  then show "disk_root (s'\<lparr>vfs_root := Some n\<rparr>) n" using assms(2) by (simp add: disk_root_def)
  have "c < Suc (next_nid s)" if "c \<in> set (dev_children s k)" for k c
    using assms(1) that less_SucI unfolding dev_ok_def by blast
  then show "dev_ok s'" using assms(1) by (simp add: s' dev_ok_def)
qed

lemma fat32_init_root:
  assumes "dev_ok s" "fat32_init img sz s = (fs, r, s')"
  shows "dev_ok s' \<and> vfs_root s' = vfs_root s \<and> extends s s' \<and>
    (\<forall>n. r = Some n \<longrightarrow> disk_root (s'\<lparr>vfs_root := Some n\<rparr>) n)"
proof (cases r)
  case None
  then show ?thesis
    using assms by (auto simp: fat32_init_def Let_def dev_ok_def extends_def split: option.splits if_splits prod.splits)
next
  case (Some n)
  with assms(2) obtain t root where t: "fat32_create_node ''/'' root 0 True t = (n, s')"
      "nodes t = nodes s" "next_nid t = next_nid s" "vfs_root t = vfs_root s" "dev_children t = dev_children s"
    by (auto simp: fat32_init_def Let_def split: option.splits if_splits prod.splits)
  obtain v where v: "disk_node v" "new_node v t = (n, s')" using fat_create_disk [of "''/''" root 0 True t] t(1) by metis
  have "dev_ok t" using assms(1) t by (simp add: dev_ok_def)
  note d = new_disk_root [OF this v]
  moreover have "vfs_root s' = vfs_root s" "extends s s'"
    using v(2) t by (auto simp: new_node_def extends_def)
  ultimately show ?thesis using Some by simp
qed

lemma jurkvfs_init_root:
  assumes "dev_ok s" "jurkvfs_init img sz s = Some (fs, r, s')"
  shows "dev_ok s' \<and> vfs_root s' = vfs_root s \<and> extends s s' \<and>
    (\<forall>n. r = Some n \<longrightarrow> disk_root (s'\<lparr>vfs_root := Some n\<rparr>) n)"
proof (cases r)
  case None
  then show ?thesis
    using assms by (auto simp: jurkvfs_init_def Let_def dev_ok_def extends_def bind_eq_Some_conv
      jurkvfs_create_vfs_node_def split: option.splits if_splits prod.splits)
next
  case (Some n)
  with assms(2) obtain t jf where c: "jurkvfs_create_vfs_node jf 0 t = Some (Some n, s')"
    and t: "nodes t = nodes s" "next_nid t = next_nid s" "vfs_root t = vfs_root s" "dev_children t = dev_children s"
    by (auto simp: jurkvfs_init_def Let_def bind_eq_Some_conv split: option.splits if_splits)
  from jurk_create_node [OF c] obtain nm where n: "new_node (jurkvfs_node jf 0 nm) t = (n, s')" by auto
  have "dev_ok t" using assms(1) t by (simp add: dev_ok_def)
  then have "disk_root (s'\<lparr>vfs_root := Some n\<rparr>) n" "dev_ok s'"
    using new_disk_root [OF _ jurk_disk_node n] by blast+
  moreover have "vfs_root s' = vfs_root s" "extends s s'"
    using t n by (auto simp: new_node_def extends_def)
  ultimately show ?thesis using Some by simp
qed

text \<open>Mounting a new disk root and building the device tree on it.\<close>

lemma mount_root:
  assumes "dev_ok s" "disk_root (s\<lparr>vfs_root := Some n\<rparr>) n"
    and "Option.bind (vfs_mount kernel_finddir t ''/'' (Some n)) (\<lambda>(_, s). map_option (\<lambda>s. (c, s)) (devfs_init s)) = Some (b, s')"
    and t: "nodes t = nodes s" "next_nid t = next_nid s" "dev_children t = dev_children s"
  shows "\<exists>r. disk_root s' r"
proof -
  have "devfs_init (t\<lparr>vfs_root := Some n\<rparr>) = Some s'"
    using assms(3) by (auto simp: vfs_mount_def)
  moreover have "dev_ok (t\<lparr>vfs_root := Some n\<rparr>)" using assms(1) t by (simp add: dev_ok_def)
  moreover have "disk_root (t\<lparr>vfs_root := Some n\<rparr>) n" using assms(2) t by (simp add: disk_root_def)
  ultimately show ?thesis using devfs_init_root by blast
qed

lemma boot_root:
  assumes ok: "dev_ok s" and boot: "boot_filesystems module s = Some (b, s')"
  shows "\<exists>r. disk_root s' r"
proof -
  obtain s1 where 1: "devfs_init (vfs_init s) = Some s1" "mount_disk module s1 = Some (b, s')"
    using boot by (auto simp: boot_filesystems_def bind_eq_Some_conv)
  obtain d where r1: "disk_root s1 (next_nid s)" "dev_wf s1 d"
    using devfs_init_root [OF vfs_init_root [OF ok] 1(1)] by blast
  note ok1 = dev_wf_ok [OF r1(2)]
  show ?thesis
  proof (cases module)
    case None
    then show ?thesis using 1(2) r1(1) by (auto simp: mount_disk_def)
  next
    case (Some im)
    obtain img sz where im: "im = (img, sz)" by fastforce
    obtain fs fr s2 where f: "fat32_init (Some img) sz s1 = (fs, fr, s2)" by (metis prod_cases3)
    note fi = fat32_init_root [OF ok1 f]
    show ?thesis
    proof (cases "\<exists>fs' n. fs = Some fs' \<and> fr = Some n")
      case True
      then obtain fs' n where "fs = Some fs'" "fr = Some n" by blast
      then show ?thesis
        using mount_root [where s = s2 and n = n and t = "s2\<lparr>current_fat := fs'\<rparr>"] 1(2) fi Some im f by (simp add: mount_disk_def)
    next
      case False
      then have "Option.bind (jurkvfs_init (Some img) sz s2) (\<lambda>(fs, jurk_root, s).
                 case (fs, jurk_root) of
                   (Some fs, Some jr) \<Rightarrow>
                     Option.bind (vfs_mount kernel_finddir (s\<lparr>current_jurk := fs\<rparr>) ''/'' (Some jr)) (\<lambda>(_, s).
                     map_option (\<lambda>s. (Jurk_disk, s)) (devfs_init s))
                 | _ \<Rightarrow> Some (Memory_root, s)) = Some (b, s')"
        using 1(2) Some im f by (cases fs; cases fr) (simp_all add: mount_disk_def)
      then obtain jf jr s3 where j: "jurkvfs_init (Some img) sz s2 = Some (jf, jr, s3)"
        and m: "(case (jf, jr) of
                   (Some fs, Some jr) \<Rightarrow>
                     Option.bind (vfs_mount kernel_finddir (s3\<lparr>current_jurk := fs\<rparr>) ''/'' (Some jr)) (\<lambda>(_, s).
                     map_option (\<lambda>s. (Jurk_disk, s)) (devfs_init s))
                 | _ \<Rightarrow> Some (Memory_root, s3)) = Some (b, s')"
        by (auto simp: bind_eq_Some_conv)
      have ok2: "dev_ok s2" using fi by blast
      note ji = jurkvfs_init_root [OF ok2 j]
      have "disk_root s3 (next_nid s)"
        using extends_root [OF r1(1)] fi ji extends_trans by blast
      then show ?thesis
        using m ji mount_root [where s = s3 and b = b and s' = s'] by (cases jf; cases jr) auto
    qed
  qed
qed

section \<open>Booting without a disk\<close>

lemma register_succeeds:
  assumes "dev_root s = Some r" "length (takeWhile (\<lambda>c. c \<noteq> CHR ''/'') path) < 32" "length path < 64"
  shows "\<exists>n s'. devfs_register path fl rd wr s = Some (n, s') \<and> dev_root s' = Some r \<and> pci_devices s' = pci_devices s"
proof -
  have "length (if dropWhile (\<lambda>c. c \<noteq> CHR ''/'') path \<noteq> [] then tl (dropWhile (\<lambda>c. c \<noteq> CHR ''/'') path) else path) < 64"
    using assms(3) length_dropWhile_le [of "\<lambda>c. c \<noteq> CHR ''/''" path] by auto
  then show ?thesis
    using assms(1,2)
    by (auto simp: devfs_register_def Let_def folder_for_def create_entry_eq add_device_eq add_child_def
        split: option.splits)
qed

lemma register_all_succeeds:
  assumes "dev_root s = Some r"
    and "\<forall>(path, _) \<in> set ds. length (takeWhile (\<lambda>c. c \<noteq> CHR ''/'') path) < 32 \<and> length path < 64"
  shows "\<exists>s'. register_all ds s = Some s' \<and> dev_root s' = Some r \<and> pci_devices s' = pci_devices s"
  using assms
proof (induction ds arbitrary: s)
  case (Cons d ds)
  obtain path fl rd wr where d: "d = (path, fl, rd, wr)" by (cases d)
  obtain n t where t: "devfs_register path fl rd wr s = Some (n, t)" "dev_root t = Some r" "pci_devices t = pci_devices s"
    using register_succeeds [OF Cons.prems(1), of path fl rd wr] Cons.prems(2) d by auto
  with Cons.IH [OF t(2)] Cons.prems(2) show ?case by (auto simp: d)
qed simp

lemma pci_paths_fit:
  "\<forall>(path, _) \<in> set (pci_entries devs). length (takeWhile (\<lambda>c. c \<noteq> CHR ''/'') path) < 32 \<and> length path < 64"
  by (auto simp: pci_entries_def pci_node_def)

lemma builtin_paths_fit:
  "\<forall>(path, _) \<in> set builtin_devices. length (takeWhile (\<lambda>c. c \<noteq> CHR ''/'') path) < 32 \<and> length path < 64"
  by (simp add: builtin_devices_def)

text \<open>The device tree can always be built on the memory root, which stays without a lookup function.\<close>

lemma boot_memory_root:
  assumes ok: "dev_ok s"
  shows "\<exists>s' r d. boot_filesystems None s = Some (Memory_root, s') \<and> vfs_root s' = Some r \<and>
    finddir_fn (nodes s' r) = None \<and> node_ptr (nodes s' r) = None \<and> dev_wf s' d"
proof -
  let ?v = "vfs_init s" and ?r = "next_nid s"
  obtain d s0 where e: "devfs_create_entry ''dev'' VFS_DIRECTORY ?v = (d, s0)" by fastforce
  note s0 = vfs_init_root [OF ok]
  note w0 = create_root_wf [OF s0(2) e]
  obtain s1 where s1: "register_all builtin_devices (s0\<lparr>dev_root := Some d\<rparr>) = Some s1" "dev_root s1 = Some d"
    using register_all_succeeds [of "s0\<lparr>dev_root := Some d\<rparr>" d] builtin_paths_fit by auto
  obtain s2 where s2: "register_all (pci_entries (pci_devices s1)) s1 = Some s2" "dev_root s2 = Some d"
    using register_all_succeeds [OF s1(2)] pci_paths_fit by blast
  note w1 = register_all_wf [OF w0(1) s1(1)]
  note w2 = register_all_wf [OF w1 [THEN conjunct1] s2(1)]
  have "extends ?v s2" using w0(2) w1 w2 extends_trans by blast
  then have r: "vfs_root s2 = Some ?r" "nodes s2 ?r = nodes ?v ?r"
    using s0(1) by (auto simp: extends_def disk_root_def)
  have "nodes ?v ?r = zero_node\<lparr>node_name := ''/'', flags := VFS_DIRECTORY\<rparr>"
    by (simp add: vfs_init_def new_node_def)
  with r have n: "finddir_fn (nodes s2 ?r) = None" "node_ptr (nodes s2 ?r) = None" by (simp_all add: zero_node_def)
  let ?k = "\<lambda>l. s2\<lparr>klog := klog s2 @ l\<rparr>"
  have m: "vfs_mount kernel_finddir s2 ''/dev'' (Some d) = Some (-1, ?k [''VFS: Mount point '' @ ''/dev'' @ '' not found!''])"
    using r(1) n
    by (simp add: vfs_mount_def vfs_lookup_def skip_slash_def lookup_dev vfs_finddir_def follow_def)
  have b: "boot_filesystems None s = Some (Memory_root, ?k ([''VFS: Mount point '' @ ''/dev'' @ '' not found!''] @
      [''DevFS: Successfully populated and mounted /dev with device tree.'']))"
    using e s1 s2 m by (simp add: boot_filesystems_def devfs_init_def mount_disk_def)
  have wf: "dev_wf (?k l) d" for l
    by (rule dev_wf_cong [of _ s2, THEN iffD2]) (simp_all add: w2)
  show ?thesis
    by (rule exI, rule exI [of _ ?r], rule exI [of _ d], rule conjI, rule b) (simp add: wf r(1) n)
qed

section \<open>Properties\<close>

text \<open>
  After the file systems are mounted at boot, on whichever root, no path leads to a device:
  every node a lookup returns is one of the root file system. (The memory root has no way to search
  it, and a disk makes a new node for each lookup, so the mount on \<^verbatim>\<open>/dev\<close> is lost.)
\<close>

theorem devices_unreachable:
  assumes ok: "dev_ok s" and boot: "boot_filesystems module s = Some (b, s')"
    and look: "vfs_lookup kernel_finddir s' path = Some (Some n, s'')"
  shows "readdir_fn (nodes s'' n) \<noteq> Some Dev_readdir"
proof -
  obtain r where r: "vfs_root s' = Some r" "r < next_nid s'" "disk_node (nodes s' r)"
    using boot_root [OF ok boot] by (auto simp: disk_root_def)
  have "disk_node (nodes s'' n)"
  proof (cases "path = ''/''")
    case True
    then show ?thesis using look r by (simp add: vfs_lookup_def)
  next
    case False
    obtain k where k: "lookup_loop kernel_finddir s' r (skip_slash path) = Some (Some k, s'')" "n = follow s'' k"
      using look r False by (auto simp: vfs_lookup_def split: option.splits)
    with disk_lookup_loop [OF r(3,2) k(1)] show ?thesis by (simp add: follow_disk)
  qed
  then show ?thesis by (simp add: disk_node_def)
qed

theorem devices_unreachable_witness:
  "\<exists>s' n. boot_filesystems None demo_kernel = Some (Memory_root, s') \<and>
     vfs_lookup kernel_finddir s' ''/'' = Some (Some n, s') \<and> readdir_fn (nodes s' n) \<noteq> Some Dev_readdir"
proof -
  obtain s' where s': "boot_filesystems None demo_kernel = Some (Memory_root, s')" using boot_memory_root [OF dev_wf_ok [OF demo_kernel_wf]] by blast
  obtain r where "vfs_root s' = Some r"
    using boot_root [OF dev_wf_ok [OF demo_kernel_wf] s'] by (auto simp: disk_root_def)
  then have l: "vfs_lookup kernel_finddir s' ''/'' = Some (Some r, s')" by (simp add: vfs_lookup_def)
  with devices_unreachable [OF dev_wf_ok [OF demo_kernel_wf] s' l] s' show ?thesis by blast
qed

end
