(* ===== verification/Vmem.thy ===== *)
theory Vmem
  imports Paging64
begin

text \<open>
  Memory as the loader sees it: it maps pages with the functions of \<^verbatim>\<open>arch/x86_64/paging.c\<close> and then
  writes through the virtual addresses. Physical memory is a map from addresses to bytes, kept
  apart from the words of the page tables; the tables in force are those \<^verbatim>\<open>CR3\<close> points to. With the
  write-protect bit of \<^verbatim>\<open>CR0\<close> set (\<open>wp\<close>), the kernel too may only write where the entry allows it.
  Writing to an address without a translation is a page fault, \<^term>\<open>None\<close>.
\<close>

record machine =
  vm :: vmm
  pbytes :: mem

definition cr3_leaf :: "u64 \<Rightarrow> vmm \<Rightarrow> addr \<Rightarrow> u64" where
  "cr3_leaf cr3 s v = leaf 8 (ptmem s) (page_base cr3) (vpath v) (vlast v)"

definition mmu_read :: "u64 \<Rightarrow> vmm \<Rightarrow> addr \<Rightarrow> addr option" where
  "mmu_read cr3 s v = (if is_present (cr3_leaf cr3 s v) then Some (translate (cr3_leaf cr3 s v) v) else None)"

definition mmu_write :: "bool \<Rightarrow> u64 \<Rightarrow> vmm \<Rightarrow> addr \<Rightarrow> addr option" where
  "mmu_write wp cr3 s v =
     (if wp \<and> cr3_leaf cr3 s v AND PAGE_WRITABLE = 0 then None else mmu_read cr3 s v)"

definition vread :: "u64 \<Rightarrow> 'a machine_scheme \<Rightarrow> addr \<Rightarrow> byte option" where
  "vread cr3 m v = map_option (pbytes m) (mmu_read cr3 (vm m) v)"

text \<open>\<^verbatim>\<open>memcpy\<close> and \<^verbatim>\<open>memset\<close> to a virtual address.\<close>

fun put_bytes :: "bool \<Rightarrow> u64 \<Rightarrow> addr \<Rightarrow> byte list \<Rightarrow> 'a machine_scheme \<Rightarrow> 'a machine_scheme option" where
  "put_bytes wp cr3 v [] m = Some m"
| "put_bytes wp cr3 v (b # bs) m =
     Option.bind (mmu_write wp cr3 (vm m) v) (\<lambda>p.
       put_bytes wp cr3 (v + 1) bs (m\<lparr>pbytes := (pbytes m)(p := b)\<rparr>))"

text \<open>A new page for a virtual address, cleared through its physical address.\<close>

definition new_page :: "u64 \<Rightarrow> u64 \<Rightarrow> addr \<Rightarrow> 'a machine_scheme \<Rightarrow> 'a machine_scheme" where
  "new_page cr3 flags virt m =
     (let (f, phys) = pmm_alloc_page (frames (vm m)) in
      m\<lparr>pbytes := (\<lambda>x. if x - phys < 4096 then 0 else pbytes m x),
        vm := vmm_map_page cr3 ((vm m)\<lparr>frames := f\<rparr>) phys virt flags\<rparr>)"

definition ensure_page :: "u64 \<Rightarrow> u64 \<Rightarrow> addr \<Rightarrow> 'a machine_scheme \<Rightarrow> 'a machine_scheme" where
  "ensure_page cr3 flags virt m =
     (if vmm_get_phys (vm m) virt = 0 then new_page cr3 flags virt m else m)"

fun each_page :: "(addr \<Rightarrow> 'm \<Rightarrow> 'm) \<Rightarrow> addr \<Rightarrow> nat \<Rightarrow> 'm \<Rightarrow> 'm" where
  "each_page f virt 0 m = m"
| "each_page f virt (Suc n) m = each_page f (virt + 4096) n (f virt m)"

section \<open>Pages owned by a program\<close>

text \<open>The pages of \<open>P\<close> (by number) are mapped to frames of their own, which the allocator no
  longer has, and can be written.\<close>

definition owns :: "bool \<Rightarrow> u64 \<Rightarrow> 'a machine_scheme \<Rightarrow> u64 set \<Rightarrow> bool" where
  "owns wp cr3 m P \<longleftrightarrow> vmm_ok (vm m) \<and> kernel_pml4 (vm m) = page_base cr3 \<and>
     (\<forall>v. page_number v \<in> P \<longrightarrow>
        is_present (vmm_leaf (vm m) v) \<and> (wp \<longrightarrow> vmm_leaf (vm m) v AND PAGE_WRITABLE \<noteq> 0) \<and>
        page_base (vmm_leaf (vm m) v) \<noteq> 0 \<and> page_base (vmm_leaf (vm m) v) \<notin> pmm_avail (frames (vm m))) \<and>
     (\<forall>v w. page_number v \<in> P \<longrightarrow> page_number w \<in> P \<longrightarrow>
        page_base (vmm_leaf (vm m) v) = page_base (vmm_leaf (vm m) w) \<longrightarrow> page_number v = page_number w)"

lemma ownsD:
  assumes "owns wp cr3 m P"
  shows "vmm_ok (vm m)" "kernel_pml4 (vm m) = page_base cr3"
    and "\<And>v. page_number v \<in> P \<Longrightarrow> is_present (vmm_leaf (vm m) v)"
    and "\<And>v. page_number v \<in> P \<Longrightarrow> wp \<Longrightarrow> vmm_leaf (vm m) v AND PAGE_WRITABLE \<noteq> 0"
    and "\<And>v. page_number v \<in> P \<Longrightarrow> page_base (vmm_leaf (vm m) v) \<noteq> 0"
    and "\<And>v. page_number v \<in> P \<Longrightarrow> page_base (vmm_leaf (vm m) v) \<notin> pmm_avail (frames (vm m))"
    and "\<And>v w. page_number v \<in> P \<Longrightarrow> page_number w \<in> P \<Longrightarrow>
        page_base (vmm_leaf (vm m) v) = page_base (vmm_leaf (vm m) w) \<Longrightarrow> page_number v = page_number w"
  using assms unfolding owns_def by blast+

lemma cr3_leaf_vmm: "kernel_pml4 s = page_base cr3 \<Longrightarrow> cr3_leaf cr3 s v = vmm_leaf s v"
  by (simp add: cr3_leaf_def vmm_leaf_def)

lemma mask12_64: "(0xFFF :: u64) = mask 12"
  by (simp add: mask_eq_exp_minus_1)

lemma page_base_idem: "page_base (page_base e) = page_base (e :: u64)"
  unfolding page_base_def by (rule bit_word_eqI) (auto simp: bit_simps)

lemma translate_parts:
  assumes "is_present e"
  shows "page_base (translate e v) = page_base e" "translate e v AND 0xFFF = v AND 0xFFF"
  using assms unfolding translate_def page_base_def mask12_64
  by (auto intro!: bit_word_eqI simp: bit_simps)

lemma split_page: "(v :: u64) = push_bit 12 (drop_bit 12 v) OR (v AND 0xFFF)"
  unfolding mask12_64 by (rule bit_word_eqI) (auto simp: bit_simps)

text \<open>Two addresses of the lower half, below \<open>2\<^sup>4\<^sup>8\<close>, of the same page and offset are equal.\<close>

lemma same_address:
  assumes "unat v < 2 ^ 48" "unat w < 2 ^ 48" "page_number v = page_number w" "v AND 0xFFF = w AND (0xFFF :: u64)"
  shows "v = w"
proof -
  have hi: "take_bit 36 (drop_bit 12 x) = drop_bit 12 x" if "unat x < 2 ^ 48" for x :: u64
  proof -
    have "unat (drop_bit 12 x) = unat x div 2 ^ 12" by (simp add: drop_bit_eq_div unat_div)
    also have "\<dots> < 2 ^ 36" using that by (simp add: less_mult_imp_div_less)
    finally show ?thesis
      by (simp add: word_unat_eq_iff unsigned_take_bit_eq take_bit_nat_eq_self)
  qed
  show ?thesis
    using split_page [of v] split_page [of w] hi [OF assms(1)] hi [OF assms(2)] assms(3,4)
    by (simp add: page_number_def)
qed

lemma owned_translation:
  assumes own: "owns wp cr3 m P" and v: "page_number v \<in> P"
  shows "mmu_write wp cr3 (vm m) v = Some (translate (vmm_leaf (vm m) v) v)"
    and "mmu_read cr3 (vm m) v = Some (translate (vmm_leaf (vm m) v) v)"
    and "vmm_get_phys (vm m) v \<noteq> 0"
proof -
  note o = ownsD [OF own]
  have root: "kernel_pml4 (vm m) \<noteq> 0" using o(1) by (simp add: vmm_ok_def)
  show r: "mmu_read cr3 (vm m) v = Some (translate (vmm_leaf (vm m) v) v)"
    using o(3) [OF v] by (simp add: mmu_read_def cr3_leaf_vmm [OF o(2)])
  then show "mmu_write wp cr3 (vm m) v = Some (translate (vmm_leaf (vm m) v) v)"
    using o(4) [OF v] by (simp add: mmu_write_def cr3_leaf_vmm [OF o(2)])
  have "page_base (vmm_get_phys (vm m) v) \<noteq> 0"
    using get_phys_leaf [OF root] translate_parts(1) [OF o(3) [OF v]] o(5) [OF v] by simp
  then show "vmm_get_phys (vm m) v \<noteq> 0" by (auto simp: page_base_def)
qed

lemma owned_inj:
  assumes own: "owns wp cr3 m P" and v: "page_number v \<in> P" "unat v < 2 ^ 48"
    and w: "page_number w \<in> P" "unat w < 2 ^ 48"
    and eq: "translate (vmm_leaf (vm m) v) v = translate (vmm_leaf (vm m) w) w"
  shows "v = w"
proof -
  note o = ownsD [OF own]
  have "page_base (vmm_leaf (vm m) v) = page_base (vmm_leaf (vm m) w)" "v AND 0xFFF = w AND 0xFFF"
    using translate_parts [OF o(3) [OF v(1)], of v] translate_parts [OF o(3) [OF w(1)], of w] eq by metis+
  then show ?thesis using o(7) [OF v(1) w(1)] same_address v(2) w(2) by blast
qed

lemma owned_pbytes: "owns wp cr3 m P \<Longrightarrow> owns wp cr3 (m\<lparr>pbytes := f\<rparr>) P"
  by (simp add: owns_def)

text \<open>Writing bytes to owned pages changes exactly the bytes written.\<close>

lemma put_bytes_owned:
  assumes "owns wp cr3 m P" "unat v + length bs \<le> 2 ^ 48"
    and "\<And>i. i < length bs \<Longrightarrow> page_number (v + word_of_nat i) \<in> P"
  shows "\<exists>m'. put_bytes wp cr3 v bs m = Some m' \<and> vm m' = vm m \<and> machine.more m' = machine.more m \<and>
    (\<forall>w. page_number w \<in> P \<longrightarrow> unat w < 2 ^ 48 \<longrightarrow>
       vread cr3 m' w = (if unat v \<le> unat w \<and> unat w < unat v + length bs
                     then Some (bs ! (unat w - unat v)) else vread cr3 m w))"
  using assms
proof (induction bs arbitrary: v m)
  case Nil
  then show ?case by auto
next
  case (Cons b bs)
  have v: "page_number v \<in> P" "unat v < 2 ^ 48" using Cons.prems(2) Cons.prems(3) [of 0] by simp_all
  let ?p = "translate (vmm_leaf (vm m) v) v"
  let ?m = "m\<lparr>pbytes := (pbytes m)(?p := b)\<rparr>"
  have own: "owns wp cr3 ?m P" by (rule owned_pbytes [OF Cons.prems(1)])
  have v1: "unat (v + 1) = unat v + 1" using v(2) by (simp add: unat_word_ariths)
  have "page_number ((v + 1) + word_of_nat i) \<in> P" if "i < length bs" for i
    using Cons.prems(3) [of "Suc i"] that by (simp add: algebra_simps)
  then obtain m' where m': "put_bytes wp cr3 (v + 1) bs ?m = Some m'" "vm m' = vm ?m" "machine.more m' = machine.more ?m"
      and rd: "\<And>w. page_number w \<in> P \<Longrightarrow> unat w < 2 ^ 48 \<Longrightarrow>
       vread cr3 m' w = (if unat (v + 1) \<le> unat w \<and> unat w < unat (v + 1) + length bs
                     then Some (bs ! (unat w - unat (v + 1))) else vread cr3 ?m w)"
    using Cons.IH [OF own, of "v + 1"] Cons.prems(2) v1 by auto
  have one: "vread cr3 ?m w = (if w = v then Some b else vread cr3 m w)" if "page_number w \<in> P" "unat w < 2 ^ 48" for w
    using owned_translation(2) [OF Cons.prems(1) that(1)] owned_inj [OF Cons.prems(1) that v]
    by (auto simp: vread_def)
  have "put_bytes wp cr3 v (b # bs) m = Some m'"
    using owned_translation(1) [OF Cons.prems(1) v(1)] m'(1) by simp
  moreover have "vread cr3 m' w = (if unat v \<le> unat w \<and> unat w < unat v + length (b # bs)
                     then Some ((b # bs) ! (unat w - unat v)) else vread cr3 m w)"
    if w: "page_number w \<in> P" "unat w < 2 ^ 48" for w
  proof (cases "w = v")
    case False
    then have "unat w \<noteq> unat v" using word_unat_eq_iff by blast
    then show ?thesis using rd [OF w] one [OF w] False v1
      by (cases "unat v < unat w") (auto simp: nth_Cons' Suc_diff_Suc)
  qed (use rd [OF w] one [OF w] v1 in simp)
  ultimately show ?case using m'(2,3) by auto
qed

lemma unat_page_number: "unat (page_number v) = (unat v div 4096) mod 2 ^ 36"
proof -
  have "page_number v = v div 4096 mod 2 ^ 36" by (simp add: page_number_def drop_bit_eq_div take_bit_eq_mod)
  then show ?thesis by (simp add: unat_div unat_mod)
qed

lemma page_number_eq:
  "unat v < 2 ^ 48 \<Longrightarrow> unat w < 2 ^ 48 \<Longrightarrow> page_number v = page_number w \<longleftrightarrow> unat v div 4096 = unat w div 4096"
  by (simp add: word_unat_eq_iff unat_page_number less_mult_imp_div_less)

lemma page_base_entry_flags:
  assumes "unat phys mod 4096 = 0" "page_base flags = 0"
  shows "page_base ((phys AND NOT 0xFFF) OR flags OR PAGE_PRESENT) = (phys :: u64)"
proof -
  have a: "aligned phys" using assms(1) by (simp add: aligned_def)
  have "page_base (phys OR 0) = phys" by (rule page_base_entry [OF a]) (simp add: page_base_def)
  moreover have "page_base (flags OR PAGE_PRESENT) = 0"
    using assms(2) by (simp add: page_base_def bit.conj_disj_distrib2 PAGE_PRESENT_def)
  ultimately show ?thesis
    using page_base_entry [OF a, of "flags OR PAGE_PRESENT"] by (simp add: page_base_def or.assoc)
qed

lemma present_entry: "is_present (e OR PAGE_PRESENT)"
  by (simp add: is_present_bit PAGE_PRESENT_def bit_or_iff)

lemma tree_ok_subset: "pt64.tree_ok m root k A \<Longrightarrow> B \<subseteq> A \<Longrightarrow> pt64.tree_ok m root k B"
  unfolding pt64.tree_ok_def by blast

lemma finite_avail [simp]: "finite (pmm_avail f)"
  by (simp add: pmm_avail_def)

lemma page_split: "page_base x + take_bit 12 x = (x :: u64)"
proof -
  have "page_base x AND take_bit 12 x = 0"
    unfolding page_base_def mask12_64 by (rule bit_word_eqI) (auto simp: bit_simps)
  then have "page_base x + take_bit 12 x = page_base x OR take_bit 12 x"
    by (rule disjunctive_add_eq_or)
  also have "\<dots> = x"
    unfolding page_base_def mask12_64 by (rule bit_word_eqI) (auto simp: bit_simps)
  finally show ?thesis .
qed

lemma take_bit_12_less: "take_bit 12 x < (4096 :: u64)"
  by (simp add: word_less_nat_alt take_bit_eq_mod unat_mod)

lemma page_of_address:
  fixes x phys :: u64
  assumes "unat phys mod 4096 = 0"
  shows "x - phys < 4096 \<longleftrightarrow> page_base x = phys"
proof
  assume "page_base x = phys"
  then have "x - phys = take_bit 12 x" using page_split [of x] by (metis add_diff_cancel_left')
  then show "x - phys < 4096" using take_bit_12_less by simp
next
  assume d: "x - phys < 4096"
  have a: "aligned phys" using assms by (simp add: aligned_def)
  have lo: "page_base (x - phys) = 0"
  proof -
    have "unat (x - phys) < 4096" using d by (simp add: word_less_nat_alt)
    then have "take_bit 12 (x - phys) = x - phys"
      by (simp add: word_unat_eq_iff take_bit_eq_mod unat_mod)
    then show ?thesis using page_split [of "x - phys"] by simp
  qed
  have "\<not> bit phys k" if "k < 12" for k
    using a that bit_take_bit_iff [of 12 phys k] by (simp add: aligned_take_bit)
  moreover have "\<not> bit (x - phys) k" if "12 \<le> k" "k < 64" for k
  proof
    assume "bit (x - phys) k"
    then have "bit (page_base (x - phys)) k"
      using that unfolding page_base_def mask12_64 by (simp add: bit_simps)
    then show False by (simp add: lo)
  qed
  ultimately have "\<not> (bit phys k \<and> bit (x - phys) k)" if "k < 64" for k
    using that by (cases "k < 12") auto
  then have "phys AND (x - phys) = 0"
    by (intro bit_word_eqI) (simp add: bit_and_iff)
  then have "phys + (x - phys) = phys OR (x - phys)" by (rule disjunctive_add_eq_or)
  then show "page_base x = phys" using page_base_entry [OF a lo] by simp
qed

text \<open>A new page: what \<open>new_page\<close> adds, and what it leaves as it was.\<close>

lemma new_page_owned:
  assumes own: "owns wp cr3 m P" and room: "4 \<le> card (pmm_avail (frames (vm m)))"
    and fl: "page_base flags = 0" "wp \<Longrightarrow> flags AND PAGE_WRITABLE \<noteq> 0"
    and new: "page_number virt \<notin> P"
  defines "m' \<equiv> new_page cr3 flags virt m"
  shows "owns wp cr3 m' (insert (page_number virt) P)"
    and "page_number v \<in> P \<Longrightarrow> vread cr3 m' v = vread cr3 m v"
    and "page_number v = page_number virt \<Longrightarrow> vread cr3 m' v = Some 0"
    and "page_number v \<noteq> page_number virt \<Longrightarrow> vmm_leaf (vm m') v = vmm_leaf (vm m) v"
    and "card (pmm_avail (frames (vm m))) \<le> 4 + card (pmm_avail (frames (vm m')))"
    and "machine.more m' = machine.more m"
    and "page_number v = page_number virt \<Longrightarrow> flags AND PAGE_WRITABLE = 0 \<Longrightarrow> vmm_leaf (vm m') v AND PAGE_WRITABLE = 0"
proof -
  note o = ownsD [OF own]
  obtain f phys where al: "pmm_alloc_page (frames (vm m)) = (f, phys)" by fastforce
  let ?vm = "(vm m)\<lparr>frames := f\<rparr>"
  have rd: "pmm_ready (frames (vm m))" using o(1) by (simp add: vmm_ok_def)
  have ne: "pmm_avail (frames (vm m)) \<noteq> {}" using room by auto
  have phys0: "phys \<noteq> 0" using pmm.alloc_cases [OF rd al] ne by simp
  note p = pmm.alloc_page [OF rd al phys0]
  have phys_al: "unat phys mod 4096 = 0" using pmm.page_aligned [OF rd] p by blast
  have ok1: "vmm_ok ?vm"
    using o(1) p tree_ok_subset [of "ptmem (vm m)" _ 3 "pmm_avail (frames (vm m))" "pmm_avail f"]
    by (auto simp: vmm_ok_def)
  have card1: "card (pmm_avail (frames ?vm)) = card (pmm_avail (frames (vm m))) - 1"
    using p by (simp add: card_Diff_singleton)
  then have room1: "3 \<le> card (pmm_avail (frames ?vm))" using room by simp
  note mp = map_page_leaf [OF ok1 room1, of cr3 phys virt flags]
  have m': "vm m' = vmm_map_page cr3 ?vm phys virt flags"
    "pbytes m' = (\<lambda>x. if x - phys < 4096 then 0 else pbytes m x)" "machine.more m' = machine.more m"
    by (simp_all add: m'_def new_page_def al)
  let ?e = "(phys AND NOT 0xFFF) OR flags OR PAGE_PRESENT"
  have leaf: "vmm_leaf (vm m') v = (if page_number v = page_number virt then ?e else vmm_leaf (vm m) v)" for v
    using mp(2) by (simp add: m' vmm_leaf_def)
  have base: "page_base ?e = phys" by (rule page_base_entry_flags [OF phys_al fl(1)])
  have pres: "is_present ?e" using present_entry [of "(phys AND NOT 0xFFF) OR flags"] by (simp add: or.assoc)
  have av: "pmm_avail (frames (vm m')) \<subseteq> pmm_avail (frames (vm m)) - {phys}"
    using mp(4) p by (simp add: m')
  have "?e AND PAGE_WRITABLE \<noteq> 0" if wp
  proof
    assume "?e AND PAGE_WRITABLE = 0"
    then have "flags AND PAGE_WRITABLE = 0" by (simp add: bit.conj_disj_distrib2 or_eq_0_iff)
    then show False using fl(2) that by simp
  qed
  moreover have "page_base (vmm_leaf (vm m) v) \<noteq> phys" if "page_number v \<in> P" for v
    using o(6) [OF that] p by auto
  moreover have "vmm_ok (vm m')" "kernel_pml4 (vm m') = page_base cr3" using mp(1,5) o(2) by (simp_all add: m')
  ultimately show "owns wp cr3 m' (insert (page_number virt) P)"
    unfolding owns_def using o base pres av phys0 new by (simp add: leaf) blast
  have rest: "vmm_leaf (vm m') v = vmm_leaf (vm m) v" if "page_number v \<noteq> page_number virt" for v
    using leaf that by simp
  then show "page_number v \<noteq> page_number virt \<Longrightarrow> vmm_leaf (vm m') v = vmm_leaf (vm m) v" by simp
  show "card (pmm_avail (frames (vm m))) \<le> 4 + card (pmm_avail (frames (vm m')))"
    using mp(3) card1 by (simp add: m')
  show "machine.more m' = machine.more m" by (rule m'(3))
  have "(phys AND NOT 0xFFF) AND PAGE_WRITABLE = 0" "PAGE_PRESENT AND PAGE_WRITABLE = 0"
    by (simp_all add: and.assoc PAGE_WRITABLE_def PAGE_PRESENT_def)
  then show "page_number v = page_number virt \<Longrightarrow> flags AND PAGE_WRITABLE = 0 \<Longrightarrow> vmm_leaf (vm m') v AND PAGE_WRITABLE = 0"
    by (simp add: leaf bit.conj_disj_distrib2)
  have root: "kernel_pml4 (vm m') = page_base cr3" using mp(5) o(2) by (simp add: m')
  note inside = page_of_address [OF phys_al]
  show "vread cr3 m' v = vread cr3 m v" if v: "page_number v \<in> P"
  proof -
    have l: "vmm_leaf (vm m') v = vmm_leaf (vm m) v" using rest v new by metis
    have "page_base (translate (vmm_leaf (vm m) v) v) \<noteq> phys"
      using translate_parts(1) [OF o(3) [OF v]] o(6) [OF v] p by auto
    then show ?thesis
      using o(3) [OF v] l by (simp add: vread_def mmu_read_def cr3_leaf_vmm [OF o(2)] cr3_leaf_vmm [OF root] m'(2) inside)
  qed
  show "vread cr3 m' v = Some 0" if "page_number v = page_number virt"
    using that pres base translate_parts(1) [OF pres, of v]
    by (simp add: vread_def mmu_read_def cr3_leaf_vmm [OF root] leaf m'(2) inside)
qed

text \<open>Making sure that a run of pages is there.\<close>

lemma ensure_page_owned:
  assumes own: "owns wp cr3 m P" and room: "4 \<le> card (pmm_avail (frames (vm m)))"
    and fl: "page_base flags = 0" "wp \<Longrightarrow> flags AND PAGE_WRITABLE \<noteq> 0"
    and new: "page_number virt \<notin> P \<Longrightarrow> vmm_get_phys (vm m) virt = 0"
  defines "m' \<equiv> ensure_page cr3 flags virt m"
  shows "owns wp cr3 m' (insert (page_number virt) P)"
    and "page_number v \<in> P \<Longrightarrow> vread cr3 m' v = vread cr3 m v"
    and "page_number v = page_number virt \<Longrightarrow> page_number virt \<notin> P \<Longrightarrow> vread cr3 m' v = Some 0"
    and "page_number v \<noteq> page_number virt \<Longrightarrow> vmm_leaf (vm m') v = vmm_leaf (vm m) v"
    and "card (pmm_avail (frames (vm m))) \<le> 4 + card (pmm_avail (frames (vm m')))"
    and "machine.more m' = machine.more m"
proof -
  have there: "m' = m" if "page_number virt \<in> P"
    using owned_translation(3) [OF own that] by (simp add: m'_def ensure_page_def)
  have fresh: "m' = new_page cr3 flags virt m" if "page_number virt \<notin> P"
    using new [OF that] by (simp add: m'_def ensure_page_def)
  note n = new_page_owned [OF own room fl(1), of virt]
  show "owns wp cr3 m' (insert (page_number virt) P)"
    using there fresh n(1) fl(2) own by (cases "page_number virt \<in> P") (auto simp: insert_absorb)
  show "page_number v \<in> P \<Longrightarrow> vread cr3 m' v = vread cr3 m v"
    using there fresh n(2) fl(2) by (cases "page_number virt \<in> P") auto
  show "page_number v = page_number virt \<Longrightarrow> page_number virt \<notin> P \<Longrightarrow> vread cr3 m' v = Some 0"
    using fresh n(3) fl(2) by auto
  show "page_number v \<noteq> page_number virt \<Longrightarrow> vmm_leaf (vm m') v = vmm_leaf (vm m) v"
    using there fresh n(4) fl(2) by (cases "page_number virt \<in> P") auto
  show "card (pmm_avail (frames (vm m))) \<le> 4 + card (pmm_avail (frames (vm m')))"
    using there fresh n(5) fl(2) by (cases "page_number virt \<in> P") auto
  show "machine.more m' = machine.more m"
    using there fresh n(6) fl(2) by (cases "page_number virt \<in> P") auto
qed

definition unmapped :: "vmm \<Rightarrow> u64 set \<Rightarrow> bool" where
  "unmapped s Q \<longleftrightarrow> (\<forall>v. page_number v \<in> Q \<longrightarrow> vmm_leaf s v = 0)"

lemma get_phys_unmapped: "vmm_ok s \<Longrightarrow> unmapped s Q \<Longrightarrow> page_number v \<in> Q \<Longrightarrow> vmm_get_phys s v = 0"
  by (simp add: unmapped_def vmm_ok_def get_phys_leaf translate_def)

text \<open>The pages from an aligned address on, one by one.\<close>

definition page_run :: "addr \<Rightarrow> nat \<Rightarrow> u64 set" where
  "page_run virt n = (\<lambda>i. page_number (virt + word_of_nat (4096 * i))) ` {..<n}"

lemma page_run_Suc: "page_run virt (Suc n) = insert (page_number virt) (page_run (virt + 4096) n)"
proof -
  have "{..<Suc n} = insert 0 (Suc ` {..<n})" by (auto simp: image_iff less_Suc_eq_0_disj)
  then show ?thesis by (simp add: page_run_def image_image algebra_simps)
qed

lemma page_run_iff:
  assumes "unat virt mod 4096 = 0" "unat virt + 4096 * n \<le> 2 ^ 48" "unat v < 2 ^ 48"
  shows "page_number v \<in> page_run virt n \<longleftrightarrow> unat virt \<le> unat v \<and> unat v < unat virt + 4096 * n"
proof -
  have u: "unat (virt + word_of_nat (4096 * i)) = unat virt + 4096 * i" if "i < n" for i
    by (rule unat_add_of_nat) (use assms(2) that in simp)
  have "page_number v \<in> page_run virt n \<longleftrightarrow> (\<exists>i<n. unat v div 4096 = (unat virt + 4096 * i) div 4096)"
    unfolding page_run_def using u assms page_number_eq [OF assms(3)] by (auto simp: image_iff)
  also have "\<dots> \<longleftrightarrow> unat virt \<le> unat v \<and> unat v < unat virt + 4096 * n"
  proof
    assume "\<exists>i<n. unat v div 4096 = (unat virt + 4096 * i) div 4096"
    then show "unat virt \<le> unat v \<and> unat v < unat virt + 4096 * n"
      using assms(1) by (auto simp: mod_eq_0_iff_dvd dvd_def)
  next
    assume "unat virt \<le> unat v \<and> unat v < unat virt + 4096 * n"
    then show "\<exists>i<n. unat v div 4096 = (unat virt + 4096 * i) div 4096"
      using assms(1) by (intro exI [of _ "(unat v - unat virt) div 4096"]) (auto simp: mod_eq_0_iff_dvd dvd_def)
  qed
  finally show ?thesis .
qed

lemma each_page_owned:
  assumes "owns wp cr3 m P" "4 * n \<le> card (pmm_avail (frames (vm m)))"
    and fl: "page_base flags = 0" "wp \<Longrightarrow> flags AND PAGE_WRITABLE \<noteq> 0"
    and "unmapped (vm m) (page_run virt n - P)"
  shows "let m' = each_page (ensure_page cr3 flags) virt n m in
    owns wp cr3 m' (P \<union> page_run virt n) \<and>
    (\<forall>v. page_number v \<in> P \<longrightarrow> vread cr3 m' v = vread cr3 m v) \<and>
    (\<forall>v. page_number v \<in> page_run virt n - P \<longrightarrow> vread cr3 m' v = Some 0) \<and>
    (\<forall>v. page_number v \<notin> page_run virt n \<longrightarrow> vmm_leaf (vm m') v = vmm_leaf (vm m) v) \<and>
    card (pmm_avail (frames (vm m))) \<le> 4 * n + card (pmm_avail (frames (vm m'))) \<and>
    machine.more m' = machine.more m"
  using assms
proof (induction n arbitrary: virt m P)
  case 0
  then show ?case by (simp add: page_run_def)
next
  case (Suc n)
  let ?m = "ensure_page cr3 flags virt m"
  let ?P = "insert (page_number virt) P"
  have new: "page_number virt \<notin> P \<Longrightarrow> vmm_get_phys (vm m) virt = 0"
    using get_phys_unmapped [OF ownsD(1) [OF Suc.prems(1)] Suc.prems(5)] page_run_Suc [of virt n] by simp
  have room: "4 \<le> card (pmm_avail (frames (vm m)))" using Suc.prems(2) by simp
  note e = ensure_page_owned [OF Suc.prems(1) room fl new]
  have "unmapped (vm ?m) (page_run (virt + 4096) n - ?P)"
    unfolding unmapped_def
  proof (intro allI impI)
    fix v assume v: "page_number v \<in> page_run (virt + 4096) n - ?P"
    then have "vmm_leaf (vm ?m) v = vmm_leaf (vm m) v" using e(4) [of v] by auto
    then show "vmm_leaf (vm ?m) v = 0"
      using Suc.prems(5) v page_run_Suc [of virt n] by (auto simp: unmapped_def)
  qed
  moreover have "4 * n \<le> card (pmm_avail (frames (vm ?m)))" using e(5) Suc.prems(2) by simp
  ultimately have IH: "let m' = each_page (ensure_page cr3 flags) (virt + 4096) n ?m in
    owns wp cr3 m' (?P \<union> page_run (virt + 4096) n) \<and>
    (\<forall>v. page_number v \<in> ?P \<longrightarrow> vread cr3 m' v = vread cr3 ?m v) \<and>
    (\<forall>v. page_number v \<in> page_run (virt + 4096) n - ?P \<longrightarrow> vread cr3 m' v = Some 0) \<and>
    (\<forall>v. page_number v \<notin> page_run (virt + 4096) n \<longrightarrow> vmm_leaf (vm m') v = vmm_leaf (vm ?m) v) \<and>
    card (pmm_avail (frames (vm ?m))) \<le> 4 * n + card (pmm_avail (frames (vm m'))) \<and>
    machine.more m' = machine.more ?m"
    using Suc.IH [OF e(1) _ fl] by (simp add: fl)
  then show ?case
    using e(2,3,4,5,6) page_run_Suc [of virt n] by (auto simp: Let_def insert_commute)
qed

end
