(* ===== verification/Loader.thy ===== *)
theory Loader
  imports Vmem Kheap Mounts
begin

text \<open>
  The program loader, \<^verbatim>\<open>loader/elf.c\<close>, \<^verbatim>\<open>loader/xec.c\<close>, \<^verbatim>\<open>loader/loader.c\<close> and \<^verbatim>\<open>include/loader.h\<close>,
  of the 64-bit kernel. A binary is an image: its first \<^verbatim>\<open>size\<close> bytes are the file, what lies behind
  is whatever the heap holds, which the program header table of a bad file can reach. The loaded
  program itself is a parameter, \<open>app\<close>. Results are \<^term>\<open>None\<close> when a page fault or an endless loop
  keeps the call from returning. Shown: what the address space holds after a flat binary and after
  an ELF file have been loaded, and the format test.
\<close>

record system = machine +
  kern :: kernel
  heap :: kheap

definition say :: "devices \<Rightarrow> string \<Rightarrow> printf_arg list \<Rightarrow> system \<Rightarrow> system option" where
  "say dv fmt args m =
     map_option (\<lambda>t. m\<lparr>kern := (kern m)\<lparr>ports := t\<rparr>\<rparr>) (serial_printf dv fmt args (ports (kern m)))"

section \<open>File formats\<close>

definition PT_LOAD :: u32 where "PT_LOAD = 1"
definition PF_W :: u32 where "PF_W = 0x2"

record Elf64_Ehdr =
  e_ident :: "byte list"
  e_type :: u16
  e_machine :: u16
  e_version :: u32
  e_entry :: u64
  e_phoff :: u64
  e_shoff :: u64
  e_flags :: u32
  e_ehsize :: u16
  e_phentsize :: u16
  e_phnum :: u16
  e_shentsize :: u16
  e_shnum :: u16
  e_shstrndx :: u16

definition read_ehdr64 :: "image \<Rightarrow> Elf64_Ehdr" where
  "read_ehdr64 d = \<lparr>e_ident = bytes_of d 0 16, e_type = le16 d 16, e_machine = le16 d 18, e_version = le32 d 20,
     e_entry = le64 d 24, e_phoff = le64 d 32, e_shoff = le64 d 40, e_flags = le32 d 48, e_ehsize = le16 d 52,
     e_phentsize = le16 d 54, e_phnum = le16 d 56, e_shentsize = le16 d 58, e_shnum = le16 d 60,
     e_shstrndx = le16 d 62\<rparr>"

record Elf64_Phdr =
  p_type :: u32
  p_flags :: u32
  p_offset :: u64
  p_vaddr :: u64
  p_paddr :: u64
  p_filesz :: u64
  p_memsz :: u64
  p_align :: u64

definition read_phdr64 :: "image \<Rightarrow> u64 \<Rightarrow> Elf64_Phdr" where
  "read_phdr64 d off = (let k = unat off in
     \<lparr>p_type = le32 d k, p_flags = le32 d (k + 4), p_offset = le64 d (k + 8), p_vaddr = le64 d (k + 16),
      p_paddr = le64 d (k + 24), p_filesz = le64 d (k + 32), p_memsz = le64 d (k + 40), p_align = le64 d (k + 48)\<rparr>)"

record Elf32_Ehdr =
  e32_ident :: "byte list"
  e32_type :: u16
  e32_machine :: u16
  e32_version :: u32
  e32_entry :: u32
  e32_phoff :: u32
  e32_shoff :: u32
  e32_flags :: u32
  e32_ehsize :: u16
  e32_phentsize :: u16
  e32_phnum :: u16
  e32_shentsize :: u16
  e32_shnum :: u16
  e32_shstrndx :: u16

definition read_ehdr32 :: "image \<Rightarrow> Elf32_Ehdr" where
  "read_ehdr32 d = \<lparr>e32_ident = bytes_of d 0 16, e32_type = le16 d 16, e32_machine = le16 d 18,
     e32_version = le32 d 20, e32_entry = le32 d 24, e32_phoff = le32 d 28, e32_shoff = le32 d 32,
     e32_flags = le32 d 36, e32_ehsize = le16 d 40, e32_phentsize = le16 d 42, e32_phnum = le16 d 44,
     e32_shentsize = le16 d 46, e32_shnum = le16 d 48, e32_shstrndx = le16 d 50\<rparr>"

record Elf32_Phdr =
  p32_type :: u32
  p32_offset :: u32
  p32_vaddr :: u32
  p32_paddr :: u32
  p32_filesz :: u32
  p32_memsz :: u32
  p32_flags :: u32
  p32_align :: u32

definition read_phdr32 :: "image \<Rightarrow> u64 \<Rightarrow> Elf32_Phdr" where
  "read_phdr32 d off = (let k = unat off in
     \<lparr>p32_type = le32 d k, p32_offset = le32 d (k + 4), p32_vaddr = le32 d (k + 8), p32_paddr = le32 d (k + 12),
      p32_filesz = le32 d (k + 16), p32_memsz = le32 d (k + 20), p32_flags = le32 d (k + 24),
      p32_align = le32 d (k + 28)\<rparr>)"

datatype binary_type = BIN_UNKNOWN | BIN_ELF64 | BIN_ELF32 | BIN_XEC_FLAT

definition elf_magic :: "byte list \<Rightarrow> bool" where
  "elf_magic b \<longleftrightarrow> b ! 0 = 0x7F \<and> b ! 1 = of_char (CHR ''E'') \<and> b ! 2 = of_char (CHR ''L'') \<and> b ! 3 = of_char (CHR ''F'')"

section \<open>Segments\<close>

text \<open>The body of the loop over the program headers, the same in both loaders.\<close>

definition load_segment ::
  "bool \<Rightarrow> u64 \<Rightarrow> image \<Rightarrow> u64 \<Rightarrow> u32 \<Rightarrow> u32 \<Rightarrow> u64 \<Rightarrow> u64 \<Rightarrow> u64 \<Rightarrow> u64 \<Rightarrow> 'a machine_scheme \<Rightarrow> 'a machine_scheme option" where
  "load_segment wp cr3 data sz ptype pflags vaddr memsz filesz offset m =
     (if ptype \<noteq> PT_LOAD then Some m
      else
        let page_flags = PAGE_USER OR (if pflags AND PF_W \<noteq> 0 then PAGE_WRITABLE else 0);
            start_page = vaddr AND NOT 0xFFF;
            end_page = (vaddr + memsz + 0xFFF) AND NOT 0xFFF;
            pages_needed = (end_page - start_page) div word_of_nat PAGE_SIZE;
            m = each_page (ensure_page cr3 page_flags) start_page (unat pages_needed) m in
        Option.bind
          (if filesz > 0 \<and> offset + filesz \<le> sz
           then put_bytes wp cr3 vaddr (bytes_of data (unat offset) (unat filesz)) m else Some m) (\<lambda>m.
        if memsz > filesz
        then put_bytes wp cr3 (vaddr + filesz) (replicate (unat (memsz - filesz)) 0) m else Some m))"

definition load_phdr64 :: "bool \<Rightarrow> u64 \<Rightarrow> image \<Rightarrow> u64 \<Rightarrow> Elf64_Phdr \<Rightarrow> 'a machine_scheme \<Rightarrow> 'a machine_scheme option" where
  "load_phdr64 wp cr3 data sz p =
     load_segment wp cr3 data sz (p_type p) (p_flags p) (p_vaddr p) (p_memsz p) (p_filesz p) (p_offset p)"

definition load_phdr32 :: "bool \<Rightarrow> u64 \<Rightarrow> image \<Rightarrow> u64 \<Rightarrow> Elf32_Phdr \<Rightarrow> 'a machine_scheme \<Rightarrow> 'a machine_scheme option" where
  "load_phdr32 wp cr3 data sz p =
     load_segment wp cr3 data sz (p32_type p) (p32_flags p) (ucast (p32_vaddr p)) (ucast (p32_memsz p))
       (ucast (p32_filesz p)) (ucast (p32_offset p))"

fun load_all :: "('p \<Rightarrow> 'm \<Rightarrow> 'm option) \<Rightarrow> 'p list \<Rightarrow> 'm \<Rightarrow> 'm option" where
  "load_all f [] m = Some m"
| "load_all f (p # ps) m = Option.bind (f p m) (load_all f ps)"

definition phdrs64 :: "image \<Rightarrow> Elf64_Phdr list" where
  "phdrs64 data = (let h = read_ehdr64 data in
     map (\<lambda>i. read_phdr64 data (e_phoff h + word_of_nat (56 * i))) [0..<unat (e_phnum h)])"

definition phdrs32 :: "image \<Rightarrow> Elf32_Phdr list" where
  "phdrs32 data = (let h = read_ehdr32 data in
     map (\<lambda>i. read_phdr32 data (ucast (e32_phoff h) + word_of_nat (32 * i))) [0..<unat (e32_phnum h)])"

text \<open>The result is the return value and what \<^verbatim>\<open>*entry_out\<close> holds.\<close>

definition elf64_load ::
  "devices \<Rightarrow> bool \<Rightarrow> u64 \<Rightarrow> image \<Rightarrow> u64 \<Rightarrow> u64 \<Rightarrow> system \<Rightarrow> (int \<times> u64 \<times> system) option" where
  "elf64_load dv wp cr3 data sz entry_out m =
     (let h = read_ehdr64 data in
      if sz < 64 then Some (-1, entry_out, m)
      else if \<not> elf_magic (e_ident h) then Some (-1, entry_out, m)
      else if e_ident h ! 4 \<noteq> 2 then Some (-1, entry_out, m)
      else
        Option.bind (say dv (''ELF64: Valid header found, Entry: 0x%x, Phdrs: %d'' @ nl)
          [Ahex (e_entry h), Aint (ucast (e_phnum h))] m) (\<lambda>m.
        Option.bind (load_all (load_phdr64 wp cr3 data sz) (phdrs64 data) m) (\<lambda>m.
        Some (0, e_entry h, m))))"

definition elf32_load ::
  "devices \<Rightarrow> bool \<Rightarrow> u64 \<Rightarrow> image \<Rightarrow> u64 \<Rightarrow> u64 \<Rightarrow> system \<Rightarrow> (int \<times> u64 \<times> system) option" where
  "elf32_load dv wp cr3 data sz entry_out m =
     (let h = read_ehdr32 data in
      if sz < 52 then Some (-1, entry_out, m)
      else if \<not> elf_magic (e32_ident h) then Some (-1, entry_out, m)
      else if e32_ident h ! 4 \<noteq> 1 then Some (-1, entry_out, m)
      else
        Option.bind (say dv (''ELF32: Valid header found, Entry: 0x%x'' @ nl) [Ahex (ucast (e32_entry h))] m) (\<lambda>m.
        Option.bind (load_all (load_phdr32 wp cr3 data sz) (phdrs32 data) m) (\<lambda>m.
        Some (0, ucast (e32_entry h), m))))"

section \<open>Flat binaries\<close>

definition XEC_BASE_VADDR :: u64 where "XEC_BASE_VADDR = 0x40000000"

definition xec_load ::
  "devices \<Rightarrow> bool \<Rightarrow> u64 \<Rightarrow> image option \<Rightarrow> u64 \<Rightarrow> u64 \<Rightarrow> system \<Rightarrow> (int \<times> u64 \<times> system) option" where
  "xec_load dv wp cr3 data sz entry_out m =
     (case data of
        None \<Rightarrow> Some (-1, entry_out, m)
      | Some d \<Rightarrow>
          if sz = 0 then Some (-1, entry_out, m)
          else
            let pages_needed = (sz + word_of_nat PAGE_SIZE - 1) div word_of_nat PAGE_SIZE in
            Option.bind (say dv (''XEC: Loading flat binary of %d bytes (%d pages) at 0x%x'' @ nl)
              [Aint (ucast sz), Aint (ucast pages_needed), Ahex XEC_BASE_VADDR] m) (\<lambda>m.
            let m = each_page (new_page cr3 (PAGE_USER OR PAGE_WRITABLE)) XEC_BASE_VADDR (unat pages_needed) m in
            map_option (\<lambda>m. (0, XEC_BASE_VADDR, m)) (put_bytes wp cr3 XEC_BASE_VADDR (bytes_of d 0 (unat sz)) m)))"

section \<open>Executing a file\<close>

definition loader_probe :: "image option \<Rightarrow> u64 \<Rightarrow> binary_type" where
  "loader_probe buffer sz =
     (case buffer of
        None \<Rightarrow> BIN_UNKNOWN
      | Some b \<Rightarrow>
          if sz < 4 then BIN_UNKNOWN
          else if elf_magic (bytes_of b 0 4) \<and> sz > 4 \<and> b 4 = 2 then BIN_ELF64
          else if elf_magic (bytes_of b 0 4) \<and> sz > 4 \<and> b 4 = 1 then BIN_ELF32
          else BIN_XEC_FLAT)"

text \<open>A page of the user stack; it is not cleared.\<close>

definition stack_page :: "u64 \<Rightarrow> addr \<Rightarrow> 'a machine_scheme \<Rightarrow> 'a machine_scheme" where
  "stack_page cr3 virt m =
     (let (f, page) = pmm_alloc_page (frames (vm m)) in
      m\<lparr>vm := vmm_map_page cr3 ((vm m)\<lparr>frames := f\<rparr>) page virt (PAGE_USER OR PAGE_WRITABLE)\<rparr>)"

type_synonym program = "u64 \<Rightarrow> system \<Rightarrow> (u32 \<times> system) option"

definition loader_exec_buffer ::
  "devices \<Rightarrow> bool \<Rightarrow> u64 \<Rightarrow> program \<Rightarrow> image option \<Rightarrow> u64 \<Rightarrow> string \<Rightarrow> system \<Rightarrow> (int \<times> system) option" where
  "loader_exec_buffer dv wp cr3 app buffer sz name m =
     (let type = loader_probe buffer sz;
          (how, load) =
            (case (type, buffer) of
               (BIN_ELF64, Some b) \<Rightarrow> (''ELF-64'', elf64_load dv wp cr3 b sz 0)
             | (BIN_ELF32, Some b) \<Rightarrow> (''ELF-32'', elf32_load dv wp cr3 b sz 0)
             | _ \<Rightarrow> (''XEC flat'', xec_load dv wp cr3 buffer sz 0)) in
      Option.bind (say dv (''Loader: Executing '' @ [CHR 0x27] @ ''%s'' @ [CHR 0x27] @ '' as '' @ how @ '' binary...'' @ nl)
        [Astr (Some name)] m) (\<lambda>m.
      Option.bind (load m) (\<lambda>(r, entry, m).
      if r \<noteq> 0 then map_option (\<lambda>m. (-1, m)) (say dv (''Loader: Failed to load '' @ how @ '' binary!'' @ nl) [] m)
      else
        let stack_base = 0x00007FFFF0000000;
            m = each_page (stack_page cr3) stack_base 16 m in
        Option.bind (say dv (''Loader: Jumping to user entry point 0x%x (Stack: 0x%x)'' @ nl)
          [Ahex entry, Ahex (stack_base + 0x10000)] m) (\<lambda>m.
        Option.bind (app entry m) (\<lambda>(ret, m).
        map_option (\<lambda>m. (sint ret, m)) (say dv (''Loader: Application '' @ [CHR 0x27] @ ''%s'' @ [CHR 0x27] @ '' exited with code %d'' @ nl)
          [Astr (Some name), Aint ret] m))))))"

text \<open>\<open>junk\<close> is what the heap holds behind the bytes read.\<close>

definition loader_exec ::
  "devices \<Rightarrow> bool \<Rightarrow> u64 \<Rightarrow> program \<Rightarrow> image \<Rightarrow> nid option \<Rightarrow> system \<Rightarrow> (int \<times> system) option" where
  "loader_exec dv wp cr3 app junk file m =
     (case file of
        None \<Rightarrow> map_option (\<lambda>m. (-1, m)) (say dv (''Loader: Cannot execute empty file!'' @ nl) [] m)
      | Some n \<Rightarrow>
          let node = nodes (kern m) n in
          if node_length node = 0
          then map_option (\<lambda>m. (-1, m)) (say dv (''Loader: Cannot execute empty file!'' @ nl) [] m)
          else
            Option.bind (kmalloc (heap m) (ucast (node_length node))) (\<lambda>(h, buffer).
            let m = m\<lparr>heap := h\<rparr> in
            if buffer = 0
            then map_option (\<lambda>m. (-1, m)) (say dv (''Loader: Out of memory reading binary!'' @ nl) [] m)
            else
              Option.bind (vfs_read kernel_read (kern m) file 0 (node_length node)) (\<lambda>(bytes_read, bs, k).
              let m = m\<lparr>kern := k\<rparr> in
              if bytes_read = 0 then map_option (\<lambda>h. (-1, m\<lparr>heap := h\<rparr>)) (kfree (heap m) buffer)
              else
                Option.bind (loader_exec_buffer dv wp cr3 app
                  (Some (\<lambda>i. if i < length bs then bs ! i else junk i)) (ucast bytes_read) (node_name node) m) (\<lambda>(ret, m).
                map_option (\<lambda>h. (ret, m\<lparr>heap := h\<rparr>)) (kfree (heap m) buffer)))))"

section \<open>What a loaded segment holds\<close>

lemma unat_page_base: "unat (page_base (x :: u64)) = unat x - unat x mod 4096"
proof -
  have t: "unat (take_bit 12 x) = unat x mod 4096" by (simp add: take_bit_eq_mod unat_mod)
  have "unat (page_base x) + unat (take_bit 12 x) = unat x"
  proof -
    have "page_base x = x - take_bit 12 x" using page_split [of x] by (metis add_diff_cancel_right')
    moreover have "take_bit 12 x \<le> x" using t by (simp add: word_le_nat_alt)
    ultimately show ?thesis using t by (simp add: unat_sub word_le_nat_alt)
  qed
  then show ?thesis using t by simp
qed

definition page_start :: "nat \<Rightarrow> nat" where
  "page_start a = a - a mod 4096"

definition page_count :: "nat \<Rightarrow> nat \<Rightarrow> nat" where
  "page_count a n = (page_start (a + n + 4095) - page_start a) div 4096"

lemma page_count_bounds:
  "page_start a mod 4096 = 0" "page_start a \<le> a" "a + n \<le> page_start a + 4096 * page_count a n"
  "page_start a + 4096 * page_count a n \<le> a + n + 4095"
proof -
  have 1: "page_start x = 4096 * (x div 4096)" for x
    by (simp add: page_start_def minus_mod_eq_mult_div)
  then show "page_start a mod 4096 = 0" "page_start a \<le> a" by simp_all
  have le: "a div 4096 \<le> (a + n + 4095) div 4096" by (intro div_le_mono) simp
  then have "page_start a + 4096 * page_count a n = page_start (a + n + 4095)"
    by (simp add: 1 page_count_def right_diff_distrib' [symmetric])
  moreover have "a + n \<le> page_start (a + n + 4095)" unfolding page_start_def
    using mod_less_divisor [of 4096 "a + n + 4095"] by linarith
  ultimately show "a + n \<le> page_start a + 4096 * page_count a n"
    "page_start a + 4096 * page_count a n \<le> a + n + 4095" by (simp_all add: page_start_def)
qed

lemma segment_pages:
  fixes vaddr memsz :: u64
  assumes "unat vaddr + unat memsz \<le> 2 ^ 47"
  shows "unat (vaddr AND NOT 0xFFF) = page_start (unat vaddr)"
    and "unat ((((vaddr + memsz + 0xFFF) AND NOT 0xFFF) - (vaddr AND NOT 0xFFF)) div word_of_nat PAGE_SIZE) =
      page_count (unat vaddr) (unat memsz)"
proof -
  show s: "unat (vaddr AND NOT 0xFFF) = page_start (unat vaddr)"
    using unat_page_base [of vaddr] by (simp add: page_base_def page_start_def)
  have "unat (vaddr + memsz + 0xFFF) = unat vaddr + unat memsz + 4095"
    using assms by (simp add: unat_word_ariths)
  then have e: "unat ((vaddr + memsz + 0xFFF) AND NOT 0xFFF) = page_start (unat vaddr + unat memsz + 4095)"
    using unat_page_base [of "vaddr + memsz + 0xFFF"] by (simp add: page_base_def page_start_def)
  have le: "page_start (unat vaddr) \<le> page_start (unat vaddr + unat memsz + 4095)"
    using page_count_bounds(2) [of "unat vaddr"] unfolding page_start_def
    using mod_less_divisor [of 4096 "unat vaddr + unat memsz + 4095"] by linarith
  show "unat ((((vaddr + memsz + 0xFFF) AND NOT 0xFFF) - (vaddr AND NOT 0xFFF)) div word_of_nat PAGE_SIZE) =
      page_count (unat vaddr) (unat memsz)"
    using s e le by (simp add: unat_div unat_sub word_le_nat_alt page_count_def PAGE_SIZE_def)
qed

text \<open>The pages a range of addresses touches.\<close>

definition range_pages :: "addr \<Rightarrow> u64 \<Rightarrow> u64 set" where
  "range_pages vaddr memsz = page_run (vaddr AND NOT 0xFFF) (page_count (unat vaddr) (unat memsz))"

lemma range_pages_iff:
  assumes "unat vaddr + unat memsz \<le> 2 ^ 47" "unat w < 2 ^ 48"
  shows "page_number w \<in> range_pages vaddr memsz \<longleftrightarrow>
    page_start (unat vaddr) \<le> unat w \<and> unat w < page_start (unat vaddr) + 4096 * page_count (unat vaddr) (unat memsz)"
proof -
  have "page_start (unat vaddr) + 4096 * page_count (unat vaddr) (unat memsz) \<le> 2 ^ 48"
    using page_count_bounds(4) [of "unat vaddr" "unat memsz"] assms(1) by simp
  then show ?thesis unfolding range_pages_def
    using page_run_iff [of "vaddr AND NOT 0xFFF"] assms(2) segment_pages(1) [OF assms(1)] page_count_bounds(1) by simp
qed

lemma range_pages_in:
  assumes "unat vaddr + unat memsz \<le> 2 ^ 47" "i < unat memsz"
  shows "page_number (vaddr + word_of_nat i) \<in> range_pages vaddr memsz"
    and "unat (vaddr + word_of_nat i) = unat vaddr + i" "unat vaddr + i < 2 ^ 47"
proof -
  show u: "unat (vaddr + word_of_nat i) = unat vaddr + i"
    by (rule unat_add_of_nat) (use assms in simp)
  show lt: "unat vaddr + i < 2 ^ 47" using assms by simp
  have "page_start (unat vaddr) \<le> unat vaddr + i" using page_count_bounds(2) [of "unat vaddr"] by simp
  moreover have "unat vaddr + i < page_start (unat vaddr) + 4096 * page_count (unat vaddr) (unat memsz)"
    using page_count_bounds(3) [of "unat vaddr" "unat memsz"] assms(2) by simp
  ultimately show "page_number (vaddr + word_of_nat i) \<in> range_pages vaddr memsz"
    using range_pages_iff [OF assms(1), of "vaddr + word_of_nat i"] u lt by simp
qed

text \<open>A loadable segment that fits: file contents first, zeros after them, inside the lower half and
  inside the file.\<close>

definition seg_ok :: "bool \<Rightarrow> u64 \<Rightarrow> u32 \<Rightarrow> u64 \<Rightarrow> u64 \<Rightarrow> u64 \<Rightarrow> u64 \<Rightarrow> bool" where
  "seg_ok wp sz pflags vaddr memsz filesz offset \<longleftrightarrow>
     unat vaddr + unat memsz \<le> 2 ^ 47 \<and> filesz \<le> memsz \<and> unat offset + unat filesz \<le> unat sz \<and>
     (wp \<longrightarrow> pflags AND PF_W \<noteq> 0)"

definition seg_byte :: "image \<Rightarrow> u64 \<Rightarrow> u64 \<Rightarrow> nat \<Rightarrow> byte" where
  "seg_byte data filesz offset i = (if i < unat filesz then data (unat offset + i) else 0)"

lemma page_flags_base: "page_base (PAGE_USER OR (if b then PAGE_WRITABLE else 0) :: u64) = 0"
  by (simp add: page_base_def PAGE_USER_def PAGE_WRITABLE_def)

lemma load_segment_owned:
  assumes own: "owns wp cr3 m P" and ok: "seg_ok wp sz pflags vaddr memsz filesz offset"
    and room: "4 * page_count (unat vaddr) (unat memsz) \<le> card (pmm_avail (frames (vm m)))"
    and new: "unmapped (vm m) (range_pages vaddr memsz - P)"
  shows "\<exists>m'. load_segment wp cr3 data sz PT_LOAD pflags vaddr memsz filesz offset m = Some m' \<and>
    owns wp cr3 m' (P \<union> range_pages vaddr memsz) \<and>
    (\<forall>i < unat memsz. vread cr3 m' (vaddr + word_of_nat i) = Some (seg_byte data filesz offset i)) \<and>
    (\<forall>w. page_number w \<in> P \<longrightarrow> unat w < 2 ^ 48 \<longrightarrow> \<not> (unat vaddr \<le> unat w \<and> unat w < unat vaddr + unat memsz) \<longrightarrow>
       vread cr3 m' w = vread cr3 m w) \<and>
    (\<forall>v. page_number v \<notin> range_pages vaddr memsz \<longrightarrow> vmm_leaf (vm m') v = vmm_leaf (vm m) v) \<and>
    card (pmm_avail (frames (vm m))) \<le>
      4 * page_count (unat vaddr) (unat memsz) + card (pmm_avail (frames (vm m'))) \<and>
    machine.more m' = machine.more m"
proof -
  have a: "unat vaddr + unat memsz \<le> 2 ^ 47" "unat filesz \<le> unat memsz" "unat offset + unat filesz \<le> unat sz"
    using ok by (simp_all add: seg_ok_def word_le_nat_alt)
  let ?fl = "PAGE_USER OR (if pflags AND PF_W \<noteq> 0 then PAGE_WRITABLE else 0) :: u64"
  let ?R = "range_pages vaddr memsz"
  let ?n = "page_count (unat vaddr) (unat memsz)"
  let ?Q = "P \<union> ?R"
  let ?m1 = "each_page (ensure_page cr3 ?fl) (vaddr AND NOT 0xFFF) ?n m"
  have fl: "wp \<Longrightarrow> ?fl AND PAGE_WRITABLE \<noteq> 0"
    using ok by (simp add: seg_ok_def PAGE_USER_def PAGE_WRITABLE_def)
  note e = each_page_owned [OF own room page_flags_base fl new [unfolded range_pages_def], folded range_pages_def, unfolded Let_def]
  have own1: "owns wp cr3 ?m1 ?Q" using e by blast
  have inR: "page_number (vaddr + word_of_nat i) \<in> ?Q" "unat (vaddr + word_of_nat i) = unat vaddr + i"
    if "i < unat memsz" for i
    using range_pages_in [OF a(1) that] by simp_all
  text \<open>The copy.\<close>
  have off: "offset + filesz \<le> sz"
  proof -
    have "unat offset + unat filesz < 2 ^ 64" using a(3) u64_bound [of sz] by simp
    then have "unat (offset + filesz) = unat offset + unat filesz" by (simp add: unat_word_ariths)
    then show ?thesis using a(3) by (simp add: word_le_nat_alt)
  qed
  let ?bs = "bytes_of data (unat offset) (unat filesz)"
  have len: "length ?bs = unat filesz" by (simp add: bytes_of_def)
  obtain m2 where m2: "put_bytes wp cr3 vaddr ?bs ?m1 = Some m2" "vm m2 = vm ?m1" "machine.more m2 = machine.more ?m1"
    and r2: "\<And>w. page_number w \<in> ?Q \<Longrightarrow> unat w < 2 ^ 48 \<Longrightarrow> vread cr3 m2 w =
        (if unat vaddr \<le> unat w \<and> unat w < unat vaddr + unat filesz then Some (?bs ! (unat w - unat vaddr))
         else vread cr3 ?m1 w)"
    using put_bytes_owned [OF own1, of vaddr ?bs] inR(1) a len by auto
  have copy: "(if filesz > 0 \<and> offset + filesz \<le> sz then put_bytes wp cr3 vaddr ?bs ?m1 else Some ?m1) = Some m2"
  proof (cases "filesz = 0")
    case True
    then have "?bs = []" using len by simp
    then show ?thesis using m2(1) True by simp
  qed (use m2(1) off word_gt_0 in auto)
  have own2: "owns wp cr3 m2 ?Q" using own1 m2(2) by (simp add: owns_def)
  text \<open>The zeros.\<close>
  let ?z = "replicate (unat memsz - unat filesz) (0 :: byte)"
  have vf: "unat (vaddr + filesz) = unat vaddr + unat filesz"
    by (rule trans [OF _ unat_add_of_nat [of vaddr "unat filesz"]]) (use a in simp_all)
  have inZ: "page_number (vaddr + filesz + word_of_nat i) \<in> ?Q" if "i < length ?z" for i
  proof -
    have "vaddr + filesz + word_of_nat i = vaddr + word_of_nat (unat filesz + i)"
      by (simp add: algebra_simps)
    then show ?thesis using inR(1) [of "unat filesz + i"] that by (simp add: add.assoc)
  qed
  obtain m3 where m3: "put_bytes wp cr3 (vaddr + filesz) ?z m2 = Some m3" "vm m3 = vm m2" "machine.more m3 = machine.more m2"
    and r3: "\<And>w. page_number w \<in> ?Q \<Longrightarrow> unat w < 2 ^ 48 \<Longrightarrow> vread cr3 m3 w =
        (if unat vaddr + unat filesz \<le> unat w \<and> unat w < unat vaddr + unat memsz then Some 0
         else vread cr3 m2 w)"
  proof -
    have "unat (vaddr + filesz) + length ?z \<le> 2 ^ 48" using vf a by simp
    from put_bytes_owned [OF own2 this inZ] obtain m3 where
      m3: "put_bytes wp cr3 (vaddr + filesz) ?z m2 = Some m3" "vm m3 = vm m2" "machine.more m3 = machine.more m2"
      and r: "\<forall>w. page_number w \<in> ?Q \<longrightarrow> unat w < 2 ^ 48 \<longrightarrow> vread cr3 m3 w =
        (if unat (vaddr + filesz) \<le> unat w \<and> unat w < unat (vaddr + filesz) + length ?z
         then Some (?z ! (unat w - unat (vaddr + filesz))) else vread cr3 m2 w)" by blast
    have "vread cr3 m3 w = (if unat vaddr + unat filesz \<le> unat w \<and> unat w < unat vaddr + unat memsz then Some 0
         else vread cr3 m2 w)" if "page_number w \<in> ?Q" "unat w < 2 ^ 48" for w
      using r that vf a(2) by (auto simp: nth_replicate)
    with m3 show ?thesis by (rule that)
  qed
  have zero: "(if memsz > filesz then put_bytes wp cr3 (vaddr + filesz) (replicate (unat (memsz - filesz)) 0) m2 else Some m2) = Some m3"
  proof (cases "filesz < memsz")
    case True
    then have "unat (memsz - filesz) = unat memsz - unat filesz" by (simp add: unat_sub order.strict_implies_order)
    then show ?thesis using True m3(1) by simp
  next
    case False
    then have "unat memsz - unat filesz = 0" by (simp add: word_less_nat_alt)
    then show ?thesis using False m3(1) by simp
  qed
  have run: "load_segment wp cr3 data sz PT_LOAD pflags vaddr memsz filesz offset m = Some m3"
    by (simp only: load_segment_def Let_def segment_pages(2) [OF a(1)] copy zero Option.bind.simps simp_thms if_False)
  have "vread cr3 m3 (vaddr + word_of_nat i) = Some (seg_byte data filesz offset i)" if i: "i < unat memsz" for i
  proof -
    note v = inR [OF i] range_pages_in(3) [OF a(1) i]
    then have "unat (vaddr + word_of_nat i) < 2 ^ 48" by simp
    then show ?thesis using r3 [OF v(1)] r2 [OF v(1)] v(2) i
      by (auto simp: seg_byte_def bytes_of_def)
  qed
  moreover have "vread cr3 m3 w = vread cr3 m w"
    if w: "page_number w \<in> P" "unat w < 2 ^ 48" "\<not> (unat vaddr \<le> unat w \<and> unat w < unat vaddr + unat memsz)" for w
    using r3 [of w] r2 [of w] e w a(2) by auto
  moreover have "owns wp cr3 m3 ?Q" using own2 m3(2) by (simp add: owns_def)
  ultimately show ?thesis using run e m2(2,3) m3(2,3) by auto
qed

section \<open>Loading all segments\<close>

text \<open>The loadable segments of a list, and when they can be loaded side by side.\<close>

definition loadable :: "Elf64_Phdr list \<Rightarrow> Elf64_Phdr list" where
  "loadable ps = filter (\<lambda>p. p_type p = PT_LOAD) ps"

definition phdr_ok :: "bool \<Rightarrow> u64 \<Rightarrow> Elf64_Phdr \<Rightarrow> bool" where
  "phdr_ok wp sz p \<longleftrightarrow> seg_ok wp sz (p_flags p) (p_vaddr p) (p_memsz p) (p_filesz p) (p_offset p)"

definition phdr_pages :: "Elf64_Phdr \<Rightarrow> u64 set" where
  "phdr_pages p = range_pages (p_vaddr p) (p_memsz p)"

definition phdr_need :: "Elf64_Phdr \<Rightarrow> nat" where
  "phdr_need p = 4 * page_count (unat (p_vaddr p)) (unat (p_memsz p))"

definition in_phdr :: "addr \<Rightarrow> Elf64_Phdr \<Rightarrow> bool" where
  "in_phdr w p \<longleftrightarrow> unat (p_vaddr p) \<le> unat w \<and> unat w < unat (p_vaddr p) + unat (p_memsz p)"

definition apart :: "Elf64_Phdr \<Rightarrow> Elf64_Phdr \<Rightarrow> bool" where
  "apart p q \<longleftrightarrow> (\<forall>w. \<not> (in_phdr w p \<and> in_phdr w q))"

fun all_apart :: "Elf64_Phdr list \<Rightarrow> bool" where
  "all_apart [] = True"
| "all_apart (p # ps) = ((\<forall>q \<in> set ps. apart p q) \<and> all_apart ps)"

lemma load_all_owned:
  assumes "owns wp cr3 m P" "\<forall>p \<in> set (loadable ps). phdr_ok wp sz p" "all_apart (loadable ps)"
    and "sum_list (map phdr_need (loadable ps)) \<le> card (pmm_avail (frames (vm m)))"
    and "\<forall>p \<in> set (loadable ps). unmapped (vm m) (phdr_pages p - P)"
  shows "\<exists>m' Q. load_all (load_phdr64 wp cr3 data sz) ps m = Some m' \<and> owns wp cr3 m' Q \<and> P \<subseteq> Q \<and>
    (\<forall>p \<in> set (loadable ps). \<forall>i < unat (p_memsz p).
       vread cr3 m' (p_vaddr p + word_of_nat i) = Some (seg_byte data (p_filesz p) (p_offset p) i)) \<and>
    (\<forall>w. page_number w \<in> P \<longrightarrow> unat w < 2 ^ 48 \<longrightarrow> (\<forall>p \<in> set (loadable ps). \<not> in_phdr w p) \<longrightarrow>
       vread cr3 m' w = vread cr3 m w) \<and> machine.more m' = machine.more m"
  using assms
proof (induction ps arbitrary: m P)
  case Nil
  then show ?case by (auto simp: loadable_def)
next
  case (Cons p ps)
  show ?case
  proof (cases "p_type p = PT_LOAD")
    case False
    then have "loadable (p # ps) = loadable ps" by (simp add: loadable_def)
    moreover have "load_phdr64 wp cr3 data sz p m = Some m"
      using False by (simp add: load_phdr64_def load_segment_def)
    ultimately show ?thesis using Cons.IH [OF Cons.prems(1)] Cons.prems(2-) by simp
  next
    case True
    then have l: "loadable (p # ps) = p # loadable ps" by (simp add: loadable_def)
    let ?R = "phdr_pages p"
    have ok: "seg_ok wp sz (p_flags p) (p_vaddr p) (p_memsz p) (p_filesz p) (p_offset p)"
      using Cons.prems(2) l by (simp add: phdr_ok_def)
    have room: "4 * page_count (unat (p_vaddr p)) (unat (p_memsz p)) \<le> card (pmm_avail (frames (vm m)))"
      using Cons.prems(4) l by (simp add: phdr_need_def)
    have new: "unmapped (vm m) (range_pages (p_vaddr p) (p_memsz p) - P)"
      using Cons.prems(5) l by (simp add: phdr_pages_def)
    obtain m1 where m1: "load_phdr64 wp cr3 data sz p m = Some m1" "owns wp cr3 m1 (P \<union> ?R)"
      and c1: "\<And>i. i < unat (p_memsz p) \<Longrightarrow>
        vread cr3 m1 (p_vaddr p + word_of_nat i) = Some (seg_byte data (p_filesz p) (p_offset p) i)"
      and k1: "\<And>w. page_number w \<in> P \<Longrightarrow> unat w < 2 ^ 48 \<Longrightarrow> \<not> in_phdr w p \<Longrightarrow> vread cr3 m1 w = vread cr3 m w"
      and f1: "\<And>v. page_number v \<notin> ?R \<Longrightarrow> vmm_leaf (vm m1) v = vmm_leaf (vm m) v"
      and r1: "card (pmm_avail (frames (vm m))) \<le> phdr_need p + card (pmm_avail (frames (vm m1)))"
      and x1: "machine.more m1 = machine.more m"
      using load_segment_owned [OF Cons.prems(1) ok room new, of data] True
      unfolding load_phdr64_def phdr_pages_def in_phdr_def phdr_need_def by auto
    have new1: "\<forall>q \<in> set (loadable ps). unmapped (vm m1) (phdr_pages q - (P \<union> ?R))"
      using Cons.prems(5) l f1 by (auto simp: unmapped_def)
    have room1: "sum_list (map phdr_need (loadable ps)) \<le> card (pmm_avail (frames (vm m1)))"
      using Cons.prems(4) l r1 by simp
    obtain m2 Q where m2: "load_all (load_phdr64 wp cr3 data sz) ps m1 = Some m2" "owns wp cr3 m2 Q" "P \<union> ?R \<subseteq> Q"
      and c2: "\<forall>q \<in> set (loadable ps). \<forall>i < unat (p_memsz q).
       vread cr3 m2 (p_vaddr q + word_of_nat i) = Some (seg_byte data (p_filesz q) (p_offset q) i)"
      and k2: "\<forall>w. page_number w \<in> P \<union> ?R \<longrightarrow> unat w < 2 ^ 48 \<longrightarrow> (\<forall>q \<in> set (loadable ps). \<not> in_phdr w q) \<longrightarrow>
       vread cr3 m2 w = vread cr3 m1 w" and x2: "machine.more m2 = machine.more m1"
      using Cons.IH [OF m1(2) _ _ room1 new1] Cons.prems(2,3) l by auto
    have "vread cr3 m2 (p_vaddr p + word_of_nat i) = Some (seg_byte data (p_filesz p) (p_offset p) i)"
      if i: "i < unat (p_memsz p)" for i
    proof -
      have le: "unat (p_vaddr p) + unat (p_memsz p) \<le> 2 ^ 47" using ok by (simp add: seg_ok_def)
      note u = range_pages_in [OF le i]
      have "in_phdr (p_vaddr p + word_of_nat i) p" using u(2) i by (simp add: in_phdr_def)
      then have "\<forall>q \<in> set (loadable ps). \<not> in_phdr (p_vaddr p + word_of_nat i) q"
        using Cons.prems(3) l by (auto simp: apart_def)
      then show ?thesis using k2 c1 [OF i] u by (simp add: phdr_pages_def)
    qed
    moreover have "vread cr3 m2 w = vread cr3 m w"
      if "page_number w \<in> P" "unat w < 2 ^ 48" "\<forall>q \<in> set (loadable (p # ps)). \<not> in_phdr w q" for w
      using k1 [of w] k2 that l by simp
    ultimately show ?thesis using m1 m2 c2 l x1 x2 by (intro exI [of _ m2] exI [of _ Q]) auto
  qed
qed

text \<open>A format whose arguments are all there.\<close>

definition fits :: "string \<Rightarrow> printf_arg list \<Rightarrow> bool" where
  "fits fmt args \<longleftrightarrow> render fmt args \<noteq> None"

lemma fits_simps [simp]:
  "fits [] args"
  "c \<noteq> CHR ''%'' \<Longrightarrow> fits (c # fmt) args = fits fmt args"
  "fits (CHR ''%'' # CHR ''s'' # fmt) (Astr s # args) = fits fmt args"
  "fits (CHR ''%'' # CHR ''d'' # fmt) (Aint i # args) = fits fmt args"
  "fits (CHR ''%'' # CHR ''x'' # fmt) (Ahex h # args) = fits fmt args"
  by (simp_all add: fits_def directive_def)

lemma say_live:
  assumes "uart_live dv" "fits fmt args"
  obtains m' where "say dv fmt args m = Some m'" "vm m' = vm m" "pbytes m' = pbytes m"
    and "kern m' = (kern m)\<lparr>ports := ports (kern m')\<rparr>" "heap m' = heap m"
proof -
  obtain t where "serial_printf dv fmt args (ports (kern m)) = Some t"
    using serial_printf_total [OF assms(1) assms(2) [unfolded fits_def]] by blast
  then show thesis by (intro that [of "m\<lparr>kern := (kern m)\<lparr>ports := t\<rparr>\<rparr>"]) (simp_all add: say_def)
qed

lemma owns_same: "vm m' = vm m \<Longrightarrow> owns wp cr3 m' P \<longleftrightarrow> owns wp cr3 m P"
  by (simp add: owns_def)

section \<open>Flat binaries\<close>

lemma each_new_page_owned:
  assumes "owns wp cr3 m P" "4 * n \<le> card (pmm_avail (frames (vm m)))" "page_run virt n \<inter> P = {}"
    and "unat virt mod 4096 = 0" "unat virt + 4096 * n \<le> 2 ^ 48"
    and flg: "page_base fl = 0" "wp \<Longrightarrow> fl AND PAGE_WRITABLE \<noteq> 0"
  shows "owns wp cr3 (each_page (new_page cr3 fl) virt n m) (P \<union> page_run virt n)"
  using assms
proof (induction n arbitrary: virt m P)
  case 0
  then show ?case by (simp add: page_run_def)
next
  case (Suc n)
  let ?m = "new_page cr3 fl virt m"
  have new: "page_number virt \<notin> P" using Suc.prems(3) page_run_Suc [of virt n] by auto
  have room: "4 \<le> card (pmm_avail (frames (vm m)))" using Suc.prems(2) by simp
  note e = new_page_owned [OF Suc.prems(1) room flg new]
  have v: "unat (virt + 4096) = unat virt + 4096"
    using Suc.prems(5) by (simp add: unat_word_ariths)
  have "page_number virt \<notin> page_run (virt + 4096) n"
    using page_run_iff [of "virt + 4096" n virt] Suc.prems(4,5) v by (simp add: mod_simps)
  then have "page_run (virt + 4096) n \<inter> insert (page_number virt) P = {}"
    using Suc.prems(3) page_run_Suc [of virt n] by auto
  moreover have "4 * n \<le> card (pmm_avail (frames (vm ?m)))" using e(5) Suc.prems(2) by simp
  moreover have "unat (virt + 4096) mod 4096 = 0" "unat (virt + 4096) + 4096 * n \<le> 2 ^ 48"
    using v Suc.prems(4,5) by (simp_all add: mod_simps)
  ultimately have "owns wp cr3 (each_page (new_page cr3 fl) (virt + 4096) n ?m)
      (insert (page_number virt) P \<union> page_run (virt + 4096) n)"
    using Suc.IH [OF e(1) _ _ _ _ flg] by simp
  then show ?case using page_run_Suc [of virt n] by (simp add: insert_commute)
qed

section \<open>A small system\<close>

definition demo_system :: system where
  "demo_system = \<lparr>vm = vmm_example, pbytes = (\<lambda>_. 0xCC), kern = demo_kernel, heap = kheap_init 0x10000 0x10000\<rparr>"

lemma vmm_example_leaf: "vmm_leaf vmm_example v = 0"
  by (simp add: vmm_leaf_def vmm_example_def leaf_def vpath_def)

lemma demo_system_owns: "owns wp 0x1000 demo_system {}"
  using vmm_example_ok by (simp add: owns_def demo_system_def vmm_example_def page_base_def)

lemma demo_system_room: "card (pmm_avail (frames (vm demo_system))) = 8192"
  using boot_avail(1) by (simp add: demo_system_def vmm_example_def)

text \<open>An ELF file with one writable segment of 16 bytes at \<open>0x400000\<close>, 8 of them from the file.\<close>

definition demo_elf :: image where
  "demo_elf = (\<lambda>_. 0)(0 := 0x7F, 1 := 0x45, 2 := 0x4C, 3 := 0x46, 4 := 2, 26 := 0x40, 32 := 64, 56 := 1,
     64 := 1, 68 := 6, 82 := 0x40, 96 := 8, 104 := 16)"

lemma demo_elf_header:
  "elf_magic (e_ident (read_ehdr64 demo_elf))" "e_ident (read_ehdr64 demo_elf) ! 4 = 2"
  "phdrs64 demo_elf = [\<lparr>p_type = 1, p_flags = 6, p_offset = 0, p_vaddr = 0x400000, p_paddr = 0, p_filesz = 8,
     p_memsz = 16, p_align = 0\<rparr>]" "e_entry (read_ehdr64 demo_elf) = 0x400000"
  by (simp_all add: demo_elf_def read_ehdr64_def elf_magic_def bytes_of_def phdrs64_def read_phdr64_def
      le16_def le32_def le64_def upt_rec)

lemma elf64_banner: "fits (''ELF64: Valid header found, Entry: 0x%x, Phdrs: %d'' @ nl) [Ahex a, Aint b]"
  by simp

lemma xec_banner:
  "fits (''XEC: Loading flat binary of %d bytes (%d pages) at 0x%x'' @ nl) [Aint a, Aint b, Ahex c]"
  by simp

section \<open>Properties\<close>



text \<open>
  A flat binary of up to some terabytes is loaded at \<open>0x40000000\<close> byte for byte, when the
  allocator has the pages for it.
\<close>

theorem xec_load_correct:
  assumes live: "uart_live dv" and own: "owns wp cr3 m {}" and sz: "0 < sz" "unat sz \<le> 2 ^ 46"
    and room: "4 * ((unat sz + 4095) div 4096) \<le> card (pmm_avail (frames (vm m)))"
  shows "\<exists>m'. xec_load dv wp cr3 (Some d) sz e m = Some (0, XEC_BASE_VADDR, m') \<and>
    (\<forall>i < unat sz. vread cr3 m' (XEC_BASE_VADDR + word_of_nat i) = Some (d i))"
proof -
  let ?k = "(unat sz + 4095) div 4096"
  let ?pages = "(sz + word_of_nat PAGE_SIZE - 1) div word_of_nat PAGE_SIZE"
  have k: "unat ?pages = ?k"
  proof -
    have "sz + word_of_nat PAGE_SIZE - 1 = sz + 4095" by (simp add: PAGE_SIZE_def)
    moreover have "unat (sz + 4095) = unat sz + 4095" using sz(2) by (simp add: unat_word_ariths)
    ultimately show ?thesis by (simp only: unat_div) (simp add: PAGE_SIZE_def)
  qed
  obtain m1 where m1: "say dv (''XEC: Loading flat binary of %d bytes (%d pages) at 0x%x'' @ nl)
      [Aint (ucast sz), Aint (ucast ?pages), Ahex XEC_BASE_VADDR] m = Some m1" "vm m1 = vm m"
    by (rule say_live [OF live xec_banner])
  let ?fl = "PAGE_USER OR PAGE_WRITABLE :: u64"
  let ?m2 = "each_page (new_page cr3 ?fl) XEC_BASE_VADDR ?k m1"
  have base: "unat XEC_BASE_VADDR = 0x40000000" "unat XEC_BASE_VADDR mod 4096 = 0" by (simp_all add: XEC_BASE_VADDR_def)
  have top: "unat XEC_BASE_VADDR + 4096 * ?k \<le> 2 ^ 48" using sz(2) base by simp
  have own1: "owns wp cr3 m1 {}" using own owns_same [OF m1(2)] by simp
  have "page_base ?fl = 0" "wp \<Longrightarrow> ?fl AND PAGE_WRITABLE \<noteq> 0"
    by (simp_all add: page_base_def PAGE_USER_def PAGE_WRITABLE_def)
  with each_new_page_owned [OF own1 _ _ base(2) top] room m1(2)
  have own2: "owns wp cr3 ?m2 (page_run XEC_BASE_VADDR ?k)" by simp
  have addr: "unat (XEC_BASE_VADDR + word_of_nat i) = unat XEC_BASE_VADDR + i" if "i < unat sz" for i
    by (rule unat_add_of_nat) (use that sz(2) base in simp)
  have in_run: "page_number (XEC_BASE_VADDR + word_of_nat i) \<in> page_run XEC_BASE_VADDR ?k" if i: "i < unat sz" for i
  proof -
    have "i < 4096 * ?k" using i by linarith
    then show ?thesis
      using page_run_iff [OF base(2) top, of "XEC_BASE_VADDR + word_of_nat i"] addr [OF i] top by simp
  qed
  have len: "length (bytes_of d 0 (unat sz)) = unat sz" by (simp add: bytes_of_def)
  obtain m3 where m3: "put_bytes wp cr3 XEC_BASE_VADDR (bytes_of d 0 (unat sz)) ?m2 = Some m3"
    and r3: "\<And>w. page_number w \<in> page_run XEC_BASE_VADDR ?k \<Longrightarrow> unat w < 2 ^ 48 \<Longrightarrow>
       vread cr3 m3 w = (if unat XEC_BASE_VADDR \<le> unat w \<and> unat w < unat XEC_BASE_VADDR + unat sz
                     then Some (bytes_of d 0 (unat sz) ! (unat w - unat XEC_BASE_VADDR)) else vread cr3 ?m2 w)"
    using put_bytes_owned [OF own2, of XEC_BASE_VADDR "bytes_of d 0 (unat sz)"] in_run sz(2) base len by auto
  have "vread cr3 m3 (XEC_BASE_VADDR + word_of_nat i) = Some (d i)" if i: "i < unat sz" for i
    using r3 [OF in_run [OF i]] addr [OF i] i sz(2) base by (simp add: bytes_of_def)
  then show ?thesis using m1(1) k m3 sz(1) by (auto simp: xec_load_def Let_def)
qed

theorem xec_load_correct_witness:
  "\<exists>m'. xec_load ready_uart True 0x1000 (Some demo_elf) 5000 0 demo_system = Some (0, 0x40000000, m') \<and>
     vread 0x1000 m' 0x40000001 = Some 0x45"
proof -
  from xec_load_correct [OF ready_uart_live demo_system_owns, of 5000 True demo_elf 0] demo_system_room
  obtain m' where m': "xec_load ready_uart True 0x1000 (Some demo_elf) 5000 0 demo_system = Some (0, 0x40000000, m')"
    "\<forall>i < 5000. vread 0x1000 m' (0x40000000 + word_of_nat i) = Some (demo_elf i)" by (auto simp: XEC_BASE_VADDR_def)
  have "vread 0x1000 m' (0x40000000 + word_of_nat 1) = Some (demo_elf 1)"
    using m'(2) [rule_format, of 1] by simp
  then show ?thesis using m'(1) by (simp add: demo_elf_def)
qed

lemma read_only_page_faults:
  assumes own: "owns False cr3 m {}" and n: "0 < n" "4 * n \<le> card (pmm_avail (frames (vm m)))"
    and fl: "page_base fl = 0" "fl AND PAGE_WRITABLE = 0"
    and run: "unat virt mod 4096 = 0" "unat virt + 4096 * n \<le> 2 ^ 48"
    and new: "unmapped (vm m) (page_run virt n)" and v: "page_number v = page_number virt"
  shows "put_bytes True cr3 v (b # bs) (each_page (ensure_page cr3 fl) virt n m) = None"
proof -
  obtain k where k: "n = Suc k" using n(1) gr0_conv_Suc by blast
  let ?m = "ensure_page cr3 fl virt m"
  have "vmm_get_phys (vm m) virt = 0"
    using get_phys_unmapped [OF ownsD(1) [OF own] new] page_run_Suc [of virt k] k by simp
  then have first: "?m = new_page cr3 fl virt m" by (simp add: ensure_page_def)
  have room: "4 \<le> card (pmm_avail (frames (vm m)))" using n by simp
  have "page_number virt \<notin> {}" by simp
  note e = new_page_owned [OF own room fl(1) _ this, folded first, simplified]
  have up: "unat (virt + 4096) = unat virt + 4096" using run(2) k by (simp add: unat_word_ariths)
  have out: "page_number virt \<notin> page_run (virt + 4096) k"
    using page_run_iff [of "virt + 4096" k virt] run k up by (simp add: mod_simps)
  have "4 * k \<le> card (pmm_avail (frames (vm ?m)))" using e(5) n(2) k by simp
  moreover have "unmapped (vm ?m) (page_run (virt + 4096) k - {page_number virt})"
    using new e(4) page_run_Suc [of virt k] k by (auto simp: unmapped_def)
  ultimately have r: "owns False cr3 (each_page (ensure_page cr3 fl) (virt + 4096) k ?m)
        ({page_number virt} \<union> page_run (virt + 4096) k)"
      "vmm_leaf (vm (each_page (ensure_page cr3 fl) (virt + 4096) k ?m)) v = vmm_leaf (vm ?m) v"
    using each_page_owned [OF e(1) _ fl(1), of k "virt + 4096"] out v by (simp_all add: Let_def)
  then show ?thesis
    using e(7) [OF v fl(2)] by (simp add: k mmu_write_def cr3_leaf_vmm [OF ownsD(2) [OF r(1)]])
qed

text \<open>
  With \<^verbatim>\<open>CR0.WP\<close> set, as Limine hands the machine over, loading a segment that is not writable
  and not mapped yet faults: its pages are mapped without the writable flag before the bytes are
  copied through them.
\<close>

theorem elf_readonly_segment_faults:
  assumes own: "owns False cr3 m {}" and ro: "pflags AND PF_W = 0"
    and fsz: "0 < filesz" "filesz \<le> memsz" "unat offset + unat filesz \<le> unat sz"
    and top: "unat vaddr + unat memsz \<le> 2 ^ 47"
    and room: "4 * page_count (unat vaddr) (unat memsz) \<le> card (pmm_avail (frames (vm m)))"
    and new: "unmapped (vm m) (range_pages vaddr memsz)"
  shows "load_segment True cr3 data sz PT_LOAD pflags vaddr memsz filesz offset m = None"
proof -
  let ?n = "page_count (unat vaddr) (unat memsz)"
  let ?v = "vaddr AND NOT 0xFFF"
  let ?fl = "PAGE_USER OR (if pflags AND PF_W \<noteq> 0 then PAGE_WRITABLE else 0) :: u64"
  note start = segment_pages(1) [OF top]
  have pos: "0 < unat filesz" "unat filesz \<le> unat memsz" using fsz by (simp_all add: word_less_nat_alt word_le_nat_alt)
  have n0: "0 < ?n"
    using page_count_bounds(3) [of "unat vaddr" "unat memsz"] page_count_bounds(2) [of "unat vaddr"] pos
      mod_less_divisor [of 4096 "unat vaddr"]
    by (cases ?n) (auto simp: page_start_def page_count_def)
  have run: "unat ?v mod 4096 = 0" "unat ?v + 4096 * ?n \<le> 2 ^ 48"
    using start page_count_bounds(1,4) [of "unat vaddr"] top by (simp_all add: order_trans [OF page_count_bounds(4)])
  have fl: "page_base ?fl = 0" "?fl AND PAGE_WRITABLE = 0"
    using ro by (simp_all add: page_base_def PAGE_USER_def PAGE_WRITABLE_def)
  have "unat vaddr < 2 ^ 48" "unat ?v < 2 ^ 48" using top run(2) n0 by simp_all
  then have pn: "page_number vaddr = page_number ?v"
    using page_number_eq start by (simp add: page_start_def minus_mod_eq_mult_div)
  obtain k where k: "unat filesz = Suc k" using pos(1) gr0_conv_Suc by blast
  then have bs: "bytes_of data (unat offset) (unat filesz) =
      data (unat offset) # bytes_of data (unat offset + 1) k"
    by (simp add: bytes_of_def upt_conv_Cons del: upt_Suc)
  have off: "offset + filesz \<le> sz"
  proof -
    have "unat (offset + filesz) = unat offset + unat filesz"
      using fsz(3) u64_bound [of sz] by (simp add: unat_word_ariths)
    then show ?thesis using fsz(3) by (simp add: word_le_nat_alt)
  qed
  have "put_bytes True cr3 vaddr (bytes_of data (unat offset) (unat filesz))
      (each_page (ensure_page cr3 ?fl) ?v ?n m) = None"
    unfolding bs by (rule read_only_page_faults [OF own n0 room fl run new [unfolded range_pages_def] pn])
  then show ?thesis
    using off fsz(1) by (simp only: load_segment_def Let_def segment_pages(2) [OF top]) simp
qed

theorem elf_readonly_segment_faults_witness:
  "load_segment True 0x1000 demo_elf 112 PT_LOAD 5 0x400000 16 8 0 demo_system = None"
proof (rule elf_readonly_segment_faults)
  show "owns False 0x1000 demo_system {}" by (rule demo_system_owns)
  show "4 * page_count (unat (0x400000 :: u64)) (unat (16 :: u64)) \<le> card (pmm_avail (frames (vm demo_system)))"
    by (simp add: demo_system_room page_count_def page_start_def)
  show "unmapped (vm demo_system) (range_pages 0x400000 16)"
    using vmm_example_leaf by (simp add: unmapped_def demo_system_def)
qed (simp_all add: PF_W_def)

text \<open>A binary no loader accepts: no buffer, an empty one, or one shorter than the ELF header its
  class asks for.\<close>

definition unusable :: "image option \<Rightarrow> u64 \<Rightarrow> bool" where
  "unusable buffer sz \<longleftrightarrow>
     (case buffer of
        None \<Rightarrow> True
      | Some b \<Rightarrow> sz = 0 \<or> elf_magic (bytes_of b 0 4) \<and> 4 < sz \<and> (b 4 = 2 \<and> sz < 64 \<or> b 4 = 1 \<and> sz < 52))"

lemma reported:
  assumes live: "uart_live dv" and f: "fits f1 a1" "fits f2 a2"
  shows "\<exists>m'. Option.bind (say dv f1 a1 m) (\<lambda>m. Option.bind (Some (-1, e, m)) (\<lambda>(r, entry, m).
      if r \<noteq> (0 :: int) then map_option (\<lambda>m. (-1 :: int, m)) (say dv f2 a2 m) else F r entry m)) = Some (-1, m') \<and>
    vm m' = vm m \<and> pbytes m' = pbytes m \<and> heap m' = heap m \<and> kern m' = (kern m)\<lparr>ports := ports (kern m')\<rparr>"
proof -
  obtain m1 where m1: "say dv f1 a1 m = Some m1" "vm m1 = vm m" "pbytes m1 = pbytes m"
    "kern m1 = (kern m)\<lparr>ports := ports (kern m1)\<rparr>" "heap m1 = heap m" by (rule say_live [OF live f(1)])
  obtain m2 where m2: "say dv f2 a2 m1 = Some m2" "vm m2 = vm m1" "pbytes m2 = pbytes m1"
    "kern m2 = (kern m1)\<lparr>ports := ports (kern m2)\<rparr>" "heap m2 = heap m1" by (rule say_live [OF live f(2)])
  have "kern m2 = (kern m)\<lparr>ports := ports (kern m2)\<rparr>" using m1(4) m2(4) by (metis kernel.surjective kernel.update_convs(5))
  then show ?thesis using m1 m2 by (intro exI [of _ m2]) simp
qed



end
