(* ===== verification/Interrupts.thy ===== *)
theory Interrupts
  imports Mounts Loader Speaker
begin

text \<open>
  Segments, interrupts and exceptions: \<^verbatim>\<open>gdt.c\<close> and \<^verbatim>\<open>idt.c\<close> of \<^verbatim>\<open>arch/x86_64\<close> and of \<^verbatim>\<open>arch/x86\<close>
  (the names ending in \<open>32\<close>), with \<^verbatim>\<open>include/gdt.h\<close> and \<^verbatim>\<open>include/idt.h\<close>. The addresses of the assembly
  stubs of \<^verbatim>\<open>interrupts.s\<close> are parameters. The two 8259 interrupt controllers are modelled by what
  they do with the bytes written to them, so that remapping and acknowledging can be judged.
  An exception does not return: the result says whether the processor is halted.
\<close>

section \<open>Segment descriptors\<close>

record gdt_entry =
  limit_low :: u16
  base_low :: u16
  base_middle :: byte
  access :: byte
  granularity :: byte
  base_high :: byte

record gdt_ptr =
  gdt_limit :: u16
  gdt_base :: u64

definition gdt_set_gate :: "gdt_entry list \<Rightarrow> nat \<Rightarrow> u32 \<Rightarrow> u32 \<Rightarrow> byte \<Rightarrow> byte \<Rightarrow> gdt_entry list" where
  "gdt_set_gate gdt num base limit acc gran =
     gdt[num := \<lparr>limit_low = ucast (limit AND 0xFFFF), base_low = ucast (base AND 0xFFFF),
       base_middle = ucast (drop_bit 16 base AND 0xFF), access = acc,
       granularity = ucast ((drop_bit 16 limit AND 0x0F) OR (ucast gran AND 0xF0)),
       base_high = ucast (drop_bit 24 base AND 0xFF)\<rparr>]"

text \<open>\<^verbatim>\<open>gdt_init\<close> fills the five entries and loads the register; \<open>table\<close> is the address of the
  entries. The reload of the segment registers follows in assembly.\<close>

definition gdt_init :: "u64 \<Rightarrow> gdt_entry list \<Rightarrow> gdt_entry list \<times> gdt_ptr" where
  "gdt_init table gdt =
     (let gdt = gdt_set_gate gdt 0 0 0 0 0;
          gdt = gdt_set_gate gdt 1 0 0xFFFFFFFF 0x9A 0x20;
          gdt = gdt_set_gate gdt 2 0 0xFFFFFFFF 0x92 0x00;
          gdt = gdt_set_gate gdt 3 0 0xFFFFFFFF 0xF2 0x00;
          gdt = gdt_set_gate gdt 4 0 0xFFFFFFFF 0xFA 0x20
      in (gdt, \<lparr>gdt_limit = 8 * 5 - 1, gdt_base = table\<rparr>))"

definition gdt_init32 :: "u64 \<Rightarrow> gdt_entry list \<Rightarrow> gdt_entry list \<times> gdt_ptr" where
  "gdt_init32 table gdt =
     (let gdt = gdt_set_gate gdt 0 0 0 0 0;
          gdt = gdt_set_gate gdt 1 0 0xFFFFFFFF 0x9A 0xCF;
          gdt = gdt_set_gate gdt 2 0 0xFFFFFFFF 0x92 0xCF;
          gdt = gdt_set_gate gdt 3 0 0xFFFFFFFF 0xFA 0xCF;
          gdt = gdt_set_gate gdt 4 0 0xFFFFFFFF 0xF2 0xCF
      in (gdt, \<lparr>gdt_limit = 8 * 5 - 1, gdt_base = table\<rparr>))"

text \<open>How the processor reads a descriptor: base, 20-bit limit, access byte and the four flags.\<close>

definition segment :: "gdt_entry \<Rightarrow> u32 \<times> u32 \<times> byte \<times> byte" where
  "segment e =
     (ucast (base_low e) OR push_bit 16 (ucast (base_middle e)) OR push_bit 24 (ucast (base_high e)),
      ucast (limit_low e) OR push_bit 16 (ucast (granularity e AND 0x0F)), access e, drop_bit 4 (granularity e))"

section \<open>Interrupt gates\<close>

record idt_entry =
  offset_low :: u16
  selector :: u16
  ist :: byte
  type_attr :: byte
  offset_mid :: u16
  offset_high :: u32
  idt_zero :: u32

record idt_ptr =
  idt_limit :: u16
  idt_base :: u64

type_synonym idt = "byte \<Rightarrow> idt_entry"

definition idt_set_gate :: "idt \<Rightarrow> byte \<Rightarrow> u64 \<Rightarrow> u16 \<Rightarrow> byte \<Rightarrow> idt" where
  "idt_set_gate idt num base sel fl =
     idt(num := \<lparr>offset_low = ucast (base AND 0xFFFF), selector = sel, ist = 0, type_attr = fl,
       offset_mid = ucast (drop_bit 16 base AND 0xFFFF), offset_high = ucast (drop_bit 32 base AND 0xFFFFFFFF),
       idt_zero = 0\<rparr>)"

definition zero_gate :: idt_entry where
  "zero_gate = \<lparr>offset_low = 0, selector = 0, ist = 0, type_attr = 0, offset_mid = 0, offset_high = 0, idt_zero = 0\<rparr>"

definition pic_remap :: "io_trace \<Rightarrow> io_trace" where
  "pic_remap t =
     (let t = io_wait (outb 0x20 0x11 t); t = io_wait (outb 0xA0 0x11 t);
          t = io_wait (outb 0x21 0x20 t); t = io_wait (outb 0xA1 0x28 t);
          t = io_wait (outb 0x21 0x04 t); t = io_wait (outb 0xA1 0x02 t);
          t = io_wait (outb 0x21 0x01 t); t = io_wait (outb 0xA1 0x01 t)
      in outb 0xA1 0xFF (outb 0x21 0xFC t))"

text \<open>The gates are set one call after the other, 0 to 47.\<close>

definition set_gates :: "(nat \<Rightarrow> u64) \<Rightarrow> nat \<Rightarrow> nat \<Rightarrow> idt \<Rightarrow> idt" where
  "set_gates stub first n idt =
     fold (\<lambda>i idt. idt_set_gate idt (word_of_nat (first + i)) (stub i) 0x08 0x8E) [0..<n] idt"

definition idt_init ::
  "(nat \<Rightarrow> u64) \<Rightarrow> (nat \<Rightarrow> u64) \<Rightarrow> u64 \<Rightarrow> io_trace \<Rightarrow> idt \<times> idt_ptr \<times> io_trace" where
  "idt_init isr_stub irq_stub table t =
     (let t = pic_remap t;
          idt = set_gates isr_stub 0 32 (\<lambda>_. zero_gate);
          idt = set_gates irq_stub 32 16 idt
      in (idt, \<lparr>idt_limit = 16 * 256 - 1, idt_base = table\<rparr>, sti t))"

text \<open>The address a gate transfers control to.\<close>

definition gate_target :: "idt_entry \<Rightarrow> u64" where
  "gate_target e = ucast (offset_low e) OR push_bit 16 (ucast (offset_mid e)) OR push_bit 32 (ucast (offset_high e))"

definition gate_present :: "idt_entry \<Rightarrow> bool" where
  "gate_present e \<longleftrightarrow> bit (type_attr e) 7"

section \<open>The 32-bit table\<close>

record idt_entry32 =
  offset_low32 :: u16
  selector32 :: u16
  zero32 :: byte
  type_attr32 :: byte
  offset_high32 :: u16

type_synonym idt32 = "byte \<Rightarrow> idt_entry32"

definition idt_set_gate32 :: "idt32 \<Rightarrow> byte \<Rightarrow> u32 \<Rightarrow> u16 \<Rightarrow> byte \<Rightarrow> idt32" where
  "idt_set_gate32 idt num base sel fl =
     idt(num := \<lparr>offset_low32 = ucast (base AND 0xFFFF), selector32 = sel, zero32 = 0, type_attr32 = fl,
       offset_high32 = ucast (drop_bit 16 base AND 0xFFFF)\<rparr>)"

definition pic_remap32 :: "io_trace \<Rightarrow> io_trace" where
  "pic_remap32 t =
     (let t = io_wait (outb 0x20 0x11 t); t = io_wait (outb 0xA0 0x11 t);
          t = io_wait (outb 0x21 0x20 t); t = io_wait (outb 0xA1 0x28 t);
          t = io_wait (outb 0x21 0x04 t); t = io_wait (outb 0xA1 0x02 t);
          t = io_wait (outb 0x21 0x01 t); t = io_wait (outb 0xA1 0x01 t)
      in outb 0xA1 0xFF (outb 0x21 0xFC t))"

definition set_gates32 :: "(nat \<Rightarrow> u32) \<Rightarrow> nat \<Rightarrow> nat \<Rightarrow> idt32 \<Rightarrow> idt32" where
  "set_gates32 stub first n idt =
     fold (\<lambda>i idt. idt_set_gate32 idt (word_of_nat (first + i)) (stub i) 0x08 0x8E) [0..<n] idt"

definition idt_init32 ::
  "(nat \<Rightarrow> u32) \<Rightarrow> (nat \<Rightarrow> u32) \<Rightarrow> u64 \<Rightarrow> io_trace \<Rightarrow> idt32 \<times> idt_ptr \<times> io_trace" where
  "idt_init32 isr_stub irq_stub table t =
     (let idt = (\<lambda>_. \<lparr>offset_low32 = 0, selector32 = 0, zero32 = 0, type_attr32 = 0, offset_high32 = 0\<rparr>);
          t = pic_remap32 t;
          idt = set_gates32 isr_stub 0 32 idt;
          idt = set_gates32 irq_stub 32 16 idt
      in (idt, \<lparr>idt_limit = 8 * 256 - 1, idt_base = table\<rparr>, sti t))"

definition gate_target32 :: "idt_entry32 \<Rightarrow> u32" where
  "gate_target32 e = ucast (offset_low32 e) OR push_bit 16 (ucast (offset_high32 e))"

section \<open>Handlers\<close>

text \<open>A registered handler takes the byte it reads from port \<open>0x60\<close>, as the one handler of the
  kernel does. The vector of an interrupt is an index below 256.\<close>

type_synonym handlers = "nat \<Rightarrow> (byte \<Rightarrow> kbd \<Rightarrow> kbd) option"

definition register_interrupt_handler :: "handlers \<Rightarrow> byte \<Rightarrow> (byte \<Rightarrow> kbd \<Rightarrow> kbd) option \<Rightarrow> handlers" where
  "register_interrupt_handler table n h = table(unat n := h)"

definition irq_handler :: "devices \<Rightarrow> handlers \<Rightarrow> u64 \<Rightarrow> kernel \<Rightarrow> kernel" where
  "irq_handler dv table vec k =
     (let k = (case table (unat vec) of
                 None \<Rightarrow> k
               | Some h \<Rightarrow> (let (v, t) = inb dv 0x60 (ports k) in k\<lparr>keyboard := h v (keyboard k), ports := t\<rparr>));
          k = (if vec \<ge> 40 then k\<lparr>ports := outb 0xA0 0x20 (ports k)\<rparr> else k)
      in k\<lparr>ports := outb 0x20 0x20 (ports k)\<rparr>)"

section \<open>Exceptions\<close>

record cpu_state =
  r15 :: u64  r14 :: u64  r13 :: u64  r12 :: u64  rbp :: u64  rbx :: u64
  r11 :: u64  r10 :: u64  r9 :: u64  r8 :: u64
  rax :: u64  rcx :: u64  rdx :: u64  rsi :: u64  rdi :: u64
  int_no :: u64  err_code :: u64
  rip :: u64  cs_reg :: u64  rflags :: u64  rsp :: u64  ss_reg :: u64

definition exception_messages :: "string list" where
  "exception_messages = [
    ''Division by Zero (#DE)'',
    ''Debug (#DB)'',
    ''Non-Maskable Interrupt (#NMI)'',
    ''Breakpoint (#BP)'',
    ''Overflow (#OF)'',
    ''Bound Range Exceeded (#BR)'',
    ''Invalid Opcode (#UD)'',
    ''Device Not Available (#NM)'',
    ''Double Fault (#DF)'',
    ''Coprocessor Segment Overrun'',
    ''Invalid TSS (#TS)'',
    ''Segment Not Present (#NP)'',
    ''Stack-Segment Fault (#SS)'',
    ''General Protection Fault (#GP)'',
    ''Page Fault (#PF)'',
    ''Reserved'',
    ''x87 Floating-Point Exception (#MF)'',
    ''Alignment Check (#AC)'',
    ''Machine Check (#MC)'',
    ''SIMD Floating-Point Exception (#XM)'',
    ''Virtualization Exception (#VE)'',
    ''Control Protection Exception (#CP)'',
    ''Reserved'', ''Reserved'', ''Reserved'', ''Reserved'', ''Reserved'', ''Reserved'',
    ''Hypervisor Injection Exception'',
    ''VMM Communication Exception'',
    ''Security Exception (#SX)'',
    ''Reserved'']"

datatype 'a outcome = Returned 'a | Halted 'a

text \<open>A line on the serial log, and text on the screen.\<close>

definition klogf :: "devices \<Rightarrow> string \<Rightarrow> printf_arg list \<Rightarrow> kernel \<Rightarrow> kernel option" where
  "klogf dv fmt args k = map_option (\<lambda>t. k\<lparr>ports := t\<rparr>) (serial_printf dv fmt args (ports k))"

definition on_screen :: "(fb \<Rightarrow> fb) \<Rightarrow> kernel \<Rightarrow> kernel" where
  "on_screen f k = k\<lparr>screen := f (screen k)\<rparr>"

fun klog_lines :: "devices \<Rightarrow> (string \<times> printf_arg list) list \<Rightarrow> kernel \<Rightarrow> kernel option" where
  "klog_lines dv [] k = Some k"
| "klog_lines dv ((fmt, args) # ls) k = Option.bind (klogf dv fmt args k) (klog_lines dv ls)"

definition rule_line :: string where
  "rule_line = ''======================================================='' @ nl"

definition exception_log :: "u64 \<Rightarrow> cpu_state \<Rightarrow> string \<Rightarrow> (string \<times> printf_arg list) list" where
  "exception_log cr2 state reason =
     [(nl @ rule_line, []),
      ('' !!! KERNEL PANIC: %s !!!'' @ nl, [Astr (Some reason)]),
      ('' Code Location (RIP): 0x%x  Error Code: 0x%x'' @ nl, [Ahex (rip state), Ahex (ucast (ucast (err_code state) :: u32))])] @
     (if int_no state = 14 then [('' Faulting Memory Address (CR2): 0x%x'' @ nl, [Ahex cr2])] else []) @
     [('' Stack Pointer (RSP): 0x%x'' @ nl, [Ahex (rsp state)]),
      ('' RAX=0x%x RBX=0x%x RCX=0x%x RDX=0x%x'' @ nl, [Ahex (rax state), Ahex (rbx state), Ahex (rcx state), Ahex (rdx state)]),
      ('' System halted.'' @ nl, []),
      (rule_line, [])]"

text \<open>\<^verbatim>\<open>cr2\<close> is the register the processor stores the address of a page fault in.\<close>

definition isr_handler :: "devices \<Rightarrow> u64 \<Rightarrow> cpu_state \<Rightarrow> kernel \<Rightarrow> kernel outcome option" where
  "isr_handler dv cr2 state k =
     (if int_no state < 32 then
        let reason = exception_messages ! unat (int_no state) in
        Option.bind (klog_lines dv (exception_log cr2 state reason) k) (\<lambda>k.
        let k = on_screen (\<lambda>s. fb_clear s COLOR_RED) k;
            k = on_screen (\<lambda>s. fb_draw_box s 80 100 640 240 COLOR_BLUE COLOR_WHITE
              (Some '' !!! JURKOS KERNEL PANIC !!! '')
              (Some (nl @ '' A fatal CPU hardware exception has occurred in JurkOS!'' @ nl @ nl @
                '' Reason: A CPU fault was encountered during execution.'' @ nl @
                '' What Went Wrong: The instruction attempted an invalid memory or CPU operation.'' @ nl @
                '' Diagnostic details have been logged to the system COM1 console.'' @ nl @ nl @
                '' System halted to prevent hardware corruption. Please reboot.''))) k;
            k = on_screen (\<lambda>s. fb_print_color s (nl @ ''  [PANIC] '') COLOR_WHITE COLOR_RED) k;
            k = on_screen (\<lambda>s. fb_print_color s reason COLOR_YELLOW COLOR_RED) k;
            k = on_screen (\<lambda>s. fb_print_color s nl COLOR_WHITE COLOR_RED) k;
            k = k\<lparr>ports := speaker_panic_siren dv (ports k)\<rparr>
        in Some (Halted (k\<lparr>ports := hlt (cli (ports k))\<rparr>)))
      else Some (Returned k))"

record cpu_state_32 =
  gs32 :: u32  fs32 :: u32  es32 :: u32  ds32 :: u32
  edi :: u32  esi :: u32  ebp :: u32  esp :: u32  ebx :: u32  edx :: u32  ecx :: u32  eax :: u32
  int_no32 :: u32  err_code32 :: u32
  eip :: u32  cs32 :: u32  eflags :: u32  useresp :: u32  ss32 :: u32

text \<open>The 32-bit handler logs one line and loops for ever.\<close>

definition isr_handler32 :: "devices \<Rightarrow> cpu_state_32 \<Rightarrow> kernel \<Rightarrow> kernel outcome option" where
  "isr_handler32 dv state k =
     (if int_no32 state < 32
      then map_option Halted (klogf dv (''32-bit CPU EXCEPTION: %d'' @ nl) [Aint (int_no32 state)] k)
      else Some (Returned k))"

definition irq_handler32 :: "devices \<Rightarrow> handlers \<Rightarrow> u32 \<Rightarrow> kernel \<Rightarrow> kernel" where
  "irq_handler32 dv table vec k =
     (let k = (case table (unat vec) of
                 None \<Rightarrow> k
               | Some h \<Rightarrow> (let (v, t) = inb dv 0x60 (ports k) in k\<lparr>keyboard := h v (keyboard k), ports := t\<rparr>));
          k = (if vec \<ge> 40 then k\<lparr>ports := outb 0xA0 0x20 (ports k)\<rparr> else k)
      in k\<lparr>ports := outb 0x20 0x20 (ports k)\<rparr>)"

section \<open>The interrupt controllers\<close>

text \<open>An 8259 in the modes the kernel uses: initialization words, interrupt mask and in-service
  register; the non-specific end of interrupt clears the bit of highest priority, the lowest set.\<close>

datatype icw = ICW2 | ICW3 | ICW4

record pic =
  pending :: "icw list"
  vector_base :: byte
  mask_reg :: byte
  in_service :: byte

definition pic_command :: "byte \<Rightarrow> pic \<Rightarrow> pic" where
  "pic_command v p =
     (if bit v 4 then p\<lparr>pending := ICW2 # (if bit v 1 then [] else [ICW3]) @ (if bit v 0 then [ICW4] else []),
        mask_reg := 0, in_service := 0\<rparr>
      else if v = 0x20 then p\<lparr>in_service := in_service p AND (in_service p - 1)\<rparr>
      else p)"

definition pic_data :: "byte \<Rightarrow> pic \<Rightarrow> pic" where
  "pic_data v p =
     (case pending p of
        [] \<Rightarrow> p\<lparr>mask_reg := v\<rparr>
      | ICW2 # ws \<Rightarrow> p\<lparr>pending := ws, vector_base := v AND 0xF8\<rparr>
      | _ # ws \<Rightarrow> p\<lparr>pending := ws\<rparr>)"

fun pic_event :: "io_event \<Rightarrow> pic \<times> pic \<Rightarrow> pic \<times> pic" where
  "pic_event (Outb port v) (m, s) =
     (if port = 0x20 then (pic_command v m, s)
      else if port = 0x21 then (pic_data v m, s)
      else if port = 0xA0 then (m, pic_command v s)
      else if port = 0xA1 then (m, pic_data v s)
      else (m, s))"
| "pic_event _ ps = ps"

definition pics_run :: "io_trace \<Rightarrow> pic \<times> pic \<Rightarrow> pic \<times> pic" where
  "pics_run t = fold pic_event t"

text \<open>Line \<open>i\<close> of the pair is served: lines 8 to 15 come from the second controller, through line
  2 of the first.\<close>

definition serve :: "nat \<Rightarrow> pic \<times> pic \<Rightarrow> pic \<times> pic" where
  "serve i ps =
     (let (m, s) = ps in
      if i < 8 then (m\<lparr>in_service := in_service m OR push_bit i 1\<rparr>, s)
      else (m\<lparr>in_service := in_service m OR push_bit 2 1\<rparr>, s\<lparr>in_service := in_service s OR push_bit (i - 8) 1\<rparr>))"

definition pic_vector :: "nat \<Rightarrow> pic \<times> pic \<Rightarrow> byte" where
  "pic_vector i ps = (if i < 8 then vector_base (fst ps) + word_of_nat i else vector_base (snd ps) + word_of_nat (i - 8))"

definition line_enabled :: "nat \<Rightarrow> pic \<times> pic \<Rightarrow> bool" where
  "line_enabled i ps \<longleftrightarrow>
     (if i < 8 then \<not> bit (mask_reg (fst ps)) i
      else \<not> bit (mask_reg (fst ps)) 2 \<and> \<not> bit (mask_reg (snd ps)) (i - 8))"

section \<open>Lemmas\<close>

lemma field_masks:
  "(x :: u64) AND 0xFFFF = take_bit 16 x" "x AND 0xFFFFFFFF = take_bit 32 x"
  "(y :: u32) AND 0xFFFF = take_bit 16 y" "y AND 0xFF = take_bit 8 y" "y AND 0x0F = take_bit 4 y"
  "y AND 0xF0 = take_bit 8 y AND NOT (mask 4)" "y AND 0xFFFFF = take_bit 20 y" "(z :: byte) AND 0x0F = take_bit 4 z"
proof -
  have m: "(0xFFFF :: u64) = mask 16" "(0xFFFFFFFF :: u64) = mask 32" "(0xFFFF :: u32) = mask 16"
    "(0xFF :: u32) = mask 8" "(0x0F :: u32) = mask 4" "(0xFFFFF :: u32) = mask 20" "(0x0F :: byte) = mask 4"
    "(0xF0 :: u32) = mask 8 AND NOT (mask 4)"
    by (simp_all add: mask_eq_exp_minus_1)
  show "x AND 0xFFFF = take_bit 16 x" "x AND 0xFFFFFFFF = take_bit 32 x" "y AND 0xFFFF = take_bit 16 y"
    "y AND 0xFF = take_bit 8 y" "y AND 0x0F = take_bit 4 y" "y AND 0xFFFFF = take_bit 20 y" "z AND 0x0F = take_bit 4 z"
    unfolding m by (simp_all add: take_bit_eq_mask)
  show "y AND 0xF0 = take_bit 8 y AND NOT (mask 4)" unfolding m by (simp add: take_bit_eq_mask and.assoc)
qed

lemma gate_roundtrip:
  "gate_target (idt_set_gate idt n base sel fl n) = base"
  unfolding gate_target_def idt_set_gate_def
proof (rule bit_word_eqI, goal_cases)
  case (1 k)
  then consider "k < 16" | "16 \<le> k" "k < 32" | "32 \<le> k" by linarith
  then show ?case using 1 by cases (simp_all add: field_masks bit_simps, auto)
qed

lemma gate_roundtrip32:
  "gate_target32 (idt_set_gate32 idt n base sel fl n) = base"
  unfolding gate_target32_def idt_set_gate32_def
proof (rule bit_word_eqI, goal_cases)
  case (1 k)
  then consider "k < 16" | "16 \<le> k" by linarith
  then show ?case using 1 by cases (simp_all add: field_masks bit_simps, auto)
qed

lemma segment_roundtrip:
  assumes "num < length gdt"
  shows "segment (gdt_set_gate gdt num base limit acc gran ! num) = (base, limit AND 0xFFFFF, acc, drop_bit 4 gran)"
proof -
  define e where "e = gdt_set_gate gdt num base limit acc gran ! num"
  note e = e_def [unfolded gdt_set_gate_def nth_list_update_eq [OF assms] field_masks]
  have "ucast (base_low e) OR push_bit 16 (ucast (base_middle e)) OR push_bit 24 (ucast (base_high e)) = base"
  proof (rule bit_word_eqI, goal_cases)
    case (1 k)
    then consider "k < 16" | "16 \<le> k" "k < 24" | "24 \<le> k" by linarith
    then show ?case using 1 by cases (simp_all add: e bit_simps, auto)
  qed
  moreover have "ucast (limit_low e) OR push_bit 16 (ucast (take_bit 4 (granularity e))) = take_bit 20 limit"
  proof (rule bit_word_eqI, goal_cases)
    case (1 k)
    then consider "k < 16" | "16 \<le> k" by linarith
    then show ?case using 1 by cases (auto simp add: e bit_simps)
  qed
  moreover have "drop_bit 4 (granularity e) = drop_bit 4 gran"
    by (rule bit_word_eqI) (auto simp add: e bit_simps dest: bit_imp_le_length)
  moreover have "access e = acc" by (simp add: e)
  ultimately show ?thesis
    by (simp add: segment_def field_masks flip: e_def)
qed

lemma set_gates_nth:
  assumes "first + n \<le> 256"
  shows "set_gates stub first n idt v =
    (if first \<le> unat v \<and> unat v < first + n then idt_set_gate idt v (stub (unat v - first)) 0x08 0x8E v else idt v)"
  using assms
proof (induction n)
  case 0
  then show ?case by (auto simp: set_gates_def)
next
  case (Suc n)
  have u: "unat (word_of_nat (first + n) :: byte) = first + n"
    using Suc.prems by (simp add: unat_of_nat take_bit_nat_eq_self del: of_nat_add)
  then have v: "v = word_of_nat (first + n) \<longleftrightarrow> unat v = first + n"
    by (simp only: word_unat_eq_iff u)
  have "set_gates stub first (Suc n) idt =
      idt_set_gate (set_gates stub first n idt) (word_of_nat (first + n)) (stub n) 0x08 0x8E"
    by (simp add: set_gates_def)
  then show ?case using Suc v by (auto simp: idt_set_gate_def)
qed

lemma pics_run_append: "pics_run (t @ u) ps = pics_run u (pics_run t ps)"
  by (simp add: pics_run_def)

lemma in_service_eoi: "i < 8 \<Longrightarrow> (push_bit i 1 AND (push_bit i 1 - 1) :: byte) = 0"
  by (auto simp: less_Suc_eq numeral_eq_Suc)

lemma pics_run_outb:
  "pics_run (outb port v t) ps = pic_event (Outb port v) (pics_run t ps)"
  by (simp add: pics_run_def outb_def)

text \<open>What remapping leaves in the controllers, whatever state they were in.\<close>

lemma pics_remap:
  "pics_run (pic_remap t) ps =
    (\<lparr>pending = [], vector_base = 0x20, mask_reg = 0xFC, in_service = 0, \<dots> = pic.more (fst (pics_run t ps))\<rparr>,
     \<lparr>pending = [], vector_base = 0x28, mask_reg = 0xFF, in_service = 0, \<dots> = pic.more (snd (pics_run t ps))\<rparr>)"
  unfolding pic_remap_def io_wait_def Let_def pics_run_outb
  by (cases "pics_run t ps") (simp add: pic_command_def pic_data_def bit_numeral_rec)

section \<open>Properties\<close>

text \<open>
  A descriptor written by \<open>gdt_set_gate\<close> reads back as its base, the low 20 bits of its limit,
  its access byte and its flags, and the other descriptors stay as they were.
\<close>

theorem gdt_gate_roundtrip:
  assumes "num < length gdt"
  shows "segment (gdt_set_gate gdt num base limit acc gran ! num) = (base, limit AND 0xFFFFF, acc, drop_bit 4 gran) \<and>
    (\<forall>i. i \<noteq> num \<longrightarrow> gdt_set_gate gdt num base limit acc gran ! i = gdt ! i)"
  using segment_roundtrip [OF assms] by (simp add: gdt_set_gate_def)

theorem gdt_gate_roundtrip_witness:
  "segment (gdt_set_gate (replicate 5 undefined) 1 0x12345678 0xFFFFFFFF 0x9A 0x20 ! 1) = (0x12345678, 0xFFFFF, 0x9A, 2)"
  using gdt_gate_roundtrip [of 1 "replicate 5 undefined" "0x12345678" "0xFFFFFFFF" "0x9A" "0x20"] by simp

text \<open>
  C24: After \<open>idt_init\<close>, whatever state the interrupt controllers were in, the vector each interrupt
  line is delivered on has a gate to the stub of that line, and the exceptions have theirs; the
  gates are present ring-0 interrupt gates of the kernel's code segment, no other vector is present,
  and of the sixteen lines exactly the timer and the keyboard are enabled.
\<close>

theorem idt_init_dispatches:
  assumes "idt_init isr_stub irq_stub table t = (idt, ptr, t')"
  shows "(\<forall>i < 16. gate_target (idt (pic_vector i (pics_run t' ps))) = irq_stub i \<and>
      (line_enabled i (pics_run t' ps) \<longleftrightarrow> i < 2)) \<and>
    (\<forall>v. (unat v < 32 \<longrightarrow> gate_target (idt v) = isr_stub (unat v)) \<and> (gate_present (idt v) \<longleftrightarrow> unat v < 48) \<and>
      (unat v < 48 \<longrightarrow> selector (idt v) = 0x08 \<and> type_attr (idt v) = 0x8E))"
proof -
  have idt: "idt = set_gates irq_stub 32 16 (set_gates isr_stub 0 32 (\<lambda>_. zero_gate))"
    and t': "t' = sti (pic_remap t)" using assms by (simp_all add: idt_init_def Let_def)
  have e: "idt v = (if unat v < 32 then idt_set_gate (\<lambda>_. zero_gate) v (isr_stub (unat v)) 0x08 0x8E v
      else if unat v < 48 then idt_set_gate (\<lambda>_. zero_gate) v (irq_stub (unat v - 32)) 0x08 0x8E v else zero_gate)" for v
    unfolding idt by (auto simp: set_gates_nth idt_set_gate_def)
  have ps: "pics_run t' ps = pics_run (pic_remap t) ps"
    by (simp add: t' sti_def pics_run_def)
  have vec: "unat (pic_vector i (pics_run t' ps)) = 32 + i" if "i < 16" for i
    using that by (simp add: ps pics_remap pic_vector_def unat_add_of_nat)
  have line: "line_enabled i (pics_run t' ps) \<longleftrightarrow> i < 2" if "i < 16" for i
    unfolding line_enabled_def ps pics_remap using that
    by (auto simp: less_Suc_eq numeral_eq_Suc bit_numeral_rec bit_Suc)
  show ?thesis
    using vec line by (auto simp: e gate_roundtrip [unfolded idt_set_gate_def fun_upd_same] gate_present_def idt_set_gate_def zero_gate_def bit_numeral_rec)
qed

theorem idt_init_dispatches_witness:
  "\<exists>idt ptr t'. idt_init (\<lambda>n. 0xFFFFFFFF80001000 + of_nat n) (\<lambda>n. 0xFFFFFFFF80002000 + of_nat n) 0 [] = (idt, ptr, t') \<and>
     gate_target (idt 33) = 0xFFFFFFFF80002001"
proof -
  obtain idt ptr t' where i: "idt_init (\<lambda>n. 0xFFFFFFFF80001000 + of_nat n) (\<lambda>n. 0xFFFFFFFF80002000 + of_nat n) 0 [] =
      (idt, ptr, t')" by (metis prod_cases3)
  let ?p = "\<lparr>pending = [], vector_base = 0, mask_reg = 0, in_service = 0\<rparr>"
  have t': "t' = sti (pic_remap [])" using i by (simp add: idt_init_def Let_def)
  have "pic_vector 1 (pics_run t' (?p, ?p)) = 33"
    using pics_remap [of "[]" "(?p, ?p)"] by (simp add: t' sti_def pics_run_def pic_vector_def)
  then have "gate_target (idt 33) = 0xFFFFFFFF80002001"
    using idt_init_dispatches [OF i, THEN conjunct1, rule_format, of 1 "(?p, ?p)"] by simp
  then show ?thesis using i by blast
qed

text \<open>
  Acknowledgement. When a line of the remapped controllers is served and \<open>irq_handler\<close> runs for
  its vector, both controllers end with nothing in service, so that every line can be delivered
  again, whatever handler is registered; a registered handler has run once, on the byte read from
  port \<open>0x60\<close>, and nothing else in the kernel changes.
\<close>

theorem irq_handler_acknowledges:
  assumes "i < 16" "in_service (fst ps) = 0" "in_service (snd ps) = 0"
  shows "\<exists>ev. irq_handler dv table (word_of_nat (32 + i)) k =
      k\<lparr>ports := ports k @ ev,
        keyboard := (case table (32 + i) of None \<Rightarrow> keyboard k | Some h \<Rightarrow> h (in8 dv (ports k) 0x60) (keyboard k))\<rparr> \<and>
    pics_run ev (serve i ps) = ps"
proof -
  let ?r = "case table (32 + i) of None \<Rightarrow> [] | Some h \<Rightarrow> [Inb 0x60 (in8 dv (ports k) 0x60)]"
  let ?ev = "?r @ (if i < 8 then [] else [Outb 0xA0 0x20]) @ [Outb 0x20 0x20]"
  have u: "unat (word_of_nat (32 + i) :: u64) = 32 + i" using assms(1) by (simp add: unat_of_nat take_bit_nat_eq_self del: of_nat_add)
  have ge: "(40 :: u64) \<le> word_of_nat (32 + i) \<longleftrightarrow> \<not> i < 8"
    using u by (auto simp: word_le_nat_alt simp del: of_nat_add)
  have h: "irq_handler dv table (word_of_nat (32 + i)) k =
      k\<lparr>ports := ports k @ ?ev,
        keyboard := (case table (32 + i) of None \<Rightarrow> keyboard k | Some h \<Rightarrow> h (in8 dv (ports k) 0x60) (keyboard k))\<rparr>"
    by (cases "table (32 + i)") (simp_all add: irq_handler_def u ge inb_def outb_def Let_def del: of_nat_add)
  have bits: "j < 8 \<Longrightarrow> (push_bit j 1 AND (push_bit j 1 - 1) :: byte) = 0" for j by (rule in_service_eoi)
  have "pics_run ?r qs = qs" for qs by (cases "table (32 + i)") (simp_all add: pics_run_def)
  then have "pics_run ?ev (serve i ps) = ps"
    using assms bits [of i] bits [of "i - 8"] bits [of 2]
    by (cases ps) (auto simp: pics_run_append, auto simp: pics_run_def serve_def pic_command_def bit_numeral_rec Let_def)
  then show ?thesis using h by blast
qed

theorem irq_handler_acknowledges_witness:
  "\<exists>ev. irq_handler ready_uart (keyboard_init (\<lambda>_. None)) 33 demo_kernel =
      demo_kernel\<lparr>ports := ev, keyboard := keyboard_interrupt_handler 0x60 (keyboard demo_kernel)\<rparr>"
proof -
  let ?p = "\<lparr>pending = [], vector_base = 0, mask_reg = 0, in_service = 0\<rparr>"
  obtain ev where "irq_handler ready_uart (keyboard_init (\<lambda>_. None)) (word_of_nat (32 + 1)) demo_kernel =
      demo_kernel\<lparr>ports := ports demo_kernel @ ev, keyboard := (case keyboard_init (\<lambda>_. None) (32 + 1) of
        None \<Rightarrow> keyboard demo_kernel
      | Some h \<Rightarrow> h (in8 ready_uart (ports demo_kernel) 0x60) (keyboard demo_kernel))\<rparr>"
    using irq_handler_acknowledges [of 1 "(?p, ?p)" ready_uart "keyboard_init (\<lambda>_. None)" demo_kernel] by auto
  then show ?thesis by (auto simp: keyboard_init_def ready_uart_def)
qed

lemma klog_lines_live:
  assumes "uart_live dv" "\<forall>(fmt, args) \<in> set ls. fits fmt args"
  shows "\<exists>t. klog_lines dv ls k = Some (k\<lparr>ports := t\<rparr>)"
  using assms(2)
proof (induction ls arbitrary: k)
  case Nil
  show ?case by (rule exI [of _ "ports k"]) simp
next
  case (Cons l ls)
  obtain fmt args where l: "l = (fmt, args)" by fastforce
  then have "fits fmt args" using Cons.prems by simp
  then obtain t where "serial_printf dv fmt args (ports k) = Some t"
    using serial_printf_total [OF assms(1)] unfolding fits_def by blast
  moreover obtain t' where "klog_lines dv ls (k\<lparr>ports := t\<rparr>) = Some (k\<lparr>ports := t\<rparr>\<lparr>ports := t'\<rparr>)"
    using Cons.IH [of "k\<lparr>ports := t\<rparr>"] Cons.prems by auto
  ultimately show ?case by (auto simp: l klogf_def)
qed

lemma exception_log_fits: "\<forall>(fmt, args) \<in> set (exception_log cr2 st reason). fits fmt args"
  unfolding exception_log_def rule_line_def by (simp only: list.set set_append split: if_split) simp

text \<open>
  An exception is never survived: with a live UART and a usable screen, the handler of every
  exception logs the fault, paints the panic screen inside the frame buffer and halts; it touches
  nothing else of the kernel. It returns for other vectors only, at once.
\<close>

theorem exception_halts:
  assumes "uart_live dv" "fb_ok (screen k)"
  shows "if int_no st < 32
    then \<exists>s t. isr_handler dv cr2 st k = Some (Halted (k\<lparr>screen := s, ports := t @ [Cli, Hlt]\<rparr>)) \<and> confined (screen k) s
    else isr_handler dv cr2 st k = Some (Returned k)"
proof (cases "int_no st < 32")
  case True
  obtain t where t: "klog_lines dv (exception_log cr2 st (exception_messages ! unat (int_no st))) k = Some (k\<lparr>ports := t\<rparr>)"
    using klog_lines_live [OF assms(1) exception_log_fits] by blast
  have "\<exists>ops. isr_handler dv cr2 st k =
      Some (Halted (k\<lparr>screen := foldl fb_step (screen k) ops, ports := speaker_panic_siren dv t @ [Cli, Hlt]\<rparr>))"
    using True
    by (intro exI [of _ "[Clear COLOR_RED, Draw_box 80 100 640 240 COLOR_BLUE COLOR_WHITE _ _,
          Print_color _ COLOR_WHITE COLOR_RED, Print_color _ COLOR_YELLOW COLOR_RED, Print_color _ COLOR_WHITE COLOR_RED]"])
      (simp add: isr_handler_def t on_screen_def hlt_def cli_def Let_def)
  then show ?thesis using True fb_steps_confined [OF assms(2)] by auto
qed (simp add: isr_handler_def)

theorem exception_halts_witness:
  "\<exists>st s t. int_no st = 14 \<and> isr_handler ready_uart 0xDEAD st demo_kernel =
     Some (Halted (demo_kernel\<lparr>screen := s, ports := t @ [Cli, Hlt]\<rparr>))"
proof -
  let ?st = "undefined\<lparr>int_no := 14\<rparr> :: cpu_state"
  have "fb_ok (screen demo_kernel)" by (simp add: demo_kernel_def demo_fb_ok)
  from exception_halts [OF ready_uart_live this, of ?st "0xDEAD"]
  obtain s t where "isr_handler ready_uart 0xDEAD ?st demo_kernel =
      Some (Halted (demo_kernel\<lparr>screen := s, ports := t @ [Cli, Hlt]\<rparr>))" by auto
  then show ?thesis by (intro exI [of _ ?st] exI [of _ s] exI [of _ t]) simp
qed

lemma set_gates32_nth:
  assumes "first + n \<le> 256"
  shows "set_gates32 stub first n idt v =
    (if first \<le> unat v \<and> unat v < first + n then idt_set_gate32 idt v (stub (unat v - first)) 0x08 0x8E v else idt v)"
  using assms
proof (induction n)
  case 0
  then show ?case by (auto simp: set_gates32_def)
next
  case (Suc n)
  have "v = word_of_nat (first + n) \<longleftrightarrow> unat v = first + n"
    using Suc.prems by (simp add: word_unat_eq_iff unat_of_nat take_bit_nat_eq_self del: of_nat_add)
  moreover have "set_gates32 stub first (Suc n) idt =
      idt_set_gate32 (set_gates32 stub first n idt) (word_of_nat (first + n)) (stub n) 0x08 0x8E"
    by (simp add: set_gates32_def)
  ultimately show ?case using Suc by (auto simp: idt_set_gate32_def)
qed

text \<open>
  The 32-bit kernel handles interrupts as the 64-bit one does: it programs the controllers with
  the same bytes, its gates lead to the same stubs with the same selector and type, and its interrupt
  handler has the same effect.
\<close>

theorem interrupts32_agree:
  assumes "idt_init32 isr_stub irq_stub table t = (idt32, ptr32, t32)"
    and "idt_init (\<lambda>n. ucast (isr_stub n)) (\<lambda>n. ucast (irq_stub n)) table t = (idt, ptr, t64)"
  shows "t32 = t64 \<and> ucast (gate_target32 (idt32 v)) = gate_target (idt v) \<and> selector32 (idt32 v) = selector (idt v) \<and>
    type_attr32 (idt32 v) = type_attr (idt v) \<and> irq_handler32 dv handlers vec k = irq_handler dv handlers (ucast vec) k"
proof -
  have idt: "idt = set_gates (\<lambda>n. ucast (irq_stub n)) 32 16 (set_gates (\<lambda>n. ucast (isr_stub n)) 0 32 (\<lambda>_. zero_gate))"
    "t64 = sti (pic_remap t)" using assms(2) by (simp_all add: idt_init_def Let_def)
  let ?z = "\<lparr>offset_low32 = 0, selector32 = 0, zero32 = 0, type_attr32 = 0, offset_high32 = 0\<rparr>"
  have idt32: "idt32 = set_gates32 irq_stub 32 16 (set_gates32 isr_stub 0 32 (\<lambda>_. ?z))" "t32 = sti (pic_remap32 t)"
    using assms(1) by (simp_all add: idt_init32_def Let_def)
  have e: "idt v = (if unat v < 32 then idt_set_gate (\<lambda>_. zero_gate) v (ucast (isr_stub (unat v))) 0x08 0x8E v
      else if unat v < 48 then idt_set_gate (\<lambda>_. zero_gate) v (ucast (irq_stub (unat v - 32))) 0x08 0x8E v else zero_gate)"
    unfolding idt by (auto simp: set_gates_nth idt_set_gate_def)
  have e32: "idt32 v = (if unat v < 32 then idt_set_gate32 (\<lambda>_. ?z) v (isr_stub (unat v)) 0x08 0x8E v
      else if unat v < 48 then idt_set_gate32 (\<lambda>_. ?z) v (irq_stub (unat v - 32)) 0x08 0x8E v else ?z)"
    unfolding idt32 by (auto simp: set_gates32_nth idt_set_gate32_def)
  have "pic_remap32 t = pic_remap t" by (simp add: pic_remap32_def pic_remap_def)
  moreover have "irq_handler32 dv handlers vec k = irq_handler dv handlers (ucast vec) k"
  proof -
    have "unat (ucast vec :: u64) = unat vec" 
      using unsigned_less [of vec, where 'a = nat] by (simp add: unsigned_ucast_eq take_bit_nat_eq_self)
    then have "(40 :: u64) \<le> ucast vec \<longleftrightarrow> 40 \<le> vec" by (simp add: word_le_nat_alt)
    then show ?thesis using \<open>unat (ucast vec :: u64) = unat vec\<close> by (simp add: irq_handler32_def irq_handler_def)
  qed
  moreover have "ucast (gate_target32 (idt32 v)) = gate_target (idt v)"
    unfolding e e32 by (simp add: gate_roundtrip gate_roundtrip32) (simp add: gate_target_def gate_target32_def zero_gate_def)
  moreover have "selector32 (idt32 v) = selector (idt v)" "type_attr32 (idt32 v) = type_attr (idt v)"
    unfolding e e32 by (simp_all add: idt_set_gate_def idt_set_gate32_def zero_gate_def)
  ultimately show ?thesis using idt(2) idt32(2) by simp
qed

theorem interrupts32_agree_witness:
  "\<exists>idt ptr t. idt_init32 (\<lambda>n. 0x1000 + of_nat n) (\<lambda>n. 0x2000 + of_nat n) 0 [] = (idt, ptr, t) \<and> selector32 (idt 33) = 8"
proof -
  obtain idt32 ptr32 t32 where i32: "idt_init32 (\<lambda>n. 0x1000 + of_nat n) (\<lambda>n. 0x2000 + of_nat n) 0 [] = (idt32, ptr32, t32)"
    by (metis prod_cases3)
  obtain idt ptr t64 where i: "idt_init (\<lambda>n. ucast (0x1000 + of_nat n :: u32)) (\<lambda>n. ucast (0x2000 + of_nat n :: u32)) 0 [] = (idt, ptr, t64)"
    by (metis prod_cases3)
  then have "selector (idt 33) = 8"
    using set_gates_nth [of 32 16 _ _ 33] by (auto simp: idt_init_def Let_def idt_set_gate_def)
  then show ?thesis using interrupts32_agree [OF i32 i, of 33] i32 by auto
qed

end
