(* ===== verification/Shell.thy ===== *)
theory Shell
  imports Interrupts
begin

text \<open>
  The emergency shell and the boot sequence, \<^verbatim>\<open>kernel_main.c\<close> for the 64-bit kernel. Every command is
  a function of the kernel state; the text it prints goes to the frame buffer and, where the code
  says so, to the serial line. \<^term>\<open>None\<close> means that the command does not come back: an endless
  loop, a page fault, or a buffer overrun on the stack.
\<close>

section \<open>Printing\<close>

definition pr :: "string \<Rightarrow> kernel \<Rightarrow> kernel" where
  "pr str = on_screen (\<lambda>s. fb_print s str)"

definition prln :: "string \<Rightarrow> kernel \<Rightarrow> kernel" where
  "prln str = on_screen (\<lambda>s. fb_println s str)"

definition prc :: "string \<Rightarrow> u32 \<Rightarrow> u32 \<Rightarrow> kernel \<Rightarrow> kernel" where
  "prc str fg bg = on_screen (\<lambda>s. fb_print_color s str fg bg)"

definition log_boot_step :: "devices \<Rightarrow> string \<Rightarrow> bool \<Rightarrow> kernel \<Rightarrow> kernel option" where
  "log_boot_step dv step success k =
     (let k = prc ''[  '' COLOR_LIGHT_GRAY COLOR_BLACK k;
          k = (if success then prc ''OK'' COLOR_LIGHT_GREEN COLOR_BLACK k else prc ''FAIL'' COLOR_LIGHT_RED COLOR_BLACK k);
          k = prc ''  ] '' COLOR_LIGHT_GRAY COLOR_BLACK k;
          k = prln step k in
      Option.bind (serial_print dv ''[BOOT] '' (ports k)) (\<lambda>t.
      map_option (\<lambda>t. k\<lparr>ports := t\<rparr>) (serial_println dv step t)))"

text \<open>\<^verbatim>\<open>int_to_str\<close>: the digits, lowest first, at most 30; then what fits in the buffer. The most
  negative value is its own negation. \<^term>\<open>None\<close>: nothing is written.\<close>

fun temp_digits :: "nat \<Rightarrow> int \<Rightarrow> string" where
  "temp_digits 0 val = []"
| "temp_digits (Suc idx) val =
     (if val > 0 then char_of (48 + nat (val mod 10)) # temp_digits idx (val div 10) else [])"

definition int_to_str :: "u32 \<Rightarrow> nat \<Rightarrow> string option" where
  "int_to_str val max_len =
     (if max_len = 0 then None
      else if val = 0 then Some ''0''
      else
        let neg = sint val < 0;
            v = (if neg then - val else val);
            temp = temp_digits 30 (sint v)
        in Some (take (max_len - 1) ((if neg then ''-'' else []) @ rev temp)))"

section \<open>Panic\<close>

definition init_died_log :: "u32 \<Rightarrow> string option \<Rightarrow> (string \<times> printf_arg list) list" where
  "init_died_log exit_code reason =
     [(nl @ rule_line, []),
      ('' !!! KERNEL PANIC: ATTEMPTED TO KILL INIT! (PID 1) !!!'' @ nl, []),
      ('' Exit Code: 0x%x  Reason: %s'' @ nl,
         [Ahex (ucast exit_code), Astr (Some (case reason of None \<Rightarrow> ''Unknown'' | Some r \<Rightarrow> r))]),
      ('' What Went Wrong: The root userland initialization process (/sbin/main) unexpectedly died.'' @ nl, []),
      ('' JurkOS cannot operate without a running PID 1 init process.'' @ nl, []),
      ('' System halted to prevent corruption.'' @ nl, []),
      (rule_line, [])]"

definition kernel_panic_pid1_died :: "devices \<Rightarrow> u32 \<Rightarrow> string option \<Rightarrow> kernel \<Rightarrow> kernel outcome option" where
  "kernel_panic_pid1_died dv exit_code reason k =
     Option.bind (klog_lines dv (init_died_log exit_code reason) k) (\<lambda>k.
     let k = on_screen (\<lambda>s. fb_clear s COLOR_RED) k;
         k = on_screen (\<lambda>s. fb_draw_box s 60 60 680 260 COLOR_BLUE COLOR_WHITE
           (Some '' !!! KERNEL PANIC: ATTEMPTED TO KILL INIT !!! '')
           (Some (nl @ '' Fatal System Halt: PID 1 (/sbin/main) has died or crashed!'' @ nl @ nl @
             '' What Went Wrong:'' @ nl @
             ''  * The root initialization process exited or encountered a fatal signal.'' @ nl @
             ''  * Without PID 1, the operating system cannot service userland.'' @ nl @
             ''  * Hardware speaker alarm triggered; system state preserved for review.'' @ nl @ nl @
             '' Action: Check /dev/console logs or reboot your computer.''))) k;
         k = prc (nl @ ''  [PANIC] Exit Code: '') COLOR_WHITE COLOR_RED k;
         k = prc (case int_to_str exit_code 16 of None \<Rightarrow> [] | Some str \<Rightarrow> str) COLOR_YELLOW COLOR_RED k;
         k = prc ''  Reason: '' COLOR_WHITE COLOR_RED k;
         k = prc (case reason of None \<Rightarrow> ''Process terminated'' | Some r \<Rightarrow> r) COLOR_YELLOW COLOR_RED k;
         k = prc nl COLOR_WHITE COLOR_RED k;
         k = k\<lparr>ports := speaker_panic_siren dv (ports k)\<rparr>
     in Some (Halted (k\<lparr>ports := hlt (cli (ports k))\<rparr>)))"

section \<open>Commands\<close>

text \<open>A backslash and an apostrophe, for the banner.\<close>

abbreviation bslash :: string where "bslash \<equiv> [CHR 0x5C]"
abbreviation apos :: string where "apos \<equiv> [CHR 0x27]"

definition print_banner :: "kernel \<Rightarrow> kernel" where
  "print_banner k =
     (let k = on_screen (\<lambda>s. fb_clear s COLOR_BLACK) k;
          k = prc (''  __ _            _    ___  ____  '' @ nl) COLOR_CYAN COLOR_BLACK k;
          k = prc ('' | | |_   _ _ __| | __/ _ '' @ bslash @ ''/ ___| '' @ nl) COLOR_CYAN COLOR_BLACK k;
          k = prc ('' | | | | | | '' @ apos @ ''__| |/ / | | '' @ bslash @ ''___ '' @ bslash @ '' '' @ nl) COLOR_CYAN COLOR_BLACK k;
          k = prc ('' | | |_| | | |  |   <| |_| |___) |'' @ nl) COLOR_CYAN COLOR_BLACK k;
          k = prc ('' '' @ bslash @ ''___/'' @ bslash @ ''__,_|_|  |_|'' @ bslash @ ''_'' @ bslash @ bslash @ ''___/|____/ '' @ nl @ nl) COLOR_CYAN COLOR_BLACK k;
          k = prc ('' JurkOS Kernel v1.1 Alpha'' @ nl) COLOR_YELLOW COLOR_BLACK k;
          k = prc ('' Architecture: x86-64 (64-bit Long Mode) | Limine Protocol | VFS Filesystem'' @ nl) COLOR_LIGHT_GRAY COLOR_BLACK k
      in pr (''========================================================================'' @ nl @ nl) k)"

definition shell_help :: "kernel \<Rightarrow> kernel" where
  "shell_help = fold prln
    [''Available JurkOS Built-in Shell Commands:'',
     ''  help       - Display this list of commands'',
     ''  ls [dir]   - List files and directories (VFS & /dev)'',
     ''  cat <file> - Read and print file contents'',
     ''  exec <file>- Execute ELF, XEC, or .JEX binary via dual loader'',
     ''  wifi       - Launch Wi-Fi Adapter search & status manager'',
     ''  jurkstore  - Launch JurkStore package manager'',
     ''  uname [-a] - Print OS (-o), processor (-p), or both (-a)'',
     ''  clear      - Clear the screen buffer'',
     ''  reboot     - Warm reboot the system'']"

definition ls_entry :: "dirent \<Rightarrow> kernel \<Rightarrow> kernel" where
  "ls_entry ent k =
     (if d_flags ent AND VFS_DIRECTORY \<noteq> 0 then
        prln ''/'' (prc (d_name ent) COLOR_LIGHT_CYAN COLOR_BLACK (pr ''  [DIR]  '' k))
      else if d_flags ent AND VFS_CHARDEVICE \<noteq> 0 then
        prln '''' (prc (d_name ent) COLOR_YELLOW COLOR_BLACK (pr ''  [DEV]  '' k))
      else prln '''' (pr (d_name ent) (pr ''  [FILE] '' k)))"

partial_function (option) ls_loop :: "nid option \<Rightarrow> u32 \<Rightarrow> kernel \<Rightarrow> kernel option" where
  "ls_loop dir idx k =
     (case vfs_readdir kernel_readdir k dir idx of
        None \<Rightarrow> None
      | Some None \<Rightarrow> Some k
      | Some (Some ent) \<Rightarrow> ls_loop dir (idx + 1) (ls_entry ent k))"

definition shell_ls :: "string \<Rightarrow> kernel \<Rightarrow> kernel option" where
  "shell_ls path k =
     (let path = (if path = [] then ''/'' else path) in
      Option.bind (vfs_lookup kernel_finddir k path) (\<lambda>(dir, k).
      case dir of
        None \<Rightarrow> Some (prln path (pr ''ls: Directory not found: '' k))
      | Some d \<Rightarrow>
          if flags (nodes k d) AND VFS_DIRECTORY = 0 then Some (prln path (pr ''ls: Not a directory: '' k))
          else ls_loop dir 0 (prln '':'' (pr path (pr ''Contents of '' k)))))"

text \<open>The bytes read become a string: it ends at the first 0.\<close>

definition as_string :: "byte list \<Rightarrow> string" where
  "as_string data = takeWhile (\<lambda>c. c \<noteq> CHR 0x00) (map (\<lambda>b. char_of (unat b)) data)"

partial_function (option) cat_loop :: "nid option \<Rightarrow> u32 \<Rightarrow> kernel \<Rightarrow> kernel option" where
  "cat_loop file offset k =
     (case vfs_read kernel_read k file offset 255 of
        None \<Rightarrow> None
      | Some (bytes, data, k) \<Rightarrow>
          if bytes > 0 then cat_loop file (offset + bytes) (pr (as_string (take (unat bytes) data)) k) else Some k)"

definition shell_cat :: "string \<Rightarrow> kernel \<Rightarrow> kernel option" where
  "shell_cat path k =
     (if path = [] then Some (prln ''cat: Usage: cat <path>'' k)
      else
        Option.bind (vfs_lookup kernel_finddir k path) (\<lambda>(file, k).
        case file of
          None \<Rightarrow> Some (prln path (pr ''cat: File not found: '' k))
        | Some f \<Rightarrow>
            if flags (nodes k f) AND VFS_DIRECTORY \<noteq> 0 then Some (prln ''cat: Is a directory'' k)
            else map_option (prln '''') (cat_loop file 0 k)))"

definition shell_wifi :: "kernel \<Rightarrow> kernel" where
  "shell_wifi = on_screen (\<lambda>s. fb_draw_box s 120 180 560 140 COLOR_BLUE COLOR_WHITE
     (Some ''JurkOS Wireless Manager (wifi)'')
     (Some (nl @ ''     Oops, Looks like your computer dosen'' @ apos @ ''t have a WI-FI Adapter    '' @ nl @ nl @
       ''  Status: Hardware checked across all PCI/USB adapters.'' @ nl @
       ''  Active Connection: Using Intel e1000 Ethernet interface (/dev/net/eth0)'')))"

definition shell_uname :: "string \<Rightarrow> kernel \<Rightarrow> kernel" where
  "shell_uname arg k =
     (let proc_type = ''x86_64'';
          os_name = ''JurkOS 1.1 Alpha'' in
      if arg = [] then prln os_name k
      else
        let (flag_o, flag_p) =
              (if arg = ''-a'' then (True, True)
               else if arg = ''-o'' then (True, False)
               else if arg = ''-p'' then (False, True)
               else (True, False)) in
        if flag_o \<and> flag_p then prln proc_type (pr '' '' (pr os_name k))
        else if flag_o then prln os_name k
        else if flag_p then prln proc_type k
        else k)"

partial_function (option) kbc_wait :: "devices \<Rightarrow> io_trace \<Rightarrow> io_trace option" where
  "kbc_wait dv t = (case inb dv 0x64 t of (good, t) \<Rightarrow> if good AND 0x02 \<noteq> 0 then kbc_wait dv t else Some t)"

definition shell_reboot :: "devices \<Rightarrow> kernel \<Rightarrow> kernel option" where
  "shell_reboot dv k =
     (let k = prln ''Rebooting JurkOS...'' k in
      map_option (\<lambda>t. k\<lparr>ports := hlt (outb 0x64 0xFE t)\<rparr>) (kbc_wait dv (ports k)))"

section \<open>The shell\<close>

definition lift_kern :: "(kernel \<Rightarrow> kernel option) \<Rightarrow> system \<Rightarrow> system option" where
  "lift_kern f m = map_option (\<lambda>k. m\<lparr>kern := k\<rparr>) (f (kern m))"

definition find_file :: "string \<Rightarrow> system \<Rightarrow> (nid option \<times> system) option" where
  "find_file path m = map_option (\<lambda>(n, k). (n, m\<lparr>kern := k\<rparr>)) (vfs_lookup kernel_finddir (kern m) path)"

definition skip_spaces :: "string \<Rightarrow> string" where
  "skip_spaces = dropWhile (\<lambda>c. c = CHR '' '')"

type_synonym runner = "nid option \<Rightarrow> system \<Rightarrow> (int \<times> system) option"

text \<open>One command line; \<open>run\<close> is \<^verbatim>\<open>loader_exec\<close>. \<^verbatim>\<open>bin_path\<close> holds 128 bytes, so a longer name
  overruns it.\<close>

definition run_command :: "devices \<Rightarrow> runner \<Rightarrow> string \<Rightarrow> system \<Rightarrow> system option" where
  "run_command dv run p m =
     (let pure = (\<lambda>f. lift_kern (\<lambda>k. Some (f k)) m) in
      if p = ''help'' then pure shell_help
      else if take 2 p = ''ls'' then lift_kern (shell_ls (skip_spaces (drop 2 p))) m
      else if take 4 p = ''cat '' then lift_kern (shell_cat (drop 4 p)) m
      else if p = ''wifi'' then pure shell_wifi
      else if p = ''jurkstore'' then
        pure (prln ''Installed packages in /usr/apps/ available.'' \<circ> prln ''JurkStore: Terminal package manager ready.'')
      else if take 5 p = ''uname'' then pure (shell_uname (skip_spaces (drop 5 p)))
      else if p = ''clear'' then pure (on_screen (\<lambda>s. fb_clear s COLOR_BLACK))
      else if p = ''reboot'' then lift_kern (shell_reboot dv) m
      else if take 5 p = ''exec '' then
        Option.bind (find_file (drop 5 p) m) (\<lambda>(file, m).
          case file of
            None \<Rightarrow> lift_kern (\<lambda>k. Some (prln ''exec: Binary file not found.'' k)) m
          | Some f \<Rightarrow> map_option snd (run file m))
      else
        Option.bind (find_file p m) (\<lambda>(file, m).
        Option.bind
          (if file = None \<and> hd p \<noteq> CHR ''/''
           then (if length p + 5 < 128 then find_file (''/bin/'' @ p) m else None)
           else Some (file, m)) (\<lambda>(file, m).
        case file of
          None \<Rightarrow> lift_kern (\<lambda>k. Some (prln ('': command not found. Type '' @ apos @ ''help'' @ apos @ '' for available commands.'') (pr p k))) m
        | Some f \<Rightarrow> map_option snd (run file m))))"

text \<open>One turn of the endless loop of \<^verbatim>\<open>run_shell\<close>; the line editor waits for the scancodes the
  keyboard still brings.\<close>

definition shell_line :: "devices \<Rightarrow> runner \<Rightarrow> system \<Rightarrow> system option" where
  "shell_line dv run m =
     (let k = prc ''jurkos@jurkos:/$ '' COLOR_LIGHT_GREEN COLOR_BLACK (kern m) in
      Option.bind (keyboard_readline 128 (keyboard k) (scancodes k)) (\<lambda>(cmd, echo, kbd, irqs).
      let m = m\<lparr>kern := pr echo (k\<lparr>keyboard := kbd, scancodes := irqs\<rparr>)\<rparr>;
          p = skip_spaces cmd
      in if p = [] then Some m else run_command dv run p m))"

inductive shell_reaches :: "devices \<Rightarrow> runner \<Rightarrow> system \<Rightarrow> system \<Rightarrow> bool" for dv run where
  start: "shell_reaches dv run m m"
| line: "shell_reaches dv run m m1 \<Longrightarrow> shell_line dv run m1 = Some m2 \<Longrightarrow> shell_reaches dv run m m2"

inductive_cases shell_reachesE: "shell_reaches dv run m m'"

section \<open>Booting\<close>

definition E1000_VENDOR_INTEL :: u16 where "E1000_VENDOR_INTEL = 0x8086"
definition E1000_DEV_82540EM :: u16 where "E1000_DEV_82540EM = 0x100E"
definition E1000_DEV_82545EM :: u16 where "E1000_DEV_82545EM = 0x100F"

text \<open>The processor's tables, and where the image of the kernel puts them, its heap and its stubs.\<close>

record cpu =
  gdt :: "gdt_entry list"
  gdtr :: gdt_ptr
  idt_table :: idt
  idtr :: idt_ptr
  irq_table :: handlers

record kernel_image =
  gdt_at :: u64
  idt_at :: u64
  heap_at :: u64
  isr_stubs :: "nat \<Rightarrow> u64"
  irq_stubs :: "nat \<Rightarrow> u64"

record framebuffer_response =
  resp_address :: u64
  resp_width :: u64
  resp_height :: u64
  resp_pitch :: u64
  resp_bpp :: u16

definition init_screen :: "framebuffer_response option \<Rightarrow> fb \<Rightarrow> fb" where
  "init_screen response s =
     (case response of
        Some r \<Rightarrow> fb_init s (resp_address r) (ucast (resp_width r)) (ucast (resp_height r)) (ucast (resp_pitch r)) (resp_bpp r)
      | None \<Rightarrow> fb_init s 0xFFFF8000000B8000 1024 768 4096 32)"

text \<open>The network card: the page allocator is shared with it.\<close>

definition boot_network :: "devices \<Rightarrow> (e1000 \<Rightarrow> nat \<Rightarrow> u32) \<Rightarrow> system \<Rightarrow> system option" where
  "boot_network dv regs m =
     (let devs = pci_devices (kern m);
          card = (case pci_find_device devs E1000_VENDOR_INTEL E1000_DEV_82540EM of
                    Some d \<Rightarrow> Some d
                  | None \<Rightarrow> pci_find_device devs E1000_VENDOR_INTEL E1000_DEV_82545EM)
      in case card of
           None \<Rightarrow> lift_kern (log_boot_step dv ''Network Controller: No Intel e1000 NIC detected (using fallback)'' False) m
         | Some d \<Rightarrow>
             Option.bind (e1000_init dv regs (Some d) ((nic (kern m))\<lparr>npages := frames (vm m)\<rparr>) (ports (kern m))) (\<lambda>(_, e, t).
             lift_kern (log_boot_step dv ''Network Controller: Intel 82540EM/82545EM Gigabit adapter active'' True)
               (m\<lparr>vm := (vm m)\<lparr>frames := npages e\<rparr>, kern := (kern m)\<lparr>nic := e, ports := t\<rparr>\<rparr>)))"

definition boot_disk :: "devices \<Rightarrow> (image \<times> u64) option \<Rightarrow> kernel \<Rightarrow> kernel option" where
  "boot_disk dv module k =
     Option.bind (mount_disk module k) (\<lambda>(root, k).
     case root of
       Fat_disk \<Rightarrow> log_boot_step dv ''Disk Subsystem: FAT32 partition mounted successfully as /'' True k
     | Jurk_disk \<Rightarrow> log_boot_step dv ''Disk Subsystem: VFS image mounted successfully as /'' True k
     | Memory_root \<Rightarrow> log_boot_step dv ''Disk Subsystem: Running on memory VFS root'' True k)"

definition early_steps :: "string list" where
  "early_steps = [
     ''CPU Framework: GDT initialized with 64-bit Long Mode segments'',
     ''Interrupt Controller: 256-gate IDT loaded & 8259 PIC remapped'',
     ''Serial Debugger: COM1 UART active at I/O port 0x3F8'',
     ''Graphics Pipeline: Direct linear VESA / GOP framebuffer ready'']"

fun log_steps :: "devices \<Rightarrow> string list \<Rightarrow> kernel \<Rightarrow> kernel option" where
  "log_steps dv [] k = Some k"
| "log_steps dv (step # steps) k = Option.bind (log_boot_step dv step True k) (log_steps dv steps)"

text \<open>The memory managers are set up after the first four steps are logged.\<close>

definition boot_memory :: "devices \<Rightarrow> kernel_image \<Rightarrow> system \<Rightarrow> system option" where
  "boot_memory dv im m =
     (let m = m\<lparr>vm := (vm m)\<lparr>frames := pmm_mark_region (pmm_init (128 * 1024 * 1024)) 0x100000 (32 * 1024 * 1024) False\<rparr>\<rparr> in
      Option.bind (lift_kern (log_boot_step dv ''Physical Memory Manager: 128 MB RAM detected and bitmap mapped'' True) m) (\<lambda>m.
      let m = m\<lparr>heap := kheap_init (heap_at im) (1024 * 1024 * 16)\<rparr> in
      lift_kern (log_boot_step dv ''Virtual Memory & Heap: 4-Level PML4 paging & 16 MB heap active'' True) m))"

definition boot_bus :: "devices \<Rightarrow> kernel \<Rightarrow> kernel option" where
  "boot_bus dv k =
     (let k = k\<lparr>ports := speaker_beep dv 1000 50 (ports k)\<rparr> in
      Option.bind (log_boot_step dv ''PC Speaker Audio: Hardware PIT channel 2 timer gate ready'' True k) (\<lambda>k.
      Option.bind (pci_scan dv (ports k)) (\<lambda>(devs, t).
      log_boot_step dv ''PCI Bus: Hardware scanned across 256 buses and registered'' True (k\<lparr>pci_devices := devs, ports := t\<rparr>))))"

definition boot_files :: "devices \<Rightarrow> (image \<times> u64) option \<Rightarrow> kernel \<Rightarrow> kernel option" where
  "boot_files dv module k =
     Option.bind (devfs_init (vfs_init k)) (\<lambda>k.
     Option.bind (log_boot_step dv ''Virtual File System: Universal VFS layer & /dev devfs mounted'' True k) (\<lambda>k.
     Option.bind (boot_disk dv module k) (\<lambda>k.
     log_boot_step dv ''Dual Binary Loader: Standard ELF-64/32 & Flat XEC (.JEX) engine loaded'' True k)))"

definition boot_done :: "devices \<Rightarrow> kernel \<Rightarrow> kernel option" where
  "boot_done dv k =
     map_option (\<lambda>k. prc (''>>> Boot Sequence Complete! Handing off execution to PID 1 <<<'' @ nl @ nl) COLOR_LIGHT_GREEN COLOR_BLACK
         (prln '''' k))
       (log_boot_step dv ''Keyboard Driver: PS/2 controller active with interrupt queue'' True k)"

text \<open>\<^verbatim>\<open>kernel_main\<close> up to the launch of the first program.\<close>

definition kernel_boot ::
  "devices \<Rightarrow> (e1000 \<Rightarrow> nat \<Rightarrow> u32) \<Rightarrow> kernel_image \<Rightarrow> framebuffer_response option \<Rightarrow> (image \<times> u64) option \<Rightarrow>
    cpu \<Rightarrow> system \<Rightarrow> (cpu \<times> system) option" where
  "kernel_boot dv regs im response module c m =
     (let (g, gp) = gdt_init (gdt_at im) (gdt c);
          (it, ip, t) = idt_init (isr_stubs im) (irq_stubs im) (idt_at im) (ports (kern m));
          k = (kern m)\<lparr>ports := serial_init t\<rparr>;
          k = print_banner (on_screen (init_screen response) k) in
      Option.bind (log_steps dv early_steps k) (\<lambda>k.
      Option.bind (boot_memory dv im (m\<lparr>kern := k\<rparr>)) (\<lambda>m.
      Option.bind (lift_kern (boot_bus dv) m) (\<lambda>m.
      Option.bind (boot_network dv regs m) (\<lambda>m.
      Option.bind (lift_kern (boot_files dv module) m) (\<lambda>m.
      let c = c\<lparr>gdt := g, gdtr := gp, idt_table := it, idtr := ip, irq_table := keyboard_init (irq_table c)\<rparr> in
      map_option (\<lambda>m. (c, m)) (lift_kern (boot_done dv) m)))))))"

datatype launched = Init_exited "kernel outcome" | In_shell system

definition find_init :: "system \<Rightarrow> (nid option \<times> system) option" where
  "find_init m =
     Option.bind (find_file ''/sbin/main'' m) (\<lambda>(f, m).
     if f \<noteq> None then Some (f, m)
     else Option.bind (find_file ''/bin/main'' m) (\<lambda>(f, m).
       if f \<noteq> None then Some (f, m) else find_file ''/sbin/main.jex'' m))"

definition launch_init :: "devices \<Rightarrow> runner \<Rightarrow> system \<Rightarrow> launched option" where
  "launch_init dv run m =
     Option.bind (find_init m) (\<lambda>(init_bin, m).
     case init_bin of
       Some f \<Rightarrow>
         Option.bind (lift_kern (log_boot_step dv ''Executing PID 1: /sbin/main...'' True) m) (\<lambda>m.
         Option.bind (run (Some f) m) (\<lambda>(exit_code, m).
         map_option Init_exited
           (kernel_panic_pid1_died dv (word_of_int exit_code) (Some ''PID 1 (/sbin/main) returned unexpectedly'') (kern m))))
     | None \<Rightarrow>
         map_option In_shell
           (lift_kern (log_boot_step dv ''PID 1 binary /sbin/main not on disk; dropping to kernel emergency shell'' False) m))"

definition kernel_main ::
  "devices \<Rightarrow> (e1000 \<Rightarrow> nat \<Rightarrow> u32) \<Rightarrow> kernel_image \<Rightarrow> framebuffer_response option \<Rightarrow> (image \<times> u64) option \<Rightarrow> runner \<Rightarrow>
    cpu \<Rightarrow> system \<Rightarrow> (cpu \<times> launched) option" where
  "kernel_main dv regs im response module run c m =
     Option.bind (kernel_boot dv regs im response module c m) (\<lambda>(c, m).
     map_option (\<lambda>l. (c, l)) (launch_init dv run m))"

section \<open>Numbers\<close>

lemma temp_digits_dec: "v < 10 ^ n \<Longrightarrow> temp_digits n v = dec_loop v"
proof (induction n v rule: temp_digits.induct)
  case (1 v)
  then show ?case by (simp add: dec_loop.simps)
next
  case (2 n v)
  then have "v div 10 < 10 ^ n" by simp
  then show ?case using 2 by (subst dec_loop.simps) simp
qed

lemma temp_digits_length: "length (temp_digits n v) \<le> n"
  by (induction n v rule: temp_digits.induct) auto

text \<open>Every \<^verbatim>\<open>int\<close> but the most negative is printed in decimal.\<close>

lemma int_to_str_shows:
  assumes "sint val \<noteq> - (2 ^ 31)" "12 \<le> n"
  shows "int_to_str val n = Some (show_int (sint val))"
proof -
  have r: "- (2 ^ 31) \<le> sint val" "sint val < 2 ^ 31"
    using sint_ge [of val] sint_lt [of val] by simp_all
  have m: "sint (- val) = - sint val"
    unfolding sint_word_minus using r assms(1) by (intro signed_take_bit_int_eq_self) auto
  let ?v = "\<bar>sint val\<bar>"
  have v: "?v < 10 ^ 10" using r by auto
  have t: "temp_digits 30 ?v = dec_loop ?v" by (rule temp_digits_dec) (use v in simp)
  have "length (dec_loop ?v) \<le> 10" using temp_digits_dec [OF v] temp_digits_length [of 10 ?v] by simp
  then have l: "length ((if sint val < 0 then ''-'' else []) @ rev (dec_loop ?v)) \<le> n - 1" using assms(2) by auto
  have "val = 0 \<longleftrightarrow> sint val = 0" by (metis signed_0 word_eq_iff_signed)
  then show ?thesis
    using t l assms(2) by (auto simp: int_to_str_def show_int_def Let_def m)
qed

section \<open>Printing a file\<close>

lemma print_loop_append: "print_loop fg bg s (a @ b) = print_loop fg bg (print_loop fg bg s a) b"
  by (induction a arbitrary: s) auto

lemma fb_print_append: "fb_ok s \<Longrightarrow> fb_print (fb_print s a) b = fb_print s (a @ b)"
  using confined_mode [OF print_color_confined, of s a COLOR_WHITE COLOR_BLACK]
  by (simp add: fb_print_def fb_print_color_def print_loop_append)

lemma fb_print_Nil: "fb_print s [] = s"
  by (simp add: fb_print_def fb_print_color_def)

text \<open>What \<^verbatim>\<open>cat\<close> prints of a file: chunks of 255 bytes, each up to its first 0.\<close>

function cat_text :: "byte list \<Rightarrow> string" where
  "cat_text data = (if data = [] then [] else as_string (take 255 data) @ cat_text (drop 255 data))"
  by pat_completeness auto
termination by (relation "measure length") auto

declare cat_text.simps [simp del]

lemma as_string_clean: "0 \<notin> set data \<Longrightarrow> as_string data = map (\<lambda>b. char_of (unat b)) data"
proof (induction data)
  case (Cons b data)
  have "char_of (unat b) \<noteq> CHR 0x00" if "b \<noteq> 0"
  proof
    assume "char_of (unat b) = CHR 0x00"
    then have "of_char (char_of (unat b) :: char) = (0 :: nat)" by simp
    moreover have "unat b < 256" using unsigned_less [of b, where 'a = nat] by simp
    ultimately show False using that by (simp add: of_char_of unat_eq_0)
  qed
  then show ?case using Cons by (auto simp: as_string_def)
qed (simp add: as_string_def)

lemma cat_text_clean: "0 \<notin> set data \<Longrightarrow> cat_text data = map (\<lambda>b. char_of (unat b)) data"
proof (induction data rule: cat_text.induct)
  case (1 data)
  have "0 \<notin> set (take 255 data)" "0 \<notin> set (drop 255 data)"
    using 1(2) by (auto dest: in_set_takeD in_set_dropD)
  then show ?case
    using 1 by (subst cat_text.simps) (simp add: as_string_clean flip: map_append)
qed

text \<open>A node whose bytes are \<open>content\<close>, whatever is on the screen.\<close>

definition reads_as :: "kernel \<Rightarrow> nid \<Rightarrow> byte list \<Rightarrow> bool" where
  "reads_as k f content \<longleftrightarrow> length content + 255 < 2 ^ 32 \<and>
     (\<forall>scr offset. unat offset \<le> length content \<longrightarrow>
        (\<exists>count. vfs_read kernel_read (k\<lparr>screen := scr\<rparr>) (Some f) offset 255 =
            Some (count, take 255 (drop (unat offset) content), k\<lparr>screen := scr\<rparr>) \<and>
          unat count = min 255 (length content - unat offset)))"

lemma cat_loop_prints:
  assumes "reads_as k f content" "fb_ok scr" "unat offset \<le> length content"
  shows "cat_loop (Some f) offset (k\<lparr>screen := scr\<rparr>) =
    Some (k\<lparr>screen := fb_print scr (cat_text (drop (unat offset) content))\<rparr>)"
  using assms(2,3)
proof (induction "length content - unat offset" arbitrary: scr offset rule: less_induct)
  case less
  obtain count where r: "vfs_read kernel_read (k\<lparr>screen := scr\<rparr>) (Some f) offset 255 =
      Some (count, take 255 (drop (unat offset) content), k\<lparr>screen := scr\<rparr>)"
    and c: "unat count = min 255 (length content - unat offset)"
    using assms(1) less.prems(2) unfolding reads_as_def by blast
  have len: "length content + 255 < 2 ^ 32" using assms(1) by (simp add: reads_as_def)
  show ?case
  proof (cases "unat offset = length content")
    case True
    then have "count = 0" using c by (simp add: unat_eq_0)
    then show ?thesis using True by (subst cat_loop.simps) (simp add: r cat_text.simps fb_print_Nil)
  next
    case False
    then have lt: "unat offset < length content" using less.prems(2) by simp
    have pos: "0 < count" using c lt by (simp add: word_less_nat_alt)
    have sum: "unat (offset + count) = unat offset + unat count"
      using c len less.prems(2) by (simp add: unat_word_ariths)
    let ?text = "as_string (take 255 (drop (unat offset) content))"
    have ok: "fb_ok (fb_print scr ?text)"
      using confined_ok [OF print_color_confined] less.prems(1) by (simp add: fb_print_def)
    have t: "take (unat count) (take 255 (drop (unat offset) content)) = take 255 (drop (unat offset) content)"
      using c by (simp add: min_def)
    have "cat_loop (Some f) offset (k\<lparr>screen := scr\<rparr>) =
        cat_loop (Some f) (offset + count) (k\<lparr>screen := fb_print scr ?text\<rparr>)"
      using pos by (subst cat_loop.simps) (simp add: r t pr_def on_screen_def del: take_take)
    also have "\<dots> = Some (k\<lparr>screen := fb_print (fb_print scr ?text) (cat_text (drop (unat (offset + count)) content))\<rparr>)"
      using less.hyps [OF _ ok, of "offset + count"] sum c lt pos by (simp add: word_less_nat_alt)
    also have "fb_print (fb_print scr ?text) (cat_text (drop (unat (offset + count)) content)) =
        fb_print scr (?text @ cat_text (drop (unat (offset + count)) content))"
      by (rule fb_print_append [OF less.prems(1)])
    also have "drop (unat (offset + count)) content = drop 255 (drop (unat offset) content)"
      using sum c by (cases "length content - unat offset \<le> 255") (auto simp: min_def add.commute)
    finally show ?thesis
      using lt by (subst cat_text.simps) simp
  qed
qed

text \<open>Files of the two disk formats.\<close>

lemma fat_file_reads:
  assumes "read_fn (nodes k f) = Some Fat_read" "device_priv (nodes k f) = Some (Fat_priv first sz)"
    and "is_chain (current_fat k) first cs" "cluster_size (current_fat k) \<noteq> 0" "unat sz + 255 < 2 ^ 32"
  shows "reads_as k f (take (unat sz) (chain_data (current_fat k) cs))"
proof -
  let ?d = "take (unat sz) (chain_data (current_fat k) cs)"
  have len: "length ?d + 255 < 2 ^ 32" using assms(5) by simp
  have "\<exists>count. vfs_read kernel_read (k\<lparr>screen := scr\<rparr>) (Some f) offset 255 =
            Some (count, take 255 (drop (unat offset) ?d), k\<lparr>screen := scr\<rparr>) \<and>
          unat count = min 255 (length ?d - unat offset)" if "unat offset \<le> length ?d" for scr offset
  proof -
    have o: "unat offset + unat (255 :: u32) < 2 ^ 32" using that assms(5) by auto
    obtain count data where "fat32_read_impl (current_fat k) (nodes k f) offset 255 = Some (count, data)"
      "data = take (unat (255 :: u32)) (drop (unat offset) ?d)" "unat count = length data"
      using fat_read_bytes [OF assms(3,4,2) o] by blast
    then show ?thesis using assms(1) by (simp add: vfs_read_def min.commute)
  qed
  then show ?thesis using len by (simp add: reads_as_def)
qed

lemma jurk_file_reads:
  assumes "read_fn (nodes k f) = Some Jurk_read" "device_priv (nodes k f) = Some (Jurk_priv i)"
    and "length (jurk_file_data (current_jurk k) i) + 255 < 2 ^ 32"
  shows "reads_as k f (jurk_file_data (current_jurk k) i)"
proof -
  let ?d = "jurk_file_data (current_jurk k) i"
  have "\<exists>count. vfs_read kernel_read (k\<lparr>screen := scr\<rparr>) (Some f) offset 255 =
            Some (count, take 255 (drop (unat offset) ?d), k\<lparr>screen := scr\<rparr>) \<and>
          unat count = min 255 (length ?d - unat offset)" if "unat offset \<le> length ?d" for scr offset
  proof -
    have o: "unat offset + unat (255 :: u32) < 2 ^ 32" using that assms(3) by simp
    obtain count data where "jurkvfs_read_impl (current_jurk k) (nodes k f) offset 255 = (count, data)"
      "data = take (unat (255 :: u32)) (drop (unat offset) ?d)" "unat count = length data"
      using jurk_read_bytes [OF assms(2) o, of "current_jurk k"] by (auto split: prod.splits)
    then show ?thesis using assms(1) by (simp add: vfs_read_def min.commute)
  qed
  then show ?thesis using assms(3) by (simp add: reads_as_def)
qed

section \<open>Booting without a disk\<close>

lemma sends_some: "sends s t r \<Longrightarrow> \<exists>t'. r = Some t'"
  by (auto simp: sends_def)

lemma println_live:
  assumes "uart_live dv"
  shows "\<exists>t'. serial_println dv s t = Some t'"
proof -
  have "sends (crlf s @ [CHR 0x0D] @ [CHR 0x0A]) t (serial_println dv s t)"
    unfolding serial_println_def by (intro sends_bind sends_print sends_putc assms)
  then show ?thesis by (rule sends_some)
qed

text \<open>Logging changes the screen and the serial line only.\<close>

definition io_only :: "kernel \<Rightarrow> kernel \<Rightarrow> bool" where
  "io_only k k' \<longleftrightarrow> k' = k\<lparr>screen := screen k', ports := ports k'\<rparr>"

lemma io_only_refl: "io_only k k"
  by (simp add: io_only_def)

lemma io_only_trans: "io_only k k1 \<Longrightarrow> io_only k1 k2 \<Longrightarrow> io_only k k2"
  unfolding io_only_def by (cases k; cases k1; cases k2) simp

lemma io_only_screen: "io_only k (on_screen f k)"
  by (simp add: io_only_def on_screen_def)

lemma io_only_ports: "io_only k (k\<lparr>ports := t\<rparr>)"
  by (simp add: io_only_def)

lemma io_only_fields:
  assumes "io_only k k'"
  shows "vfs_root k' = vfs_root k" "nodes k' = nodes k" "next_nid k' = next_nid k" "dev_root k' = dev_root k"
    "dev_children k' = dev_children k" "pci_devices k' = pci_devices k" "keyboard k' = keyboard k" "scancodes k' = scancodes k"
    "current_fat k' = current_fat k" "current_jurk k' = current_jurk k" "nic k' = nic k"
  using assms unfolding io_only_def by (metis (no_types, lifting) kernel.select_convs kernel.update_convs
      vfs.select_convs kernel.surjective)+

lemma log_step_live:
  assumes "uart_live dv"
  obtains k' where "log_boot_step dv step ok k = Some k'" "io_only k k'"
proof -
  let ?k = "prln step (prc ''  ] '' COLOR_LIGHT_GRAY COLOR_BLACK
      ((if ok then prc ''OK'' COLOR_LIGHT_GREEN COLOR_BLACK else prc ''FAIL'' COLOR_LIGHT_RED COLOR_BLACK)
         (prc ''[  '' COLOR_LIGHT_GRAY COLOR_BLACK k)))"
  obtain t1 where t1: "serial_print dv ''[BOOT] '' (ports ?k) = Some t1"
    using sends_some [OF sends_print [OF assms]] by blast
  obtain t2 where t2: "serial_println dv step t1 = Some t2" using println_live [OF assms] by blast
  have "log_boot_step dv step ok k = Some (?k\<lparr>ports := t2\<rparr>)"
    using t1 t2 by (auto simp: log_boot_step_def Let_def simp del: serial_print.simps split: if_splits)
  moreover have "io_only k (?k\<lparr>ports := t2\<rparr>)"
    unfolding prln_def prc_def
    by (cases ok; simp only: if_True if_False) (intro io_only_trans [OF _ io_only_ports] io_only_trans [OF _ io_only_screen] io_only_refl)+
  ultimately show thesis by (rule that)
qed

lemma log_steps_live:
  assumes "uart_live dv"
  shows "\<exists>k'. log_steps dv steps k = Some k' \<and> io_only k k'"
proof (induction steps arbitrary: k)
  case Nil
  then show ?case by (simp add: io_only_refl)
next
  case (Cons step steps)
  obtain k1 where k1: "log_boot_step dv step True k = Some k1" "io_only k k1" by (rule log_step_live [OF assms])
  then show ?case using Cons.IH [of k1] io_only_trans by auto
qed

text \<open>On the memory root nothing but the root itself is found.\<close>

lemma memory_lookup:
  assumes "vfs_root k = Some r" "finddir_fn (nodes k r) = None" "node_ptr (nodes k r) = None" "c \<noteq> CHR ''/''"
  shows "vfs_lookup kernel_finddir k (CHR ''/'' # c # path) = Some (None, k)"
proof -
  obtain t rest where t: "take_token 126 path = (t, rest)" by fastforce
  have "take_token (FS_MAX_NAME - 1) (c # path) = (c # t, rest)"
    using t assms(4) by (simp add: FS_MAX_NAME_def numeral_eq_Suc)
  then have "lookup_loop kernel_finddir k r (c # path) = Some (None, k)"
    using assms by (subst lookup_loop.simps) (simp add: vfs_finddir_def follow_def)
  then show ?thesis using assms(1,4) by (simp add: vfs_lookup_def skip_slash_def)
qed

text \<open>What the boot sequence does to the parts, each for a live UART.\<close>

lemma boot_memory_live:
  assumes "uart_live dv"
  shows "\<exists>k'. boot_memory dv im m = Some (m\<lparr>vm := (vm m)\<lparr>frames := pmm_boot\<rparr>,
      heap := kheap_init (heap_at im) (1024 * 1024 * 16), kern := k'\<rparr>) \<and> io_only (kern m) k'"
proof -
  obtain k1 where k1: "log_boot_step dv ''Physical Memory Manager: 128 MB RAM detected and bitmap mapped'' True (kern m) = Some k1"
    "io_only (kern m) k1" by (rule log_step_live [OF assms])
  obtain k2 where k2: "log_boot_step dv ''Virtual Memory & Heap: 4-Level PML4 paging & 16 MB heap active'' True k1 = Some k2"
    "io_only k1 k2" by (rule log_step_live [OF assms])
  show ?thesis
    using k1 k2 io_only_trans by (auto simp: boot_memory_def lift_kern_def pmm_boot_def)
qed

lemma boot_bus_live:
  assumes live: "uart_live dv" and pci: "pci_answers dv cfg"
  shows "\<exists>k'. boot_bus dv k = Some k' \<and> io_only (k\<lparr>pci_devices := take 64 (bus_devices cfg bus_slots)\<rparr>) k'"
proof -
  let ?k = "k\<lparr>ports := speaker_beep dv 1000 50 (ports k)\<rparr>"
  let ?d = "take 64 (bus_devices cfg bus_slots)"
  obtain k1 where k1: "log_boot_step dv ''PC Speaker Audio: Hardware PIT channel 2 timer gate ready'' True ?k = Some k1"
    "io_only ?k k1" by (rule log_step_live [OF live])
  obtain t where t: "pci_scan dv (ports k1) = Some (?d, t)"
    using scan_slots_spec [OF pci live, of bus_slots "[]" "ports k1"] by (auto simp: pci_scan_def)
  obtain k2 where k2: "log_boot_step dv ''PCI Bus: Hardware scanned across 256 buses and registered'' True
      (k1\<lparr>pci_devices := ?d, ports := t\<rparr>) = Some k2" "io_only (k1\<lparr>pci_devices := ?d, ports := t\<rparr>) k2"
    by (rule log_step_live [OF live])
  have "io_only (k\<lparr>pci_devices := ?d\<rparr>) (k1\<lparr>pci_devices := ?d, ports := t\<rparr>)"
    using k1(2) unfolding io_only_def by (cases k; cases k1) simp
  then have "io_only (k\<lparr>pci_devices := ?d\<rparr>) k2" using k2(2) by (rule io_only_trans)
  moreover have "boot_bus dv k = Some k2"
    using k1(1) t k2(1) by (simp add: boot_bus_def Let_def)
  ultimately show ?thesis by blast
qed

definition no_card :: "pci_device list \<Rightarrow> bool" where
  "no_card devs \<longleftrightarrow> pci_find_device devs E1000_VENDOR_INTEL E1000_DEV_82540EM = None \<and>
     pci_find_device devs E1000_VENDOR_INTEL E1000_DEV_82545EM = None"

definition bare_root :: "kernel \<Rightarrow> bool" where
  "bare_root k \<longleftrightarrow> (\<exists>r. vfs_root k = Some r \<and> finddir_fn (nodes k r) = None \<and> node_ptr (nodes k r) = None) \<and> (\<exists>d. dev_wf k d)"

lemma bare_root_io: "io_only k k' \<Longrightarrow> bare_root k \<Longrightarrow> bare_root k'"
  using dev_wf_cong [of k' k] by (auto simp: bare_root_def io_only_fields)

lemma boot_files_live:
  assumes live: "uart_live dv" and ok: "dev_ok k"
  shows "\<exists>k'. boot_files dv None k = Some k' \<and> bare_root k'"
proof -
  obtain s where s: "boot_filesystems None k = Some (Memory_root, s)" "bare_root s"
    using boot_memory_root [OF ok] unfolding bare_root_def by blast
  then have i: "devfs_init (vfs_init k) = Some s"
    by (auto simp: boot_filesystems_def mount_disk_def bind_eq_Some_conv)
  obtain k1 where k1: "log_boot_step dv ''Virtual File System: Universal VFS layer & /dev devfs mounted'' True s = Some k1"
    "io_only s k1" by (rule log_step_live [OF live])
  obtain k2 where k2: "log_boot_step dv ''Disk Subsystem: Running on memory VFS root'' True k1 = Some k2"
    "io_only k1 k2" by (rule log_step_live [OF live])
  obtain k3 where k3: "log_boot_step dv ''Dual Binary Loader: Standard ELF-64/32 & Flat XEC (.JEX) engine loaded'' True k2 = Some k3"
    "io_only k2 k3" by (rule log_step_live [OF live])
  have "boot_files dv None k = Some k3"
    using i k1(1) k2(1) k3(1) by (simp add: boot_files_def boot_disk_def mount_disk_def)
  moreover have "bare_root k3" using s(2) k1(2) k2(2) k3(2) bare_root_io by blast
  ultimately show ?thesis by blast
qed

lemma find_init_bare:
  assumes "bare_root (kern m)"
  shows "find_init m = Some (None, m)"
proof -
  obtain r where "vfs_root (kern m) = Some r" "finddir_fn (nodes (kern m) r) = None" "node_ptr (nodes (kern m) r) = None"
    using assms by (auto simp: bare_root_def)
  note l = memory_lookup [OF this]
  show ?thesis by (simp add: find_init_def find_file_def l)
qed

lemma kernel_main_bare:
  assumes live: "uart_live dv" and pci: "pci_answers dv cfg"
    and none: "no_card (take 64 (bus_devices cfg bus_slots))" and ok: "dev_ok (kern m)"
  shows "\<exists>c' m'. kernel_main dv regs im response None run c m = Some (c', In_shell m') \<and>
    frames (vm m') = pmm_boot \<and> heap m' = kheap_init (heap_at im) (1024 * 1024 * 16) \<and>
    irq_table c' = keyboard_init (irq_table c) \<and> bare_root (kern m')"
proof -
  let ?d = "take 64 (bus_devices cfg bus_slots)"
  obtain g gp where g: "gdt_init (gdt_at im) (gdt c) = (g, gp)" by fastforce
  obtain it ip t where i: "idt_init (isr_stubs im) (irq_stubs im) (idt_at im) (ports (kern m)) = (it, ip, t)"
    by (metis prod_cases3)
  let ?k0 = "print_banner (on_screen (init_screen response) ((kern m)\<lparr>ports := serial_init t\<rparr>))"
  have k0: "io_only (kern m) ?k0"
    unfolding print_banner_def Let_def prc_def pr_def
    by (intro io_only_trans [OF _ io_only_screen]) (rule io_only_ports)
  obtain k1 where k1: "log_steps dv early_steps ?k0 = Some k1" "io_only ?k0 k1"
    using log_steps_live [OF live] by blast
  let ?m1 = "m\<lparr>kern := k1\<rparr>"
  obtain k2 where k2: "boot_memory dv im ?m1 = Some (?m1\<lparr>vm := (vm m)\<lparr>frames := pmm_boot\<rparr>,
      heap := kheap_init (heap_at im) (1024 * 1024 * 16), kern := k2\<rparr>)" "io_only k1 k2"
    using boot_memory_live [OF live, of im ?m1] by auto
  obtain k3 where k3: "boot_bus dv k2 = Some k3" "io_only (k2\<lparr>pci_devices := ?d\<rparr>) k3"
    using boot_bus_live [OF live pci] by blast
  obtain k4 where k4: "log_boot_step dv ''Network Controller: No Intel e1000 NIC detected (using fallback)'' False k3 = Some k4"
    "io_only k3 k4" by (rule log_step_live [OF live])
  have pd: "pci_devices k3 = ?d" using io_only_fields(6) [OF k3(2)] by simp
  have "dev_ok k1" using ok io_only_fields [OF io_only_trans [OF k0 k1(2)]] by (simp add: dev_ok_def)
  then have "dev_ok k2" using io_only_fields [OF k2(2)] by (simp add: dev_ok_def)
  then have "dev_ok k3" using io_only_fields [OF k3(2)] by (simp add: dev_ok_def)
  then have ok4: "dev_ok k4" using io_only_fields [OF k4(2)] by (simp add: dev_ok_def)
  obtain k5 where k5: "boot_files dv None k4 = Some k5" "bare_root k5" using boot_files_live [OF live ok4] by blast
  obtain k6 where k6: "log_boot_step dv ''Keyboard Driver: PS/2 controller active with interrupt queue'' True k5 = Some k6"
    "io_only k5 k6" by (rule log_step_live [OF live])
  let ?k6 = "prc (''>>> Boot Sequence Complete! Handing off execution to PID 1 <<<'' @ nl @ nl) COLOR_LIGHT_GREEN COLOR_BLACK (prln [] k6)"
  have b6: "bare_root ?k6"
    unfolding prc_def prln_def using k5(2) k6(2) bare_root_io io_only_screen by blast
  let ?m6 = "m\<lparr>vm := (vm m)\<lparr>frames := pmm_boot\<rparr>, heap := kheap_init (heap_at im) (1024 * 1024 * 16), kern := ?k6\<rparr>"
  let ?c = "c\<lparr>gdt := g, gdtr := gp, idt_table := it, idtr := ip, irq_table := keyboard_init (irq_table c)\<rparr>"
  have boot: "kernel_boot dv regs im response None c m = Some (?c, ?m6)"
    using g i k1(1) k2(1) k3(1) k4(1) k5(1) k6(1) pd none
    by (simp add: kernel_boot_def boot_network_def no_card_def boot_done_def lift_kern_def)
  obtain k7 where k7: "log_boot_step dv ''PID 1 binary /sbin/main not on disk; dropping to kernel emergency shell'' False ?k6 = Some k7"
    "io_only ?k6 k7" by (rule log_step_live [OF live])
  have "find_init ?m6 = Some (None, ?m6)" by (rule find_init_bare) (use b6 in simp)
  then have "kernel_main dv regs im response None run c m = Some (?c, In_shell (?m6\<lparr>kern := k7\<rparr>))"
    using boot k7(1) by (simp add: kernel_main_def launch_init_def lift_kern_def)
  moreover have "bare_root k7" by (rule bare_root_io [OF k7(2) b6])
  ultimately show ?thesis by (intro exI [of _ ?c] exI [of _ "?m6\<lparr>kern := k7\<rparr>"]) simp
qed

section \<open>Properties\<close>

text \<open>The bytes of a file on a mounted disk: the data of its cluster chain, or of its inode.\<close>

inductive file_content :: "kernel \<Rightarrow> nid \<Rightarrow> byte list \<Rightarrow> bool" for k f where
  fat: "read_fn (nodes k f) = Some Fat_read \<Longrightarrow> device_priv (nodes k f) = Some (Fat_priv first sz) \<Longrightarrow>
    is_chain (current_fat k) first chn \<Longrightarrow> cluster_size (current_fat k) \<noteq> 0 \<Longrightarrow> unat sz + 255 < 2 ^ 32 \<Longrightarrow>
    file_content k f (take (unat sz) (chain_data (current_fat k) chn))"
| jurk: "read_fn (nodes k f) = Some Jurk_read \<Longrightarrow> device_priv (nodes k f) = Some (Jurk_priv i) \<Longrightarrow>
    length (jurk_file_data (current_jurk k) i) + 255 < 2 ^ 32 \<Longrightarrow>
    file_content k f (jurk_file_data (current_jurk k) i)"

lemma file_content_reads: "file_content k f content \<Longrightarrow> reads_as k f content"
  by (induction rule: file_content.induct) (auto intro: fat_file_reads jurk_file_reads)


definition demo_file_kernel :: kernel where
  "demo_file_kernel = demo_kernel\<lparr>vfs_root := Some 0, nodes := (\<lambda>_. zero_node)(0 := zero_node\<lparr>flags := VFS_FILE,
     read_fn := Some Fat_read, device_priv := Some (Fat_priv 3 5)\<rparr>)\<rparr>"


text \<open>
  Character devices pass for directories: \<^verbatim>\<open>VFS_CHARDEVICE\<close> shares a bit with \<^verbatim>\<open>VFS_DIRECTORY\<close>, so
  \<^verbatim>\<open>cat\<close> refuses to read a device and \<^verbatim>\<open>ls\<close> lists it as a directory; its branch for devices is never
  taken for one.
\<close>

theorem char_devices_are_directories:
  assumes "path \<noteq> []" "vfs_lookup kernel_finddir k path = Some (Some f, k')" "flags (nodes k' f) = VFS_CHARDEVICE"
    and "d_flags ent = VFS_CHARDEVICE"
  shows "shell_cat path k = Some (prln ''cat: Is a directory'' k') \<and>
    ls_entry ent k = prln ''/'' (prc (d_name ent) COLOR_LIGHT_CYAN COLOR_BLACK (pr ''  [DIR]  '' k))"
  using assms by (simp add: shell_cat_def ls_entry_def VFS_CHARDEVICE_def VFS_DIRECTORY_def)

theorem char_devices_are_directories_witness:
  "\<exists>k. flags (nodes k 0) = VFS_CHARDEVICE \<and> shell_cat ''/'' k = Some (prln ''cat: Is a directory'' k)"
proof -
  let ?k = "demo_kernel\<lparr>vfs_root := Some 0, nodes := (\<lambda>_. zero_node\<lparr>flags := VFS_CHARDEVICE\<rparr>)\<rparr>"
  let ?e = "\<lparr>d_name = ''null'', d_inode = 0, d_flags = VFS_CHARDEVICE\<rparr>"
  have "vfs_lookup kernel_finddir ?k ''/'' = Some (Some 0, ?k)" by (simp add: vfs_lookup_def)
  from char_devices_are_directories [OF _ this, of ?e] show ?thesis by (intro exI [of _ ?k]) simp
qed


text \<open>A machine with no PCI devices at all.\<close>

definition bare_devices :: devices where
  "bare_devices = \<lparr>in8 = (\<lambda>t p. 0x60), in16 = (\<lambda>t p. 0), in32 = (\<lambda>t p. 0xFFFFFFFF)\<rparr>"


lemma bare_devices_facts:
  "uart_live bare_devices" "pci_answers bare_devices (\<lambda>_. 0xFFFFFFFF)" "bus_devices (\<lambda>_. 0xFFFFFFFF) bs = []"
  by (simp_all add: uart_live_def pci_answers_def bare_devices_def bus_devices_def slot_functions_def present_def
      cfg_read_def case_prod_unfold)


text \<open>The words \<^verbatim>\<open>run_shell\<close> recognises, by name or by prefix.\<close>

definition builtin_command :: "string \<Rightarrow> bool" where
  "builtin_command p \<longleftrightarrow> p \<in> {''help'', ''wifi'', ''jurkstore'', ''clear'', ''reboot''} \<or>
     take 2 p = ''ls'' \<or> take 4 p = ''cat '' \<or> take 5 p = ''uname'' \<or> take 5 p = ''exec ''"

text \<open>
  On the memory root, where no program can be found, a command line that is not a built-in command
  is answered with a message; it is printed in two calls and nothing else changes. Every line of up
  to 122 characters is answered; a longer name overruns \<^verbatim>\<open>bin_path\<close>.
\<close>

theorem unknown_command_reported:
  assumes "\<not> builtin_command p" "p \<noteq> []" "length p \<le> 122" "p ! 0 \<noteq> CHR ''/''" "bare_root (kern m)"
  shows "run_command dv run p m = Some (m\<lparr>kern :=
    prln ('': command not found. Type '' @ apos @ ''help'' @ apos @ '' for available commands.'') (pr p (kern m))\<rparr>)"
proof -
  obtain r where r: "vfs_root (kern m) = Some r" "finddir_fn (nodes (kern m) r) = None" "node_ptr (nodes (kern m) r) = None"
    using assms(5) by (auto simp: bare_root_def)
  note l = memory_lookup [OF r]
  obtain c q where p: "p = c # q" "c \<noteq> CHR ''/''" using assms(2,4) by (cases p) auto
  have "skip_slash p = p" using p by (simp add: skip_slash_def)
  moreover have "skip_slash (CHR ''/'' # p) = p" by (simp add: skip_slash_def)
  moreover have "p \<noteq> ''/''" "CHR ''/'' # p \<noteq> ''/''" using p by auto
  ultimately have "vfs_lookup kernel_finddir (kern m) p = vfs_lookup kernel_finddir (kern m) (CHR ''/'' # p)"
    by (simp add: vfs_lookup_def r(1))
  also have "\<dots> = Some (None, kern m)" using l [OF p(2), of q] p(1) by simp
  finally have 1: "find_file p m = Some (None, m)" by (simp add: find_file_def)
  have 2: "find_file (''/bin/'' @ p) m = Some (None, m)" by (simp add: find_file_def l)
  have h: "hd p \<noteq> CHR ''/''" "length p + 5 < 128" using assms(3) p by simp_all
  have "p \<noteq> ''help''" "p \<noteq> ''wifi''" "p \<noteq> ''jurkstore''" "p \<noteq> ''clear''" "p \<noteq> ''reboot''"
    "take 2 p \<noteq> ''ls''" "take 4 p \<noteq> ''cat ''" "take 5 p \<noteq> ''uname''" "take 5 p \<noteq> ''exec ''"
    using assms(1) by (simp_all only: builtin_command_def) blast+
  then have "run_command dv run p m =
      Option.bind (find_file p m) (\<lambda>(file, m).
        Option.bind
          (if file = None \<and> hd p \<noteq> CHR ''/''
           then (if length p + 5 < 128 then find_file (''/bin/'' @ p) m else None)
           else Some (file, m)) (\<lambda>(file, m).
        case file of
          None \<Rightarrow> lift_kern (\<lambda>k. Some (prln ('': command not found. Type '' @ apos @ ''help'' @ apos @ '' for available commands.'') (pr p k))) m
        | Some f \<Rightarrow> map_option snd (run file m)))"
    by (simp only: run_command_def if_False Let_def)
  also have "\<dots> = lift_kern (\<lambda>k. Some (prln ('': command not found. Type '' @ apos @ ''help'' @ apos @ '' for available commands.'') (pr p k))) m"
    using h by (simp only: 1 2 Option.bind.simps prod.case option.case if_True simp_thms not_True_eq_False not_False_eq_True)
  finally show ?thesis by (simp add: lift_kern_def)
qed

theorem unknown_command_reported_witness:
  "\<exists>m. run_command ready_uart (\<lambda>_ m. Some (0, m)) ''top'' m = Some (m\<lparr>kern :=
     prln ('': command not found. Type '' @ apos @ ''help'' @ apos @ '' for available commands.'') (pr ''top'' (kern m))\<rparr>)"
proof -
  obtain k where "bare_root k"
    using boot_memory_root [OF dev_wf_ok [OF demo_kernel_wf]] unfolding bare_root_def by blast
  then have b: "bare_root (kern (demo_system\<lparr>kern := k\<rparr>))" by simp
  have "\<not> builtin_command ''top''" by (simp add: builtin_command_def)
  from unknown_command_reported [OF this _ _ _ b] show ?thesis by (intro exI [of _ "demo_system\<lparr>kern := k\<rparr>"]) simp
qed

end
