(* ===== verification/Stdio.thy ===== *)
theory Stdio
  imports Prelude "HOL-Library.Char_ord" "HOL-Library.List_Lexorder" "HOL-Library.Sublist"
begin

text \<open>
  What the user programs (\<^verbatim>\<open>NoneCompiled\<close>) use of the C library: strings, buffered reading by
  lines, number parsing, and the terminal session they talk to. A C string is a list of characters
  without the closing NUL; a file is its contents, in which NULs may occur.
\<close>

section \<open>Strings\<close>

text \<open>What C sees of a buffer: the characters before the first NUL.\<close>

abbreviation NUL :: char where "NUL \<equiv> CHR 0x00"

definition c_text :: "string \<Rightarrow> string" where
  "c_text s = takeWhile (\<lambda>c. c \<noteq> NUL) s"

fun str_cmp :: "string \<Rightarrow> string \<Rightarrow> int" where
  "str_cmp [] [] = 0"
| "str_cmp [] (d # t) = - of_char d"
| "str_cmp (c # s) [] = of_char c"
| "str_cmp (c # s) (d # t) = (if c = d then str_cmp s t else of_char c - of_char d)"

text \<open>\<^verbatim>\<open>strstr\<close>: the offset of the first occurrence.\<close>

fun strstr :: "string \<Rightarrow> string \<Rightarrow> nat option" where
  "strstr hay needle =
     (if take (length needle) hay = needle then Some 0
      else case hay of [] \<Rightarrow> None | _ # rest \<Rightarrow> map_option Suc (strstr rest needle))"

declare strstr.simps [simp del]

fun strchr :: "string \<Rightarrow> char \<Rightarrow> nat option" where
  "strchr [] c = None"
| "strchr (d # s) c = (if d = c then Some 0 else map_option Suc (strchr s c))"

text \<open>\<^verbatim>\<open>snprintf\<close> and \<^verbatim>\<open>strncpy\<close> with a forced NUL cut what does not fit.\<close>

definition cut :: "nat \<Rightarrow> string \<Rightarrow> string" where
  "cut n s = take (n - 1) s"

definition isspace :: "char \<Rightarrow> bool" where
  "isspace c \<longleftrightarrow> c \<in> {CHR 0x20, CHR 0x09, CHR 0x0A, CHR 0x0B, CHR 0x0C, CHR 0x0D}"

definition isdigit :: "char \<Rightarrow> bool" where
  "isdigit c \<longleftrightarrow> c \<in> set ''0123456789''"

text \<open>\<^verbatim>\<open>atoi\<close>: white space, a sign, digits up to the first other character. C leaves open what happens
  with a value that is no \<^verbatim>\<open>int\<close>.\<close>

definition digits_value :: "string \<Rightarrow> int" where
  "digits_value s = foldl (\<lambda>n c. 10 * n + (of_char c - 48)) 0 (takeWhile isdigit s)"

definition atoi :: "string \<Rightarrow> int" where
  "atoi s = (case dropWhile isspace s of
     [] \<Rightarrow> 0
   | c # r \<Rightarrow> if c = CHR ''-'' then - digits_value r
              else if c = CHR ''+'' then digits_value r else digits_value (c # r))"

fun show_nat :: "nat \<Rightarrow> string" where
  "show_nat n = (if n < 10 then [char_of (48 + n)] else show_nat (n div 10) @ [char_of (48 + n mod 10)])"

declare show_nat.simps [simp del]

definition show_num :: "int \<Rightarrow> string" where
  "show_num i = (if i < 0 then CHR ''-'' # show_nat (nat (- i)) else show_nat (nat i))"

text \<open>The field width of \<^verbatim>\<open>%7ld\<close>.\<close>

definition pad_left :: "nat \<Rightarrow> string \<Rightarrow> string" where
  "pad_left w s = replicate (w - length s) CHR 0x20 @ s"

section \<open>Reading by lines\<close>

text \<open>\<^verbatim>\<open>fgets (buf, n, f)\<close> takes at most \<open>n - 1\<close> characters and stops after a line feed. The result is
  what the buffer holds as a C string, with the rest of the stream; \<^term>\<open>None\<close> is the null pointer
  at the end of the stream.\<close>

fun line_part :: "nat \<Rightarrow> string \<Rightarrow> string" where
  "line_part 0 s = []"
| "line_part (Suc n) [] = []"
| "line_part (Suc n) (c # s) = c # (if c = CHR 0x0A then [] else line_part n s)"

definition fgets :: "nat \<Rightarrow> string \<Rightarrow> (string \<times> string) option" where
  "fgets n s =
     (if s = [] \<or> n < 2 then None
      else let l = line_part (n - 1) s in Some (c_text l, drop (length l) s))"

lemma line_part_neq_Nil: "s \<noteq> [] \<Longrightarrow> 0 < n \<Longrightarrow> line_part n s \<noteq> []"
  by (cases n; cases s) auto

lemma fgets_shorter: "fgets n s = Some (b, r) \<Longrightarrow> length r < length s"
  using line_part_neq_Nil [of s "n - 1"]
  by (auto simp: fgets_def Let_def split: if_splits)

text \<open>The buffers that \<^verbatim>\<open>while (fgets (buf, n, f))\<close> sees, one after the other.\<close>

function buffers :: "nat \<Rightarrow> string \<Rightarrow> string list" where
  "buffers n s = (case fgets n s of None \<Rightarrow> [] | Some (b, r) \<Rightarrow> b # buffers n r)"
  by auto
termination by (relation "measure (length \<circ> snd)") (auto dest: fgets_shorter)

declare buffers.simps [simp del]

text \<open>The lines of a text, each with its line feed.\<close>

fun lines_of :: "string \<Rightarrow> string list" where
  "lines_of [] = []"
| "lines_of (c # s) =
     (if c = CHR 0x0A then [c] # lines_of s
      else case lines_of s of [] \<Rightarrow> [[c]] | l # ls \<Rightarrow> (c # l) # ls)"

lemma concat_lines_of [simp]: "concat (lines_of s) = s"
proof (induction s)
  case (Cons c s)
  then show ?case by (cases "lines_of s") auto
qed simp

lemma lines_of_neq_Nil: "l \<in> set (lines_of s) \<Longrightarrow> l \<noteq> []"
  by (induction s arbitrary: l) (auto split: list.splits if_splits)

lemma lines_of_eq_Nil [simp]: "lines_of s = [] \<longleftrightarrow> s = []"
  by (cases s) (auto split: list.split)

lemma buffers_Nil [simp]: "buffers n [] = []"
  by (simp add: buffers.simps fgets_def)

definition plain :: "string \<Rightarrow> bool" where
  "plain s \<longleftrightarrow> NUL \<notin> set s"

lemma cstr_plain [simp]: "plain s \<Longrightarrow> c_text s = s"
  by (auto simp: c_text_def plain_def takeWhile_eq_all_conv)

lemma plain_cstr [simp]: "plain (c_text s)"
  by (auto simp: c_text_def plain_def dest: set_takeWhileD)

lemma plain_simps [simp]:
  "plain []" "plain (c # s) \<longleftrightarrow> c \<noteq> NUL \<and> plain s" "plain (s @ t) \<longleftrightarrow> plain s \<and> plain t"
  by (auto simp: plain_def)

lemma plain_take [simp]: "plain s \<Longrightarrow> plain (take n s)"
  by (auto simp: plain_def dest: in_set_takeD)

lemma plain_drop [simp]: "plain s \<Longrightarrow> plain (drop n s)"
  by (auto simp: plain_def dest: in_set_dropD)

lemma line_part_take: "line_part n s = take (length (line_part n s)) s"
  by (induction n s rule: line_part.induct) auto

lemma plain_line_part [simp]: "plain s \<Longrightarrow> plain (line_part n s)"
  by (metis line_part_take plain_take)

lemma concat_buffers: "plain s \<Longrightarrow> 2 \<le> n \<Longrightarrow> concat (buffers n s) = s"
proof (induction "length s" arbitrary: s rule: less_induct)
  case less
  show ?case
  proof (cases "s = []")
    case False
    let ?l = "line_part (n - 1) s"
    have f: "fgets n s = Some (?l, drop (length ?l) s)"
      using False less.prems by (simp add: fgets_def Let_def)
    have "concat (buffers n (drop (length ?l) s)) = drop (length ?l) s"
      using less.prems fgets_shorter [OF f] by (intro less.hyps) auto
    then show ?thesis
      using f line_part_take [of "n - 1" s] append_take_drop_id [of "length ?l" s]
      by (simp add: buffers.simps [of n s])
  qed simp
qed

lemma line_part_line:
  "lines_of s = l # ls \<Longrightarrow> length l \<le> n \<Longrightarrow> line_part n s = l \<and> drop (length l) s = concat ls"
proof (induction n s arbitrary: l ls rule: line_part.induct)
  case (1 s)
  then show ?case using lines_of_neq_Nil [of l s] by auto
next
  case (3 n c s)
  show ?case
  proof (cases "c = CHR 0x0A")
    case True
    then show ?thesis using 3 by auto
  next
    case False
    show ?thesis
    proof (cases "lines_of s")
      case Nil
      then show ?thesis using False 3 by (cases n) auto
    next
      case (Cons l' ls')
      then have "l = c # l'" "ls = ls'" using False 3 by auto
      then show ?thesis using "3.IH" [OF False Cons] "3.prems" False by simp
    qed
  qed
qed simp

lemma lines_of_rest: "lines_of s = l # ls \<Longrightarrow> lines_of (concat ls) = ls"
proof (induction s arbitrary: l ls)
  case (Cons c s)
  then show ?case by (cases "c = CHR 0x0A"; cases "lines_of s") auto
qed simp

text \<open>With lines shorter than the buffer the buffers are the lines.\<close>

definition short_lines :: "nat \<Rightarrow> string \<Rightarrow> bool" where
  "short_lines n s \<longleftrightarrow> plain s \<and> (\<forall>l\<in>set (lines_of s). length l < n)"

lemma buffers_lines: "short_lines n s \<Longrightarrow> buffers n s = lines_of s"
proof (induction "length s" arbitrary: s rule: less_induct)
  case less
  show ?case
  proof (cases "lines_of s")
    case Nil
    then show ?thesis by simp
  next
    case (Cons l ls)
    then have ne: "s \<noteq> []" "l \<noteq> []" and ln: "length l < n"
      using less.prems lines_of_neq_Nil [of l s] by (auto simp: short_lines_def)
    then have n: "\<not> n < 2" by (cases l) auto
    have p: "line_part (n - 1) s = l" "drop (length l) s = concat ls"
      using line_part_line [OF Cons, of "n - 1"] ln by auto
    have pl: "plain l" using p less.prems by (metis plain_line_part short_lines_def)
    have f: "fgets n s = Some (l, concat ls)"
      using ne n p pl by (simp add: fgets_def Let_def)
    have "short_lines n (concat ls)"
      using less.prems lines_of_rest [OF Cons] Cons p(2) plain_drop
      unfolding short_lines_def by (metis list.set_intros(2))
    then have "buffers n (concat ls) = ls"
      using less.hyps [OF fgets_shorter [OF f]] lines_of_rest [OF Cons] by simp
    then show ?thesis using Cons f by (simp add: buffers.simps [of n s])
  qed
qed

section \<open>Facts on strings\<close>

lemma code_nonneg: "0 \<le> (of_char c :: int)"
  using of_nat_of_char [of c, where 'a = int] by (metis of_nat_0_le_iff)

lemma code_0: "(of_char c :: int) = 0 \<longleftrightarrow> c = NUL"
  using of_char_eq_iff [of c NUL, where 'a = int] by simp

lemma code_le_0: "(of_char c :: int) \<le> 0 \<longleftrightarrow> c = NUL"
  using code_nonneg [of c] by (simp add: code_0 [symmetric])

lemma code_less: "(of_char c :: int) < of_char d \<longleftrightarrow> c < d"
  using of_nat_of_char [of c, where 'a = int] of_nat_of_char [of d, where 'a = int]
  by (metis less_char_def of_nat_less_iff)

lemma str_cmp_0: "plain s \<Longrightarrow> plain t \<Longrightarrow> str_cmp s t = 0 \<longleftrightarrow> s = t"
  by (induction s t rule: str_cmp.induct) (auto simp: code_0)

lemma str_cmp_le: "plain s \<Longrightarrow> plain t \<Longrightarrow> str_cmp s t \<le> 0 \<longleftrightarrow> s \<le> t"
proof (induction s t rule: str_cmp.induct)
  case (4 c s d t)
  then show ?case by (auto simp flip: code_less simp: le_less)
qed (auto simp: code_nonneg code_le_0)

lemma strstr_sublist: "(strstr hay needle \<noteq> None) = sublist needle hay"
proof (induction hay)
  case Nil
  then show ?case by (auto simp: strstr.simps)
next
  case (Cons c hay)
  have "take (length needle) (c # hay) = needle \<longleftrightarrow> prefix needle (c # hay)"
    by (metis append_eq_conv_conj prefix_def append_take_drop_id)
  then show ?case using Cons by (auto simp: strstr.simps [of "c # hay"] sublist_Cons_right)
qed

section \<open>A terminal session\<close>

text \<open>The text still to be typed, the text printed, and whatever the operating system keeps.\<close>

record 'w session =
  typed :: string
  printed :: string
  world :: 'w

definition put :: "string \<Rightarrow> 'w session \<Rightarrow> 'w session" where
  "put str s = s\<lparr>printed := printed s @ str\<rparr>"

lemma say_simps [simp]:
  "printed (put str s) = printed s @ str" "typed (put str s) = typed s" "world (put str s) = world s"
  "put v (put u s) = put (u @ v) s" "put [] s = s"
  by (simp_all add: put_def)

end
