(* ===== verification/Posix.thy ===== *)
theory Posix
  imports Stdio
begin

text \<open>
  The system calls the user programs make. No source of them is part of the repository (the programs
  are linked against a C library for another kernel), so they are parameters: a \<^verbatim>\<open>posix\<close> record holds
  one function per call, over a world of any type. A call that can fail returns the error, whose text
  \<^verbatim>\<open>strerror\<close> gives.
\<close>

datatype errno = EEXIST | Errno nat

datatype file_kind = S_DIR | S_CHR | S_REG | S_OTHER

record file_stat =
  st_kind :: file_kind
  st_mode :: u32
  st_size :: nat

record 'w posix =
  strerror :: "errno \<Rightarrow> string"
  read_file :: "string \<Rightarrow> 'w \<Rightarrow> errno + string"
  create_file :: "string \<Rightarrow> 'w \<Rightarrow> errno + 'w"
  append_file :: "string \<Rightarrow> string \<Rightarrow> 'w \<Rightarrow> 'w"
  sys_touch :: "string \<Rightarrow> 'w \<Rightarrow> errno option \<times> 'w"
  sys_mkdir :: "string \<Rightarrow> 'w \<Rightarrow> errno option \<times> 'w"
  sys_rmdir :: "string \<Rightarrow> 'w \<Rightarrow> errno option \<times> 'w"
  sys_unlink :: "string \<Rightarrow> 'w \<Rightarrow> errno option \<times> 'w"
  sys_rename :: "string \<Rightarrow> string \<Rightarrow> 'w \<Rightarrow> errno option \<times> 'w"
  sys_chdir :: "string \<Rightarrow> 'w \<Rightarrow> errno option \<times> 'w"
  sys_chmod :: "string \<Rightarrow> 'w \<Rightarrow> 'w"
  sys_kill :: "int \<Rightarrow> int \<Rightarrow> 'w \<Rightarrow> errno option \<times> 'w"
  sys_stat :: "string \<Rightarrow> 'w \<Rightarrow> errno + file_stat"
  sys_lstat :: "string \<Rightarrow> 'w \<Rightarrow> errno + file_stat"
  list_dir :: "string \<Rightarrow> 'w \<Rightarrow> errno + string list"
  statvfs_root :: "'w \<Rightarrow> (u64 \<times> u64 \<times> u64) option"
  getcwd :: "nat \<Rightarrow> 'w \<Rightarrow> string option"
  getenv :: "string \<Rightarrow> 'w \<Rightarrow> string option"
  setenv :: "string \<Rightarrow> string \<Rightarrow> 'w \<Rightarrow> 'w"
  ctime_now :: "'w \<Rightarrow> string option"
  executable :: "string \<Rightarrow> 'w \<Rightarrow> bool"
  fork_exec :: "string \<Rightarrow> string list \<Rightarrow> 'w session \<Rightarrow> 'w session option"
  sys_system :: "string \<Rightarrow> 'w session \<Rightarrow> bool \<times> 'w session"
  readable :: "string \<Rightarrow> 'w \<Rightarrow> bool"
  has_tty :: "'w \<Rightarrow> bool"

text \<open>The next character of the input, or the one that \<^verbatim>\<open>EOF\<close> becomes as a \<^verbatim>\<open>char\<close>.\<close>

definition getchar :: "'w session \<Rightarrow> char \<times> 'w session" where
  "getchar s = (case typed s of [] \<Rightarrow> (CHR 0xFF, s) | c # r \<Rightarrow> (c, s\<lparr>typed := r\<rparr>))"

text \<open>The next character as \<^verbatim>\<open>getchar\<close> gives it, -1 at the end of the input.\<close>

definition getkey :: "'w session \<Rightarrow> int \<times> 'w session" where
  "getkey s = (case typed s of [] \<Rightarrow> (-1, s) | c # r \<Rightarrow> (of_char c, s\<lparr>typed := r\<rparr>))"

text \<open>One line of input.\<close>

definition read_line :: "nat \<Rightarrow> 'w session \<Rightarrow> (string \<times> 'w session) option" where
  "read_line n s = map_option (\<lambda>(b, r). (b, s\<lparr>typed := r\<rparr>)) (fgets n (typed s))"

fun fputs_all :: "string list \<Rightarrow> 'w session \<Rightarrow> 'w session" where
  "fputs_all [] s = s"
| "fputs_all (b # bs) s = fputs_all bs (put b s)"

text \<open>\<^verbatim>\<open>fopen (p, "w")\<close>, \<^verbatim>\<open>fprintf\<close>, \<^verbatim>\<open>fclose\<close>, skipped when the file cannot be opened.\<close>

definition write_text :: "'w posix \<Rightarrow> string \<Rightarrow> string \<Rightarrow> 'w \<Rightarrow> 'w" where
  "write_text os p str w =
     (case create_file os p w of Inl e \<Rightarrow> w | Inr w' \<Rightarrow> append_file os p str w')"

text \<open>Terminal control sequences, and the field width of \<^verbatim>\<open>%-16s\<close>.\<close>

definition csi :: "string \<Rightarrow> string" where
  "csi str = CHR 0x1B # CHR ''['' # str"

definition pad_right :: "nat \<Rightarrow> string \<Rightarrow> string" where
  "pad_right w str = str @ replicate (w - length str) CHR 0x20"

lemma fputs_all_say [simp]: "fputs_all bs s = put (concat bs) s"
  by (induction bs s rule: fputs_all.induct) simp_all

text \<open>An in-memory system with regular files only, on which the theorems are tried.\<close>

definition map_posix :: "(string \<rightharpoonup> string) posix" where
  "map_posix =
     \<lparr>strerror = (\<lambda>e. ''No such file or directory''),
      read_file = (\<lambda>p w. case w p of None \<Rightarrow> Inl (Errno 2) | Some content \<Rightarrow> Inr content),
      create_file = (\<lambda>p w. Inr (w(p \<mapsto> []))),
      append_file = (\<lambda>p str w. w(p \<mapsto> (case w p of None \<Rightarrow> [] | Some content \<Rightarrow> content) @ str)),
      sys_touch = (\<lambda>p w. (None, if w p = None then w(p \<mapsto> []) else w)),
      sys_mkdir = (\<lambda>p w. (None, w)),
      sys_rmdir = (\<lambda>p w. (Some (Errno 2), w)),
      sys_unlink = (\<lambda>p w. if w p = None then (Some (Errno 2), w) else (None, w(p := None))),
      sys_rename = (\<lambda>p q w. (Some (Errno 18), w)),
      sys_chdir = (\<lambda>p w. (Some (Errno 2), w)),
      sys_chmod = (\<lambda>p w. w),
      sys_kill = (\<lambda>pid sig w. (Some (Errno 3), w)),
      sys_stat = (\<lambda>p w. case w p of None \<Rightarrow> Inl (Errno 2)
        | Some content \<Rightarrow> Inr \<lparr>st_kind = S_REG, st_mode = 0x1FF, st_size = length content\<rparr>),
      sys_lstat = (\<lambda>p w. case w p of None \<Rightarrow> Inl (Errno 2)
        | Some content \<Rightarrow> Inr \<lparr>st_kind = S_REG, st_mode = 0x1FF, st_size = length content\<rparr>),
      list_dir = (\<lambda>p w. Inl (Errno 20)),
      statvfs_root = (\<lambda>w. None),
      getcwd = (\<lambda>n w. Some ''/''),
      getenv = (\<lambda>v w. None),
      setenv = (\<lambda>v x w. w),
      ctime_now = (\<lambda>w. None),
      executable = (\<lambda>p w. False),
      fork_exec = (\<lambda>p argv s. None),
      sys_system = (\<lambda>cmd s. (False, s)),
      readable = (\<lambda>p w. w p \<noteq> None),
      has_tty = (\<lambda>w. True)\<rparr>"

end
