(* ===== verification/Textutils.thy ===== *)
theory Textutils
  imports Posix "HOL-Library.Multiset"
begin

text \<open>
  The text commands of the user shell, \<^verbatim>\<open>cat\<close> to \<^verbatim>\<open>uniq\<close> and \<^verbatim>\<open>echo\<close> in \<^verbatim>\<open>NoneCompiled/main.c\<close>. A command
  gets the argument vector with its own name in front and a session. The theorems say what each prints
  for a text whose lines fit in the line buffer. Memory is taken to be available, and the line
  counters, which are machine integers in the code, not to overflow.
\<close>

section \<open>cat, less, head\<close>

fun cat_files :: "'w posix \<Rightarrow> string list \<Rightarrow> 'w session \<Rightarrow> 'w session" where
  "cat_files os [] s = s"
| "cat_files os (a # as) s = cat_files os as
     (case read_file os a (world s) of
        Inl e \<Rightarrow> put (''cat: '' @ a @ '': '' @ strerror os e @ nl) s
      | Inr content \<Rightarrow> fputs_all (buffers 512 content) s)"

definition cmd_cat :: "'w posix \<Rightarrow> string list \<Rightarrow> 'w session \<Rightarrow> 'w session" where
  "cmd_cat os argv s =
     (if length argv < 2 then fputs_all (buffers 256 (typed s)) (s\<lparr>typed := []\<rparr>)
      else cat_files os (tl argv) s)"

fun less_loop :: "string list \<Rightarrow> nat \<Rightarrow> 'w session \<Rightarrow> 'w session" where
  "less_loop [] line_count s = s"
| "less_loop (line # rest) line_count s =
     (let s = put line s; line_count = line_count + 1 in
      if line_count mod 22 = 0 then
        let s = put ([CHR 0x1B] @ ''[7m-- More (Press Enter to continue, '' @ [CHR 0x27] @ ''q'' @ [CHR 0x27] @
                     '' to quit) --'' @ [CHR 0x1B] @ ''[0m'') s;
            (c, s) = getchar s;
            s = put ([CHR 0x0D] @ replicate 53 CHR 0x20 @ [CHR 0x0D]) s
        in if c = CHR ''q'' \<or> c = CHR ''Q'' then s else less_loop rest line_count s
      else less_loop rest line_count s)"

definition cmd_less :: "'w posix \<Rightarrow> string list \<Rightarrow> 'w session \<Rightarrow> 'w session" where
  "cmd_less os argv s =
     (if length argv < 2 then put (''less: missing filename'' @ nl) s
      else case read_file os (argv ! 1) (world s) of
        Inl e \<Rightarrow> put (''less: '' @ argv ! 1 @ '': '' @ strerror os e @ nl) s
      | Inr content \<Rightarrow> less_loop (buffers 512 content) 0 s)"

text \<open>The option loop of \<^verbatim>\<open>head\<close> and \<^verbatim>\<open>tail\<close>: a closing \<^verbatim>\<open>-n\<close> is taken for the file.\<close>

fun n_option :: "string list \<Rightarrow> int \<times> string option \<Rightarrow> int \<times> string option" where
  "n_option [] r = r"
| "n_option [a] (max_lines, file) = (max_lines, Some a)"
| "n_option (a # b # rest) (max_lines, file) =
     (if a = ''-n'' then n_option rest (atoi b, file) else n_option (b # rest) (max_lines, Some a))"

fun head_loop :: "string list \<Rightarrow> int \<Rightarrow> int \<Rightarrow> 'w session \<Rightarrow> 'w session" where
  "head_loop [] cnt max_lines s = s"
| "head_loop (line # rest) cnt max_lines s =
     (if cnt < max_lines then head_loop rest (cnt + 1) max_lines (put line s) else s)"

definition cmd_head :: "'w posix \<Rightarrow> string list \<Rightarrow> 'w session \<Rightarrow> 'w session" where
  "cmd_head os argv s =
     (case n_option (tl argv) (10, None) of
        (max_lines, None) \<Rightarrow> put (''head: missing file operand'' @ nl) s
      | (max_lines, Some file) \<Rightarrow>
          (case read_file os file (world s) of
             Inl e \<Rightarrow> put (''head: '' @ file @ '': '' @ strerror os e @ nl) s
           | Inr content \<Rightarrow> head_loop (buffers 512 content) 0 max_lines s))"

section \<open>tail\<close>

text \<open>The ring holds the last lines; line \<open>i\<close> of the text goes to the slot \<open>i mod max_lines\<close>.\<close>

fun tail_fill :: "nat \<Rightarrow> string list \<Rightarrow> nat \<Rightarrow> string option list \<Rightarrow> string option list" where
  "tail_fill max_lines [] seen ring = ring"
| "tail_fill max_lines (line # rest) seen ring =
     tail_fill max_lines rest (seen + 1) (ring[seen mod max_lines := Some line])"

fun tail_print :: "nat \<Rightarrow> nat \<Rightarrow> nat \<Rightarrow> string option list \<Rightarrow> 'w session \<Rightarrow> 'w session" where
  "tail_print max_lines start 0 ring s = s"
| "tail_print max_lines start (Suc n) ring s =
     tail_print max_lines (start + 1) n ring
       (case ring ! (start mod max_lines) of None \<Rightarrow> s | Some line \<Rightarrow> put line s)"

text \<open>With \<^verbatim>\<open>-n 0\<close> the code divides by zero; with a negative count \<^verbatim>\<open>malloc\<close> is asked for more than the
  address space and its null pointer is written through. \<^term>\<open>None\<close>: the process is killed.\<close>

definition cmd_tail :: "'w posix \<Rightarrow> string list \<Rightarrow> 'w session \<Rightarrow> 'w session option" where
  "cmd_tail os argv s =
     (case n_option (tl argv) (10, None) of
        (max_lines, None) \<Rightarrow> Some (put (''tail: missing file operand'' @ nl) s)
      | (max_lines, Some file) \<Rightarrow>
          (case read_file os file (world s) of
             Inl e \<Rightarrow> Some (put (''tail: '' @ file @ '': '' @ strerror os e @ nl) s)
           | Inr content \<Rightarrow>
               let lines = buffers 512 content; seen = length lines; n = nat max_lines in
               if max_lines = 0 then None
               else if max_lines < 0 then (if lines = [] then Some s else None)
               else
                 let ring = tail_fill n lines 0 (replicate n None);
                     print_count = (if seen < n then seen else n);
                     start = (if seen < n then 0 else seen mod n)
                 in Some (tail_print n start print_count ring s)))"

section \<open>grep, wc, sort, uniq\<close>

fun grep_loop :: "string \<Rightarrow> string list \<Rightarrow> 'w session \<Rightarrow> 'w session" where
  "grep_loop pattern [] s = s"
| "grep_loop pattern (line # rest) s =
     grep_loop pattern rest (if strstr line pattern \<noteq> None then put line s else s)"

definition cmd_grep :: "'w posix \<Rightarrow> string list \<Rightarrow> 'w session \<Rightarrow> 'w session" where
  "cmd_grep os argv s =
     (if length argv < 3 then put (''grep: usage: grep <pattern> <file>'' @ nl) s
      else let pattern = argv ! 1; file = argv ! 2 in
        case read_file os file (world s) of
          Inl e \<Rightarrow> put (''grep: '' @ file @ '': '' @ strerror os e @ nl) s
        | Inr content \<Rightarrow> grep_loop pattern (buffers 512 content) s)"

fun wc_loop :: "string \<Rightarrow> bool \<Rightarrow> nat \<Rightarrow> nat \<Rightarrow> nat \<Rightarrow> nat \<times> nat \<times> nat" where
  "wc_loop [] in_word lines words bytes = (lines, words, bytes)"
| "wc_loop (c # rest) in_word lines words bytes =
     (let bytes = bytes + 1; lines = (if c = CHR 0x0A then lines + 1 else lines) in
      if isspace c then wc_loop rest False lines words bytes
      else if \<not> in_word then wc_loop rest True lines (words + 1) bytes
      else wc_loop rest True lines words bytes)"

definition cmd_wc :: "'w posix \<Rightarrow> string list \<Rightarrow> 'w session \<Rightarrow> 'w session" where
  "cmd_wc os argv s =
     (if length argv < 2 then put (''wc: missing file operand'' @ nl) s
      else case read_file os (argv ! 1) (world s) of
        Inl e \<Rightarrow> put (''wc: '' @ argv ! 1 @ '': '' @ strerror os e @ nl) s
      | Inr content \<Rightarrow>
          let (lines, words, bytes) = wc_loop content False 0 0 0 in
          put ('' '' @ pad_left 7 (show_nat lines) @ '' '' @ pad_left 7 (show_nat words) @ '' '' @
               pad_left 7 (show_nat bytes) @ '' '' @ argv ! 1 @ nl) s)"

definition str_compare :: "string \<Rightarrow> string \<Rightarrow> int" where
  "str_compare a b = str_cmp a b"

text \<open>The library's \<^verbatim>\<open>qsort\<close>, by insertion; only its result matters, since lines that compare as equal
  are equal.\<close>

fun insert_by :: "('a \<Rightarrow> 'a \<Rightarrow> int) \<Rightarrow> 'a \<Rightarrow> 'a list \<Rightarrow> 'a list" where
  "insert_by compar x [] = [x]"
| "insert_by compar x (y # ys) = (if compar x y \<le> 0 then x # y # ys else y # insert_by compar x ys)"

definition qsort :: "('a \<Rightarrow> 'a \<Rightarrow> int) \<Rightarrow> 'a list \<Rightarrow> 'a list" where
  "qsort compar xs = foldr (insert_by compar) xs []"

definition cmd_sort :: "'w posix \<Rightarrow> string list \<Rightarrow> 'w session \<Rightarrow> 'w session" where
  "cmd_sort os argv s =
     (if length argv < 2 then put (''sort: missing file operand'' @ nl) s
      else case read_file os (argv ! 1) (world s) of
        Inl e \<Rightarrow> put (''sort: '' @ argv ! 1 @ '': '' @ strerror os e @ nl) s
      | Inr content \<Rightarrow> fputs_all (qsort str_compare (take 1024 (buffers 512 content))) s)"

fun uniq_loop :: "string list \<Rightarrow> string \<Rightarrow> 'w session \<Rightarrow> 'w session" where
  "uniq_loop [] prev s = s"
| "uniq_loop (line # rest) prev s =
     (if str_cmp line prev \<noteq> 0 then uniq_loop rest line (put line s) else uniq_loop rest prev s)"

definition cmd_uniq :: "'w posix \<Rightarrow> string list \<Rightarrow> 'w session \<Rightarrow> 'w session" where
  "cmd_uniq os argv s =
     (if length argv < 2 then put (''uniq: missing file operand'' @ nl) s
      else case read_file os (argv ! 1) (world s) of
        Inl e \<Rightarrow> put (''uniq: '' @ argv ! 1 @ '': '' @ strerror os e @ nl) s
      | Inr content \<Rightarrow> uniq_loop (buffers 512 content) [] s)"

section \<open>echo\<close>

text \<open>An argument that begins with a dollar sign names a variable.\<close>

fun echo_loop :: "'w posix \<Rightarrow> string list \<Rightarrow> 'w session \<Rightarrow> 'w session" where
  "echo_loop os [] s = s"
| "echo_loop os (arg # rest) s =
     (let shown = (case arg of
            [] \<Rightarrow> []
          | c # name \<Rightarrow> if c = CHR 0x24 then (case getenv os name (world s) of Some v \<Rightarrow> v | None \<Rightarrow> [])
                       else arg)
      in echo_loop os rest (put (shown @ (if rest \<noteq> [] then '' '' else [])) s))"

definition cmd_echo :: "'w posix \<Rightarrow> string list \<Rightarrow> 'w session \<Rightarrow> 'w session" where
  "cmd_echo os argv s = put nl (echo_loop os (tl argv) s)"

section \<open>What the loops print\<close>

lemma head_loop_eq: "head_loop bs cnt max_lines s = put (concat (take (nat (max_lines - cnt)) bs)) s"
proof (induction bs cnt max_lines s rule: head_loop.induct)
  case (2 line rest cnt max_lines s)
  have "cnt < max_lines \<Longrightarrow> nat (max_lines - cnt) = Suc (nat (max_lines - (cnt + 1)))" by simp
  with 2 show ?case by auto
qed simp

lemma grep_loop_eq: "grep_loop p bs s = put (concat (filter (sublist p) bs)) s"
  by (induction p bs s rule: grep_loop.induct) (simp_all add: strstr_sublist [symmetric])

lemma uniq_loop_eq:
  "list_all plain bs \<Longrightarrow> plain prev \<Longrightarrow>
   uniq_loop bs prev s = put (concat (tl (remdups_adj (prev # bs)))) s"
proof (induction bs prev s rule: uniq_loop.induct)
  case (2 line rest prev s)
  have "concat (remdups_adj (line # rest)) = line @ concat (tl (remdups_adj (line # rest)))"
    using remdups_adj_Cons_alt [of line rest] by (metis concat.simps(2))
  with 2 show ?case by (simp add: str_cmp_0)
qed simp

lemma remdups_adj_fresh: "x \<notin> set xs \<Longrightarrow> tl (remdups_adj (x # xs)) = remdups_adj xs"
  by (cases xs) auto

lemma short_lines_plain: "short_lines n content \<Longrightarrow> list_all plain (lines_of content)"
  unfolding short_lines_def list_all_iff plain_def
  by (metis concat_lines_of UN_I set_concat)

lemma mset_insert_by: "mset (insert_by cmp x xs) = add_mset x (mset xs)"
  by (induction cmp x xs rule: insert_by.induct) auto

lemma mset_qsort: "mset (qsort cmp xs) = mset xs"
  unfolding qsort_def by (induction xs) (simp_all add: mset_insert_by)

lemma set_insert_by: "set (insert_by cmp x xs) = insert x (set xs)"
  using mset_insert_by [of cmp x xs] by (metis set_mset_add_mset_insert set_mset_mset)

lemma sorted_insert_by:
  "plain x \<Longrightarrow> list_all plain xs \<Longrightarrow> sorted xs \<Longrightarrow> sorted (insert_by str_compare x xs)"
proof (induction xs)
  case (Cons y ys)
  then show ?case using str_cmp_le [of x y]
    by (auto simp: str_compare_def set_insert_by)
qed simp

lemma sorted_qsort: "list_all plain xs \<Longrightarrow> sorted (qsort str_compare xs)"
proof (induction xs)
  case (Cons x xs)
  have "set (qsort str_compare xs) = set xs"
    using mset_qsort [of str_compare xs] by (metis set_mset_mset)
  with Cons show ?case
    using sorted_insert_by [of x "qsort str_compare xs"]
    by (auto simp: qsort_def list_all_iff)
qed (simp add: qsort_def)

text \<open>The words of a text.\<close>

lemma dropWhile_shorter:
  assumes "dropWhile P s = c # r"
  shows "length (dropWhile Q r) < length s"
  using length_dropWhile_le [of P s] length_dropWhile_le [of Q r] assms by simp

function split_on :: "(char \<Rightarrow> bool) \<Rightarrow> string \<Rightarrow> string list" where
  "split_on P s =
     (case dropWhile P s of
        [] \<Rightarrow> []
      | c # r \<Rightarrow> (c # takeWhile (Not \<circ> P) r) # split_on P (dropWhile (Not \<circ> P) r))"
  by auto
termination
  by (relation "measure (\<lambda>(P, s). length s)") (simp_all add: dropWhile_shorter)

declare split_on.simps [simp del]

lemma split_on_skip: "P c \<Longrightarrow> split_on P (c # s) = split_on P s"
  by (simp add: split_on.simps [of P "c # s"] split_on.simps [of P s])

lemma split_on_Nil [simp]: "split_on P [] = []"
  by (simp add: split_on.simps)

lemma split_on_word:
  "\<not> P c \<Longrightarrow> split_on P (c # s) = (c # takeWhile (Not \<circ> P) s) # split_on P (dropWhile (Not \<circ> P) s)"
  by (simp add: split_on.simps [of P "c # s"])

lemma wc_loop_eq:
  "wc_loop content in_word l w b =
     (l + count_list content CHR 0x0A,
      w + length (split_on isspace (if in_word then dropWhile (Not \<circ> isspace) content else content)),
      b + length content)"
  by (induction content in_word l w b rule: wc_loop.induct)
     (auto simp: split_on_skip split_on_word)

text \<open>The ring against the list of the lines seen so far.\<close>

definition ring_holds :: "nat \<Rightarrow> string list \<Rightarrow> string option list \<Rightarrow> bool" where
  "ring_holds n xs ring \<longleftrightarrow> length ring = n \<and>
     (\<forall>i<length xs. length xs \<le> i + n \<longrightarrow> ring ! (i mod n) = Some (xs ! i))"

lemma mod_apart:
  fixes i j n :: nat
  assumes "i < j" "j < i + n"
  shows "i mod n \<noteq> j mod n"
proof
  assume "i mod n = j mod n"
  with \<open>i < j\<close> have "n dvd j - i" by (metis mod_eq_dvd_iff_nat less_imp_le)
  moreover have "0 < j - i" "j - i < n" using assms by auto
  ultimately show False by (metis nat_dvd_not_less)
qed

lemma ring_holds_snoc:
  assumes "ring_holds n xs ring" "0 < n"
  shows "ring_holds n (xs @ [x]) (ring[length xs mod n := Some x])"
  unfolding ring_holds_def
proof (intro conjI allI impI)
  fix i
  assume i: "i < length (xs @ [x])" "length (xs @ [x]) \<le> i + n"
  show "ring[length xs mod n := Some x] ! (i mod n) = Some ((xs @ [x]) ! i)"
  proof (cases "i = length xs")
    case True
    then show ?thesis using assms by (simp add: ring_holds_def)
  next
    case False
    then have "i < length xs" "length xs < i + n" using i by auto
    then show ?thesis
      using assms mod_apart [of i "length xs" n] by (simp add: ring_holds_def nth_append)
  qed
qed (use assms in \<open>simp add: ring_holds_def\<close>)

lemma tail_fill_holds:
  "ring_holds n xs ring \<Longrightarrow> 0 < n \<Longrightarrow> ring_holds n (xs @ ls) (tail_fill n ls (length xs) ring)"
proof (induction ls arbitrary: xs ring)
  case (Cons l ls)
  from Cons.IH [OF ring_holds_snoc [OF Cons.prems, of l] Cons.prems(2)]
  show ?case by simp
qed simp

lemma tail_print_eq:
  "length ys = k \<Longrightarrow> (\<And>i. i < k \<Longrightarrow> ring ! ((start + i) mod n) = Some (ys ! i)) \<Longrightarrow>
   tail_print n start k ring s = put (concat ys) s"
proof (induction k arbitrary: start ys s)
  case (Suc k)
  then obtain y zs where ys: "ys = y # zs" "length zs = k" by (cases ys) auto
  have "ring ! ((start + 1 + i) mod n) = Some (zs ! i)" if "i < k" for i
    using Suc.prems(2) [of "Suc i"] that ys by simp
  then have "tail_print n (start + 1) k ring (put y s) = put (concat zs) (put y s)"
    using ys by (intro Suc.IH) auto
  then show ?case using Suc.prems(2) [of 0] ys by simp
qed simp

lemma tail_ring:
  fixes ls :: "string list"
  assumes "0 < n"
  defines "k \<equiv> length ls"
  shows "tail_print n (if k < n then 0 else k mod n) (if k < n then k else n)
           (tail_fill n ls 0 (replicate n None)) s = put (concat (drop (k - n) ls)) s"
proof (rule tail_print_eq)
  let ?ring = "tail_fill n ls 0 (replicate n None)"
  have h: "ring_holds n ls ?ring"
    using tail_fill_holds [of n "[]" "replicate n None" ls] assms by (simp add: ring_holds_def)
  fix i
  assume i: "i < (if k < n then k else n)"
  have "((if k < n then 0 else k mod n) + i) mod n = (k - n + i) mod n"
  proof (cases "k < n")
    case False
    then have "(k mod n + i) mod n = ((k - n) mod n + i) mod n"
      by (simp add: le_mod_geq)
    then show ?thesis using False by (simp add: mod_add_left_eq)
  qed simp
  moreover have "?ring ! ((k - n + i) mod n) = Some (ls ! (k - n + i))"
    using h i by (auto simp: ring_holds_def k_def split: if_splits)
  moreover have "drop (k - n) ls ! i = ls ! (k - n + i)" by (simp add: k_def)
  ultimately show "?ring ! (((if k < n then 0 else k mod n) + i) mod n) = Some (drop (k - n) ls ! i)"
    by simp
qed (auto simp: k_def)

section \<open>The commands\<close>

text \<open>A file of four lines, as the only one of the in-memory system.\<close>

definition sample_text :: string where
  "sample_text = ''b'' @ nl @ ''b'' @ nl @ ''a b'' @ nl @ ''c''"

definition sample_session :: "(string \<rightharpoonup> string) session" where
  "sample_session = \<lparr>typed = [], printed = [], world = [''f'' \<mapsto> sample_text]\<rparr>"

lemma sample_file [simp]: "read_file map_posix ''f'' (world sample_session) = Inr sample_text"
  by (simp add: map_posix_def sample_session_def)

lemma sample_lines: "lines_of sample_text = [''b'' @ nl, ''b'' @ nl, ''a b'' @ nl, ''c'']"
  by (simp add: sample_text_def)

lemma sample_short [simp]: "short_lines 512 sample_text"
  unfolding short_lines_def sample_lines by (simp add: sample_text_def)

text \<open>On a file whose lines fit in the buffer, cat, head, grep and uniq print the text, its
  first lines, the lines that contain the pattern, and the lines without adjacent repetitions.\<close>

theorem text_filters_print:
  assumes "read_file os f (world s) = Inr content" and "short_lines 512 content"
  shows "cmd_cat os [c, f] s = put content s \<and>
    cmd_head os [c, ''-n'', n, f] s = put (concat (take (nat (atoi n)) (lines_of content))) s \<and>
    cmd_grep os [c, p, f] s = put (concat (filter (sublist p) (lines_of content))) s \<and>
    cmd_uniq os [c, f] s = put (concat (remdups_adj (lines_of content))) s"
proof -
  have b: "buffers 512 content = lines_of content" using assms(2) by (rule buffers_lines)
  have "[] \<notin> set (lines_of content)" using lines_of_neq_Nil [of "[]" content] by auto
  then have u: "tl (remdups_adj ([] # lines_of content)) = remdups_adj (lines_of content)"
    by (rule remdups_adj_fresh)
  show ?thesis
    using assms(1) short_lines_plain [OF assms(2)] u
    by (simp add: cmd_cat_def cmd_head_def cmd_grep_def cmd_uniq_def b head_loop_eq grep_loop_eq
          uniq_loop_eq del: remdups_adj.simps)
qed

theorem text_filters_print_witness:
  "cmd_head map_posix [''head'', ''-n'', ''1'', ''f''] sample_session = put (''b'' @ nl) sample_session \<and>
   cmd_uniq map_posix [''uniq'', ''f''] sample_session = put (''b'' @ nl @ ''a b'' @ nl @ ''c'') sample_session"
  using text_filters_print [OF sample_file sample_short, of "''head''" "''1''" "''a''"]
    text_filters_print [OF sample_file sample_short, of "''uniq''" "''1''" "''a''"]
  by (simp add: sample_lines atoi_def digits_value_def isdigit_def isspace_def)



text \<open>Sort prints the first 1024 lines of the file in order, each as often as it occurs among
  them; every further line is lost.\<close>

theorem sort_prints_sorted:
  assumes "read_file os f (world s) = Inr content" and "short_lines 512 content"
  shows "\<exists>ls. cmd_sort os [c, f] s = put (concat ls) s \<and> sorted ls \<and>
    mset ls = mset (take 1024 (lines_of content))"
proof -
  let ?ls = "qsort str_compare (take 1024 (lines_of content))"
  have "list_all plain (take 1024 (lines_of content))"
    using short_lines_plain [OF assms(2)] by (auto simp: list_all_iff dest: in_set_takeD)
  then have "sorted ?ls" "mset ?ls = mset (take 1024 (lines_of content))"
    by (simp_all add: sorted_qsort mset_qsort)
  moreover have "cmd_sort os [c, f] s = put (concat ?ls) s"
    using assms buffers_lines [OF assms(2)] by (simp add: cmd_sort_def)
  ultimately show ?thesis by blast
qed

theorem sort_prints_sorted_witness:
  "\<exists>ls. cmd_sort map_posix [''sort'', ''f''] sample_session = put (concat ls) sample_session \<and>
     sorted ls \<and> mset ls = {#''b'' @ nl, ''b'' @ nl, ''a b'' @ nl, ''c''#}"
  using sort_prints_sorted [OF sample_file sample_short, of "''sort''"]
  by (simp add: sample_lines)

text \<open>Wc prints the number of line feeds, of words and of bytes of the file.\<close>

theorem wc_counts:
  assumes "read_file os f (world s) = Inr content"
  shows "cmd_wc os [c, f] s =
    put ('' '' @ pad_left 7 (show_nat (count_list content CHR 0x0A)) @ '' '' @
         pad_left 7 (show_nat (length (split_on isspace content))) @ '' '' @
         pad_left 7 (show_nat (length content)) @ '' '' @ f @ nl) s"
  using assms by (simp add: cmd_wc_def wc_loop_eq)

lemma sample_counts:
  "pad_left 7 (show_nat (count_list sample_text CHR 0x0A)) = ''      3''"
  "pad_left 7 (show_nat (length (split_on isspace sample_text))) = ''      5''"
  "pad_left 7 (show_nat (length sample_text)) = ''      9''"
  by code_simp+

theorem wc_counts_witness:
  "cmd_wc map_posix [''wc'', ''f''] sample_session =
     put (''       3       5       9 f'' @ nl) sample_session"
  using wc_counts [OF sample_file, of "''wc''"]
  unfolding sample_counts by simp

end
