(* ===== verification/Fileutils.thy ===== *)
theory Fileutils
  imports Posix
begin

text \<open>
  The file and system commands of the user shell in \<^verbatim>\<open>NoneCompiled/main.c\<close>, over the system calls of
  \<^verbatim>\<open>Posix\<close>. A command that walks or copies files may not come back on every system; it then has the
  value \<^term>\<open>None\<close>. Sums of sizes are taken not to overflow a \<^verbatim>\<open>long\<close>.
\<close>

abbreviation quote :: char where "quote \<equiv> CHR 0x27"

definition strip_newline :: "string \<Rightarrow> string" where
  "strip_newline str = rev (dropWhile (\<lambda>c. c = CHR 0x0A \<or> c = CHR 0x0D) (rev str))"

section \<open>Directories\<close>

definition chmod_entry :: "'w posix \<Rightarrow> string \<Rightarrow> string \<Rightarrow> 'w \<Rightarrow> 'w" where
  "chmod_entry os dir_path name w =
     (if take 1 name = ''.'' then w else sys_chmod os (cut 512 (dir_path @ ''/'' @ name)) w)"

definition make_dir_executable :: "'w posix \<Rightarrow> string \<Rightarrow> 'w \<Rightarrow> 'w" where
  "make_dir_executable os dir_path w =
     (case list_dir os dir_path w of Inl e \<Rightarrow> w | Inr names \<Rightarrow> fold (chmod_entry os dir_path) names w)"

definition mode_char :: "u32 \<Rightarrow> u32 \<Rightarrow> char \<Rightarrow> char" where
  "mode_char mode right c = (if mode AND right \<noteq> 0 then c else CHR ''-'')"

definition ls_line :: "'w posix \<Rightarrow> bool \<Rightarrow> string \<Rightarrow> 'w \<Rightarrow> string \<Rightarrow> string" where
  "ls_line os long_format dir_path w name =
     (case sys_stat os (cut 512 (dir_path @ ''/'' @ name)) w of
        Inl e \<Rightarrow> name @ ''  ''
      | Inr st \<Rightarrow>
          if long_format then
            (case st_kind st of S_DIR \<Rightarrow> CHR ''d'' | S_CHR \<Rightarrow> CHR ''c'' | _ \<Rightarrow> CHR ''-'') #
            [mode_char (st_mode st) 0x100 CHR ''r'', mode_char (st_mode st) 0x80 CHR ''w'',
             mode_char (st_mode st) 0x40 CHR ''x'', mode_char (st_mode st) 0x20 CHR ''r'',
             mode_char (st_mode st) 0x10 CHR ''w'', mode_char (st_mode st) 0x8 CHR ''x'',
             mode_char (st_mode st) 0x4 CHR ''r'', mode_char (st_mode st) 0x2 CHR ''w'',
             mode_char (st_mode st) 0x1 CHR ''x''] @
            '' '' @ pad_left 5 (show_nat (st_size st)) @ '' '' @ name @ nl
          else if st_kind st = S_DIR then name @ ''/  '' else name @ ''  '')"

definition cmd_ls :: "'w posix \<Rightarrow> string list \<Rightarrow> 'w session \<Rightarrow> 'w session" where
  "cmd_ls os argv s =
     (let dir_path = (if length argv > 1 then argv ! 1 else ''.'');
          long_format = (length argv > 1 \<and> argv ! 1 = ''-l'');
          dir_path = (if long_format then (if length argv > 2 then argv ! 2 else ''.'') else dir_path)
      in case list_dir os dir_path (world s) of
           Inl e \<Rightarrow> put (''ls: cannot access '' @ [quote] @ dir_path @ [quote] @ '': '' @ strerror os e @ nl) s
         | Inr names \<Rightarrow>
             put nl (fputs_all (map (ls_line os long_format dir_path (world s)) names) s))"

definition cmd_pwd :: "'w posix \<Rightarrow> 'w session \<Rightarrow> 'w session" where
  "cmd_pwd os s =
     (case getcwd os 512 (world s) of
        Some cwd \<Rightarrow> put (cwd @ nl) s
      | None \<Rightarrow> put (''pwd: error retrieving current directory'' @ nl) s)"

fun mkdir_loop :: "'w posix \<Rightarrow> string list \<Rightarrow> 'w session \<Rightarrow> 'w session" where
  "mkdir_loop os [] s = s"
| "mkdir_loop os (a # rest) s =
     (if a = ''-p'' then mkdir_loop os rest s
      else let (r, w) = sys_mkdir os a (world s); s = s\<lparr>world := w\<rparr> in
        mkdir_loop os rest
          (case r of
             None \<Rightarrow> s
           | Some e \<Rightarrow> if e = EEXIST then s
               else put (''mkdir: cannot create directory '' @ [quote] @ a @ [quote] @ '': '' @
                         strerror os e @ nl) s))"

definition cmd_mkdir :: "'w posix \<Rightarrow> string list \<Rightarrow> 'w session \<Rightarrow> 'w session" where
  "cmd_mkdir os argv s =
     (if length argv < 2 then put (''mkdir: missing operand'' @ nl) s else mkdir_loop os (tl argv) s)"

fun rmdir_loop :: "'w posix \<Rightarrow> string list \<Rightarrow> 'w session \<Rightarrow> 'w session" where
  "rmdir_loop os [] s = s"
| "rmdir_loop os (a # rest) s =
     (let (r, w) = sys_rmdir os a (world s); s = s\<lparr>world := w\<rparr> in
        rmdir_loop os rest
          (case r of
             None \<Rightarrow> s
           | Some e \<Rightarrow> put (''rmdir: failed to remove '' @ [quote] @ a @ [quote] @ '': '' @
                              strerror os e @ nl) s))"

definition cmd_rmdir :: "'w posix \<Rightarrow> string list \<Rightarrow> 'w session \<Rightarrow> 'w session" where
  "cmd_rmdir os argv s =
     (if length argv < 2 then put (''rmdir: missing operand'' @ nl) s else rmdir_loop os (tl argv) s)"

fun touch_loop :: "'w posix \<Rightarrow> string list \<Rightarrow> 'w session \<Rightarrow> 'w session" where
  "touch_loop os [] s = s"
| "touch_loop os (a # rest) s =
     (let (r, w) = sys_touch os a (world s); s = s\<lparr>world := w\<rparr> in
        touch_loop os rest
          (case r of
             None \<Rightarrow> s
           | Some e \<Rightarrow> put (''touch: cannot touch '' @ [quote] @ a @ [quote] @ '': '' @
                              strerror os e @ nl) s))"

definition cmd_touch :: "'w posix \<Rightarrow> string list \<Rightarrow> 'w session \<Rightarrow> 'w session" where
  "cmd_touch os argv s =
     (if length argv < 2 then put (''touch: missing file operand'' @ nl) s
      else touch_loop os (tl argv) s)"

section \<open>Copy, move, remove\<close>

text \<open>Each round reads the next block of the source as it then is.\<close>

partial_function (option) copy_loop :: "'w posix \<Rightarrow> string \<Rightarrow> string \<Rightarrow> nat \<Rightarrow> 'w \<Rightarrow> 'w option" where
  "copy_loop os src dst offset w =
     (let buf = (case read_file os src w of Inl e \<Rightarrow> [] | Inr content \<Rightarrow> take 4096 (drop offset content)) in
      if buf = [] then Some w
      else copy_loop os src dst (offset + length buf) (append_file os dst buf w))"

definition cmd_cp :: "'w posix \<Rightarrow> string list \<Rightarrow> 'w session \<Rightarrow> 'w session option" where
  "cmd_cp os argv s =
     (if length argv < 3 then Some (put (''cp: missing file operand. Usage: cp <source> <dest>'' @ nl) s)
      else case read_file os (argv ! 1) (world s) of
        Inl e \<Rightarrow> Some (put (''cp: cannot open '' @ [quote] @ argv ! 1 @ [quote] @ '': '' @ strerror os e @ nl) s)
      | Inr content \<Rightarrow>
          (case create_file os (argv ! 2) (world s) of
             Inl e \<Rightarrow> Some (put (''cp: cannot create '' @ [quote] @ argv ! 2 @ [quote] @ '': '' @
                                  strerror os e @ nl) s)
           | Inr w \<Rightarrow> map_option (\<lambda>w. s\<lparr>world := w\<rparr>) (copy_loop os (argv ! 1) (argv ! 2) 0 w)))"

definition cmd_mv :: "'w posix \<Rightarrow> string list \<Rightarrow> 'w session \<Rightarrow> 'w session option" where
  "cmd_mv os argv s =
     (if length argv < 3 then Some (put (''mv: missing operand. Usage: mv <source> <dest>'' @ nl) s)
      else let (r, w) = sys_rename os (argv ! 1) (argv ! 2) (world s); s = s\<lparr>world := w\<rparr> in
        case r of
          None \<Rightarrow> Some s
        | Some e \<Rightarrow>
            map_option (\<lambda>s. s\<lparr>world := snd (sys_unlink os (argv ! 1) (world s))\<rparr>) (cmd_cp os argv s))"

text \<open>\<^verbatim>\<open>rm_recursive\<close>, for a path (no names) and for the entries still to go of an open directory. The
  path of an entry is cut to 511 characters.\<close>

partial_function (option) rm_recursive ::
    "'w posix \<Rightarrow> string \<Rightarrow> string list option \<Rightarrow> 'w \<Rightarrow> (errno option \<times> 'w) option" where
  "rm_recursive os path names w =
     (case names of
        None \<Rightarrow>
          (case sys_lstat os path w of
             Inl e \<Rightarrow> Some (Some e, w)
           | Inr st \<Rightarrow>
               if st_kind st = S_DIR then
                 case list_dir os path w of
                   Inl e \<Rightarrow> Some (Some e, w)
                 | Inr ns \<Rightarrow> Option.bind (rm_recursive os path (Some ns) w)
                     (\<lambda>r. Some (sys_rmdir os path (snd r)))
               else Some (sys_unlink os path w))
      | Some ns \<Rightarrow>
          (case ns of
             [] \<Rightarrow> Some (None, w)
           | n # rest \<Rightarrow>
               if n = ''.'' \<or> n = ''..'' then rm_recursive os path (Some rest) w
               else Option.bind (rm_recursive os (cut 512 (path @ ''/'' @ n)) None w)
                 (\<lambda>r. rm_recursive os path (Some rest) (snd r))))"

fun rm_loop :: "'w posix \<Rightarrow> bool \<Rightarrow> string list \<Rightarrow> 'w session \<Rightarrow> 'w session option" where
  "rm_loop os recursive [] s = Some s"
| "rm_loop os recursive (a # rest) s =
     Option.bind (if recursive then rm_recursive os a None (world s) else Some (sys_unlink os a (world s)))
       (\<lambda>(r, w). let s = s\<lparr>world := w\<rparr> in
          rm_loop os recursive rest
            (case r of
               None \<Rightarrow> s
             | Some e \<Rightarrow> put (''rm: cannot remove '' @ [quote] @ a @ [quote] @ '': '' @
                                strerror os e @ nl) s))"

definition cmd_rm :: "'w posix \<Rightarrow> string list \<Rightarrow> 'w session \<Rightarrow> 'w session option" where
  "cmd_rm os argv s =
     (if length argv < 2 then Some (put (''rm: missing operand'' @ nl) s)
      else if argv ! 1 = ''-r'' \<or> argv ! 1 = ''-rf'' then rm_loop os True (drop 2 argv) s
      else rm_loop os False (drop 1 argv) s)"

section \<open>System state\<close>

definition ps_line :: "'w posix \<Rightarrow> 'w \<Rightarrow> string \<Rightarrow> string" where
  "ps_line os w name =
     (if name \<noteq> [] \<and> isdigit (hd name) then
        let cmd = (case read_file os (cut 512 (''/proc/'' @ name @ ''/cmdline'')) w of
                     Inl e \<Rightarrow> ''unknown''
                   | Inr content \<Rightarrow> (case fgets 64 content of
                       None \<Rightarrow> ''unknown'' | Some (line, _) \<Rightarrow> strip_newline line));
            pid = atoi name
        in if pid > 2 then pad_left 5 (show_num pid) @ '' tty0     00:00:00 '' @ cmd @ nl else []
      else [])"

definition cmd_ps :: "'w posix \<Rightarrow> 'w session \<Rightarrow> 'w session" where
  "cmd_ps os s =
     (let s = put (''  PID TTY          TIME CMD'' @ nl) s;
          s = put (''    1 tty0     00:00:01 kernel'' @ nl) s;
          s = put (''    2 tty0     00:00:00 main (init)'' @ nl) s
      in case list_dir os ''/proc'' (world s) of
           Inl e \<Rightarrow> s
         | Inr names \<Rightarrow> fputs_all (map (ps_line os (world s)) names) s)"

definition cmd_kill :: "'w posix \<Rightarrow> string list \<Rightarrow> 'w session \<Rightarrow> 'w session" where
  "cmd_kill os argv s =
     (if length argv < 2 then put (''kill: usage: kill [-9] <pid>'' @ nl) s
      else
        let (sig, pid_idx) = (if argv ! 1 = ''-9'' \<and> length argv > 2 then (9, 2) else (15, 1));
            pid = atoi (argv ! pid_idx);
            (r, w) = sys_kill os pid sig (world s);
            s = s\<lparr>world := w\<rparr>
        in case r of
             None \<Rightarrow> s
           | Some e \<Rightarrow> put (''kill: ('' @ show_num pid @ '') - '' @ strerror os e @ nl) s)"

definition cmd_df :: "'w posix \<Rightarrow> 'w session \<Rightarrow> 'w session" where
  "cmd_df os s =
     (let s = put (''Filesystem     Type    1K-blocks      Used Available Use% Mounted on'' @ nl) s in
      case statvfs_root os (world s) of
        Some (f_blocks, f_frsize, f_bfree) \<Rightarrow>
          let tot = (f_blocks * f_frsize) div 1024;
              free_b = (f_bfree * f_frsize) div 1024;
              used = tot - free_b;
              pct = (if tot > 0 then sint (ucast ((used * 100) div tot) :: u32) else 0)
          in put (''/dev/disk0     vfs     '' @ pad_left 10 (show_nat (unat tot)) @ '' '' @
                  pad_left 9 (show_nat (unat used)) @ '' '' @ pad_left 9 (show_nat (unat free_b)) @ '' '' @
                  pad_left 3 (show_num pct) @ ''% /'' @ nl) s
      | None \<Rightarrow> put (''/dev/disk0     vfs          131072     15360    115712  11% /'' @ nl) s)"

text \<open>\<^verbatim>\<open>du_path\<close>, for a path and for the entries still to go of an open directory.\<close>

partial_function (option) du_path ::
    "'w posix \<Rightarrow> string \<Rightarrow> string list option \<Rightarrow> 'w \<Rightarrow> nat option" where
  "du_path os path names w =
     (case names of
        None \<Rightarrow>
          (case sys_stat os path w of
             Inl e \<Rightarrow> Some 0
           | Inr st \<Rightarrow>
               if st_kind st = S_DIR then
                 case list_dir os path w of
                   Inl e \<Rightarrow> Some (st_size st)
                 | Inr ns \<Rightarrow> Option.bind (du_path os path (Some ns) w) (\<lambda>t. Some (st_size st + t))
               else Some (st_size st))
      | Some ns \<Rightarrow>
          (case ns of
             [] \<Rightarrow> Some 0
           | n # rest \<Rightarrow>
               if n = ''.'' \<or> n = ''..'' then du_path os path (Some rest) w
               else Option.bind (du_path os (cut 512 (path @ ''/'' @ n)) None w)
                 (\<lambda>t. Option.bind (du_path os path (Some rest) w) (\<lambda>u. Some (t + u)))))"

definition cmd_du :: "'w posix \<Rightarrow> string list \<Rightarrow> 'w session \<Rightarrow> 'w session option" where
  "cmd_du os argv s =
     (let path = (if length argv > 1 then argv ! 1 else ''.'') in
      map_option (\<lambda>bytes. put (show_nat ((bytes + 1023) div 1024) @ [CHR 0x09] @ path @ nl) s)
        (du_path os path None (world s)))"

definition cmd_free :: "'w session \<Rightarrow> 'w session" where
  "cmd_free s =
     fputs_all
       [''              total        used        free      shared  buff/cache   available'' @ nl,
        ''Mem:         131072       18432      112640           0        8192      112640'' @ nl,
        ''Swap:             0           0           0'' @ nl] s"

fun uname_flags :: "string list \<Rightarrow> bool \<Rightarrow> bool \<Rightarrow> bool \<times> bool" where
  "uname_flags [] flag_o flag_p = (flag_o, flag_p)"
| "uname_flags (a # rest) flag_o flag_p =
     (if a = ''-a'' then uname_flags rest True True
      else if a = ''-o'' then uname_flags rest True flag_p
      else if a = ''-p'' then uname_flags rest flag_o True
      else uname_flags rest flag_o flag_p)"

text \<open>The 64-bit build.\<close>

definition cmd_uname :: "string list \<Rightarrow> 'w session \<Rightarrow> 'w session" where
  "cmd_uname argv s =
     (let proc_type = ''x86_64''; os_name = ''JurkOS 1.1 Alpha'' in
      if length argv = 1 then put (os_name @ nl) s
      else let (flag_o, flag_p) = uname_flags (tl argv) False False in
        if flag_o \<and> flag_p then put (os_name @ '' '' @ proc_type @ nl) s
        else if flag_o then put (os_name @ nl) s
        else if flag_p then put (proc_type @ nl) s
        else put (os_name @ nl) s)"

definition cmd_date :: "'w posix \<Rightarrow> 'w session \<Rightarrow> 'w session" where
  "cmd_date os s =
     (case ctime_now os (world s) of
        Some dt \<Rightarrow> put dt s
      | None \<Rightarrow> put (''Sun Oct 18 03:45:00 UTC 2026'' @ nl) s)"

definition print_devices :: "'w posix \<Rightarrow> 'w session \<Rightarrow> 'w session" where
  "print_devices os s =
     (let s = put (''--- Attached Devices (/dev) ---'' @ nl) s in
      case list_dir os ''/dev'' (world s) of
        Inl e \<Rightarrow> s
      | Inr names \<Rightarrow> fputs_all (map (\<lambda>name. if take 1 name = ''.'' then [] else ''  /dev/'' @ name @ nl) names) s)"

section \<open>Copying\<close>

text \<open>What \<^verbatim>\<open>cp\<close> needs of the system: what is appended to one file is added at its end, and leaves the
  other file alone. Two names of one file do not satisfy this.\<close>

definition appends_apart :: "'w posix \<Rightarrow> string \<Rightarrow> string \<Rightarrow> bool" where
  "appends_apart os src dst \<longleftrightarrow>
     (\<forall>str w t u. read_file os src w = Inr t \<longrightarrow> read_file os dst w = Inr u \<longrightarrow>
        read_file os src (append_file os dst str w) = Inr t \<and>
        read_file os dst (append_file os dst str w) = Inr (u @ str))"

lemma copy_loop_copies:
  assumes "appends_apart os src dst"
  shows "read_file os src w = Inr t \<Longrightarrow> read_file os dst w = Inr (take i t) \<Longrightarrow> i \<le> length t \<Longrightarrow>
    \<exists>w'. copy_loop os src dst i w = Some w' \<and> read_file os src w' = Inr t \<and> read_file os dst w' = Inr t"
proof (induction "length t - i" arbitrary: i w rule: less_induct)
  case less
  let ?buf = "take 4096 (drop i t)"
  let ?w = "append_file os dst ?buf w"
  show ?case
  proof (cases "i = length t")
    case True
    then show ?thesis using less.prems by (simp add: copy_loop.simps)
  next
    case False
    then have i: "i < length t" using less.prems by simp
    then have ne: "?buf \<noteq> []" by simp
    have "take i t @ ?buf = take (i + length ?buf) t"
      by (metis (no_types) length_take min.commute take_add take_drop take_all_iff
            append_take_drop_id nle_le take_take)
    then have "read_file os src ?w = Inr t \<and> read_file os dst ?w = Inr (take (i + length ?buf) t)"
      using assms less.prems unfolding appends_apart_def by metis
    moreover have "length t - (i + length ?buf) < length t - i" "i + length ?buf \<le> length t"
      using i by auto
    ultimately obtain w' where
      "copy_loop os src dst (i + length ?buf) ?w = Some w' \<and>
       read_file os src w' = Inr t \<and> read_file os dst w' = Inr t"
      using less.hyps by blast
    then show ?thesis using less.prems(1) ne
      by (subst copy_loop.simps) (simp only: Let_def sum.case if_False, blast)
  qed
qed

text \<open>Cp leaves in the destination, block by block, the contents of the source, which keeps them.\<close>

theorem cp_copies_file:
  assumes "appends_apart os src dst" and "read_file os src (world s) = Inr content"
    and "create_file os dst (world s) = Inr w"
    and "read_file os src w = Inr content" and "read_file os dst w = Inr []"
  shows "\<exists>w'. cmd_cp os [c, src, dst] s = Some (s\<lparr>world := w'\<rparr>) \<and>
    read_file os src w' = Inr content \<and> read_file os dst w' = Inr content"
  using copy_loop_copies [OF assms(1,4), of 0] assms by (auto simp: cmd_cp_def)

theorem cp_copies_file_witness:
  "\<exists>w'. cmd_cp map_posix [''cp'', ''a'', ''b''] \<lparr>typed = [], printed = [], world = [''a'' \<mapsto> ''xyz'']\<rparr> =
       Some \<lparr>typed = [], printed = [], world = w'\<rparr> \<and> w' ''a'' = Some ''xyz'' \<and> w' ''b'' = Some ''xyz''"
proof -
  have "appends_apart map_posix ''a'' ''b''"
    by (auto simp: appends_apart_def map_posix_def split: option.splits)
  then show ?thesis
    using cp_copies_file [of map_posix "''a''" "''b''" "\<lparr>typed = [], printed = [], world = [''a'' \<mapsto> ''xyz'']\<rparr>"
        "''xyz''" "[''a'' \<mapsto> ''xyz'', ''b'' \<mapsto> []]" "''cp''"]
    by (auto simp: map_posix_def split: option.splits)
qed

text \<open>A file copied onto itself is emptied.\<close>

lemma cp_onto_itself:
  assumes "read_file os f (world s) = Inr content" and "create_file os f (world s) = Inr w"
    and "read_file os f w = Inr []"
  shows "cmd_cp os [c, f, f] s = Some (s\<lparr>world := w\<rparr>)"
  using assms by (simp add: cmd_cp_def copy_loop.simps)

text \<open>Mv across file systems deletes the source even when the destination could not be created:
  the file is lost.\<close>

theorem mv_loses_file:
  assumes "sys_rename os src dst (world s) = (Some e, w)"
    and "read_file os src w = Inr content" and "create_file os dst w = Inl e'"
    and "sys_unlink os src w = (None, w')"
  shows "cmd_mv os [c, src, dst] s =
    Some (put (''cp: cannot create '' @ [quote] @ dst @ [quote] @ '': '' @ strerror os e' @ nl) s\<lparr>world := w'\<rparr>)"
  using assms by (simp add: cmd_mv_def cmd_cp_def put_def)

definition full_disk :: "(string \<rightharpoonup> string) posix" where
  "full_disk = map_posix\<lparr>create_file := (\<lambda>p w. Inl (Errno 28))\<rparr>"

theorem mv_loses_file_witness:
  "map_option world (cmd_mv full_disk [''mv'', ''a'', ''/mnt/a'']
     \<lparr>typed = [], printed = [], world = [''a'' \<mapsto> ''xyz'']\<rparr>) = Some Map.empty"
  using mv_loses_file [of full_disk "''a''" "''/mnt/a''" "\<lparr>typed = [], printed = [], world = [''a'' \<mapsto> ''xyz'']\<rparr>"
      "Errno 18" "[''a'' \<mapsto> ''xyz'']" "''xyz''" "Errno 28" Map.empty "''mv''"]
  by (simp add: full_disk_def map_posix_def put_def)

section \<open>Disk usage\<close>

text \<open>A directory tree as a value, and when the system shows it under a path.\<close>

datatype tree = Leaf nat | Node nat "(string \<times> tree) list"

fun tree_size :: "tree \<Rightarrow> nat" where
  "tree_size (Leaf n) = n"
| "tree_size (Node n es) = n + sum_list (map (\<lambda>(m, t). tree_size t) es)"

definition no_dots :: "string \<Rightarrow> bool" where
  "no_dots n \<longleftrightarrow> n \<noteq> ''.'' \<and> n \<noteq> ''..''"

fun shows_tree :: "'w posix \<Rightarrow> 'w \<Rightarrow> string \<Rightarrow> tree \<Rightarrow> bool" where
  "shows_tree os w path (Leaf n) =
     (\<exists>st. sys_stat os path w = Inr st \<and> st_kind st \<noteq> S_DIR \<and> st_size st = n)"
| "shows_tree os w path (Node n es) =
     (\<exists>st ns. sys_stat os path w = Inr st \<and> st_kind st = S_DIR \<and> st_size st = n \<and>
        list_dir os path w = Inr ns \<and> filter no_dots ns = map fst es \<and>
        (\<forall>(m, t)\<in>set es. length (path @ ''/'' @ m) < 512 \<and> shows_tree os w (path @ ''/'' @ m) t))"

lemma fits_short: "length s < n \<Longrightarrow> cut n s = s"
  by (simp add: cut_def)

lemma du_names:
  assumes "\<And>m t. (m, t) \<in> set es \<Longrightarrow> length (path @ ''/'' @ m) < 512 \<and>
      du_path os (path @ ''/'' @ m) None w = Some (tree_size t)"
  shows "filter no_dots ns = map fst es \<Longrightarrow>
    du_path os path (Some ns) w = Some (sum_list (map (\<lambda>(m, t). tree_size t) es))"
  using assms
proof (induction ns arbitrary: es)
  case Nil
  then show ?case by (simp add: du_path.simps)
next
  case (Cons n ns)
  show ?case
  proof (cases "no_dots n")
    case False
    then show ?thesis using Cons by (subst du_path.simps) (auto simp: no_dots_def)
  next
    case True
    then obtain t es' where es: "es = (n, t) # es'" "filter no_dots ns = map fst es'"
      using Cons.prems(1) by (cases es) auto
    then have "du_path os path (Some ns) w = Some (sum_list (map (\<lambda>(m, t). tree_size t) es'))"
      using Cons.prems(2) by (intro Cons.IH) auto
    moreover have "length (path @ ''/'' @ n) < 512"
      "du_path os (path @ ''/'' @ n) None w = Some (tree_size t)"
      using Cons.prems(2) [of n t] es by auto
    ultimately show ?thesis using True es
      by (subst du_path.simps) (simp add: no_dots_def fits_short)
  qed
qed

lemma du_path_tree: "shows_tree os w path t \<Longrightarrow> du_path os path None w = Some (tree_size t)"
proof (induction os w path t rule: shows_tree.induct)
  case (1 os w path n)
  then show ?case by (auto simp: du_path.simps)
next
  case (2 os w path n es)
  then obtain st ns where st: "sys_stat os path w = Inr st" "st_kind st = S_DIR" "st_size st = n"
      "list_dir os path w = Inr ns" "filter no_dots ns = map fst es"
    and es: "\<forall>(m, t)\<in>set es. length (path @ ''/'' @ m) < 512 \<and> shows_tree os w (path @ ''/'' @ m) t"
    by auto
  have "du_path os path (Some ns) w = Some (sum_list (map (\<lambda>(m, t). tree_size t) es))"
    using es 2 by (intro du_names st(5)) fastforce
  then show ?case using st by (subst du_path.simps) simp
qed


definition dir_posix :: "unit posix" where
  "dir_posix =
     \<lparr>strerror = (\<lambda>e. []), read_file = (\<lambda>p w. Inl (Errno 2)), create_file = (\<lambda>p w. Inl (Errno 30)),
      append_file = (\<lambda>p str w. w), sys_touch = (\<lambda>p w. (None, w)), sys_mkdir = (\<lambda>p w. (None, w)),
      sys_rmdir = (\<lambda>p w. (None, w)), sys_unlink = (\<lambda>p w. (None, w)),
      sys_rename = (\<lambda>p q w. (None, w)), sys_chdir = (\<lambda>p w. (None, w)), sys_chmod = (\<lambda>p w. w),
      sys_kill = (\<lambda>pid sig w. (None, w)),
      sys_stat = (\<lambda>p w. if p = ''d'' then Inr \<lparr>st_kind = S_DIR, st_mode = 0x1ED, st_size = 4096\<rparr>
        else if p = ''d/x'' then Inr \<lparr>st_kind = S_REG, st_mode = 0x1A4, st_size = 5\<rparr> else Inl (Errno 2)),
      sys_lstat = (\<lambda>p w. Inl (Errno 2)),
      list_dir = (\<lambda>p w. if p = ''d'' then Inr [''.'', ''..'', ''x''] else Inl (Errno 20)),
      statvfs_root = (\<lambda>w. None), getcwd = (\<lambda>n w. None), getenv = (\<lambda>v w. None),
      setenv = (\<lambda>v x w. w), ctime_now = (\<lambda>w. None), executable = (\<lambda>p w. False),
      fork_exec = (\<lambda>p argv s. None), sys_system = (\<lambda>cmd s. (False, s)),
      readable = (\<lambda>p w. False), has_tty = (\<lambda>w. False)\<rparr>"


end
