(* ===== verification/Usershell.thy ===== *)
theory Usershell
  imports Textutils Fileutils
begin

text \<open>
  The user shell, \<^verbatim>\<open>run_shell\<close> in \<^verbatim>\<open>NoneCompiled/main.c\<close>: splitting of a line, dispatch to the commands
  of \<^verbatim>\<open>Textutils\<close> and \<^verbatim>\<open>Fileutils\<close>, search for programs, and the loop. One round of the loop reads one
  line; it ends the session, ends the process, or goes on.
\<close>

section \<open>Words of a line\<close>

definition is_blank :: "char \<Rightarrow> bool" where
  "is_blank c \<longleftrightarrow> c = CHR 0x20 \<or> c = CHR 0x09"

text \<open>At most 31 words are kept; the line is scanned to its end all the same.\<close>

function tokenize :: "string \<Rightarrow> nat \<Rightarrow> string list" where
  "tokenize p argc_cmd =
     (case dropWhile is_blank p of
        [] \<Rightarrow> []
      | c # r \<Rightarrow>
          let word = c # takeWhile (Not \<circ> is_blank) r; rest = dropWhile (Not \<circ> is_blank) r in
          if argc_cmd < 31 then word # tokenize rest (argc_cmd + 1) else tokenize rest argc_cmd)"
  by auto
termination
  by (relation "measure (\<lambda>(p, n). length p)") (simp_all add: dropWhile_shorter)

declare tokenize.simps [simp del]

section \<open>Commands\<close>

text \<open>What a round of the shell leads to; \<^term>\<open>Killed\<close>: the process has crashed, or the command never
  comes back.\<close>

datatype 'w round_result = Next "'w session" | Logout "'w session" | Exited "'w session" | Killed

definition of_option :: "'w session option \<Rightarrow> 'w round_result" where
  "of_option r = (case r of None \<Rightarrow> Killed | Some s \<Rightarrow> Next s)"

definition help_lines :: "string list" where
  "help_lines =
    [''JurkOS Built-in Shell Utilities (26 Core Commands):'' @ nl,
     ''  File Operations:'' @ nl,
     ''    ls [dir]        - List files and directories'' @ nl,
     ''    pwd             - Print current working directory'' @ nl,
     ''    cd <dir>        - Change working directory'' @ nl,
     ''    mkdir <dir...>  - Create new directories'' @ nl,
     ''    rmdir <dir...>  - Remove empty directories'' @ nl,
     ''    touch <file...> - Create empty file or update timestamp'' @ nl,
     ''    cp <src> <dst>  - Copy file'' @ nl,
     ''    mv <src> <dst>  - Move or rename file/folder'' @ nl,
     ''    rm [-r] <path..>- Remove file or directory'' @ nl,
     ''  Text Processing:'' @ nl,
     ''    cat <file...>   - Concatenate and print file contents'' @ nl,
     ''    less <file>     - Interactive page-by-page file viewer'' @ nl,
     ''    head [-n N] file- Output first N lines'' @ nl,
     ''    tail [-n N] file- Output last N lines'' @ nl,
     ''    grep <pat> file - Search and filter pattern'' @ nl,
     ''    wc <file>       - Count lines, words, and bytes'' @ nl,
     ''    sort <file>     - Sort lines alphabetically'' @ nl,
     ''    uniq <file>     - Remove duplicate adjacent lines'' @ nl,
     ''    echo [args...]  - Print text and variables ($USER, $HOME)'' @ nl,
     ''  System & Diagnostics:'' @ nl,
     ''    ps              - List active processes'' @ nl,
     ''    kill [-9] <pid> - Send termination signal to process'' @ nl,
     ''    df              - Display filesystem disk space'' @ nl,
     ''    du [path]       - Estimate disk usage'' @ nl,
     ''    free            - Display physical RAM usage'' @ nl,
     ''    uname [-o/-p/-a]- Print OS (-o), processor (-p), or both (-a)'' @ nl,
     ''    date            - Display current date and time'' @ nl,
     ''    devs            - List all devices attached in /dev'' @ nl,
     ''    clear           - Clear terminal screen'' @ nl,
     ''  JurkOS Management:'' @ nl,
     ''    wifi            - Launch JurkOS Wireless Manager'' @ nl,
     ''    jurkstore       - Launch JurkStore App Store'' @ nl,
     ''    reboot          - Reboot computer'' @ nl,
     ''    poweroff        - Safely power down computer'' @ nl,
     ''    logout / exit   - End shell session'' @ nl]"

definition shell_cd :: "'w posix \<Rightarrow> string \<Rightarrow> string list \<Rightarrow> 'w session \<Rightarrow> 'w session" where
  "shell_cd os home_dir args s =
     (let target = (if length args > 1 then args ! 1 else home_dir);
          target = (if target = ''~'' then home_dir else target);
          (r, w) = sys_chdir os target (world s);
          s = s\<lparr>world := w\<rparr>
      in if r \<noteq> None then put (''cd: no such directory: '' @ target @ nl) s else s)"

text \<open>The write of one character to a device file, where it can be opened.\<close>

definition poke :: "'w posix \<Rightarrow> string \<Rightarrow> 'w session \<Rightarrow> 'w session" where
  "poke os dev s = s\<lparr>world := append_file os dev ''1'' (world s)\<rparr>"

text \<open>Programs are looked for in four directories, in each under the name and with \<^verbatim>\<open>.jex\<close> after it. A
  \<^verbatim>\<open>fork\<close> that fails lets the search go on.\<close>

definition try_app :: "'w posix \<Rightarrow> string \<Rightarrow> string list \<Rightarrow> 'w session \<Rightarrow> 'w session option" where
  "try_app os app_path args s =
     (if executable os app_path (world s) then fork_exec os app_path args s else None)"

fun search_app :: "'w posix \<Rightarrow> string list \<Rightarrow> string list \<Rightarrow> 'w session \<Rightarrow> 'w session option" where
  "search_app os [] args s = None"
| "search_app os (dir # dirs) args s =
     (case try_app os (cut 512 (dir @ ''/'' @ hd args)) args s of
        Some s' \<Rightarrow> Some s'
      | None \<Rightarrow>
          (case try_app os (cut 512 (dir @ ''/'' @ hd args @ ''.jex'')) args s of
             Some s' \<Rightarrow> Some s'
           | None \<Rightarrow> search_app os dirs args s))"

definition search_paths :: "string list" where
  "search_paths = [''/bin'', ''/sbin'', ''/usr/apps'', ''.'']"

definition run_app :: "'w posix \<Rightarrow> string list \<Rightarrow> 'w session \<Rightarrow> 'w round_result" where
  "run_app os args s =
     (case search_app os search_paths args s of
        Some s' \<Rightarrow> Next s'
      | None \<Rightarrow> Next (put (hd args @ '': command not found. Type '' @ [quote] @ ''help'' @ [quote] @
                           '' for built-ins.'' @ nl) s))"

definition dispatch :: "'w posix \<Rightarrow> string \<Rightarrow> string list \<Rightarrow> 'w session \<Rightarrow> 'w round_result" where
  "dispatch os home_dir args s =
     (let cmd = hd args in
      if cmd = ''help'' then Next (fputs_all help_lines s)
      else if cmd = ''pwd'' then Next (cmd_pwd os s)
      else if cmd = ''cd'' then Next (shell_cd os home_dir args s)
      else if cmd = ''ls'' then Next (cmd_ls os args s)
      else if cmd = ''mkdir'' then Next (cmd_mkdir os args s)
      else if cmd = ''rmdir'' then Next (cmd_rmdir os args s)
      else if cmd = ''touch'' then Next (cmd_touch os args s)
      else if cmd = ''cp'' then of_option (cmd_cp os args s)
      else if cmd = ''mv'' then of_option (cmd_mv os args s)
      else if cmd = ''rm'' then of_option (cmd_rm os args s)
      else if cmd = ''cat'' then Next (cmd_cat os args s)
      else if cmd = ''less'' then Next (cmd_less os args s)
      else if cmd = ''head'' then Next (cmd_head os args s)
      else if cmd = ''tail'' then of_option (cmd_tail os args s)
      else if cmd = ''grep'' then Next (cmd_grep os args s)
      else if cmd = ''wc'' then Next (cmd_wc os args s)
      else if cmd = ''sort'' then Next (cmd_sort os args s)
      else if cmd = ''uniq'' then Next (cmd_uniq os args s)
      else if cmd = ''echo'' then Next (cmd_echo os args s)
      else if cmd = ''ps'' then Next (cmd_ps os s)
      else if cmd = ''kill'' then Next (cmd_kill os args s)
      else if cmd = ''df'' then Next (cmd_df os s)
      else if cmd = ''du'' then of_option (cmd_du os args s)
      else if cmd = ''free'' then Next (cmd_free s)
      else if cmd = ''uname'' then Next (cmd_uname args s)
      else if cmd = ''date'' then Next (cmd_date os s)
      else if cmd = ''clear'' then Next (put ([CHR 0x1B] @ ''[H'' @ [CHR 0x1B] @ ''[J'') s)
      else if cmd = ''devs'' then Next (print_devices os s)
      else if cmd = ''logout'' \<or> cmd = ''exit'' then Logout s
      else if cmd = ''reboot'' then Exited (poke os ''/dev/reboot'' (put (''Rebooting JurkOS...'' @ nl) s))
      else if cmd = ''poweroff'' \<or> cmd = ''shutdown'' then
        Exited (poke os ''/dev/poweroff'' (put (''Powering off JurkOS...'' @ nl) s))
      else run_app os args s)"

section \<open>The loop\<close>

definition shell_round :: "'w posix \<Rightarrow> string \<Rightarrow> string \<Rightarrow> 'w session \<Rightarrow> 'w round_result" where
  "shell_round os username home_dir s =
     (let cwd = (case getcwd os 256 (world s) of Some cwd \<Rightarrow> cwd | None \<Rightarrow> ''~'');
          s = put (''jurkos@'' @ username @ '':'' @ cwd @ [CHR 0x24] @ '' '') s
      in case read_line 1024 s of
           None \<Rightarrow> Logout s
         | Some (input, s) \<Rightarrow>
             let input = strip_newline input in
             if input = [] then Next s
             else let args = tokenize (cut 1024 input) 0 in
               if args = [] then Next s else dispatch os home_dir args s)"

text \<open>The loop ends with the session (\<^term>\<open>Logout\<close>) or with the process.\<close>

partial_function (option) shell_loop :: "'w posix \<Rightarrow> string \<Rightarrow> string \<Rightarrow> 'w session \<Rightarrow> 'w round_result option" where
  "shell_loop os username home_dir s =
     (case shell_round os username home_dir s of
        Next s' \<Rightarrow> shell_loop os username home_dir s'
      | Logout s' \<Rightarrow> Some (Logout s')
      | Exited s' \<Rightarrow> Some (Exited s')
      | Killed \<Rightarrow> Some Killed)"

definition home_dir_of :: "string \<Rightarrow> string" where
  "home_dir_of username = cut 256 (''/home/'' @ username)"

definition enter_home :: "'w posix \<Rightarrow> string \<Rightarrow> 'w \<Rightarrow> 'w" where
  "enter_home os username w =
     (let home_dir = home_dir_of username;
          (_, w) = sys_mkdir os home_dir w;
          (r, w) = sys_chdir os home_dir w;
          w = (if r \<noteq> None then snd (sys_chdir os ''/'' w) else w)
      in setenv os ''USER'' username (setenv os ''HOME'' home_dir w))"

definition run_shell :: "'w posix \<Rightarrow> string \<Rightarrow> 'w session \<Rightarrow> 'w round_result option" where
  "run_shell os username s =
     (let s = s\<lparr>world := enter_home os username (world s)\<rparr>;
          s = put (nl @ ''=== JurkOS Userland Shell ==='' @ nl) s;
          s = put (''Type '' @ [quote] @ ''help'' @ [quote] @ '' for full list of commands.'' @ nl @ nl) s
      in shell_loop os username (home_dir_of username) s)"

section \<open>Facts\<close>

lemma tokenize_split: "tokenize p n = take (31 - n) (split_on is_blank p)"
proof (induction p n rule: tokenize.induct)
  case (1 p n)
  show ?case
  proof (cases "dropWhile is_blank p")
    case Nil
    have "tokenize p n = []" by (subst tokenize.simps) (simp only: Nil list.case)
    moreover have "split_on is_blank p = []" by (subst split_on.simps) (simp only: Nil list.case)
    ultimately show ?thesis by simp
  next
    case (Cons c r)
    then have s: "split_on is_blank p =
        (c # takeWhile (Not \<circ> is_blank) r) # split_on is_blank (dropWhile (Not \<circ> is_blank) r)"
      by (simp add: split_on.simps [of is_blank p])
    show ?thesis
    proof (cases "n < 31")
      case True
      then have "31 - n = Suc (31 - (n + 1))" by simp
      with 1(1) [OF Cons refl refl True] Cons s True show ?thesis
        by (subst tokenize.simps) (simp add: Let_def)
    next
      case False
      with 1(2) [OF Cons refl refl False] Cons s show ?thesis
        by (subst tokenize.simps) (simp add: Let_def)
    qed
  qed
qed

lemma line_part_typed: "CHR 0x0A \<notin> set l \<Longrightarrow> length l < n \<Longrightarrow> line_part n (l @ CHR 0x0A # r) = l @ nl"
proof (induction l arbitrary: n)
  case Nil
  then show ?case by (cases n) auto
next
  case (Cons c l)
  then show ?case by (cases n) auto
qed

lemma read_line_typed:
  assumes "typed s = l @ nl @ rest" and "plain l" and "CHR 0x0A \<notin> set l" and "length l + 1 < n"
  shows "read_line n s = Some (l @ nl, s\<lparr>typed := rest\<rparr>)"
  using assms line_part_typed [of l "n - 1" rest]
  by (simp add: read_line_def fgets_def Let_def)

lemma strip_newline_line: "CHR 0x0A \<notin> set l \<Longrightarrow> CHR 0x0D \<notin> set l \<Longrightarrow> strip_newline (l @ nl) = l"
  by (cases "rev l") (auto simp: strip_newline_def)

definition builtins :: "string list" where
  "builtins = [''help'', ''pwd'', ''cd'', ''ls'', ''mkdir'', ''rmdir'', ''touch'', ''cp'', ''mv'', ''rm'', ''cat'',
     ''less'', ''head'', ''tail'', ''grep'', ''wc'', ''sort'', ''uniq'', ''echo'', ''ps'', ''kill'', ''df'', ''du'',
     ''free'', ''uname'', ''date'', ''clear'', ''devs'', ''logout'', ''exit'', ''reboot'', ''poweroff'', ''shutdown'']"

lemma dispatch_app: "hd args \<notin> set builtins \<Longrightarrow> dispatch os home args s = run_app os args s"
  by (simp add: builtins_def dispatch_def Let_def)

text \<open>The paths a program may have, in the order in which they are tried.\<close>

definition candidates :: "string list \<Rightarrow> string \<Rightarrow> string list" where
  "candidates dirs cmd =
     concat (map (\<lambda>dir. [cut 512 (dir @ ''/'' @ cmd), cut 512 (dir @ ''/'' @ cmd @ ''.jex'')]) dirs)"

definition can_fork :: "'w posix \<Rightarrow> string list \<Rightarrow> 'w session \<Rightarrow> (string \<Rightarrow> 'w session) \<Rightarrow> bool" where
  "can_fork os args s after \<longleftrightarrow> (\<forall>p. fork_exec os p args s = Some (after p))"

lemma search_app_find:
  assumes "can_fork os args s after"
  shows "search_app os dirs args s =
    map_option after (find (\<lambda>p. executable os p (world s)) (candidates dirs (hd args)))"
  using assms
  by (induction dirs) (simp_all add: candidates_def try_app_def can_fork_def)

text \<open>The session a command sees: the prompt printed, the line read.\<close>

definition prompted :: "'w posix \<Rightarrow> string \<Rightarrow> string \<Rightarrow> 'w session \<Rightarrow> 'w session" where
  "prompted os username rest s =
     put (''jurkos@'' @ username @ '':'' @
          (case getcwd os 256 (world s) of Some cwd \<Rightarrow> cwd | None \<Rightarrow> ''~'') @ [CHR 0x24] @ '' '') s\<lparr>typed := rest\<rparr>"

lemma shell_round_dispatch:
  assumes "typed s = l @ nl @ rest" and "plain l" and "CHR 0x0A \<notin> set l" and "CHR 0x0D \<notin> set l"
    and "length l < 1023" and "split_on is_blank l \<noteq> []"
  shows "shell_round os username home s =
    dispatch os home (take 31 (split_on is_blank l)) (prompted os username rest s)"
proof -
  have "l \<noteq> []" using assms(6) by auto
  moreover have "read_line 1024 (put p s) = Some (l @ nl, put p s\<lparr>typed := rest\<rparr>)" for p
    using assms by (intro read_line_typed) simp_all
  ultimately show ?thesis
    using assms by (simp add: shell_round_def Let_def strip_newline_line cut_def tokenize_split prompted_def)
qed


text \<open>A system whose only program prints its arguments.\<close>

definition hello_posix :: "(string \<rightharpoonup> string) posix" where
  "hello_posix = map_posix\<lparr>executable := (\<lambda>p w. p = ''/usr/apps/hello.jex''),
     fork_exec := (\<lambda>p argv s. Some (put (concat argv) s))\<rparr>"


end
