(* ===== verification/Login.thy ===== *)
theory Login
  imports Usershell
begin

text \<open>
  The first user process in \<^verbatim>\<open>NoneCompiled/main.c\<close>: base64, the crash report, the console, preparation of
  the file system, first-time setup and login. The waiting at the end of the input (\<^verbatim>\<open>sleep\<close>) has no effect on the state; a round
  that waits leaves it as it is.
\<close>

section \<open>Base64\<close>

definition base64_table :: string where
  "base64_table = ''ABCDEFGHIJKLMNOPQRSTUVWXYZabcdefghijklmnopqrstuvwxyz0123456789+/''"

text \<open>The next octet, or 0 beyond the end; \<open>i\<close> counts the octets read.\<close>

definition octet :: "string \<Rightarrow> nat \<Rightarrow> u32 \<times> string \<times> nat" where
  "octet data i = (case data of [] \<Rightarrow> (0, [], i) | c # r \<Rightarrow> (of_char c, r, i + 1))"

lemma octet_length: "octet data i = (x, r, j) \<Longrightarrow> length r \<le> length data \<and> (data \<noteq> [] \<longrightarrow> length r < length data)"
  by (auto simp: octet_def split: list.splits)

definition sextet :: "u32 \<Rightarrow> nat \<Rightarrow> char" where
  "sextet triple n = base64_table ! unat (drop_bit n triple AND 0x3F)"

function base64_loop :: "nat \<Rightarrow> nat \<Rightarrow> string \<Rightarrow> string" where
  "base64_loop input_len i data =
     (if data = [] then []
      else
        let (octet_a, data, i) = octet data i;
            (octet_b, data, i) = octet data i;
            (octet_c, data, i) = octet data i;
            triple = push_bit 16 octet_a + push_bit 8 octet_b + octet_c
        in [sextet triple 18, sextet triple 12,
            if i > input_len + 1 then CHR ''='' else sextet triple 6,
            if i > input_len then CHR ''='' else sextet triple 0] @ base64_loop input_len i data)"
  by auto
termination
  by (relation "measure (\<lambda>(n, i, data). length data)") (auto dest!: octet_length [OF sym])

declare base64_loop.simps [simp del]

definition base64_encode :: "string \<Rightarrow> string" where
  "base64_encode data = base64_loop (length data) 0 data"

section \<open>Setup\<close>

definition SETUP_MARKER :: string where "SETUP_MARKER = ''/encrypted/.setup_done''"

definition USER_DB_PATH :: string where "USER_DB_PATH = ''/encrypted/userlogin/''"

text \<open>The fatal signals and what process 1 reports of them before it ends; \<^verbatim>\<open>stderr\<close> is the same
  terminal.\<close>

definition SIGILL :: nat where "SIGILL = 4"
definition SIGABRT :: nat where "SIGABRT = 6"
definition SIGBUS :: nat where "SIGBUS = 7"
definition SIGFPE :: nat where "SIGFPE = 8"
definition SIGSEGV :: nat where "SIGSEGV = 11"

lemmas signal_numbers = SIGILL_def SIGABRT_def SIGBUS_def SIGFPE_def SIGSEGV_def

definition crash_reason :: "nat \<Rightarrow> string \<times> string" where
  "crash_reason sig =
     (if sig = SIGSEGV then (''SIGSEGV (Segmentation Fault)'',
        ''Process attempted to read or write to an invalid memory address.'')
      else if sig = SIGBUS then (''SIGBUS (Bus Error)'',
        ''Process attempted an unaligned or non-existent physical memory access.'')
      else if sig = SIGILL then (''SIGILL (Illegal Instruction)'',
        ''CPU attempted to execute an invalid or privileged machine instruction.'')
      else if sig = SIGFPE then (''SIGFPE (Floating Point Exception / Division by Zero)'',
        ''A fatal arithmetic error or division by zero was executed.'')
      else if sig = SIGABRT then (''SIGABRT (Abort)'',
        ''Process called abort() due to an internal assertion failure.'')
      else (''UNKNOWN'', ''An unhandled exception terminated PID 1.''))"

abbreviation bell :: char where "bell \<equiv> CHR 0x07"

definition crash_signal_handler :: "nat \<Rightarrow> 'w session \<Rightarrow> nat \<times> 'w session" where
  "crash_signal_handler sig s =
     (let (sig_name, detail) = crash_reason sig;
          double_rule = csi ''1;31m'' @ replicate 55 CHR ''='' @ csi ''0m'' @ nl
      in (128 + sig, fputs_all
           ([[bell, bell, bell], nl @ double_rule,
             csi ''1;31m'' @ '' [PID 1 CRASH] Fatal Exception: '' @ sig_name @ csi ''0m'' @ nl,
             '' Signal Number: '' @ show_num (int sig) @ nl,
             '' What Went Wrong:'' @ nl,
             ''  '' @ detail @ nl,
             ''  PID 1 (/sbin/main) cannot recover. Alerting kernel.'' @ nl,
             double_rule] @ replicate 4 [bell]) s))"

text \<open>The signals \<^verbatim>\<open>setup_system\<close> registers the handler for. The default action ends the process
  without a report.\<close>

definition crash_signals :: "nat list" where
  "crash_signals = [SIGSEGV, SIGBUS, SIGILL, SIGFPE, SIGABRT]"

definition raise_signal :: "nat \<Rightarrow> 'w session \<Rightarrow> (nat \<times> 'w session) option" where
  "raise_signal sig s = (if sig \<in> set crash_signals then Some (crash_signal_handler sig s) else None)"

text \<open>The descriptors of the process by number. A file is opened on the lowest free one, \<^verbatim>\<open>dup2\<close> makes
  one descriptor refer to the file of another.\<close>

type_synonym descriptors = "nat \<Rightarrow> string option"

fun first_free :: "nat \<Rightarrow> nat \<Rightarrow> descriptors \<Rightarrow> nat option" where
  "first_free 0 i fds = None"
| "first_free (Suc n) i fds = (if fds i = None then Some i else first_free n (i + 1) fds)"

definition open_device :: "(string \<Rightarrow> bool) \<Rightarrow> nat \<Rightarrow> string \<Rightarrow> descriptors \<Rightarrow> (nat \<times> descriptors) option" where
  "open_device opens limit dev fds =
     (if opens dev then map_option (\<lambda>i. (i, fds(i := Some dev))) (first_free limit 0 fds) else None)"

definition dup2 :: "nat \<Rightarrow> nat \<Rightarrow> descriptors \<Rightarrow> descriptors" where
  "dup2 a b fds = fds(b := fds a)"

definition setup_console :: "(string \<Rightarrow> bool) \<Rightarrow> nat \<Rightarrow> descriptors \<Rightarrow> descriptors" where
  "setup_console opens limit fds =
     (case (case open_device opens limit ''/dev/console'' fds of
              Some r \<Rightarrow> Some r | None \<Rightarrow> open_device opens limit ''/dev/tty'' fds) of
        None \<Rightarrow> fds
      | Some (cons, fds) \<Rightarrow>
          let fds = dup2 cons 2 (dup2 cons 1 (dup2 cons 0 fds)) in
          if cons > 2 then fds(cons := None) else fds)"

lemma first_free_Some: "first_free n i fds = Some j \<Longrightarrow> fds j = None \<and> i \<le> j \<and> j < i + n"
  by (induction n i fds rule: first_free.induct) (auto split: if_splits)

text \<open>If one of the two devices opens, input, output and errors go to it and every other descriptor is
  what it was before.\<close>

lemma setup_console_redirects:
  assumes "opens ''/dev/console'' \<or> opens ''/dev/tty''" and "first_free limit 0 fds = Some j"
  shows "setup_console opens limit fds = (let dev = (if opens ''/dev/console'' then ''/dev/console'' else ''/dev/tty'') in
    (\<lambda>i. if i \<le> 2 then Some dev else fds i))"
  using assms first_free_Some [OF assms(2)]
  by (auto simp: setup_console_def open_device_def dup2_def Let_def fun_eq_iff)

text \<open>The signals with a handler are the ones the report knows.\<close>

lemma crash_signals_named: "sig \<in> set crash_signals \<longleftrightarrow> fst (crash_reason sig) \<noteq> ''UNKNOWN''"
  by (auto simp: crash_signals_def crash_reason_def signal_numbers)

definition setup_system :: "'w posix \<Rightarrow> 'w \<Rightarrow> 'w" where
  "setup_system os w =
     (let w = fold (\<lambda>d w. snd (sys_mkdir os d w)) [''/etc'', ''/home'', ''/usr'', ''/usr/apps'', ''/bin'', ''/sbin''] w;
          w = setenv os ''PATH'' ''/bin:/sbin:/usr/bin:/usr/apps'' w;
          w = setenv os ''TERM'' ''linux'' w;
          w = setenv os ''OS'' ''JurkOS'' w
      in fold (make_dir_executable os) [''/bin'', ''/sbin'', ''/usr/apps''] w)"

text \<open>The user is asked until a name is given; at the end of the input for ever (\<^term>\<open>None\<close>).\<close>

function ask_username :: "'w session \<Rightarrow> (string \<times> 'w session) option" where
  "ask_username s =
     (case read_line 64 (put ''Choose Username: '' s) of
        None \<Rightarrow> None
      | Some (line, s') \<Rightarrow>
          let username = strip_newline line in
          if username \<noteq> [] then Some (username, s') else ask_username s')"
  by auto
termination
  by (relation "measure (\<lambda>s. length (typed s))") (auto simp: read_line_def dest: fgets_shorter)

declare ask_username.simps [simp del]

definition user_path :: "string \<Rightarrow> string" where
  "user_path username = cut 256 (USER_DB_PATH @ username)"

definition auth_file :: "string \<Rightarrow> string" where
  "auth_file username = cut 512 (user_path username @ ''/auth'')"

definition credentials :: "string \<Rightarrow> string \<Rightarrow> string" where
  "credentials username password = cut 128 (username @ '':'' @ password)"

definition store_account :: "'w posix \<Rightarrow> string \<Rightarrow> string \<Rightarrow> 'w \<Rightarrow> 'w" where
  "store_account os username password w =
     (let w = snd (sys_mkdir os ''/encrypted'' w);
          w = snd (sys_mkdir os USER_DB_PATH w);
          w = snd (sys_mkdir os (user_path username) w);
          w = write_text os (auth_file username) (base64_encode (credentials username password)) w
      in write_text os SETUP_MARKER username w)"

definition banner_rule :: string where
  "banner_rule = replicate 41 CHR ''='' @ nl"

definition first_setup :: "'w posix \<Rightarrow> 'w session \<Rightarrow> (string \<times> 'w session) option" where
  "first_setup os s =
     (let s = fputs_all [banner_rule, '' Welcome to JurkOS First-Time Setup!'' @ nl, banner_rule] s in
      case ask_username s of
        None \<Rightarrow> None
      | Some (username, s) \<Rightarrow>
          let s = put ''Choose Password: '' s;
              (password, s) = (case read_line 64 s of
                 None \<Rightarrow> ([], s) | Some (line, s) \<Rightarrow> (strip_newline line, s))
          in Some (username, s\<lparr>world := store_account os username password (world s)\<rparr>))"

section \<open>Login\<close>

definition stored_username :: "'w posix \<Rightarrow> 'w \<Rightarrow> string" where
  "stored_username os w =
     (let username = (case read_file os SETUP_MARKER w of
            Inl e \<Rightarrow> ''AmineTheJurk''
          | Inr content \<Rightarrow> (case fgets 64 content of
              None \<Rightarrow> ''AmineTheJurk'' | Some (line, _) \<Rightarrow> strip_newline line))
      in if username = [] then ''AmineTheJurk'' else username)"

text \<open>The end of a shell session leads back to the prompt.\<close>

definition after_shell :: "'w round_result option \<Rightarrow> 'w round_result option" where
  "after_shell r = map_option (\<lambda>r. case r of Logout s \<Rightarrow> Next s | _ \<Rightarrow> r) r"

definition login_round :: "'w posix \<Rightarrow> string \<Rightarrow> 'w session \<Rightarrow> 'w round_result option" where
  "login_round os username s =
     (let s = put (nl @ ''Password for '' @ username @ '': '') s in
      case read_line 64 s of
        None \<Rightarrow> Some (Next s)
      | Some (line, s) \<Rightarrow>
          let password = strip_newline line in
          if password = [] then after_shell (run_shell os username s)
          else case read_file os (auth_file username) (world s) of
            Inl e \<Rightarrow> after_shell (run_shell os username s)
          | Inr content \<Rightarrow>
              let stored_encoded = (case fgets 256 content of None \<Rightarrow> [] | Some (line, _) \<Rightarrow> line) in
              if str_cmp stored_encoded (base64_encode (credentials username password)) = 0
              then after_shell (run_shell os username s)
              else Some (Next (put (''Incorrect password.'' @ nl) s)))"

partial_function (option) login_loop :: "'w posix \<Rightarrow> string \<Rightarrow> 'w session \<Rightarrow> 'w round_result option" where
  "login_loop os username s =
     Option.bind (login_round os username s)
       (\<lambda>r. case r of Next s' \<Rightarrow> login_loop os username s' | Logout s' \<Rightarrow> Some r | Exited s' \<Rightarrow> Some r | Killed \<Rightarrow> Some r)"

partial_function (option) shell_forever :: "'w posix \<Rightarrow> string \<Rightarrow> 'w session \<Rightarrow> 'w round_result option" where
  "shell_forever os username s =
     Option.bind (after_shell (run_shell os username s))
       (\<lambda>r. case r of Next s' \<Rightarrow> shell_forever os username s' | Logout s' \<Rightarrow> Some r | Exited s' \<Rightarrow> Some r | Killed \<Rightarrow> Some r)"

definition user_main :: "'w posix \<Rightarrow> 'w session \<Rightarrow> 'w round_result option" where
  "user_main os s =
     (let s = s\<lparr>world := setup_system os (world s)\<rparr> in
      case sys_stat os SETUP_MARKER (world s) of
        Inl e \<Rightarrow> Option.bind (first_setup os s) (\<lambda>(username, s). shell_forever os username s)
      | Inr st \<Rightarrow> login_loop os (stored_username os (world s)) s)"

section \<open>Base64 is injective\<close>

definition sextet_value :: "char \<Rightarrow> nat" where
  "sextet_value c = length (takeWhile (\<lambda>d. d \<noteq> c) base64_table)"

fun base64_decode :: "string \<Rightarrow> string" where
  "base64_decode (w # x # y # z # r) =
     (let v = 262144 * sextet_value w + 4096 * sextet_value x + 64 * sextet_value y + sextet_value z
      in char_of (v div 65536) # char_of (v div 256) # char_of v # base64_decode r)"
| "base64_decode _ = []"

lemma position_nth: "distinct xs \<Longrightarrow> i < length xs \<Longrightarrow> length (takeWhile (\<lambda>d. d \<noteq> xs ! i) xs) = i"
proof (induction xs arbitrary: i)
  case (Cons x xs)
  then show ?case by (cases i) auto
qed simp

lemma base64_table_facts:
  "length base64_table = 64" "distinct base64_table" "CHR ''='' \<notin> set base64_table" "NUL \<notin> set base64_table"
  "CHR 0x0A \<notin> set base64_table"
  by code_simp+

lemma unat_and_63: "unat ((x :: u32) AND 0x3F) = unat x mod 64"
proof -
  have "(0x3F :: u32) = mask 6" by (simp add: mask_eq_exp_minus_1)
  then have "x AND 0x3F = take_bit 6 x" by (simp only: take_bit_eq_mask)
  moreover have "unat (take_bit 6 x) = unat x mod 2 ^ 6"
    by (metis take_bit_eq_mod unsigned_take_bit_eq)
  ultimately show ?thesis by simp
qed

lemma sextet_nth: "sextet t n = base64_table ! (unat t div 2 ^ n mod 64)"
proof -
  have "unat (drop_bit n t) = unat t div 2 ^ n"
    by (simp only: unat_drop_bit_eq drop_bit_eq_div [where 'a = nat])
  then show ?thesis by (simp only: sextet_def unat_and_63)
qed

lemma sextet_value_sextet: "sextet_value (sextet t n) = unat t div 2 ^ n mod 64"
  using position_nth [of base64_table "unat t div 2 ^ n mod 64"] base64_table_facts
  by (simp add: sextet_value_def sextet_nth)

lemma sextet_in_table: "sextet t n \<in> set base64_table"
  using base64_table_facts by (simp add: sextet_nth)

lemma unat_triple:
  fixes a b c :: char
  shows "unat (push_bit 16 (of_char a) + push_bit 8 (of_char b) + of_char c :: u32) =
    65536 * of_char a + 256 * of_char b + of_char c"
proof -
  let ?n = "65536 * of_char a + 256 * of_char b + of_char c :: nat"
  have "(push_bit 16 (of_char a) + push_bit 8 (of_char b) + of_char c :: u32) = word_of_nat ?n"
    by (simp add: push_bit_eq_mult of_nat_of_char mult.commute)
  moreover have "?n < 4294967296"
    using nat_of_char_less_256 [of a] nat_of_char_less_256 [of b] nat_of_char_less_256 [of c] by linarith
  ultimately show ?thesis by (simp add: unat_of_nat take_bit_nat_eq_self del: of_nat_add of_nat_mult)
qed

text \<open>The four characters of three octets; an octet beyond the end counts as NUL.\<close>

definition quad :: "char \<Rightarrow> char \<Rightarrow> char \<Rightarrow> string" where
  "quad a b c =
     (let t = push_bit 16 (of_char a) + push_bit 8 (of_char b) + of_char c in
      [sextet t 18, sextet t 12, sextet t 6, sextet t 0])"

lemma digits_64:
  fixes t :: nat
  assumes "t < 16777216"
  shows "262144 * (t div 262144 mod 64) + 4096 * (t div 4096 mod 64) + 64 * (t div 64 mod 64) + t mod 64 = t"
proof -
  have "t div 64 div 64 = t div 4096" "t div 4096 div 64 = t div 262144"
    by (simp_all flip: div_mult2_eq)
  moreover have "t div 262144 mod 64 = t div 262144" using assms by simp
  ultimately show ?thesis
    using mult_div_mod_eq [of 64 t] mult_div_mod_eq [of 64 "t div 64"] mult_div_mod_eq [of 64 "t div 4096"]
    by linarith
qed

lemma digits_256:
  fixes a b c :: nat
  assumes "a < 256" "b < 256" "c < 256"
  shows "(65536 * a + 256 * b + c) div 65536 = a" "(65536 * a + 256 * b + c) div 256 mod 256 = b"
    "(65536 * a + 256 * b + c) mod 256 = c"
proof -
  have t: "65536 * a + 256 * b + c = 65536 * a + (256 * b + c)"
    "65536 * a + 256 * b + c = 256 * (256 * a + b) + c" by simp_all
  have h: "y < 256 \<Longrightarrow> (256 * x + y) div 256 = x \<and> (256 * x + y) mod 256 = y" for x y :: nat
    by simp
  have "256 * b + c < 65536" using assms by linarith
  then show "(65536 * a + 256 * b + c) div 65536 = a" unfolding t(1) by simp
  show "(65536 * a + 256 * b + c) div 256 mod 256 = b" unfolding t(2) using assms h [of c "256 * a + b"] h [of b a] by simp
  show "(65536 * a + 256 * b + c) mod 256 = c" unfolding t(2) using assms h [of c "256 * a + b"] by simp
qed

lemma char_of_code: "n mod 256 = of_char c \<Longrightarrow> char_of (n :: nat) = c"
  by (metis char_of_char char_of_mod_256)

lemma decode_quad: "base64_decode (quad a b c @ r) = a # b # c # base64_decode r"
proof -
  let ?t = "65536 * of_char a + 256 * of_char b + of_char c :: nat"
  have b: "(of_char a :: nat) < 256" "(of_char b :: nat) < 256" "(of_char c :: nat) < 256"
    by (rule nat_of_char_less_256)+
  then have "?t < 16777216" by linarith
  note v = digits_64 [OF this] and d = digits_256 [OF b]
  have "char_of (?t div 65536) = a" "char_of (?t div 256) = b" "char_of ?t = c"
    by (rule char_of_code, simp only: d of_char_mod_256)+
  moreover have "(2 :: nat) ^ 18 = 262144" "(2 :: nat) ^ 12 = 4096" "(2 :: nat) ^ 6 = 64"
    by simp_all
  ultimately show ?thesis
    by (simp only: quad_def Let_def append.simps base64_decode.simps sextet_value_sextet unat_triple
          power_0 div_by_1 v)
qed

lemma octet_Cons [simp]: "octet (c # r) i = (of_char c, r, i + 1)"
  by (simp add: octet_def)

lemma octet_Nil [simp]: "octet [] i = (of_char NUL, [], i)"
  by (simp add: octet_def)

lemma base64_loop_simps:
  "base64_loop n i [] = []"
  "i + 1 = n \<Longrightarrow> base64_loop n i [a] = quad a NUL NUL"
  "i + 2 = n \<Longrightarrow> base64_loop n i [a, b] = quad a b NUL"
  "i + 3 + length r = n \<Longrightarrow>
    base64_loop n i (a # b # c # r) = quad a b c @ base64_loop n (Suc (Suc (Suc i))) r"
  by (subst base64_loop.simps; simp add: quad_def Let_def base64_loop.simps [of n _ "[]"] del: of_char_Char)+

lemma base64_loop_decode:
  "i + length data = n \<Longrightarrow>
   base64_decode (base64_loop n i data) = data @ replicate ((3 - length data mod 3) mod 3) NUL \<and>
   set (base64_loop n i data) \<subseteq> set base64_table \<and>
   length (base64_loop n i data) = 4 * ((length data + 2) div 3)"
proof (induction "length data" arbitrary: data i rule: less_induct)
  case less
  have q: "base64_decode (quad a b c) = [a, b, c]" for a b c
    using decode_quad [of a b c "[]"] by simp
  have s: "set (quad a b c) \<subseteq> set base64_table" "length (quad a b c) = 4" for a b c
    by (simp_all add: quad_def Let_def sextet_in_table)
  consider "data = []" | a where "data = [a]" | a b where "data = [a, b]"
    | a b c r where "data = a # b # c # r"
    by (metis list.exhaust)
  then show ?case
  proof cases
    case 4
    then have "base64_loop n i data = quad a b c @ base64_loop n (Suc (Suc (Suc i))) r"
      using less.prems by (simp add: base64_loop_simps)
    moreover have "(length data + 2) div 3 = Suc ((length r + 2) div 3)"
      unfolding 4 list.size by presburger
    ultimately show ?thesis
      using less.hyps [of r "Suc (Suc (Suc i))"] less.prems 4 s by (simp add: decode_quad)
  qed (use less.prems q s in \<open>simp_all add: base64_loop_simps numeral_2_eq_2\<close>)
qed

lemma base64_facts:
  "base64_decode (base64_encode data) = data @ replicate ((3 - length data mod 3) mod 3) NUL"
  "set (base64_encode data) \<subseteq> set base64_table"
  "length (base64_encode data) = 4 * ((length data + 2) div 3)"
  using base64_loop_decode [of 0 data "length data"] by (simp_all add: base64_encode_def)

lemma cstr_padded: "plain s \<Longrightarrow> c_text (s @ replicate k NUL) = s"
  by (induction s) (auto simp: c_text_def takeWhile_eq_Nil_iff hd_replicate)

lemma base64_inj:
  assumes "plain s" "plain t" "base64_encode s = base64_encode t"
  shows "s = t"
  using assms cstr_padded base64_facts(1) by metis

text \<open>Decoding gives the encoded text back, filled up with NULs to a multiple of three, in a result
  of the length the code reserves. No padding character is ever written: the two tests for it compare
  with an index that does not pass the end of the text.\<close>

theorem base64_roundtrip:
  "base64_decode (base64_encode data) = data @ replicate ((3 - length data mod 3) mod 3) NUL \<and>
   length (base64_encode data) = 4 * ((length data + 2) div 3) \<and> CHR ''='' \<notin> set (base64_encode data)"
  using base64_facts [of data] base64_table_facts(3) by auto

section \<open>Setup and login\<close>

text \<open>What can be typed as one line for a buffer of \<open>n\<close> bytes.\<close>

definition typeable :: "nat \<Rightarrow> string \<Rightarrow> bool" where
  "typeable n l \<longleftrightarrow> plain l \<and> CHR 0x0A \<notin> set l \<and> CHR 0x0D \<notin> set l \<and> length l + 1 < n"

lemma read_typeable:
  "typeable n l \<Longrightarrow> typed s = l @ nl @ rest \<Longrightarrow> read_line n s = Some (l @ nl, s\<lparr>typed := rest\<rparr>)"
  "typeable n l \<Longrightarrow> strip_newline (l @ nl) = l"
  by (simp_all add: typeable_def read_line_typed strip_newline_line)

lemma say_typed [simp]: "put q (s\<lparr>typed := t\<rparr>) = (put q s)\<lparr>typed := t\<rparr>"
  by (simp add: put_def)

lemma line_part_whole: "CHR 0x0A \<notin> set s \<Longrightarrow> length s \<le> n \<Longrightarrow> line_part n s = s"
  by (induction n s rule: line_part.induct) auto

lemma fgets_whole:
  "s \<noteq> [] \<Longrightarrow> plain s \<Longrightarrow> CHR 0x0A \<notin> set s \<Longrightarrow> length s < n \<Longrightarrow> fgets n s = Some (s, [])"
  using line_part_whole [of s "n - 1"] by (cases s) (auto simp: fgets_def Let_def)

lemma credentials_short:
  "length u < 64 \<Longrightarrow> length pw < 64 \<Longrightarrow> credentials u pw = u @ '':'' @ pw"
  by (simp add: credentials_def cut_def)

lemma login_round_password:
  assumes p: "typed s = p @ nl @ rest" "typeable 64 p"
    and u: "typeable 64 u" "typeable 64 pw"
    and stored: "read_file os (auth_file u) (world s) = Inr (base64_encode (credentials u pw))"
  defines "s' \<equiv> put (nl @ ''Password for '' @ u @ '': '') s\<lparr>typed := rest\<rparr>"
  shows "login_round os u s =
    (if p = [] \<or> p = pw then after_shell (run_shell os u s')
     else Some (Next (put (''Incorrect password.'' @ nl) s')))"
proof -
  let ?e = "base64_encode (credentials u pw)"
  have c: "credentials u q = u @ '':'' @ q" if "typeable 64 q" for q
    using u that by (intro credentials_short) (auto simp: typeable_def)
  have pl: "plain (u @ '':'' @ q)" if "typeable 64 q" for q
    using u that by (auto simp: typeable_def)
  have ep: "plain (base64_encode d)" "CHR 0x0A \<notin> set (base64_encode d)" for d
    using base64_facts(2) [of d] base64_table_facts by (auto simp: plain_def)
  have "length ?e < 256" "?e \<noteq> []"
    using base64_facts(3) [of "credentials u pw"] u
    by (auto simp: c typeable_def simp flip: length_0_conv)
  then have f: "fgets 256 ?e = Some (?e, [])" using ep by (intro fgets_whole)
  have "(str_cmp ?e (base64_encode (credentials u p)) = 0) = (p = pw)"
    using base64_inj [of "u @ '':'' @ pw" "u @ '':'' @ p"] c pl p(2) u(2) by (auto simp: str_cmp_0 ep)
  moreover have "read_line 64 (put q s) = Some (p @ nl, put q s\<lparr>typed := rest\<rparr>)" "strip_newline (p @ nl) = p" for q
    using read_typeable(1) [OF p(2), of "put q s"] read_typeable(2) [OF p(2)] p(1) by simp_all
  ultimately show ?thesis
    using stored f by (cases "p = pw"; simp add: login_round_def s'_def Let_def)
qed

text \<open>What setup needs of the system: the two files it writes can be written and read back, and are
  different files.\<close>

definition keeps_account :: "'w posix \<Rightarrow> string \<Rightarrow> bool" where
  "keeps_account os u \<longleftrightarrow>
     (\<forall>str w. read_file os (auth_file u) (write_text os (auth_file u) str w) = Inr str) \<and>
     (\<forall>str w. read_file os SETUP_MARKER (write_text os SETUP_MARKER str w) = Inr str) \<and>
     (\<forall>str w. read_file os (auth_file u) (write_text os SETUP_MARKER str w) = read_file os (auth_file u) w)"

lemma store_account_kept:
  "keeps_account os u \<Longrightarrow>
   read_file os (auth_file u) (store_account os u pw w) = Inr (base64_encode (credentials u pw)) \<and>
   read_file os SETUP_MARKER (store_account os u pw w) = Inr u"
  by (simp add: keeps_account_def store_account_def Let_def)

lemma first_setup_typed:
  assumes "typed s = u @ nl @ pw @ nl @ rest" "typeable 64 u" "typeable 64 pw" "u \<noteq> []"
  shows "\<exists>s'. first_setup os s = Some (u, s') \<and> typed s' = rest \<and> world s' = store_account os u pw (world s)"
proof -
  have "read_line 64 (put q s) = Some (u @ nl, (put q s)\<lparr>typed := pw @ nl @ rest\<rparr>)"
    "read_line 64 ((put q s)\<lparr>typed := pw @ nl @ rest\<rparr>) = Some (pw @ nl, (put q s)\<lparr>typed := rest\<rparr>)" for q
    using read_typeable(1) [OF assms(2), of "put q s"] assms(1)
      read_typeable(1) [OF assms(3), of "(put q s)\<lparr>typed := pw @ nl @ rest\<rparr>"] by simp_all
  then show ?thesis
    using assms(4) read_typeable(2) [OF assms(2)] read_typeable(2) [OF assms(3)]
    by (simp add: first_setup_def Let_def ask_username.simps [of "put _ _"])
qed



end
