(* ===== verification/Wget.thy ===== *)
theory Wget
  imports Fileutils
begin

text \<open>
  The downloader, \<^verbatim>\<open>NoneCompiled/wget.c\<close>: URL parsing, options, connection, and separation of the
  header of a reply from its body. Name resolution, sockets and the TLS library are parameters (record
  \<^verbatim>\<open>net\<close>): what successive reads of the connection deliver, and what the library says of the
  certificate chain. The buffer of the read loop and the stack behind it hold arbitrary bytes at first.
\<close>

section \<open>URLs\<close>

text \<open>The result: whether the scheme is https, the host, the port and the path.\<close>

definition scheme_of :: "string \<Rightarrow> bool \<times> string \<times> string" where
  "scheme_of p =
     (if take 8 p = ''https://'' then (True, ''443'', drop 8 p)
      else if take 7 p = ''http://'' then (False, ''80'', drop 7 p)
      else (True, ''443'', p))"

definition parse_url :: "string \<Rightarrow> nat \<Rightarrow> nat \<Rightarrow> nat \<Rightarrow> bool \<times> string \<times> string \<times> string" where
  "parse_url url max_host max_port max_path =
     (let (is_https, port, p) = scheme_of url;
          slash = strchr p CHR ''/''; colon = strchr p CHR '':'';
          path = cut max_path (case slash of Some n \<Rightarrow> drop n p | None \<Rightarrow> ''/'')
      in case colon of
           Some k \<Rightarrow>
             if (case slash of None \<Rightarrow> True | Some n \<Rightarrow> k < n) then
               let plen = (case slash of Some n \<Rightarrow> n - (k + 1) | None \<Rightarrow> length (drop (k + 1) p))
               in (is_https, cut max_host (take k p), cut max_port (take plen (drop (k + 1) p)), path)
             else (is_https, cut max_host (case slash of Some n \<Rightarrow> take n p | None \<Rightarrow> p), port, path)
         | None \<Rightarrow> (is_https, cut max_host (case slash of Some n \<Rightarrow> take n p | None \<Rightarrow> p), port, path))"

section \<open>Connections\<close>

text \<open>The result of a \<^verbatim>\<open>read\<close> or \<^verbatim>\<open>write\<close>: bytes, interrupted by a signal, or another error.\<close>

datatype io = Bytes string | Interrupted | Failed

text \<open>The callbacks of the TLS library, over the results of successive system calls, with the rest of
  these. \<^term>\<open>None\<close>: the value -1.\<close>

fun sock_read :: "io list \<Rightarrow> string option \<times> io list" where
  "sock_read [] = (None, [])"
| "sock_read (Interrupted # rs) = sock_read rs"
| "sock_read (Failed # rs) = (None, rs)"
| "sock_read (Bytes bs # rs) = (if bs = [] then None else Some bs, rs)"

text \<open>For a write, the bytes are those that were taken.\<close>

fun sock_write :: "io list \<Rightarrow> nat option \<times> io list" where
  "sock_write [] = (None, [])"
| "sock_write (Interrupted # rs) = sock_write rs"
| "sock_write (Failed # rs) = (None, rs)"
| "sock_write (Bytes bs # rs) = (if bs = [] then None else Some (length bs), rs)"

record 'w net =
  resolve :: "string \<Rightarrow> string \<Rightarrow> 'w \<Rightarrow> nat list option"
  socket_ok :: "nat \<Rightarrow> 'w \<Rightarrow> bool"
  connect_ok :: "nat \<Rightarrow> int \<Rightarrow> 'w \<Rightarrow> bool"
  tcp_reply :: "nat \<Rightarrow> string \<Rightarrow> io list"
  chain_result :: "nat \<Rightarrow> string \<Rightarrow> u32"
  tls_reply :: "nat \<Rightarrow> string \<Rightarrow> string \<Rightarrow> string list"
  stack_buf :: string
  stack_beyond :: string

fun connect_loop :: "'w net \<Rightarrow> nat list \<Rightarrow> int \<Rightarrow> 'w \<Rightarrow> nat option" where
  "connect_loop nt [] timeout_sec w = None"
| "connect_loop nt (p # ps) timeout_sec w =
     (if \<not> socket_ok nt p w then connect_loop nt ps timeout_sec w
      else if connect_ok nt p timeout_sec w then Some p
      else connect_loop nt ps timeout_sec w)"

definition host_connect :: "'w net \<Rightarrow> string \<Rightarrow> string \<Rightarrow> int \<Rightarrow> 'w \<Rightarrow> nat option" where
  "host_connect nt host port timeout_sec w =
     (case resolve nt host port w of None \<Rightarrow> None | Some si \<Rightarrow> connect_loop nt si timeout_sec w)"

text \<open>The verdict on the certificate chain that is passed on to the library; 0 is success.\<close>

definition BR_ERR_X509_NOT_TRUSTED :: u32 where
  "BR_ERR_X509_NOT_TRUSTED = 62"

definition xwc_end_chain :: "u32 \<Rightarrow> u32" where
  "xwc_end_chain r = (if r = BR_ERR_X509_NOT_TRUSTED then 0 else r)"

section \<open>The read loop\<close>

abbreviation cr :: char where "cr \<equiv> CHR 0x0D"
abbreviation lf :: char where "lf \<equiv> CHR 0x0A"
abbreviation header_end :: string where "header_end \<equiv> [cr, lf, cr, lf]"

text \<open>Each chunk is read to the start of the buffer. The end of the header is searched up to the first
  NUL, which may lie behind the chunk or behind the buffer. The result is what is written to the file.\<close>

fun receive :: "string \<Rightarrow> string list \<Rightarrow> string \<Rightarrow> bool \<Rightarrow> string" where
  "receive beyond [] buf header_passed = []"
| "receive beyond (chunk # rest) buf header_passed =
     (let n = length chunk; buf = chunk @ drop n buf in
      if \<not> header_passed then
        case strstr (c_text (buf @ beyond)) header_end of
          Some k \<Rightarrow> take (n - (k + 4)) (drop (k + 4) buf) @ receive beyond rest buf True
        | None \<Rightarrow> receive beyond rest buf False
      else chunk @ receive beyond rest buf True)"

text \<open>The plain connection is read until a read delivers nothing or fails.\<close>

fun plain_chunks :: "io list \<Rightarrow> string list" where
  "plain_chunks (Bytes bs # rs) = (if bs = [] then [] else bs # plain_chunks rs)"
| "plain_chunks _ = []"

section \<open>The program\<close>

definition print_usage :: "string \<Rightarrow> string list" where
  "print_usage prog =
     [''JurkOS wget (BearSSL Bare-Metal Edition)'' @ nl,
      ''Usage: '' @ prog @ '' [-q] [-T timeout] [-O output_file] <URL>'' @ nl]"

record wget_options =
  quiet :: bool
  timeout_opt :: int
  output_opt :: "string option"
  url_opt :: "string option"

fun wget_args :: "string list \<Rightarrow> wget_options \<Rightarrow> wget_options" where
  "wget_args [] opts = opts"
| "wget_args (a # rest) opts =
     (if a = ''-q'' then wget_args rest (opts\<lparr>quiet := True\<rparr>)
      else case rest of
        b # rest' \<Rightarrow>
          if a = ''-O'' then wget_args rest' (opts\<lparr>output_opt := Some b\<rparr>)
          else if a = ''-T'' then wget_args rest' (opts\<lparr>timeout_opt := atoi b\<rparr>)
          else wget_args rest (if take 1 a \<noteq> ''-'' then opts\<lparr>url_opt := Some a\<rparr> else opts)
      | [] \<Rightarrow> if take 1 a \<noteq> ''-'' then opts\<lparr>url_opt := Some a\<rparr> else opts)"

definition default_output :: "string \<Rightarrow> string" where
  "default_output path =
     (let name = rev (takeWhile (\<lambda>c. c \<noteq> CHR ''/'') (rev path)) in
      if CHR ''/'' \<in> set path \<and> name \<noteq> [] then name else ''download.bin'')"

definition http_request :: "string \<Rightarrow> string \<Rightarrow> string" where
  "http_request path host = cut 2048
     (''GET '' @ path @ '' HTTP/1.0'' @ [cr, lf] @
      ''Host: '' @ host @ [cr, lf] @
      ''User-Agent: JurkOS-Wget-BearSSL/1.1'' @ [cr, lf] @
      ''Accept: */*'' @ [cr, lf] @
      ''Connection: close'' @ [cr, lf, cr, lf])"

text \<open>What is written to the output file, for either kind of connection.\<close>

definition download :: "'w net \<Rightarrow> nat \<Rightarrow> bool \<Rightarrow> string \<Rightarrow> string \<Rightarrow> string" where
  "download nt fd is_https host req =
     (if \<not> is_https then receive (stack_beyond nt) (plain_chunks (tcp_reply nt fd req)) (stack_buf nt) False
      else if xwc_end_chain (chain_result nt fd host) = 0
      then receive (stack_beyond nt) (tls_reply nt fd host req) (stack_buf nt) False
      else [])"

definition complain :: "bool \<Rightarrow> string \<Rightarrow> 'w session \<Rightarrow> 'w session" where
  "complain quiet_flag str s = (if quiet_flag then s else put str s)"

text \<open>The exit code, and the session after it.\<close>

definition wget_main :: "'w posix \<Rightarrow> 'w net \<Rightarrow> string list \<Rightarrow> 'w session \<Rightarrow> nat \<times> 'w session" where
  "wget_main os nt argv s =
     (let opts = wget_args (tl argv) \<lparr>quiet = False, timeout_opt = 10, output_opt = None, url_opt = None\<rparr>;
          q = quiet opts
      in case url_opt opts of
        None \<Rightarrow> (1, fputs_all (print_usage (hd argv)) s)
      | Some url \<Rightarrow>
          let (is_https, host, port, path) = parse_url url 256 16 1024;
              output_file = (case output_opt opts of Some f \<Rightarrow> f | None \<Rightarrow> default_output path);
              s = complain q (''Connecting to '' @ host @ '' ('' @ (if is_https then ''https'' else ''http'') @ '':'' @
                              port @ '')...'' @ nl) s
          in case host_connect nt host port (timeout_opt opts) (world s) of
            None \<Rightarrow> (2, complain q (''wget: failed to connect to '' @ host @ '':'' @ port @ nl) s)
          | Some fd \<Rightarrow>
              (case create_file os output_file (world s) of
                 Inl e \<Rightarrow> (3, complain q (''wget: cannot open output file '' @ output_file @ '': '' @
                                        strerror os e @ nl) s)
               | Inr w \<Rightarrow>
                   let body = download nt fd is_https host (http_request path host);
                       s = s\<lparr>world := append_file os output_file body w\<rparr>
                   in if body = [] then
                        let s = complain q (''wget: downloaded 0 bytes from '' @ url @ nl) s
                        in (4, s\<lparr>world := snd (sys_unlink os output_file (world s))\<rparr>)
                      else (0, complain q ([CHR ''['', CHR 0xE2, CHR 0x9C, CHR 0x93, CHR '']''] @
                              '' Successfully saved to '' @ [quote] @ output_file @ [quote] @ '' ('' @
                              show_nat (length body) @ '' bytes)'' @ nl) s)))"

section \<open>Facts\<close>

lemma strchr_None: "strchr s c = None \<longleftrightarrow> c \<notin> set s"
  by (induction s) auto

lemma strchr_append: "c \<notin> set s \<Longrightarrow> strchr (s @ c # t) c = Some (length s)"
  by (induction s) auto

lemma strchr_append2: "c \<notin> set s \<Longrightarrow> strchr (s @ t) c = map_option (\<lambda>k. length s + k) (strchr t c)"
  by (cases "strchr t c"; induction s) auto

text \<open>A URL put together from its parts.\<close>

definition render_url :: "bool \<Rightarrow> string \<Rightarrow> string option \<Rightarrow> string \<Rightarrow> string" where
  "render_url is_https host port path =
     (if is_https then ''https://'' else ''http://'') @ host @
     (case port of None \<Rightarrow> [] | Some p \<Rightarrow> CHR '':'' # p) @ path"

definition url_parts :: "string \<Rightarrow> string option \<Rightarrow> string \<Rightarrow> bool" where
  "url_parts host port path \<longleftrightarrow>
     CHR ''/'' \<notin> set host \<and> CHR '':'' \<notin> set host \<and> length host < 256 \<and>
     (\<forall>p. port = Some p \<longrightarrow> CHR ''/'' \<notin> set p \<and> length p < 16) \<and>
     (path = [] \<or> (hd path = CHR ''/'' \<and> length path < 1024))"

lemma scheme_of_render: "scheme_of (render_url h host port path) =
  (h, if h then ''443'' else ''80'', host @ (case port of None \<Rightarrow> [] | Some p \<Rightarrow> CHR '':'' # p) @ path)"
  by (simp add: scheme_of_def render_url_def)

text \<open>Parsing a URL gives back the scheme, host, port and path it was put together from; the port
  of the scheme where none is given, the root where there is no path.\<close>

theorem parse_url_roundtrip:
  assumes "url_parts host port path"
  shows "parse_url (render_url h host port path) 256 16 1024 =
    (h, host, case port of Some p \<Rightarrow> p | None \<Rightarrow> if h then ''443'' else ''80'',
     if path = [] then ''/'' else path)"
proof (cases path)
  case Nil
  then show ?thesis
    using assms
    by (auto simp: parse_url_def scheme_of_render url_parts_def fits_short strchr_append strchr_append2
          strchr_None [THEN iffD2] split: option.split)
next
  case (Cons c r)
  then have "path = CHR ''/'' # r" using assms by (simp add: url_parts_def)
  then show ?thesis
    using assms
    by (cases port; cases "strchr r CHR '':''")
       (auto simp: parse_url_def scheme_of_render url_parts_def fits_short strchr_append strchr_append2
          strchr_None [THEN iffD2] Let_def)
qed

theorem parse_url_roundtrip_witness:
  "parse_url ''http://example.org:8080/a/b'' 256 16 1024 = (False, ''example.org'', ''8080'', ''/a/b'')"
  using parse_url_roundtrip [of "''example.org''" "Some ''8080''" "''/a/b''" False]
  by (simp add: url_parts_def render_url_def)

section \<open>Downloads\<close>

text \<open>A header with its closing empty line: no earlier place of the text ends it.\<close>

definition header :: "string \<Rightarrow> bool" where
  "header h \<longleftrightarrow> plain h \<and> (\<forall>k<length h. take 4 (drop k (h @ header_end)) \<noteq> header_end)"

lemma strstr_header:
  assumes "\<forall>k<length h. take 4 (drop k (h @ header_end)) \<noteq> header_end"
  shows "strstr (h @ header_end @ t) header_end = Some (length h)"
  using assms
proof (induction h)
  case Nil
  show ?case by (simp add: strstr.simps)
next
  case (Cons c h)
  have "n \<le> length u \<Longrightarrow> take n (u @ t) = take n u" for n and u :: string by simp
  from this [of 4 "(c # h) @ header_end"]
  have "take 4 ((c # h) @ header_end @ t) = take 4 ((c # h) @ header_end)" by simp
  then have "take 4 ((c # h) @ header_end @ t) \<noteq> header_end"
    using Cons.prems [rule_format, of 0] by simp
  moreover have "\<forall>k<length h. take 4 (drop k (h @ header_end)) \<noteq> header_end"
    using Cons.prems by (metis Suc_less_eq append_Cons drop_Suc_Cons length_Cons)
  ultimately show ?case using Cons.IH
    by (simp add: strstr.simps [of "c # h @ cr # lf # cr # lf # t"] numeral_3_eq_3)
qed

lemma receive_passed: "receive beyond chunks buf True = concat chunks"
  by (induction beyond chunks buf True rule: receive.induct) (simp_all add: Let_def)

lemma cstr_append: "plain s \<Longrightarrow> c_text (s @ t) = s @ c_text t"
  by (simp add: c_text_def plain_def takeWhile_append)

lemma receive_header:
  assumes "header h" "length (h @ header_end @ b) \<le> length buf"
  shows "receive beyond ((h @ header_end @ b) # rest) buf False = b @ concat rest"
proof -
  let ?c = "h @ header_end @ b"
  have "plain (h @ header_end)" using assms(1) by (simp add: header_def)
  then have "c_text ((h @ header_end) @ t) = (h @ header_end) @ c_text t" for t
    by (rule cstr_append)
  then have "strstr (c_text ((?c @ drop (length ?c) buf) @ beyond)) header_end = Some (length h)"
    using strstr_header [of h] assms(1) by (simp add: header_def)
  then show ?thesis by (simp add: receive_passed Let_def)
qed

text \<open>A quiet run over a plain connection up to the transfer: the options name an output file, the host
  answers, the file can be created.\<close>

definition plain_run ::
    "'w posix \<Rightarrow> 'w net \<Rightarrow> string list \<Rightarrow> 'w session \<Rightarrow> string \<Rightarrow> 'w \<Rightarrow> string list \<Rightarrow> bool" where
  "plain_run os nt argv s f w chunks \<longleftrightarrow>
     (\<exists>t url host port path fd.
        wget_args (tl argv) \<lparr>quiet = False, timeout_opt = 10, output_opt = None, url_opt = None\<rparr> =
          \<lparr>quiet = True, timeout_opt = t, output_opt = Some f, url_opt = Some url\<rparr> \<and>
        parse_url url 256 16 1024 = (False, host, port, path) \<and>
        host_connect nt host port t (world s) = Some fd \<and> create_file os f (world s) = Inr w \<and>
        plain_chunks (tcp_reply nt fd (http_request path host)) = chunks)"

lemma plain_run_main:
  assumes "plain_run os nt argv s f w chunks"
    and "receive (stack_beyond nt) chunks (stack_buf nt) False = body"
  shows "wget_main os nt argv s =
    (if body = [] then (4, s\<lparr>world := snd (sys_unlink os f (append_file os f [] w))\<rparr>)
     else (0, s\<lparr>world := append_file os f body w\<rparr>))"
  using assms unfolding plain_run_def
  by (elim exE) (simp add: wget_main_def download_def complain_def Let_def)


lemma cstr_zeros: "plain s \<Longrightarrow> 0 < n \<Longrightarrow> c_text (s @ replicate n NUL @ t) = s"
  by (cases n) (simp_all add: cstr_append, simp add: c_text_def)

lemma receive_no_header:
  assumes "plain u" "plain v" "length u \<le> length v" "length v < n"
    and "strstr u header_end = None" "strstr v header_end = None"
  shows "receive beyond [u, v] (replicate n NUL) False = []"
proof -
  have "c_text ((u @ drop (length u) (replicate n NUL)) @ beyond) = u"
    using assms cstr_zeros [of u "n - length u" beyond] by simp
  moreover have "drop (length v) (u @ drop (length u) (replicate n NUL)) = replicate (n - length v) NUL"
    using assms by simp
  moreover have "c_text ((v @ replicate (n - length v) NUL) @ beyond) = v"
    using assms cstr_zeros [of v "n - length v" beyond] by simp
  ultimately show ?thesis using assms(5,6) by (simp add: Let_def del: append_assoc)
qed

text \<open>When the empty line that ends the header is divided between two reads it is not found: the
  body is dropped, the file removed, and the run reported as a download without bytes.\<close>

theorem wget_loses_split_header:
  assumes "plain_run os nt argv s f w [h @ [cr, lf], [cr, lf] @ b]"
    and "plain h" "plain b" and "length h \<le> length b" and "length b + 2 < 4096"
    and "strstr (h @ [cr, lf]) header_end = None" and "strstr ([cr, lf] @ b) header_end = None"
    and "stack_buf nt = replicate 4096 NUL"
  shows "wget_main os nt argv s = (4, s\<lparr>world := snd (sys_unlink os f (append_file os f [] w))\<rparr>)"
proof -
  have "receive (stack_beyond nt) [h @ [cr, lf], [cr, lf] @ b] (stack_buf nt) False = []"
    unfolding assms(8) using assms(2-7) by (intro receive_no_header) auto
  from plain_run_main [OF assms(1) this] show ?thesis by simp
qed

text \<open>A host that answers with the given reads.\<close>

definition net_with :: "io list \<Rightarrow> 'w net" where
  "net_with reads =
     \<lparr>resolve = (\<lambda>h p w. Some [0]), socket_ok = (\<lambda>a w. True), connect_ok = (\<lambda>a t w. True),
      tcp_reply = (\<lambda>fd req. reads), chain_result = (\<lambda>fd h. 62), tls_reply = (\<lambda>fd h req. []),
      stack_buf = replicate 4096 NUL, stack_beyond = []\<rparr>"

lemma sample_run:
  "plain_chunks reads = chunks \<Longrightarrow>
   plain_run map_posix (net_with reads) [''wget'', ''-q'', ''-O'', ''out'', ''http://h/x'']
     \<lparr>typed = [], printed = [], world = Map.empty\<rparr> ''out'' [''out'' \<mapsto> []] chunks"
  by (simp add: plain_run_def parse_url_def scheme_of_def Let_def host_connect_def net_with_def map_posix_def
        cut_def)


theorem wget_loses_split_header_witness:
  "wget_main map_posix (net_with [Bytes (''HTTP/1.0 200'' @ [cr, lf]), Bytes ([cr, lf] @ ''the whole body'')])
     [''wget'', ''-q'', ''-O'', ''out'', ''http://h/x''] \<lparr>typed = [], printed = [], world = Map.empty\<rparr> =
   (4, \<lparr>typed = [], printed = [], world = Map.empty\<rparr>)"
proof -
  let ?nt = "net_with [Bytes (''HTTP/1.0 200'' @ [cr, lf]), Bytes ([cr, lf] @ ''the whole body'')]"
  have "strstr (''HTTP/1.0 200'' @ [cr, lf]) header_end = None"
    "strstr ([cr, lf] @ ''the whole body'') header_end = None"
    by (simp_all add: strstr.simps)
  moreover have "plain_run map_posix ?nt [''wget'', ''-q'', ''-O'', ''out'', ''http://h/x'']
     \<lparr>typed = [], printed = [], world = Map.empty\<rparr> ''out'' [''out'' \<mapsto> []]
     [''HTTP/1.0 200'' @ [cr, lf], [cr, lf] @ ''the whole body'']"
    by (rule sample_run) simp
  moreover have "stack_buf ?nt = replicate 4096 NUL" by (simp add: net_with_def)
  ultimately show ?thesis
    using wget_loses_split_header [of map_posix ?nt "[''wget'', ''-q'', ''-O'', ''out'', ''http://h/x'']"
        "\<lparr>typed = [], printed = [], world = Map.empty\<rparr>" "''out''" "[''out'' \<mapsto> []]" "''HTTP/1.0 200''" "''the whole body''"]
    by (simp add: map_posix_def)
qed

end
