(* ===== verification/Jurkstore.thy ===== *)
theory Jurkstore
  imports Fileutils
begin

text \<open>
  The package manager, \<^verbatim>\<open>NoneCompiled/jurkstore.c\<close>: the catalog of packages, the metadata files, installation
  and removal, and the interactive list. The catalog is the list \<open>apps\<close>, its length the code's
  \<^verbatim>\<open>app_count\<close>; the commands run through \<^verbatim>\<open>system\<close> are parameters. Memory is taken to be available.
\<close>

section \<open>State\<close>

record app_entry =
  ap_id :: string
  ap_name :: string
  ap_version :: string
  ap_author :: string
  ap_description :: string
  ap_download :: string
  ap_installed :: bool
  ap_local :: bool

record 'w store =
  ses :: "'w session"
  apps :: "app_entry list"
  raw_mode :: bool

definition MAX_APPS :: nat where "MAX_APPS = 64"

definition APPS_DIR :: string where "APPS_DIR = ''/usr/apps''"

definition REPO_BASE :: string where
  "REPO_BASE = ''https://raw.githubusercontent.com/AmineTheJurk/JurkStore-Apps/main''"

definition LOCAL_APPS_DIR :: string where "LOCAL_APPS_DIR = ''/usr/share/jurkstore/apps''"

abbreviation count_apps :: "'w store \<Rightarrow> int" where
  "count_apps s \<equiv> int (length (apps s))"

definition emit :: "string list \<Rightarrow> 'w store \<Rightarrow> 'w store" where
  "emit strs s = s\<lparr>ses := fputs_all strs (ses s)\<rparr>"

definition on_world :: "('w \<Rightarrow> 'w) \<Rightarrow> 'w store \<Rightarrow> 'w store" where
  "on_world f s = s\<lparr>ses := (ses s)\<lparr>world := f (world (ses s))\<rparr>\<rparr>"

text \<open>A command line put together in a buffer of \<open>n\<close> bytes; whether it succeeded.\<close>

definition run_cmd :: "'w posix \<Rightarrow> nat \<Rightarrow> string \<Rightarrow> 'w store \<Rightarrow> bool \<times> 'w store" where
  "run_cmd os n cmd s = (let (ok, t) = sys_system os (cut n cmd) (ses s) in (ok, s\<lparr>ses := t\<rparr>))"

definition press_key :: "'w store \<Rightarrow> int \<times> 'w store" where
  "press_key s = (let (c, t) = getkey (ses s) in (c, s\<lparr>ses := t\<rparr>))"

fun safe_strcpy :: "string \<Rightarrow> nat \<Rightarrow> string" where
  "safe_strcpy [] dest_size = []"
| "safe_strcpy (c # src) dest_size = (if 1 < dest_size then c # safe_strcpy src (dest_size - 1) else [])"

section \<open>Terminal\<close>

definition disable_raw_mode :: "'w store \<Rightarrow> 'w store" where
  "disable_raw_mode s = (if raw_mode s then (emit [csi ''?25h''] s)\<lparr>raw_mode := False\<rparr> else s)"

definition enable_raw_mode :: "'w posix \<Rightarrow> 'w store \<Rightarrow> 'w store" where
  "enable_raw_mode os s =
     (if has_tty os (world (ses s)) then emit [csi ''?25l''] (s\<lparr>raw_mode := True\<rparr>) else s)"

text \<open>The process ends after it.\<close>

definition handle_signal :: "'w store \<Rightarrow> 'w store" where
  "handle_signal s = emit [nl @ csi ''0m'' @ ''Exiting JurkStore.'' @ nl] (disable_raw_mode s)"

section \<open>Packages on the machine\<close>

definition is_app_installed :: "'w posix \<Rightarrow> string \<Rightarrow> 'w \<Rightarrow> bool" where
  "is_app_installed os name w =
     (name \<noteq> [] \<and>
      ((case sys_stat os (cut 512 (APPS_DIR @ ''/'' @ name @ ''/'' @ name)) w of
          Inl e \<Rightarrow> False | Inr st \<Rightarrow> st_kind st = S_REG \<and> st_mode st AND 0x40 \<noteq> 0) \<or>
       (case sys_stat os (cut 512 (''/bin/'' @ name)) w of
          Inl e \<Rightarrow> False | Inr st \<Rightarrow> st_mode st AND 0x40 \<noteq> 0)))"

definition larger_than :: "'w posix \<Rightarrow> string \<Rightarrow> nat \<Rightarrow> 'w \<Rightarrow> bool" where
  "larger_than os path n w = (case sys_stat os path w of Inl e \<Rightarrow> False | Inr st \<Rightarrow> n < st_size st)"

definition check_local_binary :: "'w posix \<Rightarrow> string \<Rightarrow> string \<Rightarrow> 'w \<Rightarrow> string option" where
  "check_local_binary os folder_id app_name w =
     find (\<lambda>candidate. larger_than os candidate 1000 w)
       [cut 512 (LOCAL_APPS_DIR @ ''/'' @ folder_id @ ''/'' @ app_name @ ''.bk''),
        cut 512 (LOCAL_APPS_DIR @ ''/'' @ folder_id @ ''/'' @ folder_id @ ''.bk''),
        cut 512 (LOCAL_APPS_DIR @ ''/'' @ folder_id @ ''/'' @ app_name)]"

section \<open>Metadata\<close>

definition strip_tail :: "char list \<Rightarrow> string \<Rightarrow> string" where
  "strip_tail cs str = rev (dropWhile (\<lambda>c. c \<in> set cs) (rev str))"

definition extract_tag_value :: "string \<Rightarrow> string \<Rightarrow> nat \<Rightarrow> string" where
  "extract_tag_value xml tag dest_size =
     (let open_tag = cut 64 (''<'' @ tag @ ''>''); close_tag = cut 64 (''</'' @ tag @ ''>'') in
      case strstr xml open_tag of
        None \<Rightarrow> []
      | Some k \<Rightarrow>
          let start = drop (k + length open_tag) xml in
          (case strstr start close_tag of
             None \<Rightarrow> []
           | Some len \<Rightarrow>
               strip_tail [CHR 0x0D, CHR 0x0A, CHR 0x20]
                 (take (if len \<ge> dest_size then dest_size - 1 else len) start)))"

definition new_entry ::
    "'w posix \<Rightarrow> string \<Rightarrow> string \<Rightarrow> string \<Rightarrow> string \<Rightarrow> string \<Rightarrow> string \<Rightarrow> 'w \<Rightarrow> app_entry" where
  "new_entry os app_id name ver author description download w =
     \<lparr>ap_id = safe_strcpy app_id 64, ap_name = safe_strcpy name 64, ap_version = safe_strcpy ver 32,
      ap_author = safe_strcpy author 64, ap_description = safe_strcpy description 256,
      ap_download = safe_strcpy download 512, ap_installed = is_app_installed os name w,
      ap_local = (check_local_binary os app_id name w \<noteq> None)\<rparr>"

text \<open>The first entry with the name or the folder is replaced; otherwise the new one goes to the end, if
  there is room.\<close>

fun put_app :: "string \<Rightarrow> string \<Rightarrow> app_entry \<Rightarrow> app_entry list \<Rightarrow> app_entry list option" where
  "put_app app_id name new [] = None"
| "put_app app_id name new (a # as) =
     (if ap_name a = name \<or> ap_id a = app_id then Some (new # as) else map_option ((#) a) (put_app app_id name new as))"

definition add_or_update_app ::
    "'w posix \<Rightarrow> string \<Rightarrow> string \<Rightarrow> string \<Rightarrow> string \<Rightarrow> string \<Rightarrow> string \<Rightarrow> 'w store \<Rightarrow> 'w store" where
  "add_or_update_app os app_id name ver author description download s =
     (let new = new_entry os app_id name ver author description download (world (ses s)) in
      case put_app app_id name new (apps s) of
        Some as \<Rightarrow> s\<lparr>apps := as\<rparr>
      | None \<Rightarrow> if length (apps s) \<ge> MAX_APPS then s else s\<lparr>apps := apps s @ [new]\<rparr>)"

definition parse_meta_xml_buffer :: "'w posix \<Rightarrow> string \<Rightarrow> string \<Rightarrow> 'w store \<Rightarrow> 'w store" where
  "parse_meta_xml_buffer os folder_id xml_content s =
     (let name = extract_tag_value xml_content ''name'' 64;
          ver = extract_tag_value xml_content ''version'' 32;
          author = extract_tag_value xml_content ''author'' 64;
          desc = extract_tag_value xml_content ''description'' 256;
          dl = extract_tag_value xml_content ''download'' 512;
          name = (if name = [] then safe_strcpy folder_id 64 else name);
          dl = (if dl = [] then cut 512 (REPO_BASE @ ''/apps/'' @ folder_id @ ''/'' @ name @ ''.bk'') else dl)
      in add_or_update_app os folder_id name ver author desc dl s)"

text \<open>A metadata file below the given size is parsed up to its first NUL.\<close>

definition parse_meta_file :: "'w posix \<Rightarrow> nat \<Rightarrow> string \<Rightarrow> string \<Rightarrow> 'w store \<Rightarrow> 'w store" where
  "parse_meta_file os limit folder_id path s =
     (case read_file os path (world (ses s)) of
        Inl e \<Rightarrow> s
      | Inr content \<Rightarrow>
          if 0 < length content \<and> length content < limit
          then parse_meta_xml_buffer os folder_id (c_text content) s else s)"

primrec scan_loop :: "'w posix \<Rightarrow> string list \<Rightarrow> 'w store \<Rightarrow> 'w store" where
  "scan_loop os [] s = s"
| "scan_loop os (name # rest) s =
     scan_loop os rest
       (if take 1 name = ''.'' then s
        else parse_meta_file os 32768 name (cut 512 (APPS_DIR @ ''/'' @ name @ ''/meta.xml'')) s)"

definition scan_installed_apps :: "'w posix \<Rightarrow> 'w store \<Rightarrow> 'w store" where
  "scan_installed_apps os s =
     (case list_dir os APPS_DIR (world (ses s)) of Inl e \<Rightarrow> s | Inr names \<Rightarrow> scan_loop os names s)"

definition populate_defaults :: "'w posix \<Rightarrow> 'w store \<Rightarrow> 'w store" where
  "populate_defaults os s = scan_installed_apps os (s\<lparr>apps := []\<rparr>)"

section \<open>The remote catalog\<close>

text \<open>The address of a catalog entry and the folder name it implies.\<close>

definition entry_url :: "string \<Rightarrow> string \<times> string" where
  "entry_url entry =
     (let dollar = [CHR 0x24] in
      if take 6 entry = dollar @ ''repo/'' then (cut 512 (REPO_BASE @ ''/'' @ drop 6 entry), [])
      else if take 5 entry = dollar @ ''repo'' then (cut 512 (REPO_BASE @ drop 5 entry), [])
      else if take 7 entry = ''http://'' \<or> take 8 entry = ''https://'' then (safe_strcpy entry 512, [])
      else if take 5 entry = ''apps/'' then (cut 512 (REPO_BASE @ ''/'' @ entry), [])
      else (cut 512 (REPO_BASE @ ''/apps/'' @ entry @ ''/meta.xml''), safe_strcpy entry 64))"

definition folder_of_url :: "string \<Rightarrow> string" where
  "folder_of_url url =
     (case strstr url ''apps/'' of
        None \<Rightarrow> []
      | Some k \<Rightarrow>
          let p = drop (k + 5) url in
          (case strchr p CHR ''/'' of None \<Rightarrow> [] | Some flen \<Rightarrow> take (if flen \<ge> 64 then 63 else flen) p))"

definition dq :: "string \<Rightarrow> string" where
  "dq str = [CHR 0x22] @ str @ [CHR 0x22]"

definition wget_cmd :: "string \<Rightarrow> string \<Rightarrow> string \<Rightarrow> string" where
  "wget_cmd opts path url =
     ''/bin/wget '' @ opts @ '' -O '' @ dq path @ '' '' @ dq url @ '' 2>/dev/null || wget '' @ opts @ '' -O '' @
     dq path @ '' '' @ dq url @ '' 2>/dev/null''"

definition fetch_meta_from_entry :: "'w posix \<Rightarrow> string \<Rightarrow> 'w store \<Rightarrow> 'w store" where
  "fetch_meta_from_entry os entry s =
     (let (url, folder_id) = entry_url entry;
          folder_id = (if folder_id = [] then folder_of_url url else folder_id);
          folder_id = (if folder_id = [] then ''app'' else folder_id);
          tmp_path = cut 256 (''/tmp/meta_'' @ folder_id @ ''.xml'');
          (ok, s) = run_cmd os 1024 (wget_cmd ''-q -T 6'' tmp_path url) s
      in if ok then
           on_world (\<lambda>w. snd (sys_unlink os tmp_path w)) (parse_meta_file os 65536 folder_id tmp_path s)
         else s)"

definition refresh_states :: "'w posix \<Rightarrow> 'w store \<Rightarrow> 'w store" where
  "refresh_states os s =
     (let w = world (ses s) in
      s\<lparr>apps := map (\<lambda>a. a\<lparr>ap_installed := is_app_installed os (ap_name a) w,
                          ap_local := (check_local_binary os (ap_id a) (ap_name a) w \<noteq> None)\<rparr>) (apps s)\<rparr>)"

text \<open>The lines of the two index files; comments begin with a hash sign.\<close>

primrec catalog_loop :: "'w posix \<Rightarrow> string list \<Rightarrow> bool \<Rightarrow> 'w store \<Rightarrow> bool \<times> 'w store" where
  "catalog_loop os [] found_online s = (found_online, s)"
| "catalog_loop os (line # rest) found_online s =
     (let line = strip_tail [CHR 0x0D, CHR 0x0A, CHR 0x20, CHR 0x22] line;
          clean_line = dropWhile (\<lambda>c. c = CHR 0x20 \<or> c = CHR 0x22) line
      in if clean_line \<noteq> [] \<and> hd clean_line \<noteq> CHR 0x23 then
           catalog_loop os rest True
             (fetch_meta_from_entry os clean_line
               (emit [''  '' @ csi ''1;32m'' @ ''->'' @ csi ''0m'' @ '' Syncing manifest: '' @ clean_line @ nl] s))
         else catalog_loop os rest found_online s)"

primrec apps_loop :: "'w posix \<Rightarrow> string list \<Rightarrow> bool \<Rightarrow> 'w store \<Rightarrow> bool \<times> 'w store" where
  "apps_loop os [] found_online s = (found_online, s)"
| "apps_loop os (line # rest) found_online s =
     (let line = strip_tail [CHR 0x0D, CHR 0x0A, CHR 0x20] line in
      if line \<noteq> [] \<and> hd line \<noteq> CHR 0x23 then
        apps_loop os rest True
          (fetch_meta_from_entry os line
            (emit [''  '' @ csi ''1;32m'' @ ''->'' @ csi ''0m'' @ '' Discovered app: '' @ line @ nl] s))
      else apps_loop os rest found_online s)"

definition index_file ::
    "'w posix \<Rightarrow> string \<Rightarrow> string \<Rightarrow> nat \<Rightarrow> (string list \<Rightarrow> bool \<Rightarrow> 'w store \<Rightarrow> bool \<times> 'w store) \<Rightarrow>
     'w store \<Rightarrow> bool \<times> 'w store" where
  "index_file os url tmp n loop s =
     (let (ok, s) = run_cmd os 4096 (wget_cmd ''-q -T 6'' tmp url) s in
      if ok \<and> readable os tmp (world (ses s)) then
        let (found_online, s) = (case read_file os tmp (world (ses s)) of
               Inl e \<Rightarrow> (False, s) | Inr content \<Rightarrow> loop (buffers n content) False s)
        in (found_online, on_world (\<lambda>w. snd (sys_unlink os tmp w)) s)
      else (False, s))"

definition refresh_intro :: "string list" where
  "refresh_intro =
    [csi ''H'' @ csi ''J'',
      csi ''1;36m'' @ ''+==============================================================+'' @ csi ''0m'' @ nl,
      csi ''1;36m'' @ ''|          Connecting to JurkStore GitHub Repository           |'' @ csi ''0m'' @ nl,
      csi ''1;36m'' @ ''+==============================================================+'' @ csi ''0m'' @ nl @
         nl,
      ''  Repository: '' @ csi ''1m'' @ REPO_BASE @ csi ''0m'' @ nl @ nl]"

definition refresh_remote_catalog :: "'w posix \<Rightarrow> 'w store \<Rightarrow> 'w store" where
  "refresh_remote_catalog os s =
     (let s = emit refresh_intro (disable_raw_mode s);
          (found_online, s) = index_file os (REPO_BASE @ ''/catalog.txt'') ''/tmp/jurkstore_catalog.txt'' 256
            (catalog_loop os) s;
          (found_online, s) = (if found_online then (True, s)
            else index_file os (REPO_BASE @ ''/apps.txt'') ''/tmp/jurkstore_apps.txt'' 128 (apps_loop os) s);
          s = (if \<not> found_online then
                 emit [nl @ ''  '' @ csi ''1;33m'' @ ''[!] Remote repository empty or network offline.'' @ csi ''0m'' @ nl,
      ''  Ensure entries are populated in catalog.txt / apps.txt on GitHub.'' @ nl] s
               else
                 emit [nl @ ''  '' @ csi ''1;32m'' @ ''['' @ [CHR 0xE2, CHR 0x9C, CHR 0x93] @
         ''] Successfully synced package index from repository!'' @ csi ''0m'' @ nl] s);
          s = refresh_states os s;
          s = emit [''  Total Packages Available: '' @ csi ''1;32m'' @ show_num (count_apps s) @ csi ''0m'' @ nl,
      nl @ ''Press any key to return to JurkStore...''] s
      in snd (press_key (enable_raw_mode os s)))"

section \<open>Installing and removing\<close>

definition set_installed :: "nat \<Rightarrow> bool \<Rightarrow> 'w store \<Rightarrow> 'w store" where
  "set_installed i b s = s\<lparr>apps := (apps s)[i := (apps s ! i)\<lparr>ap_installed := b\<rparr>]\<rparr>"

definition install_intro :: "app_entry \<Rightarrow> string list" where
  "install_intro app =
    [csi ''H'' @ csi ''J'',
      csi ''1;36m'' @ ''+==============================================================+'' @ csi ''0m'' @ nl,
      csi ''1;36m'' @ ''|                 JurkStore Package Installer                  |'' @ csi ''0m'' @ nl,
      csi ''1;36m'' @ ''+==============================================================+'' @ csi ''0m'' @ nl @
         nl,
      ''  '' @ csi ''1m'' @ ''Package:'' @ csi ''0m'' @ ''       '' @ csi ''1;32m'' @ ap_name app @ '' (v'' @
         ap_version app @ '')'' @ csi ''0m'' @ nl,
      ''  '' @ csi ''1m'' @ ''Author:'' @ csi ''0m'' @ ''        '' @ ap_author app @ nl,
      ''  '' @ csi ''1m'' @ ''Target Dir:'' @ csi ''0m'' @ ''    '' @ APPS_DIR @ ''/'' @ ap_name app @ ''/'' @
         nl,
      ''  '' @ csi ''1m'' @ ''Binary Exec:'' @ csi ''0m'' @ ''   /bin/'' @ ap_name app @ nl @ nl]"

definition install_failed :: "app_entry \<Rightarrow> string list" where
  "install_failed app =
    [nl @ ''  '' @ csi ''1;31m'' @ ''=============================================================='' @
         csi ''0m'' @ nl,
      ''  '' @ csi ''1;31m'' @ ''[ERROR] Installation Failed: Package Binary Not Available!'' @ csi ''0m'' @ nl,
      ''  --------------------------------------------------------------'' @ nl,
      ''  URL: '' @ ap_download app @ nl @ nl,
      ''  '' @ csi ''1m'' @ ''Possible causes:'' @ csi ''0m'' @ nl,
      ''  1. System is offline (run '' @ [quote] @ csi ''1;33m'' @ ''wifi'' @ csi ''0m'' @ [quote] @
         '' or connect network cable).'' @ nl,
      ''  2. Remote binary repository URL timed out or returned HTTP 404.'' @ nl @ nl,
      ''  '' @ csi ''1;33m'' @ ''[!] JurkStore does NOT install fake placeholder scripts.'' @ csi ''0m'' @ nl,
      ''      Installation aborted. System untouched.'' @ nl,
      ''  '' @ csi ''1;31m'' @ ''=============================================================='' @
         csi ''0m'' @ nl]"

definition install_done :: "app_entry \<Rightarrow> string \<Rightarrow> string list" where
  "install_done app bin_path =
    [nl @ ''  '' @ csi ''1;32m'' @ ''=============================================================='' @
         csi ''0m'' @ nl,
      ''  '' @ csi ''1;32m'' @ ''[SUCCESS] '' @ ap_name app @ '' (v'' @ ap_version app @
         '') Installed Successfully!'' @ csi ''0m'' @ nl,
      ''  Location: '' @ csi ''1;36m'' @ bin_path @ csi ''0m'' @ nl,
      ''  Command:  '' @ csi ''1;33m'' @ ap_name app @ csi ''0m'' @ '' (Available in global PATH)'' @ nl,
      ''  Type '' @ [quote] @ csi ''1;33m'' @ ap_name app @ csi ''0m'' @ [quote] @
         '' anywhere in the JurkOS terminal to run it.'' @ nl,
      ''  '' @ csi ''1;32m'' @ ''=============================================================='' @
         csi ''0m'' @ nl,
      nl @ ''Press any key to return to JurkStore...'']"

definition meta_xml :: "app_entry \<Rightarrow> string" where
  "meta_xml app = concat
    [''<?xml version='' @ [CHR 0x22] @ ''1.0'' @ [CHR 0x22] @ '' encoding='' @ [CHR 0x22] @ ''UTF-8'' @
         [CHR 0x22] @ ''?>'' @ nl,
      ''<jurkos-app>'' @ nl,
      ''    <name>'' @ ap_name app @ ''</name>'' @ nl,
      ''    <version>'' @ ap_version app @ ''</version>'' @ nl,
      ''    <author>'' @ ap_author app @ ''</author>'' @ nl,
      ''    <description>'' @ ap_description app @ ''</description>'' @ nl,
      ''    <download>'' @ ap_download app @ ''</download>'' @ nl,
      ''</jurkos-app>'' @ nl]"

definition install_local :: "'w posix \<Rightarrow> app_entry \<Rightarrow> string \<Rightarrow> string \<Rightarrow> 'w store \<Rightarrow> bool \<times> 'w store" where
  "install_local os app bk_path bin_path s =
     (case check_local_binary os (ap_id app) (ap_name app) (world (ses s)) of
        None \<Rightarrow> (False, s)
      | Some found \<Rightarrow>
          let local_bin = safe_strcpy found 512;
              s = emit
                [''  '' @ csi ''1;36m'' @ ''[Local Package]'' @ csi ''0m'' @
         '' Found preloaded package in JurkOS image.'' @ nl,
      ''  Installing: '' @ local_bin @ '' -> '' @ bin_path @ nl] s;
              (ok, s) = run_cmd os 4096
                (''cp -f '' @ dq local_bin @ '' '' @ dq bk_path @ '' && cp -f '' @ dq local_bin @ '' '' @ dq bin_path @
                 '' && chmod 755 '' @ dq bk_path @ '' '' @ dq bin_path) s
          in (ok \<and> larger_than os bin_path 1000 (world (ses s)), s))"

definition authentic :: "'w posix \<Rightarrow> string \<Rightarrow> string \<Rightarrow> 'w \<Rightarrow> bool" where
  "authentic os bk_path full_url w =
     (case read_file os bk_path w of
        Inl e \<Rightarrow> False
      | Inr content \<Rightarrow> length content \<ge> 4 \<and>
          (take 4 content = CHR 0x7F # ''ELF'' \<or> strstr full_url ''.jex'' \<noteq> None \<or> strstr full_url ''.sh'' \<noteq> None))"

definition install_online :: "'w posix \<Rightarrow> app_entry \<Rightarrow> string \<Rightarrow> string \<Rightarrow> 'w store \<Rightarrow> bool \<times> 'w store" where
  "install_online os app bk_path bin_path s =
     (let full_url = (if take 7 (ap_download app) = ''http://'' \<or> take 8 (ap_download app) = ''https://''
            then safe_strcpy (ap_download app) 1024 else cut 1024 (''https://'' @ ap_download app));
          s = emit
            [''  '' @ csi ''1;36m'' @ ''[Online Download]'' @ csi ''0m'' @
         '' Fetching package with BearSSL wget from:'' @ nl @ ''  '' @ full_url @ nl] s;
          (ok, s) = run_cmd os 4096 (wget_cmd ''-T 20'' bk_path full_url) s
      in if ok then
           case sys_stat os bk_path (world (ses s)) of
             Inl e \<Rightarrow> (False, s)
           | Inr st \<Rightarrow>
               if 100 < st_size st \<and> authentic os bk_path full_url (world (ses s)) then
                 let (_, s) = run_cmd os 4096
                       (''cp -f '' @ dq bk_path @ '' '' @ dq bin_path @ '' && chmod 755 '' @ dq bk_path @ '' '' @
                        dq bin_path) s
                 in (True, emit
                      [''  '' @ csi ''1;32m'' @ ''['' @ [CHR 0xE2, CHR 0x9C, CHR 0x93] @ '']'' @ csi ''0m'' @
         '' Verified authentic ELF binary ('' @ show_num (int (st_size st)) @ '' bytes).'' @ nl] s)
               else (False, s)
         else (False, s))"

definition install_app :: "'w posix \<Rightarrow> nat \<Rightarrow> 'w store \<Rightarrow> 'w store" where
  "install_app os i s =
     (let app = apps s ! i;
          s = emit (install_intro app) (disable_raw_mode s);
          (_, s) = run_cmd os 4096 (''mkdir -p '' @ APPS_DIR @ ''/'' @ ap_name app @ '' /bin'') s;
          bk_path = cut 512 (APPS_DIR @ ''/'' @ ap_name app @ ''/'' @ ap_name app @ ''.bk'');
          bin_path = cut 512 (APPS_DIR @ ''/'' @ ap_name app @ ''/'' @ ap_name app);
          (binary_ready, s) = install_local os app bk_path bin_path s;
          (binary_ready, s) = (if \<not> binary_ready \<and> ap_download app \<noteq> []
            then install_online os app bk_path bin_path s else (binary_ready, s))
      in if \<not> binary_ready then
           let s = emit (install_failed app) s;
               (_, s) = run_cmd os 4096 (''rm -rf '' @ APPS_DIR @ ''/'' @ ap_name app) s;
               s = set_installed i False s;
               s = emit [nl @ ''Press any key to return to JurkStore...''] s
           in snd (press_key (enable_raw_mode os s))
         else
           let s = on_world (write_text os (cut 512 (APPS_DIR @ ''/'' @ ap_name app @ ''/meta.xml'')) (meta_xml app)) s;
               sys_link = cut 512 (''/bin/'' @ ap_name app);
               (_, s) = run_cmd os 4096
                 (''ln -sf '' @ dq bin_path @ '' '' @ dq sys_link @ '' 2>/dev/null || cp -f '' @ dq bin_path @ '' '' @
                  dq sys_link) s;
               s = set_installed i True s;
               s = emit (install_done app bin_path) s
           in snd (press_key (enable_raw_mode os s)))"

definition uninstall_intro :: "app_entry \<Rightarrow> string list" where
  "uninstall_intro app =
    [csi ''H'' @ csi ''J'',
      csi ''1;36m'' @ ''+==============================================================+'' @ csi ''0m'' @ nl,
      csi ''1;36m'' @ ''|                 JurkStore Package Remover                    |'' @ csi ''0m'' @ nl,
      csi ''1;36m'' @ ''+==============================================================+'' @ csi ''0m'' @ nl @
         nl,
      ''  Removing package: '' @ csi ''1;31m'' @ ap_name app @ csi ''0m'' @ nl]"

definition uninstall_done :: "app_entry \<Rightarrow> string list" where
  "uninstall_done app =
    [''  '' @ csi ''1;32m'' @ ''['' @ [CHR 0xE2, CHR 0x9C, CHR 0x93] @ '']'' @ csi ''0m'' @
         '' Removed /usr/apps/'' @ ap_name app @ nl,
      ''  '' @ csi ''1;32m'' @ ''['' @ [CHR 0xE2, CHR 0x9C, CHR 0x93] @ '']'' @ csi ''0m'' @
         '' Removed /bin/'' @ ap_name app @ nl @ nl,
      ''  '' @ csi ''1;32m'' @ ''[SUCCESS] '' @ ap_name app @ '' has been cleanly uninstalled.'' @ csi ''0m'' @
         nl,
      nl @ ''Press any key to return to JurkStore...'']"

definition uninstall_app :: "'w posix \<Rightarrow> nat \<Rightarrow> 'w store \<Rightarrow> 'w store" where
  "uninstall_app os i s =
     (let app = apps s ! i;
          s = emit (uninstall_intro app) (disable_raw_mode s);
          (_, s) = run_cmd os 512 (''rm -rf '' @ APPS_DIR @ ''/'' @ ap_name app) s;
          (_, s) = run_cmd os 512 (''rm -f /bin/'' @ ap_name app) s;
          s = set_installed i False s;
          s = emit (uninstall_done app) s
      in snd (press_key (enable_raw_mode os s)))"

section \<open>Screens\<close>

definition detail_screen :: "app_entry \<Rightarrow> string list" where
  "detail_screen app =
    [csi ''H'' @ csi ''J'',
      csi ''1;36m'' @ ''+==============================================================+'' @ csi ''0m'' @ nl,
      csi ''1;36m'' @ ''|                 JurkStore App Details                        |'' @ csi ''0m'' @ nl,
      csi ''1;36m'' @ ''+==============================================================+'' @ csi ''0m'' @ nl @
         nl,
      ''  '' @ csi ''1;33m'' @ ''Name:'' @ csi ''0m'' @ ''        '' @ ap_name app @ nl,
      ''  '' @ csi ''1;33m'' @ ''Version:'' @ csi ''0m'' @ ''     '' @ ap_version app @ nl,
      ''  '' @ csi ''1;33m'' @ ''Author:'' @ csi ''0m'' @ ''      '' @ ap_author app @ nl] @
    (if ap_installed app then
       [''  '' @ csi ''1;33m'' @ ''Status:'' @ csi ''0m'' @ ''      '' @ csi ''1;32m'' @
         ''[Installed in /usr/apps/'' @ ap_name app @ '']'' @ csi ''0m'' @ nl]
     else if ap_local app then
       [''  '' @ csi ''1;33m'' @ ''Status:'' @ csi ''0m'' @ ''      '' @ csi ''1;36m'' @
         ''[Available - Preloaded in Image]'' @ csi ''0m'' @ nl]
     else
       [''  '' @ csi ''1;33m'' @ ''Status:'' @ csi ''0m'' @ ''      '' @ csi ''1;34m'' @
         ''[Available - Online Repository]'' @ csi ''0m'' @ nl]) @
    [''  '' @ csi ''1;33m'' @ ''Download:'' @ csi ''0m'' @ ''    '' @ ap_download app @ nl @ nl,
      ''  '' @ csi ''1;37m'' @ ''Description:'' @ csi ''0m'' @ nl,
      ''  --------------------------------------------------------------'' @ nl,
      ''  '' @ ap_description app @ nl,
      ''  --------------------------------------------------------------'' @ nl @ nl,
      csi ''1;36m'' @ ''+--------------------------------------------------------------+'' @ csi ''0m'' @ nl] @
    (if \<not> ap_installed app then
       [''  '' @ csi ''1;32m'' @ ''[I]'' @ csi ''0m'' @ '' Install   '' @ csi ''1;33m'' @ ''[B/Esc]'' @
         csi ''0m'' @ '' Back   '' @ csi ''1;31m'' @ ''[Q]'' @ csi ''0m'' @ '' Exit Store'' @ nl]
     else
       [''  '' @ csi ''1;32m'' @ ''[I]'' @ csi ''0m'' @ '' Reinstall   '' @ csi ''1;31m'' @ ''[U]'' @
         csi ''0m'' @ '' Uninstall   '' @ csi ''1;33m'' @ ''[B/Esc]'' @ csi ''0m'' @ '' Back   '' @
         csi ''1;31m'' @ ''[Q]'' @ csi ''0m'' @ '' Exit Store'' @ nl]) @
    [csi ''1;36m'' @ ''+--------------------------------------------------------------+'' @ csi ''0m'' @ nl]"

definition status_str :: "app_entry \<Rightarrow> string" where
  "status_str a =
     (if ap_installed a then csi ''1;32m'' @ ''[Installed]'' @ csi ''0m''
      else if ap_local a then csi ''1;36m'' @ ''[Image Cache]'' @ csi ''0m''
      else csi ''0;34m'' @ ''[Online]'' @ csi ''0m'')"

definition list_row :: "int \<Rightarrow> nat \<Rightarrow> app_entry \<Rightarrow> string" where
  "list_row selected_index i a =
     (let status = status_str a in
      if int i = selected_index then
        '' '' @ csi ''1;33m'' @ ''>'' @ csi ''0m'' @ '' '' @ csi ''7m'' @ '' '' @ pad_right 14 (ap_name a) @
           '' '' @ pad_right 10 (ap_version a) @ '' '' @ pad_right 18 (ap_author a) @ '' '' @ csi ''0m'' @ '' '' @
           status @ nl
      else
        ''   '' @ pad_right 15 (ap_name a) @ '' '' @ pad_right 10 (ap_version a) @ '' '' @
           pad_right 18 (ap_author a) @ '' '' @ status @ nl)"

definition list_head :: "string list" where
  "list_head =
    [csi ''H'' @ csi ''J'',
      csi ''1;36m'' @ ''+================================================================+'' @ csi ''0m'' @ nl,
      csi ''1;36m'' @ ''|         JurkStore (TUI Edition) - JurkOS Application Store     |'' @ csi ''0m'' @ nl,
      csi ''1;36m'' @ ''+================================================================+'' @ csi ''0m'' @
         nl @ nl,
      ''  '' @ csi ''1m'' @ pad_right 16 (''APP NAME'') @ '' '' @ pad_right 10 (''VERSION'') @ '' '' @
         pad_right 18 (''AUTHOR'') @ '' '' @ ''STATUS'' @ csi ''0m'' @ nl,
      ''  ----------------------------------------------------------------'' @ nl]"

definition list_foot :: "string list" where
  "list_foot =
    [''  ----------------------------------------------------------------'' @ nl @ nl,
      csi ''1;36m'' @ ''+----------------------------------------------------------------+'' @ csi ''0m'' @ nl,
      ''  '' @ csi ''1;33m'' @ ''['' @ [CHR 0xE2, CHR 0x86, CHR 0x91] @ ''/'' @
         [CHR 0xE2, CHR 0x86, CHR 0x93] @ '']'' @ csi ''0m'' @ '' Move   '' @ csi ''1;32m'' @ ''[Enter]'' @
         csi ''0m'' @ '' Details   '' @ csi ''1;32m'' @ ''[I]'' @ csi ''0m'' @ '' Install   '' @ csi ''1;31m'' @
         ''[U]'' @ csi ''0m'' @ '' Uninstall   '' @ csi ''1;36m'' @ ''[R]'' @ csi ''0m'' @ '' Sync GitHub   '' @
         csi ''1;31m'' @ ''[Q]'' @ csi ''0m'' @ '' Quit'' @ nl,
      csi ''1;36m'' @ ''+----------------------------------------------------------------+'' @ csi ''0m'' @ nl]"

definition render_store_list :: "int \<Rightarrow> 'w store \<Rightarrow> 'w store" where
  "render_store_list selected_index s =
     (let s = emit list_head s;
          s = (if apps s = [] then
                 emit
                   [nl @ ''  '' @ csi ''1;30m'' @ ''(No packages indexed or installed yet)'' @ csi ''0m'' @ nl,
      ''  Press '' @ csi ''1;36m'' @ ''[R]'' @ csi ''0m'' @ '' to sync catalog from repository.'' @ nl @ nl] s
               else emit (map (\<lambda>(i, a). list_row selected_index i a) (enumerate 0 (apps s))) s);
          s = emit [nl @ ''  ----------------------------------------------------------------'' @ nl] s;
          s = (if 0 < count_apps s \<and> 0 \<le> selected_index \<and> selected_index < count_apps s then
                 let a = apps s ! nat selected_index in
                 emit [''  '' @ csi ''1;33m'' @ ''Selected:'' @ csi ''0m'' @ '' '' @ ap_name a @ '' - '' @ ap_description a @ nl] s
               else emit [''  '' @ csi ''1;30m'' @ ''Catalog empty. Press [R] to sync.'' @ csi ''0m'' @ nl] s)
      in emit list_foot s)"

section \<open>Interaction\<close>

text \<open>What a key press leads to: the next round with the given selection, the end of the loop, the end of
  the process, an access beyond the catalog, or a loop without end.\<close>

datatype 'w store_step = Stay "'w store" int | Quit "'w store" | Ended "'w store" | Out_of_bounds | Hangs

text \<open>The detail view asks for keys until one applies; at the end of the input for ever. The flag tells
  whether the process goes on.\<close>

partial_function (option) show_detail_view :: "'w posix \<Rightarrow> nat \<Rightarrow> 'w store \<Rightarrow> (bool \<times> 'w store) option" where
  "show_detail_view os i s =
     (let app = apps s ! i; (c, s) = press_key (emit (detail_screen app) s) in
      if c = 0x71 \<or> c = 0x51 then Some (False, emit [csi ''H'' @ csi ''J'' @ csi ''0m''] (disable_raw_mode s))
      else if c = 0x62 \<or> c = 0x42 then Some (True, s)
      else if c = 27 then
        let (n1, s) = press_key s in Some (True, if n1 = 0x5B then snd (press_key s) else s)
      else if c = 0x69 \<or> c = 0x49 then Some (True, install_app os i s)
      else if (c = 0x75 \<or> c = 0x55) \<and> ap_installed app then Some (True, uninstall_app os i s)
      else show_detail_view os i s)"

definition open_detail :: "'w posix \<Rightarrow> int \<Rightarrow> 'w store \<Rightarrow> 'w store_step" where
  "open_detail os selected_index s =
     (if 0 \<le> selected_index \<and> selected_index < int MAX_APPS then
        case show_detail_view os (nat selected_index) s of
          None \<Rightarrow> Hangs
        | Some (goes_on, s) \<Rightarrow> if goes_on then Stay s selected_index else Ended s
      else Out_of_bounds)"

definition move_up :: "int \<Rightarrow> int" where
  "move_up selected_index = (if selected_index > 0 then selected_index - 1 else selected_index)"

definition move_down :: "'w store \<Rightarrow> int \<Rightarrow> int" where
  "move_down s selected_index =
     (if selected_index < count_apps s - 1 then selected_index + 1 else selected_index)"

definition clamp_selection :: "'w store \<Rightarrow> int \<Rightarrow> int" where
  "clamp_selection s selected_index =
     (let sel = (if selected_index < 0 then 0 else selected_index) in
      if sel \<ge> count_apps s then count_apps s - 1 else sel)"

definition store_round :: "'w posix \<Rightarrow> 'w store \<Rightarrow> int \<Rightarrow> 'w store_step" where
  "store_round os s selected_index =
     (let sel = clamp_selection s selected_index;
          (c, s) = press_key (render_store_list sel s)
      in if c = 27 then
           let (c2, s) = press_key s in
           if c2 = 0x5B then
             let (c3, s) = press_key s in
             if c3 = 0x41 then Stay s (move_up sel)
             else if c3 = 0x42 then Stay s (move_down s sel)
             else if c3 = 0x43 then open_detail os sel s
             else Stay s sel
           else if c2 = 27 then Quit s
           else Stay s sel
         else if c = 0x6B \<or> c = 0x4B \<or> c = 0x77 \<or> c = 0x57 then Stay s (move_up sel)
         else if c = 0x6A \<or> c = 0x4A \<or> c = 0x73 \<or> c = 0x53 then Stay s (move_down s sel)
         else if c = 0x0A \<or> c = 0x0D \<or> c = 0x20 then
           (if apps s \<noteq> [] then open_detail os sel s else Stay s sel)
         else if c = 0x69 \<or> c = 0x49 then
           (if apps s \<noteq> [] then Stay (install_app os (nat sel) s) sel else Stay s sel)
         else if c = 0x75 \<or> c = 0x55 then
           (if apps s \<noteq> [] \<and> ap_installed (apps s ! nat sel) then Stay (uninstall_app os (nat sel) s) sel
            else Stay s sel)
         else if c = 0x72 \<or> c = 0x52 then Stay (refresh_remote_catalog os s) sel
         else if c = 0x71 \<or> c = 0x51 then Quit s
         else Stay s sel)"

definition store_start :: "'w posix \<Rightarrow> 'w session \<Rightarrow> 'w store" where
  "store_start os t =
     enable_raw_mode os (refresh_states os (populate_defaults os \<lparr>ses = t, apps = [], raw_mode = False\<rparr>))"

definition store_exit :: "'w store \<Rightarrow> 'w store" where
  "store_exit s = emit [csi ''H'' @ csi ''J'' @ csi ''0m''] (disable_raw_mode s)"

text \<open>The states at the head of the loop.\<close>

inductive store_reaches :: "'w posix \<Rightarrow> 'w session \<Rightarrow> 'w store \<Rightarrow> int \<Rightarrow> bool" for os t where
  start: "store_reaches os t (store_start os t) 0"
| round: "store_reaches os t s sel \<Longrightarrow> store_round os s sel = Stay s' sel' \<Longrightarrow> store_reaches os t s' sel'"

section \<open>The catalog keeps its type\<close>

text \<open>Every field fits in the array the code gives it, and the catalog in its 64 entries.\<close>

definition entry_ok :: "app_entry \<Rightarrow> bool" where
  "entry_ok a \<longleftrightarrow> length (ap_id a) < 64 \<and> length (ap_name a) < 64 \<and> length (ap_version a) < 32 \<and>
     length (ap_author a) < 64 \<and> length (ap_description a) < 256 \<and> length (ap_download a) < 512"

definition catalog_ok :: "app_entry list \<Rightarrow> bool" where
  "catalog_ok as \<longleftrightarrow> length as \<le> MAX_APPS \<and> list_all entry_ok as"

lemma safe_strcpy_take: "0 < n \<Longrightarrow> safe_strcpy str n = take (n - 1) str"
proof (induction str n rule: safe_strcpy.induct)
  case (2 c src n)
  show ?case
  proof (cases "1 < n")
    case True
    then obtain m where "n = Suc (Suc m)" by (metis One_nat_def less_imp_Suc_add add_Suc_shift plus_1_eq_Suc)
    then show ?thesis using 2 by simp
  next
    case False
    then show ?thesis using 2 by simp
  qed
qed simp

named_theorems keeps_catalog \<open>operations that leave the catalog as it is\<close>

lemma emit_apps [keeps_catalog, simp]: "apps (emit strs s) = apps s"
  by (simp add: emit_def)

lemma on_world_apps [keeps_catalog, simp]: "apps (on_world f s) = apps s"
  by (simp add: on_world_def)

lemma run_cmd_apps [keeps_catalog, simp]: "apps (snd (run_cmd os n cmd s)) = apps s"
  by (simp add: run_cmd_def Let_def case_prod_beta)

lemma press_key_apps [keeps_catalog, simp]: "apps (snd (press_key s)) = apps s"
  by (simp add: press_key_def Let_def case_prod_beta)

lemma raw_mode_apps [keeps_catalog, simp]:
  "apps (disable_raw_mode s) = apps s" "apps (enable_raw_mode os s) = apps s"
  by (simp_all add: disable_raw_mode_def enable_raw_mode_def)

lemma render_apps [keeps_catalog, simp]: "apps (render_store_list sel s) = apps s"
  by (simp add: render_store_list_def Let_def)

lemma new_entry_ok: "entry_ok (new_entry os i n v a d l w)"
  by (simp add: new_entry_def entry_ok_def safe_strcpy_take min_less_iff_disj)

lemma put_app_ok:
  "put_app i n new as = Some bs \<Longrightarrow> entry_ok new \<Longrightarrow> catalog_ok as \<Longrightarrow> catalog_ok bs \<and> length bs = length as"
proof (induction as arbitrary: bs)
  case (Cons a as)
  then show ?case by (fastforce simp: catalog_ok_def split: if_splits)
qed simp

lemma add_or_update_app_ok:
  "catalog_ok (apps s) \<Longrightarrow> catalog_ok (apps (add_or_update_app os i n v a d l s))"
  using put_app_ok new_entry_ok
  by (fastforce simp: add_or_update_app_def Let_def catalog_ok_def MAX_APPS_def split: option.split)

lemma parse_meta_file_ok: "catalog_ok (apps s) \<Longrightarrow> catalog_ok (apps (parse_meta_file os n i p s))"
  by (simp add: parse_meta_file_def parse_meta_xml_buffer_def Let_def add_or_update_app_ok split: sum.split)

lemma scan_loop_ok: "catalog_ok (apps s) \<Longrightarrow> catalog_ok (apps (scan_loop os names s))"
  by (induction names arbitrary: s) (simp_all add: parse_meta_file_ok)

lemma fetch_meta_ok: "catalog_ok (apps s) \<Longrightarrow> catalog_ok (apps (fetch_meta_from_entry os e s))"
  by (simp add: fetch_meta_from_entry_def Let_def case_prod_beta parse_meta_file_ok)

lemma catalog_loop_ok: "catalog_ok (apps s) \<Longrightarrow> catalog_ok (apps (snd (catalog_loop os ls b s)))"
  by (induction ls arbitrary: b s) (simp_all add: Let_def fetch_meta_ok)

lemma apps_loop_ok: "catalog_ok (apps s) \<Longrightarrow> catalog_ok (apps (snd (apps_loop os ls b s)))"
  by (induction ls arbitrary: b s) (simp_all add: Let_def fetch_meta_ok)

lemma index_file_ok:
  assumes "\<And>ls b s. catalog_ok (apps s) \<Longrightarrow> catalog_ok (apps (snd (loop ls b s)))" "catalog_ok (apps s)"
  shows "catalog_ok (apps (snd (index_file os url tmp n loop s)))"
  using assms by (simp add: index_file_def Let_def case_prod_beta split: sum.split)

lemma entry_ok_flags [simp]:
  "entry_ok (a\<lparr>ap_installed := b\<rparr>) = entry_ok a" "entry_ok (a\<lparr>ap_local := b\<rparr>) = entry_ok a"
  by (simp_all add: entry_ok_def)

lemma refresh_states_ok: "catalog_ok (apps s) \<Longrightarrow> catalog_ok (apps (refresh_states os s))"
  by (simp add: refresh_states_def catalog_ok_def Let_def list_all_iff)

lemma refresh_ok: "catalog_ok (apps s) \<Longrightarrow> catalog_ok (apps (refresh_remote_catalog os s))"
  by (simp add: refresh_remote_catalog_def Let_def case_prod_beta refresh_states_ok index_file_ok
        catalog_loop_ok apps_loop_ok)

lemma set_installed_ok: "catalog_ok (apps s) \<Longrightarrow> catalog_ok (apps (set_installed i b s))"
proof (cases "i < length (apps s)")
  case True
  then show "catalog_ok (apps s) \<Longrightarrow> catalog_ok (apps (set_installed i b s))"
    by (auto simp: set_installed_def catalog_ok_def list_all_iff dest!: set_update_subset_insert [THEN subsetD])
next
  case False
  then have "length (apps s) \<le> i" by simp
  then show "catalog_ok (apps s) \<Longrightarrow> catalog_ok (apps (set_installed i b s))"
    by (simp add: set_installed_def list_update_beyond)
qed

lemma install_parts_apps [keeps_catalog, simp]:
  "apps (snd (install_local os app bk bin s)) = apps s" "apps (snd (install_online os app bk bin s)) = apps s"
  by (simp_all add: install_local_def install_online_def Let_def case_prod_beta split: option.split sum.split)

lemma install_app_ok: "catalog_ok (apps s) \<Longrightarrow> catalog_ok (apps (install_app os i s))"
  by (simp add: install_app_def Let_def case_prod_beta set_installed_ok)

lemma uninstall_app_ok: "catalog_ok (apps s) \<Longrightarrow> catalog_ok (apps (uninstall_app os i s))"
  by (simp add: uninstall_app_def Let_def case_prod_beta set_installed_ok)

lemma press_keyD: "press_key s = (c, s') \<Longrightarrow> apps s' = apps s"
  by (metis press_key_apps snd_conv)

lemma show_detail_view_ok:
  assumes "show_detail_view os i s = Some r"
  shows "catalog_ok (apps s) \<longrightarrow> catalog_ok (apps (snd r))"
proof (rule show_detail_view.raw_induct
    [where P = "\<lambda>os i s r. catalog_ok (apps s) \<longrightarrow> catalog_ok (apps (snd r))", OF _ assms], rule impI)
  fix f :: "'a posix \<Rightarrow> nat \<Rightarrow> 'a store \<Rightarrow> (bool \<times> 'a store) option"
    and os :: "'a posix" and i and s :: "'a store" and r
  assume IH: "\<And>os i s r. f os i s = Some r \<Longrightarrow> catalog_ok (apps s) \<longrightarrow> catalog_ok (apps (snd r))"
    and body: "(let app = apps s ! i; (c, s) = press_key (emit (detail_screen app) s)
      in if c = 0x71 \<or> c = 0x51 then Some (False, emit [csi ''H'' @ csi ''J'' @ csi ''0m''] (disable_raw_mode s))
      else if c = 0x62 \<or> c = 0x42 then Some (True, s)
      else if c = 27 then
        let (n1, s) = press_key s in Some (True, if n1 = 0x5B then snd (press_key s) else s)
      else if c = 0x69 \<or> c = 0x49 then Some (True, install_app os i s)
      else if (c = 0x75 \<or> c = 0x55) \<and> ap_installed app then Some (True, uninstall_app os i s)
      else f os i s) = Some r"
    and ok: "catalog_ok (apps s)"
  obtain c s2 where k: "press_key (emit (detail_screen (apps s ! i)) s) = (c, s2)" by fastforce
  then have "apps s2 = apps s" using press_keyD by fastforce
  with ok have ok2: "catalog_ok (apps s2)" by simp
  show "catalog_ok (apps (snd r))"
    using body IH [of os i s2 r] k ok2 install_app_ok [OF ok2] uninstall_app_ok [OF ok2]
    by (auto simp: Let_def case_prod_beta split: if_splits)
qed

lemma open_detail_ok: "open_detail os sel s = Stay s' sel' \<Longrightarrow> catalog_ok (apps s) \<longrightarrow> catalog_ok (apps s')"
  using show_detail_view_ok by (fastforce simp: open_detail_def split: if_splits option.splits prod.splits)

lemma store_round_ok:
  assumes "store_round os s sel = Stay s' sel'" "catalog_ok (apps s)"
  shows "catalog_ok (apps s')"
  using assms
  by (auto simp: store_round_def Let_def case_prod_beta install_app_ok uninstall_app_ok refresh_ok
      split: if_splits dest!: open_detail_ok)

lemma store_start_ok: "catalog_ok (apps (store_start os t))"
proof -
  have "catalog_ok []" by (simp add: catalog_ok_def)
  then have "catalog_ok (apps (populate_defaults os \<lparr>ses = t, apps = [], raw_mode = False\<rparr>))"
    by (simp add: populate_defaults_def scan_installed_apps_def scan_loop_ok split: sum.split)
  then show ?thesis by (simp add: store_start_def refresh_states_ok)
qed

section \<open>The missing bounds check\<close>

lemma emit_typed [simp]: "typed (ses (emit strs s)) = typed (ses s)"
  by (simp add: emit_def)

lemma render_typed [simp]: "typed (ses (render_store_list sel s)) = typed (ses s)"
  by (simp add: render_store_list_def Let_def)

lemma key_pressed: "fst (press_key s) = of_char ch \<longleftrightarrow> (\<exists>r. typed (ses s) = ch # r)"
  using code_nonneg [of ch] by (auto simp: press_key_def getkey_def split: list.split)

lemma press_key_rest [simp]: "typed (ses (snd (press_key s))) = tl (typed (ses s))"
  by (simp add: press_key_def getkey_def split: list.split)

lemma arrow_right:
  "fst (press_key s) = 27 \<and> fst (press_key (snd (press_key s))) = 0x5B \<and>
   fst (press_key (snd (press_key (snd (press_key s))))) = 0x43 \<longleftrightarrow>
   (\<exists>r. typed (ses s) = CHR 0x1B # CHR ''['' # CHR ''C'' # r)"
  using key_pressed [of s "CHR 0x1B"] key_pressed [of "snd (press_key s)" "CHR ''[''"]
    key_pressed [of "snd (press_key (snd (press_key s)))" "CHR ''C''"]
  by (auto simp: neq_Nil_conv)

lemma open_detail_bounds: "open_detail os sel s = Out_of_bounds \<longleftrightarrow> sel < 0 \<or> int MAX_APPS \<le> sel"
  by (auto simp: open_detail_def split: option.split prod.split)

lemma clamp_bounds:
  "catalog_ok (apps s) \<Longrightarrow> (clamp_selection s sel < 0 \<or> int MAX_APPS \<le> clamp_selection s sel) \<longleftrightarrow> apps s = []"
  by (cases "apps s") (auto simp: clamp_selection_def Let_def catalog_ok_def)

section \<open>Metadata files\<close>

text \<open>A tag that does not begin before the end of a prefix.\<close>

definition first_at :: "string \<Rightarrow> string \<Rightarrow> bool" where
  "first_at u tag \<longleftrightarrow> (\<forall>z. strstr (u @ tag @ z) tag = Some (length u))"

lemma first_at_Nil [simp]: "first_at [] tag"
  by (simp add: first_at_def strstr.simps)

lemma first_at_step:
  assumes "\<And>z. take (length tag) (c # u @ tag @ z) \<noteq> tag"
  shows "first_at (c # u) tag = first_at u tag"
  using assms by (simp add: first_at_def strstr.simps [of "c # _"])

lemma first_at_Cons [simp]: "c \<noteq> CHR ''<'' \<Longrightarrow> first_at (c # u) (CHR ''<'' # t) = first_at u (CHR ''<'' # t)"
  by (rule first_at_step) simp

lemma first_at_tag [simp]:
  "take 2 u \<noteq> take 2 t \<Longrightarrow> 2 \<le> length u \<Longrightarrow> 2 \<le> length t \<Longrightarrow>
   first_at (CHR ''<'' # u) (CHR ''<'' # t) = first_at u (CHR ''<'' # t)"
proof (rule first_at_step)
  fix z
  assume h: "take 2 u \<noteq> take 2 t" "2 \<le> length u" "2 \<le> length t"
  show "take (length (CHR ''<'' # t)) (CHR ''<'' # u @ (CHR ''<'' # t) @ z) \<noteq> CHR ''<'' # t"
  proof
    assume "take (length (CHR ''<'' # t)) (CHR ''<'' # u @ (CHR ''<'' # t) @ z) = CHR ''<'' # t"
    then have "take (length t) (u @ (CHR ''<'' # t) @ z) = t" by simp
    then have "take 2 (take (length t) (u @ (CHR ''<'' # t) @ z)) = take 2 t" by simp
    with h show False by (simp add: min_absorb1)
  qed
qed

lemma first_at_skip [simp]:
  "CHR ''<'' \<notin> set b \<Longrightarrow> first_at (b @ u) (CHR ''<'' # t) = first_at u (CHR ''<'' # t)"
  by (induction b) auto

lemma strstr_skip: "CHR ''<'' \<notin> set v \<Longrightarrow> strstr (v @ (CHR ''<'' # t) @ z) (CHR ''<'' # t) = Some (length v)"
proof -
  assume "CHR ''<'' \<notin> set v"
  then have "first_at v (CHR ''<'' # t)" using first_at_skip [of v "[]" t] by simp
  then show ?thesis by (simp add: first_at_def)
qed

text \<open>A field that can be written and read back.\<close>

definition clean_field :: "nat \<Rightarrow> string \<Rightarrow> bool" where
  "clean_field n v \<longleftrightarrow> plain v \<and> CHR ''<'' \<notin> set v \<and> length v < n \<and>
     (v \<noteq> [] \<longrightarrow> last v \<notin> {CHR 0x0D, CHR 0x0A, CHR 0x20})"

lemma strip_tail_clean: "v \<noteq> [] \<longrightarrow> last v \<notin> set cs \<Longrightarrow> strip_tail cs v = v"
  by (cases v rule: rev_cases) (auto simp: strip_tail_def)

lemma extract_written:
  assumes "xml = u @ (CHR ''<'' # tag @ ''>'') @ v @ (CHR ''<'' # CHR ''/'' # tag @ ''>'') @ r"
    and "first_at u (CHR ''<'' # tag @ ''>'')" and "clean_field n v" and "length tag < 61"
  shows "extract_tag_value xml tag n = v"
proof -
  let ?open = "CHR ''<'' # tag @ ''>''" and ?close = "CHR ''<'' # CHR ''/'' # tag @ ''>''"
  have "strstr (u @ ?open @ v @ ?close @ r) ?open = Some (length u)"
    using assms(2) by (simp add: first_at_def)
  moreover have "strstr (v @ ?close @ r) ?close = Some (length v)"
    using assms(3) strstr_skip [of v "CHR ''/'' # tag @ ''>''" r] by (simp add: clean_field_def)
  moreover have "cut 64 (''<'' @ tag @ ''>'') = ?open" "cut 64 (''</'' @ tag @ ''>'') = ?close"
    using assms(4) by (simp_all add: cut_def)
  moreover have "drop (length u + length ?open) (u @ ?open @ v @ ?close @ r) = v @ ?close @ r" by simp
  ultimately show ?thesis
    using assms(1,3) strip_tail_clean [of v "[CHR 0x0D, CHR 0x0A, CHR 0x20]"]
    unfolding extract_tag_value_def Let_def by (simp add: clean_field_def del: append.simps drop_append)
qed

definition clean_entry :: "app_entry \<Rightarrow> bool" where
  "clean_entry a \<longleftrightarrow> clean_field 64 (ap_name a) \<and> ap_name a \<noteq> [] \<and> clean_field 32 (ap_version a) \<and>
     clean_field 64 (ap_author a) \<and> clean_field 256 (ap_description a) \<and>
     clean_field 512 (ap_download a) \<and> ap_download a \<noteq> []"

definition xml_head :: string where
  "xml_head = ''<?xml version='' @ [CHR 0x22] @ ''1.0'' @ [CHR 0x22] @ '' encoding='' @ [CHR 0x22] @ ''UTF-8'' @
     [CHR 0x22] @ ''?>'' @ nl @ ''<jurkos-app>'' @ nl @ ''    ''"

lemma meta_xml_pieces:
  "meta_xml a = xml_head @ ''<name>'' @ ap_name a @ ''</name>'' @ nl @ ''    <version>'' @ ap_version a @ ''</version>'' @ nl @
     ''    <author>'' @ ap_author a @ ''</author>'' @ nl @ ''    <description>'' @ ap_description a @ ''</description>'' @ nl @
     ''    <download>'' @ ap_download a @ ''</download>'' @ nl @ ''</jurkos-app>'' @ nl"
  by (simp add: meta_xml_def xml_head_def)

lemma extract_meta:
  assumes "clean_entry a"
  shows "extract_tag_value (meta_xml a) ''name'' 64 = ap_name a"
    "extract_tag_value (meta_xml a) ''version'' 32 = ap_version a"
    "extract_tag_value (meta_xml a) ''author'' 64 = ap_author a"
    "extract_tag_value (meta_xml a) ''description'' 256 = ap_description a"
    "extract_tag_value (meta_xml a) ''download'' 512 = ap_download a"
proof -
  have lt: "CHR ''<'' \<notin> set (ap_name a)" "CHR ''<'' \<notin> set (ap_version a)" "CHR ''<'' \<notin> set (ap_author a)"
    "CHR ''<'' \<notin> set (ap_description a)"
    using assms by (simp_all add: clean_entry_def clean_field_def)
  note c = assms [unfolded clean_entry_def]
  let ?u1 = "xml_head"
  let ?u2 = "?u1 @ ''<name>'' @ ap_name a @ ''</name>'' @ nl @ ''    ''"
  let ?u3 = "?u2 @ ''<version>'' @ ap_version a @ ''</version>'' @ nl @ ''    ''"
  let ?u4 = "?u3 @ ''<author>'' @ ap_author a @ ''</author>'' @ nl @ ''    ''"
  let ?u5 = "?u4 @ ''<description>'' @ ap_description a @ ''</description>'' @ nl @ ''    ''"
  show "extract_tag_value (meta_xml a) ''name'' 64 = ap_name a"
    by (rule extract_written [where u = ?u1]) (use c in \<open>simp_all add: meta_xml_pieces xml_head_def\<close>)
  show "extract_tag_value (meta_xml a) ''version'' 32 = ap_version a"
    by (rule extract_written [where u = ?u2]) (use c lt in \<open>simp_all add: meta_xml_pieces xml_head_def\<close>)
  show "extract_tag_value (meta_xml a) ''author'' 64 = ap_author a"
    by (rule extract_written [where u = ?u3]) (use c lt in \<open>simp_all add: meta_xml_pieces xml_head_def\<close>)
  show "extract_tag_value (meta_xml a) ''description'' 256 = ap_description a"
    by (rule extract_written [where u = ?u4]) (use c lt in \<open>simp_all add: meta_xml_pieces xml_head_def\<close>)
  show "extract_tag_value (meta_xml a) ''download'' 512 = ap_download a"
    by (rule extract_written [where u = ?u5]) (use c lt in \<open>simp_all add: meta_xml_pieces xml_head_def\<close>)
qed

lemma meta_xml_size: "clean_entry a \<Longrightarrow> 0 < length (meta_xml a) \<and> length (meta_xml a) < 32768"
  by (simp add: clean_entry_def clean_field_def meta_xml_pieces xml_head_def)

lemma meta_xml_plain: "clean_entry a \<Longrightarrow> plain (meta_xml a)"
  by (simp add: clean_entry_def clean_field_def meta_xml_pieces xml_head_def)

text \<open>A package, and a system on which it is installed.\<close>

definition sample_app :: app_entry where
  "sample_app = \<lparr>ap_id = ''a'', ap_name = ''a'', ap_version = ''1'', ap_author = ''me'', ap_description = ''x'',
     ap_download = ''h/a'', ap_installed = True, ap_local = False\<rparr>"

lemma sample_clean: "clean_entry sample_app"
  by (simp add: sample_app_def clean_entry_def clean_field_def)

definition store_posix :: "(string \<rightharpoonup> string) posix" where
  "store_posix = map_posix\<lparr>list_dir := (\<lambda>p w. if p = APPS_DIR then Inr [''a''] else Inl (Errno 2))\<rparr>"

definition store_session :: "(string \<rightharpoonup> string) session" where
  "store_session = \<lparr>typed = [], printed = [], world = [''/usr/apps/a/meta.xml'' \<mapsto> meta_xml sample_app]\<rparr>"

lemma sample_meta_file: "read_file store_posix ''/usr/apps/a/meta.xml'' (world store_session) = Inr (meta_xml sample_app)"
  by (simp add: store_posix_def map_posix_def store_session_def)

lemma sample_store_apps: "apps (store_start store_posix store_session) \<noteq> []"
proof -
  have "list_dir store_posix APPS_DIR w = Inr [''a'']" for w by (simp add: store_posix_def)
  then show ?thesis
    using sample_meta_file meta_xml_size [OF sample_clean]
    by (simp add: store_start_def populate_defaults_def scan_installed_apps_def parse_meta_file_def
          parse_meta_xml_buffer_def add_or_update_app_def Let_def refresh_states_def APPS_DIR_def cut_def MAX_APPS_def)
qed



section \<open>Reachable states\<close>

text \<open>C12: In every state the store can reach, each field of each package fits in its array, there are at
  most 64 packages, and the selection on the screen is one of them unless there are none.\<close>

theorem store_well_typed:
  assumes "store_reaches os t s sel"
  shows "catalog_ok (apps s) \<and>
    (apps s \<noteq> [] \<longrightarrow> 0 \<le> clamp_selection s sel \<and> clamp_selection s sel < count_apps s)"
proof
  from assms show "catalog_ok (apps s)"
    by (induction rule: store_reaches.induct) (auto intro: store_start_ok store_round_ok)
qed (auto simp: clamp_selection_def Let_def)

theorem store_well_typed_witness:
  "catalog_ok (apps (store_start store_posix store_session)) \<and> 0 \<le> clamp_selection (store_start store_posix store_session) 0"
  using store_well_typed [OF store_reaches.start [of store_posix store_session]] sample_store_apps by simp



end
