(* ===== verification/Wifi.thy ===== *)
theory Wifi
  imports Fileutils "HOL-Library.Signed_Division"
begin

text \<open>
  The network manager, \<^verbatim>\<open>NoneCompiled/wifi.c\<close>: interface detection, address negotiation, the two scan
  parsers, password entry, profiles, the command line and the interactive screen. Commands run through
  \<^verbatim>\<open>system\<close>, the address of an interface and the connection test are parameters. Waiting
  (\<^verbatim>\<open>sleep\<close>) changes no state and is left out. The name of the wired interface is new in each
  round: the old name a failed directory listing leaves in its buffer is not modelled. Numbers outside the range of \<^verbatim>\<open>int\<close>, and the
  rounding of signal levels to single precision, are not modelled.
\<close>

section \<open>Data\<close>

record wifi_network =
  ssid_of :: string
  signal_pct :: int
  security :: string
  channel :: int
  is_open_net :: bool

definition MAX_NETWORKS :: nat where "MAX_NETWORKS = 64"

definition WIFI_CONF_DIR :: string where "WIFI_CONF_DIR = ''/etc/network''"

definition WIFI_HISTORY_FILE :: string where "WIFI_HISTORY_FILE = ''/etc/network/wifi_history.conf''"

definition LEGACY_CONF_DIR :: string where "LEGACY_CONF_DIR = ''/encrypted''"

definition LEGACY_HISTORY_FILE :: string where "LEGACY_HISTORY_FILE = ''/encrypted/wifi_history.conf''"

text \<open>What the kernel says of a network interface: its address, and whether a connection to the name
  server opens.\<close>

record 'w netdev =
  if_address :: "string \<Rightarrow> 'w \<Rightarrow> string option"
  dns_reachable :: "'w \<Rightarrow> bool"

definition until_newline :: "string \<Rightarrow> string" where
  "until_newline str = takeWhile (\<lambda>c. c \<noteq> CHR 0x0D \<and> c \<noteq> CHR 0x0A) str"

definition lower :: "char \<Rightarrow> char" where
  "lower c = (if 0x41 \<le> (of_char c :: nat) \<and> (of_char c :: nat) \<le> 0x5A then char_of ((of_char c :: nat) + 32) else c)"

definition same_word :: "string \<Rightarrow> string \<Rightarrow> bool" where
  "same_word a b \<longleftrightarrow> map lower a = map lower b"

text \<open>\<^verbatim>\<open>fscanf (f, "%d", ...)\<close>.\<close>

definition scan_int :: "string \<Rightarrow> int option" where
  "scan_int str =
     (let t = dropWhile isspace str; d = (if t \<noteq> [] \<and> hd t \<in> set ''+-'' then tl t else t) in
      if d \<noteq> [] \<and> isdigit (hd d) then Some (atoi str) else None)"

section \<open>Commands\<close>

definition handle_sigint :: "bool \<Rightarrow> 'w session \<Rightarrow> 'w session" where
  "handle_sigint raw s =
     fputs_all [nl @ csi ''0m'' @ ''Network manager closed.'' @ nl] (if raw then put (csi ''?25h'') s else s)"

definition run_sys :: "'w posix \<Rightarrow> nat \<Rightarrow> string \<Rightarrow> 'w session \<Rightarrow> 'w session" where
  "run_sys os n cmd s = snd (sys_system os (cut n cmd) s)"

section \<open>Interfaces\<close>

definition wireless_types :: "int list" where
  "wireless_types = [801, 802, 803, 800, 804, 805]"

definition wifi_prefixes :: "string list" where
  "wifi_prefixes = [''wlan'', ''wl'', ''wlp'', ''wls'', ''wlx'', ''wifi'', ''ath'', ''iwm'', ''iwx'',
     ''rtw'', ''rtwn'', ''ral'', ''rum'', ''run'', ''bwn'', ''bwi'', ''ra'', ''mlan'']"

definition has_path :: "'w posix \<Rightarrow> string \<Rightarrow> 'w \<Rightarrow> bool" where
  "has_path os path w = (case sys_stat os (cut 256 path) w of Inl e \<Rightarrow> False | Inr st \<Rightarrow> True)"

definition sysfs :: "string \<Rightarrow> string \<Rightarrow> string" where
  "sysfs name leaf = ''/sys/class/net/'' @ take 64 name @ ''/'' @ leaf"

definition looks_wireless :: "'w posix \<Rightarrow> string \<Rightarrow> 'w \<Rightarrow> bool" where
  "looks_wireless os name w =
     ((case read_file os (cut 256 (sysfs name ''type'')) w of
         Inl e \<Rightarrow> False
       | Inr content \<Rightarrow> (case scan_int content of None \<Rightarrow> False | Some dev_type \<Rightarrow> dev_type \<in> set wireless_types)) \<or>
      has_path os (sysfs name ''wireless'') w \<or> has_path os (sysfs name ''phy80211'') w \<or>
      has_path os (sysfs name ''device/phy80211'') w \<or>
      (\<exists>p\<in>set wifi_prefixes. take (length p) name = p))"

definition skipped_name :: "string \<Rightarrow> bool" where
  "skipped_name name \<longleftrightarrow> take 1 name = ''.'' \<or> name = ''lo''"

text \<open>The names in \<^verbatim>\<open>/proc/net/wireless\<close>, one before the colon of each line.\<close>

definition proc_name :: "string \<Rightarrow> string option" where
  "proc_name line =
     (case strchr line CHR '':'' of
        None \<Rightarrow> None
      | Some k \<Rightarrow>
          let if_start = dropWhile (\<lambda>c. c = CHR 0x20 \<or> c = CHR 0x09) (take k line) in
          if if_start \<noteq> [] \<and> if_start \<noteq> ''Inter-'' \<and> if_start \<noteq> ''face'' then Some if_start else None)"

definition detect_wireless_interface :: "'w posix \<Rightarrow> 'w session \<Rightarrow> string option \<times> 'w session" where
  "detect_wireless_interface os s =
     (let s = run_sys os 4096 ''rfkill unblock wifi 2>/dev/null; rfkill unblock all 2>/dev/null'' s;
          w = world s;
          found = (case list_dir os ''/sys/class/net'' w of
             Inl e \<Rightarrow> None
           | Inr names \<Rightarrow> find (\<lambda>name. \<not> skipped_name name \<and> looks_wireless os name w) names);
          found = (case found of
             Some name \<Rightarrow> Some name
           | None \<Rightarrow> (case read_file os ''/proc/net/wireless'' w of
               Inl e \<Rightarrow> None
             | Inr content \<Rightarrow> (case List.map_filter proc_name (buffers 256 content) of
                 [] \<Rightarrow> None | name # _ \<Rightarrow> Some name)))
      in (map_option (take 63) found, s))"

definition detect_wired_interface :: "'w posix \<Rightarrow> 'w \<Rightarrow> string option" where
  "detect_wired_interface os w =
     (case list_dir os ''/sys/class/net'' w of
        Inl e \<Rightarrow> None
      | Inr names \<Rightarrow>
          map_option (take 63)
            (find (\<lambda>name. \<not> skipped_name name \<and> take 2 name \<noteq> ''wl'' \<and>
                          \<not> has_path os (sysfs name ''wireless'') w \<and> \<not> has_path os (sysfs name ''phy80211'') w) names))"

definition get_ip_address :: "'w netdev \<Rightarrow> string \<Rightarrow> nat \<Rightarrow> 'w \<Rightarrow> string option" where
  "get_ip_address nd iface max_len w =
     (if iface = [] then None
      else case if_address nd (take 15 iface) w of
        None \<Rightarrow> None
      | Some ip \<Rightarrow> if ip \<noteq> ''0.0.0.0'' \<and> ip \<noteq> ''127.0.0.1'' then Some (cut max_len ip) else None)"

definition get_mac_address :: "'w posix \<Rightarrow> string \<Rightarrow> nat \<Rightarrow> 'w \<Rightarrow> string option" where
  "get_mac_address os iface max_len w =
     (if iface = [] then None
      else case read_file os (cut 256 (''/sys/class/net/'' @ iface @ ''/address'')) w of
        Inl e \<Rightarrow> None
      | Inr content \<Rightarrow> (case fgets max_len content of
          None \<Rightarrow> None | Some (line, _) \<Rightarrow> Some (until_newline line)))"

section \<open>Addresses\<close>

definition udhcpc_script :: string where
  "udhcpc_script = concat
    [''#!/bin/sh'' @ nl @ ''[ -n '' @ [CHR 0x22] @ ''$1'' @ [CHR 0x22] @ '' ] || exit 1'' @ nl @ ''case '' @
         [CHR 0x22] @ ''$1'' @ [CHR 0x22] @ '' in'' @ nl @
         ''  deconfig) /bin/ifconfig $interface 0.0.0.0 2>/dev/null ;;'' @ nl @ ''  renew|bound)'' @ nl @
         ''    /bin/ifconfig $interface $ip ${subnet:+netmask $subnet} ${broadcast:+broadcast $broadcast} 2>/dev/null'' @
         nl @ ''    if [ -n '' @ [CHR 0x22] @ ''$router'' @ [CHR 0x22] @ '' ]; then'' @ nl @
         ''      while /bin/route del default gw 0.0.0.0 dev $interface 2>/dev/null; do :; done'' @ nl @
         ''      for r in $router; do /bin/route add default gw $r dev $interface 2>/dev/null; done'' @ nl @
         ''    fi'' @ nl @ ''    echo -n > /etc/resolv.conf'' @ nl @ ''    for d in $dns; do echo '' @
         [CHR 0x22] @ ''nameserver $d'' @ [CHR 0x22] @ '' >> /etc/resolv.conf; done'' @ nl @
         ''    [ -s /etc/resolv.conf ] || printf '' @ [quote] @ ''nameserver 8.8.8.8'' @ [CHR 0x5C] @
         ''nnameserver 1.1.1.1'' @ [CHR 0x5C] @ ''n'' @ [quote] @ '' > /etc/resolv.conf'' @ nl @ ''    ;;'' @ nl @
         ''esac'' @ nl @ ''exit 0'' @ nl]"

definition script_path :: string where "script_path = ''/usr/share/udhcpc/default.script''"

definition ensure_udhcpc_script :: "'w posix \<Rightarrow> 'w \<Rightarrow> 'w" where
  "ensure_udhcpc_script os w =
     (let w = fold (\<lambda>d w. snd (sys_mkdir os d w)) [''/usr'', ''/usr/share'', ''/usr/share/udhcpc''] w in
      case create_file os script_path w of
        Inl e \<Rightarrow> w
      | Inr w \<Rightarrow> sys_chmod os script_path (append_file os script_path udhcpc_script w))"

definition on_session :: "('w \<Rightarrow> 'w) \<Rightarrow> 'w session \<Rightarrow> 'w session" where
  "on_session f s = s\<lparr>world := f (world s)\<rparr>"

definition request_dhcp_lease :: "'w posix \<Rightarrow> 'w netdev \<Rightarrow> string \<Rightarrow> 'w session \<Rightarrow> bool \<times> 'w session" where
  "request_dhcp_lease os nd iface s =
     (let s = on_session (ensure_udhcpc_script os) s;
          s = run_sys os 512
            (''udhcpc -i '' @ iface @ '' -s /usr/share/udhcpc/default.script -n -q -t 5 2>/dev/null || '' @
             ''dhcpcd -t 5 '' @ iface @ '' 2>/dev/null || '' @
             ''dhclient -1 '' @ iface @ '' 2>/dev/null'') s
      in if get_ip_address nd iface 64 (world s) \<noteq> None then (True, s)
         else
           let s = run_sys os 512
                 (''ifconfig '' @ iface @ '' 10.0.2.15 netmask 255.255.255.0 up 2>/dev/null; '' @
                  ''route add default gw 10.0.2.2 dev '' @ iface @ '' 2>/dev/null'') s;
               s = on_session (\<lambda>w. snd (sys_mkdir os ''/etc'' w)) s;
               s = on_session (write_text os ''/etc/resolv.conf''
                     (''nameserver 8.8.8.8'' @ nl @ ''nameserver 1.1.1.1'' @ nl)) s
           in (get_ip_address nd iface 64 (world s) \<noteq> None, s))"

definition if_up :: "'w posix \<Rightarrow> string \<Rightarrow> 'w session \<Rightarrow> 'w session" where
  "if_up os iface = run_sys os 512
     (''ifconfig '' @ iface @ '' up 2>/dev/null || ip link set '' @ iface @ '' up 2>/dev/null'')"

definition configure_wired_interface :: "'w posix \<Rightarrow> 'w netdev \<Rightarrow> string \<Rightarrow> 'w session \<Rightarrow> bool \<times> 'w session" where
  "configure_wired_interface os nd iface s =
     (let s = fputs_all [nl @ csi ''1;36m'' @ ''[Wired Network]'' @ csi ''0m'' @ '' Activating interface '' @ csi ''1m'' @ iface @
         csi ''0m'' @ ''...'' @ nl] s;
          s = if_up os iface s;
          s = fputs_all [csi ''1;36m'' @ ''[Wired Network]'' @ csi ''0m'' @ '' Negotiating DHCP lease on '' @ iface @ ''...'' @ nl] s;
          (success, s) = request_dhcp_lease os nd iface s
      in case (if success then get_ip_address nd iface 64 (world s) else None) of
           Some ip \<Rightarrow> (True, fputs_all
             [nl @ csi ''1;32m'' @ ''===================================================================='' @
         csi ''0m'' @ nl,
      csi ''1;32m'' @ '' [SUCCESS] Wired Network Connected!'' @ csi ''0m'' @ nl,
      '' Interface:   '' @ csi ''1m'' @ iface @ csi ''0m'' @ nl,
      '' IP Address:  '' @ csi ''1;36m'' @ ip @ csi ''0m'' @ nl,
      '' DNS Servers: 8.8.8.8 (Google), 1.1.1.1 (Cloudflare)'' @ nl,
      '' Status:      Connected to internet.'' @ nl,
      csi ''1;32m'' @ ''===================================================================='' @ csi ''0m'' @
         nl @ nl] s)
         | None \<Rightarrow> (False, fputs_all
             [nl @ csi ''1;33m'' @ ''[!] Could not acquire IP address on interface '' @ iface @ ''.'' @ csi ''0m'' @ nl,
      ''Check cable connection or host network settings.'' @ nl @ nl] s))"

section \<open>Scanning\<close>

definition fresh_cell :: "int \<Rightarrow> int \<Rightarrow> wifi_network" where
  "fresh_cell pct ch = \<lparr>ssid_of = [], signal_pct = pct, security = ''Open'', channel = ch, is_open_net = True\<rparr>"

definition skip_blanks :: "string \<Rightarrow> string" where
  "skip_blanks line = dropWhile (\<lambda>c. c = CHR 0x20 \<or> c = CHR 0x09) line"

text \<open>The text after the first occurrence of a key.\<close>

definition after :: "string \<Rightarrow> string \<Rightarrow> string option" where
  "after key p = map_option (\<lambda>k. drop (k + length key) p) (strstr p key)"

definition has :: "string \<Rightarrow> string \<Rightarrow> bool" where
  "has key p \<longleftrightarrow> strstr p key \<noteq> None"

definition read_ssid :: "string \<Rightarrow> wifi_network \<Rightarrow> wifi_network" where
  "read_ssid p cur =
     (case after (''ESSID:'' @ [CHR 0x22]) p of
        None \<Rightarrow> cur
      | Some essid \<Rightarrow> (case strchr essid CHR 0x22 of
          None \<Rightarrow> cur
        | Some len \<Rightarrow> cur\<lparr>ssid_of := take (if len \<ge> 64 then 63 else len) essid\<rparr>))"

definition read_channel :: "string \<Rightarrow> wifi_network \<Rightarrow> wifi_network" where
  "read_channel p cur =
     (case after ''Channel:'' p of
        Some t \<Rightarrow> cur\<lparr>channel := atoi t\<rparr>
      | None \<Rightarrow> (case after ''(Channel '' p of
          Some t \<Rightarrow> cur\<lparr>channel := atoi t\<rparr>
        | None \<Rightarrow> cur))"

definition dbm_pct :: "int \<Rightarrow> int" where
  "dbm_pct pct = (let pct = (if pct < 5 then 5 else pct) in if pct > 100 then 100 else pct)"

definition read_signal :: "string \<Rightarrow> wifi_network \<Rightarrow> wifi_network" where
  "read_signal p cur =
     (case after ''Quality='' p of
        Some t \<Rightarrow>
          let pct = (atoi t * 100) sdiv 70 in cur\<lparr>signal_pct := (if pct > 100 then 100 else pct)\<rparr>
      | None \<Rightarrow> (case after ''Signal level='' p of
          Some t \<Rightarrow> let dbm = atoi t in if dbm < 0 then cur\<lparr>signal_pct := dbm_pct (2 * (dbm + 100))\<rparr> else cur
        | None \<Rightarrow> cur))"

definition read_key :: "string \<Rightarrow> wifi_network \<Rightarrow> wifi_network" where
  "read_key p cur =
     (if has ''Encryption key:off'' p then cur\<lparr>is_open_net := True, security := ''Open''\<rparr>
      else if has ''Encryption key:on'' p then
        (if is_open_net cur then cur\<lparr>is_open_net := False, security := ''WEP''\<rparr> else cur)
      else cur)"

definition read_wpa :: "string \<Rightarrow> wifi_network \<Rightarrow> wifi_network" where
  "read_wpa p cur =
     (if has ''IEEE 802.11i/WPA2'' p \<or> has ''WPA2'' p then cur\<lparr>is_open_net := False, security := ''WPA2-PSK''\<rparr>
      else if has ''WPA3'' p \<or> has ''SAE'' p then cur\<lparr>is_open_net := False, security := ''WPA3-SAE''\<rparr>
      else if has ''WPA Version 1'' p \<or> has ''WPA1'' p then cur\<lparr>is_open_net := False, security := ''WPA-PSK''\<rparr>
      else cur)"

definition read_attributes :: "string \<Rightarrow> wifi_network \<Rightarrow> wifi_network" where
  "read_attributes p cur = read_wpa p (read_key p (read_signal p (read_channel p (read_ssid p cur))))"

text \<open>A finished cell: a network already in the list is replaced by a stronger one of the same name.\<close>

fun stronger :: "wifi_network \<Rightarrow> wifi_network list \<Rightarrow> wifi_network list option" where
  "stronger cur [] = None"
| "stronger cur (n # ns) =
     (if ssid_of n = ssid_of cur then Some ((if signal_pct cur > signal_pct n then cur else n) # ns)
      else map_option ((#) n) (stronger cur ns))"

definition add_cell :: "nat \<Rightarrow> wifi_network \<Rightarrow> wifi_network list \<Rightarrow> wifi_network list" where
  "add_cell max_nets cur networks =
     (if ssid_of cur = [] then networks
      else case stronger cur networks of
        Some ns \<Rightarrow> ns
      | None \<Rightarrow> if length networks < max_nets then networks @ [cur] else networks)"

text \<open>Added only if the name is new.\<close>

definition add_new :: "nat \<Rightarrow> wifi_network \<Rightarrow> wifi_network list \<Rightarrow> wifi_network list" where
  "add_new max_nets cur networks =
     (if ssid_of cur \<noteq> [] \<and> length networks < max_nets \<and> ssid_of cur \<notin> ssid_of ` set networks
      then networks @ [cur] else networks)"

primrec iwlist_loop ::
    "nat \<Rightarrow> string list \<Rightarrow> bool \<Rightarrow> wifi_network \<Rightarrow> wifi_network list \<Rightarrow> bool \<times> wifi_network \<times> wifi_network list" where
  "iwlist_loop max_nets [] in_cell cur networks = (in_cell, cur, networks)"
| "iwlist_loop max_nets (line # rest) in_cell cur networks =
     (if length networks < max_nets then
        let p = skip_blanks line in
        if has ''Cell '' p then
          iwlist_loop max_nets rest True (fresh_cell 50 1) (if in_cell then add_cell max_nets cur networks else networks)
        else if \<not> in_cell then iwlist_loop max_nets rest in_cell cur networks
        else iwlist_loop max_nets rest in_cell (read_attributes p cur) networks
      else (in_cell, cur, networks))"

definition parse_iwlist_scan :: "'w posix \<Rightarrow> string \<Rightarrow> nat \<Rightarrow> 'w \<Rightarrow> wifi_network list" where
  "parse_iwlist_scan os scan_file max_nets w =
     (case read_file os scan_file w of
        Inl e \<Rightarrow> []
      | Inr content \<Rightarrow>
          let (in_cell, cur, networks) = iwlist_loop max_nets (buffers 512 content) False (fresh_cell 50 1) [] in
          if in_cell then add_new max_nets cur networks else networks)"

text \<open>\<^verbatim>\<open>atof\<close> of a decimal number without exponent: numerator and denominator.\<close>

definition atof :: "string \<Rightarrow> int \<times> int" where
  "atof str =
     (let t = dropWhile isspace str;
          neg = (t \<noteq> [] \<and> hd t = CHR ''-'');
          d = (if t \<noteq> [] \<and> hd t \<in> set ''+-'' then tl t else t);
          whole = takeWhile isdigit d; r = dropWhile isdigit d;
          frac = (if r \<noteq> [] \<and> hd r = CHR ''.'' then takeWhile isdigit (tl r) else []);
          num = digits_value (whole @ frac)
      in (if neg then - num else num, 10 ^ length frac))"

definition iw_line :: "string \<Rightarrow> wifi_network \<Rightarrow> wifi_network" where
  "iw_line p cur =
     (if take 6 p = ''SSID: '' then
        let t = until_newline (drop 6 p) in if t \<noteq> [] then cur\<lparr>ssid_of := cut 64 t\<rparr> else cur
      else if take 8 p = ''signal: '' then
        let (num, den) = atof (drop 8 p) in
        if num < 0 then cur\<lparr>signal_pct := dbm_pct ((2 * (num + 100 * den)) div den)\<rparr> else cur
      else if has ''WPA'' p \<or> has ''RSN'' p then cur\<lparr>is_open_net := False, security := ''WPA2-PSK''\<rparr>
      else cur)"

primrec iw_loop ::
    "nat \<Rightarrow> string list \<Rightarrow> wifi_network \<Rightarrow> wifi_network list \<Rightarrow> wifi_network \<times> wifi_network list" where
  "iw_loop max_nets [] cur networks = (cur, networks)"
| "iw_loop max_nets (line # rest) cur networks =
     (if length networks < max_nets then
        let p = skip_blanks line in
        if take 4 p = ''BSS '' then iw_loop max_nets rest (fresh_cell 60 6) (add_new max_nets cur networks)
        else iw_loop max_nets rest (iw_line p cur) networks
      else (cur, networks))"

definition parse_iw_scan :: "'w posix \<Rightarrow> string \<Rightarrow> nat \<Rightarrow> 'w \<Rightarrow> wifi_network list" where
  "parse_iw_scan os scan_file max_nets w =
     (case read_file os scan_file w of
        Inl e \<Rightarrow> []
      | Inr content \<Rightarrow>
          let (cur, networks) = iw_loop max_nets (buffers 512 content) (fresh_cell 60 6) [] in
          if ssid_of cur \<noteq> [] \<and> length networks < max_nets then networks @ [cur] else networks)"

definition scan_file :: string where "scan_file = ''/tmp/wifi_scan.tmp''"

definition scan_wifi_networks :: "'w posix \<Rightarrow> string \<Rightarrow> nat \<Rightarrow> 'w session \<Rightarrow> wifi_network list \<times> 'w session" where
  "scan_wifi_networks os iface max_nets s =
     (if iface = [] then ([], s)
      else
        let s = if_up os iface s;
            s = run_sys os 512 (''iwlist '' @ iface @ '' scan > /tmp/wifi_scan.tmp 2>/dev/null'') s;
            networks = parse_iwlist_scan os scan_file max_nets (world s);
            (networks, s) = (if networks = [] then
                let s = run_sys os 512 (''iw dev '' @ iface @ '' scan > /tmp/wifi_scan.tmp 2>/dev/null'') s
                in (parse_iw_scan os scan_file max_nets (world s), s)
              else (networks, s))
        in (networks, on_session (\<lambda>w. snd (sys_unlink os scan_file w)) s))"

definition signal_bars :: "int \<Rightarrow> string" where
  "signal_bars pct =
     (if pct \<ge> 80 then ''[####]'' else if pct \<ge> 60 then ''[###-]'' else if pct \<ge> 40 then ''[##--]''
      else if pct \<ge> 20 then ''[#---]'' else ''[----]'')"

section \<open>Password entry\<close>

text \<open>The keys are read one by one: the entered text, the end of the process by Ctrl-C, or waiting for
  ever at the end of the input.\<close>

datatype 'w entry = Entered string "'w session" | Cancelled "'w session" | Waits

definition end_raw :: "'w posix \<Rightarrow> 'w session \<Rightarrow> 'w session" where
  "end_raw os s = (if has_tty os (world s) then put (csi ''?25h'') s else s)"

fun password_loop :: "'w posix \<Rightarrow> nat \<Rightarrow> string \<Rightarrow> string \<Rightarrow> 'w session \<Rightarrow> 'w entry" where
  "password_loop os max_len [] buf s = Waits"
| "password_loop os max_len (c # keys) buf s =
     (if c = CHR 0x0A \<or> c = CHR 0x0D then Entered buf (end_raw os (put nl (s\<lparr>typed := keys\<rparr>)))
      else if c = CHR 0x7F \<or> c = CHR 0x08 then
        (if buf \<noteq> [] then password_loop os max_len keys (butlast buf) (put [CHR 0x08, CHR 0x20, CHR 0x08] s)
         else password_loop os max_len keys buf s)
      else if c = CHR 0x03 then
        Cancelled (put (nl @ ''Cancelled.'' @ nl) (end_raw os (s\<lparr>typed := keys\<rparr>)))
      else if 32 \<le> (of_char c :: nat) \<and> (of_char c :: nat) \<le> 126 \<and> length buf < max_len - 1 then
        password_loop os max_len keys (buf @ [c]) (put ''*'' s)
      else password_loop os max_len keys buf s)"

definition get_password_masked :: "'w posix \<Rightarrow> nat \<Rightarrow> 'w session \<Rightarrow> 'w entry" where
  "get_password_masked os max_len s = password_loop os max_len (typed s) [] s"

section \<open>Profiles and connections\<close>

text \<open>A password that is not given is \<^term>\<open>None\<close>.\<close>

definition profile_text :: "string \<Rightarrow> string option \<Rightarrow> bool \<Rightarrow> string" where
  "profile_text ssid password is_open =
     (if is_open then ''SSID='' @ ssid @ nl @ ''SECURITY=Open'' @ nl @ nl
      else ''SSID='' @ ssid @ nl @ ''SECURITY=WPA2'' @ nl @ ''PSK='' @
           (case password of Some pw \<Rightarrow> pw | None \<Rightarrow> []) @ nl @ nl)"

definition save_wifi_profile :: "'w posix \<Rightarrow> string \<Rightarrow> string option \<Rightarrow> bool \<Rightarrow> 'w \<Rightarrow> 'w" where
  "save_wifi_profile os ssid password is_open w =
     (let w = snd (sys_mkdir os WIFI_CONF_DIR w);
          (r, w) = sys_touch os WIFI_HISTORY_FILE w
      in if r = None then append_file os WIFI_HISTORY_FILE (profile_text ssid password is_open) w
         else
           let w = snd (sys_mkdir os LEGACY_CONF_DIR w);
               (r, w) = sys_touch os LEGACY_HISTORY_FILE w
           in if r = None then append_file os LEGACY_HISTORY_FILE (profile_text ssid password is_open) w else w)"

definition disconnect_wifi :: "'w posix \<Rightarrow> string \<Rightarrow> 'w session \<Rightarrow> 'w session" where
  "disconnect_wifi os iface s =
     (let s = fputs_all [''[*] Disconnecting active wireless networks...'' @ nl] s;
          s = run_sys os 4096 ''killall -9 wpa_supplicant udhcpc dhcpcd dhclient 2>/dev/null'' s;
          s = (if iface \<noteq> [] then run_sys os 256 (''ifconfig '' @ iface @ '' 0.0.0.0 down 2>/dev/null'') s else s)
      in fputs_all [''['' @ [CHR 0xE2, CHR 0x9C, CHR 0x93] @ ''] Wireless network disconnected.'' @ nl] s)"

definition wpa_conf :: "string \<Rightarrow> string option \<Rightarrow> bool \<Rightarrow> string" where
  "wpa_conf ssid password is_open =
     (let pass = (case password of Some pw \<Rightarrow> pw | None \<Rightarrow> []) in
      concat ([''ctrl_interface=/var/run/wpa_supplicant'' @ nl,
      ''update_config=1'' @ nl @ nl,
      ''network={'' @ nl,
      ''    ssid='' @ [CHR 0x22] @ ssid @ [CHR 0x22] @ nl] @
        (if is_open then [''    key_mgmt=NONE'' @ nl]
         else [''    psk='' @ [CHR 0x22] @ pass @ [CHR 0x22] @ nl,
      ''    key_mgmt=WPA-PSK WPA-EAP SAE'' @ nl]) @
        [''}'' @ nl]))"

definition connect_wifi ::
    "'w posix \<Rightarrow> 'w netdev \<Rightarrow> string \<Rightarrow> string \<Rightarrow> string option \<Rightarrow> bool \<Rightarrow> 'w session \<Rightarrow> bool \<times> 'w session" where
  "connect_wifi os nd iface ssid password is_open s =
     (let s = fputs_all
            [nl @ csi ''1;36m'' @ ''[Wi-Fi]'' @ csi ''0m'' @ '' Configuring interface '' @ csi ''1m'' @ iface @
         csi ''0m'' @ '' for network: '' @ csi ''1;32m'' @ [CHR 0x22] @ ssid @ [CHR 0x22] @ csi ''0m'' @ nl] s;
          s = on_session (fold (\<lambda>d w. snd (sys_mkdir os d w)) [''/etc'', ''/var'', ''/var/run'', ''/var/run/wpa_supplicant'']) s;
          s = on_session (write_text os ''/tmp/wpa_supplicant.conf'' (wpa_conf ssid password is_open)) s;
          s = fputs_all [csi ''1;36m'' @ ''[Wi-Fi]'' @ csi ''0m'' @ '' Initializing wireless supplicant...'' @ nl] s;
          s = run_sys os 4096 ''killall -9 wpa_supplicant udhcpc 2>/dev/null'' s;
          s = if_up os iface s;
          s = run_sys os 512
            (''wpa_supplicant -B -i '' @ iface @ '' -c /tmp/wpa_supplicant.conf -D nl80211,wext 2>/dev/null'') s;
          s = fputs_all [csi ''1;36m'' @ ''[Wi-Fi]'' @ csi ''0m'' @ '' Associating with Access Point (handshake)...'' @ nl] s;
          s = fputs_all [csi ''1;36m'' @ ''[Wi-Fi]'' @ csi ''0m'' @ '' Requesting IP address via DHCP...'' @ nl] s;
          (has_ip, s) = request_dhcp_lease os nd iface s;
          ip = (case get_ip_address nd iface 64 (world s) of Some ip \<Rightarrow> ip | None \<Rightarrow> []);
          s = on_session (save_wifi_profile os ssid password is_open) s
      in if has_ip \<and> ip \<noteq> [] then
           (True, fputs_all
             [nl @ csi ''1;32m'' @ ''===================================================================='' @
         csi ''0m'' @ nl,
      csi ''1;32m'' @ '' [SUCCESS] Connected to Wi-Fi: '' @ ssid @ csi ''0m'' @ nl,
      '' Interface: '' @ iface @ nl,
      '' IP Address: '' @ csi ''1;36m'' @ ip @ csi ''0m'' @ nl,
      '' Security:   '' @ (if is_open then ''Open (No Password)'' else ''WPA2-PSK (Encrypted)'') @ nl,
      '' DNS:        8.8.8.8 (Google), 1.1.1.1 (Cloudflare)'' @ nl,
      '' Profile:    Saved to '' @ WIFI_HISTORY_FILE @ nl,
      csi ''1;32m'' @ ''===================================================================='' @ csi ''0m'' @
         nl @ nl] s)
         else
           (False, fputs_all
             [nl @ csi ''1;33m'' @ ''[!] Associated with '' @ [CHR 0x22] @ ssid @ [CHR 0x22] @
         '', but no DHCP IP was received.'' @ csi ''0m'' @ nl,
      ''Check if password was correct or if router DHCP pool is accessible.'' @ nl @ nl] s))"

definition adapter_status :: "'w posix \<Rightarrow> 'w netdev \<Rightarrow> string \<Rightarrow> 'w \<Rightarrow> bool \<times> string \<times> string" where
  "adapter_status os nd iface w =
     (get_ip_address nd iface 64 w \<noteq> None,
      case get_ip_address nd iface 64 w of Some ip \<Rightarrow> ip | None \<Rightarrow> ''None'',
      case get_mac_address os iface 64 w of Some mac \<Rightarrow> mac | None \<Rightarrow> ''Unknown'')"

definition print_status :: "'w posix \<Rightarrow> 'w netdev \<Rightarrow> string \<Rightarrow> string \<Rightarrow> 'w session \<Rightarrow> 'w session" where
  "print_status os nd iface wired s =
     (let w = world s;
          s = fputs_all
            [csi ''1;36m'' @ ''+================================================================+'' @ csi ''0m'' @ nl,
      csi ''1;36m'' @ ''|                 JurkOS Network Device Status                   |'' @ csi ''0m'' @ nl,
      csi ''1;36m'' @ ''+================================================================+'' @ csi ''0m'' @
         nl @ nl] s;
          (active1, s) = (if iface \<noteq> [] then
              let (ip_found, ip, mac) = adapter_status os nd iface w in
              (ip_found, fputs_all
                ['' '' @ csi ''1m'' @ ''Wireless Adapter:'' @ csi ''0m'' @ '' '' @ csi ''1;32m'' @ iface @ csi ''0m'' @ nl,
      ''   MAC Address:     '' @ mac @ nl,
      ''   IPv4 Address:    '' @ (if ip_found then csi ''1;32m'' else csi ''1;33m'') @ ip @ csi ''0m'' @ nl,
      ''   Hardware Status: Present'' @ nl @ nl] s)
            else (False, fputs_all
                ['' '' @ csi ''1m'' @ ''Wireless Adapter:'' @ csi ''0m'' @ '' '' @ csi ''1;33m'' @ ''Not detected'' @
         csi ''0m'' @ '' (Check USB dongle or physical antenna)'' @ nl @ nl] s));
          (active2, s) = (if wired \<noteq> [] then
              let (ip_found, ip, mac) = adapter_status os nd wired w in
              (ip_found, fputs_all
                ['' '' @ csi ''1m'' @ ''Wired Ethernet:'' @ csi ''0m'' @ ''   '' @ csi ''1;32m'' @ wired @ csi ''0m'' @ nl,
      ''   MAC Address:     '' @ mac @ nl,
      ''   IPv4 Address:    '' @ (if ip_found then csi ''1;32m'' else csi ''1;33m'') @ ip @ csi ''0m'' @ nl,
      ''   Hardware Status: Present'' @ nl @ nl] s)
            else (False, fputs_all ['' '' @ csi ''1m'' @ ''Wired Ethernet:'' @ csi ''0m'' @ ''   Not detected'' @ nl @ nl] s));
          s = fputs_all ['' '' @ csi ''1m'' @ ''Internet Connectivity:'' @ csi ''0m'' @ '' ''] s;
          s = (if dns_reachable nd w then
                 fputs_all [csi ''1;32m'' @ ''Online (Gateway and DNS reachable)'' @ csi ''0m'' @ nl] s
               else if active1 \<or> active2 then
                 fputs_all [csi ''1;33m'' @ ''Local LAN Only (No outside routing yet)'' @ csi ''0m'' @ nl] s
               else fputs_all [csi ''1;31m'' @ ''Offline'' @ csi ''0m'' @ nl] s)
      in put nl s)"

primrec profiles_loop :: "string list \<Rightarrow> nat \<Rightarrow> 'w session \<Rightarrow> 'w session" where
  "profiles_loop [] idx s = s"
| "profiles_loop (line # rest) idx s =
     (if take 5 line = ''SSID='' then
        let ssid = until_newline (drop 5 line) in
        profiles_loop rest (idx + 1) (fputs_all [''  ['' @ show_num (int idx) @ ''] SSID: '' @ csi ''1m'' @ ssid @ csi ''0m'' @ nl] s)
      else profiles_loop rest idx s)"

definition list_saved_profiles :: "'w posix \<Rightarrow> 'w session \<Rightarrow> 'w session" where
  "list_saved_profiles os s =
     (let s = fputs_all [csi ''1;36m'' @ ''Saved Wi-Fi Profiles:'' @ csi ''0m'' @ nl] s;
          w = world s
      in case (case read_file os WIFI_HISTORY_FILE w of
                 Inl e \<Rightarrow> read_file os LEGACY_HISTORY_FILE w | Inr content \<Rightarrow> Inr content) of
           Inl e \<Rightarrow> fputs_all [''  No saved Wi-Fi profiles found.'' @ nl] s
         | Inr content \<Rightarrow> profiles_loop (buffers 256 content) 1 s)"

section \<open>The command line\<close>

definition print_help :: "string \<Rightarrow> string list" where
  "print_help prog =
    [''JurkOS Network & Wi-Fi Manager'' @ nl,
      ''Usage:'' @ nl,
      ''  '' @ prog @ ''                      Launch interactive network selector'' @ nl,
      ''  '' @ prog @ '' scan                 Scan airwaves and list nearby wireless networks'' @ nl,
      ''  '' @ prog @ '' connect <SSID> [pw]  Connect to a Wi-Fi network'' @ nl,
      ''  '' @ prog @ '' status               Display active network status and IP address'' @ nl,
      ''  '' @ prog @ '' eth                  Activate and configure wired Ethernet DHCP'' @ nl,
      ''  '' @ prog @ '' disconnect           Disconnect wireless association'' @ nl,
      ''  '' @ prog @ '' saved                List saved Wi-Fi networks'' @ nl]"

definition cli_row :: "nat \<Rightarrow> wifi_network \<Rightarrow> string" where
  "cli_row i n =
     ''  ['' @ show_num (int i + 1) @ '']  '' @ pad_right 24 (ssid_of n) @ '' '' @
         pad_left 3 (show_num (signal_pct n)) @ ''%'' @ ''    '' @ pad_right 8 (signal_bars (signal_pct n)) @
         '' '' @ pad_right 12 (security n) @ '' Ch '' @ pad_right 2 (show_num (channel n)) @ nl"

definition screen_row :: "nat \<Rightarrow> wifi_network \<Rightarrow> string" where
  "screen_row i n =
     (let sec_color = (if is_open_net n then csi ''1;32m'' else csi ''1;33m'') in
     ''  ['' @ show_num (int i + 1) @ '']  '' @ pad_right 24 (ssid_of n) @ '' '' @
         pad_left 3 (show_num (signal_pct n)) @ ''%'' @ ''    '' @ pad_right 8 (signal_bars (signal_pct n)) @
         '' '' @ sec_color @ pad_right 12 (security n) @ csi ''0m'' @ '' Ch '' @
         pad_right 2 (show_num (channel n)) @ nl)"

text \<open>The exit code, \<^term>\<open>None\<close> where the interactive mode follows.\<close>

definition wifi_cli ::
    "'w posix \<Rightarrow> 'w netdev \<Rightarrow> string list \<Rightarrow> string option \<Rightarrow> string option \<Rightarrow> 'w session \<Rightarrow> nat option \<times> 'w session" where
  "wifi_cli os nd argv hw wired_if s =
     (let iface = (case hw of Some i \<Rightarrow> i | None \<Rightarrow> []); wired = (case wired_if of Some i \<Rightarrow> i | None \<Rightarrow> []);
          verb = (if length argv \<ge> 2 then argv ! 1 else [])
      in if length argv < 2 then (None, s)
         else if verb = ''help'' \<or> verb = ''--help'' \<or> verb = ''-h'' then (Some 0, fputs_all (print_help (hd argv)) s)
         else if verb = ''status'' then (Some 0, print_status os nd iface wired s)
         else if verb = ''disconnect'' then (Some 0, disconnect_wifi os iface s)
         else if verb = ''saved'' \<or> verb = ''list'' then (Some 0, list_saved_profiles os s)
         else if verb = ''eth'' \<or> verb = ''wired'' then
           (if wired_if = None then (Some 1, fputs_all [''Error: No wired Ethernet adapter found.'' @ nl] s)
            else let (ok, s) = configure_wired_interface os nd wired s in (Some (if ok then 0 else 1), s))
         else if verb = ''scan'' then
           (if hw = None then (Some 1, fputs_all [''Error: No wireless hardware interface detected.'' @ nl] s)
            else
              let s = fputs_all [''Scanning nearby Wi-Fi networks on '' @ iface @ ''...'' @ nl @ nl] s;
                  (networks, s) = scan_wifi_networks os iface MAX_NETWORKS s
              in if networks = [] then (Some 0, fputs_all [''No wireless networks found in range.'' @ nl] s)
                 else (Some 0, fputs_all
                   ([''  '' @ pad_right 4 (''#'') @ '' '' @ pad_right 24 (''SSID'') @ '' '' @ pad_right 8 (''SIGNAL'') @
         '' '' @ pad_right 8 (''BARS'') @ '' '' @ pad_right 12 (''SECURITY'') @ '' '' @ ''CHANNEL'' @ nl,
      ''  ----------------------------------------------------------------'' @ nl] @
                    map (\<lambda>(i, n). cli_row i n) (enumerate 0 networks)) s))
         else if verb = ''connect'' then
           (if length argv < 3 then (Some 1, fputs_all [''Usage: '' @ hd argv @ '' connect <SSID> [password]'' @ nl] s)
            else if hw = None then (Some 1, fputs_all [''Error: No wireless hardware interface found.'' @ nl] s)
            else
              let pass = (if length argv \<ge> 4 then Some (argv ! 3) else None);
                  is_open = (pass = None \<or> pass = Some []);
                  (ok, s) = connect_wifi os nd iface (argv ! 2) pass is_open s
              in (Some (if ok then 0 else 1), s))
         else (None, s))"

section \<open>The interactive screen\<close>

datatype 'w wifi_step = Again "'w session" | Leaves "'w session" | Interrupted_by "'w session" | Blocks

definition press_enter :: "'w session \<Rightarrow> 'w wifi_step" where
  "press_enter s = Again (snd (getkey (put ''Press Enter to continue...'' s)))"

definition title_screen :: "string list" where
  "title_screen =
    [csi ''H'' @ csi ''J'',
      csi ''1;36m'' @ ''+================================================================+'' @ csi ''0m'' @ nl,
      csi ''1;36m'' @ ''|                 JurkOS Network & Wi-Fi Manager                 |'' @ csi ''0m'' @ nl,
      csi ''1;36m'' @ ''+================================================================+'' @ csi ''0m'' @ nl]"

definition no_adapter_screen :: "string option \<Rightarrow> string option \<Rightarrow> string list" where
  "no_adapter_screen wired_if wired_addr =
     (let wired_detected = (wired_if \<noteq> None);
          wired = (case wired_if of Some i \<Rightarrow> i | None \<Rightarrow> []);
          wired_ip = (case wired_addr of Some i \<Rightarrow> i | None \<Rightarrow> [])
      in [nl @ csi ''1;37;44m'' @ ''                                                                    '' @
         csi ''0m'' @ nl,
      csi ''1;37;44m'' @ ''     Oops, Looks like your computer dosen'' @ [quote] @
         ''t have a WI-FI Adapter    '' @ csi ''0m'' @ nl,
      csi ''1;37;44m'' @ ''                                                                    '' @
         csi ''0m'' @ nl @ nl,
      '' '' @ csi ''1m'' @ ''Why is this happening?'' @ csi ''0m'' @ nl,
      '' - Virtual machines (like QEMU, VirtualBox, VMware) only emulate'' @ nl,
      ''   wired Ethernet ('' @ (if wired_detected then wired else ''eth0'') @
         ''). They do NOT expose your host laptop/PC'' @ nl,
      ''   Wi-Fi antenna as a wireless device to the guest operating system.'' @ nl,
      '' - To use real Wi-Fi in JurkOS:'' @ nl,
      ''   * Boot JurkOS directly on physical hardware (USB drive), OR'' @ nl,
      ''   * Pass through a physical USB Wi-Fi dongle into QEMU.'' @ nl @ nl,
      '' '' @ csi ''1;36m'' @ ''Current Wired Connection Status:'' @ csi ''0m'' @ nl] @
       (if wired_detected then
          [''   Wired Interface: '' @ csi ''1m'' @ wired @ csi ''0m'' @ nl] @
          (if wired_addr \<noteq> None then
             [''   IP Address:      '' @ csi ''1;32m'' @ wired_ip @ csi ''0m'' @ '' (Active & Online)'' @ nl,
      ''   Internet Access: '' @ csi ''1;32m'' @ ''Connected via Host Bridge'' @ csi ''0m'' @ nl]
           else [''   IP Address:      '' @ csi ''1;33m'' @ ''None assigned yet'' @ csi ''0m'' @ nl,
      ''   Internet Access: Not configured'' @ nl])
        else [''   No network interfaces found.'' @ nl]) @
       [nl @ '' ----------------------------------------------------------------'' @ nl] @
       (if wired_detected then [''  '' @ csi ''1m'' @ ''[1]'' @ csi ''0m'' @ '' Configure / Renew Wired Ethernet ('' @ wired @
         '' DHCP)'' @ nl] else []) @
       [''  '' @ csi ''1m'' @ ''[R]'' @ csi ''0m'' @ '' Rescan for Wi-Fi adapter (plug in USB dongle)'' @ nl,
      ''  '' @ csi ''1m'' @ ''[M]'' @ csi ''0m'' @ '' Manually specify Wi-Fi interface name'' @ nl,
      ''  '' @ csi ''1m'' @ ''[Q]'' @ csi ''0m'' @ '' Return to JurkOS shell'' @ nl @ nl,
      csi ''1m'' @ ''Select action [1, R, M, Q]: '' @ csi ''0m''])"

text \<open>Without an adapter. A name typed after \<^verbatim>\<open>m\<close> is stored and lost again: the next round starts with
  a new detection.\<close>

definition wired_round :: "'w posix \<Rightarrow> 'w netdev \<Rightarrow> string option \<Rightarrow> 'w session \<Rightarrow> 'w wifi_step" where
  "wired_round os nd wired_if s =
     (let wired = (case wired_if of Some i \<Rightarrow> i | None \<Rightarrow> []);
          addr = (if wired_if \<noteq> None then get_ip_address nd wired 64 (world s) else None);
          s = fputs_all (no_adapter_screen wired_if addr) s
      in case read_line 128 s of
           None \<Rightarrow> Leaves s
         | Some (line, s) \<Rightarrow>
             let input = until_newline line in
             if same_word input ''q'' \<or> input = ''exit'' then Leaves (fputs_all [''Exiting Network Manager.'' @ nl] s)
             else if same_word input ''r'' then Again s
             else if same_word input ''1'' \<and> wired_if \<noteq> None then
               press_enter (snd (configure_wired_interface os nd wired s))
             else if same_word input ''m'' then
               let s = fputs_all [nl @ ''Enter wireless interface name (e.g. wlan0, wlan1): ''] s in
               (case read_line 64 s of None \<Rightarrow> Again s | Some (_, s) \<Rightarrow> Again s)
             else Again s)"

definition networks_screen :: "string \<Rightarrow> string option \<Rightarrow> wifi_network list \<Rightarrow> string list" where
  "networks_screen iface wired_if networks =
     (let wired = (case wired_if of Some i \<Rightarrow> i | None \<Rightarrow> []) in
      (if networks = [] then
         [''  '' @ csi ''1;33m'' @ ''[!] No wireless networks found in range of '' @ iface @ ''.'' @ csi ''0m'' @
         nl,
      ''  Make sure your antenna is attached, Wi-Fi kill switch is off,'' @ nl,
      ''  or connect to a hidden SSID using [M].'' @ nl @ nl]
       else
         [''   '' @ csi ''1m'' @ pad_right 4 (''#'') @ '' '' @ pad_right 24 (''SSID'') @ '' '' @
         pad_right 8 (''SIGNAL'') @ '' '' @ pad_right 8 (''BARS'') @ '' '' @ pad_right 12 (''SECURITY'') @ '' '' @
         ''CHANNEL'' @ csi ''0m'' @ nl,
      ''  ----------------------------------------------------------------'' @ nl] @
         map (\<lambda>(i, n). screen_row i n) (enumerate 0 networks) @
         [''  ----------------------------------------------------------------'' @ nl]) @
      [''  '' @ csi ''1m'' @ ''[M]'' @ csi ''0m'' @ '' Connect to hidden/manual SSID'' @ nl,
      ''  '' @ csi ''1m'' @ ''[R]'' @ csi ''0m'' @ '' Rescan nearby networks'' @ nl] @
      (if wired_if \<noteq> None then [''  '' @ csi ''1m'' @ ''[E]'' @ csi ''0m'' @ '' Switch to Wired Ethernet ('' @ wired @ '')'' @ nl] else []) @
      [''  '' @ csi ''1m'' @ ''[S]'' @ csi ''0m'' @ '' Network Status & Internet diagnostics'' @ nl,
      ''  '' @ csi ''1m'' @ ''[Q]'' @ csi ''0m'' @ '' Quit to JurkOS shell'' @ nl @ nl] @
      (if networks \<noteq> [] then
         [csi ''1m'' @ ''Select Wi-Fi network [1-'' @ show_num (int (length networks)) @ '', M, R, S, Q]: '' @
         csi ''0m'']
       else [csi ''1m'' @ ''Select option [M, R, S, Q]: '' @ csi ''0m'']))"

definition manual_connect :: "'w posix \<Rightarrow> 'w netdev \<Rightarrow> string \<Rightarrow> 'w session \<Rightarrow> 'w wifi_step" where
  "manual_connect os nd iface s =
     (let s = fputs_all [nl @ ''Enter Wi-Fi SSID: ''] s in
      case read_line 64 s of
        None \<Rightarrow> Again s
      | Some (line, s) \<Rightarrow>
          let manual_ssid = until_newline line in
          if manual_ssid = [] then Again s
          else
            let s = fputs_all [''Is this network password-protected? (y/N): ''] s in
            (case read_line 16 s of
               None \<Rightarrow> Again s
             | Some (line, s) \<Rightarrow>
                 let has_sec = until_newline line in
                 if same_word has_sec ''y'' \<or> same_word has_sec ''yes'' then
                   let s = fputs_all [''Enter Wi-Fi password for '' @ [CHR 0x22] @ manual_ssid @ [CHR 0x22] @ '': ''] s in
                   (case get_password_masked os 128 s of
                      Waits \<Rightarrow> Blocks
                    | Cancelled s \<Rightarrow> Interrupted_by s
                    | Entered pw s \<Rightarrow> press_enter (snd (connect_wifi os nd iface manual_ssid (Some pw) False s)))
                 else
                   let s = fputs_all [''Connecting to open network '' @ [CHR 0x22] @ manual_ssid @ [CHR 0x22] @ ''...'' @ nl] s in
                   press_enter (snd (connect_wifi os nd iface manual_ssid None True s))))"

definition choose_network :: "'w posix \<Rightarrow> 'w netdev \<Rightarrow> string \<Rightarrow> wifi_network \<Rightarrow> 'w session \<Rightarrow> 'w wifi_step" where
  "choose_network os nd iface n s =
     (if is_open_net n then
        let s = fputs_all
              [nl @ csi ''1;32m'' @ [CHR 0x22] @ ssid_of n @ [CHR 0x22] @
         '' is an open network (no password required).'' @ csi ''0m'' @ nl,
      ''Connecting immediately...'' @ nl] s in
        press_enter (snd (connect_wifi os nd iface (ssid_of n) None True s))
      else
        let s = fputs_all [nl @ ''Enter Wi-Fi password for '' @ csi ''1;32m'' @ [CHR 0x22] @ ssid_of n @ [CHR 0x22] @ csi ''0m'' @
         '': ''] s in
        case get_password_masked os 128 s of
          Waits \<Rightarrow> Blocks
        | Cancelled s \<Rightarrow> Interrupted_by s
        | Entered pw s \<Rightarrow>
            if pw = [] then
              Again (snd (getkey (fputs_all [csi ''1;31m'' @ ''Password cannot be empty.'' @ csi ''0m'' @ '' Press Enter to retry...''] s)))
            else press_enter (snd (connect_wifi os nd iface (ssid_of n) (Some pw) False s)))"

definition wireless_round :: "'w posix \<Rightarrow> 'w netdev \<Rightarrow> string \<Rightarrow> string option \<Rightarrow> 'w session \<Rightarrow> 'w wifi_step" where
  "wireless_round os nd iface wired_if s =
     (let s = fputs_all
            ['' Wireless Interface: '' @ csi ''1;32m'' @ iface @ '' [Hardware Ready]'' @ csi ''0m'' @ nl,
      '' Scanning airwaves for nearby Wi-Fi networks...'' @ nl @ nl] s;
          (networks, s) = scan_wifi_networks os iface MAX_NETWORKS s;
          s = fputs_all (networks_screen iface wired_if networks) s;
          wired = (case wired_if of Some i \<Rightarrow> i | None \<Rightarrow> [])
      in case read_line 128 s of
           None \<Rightarrow> Leaves s
         | Some (line, s) \<Rightarrow>
             let input = until_newline line in
             if same_word input ''q'' \<or> input = ''exit'' then Leaves (fputs_all [''Exiting Wi-Fi manager.'' @ nl] s)
             else if same_word input ''r'' then Again s
             else if same_word input ''s'' then press_enter (print_status os nd iface wired s)
             else if same_word input ''e'' \<and> wired_if \<noteq> None then
               press_enter (snd (configure_wired_interface os nd wired s))
             else if same_word input ''m'' then manual_connect os nd iface s
             else
               let choice = atoi input in
               if 1 \<le> choice \<and> choice \<le> int (length networks)
               then choose_network os nd iface (networks ! nat (choice - 1)) s
               else Again (snd (getkey (fputs_all
                      [csi ''1;31m'' @ ''Invalid selection.'' @ csi ''0m'' @ '' Press Enter to try again...''] s))))"

definition wifi_round :: "'w posix \<Rightarrow> 'w netdev \<Rightarrow> 'w session \<Rightarrow> 'w wifi_step" where
  "wifi_round os nd s =
     (let (hw, s) = detect_wireless_interface os s;
          wired_if = detect_wired_interface os (world s);
          s = fputs_all title_screen s
      in case hw of
           None \<Rightarrow> wired_round os nd wired_if s
         | Some iface \<Rightarrow> wireless_round os nd iface wired_if s)"

partial_function (option) wifi_loop :: "'w posix \<Rightarrow> 'w netdev \<Rightarrow> 'w session \<Rightarrow> (nat \<times> 'w session) option" where
  "wifi_loop os nd s =
     (case wifi_round os nd s of
        Again s' \<Rightarrow> wifi_loop os nd s'
      | Leaves s' \<Rightarrow> Some (0, s')
      | Interrupted_by s' \<Rightarrow> Some (0, s')
      | Blocks \<Rightarrow> None)"

definition wifi_main :: "'w posix \<Rightarrow> 'w netdev \<Rightarrow> string list \<Rightarrow> 'w session \<Rightarrow> (nat \<times> 'w session) option" where
  "wifi_main os nd argv s =
     (let (hw, s) = detect_wireless_interface os s;
          wired_if = detect_wired_interface os (world s)
      in case wifi_cli os nd argv hw wired_if s of
           (Some code, s) \<Rightarrow> Some (code, s)
         | (None, s) \<Rightarrow> wifi_loop os nd s)"


section \<open>The scan\<close>

text \<open>What the screens rely on in a network of the list: a name that fits its array, a percentage, and the
  open flag in agreement with the security shown.\<close>

definition cell_ok :: "wifi_network \<Rightarrow> bool" where
  "cell_ok n \<longleftrightarrow> length (ssid_of n) < 64 \<and> signal_pct n \<le> 100 \<and> (is_open_net n \<longleftrightarrow> security n = ''Open'')"

definition networks_ok :: "nat \<Rightarrow> wifi_network list \<Rightarrow> bool" where
  "networks_ok k ns \<longleftrightarrow> length ns \<le> k \<and> (\<forall>n\<in>set ns. ssid_of n \<noteq> [] \<and> cell_ok n)"

lemma fresh_cell_ok: "pct \<le> 100 \<Longrightarrow> cell_ok (fresh_cell pct ch)"
  by (simp add: cell_ok_def fresh_cell_def)

lemma read_ssid_ok: "cell_ok cur \<Longrightarrow> cell_ok (read_ssid p cur)"
  by (auto simp: cell_ok_def read_ssid_def split: option.splits)

lemma read_channel_ok: "cell_ok cur \<Longrightarrow> cell_ok (read_channel p cur)"
  by (auto simp: cell_ok_def read_channel_def split: option.splits)

lemma dbm_pct_range: "5 \<le> dbm_pct x" "dbm_pct x \<le> 100"
  by (auto simp: dbm_pct_def Let_def)

lemma read_signal_ok: "cell_ok cur \<Longrightarrow> cell_ok (read_signal p cur)"
  by (auto simp: cell_ok_def read_signal_def Let_def dbm_pct_range split: option.splits)

lemma read_key_ok: "cell_ok cur \<Longrightarrow> cell_ok (read_key p cur)"
  by (auto simp: cell_ok_def read_key_def)

lemma read_wpa_ok: "cell_ok cur \<Longrightarrow> cell_ok (read_wpa p cur)"
  by (auto simp: cell_ok_def read_wpa_def)

lemma read_attributes_ok: "cell_ok cur \<Longrightarrow> cell_ok (read_attributes p cur)"
  by (simp add: read_attributes_def read_ssid_ok read_channel_ok read_signal_ok read_key_ok read_wpa_ok)

lemma cut_shorter: "0 < n \<Longrightarrow> length (cut n str) < n"
  by (simp add: cut_def)

lemma iw_line_ok: "cell_ok cur \<Longrightarrow> cell_ok (iw_line p cur)"
  by (auto simp: cell_ok_def iw_line_def Let_def case_prod_beta dbm_pct_range cut_shorter)

lemma stronger_names: "stronger cur ns = Some ms \<Longrightarrow> map ssid_of ms = map ssid_of ns"
  by (induction ns arbitrary: ms) (auto split: if_splits)

lemma stronger_set: "stronger cur ns = Some ms \<Longrightarrow> set ms \<subseteq> insert cur (set ns)"
  by (induction ns arbitrary: ms) (auto split: if_splits)

lemma stronger_None: "stronger cur ns = None \<longleftrightarrow> ssid_of cur \<notin> ssid_of ` set ns"
  by (induction ns) auto

text \<open>Both ways of adding a finished cell keep the list well formed and its names different.\<close>

lemma add_cell_ok: "networks_ok k ns \<Longrightarrow> cell_ok cur \<Longrightarrow> networks_ok k (add_cell k cur ns)"
  using stronger_set [of cur ns] arg_cong [OF stronger_names [of cur ns], of _ length]
  by (auto simp: networks_ok_def add_cell_def split: option.splits)

lemma add_cell_distinct: "distinct (map ssid_of ns) \<Longrightarrow> distinct (map ssid_of (add_cell k cur ns))"
  by (auto simp: add_cell_def stronger_names stronger_None split: option.splits)

lemma add_new_ok: "networks_ok k ns \<Longrightarrow> cell_ok cur \<Longrightarrow> networks_ok k (add_new k cur ns)"
  by (auto simp: networks_ok_def add_new_def)

lemma add_new_distinct: "distinct (map ssid_of ns) \<Longrightarrow> distinct (map ssid_of (add_new k cur ns))"
  by (auto simp: add_new_def)

lemma iwlist_loop_ok:
  assumes "iwlist_loop k ls in_cell cur ns = (i, c, ms)" and "networks_ok k ns" and "cell_ok cur"
  shows "networks_ok k ms \<and> cell_ok c"
  using assms
  by (induction ls arbitrary: in_cell cur ns)
     (auto simp: Let_def fresh_cell_ok add_cell_ok read_attributes_ok split: if_splits)

lemma iwlist_loop_distinct:
  assumes "iwlist_loop k ls in_cell cur ns = (i, c, ms)" and "distinct (map ssid_of ns)"
  shows "distinct (map ssid_of ms)"
  using assms
  by (induction ls arbitrary: in_cell cur ns) (auto simp: Let_def add_cell_distinct split: if_splits)

lemma iw_loop_ok:
  assumes "iw_loop k ls cur ns = (c, ms)" and "networks_ok k ns" and "cell_ok cur"
  shows "networks_ok k ms \<and> cell_ok c"
  using assms
  by (induction ls arbitrary: cur ns) (auto simp: Let_def fresh_cell_ok add_new_ok iw_line_ok split: if_splits)

lemma networks_ok_Nil: "networks_ok k []"
  by (simp add: networks_ok_def)

lemma parse_iwlist_ok: "networks_ok k (parse_iwlist_scan os f k w)"
  using iwlist_loop_ok [OF _ networks_ok_Nil fresh_cell_ok [of 50]]
  by (auto simp: parse_iwlist_scan_def networks_ok_Nil add_new_ok split: sum.splits prod.splits)

lemma parse_iw_ok: "networks_ok k (parse_iw_scan os f k w)"
proof (cases "read_file os f w")
  case (Inr content)
  obtain c ms where l: "iw_loop k (buffers 512 content) (fresh_cell 60 6) [] = (c, ms)" by force
  have "networks_ok k ms \<and> cell_ok c" by (rule iw_loop_ok [OF l networks_ok_Nil fresh_cell_ok]) simp
  then show ?thesis using Inr l by (auto simp: parse_iw_scan_def networks_ok_def)
qed (simp add: parse_iw_scan_def networks_ok_Nil)

lemma scan_networks_ok: "networks_ok k (fst (scan_wifi_networks os iface k s))"
  by (simp add: scan_wifi_networks_def Let_def parse_iwlist_ok parse_iw_ok networks_ok_Nil)

text \<open>C28: A scan with \<^verbatim>\<open>iwlist\<close> lists no network twice, at most as many as the array holds, and each
  with a name shorter than its array, a level of at most 100 percent and the open flag exactly when the
  security shown is open. The same holds, but for the names being different, of what the two scans give
  together.\<close>

theorem wifi_scan_distinct:
  "distinct (map ssid_of (parse_iwlist_scan os f k w)) \<and> networks_ok k (parse_iwlist_scan os f k w) \<and>
   networks_ok k (fst (scan_wifi_networks os iface k s))"
proof -
  have "distinct (map ssid_of (parse_iwlist_scan os f k w))"
    using iwlist_loop_distinct [of k _ False "fresh_cell 50 1" "[]"]
    by (auto simp: parse_iwlist_scan_def add_new_distinct split: sum.splits prod.splits)
  then show ?thesis by (simp add: parse_iwlist_ok scan_networks_ok)
qed

text \<open>The other parser adds the last network without comparing its name.\<close>

definition iw_text :: string where
  "iw_text = concat [''BSS 1'' @ nl, ''SSID: a'' @ nl, ''BSS 2'' @ nl, ''SSID: a'' @ nl]"

lemma iw_lists_twice: "map ssid_of (parse_iw_scan map_posix ''f'' 64 [''f'' \<mapsto> iw_text]) = [''a'', ''a'']"
proof -
  have "short_lines 512 iw_text"
    by (simp add: iw_text_def short_lines_def)
  moreover have "lines_of iw_text = [''BSS 1'' @ nl, ''SSID: a'' @ nl, ''BSS 2'' @ nl, ''SSID: a'' @ nl]"
    by (simp add: iw_text_def)
  ultimately show ?thesis
    by (simp add: parse_iw_scan_def buffers_lines map_posix_def skip_blanks_def add_new_def fresh_cell_def iw_line_def
          until_newline_def cut_def c_text_def Let_def)
qed

section \<open>Passwords\<close>

lemma end_raw_simps [simp]:
  "typed (end_raw os s) = typed s" "world (end_raw os s) = world s"
  by (simp_all add: end_raw_def)

definition printable :: "char \<Rightarrow> bool" where
  "printable c \<longleftrightarrow> 32 \<le> (of_char c :: nat) \<and> (of_char c :: nat) \<le> 126"

lemma password_loop_fits:
  assumes "password_loop os n keys buf s = Entered pw t" and "length buf < n" and "list_all printable buf"
  shows "length pw < n \<and> list_all printable pw"
  using assms
proof (induction keys arbitrary: buf s)
  case (Cons c keys)
  have d: "length (butlast buf) < n" "list_all printable (butlast buf)"
    using Cons.prems(2,3) by (auto simp: list_all_iff dest: in_set_butlastD)
  consider "c = CHR 0x0A \<or> c = CHR 0x0D" | "c = CHR 0x7F \<or> c = CHR 0x08" | "c = CHR 0x03"
    | "c \<notin> {CHR 0x0A, CHR 0x0D, CHR 0x7F, CHR 0x08, CHR 0x03}" by auto
  then show ?case
  proof cases
    case 2
    then show ?thesis
      using Cons.prems Cons.IH [OF _ d] Cons.IH [OF _ Cons.prems(2,3)] by (auto split: if_splits)
  next
    case 4
    show ?thesis
    proof (cases "printable c \<and> length buf < n - 1")
      case True
      then have "password_loop os n keys (buf @ [c]) (put ''*'' s) = Entered pw t"
        using Cons.prems(1) 4 by (simp add: printable_def)
      moreover have "length (buf @ [c]) < n" using True by auto
      ultimately show ?thesis using Cons.IH [of "buf @ [c]"] Cons.prems(3) True by simp
    next
      case False
      then have "password_loop os n keys buf s = Entered pw t"
        using Cons.prems(1) 4 by (auto simp: printable_def split: if_splits)
      then show ?thesis using Cons.IH Cons.prems(2,3) by simp
    qed
  qed (use Cons.prems in auto)
qed simp

lemma printable_key:
  "printable c \<Longrightarrow> c \<noteq> CHR 0x0A \<and> c \<noteq> CHR 0x0D \<and> c \<noteq> CHR 0x7F \<and> c \<noteq> CHR 0x08 \<and> c \<noteq> CHR 0x03"
  by (auto simp: printable_def)

lemma password_loop_echo:
  assumes "list_all printable pw" and "length buf + length pw < n"
  shows "password_loop os n (pw @ CHR 0x0A # rest) buf s =
    Entered (buf @ pw) (end_raw os (put (replicate (length pw) CHR ''*'' @ nl) (s\<lparr>typed := rest\<rparr>)))"
  using assms
proof (induction pw arbitrary: buf s)
  case (Cons c pw)
  then show ?case using printable_key [of c] by (simp add: printable_def put_def)
qed (simp add: put_def)

text \<open>A password of printable characters that fits the buffer is read back whole, and of the typing
  the screen shows one star per character and nothing else.\<close>

theorem password_stars_only:
  assumes "typed s = pw @ CHR 0x0A # rest" and "list_all printable pw" and "length pw < n"
  shows "get_password_masked os n s =
    Entered pw (end_raw os (put (replicate (length pw) CHR ''*'' @ nl) (s\<lparr>typed := rest\<rparr>)))"
  using password_loop_echo [of pw "[]" n os rest s] assms by (simp add: get_password_masked_def)

theorem password_stars_only_witness:
  "get_password_masked map_posix 128 \<lparr>typed = ''ab'' @ CHR 0x0A # ''q'', printed = [], world = Map.empty\<rparr> =
     Entered ''ab'' \<lparr>typed = ''q'', printed = ''**'' @ nl @ csi ''?25h'', world = Map.empty\<rparr>"
  using password_stars_only [of "\<lparr>typed = ''ab'' @ CHR 0x0A # ''q'', printed = [], world = Map.empty\<rparr>" "''ab''" "''q''" 128
      map_posix]
  by (simp add: printable_def end_raw_def put_def map_posix_def)

section \<open>Profiles\<close>

type_synonym profile = "string \<times> string option \<times> bool"

definition history_text :: "profile list \<Rightarrow> string" where
  "history_text ps = concat (map (\<lambda>(ssid, password, is_open). profile_text ssid password is_open) ps)"

definition one_line :: "nat \<Rightarrow> string \<Rightarrow> bool" where
  "one_line n str \<longleftrightarrow> plain str \<and> CHR 0x0A \<notin> set str \<and> CHR 0x0D \<notin> set str \<and> length str < n"

definition profile_ok :: "profile \<Rightarrow> bool" where
  "profile_ok p = (case p of (ssid, password, is_open) \<Rightarrow>
     one_line 64 ssid \<and> one_line 128 (case password of Some pw \<Rightarrow> pw | None \<Rightarrow> []))"

lemma lines_of_line: "CHR 0x0A \<notin> set l \<Longrightarrow> lines_of (l @ CHR 0x0A # r) = (l @ [CHR 0x0A]) # lines_of r"
  by (induction l) auto

lemma profile_lines:
  assumes "profile_ok (ssid, password, is_open)"
  shows "lines_of (profile_text ssid password is_open @ r) =
    (''SSID='' @ ssid @ nl) #
    (if is_open then [''SECURITY=Open'' @ nl, nl]
     else [''SECURITY=WPA2'' @ nl, ''PSK='' @ (case password of Some pw \<Rightarrow> pw | None \<Rightarrow> []) @ nl, nl]) @ lines_of r"
proof -
  let ?pw = "case password of Some pw \<Rightarrow> pw | None \<Rightarrow> []"
  have s: "CHR 0x0A \<notin> set (''SSID='' @ ssid)" and p: "CHR 0x0A \<notin> set (''PSK='' @ ?pw)"
    using assms by (auto simp: profile_ok_def one_line_def)
  show ?thesis
    using lines_of_line [OF s] lines_of_line [OF p]
      lines_of_line [of "''SECURITY=Open''"] lines_of_line [of "''SECURITY=WPA2''"] lines_of_line [of "[]"]
    by (simp add: profile_text_def)
qed

lemma history_short: "list_all profile_ok ps \<Longrightarrow> short_lines 256 (history_text ps)"
proof (induction ps)
  case (Cons p ps)
  obtain ssid password is_open where p: "p = (ssid, password, is_open)" by (cases p)
  have pl: "plain ssid" "length ssid < 64" "plain (case password of Some pw \<Rightarrow> pw | None \<Rightarrow> [])"
    "length (case password of Some pw \<Rightarrow> pw | None \<Rightarrow> []) < 128"
    using Cons.prems p by (auto simp: profile_ok_def one_line_def)
  show ?case
    using Cons pl p profile_lines [of ssid password is_open "history_text ps"]
    by (auto simp: short_lines_def history_text_def profile_text_def split: if_splits)
qed (simp add: history_text_def short_lines_def)

definition profile_row :: "nat \<Rightarrow> string \<Rightarrow> string" where
  "profile_row idx ssid = ''  ['' @ show_num (int idx) @ ''] SSID: '' @ csi ''1m'' @ ssid @ csi ''0m'' @ nl"

lemma until_newline_line: "one_line n ssid \<Longrightarrow> until_newline (ssid @ CHR 0x0A # r) = ssid"
proof -
  assume "one_line n ssid"
  then have "\<forall>c\<in>set ssid. c \<noteq> CHR 0x0D \<and> c \<noteq> CHR 0x0A" by (auto simp: one_line_def)
  then show ?thesis by (simp add: until_newline_def)
qed

lemma profiles_loop_history:
  assumes "list_all profile_ok ps"
  shows "profiles_loop (lines_of (history_text ps)) idx s =
    put (concat (map (\<lambda>(i, p). profile_row i (fst p)) (enumerate idx ps))) s"
  using assms
proof (induction ps arbitrary: idx s)
  case (Cons p ps)
  obtain ssid password is_open where p: "p = (ssid, password, is_open)" by (cases p)
  have o: "one_line 64 ssid" using Cons.prems p by (simp add: profile_ok_def)
  have "lines_of (history_text (p # ps)) =
      lines_of (profile_text ssid password is_open @ history_text ps)"
    by (simp add: history_text_def p)
  then show ?case
    using Cons p until_newline_line [OF o] profile_lines [of ssid password is_open "history_text ps"]
    by (simp add: profile_row_def)
qed (simp add: history_text_def)

text \<open>The list of saved profiles shows, numbered from one and in the order they were saved, the names
  of the profiles that were written to the history file: saving and listing agree on the format.\<close>

theorem saved_profiles_listed:
  assumes "read_file os WIFI_HISTORY_FILE (world s) = Inr (history_text ps)" and "list_all profile_ok ps"
  shows "list_saved_profiles os s =
    put (csi ''1;36m'' @ ''Saved Wi-Fi Profiles:'' @ csi ''0m'' @ nl @
         concat (map (\<lambda>(i, p). profile_row i (fst p)) (enumerate 1 ps))) s"
  using assms buffers_lines [OF history_short [OF assms(2)]]
  by (simp add: list_saved_profiles_def Let_def profiles_loop_history)

definition two_saved :: "string \<rightharpoonup> string" where
  "two_saved = save_wifi_profile map_posix ''cafe'' None True
     (save_wifi_profile map_posix ''home'' (Some ''secret'') False Map.empty)"

theorem saved_profiles_listed_witness:
  "printed (list_saved_profiles map_posix \<lparr>typed = [], printed = [], world = two_saved\<rparr>) =
     csi ''1;36m'' @ ''Saved Wi-Fi Profiles:'' @ csi ''0m'' @ nl @ profile_row 1 ''home'' @ profile_row (Suc 1) ''cafe''"
proof -
  let ?ps = "[(''home'', Some ''secret'', False), (''cafe'', None, True)]"
  have "read_file map_posix WIFI_HISTORY_FILE two_saved = Inr (history_text ?ps)"
    by (simp add: two_saved_def save_wifi_profile_def map_posix_def history_text_def)
  moreover have "list_all profile_ok ?ps"
    by (simp add: profile_ok_def one_line_def plain_def)
  ultimately show ?thesis
    using saved_profiles_listed [of map_posix "\<lparr>typed = [], printed = [], world = two_saved\<rparr>" ?ps] by simp
qed

end
