(* ===== verification/Ct.thy ===== *)
theory Ct
  imports Prelude
begin

text \<open>
  The base of BearSSL (\<^verbatim>\<open>bearssl/src/inner.h\<close> and \<^verbatim>\<open>bearssl/src/codec\<close>): comparison and selection of
  32-bit words without branches, conditional copy, and encoding of integers as bytes in both orders. A
  buffer is the list of its bytes. Shown: each comparison against the one it replaces, and the round
  trips of the encodings.
\<close>

section \<open>Constant-time primitives\<close>

definition NOT32 :: "u32 \<Rightarrow> u32" where
  "NOT32 ctl = ctl XOR 1"

definition MUX :: "u32 \<Rightarrow> u32 \<Rightarrow> u32 \<Rightarrow> u32" where
  "MUX ctl x y = y XOR (- ctl AND (x XOR y))"

definition EQ :: "u32 \<Rightarrow> u32 \<Rightarrow> u32" where
  "EQ x y = (let q = x XOR y in NOT32 (drop_bit 31 (q OR - q)))"

definition NEQ :: "u32 \<Rightarrow> u32 \<Rightarrow> u32" where
  "NEQ x y = (let q = x XOR y in drop_bit 31 (q OR - q))"

definition GT :: "u32 \<Rightarrow> u32 \<Rightarrow> u32" where
  "GT x y = (let z = y - x in drop_bit 31 (z XOR ((x XOR y) AND (x XOR z))))"

definition GE :: "u32 \<Rightarrow> u32 \<Rightarrow> u32" where "GE x y = NOT32 (GT y x)"

definition LT :: "u32 \<Rightarrow> u32 \<Rightarrow> u32" where "LT x y = GT y x"

definition LE :: "u32 \<Rightarrow> u32 \<Rightarrow> u32" where "LE x y = NOT32 (GT x y)"

text \<open>The signed result, and signed operands, are the words of the same bits.\<close>

definition CMP :: "u32 \<Rightarrow> u32 \<Rightarrow> u32" where
  "CMP x y = GT x y OR - GT y x"

definition EQ0 :: "u32 \<Rightarrow> u32" where
  "EQ0 q = drop_bit 31 (NOT (q OR - q))"

definition GT0 :: "u32 \<Rightarrow> u32" where
  "GT0 q = drop_bit 31 (NOT q AND - q)"

definition GE0 :: "u32 \<Rightarrow> u32" where "GE0 q = drop_bit 31 (NOT q)"

definition LT0 :: "u32 \<Rightarrow> u32" where "LT0 q = drop_bit 31 q"

definition LE0 :: "u32 \<Rightarrow> u32" where
  "LE0 q = drop_bit 31 (q OR NOT (- q))"

definition BIT_LENGTH :: "u32 \<Rightarrow> u32" where
  "BIT_LENGTH x =
     (let k = NEQ x 0;
          c = GT x 0xFFFF; x = MUX c (drop_bit 16 x) x; k = k + push_bit 4 c;
          c = GT x 0x00FF; x = MUX c (drop_bit 8 x) x; k = k + push_bit 3 c;
          c = GT x 0x000F; x = MUX c (drop_bit 4 x) x; k = k + push_bit 2 c;
          c = GT x 0x0003; x = MUX c (drop_bit 2 x) x; k = k + push_bit 1 c
      in k + GT x 0x0001)"

definition MIN32 :: "u32 \<Rightarrow> u32 \<Rightarrow> u32" where "MIN32 x y = MUX (GT x y) y x"

definition MAX32 :: "u32 \<Rightarrow> u32 \<Rightarrow> u32" where "MAX32 x y = MUX (GT x y) x y"

text \<open>The selected bytes of two buffers; \<open>x\<close> and \<open>y\<close> are widened for the selection.\<close>

fun br_ccopy :: "u32 \<Rightarrow> byte list \<Rightarrow> byte list \<Rightarrow> nat \<Rightarrow> byte list" where
  "br_ccopy ctl (y # d) (x # s) (Suc len) = ucast (MUX ctl (ucast x) (ucast y)) # br_ccopy ctl d s len"
| "br_ccopy ctl d s len = d"

section \<open>Encoding\<close>

definition br_enc16le :: "u32 \<Rightarrow> byte list" where
  "br_enc16le x = [ucast x, ucast (drop_bit 8 x)]"

definition br_enc16be :: "u32 \<Rightarrow> byte list" where
  "br_enc16be x = [ucast (drop_bit 8 x), ucast x]"

definition br_dec16le :: "byte list \<Rightarrow> u32" where
  "br_dec16le buf = ucast (buf ! 0) OR push_bit 8 (ucast (buf ! 1))"

definition br_dec16be :: "byte list \<Rightarrow> u32" where
  "br_dec16be buf = push_bit 8 (ucast (buf ! 0)) OR ucast (buf ! 1)"

definition br_enc32le :: "u32 \<Rightarrow> byte list" where
  "br_enc32le x = [ucast x, ucast (drop_bit 8 x), ucast (drop_bit 16 x), ucast (drop_bit 24 x)]"

definition br_enc32be :: "u32 \<Rightarrow> byte list" where
  "br_enc32be x = [ucast (drop_bit 24 x), ucast (drop_bit 16 x), ucast (drop_bit 8 x), ucast x]"

definition br_dec32le :: "byte list \<Rightarrow> u32" where
  "br_dec32le buf = ucast (buf ! 0) OR push_bit 8 (ucast (buf ! 1)) OR push_bit 16 (ucast (buf ! 2)) OR
     push_bit 24 (ucast (buf ! 3))"

definition br_dec32be :: "byte list \<Rightarrow> u32" where
  "br_dec32be buf = push_bit 24 (ucast (buf ! 0)) OR push_bit 16 (ucast (buf ! 1)) OR
     push_bit 8 (ucast (buf ! 2)) OR ucast (buf ! 3)"

definition br_enc64le :: "u64 \<Rightarrow> byte list" where
  "br_enc64le x = br_enc32le (ucast x) @ br_enc32le (ucast (drop_bit 32 x))"

definition br_enc64be :: "u64 \<Rightarrow> byte list" where
  "br_enc64be x = br_enc32be (ucast (drop_bit 32 x)) @ br_enc32be (ucast x)"

definition br_dec64le :: "byte list \<Rightarrow> u64" where
  "br_dec64le buf = ucast (br_dec32le buf) OR push_bit 32 (ucast (br_dec32le (drop 4 buf)))"

definition br_dec64be :: "byte list \<Rightarrow> u64" where
  "br_dec64be buf = push_bit 32 (ucast (br_dec32be buf)) OR ucast (br_dec32be (drop 4 buf))"

text \<open>Several successive values.\<close>

primrec br_range_enc16le :: "u16 list \<Rightarrow> byte list" where
  "br_range_enc16le [] = []"
| "br_range_enc16le (x # v) = br_enc16le (ucast x) @ br_range_enc16le v"

primrec br_range_enc16be :: "u16 list \<Rightarrow> byte list" where
  "br_range_enc16be [] = []"
| "br_range_enc16be (x # v) = br_enc16be (ucast x) @ br_range_enc16be v"

primrec br_range_enc32le :: "u32 list \<Rightarrow> byte list" where
  "br_range_enc32le [] = []"
| "br_range_enc32le (x # v) = br_enc32le x @ br_range_enc32le v"

primrec br_range_enc32be :: "u32 list \<Rightarrow> byte list" where
  "br_range_enc32be [] = []"
| "br_range_enc32be (x # v) = br_enc32be x @ br_range_enc32be v"

primrec br_range_enc64le :: "u64 list \<Rightarrow> byte list" where
  "br_range_enc64le [] = []"
| "br_range_enc64le (x # v) = br_enc64le x @ br_range_enc64le v"

primrec br_range_enc64be :: "u64 list \<Rightarrow> byte list" where
  "br_range_enc64be [] = []"
| "br_range_enc64be (x # v) = br_enc64be x @ br_range_enc64be v"

primrec br_range_dec16le :: "nat \<Rightarrow> byte list \<Rightarrow> u16 list" where
  "br_range_dec16le 0 buf = []"
| "br_range_dec16le (Suc num) buf = ucast (br_dec16le buf) # br_range_dec16le num (drop 2 buf)"

primrec br_range_dec16be :: "nat \<Rightarrow> byte list \<Rightarrow> u16 list" where
  "br_range_dec16be 0 buf = []"
| "br_range_dec16be (Suc num) buf = ucast (br_dec16be buf) # br_range_dec16be num (drop 2 buf)"

primrec br_range_dec32le :: "nat \<Rightarrow> byte list \<Rightarrow> u32 list" where
  "br_range_dec32le 0 buf = []"
| "br_range_dec32le (Suc num) buf = br_dec32le buf # br_range_dec32le num (drop 4 buf)"

primrec br_range_dec32be :: "nat \<Rightarrow> byte list \<Rightarrow> u32 list" where
  "br_range_dec32be 0 buf = []"
| "br_range_dec32be (Suc num) buf = br_dec32be buf # br_range_dec32be num (drop 4 buf)"

primrec br_range_dec64le :: "nat \<Rightarrow> byte list \<Rightarrow> u64 list" where
  "br_range_dec64le 0 buf = []"
| "br_range_dec64le (Suc num) buf = br_dec64le buf # br_range_dec64le num (drop 8 buf)"

primrec br_range_dec64be :: "nat \<Rightarrow> byte list \<Rightarrow> u64 list" where
  "br_range_dec64be 0 buf = []"
| "br_range_dec64be (Suc num) buf = br_dec64be buf # br_range_dec64be num (drop 8 buf)"

section \<open>The primitives do what their names say\<close>

named_theorems ct \<open>constant-time primitives as the operations they stand for\<close>

lemma top_bit: "bit (x :: u32) 31 \<longleftrightarrow> 0x80000000 \<le> unat x"
proof -
  have "unat x < 4294967296" using unsigned_less [of x, where 'a = nat] by simp
  then have "2147483648 \<le> unat x \<Longrightarrow> unat x div 2147483648 = 1"
    by (intro div_nat_eqI) auto
  then have "odd (unat x div 2147483648) \<longleftrightarrow> 2147483648 \<le> unat x"
    by (cases "2147483648 \<le> unat x") auto
  moreover have "bit x 31 \<longleftrightarrow> bit (unat x) 31" by (simp add: bit_unsigned_iff)
  ultimately show ?thesis by (simp add: bit_iff_odd)
qed

lemma drop_bit_31: "drop_bit 31 (x :: u32) = of_bool (bit x 31)"
proof (rule bit_word_eqI)
  fix n assume "n < LENGTH(32)"
  then show "bit (drop_bit 31 x) n \<longleftrightarrow> bit (of_bool (bit x 31) :: u32) n"
    by (cases n) (auto simp: bit_simps dest: bit_imp_le_length)
qed


lemma unat_neg: "unat (- (x :: u32)) = (if x = 0 then 0 else 4294967296 - unat x)"
  using unat_sub_if' [of 0 x] by (auto simp: unat_eq_zero)

lemma unat_diff: "unat ((y :: u32) - x) = (if unat x \<le> unat y then unat y - unat x else unat y + 4294967296 - unat x)"
  using unat_sub_if' [of y x] by simp

lemma u32_bound: "unat (x :: u32) < 4294967296"
  using unsigned_less [of x, where 'a = nat] by simp

lemma NOT32_bool [ct]: "NOT32 (of_bool p) = of_bool (\<not> p)"
  by (simp add: NOT32_def)

lemma MUX_bool [ct]: "MUX (of_bool p) x y = (if p then x else y)"
  by (cases p) (simp_all add: MUX_def xor.left_commute)

lemma or_neg_top: "bit (q OR - q) 31 \<longleftrightarrow> (q :: u32) \<noteq> 0"
proof -
  have "bit (q OR - q) 31 \<longleftrightarrow> bit q 31 \<or> bit (- q) 31" by (rule bit_or_iff)
  also have "\<dots> \<longleftrightarrow> q \<noteq> 0" using u32_bound [of q] unfolding top_bit unat_neg by auto
  finally show ?thesis .
qed

lemma xor_eq_0: "x XOR y = 0 \<longleftrightarrow> x = (y :: 'a::len word)"
  by (metis xor.assoc xor.right_neutral xor_self_eq)

lemma NEQ_eq [ct]: "NEQ x y = of_bool (x \<noteq> y)"
  by (simp only: NEQ_def Let_def drop_bit_31 or_neg_top xor_eq_0)

lemma EQ_eq [ct]: "EQ x y = of_bool (x = y)"
  by (simp only: EQ_def Let_def drop_bit_31 or_neg_top xor_eq_0 NOT32_bool not_not)

lemma GT_eq [ct]: "GT x y = of_bool (x > y)"
proof -
  let ?z = "y - x"
  have "bit (?z XOR ((x XOR y) AND (x XOR ?z))) 31 \<longleftrightarrow>
      (bit ?z 31 \<noteq> ((bit x 31 \<noteq> bit y 31) \<and> (bit x 31 \<noteq> bit ?z 31)))"
    by (simp only: bit_xor_iff bit_and_iff)
  also have "\<dots> \<longleftrightarrow> unat y < unat x"
    using u32_bound [of x] u32_bound [of y] unfolding top_bit unat_diff by (simp split: if_splits) linarith
  finally show ?thesis by (simp only: GT_def Let_def drop_bit_31 word_less_nat_alt)
qed

lemma order_eq [ct]:
  "GE x y = of_bool (x \<ge> y)" "LT x y = of_bool (x < y)" "LE x y = of_bool (x \<le> y)"
  by (simp_all add: GE_def LT_def LE_def GT_eq NOT32_bool not_less)

lemma CMP_eq [ct]: "CMP x y = (if x < y then - 1 else if x = y then 0 else 1)"
  by (auto simp: CMP_def GT_eq)

lemma sign_bit: "bit (q :: u32) 31 \<longleftrightarrow> sint q < 0"
  using bit_last_iff [of q] by simp

lemma sint_0_iff: "sint (q :: u32) = 0 \<longleftrightarrow> q = 0"
  by (metis signed_0 signed_word_eqI)

lemma neg_top: "bit (- (q :: u32)) 31 \<longleftrightarrow> sint q > 0 \<or> q = 0x80000000"
proof -
  have "bit (- q) 31 \<longleftrightarrow> 0 < unat q \<and> unat q \<le> 2147483648"
    using u32_bound [of q] unfolding top_bit unat_neg by (auto simp: unat_gt_0)
  moreover have "unat q = 2147483648 \<longleftrightarrow> q = 0x80000000"
    by (simp add: word_unat_eq_iff)
  moreover have "sint q > 0 \<longleftrightarrow> q \<noteq> 0 \<and> \<not> 2147483648 \<le> unat q"
    using sint_0_iff [of q] sign_bit [of q] top_bit [of q] by auto
  ultimately show ?thesis by (auto simp: unat_gt_0 le_less)
qed

lemma sign_eq [ct]:
  "EQ0 q = of_bool (q = 0)" "GT0 q = of_bool (sint q > 0)" "GE0 q = of_bool (sint q \<ge> 0)"
  "LT0 q = of_bool (sint q < 0)" "LE0 q = of_bool (sint q \<le> 0)"
proof -
  have m: "bit (0x80000000 :: u32) 31" unfolding top_bit by simp
  have n: "bit (NOT r) 31 \<longleftrightarrow> \<not> bit r 31" for r :: u32 by (simp add: bit_not_iff)
  show "EQ0 q = of_bool (q = 0)"
    by (simp only: EQ0_def drop_bit_31 n or_neg_top not_not)
  show "GE0 q = of_bool (sint q \<ge> 0)" "LT0 q = of_bool (sint q < 0)"
    by (simp_all only: GE0_def LT0_def drop_bit_31 n, simp_all only: sign_bit not_less)
  have "\<not> bit q 31 \<and> bit (- q) 31 \<longleftrightarrow> sint q > 0"
    using m sign_bit [of q] neg_top [of q] by auto
  then show "GT0 q = of_bool (sint q > 0)"
    by (simp only: GT0_def drop_bit_31 bit_and_iff n)
  have "bit q 31 \<or> \<not> bit (- q) 31 \<longleftrightarrow> sint q \<le> 0"
    using m sign_bit [of q] neg_top [of q] by auto
  then show "LE0 q = of_bool (sint q \<le> 0)"
    by (simp only: LE0_def drop_bit_31 bit_or_iff n)
qed

lemma MIN_MAX_eq [ct]: "MIN32 x y = min x y" "MAX32 x y = max x y"
  by (auto simp: MIN32_def MAX32_def GT_eq MUX_bool min_def max_def)


text \<open>\<open>k\<close> is the number of bits of \<open>n\<close>.\<close>

definition bits_of :: "nat \<Rightarrow> nat \<Rightarrow> bool" where
  "bits_of n k \<longleftrightarrow> n < 2 ^ k \<and> (n \<noteq> 0 \<longrightarrow> 0 < k \<and> 2 ^ (k - 1) \<le> n) \<and> (n = 0 \<longrightarrow> k = 0)"

lemma bits_of_shift: "bits_of (n div 2 ^ m) k \<Longrightarrow> 2 ^ m \<le> n \<Longrightarrow> bits_of n (k + m)"
proof -
  assume b: "bits_of (n div 2 ^ m) k" and m: "2 ^ m \<le> n"
  then have d: "n div 2 ^ m \<noteq> 0" by (simp add: div_eq_0_iff)
  then have k: "0 < k" "2 ^ (k - 1) \<le> n div 2 ^ m" "n div 2 ^ m < 2 ^ k" using b by (auto simp: bits_of_def)
  have "n < 2 ^ k * 2 ^ m" using k(3) by (simp add: div_less_iff_less_mult)
  moreover have "2 ^ (k - 1) * 2 ^ m \<le> n" using k(2) by (simp add: less_eq_div_iff_mult_less_eq)
  moreover have "k + m - 1 = k - 1 + m" using k(1) by simp
  moreover have "n \<noteq> 0" using m by (metis not_one_le_zero one_le_power one_le_numeral order_trans le_zero_eq)
  ultimately show ?thesis using k(1) by (simp only: bits_of_def power_add) simp
qed

text \<open>One halving of the range: the top half, if there is something in it, or the low half.\<close>

definition halve :: "nat \<Rightarrow> nat \<Rightarrow> nat" where
  "halve m n = (if 2 ^ m \<le> n then n div 2 ^ m else n)"

lemma halve_less: "n < 2 ^ (m + m) \<Longrightarrow> halve m n < 2 ^ m"
  by (auto simp: halve_def div_less_iff_less_mult power_add)

lemma halve_bits: "bits_of (halve m n) k \<Longrightarrow> bits_of n (k + (if 2 ^ m \<le> n then m else 0))"
  by (auto simp: halve_def bits_of_shift)

lemma unat_drop_bit: "unat (drop_bit m (x :: 'a::len word)) = unat x div 2 ^ m"
  by (simp only: unat_drop_bit_eq drop_bit_eq_div [where 'a = nat])

lemma BIT_LENGTH_step:
  "unat (MUX (GT x 0xFFFF) (drop_bit 16 x) x) = halve 16 (unat x)"
  "unat (MUX (GT x 0x00FF) (drop_bit 8 x) x) = halve 8 (unat x)"
  "unat (MUX (GT x 0x000F) (drop_bit 4 x) x) = halve 4 (unat x)"
  "unat (MUX (GT x 0x0003) (drop_bit 2 x) x) = halve 2 (unat x)"
  by (auto simp: ct halve_def unat_drop_bit word_less_nat_alt)

lemma GT_exceeds:
  "GT x 0xFFFF = of_bool (2 ^ 16 \<le> unat x)" "GT x 0x00FF = of_bool (2 ^ 8 \<le> unat x)"
  "GT x 0x000F = of_bool (2 ^ 4 \<le> unat x)" "GT x 0x0003 = of_bool (2 ^ 2 \<le> unat x)"
  "GT x 0x0001 = of_bool (2 \<le> unat x)"
  by (auto simp: ct word_less_nat_alt)

lemma BIT_LENGTH_nat:
  "unat (BIT_LENGTH x) =
     (let n = unat x; a = halve 16 n; b = halve 8 a; c = halve 4 b; d = halve 2 c in
      of_bool (2 \<le> d) + (if 2 ^ 2 \<le> c then 2 else 0) + (if 2 ^ 4 \<le> b then 4 else 0) +
      (if 2 ^ 8 \<le> a then 8 else 0) + (if 2 ^ 16 \<le> n then 16 else 0) + of_bool (n \<noteq> 0))"
  (is "_ = ?s")
proof -
  have p: "push_bit 4 (of_bool q) = (word_of_nat (if q then 16 else 0) :: u32)"
    "push_bit 3 (of_bool q) = (word_of_nat (if q then 8 else 0) :: u32)"
    "push_bit 2 (of_bool q) = (word_of_nat (if q then 4 else 0) :: u32)"
    "push_bit 1 (of_bool q) = (word_of_nat (if q then 2 else 0) :: u32)"
    "of_bool q = (word_of_nat (of_bool q) :: u32)" for q
    by simp_all
  have "?s \<le> 1 + 2 + 4 + 8 + 16 + 1" by (simp add: Let_def)
  then have b: "?s < 2 ^ 32" by simp
  define a b c d where "a = MUX (GT x 0xFFFF) (drop_bit 16 x) x" and "b = MUX (GT a 0x00FF) (drop_bit 8 a) a"
    and "c = MUX (GT b 0x000F) (drop_bit 4 b) b" and "d = MUX (GT c 0x0003) (drop_bit 2 c) c"
  note defs = this
  have e: "BIT_LENGTH x = NEQ x 0 + push_bit 4 (GT x 0xFFFF) + push_bit 3 (GT a 0x00FF) + push_bit 2 (GT b 0x000F) +
      push_bit 1 (GT c 0x0003) + GT d 0x0001"
    unfolding defs BIT_LENGTH_def Let_def ..
  have u: "unat a = halve 16 (unat x)" "unat b = halve 8 (unat a)" "unat c = halve 4 (unat b)"
      "unat d = halve 2 (unat c)"
    unfolding defs BIT_LENGTH_step by (rule refl)+
  have "BIT_LENGTH x = word_of_nat ?s"
    unfolding e GT_exceeds NEQ_eq u p(1-4) Let_def unat_eq_zero [symmetric]
    unfolding p(5) of_nat_add [symmetric] by (simp only: add.commute add.left_commute)
  then show ?thesis using b by (simp only: unat_of_nat) (simp add: take_bit_nat_eq_self)
qed

theorem BIT_LENGTH_bits: "bits_of (unat x) (unat (BIT_LENGTH x))"
proof -
  let ?n = "unat x" let ?a = "halve 16 ?n" let ?b = "halve 8 ?a" let ?c = "halve 4 ?b" let ?d = "halve 2 ?c"
  have n: "?n < 2 ^ (16 + 16)" using u32_bound [of x] by simp
  have "?a < 2 ^ (8 + 8)" using halve_less [OF n] by simp
  then have "?b < 2 ^ (4 + 4)" using halve_less by fastforce
  then have "?c < 2 ^ (2 + 2)" using halve_less by fastforce
  then have d: "?d < 4" using halve_less by fastforce
  have z: "?d = 0 \<longleftrightarrow> ?n = 0" by (auto simp: halve_def div_eq_0_iff)
  have "bits_of ?d (of_bool (2 \<le> ?d) + of_bool (?d \<noteq> 0))"
    using d by (auto simp: bits_of_def)
  from halve_bits [OF halve_bits [OF halve_bits [OF halve_bits [OF this]]]]
  show ?thesis unfolding BIT_LENGTH_nat Let_def by (simp add: z algebra_simps)
qed

lemma br_ccopy_eq:
  "len \<le> length d \<Longrightarrow> len \<le> length s \<Longrightarrow>
   br_ccopy (of_bool p) d s len = (if p then take len s @ drop len d else d)"
proof (induction "of_bool p :: u32" d s len rule: br_ccopy.induct)
  case (1 y d x s len)
  have "(ucast (ucast b :: u32) :: byte) = b" for b :: byte
    by (rule bit_word_eqI) (simp add: bit_ucast_iff)
  then show ?case using 1 by (simp add: MUX_bool)
qed auto

section \<open>Round trips of the encodings\<close>

named_theorems codec \<open>reading back what was written\<close>

lemma octet_cases:
  assumes "n < LENGTH(32)"
  obtains k where "k < 8" "n = k" | k where "k < 8" "n = 8 + k" | k where "k < 8" "n = 16 + k" | k where "k < 8" "n = 24 + k"
  using assms that(1) [of n] that(2) [of "n - 8"] that(3) [of "n - 16"] that(4) [of "n - 24"] by simp linarith

lemma dec16_enc16 [codec]:
  "br_dec16le (br_enc16le x @ r) = take_bit 16 x" "br_dec16be (br_enc16be x @ r) = take_bit 16 x"
  by (rule bit_word_eqI; auto simp: br_dec16le_def br_enc16le_def br_dec16be_def br_enc16be_def bit_simps)+

lemma dec32_enc32 [codec]:
  "br_dec32le (br_enc32le x @ r) = x" "br_dec32be (br_enc32be x @ r) = x"
  by (rule bit_word_eqI, erule octet_cases;
      simp add: br_dec32le_def br_enc32le_def br_dec32be_def br_enc32be_def bit_simps)+

lemma enc_lengths [simp]:
  "length (br_enc16le h) = 2" "length (br_enc16be h) = 2" "length (br_enc32le x) = 4" "length (br_enc32be x) = 4"
  "length (br_enc64le y) = 8" "length (br_enc64be y) = 8"
  by (simp_all add: br_enc16le_def br_enc16be_def br_enc32le_def br_enc32be_def br_enc64le_def br_enc64be_def)

lemma dec64_enc64 [codec]:
  "br_dec64le (br_enc64le x @ r) = x" "br_dec64be (br_enc64be x @ r) = x"
  by (rule bit_word_eqI; auto simp: br_dec64le_def br_enc64le_def br_dec64be_def br_enc64be_def codec bit_simps)+


lemma range_dec_enc [codec]:
  "br_range_dec32le (length v) (br_range_enc32le v @ r) = v" "br_range_dec32be (length v) (br_range_enc32be v @ r) = v"
  by (induction v) (auto simp: codec)

lemma range_dec64_enc64 [codec]:
  "br_range_dec64le (length u) (br_range_enc64le u @ r) = u" "br_range_dec64be (length u) (br_range_enc64be u @ r) = u"
  by (induction u) (auto simp: codec)

lemma range_dec16_enc16 [codec]:
  "br_range_dec16le (length h) (br_range_enc16le h @ r) = h" "br_range_dec16be (length h) (br_range_enc16be h @ r) = h"
proof (induction h)
  case (Cons x h)
  have "(ucast (take_bit 16 (ucast x :: u32)) :: u16) = x"
    by (rule bit_word_eqI) (simp add: bit_simps)
  {
    case 1
    then show ?case using Cons \<open>ucast _ = x\<close> by (simp add: codec)
  next
    case 2
    then show ?case using Cons \<open>ucast _ = x\<close> by (simp add: codec)
  }
qed auto

lemma range_lengths [simp]:
  "length (br_range_enc32le v) = 4 * length v" "length (br_range_enc32be v) = 4 * length v"
  by (induction v) simp_all

lemma range64_lengths [simp]:
  "length (br_range_enc64le u) = 8 * length u" "length (br_range_enc64be u) = 8 * length u"
  by (induction u) simp_all

lemma range_dec_lengths [simp]:
  "length (br_range_dec32le n buf) = n" "length (br_range_dec32be n buf) = n"
  "length (br_range_dec64be n buf) = n"
  by (induction n arbitrary: buf) simp_all

end
