(* ===== verification/Block_Hash.thy ===== *)
theory Block_Hash
  imports Ct
begin

text \<open>
  What the hash functions of BearSSL share (\<^verbatim>\<open>bearssl/src/hash\<close>): a context with a block buffer, a running
  value and a count; an update loop that fills the buffer and runs the round function on each full block; and the
  padding at the end. The code repeats these loops in every file; the model has them once, with the block
  size and the round function as arguments. The locale \<open>block_hash\<close> is the contract of a block size and
  a round function; it is interpreted in the theories of the hash functions. Shown: whatever pieces a message
  comes in, the value is that of the padded message, block by block.
\<close>

record 'v hash_context =
  hbuf :: "byte list"
  hval :: 'v
  hcount :: u64

definition overwrite :: "nat \<Rightarrow> byte list \<Rightarrow> byte list \<Rightarrow> byte list" where
  "overwrite ptr new old = take ptr old @ new @ drop (ptr + length new) old"

text \<open>The loop with the count updated before it; \<^verbatim>\<open>ptr\<close> is always an offset in the buffer.\<close>

function buffer_loop :: "nat \<Rightarrow> (byte list \<Rightarrow> 'v \<Rightarrow> 'v) \<Rightarrow> nat \<Rightarrow> byte list \<Rightarrow> 'v hash_context \<Rightarrow> 'v hash_context" where
  "buffer_loop B round ptr data cc =
     (if data = [] \<or> B \<le> ptr then cc
      else
        let clen = (if B - ptr > length data then length data else B - ptr);
            cc = cc\<lparr>hbuf := overwrite ptr (take clen data) (hbuf cc)\<rparr>;
            ptr = ptr + clen; data = drop clen data
        in if ptr = B then buffer_loop B round 0 data (cc\<lparr>hval := round (hbuf cc) (hval cc)\<rparr>)
           else buffer_loop B round ptr data cc)"
  by auto
termination
  by (relation "measure (\<lambda>(B, round, ptr, data, cc). length data)") auto

declare buffer_loop.simps [simp del]

text \<open>The loop that counts what it takes.\<close>

function counting_loop :: "nat \<Rightarrow> (byte list \<Rightarrow> 'v \<Rightarrow> 'v) \<Rightarrow> nat \<Rightarrow> byte list \<Rightarrow> 'v hash_context \<Rightarrow> 'v hash_context" where
  "counting_loop B round ptr data cc =
     (if data = [] \<or> B \<le> ptr then cc
      else
        let clen = (if B - ptr > length data then length data else B - ptr);
            cc = cc\<lparr>hbuf := overwrite ptr (take clen data) (hbuf cc)\<rparr>;
            ptr = ptr + clen; data = drop clen data;
            cc = cc\<lparr>hcount := hcount cc + word_of_nat clen\<rparr>
        in if ptr = B then counting_loop B round 0 data (cc\<lparr>hval := round (hbuf cc) (hval cc)\<rparr>)
           else counting_loop B round ptr data cc)"
  by auto
termination
  by (relation "measure (\<lambda>(B, round, ptr, data, cc). length data)") auto

declare counting_loop.simps [simp del]

text \<open>Padding on copies of the buffer and the value: the length takes the last \<open>L\<close> bytes of a block.\<close>

definition md_out :: "nat \<Rightarrow> nat \<Rightarrow> (u64 \<Rightarrow> byte list) \<Rightarrow> (byte list \<Rightarrow> 'v \<Rightarrow> 'v) \<Rightarrow> 'v hash_context \<Rightarrow> 'v" where
  "md_out B L enc round cc =
     (let ptr = unat (hcount cc AND word_of_nat (B - 1));
          buf = take ptr (hbuf cc) @ [0x80]; val = hval cc; ptr = ptr + 1;
          (buf, val) = (if ptr > B - L
             then (replicate (B - L) 0, round (buf @ replicate (B - ptr) 0) val)
             else (buf @ replicate (B - L - ptr) 0, val))
      in round (buf @ enc (hcount cc)) val)"

section \<open>Reference\<close>

text \<open>The full blocks of a message, and the padded message.\<close>

function blocks :: "nat \<Rightarrow> byte list \<Rightarrow> byte list list" where
  "blocks B m = (if B = 0 \<or> length m < B then [] else take B m # blocks B (drop B m))"
  by auto
termination
  by (relation "measure (\<lambda>(B, m). length m)") auto

declare blocks.simps [simp del]

definition md_pad :: "nat \<Rightarrow> nat \<Rightarrow> (u64 \<Rightarrow> byte list) \<Rightarrow> byte list \<Rightarrow> byte list" where
  "md_pad B L enc m =
     m @ [0x80] @ replicate ((2 * B - L - 1 - length m mod B) mod B) 0 @ enc (word_of_nat (length m))"

definition md_hash :: "nat \<Rightarrow> nat \<Rightarrow> (u64 \<Rightarrow> byte list) \<Rightarrow> (byte list \<Rightarrow> 'v \<Rightarrow> 'v) \<Rightarrow> 'v \<Rightarrow> byte list \<Rightarrow> 'v" where
  "md_hash B L enc round iv m = fold round (blocks B (md_pad B L enc m)) iv"

text \<open>The context after a message.\<close>

definition holds :: "nat \<Rightarrow> (byte list \<Rightarrow> 'v \<Rightarrow> 'v) \<Rightarrow> 'v \<Rightarrow> byte list \<Rightarrow> 'v hash_context \<Rightarrow> bool" where
  "holds B round iv m cc \<longleftrightarrow>
     length (hbuf cc) = B \<and> hcount cc = word_of_nat (length m) \<and> hval cc = fold round (blocks B m) iv \<and>
     take (length m mod B) (hbuf cc) = drop (length m - length m mod B) m"

lemma holds_buffer: "holds B round iv m cc \<Longrightarrow> length (hbuf cc) = B"
  by (simp add: holds_def)

lemma blocks_short [simp]: "length m < B \<Longrightarrow> blocks B m = []"
  by (simp add: blocks.simps)

lemma blocks_Cons: "length b = B \<Longrightarrow> 0 < B \<Longrightarrow> blocks B (b @ m) = b # blocks B m"
  by (simp add: blocks.simps [of B "b @ m"])

lemma blocks_one: "length b = B \<Longrightarrow> 0 < B \<Longrightarrow> blocks B b = [b]"
  using blocks_Cons [of b B "[]"] by simp

lemma blocks_append: "0 < B \<Longrightarrow> B dvd length m \<Longrightarrow> blocks B (m @ r) = blocks B m @ blocks B r"
proof (induction "length m" arbitrary: m rule: less_induct)
  case less
  show ?case
  proof (cases "m = []")
    case False
    then have l: "B \<le> length m" using less.prems by (simp add: dvd_imp_le)
    then have "blocks B (drop B m @ r) = blocks B (drop B m) @ blocks B r"
      using less by (intro less.hyps) (auto simp: dvd_diff_nat)
    moreover have "m @ r = take B m @ (drop B m @ r)" by (simp flip: append.assoc)
    then have "blocks B (m @ r) = take B m # blocks B (drop B m @ r)"
      using l less.prems by (simp only: blocks_Cons length_take min_absorb2)
    moreover have "blocks B m = take B m # blocks B (drop B m)"
      using l less.prems blocks_Cons [of "take B m" B "drop B m"] by simp
    ultimately show ?thesis by simp
  qed (use less.prems in simp)
qed

text \<open>A loop whose pass does \<open>n\<close> steps.\<close>

lemma fold_groups:
  assumes "\<And>i v. j \<le> i \<Longrightarrow> i < k \<Longrightarrow> g i v = fold step [n * i..<n * i + n] v" and "j \<le> k"
  shows "fold g [j..<k] v = fold step [n * j..<n * k] v"
  using assms(2,1)
proof (induction k rule: nat_induct_at_least)
  case (Suc k)
  have "[n * j..<n * Suc k] = [n * j..<n * k] @ [n * k..<n * k + n]"
    using upt_add_eq_append [of "n * j" "n * k" n] Suc.hyps by (simp add: add.commute)
  then show ?case using Suc by simp
qed simp

lemma length_overwrite: "ptr + length new \<le> length old \<Longrightarrow> length (overwrite ptr new old) = length old"
  by (simp add: overwrite_def)

lemma take_overwrite: "ptr \<le> length old \<Longrightarrow> take (ptr + length new) (overwrite ptr new old) = take ptr old @ new"
  by (simp add: overwrite_def)

text \<open>The split of a message into its full blocks and the rest.\<close>

lemma message_split:
  "m = take (length m - length m mod B) m @ drop (length m - length m mod B) m"
  "B dvd length (take (length m - length m mod B) m)"
  "length (drop (length m - length m mod B) m) = length m mod B"
  by (simp_all add: dvd_minus_mod)

section \<open>The contract of a block size and a round function\<close>

locale block_hash =
  fixes B :: nat and round :: "byte list \<Rightarrow> 'v \<Rightarrow> 'v"
  assumes B_pos: "0 < B" and B_power: "\<exists>k\<le>64. B = 2 ^ k"
begin

lemma offset:
  "unat ((word_of_nat n :: u64) AND word_of_nat (B - 1)) = n mod B"
proof -
  obtain k where k: "k \<le> 64" "B = 2 ^ k" using B_power by blast
  have "(word_of_nat (B - 1) :: u64) = mask k"
    using k by (simp add: mask_eq_exp_minus_1 of_nat_diff)
  then have "(word_of_nat n :: u64) AND word_of_nat (B - 1) = take_bit k (word_of_nat n)"
    by (simp only: take_bit_eq_mask)
  moreover have "unat (word_of_nat n :: u64) = take_bit 64 n"
    by (simp add: unat_of_nat take_bit_eq_mod)
  ultimately have "unat ((word_of_nat n :: u64) AND word_of_nat (B - 1)) = take_bit (min k 64) n"
    by (simp only: unsigned_take_bit_eq take_bit_take_bit)
  then show ?thesis using k by (simp add: take_bit_eq_mod)
qed

text \<open>What is taken in one pass either stays in the block or completes it.\<close>

lemma holds_step:
  assumes "holds B round iv m cc" and "length m mod B + length d \<le> B"
    and "cc' = cc\<lparr>hbuf := overwrite (length m mod B) d (hbuf cc), hcount := word_of_nat (length m + length d)\<rparr>"
  shows "length m mod B + length d < B \<Longrightarrow> holds B round iv (m @ d) cc'"
    and "length m mod B + length d = B \<Longrightarrow> holds B round iv (m @ d) (cc'\<lparr>hval := round (hbuf cc') (hval cc')\<rparr>)"
proof -
  let ?p = "length m mod B" let ?m = "take (length m - ?p) m" and ?r = "drop (length m - ?p) m"
  have c: "length (hbuf cc) = B" "hval cc = fold round (blocks B m) iv" "take ?p (hbuf cc) = ?r"
    using assms(1) by (auto simp: holds_def)
  have m: "m = ?m @ ?r" "B dvd length ?m" "length ?r = ?p" by (rule message_split)+
  have p: "?p < B" using B_pos by simp
  have fb: "blocks B m = blocks B ?m"
    using blocks_append [OF B_pos m(2), of ?r] m(1,3) p by simp
  have t: "take (?p + length d) (overwrite ?p d (hbuf cc)) = ?r @ d"
    using take_overwrite [of ?p "hbuf cc" d] c p by simp
  have l: "length (overwrite ?p d (hbuf cc)) = B" using length_overwrite [of ?p d "hbuf cc"] assms(2) c by simp
  have md: "blocks B (m @ d) = blocks B ?m @ blocks B (?r @ d)"
    using blocks_append [OF B_pos m(2), of "?r @ d"] m(1) by (metis append.assoc)
  have dr: "drop (length m - ?p) (m @ d) = ?r @ d" using m(3) by simp
  {
    assume s: "?p + length d < B"
    have "(length m + length d) mod B = ?p + length d"
      using s mod_add_left_eq [of "length m" B "length d"] by simp
    moreover have "length m + length d - (?p + length d) = length m - ?p" by simp
    ultimately show "holds B round iv (m @ d) cc'"
      using s c l t md fb dr m(3) by (simp add: holds_def assms(3))
  next
    assume s: "?p + length d = B"
    have "(length m + length d) mod B = 0"
      using s mod_add_left_eq [of "length m" B "length d"] by simp
    moreover have "blocks B (?r @ d) = [?r @ d]" using s m(3) B_pos by (intro blocks_one) auto
    moreover have "overwrite ?p d (hbuf cc) = ?r @ d" using t s l by simp
    ultimately show "holds B round iv (m @ d) (cc'\<lparr>hval := round (hbuf cc') (hval cc')\<rparr>)"
      using c l md fb by (simp add: holds_def assms(3))
  }
qed

lemma counting_loop_holds:
  assumes "holds B round iv m cc"
  shows "holds B round iv (m @ d) (counting_loop B round (length m mod B) d cc)"
  using assms
proof (induction "length d" arbitrary: m d cc rule: less_induct)
  case less
  let ?p = "length m mod B"
  have p: "?p < B" using B_pos by simp
  define n where "n = (if B - ?p > length d then length d else B - ?p)"
  define cc' where "cc' = cc\<lparr>hbuf := overwrite ?p (take n d) (hbuf cc), hcount := word_of_nat (length m + length (take n d))\<rparr>"
  have n: "n \<le> length d" "?p + n \<le> B" "n = length (take n d)" using p by (auto simp: n_def)
  note step = holds_step [OF less.prems _ cc'_def]
  show ?case
  proof (cases "d = []")
    case False
    have shorter: "length (drop n d) < length d" using False p by (simp add: n_def)
    have c: "cc\<lparr>hbuf := overwrite ?p (take n d) (hbuf cc), hcount := hcount cc + word_of_nat n\<rparr> = cc'"
      using less.prems n(3) by (simp add: cc'_def holds_def)
    have l: "(length m + n) mod B = (if ?p + n = B then 0 else ?p + n)"
      using n(2) mod_add_left_eq [of "length m" B n] by auto
    have md: "(m @ take n d) @ drop n d = m @ d" by simp
    show ?thesis
    proof (cases "?p + n = B")
      case True
      then have "holds B round iv (m @ take n d) (cc'\<lparr>hval := round (hbuf cc') (hval cc')\<rparr>)"
        using step(2) n by simp
      from less.hyps [OF shorter this] show ?thesis
        unfolding md using False p True l n c
        by (subst counting_loop.simps) (simp add: Let_def n_def [symmetric])
    next
      case False
      then have "holds B round iv (m @ take n d) cc'" using step(1) n by simp
      from less.hyps [OF shorter this] show ?thesis
        unfolding md using \<open>d \<noteq> []\<close> p False l n c
        by (subst counting_loop.simps) (simp add: Let_def n_def [symmetric])
    qed
  qed (use less.prems in \<open>simp add: counting_loop.simps\<close>)
qed

text \<open>Both loops do the same, but for the count.\<close>

lemma counting_buffer:
  "ptr < B \<Longrightarrow> counting_loop B round ptr d cc = buffer_loop B round ptr d (cc\<lparr>hcount := hcount cc + word_of_nat (length d)\<rparr>)"
proof (induction "length d" arbitrary: ptr d cc rule: less_induct)
  case less
  show ?case
  proof (cases "d = []")
    case False
    define n where "n = (if B - ptr > length d then length d else B - ptr)"
    have n: "0 < n" "n \<le> length d" "ptr + n \<le> B" using False less.prems by (auto simp: n_def)
    then have shorter: "length (drop n d) < length d" by simp
    have w: "(word_of_nat n :: u64) + word_of_nat (length d - n) = word_of_nat (length d)"
      using n by (simp flip: of_nat_add)
    have "ptr + n \<noteq> B \<Longrightarrow> ptr + n < B" using n by simp
    then show ?thesis
      using less.hyps [OF shorter] False less.prems B_pos w
      by (cases cc, subst counting_loop.simps, subst buffer_loop.simps)
         (simp add: Let_def n_def [symmetric] add.assoc)
  qed (use less.prems in \<open>simp add: counting_loop.simps buffer_loop.simps\<close>)
qed

lemma buffer_loop_holds:
  assumes "holds B round iv m cc"
  shows "holds B round iv (m @ d)
    (buffer_loop B round (length m mod B) d (cc\<lparr>hcount := hcount cc + word_of_nat (length d)\<rparr>))"
  using counting_loop_holds [OF assms] counting_buffer B_pos by simp

lemma md_out_holds:
  assumes "holds B round iv m cc" and "L < B" and "\<And>n. length (enc n) = L"
  shows "md_out B L enc round cc = md_hash B L enc round iv m"
proof -
  let ?p = "length m mod B" let ?m = "take (length m - ?p) m" and ?r = "drop (length m - ?p) m"
  let ?e = "enc (word_of_nat (length m))" and ?k = "(2 * B - L - 1 - ?p) mod B"
  have c: "length (hbuf cc) = B" "hval cc = fold round (blocks B m) iv" "take ?p (hbuf cc) = ?r"
    "hcount cc = word_of_nat (length m)"
    using assms(1) by (auto simp: holds_def)
  have m: "m = ?m @ ?r" "B dvd length ?m" "length ?r = ?p" by (rule message_split)+
  have p: "?p < B" using B_pos by simp
  have fb: "blocks B m = blocks B ?m"
    using blocks_append [OF B_pos m(2), of ?r] m(1,3) p by simp
  have pad: "blocks B (md_pad B L enc m) = blocks B ?m @ blocks B (?r @ [0x80] @ replicate ?k 0 @ ?e)"
    unfolding md_pad_def using blocks_append [OF B_pos m(2), of "?r @ [0x80] @ replicate ?k 0 @ ?e"] m(1)
    by (metis append.assoc)
  have ptr: "unat (hcount cc AND word_of_nat (B - 1)) = ?p" unfolding c(4) by (rule offset)
  show ?thesis
  proof (cases "?p + 1 > B - L")
    case True
    have "2 * B - L - 1 - ?p = (B - (?p + 1)) + (B - L)" using p assms(2) by linarith
    moreover have "B - (?p + 1) + (B - L) < B" using True assms(2) p by linarith
    ultimately have "?k = (B - (?p + 1)) + (B - L)" by (simp only: mod_less)
    then have "replicate ?k (0 :: byte) = replicate (B - (?p + 1)) 0 @ replicate (B - L) 0"
      by (simp only: replicate_add)
    then have "blocks B (?r @ [0x80] @ replicate ?k 0 @ ?e) =
        blocks B ((?r @ [0x80] @ replicate (B - (?p + 1)) 0) @ replicate (B - L) 0 @ ?e)" by simp
    also have "\<dots> = [?r @ [0x80] @ replicate (B - (?p + 1)) 0, replicate (B - L) 0 @ ?e]"
    proof (subst blocks_Cons)
      show "length (?r @ [0x80] @ replicate (B - (?p + 1)) 0) = B" using p m(3) by simp
    qed (use assms(2,3) B_pos in \<open>simp_all add: blocks_one\<close>)
    finally show ?thesis
      using True c ptr fb pad by (simp add: md_out_def md_hash_def Let_def)
  next
    case False
    have "2 * B - L - 1 - ?p = (B - L - (?p + 1)) + B" using False assms(2) p by linarith
    moreover have "B - L - (?p + 1) < B" using B_pos by linarith
    ultimately have "?k = B - L - (?p + 1)" by (simp only: mod_add_self2 mod_less)
    then have "blocks B (?r @ [0x80] @ replicate ?k 0 @ ?e) = [?r @ [0x80] @ replicate (B - L - (?p + 1)) 0 @ ?e]"
      using False p m(3) assms(2,3) B_pos by (subst blocks_one) simp_all
    then show ?thesis
      using False c ptr fb pad by (simp add: md_out_def md_hash_def Let_def)
  qed
qed

lemma holds_Nil: "length (hbuf cc) = B \<Longrightarrow> holds B round iv [] (cc\<lparr>hval := iv, hcount := 0\<rparr>)"
  using B_pos by (simp add: holds_def)

end

end
