(* ===== verification/Hash_Class.thy ===== *)
theory Hash_Class
  imports Block_Hash
begin

text \<open>
  The table of functions through which BearSSL calls a hash function (\<^verbatim>\<open>br_hash_class\<close> in
  \<^verbatim>\<open>bearssl/inc/bearssl_hash.h\<close>), and the contract of such a table as a locale: there is a function \<open>H\<close>
  that the updates compute piece by piece, and the value after whole blocks can be taken out and put
  into another context. The locale is interpreted on every hash function; the users of the table (HMAC and
  what is built on it) are proved once, inside it.
\<close>

record 'c br_hash_class =
  desc :: u32
  h_init :: "'c \<Rightarrow> 'c"
  h_update :: "'c \<Rightarrow> byte list \<Rightarrow> 'c"
  h_out :: "'c \<Rightarrow> byte list"
  h_state :: "'c \<Rightarrow> byte list \<times> u64"
  h_set_state :: "byte list \<Rightarrow> u64 \<Rightarrow> 'c \<Rightarrow> 'c"

definition BR_HASHDESC_ID :: "u32 \<Rightarrow> u32" where "BR_HASHDESC_ID i = i"

definition BR_HASHDESC_OUT :: "u32 \<Rightarrow> u32" where "BR_HASHDESC_OUT n = push_bit 8 n"

definition BR_HASHDESC_STATE :: "u32 \<Rightarrow> u32" where "BR_HASHDESC_STATE n = push_bit 15 n"

definition BR_HASHDESC_LBLEN :: "u32 \<Rightarrow> u32" where "BR_HASHDESC_LBLEN n = push_bit 23 n"

definition BR_HASHDESC_MD_PADDING :: u32 where "BR_HASHDESC_MD_PADDING = push_bit 28 1"

definition BR_HASHDESC_MD_PADDING_128 :: u32 where "BR_HASHDESC_MD_PADDING_128 = push_bit 29 1"

definition BR_HASHDESC_MD_PADDING_BE :: u32 where "BR_HASHDESC_MD_PADDING_BE = push_bit 30 1"

lemmas hashdesc = BR_HASHDESC_ID_def BR_HASHDESC_OUT_def BR_HASHDESC_STATE_def BR_HASHDESC_LBLEN_def
  BR_HASHDESC_MD_PADDING_def BR_HASHDESC_MD_PADDING_128_def BR_HASHDESC_MD_PADDING_BE_def

definition br_digest_size :: "('c, 'x) br_hash_class_scheme \<Rightarrow> nat" where
  "br_digest_size dig = unat (drop_bit 8 (desc dig) AND 0x7F)"

definition block_size :: "('c, 'x) br_hash_class_scheme \<Rightarrow> nat" where
  "block_size dig = 2 ^ unat (drop_bit 23 (desc dig) AND 0x0F)"

locale hash_function =
  fixes hc :: "'c br_hash_class" and H :: "byte list \<Rightarrow> byte list" and B :: nat
    and ok :: "'c \<Rightarrow> bool" and repr :: "byte list \<Rightarrow> 'c \<Rightarrow> bool"
  assumes init_repr: "ok cc \<Longrightarrow> repr [] (h_init hc cc)"
    and update_repr: "repr m cc \<Longrightarrow> repr (m @ d) (h_update hc cc d)"
    and out_repr: "repr m cc \<Longrightarrow> h_out hc cc = H m"
    and state_repr: "repr m cc \<Longrightarrow> B dvd length m \<Longrightarrow> ok cc' \<Longrightarrow>
      repr m (h_set_state hc (fst (h_state hc cc)) (word_of_nat (length m)) cc')"
    and repr_ok: "repr m cc \<Longrightarrow> ok cc"
    and digest_size: "length (H m) = br_digest_size hc"
    and class_block: "block_size hc = B"
    and digest_fits: "0 < br_digest_size hc" "br_digest_size hc \<le> B"
begin

text \<open>A message may come in any number of pieces.\<close>

lemma updates_repr: "repr m cc \<Longrightarrow> repr (m @ concat ds) (fold (\<lambda>d cc. h_update hc cc d) ds cc)"
proof (induction ds arbitrary: m cc)
  case (Cons d ds)
  then show ?case using Cons.IH [OF update_repr [OF Cons.prems, of d]] by simp
qed simp

lemma hash_pieces: "ok cc \<Longrightarrow> h_out hc (fold (\<lambda>d cc. h_update hc cc d) ds (h_init hc cc)) = H (concat ds)"
  using out_repr [OF updates_repr [OF init_repr]] by simp

end

end
