(* ===== verification/Sha2.thy ===== *)
theory Sha2
  imports Hash_Class
begin

text \<open>
  SHA-224, SHA-256, SHA-384 and SHA-512: \<^verbatim>\<open>bearssl/src/hash/sha2small.c\<close> and \<^verbatim>\<open>sha2big.c\<close>. The two files are
  the same code for two word sizes; what they share is polymorphic in the word size here. The round unrolls
  eight steps that rename the variables instead of moving their values. Shown: the code computes the functions of
  the Secure Hash Standard, with its own step, schedule and logical functions, for a message in any
  pieces.
\<close>

section \<open>The code\<close>

definition CH :: "'a::len word \<Rightarrow> 'a word \<Rightarrow> 'a word \<Rightarrow> 'a word" where
  "CH x y z = ((y XOR z) AND x) XOR z"

definition MAJ :: "'a::len word \<Rightarrow> 'a word \<Rightarrow> 'a word \<Rightarrow> 'a word" where
  "MAJ x y z = (y AND z) OR ((y OR z) AND x)"

definition ROTR :: "nat \<Rightarrow> 'a::len word \<Rightarrow> 'a word" where
  "ROTR n x = push_bit (LENGTH('a) - n) x OR drop_bit n x"

definition BSG2_0 :: "u32 \<Rightarrow> u32" where "BSG2_0 x = ROTR 2 x XOR ROTR 13 x XOR ROTR 22 x"

definition BSG2_1 :: "u32 \<Rightarrow> u32" where "BSG2_1 x = ROTR 6 x XOR ROTR 11 x XOR ROTR 25 x"

definition SSG2_0 :: "u32 \<Rightarrow> u32" where "SSG2_0 x = ROTR 7 x XOR ROTR 18 x XOR drop_bit 3 x"

definition SSG2_1 :: "u32 \<Rightarrow> u32" where "SSG2_1 x = ROTR 17 x XOR ROTR 19 x XOR drop_bit 10 x"

definition BSG5_0 :: "u64 \<Rightarrow> u64" where "BSG5_0 x = ROTR 28 x XOR ROTR 34 x XOR ROTR 39 x"

definition BSG5_1 :: "u64 \<Rightarrow> u64" where "BSG5_1 x = ROTR 14 x XOR ROTR 18 x XOR ROTR 41 x"

definition SSG5_0 :: "u64 \<Rightarrow> u64" where "SSG5_0 x = ROTR 1 x XOR ROTR 8 x XOR drop_bit 7 x"

definition SSG5_1 :: "u64 \<Rightarrow> u64" where "SSG5_1 x = ROTR 19 x XOR ROTR 61 x XOR drop_bit 6 x"

definition br_sha224_IV :: "u32 list" where
  "br_sha224_IV =
    [0xC1059ED8, 0x367CD507, 0x3070DD17, 0xF70E5939,
     0xFFC00B31, 0x68581511, 0x64F98FA7, 0xBEFA4FA4]"

definition br_sha256_IV :: "u32 list" where
  "br_sha256_IV =
    [0x6A09E667, 0xBB67AE85, 0x3C6EF372, 0xA54FF53A,
     0x510E527F, 0x9B05688C, 0x1F83D9AB, 0x5BE0CD19]"

definition IV384 :: "u64 list" where
  "IV384 =
    [0xCBBB9D5DC1059ED8, 0x629A292A367CD507,
     0x9159015A3070DD17, 0x152FECD8F70E5939,
     0x67332667FFC00B31, 0x8EB44A8768581511,
     0xDB0C2E0D64F98FA7, 0x47B5481DBEFA4FA4]"

definition IV512 :: "u64 list" where
  "IV512 =
    [0x6A09E667F3BCC908, 0xBB67AE8584CAA73B,
     0x3C6EF372FE94F82B, 0xA54FF53A5F1D36F1,
     0x510E527FADE682D1, 0x9B05688C2B3E6C1F,
     0x1F83D9ABFB41BD6B, 0x5BE0CD19137E2179]"

definition K_small :: "u32 list" where
  "K_small =
    [0x428A2F98, 0x71374491, 0xB5C0FBCF, 0xE9B5DBA5,
     0x3956C25B, 0x59F111F1, 0x923F82A4, 0xAB1C5ED5,
     0xD807AA98, 0x12835B01, 0x243185BE, 0x550C7DC3,
     0x72BE5D74, 0x80DEB1FE, 0x9BDC06A7, 0xC19BF174,
     0xE49B69C1, 0xEFBE4786, 0x0FC19DC6, 0x240CA1CC,
     0x2DE92C6F, 0x4A7484AA, 0x5CB0A9DC, 0x76F988DA,
     0x983E5152, 0xA831C66D, 0xB00327C8, 0xBF597FC7,
     0xC6E00BF3, 0xD5A79147, 0x06CA6351, 0x14292967,
     0x27B70A85, 0x2E1B2138, 0x4D2C6DFC, 0x53380D13,
     0x650A7354, 0x766A0ABB, 0x81C2C92E, 0x92722C85,
     0xA2BFE8A1, 0xA81A664B, 0xC24B8B70, 0xC76C51A3,
     0xD192E819, 0xD6990624, 0xF40E3585, 0x106AA070,
     0x19A4C116, 0x1E376C08, 0x2748774C, 0x34B0BCB5,
     0x391C0CB3, 0x4ED8AA4A, 0x5B9CCA4F, 0x682E6FF3,
     0x748F82EE, 0x78A5636F, 0x84C87814, 0x8CC70208,
     0x90BEFFFA, 0xA4506CEB, 0xBEF9A3F7, 0xC67178F2]"

definition K_big :: "u64 list" where
  "K_big =
    [0x428A2F98D728AE22, 0x7137449123EF65CD,
     0xB5C0FBCFEC4D3B2F, 0xE9B5DBA58189DBBC,
     0x3956C25BF348B538, 0x59F111F1B605D019,
     0x923F82A4AF194F9B, 0xAB1C5ED5DA6D8118,
     0xD807AA98A3030242, 0x12835B0145706FBE,
     0x243185BE4EE4B28C, 0x550C7DC3D5FFB4E2,
     0x72BE5D74F27B896F, 0x80DEB1FE3B1696B1,
     0x9BDC06A725C71235, 0xC19BF174CF692694,
     0xE49B69C19EF14AD2, 0xEFBE4786384F25E3,
     0x0FC19DC68B8CD5B5, 0x240CA1CC77AC9C65,
     0x2DE92C6F592B0275, 0x4A7484AA6EA6E483,
     0x5CB0A9DCBD41FBD4, 0x76F988DA831153B5,
     0x983E5152EE66DFAB, 0xA831C66D2DB43210,
     0xB00327C898FB213F, 0xBF597FC7BEEF0EE4,
     0xC6E00BF33DA88FC2, 0xD5A79147930AA725,
     0x06CA6351E003826F, 0x142929670A0E6E70,
     0x27B70A8546D22FFC, 0x2E1B21385C26C926,
     0x4D2C6DFC5AC42AED, 0x53380D139D95B3DF,
     0x650A73548BAF63DE, 0x766A0ABB3C77B2A8,
     0x81C2C92E47EDAEE6, 0x92722C851482353B,
     0xA2BFE8A14CF10364, 0xA81A664BBC423001,
     0xC24B8B70D0F89791, 0xC76C51A30654BE30,
     0xD192E819D6EF5218, 0xD69906245565A910,
     0xF40E35855771202A, 0x106AA07032BBD1B8,
     0x19A4C116B8D2D0C8, 0x1E376C085141AB53,
     0x2748774CDF8EEB99, 0x34B0BCB5E19B48A8,
     0x391C0CB3C5C95A63, 0x4ED8AA4AE3418ACB,
     0x5B9CCA4F7763E373, 0x682E6FF3D6B2B8A3,
     0x748F82EE5DEFB2FC, 0x78A5636F43172F60,
     0x84C87814A1F0AB72, 0x8CC702081A6439EC,
     0x90BEFFFA23631E28, 0xA4506CEBDE82BDE9,
     0xBEF9A3F7B2C67915, 0xC67178F2E372532B,
     0xCA273ECEEA26619C, 0xD186B8C721C0C207,
     0xEADA7DD6CDE0EB1E, 0xF57D4F7FEE6ED178,
     0x06F067AA72176FBA, 0x0A637DC5A2C898A6,
     0x113F9804BEF90DAE, 0x1B710B35131C471B,
     0x28DB77F523047D84, 0x32CAAB7B40C72493,
     0x3C9EBE0A15C9BEBC, 0x431D67C49C100D4C,
     0x4CC5D4BECB3E42B6, 0x597F299CFC657E2A,
     0x5FCB6FAB3AD6FAEC, 0x6C44198C4A475817]"

text \<open>The working variables, and the parts in which the two word sizes differ.\<close>

type_synonym 'a octuple = "'a \<times> 'a \<times> 'a \<times> 'a \<times> 'a \<times> 'a \<times> 'a \<times> 'a"

record 'a sha2_parts =
  bsg0 :: "'a \<Rightarrow> 'a"
  bsg1 :: "'a \<Rightarrow> 'a"
  ssg0 :: "'a \<Rightarrow> 'a"
  ssg1 :: "'a \<Rightarrow> 'a"
  konst :: "'a list"

definition SHA2_STEP :: "('a::len word) sha2_parts \<Rightarrow> 'a word list \<Rightarrow> nat \<Rightarrow> 'a word octuple \<Rightarrow> 'a word octuple" where
  "SHA2_STEP p w j v =
     (let (A, B, C, D, E, F, G, H) = v;
          T1 = H + bsg1 p E + CH E F G + konst p ! j + w ! j;
          T2 = bsg0 p A + MAJ A B C
      in (A, B, C, D + T1, E, F, G, T1 + T2))"

definition sha2_expand :: "('a::len word) sha2_parts \<Rightarrow> nat \<Rightarrow> 'a word list \<Rightarrow> 'a word list" where
  "sha2_expand p n w =
     fold (\<lambda>i w. w @ [ssg1 p (w ! (i - 2)) + w ! (i - 7) + ssg0 p (w ! (i - 15)) + w ! (i - 16)]) [16..<n] w"

definition sha2_eight :: "('a::len word) sha2_parts \<Rightarrow> 'a word list \<Rightarrow> nat \<Rightarrow> 'a word octuple \<Rightarrow> 'a word octuple" where
  "sha2_eight p w i v =
     (let (a, b, c, d, e, f, g, h) = v;
          (a, b, c, d, e, f, g, h) = SHA2_STEP p w (i + 0) (a, b, c, d, e, f, g, h);
          (h, a, b, c, d, e, f, g) = SHA2_STEP p w (i + 1) (h, a, b, c, d, e, f, g);
          (g, h, a, b, c, d, e, f) = SHA2_STEP p w (i + 2) (g, h, a, b, c, d, e, f);
          (f, g, h, a, b, c, d, e) = SHA2_STEP p w (i + 3) (f, g, h, a, b, c, d, e);
          (e, f, g, h, a, b, c, d) = SHA2_STEP p w (i + 4) (e, f, g, h, a, b, c, d);
          (d, e, f, g, h, a, b, c) = SHA2_STEP p w (i + 5) (d, e, f, g, h, a, b, c);
          (c, d, e, f, g, h, a, b) = SHA2_STEP p w (i + 6) (c, d, e, f, g, h, a, b);
          (b, c, d, e, f, g, h, a) = SHA2_STEP p w (i + 7) (b, c, d, e, f, g, h, a)
      in (a, b, c, d, e, f, g, h))"

definition sha2_round :: "('a::len word) sha2_parts \<Rightarrow> nat \<Rightarrow> 'a word list \<Rightarrow> 'a word list \<Rightarrow> 'a word list" where
  "sha2_round p n m val =
     (let w = sha2_expand p n m;
          (a, b, c, d, e, f, g, h) =
            fold (\<lambda>i. sha2_eight p w (8 * i)) [0..<n div 8]
              (val ! 0, val ! 1, val ! 2, val ! 3, val ! 4, val ! 5, val ! 6, val ! 7)
      in [val ! 0 + a, val ! 1 + b, val ! 2 + c, val ! 3 + d, val ! 4 + e, val ! 5 + f, val ! 6 + g, val ! 7 + h])"

definition small_parts :: "u32 sha2_parts" where
  "small_parts = \<lparr>bsg0 = BSG2_0, bsg1 = BSG2_1, ssg0 = SSG2_0, ssg1 = SSG2_1, konst = K_small\<rparr>"

definition big_parts :: "u64 sha2_parts" where
  "big_parts = \<lparr>bsg0 = BSG5_0, bsg1 = BSG5_1, ssg0 = SSG5_0, ssg1 = SSG5_1, konst = K_big\<rparr>"

definition br_sha2small_round :: "byte list \<Rightarrow> u32 list \<Rightarrow> u32 list" where
  "br_sha2small_round buf val = sha2_round small_parts 64 (br_range_dec32be 16 buf) val"

definition sha2big_round :: "byte list \<Rightarrow> u64 list \<Rightarrow> u64 list" where
  "sha2big_round buf val = sha2_round big_parts 80 (br_range_dec64be 16 buf) val"

type_synonym sha2small_context = "u32 list hash_context"
type_synonym sha2big_context = "u64 list hash_context"

definition sha2small_update :: "sha2small_context \<Rightarrow> byte list \<Rightarrow> sha2small_context" where
  "sha2small_update cc data =
     buffer_loop 64 br_sha2small_round (unat (hcount cc AND 63)) data
       (cc\<lparr>hcount := hcount cc + word_of_nat (length data)\<rparr>)"

definition sha2small_out :: "nat \<Rightarrow> sha2small_context \<Rightarrow> byte list" where
  "sha2small_out num cc =
     br_range_enc32be (take num (md_out 64 8 (\<lambda>count. br_enc64be (push_bit 3 count)) br_sha2small_round cc))"

definition br_sha224_init :: "sha2small_context \<Rightarrow> sha2small_context" where
  "br_sha224_init cc = cc\<lparr>hval := br_sha224_IV, hcount := 0\<rparr>"

definition br_sha224_update :: "sha2small_context \<Rightarrow> byte list \<Rightarrow> sha2small_context" where
  "br_sha224_update cc data = sha2small_update cc data"

definition br_sha224_out :: "sha2small_context \<Rightarrow> byte list" where
  "br_sha224_out cc = sha2small_out 7 cc"

definition br_sha224_state :: "sha2small_context \<Rightarrow> byte list \<times> u64" where
  "br_sha224_state cc = (br_range_enc32be (hval cc), hcount cc)"

definition br_sha224_set_state :: "byte list \<Rightarrow> u64 \<Rightarrow> sha2small_context \<Rightarrow> sha2small_context" where
  "br_sha224_set_state stb n cc = cc\<lparr>hval := br_range_dec32be 8 stb, hcount := n\<rparr>"

definition br_sha256_init :: "sha2small_context \<Rightarrow> sha2small_context" where
  "br_sha256_init cc = cc\<lparr>hval := br_sha256_IV, hcount := 0\<rparr>"

definition br_sha256_out :: "sha2small_context \<Rightarrow> byte list" where
  "br_sha256_out cc = sha2small_out 8 cc"

definition sha2big_update :: "sha2big_context \<Rightarrow> byte list \<Rightarrow> sha2big_context" where
  "sha2big_update cc data =
     buffer_loop 128 sha2big_round (unat (hcount cc AND 127)) data
       (cc\<lparr>hcount := hcount cc + word_of_nat (length data)\<rparr>)"

definition sha2big_out :: "nat \<Rightarrow> sha2big_context \<Rightarrow> byte list" where
  "sha2big_out num cc =
     br_range_enc64be (take num
       (md_out 128 16 (\<lambda>count. br_enc64be (drop_bit 61 count) @ br_enc64be (push_bit 3 count)) sha2big_round cc))"

definition br_sha384_init :: "sha2big_context \<Rightarrow> sha2big_context" where
  "br_sha384_init cc = cc\<lparr>hval := IV384, hcount := 0\<rparr>"

definition br_sha384_update :: "sha2big_context \<Rightarrow> byte list \<Rightarrow> sha2big_context" where
  "br_sha384_update cc data = sha2big_update cc data"

definition br_sha384_out :: "sha2big_context \<Rightarrow> byte list" where
  "br_sha384_out cc = sha2big_out 6 cc"

definition br_sha384_state :: "sha2big_context \<Rightarrow> byte list \<times> u64" where
  "br_sha384_state cc = (br_range_enc64be (hval cc), hcount cc)"

definition br_sha384_set_state :: "byte list \<Rightarrow> u64 \<Rightarrow> sha2big_context \<Rightarrow> sha2big_context" where
  "br_sha384_set_state stb n cc = cc\<lparr>hval := br_range_dec64be 8 stb, hcount := n\<rparr>"

definition br_sha512_init :: "sha2big_context \<Rightarrow> sha2big_context" where
  "br_sha512_init cc = cc\<lparr>hval := IV512, hcount := 0\<rparr>"

definition br_sha512_out :: "sha2big_context \<Rightarrow> byte list" where
  "br_sha512_out cc = sha2big_out 8 cc"

text \<open>SHA-256 shares all but two functions with SHA-224, and SHA-512 with SHA-384, as macros in
  \<^verbatim>\<open>bearssl_hash.h\<close> say.\<close>

definition br_sha224_vtable :: "sha2small_context br_hash_class" where
  "br_sha224_vtable =
     \<lparr>desc = BR_HASHDESC_ID 3 OR BR_HASHDESC_OUT 28 OR BR_HASHDESC_STATE 32 OR BR_HASHDESC_LBLEN 6 OR
        BR_HASHDESC_MD_PADDING OR BR_HASHDESC_MD_PADDING_BE,
      h_init = br_sha224_init, h_update = br_sha224_update, h_out = br_sha224_out,
      h_state = br_sha224_state, h_set_state = br_sha224_set_state\<rparr>"

definition br_sha256_vtable :: "sha2small_context br_hash_class" where
  "br_sha256_vtable =
     \<lparr>desc = BR_HASHDESC_ID 4 OR BR_HASHDESC_OUT 32 OR BR_HASHDESC_STATE 32 OR BR_HASHDESC_LBLEN 6 OR
        BR_HASHDESC_MD_PADDING OR BR_HASHDESC_MD_PADDING_BE,
      h_init = br_sha256_init, h_update = br_sha224_update, h_out = br_sha256_out,
      h_state = br_sha224_state, h_set_state = br_sha224_set_state\<rparr>"

definition br_sha384_vtable :: "sha2big_context br_hash_class" where
  "br_sha384_vtable =
     \<lparr>desc = BR_HASHDESC_ID 5 OR BR_HASHDESC_OUT 48 OR BR_HASHDESC_STATE 64 OR BR_HASHDESC_LBLEN 7 OR
        BR_HASHDESC_MD_PADDING OR BR_HASHDESC_MD_PADDING_BE OR BR_HASHDESC_MD_PADDING_128,
      h_init = br_sha384_init, h_update = br_sha384_update, h_out = br_sha384_out,
      h_state = br_sha384_state, h_set_state = br_sha384_set_state\<rparr>"

definition br_sha512_vtable :: "sha2big_context br_hash_class" where
  "br_sha512_vtable =
     \<lparr>desc = BR_HASHDESC_ID 6 OR BR_HASHDESC_OUT 64 OR BR_HASHDESC_STATE 64 OR BR_HASHDESC_LBLEN 7 OR
        BR_HASHDESC_MD_PADDING OR BR_HASHDESC_MD_PADDING_BE OR BR_HASHDESC_MD_PADDING_128,
      h_init = br_sha512_init, h_update = br_sha384_update, h_out = br_sha512_out,
      h_state = br_sha384_state, h_set_state = br_sha384_set_state\<rparr>"

section \<open>The Secure Hash Standard\<close>

definition fips_Ch :: "'a::len word \<Rightarrow> 'a word \<Rightarrow> 'a word \<Rightarrow> 'a word" where
  "fips_Ch x y z = (x AND y) XOR (NOT x AND z)"

definition fips_Maj :: "'a::len word \<Rightarrow> 'a word \<Rightarrow> 'a word \<Rightarrow> 'a word" where
  "fips_Maj x y z = (x AND y) XOR (x AND z) XOR (y AND z)"

definition fips_small :: "u32 sha2_parts" where
  "fips_small =
     \<lparr>bsg0 = (\<lambda>x. word_rotr 2 x XOR word_rotr 13 x XOR word_rotr 22 x),
      bsg1 = (\<lambda>x. word_rotr 6 x XOR word_rotr 11 x XOR word_rotr 25 x),
      ssg0 = (\<lambda>x. word_rotr 7 x XOR word_rotr 18 x XOR drop_bit 3 x),
      ssg1 = (\<lambda>x. word_rotr 17 x XOR word_rotr 19 x XOR drop_bit 10 x), konst = K_small\<rparr>"

definition fips_big :: "u64 sha2_parts" where
  "fips_big =
     \<lparr>bsg0 = (\<lambda>x. word_rotr 28 x XOR word_rotr 34 x XOR word_rotr 39 x),
      bsg1 = (\<lambda>x. word_rotr 14 x XOR word_rotr 18 x XOR word_rotr 41 x),
      ssg0 = (\<lambda>x. word_rotr 1 x XOR word_rotr 8 x XOR drop_bit 7 x),
      ssg1 = (\<lambda>x. word_rotr 19 x XOR word_rotr 61 x XOR drop_bit 6 x), konst = K_big\<rparr>"

fun fips_schedule :: "('a::len word) sha2_parts \<Rightarrow> 'a word list \<Rightarrow> nat \<Rightarrow> 'a word" where
  "fips_schedule p m t =
     (if t < 16 then m ! t
      else ssg1 p (fips_schedule p m (t - 2)) + fips_schedule p m (t - 7) + ssg0 p (fips_schedule p m (t - 15)) +
        fips_schedule p m (t - 16))"

declare fips_schedule.simps [simp del]

definition fips_step :: "('a::len word) sha2_parts \<Rightarrow> (nat \<Rightarrow> 'a word) \<Rightarrow> nat \<Rightarrow> 'a word octuple \<Rightarrow> 'a word octuple" where
  "fips_step p w t v =
     (case v of (a, b, c, d, e, f, g, h) \<Rightarrow>
        let T1 = h + bsg1 p e + fips_Ch e f g + konst p ! t + w t; T2 = bsg0 p a + fips_Maj a b c
        in (T1 + T2, a, b, c, d + T1, e, f, g))"

definition fips_compress :: "('a::len word) sha2_parts \<Rightarrow> nat \<Rightarrow> 'a word list \<Rightarrow> 'a word list \<Rightarrow> 'a word list" where
  "fips_compress p n m H =
     (case fold (fips_step p (fips_schedule p m)) [0..<n] (H ! 0, H ! 1, H ! 2, H ! 3, H ! 4, H ! 5, H ! 6, H ! 7) of
        (a, b, c, d, e, f, g, h) \<Rightarrow>
          [H ! 0 + a, H ! 1 + b, H ! 2 + c, H ! 3 + d, H ! 4 + e, H ! 5 + f, H ! 6 + g, H ! 7 + h])"

definition be_bytes :: "nat \<Rightarrow> nat \<Rightarrow> byte list" where
  "be_bytes k n = map (\<lambda>i. word_of_nat (n div 256 ^ (k - 1 - i))) [0..<k]"

definition fips_pad :: "nat \<Rightarrow> nat \<Rightarrow> byte list \<Rightarrow> byte list" where
  "fips_pad B L m = m @ [0x80] @ replicate ((2 * B - L - 1 - length m mod B) mod B) 0 @ be_bytes L (8 * length m)"

definition fips_sha_small :: "u32 list \<Rightarrow> nat \<Rightarrow> byte list \<Rightarrow> byte list" where
  "fips_sha_small iv num m =
     concat (map br_enc32be (take num
       (fold (\<lambda>b. fips_compress fips_small 64 (br_range_dec32be 16 b)) (blocks 64 (fips_pad 64 8 m)) iv)))"

definition fips_sha_big :: "u64 list \<Rightarrow> nat \<Rightarrow> byte list \<Rightarrow> byte list" where
  "fips_sha_big iv num m =
     concat (map br_enc64be (take num
       (fold (\<lambda>b. fips_compress fips_big 80 (br_range_dec64be 16 b)) (blocks 128 (fips_pad 128 16 m)) iv)))"

section \<open>The round\<close>

lemma CH_fips: "CH x y z = fips_Ch x y z"
  by (rule bit_word_eqI) (auto simp: CH_def fips_Ch_def bit_simps)

lemma MAJ_fips: "MAJ x y z = fips_Maj x y z"
  by (rule bit_word_eqI) (auto simp: MAJ_def fips_Maj_def bit_simps)

lemma ROTR_rotr:
  fixes x :: "'a::len word"
  assumes "0 < n" "n < LENGTH('a)"
  shows "ROTR n x = word_rotr n x"
proof (rule bit_word_eqI)
  fix k assume k: "k < LENGTH('a)"
  show "bit (ROTR n x) k \<longleftrightarrow> bit (word_rotr n x) k"
  proof (cases "k + n < LENGTH('a)")
    case True
    then show ?thesis
      using assms k by (auto simp: ROTR_def bit_word_rotr_iff bit_or_iff bit_push_bit_iff bit_drop_bit_eq add.commute)
  next
    case False
    then have "(k + n) mod LENGTH('a) = k + n - LENGTH('a)" using assms k by (simp add: le_mod_geq)
    moreover have "k - (LENGTH('a) - n) = k + n - LENGTH('a)" using assms False by simp
    ultimately show ?thesis
      using assms k False
      by (auto simp: ROTR_def bit_word_rotr_iff bit_or_iff bit_push_bit_iff bit_drop_bit_eq add.commute dest: bit_imp_le_length)
  qed
qed

lemma small_parts_fips: "small_parts = fips_small"
  by (simp add: small_parts_def fips_small_def fun_eq_iff BSG2_0_def BSG2_1_def SSG2_0_def SSG2_1_def ROTR_rotr)

lemma big_parts_fips: "big_parts = fips_big"
  by (simp add: big_parts_def fips_big_def fun_eq_iff BSG5_0_def BSG5_1_def SSG5_0_def SSG5_1_def ROTR_rotr)

lemma sha2_expand_nth:
  assumes "length m = 16" and "16 \<le> n"
  shows "length (sha2_expand p n m) = n \<and> (\<forall>t<n. sha2_expand p n m ! t = fips_schedule p m t)"
  using assms(2)
proof (induction n rule: nat_induct_at_least)
  case base
  then show ?case using assms(1) by (simp add: sha2_expand_def fips_schedule.simps)
next
  case (Suc n)
  let ?w = "sha2_expand p n m"
  have e: "sha2_expand p (Suc n) m = ?w @ [ssg1 p (?w ! (n - 2)) + ?w ! (n - 7) + ssg0 p (?w ! (n - 15)) + ?w ! (n - 16)]"
    using Suc.hyps by (simp add: sha2_expand_def)
  have "fips_schedule p m n =
      ssg1 p (?w ! (n - 2)) + ?w ! (n - 7) + ssg0 p (?w ! (n - 15)) + ?w ! (n - 16)"
    using Suc by (simp add: fips_schedule.simps [of p m n])
  then show ?case using Suc.IH by (auto simp: e nth_append less_Suc_eq)
qed

text \<open>A step of the code leaves the variables where they are; the standard moves them on by one.\<close>

definition moved :: "'a octuple \<Rightarrow> 'a octuple" where
  "moved v = (case v of (a, b, c, d, e, f, g, h) \<Rightarrow> (h, a, b, c, d, e, f, g))"

lemma octuple_cases:
  obtains a b c d e f g h where "v = (a, b, c, d, e, f, g, h)"
  by (cases v) (metis prod.exhaust)

lemma SHA2_STEP_fips: "moved (SHA2_STEP p w j v) = fips_step p (\<lambda>t. w ! t) j v"
  by (cases v rule: octuple_cases) (simp add: moved_def SHA2_STEP_def fips_step_def Let_def CH_fips MAJ_fips)

lemma sha2_eight_moved:
  "sha2_eight p w i v = fold (\<lambda>j v. moved (SHA2_STEP p w j v)) [i..<i + 8] v"
proof -
  have "[i..<i + 8] = [i + 0, i + 1, i + 2, i + 3, i + 4, i + 5, i + 6, i + 7]"
    by (simp add: upt_rec)
  moreover obtain a0 b0 c0 d0 e0 f0 g0 h0 where v: "v = (a0, b0, c0, d0, e0, f0, g0, h0)"
    by (rule octuple_cases)
  moreover obtain a1 b1 c1 d1 e1 f1 g1 h1 where "SHA2_STEP p w (i + 0) (a0, b0, c0, d0, e0, f0, g0, h0) =
      (a1, b1, c1, d1, e1, f1, g1, h1)"
    by (rule octuple_cases)
  moreover obtain h2 a2 b2 c2 d2 e2 f2 g2 where "SHA2_STEP p w (i + 1) (h1, a1, b1, c1, d1, e1, f1, g1) =
      (h2, a2, b2, c2, d2, e2, f2, g2)"
    by (rule octuple_cases)
  moreover obtain g3 h3 a3 b3 c3 d3 e3 f3 where "SHA2_STEP p w (i + 2) (g2, h2, a2, b2, c2, d2, e2, f2) =
      (g3, h3, a3, b3, c3, d3, e3, f3)"
    by (rule octuple_cases)
  moreover obtain f4 g4 h4 a4 b4 c4 d4 e4 where "SHA2_STEP p w (i + 3) (f3, g3, h3, a3, b3, c3, d3, e3) =
      (f4, g4, h4, a4, b4, c4, d4, e4)"
    by (rule octuple_cases)
  moreover obtain e5 f5 g5 h5 a5 b5 c5 d5 where "SHA2_STEP p w (i + 4) (e4, f4, g4, h4, a4, b4, c4, d4) =
      (e5, f5, g5, h5, a5, b5, c5, d5)"
    by (rule octuple_cases)
  moreover obtain d6 e6 f6 g6 h6 a6 b6 c6 where "SHA2_STEP p w (i + 5) (d5, e5, f5, g5, h5, a5, b5, c5) =
      (d6, e6, f6, g6, h6, a6, b6, c6)"
    by (rule octuple_cases)
  moreover obtain c7 d7 e7 f7 g7 h7 a7 b7 where "SHA2_STEP p w (i + 6) (c6, d6, e6, f6, g6, h6, a6, b6) =
      (c7, d7, e7, f7, g7, h7, a7, b7)"
    by (rule octuple_cases)
  moreover obtain b8 c8 d8 e8 f8 g8 h8 a8 where "SHA2_STEP p w (i + 7) (b7, c7, d7, e7, f7, g7, h7, a7) =
      (b8, c8, d8, e8, f8, g8, h8, a8)"
    by (rule octuple_cases)
  ultimately show ?thesis by (simp add: sha2_eight_def moved_def)
qed

lemma sha2_eights:
  "fold (\<lambda>i. sha2_eight p w (8 * i)) [0..<k] v = fold (fips_step p (\<lambda>t. w ! t)) [0..<8 * k] v"
  using fold_groups [of 0 k "\<lambda>i. sha2_eight p w (8 * i)" "fips_step p (\<lambda>t. w ! t)" 8 v]
  by (simp add: sha2_eight_moved SHA2_STEP_fips)

lemma sha2_round_fips:
  assumes "length m = 16" and "16 \<le> n" and "8 dvd n"
  shows "sha2_round p n m val = fips_compress p n m val"
proof -
  have "fold (\<lambda>i. sha2_eight p (sha2_expand p n m) (8 * i)) [0..<n div 8] v =
      fold (fips_step p (fips_schedule p m)) [0..<n] v" for v
    using assms(3) sha2_expand_nth [OF assms(1,2), of p]
    by (simp add: sha2_eights) (intro fold_cong refl, auto simp: fips_step_def fun_eq_iff)
  then show ?thesis by (simp add: sha2_round_def fips_compress_def Let_def)
qed

lemma br_sha2small_round_fips: "br_sha2small_round = (\<lambda>b. fips_compress fips_small 64 (br_range_dec32be 16 b))"
  by (simp add: fun_eq_iff br_sha2small_round_def small_parts_fips sha2_round_fips)

lemma sha2big_round_fips: "sha2big_round = (\<lambda>b. fips_compress fips_big 80 (br_range_dec64be 16 b))"
  by (simp add: fun_eq_iff sha2big_round_def big_parts_fips sha2_round_fips)

section \<open>Padding\<close>

lemma bit_of_nat_word: "bit (word_of_nat n :: 'a::len word) j \<longleftrightarrow> j < LENGTH('a) \<and> bit n j"
  by (metis bit_of_nat_iff_bit bit_word_of_int_iff of_int_of_nat_eq)

lemma octet_of_nat:
  assumes "k + 8 \<le> LENGTH('a)"
  shows "(ucast (drop_bit k (word_of_nat n :: 'a::len word)) :: byte) = word_of_nat (n div 2 ^ k)"
proof (rule bit_word_eqI)
  fix j assume "j < LENGTH(8)"
  then have "bit (ucast (drop_bit k (word_of_nat n :: 'a word)) :: byte) j \<longleftrightarrow> bit n (k + j)"
    using assms by (simp add: bit_ucast_iff bit_drop_bit_eq bit_of_nat_word)
  moreover have "bit (word_of_nat (n div 2 ^ k) :: byte) j \<longleftrightarrow> bit n (k + j)"
    using \<open>j < LENGTH(8)\<close> by (simp add: bit_of_nat_word bit_drop_bit_eq flip: drop_bit_eq_div)
  ultimately show "bit (ucast (drop_bit k (word_of_nat n :: 'a word)) :: byte) j \<longleftrightarrow>
      bit (word_of_nat (n div 2 ^ k) :: byte) j" by simp
qed

lemma enc64be_bytes: "br_enc64be (word_of_nat n) = be_bytes 8 n"
proof -
  have u: "ucast (drop_bit k (ucast x :: u32)) = (ucast (drop_bit k x) :: byte)" if "k \<le> 24" for k and x :: u64
    using that by (intro bit_word_eqI) (auto simp: bit_simps)
  have z: "(ucast (ucast x :: u32) :: byte) = ucast (drop_bit 0 x)" for x :: u64
    using u [of 0] by simp
  have "[0..<8] = [0, 1, 2, 3, 4, 5, 6, 7]" by (simp add: upt_rec)
  moreover have "(256 :: nat) = 2 ^ 8" by simp
  ultimately show ?thesis
    by (simp only: br_enc64be_def br_enc32be_def be_bytes_def)
       (simp add: u z octet_of_nat octet_of_nat [of 0, simplified] drop_bit_drop_bit flip: power_mult)
qed

lemma enc_small: "br_enc64be (push_bit 3 (word_of_nat n)) = be_bytes 8 (8 * n)"
proof -
  have "push_bit 3 (word_of_nat n) = (word_of_nat (8 * n) :: u64)" by (simp add: push_bit_eq_mult)
  then show ?thesis by (simp only: enc64be_bytes)
qed

lemma be_bytes_append: "be_bytes (j + k) n = be_bytes j (n div 256 ^ k) @ be_bytes k n"
proof -
  have "[0..<j + k] = [0..<j] @ map (\<lambda>i. i + j) [0..<k]"
    using upt_add_eq_append [of 0 j k] by (simp add: map_add_upt add.commute)
  moreover have "map (\<lambda>i. word_of_nat (n div 256 ^ (j + k - 1 - i))) [0..<j] =
      (map (\<lambda>i. word_of_nat (n div 256 ^ k div 256 ^ (j - 1 - i))) [0..<j] :: byte list)"
  proof (rule map_cong [OF refl])
    fix i assume "i \<in> set [0..<j]"
    then have "j + k - 1 - i = k + (j - 1 - i)" by auto
    then show "word_of_nat (n div 256 ^ (j + k - 1 - i)) = (word_of_nat (n div 256 ^ k div 256 ^ (j - 1 - i)) :: byte)"
      by (simp only: power_add div_mult2_eq)
  qed
  ultimately show ?thesis
    by (simp add: be_bytes_def comp_def)
qed

lemma enc_big:
  assumes "n < 2 ^ 64"
  shows "br_enc64be (drop_bit 61 (word_of_nat n)) @ br_enc64be (push_bit 3 (word_of_nat n)) = be_bytes 16 (8 * n)"
proof -
  have "unat (word_of_nat n :: u64) = n"
    using assms by (simp add: unat_of_nat take_bit_nat_eq_self)
  then have "(drop_bit 61 (word_of_nat n) :: u64) = word_of_nat (n div 2 ^ 61)"
    by (simp add: word_unat_eq_iff unat_drop_bit unat_of_nat take_bit_nat_eq_self)
  moreover have "n div 2 ^ 61 = 8 * n div 256 ^ 8"
    using div_mult_mult1 [of 8 n "2 ^ 61"] by simp
  ultimately show ?thesis
    using be_bytes_append [of 8 8 "8 * n"] by (simp only: enc_small enc64be_bytes) simp
qed

section \<open>The code computes the standard\<close>

interpretation small: block_hash 64 br_sha2small_round
  by unfold_locales (auto intro: exI [of _ 6])

interpretation big: block_hash 128 sha2big_round
  by unfold_locales (auto intro: exI [of _ 7])

abbreviation holds_small :: "u32 list \<Rightarrow> byte list \<Rightarrow> sha2small_context \<Rightarrow> bool" where
  "holds_small \<equiv> holds 64 br_sha2small_round"

abbreviation holds_big :: "u64 list \<Rightarrow> byte list \<Rightarrow> sha2big_context \<Rightarrow> bool" where
  "holds_big \<equiv> holds 128 sha2big_round"

lemma sha2small_update_holds: "holds_small iv m cc \<Longrightarrow> holds_small iv (m @ d) (sha2small_update cc d)"
  using small.buffer_loop_holds [of iv m cc d] small.offset [of "length m"]
  by (simp add: sha2small_update_def holds_def)

lemma sha2big_update_holds: "holds_big iv m cc \<Longrightarrow> holds_big iv (m @ d) (sha2big_update cc d)"
  using big.buffer_loop_holds [of iv m cc d] big.offset [of "length m"]
  by (simp add: sha2big_update_def holds_def)

lemma round_lengths: "length (br_sha2small_round b v) = 8" "length (sha2big_round b u) = 8"
  by (simp_all add: br_sha2small_round_def sha2big_round_def sha2_round_def Let_def case_prod_beta)

lemma fold_length: "(\<And>b v. length (round b v) = k) \<Longrightarrow> length iv = k \<Longrightarrow> length (fold round bs iv) = k"
  by (induction bs arbitrary: iv) simp_all

lemma iv_lengths [simp]: "length br_sha224_IV = 8" "length br_sha256_IV = 8" "length IV384 = 8" "length IV512 = 8"
  by (simp_all add: br_sha224_IV_def br_sha256_IV_def IV384_def IV512_def)

lemma small_length: "holds_small iv m cc \<Longrightarrow> length iv = 8 \<Longrightarrow> length (hval cc) = 8"
  by (simp add: holds_def fold_length round_lengths)

lemma big_length: "holds_big iv m cc \<Longrightarrow> length iv = 8 \<Longrightarrow> length (hval cc) = 8"
  by (simp add: holds_def fold_length round_lengths)

definition sha2small_value :: "u32 list \<Rightarrow> nat \<Rightarrow> byte list \<Rightarrow> byte list" where
  "sha2small_value iv num m =
     br_range_enc32be (take num (md_hash 64 8 (\<lambda>count. br_enc64be (push_bit 3 count)) br_sha2small_round iv m))"

definition sha2big_value :: "u64 list \<Rightarrow> nat \<Rightarrow> byte list \<Rightarrow> byte list" where
  "sha2big_value iv num m =
     br_range_enc64be (take num (md_hash 128 16
       (\<lambda>count. br_enc64be (drop_bit 61 count) @ br_enc64be (push_bit 3 count)) sha2big_round iv m))"

lemma sha2small_out_holds: "holds_small iv m cc \<Longrightarrow> sha2small_out num cc = sha2small_value iv num m"
  using small.md_out_holds [of iv m cc 8] by (simp add: sha2small_out_def sha2small_value_def)

lemma sha2big_out_holds: "holds_big iv m cc \<Longrightarrow> sha2big_out num cc = sha2big_value iv num m"
  using big.md_out_holds [of iv m cc 16] by (simp add: sha2big_out_def sha2big_value_def)

lemma md_pad_small: "md_pad 64 8 (\<lambda>count. br_enc64be (push_bit 3 count)) m = fips_pad 64 8 m"
  by (simp only: md_pad_def fips_pad_def enc_small)

lemma md_pad_big:
  "length m < 2 ^ 64 \<Longrightarrow>
   md_pad 128 16 (\<lambda>count. br_enc64be (drop_bit 61 count) @ br_enc64be (push_bit 3 count)) m = fips_pad 128 16 m"
  by (simp only: md_pad_def fips_pad_def enc_big)

lemma range_enc_concat:
  "br_range_enc32be v = concat (map br_enc32be v)"
  by (induction v) simp_all

lemma range_enc64_concat: "br_range_enc64be u = concat (map br_enc64be u)"
  by (induction u) simp_all

lemma sha2small_value_fips: "sha2small_value iv num m = fips_sha_small iv num m"
  by (simp only: sha2small_value_def md_hash_def fips_sha_small_def md_pad_small range_enc_concat br_sha2small_round_fips)

lemma sha2big_value_fips: "length m < 2 ^ 64 \<Longrightarrow> sha2big_value iv num m = fips_sha_big iv num m"
  by (simp only: sha2big_value_def md_hash_def fips_sha_big_def range_enc64_concat md_pad_big sha2big_round_fips)

lemma init_holds:
  "length (hbuf c) = 64 \<Longrightarrow> holds_small br_sha224_IV [] (br_sha224_init c)"
  "length (hbuf c) = 64 \<Longrightarrow> holds_small br_sha256_IV [] (br_sha256_init c)"
  "length (hbuf d) = 128 \<Longrightarrow> holds_big IV384 [] (br_sha384_init d)"
  "length (hbuf d) = 128 \<Longrightarrow> holds_big IV512 [] (br_sha512_init d)"
  by (simp_all add: br_sha224_init_def br_sha256_init_def br_sha384_init_def br_sha512_init_def
        small.holds_Nil big.holds_Nil)

lemma md_hash_length:
  "(\<And>b v. length (round b v) = k) \<Longrightarrow> length iv = k \<Longrightarrow> length (md_hash B L enc round iv m) = k"
  by (simp add: md_hash_def fold_length)

lemma value_lengths:
  "num \<le> 8 \<Longrightarrow> length iv = 8 \<Longrightarrow> length (sha2small_value iv num m) = 4 * num"
  "num \<le> 8 \<Longrightarrow> length jv = 8 \<Longrightarrow> length (sha2big_value jv num m) = 8 * num"
  by (simp_all add: sha2small_value_def sha2big_value_def md_hash_length round_lengths)

lemma small_state:
  assumes "holds_small iv m cc" and "length iv = 8" and "64 dvd length m" and "length (hbuf cc') = 64"
  shows "holds_small iv m (br_sha224_set_state (fst (br_sha224_state cc)) (word_of_nat (length m)) cc')"
  using assms range_dec_enc(2) [of "hval cc" "[]"] small_length [OF assms(1,2)]
  by (simp add: br_sha224_set_state_def br_sha224_state_def holds_def mod_eq_0_iff_dvd [THEN iffD2])

lemma big_state:
  assumes "holds_big iv m cc" and "length iv = 8" and "128 dvd length m" and "length (hbuf cc') = 128"
  shows "holds_big iv m (br_sha384_set_state (fst (br_sha384_state cc)) (word_of_nat (length m)) cc')"
  using assms range_dec64_enc64(2) [of "hval cc" "[]"] big_length [OF assms(1,2)]
  by (simp add: br_sha384_set_state_def br_sha384_state_def holds_def mod_eq_0_iff_dvd [THEN iffD2])

lemma vtable_sizes:
  "br_digest_size br_sha224_vtable = 28" "block_size br_sha224_vtable = 64"
  "br_digest_size br_sha256_vtable = 32" "block_size br_sha256_vtable = 64"
  "br_digest_size br_sha384_vtable = 48" "block_size br_sha384_vtable = 128"
  "br_digest_size br_sha512_vtable = 64" "block_size br_sha512_vtable = 128"
  by (simp_all add: br_digest_size_def block_size_def hashdesc br_sha224_vtable_def br_sha256_vtable_def
        br_sha384_vtable_def br_sha512_vtable_def)

lemma sha224_fields [simp]:
  "h_init br_sha224_vtable = br_sha224_init" "h_update br_sha224_vtable = br_sha224_update" "h_out br_sha224_vtable = br_sha224_out"
  "h_state br_sha224_vtable = br_sha224_state" "h_set_state br_sha224_vtable = br_sha224_set_state"
  by (simp_all add: br_sha224_vtable_def)

lemma sha256_fields [simp]:
  "h_init br_sha256_vtable = br_sha256_init" "h_update br_sha256_vtable = br_sha224_update" "h_out br_sha256_vtable = br_sha256_out"
  "h_state br_sha256_vtable = br_sha224_state" "h_set_state br_sha256_vtable = br_sha224_set_state"
  by (simp_all add: br_sha256_vtable_def)

lemma sha384_fields [simp]:
  "h_init br_sha384_vtable = br_sha384_init" "h_update br_sha384_vtable = br_sha384_update" "h_out br_sha384_vtable = br_sha384_out"
  "h_state br_sha384_vtable = br_sha384_state" "h_set_state br_sha384_vtable = br_sha384_set_state"
  by (simp_all add: br_sha384_vtable_def)

lemma sha512_fields [simp]:
  "h_init br_sha512_vtable = br_sha512_init" "h_update br_sha512_vtable = br_sha384_update" "h_out br_sha512_vtable = br_sha512_out"
  "h_state br_sha512_vtable = br_sha384_state" "h_set_state br_sha512_vtable = br_sha384_set_state"
  by (simp_all add: br_sha512_vtable_def)

interpretation sha224: hash_function br_sha224_vtable "sha2small_value br_sha224_IV 7" 64
    "\<lambda>cc. length (hbuf cc) = 64" "holds_small br_sha224_IV"
  by unfold_locales
     (auto simp: vtable_sizes value_lengths init_holds br_sha224_update_def sha2small_update_holds
        br_sha224_out_def sha2small_out_holds small_state dest: holds_buffer)

interpretation sha256: hash_function br_sha256_vtable "sha2small_value br_sha256_IV 8" 64
    "\<lambda>cc. length (hbuf cc) = 64" "holds_small br_sha256_IV"
  by unfold_locales
     (auto simp: vtable_sizes value_lengths init_holds br_sha224_update_def sha2small_update_holds
        br_sha256_out_def sha2small_out_holds small_state dest: holds_buffer)

interpretation sha384: hash_function br_sha384_vtable "sha2big_value IV384 6" 128
    "\<lambda>cc. length (hbuf cc) = 128" "holds_big IV384"
  by unfold_locales
     (auto simp: vtable_sizes value_lengths init_holds br_sha384_update_def sha2big_update_holds
        br_sha384_out_def sha2big_out_holds big_state dest: holds_buffer)

interpretation sha512: hash_function br_sha512_vtable "sha2big_value IV512 8" 128
    "\<lambda>cc. length (hbuf cc) = 128" "holds_big IV512"
  by unfold_locales
     (auto simp: vtable_sizes value_lengths init_holds br_sha384_update_def sha2big_update_holds
        br_sha512_out_def sha2big_out_holds big_state dest: holds_buffer)

text \<open>C30: Whatever was in the context before, and in whatever pieces the message comes, the output functions give
  the hash values the Secure Hash Standard defines for the whole message: SHA-224, SHA-256, and, for messages
  whose length the 64-bit count can hold, SHA-384 and SHA-512.\<close>

theorem sha2_computes_standard:
  assumes "length (hbuf c) = 64" and "length (hbuf d) = 128" and "length (concat ds) < 2 ^ 64"
  shows "br_sha224_out (fold (\<lambda>m cc. br_sha224_update cc m) ds (br_sha224_init c)) =
      fips_sha_small br_sha224_IV 7 (concat ds) \<and>
    br_sha256_out (fold (\<lambda>m cc. br_sha224_update cc m) ds (br_sha256_init c)) =
      fips_sha_small br_sha256_IV 8 (concat ds) \<and>
    br_sha384_out (fold (\<lambda>m cc. br_sha384_update cc m) ds (br_sha384_init d)) =
      fips_sha_big IV384 6 (concat ds) \<and>
    br_sha512_out (fold (\<lambda>m cc. br_sha384_update cc m) ds (br_sha512_init d)) =
      fips_sha_big IV512 8 (concat ds)"
  using sha224.hash_pieces [OF assms(1)] sha256.hash_pieces [OF assms(1)]
    sha384.hash_pieces [OF assms(2)] sha512.hash_pieces [OF assms(2)]
  by (simp add: sha2small_value_fips sha2big_value_fips [OF assms(3)])

theorem sha2_computes_standard_witness:
  "br_sha256_out (br_sha224_update (br_sha224_update
      (br_sha256_init \<lparr>hbuf = replicate 64 0, hval = [], hcount = 5\<rparr>) [0x61]) [0x62, 0x63]) =
    fips_sha_small br_sha256_IV 8 [0x61, 0x62, 0x63]"
  using sha2_computes_standard [of "\<lparr>hbuf = replicate 64 0, hval = [], hcount = 5\<rparr>"
      "\<lparr>hbuf = replicate 128 0, hval = [], hcount = 5\<rparr>" "[[0x61], [0x62, 0x63]]"] by simp

end
