(* ===== verification/Md5_Sha1.thy ===== *)
theory Md5_Sha1
  imports Sha2
begin

text \<open>
  MD5, SHA-1 and the two side by side, as TLS before version 1.2 uses them: \<^verbatim>\<open>md5.c\<close>, \<^verbatim>\<open>sha1.c\<close> and
  \<^verbatim>\<open>md5sha1.c\<close> in \<^verbatim>\<open>bearssl/src/hash\<close>. Like those of SHA-2 the rounds rename the variables, four or five steps at
  a time. Shown: the code computes the functions of RFC 1321 and of the Secure Hash Standard, for a
  message in any pieces.
\<close>

section \<open>The code\<close>

definition ROTL :: "nat \<Rightarrow> 'a::len word \<Rightarrow> 'a word" where
  "ROTL n x = push_bit n x OR drop_bit (LENGTH('a) - n) x"

subsection \<open>MD5\<close>

definition MD5_F :: "u32 \<Rightarrow> u32 \<Rightarrow> u32 \<Rightarrow> u32" where "MD5_F b c d = ((c XOR d) AND b) XOR d"

definition MD5_G :: "u32 \<Rightarrow> u32 \<Rightarrow> u32 \<Rightarrow> u32" where "MD5_G b c d = ((c XOR b) AND d) XOR c"

definition MD5_H :: "u32 \<Rightarrow> u32 \<Rightarrow> u32 \<Rightarrow> u32" where "MD5_H b c d = b XOR c XOR d"

definition MD5_I :: "u32 \<Rightarrow> u32 \<Rightarrow> u32 \<Rightarrow> u32" where "MD5_I b c d = c XOR (b OR NOT d)"

definition br_md5_IV :: "u32 list" where
  "br_md5_IV = [0x67452301, 0xEFCDAB89, 0x98BADCFE, 0x10325476]"

definition MD5_K :: "u32 list" where
  "MD5_K =
    [0xD76AA478, 0xE8C7B756, 0x242070DB, 0xC1BDCEEE,
     0xF57C0FAF, 0x4787C62A, 0xA8304613, 0xFD469501,
     0x698098D8, 0x8B44F7AF, 0xFFFF5BB1, 0x895CD7BE,
     0x6B901122, 0xFD987193, 0xA679438E, 0x49B40821,
     0xF61E2562, 0xC040B340, 0x265E5A51, 0xE9B6C7AA,
     0xD62F105D, 0x02441453, 0xD8A1E681, 0xE7D3FBC8,
     0x21E1CDE6, 0xC33707D6, 0xF4D50D87, 0x455A14ED,
     0xA9E3E905, 0xFCEFA3F8, 0x676F02D9, 0x8D2A4C8A,
     0xFFFA3942, 0x8771F681, 0x6D9D6122, 0xFDE5380C,
     0xA4BEEA44, 0x4BDECFA9, 0xF6BB4B60, 0xBEBFBC70,
     0x289B7EC6, 0xEAA127FA, 0xD4EF3085, 0x04881D05,
     0xD9D4D039, 0xE6DB99E5, 0x1FA27CF8, 0xC4AC5665,
     0xF4292244, 0x432AFF97, 0xAB9423A7, 0xFC93A039,
     0x655B59C3, 0x8F0CCC92, 0xFFEFF47D, 0x85845DD1,
     0x6FA87E4F, 0xFE2CE6E0, 0xA3014314, 0x4E0811A1,
     0xF7537E82, 0xBD3AF235, 0x2AD7D2BB, 0xEB86D391]"

definition MP :: "nat list" where
  "MP =
    [1, 6, 11, 0, 5, 10, 15, 4, 9, 14, 3, 8, 13, 2, 7, 12,
     5, 8, 11, 14, 1, 4, 7, 10, 13, 0, 3, 6, 9, 12, 15, 2,
     0, 7, 14, 5, 12, 3, 10, 1, 8, 15, 6, 13, 4, 11, 2, 9]"

type_synonym quad32 = "u32 \<times> u32 \<times> u32 \<times> u32"

text \<open>One assignment of the loops, to the first variable.\<close>

definition MD5_STEP :: "(u32 \<Rightarrow> u32 \<Rightarrow> u32 \<Rightarrow> u32) \<Rightarrow> (nat \<Rightarrow> u32) \<Rightarrow> nat \<Rightarrow> nat \<Rightarrow> quad32 \<Rightarrow> quad32" where
  "MD5_STEP f x s t v = (let (A, B, C, D) = v in (B + ROTL s (A + f B C D + x t + MD5_K ! t), B, C, D))"

definition md5_four ::
    "(u32 \<Rightarrow> u32 \<Rightarrow> u32 \<Rightarrow> u32) \<Rightarrow> (nat \<Rightarrow> u32) \<Rightarrow> nat \<times> nat \<times> nat \<times> nat \<Rightarrow> nat \<Rightarrow> quad32 \<Rightarrow> quad32" where
  "md5_four f x s i v =
     (let (s0, s1, s2, s3) = s; (a, b, c, d) = v;
          (a, b, c, d) = MD5_STEP f x s0 (i + 0) (a, b, c, d);
          (d, a, b, c) = MD5_STEP f x s1 (i + 1) (d, a, b, c);
          (c, d, a, b) = MD5_STEP f x s2 (i + 2) (c, d, a, b);
          (b, c, d, a) = MD5_STEP f x s3 (i + 3) (b, c, d, a)
      in (a, b, c, d))"

definition br_md5_round :: "byte list \<Rightarrow> u32 list \<Rightarrow> u32 list" where
  "br_md5_round buf val =
     (let m = br_range_dec32le 16 buf; v = (val ! 0, val ! 1, val ! 2, val ! 3);
          v = fold (\<lambda>i. md5_four MD5_F (\<lambda>t. m ! t) (7, 12, 17, 22) (4 * i)) [0..<4] v;
          v = fold (\<lambda>i. md5_four MD5_G (\<lambda>t. m ! (MP ! (t - 16))) (5, 9, 14, 20) (4 * i)) [4..<8] v;
          v = fold (\<lambda>i. md5_four MD5_H (\<lambda>t. m ! (MP ! (t - 16))) (4, 11, 16, 23) (4 * i)) [8..<12] v;
          v = fold (\<lambda>i. md5_four MD5_I (\<lambda>t. m ! (MP ! (t - 16))) (6, 10, 15, 21) (4 * i)) [12..<16] v;
          (a, b, c, d) = v
      in [val ! 0 + a, val ! 1 + b, val ! 2 + c, val ! 3 + d])"

type_synonym md5_context = "u32 list hash_context"

definition br_md5_init :: "md5_context \<Rightarrow> md5_context" where
  "br_md5_init cc = cc\<lparr>hval := br_md5_IV, hcount := 0\<rparr>"

definition br_md5_update :: "md5_context \<Rightarrow> byte list \<Rightarrow> md5_context" where
  "br_md5_update cc data = counting_loop 64 br_md5_round (unat (hcount cc AND 63)) data cc"

definition br_md5_out :: "md5_context \<Rightarrow> byte list" where
  "br_md5_out cc = br_range_enc32le (md_out 64 8 (\<lambda>count. br_enc64le (push_bit 3 count)) br_md5_round cc)"

definition br_md5_state :: "md5_context \<Rightarrow> byte list \<times> u64" where
  "br_md5_state cc = (br_range_enc32le (hval cc), hcount cc)"

definition br_md5_set_state :: "byte list \<Rightarrow> u64 \<Rightarrow> md5_context \<Rightarrow> md5_context" where
  "br_md5_set_state stb n cc = cc\<lparr>hval := br_range_dec32le 4 stb, hcount := n\<rparr>"

definition br_md5_vtable :: "md5_context br_hash_class" where
  "br_md5_vtable =
     \<lparr>desc = BR_HASHDESC_ID 1 OR BR_HASHDESC_OUT 16 OR BR_HASHDESC_STATE 16 OR BR_HASHDESC_LBLEN 6 OR
        BR_HASHDESC_MD_PADDING,
      h_init = br_md5_init, h_update = br_md5_update, h_out = br_md5_out,
      h_state = br_md5_state, h_set_state = br_md5_set_state\<rparr>"

subsection \<open>SHA-1\<close>

definition SHA1_F :: "u32 \<Rightarrow> u32 \<Rightarrow> u32 \<Rightarrow> u32" where "SHA1_F b c d = ((c XOR d) AND b) XOR d"

definition SHA1_G :: "u32 \<Rightarrow> u32 \<Rightarrow> u32 \<Rightarrow> u32" where "SHA1_G b c d = b XOR c XOR d"

definition SHA1_H :: "u32 \<Rightarrow> u32 \<Rightarrow> u32 \<Rightarrow> u32" where "SHA1_H b c d = (d AND c) OR ((d OR c) AND b)"

definition SHA1_I :: "u32 \<Rightarrow> u32 \<Rightarrow> u32 \<Rightarrow> u32" where "SHA1_I b c d = SHA1_G b c d"

definition SHA1_K1 :: u32 where "SHA1_K1 = 0x5A827999"

definition SHA1_K2 :: u32 where "SHA1_K2 = 0x6ED9EBA1"

definition SHA1_K3 :: u32 where "SHA1_K3 = 0x8F1BBCDC"

definition SHA1_K4 :: u32 where "SHA1_K4 = 0xCA62C1D6"

definition br_sha1_IV :: "u32 list" where
  "br_sha1_IV = [0x67452301, 0xEFCDAB89, 0x98BADCFE, 0x10325476, 0xC3D2E1F0]"

type_synonym quint32 = "u32 \<times> u32 \<times> u32 \<times> u32 \<times> u32"

definition SHA1_STEP :: "(u32 \<Rightarrow> u32 \<Rightarrow> u32 \<Rightarrow> u32) \<Rightarrow> u32 \<Rightarrow> u32 list \<Rightarrow> nat \<Rightarrow> quint32 \<Rightarrow> quint32" where
  "SHA1_STEP f k m t v =
     (let (A, B, C, D, E) = v in (A, ROTL 30 B, C, D, E + (ROTL 5 A + f B C D + k + m ! t)))"

definition sha1_five :: "(u32 \<Rightarrow> u32 \<Rightarrow> u32 \<Rightarrow> u32) \<Rightarrow> u32 \<Rightarrow> u32 list \<Rightarrow> nat \<Rightarrow> quint32 \<Rightarrow> quint32" where
  "sha1_five f k m i v =
     (let (a, b, c, d, e) = v;
          (a, b, c, d, e) = SHA1_STEP f k m (i + 0) (a, b, c, d, e);
          (e, a, b, c, d) = SHA1_STEP f k m (i + 1) (e, a, b, c, d);
          (d, e, a, b, c) = SHA1_STEP f k m (i + 2) (d, e, a, b, c);
          (c, d, e, a, b) = SHA1_STEP f k m (i + 3) (c, d, e, a, b);
          (b, c, d, e, a) = SHA1_STEP f k m (i + 4) (b, c, d, e, a)
      in (a, b, c, d, e))"

definition sha1_expand :: "u32 list \<Rightarrow> nat \<Rightarrow> u32 list" where
  "sha1_expand m n =
     fold (\<lambda>i m. let x = m ! (i - 3) XOR m ! (i - 8) XOR m ! (i - 14) XOR m ! (i - 16) in m @ [ROTL 1 x]) [16..<n] m"

definition br_sha1_round :: "byte list \<Rightarrow> u32 list \<Rightarrow> u32 list" where
  "br_sha1_round buf val =
     (let v = (val ! 0, val ! 1, val ! 2, val ! 3, val ! 4);
          m = sha1_expand (br_range_dec32be 16 buf) 80;
          v = fold (\<lambda>i. sha1_five SHA1_F SHA1_K1 m (5 * i)) [0..<4] v;
          v = fold (\<lambda>i. sha1_five SHA1_G SHA1_K2 m (5 * i)) [4..<8] v;
          v = fold (\<lambda>i. sha1_five SHA1_H SHA1_K3 m (5 * i)) [8..<12] v;
          v = fold (\<lambda>i. sha1_five SHA1_I SHA1_K4 m (5 * i)) [12..<16] v;
          (a, b, c, d, e) = v
      in [val ! 0 + a, val ! 1 + b, val ! 2 + c, val ! 3 + d, val ! 4 + e])"

type_synonym sha1_context = "u32 list hash_context"

definition br_sha1_init :: "sha1_context \<Rightarrow> sha1_context" where
  "br_sha1_init cc = cc\<lparr>hval := br_sha1_IV, hcount := 0\<rparr>"

definition br_sha1_update :: "sha1_context \<Rightarrow> byte list \<Rightarrow> sha1_context" where
  "br_sha1_update cc data = counting_loop 64 br_sha1_round (unat (hcount cc AND 63)) data cc"

definition br_sha1_out :: "sha1_context \<Rightarrow> byte list" where
  "br_sha1_out cc = br_range_enc32be (md_out 64 8 (\<lambda>count. br_enc64be (push_bit 3 count)) br_sha1_round cc)"

definition br_sha1_state :: "sha1_context \<Rightarrow> byte list \<times> u64" where
  "br_sha1_state cc = (br_range_enc32be (hval cc), hcount cc)"

definition br_sha1_set_state :: "byte list \<Rightarrow> u64 \<Rightarrow> sha1_context \<Rightarrow> sha1_context" where
  "br_sha1_set_state stb n cc = cc\<lparr>hval := br_range_dec32be 5 stb, hcount := n\<rparr>"

definition br_sha1_vtable :: "sha1_context br_hash_class" where
  "br_sha1_vtable =
     \<lparr>desc = BR_HASHDESC_ID 2 OR BR_HASHDESC_OUT 20 OR BR_HASHDESC_STATE 20 OR BR_HASHDESC_LBLEN 6 OR
        BR_HASHDESC_MD_PADDING OR BR_HASHDESC_MD_PADDING_BE,
      h_init = br_sha1_init, h_update = br_sha1_update, h_out = br_sha1_out,
      h_state = br_sha1_state, h_set_state = br_sha1_set_state\<rparr>"

subsection \<open>MD5 and SHA-1 together\<close>

text \<open>One buffer and one count serve both; the value is the pair of the two.\<close>

type_synonym md5sha1_context = "(u32 list \<times> u32 list) hash_context"

definition md5sha1_round :: "byte list \<Rightarrow> u32 list \<times> u32 list \<Rightarrow> u32 list \<times> u32 list" where
  "md5sha1_round buf val = (br_md5_round buf (fst val), br_sha1_round buf (snd val))"

definition br_md5sha1_init :: "md5sha1_context \<Rightarrow> md5sha1_context" where
  "br_md5sha1_init cc = cc\<lparr>hval := (br_md5_IV, br_sha1_IV), hcount := 0\<rparr>"

definition br_md5sha1_update :: "md5sha1_context \<Rightarrow> byte list \<Rightarrow> md5sha1_context" where
  "br_md5sha1_update cc data = counting_loop 64 md5sha1_round (unat (hcount cc AND 63)) data cc"

definition br_md5sha1_out :: "md5sha1_context \<Rightarrow> byte list" where
  "br_md5sha1_out cc =
     (let n = hcount cc; ptr = unat (n AND 63); buf = take ptr (hbuf cc) @ [0x80];
          (val_md5, val_sha1) = hval cc; ptr = ptr + 1;
          (buf, val_md5, val_sha1) = (if ptr > 56
             then let buf = buf @ replicate (64 - ptr) 0
                  in (replicate 56 0, br_md5_round buf val_md5, br_sha1_round buf val_sha1)
             else (buf @ replicate (56 - ptr) 0, val_md5, val_sha1));
          n = push_bit 3 n;
          val_md5 = br_md5_round (buf @ br_enc64le n) val_md5;
          val_sha1 = br_sha1_round (buf @ br_enc64be n) val_sha1
      in br_range_enc32le val_md5 @ br_range_enc32be val_sha1)"

definition br_md5sha1_state :: "md5sha1_context \<Rightarrow> byte list \<times> u64" where
  "br_md5sha1_state cc = (br_range_enc32le (fst (hval cc)) @ br_range_enc32be (snd (hval cc)), hcount cc)"

definition br_md5sha1_set_state :: "byte list \<Rightarrow> u64 \<Rightarrow> md5sha1_context \<Rightarrow> md5sha1_context" where
  "br_md5sha1_set_state stb n cc =
     cc\<lparr>hval := (br_range_dec32le 4 stb, br_range_dec32be 5 (drop 16 stb)), hcount := n\<rparr>"

definition br_md5sha1_vtable :: "md5sha1_context br_hash_class" where
  "br_md5sha1_vtable =
     \<lparr>desc = BR_HASHDESC_ID 0 OR BR_HASHDESC_OUT 36 OR BR_HASHDESC_STATE 36 OR BR_HASHDESC_LBLEN 6,
      h_init = br_md5sha1_init, h_update = br_md5sha1_update, h_out = br_md5sha1_out,
      h_state = br_md5sha1_state, h_set_state = br_md5sha1_set_state\<rparr>"

section \<open>The standards\<close>

definition rfc_md5_f :: "nat \<Rightarrow> u32 \<Rightarrow> u32 \<Rightarrow> u32 \<Rightarrow> u32" where
  "rfc_md5_f t x y z =
     (if t < 16 then (x AND y) OR (NOT x AND z) else if t < 32 then (x AND z) OR (y AND NOT z)
      else if t < 48 then x XOR y XOR z else y XOR (x OR NOT z))"

definition rfc_md5_word :: "nat \<Rightarrow> nat" where
  "rfc_md5_word t =
     (if t < 16 then t else if t < 32 then (5 * t + 1) mod 16 else if t < 48 then (3 * t + 5) mod 16 else (7 * t) mod 16)"

definition rfc_md5_shift :: "nat \<Rightarrow> nat" where
  "rfc_md5_shift t =
     (if t < 16 then [7, 12, 17, 22] else if t < 32 then [5, 9, 14, 20] else if t < 48 then [4, 11, 16, 23]
      else [6, 10, 15, 21]) ! (t mod 4)"

definition rfc_md5_step :: "u32 list \<Rightarrow> nat \<Rightarrow> quad32 \<Rightarrow> quad32" where
  "rfc_md5_step m t v =
     (case v of (a, b, c, d) \<Rightarrow>
        (d, b + word_rotl (rfc_md5_shift t) (a + rfc_md5_f t b c d + m ! rfc_md5_word t + MD5_K ! t), b, c))"

definition rfc_md5_compress :: "u32 list \<Rightarrow> u32 list \<Rightarrow> u32 list" where
  "rfc_md5_compress m H =
     (case fold (rfc_md5_step m) [0..<64] (H ! 0, H ! 1, H ! 2, H ! 3) of
        (a, b, c, d) \<Rightarrow> [H ! 0 + a, H ! 1 + b, H ! 2 + c, H ! 3 + d])"

definition le_bytes :: "nat \<Rightarrow> nat \<Rightarrow> byte list" where
  "le_bytes k n = map (\<lambda>i. word_of_nat (n div 256 ^ i)) [0..<k]"

definition rfc_md5 :: "byte list \<Rightarrow> byte list" where
  "rfc_md5 m =
     concat (map br_enc32le (fold (\<lambda>b. rfc_md5_compress (br_range_dec32le 16 b))
       (blocks 64 (m @ [0x80] @ replicate ((119 - length m mod 64) mod 64) 0 @ le_bytes 8 (8 * length m))) br_md5_IV))"

definition fips_sha1_f :: "nat \<Rightarrow> u32 \<Rightarrow> u32 \<Rightarrow> u32 \<Rightarrow> u32" where
  "fips_sha1_f t x y z =
     (if t < 20 then fips_Ch x y z else if t < 40 then x XOR y XOR z else if t < 60 then fips_Maj x y z else x XOR y XOR z)"

definition fips_sha1_k :: "nat \<Rightarrow> u32" where
  "fips_sha1_k t =
     (if t < 20 then 0x5A827999 else if t < 40 then 0x6ED9EBA1 else if t < 60 then 0x8F1BBCDC else 0xCA62C1D6)"

fun fips_sha1_schedule :: "u32 list \<Rightarrow> nat \<Rightarrow> u32" where
  "fips_sha1_schedule m t =
     (if t < 16 then m ! t
      else word_rotl 1 (fips_sha1_schedule m (t - 3) XOR fips_sha1_schedule m (t - 8) XOR
        fips_sha1_schedule m (t - 14) XOR fips_sha1_schedule m (t - 16)))"

declare fips_sha1_schedule.simps [simp del]

definition fips_sha1_step :: "(nat \<Rightarrow> u32) \<Rightarrow> nat \<Rightarrow> quint32 \<Rightarrow> quint32" where
  "fips_sha1_step w t v =
     (case v of (a, b, c, d, e) \<Rightarrow>
        (word_rotl 5 a + fips_sha1_f t b c d + e + fips_sha1_k t + w t, a, word_rotl 30 b, c, d))"

definition fips_sha1_compress :: "u32 list \<Rightarrow> u32 list \<Rightarrow> u32 list" where
  "fips_sha1_compress m H =
     (case fold (fips_sha1_step (fips_sha1_schedule m)) [0..<80] (H ! 0, H ! 1, H ! 2, H ! 3, H ! 4) of
        (a, b, c, d, e) \<Rightarrow> [H ! 0 + a, H ! 1 + b, H ! 2 + c, H ! 3 + d, H ! 4 + e])"

definition fips_sha1 :: "byte list \<Rightarrow> byte list" where
  "fips_sha1 m =
     concat (map br_enc32be (fold (\<lambda>b. fips_sha1_compress (br_range_dec32be 16 b)) (blocks 64 (fips_pad 64 8 m)) br_sha1_IV))"

section \<open>The rounds\<close>

lemma ROTL_rotl: "0 < n \<Longrightarrow> n < LENGTH('a) \<Longrightarrow> ROTL n (x :: 'a::len word) = word_rotl n x"
  using ROTR_rotr [of "LENGTH('a) - n" x] by (simp add: ROTL_def ROTR_def word_rotl_eq_word_rotr)

subsection \<open>MD5\<close>

definition moved4 :: "quad32 \<Rightarrow> quad32" where
  "moved4 v = (case v of (a, b, c, d) \<Rightarrow> (d, a, b, c))"

lemma md5_four_moved:
  "md5_four f x (s0, s1, s2, s3) i v =
     moved4 (MD5_STEP f x s3 (i + 3) (moved4 (MD5_STEP f x s2 (i + 2)
       (moved4 (MD5_STEP f x s1 (i + 1) (moved4 (MD5_STEP f x s0 (i + 0) v)))))))"
  by (cases v) (simp add: md5_four_def moved4_def MD5_STEP_def)

lemma MD5_functions:
  "MD5_F x y z = (x AND y) OR (NOT x AND z)" "MD5_G x y z = (x AND z) OR (y AND NOT z)"
  by (rule bit_word_eqI, auto simp: MD5_F_def MD5_G_def bit_simps)+

lemma MP_words:
  assumes "16 \<le> t" and "t < 64"
  shows "MP ! (t - 16) = rfc_md5_word t"
proof -
  have "list_all (\<lambda>t. MP ! (t - 16) = rfc_md5_word t) [16..<64]" by code_simp
  moreover have "t \<in> set [16..<64]" using assms by (simp only: set_upt atLeastLessThan_iff)
  ultimately show ?thesis unfolding list_all_iff by blast
qed

lemma MD5_STEP_rfc:
  assumes "\<And>b c d. f b c d = rfc_md5_f t b c d" and "x t = m ! rfc_md5_word t" and "s = rfc_md5_shift t" and "s \<in> {4..23}"
  shows "moved4 (MD5_STEP f x s t v) = rfc_md5_step m t v"
  using assms by (cases v) (simp add: moved4_def MD5_STEP_def rfc_md5_step_def ROTL_rotl)

text \<open>Four steps with one function, and the shifts of one round.\<close>

lemma md5_four_rfc:
  assumes "\<And>t b c d. t \<in> {4 * i..<4 * i + 4} \<Longrightarrow> f b c d = rfc_md5_f t b c d \<and> x t = m ! rfc_md5_word t"
    and "\<And>j. j < 4 \<Longrightarrow> [s0, s1, s2, s3] ! j = rfc_md5_shift (4 * i + j)" and "{s0, s1, s2, s3} \<subseteq> {4..23}"
  shows "md5_four f x (s0, s1, s2, s3) (4 * i) v = fold (rfc_md5_step m) [4 * i..<4 * i + 4] v"
proof -
  have "[4 * i..<4 * i + 4] = [4 * i + 0, 4 * i + 1, 4 * i + 2, 4 * i + 3]" by (simp add: upt_rec)
  moreover have "moved4 (MD5_STEP f x ([s0, s1, s2, s3] ! j) (4 * i + j) v) = rfc_md5_step m (4 * i + j) v"
    if "j < 4" for j v
    using that assms(2) [OF that] assms(3)
    by (intro MD5_STEP_rfc) (auto simp: assms(1) less_Suc_eq numeral_eq_Suc)
  from this [of 0] this [of 1] this [of 2] this [of 3]
  have "moved4 (MD5_STEP f x s0 (4 * i + 0) v) = rfc_md5_step m (4 * i + 0) v"
    "moved4 (MD5_STEP f x s1 (4 * i + 1) v) = rfc_md5_step m (4 * i + 1) v"
    "moved4 (MD5_STEP f x s2 (4 * i + 2) v) = rfc_md5_step m (4 * i + 2) v"
    "moved4 (MD5_STEP f x s3 (4 * i + 3) v) = rfc_md5_step m (4 * i + 3) v" for v by simp_all
  ultimately show ?thesis unfolding md5_four_moved by (simp only: fold.simps comp_def id_def)
qed

lemma md5_shifts:
  assumes "j < 4"
  shows "rfc_md5_shift (4 * i + j) =
    (if i < 4 then [7, 12, 17, 22] else if i < 8 then [5, 9, 14, 20] else if i < 12 then [4, 11, 16, 23]
     else [6, 10, 15, 21]) ! j"
proof -
  have "4 * i + j < 16 \<longleftrightarrow> i < 4" "4 * i + j < 32 \<longleftrightarrow> i < 8" "4 * i + j < 48 \<longleftrightarrow> i < 12" using assms by presburger+
  then show ?thesis using assms by (simp add: rfc_md5_shift_def)
qed

lemmas md5_facts = md5_shifts MP_words MD5_functions MD5_H_def MD5_I_def rfc_md5_f_def

lemma md5_round_1:
  "fold (\<lambda>i. md5_four MD5_F (\<lambda>t. m ! t) (7, 12, 17, 22) (4 * i)) [0..<4] v = fold (rfc_md5_step m) [4 * 0..<4 * 4] v"
  by (rule fold_groups, rule md5_four_rfc) (auto simp: md5_facts rfc_md5_word_def)

lemma md5_round_2:
  "fold (\<lambda>i. md5_four MD5_G (\<lambda>t. m ! (MP ! (t - 16))) (5, 9, 14, 20) (4 * i)) [4..<8] v = fold (rfc_md5_step m) [4 * 4..<4 * 8] v"
  by (rule fold_groups, rule md5_four_rfc) (auto simp: md5_facts)

lemma md5_round_3:
  "fold (\<lambda>i. md5_four MD5_H (\<lambda>t. m ! (MP ! (t - 16))) (4, 11, 16, 23) (4 * i)) [8..<12] v = fold (rfc_md5_step m) [4 * 8..<4 * 12] v"
  by (rule fold_groups, rule md5_four_rfc) (auto simp: md5_facts)

lemma md5_round_4:
  "fold (\<lambda>i. md5_four MD5_I (\<lambda>t. m ! (MP ! (t - 16))) (6, 10, 15, 21) (4 * i)) [12..<16] v = fold (rfc_md5_step m) [4 * 12..<4 * 16] v"
  by (rule fold_groups, rule md5_four_rfc) (auto simp: md5_facts)

lemma fold_upt_join: "i \<le> j \<Longrightarrow> j \<le> k \<Longrightarrow> fold f [j..<k] (fold f [i..<j] v) = fold f [i..<k] v"
  using upt_add_eq_append [of i j "k - j"] by simp

lemma br_md5_round_rfc: "br_md5_round = (\<lambda>b. rfc_md5_compress (br_range_dec32le 16 b))"
proof (intro ext)
  fix b val
  show "br_md5_round b val = rfc_md5_compress (br_range_dec32le 16 b) val"
    unfolding br_md5_round_def rfc_md5_compress_def Let_def md5_round_1 md5_round_2 md5_round_3 md5_round_4
    by (simp only: fold_upt_join mult_le_mono2 le_numeral_simps) simp
qed

subsection \<open>SHA-1\<close>

definition moved5 :: "quint32 \<Rightarrow> quint32" where
  "moved5 v = (case v of (a, b, c, d, e) \<Rightarrow> (e, a, b, c, d))"

lemma sha1_five_moved:
  "sha1_five f k m i v =
     moved5 (SHA1_STEP f k m (i + 4) (moved5 (SHA1_STEP f k m (i + 3) (moved5 (SHA1_STEP f k m (i + 2)
       (moved5 (SHA1_STEP f k m (i + 1) (moved5 (SHA1_STEP f k m (i + 0) v)))))))))"
  by (cases v) (simp add: sha1_five_def moved5_def SHA1_STEP_def)

lemma SHA1_functions: "SHA1_F x y z = fips_Ch x y z" "SHA1_H x y z = fips_Maj x y z"
  by (rule bit_word_eqI, auto simp: SHA1_F_def SHA1_H_def fips_Ch_def fips_Maj_def bit_simps)+

lemma SHA1_STEP_fips:
  assumes "\<And>b c d. f b c d = fips_sha1_f t b c d" and "k = fips_sha1_k t" and "m ! t = w t"
  shows "moved5 (SHA1_STEP f k m t v) = fips_sha1_step w t v"
  using assms by (cases v) (simp add: moved5_def SHA1_STEP_def fips_sha1_step_def ROTL_rotl add_ac)

lemma sha1_five_fips:
  assumes "\<And>t b c d. t \<in> {5 * i..<5 * i + 5} \<Longrightarrow> f b c d = fips_sha1_f t b c d \<and> k = fips_sha1_k t \<and> m ! t = w t"
  shows "sha1_five f k m (5 * i) v = fold (fips_sha1_step w) [5 * i..<5 * i + 5] v"
proof -
  have "[5 * i..<5 * i + 5] = [5 * i + 0, 5 * i + 1, 5 * i + 2, 5 * i + 3, 5 * i + 4]" by (simp add: upt_rec)
  moreover have s: "moved5 (SHA1_STEP f k m (5 * i + j) v) = fips_sha1_step w (5 * i + j) v" if "j < 5" for j v
    using that by (intro SHA1_STEP_fips) (auto simp: assms)
  ultimately show ?thesis
    unfolding sha1_five_moved by (simp add: s s [of 0, simplified] s [of 1, simplified] s [of 2, simplified])
qed

lemma sha1_expand_nth:
  assumes "length m = 16" and "16 \<le> n"
  shows "length (sha1_expand m n) = n \<and> (\<forall>t<n. sha1_expand m n ! t = fips_sha1_schedule m t)"
  using assms(2)
proof (induction n rule: nat_induct_at_least)
  case base
  then show ?case using assms(1) by (simp add: sha1_expand_def fips_sha1_schedule.simps)
next
  case (Suc n)
  let ?w = "sha1_expand m n"
  have e: "sha1_expand m (Suc n) = ?w @ [ROTL 1 (?w ! (n - 3) XOR ?w ! (n - 8) XOR ?w ! (n - 14) XOR ?w ! (n - 16))]"
    using Suc.hyps by (simp add: sha1_expand_def Let_def)
  have "fips_sha1_schedule m n = ROTL 1 (?w ! (n - 3) XOR ?w ! (n - 8) XOR ?w ! (n - 14) XOR ?w ! (n - 16))"
    using Suc by (simp add: fips_sha1_schedule.simps [of m n] ROTL_rotl)
  then show ?case using Suc.IH by (auto simp: e nth_append less_Suc_eq)
qed

lemmas sha1_facts = fips_sha1_f_def fips_sha1_k_def SHA1_functions SHA1_G_def SHA1_I_def
  SHA1_K1_def SHA1_K2_def SHA1_K3_def SHA1_K4_def

lemma sha1_round_1:
  "\<forall>t<80. m ! t = w t \<Longrightarrow>
   fold (\<lambda>i. sha1_five SHA1_F SHA1_K1 m (5 * i)) [0..<4] v = fold (fips_sha1_step w) [5 * 0..<5 * 4] v"
  by (rule fold_groups, rule sha1_five_fips) (auto simp: sha1_facts)

lemma sha1_round_2:
  "\<forall>t<80. m ! t = w t \<Longrightarrow>
   fold (\<lambda>i. sha1_five SHA1_G SHA1_K2 m (5 * i)) [4..<8] v = fold (fips_sha1_step w) [5 * 4..<5 * 8] v"
  by (rule fold_groups, rule sha1_five_fips) (auto simp: sha1_facts)

lemma sha1_round_3:
  "\<forall>t<80. m ! t = w t \<Longrightarrow>
   fold (\<lambda>i. sha1_five SHA1_H SHA1_K3 m (5 * i)) [8..<12] v = fold (fips_sha1_step w) [5 * 8..<5 * 12] v"
  by (rule fold_groups, rule sha1_five_fips) (auto simp: sha1_facts)

lemma sha1_round_4:
  "\<forall>t<80. m ! t = w t \<Longrightarrow>
   fold (\<lambda>i. sha1_five SHA1_I SHA1_K4 m (5 * i)) [12..<16] v = fold (fips_sha1_step w) [5 * 12..<5 * 16] v"
  by (rule fold_groups, rule sha1_five_fips) (auto simp: sha1_facts)

lemma br_sha1_round_fips: "br_sha1_round = (\<lambda>b. fips_sha1_compress (br_range_dec32be 16 b))"
proof (intro ext)
  fix b val
  let ?m = "br_range_dec32be 16 b"
  have w: "\<forall>t<80. sha1_expand ?m 80 ! t = fips_sha1_schedule ?m t"
    using sha1_expand_nth [of ?m 80] by simp
  show "br_sha1_round b val = fips_sha1_compress ?m val"
    unfolding br_sha1_round_def fips_sha1_compress_def Let_def
      sha1_round_1 [OF w] sha1_round_2 [OF w] sha1_round_3 [OF w] sha1_round_4 [OF w]
    by (simp only: fold_upt_join mult_le_mono2 le_numeral_simps) simp
qed

section \<open>Padding\<close>

lemma be_bytes_rev: "rev (be_bytes k n) = le_bytes k n"
  by (rule nth_equalityI) (auto simp: be_bytes_def le_bytes_def rev_nth)

lemma enc64le_bytes: "br_enc64le (push_bit 3 (word_of_nat n)) = le_bytes 8 (8 * n)"
proof -
  have "br_enc64le x = rev (br_enc64be x)" for x
    by (simp add: br_enc64le_def br_enc64be_def br_enc32le_def br_enc32be_def)
  then show ?thesis by (simp only: enc_small be_bytes_rev)
qed

section \<open>The code computes the standards\<close>

interpretation md5_block: block_hash 64 br_md5_round
  by unfold_locales (auto intro: exI [of _ 6])

interpretation sha1_block: block_hash 64 br_sha1_round
  by unfold_locales (auto intro: exI [of _ 6])

interpretation md5sha1_block: block_hash 64 md5sha1_round
  by unfold_locales (auto intro: exI [of _ 6])

text \<open>The values, and that they are those of the standards.\<close>

abbreviation count_le :: "u64 \<Rightarrow> byte list" where "count_le \<equiv> \<lambda>n. br_enc64le (push_bit 3 n)"

abbreviation count_be :: "u64 \<Rightarrow> byte list" where "count_be \<equiv> \<lambda>n. br_enc64be (push_bit 3 n)"

lemma md_pad_le: "md_pad 64 8 count_le m = m @ [0x80] @ replicate ((119 - length m mod 64) mod 64) 0 @ le_bytes 8 (8 * length m)"
  by (simp only: md_pad_def enc64le_bytes) simp

lemma range_enc_le_concat: "br_range_enc32le v = concat (map br_enc32le v)"
  by (induction v) simp_all

lemma md5_value: "br_range_enc32le (md_hash 64 8 count_le br_md5_round br_md5_IV m) = rfc_md5 m"
  by (simp only: md_hash_def rfc_md5_def md_pad_le range_enc_le_concat br_md5_round_rfc)

lemma sha1_value: "br_range_enc32be (md_hash 64 8 count_be br_sha1_round br_sha1_IV m) = fips_sha1 m"
  by (simp only: md_hash_def fips_sha1_def md_pad_small range_enc_concat br_sha1_round_fips)

lemma md5_sha1_lengths:
  "length (br_md5_round b v) = 4" "length (br_sha1_round b u) = 5" "length br_md5_IV = 4" "length br_sha1_IV = 5"
  by (simp_all add: br_md5_round_def br_sha1_round_def Let_def case_prod_beta br_md5_IV_def br_sha1_IV_def)

lemma standard_lengths: "length (rfc_md5 m) = 16" "length (fips_sha1 m) = 20"
  unfolding md5_value [symmetric] sha1_value [symmetric]
  by (simp_all add: md_hash_length md5_sha1_lengths)

abbreviation holds_md5 :: "byte list \<Rightarrow> md5_context \<Rightarrow> bool" where
  "holds_md5 \<equiv> holds 64 br_md5_round br_md5_IV"

abbreviation holds_sha1 :: "byte list \<Rightarrow> sha1_context \<Rightarrow> bool" where
  "holds_sha1 \<equiv> holds 64 br_sha1_round br_sha1_IV"

abbreviation holds_md5sha1 :: "byte list \<Rightarrow> md5sha1_context \<Rightarrow> bool" where
  "holds_md5sha1 \<equiv> holds 64 md5sha1_round (br_md5_IV, br_sha1_IV)"

lemma fold_md5sha1: "fold md5sha1_round bs v = (fold br_md5_round bs (fst v), fold br_sha1_round bs (snd v))"
  by (induction bs arbitrary: v) (simp_all add: md5sha1_round_def)

lemma holds_md5sha1_parts:
  "holds_md5sha1 m cc \<longleftrightarrow>
     holds_md5 m \<lparr>hbuf = hbuf cc, hval = fst (hval cc), hcount = hcount cc\<rparr> \<and>
     holds_sha1 m \<lparr>hbuf = hbuf cc, hval = snd (hval cc), hcount = hcount cc\<rparr>"
  by (auto simp: holds_def fold_md5sha1 prod_eq_iff)

lemma md5sha1_out_parts:
  "br_md5sha1_out cc =
     br_md5_out \<lparr>hbuf = hbuf cc, hval = fst (hval cc), hcount = hcount cc\<rparr> @
     br_sha1_out \<lparr>hbuf = hbuf cc, hval = snd (hval cc), hcount = hcount cc\<rparr>"
  by (simp add: br_md5sha1_out_def br_md5_out_def br_sha1_out_def md_out_def Let_def case_prod_beta)

lemma md5_sha1_out:
  "holds_md5 m c \<Longrightarrow> br_md5_out c = rfc_md5 m"
  "holds_sha1 m d \<Longrightarrow> br_sha1_out d = fips_sha1 m"
  by (simp_all add: br_md5_out_def br_sha1_out_def md5_block.md_out_holds sha1_block.md_out_holds md5_value sha1_value)

lemma md5sha1_out: "holds_md5sha1 m cc \<Longrightarrow> br_md5sha1_out cc = rfc_md5 m @ fips_sha1 m"
  by (auto simp: md5sha1_out_parts md5_sha1_out holds_md5sha1_parts)

lemma md5_sha1_update:
  "holds_md5 m c \<Longrightarrow> holds_md5 (m @ x) (br_md5_update c x)"
  "holds_sha1 m d \<Longrightarrow> holds_sha1 (m @ x) (br_sha1_update d x)"
  "holds_md5sha1 m e \<Longrightarrow> holds_md5sha1 (m @ x) (br_md5sha1_update e x)"
  using md5_block.counting_loop_holds [of br_md5_IV m c x] sha1_block.counting_loop_holds [of br_sha1_IV m d x]
    md5sha1_block.counting_loop_holds [of "(br_md5_IV, br_sha1_IV)" m e x] small.offset [of "length m"]
  by (simp_all add: br_md5_update_def br_sha1_update_def br_md5sha1_update_def holds_def)

lemma md5_sha1_init:
  "length (hbuf c) = 64 \<Longrightarrow> holds_md5 [] (br_md5_init c)"
  "length (hbuf d) = 64 \<Longrightarrow> holds_sha1 [] (br_sha1_init d)"
  "length (hbuf e) = 64 \<Longrightarrow> holds_md5sha1 [] (br_md5sha1_init e)"
  by (simp_all add: br_md5_init_def br_sha1_init_def br_md5sha1_init_def md5_block.holds_Nil sha1_block.holds_Nil
        md5sha1_block.holds_Nil)

lemma holds_md5_lengths:
  "holds_md5 m c \<Longrightarrow> length (hval c) = 4" "holds_sha1 m d \<Longrightarrow> length (hval d) = 5"
  by (simp_all add: holds_def fold_length md5_sha1_lengths)

lemma md5_state:
  assumes "holds_md5 m cc" and "64 dvd length m" and "length (hbuf cc') = 64"
  shows "holds_md5 m (br_md5_set_state (fst (br_md5_state cc)) (word_of_nat (length m)) cc')"
  using assms range_dec_enc(1) [of "hval cc" "[]"] holds_md5_lengths(1) [OF assms(1)]
  by (simp add: br_md5_set_state_def br_md5_state_def holds_def mod_eq_0_iff_dvd [THEN iffD2])

lemma sha1_state:
  assumes "holds_sha1 m cc" and "64 dvd length m" and "length (hbuf cc') = 64"
  shows "holds_sha1 m (br_sha1_set_state (fst (br_sha1_state cc)) (word_of_nat (length m)) cc')"
  using assms range_dec_enc(2) [of "hval cc" "[]"] holds_md5_lengths(2) [OF assms(1)]
  by (simp add: br_sha1_set_state_def br_sha1_state_def holds_def mod_eq_0_iff_dvd [THEN iffD2])

lemma md5sha1_state:
  assumes "holds_md5sha1 m cc" and "64 dvd length m" and "length (hbuf cc') = 64"
  shows "holds_md5sha1 m (br_md5sha1_set_state (fst (br_md5sha1_state cc)) (word_of_nat (length m)) cc')"
proof -
  have l: "length (fst (hval cc)) = 4" "length (snd (hval cc)) = 5"
    using assms(1) holds_md5_lengths(1) [of m "\<lparr>hbuf = hbuf cc, hval = fst (hval cc), hcount = hcount cc\<rparr>"]
      holds_md5_lengths(2) [of m "\<lparr>hbuf = hbuf cc, hval = snd (hval cc), hcount = hcount cc\<rparr>"]
    by (auto simp: holds_md5sha1_parts)
  then show ?thesis
    using assms range_dec_enc(1) [of "fst (hval cc)" "br_range_enc32be (snd (hval cc))"] range_dec_enc(2) [of "snd (hval cc)" "[]"]
    by (simp add: br_md5sha1_set_state_def br_md5sha1_state_def holds_def mod_eq_0_iff_dvd [THEN iffD2])
qed

lemma md5_sha1_vtable_sizes:
  "br_digest_size br_md5_vtable = 16" "block_size br_md5_vtable = 64"
  "br_digest_size br_sha1_vtable = 20" "block_size br_sha1_vtable = 64"
  "br_digest_size br_md5sha1_vtable = 36" "block_size br_md5sha1_vtable = 64"
  by (simp_all add: br_digest_size_def block_size_def hashdesc br_md5_vtable_def br_sha1_vtable_def br_md5sha1_vtable_def)

lemma md5_fields [simp]:
  "h_init br_md5_vtable = br_md5_init" "h_update br_md5_vtable = br_md5_update" "h_out br_md5_vtable = br_md5_out"
  "h_state br_md5_vtable = br_md5_state" "h_set_state br_md5_vtable = br_md5_set_state"
  by (simp_all add: br_md5_vtable_def)

lemma sha1_fields [simp]:
  "h_init br_sha1_vtable = br_sha1_init" "h_update br_sha1_vtable = br_sha1_update" "h_out br_sha1_vtable = br_sha1_out"
  "h_state br_sha1_vtable = br_sha1_state" "h_set_state br_sha1_vtable = br_sha1_set_state"
  by (simp_all add: br_sha1_vtable_def)

lemma md5sha1_fields [simp]:
  "h_init br_md5sha1_vtable = br_md5sha1_init" "h_update br_md5sha1_vtable = br_md5sha1_update"
  "h_out br_md5sha1_vtable = br_md5sha1_out" "h_state br_md5sha1_vtable = br_md5sha1_state"
  "h_set_state br_md5sha1_vtable = br_md5sha1_set_state"
  by (simp_all add: br_md5sha1_vtable_def)

interpretation md5: hash_function br_md5_vtable rfc_md5 64 "\<lambda>cc. length (hbuf cc) = 64" holds_md5
  by unfold_locales
     (auto simp: md5_sha1_vtable_sizes standard_lengths md5_sha1_init md5_sha1_update md5_sha1_out md5_state dest: holds_buffer)

interpretation sha1: hash_function br_sha1_vtable fips_sha1 64 "\<lambda>cc. length (hbuf cc) = 64" holds_sha1
  by unfold_locales
     (auto simp: md5_sha1_vtable_sizes standard_lengths md5_sha1_init md5_sha1_update md5_sha1_out sha1_state dest: holds_buffer)

interpretation md5sha1: hash_function br_md5sha1_vtable "\<lambda>m. rfc_md5 m @ fips_sha1 m" 64 "\<lambda>cc. length (hbuf cc) = 64"
    holds_md5sha1
  by unfold_locales
     (auto simp: md5_sha1_vtable_sizes standard_lengths md5_sha1_init md5_sha1_update md5sha1_out md5sha1_state
       dest: holds_buffer)

text \<open>In whatever pieces a message comes, the MD5 functions give the value of RFC 1321 and the SHA-1 functions that
  of the Secure Hash Standard; the combined functions, with one buffer and one count, give the two one
  after the other.\<close>

theorem md5_sha1_compute_standards:
  assumes "length (hbuf c) = 64" and "length (hbuf d) = 64"
  shows "br_md5_out (fold (\<lambda>m cc. br_md5_update cc m) ds (br_md5_init c)) = rfc_md5 (concat ds) \<and>
    br_sha1_out (fold (\<lambda>m cc. br_sha1_update cc m) ds (br_sha1_init c)) = fips_sha1 (concat ds) \<and>
    br_md5sha1_out (fold (\<lambda>m cc. br_md5sha1_update cc m) ds (br_md5sha1_init d)) =
      rfc_md5 (concat ds) @ fips_sha1 (concat ds)"
  using md5.hash_pieces [OF assms(1)] sha1.hash_pieces [OF assms(1)] md5sha1.hash_pieces [OF assms(2)] by simp

theorem md5_sha1_compute_standards_witness:
  "br_md5sha1_out (br_md5sha1_update (br_md5sha1_update
      (br_md5sha1_init \<lparr>hbuf = replicate 64 0, hval = ([], []), hcount = 5\<rparr>) [0x61]) [0x62, 0x63]) =
    rfc_md5 [0x61, 0x62, 0x63] @ fips_sha1 [0x61, 0x62, 0x63]"
  using md5_sha1_compute_standards [of "\<lparr>hbuf = replicate 64 0, hval = [], hcount = 5\<rparr>"
      "\<lparr>hbuf = replicate 64 0, hval = ([], []), hcount = 5\<rparr>" "[[0x61], [0x62, 0x63]]"] by simp

end
