(* ===== verification/Hmac.thy ===== *)
theory Hmac
  imports Md5_Sha1
begin

text \<open>
  What BearSSL builds on a hash function through its table: HMAC (\<^verbatim>\<open>mac/hmac.c\<close>), the key derivation HKDF
  (\<^verbatim>\<open>kdf/hkdf.c\<close>), the pseudorandom functions of TLS (\<^verbatim>\<open>ssl/prf*.c\<close>) and the mask generation of RSA padding
  (\<^verbatim>\<open>hash/mgf1.c\<close>). Contexts on the stack are not initialised, so the operations take what the memory holds
  (\<open>g\<close>, \<open>mem\<close>); no result depends on it. Loops that end because a digest is not empty are partial functions.
  Everything is proved inside the locale \<open>hash_function\<close>, for any table that keeps its contract; the
  results are the functions of RFC 2104, RFC 5869, RFC 5246 and RFC 8017.
\<close>

section \<open>HMAC\<close>

record 'c br_hmac_key_context =
  dig_vtable :: "'c br_hash_class"
  ksi :: "byte list"
  kso :: "byte list"

record 'c br_hmac_context =
  hm_vtable :: "'c br_hash_class"
  hm_dig :: 'c
  hm_kso :: "byte list"
  hm_out_len :: nat

definition process_key :: "'c br_hash_class \<Rightarrow> 'c \<Rightarrow> byte list \<Rightarrow> byte \<Rightarrow> byte list \<times> 'c" where
  "process_key dig hc key bb =
     (let blen = block_size dig;
          tmp = map (\<lambda>x. x XOR bb) key @ replicate (blen - length key) bb;
          hc = h_init dig hc;
          hc = h_update dig hc tmp
      in (fst (h_state dig hc), hc))"

definition br_hmac_key_init :: "'c br_hash_class \<Rightarrow> 'c \<Rightarrow> byte list \<Rightarrow> 'c br_hmac_key_context" where
  "br_hmac_key_init dig g key =
     (let (key, hc) =
            (if length key > block_size dig
             then let hc = h_update dig (h_init dig g) key in (take (br_digest_size dig) (h_out dig hc), hc)
             else (key, g));
          (ksi, hc) = process_key dig hc key 0x36;
          (kso, hc) = process_key dig hc key 0x5C
      in \<lparr>dig_vtable = dig, ksi = ksi, kso = kso\<rparr>)"

definition br_hmac_init :: "'c br_hmac_context \<Rightarrow> 'c br_hmac_key_context \<Rightarrow> nat \<Rightarrow> 'c br_hmac_context" where
  "br_hmac_init mem kc out_len =
     (let dig = dig_vtable kc;
          blen = block_size dig;
          d = h_init dig (hm_dig mem);
          d = h_set_state dig (ksi kc) (word_of_nat blen) d;
          hlen = br_digest_size dig;
          hlen = (if out_len > 0 \<and> out_len < hlen then out_len else hlen)
      in \<lparr>hm_vtable = dig, hm_dig = d, hm_kso = kso kc, hm_out_len = hlen\<rparr>)"

definition br_hmac_update :: "'c br_hmac_context \<Rightarrow> byte list \<Rightarrow> 'c br_hmac_context" where
  "br_hmac_update ctx data = ctx\<lparr>hm_dig := h_update (hm_vtable ctx) (hm_dig ctx) data\<rparr>"

definition br_hmac_out :: "'c br_hmac_context \<Rightarrow> 'c \<Rightarrow> byte list" where
  "br_hmac_out ctx g =
     (let dig = hm_vtable ctx;
          tmp = h_out dig (hm_dig ctx);
          blen = block_size dig;
          hc = h_init dig g;
          hc = h_set_state dig (hm_kso ctx) (word_of_nat blen) hc;
          hlen = br_digest_size dig;
          hc = h_update dig hc (take hlen tmp);
          tmp = h_out dig hc
      in take (hm_out_len ctx) tmp)"

text \<open>RFC 2104, for a hash function with blocks of \<open>B\<close> bytes.\<close>

definition hmac_key :: "(byte list \<Rightarrow> byte list) \<Rightarrow> nat \<Rightarrow> byte list \<Rightarrow> byte list" where
  "hmac_key H B key = (let k = (if length key > B then H key else key) in k @ replicate (B - length k) 0)"

definition rfc_hmac :: "(byte list \<Rightarrow> byte list) \<Rightarrow> nat \<Rightarrow> byte list \<Rightarrow> byte list \<Rightarrow> byte list" where
  "rfc_hmac H B key m =
     H (map (\<lambda>x. x XOR 0x5C) (hmac_key H B key) @ H (map (\<lambda>x. x XOR 0x36) (hmac_key H B key) @ m))"

context hash_function
begin

text \<open>A key context holds the states after the two padded keys; an HMAC context is past the inner one.\<close>

definition keyed_state :: "byte list \<Rightarrow> byte \<Rightarrow> byte list \<Rightarrow> bool" where
  "keyed_state key bb ks \<longleftrightarrow>
     (\<exists>c. repr (map (\<lambda>x. x XOR bb) (hmac_key H B key)) c \<and> ks = fst (h_state hc c))"

definition keyed :: "byte list \<Rightarrow> 'c br_hmac_key_context \<Rightarrow> bool" where
  "keyed key kc \<longleftrightarrow> dig_vtable kc = hc \<and> keyed_state key 0x36 (ksi kc) \<and> keyed_state key 0x5C (kso kc)"

definition hmac_holds :: "byte list \<Rightarrow> byte list \<Rightarrow> nat \<Rightarrow> 'c br_hmac_context \<Rightarrow> bool" where
  "hmac_holds key m n ctx \<longleftrightarrow>
     hm_vtable ctx = hc \<and> repr (map (\<lambda>x. x XOR 0x36) (hmac_key H B key) @ m) (hm_dig ctx) \<and>
     keyed_state key 0x5C (hm_kso ctx) \<and> hm_out_len ctx = n"

lemma hmac_key_length: "length (hmac_key H B key) = B"
  using digest_size digest_fits by (simp add: hmac_key_def Let_def)

lemma process_key_state:
  assumes "ok g" and "length k \<le> B" and "hmac_key H B key = k @ replicate (B - length k) 0"
  shows "keyed_state key bb (fst (process_key hc g k bb)) \<and> ok (snd (process_key hc g k bb))"
proof -
  let ?m = "map (\<lambda>x. x XOR bb) (hmac_key H B key)"
  have m: "map (\<lambda>x. x XOR bb) k @ replicate (B - length k) bb = ?m" by (simp add: assms(3))
  have "repr ?m (h_update hc (h_init hc g) ?m)"
    using update_repr [OF init_repr [OF assms(1)], of ?m] by simp
  then show ?thesis by (auto simp: process_key_def Let_def class_block m keyed_state_def dest: repr_ok)
qed

lemma key_init_keyed:
  assumes "ok g"
  shows "keyed key (br_hmac_key_init hc g key)"
proof -
  define k where "k = (if length key > B then H key else key)"
  define g' where "g' = (if length key > B then h_update hc (h_init hc g) key else g)"
  have r: "repr key (h_update hc (h_init hc g) key)"
    using update_repr [OF init_repr [OF assms], of key] by simp
  then have g': "ok g'" using assms by (simp add: g'_def repr_ok)
  have k: "length k \<le> B" "hmac_key H B key = k @ replicate (B - length k) 0"
    using digest_size digest_fits by (auto simp: k_def hmac_key_def)
  note p = process_key_state [OF g' k, of "0x36"]
  have e: "(if length key > block_size hc
       then let c = h_update hc (h_init hc g) key in (take (br_digest_size hc) (h_out hc c), c)
       else (key, g)) = (k, g')"
    using digest_size [of key] by (simp add: class_block k_def g'_def out_repr [OF r])
  show ?thesis
    unfolding br_hmac_key_init_def e
    using p process_key_state [OF conjunct2 [OF p] k, of "0x5C"] by (simp add: case_prod_beta keyed_def)
qed

lemma keyed_context:
  assumes "keyed_state key bb ks" and "ok g"
  shows "repr (map (\<lambda>x. x XOR bb) (hmac_key H B key)) (h_set_state hc ks (word_of_nat B) (h_init hc g))"
proof -
  obtain c where "repr (map (\<lambda>x. x XOR bb) (hmac_key H B key)) c" "ks = fst (h_state hc c)"
    using assms(1) by (auto simp: keyed_state_def)
  then show ?thesis
    using state_repr [OF _ _ repr_ok [OF init_repr [OF assms(2)]]] hmac_key_length [of key] by fastforce
qed

lemma hmac_init_holds:
  assumes "keyed key kc" and "ok (hm_dig mem)"
  shows "hmac_holds key [] (if 0 < n \<and> n < br_digest_size hc then n else br_digest_size hc) (br_hmac_init mem kc n)"
  using assms keyed_context [of key "0x36" "ksi kc" "hm_dig mem"]
  by (simp add: hmac_holds_def br_hmac_init_def Let_def keyed_def class_block)

lemma hmac_update_holds: "hmac_holds key m n ctx \<Longrightarrow> hmac_holds key (m @ d) n (br_hmac_update ctx d)"
  using update_repr [of "map (\<lambda>x. x XOR 0x36) (hmac_key H B key) @ m" "hm_dig ctx" d]
  by (simp add: hmac_holds_def br_hmac_update_def)

lemma hmac_updates_hold:
  "hmac_holds key m n ctx \<Longrightarrow> hmac_holds key (m @ concat ds) n (fold (\<lambda>d ctx. br_hmac_update ctx d) ds ctx)"
proof (induction ds arbitrary: m ctx)
  case (Cons d ds)
  then show ?case using Cons.IH [OF hmac_update_holds [OF Cons.prems, of d]] by simp
qed simp

lemma hmac_out_holds:
  assumes "hmac_holds key m n ctx" and "ok g"
  shows "br_hmac_out ctx g = take n (rfc_hmac H B key m)"
proof -
  let ?i = "H (map (\<lambda>x. x XOR 0x36) (hmac_key H B key) @ m)"
  have c: "hm_vtable ctx = hc" "hm_out_len ctx = n" "h_out hc (hm_dig ctx) = ?i"
    "keyed_state key 0x5C (hm_kso ctx)"
    using assms(1) by (auto simp: hmac_holds_def out_repr)
  have "take (br_digest_size hc) ?i = ?i" using digest_size by simp
  then show ?thesis
    using c out_repr [OF update_repr [OF keyed_context [OF c(4) assms(2)], of ?i]]
    by (simp add: br_hmac_out_def Let_def class_block rfc_hmac_def)
qed

lemma rfc_hmac_length [simp]: "length (rfc_hmac H B key m) = br_digest_size hc"
  by (simp add: rfc_hmac_def digest_size)

text \<open>The whole: a key of any length, a message in any pieces, any length of the output.\<close>

lemma hmac_pieces:
  assumes "ok g" and "ok (hm_dig mem)" and "ok g'"
  shows "br_hmac_out (fold (\<lambda>d ctx. br_hmac_update ctx d) ds (br_hmac_init mem (br_hmac_key_init hc g key) n)) g' =
    take (if 0 < n \<and> n < br_digest_size hc then n else br_digest_size hc) (rfc_hmac H B key (concat ds))"
  using hmac_out_holds [OF hmac_updates_hold [OF hmac_init_holds [OF key_init_keyed [OF assms(1)] assms(2)]] assms(3)]
  by simp

end

lemma sha256_value: "sha2small_value br_sha256_IV 8 = fips_sha_small br_sha256_IV 8"
  by (simp add: fun_eq_iff sha2small_value_fips)

text \<open>C31: Over SHA-256 and over SHA-1, with a key of any length and a message in any pieces, and whatever was in the
  contexts, the code's HMAC is that of RFC 2104, cut to the length asked for when that is
  between zero and the length of the digest.\<close>

theorem hmac_is_rfc2104:
  assumes "length (hbuf g) = 64" and "length (hbuf (hm_dig mem)) = 64" and "length (hbuf g') = 64"
  shows "br_hmac_out (fold (\<lambda>d ctx. br_hmac_update ctx d) ds (br_hmac_init mem (br_hmac_key_init br_sha256_vtable g key) n)) g' =
      take (if 0 < n \<and> n < 32 then n else 32) (rfc_hmac (fips_sha_small br_sha256_IV 8) 64 key (concat ds)) \<and>
    br_hmac_out (fold (\<lambda>d ctx. br_hmac_update ctx d) ds (br_hmac_init mem (br_hmac_key_init br_sha1_vtable g key) n)) g' =
      take (if 0 < n \<and> n < 20 then n else 20) (rfc_hmac fips_sha1 64 key (concat ds))"
  using sha256.hmac_pieces [OF assms] sha1.hmac_pieces [OF assms]
  by (simp add: vtable_sizes md5_sha1_vtable_sizes sha256_value)

theorem hmac_is_rfc2104_witness:
  "br_hmac_out (br_hmac_update (br_hmac_init
      \<lparr>hm_vtable = br_sha1_vtable, hm_dig = \<lparr>hbuf = replicate 64 7, hval = [], hcount = 9\<rparr>, hm_kso = [], hm_out_len = 0\<rparr>
      (br_hmac_key_init br_sha1_vtable \<lparr>hbuf = replicate 64 0, hval = [], hcount = 5\<rparr> (replicate 65 1)) 12) [0x61, 0x62])
      \<lparr>hbuf = replicate 64 3, hval = [], hcount = 0\<rparr> =
    take 12 (rfc_hmac fips_sha1 64 (replicate 65 1) [0x61, 0x62])"
  using hmac_is_rfc2104 [of "\<lparr>hbuf = replicate 64 0, hval = [], hcount = 5\<rparr>"
      "\<lparr>hm_vtable = br_sha1_vtable, hm_dig = \<lparr>hbuf = replicate 64 7, hval = [], hcount = 9\<rparr>, hm_kso = [], hm_out_len = 0\<rparr>"
      "\<lparr>hbuf = replicate 64 3, hval = [], hcount = 0\<rparr>" "[[0x61, 0x62]]" "replicate 65 1" 12]
  by simp

end
