(* ===== verification/Prf.thy ===== *)
theory Prf
  imports Hmac
begin

text \<open>
  What BearSSL derives with HMAC and with hash functions: the key derivation HKDF (\<^verbatim>\<open>kdf/hkdf.c\<close>), the
  pseudorandom functions of TLS (\<^verbatim>\<open>ssl/prf.c\<close>, \<^verbatim>\<open>prf_md5sha1.c\<close>, \<^verbatim>\<open>prf_sha256.c\<close>, \<^verbatim>\<open>prf_sha384.c\<close>) and the
  masks of RSA padding (\<^verbatim>\<open>hash/mgf1.c\<close>). Each makes a stream of digests; the loops end because a digest is
  not empty, so they are partial functions here and that they return is proved. The results are
  those of RFC 5869, RFC 2246, RFC 5246 and RFC 8017.
\<close>

section \<open>Streams of blocks of one length\<close>

lemma blocks_length: "(\<And>i. length (f i) = D) \<Longrightarrow> length (concat (map f [j..<k])) = (k - j) * D"
  by (induction k) (auto simp: Suc_diff_le)

lemma drop_blocks:
  assumes "\<And>i. length (f i) = D" and "j + i \<le> k"
  shows "drop (i * D) (concat (map f [j..<k])) = concat (map f [j + i..<k])"
proof -
  have "[j..<k] = [j..<j + i] @ [j + i..<k]" using assms(2) upt_add_eq_append [of j "j + i" "k - (j + i)"] by simp
  then show ?thesis using blocks_length [of f D j "j + i"] assms(1) by simp
qed

definition xor_bytes :: "byte list \<Rightarrow> byte list \<Rightarrow> byte list" where
  "xor_bytes = map2 (XOR)"

lemma map2_xor: "map2 (XOR) xs ys = xor_bytes xs ys"
  by (simp add: xor_bytes_def)

lemma xor_bytes_more: "length xs \<le> length ys \<Longrightarrow> xor_bytes xs (ys @ zs) = xor_bytes xs ys"
  by (auto simp: xor_bytes_def list_eq_iff_nth_eq nth_append)

lemma xor_bytes_block:
  "length b \<le> length xs \<Longrightarrow> xor_bytes xs (b @ s) = xor_bytes (take (length b) xs) b @ xor_bytes (drop (length b) xs) s"
  by (simp add: xor_bytes_def zip_append2)

lemma xor_bytes_zero [simp]: "xor_bytes (replicate n 0) ys = take n ys"
  by (auto simp: xor_bytes_def list_eq_iff_nth_eq)

lemma xor_bytes_take: "xor_bytes xs (take (length xs) ys) = xor_bytes xs ys"
  by (auto simp: xor_bytes_def list_eq_iff_nth_eq)

text \<open>A loop that takes a block a turn sees the stream, and one block for a byte is enough of it.\<close>

lemma xor_stream:
  assumes f: "\<And>i. length (f i) = D" and "0 < D" and "length xs \<le> n" and "xs \<noteq> []"
  shows "xor_bytes xs (concat (map f [k..<k + n])) =
    xor_bytes (take D xs) (f k) @ xor_bytes (drop D xs) (concat (map f [Suc k..<Suc k + length (drop D xs)]))"
proof -
  have n: "0 < n" using assms(3,4) by (cases n) auto
  then have k: "concat (map f [k..<k + n]) = f k @ concat (map f [Suc k..<k + n])"
    by (simp add: upt_conv_Cons)
  show ?thesis
  proof (cases "length xs \<le> D")
    case True
    then show ?thesis using f by (simp add: k xor_bytes_more) (simp add: xor_bytes_def)
  next
    case False
    let ?m = "length (drop D xs)"
    have m: "Suc k + ?m \<le> k + n" using n assms(2,3) by simp
    then have "[Suc k..<k + n] = [Suc k..<Suc k + ?m] @ [Suc k + ?m..<k + n]"
      using upt_add_eq_append [of "Suc k" "Suc k + ?m" "k + n - (Suc k + ?m)"] by simp
    then have "xor_bytes (drop D xs) (concat (map f [Suc k..<k + n])) =
        xor_bytes (drop D xs) (concat (map f [Suc k..<Suc k + ?m]))"
      using xor_bytes_more [of "drop D xs" "concat (map f [Suc k..<Suc k + ?m])"] assms(2)
        blocks_length [of f D "Suc k" "Suc k + ?m"] f by simp
    then show ?thesis using False f xor_bytes_block [of "f k" xs] by (simp add: k)
  qed
qed

section \<open>HKDF\<close>

text \<open>
  The union of an HMAC context and a key context is a pair: the code never reads the one after it has
  written the other. The counter is an \<^verbatim>\<open>unsigned\<close>.
\<close>

record 'c br_hkdf_context =
  hk_hmac :: "'c br_hmac_context"
  hk_prk :: "'c br_hmac_key_context"
  hk_buf :: "byte list"
  hk_ptr :: nat
  hk_dig_len :: nat
  hk_chunk :: u32

definition br_hkdf_init ::
    "'c br_hkdf_context \<Rightarrow> 'c br_hash_class \<Rightarrow> 'c \<Rightarrow> byte list option \<Rightarrow> 'c br_hkdf_context" where
  "br_hkdf_init c dig g salt =
     (let salt = (case salt of None \<Rightarrow> replicate (br_digest_size dig) 0 | Some salt \<Rightarrow> salt);
          kc = br_hmac_key_init dig g salt;
          ctx = br_hmac_init (hk_hmac c) kc 0
      in c\<lparr>hk_hmac := ctx, hk_dig_len := hm_out_len ctx\<rparr>)"

definition br_hkdf_inject :: "'c br_hkdf_context \<Rightarrow> byte list \<Rightarrow> 'c br_hkdf_context" where
  "br_hkdf_inject c ikm = c\<lparr>hk_hmac := br_hmac_update (hk_hmac c) ikm\<rparr>"

definition br_hkdf_flip :: "'c br_hkdf_context \<Rightarrow> 'c \<Rightarrow> 'c br_hkdf_context" where
  "br_hkdf_flip c g =
     (let tmp = br_hmac_out (hk_hmac c) g
      in c\<lparr>hk_prk := br_hmac_key_init (hm_vtable (hk_hmac c)) g (take (hk_dig_len c) tmp),
           hk_ptr := hk_dig_len c, hk_chunk := 0\<rparr>)"

text \<open>The start of a turn when the buffer is used up; the flag says whether there is more.\<close>

definition hkdf_next ::
    "'c \<Rightarrow> 'c br_hmac_context \<Rightarrow> byte list \<Rightarrow> 'c br_hkdf_context \<Rightarrow> 'c br_hkdf_context \<times> bool" where
  "hkdf_next g mem info c =
     (let c = c\<lparr>hk_chunk := hk_chunk c + 1\<rparr>
      in if hk_chunk c = 256 then (c, False)
         else let x = (ucast (hk_chunk c) :: byte);
                  ctx = br_hmac_init mem (hk_prk c) 0;
                  ctx = (if x \<noteq> 1 then br_hmac_update ctx (take (hk_dig_len c) (hk_buf c)) else ctx);
                  ctx = br_hmac_update ctx info;
                  ctx = br_hmac_update ctx [x]
              in (c\<lparr>hk_buf := overwrite 0 (br_hmac_out ctx g) (hk_buf c), hk_ptr := 0\<rparr>, True))"

partial_function (option) br_hkdf_produce ::
    "'c \<Rightarrow> 'c br_hmac_context \<Rightarrow> byte list \<Rightarrow> nat \<Rightarrow> 'c br_hkdf_context \<Rightarrow> (byte list \<times> 'c br_hkdf_context) option" where
  "br_hkdf_produce g mem info out_len c =
     (if out_len = 0 then Some ([], c)
      else
        let (c, more) = (if hk_ptr c = hk_dig_len c then hkdf_next g mem info c else (c, True))
        in if \<not> more then Some ([], c)
           else
             let clen = hk_dig_len c - hk_ptr c;
                 clen = (if clen > out_len then out_len else clen);
                 out = take clen (drop (hk_ptr c) (hk_buf c))
             in Option.bind (br_hkdf_produce g mem info (out_len - clen) (c\<lparr>hk_ptr := hk_ptr c + clen\<rparr>))
                  (\<lambda>(rest, c). Some (out @ rest, c)))"

text \<open>RFC 5869, with \<open>F\<close> for the keyed hash.\<close>

fun hkdf_T :: "(byte list \<Rightarrow> byte list) \<Rightarrow> byte list \<Rightarrow> nat \<Rightarrow> byte list" where
  "hkdf_T F info 0 = []"
| "hkdf_T F info (Suc i) = F (hkdf_T F info i @ info @ [word_of_nat (Suc i)])"

definition rfc_hkdf_stream :: "(byte list \<Rightarrow> byte list) \<Rightarrow> byte list \<Rightarrow> byte list" where
  "rfc_hkdf_stream F info = concat (map (hkdf_T F info) [1..<256])"

definition rfc_hkdf_extract :: "(byte list \<Rightarrow> byte list \<Rightarrow> byte list) \<Rightarrow> nat \<Rightarrow> byte list option \<Rightarrow> byte list \<Rightarrow> byte list" where
  "rfc_hkdf_extract F D salt ikm = F (case salt of None \<Rightarrow> replicate D 0 | Some salt \<Rightarrow> salt) ikm"

lemma produce_0: "br_hkdf_produce g mem info 0 c = Some ([], c)"
  by (simp add: br_hkdf_produce.simps)

text \<open>A sequence of requests.\<close>

fun hkdf_outputs ::
    "'c \<Rightarrow> 'c br_hmac_context \<Rightarrow> byte list \<Rightarrow> nat list \<Rightarrow> 'c br_hkdf_context \<Rightarrow> (byte list list \<times> 'c br_hkdf_context) option" where
  "hkdf_outputs g mem info [] c = Some ([], c)"
| "hkdf_outputs g mem info (L # Ls) c =
     Option.bind (br_hkdf_produce g mem info L c) (\<lambda>(out, c).
       Option.bind (hkdf_outputs g mem info Ls c) (\<lambda>(outs, c). Some (out # outs, c)))"

context hash_function
begin

text \<open>The context after \<open>n\<close> bytes of output.\<close>

definition expanding :: "byte list \<Rightarrow> byte list \<Rightarrow> nat \<Rightarrow> 'c br_hkdf_context \<Rightarrow> bool" where
  "expanding prk info n c \<longleftrightarrow>
     keyed prk (hk_prk c) \<and> hk_dig_len c = br_digest_size hc \<and> hk_ptr c \<le> hk_dig_len c \<and>
     (\<exists>i<256. hk_chunk c = word_of_nat i \<and> n + hk_dig_len c = i * hk_dig_len c + hk_ptr c \<and>
        (0 < i \<longrightarrow> take (hk_dig_len c) (hk_buf c) = hkdf_T (rfc_hmac H B prk) info i))"

lemma expandingE:
  assumes "expanding prk info n c"
  obtains i where "keyed prk (hk_prk c)" and "hk_dig_len c = br_digest_size hc" and "hk_ptr c \<le> br_digest_size hc"
    and "i < 256" and "hk_chunk c = word_of_nat i" and "n + br_digest_size hc = i * br_digest_size hc + hk_ptr c"
    and "0 < i \<longrightarrow> take (br_digest_size hc) (hk_buf c) = hkdf_T (rfc_hmac H B prk) info i"
  using assms unfolding expanding_def by metis

lemma hkdf_T_length: "0 < i \<Longrightarrow> length (hkdf_T (rfc_hmac H B prk) info i) = br_digest_size hc"
  by (cases i) simp_all

lemma hkdf_next_block:
  assumes "expanding prk info n c" and "hk_ptr c = hk_dig_len c" and "ok g" and "ok (hm_dig mem)"
  shows "n < 255 * br_digest_size hc \<Longrightarrow>
      \<exists>c'. hkdf_next g mem info c = (c', True) \<and> expanding prk info n c' \<and> hk_ptr c' = 0"
    and "n = 255 * br_digest_size hc \<Longrightarrow> hkdf_next g mem info c = (c\<lparr>hk_chunk := 256\<rparr>, False)"
proof -
  let ?D = "br_digest_size hc" and ?F = "rfc_hmac H B prk"
  have c: "keyed prk (hk_prk c)" "hk_dig_len c = ?D" using assms(1) by (simp_all add: expanding_def)
  obtain i where i: "i < 256" "hk_chunk c = word_of_nat i" "n = i * ?D"
      "0 < i \<longrightarrow> take ?D (hk_buf c) = hkdf_T ?F info i"
    using assms(1,2) unfolding expanding_def by (metis add_right_imp_eq)
  have s: "hk_chunk c + 1 = word_of_nat (Suc i)" by (simp add: i(2))
  have eq: "hk_chunk c + 1 = 256 \<longleftrightarrow> i = 255"
    using i(1) word_of_nat_eq_iff [of "Suc i" 256, where 'a = 32]
    by (simp add: s take_bit_nat_eq_self del: of_nat_Suc)
  {
    assume "n < 255 * ?D"
    then have i': "i < 255" by (simp add: i(3))
    define x :: byte where "x = ucast (hk_chunk c + 1)"
    have x: "x = word_of_nat (Suc i)" using i' by (simp add: x_def s unsigned_of_nat take_bit_nat_eq_self del: of_nat_Suc)
    have x1: "x = 1 \<longleftrightarrow> i = 0"
      using i' word_of_nat_eq_iff [of "Suc i" 1, where 'a = 8] unfolding x of_nat_1
      by (simp add: take_bit_nat_eq_self del: of_nat_Suc One_nat_def)
    let ?ctx = "br_hmac_init mem (hk_prk c) 0"
    let ?ctx' = "br_hmac_update (br_hmac_update (if x \<noteq> 1 then br_hmac_update ?ctx (take ?D (hk_buf c)) else ?ctx) info) [x]"
    have h: "hmac_holds prk [] ?D ?ctx" using hmac_init_holds [OF c(1) assms(4), of 0] by simp
    have "hmac_holds prk (hkdf_T ?F info i) ?D (if x \<noteq> 1 then br_hmac_update ?ctx (take ?D (hk_buf c)) else ?ctx)"
      using h hmac_update_holds [OF h, of "take ?D (hk_buf c)"] i(4) by (cases i) (simp_all add: x1)
    from hmac_update_holds [OF hmac_update_holds [OF this, of info], of "[x]"]
    have "hmac_holds prk (hkdf_T ?F info i @ info @ [x]) ?D ?ctx'" by simp
    then have o: "br_hmac_out ?ctx' g = hkdf_T ?F info (Suc i)"
      using hmac_out_holds [OF _ assms(3)] by (simp add: x)
    let ?c = "c\<lparr>hk_chunk := word_of_nat (Suc i), hk_buf := overwrite 0 (hkdf_T ?F info (Suc i)) (hk_buf c), hk_ptr := 0\<rparr>"
    have "hkdf_next g mem info c = (?c, True)"
      using i' eq o unfolding hkdf_next_def Let_def s [symmetric]
      by (cases "x = 1") (simp_all add: c(2) flip: x_def)
    moreover have "expanding prk info n ?c"
      using c i' i(3) hkdf_T_length [of "Suc i" prk info] unfolding expanding_def
      by (auto simp: overwrite_def simp del: of_nat_Suc hkdf_T.simps intro!: exI [of _ "Suc i"])
    ultimately show "\<exists>c'. hkdf_next g mem info c = (c', True) \<and> expanding prk info n c' \<and> hk_ptr c' = 0" by auto
  next
    assume "n = 255 * ?D"
    then have "i = 255" using i(3) digest_fits(1) by simp
    then show "hkdf_next g mem info c = (c\<lparr>hk_chunk := 256\<rparr>, False)"
      using eq by (simp add: hkdf_next_def Let_def)
  }
qed


lemma stream_Suc:
  "concat (map (hkdf_T F info) [Suc j..<256]) = concat (map (\<lambda>i. hkdf_T F info (Suc i)) [j..<255])"
proof -
  have "[Suc j..<256] = map Suc [j..<255]" using map_Suc_upt [of j 255] by simp
  then show ?thesis by (simp only: map_map comp_def)
qed

lemma stream_length: "length (rfc_hkdf_stream (rfc_hmac H B prk) info) = 255 * br_digest_size hc"
  using stream_Suc [of "rfc_hmac H B prk" info 0]
    blocks_length [of "\<lambda>i. hkdf_T (rfc_hmac H B prk) info (Suc i)" "br_digest_size hc" 0 255] hkdf_T_length
  by (simp add: rfc_hkdf_stream_def del: hkdf_T.simps)

lemma stream_drop:
  assumes "n + br_digest_size hc = i * br_digest_size hc + p" and "0 < i" and "i < 256" and "p \<le> br_digest_size hc"
  shows "drop n (rfc_hkdf_stream (rfc_hmac H B prk) info) =
    drop p (hkdf_T (rfc_hmac H B prk) info i) @ concat (map (hkdf_T (rfc_hmac H B prk) info) [Suc i..<256])"
proof -
  let ?D = "br_digest_size hc" and ?T = "\<lambda>i. hkdf_T (rfc_hmac H B prk) info (Suc i)"
  have n: "n = p + (i - 1) * ?D" using assms(1,2) by (cases i) simp_all
  note sh = stream_Suc [of "rfc_hmac H B prk" info]
  have "drop n (concat (map ?T [0..<255])) = drop p (concat (map ?T [i - 1..<255]))"
    using drop_blocks [of ?T ?D 0 "i - 1" 255] assms(2,3) by (simp add: n flip: drop_drop)
  moreover have "[i - 1..<255] = (i - 1) # [i..<255]" using assms(2,3) upt_conv_Cons [of "i - 1" 255] by simp
  ultimately show ?thesis
    using assms(2,4) sh [of 0] sh [of i] hkdf_T_length [of i]
    by (simp add: rfc_hkdf_stream_def del: hkdf_T.simps)
qed

text \<open>Before the stream is used up a turn has bytes to give; at its end the counter stops it.\<close>

lemma expanding_refill:
  assumes "expanding prk info n c" and "ok g" and "ok (hm_dig mem)" and "n < 255 * br_digest_size hc"
  obtains c' where "(if hk_ptr c = hk_dig_len c then hkdf_next g mem info c else (c, True)) = (c', True)"
    and "expanding prk info n c'" and "hk_ptr c' < br_digest_size hc"
proof (cases "hk_ptr c = hk_dig_len c")
  case True
  then show ?thesis using hkdf_next_block(1) [OF assms(1) True assms(2-4)] digest_fits(1) that by auto
next
  case False
  then show ?thesis using that [OF _ assms(1)] assms(1) by (auto elim!: expandingE)
qed

lemma expanding_bound:
  assumes "expanding prk info n c"
  shows "n \<le> 255 * br_digest_size hc" and "n = 255 * br_digest_size hc \<Longrightarrow> hk_ptr c = hk_dig_len c"
proof -
  let ?D = "br_digest_size hc"
  obtain i where i: "i < 256" "n + ?D = i * ?D + hk_ptr c" "hk_ptr c \<le> ?D" "hk_dig_len c = ?D"
    using assms by (elim expandingE)
  then have "i * ?D \<le> 255 * ?D" by (intro mult_le_mono1) simp
  then show "n \<le> 255 * ?D" "n = 255 * ?D \<Longrightarrow> hk_ptr c = hk_dig_len c" using i by linarith+
qed

lemma expanding_take:
  assumes "expanding prk info n c" and "k \<le> br_digest_size hc - hk_ptr c" and "hk_ptr c < br_digest_size hc"
  shows "take k (drop (hk_ptr c) (hk_buf c)) = take k (drop n (rfc_hkdf_stream (rfc_hmac H B prk) info))"
    and "expanding prk info (n + k) (c\<lparr>hk_ptr := hk_ptr c + k\<rparr>)"
proof -
  let ?D = "br_digest_size hc" and ?F = "rfc_hmac H B prk"
  obtain i where i: "i < 256" "n + ?D = i * ?D + hk_ptr c" "0 < i \<longrightarrow> take ?D (hk_buf c) = hkdf_T ?F info i"
    using assms(1) by (elim expandingE)
  then have p: "0 < i" using assms(3) by (cases i) auto
  have "take k (drop (hk_ptr c) (take ?D (hk_buf c))) = take k (drop (hk_ptr c) (hk_buf c))"
    using assms(2) by (simp add: drop_take)
  then have "take k (drop (hk_ptr c) (hk_buf c)) = take k (drop (hk_ptr c) (hkdf_T ?F info i))"
    using i(3) p by simp
  then show "take k (drop (hk_ptr c) (hk_buf c)) = take k (drop n (rfc_hkdf_stream ?F info))"
    using stream_drop [OF i(2) p i(1), of prk info] assms(2,3) hkdf_T_length [OF p, of prk info] by simp
  show "expanding prk info (n + k) (c\<lparr>hk_ptr := hk_ptr c + k\<rparr>)"
    using assms i by (auto simp: expanding_def intro!: exI [of _ i])
qed

text \<open>Any amount gives the next bytes of the stream, as far as it goes.\<close>

lemma produce_stream:
  assumes "expanding prk info n c" and "ok g" and "ok (hm_dig mem)"
  shows "\<exists>c'. br_hkdf_produce g mem info L c = Some (take L (drop n (rfc_hkdf_stream (rfc_hmac H B prk) info)), c') \<and>
    (if n + L \<le> 255 * br_digest_size hc then expanding prk info (n + L) c'
     else keyed prk (hk_prk c') \<and> hk_dig_len c' = br_digest_size hc \<and> hk_ptr c' = hk_dig_len c' \<and> hk_chunk c' = 256)"
  using assms(1)
proof (induction L arbitrary: n c rule: less_induct)
  case (less L)
  let ?D = "br_digest_size hc" and ?S = "rfc_hkdf_stream (rfc_hmac H B prk) info"
  have S: "length ?S = 255 * ?D" by (rule stream_length)
  consider "L = 0" | "0 < L" "n = 255 * ?D" | "0 < L" "n < 255 * ?D" using expanding_bound(1) [OF less.prems] by linarith
  then show ?case
  proof cases
    case 1
    then show ?thesis using less.prems expanding_bound [OF less.prems] by (simp add: br_hkdf_produce.simps)
  next
    case 2
    then have "hk_ptr c = hk_dig_len c" using expanding_bound(2) [OF less.prems] by simp
    then show ?thesis
      using 2 hkdf_next_block(2) [OF less.prems _ assms(2,3)] less.prems S
      by (subst br_hkdf_produce.simps) (simp add: expanding_def)
  next
    case 3
    obtain c1 where c1: "(if hk_ptr c = hk_dig_len c then hkdf_next g mem info c else (c, True)) = (c1, True)"
      "expanding prk info n c1" "hk_ptr c1 < ?D"
      by (rule expanding_refill [OF less.prems assms(2,3) 3(2)])
    define k where "k = (if hk_dig_len c1 - hk_ptr c1 > L then L else hk_dig_len c1 - hk_ptr c1)"
    have d: "hk_dig_len c1 = ?D" using c1(2) by (simp add: expanding_def)
    have k: "k \<le> ?D - hk_ptr c1" "0 < k" "k \<le> L" using 3 c1(3) by (auto simp: k_def d)
    note e = expanding_take [OF c1(2) k(1) c1(3)]
    have "take k (drop n ?S) @ take (L - k) (drop (n + k) ?S) = take L (drop n ?S)"
      using k(3) take_add [of k "L - k" "drop n ?S"] by (simp add: add.commute)
    moreover have "n + k + (L - k) = n + L" using k(3) by simp
    moreover have "L - k < L" using k by simp
    ultimately show ?thesis
      using less.IH [OF _ e(2)] 3(1) e(1)
      by (subst br_hkdf_produce.simps) (fastforce simp: c1(1) Let_def k_def [symmetric])
  qed
qed

lemma outputs_stream:
  assumes "expanding prk info n c" and "ok g" and "ok (hm_dig mem)" and "n + sum_list Ls \<le> 255 * br_digest_size hc"
  shows "\<exists>outs c'. hkdf_outputs g mem info Ls c = Some (outs, c') \<and> map length outs = Ls \<and>
    concat outs = take (sum_list Ls) (drop n (rfc_hkdf_stream (rfc_hmac H B prk) info)) \<and>
    expanding prk info (n + sum_list Ls) c'"
  using assms(1,4)
proof (induction Ls arbitrary: n c)
  case (Cons L Ls)
  let ?S = "rfc_hkdf_stream (rfc_hmac H B prk) info"
  obtain c1 where p: "br_hkdf_produce g mem info L c = Some (take L (drop n ?S), c1)" "expanding prk info (n + L) c1"
    using produce_stream [OF Cons.prems(1) assms(2,3), of L] Cons.prems(2) by auto
  obtain outs c' where o: "hkdf_outputs g mem info Ls c1 = Some (outs, c')" "map length outs = Ls"
    "concat outs = take (sum_list Ls) (drop (n + L) ?S)" "expanding prk info (n + L + sum_list Ls) c'"
    using Cons.IH [OF p(2)] Cons.prems(2) by (auto simp: add.assoc)
  have "take L (drop n ?S) @ take (sum_list Ls) (drop (n + L) ?S) = take (L + sum_list Ls) (drop n ?S)"
    using take_add [of L "sum_list Ls" "drop n ?S"] by (simp add: add.commute)
  then show ?case using p o Cons.prems(2) by (auto simp: stream_length add.assoc)
qed simp

lemma hkdf_extract:
  assumes "ok g" and "ok (hm_dig (hk_hmac c))"
  shows "expanding (rfc_hkdf_extract (rfc_hmac H B) (br_digest_size hc) salt (concat ikms)) info 0
    (br_hkdf_flip (fold (\<lambda>d c. br_hkdf_inject c d) ikms (br_hkdf_init c hc g salt)) g)"
proof -
  let ?D = "br_digest_size hc"
  let ?salt = "case salt of None \<Rightarrow> replicate ?D 0 | Some salt \<Rightarrow> salt"
  define c0 where "c0 = br_hkdf_init c hc g salt"
  have c0: "hmac_holds ?salt [] ?D (hk_hmac c0)" "hk_dig_len c0 = ?D"
    using hmac_init_holds [OF key_init_keyed [OF assms(1)] assms(2), of ?salt 0]
    by (simp_all add: c0_def br_hkdf_init_def Let_def hmac_holds_def)
  have f: "hk_hmac (fold (\<lambda>d c. br_hkdf_inject c d) ds c) = fold (\<lambda>d ctx. br_hmac_update ctx d) ds (hk_hmac c)"
    "hk_dig_len (fold (\<lambda>d c. br_hkdf_inject c d) ds c) = hk_dig_len c" for ds c
    by (induction ds arbitrary: c) (simp_all add: br_hkdf_inject_def)
  note h = hmac_updates_hold [OF c0(1), of ikms, simplified]
  have "hm_vtable (hk_hmac (fold (\<lambda>d c. br_hkdf_inject c d) ikms c0)) = hc" using h by (simp add: f hmac_holds_def)
  then show ?thesis
    using hmac_out_holds [OF h assms(1)] key_init_keyed [OF assms(1)] c0(2)
    unfolding expanding_def c0_def [symmetric] 
    by (intro conjI exI [of _ 0]) (simp_all add: br_hkdf_flip_def Let_def f rfc_hkdf_extract_def)
qed

text \<open>Past the limit the counter is no longer what the test looks for: the next call starts with the first block again.\<close>

lemma hkdf_again:
  assumes "keyed prk (hk_prk c)" and "hk_dig_len c = br_digest_size hc" and "hk_ptr c = hk_dig_len c" and "hk_chunk c = 256"
    and "ok g" and "ok (hm_dig mem)" and "L \<le> br_digest_size hc"
  shows "\<exists>c'. br_hkdf_produce g mem info L c = Some (take L (hkdf_T (rfc_hmac H B prk) info 1), c')"
proof (cases "L = 0")
  case False
  let ?D = "br_digest_size hc"
  have one: "(257 :: byte) = 1" by simp
  have h: "hmac_holds prk [] ?D (br_hmac_init mem (hk_prk c) 0)"
    using hmac_init_holds [OF assms(1,6), of 0] by simp
  note hmac_update_holds [OF hmac_update_holds [OF h, of info], of "[1]"]
  then have "br_hmac_out (br_hmac_update (br_hmac_update (br_hmac_init mem (hk_prk c) 0) info) [1]) g =
      hkdf_T (rfc_hmac H B prk) info 1"
    using hmac_out_holds [OF _ assms(5)] by simp
  then have "hkdf_next g mem info c =
      (c\<lparr>hk_chunk := 257, hk_buf := overwrite 0 (hkdf_T (rfc_hmac H B prk) info 1) (hk_buf c), hk_ptr := 0\<rparr>, True)"
    using assms by (simp add: hkdf_next_def Let_def one)
  then show ?thesis
    using False assms(2,3,7) hkdf_T_length [of 1 prk info]
    by (subst br_hkdf_produce.simps) (auto simp: produce_0 Let_def overwrite_def)
qed (simp add: produce_0)

end

section \<open>The pseudorandom functions of TLS\<close>

definition phash_mac :: "'c br_hmac_context \<Rightarrow> 'c br_hmac_key_context \<Rightarrow> byte list list \<Rightarrow> 'c br_hmac_context" where
  "phash_mac mem kc ds = fold (\<lambda>d ctx. br_hmac_update ctx d) ds (br_hmac_init mem kc 0)"

partial_function (option) phash_loop ::
    "'c \<Rightarrow> 'c br_hmac_context \<Rightarrow> 'c br_hmac_key_context \<Rightarrow> nat \<Rightarrow> byte list \<Rightarrow> byte list list \<Rightarrow> byte list \<Rightarrow> byte list \<Rightarrow>
     byte list option" where
  "phash_loop g mem kc hlen lab seed a buf =
     (let tmp = br_hmac_out (phash_mac mem kc ([take hlen a, lab] @ seed)) g;
          u = min hlen (length buf);
          out = map2 (XOR) (take u buf) (take u tmp);
          buf = drop u buf
      in if length buf = 0 then Some out
         else let a = br_hmac_out (phash_mac mem kc [take hlen a]) g
              in Option.bind (phash_loop g mem kc hlen lab seed a buf) (\<lambda>rest. Some (out @ rest)))"

definition br_tls_phash ::
    "'c \<Rightarrow> 'c br_hmac_context \<Rightarrow> byte list \<Rightarrow> 'c br_hash_class \<Rightarrow> byte list \<Rightarrow> byte list \<Rightarrow> byte list list \<Rightarrow> byte list option" where
  "br_tls_phash g mem dst dig secret lab seed =
     (if length dst = 0 then Some dst
      else
        let lab = takeWhile (\<lambda>x. x \<noteq> 0) lab;
            hlen = br_digest_size dig;
            kc = br_hmac_key_init dig g secret;
            a = br_hmac_out (phash_mac mem kc ([lab] @ seed)) g
        in phash_loop g mem kc hlen lab seed a dst)"

text \<open>RFC 5246: \<open>A\<close>, and the exclusive or with the stream.\<close>

fun rfc_A :: "(byte list \<Rightarrow> byte list) \<Rightarrow> byte list \<Rightarrow> nat \<Rightarrow> byte list" where
  "rfc_A F seed 0 = seed"
| "rfc_A F seed (Suc i) = F (rfc_A F seed i)"

definition rfc_P :: "(byte list \<Rightarrow> byte list) \<Rightarrow> byte list \<Rightarrow> nat \<Rightarrow> byte list" where
  "rfc_P F seed n = take n (concat (map (\<lambda>i. F (rfc_A F seed (Suc i) @ seed)) [0..<n]))"

context hash_function
begin

lemma phash_mac_out:
  assumes "keyed key kc" and "ok g" and "ok (hm_dig mem)"
  shows "br_hmac_out (phash_mac mem kc ds) g = rfc_hmac H B key (concat ds)"
  using hmac_out_holds [OF hmac_updates_hold [OF hmac_init_holds [OF assms(1,3), of 0], of ds] assms(2)]
  by (simp add: phash_mac_def)

lemma phash_loop_stream:
  assumes "keyed key kc" and "ok g" and "ok (hm_dig mem)" and "buf \<noteq> []"
    and "a = rfc_A (rfc_hmac H B key) s (Suc k)" and "s = lab @ concat seed"
  shows "phash_loop g mem kc (br_digest_size hc) lab seed a buf =
    Some (xor_bytes buf (concat (map (\<lambda>i. rfc_hmac H B key (rfc_A (rfc_hmac H B key) s (Suc i) @ s)) [k..<k + length buf])))"
  using assms(4,5)
proof (induction "length buf" arbitrary: buf a k rule: less_induct)
  case less
  let ?F = "rfc_hmac H B key" and ?D = "br_digest_size hc"
  let ?f = "\<lambda>i. ?F (rfc_A ?F s (Suc i) @ s)"
  have a: "length a = ?D" by (simp add: less.prems(2))
  note m = phash_mac_out [OF assms(1-3)]
  have tmp: "br_hmac_out (phash_mac mem kc ([take ?D a, lab] @ seed)) g = ?f k"
    using a assms(6) less.prems(2) by (simp add: m)
  have a': "br_hmac_out (phash_mac mem kc [take ?D a]) g = rfc_A ?F s (Suc (Suc k))"
    using a less.prems(2) by (simp add: m)
  have out: "map2 (XOR) (take (min ?D (length buf)) buf) (take (min ?D (length buf)) (?f k)) = xor_bytes (take ?D buf) (?f k)"
    by (auto simp: xor_bytes_def list_eq_iff_nth_eq)
  have x: "xor_bytes buf (concat (map ?f [k..<k + length buf])) = xor_bytes (take ?D buf) (?f k) @
      xor_bytes (drop ?D buf) (concat (map ?f [Suc k..<Suc k + length (drop ?D buf)]))"
    using less.prems(1) digest_fits by (intro xor_stream) (auto simp del: rfc_A.simps)
  have d: "drop (min ?D (length buf)) buf = drop ?D buf" by (simp add: min_def)
  show ?case
  proof (cases "drop ?D buf = []")
    case True
    then show ?thesis unfolding x by (subst phash_loop.simps) (simp only: Let_def tmp out d, simp add: xor_bytes_def)
  next
    case False
    have "length (drop ?D buf) < length buf" using digest_fits(1) less.prems(1) by (cases buf) auto
    then show ?thesis
      unfolding x using less.hyps [OF _ False refl, of "Suc k"] False
      by (subst phash_loop.simps) (simp only: Let_def tmp out d a', simp)
  qed
qed

lemma tls_phash:
  assumes "ok g" and "ok (hm_dig mem)" and "0 \<notin> set lab"
  shows "br_tls_phash g mem dst hc secret (lab @ 0 # r) seed =
    Some (xor_bytes dst (rfc_P (rfc_hmac H B secret) (lab @ concat seed) (length dst)))"
proof (cases "dst = []")
  case False
  let ?F = "rfc_hmac H B secret" and ?s = "lab @ concat seed"
  have k: "keyed secret (br_hmac_key_init hc g secret)" by (rule key_init_keyed [OF assms(1)])
  have l: "takeWhile (\<lambda>x. x \<noteq> 0) (lab @ 0 # r) = lab" using assms(3) by (induction lab) auto
  have "br_hmac_out (phash_mac mem (br_hmac_key_init hc g secret) ([lab] @ seed)) g = rfc_A ?F ?s (Suc 0)"
    by (simp add: phash_mac_out [OF k assms(1,2)])
  from phash_loop_stream [OF k assms(1,2) False this refl]
  have "br_tls_phash g mem dst hc secret (lab @ 0 # r) seed =
      Some (xor_bytes dst (concat (map (\<lambda>i. ?F (rfc_A ?F ?s (Suc i) @ ?s)) [0..<length dst])))"
    using False by (simp add: br_tls_phash_def l)
  then show ?thesis by (simp only: rfc_P_def xor_bytes_take)
qed (simp add: br_tls_phash_def xor_bytes_def)

lemma rfc_P_length: "length (rfc_P (rfc_hmac H B key) s n) = n"
proof -
  have "length (concat (map (\<lambda>i. rfc_hmac H B key (rfc_A (rfc_hmac H B key) s (Suc i) @ s)) [0..<n])) = n * br_digest_size hc"
    by (subst blocks_length) auto
  then show ?thesis using digest_fits by (simp add: rfc_P_def)
qed

end

text \<open>The functions of TLS 1.0 and 1.1, and those of TLS 1.2, with what the stack holds for each of the hash functions.\<close>

definition br_tls10_prf ::
    "md5_context \<Rightarrow> md5_context br_hmac_context \<Rightarrow> sha1_context \<Rightarrow> sha1_context br_hmac_context \<Rightarrow>
     nat \<Rightarrow> byte list \<Rightarrow> byte list \<Rightarrow> byte list list \<Rightarrow> byte list option" where
  "br_tls10_prf g1 mem1 g2 mem2 len secret lab seed =
     (let slen = (length secret + 1) div 2;
          dst = replicate len 0
      in Option.bind (br_tls_phash g1 mem1 dst br_md5_vtable (take slen secret) lab seed)
           (\<lambda>dst. br_tls_phash g2 mem2 dst br_sha1_vtable (take slen (drop (length secret - slen) secret)) lab seed))"

definition br_tls12_sha256_prf ::
    "sha2small_context \<Rightarrow> sha2small_context br_hmac_context \<Rightarrow>
     nat \<Rightarrow> byte list \<Rightarrow> byte list \<Rightarrow> byte list list \<Rightarrow> byte list option" where
  "br_tls12_sha256_prf g mem len secret lab seed =
     br_tls_phash g mem (replicate len 0) br_sha256_vtable secret lab seed"

definition br_tls12_sha384_prf ::
    "sha2big_context \<Rightarrow> sha2big_context br_hmac_context \<Rightarrow>
     nat \<Rightarrow> byte list \<Rightarrow> byte list \<Rightarrow> byte list list \<Rightarrow> byte list option" where
  "br_tls12_sha384_prf g mem len secret lab seed =
     br_tls_phash g mem (replicate len 0) br_sha384_vtable secret lab seed"

section \<open>Masks\<close>

partial_function (option) mgf1_loop ::
    "'c \<Rightarrow> 'c br_hash_class \<Rightarrow> byte list \<Rightarrow> nat \<Rightarrow> u32 \<Rightarrow> byte list \<Rightarrow> byte list option" where
  "mgf1_loop g dig seed hlen c buf =
     (if buf = [] then Some []
      else
        let hc = h_init dig g;
            hc = h_update dig hc seed;
            hc = h_update dig hc (br_enc32be c);
            tmp = h_out dig hc;
            out = map2 (XOR) (take hlen buf) (take hlen tmp)
        in Option.bind (mgf1_loop g dig seed hlen (c + 1) (drop hlen buf)) (\<lambda>rest. Some (out @ rest)))"

definition br_mgf1_xor :: "'c \<Rightarrow> byte list \<Rightarrow> 'c br_hash_class \<Rightarrow> byte list \<Rightarrow> byte list option" where
  "br_mgf1_xor g data dig seed = mgf1_loop g dig seed (br_digest_size dig) 0 data"

text \<open>RFC 8017, appendix B.2.1.\<close>

definition rfc_mgf1 :: "(byte list \<Rightarrow> byte list) \<Rightarrow> byte list \<Rightarrow> nat \<Rightarrow> byte list" where
  "rfc_mgf1 H seed n = take n (concat (map (\<lambda>i. H (seed @ br_enc32be (word_of_nat i))) [0..<n]))"

context hash_function
begin

lemma mgf1_loop_stream:
  assumes "ok g"
  shows "mgf1_loop g hc seed (br_digest_size hc) (word_of_nat k) buf =
    Some (xor_bytes buf (concat (map (\<lambda>i. H (seed @ br_enc32be (word_of_nat i))) [k..<k + length buf])))"
proof (induction "length buf" arbitrary: buf k rule: less_induct)
  case less
  let ?D = "br_digest_size hc" and ?f = "\<lambda>i. H (seed @ br_enc32be (word_of_nat i))"
  show ?case
  proof (cases "buf = []")
    case False
    have h: "h_out hc (h_update hc (h_update hc (h_init hc g) seed) (br_enc32be (word_of_nat k))) = ?f k"
      using out_repr [OF update_repr [OF update_repr [OF init_repr [OF assms]]]] by simp
    have s: "(word_of_nat k :: u32) + 1 = word_of_nat (Suc k)" by simp
    have "length (drop ?D buf) < length buf" using digest_fits(1) False by (cases buf) auto
    from less [OF this, of "Suc k"] show ?thesis
      using False xor_stream [of ?f ?D buf "length buf" k] digest_size digest_fits(1)
      by (subst mgf1_loop.simps) (simp add: Let_def h s map2_xor del: of_nat_Suc)
  qed (simp add: mgf1_loop.simps xor_bytes_def)
qed

lemma mgf1_xor: "ok g \<Longrightarrow> br_mgf1_xor g data hc seed = Some (xor_bytes data (rfc_mgf1 H seed (length data)))"
  using mgf1_loop_stream [of g seed 0 data] by (simp add: br_mgf1_xor_def rfc_mgf1_def xor_bytes_take)

end

section \<open>The code computes the standards\<close>

abbreviation hmac_sha256 :: "byte list \<Rightarrow> byte list \<Rightarrow> byte list" where
  "hmac_sha256 \<equiv> rfc_hmac (fips_sha_small br_sha256_IV 8) 64"

text \<open>HKDF over SHA-256, from the first call to the start of the output.\<close>

definition hkdf_sha256 ::
    "sha2small_context br_hkdf_context \<Rightarrow> sha2small_context \<Rightarrow> byte list option \<Rightarrow> byte list list \<Rightarrow>
     sha2small_context br_hkdf_context" where
  "hkdf_sha256 c g salt ikms =
     br_hkdf_flip (fold (\<lambda>d c. br_hkdf_inject c d) ikms (br_hkdf_init c br_sha256_vtable g salt)) g"

text \<open>Contents of memory for the examples.\<close>

definition some_context :: sha2small_context where
  "some_context = \<lparr>hbuf = replicate 64 7, hval = [], hcount = 9\<rparr>"

definition some_hmac :: "sha2small_context br_hmac_context" where
  "some_hmac = \<lparr>hm_vtable = br_sha256_vtable, hm_dig = some_context, hm_kso = [], hm_out_len = 0\<rparr>"

definition some_hkdf :: "sha2small_context br_hkdf_context" where
  "some_hkdf = \<lparr>hk_hmac = some_hmac, hk_prk = \<lparr>dig_vtable = br_sha256_vtable, ksi = [], kso = []\<rparr>,
     hk_buf = replicate 64 0, hk_ptr = 3, hk_dig_len = 0, hk_chunk = 17\<rparr>"

text \<open>C32: Keying material in any pieces and with or without a salt, and output asked for in any pieces, at most 255 times
  the length of the digest in all: every request is met in full, and together they are the output of HKDF
  as RFC 5869 defines it.\<close>

theorem hkdf_is_rfc5869:
  assumes "length (hbuf g) = 64" and "length (hbuf (hm_dig mem)) = 64" and "length (hbuf (hm_dig (hk_hmac c))) = 64"
    and "sum_list Ls \<le> 255 * 32"
  shows "\<exists>outs c'. hkdf_outputs g mem info Ls (hkdf_sha256 c g salt ikms) = Some (outs, c') \<and> map length outs = Ls \<and>
    concat outs = take (sum_list Ls)
      (rfc_hkdf_stream (hmac_sha256 (rfc_hkdf_extract hmac_sha256 32 salt (concat ikms))) info)"
  using sha256.outputs_stream [OF sha256.hkdf_extract [OF assms(1,3)] assms(1,2), of Ls] assms(4)
  unfolding hkdf_sha256_def by (fastforce simp: vtable_sizes sha256_value)

theorem hkdf_is_rfc5869_witness:
  "\<exists>outs c'. hkdf_outputs some_context some_hmac [0x0A] [10, 0, 32] (hkdf_sha256 some_hkdf some_context None [[1, 2], [3]]) =
      Some (outs, c') \<and> map length outs = [10, 0, 32] \<and>
    concat outs = take 42 (rfc_hkdf_stream (hmac_sha256 (rfc_hkdf_extract hmac_sha256 32 None [1, 2, 3])) [0x0A])"
  using hkdf_is_rfc5869 [of some_context some_hmac some_hkdf "[10, 0, 32]" "[0x0A]" None "[[1, 2], [3]]"]
  by (simp add: some_hkdf_def some_hmac_def some_context_def)

text \<open>The limit holds for one request only. A request for more than 255 digests gets 255 digests; the next one gets
  bytes again, and they are the first ones of the output once more.\<close>

theorem hkdf_starts_again:
  assumes "length (hbuf g) = 64" and "length (hbuf (hm_dig mem)) = 64" and "length (hbuf (hm_dig (hk_hmac c))) = 64"
    and "255 * 32 < L" and "n \<le> 32"
  shows "\<exists>c'. hkdf_outputs g mem info [L, n] (hkdf_sha256 c g salt ikms) =
    Some ([rfc_hkdf_stream (hmac_sha256 (rfc_hkdf_extract hmac_sha256 32 salt (concat ikms))) info,
           take n (rfc_hkdf_stream (hmac_sha256 (rfc_hkdf_extract hmac_sha256 32 salt (concat ikms))) info)], c')"
proof -
  let ?prk = "rfc_hkdf_extract hmac_sha256 32 salt (concat ikms)"
  let ?S = "rfc_hkdf_stream (hmac_sha256 ?prk) info" and ?T = "hkdf_T (hmac_sha256 ?prk) info 1"
  have e: "sha256.expanding ?prk info 0 (hkdf_sha256 c g salt ikms)"
    using sha256.hkdf_extract [OF assms(1,3), of salt ikms info]
    by (simp add: hkdf_sha256_def vtable_sizes sha256_value)
  have S: "length ?S = 255 * 32" using sha256.stream_length [of ?prk info] by (simp add: vtable_sizes sha256_value)
  obtain c1 where c1: "br_hkdf_produce g mem info L (hkdf_sha256 c g salt ikms) = Some (?S, c1)"
    "sha256.keyed ?prk (hk_prk c1)" "hk_dig_len c1 = br_digest_size br_sha256_vtable" "hk_ptr c1 = hk_dig_len c1" "hk_chunk c1 = 256"
    using sha256.produce_stream [OF e assms(1,2), of L] assms(4) S by (auto simp: vtable_sizes sha256_value)
  have T: "length ?T = 32" using sha256.hkdf_T_length [of 1 ?prk info] by (simp add: vtable_sizes sha256_value)
  have "[1..<256] = 1 # [Suc 1..<256]" by (rule upt_conv_Cons) simp
  then have "?S = ?T @ concat (map (hkdf_T (hmac_sha256 ?prk) info) [Suc 1..<256])"
    by (simp only: rfc_hkdf_stream_def list.map concat.simps)
  then have "take n ?S = take n ?T" using T assms(5) by (simp only: take_append) simp
  then show ?thesis
    using c1(1) sha256.hkdf_again [OF c1(2-5) assms(1,2), of n info] assms(5) by (auto simp: vtable_sizes sha256_value)
qed

theorem hkdf_starts_again_witness:
  "\<exists>c'. hkdf_outputs some_context some_hmac [] [8161, 16] (hkdf_sha256 some_hkdf some_context (Some [5]) [[1]]) =
    Some ([rfc_hkdf_stream (hmac_sha256 (rfc_hkdf_extract hmac_sha256 32 (Some [5]) [1])) [],
           take 16 (rfc_hkdf_stream (hmac_sha256 (rfc_hkdf_extract hmac_sha256 32 (Some [5]) [1])) [])], c')"
  using hkdf_starts_again [of some_context some_hmac some_hkdf 8161 16 "[]" "Some [5]" "[[1]]"]
  by (simp add: some_hkdf_def some_hmac_def some_context_def)

text \<open>C33: For a label without a zero byte before its end, a secret of any length and a seed in any pieces, the functions of
  TLS return, and their output is that of RFC 5246 over SHA-256, and that of RFC 2246 over the two halves of the
  secret, which share the middle byte when its length is odd.\<close>

theorem tls_prf_is_rfc:
  assumes "length (hbuf g) = 64" and "length (hbuf (hm_dig mem)) = 64" and "0 \<notin> set lab"
  shows "br_tls12_sha256_prf g mem len secret (lab @ 0 # r) seed = Some (rfc_P (hmac_sha256 secret) (lab @ concat seed) len) \<and>
    br_tls10_prf g mem g mem len secret (lab @ 0 # r) seed =
      Some (xor_bytes (rfc_P (rfc_hmac rfc_md5 64 (take ((length secret + 1) div 2) secret)) (lab @ concat seed) len)
        (rfc_P (rfc_hmac fips_sha1 64 (drop (length secret div 2) secret)) (lab @ concat seed) len))"
proof -
  have h: "length secret - (length secret + 1) div 2 = length secret div 2" by presburger
  have "length (drop (length secret div 2) secret) \<le> (length secret + 1) div 2" by simp
  then have d: "take ((length secret + 1) div 2) (drop (length secret div 2) secret) = drop (length secret div 2) secret" by simp
  note P = sha256.rfc_P_length [unfolded sha256_value] md5.rfc_P_length
  show ?thesis
    unfolding br_tls12_sha256_prf_def br_tls10_prf_def Let_def h d
    by (simp add: sha256.tls_phash [OF assms] md5.tls_phash [OF assms] sha1.tls_phash [OF assms] P sha256_value)
qed

theorem tls_prf_is_rfc_witness:
  "br_tls10_prf some_context some_hmac some_context some_hmac 48 [1, 2, 3] [0x6B, 0x65, 0x79, 0] [[4], [5, 6]] =
    Some (xor_bytes (rfc_P (rfc_hmac rfc_md5 64 [1, 2]) [0x6B, 0x65, 0x79, 4, 5, 6] 48)
      (rfc_P (rfc_hmac fips_sha1 64 [2, 3]) [0x6B, 0x65, 0x79, 4, 5, 6] 48))"
  using tls_prf_is_rfc [of some_context some_hmac "[0x6B, 0x65, 0x79]" 48 "[1, 2, 3]" "[]" "[[4], [5, 6]]"]
  by (simp add: some_hmac_def some_context_def)

text \<open>The mask of RSA padding: the data is combined with the output of MGF1 of RFC 8017, over SHA-256 and over SHA-1.\<close>

theorem mgf1_is_rfc8017:
  assumes "length (hbuf g) = 64"
  shows "br_mgf1_xor g data br_sha256_vtable seed =
      Some (xor_bytes data (rfc_mgf1 (fips_sha_small br_sha256_IV 8) seed (length data))) \<and>
    br_mgf1_xor g data br_sha1_vtable seed = Some (xor_bytes data (rfc_mgf1 fips_sha1 seed (length data)))"
  using sha256.mgf1_xor [OF assms] sha1.mgf1_xor [OF assms] by (simp add: sha256_value)

theorem mgf1_is_rfc8017_witness:
  "br_mgf1_xor some_context [1, 2, 3] br_sha1_vtable [9] = Some (xor_bytes [1, 2, 3] (rfc_mgf1 fips_sha1 [9] 3))"
  using mgf1_is_rfc8017 [of some_context "[1, 2, 3]" "[9]"] by (simp add: some_context_def numeral_3_eq_3)

end
