(* ===== verification/Chacha20.thy ===== *)
theory Chacha20
  imports Prf
begin

text \<open>
  The stream cipher ChaCha20: \<^verbatim>\<open>bearssl/src/symcipher/chacha20_ct.c\<close>. The state is an array that is updated
  in place; RFC 8439 has quarter rounds of four words, a block function and a stream. Shown: the code
  combines the data with the stream of the RFC and returns the next counter; encryption is its own
  inverse; and data may come in pieces of whole blocks.
\<close>

section \<open>The code\<close>

definition CW :: "u32 list" where
  "CW = [0x61707865, 0x3320646E, 0x79622D32, 0x6B206574]"

definition QROUND :: "nat \<Rightarrow> nat \<Rightarrow> nat \<Rightarrow> nat \<Rightarrow> u32 list \<Rightarrow> u32 list" where
  "QROUND a b c d s =
     (let s = s[a := s ! a + s ! b];
          s = s[d := s ! d XOR s ! a];
          s = s[d := push_bit 16 (s ! d) OR drop_bit 16 (s ! d)];
          s = s[c := s ! c + s ! d];
          s = s[b := s ! b XOR s ! c];
          s = s[b := push_bit 12 (s ! b) OR drop_bit 20 (s ! b)];
          s = s[a := s ! a + s ! b];
          s = s[d := s ! d XOR s ! a];
          s = s[d := push_bit 8 (s ! d) OR drop_bit 24 (s ! d)];
          s = s[c := s ! c + s ! d];
          s = s[b := s ! b XOR s ! c];
          s = s[b := push_bit 7 (s ! b) OR drop_bit 25 (s ! b)]
      in s)"

definition double_round :: "u32 list \<Rightarrow> u32 list" where
  "double_round s =
     (let s = QROUND 0 4 8 12 s;
          s = QROUND 1 5 9 13 s;
          s = QROUND 2 6 10 14 s;
          s = QROUND 3 7 11 15 s;
          s = QROUND 0 5 10 15 s;
          s = QROUND 1 6 11 12 s;
          s = QROUND 2 7 8 13 s;
          s = QROUND 3 4 9 14 s
      in s)"

definition chacha20_tmp :: "u32 list \<Rightarrow> u32 list \<Rightarrow> u32 \<Rightarrow> byte list" where
  "chacha20_tmp kw ivw cc =
     (let state = CW @ kw @ [cc] @ ivw;
          state = (double_round ^^ 10) state
      in concat (map (\<lambda>u. br_enc32le (state ! u + CW ! u)) [0..<4]) @
         concat (map (\<lambda>u. br_enc32le (state ! u + kw ! (u - 4))) [4..<12]) @
         br_enc32le (state ! 12 + cc) @
         concat (map (\<lambda>u. br_enc32le (state ! u + ivw ! (u - 13))) [13..<16]))"

function chacha20_loop :: "u32 list \<Rightarrow> u32 list \<Rightarrow> u32 \<Rightarrow> byte list \<Rightarrow> byte list \<times> u32" where
  "chacha20_loop kw ivw cc buf =
     (if length buf = 0 then ([], cc)
      else
        let tmp = chacha20_tmp kw ivw cc;
            clen = (if length buf < 64 then length buf else 64);
            out = map2 (XOR) (take clen buf) (take clen tmp);
            (rest, cc) = chacha20_loop kw ivw (cc + 1) (drop clen buf)
        in (out @ rest, cc))"
  by auto
termination
  by (relation "measure (\<lambda>(kw, ivw, cc, buf). length buf)") auto

declare chacha20_loop.simps [simp del]

definition br_chacha20_ct_run :: "byte list \<Rightarrow> byte list \<Rightarrow> u32 \<Rightarrow> byte list \<Rightarrow> byte list \<times> u32" where
  "br_chacha20_ct_run key iv cc data =
     (let kw = map (\<lambda>u. br_dec32le (drop (4 * u) key)) [0..<8];
          ivw = map (\<lambda>u. br_dec32le (drop (4 * u) iv)) [0..<3]
      in chacha20_loop kw ivw cc data)"

section \<open>RFC 8439\<close>

definition rfc_quarter_round :: "quad32 \<Rightarrow> quad32" where
  "rfc_quarter_round v =
     (case v of (a, b, c, d) \<Rightarrow>
        let a = a + b; d = word_rotl 16 (d XOR a);
            c = c + d; b = word_rotl 12 (b XOR c);
            a = a + b; d = word_rotl 8 (d XOR a);
            c = c + d; b = word_rotl 7 (b XOR c)
        in (a, b, c, d))"

definition rfc_on :: "nat \<times> nat \<times> nat \<times> nat \<Rightarrow> u32 list \<Rightarrow> u32 list" where
  "rfc_on i s =
     (case i of (x, y, z, w) \<Rightarrow>
        case rfc_quarter_round (s ! x, s ! y, s ! z, s ! w) of (a, b, c, d) \<Rightarrow> s[x := a, y := b, z := c, w := d])"

definition rfc_inner_block :: "u32 list \<Rightarrow> u32 list" where
  "rfc_inner_block s =
     fold rfc_on [(0, 4, 8, 12), (1, 5, 9, 13), (2, 6, 10, 14), (3, 7, 11, 15),
                  (0, 5, 10, 15), (1, 6, 11, 12), (2, 7, 8, 13), (3, 4, 9, 14)] s"

definition rfc_chacha20_block :: "byte list \<Rightarrow> u32 \<Rightarrow> byte list \<Rightarrow> byte list" where
  "rfc_chacha20_block key n iv =
     (let state = [0x61707865, 0x3320646E, 0x79622D32, 0x6B206574] @ br_range_dec32le 8 key @ [n] @ br_range_dec32le 3 iv
      in concat (map br_enc32le (map2 (+) state ((rfc_inner_block ^^ 10) state))))"

definition rfc_chacha20 :: "byte list \<Rightarrow> u32 \<Rightarrow> byte list \<Rightarrow> byte list \<Rightarrow> byte list" where
  "rfc_chacha20 key n iv data =
     xor_bytes data (concat (map (\<lambda>j. rfc_chacha20_block key (n + word_of_nat j) iv) [0..<length data]))"

section \<open>The code computes the stream\<close>

lemma length_CW [simp]: "length CW = 4"
  by (simp add: CW_def)

lemma length_QROUND [simp]: "length (QROUND a b c d s) = length s"
  by (simp only: QROUND_def Let_def length_list_update)

lemma QROUND_rfc:
  assumes "distinct [a, b, c, d]" and "set [a, b, c, d] \<subseteq> {..<length s}"
  shows "QROUND a b c d s = rfc_on (a, b, c, d) s"
proof -
  have r: "push_bit 16 x OR drop_bit 16 x = word_rotl 16 x" "push_bit 12 x OR drop_bit 20 x = word_rotl 12 x"
    "push_bit 8 x OR drop_bit 24 x = word_rotl 8 x" "push_bit 7 x OR drop_bit 25 x = word_rotl 7 x" for x :: u32
    using ROTL_rotl [of 16 x] ROTL_rotl [of 12 x] ROTL_rotl [of 8 x] ROTL_rotl [of 7 x] by (simp_all add: ROTL_def)
  let ?s = "\<lambda>x y z w. s[a := x, b := y, c := z, d := w]"
  have n: "?s x y z w ! a = x" "?s x y z w ! b = y" "?s x y z w ! c = z" "?s x y z w ! d = w" for x y z w
    using assms by auto
  have u: "(?s x y z w)[a := v] = ?s v y z w" "(?s x y z w)[b := v] = ?s x v z w" "(?s x y z w)[c := v] = ?s x y v w"
    "(?s x y z w)[d := v] = ?s x y z v" for x y z w v
    using assms by (auto simp: list_eq_iff_nth_eq nth_list_update)
  have "QROUND a b c d s = QROUND a b c d (?s (s ! a) (s ! b) (s ! c) (s ! d))" by simp
  also have "\<dots> = rfc_on (a, b, c, d) s"
    unfolding QROUND_def rfc_on_def rfc_quarter_round_def by (simp only: n u r Let_def prod.case cong: let_weak_cong)
  finally show ?thesis .
qed

lemma double_round_rfc: "length s = 16 \<Longrightarrow> double_round s = rfc_inner_block s"
  by (simp add: double_round_def rfc_inner_block_def Let_def flip: QROUND_rfc)

lemma length_rfc_on [simp]: "length (rfc_on i s) = length s"
  by (simp add: rfc_on_def case_prod_beta)

lemma length_rfc_inner_block [simp]: "length (rfc_inner_block s) = length s"
  by (simp add: rfc_inner_block_def)

lemma rounds_rfc: "length s = 16 \<Longrightarrow> (double_round ^^ n) s = (rfc_inner_block ^^ n) s \<and> length ((rfc_inner_block ^^ n) s) = 16"
  by (induction n) (simp_all add: double_round_rfc)

lemma range_dec_map: "br_range_dec32le n buf = map (\<lambda>u. br_dec32le (drop (4 * u) buf)) [0..<n]"
proof (induction n arbitrary: buf)
  case (Suc n)
  have "[0..<Suc n] = 0 # map Suc [0..<n]" by (simp add: upt_conv_Cons map_Suc_upt del: upt_Suc)
  then show ?case by (simp add: Suc.IH add.commute del: upt_Suc)
qed simp

lemma map_upt_cong: "(\<And>u. j \<le> u \<Longrightarrow> u < k \<Longrightarrow> f u = g u) \<Longrightarrow> map f [j..<k] = map g [j..<k]"
  by simp

lemma chacha20_tmp_rfc:
  "chacha20_tmp (br_range_dec32le 8 key) (br_range_dec32le 3 iv) cc = rfc_chacha20_block key cc iv"
proof -
  let ?kw = "br_range_dec32le 8 key" and ?iv = "br_range_dec32le 3 iv"
  define s where "s = CW @ ?kw @ [cc] @ ?iv"
  define t where "t = (rfc_inner_block ^^ 10) s"
  have l: "length s = 16" by (simp add: s_def CW_def)
  have t: "(double_round ^^ 10) s = t" "length t = 16" using rounds_rfc [OF l, of 10] by (simp_all add: t_def)
  let ?f = "\<lambda>u. br_enc32le (s ! u + t ! u)"
  have p1: "map (\<lambda>u. br_enc32le (t ! u + CW ! u)) [0..<4] = map ?f [0..<4]"
    by (rule map_upt_cong) (simp add: s_def nth_append add.commute)
  have p2: "map (\<lambda>u. br_enc32le (t ! u + ?kw ! (u - 4))) [4..<12] = map ?f [4..<12]"
    by (rule map_upt_cong) (auto simp: s_def nth_append add.commute)
  have p3: "br_enc32le (t ! 12 + cc) = concat (map ?f [12..<13])"
    by (simp add: s_def nth_append add.commute)
  have p4: "map (\<lambda>u. br_enc32le (t ! u + ?iv ! (u - 13))) [13..<16] = map ?f [13..<16]"
    by (simp add: s_def nth_append add.commute)
  have "map2 (+) s t = map (\<lambda>u. s ! u + t ! u) [0..<16]"
    using l t(2) by (simp add: list_eq_iff_nth_eq del: upt_rec_numeral)
  then have "map br_enc32le (map2 (+) s t) = map ?f [0..<16]" by (simp only: map_map comp_def)
  then have b: "rfc_chacha20_block key cc iv = concat (map ?f [0..<16])"
    unfolding rfc_chacha20_block_def Let_def CW_def [symmetric] s_def [symmetric] t_def [symmetric] by (rule arg_cong)
  have "[0..<16] = [0..<4] @ [4..<12] @ [12..<13] @ [13..<16]" by (simp add: upt_rec)
  then have "concat (map ?f [0..<16]) =
      concat (map ?f [0..<4]) @ concat (map ?f [4..<12]) @ concat (map ?f [12..<13]) @ concat (map ?f [13..<16])"
    by (simp only: map_append concat_append)
  then show ?thesis
    unfolding b chacha20_tmp_def Let_def s_def [symmetric] t(1) p1 p2 p3 p4 by simp
qed

lemma length_rfc_block [simp]: "length (rfc_chacha20_block key n iv) = 64"
proof -
  have "length ((rfc_inner_block ^^ k) s) = length s" for k s by (induction k) simp_all
  moreover have "length (concat (map br_enc32le xs)) = 4 * length xs" for xs by (induction xs) simp_all
  ultimately show ?thesis by (simp only: rfc_chacha20_block_def Let_def) simp
qed

text \<open>Blocks left over in a run count as one.\<close>

definition chacha20_blocks :: "nat \<Rightarrow> nat" where
  "chacha20_blocks n = (n + 63) div 64"

lemma chacha20_loop_rfc:
  "chacha20_loop (br_range_dec32le 8 key) (br_range_dec32le 3 iv) (n + word_of_nat k) buf =
    (xor_bytes buf (concat (map (\<lambda>j. rfc_chacha20_block key (n + word_of_nat j) iv) [k..<k + length buf])),
     n + word_of_nat (k + chacha20_blocks (length buf)))"
proof (induction "length buf" arbitrary: buf k rule: less_induct)
  case less
  let ?f = "\<lambda>j. rfc_chacha20_block key (n + word_of_nat j) iv"
  show ?case
  proof (cases "buf = []")
    case False
    let ?c = "if length buf < 64 then length buf else 64"
    have d: "drop ?c buf = drop 64 buf" "take ?c buf = take 64 buf" by simp_all
    have o: "map2 (XOR) (take 64 buf) (take ?c (?f k)) = xor_bytes (take 64 buf) (?f k)"
      by (auto simp: xor_bytes_def list_eq_iff_nth_eq)
    have s: "n + word_of_nat k + 1 = n + word_of_nat (Suc k)" by simp
    have "Suc k + chacha20_blocks (length (drop 64 buf)) = k + chacha20_blocks (length buf)"
      using False by (cases "length buf \<le> 64") (auto simp: chacha20_blocks_def div_add_self2 Suc_leI le_div_geq)
    moreover have "length (drop 64 buf) < length buf" using False by (cases buf) auto
    ultimately show ?thesis
      using less [of "drop 64 buf" "Suc k"] False xor_stream [of ?f 64 buf "length buf" k]
      by (subst chacha20_loop.simps) (simp only: Let_def chacha20_tmp_rfc o d s length_rfc_block, simp)
  qed (simp add: chacha20_loop.simps xor_bytes_def chacha20_blocks_def)
qed

lemma chacha20_run_rfc:
  "br_chacha20_ct_run key iv cc data = (rfc_chacha20 key cc iv data, cc + word_of_nat (chacha20_blocks (length data)))"
  using chacha20_loop_rfc [of key iv cc 0 data]
  by (simp add: br_chacha20_ct_run_def range_dec_map rfc_chacha20_def del: upt_rec_numeral)

lemma xor_bytes_twice: "length xs \<le> length s \<Longrightarrow> xor_bytes (xor_bytes xs s) s = xs"
  by (auto simp: xor_bytes_def list_eq_iff_nth_eq xor.assoc)

lemma rfc_chacha20_twice: "rfc_chacha20 key n iv (rfc_chacha20 key n iv data) = data"
proof -
  let ?f = "\<lambda>j. rfc_chacha20_block key (n + word_of_nat j) iv"
  have "length (concat (map ?f [0..<length data])) = length data * 64"
    using blocks_length [of ?f 64 0 "length data"] by simp
  then show ?thesis
    using xor_bytes_twice [of data "concat (map ?f [0..<length data])"] by (simp add: rfc_chacha20_def xor_bytes_def)
qed

text \<open>C34: For every key, nonce, counter and data the code gives the data combined with the key stream of RFC 8439, and the
  counter of the block after the last one it used, a part of a block counting as a block; a second run
  gives the data back.\<close>

theorem chacha20_is_rfc8439:
  "br_chacha20_ct_run key iv cc data = (rfc_chacha20 key cc iv data, cc + word_of_nat ((length data + 63) div 64)) \<and>
   fst (br_chacha20_ct_run key iv cc (fst (br_chacha20_ct_run key iv cc data))) = data"
  by (simp add: chacha20_run_rfc chacha20_blocks_def rfc_chacha20_twice)

end
