(* ===== verification/Poly1305.thy ===== *)
theory Poly1305
  imports Chacha20
begin

text \<open>
  The authenticator Poly1305 and its combination with ChaCha20: \<^verbatim>\<open>bearssl/src/symcipher/poly1305_ctmul.c\<close>. Numbers
  of 130 bits are five words of 26 bits, whose products fit in 64 bits and whose carries are passed on
  late. Shown: no sum or product overflows, the accumulator is what RFC 8439 says modulo \<open>2 ^ 130 - 5\<close>, and so is the
  tag, but for one case: the last reduction forgets to multiply the carry out of the top word by five.
\<close>

section \<open>The code\<close>

definition mul64 :: "u32 \<Rightarrow> u32 \<Rightarrow> u64" where
  "mul64 x y = ucast x * ucast y"

definition add_block :: "u32 list \<Rightarrow> byte list \<Rightarrow> u32 list" where
  "add_block a buf =
     [a ! 0 + (br_dec32le buf AND 0x03FFFFFF),
      a ! 1 + (drop_bit 2 (br_dec32le (drop 3 buf)) AND 0x03FFFFFF),
      a ! 2 + (drop_bit 4 (br_dec32le (drop 6 buf)) AND 0x03FFFFFF),
      a ! 3 + (drop_bit 6 (br_dec32le (drop 9 buf)) AND 0x03FFFFFF),
      a ! 4 + (drop_bit 8 (br_dec32le (drop 12 buf)) OR 0x01000000)]"

definition mul_r :: "u32 list \<Rightarrow> u32 list \<Rightarrow> u64 list" where
  "mul_r a r =
     (let u1 = r ! 1 * 5; u2 = r ! 2 * 5; u3 = r ! 3 * 5; u4 = r ! 4 * 5
      in [mul64 (a ! 0) (r ! 0) + mul64 (a ! 1) u4 + mul64 (a ! 2) u3 + mul64 (a ! 3) u2 + mul64 (a ! 4) u1,
          mul64 (a ! 0) (r ! 1) + mul64 (a ! 1) (r ! 0) + mul64 (a ! 2) u4 + mul64 (a ! 3) u3 + mul64 (a ! 4) u2,
          mul64 (a ! 0) (r ! 2) + mul64 (a ! 1) (r ! 1) + mul64 (a ! 2) (r ! 0) + mul64 (a ! 3) u4 + mul64 (a ! 4) u3,
          mul64 (a ! 0) (r ! 3) + mul64 (a ! 1) (r ! 2) + mul64 (a ! 2) (r ! 1) + mul64 (a ! 3) (r ! 0) + mul64 (a ! 4) u4,
          mul64 (a ! 0) (r ! 4) + mul64 (a ! 1) (r ! 3) + mul64 (a ! 2) (r ! 2) + mul64 (a ! 3) (r ! 1) + mul64 (a ! 4) (r ! 0)])"

definition reduce_w :: "u64 list \<Rightarrow> u32 list" where
  "reduce_w w =
     (let w0 = w ! 0; w1 = w ! 1; w2 = w ! 2; w3 = w ! 3; w4 = w ! 4;
          c = drop_bit 26 w0; a0 = (ucast w0 :: u32) AND 0x3FFFFFF;
          w1 = w1 + c; c = drop_bit 26 w1; a1 = (ucast w1 :: u32) AND 0x3FFFFFF;
          w2 = w2 + c; c = drop_bit 26 w2; a2 = (ucast w2 :: u32) AND 0x3FFFFFF;
          w3 = w3 + c; c = drop_bit 26 w3; a3 = (ucast w3 :: u32) AND 0x3FFFFFF;
          w4 = w4 + c; c = drop_bit 26 w4; a4 = (ucast w4 :: u32) AND 0x3FFFFFF;
          a0 = a0 + ucast c * 5;
          a1 = a1 + drop_bit 26 a0;
          a0 = a0 AND 0x3FFFFFF
      in [a0, a1, a2, a3, a4])"

function poly1305_inner :: "u32 list \<Rightarrow> u32 list \<Rightarrow> byte list \<Rightarrow> u32 list" where
  "poly1305_inner acc r buf =
     (if length buf = 0 then acc
      else
        let buf = (if length buf < 16 then buf @ replicate (16 - length buf) 0 else buf)
        in poly1305_inner (reduce_w (mul_r (add_block acc buf) r)) r (drop 16 buf))"
  by auto
termination
  by (relation "measure (\<lambda>(acc, r, buf). length buf)") auto

declare poly1305_inner.simps [simp del]

definition clamp :: "byte list \<Rightarrow> u32 list" where
  "clamp pkey =
     [br_dec32le pkey AND 0x03FFFFFF,
      drop_bit 2 (br_dec32le (drop 3 pkey)) AND 0x03FFFF03,
      drop_bit 4 (br_dec32le (drop 6 pkey)) AND 0x03FFC0FF,
      drop_bit 6 (br_dec32le (drop 9 pkey)) AND 0x03F03FFF,
      drop_bit 8 (br_dec32le (drop 12 pkey)) AND 0x000FFFFF]"

text \<open>The loops of the final reduction, over the array and the carry.\<close>

definition carry_at :: "nat \<Rightarrow> u32 list \<times> u32 \<Rightarrow> u32 list \<times> u32" where
  "carry_at i v =
     (let (acc, cc) = v; j = (if i \<ge> 5 then i - 5 else i);
          acc = acc[j := acc ! j + cc];
          cc = drop_bit 26 (acc ! j);
          acc = acc[j := acc ! j AND 0x03FFFFFF]
      in (acc, cc))"

definition last_carries :: "u32 list \<Rightarrow> u32 list" where
  "last_carries acc = fst (fold carry_at [1..<7] (acc, 0))"

definition select_at :: "u32 \<Rightarrow> nat \<Rightarrow> u32 list \<times> u32 \<Rightarrow> u32 list \<times> u32" where
  "select_at ctl i v =
     (let (acc, cc) = v; t = acc ! i + cc; cc = drop_bit 26 t; t = t AND 0x03FFFFFF
      in (acc[i := MUX ctl t (acc ! i)], cc))"

definition last_reduction :: "u32 list \<Rightarrow> u32 list" where
  "last_reduction acc =
     (let ctl = GT (acc ! 0) 0x03FFFFFA;
          ctl = fold (\<lambda>i ctl. ctl AND EQ (acc ! i) 0x03FFFFFF) [1..<5] ctl
      in fst (fold (select_at ctl) [0..<5] (acc, 5)))"

definition poly1305_tag :: "u32 list \<Rightarrow> byte list \<Rightarrow> byte list" where
  "poly1305_tag acc pkey =
     (let w = ucast (acc ! 0) + push_bit 26 (ucast (acc ! 1)) + ucast (br_dec32le (drop 16 pkey)) :: u64;
          t0 = br_enc32le (ucast w);
          w = drop_bit 32 w + push_bit 20 (ucast (acc ! 2)) + ucast (br_dec32le (drop 20 pkey));
          t1 = br_enc32le (ucast w);
          w = drop_bit 32 w + push_bit 14 (ucast (acc ! 3)) + ucast (br_dec32le (drop 24 pkey));
          t2 = br_enc32le (ucast w);
          hi = ucast (drop_bit 32 w) + push_bit 8 (acc ! 4) + br_dec32le (drop 28 pkey);
          t3 = br_enc32le hi
      in t0 @ t1 @ t2 @ t3)"

type_synonym chacha20_run = "byte list \<Rightarrow> byte list \<Rightarrow> u32 \<Rightarrow> byte list \<Rightarrow> byte list \<times> u32"

text \<open>The data after the call, and the tag.\<close>

definition br_poly1305_ctmul_run ::
    "byte list \<Rightarrow> byte list \<Rightarrow> byte list \<Rightarrow> byte list \<Rightarrow> chacha20_run \<Rightarrow> bool \<Rightarrow> byte list \<times> byte list" where
  "br_poly1305_ctmul_run key iv data aad ichacha encrypt =
     (let pkey = fst (ichacha key iv 0 (replicate 32 0));
          data = (if encrypt then fst (ichacha key iv 1 data) else data);
          r = clamp pkey;
          acc = replicate 5 0;
          foot = br_enc64le (word_of_nat (length aad)) @ br_enc64le (word_of_nat (length data));
          acc = poly1305_inner acc r aad;
          acc = poly1305_inner acc r data;
          acc = poly1305_inner acc r foot;
          acc = last_reduction (last_carries acc);
          tag = poly1305_tag acc pkey;
          data = (if \<not> encrypt then fst (ichacha key iv 1 data) else data)
      in (data, tag))"

section \<open>RFC 8439\<close>

fun le_num :: "byte list \<Rightarrow> nat" where
  "le_num [] = 0"
| "le_num (b # bs) = unat b + 256 * le_num bs"

definition rfc_p :: nat where "rfc_p = 2 ^ 130 - 5"

definition rfc_clamp :: "nat \<Rightarrow> nat" where
  "rfc_clamp r = r AND 0x0FFFFFFC0FFFFFFC0FFFFFFC0FFFFFFF"

definition rfc_poly_block :: "nat \<Rightarrow> byte list \<Rightarrow> nat \<Rightarrow> nat" where
  "rfc_poly_block r b a = ((a + (le_num b + 2 ^ (8 * length b))) * r) mod rfc_p"

definition pad16 :: "byte list \<Rightarrow> byte list" where
  "pad16 m = m @ replicate ((16 - length m mod 16) mod 16) 0"

definition rfc_mac_data :: "byte list \<Rightarrow> byte list \<Rightarrow> byte list" where
  "rfc_mac_data aad c = pad16 aad @ pad16 c @ le_bytes 8 (length aad) @ le_bytes 8 (length c)"

definition rfc_poly1305 :: "byte list \<Rightarrow> byte list \<Rightarrow> byte list" where
  "rfc_poly1305 k m =
     (let r = rfc_clamp (le_num (take 16 k)); s = le_num (take 16 (drop 16 k));
          a = fold (rfc_poly_block r) (blocks 16 m) 0
      in le_bytes 16 ((a + s) mod 2 ^ 128))"

definition rfc_aead_tag :: "byte list \<Rightarrow> byte list \<Rightarrow> byte list \<Rightarrow> byte list \<Rightarrow> byte list" where
  "rfc_aead_tag key iv aad c = rfc_poly1305 (take 32 (rfc_chacha20_block key 0 iv)) (rfc_mac_data aad c)"

section \<open>Limbs\<close>

definition limbs :: "u32 list \<Rightarrow> nat" where
  "limbs a = unat (a ! 0) + 2 ^ 26 * unat (a ! 1) + 2 ^ 52 * unat (a ! 2) + 2 ^ 78 * unat (a ! 3) + 2 ^ 104 * unat (a ! 4)"

text \<open>What the accumulator keeps between blocks: only one limb may be a little too large.\<close>

definition acc_ok :: "u32 list \<Rightarrow> bool" where
  "acc_ok a \<longleftrightarrow> length a = 5 \<and> unat (a ! 0) < 2 ^ 26 \<and> unat (a ! 1) < 2 ^ 26 + 64 \<and> unat (a ! 2) < 2 ^ 26 \<and>
     unat (a ! 3) < 2 ^ 26 \<and> unat (a ! 4) < 2 ^ 26"

definition r_ok :: "u32 list \<Rightarrow> bool" where
  "r_ok r \<longleftrightarrow> length r = 5 \<and> unat (r ! 0) < 2 ^ 26 \<and> unat (r ! 1) < 2 ^ 26 \<and> unat (r ! 2) < 2 ^ 26 \<and>
     unat (r ! 3) < 2 ^ 26 \<and> unat (r ! 4) < 2 ^ 20"

lemma unat_add_lt: "unat x + unat y < 2 ^ LENGTH('a) \<Longrightarrow> unat (x + y) = unat x + unat (y :: 'a::len word)"
  by (simp add: unat_word_ariths take_bit_nat_eq_self)

lemma unat_mul_lt: "unat x * unat y < 2 ^ LENGTH('a) \<Longrightarrow> unat (x * y) = unat x * unat (y :: 'a::len word)"
  by (simp add: unat_word_ariths take_bit_nat_eq_self)

text \<open>A sum of five products is exact when it fits.\<close>

lemma dot_exact:
  assumes "unat x0 * unat y0 + unat x1 * unat y1 + unat x2 * unat y2 + unat x3 * unat y3 + unat x4 * unat y4 < 2 ^ 64"
  shows "unat (mul64 x0 y0 + mul64 x1 y1 + mul64 x2 y2 + mul64 x3 y3 + mul64 x4 y4) =
    unat x0 * unat y0 + unat x1 * unat y1 + unat x2 * unat y2 + unat x3 * unat y3 + unat x4 * unat y4"
proof -
  have m: "mul64 x y = word_of_nat (unat x * unat y)" for x y
    by (simp add: mul64_def)
  show ?thesis
    using assms unfolding m of_nat_add [symmetric] by (simp only: unat_of_nat) (simp add: take_bit_nat_eq_self)
qed

lemma dot_le:
  assumes "unat x0 \<le> X0" "unat y0 \<le> Y0" "unat x1 \<le> X1" "unat y1 \<le> Y1" "unat x2 \<le> X2" "unat y2 \<le> Y2"
    "unat x3 \<le> X3" "unat y3 \<le> Y3" "unat x4 \<le> X4" "unat y4 \<le> Y4"
    and "X0 * Y0 + X1 * Y1 + X2 * Y2 + X3 * Y3 + X4 * Y4 < N" and "N \<le> 2 ^ 64"
  shows "unat (mul64 x0 y0 + mul64 x1 y1 + mul64 x2 y2 + mul64 x3 y3 + mul64 x4 y4) =
      unat x0 * unat y0 + unat x1 * unat y1 + unat x2 * unat y2 + unat x3 * unat y3 + unat x4 * unat y4"
    and "unat (mul64 x0 y0 + mul64 x1 y1 + mul64 x2 y2 + mul64 x3 y3 + mul64 x4 y4) < N"
proof -
  have "unat x0 * unat y0 + unat x1 * unat y1 + unat x2 * unat y2 + unat x3 * unat y3 + unat x4 * unat y4 \<le>
      X0 * Y0 + X1 * Y1 + X2 * Y2 + X3 * Y3 + X4 * Y4"
    using assms(1-10) by (intro add_mono mult_le_mono)
  then have l: "unat x0 * unat y0 + unat x1 * unat y1 + unat x2 * unat y2 + unat x3 * unat y3 + unat x4 * unat y4 < N"
    using assms(11) by simp
  then show "unat (mul64 x0 y0 + mul64 x1 y1 + mul64 x2 y2 + mul64 x3 y3 + mul64 x4 y4) =
      unat x0 * unat y0 + unat x1 * unat y1 + unat x2 * unat y2 + unat x3 * unat y3 + unat x4 * unat y4"
    using assms(12) by (intro dot_exact) simp
  then show "unat (mul64 x0 y0 + mul64 x1 y1 + mul64 x2 y2 + mul64 x3 y3 + mul64 x4 y4) < N" using l by simp
qed

lemma low26: "unat ((x :: u32) AND 0x3FFFFFF) = unat x mod 2 ^ 26"
proof -
  have "(0x3FFFFFF :: u32) = mask 26" by (simp add: mask_numeral)
  then have "x AND 0x3FFFFFF = take_bit 26 x" by (simp add: take_bit_eq_mask)
  then show ?thesis by (simp only: unsigned_take_bit_eq) (simp add: take_bit_eq_mod)
qed

lemma ucast_low26: "unat (ucast (w :: u64) :: u32) mod 2 ^ 26 = unat w mod 2 ^ 26"
proof -
  have "unat (ucast w :: u32) = unat w mod 2 ^ 32" by (simp add: unsigned_ucast_eq take_bit_eq_mod)
  then show ?thesis by (simp add: mod_mod_cancel)
qed

lemma low26_u64: "unat ((ucast (w :: u64) :: u32) AND 0x3FFFFFF) = unat w mod 2 ^ 26"
  by (simp only: low26 ucast_low26)

lemma high26: "unat (drop_bit 26 w) = unat (w :: 'a::len word) div 2 ^ 26"
  by (rule unat_drop_bit)

definition sum_ok :: "u32 list \<Rightarrow> bool" where
  "sum_ok a \<longleftrightarrow> unat (a ! 0) < 2 ^ 27 \<and> unat (a ! 1) < 2 ^ 27 + 64 \<and> unat (a ! 2) < 2 ^ 27 \<and>
     unat (a ! 3) < 2 ^ 27 \<and> unat (a ! 4) < 2 ^ 26 + 2 ^ 25"

text \<open>The five words of a product, and that it is the product modulo \<open>2 ^ 130 - 5\<close>.\<close>

lemma mul_r_exact:
  assumes "sum_ok a" and "r_ok r"
  shows "let A = \<lambda>i. unat (a ! i); R = \<lambda>i. unat (r ! i); W = \<lambda>i. unat (mul_r a r ! i)
     in W 0 = A 0 * R 0 + A 1 * (R 4 * 5) + A 2 * (R 3 * 5) + A 3 * (R 2 * 5) + A 4 * (R 1 * 5) \<and> W 0 < 2 ^ 58 \<and>
        W 1 = A 0 * R 1 + A 1 * R 0 + A 2 * (R 4 * 5) + A 3 * (R 3 * 5) + A 4 * (R 2 * 5) \<and> W 1 < 2 ^ 58 \<and>
        W 2 = A 0 * R 2 + A 1 * R 1 + A 2 * R 0 + A 3 * (R 4 * 5) + A 4 * (R 3 * 5) \<and> W 2 < 2 ^ 58 \<and>
        W 3 = A 0 * R 3 + A 1 * R 2 + A 2 * R 1 + A 3 * R 0 + A 4 * (R 4 * 5) \<and> W 3 < 2 ^ 58 \<and>
        W 4 = A 0 * R 4 + A 1 * R 3 + A 2 * R 2 + A 3 * R 1 + A 4 * R 0 \<and> W 4 < 2 ^ 55"
proof -
  have u: "unat (r ! 1 * 5) = unat (r ! 1) * 5" "unat (r ! 2 * 5) = unat (r ! 2) * 5"
    "unat (r ! 3 * 5) = unat (r ! 3) * 5" "unat (r ! 4 * 5) = unat (r ! 4) * 5"
    using assms(2) by (auto simp: r_ok_def intro!: trans [OF unat_mul_lt])
  have A: "unat (a ! 0) \<le> 2 ^ 27" "unat (a ! 1) \<le> 2 ^ 27 + 64" "unat (a ! 2) \<le> 2 ^ 27" "unat (a ! 3) \<le> 2 ^ 27"
    "unat (a ! 4) \<le> 2 ^ 26 + 2 ^ 25" using assms(1) by (simp_all add: sum_ok_def)
  have R: "unat (r ! 0) \<le> 2 ^ 26" "unat (r ! 1) \<le> 2 ^ 26" "unat (r ! 2) \<le> 2 ^ 26" "unat (r ! 3) \<le> 2 ^ 26"
    "unat (r ! 4) \<le> 2 ^ 20" using assms(2) by (simp_all add: r_ok_def)
  have U: "unat (r ! 1 * 5) \<le> 2 ^ 26 * 5" "unat (r ! 2 * 5) \<le> 2 ^ 26 * 5" "unat (r ! 3 * 5) \<le> 2 ^ 26 * 5"
    "unat (r ! 4 * 5) \<le> 2 ^ 20 * 5" using R unfolding u by simp_all
  note w0 = dot_le [OF A(1) R(1) A(2) U(4) A(3) U(3) A(4) U(2) A(5) U(1), of "2 ^ 58"]
  note w1 = dot_le [OF A(1) R(2) A(2) R(1) A(3) U(4) A(4) U(3) A(5) U(2), of "2 ^ 58"]
  note w2 = dot_le [OF A(1) R(3) A(2) R(2) A(3) R(1) A(4) U(4) A(5) U(3), of "2 ^ 58"]
  note w3 = dot_le [OF A(1) R(4) A(2) R(3) A(3) R(2) A(4) R(1) A(5) U(4), of "2 ^ 58"]
  note w4 = dot_le [OF A(1) R(5) A(2) R(4) A(3) R(3) A(4) R(2) A(5) R(1), of "2 ^ 55"]
  have nths: "mul_r a r ! 0 = mul64 (a ! 0) (r ! 0) + mul64 (a ! 1) (r ! 4 * 5) + mul64 (a ! 2) (r ! 3 * 5) + mul64 (a ! 3) (r ! 2 * 5) + mul64 (a ! 4) (r ! 1 * 5)"
    "mul_r a r ! 1 = mul64 (a ! 0) (r ! 1) + mul64 (a ! 1) (r ! 0) + mul64 (a ! 2) (r ! 4 * 5) + mul64 (a ! 3) (r ! 3 * 5) + mul64 (a ! 4) (r ! 2 * 5)"
    "mul_r a r ! 2 = mul64 (a ! 0) (r ! 2) + mul64 (a ! 1) (r ! 1) + mul64 (a ! 2) (r ! 0) + mul64 (a ! 3) (r ! 4 * 5) + mul64 (a ! 4) (r ! 3 * 5)"
    "mul_r a r ! 3 = mul64 (a ! 0) (r ! 3) + mul64 (a ! 1) (r ! 2) + mul64 (a ! 2) (r ! 1) + mul64 (a ! 3) (r ! 0) + mul64 (a ! 4) (r ! 4 * 5)"
    "mul_r a r ! 4 = mul64 (a ! 0) (r ! 4) + mul64 (a ! 1) (r ! 3) + mul64 (a ! 2) (r ! 2) + mul64 (a ! 3) (r ! 1) + mul64 (a ! 4) (r ! 0)"
    by (simp_all add: mul_r_def Let_def)
  show ?thesis
    unfolding Let_def nths using w0 w1 w2 w3 w4 unfolding u by simp
qed

lemma carry_sum:
  fixes W0 W1 W2 W3 W4 :: nat
  assumes "W0 = 2 ^ 26 * c0 + b0" and "W1 + c0 = 2 ^ 26 * c1 + b1" and "W2 + c1 = 2 ^ 26 * c2 + b2"
    and "W3 + c2 = 2 ^ 26 * c3 + b3" and "W4 + c3 = 2 ^ 26 * c + b4" and "b0 + 5 * c = 2 ^ 26 * q + d0"
  shows "d0 + 2 ^ 26 * (b1 + q) + 2 ^ 52 * b2 + 2 ^ 78 * b3 + 2 ^ 104 * b4 + 2 ^ 130 * c =
    W0 + 2 ^ 26 * W1 + 2 ^ 52 * W2 + 2 ^ 78 * W3 + 2 ^ 104 * W4 + 5 * c"
  using assms by simp

text \<open>The carries keep the value, but for multiples of \<open>2 ^ 130 - 5\<close>.\<close>

lemma reduce_w_value:
  assumes "length w = 5" and "\<And>i. i < 4 \<Longrightarrow> unat (w ! i) < 2 ^ 58" and "unat (w ! 4) < 2 ^ 55"
  shows "acc_ok (reduce_w w)"
    and "\<exists>c. limbs (reduce_w w) + 2 ^ 130 * c =
      unat (w ! 0) + 2 ^ 26 * unat (w ! 1) + 2 ^ 52 * unat (w ! 2) + 2 ^ 78 * unat (w ! 3) + 2 ^ 104 * unat (w ! 4) + 5 * c"
proof -
  let ?M = "2 ^ 26 :: nat"
  define v1 where "v1 = w ! 1 + drop_bit 26 (w ! 0)"
  define v2 where "v2 = w ! 2 + drop_bit 26 v1"
  define v3 where "v3 = w ! 3 + drop_bit 26 v2"
  define v4 where "v4 = w ! 4 + drop_bit 26 v3"
  define c where "c = unat v4 div ?M"
  define a0 where "a0 = ((ucast (w ! 0) :: u32) AND 0x3FFFFFF) + ucast (drop_bit 26 v4) * 5"
  have e: "reduce_w w = [a0 AND 0x3FFFFFF, (ucast v1 AND 0x3FFFFFF) + drop_bit 26 a0, ucast v2 AND 0x3FFFFFF,
      ucast v3 AND 0x3FFFFFF, ucast v4 AND 0x3FFFFFF]"
    by (simp add: reduce_w_def Let_def v1_def v2_def v3_def v4_def a0_def)
  have nths: "reduce_w w ! 0 = a0 AND 0x3FFFFFF" "reduce_w w ! 1 = (ucast v1 AND 0x3FFFFFF) + drop_bit 26 a0"
    "reduce_w w ! 2 = ucast v2 AND 0x3FFFFFF" "reduce_w w ! 3 = ucast v3 AND 0x3FFFFFF" "reduce_w w ! 4 = ucast v4 AND 0x3FFFFFF"
    by (simp_all add: e)
  have W: "unat (w ! 0) < 2 ^ 58" "unat (w ! 1) < 2 ^ 58" "unat (w ! 2) < 2 ^ 58" "unat (w ! 3) < 2 ^ 58"
    using assms(2) by simp_all
  have v1: "unat v1 = unat (w ! 1) + unat (w ! 0) div ?M" "unat v1 < 2 ^ 59"
    unfolding v1_def using W by (simp_all add: unat_add_lt high26)
  have v2: "unat v2 = unat (w ! 2) + unat v1 div ?M" "unat v2 < 2 ^ 59"
    unfolding v2_def using W v1(2) by (simp_all add: unat_add_lt high26)
  have v3: "unat v3 = unat (w ! 3) + unat v2 div ?M" "unat v3 < 2 ^ 59"
    unfolding v3_def using W v2(2) by (simp_all add: unat_add_lt high26)
  have v4: "unat v4 = unat (w ! 4) + unat v3 div ?M" "unat v4 < 2 ^ 55 + 2 ^ 33"
    unfolding v4_def using assms(3) v3(2) by (simp_all add: unat_add_lt high26)
  have c: "c \<le> 2 ^ 29 + 2 ^ 7" using v4(2) unfolding c_def by simp
  have "unat (drop_bit 26 v4) = c" by (simp add: high26 c_def)
  then have "unat (ucast (drop_bit 26 v4) :: u32) = c"
    using c by (simp add: unsigned_ucast_eq take_bit_nat_eq_self)
  then have a5: "unat ((ucast (drop_bit 26 v4) :: u32) * 5) = 5 * c" using c by (simp add: unat_mul_lt)
  have m: "unat (w ! 0) mod ?M < ?M" by simp
  have a0: "unat a0 = unat (w ! 0) mod ?M + 5 * c"
    unfolding a0_def using c m by (subst unat_add_lt) (simp_all add: a5 low26_u64)
  have q: "unat a0 div ?M < 64" unfolding a0 using c m by simp
  have m1: "unat v1 mod ?M < ?M" by simp
  have a1: "unat ((ucast v1 :: u32) AND 0x3FFFFFF) + unat a0 div ?M < ?M + 64"
    unfolding low26_u64 using q m1 by linarith
  then have s1: "unat ((ucast v1 AND 0x3FFFFFF) + drop_bit 26 a0) = unat v1 mod ?M + unat a0 div ?M"
    by (subst unat_add_lt) (simp_all add: high26 low26_u64)
  show "acc_ok (reduce_w w)"
    unfolding acc_ok_def e using a1 [unfolded low26_u64] by (simp add: s1 low26 ucast_low26 [simplified])
  have "limbs (reduce_w w) = unat a0 mod ?M + ?M * (unat v1 mod ?M + unat a0 div ?M) + 2 ^ 52 * (unat v2 mod ?M) +
      2 ^ 78 * (unat v3 mod ?M) + 2 ^ 104 * (unat v4 mod ?M)"
    unfolding limbs_def nths s1 low26 ucast_low26 ..
  moreover have "unat a0 mod ?M + ?M * (unat v1 mod ?M + unat a0 div ?M) + 2 ^ 52 * (unat v2 mod ?M) +
      2 ^ 78 * (unat v3 mod ?M) + 2 ^ 104 * (unat v4 mod ?M) + 2 ^ 130 * c =
      unat (w ! 0) + 2 ^ 26 * unat (w ! 1) + 2 ^ 52 * unat (w ! 2) + 2 ^ 78 * unat (w ! 3) + 2 ^ 104 * unat (w ! 4) + 5 * c"
    by (rule carry_sum [where ?c0.0 = "unat (w ! 0) div ?M" and ?c1.0 = "unat v1 div ?M" and ?c2.0 = "unat v2 div ?M"
          and ?c3.0 = "unat v3 div ?M" and ?b0.0 = "unat (w ! 0) mod ?M"])
       (simp_all only: c_def v1(1) [symmetric] v2(1) [symmetric] v3(1) [symmetric] v4(1) [symmetric] a0 [unfolded c_def, symmetric]
          mult_div_mod_eq)
  ultimately have "limbs (reduce_w w) + 2 ^ 130 * c =
      unat (w ! 0) + 2 ^ 26 * unat (w ! 1) + 2 ^ 52 * unat (w ! 2) + 2 ^ 78 * unat (w ! 3) + 2 ^ 104 * unat (w ! 4) + 5 * c"
    by (simp only:)
  then show "\<exists>c. limbs (reduce_w w) + 2 ^ 130 * c =
      unat (w ! 0) + 2 ^ 26 * unat (w ! 1) + 2 ^ 52 * unat (w ! 2) + 2 ^ 78 * unat (w ! 3) + 2 ^ 104 * unat (w ! 4) + 5 * c"
    by blast
qed

lemma product_split:
  fixes A0 A1 A2 A3 A4 R0 R1 R2 R3 R4 :: nat
  defines "K \<equiv> A1 * R4 + A2 * R3 + A3 * R2 + A4 * R1 + 2 ^ 26 * (A2 * R4 + A3 * R3 + A4 * R2) +
    2 ^ 52 * (A3 * R4 + A4 * R3) + 2 ^ 78 * (A4 * R4)"
  shows "(A0 + 2 ^ 26 * A1 + 2 ^ 52 * A2 + 2 ^ 78 * A3 + 2 ^ 104 * A4) *
      (R0 + 2 ^ 26 * R1 + 2 ^ 52 * R2 + 2 ^ 78 * R3 + 2 ^ 104 * R4) + 5 * K =
    (A0 * R0 + A1 * (R4 * 5) + A2 * (R3 * 5) + A3 * (R2 * 5) + A4 * (R1 * 5)) +
    2 ^ 26 * (A0 * R1 + A1 * R0 + A2 * (R4 * 5) + A3 * (R3 * 5) + A4 * (R2 * 5)) +
    2 ^ 52 * (A0 * R2 + A1 * R1 + A2 * R0 + A3 * (R4 * 5) + A4 * (R3 * 5)) +
    2 ^ 78 * (A0 * R3 + A1 * R2 + A2 * R1 + A3 * R0 + A4 * (R4 * 5)) +
    2 ^ 104 * (A0 * R4 + A1 * R3 + A2 * R2 + A3 * R1 + A4 * R0) + 2 ^ 130 * K"
  unfolding K_def by (simp add: algebra_simps)

lemma mul_reduce:
  assumes "sum_ok a" and "r_ok r"
  shows "acc_ok (reduce_w (mul_r a r))" and "limbs (reduce_w (mul_r a r)) mod rfc_p = limbs a * limbs r mod rfc_p"
proof -
  let ?w = "mul_r a r" and ?A = "\<lambda>i. unat (a ! i)" and ?R = "\<lambda>i. unat (r ! i)"
  let ?W = "unat (?w ! 0) + 2 ^ 26 * unat (?w ! 1) + 2 ^ 52 * unat (?w ! 2) + 2 ^ 78 * unat (?w ! 3) + 2 ^ 104 * unat (?w ! 4)"
  note W = mul_r_exact [OF assms, unfolded Let_def]
  have l: "length ?w = 5" by (simp add: mul_r_def Let_def)
  have "unat (?w ! 0) < 2 ^ 58" "unat (?w ! 1) < 2 ^ 58" "unat (?w ! 2) < 2 ^ 58" "unat (?w ! 3) < 2 ^ 58"
    using W by blast+
  moreover have "i = 0 \<or> i = 1 \<or> i = 2 \<or> i = 3" if "i < 4" for i :: nat using that by linarith
  ultimately have b: "unat (?w ! i) < 2 ^ 58" if "i < 4" for i using that by metis
  have b4: "unat (?w ! 4) < 2 ^ 55" using W by blast
  show "acc_ok (reduce_w ?w)" by (rule reduce_w_value(1) [OF l b b4])
  obtain c where c: "limbs (reduce_w ?w) + 2 ^ 130 * c = ?W + 5 * c" using reduce_w_value(2) [OF l b b4] by blast
  obtain K where K: "limbs a * limbs r + 5 * K = ?W + 2 ^ 130 * K"
    using product_split [of "?A 0" "?A 1" "?A 2" "?A 3" "?A 4" "?R 0" "?R 1" "?R 2" "?R 3" "?R 4"] W
    unfolding limbs_def by metis
  have p: "2 ^ 130 * x = rfc_p * x + 5 * x" for x by (simp add: rfc_p_def)
  have "limbs a * limbs r = ?W + rfc_p * K" using K p [of K] by linarith
  moreover have "?W = limbs (reduce_w ?w) + rfc_p * c" using c p [of c] by linarith
  ultimately have "limbs a * limbs r = limbs (reduce_w ?w) + rfc_p * (c + K)" by (simp only: distrib_left add.assoc)
  then show "limbs (reduce_w ?w) mod rfc_p = limbs a * limbs r mod rfc_p" by simp
qed

section \<open>Blocks\<close>

lemma le_num_bound: "le_num b < 256 ^ length b"
proof (induction b)
  case (Cons x b)
  have "unat x < 256" using unsigned_less [of x, where 'a = nat] by simp
  then show ?case using Cons.IH by simp
qed simp

lemma le_num_append: "le_num (a @ b) = le_num a + 256 ^ length a * le_num b"
  by (induction a) (simp_all add: algebra_simps)

lemma le_num_take: "le_num (take n b) = le_num b mod 256 ^ n"
proof (cases "n \<le> length b")
  case True
  then show ?thesis
    using le_num_append [of "take n b" "drop n b"] le_num_bound [of "take n b"] by simp
next
  case False
  then have "(256 :: nat) ^ length b \<le> 256 ^ n" by (intro power_increasing) auto
  then have "le_num b < 256 ^ n" by (rule less_le_trans [OF le_num_bound])
  then show ?thesis using False by simp
qed

lemma le_num_drop: "le_num (drop n b) = le_num b div 256 ^ n"
proof (cases "n \<le> length b")
  case True
  then show ?thesis
    using le_num_append [of "take n b" "drop n b"] le_num_bound [of "take n b"] by simp
next
  case False
  then have "(256 :: nat) ^ length b \<le> 256 ^ n" by (intro power_increasing) auto
  then have "le_num b < 256 ^ n" by (rule less_le_trans [OF le_num_bound])
  then show ?thesis using False by simp
qed

lemma le_num_zeros: "le_num (b @ replicate n 0) = le_num b"
  by (induction n) (simp_all add: le_num_append replicate_app_Cons_same)

lemma octet_u32: "unat (ucast (b :: byte) :: u32) = unat b"
proof -
  have "unat b < 2 ^ 32" using unsigned_less [of b, where 'a = nat] by simp
  then show ?thesis by (simp add: unsigned_ucast_eq take_bit_nat_eq_self)
qed

lemma or_octet:
  assumes "unat x < 2 ^ 24"
  shows "unat ((ucast (b :: byte) :: u32) OR push_bit 8 x) = unat b + 256 * unat x"
proof -
  have "(ucast b :: u32) AND push_bit 8 x = 0"
    by (rule bit_word_eqI) (auto simp: bit_and_iff bit_push_bit_iff bit_unsigned_iff dest: bit_imp_le_length)
  then have "(ucast b :: u32) OR push_bit 8 x = ucast b + 256 * x"
    by (simp add: disjunctive_add_eq_or push_bit_eq_mult mult.commute)
  moreover have "unat b < 256" using unsigned_less [of b, where 'a = nat] by simp
  ultimately show ?thesis using assms by (simp add: unat_add_lt unat_mul_lt octet_u32)
qed

lemma unat_dec32le:
  assumes "4 \<le> length b"
  shows "unat (br_dec32le b) = le_num b mod 2 ^ 32"
proof -
  obtain b0 b1 b2 b3 r where b: "b = b0 # b1 # b2 # b3 # r"
    using assms by (auto simp: numeral_eq_Suc Suc_le_length_iff)
  define x2 :: u32 where "x2 = ucast b2 OR push_bit 8 (ucast b3)"
  define x1 :: u32 where "x1 = ucast b1 OR push_bit 8 x2"
  have e: "br_dec32le b = ucast b0 OR push_bit 8 x1"
    by (simp add: b br_dec32le_def x1_def x2_def push_bit_or push_bit_push_bit or.assoc)
  have l: "unat b0 < 256" "unat b1 < 256" "unat b2 < 256" "unat b3 < 256"
    using unsigned_less [where 'b = 8 and 'a = nat] by simp_all
  have 2: "unat x2 = unat b2 + 256 * unat b3"
    using l or_octet [of "ucast b3" b2] by (simp add: octet_u32 flip: x2_def)
  have 1: "unat x1 = unat b1 + 256 * (unat b2 + 256 * unat b3)"
    using l or_octet [of x2 b1] by (simp add: 2 flip: x1_def)
  have "unat (br_dec32le b) = unat b0 + 256 * (unat b1 + 256 * (unat b2 + 256 * unat b3))"
    using l or_octet [of x1 b0] by (simp add: 1 e)
  moreover have "le_num (take 4 b) = unat b0 + 256 * (unat b1 + 256 * (unat b2 + 256 * unat b3))"
    by (simp add: b)
  ultimately show ?thesis using le_num_take [of 4 b] by simp
qed

text \<open>A group of 26 bits, and the top ones with the marker.\<close>

lemma limb_of_block:
  assumes "4 + i \<le> length b" and "26 + j \<le> 32"
  shows "unat (drop_bit j (br_dec32le (drop i b)) AND 0x3FFFFFF) = le_num b div 2 ^ (8 * i + j) mod 2 ^ 26"
proof -
  have m: "min 26 (32 - j) = 26" using assms(2) by simp
  have "(256 :: nat) ^ i = 2 ^ (8 * i)" by (simp add: power_mult)
  then have "unat (br_dec32le (drop i b)) = take_bit 32 (drop_bit (8 * i) (le_num b))"
    using assms(1) by (simp add: unat_dec32le le_num_drop take_bit_eq_mod drop_bit_eq_div)
  then have "unat (drop_bit j (br_dec32le (drop i b)) AND 0x3FFFFFF) =
      take_bit 26 (drop_bit j (take_bit 32 (drop_bit (8 * i) (le_num b))))"
    by (simp only: low26 unat_drop_bit) (simp add: take_bit_eq_mod drop_bit_eq_div)
  also have "\<dots> = take_bit 26 (drop_bit (8 * i + j) (le_num b))"
    using m by (simp add: drop_bit_take_bit add.commute)
  finally show ?thesis by (simp add: take_bit_eq_mod drop_bit_eq_div)
qed

lemma top_of_block:
  assumes "length b = 16"
  shows "unat (drop_bit 8 (br_dec32le (drop 12 b)) OR 0x01000000) = le_num b div 2 ^ 104 + 2 ^ 24"
proof -
  let ?x = "drop_bit 8 (br_dec32le (drop 12 b))"
  have "le_num b < 2 ^ 128" using le_num_bound [of b] assms by simp
  then have l: "le_num b div 2 ^ 96 < 2 ^ 32" by (simp add: less_mult_imp_div_less)
  have "unat (br_dec32le (drop 12 b)) = le_num b div 2 ^ 96"
    using assms l by (simp add: unat_dec32le le_num_drop)
  then have x: "unat ?x = le_num b div 2 ^ 104" by (simp add: unat_drop_bit flip: div_mult2_eq)
  have "?x AND 2 ^ 24 = 0"
    by (rule bit_word_eqI) (simp only: bit_and_iff bit_exp_iff bit_drop_bit_eq bit_0_eq bot_apply, auto dest: bit_imp_le_length)
  then have "?x AND 0x01000000 = 0" by simp
  then have "?x OR 0x01000000 = ?x + 0x01000000" by (simp add: disjunctive_add_eq_or)
  moreover have "le_num b div 2 ^ 104 < 2 ^ 24" using \<open>le_num b < 2 ^ 128\<close> by (simp add: less_mult_imp_div_less)
  ultimately show ?thesis using x by (simp add: unat_add_lt)
qed

text \<open>A number of 128 bits and its groups.\<close>

lemma groups_join:
  fixes n :: nat
  assumes "n = 2 ^ 26 * q1 + r0" and "q1 = 2 ^ 26 * q2 + r1" and "q2 = 2 ^ 26 * q3 + r2" and "q3 = 2 ^ 26 * q4 + r3"
  shows "r0 + 2 ^ 26 * r1 + 2 ^ 52 * r2 + 2 ^ 78 * r3 + 2 ^ 104 * q4 = n"
  using assms by simp

lemma groups_sum:
  "n mod 2 ^ 26 + 2 ^ 26 * (n div 2 ^ 26 mod 2 ^ 26) + 2 ^ 52 * (n div 2 ^ 52 mod 2 ^ 26) +
     2 ^ 78 * (n div 2 ^ 78 mod 2 ^ 26) + 2 ^ 104 * (n div 2 ^ 104) = (n :: nat)"
proof -
  define q1 q2 q3 q4 where q: "q1 = n div 2 ^ 26" "q2 = q1 div 2 ^ 26" "q3 = q2 div 2 ^ 26" "q4 = q3 div 2 ^ 26"
  have d: "n div 2 ^ 52 = q2" "n div 2 ^ 78 = q3" "n div 2 ^ 104 = q4"
    by (simp_all add: q flip: div_mult2_eq)
  show ?thesis
    unfolding d q(1) [symmetric]
    by (rule groups_join [where ?q3.0 = q3 and ?q2.0 = q2 and ?q1.0 = q1]) (simp_all only: q mult_div_mod_eq)
qed

lemma limbs_join:
  fixes a0 a1 a2 a3 a4 x0 x1 x2 x3 x4 :: nat
  shows "a0 + x0 + 2 ^ 26 * (a1 + x1) + 2 ^ 52 * (a2 + x2) + 2 ^ 78 * (a3 + x3) + 2 ^ 104 * (a4 + (x4 + 2 ^ 24)) =
    a0 + 2 ^ 26 * a1 + 2 ^ 52 * a2 + 2 ^ 78 * a3 + 2 ^ 104 * a4 +
    ((x0 + 2 ^ 26 * x1 + 2 ^ 52 * x2 + 2 ^ 78 * x3 + 2 ^ 104 * x4) + 2 ^ 128)"
  by simp

lemma add_mod_bound: "x < k \<Longrightarrow> x + y mod 2 ^ 26 < k + 2 ^ 26" for x y k :: nat
  by (rule add_strict_mono) simp_all

lemma add_block_value:
  assumes "acc_ok a" and "length b = 16"
  shows "sum_ok (add_block a b)" and "limbs (add_block a b) = limbs a + (le_num b + 2 ^ 128)"
proof -
  let ?N = "le_num b" and ?x = "\<lambda>i j. drop_bit j (br_dec32le (drop i b)) AND 0x3FFFFFF"
  have n: "?N < 2 ^ 128" using le_num_bound [of b] assms(2) by simp
  then have n4: "?N div 2 ^ 104 < 2 ^ 24" by (simp add: less_mult_imp_div_less)
  have x: "unat (?x 3 2) = ?N div 2 ^ 26 mod 2 ^ 26" "unat (?x 6 4) = ?N div 2 ^ 52 mod 2 ^ 26"
    "unat (?x 9 6) = ?N div 2 ^ 78 mod 2 ^ 26"
    using limb_of_block [of 3 b 2] limb_of_block [of 6 b 4] limb_of_block [of 9 b 6] assms(2) by simp_all
  have x0: "unat (br_dec32le b AND 0x3FFFFFF) = ?N mod 2 ^ 26" using limb_of_block [of 0 b 0] assms(2) by simp
  note x4 = top_of_block [OF assms(2)]
  have m: "m mod 2 ^ 26 < 2 ^ 26" for m :: nat by simp
  have A: "unat (a ! 0) < 2 ^ 26" "unat (a ! 1) < 2 ^ 26 + 64" "unat (a ! 2) < 2 ^ 26" "unat (a ! 3) < 2 ^ 26" "unat (a ! 4) < 2 ^ 26"
    using assms(1) by (simp_all add: acc_ok_def)
  have s0: "unat (a ! 0 + (br_dec32le b AND 0x3FFFFFF)) = unat (a ! 0) + ?N mod 2 ^ 26"
    using A(1) m [of ?N] by (subst unat_add_lt) (simp_all only: x0, simp)
  have s1: "unat (a ! 1 + ?x 3 2) = unat (a ! 1) + ?N div 2 ^ 26 mod 2 ^ 26"
    using A(2) m [of "?N div 2 ^ 26"] by (subst unat_add_lt) (simp_all only: x, simp)
  have s2: "unat (a ! 2 + ?x 6 4) = unat (a ! 2) + ?N div 2 ^ 52 mod 2 ^ 26"
    using A(3) m [of "?N div 2 ^ 52"] by (subst unat_add_lt) (simp_all only: x, simp)
  have s3: "unat (a ! 3 + ?x 9 6) = unat (a ! 3) + ?N div 2 ^ 78 mod 2 ^ 26"
    using A(4) m [of "?N div 2 ^ 78"] by (subst unat_add_lt) (simp_all only: x, simp)
  have s4: "unat (a ! 4 + (drop_bit 8 (br_dec32le (drop 12 b)) OR 0x01000000)) = unat (a ! 4) + (?N div 2 ^ 104 + 2 ^ 24)"
    using A(5) n4 by (subst unat_add_lt) (simp_all only: x4, simp)
  have nths: "add_block a b ! 0 = a ! 0 + (br_dec32le b AND 0x3FFFFFF)" "add_block a b ! 1 = a ! 1 + ?x 3 2"
    "add_block a b ! 2 = a ! 2 + ?x 6 4" "add_block a b ! 3 = a ! 3 + ?x 9 6"
    "add_block a b ! 4 = a ! 4 + (drop_bit 8 (br_dec32le (drop 12 b)) OR 0x01000000)"
    by (simp_all add: add_block_def)
  show "sum_ok (add_block a b)"
    unfolding sum_ok_def nths s0 s1 s2 s3 s4
    using n4 A(5) add_mod_bound [OF A(1), of ?N] add_mod_bound [OF A(2), of "?N div 2 ^ 26"]
      add_mod_bound [OF A(3), of "?N div 2 ^ 52"] add_mod_bound [OF A(4), of "?N div 2 ^ 78"] by simp
  show "limbs (add_block a b) = limbs a + (?N + 2 ^ 128)"
    unfolding limbs_def nths s0 s1 s2 s3 s4 limbs_join groups_sum ..
qed

lemma block_step:
  assumes "acc_ok a" and "r_ok r" and "length b = 16"
  shows "acc_ok (reduce_w (mul_r (add_block a b) r))"
    and "limbs (reduce_w (mul_r (add_block a b) r)) mod rfc_p = rfc_poly_block (limbs r) b (limbs a mod rfc_p)"
  using mul_reduce [OF add_block_value(1) [OF assms(1,3)] assms(2)] add_block_value(2) [OF assms(1,3)] assms(3)
    mod_mult_left_eq [of "limbs a mod rfc_p + (le_num b + 2 ^ 128)" rfc_p "limbs r"]
    mod_mult_left_eq [of "limbs a + (le_num b + 2 ^ 128)" rfc_p "limbs r"]
  by (simp_all add: rfc_poly_block_def mod_add_left_eq)

lemma blocks_pad16:
  assumes "m \<noteq> []"
  shows "blocks 16 (pad16 m) =
    take 16 (if length m < 16 then m @ replicate (16 - length m) 0 else m) # blocks 16 (pad16 (drop 16 m))"
proof (cases "length m < 16")
  case True
  then show ?thesis using assms blocks_one [of "m @ replicate (16 - length m) 0" 16] by (simp add: pad16_def)
next
  case False
  then have "pad16 m = take 16 m @ pad16 (drop 16 m)" by (simp add: pad16_def le_mod_geq flip: append_assoc)
  then show ?thesis using False blocks_Cons [of "take 16 m" 16 "pad16 (drop 16 m)"] by simp
qed

lemma poly1305_inner_value:
  assumes "acc_ok acc" and "r_ok r"
  shows "acc_ok (poly1305_inner acc r m) \<and>
    limbs (poly1305_inner acc r m) mod rfc_p = fold (rfc_poly_block (limbs r)) (blocks 16 (pad16 m)) (limbs acc mod rfc_p)"
  using assms(1)
proof (induction "length m" arbitrary: m acc rule: less_induct)
  case less
  show ?case
  proof (cases "m = []")
    case False
    define b where "b = (if length m < 16 then m @ replicate (16 - length m) 0 else m)"
    have l: "length (take 16 b) = 16" by (simp add: b_def)
    have d: "drop 16 b = drop 16 m" by (simp add: b_def)
    have a: "add_block acc b = add_block acc (take 16 b)"
      by (simp add: add_block_def br_dec32le_def b_def)
    note s = block_step [OF less.prems assms(2) l]
    have "length (drop 16 m) < length m" using False by (cases m) auto
    from less.hyps [OF this s(1)] show ?thesis
      using False blocks_pad16 [OF False, folded b_def]
      by (subst poly1305_inner.simps, subst (2) poly1305_inner.simps) (simp add: Let_def flip: b_def, simp add: d a s(2))
  qed (use less.prems in \<open>simp add: poly1305_inner.simps pad16_def\<close>)
qed

end
