(* ===== verification/Poly1305_Tag.thy ===== *)
theory Poly1305_Tag
  imports Poly1305
begin

text \<open>
  The end of a Poly1305 computation: the last carries, the last reduction and the addition of \<open>s\<close>. Shown: the tag of
  \<^verbatim>\<open>br_poly1305_ctmul_run\<close> is the one of RFC 8439, except where the carries of the last reduction run through every
  word, where it is a different one; and with ChaCha20 what was encrypted is decrypted again.
\<close>

section \<open>The key\<close>

lemma br_dec32le_take: "i + 4 \<le> n \<Longrightarrow> n \<le> length b \<Longrightarrow> br_dec32le (drop i (take n b)) = br_dec32le (drop i b)"
  by (simp add: br_dec32le_def)

lemma and_groups:
  fixes n c :: nat
  shows "n AND c = (n mod 2 ^ 26 AND c mod 2 ^ 26) + 2 ^ 26 * (n div 2 ^ 26 mod 2 ^ 26 AND c div 2 ^ 26 mod 2 ^ 26) +
     2 ^ 52 * (n div 2 ^ 52 mod 2 ^ 26 AND c div 2 ^ 52 mod 2 ^ 26) +
     2 ^ 78 * (n div 2 ^ 78 mod 2 ^ 26 AND c div 2 ^ 78 mod 2 ^ 26) + 2 ^ 104 * (n div 2 ^ 104 AND c div 2 ^ 104)"
proof -
  have m: "x mod 2 ^ k = take_bit k x" "x div 2 ^ k = drop_bit k x" for x :: nat and k
    by (simp_all add: take_bit_eq_mod drop_bit_eq_div)
  show ?thesis
    using groups_sum [of "n AND c"] unfolding m by (simp only: take_bit_and drop_bit_and)
qed

lemma clamp_value:
  assumes "16 \<le> length k"
  shows "r_ok (clamp k)" and "limbs (clamp k) = rfc_clamp (le_num (take 16 k))"
proof -
  let ?b = "take 16 k" let ?N = "le_num ?b"
  let ?x = "\<lambda>i j. drop_bit j (br_dec32le (drop i ?b))"
  have l: "length ?b = 16" using assms by simp
  have n: "?N < 2 ^ 128" using le_num_bound [of ?b] l by simp
  have x: "unat (?x 3 2 AND 0x3FFFFFF) = ?N div 2 ^ 26 mod 2 ^ 26" "unat (?x 6 4 AND 0x3FFFFFF) = ?N div 2 ^ 52 mod 2 ^ 26"
    "unat (?x 9 6 AND 0x3FFFFFF) = ?N div 2 ^ 78 mod 2 ^ 26" "unat (br_dec32le ?b AND 0x3FFFFFF) = ?N mod 2 ^ 26"
    using limb_of_block [of 3 ?b 2] limb_of_block [of 6 ?b 4] limb_of_block [of 9 ?b 6] limb_of_block [of 0 ?b 0] l by simp_all
  have "?N div 2 ^ 96 < 2 ^ 32" using n by (simp add: less_mult_imp_div_less)
  then have "unat (br_dec32le (drop 12 ?b)) = ?N div 2 ^ 96" using l by (simp add: unat_dec32le le_num_drop)
  then have x4: "unat (?x 12 8) = ?N div 2 ^ 104" by (simp add: unat_drop_bit flip: div_mult2_eq)
  have k: "clamp k = [br_dec32le ?b AND 0x03FFFFFF, ?x 3 2 AND 0x03FFFF03, ?x 6 4 AND 0x03FFC0FF, ?x 9 6 AND 0x03F03FFF, ?x 12 8 AND 0x000FFFFF]"
    using assms br_dec32le_take [of _ 16 k] br_dec32le_take [of 0 16 k] by (simp add: clamp_def)
  have nths: "clamp k ! 0 = br_dec32le ?b AND 0x03FFFFFF" "clamp k ! 1 = ?x 3 2 AND 0x03FFFF03"
    "clamp k ! 2 = ?x 6 4 AND 0x03FFC0FF" "clamp k ! 3 = ?x 9 6 AND 0x03F03FFF" "clamp k ! 4 = ?x 12 8 AND 0x000FFFFF"
    by (simp_all add: k)
  have s: "x AND 0x03FFFF03 = (x AND 0x3FFFFFF) AND 0x03FFFF03" "x AND 0x03FFC0FF = (x AND 0x3FFFFFF) AND 0x03FFC0FF"
    "x AND 0x03F03FFF = (x AND 0x3FFFFFF) AND 0x03F03FFF" for x :: u32
    by (simp_all add: and.assoc)
  have u: "unat (clamp k ! 0) = ?N mod 2 ^ 26" by (simp only: nths x)
  have u4: "unat (clamp k ! 4) = (?N div 2 ^ 104) AND 0x000FFFFF"
    by (simp only: nths x4 unsigned_and_eq) simp
  have u1: "unat (clamp k ! 1) = (?N div 2 ^ 26 mod 2 ^ 26) AND 0x03FFFF03"
    by (simp only: nths, subst s, subst unsigned_and_eq) (simp only: x, simp)
  have u2: "unat (clamp k ! 2) = (?N div 2 ^ 52 mod 2 ^ 26) AND 0x03FFC0FF"
    by (simp only: nths, subst s, subst unsigned_and_eq) (simp only: x, simp)
  have u3: "unat (clamp k ! 3) = (?N div 2 ^ 78 mod 2 ^ 26) AND 0x03F03FFF"
    by (simp only: nths, subst s, subst unsigned_and_eq) (simp only: x, simp)
  have c: "unat (y AND z) \<le> unat z" for y z :: u32
    using word_and_le1 [of y z] by (simp add: word_le_nat_alt)
  show "r_ok (clamp k)"
    unfolding r_ok_def k using c [of "br_dec32le ?b" "0x03FFFFFF"] c [of "?x 3 2" "0x03FFFF03"] c [of "?x 6 4" "0x03FFC0FF"]
      c [of "?x 9 6" "0x03F03FFF"] c [of "?x 12 8" "0x000FFFFF"] by simp
  have "?N mod 2 ^ 26 AND (2 ^ 26 - 1) = ?N mod 2 ^ 26"
    using take_bit_eq_mask [of 26 "?N mod 2 ^ 26"] by (simp add: take_bit_eq_mod mask_eq_exp_minus_1)
  then show "limbs (clamp k) = rfc_clamp ?N"
    unfolding rfc_clamp_def and_groups [of ?N] limbs_def u u1 u2 u3 u4 by simp
qed

section \<open>The last reduction\<close>

text \<open>The case the code gets wrong: a carry runs through all words above the first.\<close>

definition carry_wraps :: "u32 list \<Rightarrow> bool" where
  "carry_wraps a \<longleftrightarrow> 2 ^ 26 \<le> unat (a ! 1) \<and> unat (a ! 2) = 2 ^ 26 - 1 \<and> unat (a ! 3) = 2 ^ 26 - 1 \<and> unat (a ! 4) = 2 ^ 26 - 1"

definition reduced :: "u32 list \<Rightarrow> bool" where
  "reduced a \<longleftrightarrow> length a = 5 \<and> unat (a ! 0) < 2 ^ 26 \<and> unat (a ! 1) < 2 ^ 26 \<and> unat (a ! 2) < 2 ^ 26 \<and>
     unat (a ! 3) < 2 ^ 26 \<and> unat (a ! 4) < 2 ^ 26"

lemma five_words: "length a = 5 \<Longrightarrow> \<exists>a0 a1 a2 a3 a4. a = [a0, a1, a2, a3, a4]"
  by (auto simp: numeral_eq_Suc length_Suc_conv)

lemma limbs_words:
  "limbs [a0, a1, a2, a3, a4] = unat a0 + 2 ^ 26 * unat a1 + 2 ^ 52 * unat a2 + 2 ^ 78 * unat a3 + 2 ^ 104 * unat a4"
  by (simp add: limbs_def)

lemma MUX_constant: "MUX 1 x y = x" "MUX 0 x y = y"
  using MUX_bool [of True x y] MUX_bool [of False x y] by simp_all

lemma reduced_words:
  "reduced [a0, a1, a2, a3, a4] \<longleftrightarrow>
     unat a0 < 2 ^ 26 \<and> unat a1 < 2 ^ 26 \<and> unat a2 < 2 ^ 26 \<and> unat a3 < 2 ^ 26 \<and> unat a4 < 2 ^ 26"
  by (simp add: reduced_def)

lemma last_carries_words:
  "last_carries [x0, x1, x2, x3, x4] =
    (let y2 = x2 + drop_bit 26 x1; y3 = x3 + drop_bit 26 y2; y4 = x4 + drop_bit 26 y3; y0 = x0 + drop_bit 26 y4;
         y1 = (x1 AND 0x3FFFFFF) + drop_bit 26 y0
     in map (\<lambda>y. y AND 0x3FFFFFF) [y0, y1, y2, y3, y4])"
proof -
  have "[1..<7] = [1, 2, 3, 4, 5, 6 :: nat]" by (simp add: upt_rec)
  then show ?thesis by (simp add: last_carries_def carry_at_def Let_def)
qed

lemma last_carries_value:
  assumes "acc_ok a" and "\<not> carry_wraps a"
  shows "reduced (last_carries a)" and "limbs (last_carries a) = limbs a"
proof -
  let ?M = "2 ^ 26 :: nat"
  obtain x0 x1 x2 x3 x4 where a: "a = [x0, x1, x2, x3, x4]"
    using assms(1) unfolding acc_ok_def by (metis five_words)
  have x: "unat x0 < ?M" "unat x1 < ?M + 64" "unat x2 < ?M" "unat x3 < ?M" "unat x4 < ?M"
    using assms(1) by (simp_all add: a acc_ok_def)
  define y2 where "y2 = x2 + drop_bit 26 x1"
  define y3 where "y3 = x3 + drop_bit 26 y2"
  define y4 where "y4 = x4 + drop_bit 26 y3"
  have y2: "unat y2 = unat x2 + unat x1 div ?M" "unat y2 \<le> ?M"
    unfolding y2_def using x by (simp_all add: unat_add_lt high26)
  have y3: "unat y3 = unat x3 + unat y2 div ?M" "unat y3 \<le> ?M"
    unfolding y3_def using x y2(2) by (simp_all add: unat_add_lt high26)
  have y4: "unat y4 = unat x4 + unat y3 div ?M" "unat y4 \<le> ?M"
    unfolding y4_def using x y3(2) by (simp_all add: unat_add_lt high26)
  have n4: "unat y4 < ?M"
  proof (rule ccontr)
    assume "\<not> unat y4 < ?M"
    then have "unat x4 = ?M - 1" "unat y3 div ?M = 1" using x(5) y3(2) y4 by auto
    moreover from this have "unat x3 = ?M - 1" "unat y2 div ?M = 1" using x(4) y2(2) y3 by auto
    moreover from this have "unat x2 = ?M - 1" "unat x1 div ?M = 1" using x(2,3) y2 by auto
    moreover from this have "?M \<le> unat x1" by (metis div_less not_less zero_neq_one)
    ultimately show False using assms(2) by (simp add: a carry_wraps_def)
  qed
  then have z: "drop_bit 26 y4 = 0" by (simp add: word_unat_eq_iff high26)
  moreover have z0: "drop_bit 26 x0 = 0" using x(1) by (simp add: word_unat_eq_iff high26)
  ultimately have e: "last_carries a = [x0 AND 0x3FFFFFF, (x1 AND 0x3FFFFFF) AND 0x3FFFFFF, y2 AND 0x3FFFFFF, y3 AND 0x3FFFFFF, y4 AND 0x3FFFFFF]"
    by (simp add: a last_carries_words Let_def flip: y2_def y3_def y4_def)
  show "reduced (last_carries a)" unfolding e reduced_words by (simp add: low26)
  have "limbs (last_carries a) = unat x0 + ?M * (unat x1 mod ?M + 0) + 2 ^ 52 * (unat y2 mod ?M) + 2 ^ 78 * (unat y3 mod ?M) +
      2 ^ 104 * unat y4 + 2 ^ 130 * 0"
    using x(1) n4 by (simp add: limbs_def e low26)
  also have "\<dots> = limbs a + 5 * 0"
    unfolding a limbs_words
    by (rule carry_sum [where ?c0.0 = 0 and ?c1.0 = "unat x1 div ?M" and ?c2.0 = "unat y2 div ?M"
          and ?c3.0 = "unat y3 div ?M" and ?b0.0 = "unat x0"])
       (simp_all only: y2(1) [symmetric] y3(1) [symmetric] y4(1) [symmetric]
           mult_div_mod_eq add_0 add_0_right mult_0_right)
  finally show "limbs (last_carries a) = limbs a" by simp
qed

lemma last_reduction_words:
  "last_reduction [x0, x1, x2, x3, x4] =
    (let ctl = GT x0 0x03FFFFFA AND EQ x1 0x03FFFFFF AND EQ x2 0x03FFFFFF AND EQ x3 0x03FFFFFF AND EQ x4 0x03FFFFFF;
         t0 = x0 + 5; t1 = x1 + drop_bit 26 t0; t2 = x2 + drop_bit 26 t1; t3 = x3 + drop_bit 26 t2; t4 = x4 + drop_bit 26 t3
     in [MUX ctl (t0 AND 0x3FFFFFF) x0, MUX ctl (t1 AND 0x3FFFFFF) x1, MUX ctl (t2 AND 0x3FFFFFF) x2,
         MUX ctl (t3 AND 0x3FFFFFF) x3, MUX ctl (t4 AND 0x3FFFFFF) x4])"
proof -
  have "[0..<5] = [0, 1, 2, 3, 4 :: nat]" "[1..<5] = [1, 2, 3, 4 :: nat]" by (simp_all add: upt_rec)
  then show ?thesis
    by (simp add: last_reduction_def select_at_def Let_def ac_simps)
qed

lemma last_reduction_value:
  assumes "reduced a"
  shows "reduced (last_reduction a) \<and> limbs (last_reduction a) = limbs a mod rfc_p"
proof -
  obtain x0 x1 x2 x3 x4 where a: "a = [x0, x1, x2, x3, x4]"
    using assms(1) unfolding reduced_def by (metis five_words)
  have x: "unat x0 < 2 ^ 26" "unat x1 < 2 ^ 26" "unat x2 < 2 ^ 26" "unat x3 < 2 ^ 26" "unat x4 < 2 ^ 26"
    using assms by (simp_all add: a reduced_words)
  let ?c = "x0 > 0x03FFFFFA \<and> x1 = 0x03FFFFFF \<and> x2 = 0x03FFFFFF \<and> x3 = 0x03FFFFFF \<and> x4 = 0x03FFFFFF"
  have ctl: "GT x0 0x03FFFFFA AND EQ x1 0x03FFFFFF AND EQ x2 0x03FFFFFF AND EQ x3 0x03FFFFFF AND EQ x4 0x03FFFFFF = of_bool ?c"
    by (auto simp: ct of_bool_def)
  have n: "?c \<longleftrightarrow> 0x03FFFFFA < unat x0 \<and> unat x1 = 0x03FFFFFF \<and> unat x2 = 0x03FFFFFF \<and> unat x3 = 0x03FFFFFF \<and> unat x4 = 0x03FFFFFF"
    by (simp add: word_less_nat_alt word_unat_eq_iff)
  show ?thesis
  proof (cases ?c)
    case True
    then have u: "0x03FFFFFA < unat x0" "unat x1 = 0x03FFFFFF" "unat x2 = 0x03FFFFFF" "unat x3 = 0x03FFFFFF" "unat x4 = 0x03FFFFFF"
      using n by blast+
    define t0 where "t0 = x0 + 5"
    have t0: "unat t0 = unat x0 + 5" unfolding t0_def using x(1) by (simp add: unat_add_lt)
    have q: "(unat x0 + 5) div 2 ^ 26 = 1" using u(1) x(1) by (intro div_nat_eqI) simp_all
    then have "drop_bit 26 t0 = 1" by (simp add: word_unat_eq_iff high26 t0)
    then have e: "last_reduction a = [t0 AND 0x3FFFFFF, 0, 0, 0, 0]"
      unfolding a last_reduction_words Let_def ctl using True by (simp add: MUX_constant flip: t0_def)
    have "(unat x0 + 5) mod 2 ^ 26 = unat x0 + 5 - 2 ^ 26" using q u(1) x(1) by (simp add: modulo_nat_def)
    then have "limbs (last_reduction a) = unat x0 + 5 - 2 ^ 26" by (simp add: e limbs_def low26 t0)
    moreover have "limbs a = rfc_p + (unat x0 + 5 - 2 ^ 26)" using u by (simp add: a limbs_def rfc_p_def)
    moreover have "unat x0 + 5 - 2 ^ 26 < rfc_p" using x(1) by (simp add: rfc_p_def)
    ultimately have "limbs (last_reduction a) = limbs a mod rfc_p" by simp
    then show ?thesis unfolding e reduced_words by (simp add: low26)
  next
    case False
    then have "of_bool ?c = (0 :: u32)" by simp
    then have "last_reduction a = a" by (simp only: a last_reduction_words Let_def ctl MUX_constant)
    moreover have "limbs a < rfc_p"
    proof -
      have "unat x0 \<le> 0x03FFFFFA \<or> unat x1 < 0x03FFFFFF \<or> unat x2 < 0x03FFFFFF \<or> unat x3 < 0x03FFFFFF \<or> unat x4 < 0x03FFFFFF"
        using False n x by fastforce
      then show ?thesis using x by (auto simp: a limbs_def rfc_p_def)
    qed
    ultimately show ?thesis using assms by simp
  qed
qed

section \<open>The tag\<close>

lemma le_bytes_append: "le_bytes (j + k) n = le_bytes j n @ le_bytes k (n div 256 ^ j)"
  using be_bytes_append [of k j n] by (simp add: add.commute flip: be_bytes_rev)

lemma le_bytes_cong: "n mod 256 ^ k = m mod 256 ^ k \<Longrightarrow> le_bytes k n = le_bytes k m"
proof (induction k arbitrary: n m)
  case (Suc k)
  have d: "(x :: nat) mod 256 ^ Suc k = x mod 256 + 256 * (x div 256 mod 256 ^ k)" for x
    by (simp add: mod_mult2_eq)
  have "n mod 256 = m mod 256"
    using arg_cong [OF Suc.prems, of "\<lambda>x. x mod 256"] by (simp add: mod_mod_cancel)
  then have "n div 256 mod 256 ^ k = m div 256 mod 256 ^ k" using Suc.prems unfolding d by simp
  moreover have "(word_of_nat n :: byte) = word_of_nat m"
    using \<open>n mod 256 = m mod 256\<close> by (simp add: word_of_nat_eq_iff take_bit_eq_mod)
  moreover have "le_bytes (Suc k) x = word_of_nat x # le_bytes k (x div 256)" for x
    using le_bytes_append [of 1 k x] by (simp add: le_bytes_def)
  ultimately show ?case using Suc.IH [of "n div 256" "m div 256"] by simp
qed (simp add: le_bytes_def)

lemma enc32le_bytes: "br_enc32le x = le_bytes 4 (unat x)"
proof -
  have "br_enc32le (word_of_nat n) = le_bytes 4 n" for n
    using octet_of_nat [where 'a = 32, of 0 n] octet_of_nat [where 'a = 32, of 8 n] octet_of_nat [where 'a = 32, of 16 n]
      octet_of_nat [where 'a = 32, of 24 n]
    by (simp add: br_enc32le_def le_bytes_def upt_rec)
  from this [of "unat x"] show ?thesis by simp
qed

lemma enc32le_u64: "br_enc32le (ucast (w :: u64)) = le_bytes 4 (unat w)"
  unfolding enc32le_bytes by (rule le_bytes_cong) (simp add: unsigned_ucast_eq take_bit_eq_mod)

lemma words_of_le_num:
  assumes "length b = 16"
  shows "le_num b = unat (br_dec32le b) + 2 ^ 32 * unat (br_dec32le (drop 4 b)) + 2 ^ 64 * unat (br_dec32le (drop 8 b)) +
    2 ^ 96 * unat (br_dec32le (drop 12 b))"
proof -
  have t: "le_num x = unat (br_dec32le x) + 2 ^ 32 * le_num (drop 4 x)" if "4 \<le> length x" for x
    using le_num_append [of "take 4 x" "drop 4 x"] that by (simp add: unat_dec32le le_num_take)
  show ?thesis using assms t [of b] t [of "drop 4 b"] t [of "drop 8 b"] t [of "drop 12 b"] by simp
qed

lemma le_bytes_join: "n < 2 ^ 32 \<Longrightarrow> le_bytes (4 + k) (n + 2 ^ 32 * m) = le_bytes 4 n @ le_bytes k m"
  using le_bytes_append [of 4 k "n + 2 ^ 32 * m"] le_bytes_cong [of "n + 2 ^ 32 * m" 4 n] by simp

lemma carried_sum:
  fixes w0 :: nat
  assumes "w0 = 2 ^ 32 * q0 + r0" and "q0 + m1 = 2 ^ 32 * q1 + r1" and "q1 + m2 = 2 ^ 32 * q2 + r2"
  shows "w0 + 2 ^ 32 * m1 + 2 ^ 64 * m2 + 2 ^ 96 * m3 = r0 + 2 ^ 32 * (r1 + 2 ^ 32 * (r2 + 2 ^ 32 * (q2 + m3)))"
  using assms by simp

text \<open>Words with the carry of each in the next one.\<close>

lemma carried_words:
  assumes "w1 = w0 div 2 ^ 32 + m1" and "w2 = w1 div 2 ^ 32 + m2"
  shows "le_bytes 4 w0 @ le_bytes 4 w1 @ le_bytes 4 w2 @ le_bytes 4 ((w2 div 2 ^ 32 + m3) mod 2 ^ 32) =
    le_bytes 16 ((w0 + 2 ^ 32 * m1 + 2 ^ 64 * m2 + 2 ^ 96 * m3) mod 2 ^ 128)"
proof -
  have c: "le_bytes 4 (n mod 2 ^ 32) = le_bytes 4 n" for n by (rule le_bytes_cong) simp
  let ?h = "w2 div 2 ^ 32 + m3" and ?r = "\<lambda>n :: nat. n mod 2 ^ 32"
  have r: "?r n < 2 ^ 32" for n by simp
  have j: "le_bytes 16 (?r n + 2 ^ 32 * m) = le_bytes 4 n @ le_bytes 12 m"
    "le_bytes 12 (?r n + 2 ^ 32 * m) = le_bytes 4 n @ le_bytes 8 m"
    "le_bytes 8 (?r n + 2 ^ 32 * m) = le_bytes 4 n @ le_bytes 4 m" for n m
    using le_bytes_join [OF r, of 12 n m] le_bytes_join [OF r, of 8 n m] le_bytes_join [OF r, of 4 n m] c [of n] by simp_all
  have "w0 + 2 ^ 32 * m1 + 2 ^ 64 * m2 + 2 ^ 96 * m3 = ?r w0 + 2 ^ 32 * (?r w1 + 2 ^ 32 * (?r w2 + 2 ^ 32 * ?h))"
    by (rule carried_sum [where ?q0.0 = "w0 div 2 ^ 32" and ?q1.0 = "w1 div 2 ^ 32"])
       (simp_all only: assms(1) [symmetric] assms(2) [symmetric] mult_div_mod_eq)
  moreover have "le_bytes 16 (n mod 2 ^ 128) = le_bytes 16 n" for n by (rule le_bytes_cong) simp
  moreover have "le_bytes 16 (?r w0 + 2 ^ 32 * (?r w1 + 2 ^ 32 * (?r w2 + 2 ^ 32 * ?h))) =
      le_bytes 4 w0 @ le_bytes 4 w1 @ le_bytes 4 w2 @ le_bytes 4 ?h"
    by (simp only: j)
  ultimately show ?thesis by (simp only: c)
qed

lemma poly1305_tag_value:
  assumes "reduced a" and "length k = 32"
  shows "poly1305_tag a k = le_bytes 16 ((limbs a + le_num (drop 16 k)) mod 2 ^ 128)"
proof -
  obtain x0 x1 x2 x3 x4 where a: "a = [x0, x1, x2, x3, x4]"
    using assms(1) unfolding reduced_def by (metis five_words)
  have x: "unat x0 < 2 ^ 26" "unat x1 < 2 ^ 26" "unat x2 < 2 ^ 26" "unat x3 < 2 ^ 26" "unat x4 < 2 ^ 26"
    using assms(1) by (simp_all add: a reduced_words)
  let ?s = "\<lambda>i. br_dec32le (drop i k)"
  have s: "unat (?s i) < 2 ^ 32" for i using unsigned_less [of "?s i", where 'a = nat] by simp
  have e: "unat (ucast (y :: u32) :: u64) = unat y" for y
    using unsigned_less [of y, where 'a = nat] by (simp add: unsigned_ucast_eq take_bit_nat_eq_self)
  have p: "unat (push_bit 26 (ucast (y :: u32)) :: u64) = 2 ^ 26 * unat y" "unat (push_bit 20 (ucast y) :: u64) = 2 ^ 20 * unat y"
    "unat (push_bit 14 (ucast y) :: u64) = 2 ^ 14 * unat y" if "unat y < 2 ^ 26" for y
    using that by (simp_all add: push_bit_eq_mult unat_mul_lt e mult.commute)
  define w0 :: u64 where "w0 = ucast x0 + push_bit 26 (ucast x1) + ucast (?s 16)"
  define w1 :: u64 where "w1 = drop_bit 32 w0 + push_bit 20 (ucast x2) + ucast (?s 20)"
  define w2 :: u64 where "w2 = drop_bit 32 w1 + push_bit 14 (ucast x3) + ucast (?s 24)"
  define hi :: u32 where "hi = ucast (drop_bit 32 w2) + push_bit 8 x4 + ?s 28"
  have t: "poly1305_tag a k = br_enc32le (ucast w0) @ br_enc32le (ucast w1) @ br_enc32le (ucast w2) @ br_enc32le hi"
    by (simp add: poly1305_tag_def a Let_def w0_def w1_def w2_def hi_def)
  have w0: "unat w0 = unat x0 + 2 ^ 26 * unat x1 + unat (?s 16)" "unat w0 < 2 ^ 53"
    unfolding w0_def using x s [of 16] by (simp_all add: unat_add_lt e p)
  have w1: "unat w1 = unat w0 div 2 ^ 32 + (2 ^ 20 * unat x2 + unat (?s 20))" "unat w1 < 2 ^ 53"
    unfolding w1_def using x w0(2) s [of 20] by (simp_all add: unat_add_lt e p unat_drop_bit)
  have w2: "unat w2 = unat w1 div 2 ^ 32 + (2 ^ 14 * unat x3 + unat (?s 24))" "unat w2 < 2 ^ 53"
    unfolding w2_def using x w1(2) s [of 24] by (simp_all add: unat_add_lt e p unat_drop_bit)
  have hi: "unat hi = (unat w2 div 2 ^ 32 + (2 ^ 8 * unat x4 + unat (?s 28))) mod 2 ^ 32"
  proof -
    have "ucast (drop_bit 32 w2) = (word_of_nat (unat (drop_bit 32 w2)) :: u32)" by simp
    then have "ucast (drop_bit 32 w2) = (word_of_nat (unat w2 div 2 ^ 32) :: u32)" by (simp only: unat_drop_bit)
    then have "hi = word_of_nat (unat w2 div 2 ^ 32) + word_of_nat (2 ^ 8 * unat x4) + word_of_nat (unat (?s 28))"
      by (simp add: hi_def push_bit_eq_mult mult.commute)
    also have "\<dots> = word_of_nat (unat w2 div 2 ^ 32 + (2 ^ 8 * unat x4 + unat (?s 28)))" by simp
    finally show ?thesis by (simp only: unat_of_nat) (simp add: take_bit_eq_mod)
  qed
  have "le_num (drop 16 k) = unat (?s 16) + 2 ^ 32 * unat (?s 20) + 2 ^ 64 * unat (?s 24) + 2 ^ 96 * unat (?s 28)"
    using words_of_le_num [of "drop 16 k"] assms(2) by simp
  then have "limbs a + le_num (drop 16 k) = unat w0 + 2 ^ 32 * (2 ^ 20 * unat x2 + unat (?s 20)) +
      2 ^ 64 * (2 ^ 14 * unat x3 + unat (?s 24)) + 2 ^ 96 * (2 ^ 8 * unat x4 + unat (?s 28))"
    unfolding a limbs_words w0(1) by simp
  then show ?thesis
    unfolding t enc32le_u64 enc32le_bytes [of hi] hi by (simp only: carried_words [OF w1(1) w2(1)])
qed

section \<open>The code computes the tag\<close>

text \<open>The accumulator before the last reduction.\<close>

definition poly1305_acc :: "byte list \<Rightarrow> byte list \<Rightarrow> byte list \<Rightarrow> u32 list" where
  "poly1305_acc pkey aad data =
     (let r = clamp pkey
      in poly1305_inner (poly1305_inner (poly1305_inner (replicate 5 0) r aad) r data) r
           (br_enc64le (word_of_nat (length aad)) @ br_enc64le (word_of_nat (length data))))"

lemma ctmul_run_acc:
  "br_poly1305_ctmul_run key iv data aad ichacha encrypt =
    (let c = (if encrypt then fst (ichacha key iv 1 data) else data); pkey = fst (ichacha key iv 0 (replicate 32 0))
     in (fst (ichacha key iv 1 data), poly1305_tag (last_reduction (last_carries (poly1305_acc pkey aad c))) pkey))"
  by (simp add: br_poly1305_ctmul_run_def poly1305_acc_def Let_def)

lemma foot_bytes: "br_enc64le (word_of_nat n) = le_bytes 8 n"
proof -
  have "br_enc64le x = rev (br_enc64be x)" for x
    by (simp add: br_enc64le_def br_enc64be_def br_enc32le_def br_enc32be_def)
  then show ?thesis by (simp only: enc64be_bytes be_bytes_rev)
qed

lemma length_le_bytes [simp]: "length (le_bytes k n) = k"
  by (simp add: le_bytes_def)

lemma round_up: "n = 16 * q + r \<Longrightarrow> r < 16 \<Longrightarrow> n + (16 - r) = 16 * (q + 1)" for n q r :: nat
  by simp

lemma dvd_pad16: "16 dvd length (pad16 m)"
proof (cases "length m mod 16 = 0")
  case False
  have "length m + (16 - length m mod 16) = 16 * (length m div 16 + 1)" by (rule round_up) simp_all
  with False have "length (pad16 m) = 16 * (length m div 16 + 1)" by (simp add: pad16_def)
  then show ?thesis by (simp only: dvd_triv_left)
qed (simp add: pad16_def mod_0_imp_dvd)

lemma poly1305_acc_value:
  assumes "16 \<le> length k"
  shows "acc_ok (poly1305_acc k aad c)"
    and "limbs (poly1305_acc k aad c) mod rfc_p =
      fold (rfc_poly_block (rfc_clamp (le_num (take 16 k)))) (blocks 16 (rfc_mac_data aad c)) 0"
proof -
  let ?f = "rfc_poly_block (rfc_clamp (le_num (take 16 k)))" and ?foot = "le_bytes 8 (length aad) @ le_bytes 8 (length c)"
  note r = clamp_value [OF assms]
  have z: "acc_ok (replicate 5 0)" "limbs (replicate 5 0) mod rfc_p = 0" by (simp_all add: acc_ok_def limbs_def)
  note v = poly1305_inner_value [OF _ r(1), unfolded r(2)]
  note a1 = v [OF z(1), of aad] note a2 = v [OF conjunct1 [OF a1], of c] note a3 = v [OF conjunct1 [OF a2], of ?foot]
  show "acc_ok (poly1305_acc k aad c)" using a3 by (simp add: poly1305_acc_def Let_def foot_bytes)
  have "pad16 ?foot = ?foot" by (simp add: pad16_def)
  then have "blocks 16 (rfc_mac_data aad c) = blocks 16 (pad16 aad) @ blocks 16 (pad16 c) @ blocks 16 (pad16 ?foot)"
    by (simp add: rfc_mac_data_def blocks_append dvd_pad16)
  then show "limbs (poly1305_acc k aad c) mod rfc_p = fold ?f (blocks 16 (rfc_mac_data aad c)) 0"
    using a1 a2 a3 z(2) by (simp add: poly1305_acc_def Let_def foot_bytes)
qed

text \<open>C35: For any stream cipher in the place of ChaCha20: the call encrypts or decrypts the data with it, and the tag is that of
  RFC 8439 for the additional data and the ciphertext, unless the carries of the last reduction run through the
  words above the first one.\<close>

theorem poly1305_is_rfc8439:
  assumes "length (fst (ichacha key iv 0 (replicate 32 0))) = 32"
    and "c = (if encrypt then fst (ichacha key iv 1 data) else data)"
    and "\<not> carry_wraps (poly1305_acc (fst (ichacha key iv 0 (replicate 32 0))) aad c)"
  shows "br_poly1305_ctmul_run key iv data aad ichacha encrypt =
    (fst (ichacha key iv 1 data), rfc_poly1305 (fst (ichacha key iv 0 (replicate 32 0))) (rfc_mac_data aad c))"
proof -
  let ?k = "fst (ichacha key iv 0 (replicate 32 0))" let ?a = "poly1305_acc ?k aad c"
  have k: "16 \<le> length ?k" "take 16 (drop 16 ?k) = drop 16 ?k" using assms(1) by simp_all
  note v = poly1305_acc_value [OF k(1), of aad c]
  note l = last_carries_value [OF v(1) assms(3)]
  have "reduced (last_reduction (last_carries ?a))" "limbs (last_reduction (last_carries ?a)) = limbs ?a mod rfc_p"
    using last_reduction_value [OF l(1)] l(2) by simp_all
  then show ?thesis
    using poly1305_tag_value [OF _ assms(1), of "last_reduction (last_carries ?a)"] k(2) v(2)
    by (simp add: ctmul_run_acc rfc_poly1305_def Let_def flip: assms(2))
qed

text \<open>A cipher for the examples: the first block gives a key with \<open>r = 2\<close> and \<open>s = 0\<close>, and the data is left as it is.\<close>

definition plain_cipher :: chacha20_run where
  "plain_cipher key iv cc data = (if cc = 0 then 2 # replicate 31 0 else data, cc + 1)"

lemma inner_nil: "poly1305_inner a r [] = a"
  by (subst poly1305_inner.simps) simp

lemma inner_block: "length b = 16 \<Longrightarrow> poly1305_inner a r b = reduce_w (mul_r (add_block a b) r)"
  by (subst poly1305_inner.simps) (simp add: inner_nil)

lemma clamp_two: "clamp (2 # replicate 31 0) = [2, 0, 0, 0, 0]"
  by code_simp

lemma foot_16: "br_enc64le 0 @ br_enc64le 16 = [0, 0, 0, 0, 0, 0, 0, 0, 16, 0, 0, 0, 0, 0, 0, 0]"
  by code_simp

lemma acc_one_block:
  assumes "length b = 16" and "reduce_w (mul_r (add_block (replicate 5 0) b) [2, 0, 0, 0, 0]) = a"
    and "reduce_w (mul_r (add_block a [0, 0, 0, 0, 0, 0, 0, 0, 16, 0, 0, 0, 0, 0, 0, 0]) [2, 0, 0, 0, 0]) = a'"
  shows "poly1305_acc (2 # replicate 31 0) [] b = a'"
  using assms by (simp add: poly1305_acc_def Let_def clamp_two inner_nil inner_block foot_16)

lemma block_eval:
  "add_block a b = x \<Longrightarrow> mul_r x r = y \<Longrightarrow> reduce_w y = z \<Longrightarrow> reduce_w (mul_r (add_block a b) r) = z"
  by simp

lemma ones_acc: "poly1305_acc (2 # replicate 31 0) [] (replicate 16 1) = [0x40409, 0x1010101, 0x424040, 0x101010, 0x2040404]"
proof -
  have "reduce_w (mul_r (add_block (replicate 5 0) (replicate 16 1)) [2, 0, 0, 0, 0]) = [0x2020202, 0x808080, 0x202020, 0x80808, 0x2020202]"
    by (rule block_eval) code_simp+
  moreover have "reduce_w (mul_r (add_block [0x2020202, 0x808080, 0x202020, 0x80808, 0x2020202] [0, 0, 0, 0, 0, 0, 0, 0, 16, 0, 0, 0, 0, 0, 0, 0]) [2, 0, 0, 0, 0]) = [0x40409, 0x1010101, 0x424040, 0x101010, 0x2040404]"
    by (rule block_eval) code_simp+
  ultimately show ?thesis by (intro acc_one_block) simp_all
qed

theorem poly1305_is_rfc8439_witness:
  "br_poly1305_ctmul_run [] [] (replicate 16 1) [] plain_cipher True =
    (replicate 16 1, rfc_poly1305 (2 # replicate 31 0) (rfc_mac_data [] (replicate 16 1)))"
proof -
  have "\<not> carry_wraps (poly1305_acc (2 # replicate 31 0) [] (replicate 16 1))"
    by (simp add: ones_acc carry_wraps_def)
  then show ?thesis
    using poly1305_is_rfc8439 [of plain_cipher "[]" "[]" "replicate 16 1" True "replicate 16 1" "[]"]
    by (simp add: plain_cipher_def)
qed

text \<open>Sixteen bytes after which the accumulator, times two, reaches \<open>2 ^ 130 + 1\<close>.\<close>

definition carry_bytes :: "byte list" where
  "carry_bytes = replicate 8 0xFF @ [0xF7] @ replicate 6 0xFF @ [0x7F]"

lemma carry_bytes_list:
  "carry_bytes = [0xFF, 0xFF, 0xFF, 0xFF, 0xFF, 0xFF, 0xFF, 0xFF, 0xF7, 0xFF, 0xFF, 0xFF, 0xFF, 0xFF, 0xFF, 0x7F]"
  by code_simp

lemma carry_acc:
  "poly1305_acc (2 # replicate 31 0) [] carry_bytes = [1, 0x4000000, 0x3FFFFFF, 0x3FFFFFF, 0x3FFFFFF]"
proof -
  have "length carry_bytes = 16" by (simp add: carry_bytes_def)
  moreover have "reduce_w (mul_r (add_block (replicate 5 0) carry_bytes) [2, 0, 0, 0, 0]) = [0x3FFFFFE, 0x3FFFFFF, 0x3FEFFFF, 0x3FFFFFF, 0x2FFFFFF]"
    by (rule block_eval) code_simp+
  moreover have "reduce_w (mul_r (add_block [0x3FFFFFE, 0x3FFFFFF, 0x3FEFFFF, 0x3FFFFFF, 0x2FFFFFF] [0, 0, 0, 0, 0, 0, 0, 0, 16, 0, 0, 0, 0, 0, 0, 0]) [2, 0, 0, 0, 0]) = [1, 0x4000000, 0x3FFFFFF, 0x3FFFFFF, 0x3FFFFFF]"
    by (rule block_eval) code_simp+
  ultimately show ?thesis by (rule acc_one_block)
qed

text \<open>The carry out of the top word stands for five in the first word, but the code adds it as one: with the key \<open>r = 2\<close>, \<open>s = 0\<close>
  and these sixteen bytes the tag should be the number six, and the code gives two.\<close>

theorem poly1305_drops_carry:
  "snd (br_poly1305_ctmul_run [] [] carry_bytes [] plain_cipher True) = 2 # replicate 15 0 \<and>
   rfc_poly1305 (2 # replicate 31 0) (rfc_mac_data [] carry_bytes) = 6 # replicate 15 0"
proof
  have "last_reduction (last_carries [1, 0x4000000, 0x3FFFFFF, 0x3FFFFFF, 0x3FFFFFF]) = [2, 0, 0, 0, 0]" by code_simp
  moreover have "poly1305_tag [2, 0, 0, 0, 0] (2 # replicate 31 0) = 2 # replicate 15 0" by code_simp
  ultimately show "snd (br_poly1305_ctmul_run [] [] carry_bytes [] plain_cipher True) = 2 # replicate 15 0"
    by (simp add: ctmul_run_acc Let_def plain_cipher_def carry_acc del: replicate_Suc)
  have "rfc_mac_data [] carry_bytes = carry_bytes @ [0, 0, 0, 0, 0, 0, 0, 0, 16, 0, 0, 0, 0, 0, 0, 0]"
    using foot_16 by (simp add: rfc_mac_data_def pad16_def carry_bytes_def flip: foot_bytes)
  then have b: "blocks 16 (rfc_mac_data [] carry_bytes) = [carry_bytes, [0, 0, 0, 0, 0, 0, 0, 0, 16, 0, 0, 0, 0, 0, 0, 0]]"
    by (simp add: blocks_Cons carry_bytes_def blocks.simps)
  have "rfc_poly_block 2 carry_bytes 0 = 1020847100762815390094975917115951808510"
    unfolding rfc_poly_block_def carry_bytes_list by (simp add: rfc_p_def)
  moreover have "rfc_poly_block 2 [0, 0, 0, 0, 0, 0, 0, 0, 16, 0, 0, 0, 0, 0, 0, 0] 1020847100762815390094975917115951808510 = 6"
    by (simp add: rfc_poly_block_def rfc_p_def)
  moreover have "le_bytes 16 6 = 6 # replicate 15 0"
    by (simp add: le_bytes_def upt_rec) (simp add: numeral_eq_Suc)
  moreover have "rfc_clamp 2 = 2" by (simp add: rfc_clamp_def)
  ultimately show "rfc_poly1305 (2 # replicate 31 0) (rfc_mac_data [] carry_bytes) = 6 # replicate 15 0"
    by (simp add: rfc_poly1305_def b le_num_zeros [of "[]", simplified] take_Cons' drop_Cons')
qed

text \<open>Decrypting what was encrypted, with the same key, nonce and additional data, gives the data back and the same tag.\<close>

theorem chapol_roundtrip:
  "case br_poly1305_ctmul_run key iv data aad br_chacha20_ct_run True of (c, tag) \<Rightarrow>
     c = rfc_chacha20 key 1 iv data \<and>
     br_poly1305_ctmul_run key iv c aad br_chacha20_ct_run False = (data, tag)"
  by (simp add: ctmul_run_acc Let_def chacha20_run_rfc rfc_chacha20_twice)

end
