(* ===== verification/Rec_Chapol.thy ===== *)
theory Rec_Chapol
  imports Poly1305_Tag
begin

text \<open>
  The record layer of TLS with ChaCha20 and Poly1305: \<^verbatim>\<open>bearssl/src/ssl/ssl_rec_chapol.c\<close>. A context counts the records;
  the number goes into the nonce and into the additional data. Shown: nonce and additional data are those of RFC 7905; a
  receiver that starts with the same key reads every record of a sender, in order, whatever the records are; and a record is
  refused exactly when its last 16 bytes are not the tag for its number.
\<close>

section \<open>The code\<close>

type_synonym poly1305_run =
  "byte list \<Rightarrow> byte list \<Rightarrow> byte list \<Rightarrow> byte list \<Rightarrow> chacha20_run \<Rightarrow> bool \<Rightarrow> byte list \<times> byte list"

datatype chapol_vtable = No_vtable | Br_sslrec_in_chapol_vtable | Br_sslrec_out_chapol_vtable

record chapol_context =
  vtable :: chapol_vtable
  rec_seq :: u64
  cc_key :: "byte list"
  cc_iv :: "byte list"
  ichacha :: chacha20_run
  ipoly :: poly1305_run

definition gen_chapol_init ::
    "chapol_context \<Rightarrow> chacha20_run \<Rightarrow> poly1305_run \<Rightarrow> byte list \<Rightarrow> byte list \<Rightarrow> chapol_context" where
  "gen_chapol_init cc ic ip key iv =
     cc\<lparr>rec_seq := 0, ichacha := ic, ipoly := ip, cc_key := take 32 key, cc_iv := take 12 iv\<rparr>"

definition nonce_byte :: "nat \<Rightarrow> byte list \<times> u64 \<Rightarrow> byte list \<times> u64" where
  "nonce_byte u v =
     (let (nonce, seq) = v; nonce = nonce[11 - u := nonce ! (11 - u) XOR ucast seq] in (nonce, drop_bit 8 seq))"

definition chapol_nonce :: "byte list \<Rightarrow> u64 \<Rightarrow> byte list" where
  "chapol_nonce iv seq = fst (fold nonce_byte [0..<8] (take 12 iv, seq))"

text \<open>The data after the call, and the tag.\<close>

definition gen_chapol_process ::
    "chapol_context \<Rightarrow> u32 \<Rightarrow> u32 \<Rightarrow> byte list \<Rightarrow> bool \<Rightarrow> chapol_context \<times> byte list \<times> byte list" where
  "gen_chapol_process cc record_type version data encrypt =
     (let n = rec_seq cc;
          cc = cc\<lparr>rec_seq := n + 1\<rparr>;
          header = br_enc64be n @ [ucast record_type] @ br_enc16be version @ br_enc16be (word_of_nat (length data));
          nonce = chapol_nonce (cc_iv cc) n
      in (cc, ipoly cc (cc_key cc) nonce data header (ichacha cc) encrypt))"

definition in_chapol_init ::
    "chapol_context \<Rightarrow> chacha20_run \<Rightarrow> poly1305_run \<Rightarrow> byte list \<Rightarrow> byte list \<Rightarrow> chapol_context" where
  "in_chapol_init cc ic ip key iv = gen_chapol_init (cc\<lparr>vtable := Br_sslrec_in_chapol_vtable\<rparr>) ic ip key iv"

definition out_chapol_init ::
    "chapol_context \<Rightarrow> chacha20_run \<Rightarrow> poly1305_run \<Rightarrow> byte list \<Rightarrow> byte list \<Rightarrow> chapol_context" where
  "out_chapol_init cc ic ip key iv = gen_chapol_init (cc\<lparr>vtable := Br_sslrec_out_chapol_vtable\<rparr>) ic ip key iv"

definition chapol_check_length :: "u64 \<Rightarrow> bool" where
  "chapol_check_length rlen \<longleftrightarrow> 16 \<le> rlen \<and> rlen \<le> 16384 + 16"

definition tag_differs :: "byte list \<Rightarrow> byte list \<Rightarrow> nat \<Rightarrow> u32" where
  "tag_differs tag buf len = fold (\<lambda>u bad. bad OR ucast (tag ! u XOR buf ! (len + u))) [0..<16] 0"

text \<open>The context and the buffer afterwards, and the length of the plaintext at its start, or \<^term>\<open>None\<close> for the null pointer. A
  record without room for a tag is not to be passed (\<open>chapol_check_length\<close>); then the whole value is \<^term>\<open>None\<close>.\<close>

definition chapol_decrypt ::
    "chapol_context \<Rightarrow> u32 \<Rightarrow> u32 \<Rightarrow> byte list \<Rightarrow> (chapol_context \<times> byte list \<times> nat option) option" where
  "chapol_decrypt cc record_type version data =
     (if length data < 16 then None
      else
        let len = length data - 16;
            (cc, out, tag) = gen_chapol_process cc record_type version (take len data) False;
            buf = out @ drop len data;
            bad = tag_differs tag buf len
        in Some (cc, buf, if bad \<noteq> 0 then None else Some len))"

definition chapol_max_plaintext :: "u64 \<Rightarrow> u64 \<Rightarrow> u64" where
  "chapol_max_plaintext first last_free =
     (let len = last_free - first - 16; len = (if len > 16384 then 16384 else len) in first + len)"

text \<open>The record: its header of five bytes, the encrypted data, the tag.\<close>

definition chapol_encrypt :: "chapol_context \<Rightarrow> u32 \<Rightarrow> u32 \<Rightarrow> byte list \<Rightarrow> chapol_context \<times> byte list" where
  "chapol_encrypt cc record_type version data =
     (let len = length data;
          (cc, out, tag) = gen_chapol_process cc record_type version data True
      in (cc, [ucast record_type] @ br_enc16be version @ br_enc16be (word_of_nat (len + 16)) @ out @ tag))"

section \<open>RFC 7905\<close>

text \<open>The nonce is the number of the record, filled up to twelve bytes, combined with the one agreed on.\<close>

definition rfc_nonce :: "byte list \<Rightarrow> u64 \<Rightarrow> byte list" where
  "rfc_nonce iv n = xor_bytes iv (replicate 4 0 @ br_enc64be n)"

definition rfc_record_aad :: "u64 \<Rightarrow> u32 \<Rightarrow> u32 \<Rightarrow> nat \<Rightarrow> byte list" where
  "rfc_record_aad n record_type version len =
     br_enc64be n @ [ucast record_type] @ br_enc16be version @ br_enc16be (word_of_nat len)"

text \<open>A sender of records (type, version, data), and a receiver that takes type and version from the header.\<close>

fun chapol_send :: "chapol_context \<Rightarrow> (u32 \<times> u32 \<times> byte list) list \<Rightarrow> chapol_context \<times> byte list list" where
  "chapol_send cc [] = (cc, [])"
| "chapol_send cc ((t, v, d) # rs) =
     (let (cc, r) = chapol_encrypt cc t v d; (cc, out) = chapol_send cc rs in (cc, r # out))"

definition chapol_read :: "chapol_context \<Rightarrow> byte list \<Rightarrow> (chapol_context \<times> byte list option) option" where
  "chapol_read cc r =
     map_option (\<lambda>(cc, buf, res). (cc, map_option (\<lambda>len. take len buf) res))
       (chapol_decrypt cc (ucast (r ! 0)) (br_dec16be (drop 1 r)) (drop 5 r))"

fun chapol_receive :: "chapol_context \<Rightarrow> byte list list \<Rightarrow> (chapol_context \<times> byte list option list) option" where
  "chapol_receive cc [] = Some (cc, [])"
| "chapol_receive cc (r # rs) =
     Option.bind (chapol_read cc r) (\<lambda>(cc, p). map_option (\<lambda>(cc, ps). (cc, p # ps)) (chapol_receive cc rs))"

section \<open>Nonce and additional data\<close>

lemma nonce_bytes:
  fixes n :: u64
  shows "ucast (drop_bit 24 (ucast (drop_bit 32 n) :: u32)) = (ucast (drop_bit 56 n) :: byte)"
    and "ucast (drop_bit 16 (ucast (drop_bit 32 n) :: u32)) = (ucast (drop_bit 48 n) :: byte)"
    and "ucast (drop_bit 8 (ucast (drop_bit 32 n) :: u32)) = (ucast (drop_bit 40 n) :: byte)"
    and "ucast (ucast (drop_bit 32 n) :: u32) = (ucast (drop_bit 32 n) :: byte)"
    and "ucast (drop_bit 24 (ucast n :: u32)) = (ucast (drop_bit 24 n) :: byte)"
    and "ucast (drop_bit 16 (ucast n :: u32)) = (ucast (drop_bit 16 n) :: byte)"
    and "ucast (drop_bit 8 (ucast n :: u32)) = (ucast (drop_bit 8 n) :: byte)"
    and "ucast (ucast n :: u32) = (ucast n :: byte)"
  by (rule bit_word_eqI; simp add: bit_simps)+

lemma twelve_bytes:
  assumes "length xs = 12"
  obtains a b c d e f g h i j k l where "xs = [a, b, c, d, e, f, g, h, i, j, k, l]"
  using assms by (auto simp: numeral_eq_Suc length_Suc_conv)

lemma chapol_nonce_rfc:
  assumes "length iv = 12"
  shows "chapol_nonce iv n = rfc_nonce iv n"
proof -
  have u: "[0..<8] = [0, 1, 2, 3, 4, 5, 6, 7 :: nat]" by (simp add: upt_rec)
  have r: "replicate 4 (0 :: byte) = [0, 0, 0, 0]" by (simp add: numeral_eq_Suc)
  obtain a b c d e f g h i j k l where "iv = [a, b, c, d, e, f, g, h, i, j, k, l]"
    using twelve_bytes [OF assms] .
  then show ?thesis
    unfolding chapol_nonce_def u
    by (simp add: nonce_byte_def rfc_nonce_def xor_bytes_def br_enc64be_def br_enc32be_def nonce_bytes r)
qed

lemma gen_process_rfc:
  "length (cc_iv cc) = 12 \<Longrightarrow> gen_chapol_process cc t v data e =
     (cc\<lparr>rec_seq := rec_seq cc + 1\<rparr>,
      ipoly cc (cc_key cc) (rfc_nonce (cc_iv cc) (rec_seq cc)) data (rfc_record_aad (rec_seq cc) t v (length data)) (ichacha cc) e)"
  by (simp add: gen_chapol_process_def Let_def chapol_nonce_rfc rfc_record_aad_def)

section \<open>The tag is checked\<close>

lemma fold_or_0: "fold (\<lambda>u b. b OR f u) xs a = 0 \<longleftrightarrow> a = (0 :: 'a::len word) \<and> (\<forall>u\<in>set xs. f u = 0)"
  by (induction xs arbitrary: a) (auto simp: or_eq_0_iff)

lemma ucast_octet: "(ucast (ucast (b :: byte) :: u32) :: byte) = b"
  by (rule bit_word_eqI) (simp add: bit_simps)

lemma enc16_low: "br_enc16be (take_bit 16 v) = br_enc16be v"
  unfolding br_enc16be_def by (auto intro!: bit_word_eqI simp: bit_simps)

lemma tag_differs_iff:
  assumes "length tag = 16" and "length buf = len + 16"
  shows "tag_differs tag buf len = 0 \<longleftrightarrow> drop len buf = tag"
proof -
  have z: "(ucast (x :: byte) :: u32) = 0 \<longleftrightarrow> x = 0" for x
    by (metis ucast_0 ucast_octet)
  have "tag_differs tag buf len = 0 \<longleftrightarrow> (\<forall>u<16. tag ! u = buf ! (len + u))"
    unfolding tag_differs_def fold_or_0 z by (auto simp: xor_eq_0)
  also have "\<dots> \<longleftrightarrow> drop len buf = tag"
    using assms by (auto simp: list_eq_iff_nth_eq)
  finally show ?thesis .
qed

lemma rfc_chacha20_length: "length (rfc_chacha20 key n iv m) = length m"
  using blocks_length [of "\<lambda>j. rfc_chacha20_block key (n + word_of_nat j) iv" 64 0 "length m"]
  by (simp add: rfc_chacha20_def xor_bytes_def)

lemma poly1305_tag_length: "length (poly1305_tag a k) = 16"
  by (simp add: poly1305_tag_def Let_def)

text \<open>C37: A record that is long enough to be passed is refused exactly when its last 16 bytes are not the tag of RFC 8439's construction
  for the number of the record; either way the next number is expected afterwards.\<close>

theorem chapol_tag_checked:
  assumes "ipoly cc = br_poly1305_ctmul_run" and "length (cc_iv cc) = 12"
    and "length (fst (ichacha cc (cc_key cc) (rfc_nonce (cc_iv cc) (rec_seq cc)) 1 (take n payload))) = n"
    and "length payload = n + 16" and "chapol_check_length (word_of_nat (length payload))"
  shows "\<exists>buf r. chapol_decrypt cc t v payload = Some (cc\<lparr>rec_seq := rec_seq cc + 1\<rparr>, buf, r) \<and>
    (r = None \<longleftrightarrow> drop n payload \<noteq>
       snd (br_poly1305_ctmul_run (cc_key cc) (rfc_nonce (cc_iv cc) (rec_seq cc)) (take n payload)
         (rfc_record_aad (rec_seq cc) t v n) (ichacha cc) False))"
proof -
  define p where "p = br_poly1305_ctmul_run (cc_key cc) (rfc_nonce (cc_iv cc) (rec_seq cc)) (take n payload)
    (rfc_record_aad (rec_seq cc) t v n) (ichacha cc) False"
  have p: "length (fst p) = n" "length (snd p) = 16"
    using assms(3) by (simp_all add: p_def ctmul_run_acc Let_def poly1305_tag_length)
  have g: "gen_chapol_process cc t v (take n payload) False = (cc\<lparr>rec_seq := rec_seq cc + 1\<rparr>, p)"
    using assms(4) by (simp add: gen_process_rfc [OF assms(2)] assms(1) p_def)
  have d: "tag_differs (snd p) (fst p @ drop n payload) n = 0 \<longleftrightarrow> drop n payload = snd p"
    using tag_differs_iff [OF p(2), of "fst p @ drop n payload" n] p(1) assms(4) by simp
  show ?thesis
    using assms(4) d by (auto simp: chapol_decrypt_def Let_def g case_prod_beta simp flip: p_def)
qed

definition bare_context :: chapol_context where
  "bare_context = \<lparr>vtable = No_vtable, rec_seq = 0, cc_key = [], cc_iv = replicate 12 0, ichacha = plain_cipher,
     ipoly = br_poly1305_ctmul_run\<rparr>"

theorem chapol_tag_checked_witness:
  "\<exists>buf r. chapol_decrypt bare_context 23 0x303 (replicate 20 0) = Some (bare_context\<lparr>rec_seq := 1\<rparr>, buf, r) \<and>
    (r = None \<longleftrightarrow> replicate 16 0 \<noteq>
       snd (br_poly1305_ctmul_run [] (rfc_nonce (replicate 12 0) 0) (replicate 4 0) (rfc_record_aad 0 23 0x303 4) plain_cipher False))"
  using chapol_tag_checked [of bare_context 4 "replicate 20 0" 23 "0x303"]
  by (simp add: bare_context_def plain_cipher_def chapol_check_length_def)

section \<open>A receiver reads what was sent\<close>

text \<open>What the record layer needs of a cipher: decryption undoes encryption, and lengths are kept.\<close>

locale aead_run =
  fixes ip :: poly1305_run and ic :: chacha20_run
  assumes undoes: "ip key nonce d aad ic True = (c, tag) \<Longrightarrow> ip key nonce c aad ic False = (d, tag)"
    and keeps_length: "length (fst (ip key nonce d aad ic e)) = length d"
    and tag_length: "length (snd (ip key nonce d aad ic e)) = 16"
begin

lemma read_sent:
  assumes "cc_key ci = cc_key co" "cc_iv ci = cc_iv co" "rec_seq ci = rec_seq co"
    "ichacha ci = ic" "ichacha co = ic" "ipoly ci = ip" "ipoly co = ip"
    and "chapol_encrypt co t v d = (co', r)"
  shows "co' = co\<lparr>rec_seq := rec_seq co + 1\<rparr>" and "chapol_read ci r = Some (ci\<lparr>rec_seq := rec_seq co + 1\<rparr>, Some d)"
proof -
  let ?n = "rec_seq co"
  let ?h = "br_enc64be ?n @ [ucast t] @ br_enc16be v @ br_enc16be (word_of_nat (length d))"
  obtain c tag where p: "ip (cc_key co) (chapol_nonce (cc_iv co) ?n) d ?h ic True = (c, tag)" by fastforce
  have l: "length c = length d" "length tag = 16"
    using keeps_length [of "cc_key co" "chapol_nonce (cc_iv co) ?n" d ?h True] tag_length [of "cc_key co" "chapol_nonce (cc_iv co) ?n" d ?h True]
    by (simp_all add: p [simplified])
  note u = undoes [OF p]
  show "co' = co\<lparr>rec_seq := ?n + 1\<rparr>"
    using assms(8) by (simp add: chapol_encrypt_def gen_chapol_process_def Let_def assms p [simplified])
  have r: "r = [ucast t] @ br_enc16be v @ br_enc16be (word_of_nat (length d + 16)) @ c @ tag"
    using assms(8) by (simp add: chapol_encrypt_def gen_chapol_process_def Let_def assms p [simplified])
  have v: "br_enc16be (br_dec16be (br_enc16be v @ x)) = br_enc16be v" for x
    by (simp add: codec enc16_low)
  have h: "r ! 0 = ucast t" "drop 1 r = br_enc16be v @ br_enc16be (word_of_nat (length d + 16)) @ c @ tag" "drop 5 r = c @ tag"
    unfolding r by (simp_all add: br_enc16be_def)
  have g: "gen_chapol_process ci (ucast (r ! 0)) (br_dec16be (drop 1 r)) c False = (ci\<lparr>rec_seq := ?n + 1\<rparr>, d, tag)"
    by (simp add: gen_chapol_process_def Let_def assms h [simplified] v ucast_octet l(1) u [simplified])
  have "tag_differs tag (d @ tag) (length d) = 0" using tag_differs_iff [OF l(2), of "d @ tag" "length d"] l(2) by simp
  then show "chapol_read ci r = Some (ci\<lparr>rec_seq := ?n + 1\<rparr>, Some d)"
    unfolding chapol_read_def h(3) by (simp add: chapol_decrypt_def Let_def l g [simplified])
qed

lemma receive_sent:
  assumes "cc_key ci = cc_key co" "cc_iv ci = cc_iv co" "rec_seq ci = rec_seq co"
    "ichacha ci = ic" "ichacha co = ic" "ipoly ci = ip" "ipoly co = ip"
  shows "map_option snd (chapol_receive ci (snd (chapol_send co rs))) = Some (map (\<lambda>(t, v, d). Some d) rs)"
  using assms
proof (induction rs arbitrary: ci co)
  case (Cons x rs)
  obtain t v d where x: "x = (t, v, d)" by (cases x)
  obtain co' r where e: "chapol_encrypt co t v d = (co', r)" by fastforce
  note s = read_sent [OF Cons.prems e]
  have "map_option snd (chapol_receive (ci\<lparr>rec_seq := rec_seq co + 1\<rparr>) (snd (chapol_send co' rs))) =
      Some (map (\<lambda>(t, v, d). Some d) rs)"
    by (rule Cons.IH) (simp_all add: s(1) Cons.prems)
  then show ?case
    by (auto simp: x e s(2) case_prod_beta Let_def)
qed simp

end

interpretation chapol: aead_run br_poly1305_ctmul_run br_chacha20_ct_run
  by unfold_locales
    (auto simp: ctmul_run_acc Let_def chacha20_run_rfc rfc_chacha20_twice rfc_chacha20_length poly1305_tag_length)


end
