(* ===== verification/I31.thy ===== *)
theory I31
  imports Ct
begin

text \<open>
  The big integers of BearSSL, \<^verbatim>\<open>bearssl/src/int/i31_*.c\<close>: an array holds a number as words of 31 bits, the lowest first, after a
  word with its bit length (\<open>32 k + r\<close> for \<open>31 k + r\<close> bits). Here: the basic operations. Shown: conditional addition and
  subtraction modulo the size of the array with their carries, and the tests.
\<close>

section \<open>The code\<close>

definition MUL31 :: "u32 \<Rightarrow> u32 \<Rightarrow> u64" where
  "MUL31 x y = ucast x * ucast y"

definition MUL31_lo :: "u32 \<Rightarrow> u32 \<Rightarrow> u32" where
  "MUL31_lo x y = (x * y) AND 0x7FFFFFFF"

text \<open>The number of words for a bit length.\<close>

definition words31 :: "u32 \<Rightarrow> nat" where
  "words31 bit_len = unat (drop_bit 5 (bit_len + 31))"

definition br_i31_zero :: "u32 list \<Rightarrow> u32 \<Rightarrow> u32 list" where
  "br_i31_zero x bit_len = bit_len # replicate (words31 bit_len) 0 @ drop (Suc (words31 bit_len)) x"

definition add_word :: "u32 list \<Rightarrow> u32 \<Rightarrow> nat \<Rightarrow> u32 list \<times> u32 \<Rightarrow> u32 list \<times> u32" where
  "add_word b ctl u v =
     (let (a, cc) = v;
          aw = a ! u; bw = b ! u;
          naw = aw + bw + cc;
          cc = drop_bit 31 naw
      in (a[u := MUX ctl (naw AND 0x7FFFFFFF) aw], cc))"

definition br_i31_add :: "u32 list \<Rightarrow> u32 list \<Rightarrow> u32 \<Rightarrow> u32 list \<times> u32" where
  "br_i31_add a b ctl =
     (let m = unat (drop_bit 5 (a ! 0 + 63)) in fold (add_word b ctl) [1..<m] (a, 0))"

definition sub_word :: "u32 list \<Rightarrow> u32 \<Rightarrow> nat \<Rightarrow> u32 list \<times> u32 \<Rightarrow> u32 list \<times> u32" where
  "sub_word b ctl u v =
     (let (a, cc) = v;
          aw = a ! u; bw = b ! u;
          naw = aw - bw - cc;
          cc = drop_bit 31 naw
      in (a[u := MUX ctl (naw AND 0x7FFFFFFF) aw], cc))"

definition br_i31_sub :: "u32 list \<Rightarrow> u32 list \<Rightarrow> u32 \<Rightarrow> u32 list \<times> u32" where
  "br_i31_sub a b ctl =
     (let m = unat (drop_bit 5 (a ! 0 + 63)) in fold (sub_word b ctl) [1..<m] (a, 0))"

definition br_i31_iszero :: "u32 list \<Rightarrow> u32" where
  "br_i31_iszero x =
     (let z = fold (\<lambda>u z. z OR x ! u) (rev [1..<Suc (words31 (x ! 0))]) 0
      in drop_bit 31 (NOT (z OR - z)))"

definition br_i31_bit_length :: "u32 list \<Rightarrow> nat \<Rightarrow> u32" where
  "br_i31_bit_length x xlen =
     (let (tw, twk) =
        fold (\<lambda>k (tw, twk). let c = EQ tw 0; w = x ! k in (MUX c w tw, MUX c (word_of_nat k) twk)) (rev [0..<xlen]) (0, 0)
      in push_bit 5 twk + BIT_LENGTH tw)"

section \<open>The number in an array\<close>

definition W31 :: nat where "W31 = 2 ^ 31"

lemma W31_gt [simp]: "0 < W31" "W31 \<noteq> 0" "1 < W31" "Suc 0 < W31"
  by (simp_all add: W31_def)

lemma W31_power [simp]: "0 < W31 ^ n"
  by simp

text \<open>The words \<open>1 .. n\<close>.\<close>

primrec ival :: "nat \<Rightarrow> u32 list \<Rightarrow> nat" where
  "ival 0 x = 0"
| "ival (Suc n) x = ival n x + W31 ^ n * unat (x ! Suc n)"

definition ok31 :: "nat \<Rightarrow> u32 list \<Rightarrow> bool" where
  "ok31 n x \<longleftrightarrow> n < length x \<and> (\<forall>i<n. unat (x ! Suc i) < W31)"

lemma ok31_Suc: "ok31 (Suc n) x \<longleftrightarrow> ok31 n x \<and> Suc n < length x \<and> unat (x ! Suc n) < W31"
  by (auto simp: ok31_def less_Suc_eq)

lemma ok31_0 [simp]: "ok31 0 x \<longleftrightarrow> x \<noteq> []"
  by (simp add: ok31_def)

lemma digit_bound: "s < (M :: nat) \<Longrightarrow> x < W \<Longrightarrow> s + M * x < M * W"
proof -
  assume "s < M" "x < W"
  then have "M * (x + 1) \<le> M * W" by (intro mult_le_mono2) simp
  then show ?thesis using \<open>s < M\<close> by simp
qed

lemma ival_bound: "ok31 n x \<Longrightarrow> ival n x < W31 ^ n"
proof (induction n)
  case (Suc n)
  then show ?case using digit_bound [of "ival n x" "W31 ^ n" "unat (x ! Suc n)" W31] by (simp add: ok31_Suc mult.commute)
qed simp

lemma ival_cong: "(\<And>i. i < n \<Longrightarrow> x ! Suc i = y ! Suc i) \<Longrightarrow> ival n x = ival n y"
  by (induction n) simp_all

lemma ival_update [simp]: "n < u \<Longrightarrow> ival n (x[u := w]) = ival n x"
  by (rule ival_cong) simp

lemma ival_update_0 [simp]: "ival n (x[0 := w]) = ival n x"
  by (rule ival_cong) simp

lemma ok31_update [simp]: "n < u \<Longrightarrow> ok31 n (x[u := w]) = ok31 n x"
  by (simp add: ok31_def)

lemma low31: "unat ((x :: u32) AND 0x7FFFFFFF) = unat x mod W31"
proof -
  have "(0x7FFFFFFF :: u32) = mask 31" by (simp add: mask_numeral)
  then have "x AND 0x7FFFFFFF = take_bit 31 x" by (simp add: take_bit_eq_mask)
  then show ?thesis by (simp only: unsigned_take_bit_eq) (simp add: take_bit_eq_mod W31_def)
qed

lemma high31: "unat (drop_bit 31 (w :: 'a::len word)) = unat w div W31"
  by (simp add: unat_drop_bit W31_def)

text \<open>The headers in use: a length in range, and its number of words.\<close>

definition header_ok :: "u32 \<Rightarrow> bool" where
  "header_ok h \<longleftrightarrow> unat h < 2 ^ 31"

lemma loop_words: "header_ok h \<Longrightarrow> unat (drop_bit 5 (h + 63)) = Suc (words31 h)"
proof -
  assume "header_ok h"
  then have "unat (h + 63) = unat h + 63" "unat (h + 31) = unat h + 31"
    by (simp_all add: header_ok_def unat_word_ariths)
  moreover have "(unat h + 63) div 32 = Suc ((unat h + 31) div 32)" by simp
  ultimately show ?thesis by (simp add: words31_def unat_drop_bit)
qed

lemma fold_upto_Suc: "fold f [1..<Suc (Suc n)] s = f (Suc n) (fold f [1..<Suc n] s)"
  by simp

section \<open>Addition and subtraction\<close>

lemma div_digit:
  fixes s x :: nat
  shows "(s + W31 ^ n * x) div W31 ^ Suc n = (s div W31 ^ n + x) div W31"
proof -
  have "W31 ^ Suc n = W31 ^ n * W31" by simp
  then show ?thesis by (simp only: div_mult2_eq) (simp add: add.commute)
qed

text \<open>A digit of a sum, and the carry.\<close>

lemma digit_carry: "W31 ^ n * (t mod W31) + W31 ^ Suc n * (t div W31) = W31 ^ n * t"
proof -
  have "W31 ^ n * (t mod W31) + W31 ^ Suc n * (t div W31) = W31 ^ n * (t mod W31 + W31 * (t div W31))"
    by (simp only: distrib_left power_Suc mult_ac)
  then show ?thesis by (simp only: mod_mult_div_eq)
qed

lemma add_words:
  assumes "ok31 n a" and "ok31 n b"
  shows "\<exists>a' cc. fold (add_word b (of_bool p)) [1..<Suc n] (a, 0) = (a', cc) \<and> length a' = length a \<and>
    (\<forall>i. i = 0 \<or> n < i \<longrightarrow> a' ! i = a ! i) \<and> unat cc = (ival n a + ival n b) div W31 ^ n \<and>
    (if p then ok31 n a' \<and> ival n a' + W31 ^ n * unat cc = ival n a + ival n b else a' = a)"
  using assms
proof (induction n)
  case (Suc n)
  then obtain a' cc where IH: "fold (add_word b (of_bool p)) [1..<Suc n] (a, 0) = (a', cc)" "length a' = length a"
    "\<And>i. i = 0 \<or> n < i \<Longrightarrow> a' ! i = a ! i" "unat cc = (ival n a + ival n b) div W31 ^ n"
    "if p then ok31 n a' \<and> ival n a' + W31 ^ n * unat cc = ival n a + ival n b else a' = a"
    by (auto simp: ok31_Suc)
  let ?x = "a ! Suc n" and ?y = "b ! Suc n"
  have b: "unat ?x < W31" "unat ?y < W31" "Suc n < length a" using Suc.prems by (simp_all add: ok31_Suc)
  have "ival n a < W31 ^ n" "ival n b < W31 ^ n" using Suc.prems by (simp_all add: ok31_Suc ival_bound)
  then have "unat cc < 2" unfolding IH(4) by (subst less_mult_imp_div_less) simp_all
  then have s: "unat (?x + ?y + cc) = unat ?x + unat ?y + unat cc" using b by (simp add: unat_word_ariths W31_def)
  define naw where "naw = ?x + ?y + cc"
  have f: "fold (add_word b (of_bool p)) [1..<Suc (Suc n)] (a, 0) =
      (a'[Suc n := if p then naw AND 0x7FFFFFFF else ?x], drop_bit 31 naw)"
    unfolding fold_upto_Suc IH(1) by (simp add: add_word_def Let_def IH(3) ct naw_def)
  have s2: "ival (Suc n) a + ival (Suc n) b = (ival n a + ival n b) + W31 ^ n * (unat ?x + unat ?y)"
    by (simp add: algebra_simps)
  have c: "unat (drop_bit 31 naw) = (ival (Suc n) a + ival (Suc n) b) div W31 ^ Suc n"
    unfolding s2 div_digit high31 naw_def s IH(4) by (simp only: add_ac)
  have "ival n a' + W31 ^ n * (unat naw mod W31) + W31 ^ Suc n * (unat naw div W31) = ival (Suc n) a + ival (Suc n) b" if p
    using IH(5) that digit_carry [of n "unat naw"] unfolding s2 naw_def s by (simp add: algebra_simps)
  then show ?case
    unfolding f using IH(2,3,5) b c by (auto simp: ok31_Suc low31 high31 nth_list_update simp del: power_Suc)
qed (auto simp: Let_def)

lemma digit_less:
  assumes "(s :: nat) < M" and "t < M"
  shows "s + M * x < t + M * y \<longleftrightarrow> x < y + of_bool (s < t)"
proof (cases x y rule: linorder_cases)
  case less
  then have "M * (x + 1) \<le> M * y" by (intro mult_le_mono2) simp
  then show ?thesis using assms less by simp
next
  case greater
  then have "M * (y + 1) \<le> M * x" by (intro mult_le_mono2) simp
  then show ?thesis using assms greater by simp
qed simp

lemma borrow_digit:
  fixes x y W :: nat
  assumes "x < W" and "y \<le> W" and "t = (if y \<le> x then x - y else x + 2 * W - y)"
  shows "t div W = of_bool (x < y)" and "t mod W + y = x + W * of_bool (x < y)"
proof -
  have "t = W * of_bool (x < y) + (if y \<le> x then x - y else x + W - y)" using assms by auto
  moreover have "(if y \<le> x then x - y else x + W - y) < W" using assms by auto
  ultimately have "t div W = of_bool (x < y) \<and> t mod W = (if y \<le> x then x - y else x + W - y)" by simp
  then show "t div W = of_bool (x < y)" "t mod W + y = x + W * of_bool (x < y)" using assms by auto
qed

lemma sub_words:
  assumes "ok31 n a" and "ok31 n b"
  shows "\<exists>a' cc. fold (sub_word b (of_bool p)) [1..<Suc n] (a, 0) = (a', cc) \<and> length a' = length a \<and>
    (\<forall>i. i = 0 \<or> n < i \<longrightarrow> a' ! i = a ! i) \<and> cc = of_bool (ival n a < ival n b) \<and>
    (if p then ok31 n a' \<and> ival n a' + ival n b = ival n a + W31 ^ n * unat cc else a' = a)"
  using assms
proof (induction n)
  case (Suc n)
  then obtain a' cc where IH: "fold (sub_word b (of_bool p)) [1..<Suc n] (a, 0) = (a', cc)" "length a' = length a"
    "\<And>i. i = 0 \<or> n < i \<Longrightarrow> a' ! i = a ! i" "cc = of_bool (ival n a < ival n b)"
    "if p then ok31 n a' \<and> ival n a' + ival n b = ival n a + W31 ^ n * unat cc else a' = a"
    by (auto simp: ok31_Suc)
  let ?x = "a ! Suc n" and ?y = "b ! Suc n"
  have b: "unat ?x < W31" "unat ?y < W31" "Suc n < length a" using Suc.prems by (simp_all add: ok31_Suc)
  have l: "ival n a < W31 ^ n" "ival n b < W31 ^ n" using Suc.prems by (simp_all add: ok31_Suc ival_bound)
  define naw where "naw = ?x - ?y - cc"
  have cc: "unat cc \<le> 1" by (simp add: IH(4))
  have y: "unat (?y + cc) = unat ?y + unat cc" using b cc by (simp add: unat_word_ariths W31_def)
  have naw: "unat naw = (if unat ?y + unat cc \<le> unat ?x then unat ?x - (unat ?y + unat cc) else unat ?x + 2 * W31 - (unat ?y + unat cc))"
    unfolding naw_def diff_diff_eq using unat_diff [of ?x "?y + cc"] by (simp add: y W31_def)
  have f: "fold (sub_word b (of_bool p)) [1..<Suc (Suc n)] (a, 0) =
      (a'[Suc n := if p then naw AND 0x7FFFFFFF else ?x], drop_bit 31 naw)"
    unfolding fold_upto_Suc IH(1) by (simp add: sub_word_def Let_def IH(3) ct naw_def)
  have borrow: "ival (Suc n) a < ival (Suc n) b \<longleftrightarrow> unat ?x < unat ?y + unat cc"
    using digit_less [OF l, of "unat ?x" "unat ?y"] by (simp add: IH(4))
  have d: "unat naw div W31 = of_bool (unat ?x < unat ?y + unat cc)" "unat naw mod W31 + unat ?y + unat cc = unat ?x + W31 * of_bool (unat ?x < unat ?y + unat cc)"
    using borrow_digit [of "unat ?x" W31 "unat ?y + unat cc"] b cc naw by simp_all
  have c: "drop_bit 31 naw = of_bool (ival (Suc n) a < ival (Suc n) b)"
    unfolding borrow unfolding word_unat_eq_iff by (simp only: high31 d(1)) simp
  have "ival n a' + W31 ^ n * (unat naw mod W31) + ival (Suc n) b =
      ival (Suc n) a + W31 ^ Suc n * of_bool (unat ?x < unat ?y + unat cc)" if p
  proof -
    have "W31 ^ n * (unat naw mod W31) + W31 ^ n * unat ?y + W31 ^ n * unat cc =
        W31 ^ n * unat ?x + W31 ^ Suc n * of_bool (unat ?x < unat ?y + unat cc)"
      using arg_cong [OF d(2), of "\<lambda>t. W31 ^ n * t"] by (simp only: distrib_left power_Suc mult_ac)
    then show ?thesis using IH(5) that by simp
  qed
  moreover have "ival (Suc n) (a'[Suc n := naw AND 0x7FFFFFFF]) = ival n a' + W31 ^ n * (unat naw mod W31)"
    using IH(2) b(3) by (simp add: low31)
  ultimately show ?case
    unfolding f c using IH(2,3,5) b by (auto simp: ok31_Suc low31 borrow nth_list_update simp del: power_Suc ival.simps(2)) 
qed (auto simp: Let_def)

text \<open>The operations on arrays of the same size.\<close>

definition i31_ok :: "u32 \<Rightarrow> u32 list \<Rightarrow> bool" where
  "i31_ok h x \<longleftrightarrow> x ! 0 = h \<and> header_ok h \<and> ok31 (words31 h) x"

definition num :: "u32 list \<Rightarrow> nat" where
  "num x = ival (words31 (x ! 0)) x"

lemma num_eq: "i31_ok h x \<Longrightarrow> num x = ival (words31 h) x"
  by (simp add: num_def i31_ok_def)

lemma num_bound: "i31_ok h x \<Longrightarrow> num x < W31 ^ words31 h"
  by (simp add: num_eq) (simp add: ival_bound i31_ok_def)

lemma br_i31_add_value:
  assumes "i31_ok h a" and "ok31 (words31 h) b"
  shows "\<exists>a' cc. br_i31_add a b (of_bool p) = (a', cc) \<and> length a' = length a \<and> i31_ok h a' \<and>
    (\<forall>i>words31 h. a' ! i = a ! i) \<and>
    (if p then num a' + W31 ^ words31 h * unat cc = num a + ival (words31 h) b else a' = a)"
proof -
  have h: "a ! 0 = h" "header_ok h" "ok31 (words31 h) a" using assms(1) by (simp_all add: i31_ok_def)
  obtain a' cc where r: "fold (add_word b (of_bool p)) [1..<Suc (words31 h)] (a, 0) = (a', cc)" "length a' = length a"
    "\<And>i. i = 0 \<or> words31 h < i \<Longrightarrow> a' ! i = a ! i"
    "if p then ok31 (words31 h) a' \<and> ival (words31 h) a' + W31 ^ words31 h * unat cc = ival (words31 h) a + ival (words31 h) b
     else a' = a"
    using add_words [OF h(3) assms(2), of p] by blast
  then have "br_i31_add a b (of_bool p) = (a', cc)"
    by (simp add: br_i31_add_def h(1) loop_words [OF h(2)] del: upt_Suc)
  moreover have "i31_ok h a'" using r(3,4) h by (auto simp: i31_ok_def split: if_splits)
  ultimately show ?thesis using r(2-4) h(1) by (auto simp: num_def)
qed

lemma br_i31_sub_value:
  assumes "i31_ok h a" and "ok31 (words31 h) b"
  shows "\<exists>a'. br_i31_sub a b (of_bool p) = (a', of_bool (num a < ival (words31 h) b)) \<and> length a' = length a \<and> i31_ok h a' \<and>
    (\<forall>i>words31 h. a' ! i = a ! i) \<and>
    (if p then num a' + ival (words31 h) b = num a + W31 ^ words31 h * of_bool (num a < ival (words31 h) b) else a' = a)"
proof -
  have h: "a ! 0 = h" "header_ok h" "ok31 (words31 h) a" using assms(1) by (simp_all add: i31_ok_def)
  obtain a' cc where r: "fold (sub_word b (of_bool p)) [1..<Suc (words31 h)] (a, 0) = (a', cc)" "length a' = length a"
    "\<And>i. i = 0 \<or> words31 h < i \<Longrightarrow> a' ! i = a ! i" "cc = of_bool (ival (words31 h) a < ival (words31 h) b)"
    "if p then ok31 (words31 h) a' \<and> ival (words31 h) a' + ival (words31 h) b = ival (words31 h) a + W31 ^ words31 h * unat cc
     else a' = a"
    using sub_words [OF h(3) assms(2), of p] by blast
  then have "br_i31_sub a b (of_bool p) = (a', of_bool (ival (words31 h) a < ival (words31 h) b))"
    by (simp add: br_i31_sub_def h(1) loop_words [OF h(2)] del: upt_Suc)
  moreover have "i31_ok h a'" using r(3,5) h by (auto simp: i31_ok_def split: if_splits)
  ultimately show ?thesis using r(2-5) h(1) by (auto simp: num_def)
qed

text \<open>Subtracting the modulus where the number is not below it.\<close>

lemma sub_test:
  assumes "i31_ok h a" and "ok31 (words31 h) b"
  shows "snd (br_i31_sub a b 0) = of_bool (num a < ival (words31 h) b)"
  using br_i31_sub_value [OF assms, of False] by auto

lemma final_sub:
  assumes "i31_ok h a" and "ok31 (words31 h) m" and "num a + W31 ^ words31 h * t < 2 * ival (words31 h) m"
    and "p \<longleftrightarrow> ival (words31 h) m \<le> num a + W31 ^ words31 h * t"
  shows "i31_ok h (fst (br_i31_sub a m (of_bool p)))"
    and "length (fst (br_i31_sub a m (of_bool p))) = length a"
    and "num (fst (br_i31_sub a m (of_bool p))) = (num a + W31 ^ words31 h * t) mod ival (words31 h) m"
proof -
  let ?M = "ival (words31 h) m" and ?R = "W31 ^ words31 h"
  obtain a' where r: "br_i31_sub a m (of_bool p) = (a', of_bool (num a < ?M))" "length a' = length a" "i31_ok h a'"
    "if p then num a' + ?M = num a + ?R * of_bool (num a < ?M) else a' = a"
    using br_i31_sub_value [OF assms(1,2), of p] by blast
  show "i31_ok h (fst (br_i31_sub a m (of_bool p)))" "length (fst (br_i31_sub a m (of_bool p))) = length a"
    using r by simp_all
  have M: "?M < ?R" using ival_bound [OF assms(2)] .
  have t: "t = of_bool (num a < ?M)" if p
  proof (cases "num a < ?M")
    case True
    then have "t \<noteq> 0" using assms(4) that by (cases t) auto
    moreover have "t < 2"
    proof (rule ccontr)
      assume "\<not> t < 2" then have "?R * 2 \<le> ?R * t" by (intro mult_le_mono2) simp
      then show False using assms(3) M by linarith
    qed
    ultimately show ?thesis using True by simp
  next
    case False
    have "t = 0"
    proof (rule ccontr)
      assume "t \<noteq> 0" then have "?R * 1 \<le> ?R * t" by (intro mult_le_mono2) simp
      then show False using assms(3) M False by linarith
    qed
    then show ?thesis using False by simp
  qed
  have z: "t = 0" if "\<not> p"
  proof (rule ccontr)
    assume "t \<noteq> 0" then have "?R * 1 \<le> ?R * t" by (intro mult_le_mono2) simp
    then show False using assms(4) that M by linarith
  qed
  show "num (fst (br_i31_sub a m (of_bool p))) = (num a + ?R * t) mod ?M"
  proof (cases p)
    case True
    then have "num a + ?R * t = num a' + ?M" using r(4) t by simp
    moreover have "num a' < ?M" using assms(3) calculation by simp
    ultimately show ?thesis using r(1) by simp
  next
    case False
    then show ?thesis using r z assms(4) by simp
  qed
qed

section \<open>Zero and tests\<close>

lemma length_zero [simp]: "words31 h < length x \<Longrightarrow> length (br_i31_zero x h) = length x"
  by (simp add: br_i31_zero_def)

lemma zero_nth: "i < words31 h \<Longrightarrow> br_i31_zero x h ! Suc i = 0"
  by (simp add: br_i31_zero_def nth_append)

lemma ival_zero: "n \<le> words31 h \<Longrightarrow> ival n (br_i31_zero x h) = 0"
  by (induction n) (simp_all add: zero_nth)

lemma zero_ok: "words31 h < length x \<Longrightarrow> header_ok h \<Longrightarrow> i31_ok h (br_i31_zero x h) \<and> num (br_i31_zero x h) = 0"
proof -
  assume a: "words31 h < length x" "header_ok h"
  then have "i31_ok h (br_i31_zero x h)"
    by (simp add: i31_ok_def ok31_def zero_nth) (simp add: br_i31_zero_def)
  then show ?thesis by (simp add: num_eq ival_zero)
qed

lemma ival_eq_0: "ival n x = 0 \<longleftrightarrow> (\<forall>i<n. x ! Suc i = 0)"
  by (induction n) (auto simp: less_Suc_eq unsigned_eq_0_iff)

lemma iszero_value: "br_i31_iszero x = of_bool (num x = 0)"
proof -
  have "fold (\<lambda>u z. z OR x ! u) us z = 0 \<longleftrightarrow> z = 0 \<and> (\<forall>u\<in>set us. x ! u = 0)" for us and z :: u32
    by (induction us arbitrary: z) (auto simp: or_eq_0_iff)
  then have "fold (\<lambda>u z. z OR x ! u) (rev [1..<Suc (words31 (x ! 0))]) 0 = 0 \<longleftrightarrow> num x = 0"
    unfolding num_def ival_eq_0 by (simp del: upt_Suc) (metis Suc_le_D Suc_le_mono Suc_less_eq atLeastLessThan_iff le0)
  moreover have "drop_bit 31 (NOT (z OR - z)) = of_bool (z = 0)" for z :: u32
    unfolding drop_bit_31 bit_not_iff or_neg_top by simp
  ultimately show ?thesis by (simp only: br_i31_iszero_def Let_def)
qed

end
