(* ===== verification/I31_Mont.thy ===== *)
theory I31_Mont
  imports I31
begin

text \<open>
  Montgomery multiplication on the big integers of BearSSL: \<^verbatim>\<open>i31_ninv31.c\<close>, \<^verbatim>\<open>i31_montmul.c\<close> and \<^verbatim>\<open>i31_fmont.c\<close>. With
  \<open>R = 2 ^ (31 n)\<close> for an odd modulus of \<open>n\<close> words, the result times \<open>R\<close> is the product of the operands; no
  intermediate sum overflows its 32 or 64 bits.
\<close>

section \<open>The code\<close>

definition br_i31_ninv31 :: "u32 \<Rightarrow> u32" where
  "br_i31_ninv31 x =
     (let y = 2 - x;
          y = y * (2 - y * x);
          y = y * (2 - y * x);
          y = y * (2 - y * x);
          y = y * (2 - y * x)
      in MUX (x AND 1) (- y) 0 AND 0x7FFFFFFF)"

text \<open>A word of the inner loop, over the array and the carry (64 bits wide in a 64-bit build); the code does four at a time as
  long as there are four.\<close>

definition mont_word :: "u32 \<Rightarrow> u32 list \<Rightarrow> u32 \<Rightarrow> u32 list \<Rightarrow> nat \<Rightarrow> u32 list \<times> u64 \<Rightarrow> u32 list \<times> u64" where
  "mont_word xu y f m v s =
     (let (d, r) = s;
          z = ucast (d ! (v + 1)) + MUL31 xu (y ! (v + 1)) + MUL31 f (m ! (v + 1)) + r;
          r = drop_bit 31 z
      in (d[v := ucast z AND 0x7FFFFFFF], r))"

definition mont_four :: "u32 \<Rightarrow> u32 list \<Rightarrow> u32 \<Rightarrow> u32 list \<Rightarrow> nat \<Rightarrow> u32 list \<times> u64 \<Rightarrow> u32 list \<times> u64" where
  "mont_four xu y f m k s =
     (let v = 4 * k;
          s = mont_word xu y f m v s;
          s = mont_word xu y f m (v + 1) s;
          s = mont_word xu y f m (v + 2) s
      in mont_word xu y f m (v + 3) s)"

definition mont_row :: "u32 list \<Rightarrow> u32 list \<Rightarrow> u32 list \<Rightarrow> u32 \<Rightarrow> nat \<Rightarrow> nat \<Rightarrow> u32 list \<times> u32 \<Rightarrow> u32 list \<times> u32" where
  "mont_row x y m m0i len u s =
     (let (d, dh) = s;
          len4 = 4 * (len div 4);
          xu = x ! (u + 1);
          f = MUL31_lo (d ! 1 + MUL31_lo (x ! (u + 1)) (y ! 1)) m0i;
          (d, r) = fold (mont_word xu y f m) [len4..<len] (fold (mont_four xu y f m) [0..<len4 div 4] (d, 0));
          dh = dh + ucast r
      in (d[len := dh AND 0x7FFFFFFF], drop_bit 31 dh))"

definition br_i31_montymul :: "u32 list \<Rightarrow> u32 list \<Rightarrow> u32 list \<Rightarrow> u32 list \<Rightarrow> u32 \<Rightarrow> u32 list" where
  "br_i31_montymul d x y m m0i =
     (let len = words31 (m ! 0);
          d = br_i31_zero d (m ! 0);
          (d, dh) = fold (mont_row x y m m0i len) [0..<len] (d, 0);
          d = d[0 := m ! 0];
          (d, lt) = br_i31_sub d m 0
      in fst (br_i31_sub d m (NEQ dh 0 OR NOT32 lt)))"

definition from_word :: "u32 \<Rightarrow> u32 list \<Rightarrow> nat \<Rightarrow> u32 list \<times> u64 \<Rightarrow> u32 list \<times> u64" where
  "from_word f m v s =
     (let (x, cc) = s;
          z = ucast (x ! (v + 1)) + MUL31 f (m ! (v + 1)) + cc;
          cc = drop_bit 31 z
      in (if v \<noteq> 0 then x[v := ucast z AND 0x7FFFFFFF] else x, cc))"

definition from_row :: "u32 list \<Rightarrow> u32 \<Rightarrow> nat \<Rightarrow> u32 list \<Rightarrow> u32 list" where
  "from_row m m0i len x =
     (let f = MUL31_lo (x ! 1) m0i;
          (x, cc) = fold (from_word f m) [0..<len] (x, 0)
      in x[len := ucast cc])"

definition br_i31_from_monty :: "u32 list \<Rightarrow> u32 list \<Rightarrow> u32 \<Rightarrow> u32 list" where
  "br_i31_from_monty x m m0i =
     (let len = words31 (m ! 0);
          x = (from_row m m0i len ^^ len) x;
          (x, lt) = br_i31_sub x m 0
      in fst (br_i31_sub x m (NOT32 lt)))"

section \<open>The inverse of a word\<close>

text \<open>How far \<open>x * y\<close> is from one is squared in every step.\<close>

lemma newton: "1 - x * (y * (2 - y * x)) = (1 - x * y) ^ 2" for x y :: "'a::comm_ring_1"
  by (simp add: power2_eq_square algebra_simps)

lemma odd_unat: "odd (unat (x :: u32)) \<longleftrightarrow> odd x"
  by (simp add: bit_unsigned_iff flip: bit_0)

lemma even_power_32:
  assumes "\<not> bit (x :: u32) 0"
  shows "x ^ 32 = 0"
proof -
  have "even x" using assms by (simp add: bit_0)
  then obtain k where "x = 2 * k" by (rule evenE)
  then have "x ^ 32 = 2 ^ 32 * k ^ 32" by (simp only: power_mult_distrib)
  moreover have "(2 :: u32) ^ 32 = 0" by (simp only: exp_eq_zero_iff) simp
  ultimately show ?thesis by (simp only: mult_zero_left)
qed

lemma ninv31_value:
  assumes "odd (unat x)"
  shows "W31 dvd unat (br_i31_ninv31 x) * unat x + 1" and "unat (br_i31_ninv31 x) < W31"
    and "br_i31_ninv31 x AND 1 = 1"
proof -
  define y0 where "y0 = 2 - x"
  define y1 where "y1 = y0 * (2 - y0 * x)"
  define y2 where "y2 = y1 * (2 - y1 * x)"
  define y3 where "y3 = y2 * (2 - y2 * x)"
  define y4 where "y4 = y3 * (2 - y3 * x)"
  have o: "odd x" using assms by (simp add: odd_unat)
  have e0: "1 - x * y0 = (1 - x) ^ 2" by (simp add: y0_def power2_eq_square algebra_simps)
  have e: "1 - x * y4 = (((((1 - x) ^ 2) ^ 2) ^ 2) ^ 2) ^ 2"
    unfolding y4_def y3_def y2_def y1_def newton e0 ..
  have "(1 - x) ^ 32 = 0" using o by (intro even_power_32) (simp add: bit_0)
  then have "x * y4 = 1" using e by (simp flip: power_mult)
  then have xy: "- y4 * x + 1 = 0" by (simp add: mult.commute)
  have r: "br_i31_ninv31 x = - y4 AND 0x7FFFFFFF"
  proof -
    have "x AND 1 = of_bool True" using o by (simp add: and_one_eq odd_iff_mod_2_eq_one)
    then show ?thesis
      unfolding br_i31_ninv31_def Let_def by (simp only: MUX_bool if_True y0_def y1_def y2_def y3_def y4_def)
  qed
  have n: "unat (br_i31_ninv31 x) = unat (- y4) mod W31" by (simp only: r low31)
  then show "unat (br_i31_ninv31 x) < W31" by simp
  have "unat (a * x + 1) = (unat a * unat x + 1) mod 2 ^ 32" for a :: u32 by (simp add: unat_word_ariths mod_Suc_eq)
  from this [of "- y4"] have "(unat (- y4) * unat x + 1) mod 2 ^ 32 = 0" by (simp only: xy unat_0)
  moreover have "W31 dvd 2 ^ 32" by (simp add: W31_def)
  ultimately have d: "W31 dvd unat (- y4) * unat x + 1" by (meson dvd_trans mod_0_imp_dvd)
  then show "W31 dvd unat (br_i31_ninv31 x) * unat x + 1"
    unfolding n dvd_eq_mod_eq_0 by (metis mod_add_left_eq mod_mult_left_eq)
  have "even W31" by (simp add: W31_def)
  then have "odd (unat (br_i31_ninv31 x))" using \<open>W31 dvd unat (br_i31_ninv31 x) * unat x + 1\<close>
    by (metis dvd_trans even_Suc even_mult_iff Suc_eq_plus1)
  then have "odd (br_i31_ninv31 x)" using odd_unat by blast
  then show "br_i31_ninv31 x AND 1 = 1" by (metis and_one_eq odd_iff_mod_2_eq_one)
qed

section \<open>A row\<close>

text \<open>The words from \<open>0\<close> on.\<close>

definition jval :: "nat \<Rightarrow> u32 list \<Rightarrow> nat" where
  "jval n d = (\<Sum>i<n. W31 ^ i * unat (d ! i))"

lemma jval_Suc: "jval (Suc n) d = jval n d + W31 ^ n * unat (d ! n)"
  by (simp add: jval_def)

lemma jval_shift: "jval (Suc n) d = unat (d ! 0) + W31 * ival n d"
  by (induction n) (simp_all add: jval_Suc algebra_simps, simp add: jval_def)

lemma jval_update [simp]: "n \<le> u \<Longrightarrow> jval n (d[u := w]) = jval n d"
  by (auto simp: jval_def intro!: sum.cong)

lemma fold_upt_Suc: "fold f [0..<Suc n] s = f n (fold f [0..<n] s)"
  by simp

lemma unrolled: "fold (mont_word xu y f m) [4 * (n div 4)..<n] (fold (mont_four xu y f m) [0..<4 * (n div 4) div 4] s) =
  fold (mont_word xu y f m) [0..<n] s"
proof -
  have four: "fold (mont_four xu y f m) [0..<k] s = fold (mont_word xu y f m) [0..<4 * k] s" for k
  proof (induction k)
    case (Suc k)
    have "[0..<4 * Suc k] = [0..<4 * k] @ [4 * k, 4 * k + 1, 4 * k + 2, 4 * k + 3]"
      by (simp add: numeral_eq_Suc)
    moreover have "mont_four xu y f m k t = fold (mont_word xu y f m) [4 * k, 4 * k + 1, 4 * k + 2, 4 * k + 3] t" for t
      by (simp add: mont_four_def Let_def)
    ultimately show ?case by (simp only: fold_upt_Suc Suc fold_append o_apply)
  qed simp
  have "[0..<n] = [0..<4 * (n div 4)] @ [4 * (n div 4)..<n]" using upt_add_eq_append [of 0 "4 * (n div 4)" "n mod 4"] by simp
  then show ?thesis by (simp add: four)
qed

lemma unat_MUL31: "unat (MUL31 x y) = unat x * unat y"
proof -
  have "unat (ucast z :: u64) = unat z" for z :: u32
    using unsigned_less [of z, where 'a = nat] by (simp add: unsigned_ucast_eq take_bit_nat_eq_self)
  moreover have "unat x * unat y < 2 ^ 32 * 2 ^ 32"
    using unsigned_less [of x, where 'a = nat] unsigned_less [of y, where 'a = nat] by (intro mult_strict_mono) simp_all
  ultimately show ?thesis by (simp add: MUL31_def unat_word_ariths)
qed

lemma unat_ucast_64: "unat (ucast (z :: u32) :: u64) = unat z"
  using unsigned_less [of z, where 'a = nat] by (simp add: unsigned_ucast_eq take_bit_nat_eq_self)

lemma low31_64: "unat ((ucast (z :: u64) :: u32) AND 0x7FFFFFFF) = unat z mod W31"
proof -
  have "unat (ucast z :: u32) = unat z mod 2 ^ 32" by (simp add: unsigned_ucast_eq take_bit_eq_mod)
  moreover have "W31 dvd 2 ^ 32" by (simp add: W31_def)
  ultimately show ?thesis by (simp only: low31 mod_mod_cancel)
qed

text \<open>The sum of a word fits, and so does its carry.\<close>

lemma word_sum:
  fixes d xu y f m :: u32
  assumes "unat d < W31" "unat xu < W31" "unat y < W31" "unat f < W31" "unat m < W31" "unat r < 2 * W31"
  shows "unat (ucast d + MUL31 xu y + MUL31 f m + r) = unat d + unat xu * unat y + unat f * unat m + unat r"
    and "(unat d + unat xu * unat y + unat f * unat m + unat r) div W31 < 2 * W31"
proof -
  have p: "a * b \<le> (W31 - 1) * (W31 - 1)" if "a < W31" "b < W31" for a b using that by (intro mult_le_mono) simp_all
  have q: "unat d + unat xu * unat y + unat f * unat m + unat r < 2 * W31 * W31"
    using p [OF assms(2,3)] p [OF assms(4,5)] assms(1,6) by (simp add: W31_def)
  have s: "unat (ucast d + MUL31 xu y) = unat d + unat xu * unat y"
    "unat (ucast d + MUL31 xu y + MUL31 f m) = unat d + unat xu * unat y + unat f * unat m"
    "unat (ucast d + MUL31 xu y + MUL31 f m + r) = unat d + unat xu * unat y + unat f * unat m + unat r"
    using q by (simp_all add: W31_def unat_word_ariths(1) unat_MUL31 unat_ucast_64)
  show "unat (ucast d + MUL31 xu y + MUL31 f m + r) = unat d + unat xu * unat y + unat f * unat m + unat r" by (rule s(3))
  show "(unat d + unat xu * unat y + unat f * unat m + unat r) div W31 < 2 * W31"
    using q by (simp add: less_mult_imp_div_less)
qed

lemma mont_words:
  assumes "ok31 n D" "ok31 n y" "ok31 n m" "unat xu < W31" "unat f < W31"
  shows "\<exists>d r. fold (mont_word xu y f m) [0..<n] (D, 0) = (d, r) \<and> length d = length D \<and> (\<forall>i\<ge>n. d ! i = D ! i) \<and>
    (\<forall>i<n. unat (d ! i) < W31) \<and> unat r < 2 * W31 \<and>
    jval n d + W31 ^ n * unat r = ival n D + unat xu * ival n y + unat f * ival n m"
  using assms(1-3)
proof (induction n)
  case (Suc n)
  then obtain d r where IH: "fold (mont_word xu y f m) [0..<n] (D, 0) = (d, r)" "length d = length D"
    "\<And>i. n \<le> i \<Longrightarrow> d ! i = D ! i" "\<And>i. i < n \<Longrightarrow> unat (d ! i) < W31" "unat r < 2 * W31"
    "jval n d + W31 ^ n * unat r = ival n D + unat xu * ival n y + unat f * ival n m"
    by (auto simp: ok31_Suc)
  have b: "unat (D ! Suc n) < W31" "unat (y ! Suc n) < W31" "unat (m ! Suc n) < W31" "Suc n < length D"
    using Suc.prems by (simp_all add: ok31_Suc)
  define z where "z = ucast (D ! Suc n) + MUL31 xu (y ! Suc n) + MUL31 f (m ! Suc n) + r"
  note w = word_sum [OF b(1) assms(4) b(2) assms(5) b(3) IH(5), folded z_def]
  have f: "fold (mont_word xu y f m) [0..<Suc n] (D, 0) = (d[n := ucast z AND 0x7FFFFFFF], drop_bit 31 z)"
    unfolding fold_upt_Suc IH(1) by (simp add: mont_word_def Let_def IH(3) z_def)
  have "jval (Suc n) (d[n := ucast z AND 0x7FFFFFFF]) = jval n d + W31 ^ n * (unat z mod W31)"
    using b(4) IH(2) by (simp add: jval_Suc low31_64)
  then have v: "jval (Suc n) (d[n := ucast z AND 0x7FFFFFFF]) + W31 ^ Suc n * unat (drop_bit 31 z) =
      ival (Suc n) D + unat xu * ival (Suc n) y + unat f * ival (Suc n) m"
    using digit_carry [of n "unat z"] IH(6) by (simp only: high31) (simp add: w(1) algebra_simps)
  show ?case
    unfolding f using b(4) IH(2,3,4) w(2) v by (auto simp: low31_64 nth_list_update less_Suc_eq high31 w(1) simp del: power_Suc)
qed (auto simp: jval_def)

text \<open>The factor makes the lowest word of the sum zero.\<close>

definition inverse_ok :: "u32 \<Rightarrow> u32 list \<Rightarrow> bool" where
  "inverse_ok m0i m \<longleftrightarrow> W31 dvd unat m0i * unat (m ! 1) + 1"

lemma unat_MUL31_lo: "unat (MUL31_lo x y) = unat x * unat y mod W31"
proof -
  have "W31 dvd 2 ^ 32" by (simp add: W31_def)
  then show ?thesis by (simp add: MUL31_lo_def low31 unat_word_ariths mod_mod_cancel)
qed

lemma MUL31_lo_less [simp]: "unat (MUL31_lo x y) < W31"
  by (simp add: unat_MUL31_lo)

lemma mod_add_middle: "(a + b mod W + c) mod W = (a + b + c) mod (W :: nat)"
  by (metis add.assoc add.commute mod_add_left_eq)

lemma mod_mult_inner: "(a + (b mod W) * c) mod W = (a + b * c) mod (W :: nat)"
  by (metis mod_add_right_eq mod_mult_left_eq)

lemma factor_ok:
  assumes "W31 dvd i * m + 1"
  shows "W31 dvd s + (s mod W31 * i mod W31) * m"
proof -
  have "(s + (s mod W31 * i mod W31) * m) mod W31 = (s + s * i * m) mod W31"
    by (simp only: mod_mult_left_eq mod_mult_inner)
  also have "s + s * i * m = s * (i * m + 1)" by (simp only: distrib_left mult_1_right mult.assoc add.commute)
  also have "\<dots> mod W31 = 0" using assms by (simp only: dvd_eq_mod_eq_0 [symmetric] dvd_mult)
  finally show ?thesis by (simp only: dvd_eq_mod_eq_0)
qed

lemma ival_mod: "\<exists>q. ival (Suc n) x = unat (x ! 1) + W31 * q"
proof (induction n)
  case (Suc n)
  then obtain q where "ival (Suc n) x = unat (x ! 1) + W31 * q" by blast
  then have "ival (Suc (Suc n)) x = unat (x ! 1) + W31 * (q + W31 ^ n * unat (x ! Suc (Suc n)))" by (simp add: algebra_simps)
  then show ?case by blast
qed (auto intro: exI [of _ 0])

text \<open>What a row does to the number with its extra word.\<close>

lemma row_value:
  assumes "ok31 (Suc k) d" "ok31 (Suc k) y" "ok31 (Suc k) m" "unat xu < W31" "inverse_ok m0i m"
    and "f = MUL31_lo (d ! 1 + MUL31_lo xu (y ! 1)) m0i"
    and "fold (mont_word xu y f m) [0..<Suc k] (d, 0) = (d', r)"
  shows "W31 * (ival k d' + W31 ^ k * unat r) = ival (Suc k) d + unat xu * ival (Suc k) y + unat f * ival (Suc k) m"
    and "length d' = length d" and "\<forall>i>k. d' ! i = d ! i" and "ok31 k d'" and "unat r < 2 * W31"
proof -
  have f: "unat f < W31" by (simp add: assms(6))
  obtain d'' r'' where w: "(d', r) = (d'', r'')" "length d'' = length d" "\<And>i. Suc k \<le> i \<Longrightarrow> d'' ! i = d ! i"
    "\<And>i. i < Suc k \<Longrightarrow> unat (d'' ! i) < W31" "unat r'' < 2 * W31"
    "jval (Suc k) d'' + W31 ^ Suc k * unat r'' = ival (Suc k) d + unat xu * ival (Suc k) y + unat f * ival (Suc k) m"
    using mont_words [OF assms(1-4) f] unfolding assms(7) by blast
  have e: "d' = d''" "r = r''" using w(1) by simp_all
  have l: "Suc k < length d" using assms(1) by (simp add: ok31_def)
  show "length d' = length d" "\<forall>i>k. d' ! i = d ! i" "ok31 k d'" "unat r < 2 * W31"
    using w(2-5) l by (auto simp: e ok31_def)
  let ?s = "unat (d ! 1) + unat xu * unat (y ! 1) mod W31"
  have d1: "unat (d ! 1) < W31" using assms(1) by (simp add: ok31_def)
  have "unat (d ! 1 + MUL31_lo xu (y ! 1)) = ?s"
    using d1 MUL31_lo_less [of xu "y ! 1"] by (simp add: unat_word_ariths unat_MUL31_lo W31_def)
  then have fs: "unat f = ?s * unat m0i mod W31" by (simp add: assms(6) unat_MUL31_lo)
  have "W31 dvd ?s + (?s mod W31 * unat m0i mod W31) * unat (m ! 1)"
    using factor_ok [of "unat m0i" "unat (m ! 1)" ?s] assms(5) by (simp add: inverse_ok_def)
  then have "W31 dvd ?s + unat f * unat (m ! 1)" by (simp only: fs mod_mult_left_eq)
  then have "(unat (d ! 1) + unat xu * unat (y ! 1) mod W31 + unat f * unat (m ! 1)) mod W31 = 0" by (simp add: dvd_eq_mod_eq_0)
  then have z: "W31 dvd unat (d ! 1) + unat xu * unat (y ! 1) + unat f * unat (m ! 1)"
    unfolding dvd_eq_mod_eq_0 by (simp only: mod_add_middle)
  obtain p where p: "ival (Suc k) d = unat (d ! 1) + W31 * p" using ival_mod by blast
  obtain q where q: "ival (Suc k) y = unat (y ! 1) + W31 * q" using ival_mod by blast
  obtain t where t: "ival (Suc k) m = unat (m ! 1) + W31 * t" using ival_mod by blast
  let ?S = "ival (Suc k) d + unat xu * ival (Suc k) y + unat f * ival (Suc k) m"
  have S: "?S = (unat (d ! 1) + unat xu * unat (y ! 1) + unat f * unat (m ! 1)) + W31 * (p + unat xu * q + unat f * t)"
    unfolding p q t by (simp add: algebra_simps)
  then have dS: "W31 dvd ?S" using z by (simp only: dvd_add_times_triv_right_iff mult.commute [of W31])
  have j: "unat (d' ! 0) + W31 * (ival k d' + W31 ^ k * unat r) = ?S"
    using w(6) by (simp add: e jval_shift algebra_simps)
  then have "W31 dvd unat (d' ! 0)" using dS by (metis dvd_add_left_iff dvd_triv_left)
  moreover have "unat (d' ! 0) < W31" using w(4) [of 0] by (simp add: e)
  ultimately have "unat (d' ! 0) = 0" by (meson dvd_imp_le not_less gr0I)
  then show "W31 * (ival k d' + W31 ^ k * unat r) = ?S" using j by simp
qed

text \<open>The rows, with \<open>d\<close> and \<open>dh\<close> below twice the modulus.\<close>

lemma less_digits:
  assumes "a + M * b < 2 * (M * W)"
  shows "b < 2 * (W :: nat)"
proof (rule ccontr)
  assume "\<not> b < 2 * W"
  then have "M * (2 * W) \<le> M * b" by (intro mult_le_mono2) simp
  moreover have "M * (2 * W) = 2 * (M * W)" by simp
  ultimately show False using assms by linarith
qed

lemma double_digits: "0 < W \<Longrightarrow> 2 * M + 2 * ((W - 1) * M) = W * (2 * M)" for W :: nat
  by (cases W) simp_all

lemma mont_row_value:
  assumes "ok31 (Suc k) d" "ok31 (Suc k) y" "ok31 (Suc k) m" "unat (x ! Suc u) < W31" "inverse_ok m0i m"
    and "ival (Suc k) y < ival (Suc k) m" and "ival (Suc k) d + W31 ^ Suc k * unat dh < 2 * ival (Suc k) m"
    and "mont_row x y m m0i (Suc k) u (d, dh) = (e, eh)"
  shows "\<exists>f. W31 * (ival (Suc k) e + W31 ^ Suc k * unat eh) =
      ival (Suc k) d + W31 ^ Suc k * unat dh + unat (x ! Suc u) * ival (Suc k) y + f * ival (Suc k) m"
    and "ival (Suc k) e + W31 ^ Suc k * unat eh < 2 * ival (Suc k) m" and "ok31 (Suc k) e" and "length e = length d"
    and "\<forall>i>Suc k. e ! i = d ! i"
proof -
  let ?M = "ival (Suc k) m" and ?xu = "x ! Suc u"
  define f where "f = MUL31_lo (d ! 1 + MUL31_lo ?xu (y ! 1)) m0i"
  obtain d' r where w: "fold (mont_word ?xu y f m) [0..<Suc k] (d, 0) = (d', r)" by fastforce
  note v = row_value [OF assms(1-5) f_def w]
  let ?dh = "dh + ucast r"
  have e: "e = d'[Suc k := ?dh AND 0x7FFFFFFF]" "eh = drop_bit 31 ?dh"
    using assms(8) unfolding mont_row_def Let_def by (simp_all add: unrolled [simplified] w [unfolded f_def One_nat_def] del: upt_Suc)
  let ?T = "ival k d' + W31 ^ k * (unat dh + unat r)"
  have S: "W31 * ?T = ival (Suc k) d + W31 ^ Suc k * unat dh + unat ?xu * ival (Suc k) y + unat f * ?M"
    using v(1) by (simp add: algebra_simps)
  have f: "unat f < W31" by (simp add: f_def)
  have M: "?M < W31 ^ Suc k" by (rule ival_bound [OF assms(3)])
  have "unat ?xu * ival (Suc k) y \<le> (W31 - 1) * ?M" "unat f * ?M \<le> (W31 - 1) * ?M"
    using assms(4,6) f by (intro mult_le_mono; simp)+
  then have "W31 * ?T < 2 * ?M + 2 * ((W31 - 1) * ?M)" using S assms(7) by linarith
  also have "\<dots> = W31 * (2 * ?M)" by (rule double_digits) simp
  finally have T: "?T < 2 * ?M" by simp
  then have "?T < 2 * (W31 ^ k * W31)" using M by (simp add: mult.commute)
  then have b: "unat dh + unat r < 2 * W31" by (rule less_digits)
  then have r: "unat (?dh) = unat dh + unat r"
    by (simp add: unat_word_ariths W31_def unsigned_ucast_eq take_bit_nat_eq_self)
  have l: "Suc k < length d'" using v(2) assms(1) by (simp add: ok31_def)
  have "ival (Suc k) e + W31 ^ Suc k * unat eh =
      ival k d' + (W31 ^ k * (unat ?dh mod W31) + W31 ^ Suc k * (unat ?dh div W31))"
    using l by (simp add: e low31 high31)
  then have E: "ival (Suc k) e + W31 ^ Suc k * unat eh = ?T" by (simp only: digit_carry r)
  show "\<exists>f. W31 * (ival (Suc k) e + W31 ^ Suc k * unat eh) =
      ival (Suc k) d + W31 ^ Suc k * unat dh + unat ?xu * ival (Suc k) y + f * ?M"
    unfolding E using S by blast
  show "ival (Suc k) e + W31 ^ Suc k * unat eh < 2 * ?M" unfolding E by (rule T)
  show "ok31 (Suc k) e" using v(4) l by (simp add: e ok31_Suc low31)
  show "length e = length d" "\<forall>i>Suc k. e ! i = d ! i" using v(2,3) by (simp_all add: e)
qed

lemma mont_rows:
  assumes "ok31 (Suc k) d" "ival (Suc k) d = 0" "ok31 (Suc k) y" "ok31 (Suc k) m" "ok31 (Suc k) x" "inverse_ok m0i m"
    and "ival (Suc k) y < ival (Suc k) m" and "n \<le> Suc k"
  shows "\<exists>e eh q. fold (mont_row x y m m0i (Suc k)) [0..<n] (d, 0) = (e, eh) \<and>
    W31 ^ n * (ival (Suc k) e + W31 ^ Suc k * unat eh) = ival n x * ival (Suc k) y + q * ival (Suc k) m \<and>
    ival (Suc k) e + W31 ^ Suc k * unat eh < 2 * ival (Suc k) m \<and> ok31 (Suc k) e \<and> length e = length d \<and>
    (\<forall>i>Suc k. e ! i = d ! i)"
  using assms(8)
proof (induction n)
  case 0
  show ?case using assms by (intro exI [of _ d] exI [of _ 0]) auto
next
  case (Suc n)
  then obtain e eh q where IH: "fold (mont_row x y m m0i (Suc k)) [0..<n] (d, 0) = (e, eh)"
    "W31 ^ n * (ival (Suc k) e + W31 ^ Suc k * unat eh) = ival n x * ival (Suc k) y + q * ival (Suc k) m"
    "ival (Suc k) e + W31 ^ Suc k * unat eh < 2 * ival (Suc k) m" "ok31 (Suc k) e" "length e = length d"
    "\<forall>i>Suc k. e ! i = d ! i" by auto
  have xn: "unat (x ! Suc n) < W31" using assms(5) Suc.prems by (simp add: ok31_def)
  obtain e' eh' where r: "mont_row x y m m0i (Suc k) n (e, eh) = (e', eh')" by fastforce
  note v = mont_row_value [OF IH(4) assms(3,4) xn assms(6,7) IH(3) r]
  obtain f where f: "W31 * (ival (Suc k) e' + W31 ^ Suc k * unat eh') =
      ival (Suc k) e + W31 ^ Suc k * unat eh + unat (x ! Suc n) * ival (Suc k) y + f * ival (Suc k) m" using v(1) by blast
  have "W31 ^ Suc n * (ival (Suc k) e' + W31 ^ Suc k * unat eh') = W31 ^ n * (W31 * (ival (Suc k) e' + W31 ^ Suc k * unat eh'))"
    by (simp only: power_Suc mult_ac)
  also have "\<dots> = W31 ^ n * (ival (Suc k) e + W31 ^ Suc k * unat eh) + W31 ^ n * (unat (x ! Suc n) * ival (Suc k) y + f * ival (Suc k) m)"
    unfolding f by (simp only: distrib_left add_ac)
  also have "\<dots> = ival (Suc n) x * ival (Suc k) y + (q + W31 ^ n * f) * ival (Suc k) m"
    unfolding IH(2) by (simp add: algebra_simps)
  finally have "W31 ^ Suc n * (ival (Suc k) e' + W31 ^ Suc k * unat eh') =
      ival (Suc n) x * ival (Suc k) y + (q + W31 ^ n * f) * ival (Suc k) m" .
  then show ?case
    unfolding fold_upt_Suc IH(1) r using v(2-5) IH(5,6) by auto
qed

section \<open>Multiplication\<close>

text \<open>A modulus: an array with a number above one, its lowest word odd, and its \<open>m0i\<close>.\<close>

definition modulus_ok :: "u32 \<Rightarrow> u32 list \<Rightarrow> u32 \<Rightarrow> bool" where
  "modulus_ok h m m0i \<longleftrightarrow> i31_ok h m \<and> inverse_ok m0i m \<and> 1 < num m"

lemma modulus_words:
  assumes "modulus_ok h m m0i"
  obtains k where "words31 h = Suc k" "m ! 0 = h" "ok31 (Suc k) m" "ival (Suc k) m = num m" "inverse_ok m0i m" "header_ok h" "0 < num m"
proof -
  have "words31 h \<noteq> 0"
  proof
    assume "words31 h = 0"
    then have "num m = 0" using assms by (simp add: modulus_ok_def num_eq [of h])
    then show False using assms by (simp add: modulus_ok_def)
  qed
  then obtain k where "words31 h = Suc k" by (meson not0_implies_Suc)
  moreover have "ival (words31 h) m = num m" using assms by (simp add: modulus_ok_def num_eq [of h])
  ultimately show ?thesis using assms that by (simp add: modulus_ok_def i31_ok_def del: ival.simps)
qed

lemma or_not_bool: "(of_bool p :: u32) OR of_bool q = of_bool (p \<or> q)"
  by simp

theorem montymul_value:
  assumes "modulus_ok h m m0i" "ok31 (words31 h) x" "i31_ok h y" "num y < num m" "words31 h < length d"
  shows "i31_ok h (br_i31_montymul d x y m m0i)" and "length (br_i31_montymul d x y m m0i) = length d"
    and "num (br_i31_montymul d x y m m0i) < num m"
    and "(W31 ^ words31 h * num (br_i31_montymul d x y m m0i)) mod num m = (ival (words31 h) x * num y) mod num m"
proof -
  obtain k where k: "words31 h = Suc k" and m: "m ! 0 = h" "ok31 (Suc k) m" "ival (Suc k) m = num m" "inverse_ok m0i m" "header_ok h" "0 < num m"
    using modulus_words [OF assms(1)] by blast
  let ?d = "br_i31_zero d h"
  have d: "ok31 (Suc k) ?d" "ival (Suc k) ?d = 0" "length ?d = length d"
  proof -
    have z: "i31_ok h ?d" "num ?d = 0" using zero_ok [OF assms(5) m(5)] by simp_all
    show "ok31 (Suc k) ?d" using z(1) by (simp add: i31_ok_def k)
    show "ival (Suc k) ?d = 0" using z num_eq [OF z(1)] by (simp only: k)
    show "length ?d = length d" by (rule length_zero [OF assms(5)])
  qed
  have y: "ok31 (Suc k) y" "ival (Suc k) y = num y" using assms(3) by (simp_all add: num_eq k) (simp add: i31_ok_def k)
  obtain e eh q where r: "fold (mont_row x y m m0i (Suc k)) [0..<Suc k] (?d, 0) = (e, eh)"
    "W31 ^ Suc k * (ival (Suc k) e + W31 ^ Suc k * unat eh) = ival (Suc k) x * num y + q * num m"
    "ival (Suc k) e + W31 ^ Suc k * unat eh < 2 * num m" "ok31 (Suc k) e" "length e = length d"
    using mont_rows [OF d(1,2) y(1) m(2) _ m(4), of x "Suc k"] assms(2,4) by (auto simp: k m(3) y(2) d(3) simp del: upt_Suc ival.simps)
  define e' where "e' = e[0 := h]"
  have l: "0 < length e" using r(4) by (auto simp: ok31_def)
  have e0: "e' ! 0 = h" using l by (simp add: e'_def)
  have e': "i31_ok h e'" "length e' = length d" "num e' = ival (Suc k) e"
    using r(4,5) m(5) by (simp_all add: e0 num_def k i31_ok_def del: ival.simps) (simp_all add: e'_def ok31_def del: ival.simps)
  have M: "ok31 (words31 h) m" "ival (words31 h) m = num m" using m by (simp_all add: k)
  let ?t = "unat eh" and ?p = "eh \<noteq> 0 \<or> \<not> num e' < num m"
  have t: "num e' + W31 ^ words31 h * ?t < 2 * ival (words31 h) m" using r(3) by (simp only: e'(3) k m(3))
  have p: "?p \<longleftrightarrow> ival (words31 h) m \<le> num e' + W31 ^ words31 h * ?t"
  proof (cases "eh = 0")
    case False
    then have "W31 ^ words31 h * 1 \<le> W31 ^ words31 h * ?t" by (intro mult_le_mono2) (simp add: Suc_le_eq unat_gt_0)
    then have "num m \<le> num e' + W31 ^ words31 h * ?t" using ival_bound [OF M(1)] M(2) by linarith
    then show ?thesis using False by (simp add: M(2))
  qed (simp add: M(2) not_less)
  have s: "br_i31_sub e' m 0 = (e', of_bool (num e' < num m))"
    using br_i31_sub_value [OF e'(1) M(1), of False] by (auto simp: M(2))
  have c: "br_i31_montymul d x y m m0i = fst (br_i31_sub e' m (of_bool ?p))"
    unfolding br_i31_montymul_def Let_def m(1) k r(1) split_beta fst_conv snd_conv
    by (simp only: e'_def [symmetric] s fst_conv snd_conv NEQ_eq NOT32_bool or_not_bool)
  note f = final_sub [OF e'(1) M(1) t p]
  show "i31_ok h (br_i31_montymul d x y m m0i)" "length (br_i31_montymul d x y m m0i) = length d"
    unfolding c using f(1,2) e'(2) by simp_all
  have v: "num (br_i31_montymul d x y m m0i) = (ival (Suc k) e + W31 ^ Suc k * ?t) mod num m"
    unfolding c f(3) by (simp only: e'(3) k m(3))
  then show "num (br_i31_montymul d x y m m0i) < num m" using m(6) by simp
  show "(W31 ^ words31 h * num (br_i31_montymul d x y m m0i)) mod num m = (ival (words31 h) x * num y) mod num m"
    unfolding v k mod_mult_right_eq r(2) by simp
qed

section \<open>Out of Montgomery representation\<close>

lemma from_words:
  "fold (from_word f m) [0..<n] (x, c) =
    (case fold (mont_word 0 m f m) [0..<n] (x, c) of (d, r) \<Rightarrow> (d[0 := x ! 0], r))"
proof (induction n)
  case (Suc n)
  obtain d r where d: "fold (mont_word 0 m f m) [0..<n] (x, c) = (d, r)" by fastforce
  have z: "MUL31 0 w = 0" for w by (simp add: MUL31_def)
  show ?case
    unfolding fold_upt_Suc Suc d by (auto simp: from_word_def mont_word_def Let_def z list_update_swap)
qed simp

lemma all_digits: "0 < W \<Longrightarrow> M + (W - 1) * M = W * M" for W :: nat
  by (cases W) simp_all

lemma from_row_value:
  assumes "ok31 (Suc k) x" "ok31 (Suc k) m" "inverse_ok m0i m" "ival (Suc k) x < ival (Suc k) m"
  shows "\<exists>f. W31 * ival (Suc k) (from_row m m0i (Suc k) x) = ival (Suc k) x + f * ival (Suc k) m"
    and "ok31 (Suc k) (from_row m m0i (Suc k) x)" and "ival (Suc k) (from_row m m0i (Suc k) x) < ival (Suc k) m"
    and "length (from_row m m0i (Suc k) x) = length x" and "from_row m m0i (Suc k) x ! 0 = x ! 0"
proof -
  let ?M = "ival (Suc k) m"
  define f where "f = MUL31_lo (x ! 1 + MUL31_lo 0 (m ! 1)) m0i"
  have f0: "MUL31_lo (x ! 1) m0i = f" by (simp add: f_def MUL31_lo_def)
  obtain d r where w: "fold (mont_word 0 m f m) [0..<Suc k] (x, 0) = (d, r)" by fastforce
  have zero: "unat (0 :: u32) < W31" by simp
  note v = row_value [OF assms(1) assms(2) assms(2) zero assms(3) f_def w]
  have e: "from_row m m0i (Suc k) x = d[0 := x ! 0, Suc k := ucast r]"
    unfolding from_row_def Let_def f0 from_words w by simp
  have l: "Suc k < length x" "0 < length x" using assms(1) by (auto simp: ok31_def)
  have S: "W31 * (ival k d + W31 ^ k * unat r) = ival (Suc k) x + unat f * ?M" using v(1) by simp
  have "unat f * ?M \<le> (W31 - 1) * ?M" by (intro mult_le_mono) (simp_all add: f_def less_Suc_eq_le [symmetric])
  then have "W31 * (ival k d + W31 ^ k * unat r) < ?M + (W31 - 1) * ?M" using S assms(4) by linarith
  also have "\<dots> = W31 * ?M" by (rule all_digits) simp
  finally have T: "ival k d + W31 ^ k * unat r < ?M" by simp
  moreover have "?M < W31 ^ k * W31" using ival_bound [OF assms(2)] by (simp only: power_Suc2)
  ultimately have "W31 ^ k * unat r < W31 ^ k * W31" by linarith
  then have r: "unat r < W31" by simp
  then have u: "unat (ucast r :: u32) = unat r" by (simp add: unsigned_ucast_eq take_bit_nat_eq_self W31_def)
  have E: "ival (Suc k) (from_row m m0i (Suc k) x) = ival k d + W31 ^ k * unat r"
    using l v(2) by (simp add: e u)
  show "\<exists>f. W31 * ival (Suc k) (from_row m m0i (Suc k) x) = ival (Suc k) x + f * ?M" unfolding E using S by blast
  show "ival (Suc k) (from_row m m0i (Suc k) x) < ?M" unfolding E by (rule T)
  show "ok31 (Suc k) (from_row m m0i (Suc k) x)" using v(2,4) l r by (simp add: e ok31_Suc u) (simp add: ok31_def)
  show "length (from_row m m0i (Suc k) x) = length x" "from_row m m0i (Suc k) x ! 0 = x ! 0"
    using v(2) l by (simp_all add: e)
qed

theorem from_monty_value:
  assumes "modulus_ok h m m0i" "i31_ok h x" "num x < num m"
  shows "i31_ok h (br_i31_from_monty x m m0i)" and "length (br_i31_from_monty x m m0i) = length x"
    and "num (br_i31_from_monty x m m0i) < num m"
    and "(W31 ^ words31 h * num (br_i31_from_monty x m m0i)) mod num m = num x"
proof -
  obtain k where k: "words31 h = Suc k" and m: "m ! 0 = h" "ok31 (Suc k) m" "ival (Suc k) m = num m" "inverse_ok m0i m" "header_ok h" "0 < num m"
    using modulus_words [OF assms(1)] by blast
  have x: "x ! 0 = h" "ok31 (Suc k) x" "ival (Suc k) x = num x" using assms(2) by (simp_all add: num_eq k) (simp_all add: i31_ok_def k)
  let ?g = "\<lambda>n. (from_row m m0i (Suc k) ^^ n) x"
  have g: "ok31 (Suc k) (?g n) \<and> ival (Suc k) (?g n) < num m \<and> length (?g n) = length x \<and> ?g n ! 0 = h \<and>
      (W31 ^ n * ival (Suc k) (?g n)) mod num m = num x" for n
  proof (induction n)
    case (Suc n)
    note v = from_row_value [OF _ m(2,4), of "?g n", unfolded m(3)]
    have s: "?g (Suc n) = from_row m m0i (Suc k) (?g n)" by simp
    obtain f where f: "W31 * ival (Suc k) (?g (Suc n)) = ival (Suc k) (?g n) + f * num m" using v(1) Suc unfolding s by blast
    have "W31 ^ Suc n * ival (Suc k) (?g (Suc n)) = W31 ^ n * ival (Suc k) (?g n) + W31 ^ n * f * num m"
      unfolding power_Suc2 mult.assoc f by (simp only: distrib_left mult.assoc)
    then have "(W31 ^ Suc n * ival (Suc k) (?g (Suc n))) mod num m = num x" using Suc by (simp only: mod_mult_self1)
    moreover have "ok31 (Suc k) (?g (Suc n))" "ival (Suc k) (?g (Suc n)) < num m" "length (?g (Suc n)) = length x" "?g (Suc n) ! 0 = h"
      unfolding s using v(2-5) Suc by simp_all
    ultimately show ?case by blast
  qed (use x assms(3) in simp)
  let ?e = "?g (Suc k)"
  have e: "i31_ok h ?e" "num ?e = ival (Suc k) ?e" using g [of "Suc k"] m(5) unfolding num_def i31_ok_def k by (metis k)+
  have M: "ok31 (words31 h) m" "ival (words31 h) m = num m" using m by (simp_all add: k)
  have lt: "num ?e < num m" using g [of "Suc k"] unfolding e(2) by blast
  have s: "br_i31_sub ?e m 0 = (?e, of_bool (num ?e < num m))"
    using br_i31_sub_value [OF e(1) M(1), of False] by (simp add: M(2) del: funpow.simps)
  have n: "br_i31_sub ?e m (NOT32 1) = (?e, of_bool (num ?e < num m))"
    using NOT32_bool [of True] by (simp add: s del: funpow.simps)
  have c: "br_i31_from_monty x m m0i = ?e"
    unfolding br_i31_from_monty_def Let_def m(1) k s split_beta snd_conv fst_conv using lt n by (simp del: funpow.simps)
  show "i31_ok h (br_i31_from_monty x m m0i)" "num (br_i31_from_monty x m m0i) < num m" unfolding c by (rule e(1), rule lt)
  show "length (br_i31_from_monty x m m0i) = length x" unfolding c using g by blast
  show "(W31 ^ words31 h * num (br_i31_from_monty x m m0i)) mod num m = num x" unfolding c e(2) k using g by blast
qed

end
