(* ===== verification/I31_Red.thy ===== *)
theory I31_Red
  imports I31_Mont
begin

text \<open>
  Division and reduction on the big integers of BearSSL: \<^verbatim>\<open>i32_div32.c\<close> and \<^verbatim>\<open>i31_muladd.c\<close>, and \<^verbatim>\<open>i31_tmont.c\<close>. The quotient of
  \<open>x * 2 ^ 31 + z\<close> by the modulus is estimated from the top words and corrected once. Shown: the quotient and the remainder
  of a 64-bit number; that the estimate is off by one at most; and the remainder that comes out.
\<close>

section \<open>The code\<close>

text \<open>A step of the division, over the two halves of the dividend and the quotient.\<close>

definition divrem_step :: "u32 \<Rightarrow> nat \<Rightarrow> u32 \<times> u32 \<times> u32 \<Rightarrow> u32 \<times> u32 \<times> u32" where
  "divrem_step d k s =
     (let (hi, lo, q) = s;
          j = 32 - k;
          w = push_bit j hi OR drop_bit k lo;
          ctl = GE w d OR drop_bit k hi;
          hi2 = drop_bit j (w - d);
          lo2 = lo - push_bit k d
      in (MUX ctl hi2 hi, MUX ctl lo2 lo, q OR push_bit k ctl))"

text \<open>The quotient and the remainder.\<close>

definition br_divrem :: "u32 \<Rightarrow> u32 \<Rightarrow> u32 \<Rightarrow> u32 \<times> u32" where
  "br_divrem hi lo d =
     (let ch = EQ hi d;
          hi = MUX ch 0 hi;
          (hi, lo, q) = fold (divrem_step d) (rev [1..<32]) (hi, lo, 0);
          cf = GE lo d OR hi
      in (q OR cf, MUX cf (lo - d) lo))"

definition br_rem :: "u32 \<Rightarrow> u32 \<Rightarrow> u32 \<Rightarrow> u32" where
  "br_rem hi lo d = snd (br_divrem hi lo d)"

definition br_div :: "u32 \<Rightarrow> u32 \<Rightarrow> u32 \<Rightarrow> u32" where
  "br_div hi lo d = fst (br_divrem hi lo d)"

text \<open>A word of the subtraction of \<open>q * m\<close>, over the array, the carry and the comparison with the modulus.\<close>

definition muladd_word :: "u32 list \<Rightarrow> u32 \<Rightarrow> nat \<Rightarrow> u32 list \<times> u32 \<times> u32 \<Rightarrow> u32 list \<times> u32 \<times> u32" where
  "muladd_word m q u s =
     (let (x, cc, tb) = s;
          mw = m ! u;
          zl = MUL31 mw q + ucast cc;
          cc = ucast (drop_bit 31 zl);
          zw = ucast zl AND 0x7FFFFFFF;
          xw = x ! u;
          nxw = xw - zw;
          cc = cc + drop_bit 31 nxw;
          nxw = nxw AND 0x7FFFFFFF
      in (x[u := nxw], cc, MUX (EQ nxw mw) tb (GT nxw mw)))"

text \<open>The array with its words moved up by one and a new lowest word.\<close>

definition shift_in :: "u32 list \<Rightarrow> nat \<Rightarrow> u32 \<Rightarrow> u32 list" where
  "shift_in x mlen z = take 1 x @ [z] @ take (mlen - 1) (drop 1 x) @ drop (mlen + 1) x"

definition top_word :: "nat \<Rightarrow> u32 list \<Rightarrow> nat \<Rightarrow> u32" where
  "top_word mblr x mlen = (push_bit (31 - mblr) (x ! mlen) OR drop_bit mblr (x ! (mlen - 1))) AND 0x7FFFFFFF"

definition br_i31_muladd_small :: "u32 list \<Rightarrow> u32 \<Rightarrow> u32 list \<Rightarrow> u32 list" where
  "br_i31_muladd_small x z m =
     (let m_bitlen = m ! 0
      in if m_bitlen = 0 then x
         else if m_bitlen \<le> 31 then
           let hi = drop_bit 1 (x ! 1); lo = push_bit 31 (x ! 1) OR z in x[1 := br_rem hi lo (m ! 1)]
         else
           let mlen = words31 m_bitlen;
               mblr = unat (m_bitlen AND 31);
               hi = x ! mlen;
               a0 = (if mblr = 0 then x ! mlen else top_word mblr x mlen);
               x = shift_in x mlen z;
               a1 = (if mblr = 0 then x ! mlen else top_word mblr x mlen);
               b0 = (if mblr = 0 then m ! mlen else top_word mblr m mlen);
               g = br_div (drop_bit 1 a0) (a1 OR push_bit 31 a0) b0;
               q = MUX (EQ a0 b0) 0x7FFFFFFF (MUX (EQ g 0) 0 (g - 1));
               (x, cc, tb) = fold (muladd_word m q) [1..<Suc mlen] (x, 0, 1);
               over = GT cc hi;
               under = NOT over AND (tb OR LT cc hi);
               x = fst (br_i31_add x m over)
           in fst (br_i31_sub x m under))"

definition br_i31_to_monty :: "u32 list \<Rightarrow> u32 list \<Rightarrow> u32 list" where
  "br_i31_to_monty x m = ((\<lambda>x. br_i31_muladd_small x 0 m) ^^ words31 (m ! 0)) x"

section \<open>Division\<close>

lemma unat_push_bit: "unat (push_bit n (x :: u32)) = unat x * 2 ^ n mod 2 ^ 32"
  unfolding unsigned_push_bit_eq by (simp add: take_bit_eq_mod push_bit_eq_mult)

lemma or_disjoint:
  assumes "2 ^ j dvd unat x" and "unat y < 2 ^ j"
  shows "unat (x OR y) = unat x + unat (y :: u32)"
proof -
  have "unat x AND unat y = 0"
  proof -
    have "take_bit j (unat x) = 0" using assms(1) by (simp add: take_bit_eq_mod)
    moreover have "take_bit j (unat y) = unat y" using assms(2) by (simp add: take_bit_nat_eq_self)
    ultimately show ?thesis by (metis and.right_neutral and_zero_eq take_bit_and take_bit_eq_mask and.assoc and.left_commute zero_and_eq)
  qed
  then have "unat x OR unat y = unat x + unat y" by (simp add: disjunctive_add_eq_or)
  then show ?thesis by (simp add: unsigned_or_eq)
qed

text \<open>The upper part of the dividend, which may have one bit more than the word.\<close>

lemma upper_part:
  fixes hi lo K J :: nat
  assumes "hi div K \<le> 1" and "lo < K * J" and "0 < K" and "0 < J"
  shows "(hi * (K * J) + lo) div K = hi div K * (K * J) + ((hi * J) mod (K * J) + lo div K)"
    and "(hi * J) mod (K * J) + lo div K < K * J"
proof -
  have l: "lo div K < J" using assms(2) by (simp add: less_mult_imp_div_less mult.commute)
  have "(hi * (K * J) + lo) div K = hi * J + lo div K"
    using assms(3) by (simp add: mult.commute [of K] flip: mult.assoc)
  moreover have "hi * J = hi div K * (K * J) + (hi * J) mod (K * J)"
  proof -
    have "(hi * J) mod (K * J) = (hi mod K) * J" by (simp only: mult_mod_left)
    moreover have "hi * J = (hi div K * K + hi mod K) * J" by (simp only: div_mult_mod_eq)
    ultimately show ?thesis by (simp only: distrib_right mult.assoc)
  qed
  ultimately show "(hi * (K * J) + lo) div K = hi div K * (K * J) + ((hi * J) mod (K * J) + lo div K)" by linarith
  have "(hi * J) mod (K * J) = (hi mod K) * J" by (simp only: mult_mod_left)
  also have "\<dots> \<le> (K - 1) * J" using assms(3) by (intro mult_le_mono1) (simp add: less_Suc_eq_le [symmetric])
  finally have "(hi * J) mod (K * J) + lo div K < (K - 1) * J + J" using l by linarith
  also have "\<dots> = K * J" using assms(3) by (cases K) simp_all
  finally show "(hi * J) mod (K * J) + lo div K < K * J" .
qed

lemma unat_of_bool: "unat (of_bool p :: u32) = of_bool p"
  by simp

lemma divrem_step_value:
  assumes "0 < k" "k < 32" and "unat hi * 2 ^ 32 + unat lo < unat d * 2 ^ Suc k" and "2 ^ Suc k dvd unat q"
    and "divrem_step d k (hi, lo, q) = (hi', lo', q')"
  shows "unat hi' * 2 ^ 32 + unat lo' < unat d * 2 ^ k" and "2 ^ k dvd unat q'"
    and "unat q' * unat d + (unat hi' * 2 ^ 32 + unat lo') = unat q * unat d + (unat hi * 2 ^ 32 + unat lo)"
proof -
  define K J :: nat where "K = 2 ^ k" and "J = 2 ^ (32 - k)"
  have KJ: "2 ^ 32 = K * J" "0 < K" "0 < J" using assms(2) by (simp_all add: K_def J_def flip: power_add)
  let ?N = "unat hi * 2 ^ 32 + unat lo"
  have d: "unat d < K * J" using unsigned_less [of d, where 'a = nat] by (simp flip: KJ(1))
  have lo: "unat lo < K * J" using unsigned_less [of lo, where 'a = nat] by (simp flip: KJ(1))
  have h: "unat hi div K \<le> 1"
  proof -
    have "unat hi * 2 ^ 32 < 2 ^ 32 * 2 ^ Suc k" using assms(3) d unfolding KJ(1) [symmetric]
      by (meson add_lessD1 less_trans mult_less_mono1 zero_less_numeral zero_less_power)
    then have "unat hi < 2 * K" by (simp add: K_def)
    then show ?thesis using less_mult_imp_div_less [of "unat hi" 2 K] by simp
  qed
  note u = upper_part [OF h lo KJ(2,3)]
  define w where "w = push_bit (32 - k) hi OR drop_bit k lo"
  have w: "unat w = (unat hi * J) mod (K * J) + unat lo div K"
  proof -
    have "unat (push_bit (32 - k) hi) = (unat hi * J) mod (K * J)" 
      by (simp only: unat_push_bit KJ(1)) (simp only: J_def)
    moreover have "2 ^ (32 - k) dvd (unat hi * J) mod (K * J)" by (simp add: J_def mult_mod_left)
    moreover have "unat lo div K < J" using lo by (simp add: less_mult_imp_div_less mult.commute)
    ultimately show ?thesis
      unfolding w_def by (subst or_disjoint [where j = "32 - k"]) (simp_all add: unat_drop_bit J_def K_def)
  qed
  have W: "?N div K = unat hi div K * (K * J) + unat w" using u(1) by (simp only: w KJ(1))
  have hk: "drop_bit k hi = of_bool (K \<le> unat hi)"
  proof -
    have "unat (drop_bit k hi) = of_bool (K \<le> unat hi)"
      using h by (cases "K \<le> unat hi") (auto simp: unat_drop_bit K_def le_Suc_eq div_eq_0_iff not_le)
    then show ?thesis unfolding word_unat_eq_iff by simp
  qed
  have h1: "unat hi div K = of_bool (K \<le> unat hi)"
    using h KJ(2) by (cases "K \<le> unat hi") (auto simp: le_Suc_eq div_eq_0_iff not_le)
  have c: "GE w d OR drop_bit k hi = of_bool (unat d \<le> ?N div K)"
    unfolding hk W h1 using d by (auto simp: ct word_le_nat_alt)
  have s: "divrem_step d k (hi, lo, q) = (if unat d \<le> ?N div K
      then (drop_bit (32 - k) (w - d), lo - push_bit k d, q OR push_bit k 1) else (hi, lo, q))"
    by (simp only: divrem_step_def Let_def prod.case w_def [symmetric] c MUX_bool) simp
  have q: "unat (q OR push_bit k 1) = unat q + K"
  proof -
    have "(2 :: nat) ^ k < 2 ^ 32" using assms(2) by (intro power_strict_increasing) simp_all
    then have "1 * 2 ^ k mod 2 ^ 32 = K" by (simp add: K_def)
    then have "unat (push_bit k 1 :: u32) = K" by (simp only: unat_push_bit unsigned_1)
    then show ?thesis using assms(4) by (subst or_disjoint [where j = "Suc k"]) (simp_all add: K_def)
  qed
  have "unat hi' * 2 ^ 32 + unat lo' < unat d * K \<and> 2 ^ k dvd unat q' \<and>
    unat q' * unat d + (unat hi' * 2 ^ 32 + unat lo') = unat q * unat d + ?N"
  proof (cases "unat d \<le> ?N div K")
    case True
    define N' where "N' = ?N - unat d * K"
    have "unat d * K \<le> ?N div K * K" using True by (rule mult_le_mono1)
    then have le: "unat d * K \<le> ?N" using div_times_less_eq_dividend [of ?N K] by linarith
    then have N: "?N = N' + unat d * K" by (simp add: N'_def)
    then have N': "N' < unat d * K" using assms(3) by (simp add: K_def)
    have V: "?N div K = N' div K + unat d" unfolding N using KJ(2) by simp
    have "N' div K < unat d" using N' by (simp add: less_mult_imp_div_less)
    then have "unat (w - d) = N' div K"
      using W V d unat_diff [of w d] KJ(1) by (cases "unat hi div K = 0") (auto simp: h1 split: if_splits)
    then have h2: "unat (drop_bit (32 - k) (w - d)) = N' div 2 ^ 32"
      by (simp only: unat_drop_bit KJ(1) div_mult2_eq) (simp only: J_def)
    have "(word_of_nat ?N :: u32) = word_of_nat (unat lo)"
    proof -
      have "word_of_nat (2 ^ 32) = (0 :: u32)" by simp
      then show ?thesis by (simp only: of_nat_add of_nat_mult mult_zero_right add_0)
    qed
    then have "lo = word_of_nat N' + word_of_nat (unat d * K)" unfolding N of_nat_add by simp
    moreover have "word_of_nat (unat d * K) = push_bit k d" by (simp add: push_bit_eq_mult K_def)
    ultimately have "lo - push_bit k d = word_of_nat N'" by simp
    then have l2: "unat (lo - push_bit k d) = N' mod 2 ^ 32" by (simp only: unat_of_nat) (simp add: take_bit_eq_mod)
    have e: "hi' = drop_bit (32 - k) (w - d)" "lo' = lo - push_bit k d" "q' = q OR push_bit k 1"
      using assms(5) True unfolding s by simp_all
    have sum: "unat hi' * 2 ^ 32 + unat lo' = N'" unfolding e h2 l2 by (rule div_mult_mod_eq)
    have dq: "2 ^ k dvd unat q'" using assms(4) unfolding e q by (simp add: K_def power_le_dvd [of 2 "Suc k"])
    have "unat q' * unat d + N' = unat q * unat d + ?N" unfolding e q N by (simp add: algebra_simps)
    then show ?thesis unfolding sum using N' dq by blast
  next
    case False
    then have e: "hi' = hi" "lo' = lo" "q' = q" using assms(5) unfolding s by simp_all
    have "?N < unat d * K" using False KJ(2) by (simp add: not_le div_less_iff_less_mult)
    moreover have "2 ^ k dvd unat q" using assms(4) by (simp add: power_le_dvd [of 2 "Suc k"])
    ultimately show ?thesis unfolding e by blast
  qed
  then show "unat hi' * 2 ^ 32 + unat lo' < unat d * 2 ^ k" "2 ^ k dvd unat q'"
    "unat q' * unat d + (unat hi' * 2 ^ 32 + unat lo') = unat q * unat d + ?N" unfolding K_def by blast+
qed

lemma divrem_steps:
  assumes "n < 32" and "unat hi * 2 ^ 32 + unat lo < unat d * 2 ^ 32"
  shows "\<exists>hi' lo' q'. fold (divrem_step d) (rev [32 - n..<32]) (hi, lo, 0) = (hi', lo', q') \<and>
    unat hi' * 2 ^ 32 + unat lo' < unat d * 2 ^ (32 - n) \<and> 2 ^ (32 - n) dvd unat q' \<and>
    unat q' * unat d + (unat hi' * 2 ^ 32 + unat lo') = unat hi * 2 ^ 32 + unat lo"
  using assms(1)
proof (induction n)
  case 0
  then show ?case using assms(2) by simp
next
  case (Suc n)
  then obtain hi' lo' q' where IH: "fold (divrem_step d) (rev [32 - n..<32]) (hi, lo, 0) = (hi', lo', q')"
    "unat hi' * 2 ^ 32 + unat lo' < unat d * 2 ^ (32 - n)" "2 ^ (32 - n) dvd unat q'"
    "unat q' * unat d + (unat hi' * 2 ^ 32 + unat lo') = unat hi * 2 ^ 32 + unat lo"
    by auto
  have k: "0 < 32 - Suc n" "32 - Suc n < 32" "Suc (32 - Suc n) = 32 - n" using Suc.prems by simp_all
  have l: "rev [32 - Suc n..<32] = rev [32 - n..<32] @ [32 - Suc n]"
    using upt_conv_Cons [of "32 - Suc n" 32] k by simp
  obtain hi2 lo2 q2 where s: "divrem_step d (32 - Suc n) (hi', lo', q') = (hi2, lo2, q2)" by (metis prod_cases3)
  note v = divrem_step_value [OF k(1,2) IH(2,3) [folded k(3)] s]
  show ?case unfolding l fold_append o_apply IH(1) fold_simps s using v IH(4) by auto
qed

text \<open>The quotient and the remainder of a number whose upper half is below the divisor.\<close>

theorem br_divrem_value:
  assumes "unat hi < unat d"
  shows "unat (fst (br_divrem hi lo d)) = (unat hi * 2 ^ 32 + unat lo) div unat d"
    and "unat (snd (br_divrem hi lo d)) = (unat hi * 2 ^ 32 + unat lo) mod unat d"
proof -
  let ?N = "unat hi * 2 ^ 32 + unat lo"
  have "unat hi * 2 ^ 32 + unat lo < (unat hi + 1) * 2 ^ 32" using unsigned_less [of lo, where 'a = nat] by simp
  also have "\<dots> \<le> unat d * 2 ^ 32" using assms by (intro mult_le_mono1) simp
  finally have N: "?N < unat d * 2 ^ 32" .
  obtain hi' lo' q' where r: "fold (divrem_step d) (rev [1..<32]) (hi, lo, 0) = (hi', lo', q')"
    "unat hi' * 2 ^ 32 + unat lo' < unat d * 2" "2 dvd unat q'" "unat q' * unat d + (unat hi' * 2 ^ 32 + unat lo') = ?N"
    using divrem_steps [of 31, OF _ N] by auto
  have dl: "unat d < 2 ^ 32" using unsigned_less [of d, where 'a = nat] by simp
  have "unat hi' * 2 ^ 32 < 2 * 2 ^ 32" using r(2) dl by linarith
  then have hb: "hi' = of_bool (1 \<le> unat hi')"
    by (cases "unat hi' = 0") (auto simp: word_unat_eq_iff)
  let ?p = "unat d \<le> unat hi' * 2 ^ 32 + unat lo'"
  have c: "GE lo' d OR hi' = of_bool ?p"
  proof -
    have "GE lo' d OR hi' = of_bool (unat d \<le> unat lo') OR of_bool (1 \<le> unat hi')" using hb by (simp add: ct word_le_nat_alt)
    also have "\<dots> = of_bool ?p" using dl by (cases "unat hi' = 0") auto
    finally show ?thesis .
  qed
  have m: "EQ hi d = of_bool False" using assms by (auto simp: ct)
  have b: "br_divrem hi lo d = (q' OR of_bool ?p, MUX (of_bool ?p) (lo' - d) lo')"
    by (simp only: br_divrem_def Let_def m MUX_bool if_False r(1) prod.case c)
  have q: "unat (q' OR of_bool ?p) = unat q' + of_bool ?p"
    using r(3) by (subst or_disjoint [where j = 1]) simp_all
  have rm: "unat (MUX (of_bool ?p) (lo' - d) lo') = unat hi' * 2 ^ 32 + unat lo' - unat d * of_bool ?p"
  proof (cases "unat hi' = 0")
    case True
    then show ?thesis by (simp add: MUX_bool unat_diff)
  next
    case False
    then have h: "unat hi' = 1" using hb by (metis unat_of_bool of_bool_eq(2) One_nat_def Suc_le_eq gr0I)
    then show ?thesis using dl r(2) MUX_bool [of True] by (simp add: unat_diff)
  qed
  let ?r = "unat hi' * 2 ^ 32 + unat lo' - unat d * of_bool ?p"
  have "?N = (unat q' + of_bool ?p) * unat d + ?r" using r(4) by (simp add: algebra_simps)
  moreover have "?r < unat d" using r(2) by auto
  ultimately have "?N div unat d = unat q' + of_bool ?p \<and> ?N mod unat d = ?r"
    using assms by (simp only: div_mult_self3 mod_mult_self3 div_less mod_less) simp
  then show "unat (fst (br_divrem hi lo d)) = ?N div unat d" "unat (snd (br_divrem hi lo d)) = ?N mod unat d"
    by (simp_all only: b fst_conv snd_conv q rm)
qed

section \<open>The estimate of the quotient\<close>

text \<open>The quotient by the upper digits of a divisor whose first digit is at least half the base is too large by two at most.\<close>

lemma quotient_estimate:
  fixes W :: nat
  assumes "b2 < D" "W \<le> 2 * b" "b < W" "M = b * D + b2" "X < M" "z < W"
    and "U = X div D * W + (W * X + z) div D mod W"
    and "q = (if X div D = b then W - 1 else if U div b = 0 then 0 else U div b - 1)"
  shows "q * M \<le> W * X + z + M" and "W * X + z < (q + 2) * M" and "q < W"
proof -
  let ?A = "W * X + z" let ?s = "?A div M" let ?u = "U div b"
  have D: "0 < D" and b: "0 < b" and M: "0 < M" using assms(1-5) by auto
  have "?A div D div W = ?A div W div D" by (simp only: div_mult2_eq [symmetric] mult.commute)
  also have "?A div W = X" using assms(6) by simp
  finally have U: "U = ?A div D" using div_mult_mod_eq [of "?A div D" W] by (simp only: assms(7))
  have "X div D \<le> M div D" using assms(5) by (intro div_le_mono) simp
  also have "M div D = b" using assms(1) by (simp add: assms(4))
  finally have a0: "X div D \<le> b" .
  have A: "?A < W * M"
  proof -
    have "W * (X + 1) \<le> W * M" using assms(5) by (intro mult_le_mono2) simp
    then show ?thesis using assms(6) by simp
  qed
  then have s1: "?s < W" by (simp add: less_mult_imp_div_less)
  have s2: "?s \<le> ?u"
  proof -
    have "?s * b * D \<le> ?s * M" by (simp add: assms(4) algebra_simps)
    also have "\<dots> \<le> ?A" by (rule div_times_less_eq_dividend)
    finally have "?s * b \<le> ?A div D" using D by (simp add: less_eq_div_iff_mult_less_eq)
    then show ?thesis unfolding U using b by (simp add: less_eq_div_iff_mult_less_eq)
  qed
  have u1: "?u \<le> W + 1"
  proof -
    have "U \<le> b * W + (W - 1)" unfolding assms(7) using a0 assms(2,3) by (intro add_mono mult_le_mono1) (simp_all add: less_Suc_eq_le [symmetric])
    also have "\<dots> < (W + 2) * b" using assms(2,3) by (simp add: algebra_simps)
    finally have "?u < W + 2" by (simp add: less_mult_imp_div_less)
    then show ?thesis by simp
  qed
  have s3: "?u \<le> ?s + 2"
  proof (cases "?u \<le> 2")
    case False
    define v where "v = ?u - 2"
    have v: "?u = v + 2" using False by (simp add: v_def)
    have "v \<le> 2 * b" using u1 assms(2) v by simp
    then have "v * D \<le> 2 * b * D" by (rule mult_le_mono1)
    moreover have "v * b2 \<le> v * D" using assms(1) by (intro mult_le_mono2) simp
    moreover have "v * M = v * b * D + v * b2" "(v + 2) * b * D = v * b * D + 2 * b * D"
      by (simp_all add: assms(4) algebra_simps)
    ultimately have "v * M \<le> (v + 2) * b * D" by linarith
    also have "\<dots> = ?u * b * D" by (simp only: v)
    also have "\<dots> \<le> U * D" by (intro mult_le_mono1) (rule div_times_less_eq_dividend)
    also have "\<dots> \<le> ?A" unfolding U by (rule div_times_less_eq_dividend)
    finally have "v \<le> ?s" using M by (simp add: less_eq_div_iff_mult_less_eq)
    then show ?thesis using v by simp
  qed simp
  have q: "q \<le> ?s + 1 \<and> ?s \<le> q + 1 \<and> q < W"
  proof (cases "X div D = b")
    case True
    have "b * W \<le> U" by (simp add: assms(7) True)
    then have "W \<le> ?u" using b by (simp add: less_eq_div_iff_mult_less_eq mult.commute)
    then show ?thesis using True s1 s3 assms(3,8) by simp
  next
    case False
    then have "X div D + 1 \<le> b" using a0 by simp
    then have "(X div D + 1) * W \<le> b * W" by (rule mult_le_mono1)
    moreover have "U < (X div D + 1) * W" unfolding assms(7) using assms(3) by simp
    ultimately have "?u < W" by (simp add: less_mult_imp_div_less mult.commute)
    then show ?thesis using False s2 s3 assms(8) by auto
  qed
  have "q * M \<le> (?s + 1) * M" using q by (intro mult_le_mono1) simp
  moreover have "(?s + 1) * M = ?s * M + M" by simp
  ultimately show "q * M \<le> ?A + M" using div_times_less_eq_dividend [of ?A M] by linarith
  have "?A < (?s + 1) * M" using M by (simp add: dividend_less_times_div mult.commute)
  also have "\<dots> \<le> (q + 2) * M" using q by (intro mult_le_mono1) simp
  finally show "?A < (q + 2) * M" .
  show "q < W" using q by blast
qed

section \<open>Subtracting a multiple of the modulus\<close>

lemma muladd_word_values:
  fixes mw q xw cc cc' :: u32
  assumes "unat mw < W31" "unat q < W31" "unat xw < W31" "unat cc < W31"
    and "zl = MUL31 mw q + ucast cc" "zw = ucast zl AND 0x7FFFFFFF" "nxw = xw - zw"
    and "cc' = ucast (drop_bit 31 zl) + drop_bit 31 nxw"
  shows "unat (nxw AND 0x7FFFFFFF) + unat mw * unat q + unat cc = unat xw + W31 * unat cc'"
proof -
  have "unat mw * unat q \<le> (W31 - 1) * (W31 - 1)" using assms(1,2) by (intro mult_le_mono) simp_all
  then have p: "unat mw * unat q + unat cc < W31 * W31" using assms(4) by (simp add: W31_def)
  then have z: "unat zl = unat mw * unat q + unat cc"
    unfolding assms(5) by (simp add: unat_word_ariths(1) unat_MUL31 unat_ucast_64 W31_def)
  have h: "unat zl div W31 < W31" using p by (simp add: z less_mult_imp_div_less)
  have zw: "unat zw = unat zl mod W31" by (simp only: assms(6) low31_64)
  have "unat nxw = (if unat zw \<le> unat xw then unat xw - unat zw else unat xw + 2 * W31 - unat zw)"
    by (simp add: assms(7) unat_diff W31_def)
  then have d: "unat nxw div W31 = of_bool (unat xw < unat zw)"
    "unat nxw mod W31 + unat zw = unat xw + W31 * of_bool (unat xw < unat zw)"
    using borrow_digit [of "unat xw" W31 "unat zw" "unat nxw"] assms(3) zw by simp_all
  have c1: "unat (ucast (drop_bit 31 zl) :: u32) = unat zl div W31"
    using h by (simp add: unsigned_ucast_eq take_bit_nat_eq_self high31 W31_def)
  have c2: "unat (drop_bit 31 nxw) = of_bool (unat xw < unat zw)" by (simp only: high31 d(1))
  have c: "unat cc' = unat zl div W31 + of_bool (unat xw < unat zw)"
    unfolding assms(8) using h by (simp add: unat_word_ariths(1) c1 c2 W31_def)
  have "unat nxw mod W31 + unat zl = unat nxw mod W31 + unat zw + W31 * (unat zl div W31)"
    unfolding zw by (simp only: add.assoc mod_mult_div_eq)
  then show ?thesis unfolding low31 c using d(2) z by (simp add: algebra_simps)
qed

lemma muladd_words:
  assumes "ok31 n x" "ok31 n m" "unat q < W31"
  shows "\<exists>x' cc. fold (muladd_word m q) [1..<Suc n] (x, 0, 1) = (x', cc, of_bool (ival n m \<le> ival n x')) \<and> length x' = length x \<and>
    (\<forall>i. i = 0 \<or> n < i \<longrightarrow> x' ! i = x ! i) \<and> ok31 n x' \<and> unat cc < W31 \<and>
    ival n x' + unat q * ival n m = ival n x + W31 ^ n * unat cc"
  using assms(1,2)
proof (induction n)
  case 0
  then show ?case by (auto simp: ok31_def)
next
  case (Suc n)
  then obtain x' cc where IH: "fold (muladd_word m q) [1..<Suc n] (x, 0, 1) = (x', cc, of_bool (ival n m \<le> ival n x'))"
    "length x' = length x" "\<And>i. i = 0 \<or> n < i \<Longrightarrow> x' ! i = x ! i" "ok31 n x'" "unat cc < W31"
    "ival n x' + unat q * ival n m = ival n x + W31 ^ n * unat cc" by (auto simp: ok31_Suc)
  have b: "unat (m ! Suc n) < W31" "unat (x ! Suc n) < W31" "Suc n < length x" using Suc.prems by (simp_all add: ok31_Suc)
  define zl where "zl = MUL31 (m ! Suc n) q + ucast cc"
  define zw :: u32 where "zw = ucast zl AND 0x7FFFFFFF"
  define nxw where "nxw = x ! Suc n - zw"
  define cc' where "cc' = ucast (drop_bit 31 zl) + drop_bit 31 nxw"
  define y where "y = x'[Suc n := nxw AND 0x7FFFFFFF]"
  note w = muladd_word_values [OF b(1) assms(3) b(2) IH(5) zl_def zw_def nxw_def cc'_def]
  have y: "ival (Suc n) y = ival n x' + W31 ^ n * unat (nxw AND 0x7FFFFFFF)" using b(3) IH(2) by (simp add: y_def)
  have yok: "ok31 (Suc n) y" using b(3) IH(2,4) by (simp add: y_def ok31_Suc low31)
  have v: "ival (Suc n) y + unat q * ival (Suc n) m = ival (Suc n) x + W31 ^ Suc n * unat cc'"
  proof -
    have "W31 ^ n * (unat (nxw AND 0x7FFFFFFF) + unat (m ! Suc n) * unat q + unat cc) = W31 ^ n * (unat (x ! Suc n) + W31 * unat cc')"
      by (simp only: w)
    then show ?thesis unfolding y using IH(6) by (simp add: algebra_simps)
  qed
  have "unat cc' < W31"
  proof -
    have m: "ival (Suc n) m < W31 ^ Suc n" using Suc.prems by (intro ival_bound) simp
    have "unat q * ival (Suc n) m \<le> (W31 - 1) * W31 ^ Suc n" using assms(3) m by (intro mult_le_mono) simp_all
    then have "W31 ^ Suc n * unat cc' < W31 ^ Suc n + (W31 - 1) * W31 ^ Suc n" using v ival_bound [OF yok] by linarith
    also have "\<dots> = W31 ^ Suc n * W31" using all_digits [of W31 "W31 ^ Suc n"] by (simp add: mult.commute)
    finally show ?thesis by simp
  qed
  moreover have "MUX (EQ (nxw AND 0x7FFFFFFF) (m ! Suc n)) (of_bool (ival n m \<le> ival n x')) (GT (nxw AND 0x7FFFFFFF) (m ! Suc n)) =
      of_bool (ival (Suc n) m \<le> ival (Suc n) y)"
  proof -
    have l: "ival n m < W31 ^ n" "ival n x' < W31 ^ n" using Suc.prems IH(4) by (simp_all add: ok31_Suc ival_bound)
    have "ival (Suc n) m \<le> ival (Suc n) y \<longleftrightarrow> \<not> ival n x' + W31 ^ n * unat (nxw AND 0x7FFFFFFF) < ival n m + W31 ^ n * unat (m ! Suc n)"
      unfolding y by (simp add: not_less)
    also have "\<dots> \<longleftrightarrow> \<not> unat (nxw AND 0x7FFFFFFF) < unat (m ! Suc n) + of_bool (ival n x' < ival n m)"
      by (simp only: digit_less [OF l(2,1)])
    finally show ?thesis by (auto simp: ct word_less_nat_alt word_unat_eq_iff)
  qed
  ultimately have "fold (muladd_word m q) [1..<Suc (Suc n)] (x, 0, 1) = (y, cc', of_bool (ival (Suc n) m \<le> ival (Suc n) y))"
    unfolding fold_upto_Suc IH(1) by (simp add: muladd_word_def Let_def IH(3) zl_def zw_def nxw_def cc'_def y_def del: ival.simps)
  moreover have "length y = length x" "\<forall>i. i = 0 \<or> Suc n < i \<longrightarrow> y ! i = x ! i" using IH(2,3) by (auto simp: y_def)
  ultimately show ?case using yok v \<open>unat cc' < W31\<close> by blast
qed

section \<open>The top of a number\<close>

lemma W31_split: "s \<le> 31 \<Longrightarrow> W31 = 2 ^ s * 2 ^ (31 - s)"
  by (simp add: W31_def flip: power_add)

lemma unat_top_word:
  assumes "s \<le> 31" and "unat (x ! (n - 1)) < W31"
  shows "unat (top_word s x n) = (unat (x ! (n - 1)) + W31 * unat (x ! n)) div 2 ^ s mod W31"
proof -
  let ?hi = "x ! n" and ?lo = "x ! (n - 1)"
  have d: "W31 dvd 2 ^ 32" by (simp add: W31_def)
  have l: "unat (drop_bit s ?lo) < 2 ^ (31 - s)"
    using assms W31_split [OF assms(1)] by (simp add: unat_drop_bit less_mult_imp_div_less mult.commute)
  have p: "unat (push_bit (31 - s) ?hi) = unat ?hi * 2 ^ (31 - s) mod 2 ^ 32" by (rule unat_push_bit)
  have "2 ^ (31 - s) dvd unat ?hi * 2 ^ (31 - s) mod 2 ^ 32"
    by (intro dvd_mod dvd_triv_right) (rule le_imp_power_dvd, simp)
  then have "unat (push_bit (31 - s) ?hi OR drop_bit s ?lo) = unat ?hi * 2 ^ (31 - s) mod 2 ^ 32 + unat ?lo div 2 ^ s"
    using l by (subst or_disjoint [where j = "31 - s"]) (simp_all only: p unat_drop_bit)
  then have "unat (top_word s x n) = (unat ?hi * 2 ^ (31 - s) mod 2 ^ 32 + unat ?lo div 2 ^ s) mod W31"
    by (simp only: top_word_def low31)
  also have "\<dots> = (unat ?hi * 2 ^ (31 - s) + unat ?lo div 2 ^ s) mod W31"
    by (subst mod_add_left_eq [symmetric]) (simp only: mod_mod_cancel [OF d] mod_add_left_eq)
  also have "unat ?hi * 2 ^ (31 - s) + unat ?lo div 2 ^ s = (unat ?lo + W31 * unat ?hi) div 2 ^ s"
  proof -
    have "W31 * unat ?hi = 2 ^ s * (unat ?hi * 2 ^ (31 - s))" by (simp only: W31_split [OF assms(1)] mult_ac)
    show ?thesis unfolding \<open>W31 * unat ?hi = 2 ^ s * (unat ?hi * 2 ^ (31 - s))\<close> by simp
  qed
  finally show ?thesis .
qed

text \<open>The weight of the first digit of a number: below it are \<open>31 k\<close> bits, or \<open>s\<close> bits of the word before.\<close>

definition weight :: "nat \<Rightarrow> nat \<Rightarrow> nat" where
  "weight s k = (if s = 0 then W31 ^ k else 2 ^ s * W31 ^ (k - 1))"

lemma weight_power:
  assumes "s \<le> 31" and "s = 0 \<or> k \<noteq> 0"
  shows "W31 ^ Suc k = weight s k * (2 ^ (31 - s) * (if s = 0 then 1 else W31))"
proof (cases "s = 0")
  case False
  then obtain i where "k = Suc i" using assms(2) by (cases k) auto
  then show ?thesis using False W31_split [OF assms(1)] by (simp add: weight_def)
qed (simp add: weight_def W31_def)

lemma weight_multiple:
  assumes "s \<le> 31" and "s = 0 \<or> k \<noteq> 0"
  shows "\<exists>E. W31 ^ Suc k = weight s k * (E * W31)"
proof (cases "s = 0")
  case True
  then have "W31 ^ Suc k = weight s k * (1 * W31)" by (simp add: weight_def)
  then show ?thesis ..
next
  case False
  then have "W31 ^ Suc k = weight s k * (2 ^ (31 - s) * W31)" using weight_power [OF assms] by simp
  then show ?thesis ..
qed

lemma weight_pos: "0 < weight s k"
  by (simp add: weight_def)

definition top_digit :: "nat \<Rightarrow> u32 list \<Rightarrow> nat \<Rightarrow> u32" where
  "top_digit s x n = (if s = 0 then x ! n else top_word s x n)"

lemma top_digit_value:
  assumes "ok31 (Suc k) x" "s \<le> 31" "s = 0 \<or> k \<noteq> 0"
  shows "unat (top_digit s x (Suc k)) = ival (Suc k) x div weight s k mod W31"
proof (cases "s = 0")
  case True
  have "ival k x < W31 ^ k" "unat (x ! Suc k) < W31" using assms(1) by (simp_all add: ok31_Suc ival_bound)
  then show ?thesis using True by (simp add: top_digit_def weight_def)
next
  case False
  then obtain i where k: "k = Suc i" using assms(3) by (cases k) auto
  have b: "ival i x < W31 ^ i" "unat (x ! Suc i) < W31" using assms(1) by (simp_all add: k ok31_Suc ival_bound)
  have "ival (Suc k) x = ival i x + W31 ^ i * (unat (x ! Suc i) + W31 * unat (x ! Suc k))" by (simp add: k algebra_simps)
  then have "ival (Suc k) x div W31 ^ i = unat (x ! Suc i) + W31 * unat (x ! Suc k)" using b(1) by simp
  then have "ival (Suc k) x div weight s k = (unat (x ! Suc i) + W31 * unat (x ! Suc k)) div 2 ^ s"
    using False by (simp add: weight_def k mult.commute [of "2 ^ s"] div_mult2_eq)
  then show ?thesis using unat_top_word [OF assms(2), of x "Suc k"] b(2) False by (simp add: top_digit_def k)
qed

lemma length_shift_in: "Suc k < length x \<Longrightarrow> length (shift_in x (Suc k) z) = length x"
  by (simp add: shift_in_def)

lemma shift_in_nth:
  assumes "Suc k < length x"
  shows "shift_in x (Suc k) z ! 0 = x ! 0" and "shift_in x (Suc k) z ! Suc 0 = z"
    and "i < k \<Longrightarrow> shift_in x (Suc k) z ! Suc (Suc i) = x ! Suc i"
proof -
  obtain a t where x: "x = a # t" using assms by (cases x) auto
  show "shift_in x (Suc k) z ! 0 = x ! 0" "shift_in x (Suc k) z ! Suc 0 = z" by (simp_all add: shift_in_def x)
  show "shift_in x (Suc k) z ! Suc (Suc i) = x ! Suc i" if "i < k"
    using that assms by (simp add: shift_in_def x nth_append)
qed

lemma ival_shift: "(\<And>i. i < k \<Longrightarrow> y ! Suc (Suc i) = x ! Suc i) \<Longrightarrow> ival (Suc k) y = unat (y ! 1) + W31 * ival k x"
proof (induction k)
  case (Suc k)
  then have "ival (Suc k) y = unat (y ! 1) + W31 * ival k x" "y ! Suc (Suc k) = x ! Suc k" by simp_all
  then show ?case by (simp only: ival.simps(2) [of "Suc k" y]) (simp add: algebra_simps)
qed simp

lemma shift_in_value:
  assumes "ok31 (Suc k) x" "unat z < W31"
  shows "ok31 (Suc k) (shift_in x (Suc k) z)"
    and "ival (Suc k) (shift_in x (Suc k) z) + W31 ^ Suc k * unat (x ! Suc k) = W31 * ival (Suc k) x + unat z"
proof -
  have l: "Suc k < length x" using assms(1) by (simp add: ok31_def)
  note n = shift_in_nth [OF l, where z = z]
  show "ok31 (Suc k) (shift_in x (Suc k) z)"
    unfolding ok31_def
  proof (intro conjI allI impI)
    fix i assume "i < Suc k"
    then show "unat (shift_in x (Suc k) z ! Suc i) < W31"
      using assms n(2,3) by (cases i) (simp_all add: ok31_def)
  qed (simp add: l length_shift_in)
  have "ival (Suc k) (shift_in x (Suc k) z) = unat z + W31 * ival k x"
    using ival_shift [of k "shift_in x (Suc k) z" x] n by simp
  then show "ival (Suc k) (shift_in x (Suc k) z) + W31 ^ Suc k * unat (x ! Suc k) = W31 * ival (Suc k) x + unat z"
    by (simp add: algebra_simps)
qed

section \<open>The remainder\<close>

text \<open>The announced length of a modulus is that of its number: the top word has its \<open>h mod 32\<close> bits, or 31.\<close>

definition bits_ok :: "u32 \<Rightarrow> u32 list \<Rightarrow> bool" where
  "bits_ok h m \<longleftrightarrow>
     31 < unat h \<longrightarrow> (let w = unat (m ! words31 h); s = unat h mod 32 in if s = 0 then 2 ^ 30 \<le> w else 2 ^ (s - 1) \<le> w \<and> w < 2 ^ s)"

lemma header_words:
  assumes "header_ok h" and "31 < unat h"
  obtains k where "words31 h = Suc k" "unat h mod 32 \<le> 31" "unat h mod 32 = 0 \<or> k \<noteq> 0"
proof -
  have w: "words31 h = (unat h + 31) div 32" using assms(1) by (simp add: words31_def unat_drop_bit unat_word_ariths header_ok_def)
  define k where "k = (unat h - 1) div 32"
  have "words31 h = Suc k" unfolding w k_def using assms(2) by simp
  moreover have "unat h mod 32 = 0 \<or> k \<noteq> 0"
  proof (cases "unat h = 32")
    case False
    then have "32 \<le> unat h - 1" using assms(2) by simp
    then show ?thesis by (simp add: k_def div_eq_0_iff)
  qed simp
  ultimately show ?thesis using that by simp
qed

lemma modulus_top:
  assumes "ok31 (Suc k) m" "bits_ok h m" "words31 h = Suc k" "31 < unat h" "unat h mod 32 = s" "s = 0 \<or> k \<noteq> 0"
  shows "ival (Suc k) m div weight s k < W31" and "W31 \<le> 2 * (ival (Suc k) m div weight s k)"
proof -
  have i: "ival k m < W31 ^ k" "unat (m ! Suc k) < W31" using assms(1) by (simp_all add: ok31_Suc ival_bound)
  have "ival (Suc k) m div weight s k < W31 \<and> W31 \<le> 2 * (ival (Suc k) m div weight s k)"
  proof (cases "s = 0")
    case True
    have "2 ^ 30 \<le> unat (m ! Suc k)" using assms(2,4,5) True by (simp add: bits_ok_def assms(3) Let_def)
    then show ?thesis using i True by (simp add: weight_def W31_def)
  next
    case False
    then obtain j where k: "k = Suc j" using assms(6) by (cases k) auto
    obtain r where s: "s = Suc r" using False by (cases s) auto
    have sl: "s \<le> 31" using assms(5) by (simp add: less_Suc_eq_le [symmetric])
    have b: "2 ^ r \<le> unat (m ! Suc k)" "unat (m ! Suc k) < 2 ^ s"
      using assms(2,4,5) False by (simp_all add: bits_ok_def assms(3) Let_def s)
    have ij: "ival j m < W31 ^ j" "unat (m ! Suc j) < W31" using assms(1) by (simp_all add: k ok31_Suc ival_bound)
    have "ival (Suc k) m = ival j m + W31 ^ j * (unat (m ! Suc j) + W31 * unat (m ! Suc k))" by (simp add: k algebra_simps)
    then have "ival (Suc k) m div W31 ^ j = unat (m ! Suc j) + W31 * unat (m ! Suc k)" using ij(1) by simp
    then have e: "ival (Suc k) m div weight s k = (unat (m ! Suc j) + W31 * unat (m ! Suc k)) div 2 ^ s"
      using False by (simp add: weight_def k mult.commute [of "2 ^ s"] div_mult2_eq)
    have "unat (m ! Suc j) + W31 * unat (m ! Suc k) < W31 * 2 ^ s" using digit_bound [OF ij(2) b(2)] .
    moreover have "W31 * 2 ^ r \<le> unat (m ! Suc j) + W31 * unat (m ! Suc k)" using b(1) by (simp add: trans_le_add2)
    moreover have "W31 * 2 ^ r = 2 ^ 30 * 2 ^ s" by (simp add: W31_def s)
    ultimately have "2 ^ 30 \<le> ival (Suc k) m div weight s k" "ival (Suc k) m div weight s k < W31"
      unfolding e by (simp_all add: less_eq_div_iff_mult_less_eq less_mult_imp_div_less)
    then show ?thesis by (simp add: W31_def)
  qed
  then show "ival (Suc k) m div weight s k < W31" "W31 \<le> 2 * (ival (Suc k) m div weight s k)" by blast+
qed

text \<open>The two digits that go into the division.\<close>

lemma two_digits:
  fixes a0 a1 :: u32
  assumes "unat a0 < W31" "unat a1 < W31"
  shows "unat (drop_bit 1 a0) * 2 ^ 32 + unat (a1 OR push_bit 31 a0) = unat a0 * W31 + unat a1"
proof -
  have W: "W31 = 2 ^ 31" by (simp add: W31_def)
  have p: "unat (push_bit 31 a0) = unat a0 mod 2 * 2 ^ 31"
  proof -
    have "unat a0 * 2 ^ 31 mod (2 * 2 ^ 31) = unat a0 mod 2 * 2 ^ 31" by (simp only: mult_mod_left)
    moreover have "(2 :: nat) ^ 32 = 2 * 2 ^ 31" by simp
    ultimately show ?thesis by (simp only: unat_push_bit)
  qed
  have "unat (push_bit 31 a0 OR a1) = unat a0 mod 2 * 2 ^ 31 + unat a1"
    using assms(2) unfolding W by (subst or_disjoint [where j = 31]) (simp_all only: p dvd_triv_right)
  then have o: "unat (a1 OR push_bit 31 a0) = unat a0 mod 2 * 2 ^ 31 + unat a1" by (simp only: or.commute)
  have sum: "p * 2 ^ 32 + (q * 2 ^ 31 + r) = (p * 2 + q) * 2 ^ 31 + r" for p q r :: nat by simp
  have "unat (drop_bit 1 a0) = unat a0 div 2" using unat_drop_bit [of 1 a0] by simp
  then have "unat (drop_bit 1 a0) * 2 ^ 32 + unat (a1 OR push_bit 31 a0) = (unat a0 div 2 * 2 + unat a0 mod 2) * 2 ^ 31 + unat a1"
    by (simp only: o sum)
  then show ?thesis by (simp only: div_mult_mod_eq W)
qed

lemma MUX_0_1: "MUX 0 x y = y" "MUX 1 x y = x"
  using MUX_bool [of False x y] MUX_bool [of True x y] by simp_all

text \<open>The correction after the subtraction.\<close>

lemma correct_quotient:
  assumes "i31_ok h y" "ok31 (words31 h) m" "ival (words31 h) m = M" "q * M \<le> A + M" "A < (q + 2) * M"
    and "num y + q * M + W31 ^ words31 h * unat hi = A + W31 ^ words31 h * unat cc"
    and "x = fst (br_i31_add y m (GT cc hi))"
    and "x' = fst (br_i31_sub x m (NOT (GT cc hi) AND (of_bool (M \<le> num y) OR LT cc hi)))"
  shows "i31_ok h x'" and "length x' = length y" and "num x' = A mod M"
proof -
  let ?R = "W31 ^ words31 h"
  have M: "M < ?R" "0 < M" using ival_bound [OF assms(2)] assms(3,4,5) by (auto intro: gr0I)
  have y: "num y < ?R" by (rule num_bound [OF assms(1)])
  have "i31_ok h x' \<and> length x' = length y \<and> num x' = A mod M"
  proof (cases "hi < cc")
    case True
    then have g: "GT cc hi = of_bool True" by (simp add: ct)
    have u: "NOT (GT cc hi) AND (of_bool (M \<le> num y) OR LT cc hi) = of_bool False" using True by (simp add: ct)
    obtain z c where z: "br_i31_add y m (of_bool True) = (z, c)" "length z = length y" "i31_ok h z" "num z + ?R * unat c = num y + M"
      using br_i31_add_value [OF assms(1,2), of True] assms(3) by auto
    obtain x'' where x: "br_i31_sub z m (of_bool False) = (x'', of_bool (num z < M))" "x'' = z"
      using br_i31_sub_value [OF z(3) assms(2), of False] assms(3) by auto
    have x': "x' = z" using assms(7,8) unfolding u unfolding g by (simp only: z(1) x fst_conv)
    obtain t where t: "unat cc = unat hi + Suc t" using True by (metis word_less_nat_alt less_imp_Suc_add add_Suc_right)
    have s: "num y + q * M = A + ?R + ?R * t" using assms(6) unfolding t by (simp add: algebra_simps)
    have "?R * t < ?R" using s assms(4) y M(1) by linarith
    then have "t = 0" by simp
    then have s: "num y + q * M = A + ?R" using s by simp
    have q: "0 < q" using s y by (cases q) auto
    then obtain p where p: "q = Suc p" by (cases q) auto
    have a: "p * M \<le> A" "A < p * M + M" using assms(4) s y p by simp_all
    have "num y + M = ?R + (A - p * M)" using s a p by simp
    then have e: "num z + ?R * unat c = (A - p * M) + ?R * 1" using z(4) by simp
    have r: "A - p * M < M" using a by simp
    have zb: "num z < ?R" by (rule num_bound [OF z(3)])
    have "num z = A - p * M"
      using arg_cong [OF e, of "\<lambda>t. t mod ?R"] zb r M(1) by simp
    moreover have "A mod M = A - p * M" using a r by (metis le_add_diff_inverse mod_less mod_mult_self3)
    ultimately show ?thesis using z(2,3) x' by simp
  next
    case False
    then have g: "GT cc hi = of_bool False" by (simp add: ct)
    obtain t where t: "unat hi = unat cc + t" using False by (metis le_add_diff_inverse not_less word_le_nat_alt)
    let ?p = "M \<le> num y \<or> cc < hi"
    have u: "NOT (GT cc hi) AND (of_bool (M \<le> num y) OR LT cc hi) = of_bool ?p"
      unfolding g by (simp add: ct)
    have s: "num y + ?R * t + q * M = A" using assms(6) unfolding t by (simp add: algebra_simps)
    have b: "num y + ?R * t < 2 * ival (words31 h) m" using s assms(3,5) by simp
    have p: "?p \<longleftrightarrow> ival (words31 h) m \<le> num y + ?R * t"
    proof (cases t)
      case 0
      then have "\<not> cc < hi" using t by (simp add: word_less_nat_alt)
      then show ?thesis using 0 assms(3) by simp
    next
      case (Suc i)
      then have "cc < hi" using t by (simp add: word_less_nat_alt)
      moreover have "?R \<le> ?R * t" using Suc by simp
      ultimately show ?thesis using M(1) assms(3) by linarith
    qed
    have x: "x = y" using assms(7) br_i31_add_value [OF assms(1,2), of False] by (auto simp: g)
    note f = final_sub [OF assms(1,2) b p]
    have "num x' = (num y + ?R * t) mod M" using f(3) by (simp only: assms(8) u x assms(3))
    moreover have "A mod M = (num y + ?R * t) mod M" using s by (metis mod_mult_self1)
    ultimately show ?thesis using f(1,2) by (simp only: assms(8) u x)
  qed
  then show "i31_ok h x'" "length x' = length y" "num x' = A mod M" by blast+
qed

theorem muladd_small_value:
  assumes "i31_ok h m" "bits_ok h m" "0 < num m" "i31_ok h x" "num x < num m" "unat z < W31"
  shows "i31_ok h (br_i31_muladd_small x z m)" and "length (br_i31_muladd_small x z m) = length x"
    and "num (br_i31_muladd_small x z m) = (W31 * num x + unat z) mod num m"
proof -
  have h: "m ! 0 = h" "header_ok h" "x ! 0 = h" using assms(1,4) by (simp_all add: i31_ok_def)
  have "i31_ok h (br_i31_muladd_small x z m) \<and> length (br_i31_muladd_small x z m) = length x \<and>
    num (br_i31_muladd_small x z m) = (W31 * num x + unat z) mod num m"
  proof (cases "31 < unat h")
    case False
    have nz: "h \<noteq> 0"
    proof
      assume "h = 0"
      then have "words31 h = 0" by (simp add: words31_def unat_drop_bit)
      then show False using assms(1,3) by (simp add: num_eq)
    qed
    then have "0 < unat h" by (simp add: unat_gt_0)
    then have w: "words31 h = Suc 0"
      using False by (simp add: words31_def unat_drop_bit unat_word_ariths)
    have m: "num m = unat (m ! 1)" and x: "num x = unat (x ! 1)" "unat (x ! 1) < W31" "1 < length x"
      using assms(1,4) by (simp_all add: num_eq w) (simp_all add: i31_ok_def w ok31_def)
    have l: "h \<le> 31" using False by (simp add: word_le_nat_alt)
    let ?hi = "drop_bit 1 (x ! 1)" and ?lo = "push_bit 31 (x ! 1) OR z"
    have d: "unat ?hi * 2 ^ 32 + unat ?lo = W31 * num x + unat z"
      using two_digits [OF x(2) assms(6)] by (simp only: or.commute x(1) mult.commute)
    have "unat ?hi < unat (m ! 1)" using assms(3,5) unfolding m x(1) by (simp add: unat_drop_bit)
    note r = br_divrem_value(2) [OF this, of ?lo, folded br_rem_def, unfolded d]
    have e: "br_i31_muladd_small x z m = x[1 := br_rem ?hi ?lo (m ! 1)]"
      by (simp only: br_i31_muladd_small_def Let_def h(1) nz l if_False if_True)
    have "unat (br_rem ?hi ?lo (m ! 1)) < W31"
    proof -
      have "unat (br_rem ?hi ?lo (m ! 1)) < unat (m ! 1)" unfolding r using assms(3) m by simp
      moreover have "unat (m ! 1) < W31" using assms(1) by (simp add: i31_ok_def w ok31_def)
      ultimately show ?thesis by linarith
    qed
    then have "i31_ok h (x[1 := br_rem ?hi ?lo (m ! 1)])" using assms(4) by (simp add: i31_ok_def w ok31_def)
    moreover have "num (x[1 := br_rem ?hi ?lo (m ! 1)]) = (W31 * num x + unat z) mod num m"
      using x(3) calculation r m by (simp add: num_eq w)
    ultimately show ?thesis unfolding e by simp
  next
    case True
    obtain k where k: "words31 h = Suc k" and s: "unat h mod 32 \<le> 31" "unat h mod 32 = 0 \<or> k \<noteq> 0"
      using header_words [OF h(2) True] by blast
    define s where "s = unat h mod 32"
    have mb: "unat (h AND 31) = s"
    proof -
      have "(31 :: u32) = mask 5" by (simp add: mask_numeral)
      then have "unat (h AND 31) = unat (take_bit 5 h)" by (simp only: take_bit_eq_mask)
      then show ?thesis by (simp only: unsigned_take_bit_eq s_def) (simp add: take_bit_eq_mod)
    qed
    note sk = s [folded s_def]
    have mo: "ok31 (Suc k) m" "ival (Suc k) m = num m" using assms(1) by (simp_all add: num_eq k del: ival.simps) (simp add: i31_ok_def k)
    have xo: "ok31 (Suc k) x" "ival (Suc k) x = num x" using assms(4) by (simp_all add: num_eq k del: ival.simps) (simp add: i31_ok_def k)
    define y where "y = shift_in x (Suc k) z"
    note sh = shift_in_value [OF xo(1) assms(6), folded y_def, unfolded xo(2)]
    have yl: "length y = length x" "y ! 0 = h"
      using xo(1) h(3) by (simp_all add: y_def ok31_def length_shift_in shift_in_nth(1))
    have yn: "num y = ival (Suc k) y" by (simp add: num_def yl(2) k del: ival.simps)
    let ?A = "W31 * num x + unat z" let ?hi = "x ! Suc k" let ?D = "weight s k"
    define a0 where "a0 = top_digit s x (Suc k)"
    define a1 where "a1 = top_digit s y (Suc k)"
    define b0 where "b0 = top_digit s m (Suc k)"
    note top = modulus_top [OF mo(1) assms(2) k True s_def [symmetric] sk(2), unfolded mo(2)]
    have b0: "unat b0 = num m div ?D"
      using top_digit_value [OF mo(1) sk] top(1) by (simp add: b0_def mo(2) del: ival.simps)
    have a0: "unat a0 = num x div ?D"
    proof -
      have "num x div ?D \<le> num m div ?D" using assms(5) by (intro div_le_mono) simp
      then show ?thesis using top_digit_value [OF xo(1) sk] top(1) by (simp add: a0_def xo(2) del: ival.simps)
    qed
    have a1: "unat a1 = ?A div ?D mod W31"
    proof -
      obtain E where E: "W31 ^ Suc k = ?D * (E * W31)"
        using weight_multiple [OF sk] by blast
      have "?A = ival (Suc k) y + ?D * (E * W31 * unat ?hi)" using sh(2) unfolding E by (simp only: mult.assoc)
      then have "?A div ?D = E * W31 * unat ?hi + ival (Suc k) y div ?D" using weight_pos [of s k] by simp
      then have "?A div ?D mod W31 = ival (Suc k) y div ?D mod W31" by (simp add: mult.assoc mult.left_commute [of E])
      then show ?thesis using top_digit_value [OF sh(1) sk] by (simp only: a1_def)
    qed
    let ?U = "num x div ?D * W31 + ?A div ?D mod W31"
    define g where "g = br_div (drop_bit 1 a0) (a1 OR push_bit 31 a0) b0"
    have ab: "unat a0 \<le> unat b0" unfolding a0 b0 using assms(5) by (intro div_le_mono) simp
    have b0p: "0 < unat b0" using top(2) unfolding b0 by (cases "num m div ?D") simp_all
    have dl: "unat (drop_bit 1 a0) < unat b0" using ab b0p by (simp add: unat_drop_bit)
    have g: "unat g = ?U div unat b0"
    proof -
      have "unat a0 < W31" using ab top(1) unfolding b0 by linarith
      moreover have "unat a1 < W31" unfolding a1 by simp
      ultimately have d: "unat (drop_bit 1 a0) * 2 ^ 32 + unat (a1 OR push_bit 31 a0) = ?U" by (simp only: two_digits a0 a1)
      show ?thesis unfolding g_def br_div_def br_divrem_value(1) [OF dl] d ..
    qed
    define q where "q = MUX (EQ a0 b0) 0x7FFFFFFF (MUX (EQ g 0) 0 (g - 1))"
    have q: "unat q = (if num x div ?D = unat b0 then W31 - 1 else if ?U div unat b0 = 0 then 0 else ?U div unat b0 - 1)"
    proof -
      have "a0 = b0 \<longleftrightarrow> num x div ?D = unat b0" by (simp only: word_unat_eq_iff a0)
      moreover have "g = 0 \<longleftrightarrow> ?U div unat b0 = 0" by (simp only: word_unat_eq_iff g unsigned_0)
      moreover have "unat (g - 1) = ?U div unat b0 - 1" if "g \<noteq> 0" using that g unat_minus_one [of g] by simp
      ultimately show ?thesis unfolding q_def EQ_eq MUX_bool by (simp add: W31_def)
    qed
    have est: "unat q * num m \<le> ?A + num m" "?A < (unat q + 2) * num m" "unat q < W31"
    proof -
      have "num m mod ?D < ?D" "num m = unat b0 * ?D + num m mod ?D"
        using weight_pos [of s k] unfolding b0 by (simp, simp only: div_mult_mod_eq)
      note e = quotient_estimate [OF this(1) top(2) [folded b0] top(1) [folded b0] this(2) assms(5,6) refl q]
      show "unat q * num m \<le> ?A + num m" "?A < (unat q + 2) * num m" "unat q < W31" using e by blast+
    qed
    obtain y' cc where r: "fold (muladd_word m q) [1..<Suc (Suc k)] (y, 0, 1) = (y', cc, of_bool (ival (Suc k) m \<le> ival (Suc k) y'))"
      "length y' = length y" "\<And>i. i = 0 \<or> Suc k < i \<Longrightarrow> y' ! i = y ! i" "ok31 (Suc k) y'"
      "ival (Suc k) y' + unat q * ival (Suc k) m = ival (Suc k) y + W31 ^ Suc k * unat cc"
      using muladd_words [OF sh(1) mo(1) est(3)] by blast
    have y0: "y' ! 0 = h" using r(3) [of 0] yl(2) by simp
    have y': "i31_ok h y'" "num y' = ival (Suc k) y'"
      using r(4) h(2) by (simp_all add: i31_ok_def num_def y0 k del: ival.simps)
    have eq: "num y' + unat q * num m + W31 ^ words31 h * unat ?hi = ?A + W31 ^ words31 h * unat cc"
      using r(5) sh(2) unfolding y'(2) mo(2) k by linarith
    have M: "ok31 (words31 h) m" "ival (words31 h) m = num m" using mo by (simp_all only: k)
    note c = correct_quotient [OF y'(1) M est(1,2) eq refl refl]
    have n: "\<not> h \<le> 31" "h \<noteq> 0" using True by (auto simp: word_le_nat_alt)
    have e: "br_i31_muladd_small x z m = fst (br_i31_sub (fst (br_i31_add y' m (GT cc ?hi))) m
        (NOT (GT cc ?hi) AND (of_bool (num m \<le> num y') OR LT cc ?hi)))"
      unfolding br_i31_muladd_small_def Let_def h(1) k mb
      by (simp only: n if_False top_digit_def [symmetric] y_def [symmetric] a0_def [symmetric] a1_def [symmetric] b0_def [symmetric]
          g_def [symmetric] q_def [symmetric] r(1) prod.case y'(2) mo(2))
    show ?thesis unfolding e using c r(2) yl(1) by simp
  qed
  then show "i31_ok h (br_i31_muladd_small x z m)" "length (br_i31_muladd_small x z m) = length x"
    "num (br_i31_muladd_small x z m) = (W31 * num x + unat z) mod num m" by blast+
qed

section \<open>Into Montgomery representation\<close>

theorem to_monty_value:
  assumes "i31_ok h m" "bits_ok h m" "0 < num m" "i31_ok h x" "num x < num m"
  shows "i31_ok h (br_i31_to_monty x m)" and "length (br_i31_to_monty x m) = length x"
    and "num (br_i31_to_monty x m) = (W31 ^ words31 h * num x) mod num m"
proof -
  let ?f = "\<lambda>x. br_i31_muladd_small x 0 m"
  have "i31_ok h ((?f ^^ n) x) \<and> length ((?f ^^ n) x) = length x \<and> num ((?f ^^ n) x) = (W31 ^ n * num x) mod num m" for n
  proof (induction n)
    case 0
    then show ?case using assms(4,5) by simp
  next
    case (Suc n)
    have z: "unat (0 :: u32) < W31" by simp
    have lt: "num ((?f ^^ n) x) < num m" using Suc assms(3) by simp
    note v = muladd_small_value [OF assms(1-3) _ lt z]
    have "(W31 * ((W31 ^ n * num x) mod num m) + 0) mod num m = (W31 ^ Suc n * num x) mod num m"
      by (simp add: mod_mult_right_eq mult.assoc)
    then show ?case using v Suc by simp
  qed
  then show "i31_ok h (br_i31_to_monty x m)" "length (br_i31_to_monty x m) = length x"
    "num (br_i31_to_monty x m) = (W31 ^ words31 h * num x) mod num m"
    using assms(1) by (simp_all add: br_i31_to_monty_def i31_ok_def)
qed

end
