(* ===== verification/I31_Codec.thy ===== *)
theory I31_Codec
  imports I31_Red
begin

text \<open>
  Big integers from and to bytes: \<^verbatim>\<open>i31_bitlen.c\<close>, \<^verbatim>\<open>i31_decode.c\<close>, \<^verbatim>\<open>i31_decmod.c\<close> and \<^verbatim>\<open>i31_encode.c\<close>. The bytes are in big-endian
  order and words of 31 bits are cut from them, or put together to them. Shown: the announced length is that of the number;
  decoding gives the number of the bytes, modulo-checked decoding accepts exactly the numbers below the modulus, and
  encoding gives back the low bytes.
\<close>

section \<open>The code\<close>

text \<open>A byte joins the bits not yet written; with 31 of them there is a word.\<close>

definition feed_byte :: "byte \<Rightarrow> u32 \<times> nat \<Rightarrow> u32 option \<times> u32 \<times> nat" where
  "feed_byte b s =
     (let (acc, acc_len) = s;
          b = ucast b;
          acc = acc OR push_bit acc_len b;
          acc_len = acc_len + 8
      in if 31 \<le> acc_len then (Some (acc AND 0x7FFFFFFF), drop_bit (8 - (acc_len - 31)) b, acc_len - 31)
         else (None, acc, acc_len))"

text \<open>The loop body, for what is done with a word and its number.\<close>

definition byte_step :: "(nat \<Rightarrow> u32 \<Rightarrow> 's \<Rightarrow> 's) \<Rightarrow> byte \<Rightarrow> 's \<times> nat \<times> u32 \<times> nat \<Rightarrow> 's \<times> nat \<times> u32 \<times> nat" where
  "byte_step g b s =
     (let (x, v, acc, acc_len) = s
      in case feed_byte b (acc, acc_len) of
           (Some w, acc, acc_len) \<Rightarrow> (g v w x, v + 1, acc, acc_len)
         | (None, acc, acc_len) \<Rightarrow> (x, v, acc, acc_len))"

definition br_i31_decode :: "u32 list \<Rightarrow> byte list \<Rightarrow> u32 list" where
  "br_i31_decode x src =
     (let (x, v, acc, acc_len) = fold (byte_step (\<lambda>v w x. x[v := w])) (rev src) (x, 1, 0, 0);
          (x, v) = (if acc_len \<noteq> 0 then (x[v := acc], v + 1) else (x, v))
      in x[0 := br_i31_bit_length (drop 1 x) (v - 1)])"

definition decode_compare :: "nat \<Rightarrow> u32 list \<Rightarrow> nat \<Rightarrow> u32 \<Rightarrow> u32 \<Rightarrow> u32" where
  "decode_compare mlen m v xw r =
     (if v \<le> mlen then let cc = CMP xw (m ! v) in MUX (EQ cc 0) r cc
      else MUX (EQ xw 0) r 1)"

definition decode_write :: "nat \<Rightarrow> u32 \<Rightarrow> nat \<Rightarrow> u32 \<Rightarrow> u32 list \<Rightarrow> u32 list" where
  "decode_write mlen r v xw x = (if v \<le> mlen then x[v := r AND xw] else x)"

text \<open>Byte \<open>u\<close> from the end, or zero beyond the first one.\<close>

definition source_byte :: "byte list \<Rightarrow> nat \<Rightarrow> byte" where
  "source_byte src u = (if u < length src then src ! (length src - 1 - u) else 0)"

definition spread :: "u32 \<Rightarrow> u32" where
  "spread r = (let r = drop_bit 1 r in r OR push_bit 1 r)"

text \<open>The array and the returned flag.\<close>

definition br_i31_decode_mod :: "u32 list \<Rightarrow> byte list \<Rightarrow> u32 list \<Rightarrow> u32 list \<times> u32" where
  "br_i31_decode_mod x src m =
     (let mlen = words31 (m ! 0);
          tlen = 4 * mlen;
          tlen = (if tlen < length src then length src else tlen);
          tlen = tlen + 4;
          bytes = map (source_byte src) [0..<tlen];
          (r, _) = fold (byte_step (decode_compare mlen m)) bytes (0, 1, 0, 0);
          r = spread r;
          (x, _) = fold (byte_step (decode_write mlen r)) bytes (x, 1, 0, 0);
          r = spread r
      in (x[0 := m ! 0], r AND 1))"

function encode_loop :: "u32 list \<Rightarrow> nat \<Rightarrow> nat \<Rightarrow> u32 \<Rightarrow> nat \<Rightarrow> nat \<Rightarrow> byte list \<Rightarrow> byte list" where
  "encode_loop x xlen k acc acc_len len buf =
     (if len = 0 then buf
      else
        let w = (if k \<le> xlen then x ! k else 0); k = k + 1
        in if acc_len = 0 then encode_loop x xlen k w 31 len buf
           else
             let z = acc OR push_bit acc_len w;
                 acc_len = acc_len - 1;
                 acc = drop_bit (31 - acc_len) w
             in if 4 \<le> len then encode_loop x xlen k acc acc_len (len - 4) (br_enc32be z @ buf)
                else drop (4 - len) (br_enc32be z) @ buf)"
  by pat_completeness auto
termination
  by (relation "measure (\<lambda>(x, xlen, k, acc, acc_len, len, buf). 2 * len + (if acc_len = 0 then 1 else 0))") auto

declare encode_loop.simps [simp del]

definition br_i31_encode :: "nat \<Rightarrow> u32 list \<Rightarrow> byte list" where
  "br_i31_encode len x =
     (let xlen = words31 (x ! 0)
      in if xlen = 0 then replicate len 0 else encode_loop x xlen 1 0 0 len [])"

section \<open>The number of some bytes\<close>

text \<open>OS2IP of RFC 8017.\<close>

primrec be_num :: "byte list \<Rightarrow> nat" where
  "be_num [] = 0"
| "be_num (b # bs) = unat b * 256 ^ length bs + be_num bs"

lemma unat_byte: "unat (b :: byte) < 256"
  using unsigned_less [of b, where 'a = nat] by simp

lemma be_num_append: "be_num (xs @ ys) = be_num xs * 256 ^ length ys + be_num ys"
  by (induction xs) (simp_all add: power_add algebra_simps)

lemma be_num_bound: "be_num bs < 256 ^ length bs"
proof (induction bs)
  case (Cons b bs)
  have "be_num bs + 256 ^ length bs * unat b < 256 ^ length bs * 256" by (rule digit_bound [OF Cons unat_byte])
  then show ?case by (simp add: algebra_simps)
qed simp

lemma be_num_zeros: "be_num (replicate n 0 @ bs) = be_num bs"
  by (induction n) simp_all

lemma power_256: "256 ^ n = (2 :: nat) ^ (8 * n)"
  by (simp add: power_mult)

lemma W31_power_2: "W31 ^ n = 2 ^ (31 * n)"
  by (simp only: W31_def power_mult)

section \<open>Words from bytes\<close>

lemma feed_byte_value:
  assumes "al < 31" and "unat acc < 2 ^ al"
  shows "case feed_byte b (acc, al) of
      (Some w, acc', al') \<Rightarrow> al' + 31 = al + 8 \<and> unat w < W31 \<and> unat w + W31 * unat acc' = unat acc + unat b * 2 ^ al \<and> unat acc' < 2 ^ al'
    | (None, acc', al') \<Rightarrow> al' = al + 8 \<and> al' < 31 \<and> unat acc' = unat acc + unat b * 2 ^ al \<and> unat acc' < 2 ^ al'"
proof -
  let ?b = "ucast b :: u32"
  have b: "unat ?b = unat b" using unat_byte [of b] by (simp add: unsigned_ucast_eq take_bit_nat_eq_self)
  have o: "unat (acc OR push_bit al ?b) = unat acc + unat b * 2 ^ al mod 2 ^ 32"
  proof -
    have "2 ^ al dvd unat b * 2 ^ al mod (2 :: nat) ^ 32"
      using assms(1) by (intro dvd_mod dvd_triv_right) (rule le_imp_power_dvd, simp)
    then have "unat (push_bit al ?b OR acc) = unat b * 2 ^ al mod 2 ^ 32 + unat acc"
      using assms(2) by (subst or_disjoint [where j = al]) (simp_all only: unat_push_bit b)
    then show ?thesis by (simp only: or.commute add.commute)
  qed
  have s: "unat acc + unat b * 2 ^ al < 2 ^ al * 2 ^ 8"
    using digit_bound [OF assms(2) unat_byte [of b]] by (simp add: mult.commute)
  show ?thesis
  proof (cases "31 \<le> al + 8")
    case True
    then have al: "31 - al \<le> 8" "8 - (al + 8 - 31) = 31 - al" using assms(1) by simp_all
    have d: "W31 dvd 2 ^ 32" by (simp add: W31_def)
    have w: "unat ((acc OR push_bit al ?b) AND 0x7FFFFFFF) = (unat acc + unat b * 2 ^ al) mod W31"
      unfolding low31 o by (subst mod_add_right_eq [symmetric]) (simp only: mod_mod_cancel [OF d] mod_add_right_eq)
    have W: "W31 = 2 ^ al * 2 ^ (31 - al)" using assms(1) by (intro W31_split) simp
    have "(unat acc + unat b * 2 ^ al) div 2 ^ al = unat b" using assms(2) by simp
    then have a: "unat (drop_bit (31 - al) ?b) = (unat acc + unat b * 2 ^ al) div W31"
      unfolding W div_mult2_eq by (simp add: unat_drop_bit b)
    have "(2 :: nat) ^ al * 2 ^ 8 = 2 ^ (al + 8 - 31) * W31"
    proof -
      have "al + 8 = (al + 8 - 31) + 31" using True by simp
      then have "(2 :: nat) ^ (al + 8) = 2 ^ (al + 8 - 31) * 2 ^ 31" by (metis power_add)
      then show ?thesis by (simp only: power_add W31_def)
    qed
    then have "(unat acc + unat b * 2 ^ al) div W31 < 2 ^ (al + 8 - 31)"
      using s by (simp only: less_mult_imp_div_less)
    then show ?thesis
      using True by (simp add: feed_byte_def Let_def al w a del: mod_less)
  next
    case False
    have "unat b * 2 ^ al < 2 ^ 32"
    proof -
      have "unat b * 2 ^ al < 2 ^ (al + 8)" using unat_byte [of b] by (simp add: power_add)
      also have "\<dots> \<le> 2 ^ 32" using False by (intro power_increasing) (simp_all add: Suc_leI)
      finally show ?thesis .
    qed
    then have "unat (acc OR push_bit al ?b) = unat acc + unat b * 2 ^ al" unfolding o by simp
    then show ?thesis using False s by (simp add: feed_byte_def Let_def power_add)
  qed
qed

text \<open>What the loop does with the words, for a property of the state, the number of words and their value.\<close>

lemma bytes_fold:
  assumes "P 0 s 0"
    and step: "\<And>n w s V. P n s V \<Longrightarrow> unat w < W31 \<Longrightarrow> V < W31 ^ n \<Longrightarrow> 31 * Suc n \<le> 8 * length bs \<Longrightarrow>
      P (Suc n) (g (Suc n) w s) (V + W31 ^ n * unat w)"
  shows "\<exists>s' n acc al V. fold (byte_step g) (rev bs) (s, 1, 0, 0) = (s', Suc n, acc, al) \<and> P n s' V \<and> V < W31 ^ n \<and>
    V + W31 ^ n * unat acc = be_num bs \<and> unat acc < 2 ^ al \<and> al < 31 \<and> 31 * n + al = 8 * length bs"
  using step
proof (induction bs)
  case Nil
  show ?case using assms(1) by (intro exI [of _ s] exI [of _ 0] exI [of _ "0 :: u32"]) simp
next
  case (Cons b bs)
  have step': "P n s V \<Longrightarrow> unat w < W31 \<Longrightarrow> V < W31 ^ n \<Longrightarrow> 31 * Suc n \<le> 8 * length bs \<Longrightarrow>
      P (Suc n) (g (Suc n) w s) (V + W31 ^ n * unat w)" for n w s V
    by (rule Cons.prems) auto
  obtain s' n acc al V where IH: "fold (byte_step g) (rev bs) (s, 1, 0, 0) = (s', Suc n, acc, al)" "P n s' V" "V < W31 ^ n"
    "V + W31 ^ n * unat acc = be_num bs" "unat acc < 2 ^ al" "al < 31" "31 * n + al = 8 * length bs"
    using Cons.IH [OF step'] by blast
  obtain o' acc' al' where f: "feed_byte b (acc, al) = (o', acc', al')" by (metis prod_cases3)
  note v = feed_byte_value [OF IH(6,5), of b, unfolded f prod.case]
  have "(256 :: nat) ^ length bs = W31 ^ n * 2 ^ al" by (simp only: power_256 W31_power_2 IH(7) [symmetric] power_add)
  then have sum: "be_num (b # bs) = V + W31 ^ n * (unat acc + unat b * 2 ^ al)" using IH(4) by (simp add: algebra_simps)
  have fold: "fold (byte_step g) (rev (b # bs)) (s, 1, 0, 0) = byte_step g b (s', Suc n, acc, al)" using IH(1) by simp
  show ?case
  proof (cases o')
    case None
    then have "byte_step g b (s', Suc n, acc, al) = (s', Suc n, acc', al')" by (simp add: byte_step_def f)
    then show ?thesis unfolding fold sum using v IH None by auto
  next
    case (Some w)
    then have r: "byte_step g b (s', Suc n, acc, al) = (g (Suc n) w s', Suc (Suc n), acc', al')" by (simp add: byte_step_def f)
    have w: "al' + 31 = al + 8" "unat w < W31" "unat w + W31 * unat acc' = unat acc + unat b * 2 ^ al" "unat acc' < 2 ^ al'"
      using v Some by simp_all
    have "31 * Suc n \<le> 8 * length (b # bs)" using w(1) IH(7) by simp
    then have "P (Suc n) (g (Suc n) w s') (V + W31 ^ n * unat w)" by (rule Cons.prems [OF IH(2) w(2) IH(3)])
    moreover have "V + W31 ^ n * unat w < W31 ^ Suc n" using digit_bound [OF IH(3) w(2)] by (simp add: mult.commute)
    moreover have "V + W31 ^ n * unat w + W31 ^ Suc n * unat acc' = be_num (b # bs)"
      unfolding sum w(3) [symmetric] by (simp add: algebra_simps)
    moreover have "31 * Suc n + al' = 8 * length (b # bs)" "al' < 31" using w(1) IH(6,7) by simp_all
    ultimately show ?thesis unfolding fold r using w(4) by blast
  qed
qed

section \<open>The bit length\<close>

lemma bit_length_loop:
  "fold (\<lambda>k (tw, twk). let c = EQ tw 0; w = x ! k in (MUX c w tw, MUX c (word_of_nat k) twk)) (rev [0..<n]) (0, 0) =
    (if \<forall>i<n. x ! i = 0 then (0, 0)
     else let k = Max {i. i < n \<and> x ! i \<noteq> 0} in (x ! k, word_of_nat k))"
  (is "fold ?f (rev [0..<n]) (0, 0) = ?r n")
proof -
  have keep: "fold ?f ks (tw, twk) = (tw, twk)" if "tw \<noteq> 0" for ks tw twk
    using that MUX_0_1 by (induction ks) (simp_all add: Let_def EQ_eq)
  have "fold ?f (rev [0..<n]) (0, c) = (if \<forall>i<n. x ! i = 0 then (0, if n = 0 then c else 0) else ?r n)" for c :: u32
  proof (induction n arbitrary: c)
    case (Suc n)
    have s: "fold ?f (rev [0..<Suc n]) (0, c) = fold ?f (rev [0..<n]) (x ! n, word_of_nat n)"
      using MUX_0_1 by (simp add: Let_def EQ_eq)
    show ?case
    proof (cases "x ! n = 0")
      case False
      have "Max {i. i < Suc n \<and> x ! i \<noteq> 0} = n" using False by (intro Max_eqI) auto
      then show ?thesis unfolding s keep [OF False] using False by (auto simp: Let_def)
    next
      case True
      have e: "{i. i < Suc n \<and> x ! i \<noteq> 0} = {i. i < n \<and> x ! i \<noteq> 0}" using True by (auto simp: less_Suc_eq)
      have a: "(\<forall>i<Suc n. x ! i = 0) \<longleftrightarrow> (\<forall>i<n. x ! i = 0)" using True by (auto simp: less_Suc_eq)
      show ?thesis unfolding s True Suc e a by (auto simp: Let_def)
    qed
  qed simp
  moreover have "(if p then a else if p then a else b) = (if p then a else b)" for p and a b :: "u32 \<times> u32" by simp
  ultimately show ?thesis by (simp only: if_cancel)
qed

lemma ival_top:
  assumes "k < n" and "\<And>i. k < i \<Longrightarrow> i < n \<Longrightarrow> x ! Suc i = 0"
  shows "ival n x = ival (Suc k) x"
  using assms
proof (induction n)
  case (Suc n)
  show ?case
  proof (cases "n = k")
    case False
    then have "ival n x = ival (Suc k) x" using Suc by simp
    moreover have "x ! Suc n = 0" using Suc.prems False by simp
    ultimately show ?thesis by (simp only: ival.simps(2) [of n]) simp
  qed simp
qed simp

lemma words31_of: "header_ok h \<Longrightarrow> words31 h = (unat h + 31) div 32"
  by (simp add: words31_def unat_drop_bit unat_word_ariths header_ok_def)

text \<open>The announced length fits the number.\<close>

lemma bit_length_value:
  assumes "ok31 n x" "n < 2 ^ 20" "h = br_i31_bit_length (drop 1 x) n" "ival n x \<noteq> 0"
  shows "header_ok h" and "0 < words31 h" and "words31 h \<le> n" and "ival (words31 h) x = ival n x" and "bits_ok h x"
    and "x ! words31 h \<noteq> 0"
proof -
  have l: "n < length x" using assms(1) by (simp add: ok31_def)
  let ?K = "{i. i < n \<and> drop 1 x ! i \<noteq> 0}"
  have d: "drop 1 x ! i = x ! Suc i" if "i < n" for i using that l by simp
  have ne: "\<not> (\<forall>i<n. drop 1 x ! i = 0)"
  proof
    assume "\<forall>i<n. drop 1 x ! i = 0"
    then have "ival n x = 0" unfolding ival_eq_0 using d by metis
    then show False using assms(4) by simp
  qed
  define k where "k = Max ?K"
  have "k \<in> ?K" unfolding k_def using ne by (intro Max_in) auto
  then have k: "k < n" "x ! Suc k \<noteq> 0" using d by auto
  have top: "x ! Suc i = 0" if "k < i" "i < n" for i
  proof (rule ccontr)
    assume "x ! Suc i \<noteq> 0"
    then have "i \<in> ?K" using that d by simp
    then have "i \<le> k" unfolding k_def by (intro Max_ge) auto
    then show False using that by simp
  qed
  let ?w = "x ! Suc k"
  have h: "h = push_bit 5 (word_of_nat k) + BIT_LENGTH ?w"
  proof -
    have "br_i31_bit_length (drop 1 x) n = push_bit 5 (word_of_nat k) + BIT_LENGTH (drop 1 x ! k)"
      unfolding br_i31_bit_length_def bit_length_loop by (simp only: ne if_False Let_def prod.case k_def)
    then show ?thesis by (simp only: assms(3) d [OF k(1)])
  qed
  define b where "b = unat (BIT_LENGTH ?w)"
  have wb: "bits_of (unat ?w) b" unfolding b_def by (rule BIT_LENGTH_bits)
  have w: "unat ?w < W31" "unat ?w \<noteq> 0" using assms(1) k by (simp_all add: ok31_def unsigned_eq_0_iff)
  then have b: "0 < b" "2 ^ (b - 1) \<le> unat ?w" "unat ?w < 2 ^ b" using wb by (simp_all add: bits_of_def)
  have "(2 :: nat) ^ (b - 1) < 2 ^ 31" using b(2) w(1) by (simp add: W31_def)
  then have b31: "b \<le> 31" using power_less_imp_less_exp [of "2 :: nat" "b - 1" 31] by simp
  have hv: "unat h = 32 * k + b"
  proof -
    have "unat (word_of_nat k :: u32) = k" using k(1) assms(2) by (simp add: unsigned_of_nat take_bit_nat_eq_self)
    then have "unat (push_bit 5 (word_of_nat k :: u32)) = 32 * k" using k(1) assms(2) by (simp add: unat_push_bit)
    then show ?thesis unfolding h using k(1) assms(2) b31 by (simp add: unat_word_ariths b_def)
  qed
  show ho: "header_ok h" using k(1) assms(2) b31 by (simp add: header_ok_def hv)
  have wk: "words31 h = Suc k" unfolding words31_of [OF ho] hv using b(1) b31 by simp
  show "0 < words31 h" "words31 h \<le> n" "x ! words31 h \<noteq> 0" using k by (simp_all add: wk)
  show "ival (words31 h) x = ival n x" unfolding wk using ival_top [OF k(1) top] by simp
  have "unat h mod 32 = b" unfolding hv using b31 by simp
  then show "bits_ok h x" using b by (simp add: bits_ok_def wk)
qed

section \<open>Decoding\<close>

theorem decode_value:
  assumes "8 * length src < 31 * (length x - 1)" "length src < 2 ^ 20" "be_num src \<noteq> 0"
  shows "\<exists>h. i31_ok h (br_i31_decode x src) \<and> bits_ok h (br_i31_decode x src) \<and> num (br_i31_decode x src) = be_num src \<and>
    length (br_i31_decode x src) = length x \<and> 0 < words31 h \<and> 31 * (words31 h - 1) < 8 * length src \<and>
    br_i31_decode x src ! words31 h \<noteq> 0"
proof -
  let ?P = "\<lambda>n y V. ok31 n y \<and> ival n y = V \<and> length y = length x"
  let ?g = "\<lambda>v w x :: u32 list. x[v := w]"
  have x: "0 < length x" using assms(1) by (cases x) simp_all
  have "?P (Suc n) (?g (Suc n) w y) (V + W31 ^ n * unat w)"
    if "?P n y V" "unat w < W31" "V < W31 ^ n" "31 * Suc n \<le> 8 * length src" for n w y V
  proof -
    have "Suc n < length x" using that(4) assms(1) by simp
    then show ?thesis using that(1,2) by (simp add: ok31_Suc)
  qed
  moreover have "?P 0 x 0" using x by simp
  ultimately obtain y n acc al V where f: "fold (byte_step ?g) (rev src) (x, 1, 0, 0) = (y, Suc n, acc, al)" "?P n y V" "V < W31 ^ n"
    "V + W31 ^ n * unat acc = be_num src" "unat acc < 2 ^ al" "al < 31" "31 * n + al = 8 * length src"
    using bytes_fold [of ?P x src ?g] by blast
  define n' where "n' = (if al \<noteq> 0 then Suc n else n)"
  define y' where "y' = (if al \<noteq> 0 then y[Suc n := acc] else y)"
  have n': "n' < length x" "31 * n' < 8 * length src + 31" "n' < 2 ^ 20"
    using f(6,7) assms(1,2) by (auto simp: n'_def)
  have y': "ok31 n' y'" "ival n' y' = be_num src" "length y' = length x"
  proof -
    have "(2 :: nat) ^ al \<le> W31" unfolding W31_def using f(6) by (intro power_increasing) (simp_all add: Suc_leI)
    then have a: "unat acc < W31" using f(5) by linarith
    have z: "unat acc = 0" if "al = 0" using f(5) that by simp
    show "length y' = length x" using f(2) by (simp add: y'_def)
    show "ok31 n' y'" "ival n' y' = be_num src" using f(2,4) a z n'(1) by (auto simp: n'_def y'_def ok31_Suc)
  qed
  define h where "h = br_i31_bit_length (drop 1 y') n'"
  have c: "br_i31_decode x src = y'[0 := h]"
    unfolding br_i31_decode_def f(1) by (simp add: h_def y'_def n'_def)
  have "ival n' y' \<noteq> 0" using y'(2) assms(3) by simp
  note b = bit_length_value [OF y'(1) n'(3) h_def this]
  have l: "0 < length y'" using x y'(3) by simp
  have "ok31 (words31 h) y'" using y'(1) b(3) by (auto simp: ok31_def)
  then have ok: "i31_ok h (y'[0 := h])" using b(1) l by (simp add: i31_ok_def ok31_def)
  have "num (y'[0 := h]) = be_num src" unfolding num_eq [OF ok] using b(4) y'(2) by simp
  moreover have nth: "y'[0 := h] ! words31 h = y' ! words31 h" using b(2) by simp
  moreover have "bits_ok h (y'[0 := h])" using b(5) by (simp only: bits_ok_def nth)
  moreover have "31 * (words31 h - 1) < 8 * length src" using n'(2) b(2,3) by simp
  ultimately show ?thesis unfolding c using ok b(2,6) y'(3) by auto
qed

section \<open>Decoding below a modulus\<close>

lemma spread_bool: "spread (- 1) = - 1" "spread 0 = 0" "spread 1 = 0"
  by code_simp+

lemma source_bytes:
  assumes "length src \<le> n"
  shows "map (source_byte src) [0..<n] = rev (replicate (n - length src) 0 @ src)"
proof (rule nth_equalityI)
  fix i assume "i < length (map (source_byte src) [0..<n])"
  then show "map (source_byte src) [0..<n] ! i = rev (replicate (n - length src) 0 @ src) ! i"
    using assms by (auto simp: source_byte_def rev_nth nth_append)
qed (use assms in simp)

text \<open>The comparison after \<open>n\<close> words.\<close>

definition three_way :: "nat \<Rightarrow> nat \<Rightarrow> u32" where
  "three_way a b = (if a < b then - 1 else if a = b then 0 else 1)"

lemma three_way_digits:
  assumes "s < M" "t < (M :: nat)"
  shows "three_way (s + M * x) (t + M * y) = (if x < y then - 1 else if x = y then three_way s t else 1)"
  using digit_less [OF assms, of x y] digit_less [OF assms(2,1), of y x] by (auto simp: three_way_def)

lemma decode_compare_word:
  assumes "i31_ok h m" "r = three_way V (ival (min n (words31 h)) m)" "V < W31 ^ n" "unat w < W31"
  shows "decode_compare (words31 h) m (Suc n) w r = three_way (V + W31 ^ n * unat w) (ival (min (Suc n) (words31 h)) m)"
proof (cases "Suc n \<le> words31 h")
  case True
  have "ok31 (Suc n) m" using assms(1) True by (auto simp: i31_ok_def ok31_def)
  then have "ival n m < W31 ^ n" by (intro ival_bound) (simp add: ok31_Suc)
  note t = three_way_digits [OF assms(3) this, of "unat w" "unat (m ! Suc n)"]
  have "min (Suc n) (words31 h) = Suc n" "min n (words31 h) = n" using True by simp_all
  then show ?thesis
    using True t assms(2)
    by (cases w "m ! Suc n" rule: linorder_cases) (auto simp: decode_compare_def Let_def ct word_less_nat_alt MUX_0_1)
next
  case False
  then have m: "min (Suc n) (words31 h) = words31 h" "min n (words31 h) = words31 h" by simp_all
  have "ival (words31 h) m < W31 ^ words31 h" using assms(1) by (intro ival_bound) (simp add: i31_ok_def)
  also have "\<dots> \<le> W31 ^ n" using False by (intro power_increasing) (simp_all add: Suc_leI)
  finally have "three_way (V + W31 ^ n * unat w) (ival (words31 h) m + W31 ^ n * 0) =
      (if unat w < 0 then - 1 else if unat w = 0 then three_way V (ival (words31 h) m) else 1)"
    by (rule three_way_digits [OF assms(3)])
  then show ?thesis
    using False m assms(2) MUX_0_1 by (auto simp: decode_compare_def EQ_eq word_unat_eq_iff)
qed

lemma decode_write_word:
  assumes "ok31 (min n N) x" "N < length x" "ival (min n N) x = (if p then V mod W31 ^ N else 0)" "V < W31 ^ n" "unat w < W31"
  shows "ok31 (min (Suc n) N) (decode_write N (- of_bool p) (Suc n) w x)"
    and "ival (min (Suc n) N) (decode_write N (- of_bool p) (Suc n) w x) = (if p then (V + W31 ^ n * unat w) mod W31 ^ N else 0)"
proof -
  have "unat (- of_bool p AND w) = (if p then unat w else 0)" by (cases p) simp_all
  then show "ok31 (min (Suc n) N) (decode_write N (- of_bool p) (Suc n) w x)"
    using assms(1,2,5) by (cases "Suc n \<le> N") (auto simp: decode_write_def ok31_def nth_list_update less_Suc_eq min_def)
  show "ival (min (Suc n) N) (decode_write N (- of_bool p) (Suc n) w x) = (if p then (V + W31 ^ n * unat w) mod W31 ^ N else 0)"
  proof (cases "Suc n \<le> N")
    case True
    have "W31 ^ Suc n \<le> W31 ^ N" using True by (intro power_increasing) (simp_all add: Suc_leI)
    then have "W31 ^ n * W31 \<le> W31 ^ N" by (simp only: power_Suc2)
    then have l: "V + W31 ^ n * unat w < W31 ^ N" using digit_bound [OF assms(4,5)] by simp
    then have "V < W31 ^ N" by simp
    then show ?thesis using True assms(2,3) l \<open>unat (- of_bool p AND w) = _\<close>
      by (cases p) (simp_all add: decode_write_def min_def)
  next
    case False
    then obtain d where "n = N + d" by (metis le_iff_add not_less_eq_eq)
    then have "(V + W31 ^ n * unat w) mod W31 ^ N = V mod W31 ^ N" by (simp add: power_add mult.assoc)
    moreover have "min n N = N" "min (Suc n) N = N" using False by simp_all
    ultimately show ?thesis using False assms(3) by (simp add: decode_write_def)
  qed
qed

theorem decode_mod_value:
  assumes "i31_ok h m" "words31 h < length x"
  shows "snd (br_i31_decode_mod x src m) = of_bool (be_num src < num m)"
    and "i31_ok h (fst (br_i31_decode_mod x src m))" and "length (fst (br_i31_decode_mod x src m)) = length x"
    and "num (fst (br_i31_decode_mod x src m)) = (if be_num src < num m then be_num src else 0)"
proof -
  let ?N = "words31 h" and ?p = "be_num src < num m"
  define n where "n = (if 4 * ?N < length src then length src else 4 * ?N) + 4"
  define pad where "pad = replicate (n - length src) 0 @ src"
  have n: "length src \<le> n" "length pad = n" "4 * ?N + 4 \<le> n" "length src + 4 \<le> n" by (auto simp: n_def pad_def)
  have bytes: "map (source_byte src) [0..<n] = rev pad" unfolding pad_def by (rule source_bytes [OF n(1)])
  have h: "m ! 0 = h" "header_ok h" using assms(1) by (simp_all add: i31_ok_def)
  text \<open>no bits are left over\<close>
  have all: "V = be_num src" "?N \<le> c"
    if "V < W31 ^ c" "V + W31 ^ c * unat acc = be_num pad" "unat acc < 2 ^ al" "al < 31" "31 * c + al = 8 * length pad" for V c and acc :: u32 and al
  proof -
    have "be_num src < 256 ^ length src" by (rule be_num_bound)
    also have "\<dots> \<le> W31 ^ c" unfolding power_256 W31_power_2 using that(4,5) n(2,4) by (intro power_increasing) (simp_all add: Suc_leI)
    finally have "be_num pad < W31 ^ c" by (simp add: pad_def be_num_zeros)
    then have "W31 ^ c * unat acc < W31 ^ c * 1" using that(2) by linarith
    then have "unat acc = 0" by simp
    then show "V = be_num src" using that(2) by (simp add: pad_def be_num_zeros)
    show "?N \<le> c" using that(4,5) n(2,3) by simp
  qed
  have M: "ival ?N m = num m" by (simp add: num_eq [OF assms(1)])
  let ?P = "\<lambda>c r V. r = three_way V (ival (min c ?N) m)"
  have "?P 0 0 0" by (simp add: three_way_def)
  moreover have "?P (Suc c) (decode_compare ?N m (Suc c) w r) (V + W31 ^ c * unat w)" if "?P c r V" "unat w < W31" "V < W31 ^ c" for c w r V
    by (rule decode_compare_word [OF assms(1) that(1) that(3,2)])
  ultimately obtain r c acc al V where f: "fold (byte_step (decode_compare ?N m)) (rev pad) (0, 1, 0, 0) = (r, Suc c, acc, al)"
    "?P c r V" "V < W31 ^ c" "V + W31 ^ c * unat acc = be_num pad" "unat acc < 2 ^ al" "al < 31" "31 * c + al = 8 * length pad"
    using bytes_fold [of ?P 0 pad "decode_compare ?N m"] by blast
  have "r = three_way (be_num src) (num m)" using f(2) all [OF f(3-7)] M by (simp add: min_absorb2)
  then have r: "spread r = - of_bool ?p" by (simp add: three_way_def spread_bool)
  let ?g = "decode_write ?N (- of_bool ?p)"
  let ?Q = "\<lambda>c y V. ok31 (min c ?N) y \<and> length y = length x \<and> ival (min c ?N) y = (if ?p then V mod W31 ^ ?N else 0)"
  have "?Q 0 x 0" using assms(2) by (auto simp: ok31_def)
  moreover have "?Q (Suc c) (?g (Suc c) w y) (V + W31 ^ c * unat w)" if "?Q c y V" "unat w < W31" "V < W31 ^ c" for c w y V
  proof -
    have l: "ok31 (min c ?N) y" "?N < length y" "ival (min c ?N) y = (if ?p then V mod W31 ^ ?N else 0)" using that(1) assms(2) by simp_all
    have "length (?g (Suc c) w y) = length x" using that(1) by (simp add: decode_write_def)
    then show ?thesis using decode_write_word [OF l that(3,2)] by blast
  qed
  ultimately obtain y c' acc' al' V' where g: "fold (byte_step ?g) (rev pad) (x, 1, 0, 0) = (y, Suc c', acc', al')"
    "?Q c' y V'" "V' < W31 ^ c'" "V' + W31 ^ c' * unat acc' = be_num pad" "unat acc' < 2 ^ al'" "al' < 31" "31 * c' + al' = 8 * length pad"
    using bytes_fold [of ?Q x pad ?g] by blast
  have e: "br_i31_decode_mod x src m = (y[0 := h], of_bool ?p)"
  proof -
    have "spread (- of_bool ?p) AND 1 = of_bool ?p" by (cases ?p) (simp_all add: spread_bool)
    then show ?thesis
      unfolding br_i31_decode_mod_def Let_def h(1) n_def [symmetric] bytes f(1) prod.case r g(1) by simp
  qed
  have l: "0 < length y" using g(2) assms(2) by auto
  have yok: "i31_ok h (y[0 := h])" using g(2) h(2) l all [OF g(3-7)] by (simp add: i31_ok_def ok31_def min_absorb2)
  have "ival ?N y = (if ?p then be_num src mod W31 ^ ?N else 0)"
    using g(2) all [OF g(3-7)] by (simp add: min_absorb2)
  moreover have "be_num src mod W31 ^ ?N = be_num src" if ?p using that num_bound [OF assms(1)] by simp
  ultimately have "num (y[0 := h]) = (if ?p then be_num src else 0)" unfolding num_eq [OF yok] by simp
  then show "snd (br_i31_decode_mod x src m) = of_bool ?p" "i31_ok h (fst (br_i31_decode_mod x src m))"
    "length (fst (br_i31_decode_mod x src m)) = length x" "num (fst (br_i31_decode_mod x src m)) = (if ?p then be_num src else 0)"
    using yok g(2) unfolding e by simp_all
qed

section \<open>Encoding\<close>

text \<open>The number of the words from the \<open>k\<close>-th on.\<close>

function rest :: "u32 list \<Rightarrow> nat \<Rightarrow> nat \<Rightarrow> nat" where
  "rest x n k = (if n < k then 0 else unat (x ! k) + W31 * rest x n (Suc k))"
  by pat_completeness auto
termination
  by (relation "measure (\<lambda>(x, n, k). Suc n - k)") auto

declare rest.simps [simp del]

lemma rest_ival: "rest x (k + d) (Suc k) = ival d (drop k x)" if "k + d < length x"
  using that
proof (induction d arbitrary: k)
  case 0
  then show ?case by (simp add: rest.simps)
next
  case (Suc d)
  have "rest x (k + Suc d) (Suc k) = unat (x ! Suc k) + W31 * rest x (Suc k + d) (Suc (Suc k))"
    by (subst rest.simps) simp
  also have "rest x (Suc k + d) (Suc (Suc k)) = ival d (drop (Suc k) x)" using Suc.prems by (intro Suc.IH) simp
  also have "unat (x ! Suc k) + W31 * ival d (drop (Suc k) x) = ival (Suc d) (drop k x)"
    using ival_shift [of d "drop k x" "drop (Suc k) x"] Suc.prems by simp
  finally show ?case .
qed

lemma four_digits: "n div 16777216 * 16777216 + n div 65536 mod 256 * 65536 + n div 256 mod 256 * 256 + n mod 256 = (n :: nat)"
proof -
  have sum: "q3 * 16777216 + r2 * 65536 + r1 * 256 + r0 = n"
    if "q1 * 256 + r0 = n" "q2 * 256 + r1 = q1" "q3 * 256 + r2 = q2" for q1 q2 q3 r0 r1 r2 :: nat
    using that by linarith
  have d: "n div 65536 = n div 256 div 256" "n div 16777216 = n div 256 div 256 div 256"
    by (simp_all flip: div_mult2_eq)
  show ?thesis unfolding d by (rule sum; rule div_mult_mod_eq)
qed

lemma enc32be_num: "be_num (br_enc32be z) = unat z" "length (br_enc32be z) = 4"
proof -
  show "length (br_enc32be z) = 4" by simp
  have u: "unat (ucast (drop_bit k z) :: byte) = unat z div 2 ^ k mod 256" for k
    by (simp add: unsigned_ucast_eq take_bit_eq_mod unat_drop_bit)
  have "unat (ucast z :: byte) = unat z mod 256" using u [of 0] by simp
  moreover have "unat z div 16777216 < 256" using unsigned_less [of z, where 'a = nat] by (simp add: less_mult_imp_div_less)
  ultimately have "be_num (br_enc32be z) =
      unat z div 16777216 * 16777216 + unat z div 65536 mod 256 * 65536 + unat z div 256 mod 256 * 256 + unat z mod 256"
    by (simp add: br_enc32be_def u)
  also have "\<dots> = unat z" by (rule four_digits)
  finally show "be_num (br_enc32be z) = unat z" .
qed

lemma be_num_drop: "be_num (drop k bs) = be_num bs mod 256 ^ (length bs - k)" if "k \<le> length bs"
proof -
  have "be_num bs = be_num (take k bs) * 256 ^ (length bs - k) + be_num (drop k bs)"
    using be_num_append [of "take k bs" "drop k bs"] by simp
  moreover have "be_num (drop k bs) < 256 ^ (length bs - k)" using be_num_bound [of "drop k bs"] by simp
  ultimately show ?thesis by simp
qed

text \<open>The bits at hand and the words to come.\<close>

lemma encode_word:
  fixes acc w :: u32
  assumes "0 < al" "al \<le> 31" "unat acc < 2 ^ al" "unat w < W31"
  shows "unat (acc OR push_bit al w) = (unat acc + 2 ^ al * unat w) mod 2 ^ 32"
    and "unat (drop_bit (31 - (al - 1)) w) = (unat acc + 2 ^ al * unat w) div 2 ^ 32"
    and "unat (drop_bit (31 - (al - 1)) w) < 2 ^ (al - 1)"
proof -
  have p: "(2 :: nat) ^ 32 = 2 ^ al * 2 ^ (31 - (al - 1))"
  proof -
    have "32 = al + (31 - (al - 1))" using assms(1,2) by simp
    then show ?thesis by (metis power_add)
  qed
  have "2 ^ al dvd unat w * 2 ^ al mod (2 :: nat) ^ 32" unfolding p by (intro dvd_mod) simp_all
  then have "unat (push_bit al w OR acc) = unat w * 2 ^ al mod 2 ^ 32 + unat acc"
    using assms(3) by (subst or_disjoint [where j = al]) (simp_all only: unat_push_bit)
  moreover have "unat w * 2 ^ al mod 2 ^ 32 + unat acc = (unat acc + 2 ^ al * unat w) mod 2 ^ 32"
  proof -
    have "unat w * 2 ^ al mod 2 ^ 32 = 2 ^ al * (unat w mod 2 ^ (31 - (al - 1)))"
      unfolding p by (simp only: mult.commute [of "unat w"] mult_mod_right)
    moreover have "(unat acc + 2 ^ al * unat w) mod 2 ^ 32 = 2 ^ al * (unat w mod 2 ^ (31 - (al - 1))) + unat acc"
      unfolding p using assms(3) by (simp add: mod_mult2_eq)
    ultimately show ?thesis by simp
  qed
  ultimately show "unat (acc OR push_bit al w) = (unat acc + 2 ^ al * unat w) mod 2 ^ 32" by (simp only: or.commute)
  show d: "unat (drop_bit (31 - (al - 1)) w) = (unat acc + 2 ^ al * unat w) div 2 ^ 32"
    unfolding p div_mult2_eq unat_drop_bit using assms(3) by simp
  have "unat w < 2 ^ (al - 1) * 2 ^ (31 - (al - 1))"
    using assms(1,2,4) by (simp add: W31_def flip: power_add)
  then show "unat (drop_bit (31 - (al - 1)) w) < 2 ^ (al - 1)"
    by (simp add: unat_drop_bit less_mult_imp_div_less)
qed

lemma low_high: "z < B \<Longrightarrow> (z + B * t) mod (B * M) = B * (t mod M) + (z :: nat)"
  by (simp add: mod_mult2_eq)

lemma encode_loop_value:
  assumes "ok31 n x" "0 < k" "al \<le> 31" "unat acc < 2 ^ al"
  shows "length (encode_loop x n k acc al len buf) = len + length buf \<and>
    be_num (encode_loop x n k acc al len buf) =
      ((unat acc + 2 ^ al * rest x n k) mod 256 ^ len) * 256 ^ length buf + be_num buf"
  using assms(2-4)
proof (induction "2 * len + (if al = 0 then 1 else 0)" arbitrary: k acc al len buf rule: less_induct)
  case less
  show ?case
  proof (cases "len = 0")
    case True
    then show ?thesis by (simp add: encode_loop.simps)
  next
    case False
    define w where "w = (if k \<le> n then x ! k else 0)"
    have R: "rest x n k = unat w + W31 * rest x n (k + 1)"
      by (cases "k \<le> n") (subst rest.simps, simp add: w_def, simp add: w_def rest.simps [of x n])
    have wb: "unat w < W31"
    proof (cases "k \<le> n")
      case True
      then obtain i where "k = Suc i" "i < n" using less.prems(1) by (cases k) auto
      then show ?thesis using assms(1) True by (simp add: w_def ok31_def)
    qed (simp add: w_def)
    show ?thesis
    proof (cases "al = 0")
      case True
      then have "encode_loop x n k acc al len buf = encode_loop x n (k + 1) w 31 len buf"
        using False by (subst encode_loop.simps) (simp add: Let_def w_def)
      moreover have "2 * len + (if (31 :: nat) = 0 then 1 else 0) < 2 * len + (if al = 0 then 1 else 0)" using True by simp
      moreover have "unat acc + 2 ^ al * rest x n k = unat w + 2 ^ 31 * rest x n (k + 1)" using less.prems(3) True R by (simp add: W31_def)
      ultimately show ?thesis using less.hyps [of len 31 "k + 1" w buf] wb by (simp add: W31_def)
    next
      case al: False
      define z where "z = acc OR push_bit al w"
      define acc' where "acc' = drop_bit (31 - (al - 1)) w"
      have "0 < al" using al by simp
      note e = encode_word [OF this less.prems(2,3) wb, folded z_def acc'_def]
      let ?T = "unat acc + 2 ^ al * rest x n k" and ?T' = "unat acc' + 2 ^ (al - 1) * rest x n (k + 1)"
      have "(2 :: nat) ^ al * W31 = 2 ^ 32 * 2 ^ (al - 1)" using al by (cases al) (simp_all add: W31_def)
      then have "?T = (unat acc + 2 ^ al * unat w) + 2 ^ 32 * (2 ^ (al - 1) * rest x n (k + 1))"
        unfolding R distrib_left by (simp only: mult.assoc [symmetric] add.assoc)
      also have "unat acc + 2 ^ al * unat w = 2 ^ 32 * unat acc' + unat z" unfolding e(1,2) by (simp only: mult_div_mod_eq)
      finally have T: "?T = unat z + 2 ^ 32 * ?T'" by (simp only: distrib_left add_ac)
      show ?thesis
      proof (cases "4 \<le> len")
        case True
        then have r: "encode_loop x n k acc al len buf = encode_loop x n (k + 1) acc' (al - 1) (len - 4) (br_enc32be z @ buf)"
          using False al by (subst encode_loop.simps) (simp add: Let_def w_def z_def acc'_def)
        have m: "2 * (len - 4) + (if al - 1 = 0 then 1 else 0) < 2 * len + (if al = 0 then 1 else 0)" using True by auto
        have IH: "length (encode_loop x n (k + 1) acc' (al - 1) (len - 4) (br_enc32be z @ buf)) = len - 4 + length (br_enc32be z @ buf) \<and>
          be_num (encode_loop x n (k + 1) acc' (al - 1) (len - 4) (br_enc32be z @ buf)) =
            (?T' mod 256 ^ (len - 4)) * 256 ^ length (br_enc32be z @ buf) + be_num (br_enc32be z @ buf)"
          by (rule less.hyps [OF m]) (use less.prems e(3) in simp_all)
        have p: "(256 :: nat) ^ len = 2 ^ 32 * 256 ^ (len - 4)"
        proof -
          have "(256 :: nat) ^ len = 256 ^ (4 + (len - 4))" using True by simp
          then show ?thesis by (simp only: power_add) simp
        qed
        have "unat z < 2 ^ 32" using unsigned_less [of z, where 'a = nat] by simp
        then have "?T mod 256 ^ len = 2 ^ 32 * (?T' mod 256 ^ (len - 4)) + unat z"
          unfolding T p by (rule low_high)
        then show ?thesis
          unfolding r using IH True by (simp add: be_num_append enc32be_num power_add algebra_simps)
      next
        case short: False
        then have r: "encode_loop x n k acc al len buf = drop (4 - len) (br_enc32be z) @ buf"
          using False al by (subst encode_loop.simps) (simp add: Let_def w_def z_def)
        have "(256 :: nat) ^ len dvd 2 ^ 32" unfolding power_256 using short by (intro le_imp_power_dvd) simp
        then have "?T mod 256 ^ len = unat z mod 256 ^ len" unfolding T by (metis dvd_mult2 mod_add_self2 dvd_imp_mod_0 mod_add_right_eq add.right_neutral)
        moreover have "be_num (drop (4 - len) (br_enc32be z)) = unat z mod 256 ^ len"
          using be_num_drop [of "4 - len" "br_enc32be z"] short by (simp add: enc32be_num)
        ultimately show ?thesis unfolding r using short by (simp add: be_num_append enc32be_num)
      qed
    qed
  qed
qed

text \<open>The low bytes of the number, as many as asked for.\<close>

theorem encode_value:
  assumes "i31_ok h x"
  shows "length (br_i31_encode len x) = len" and "be_num (br_i31_encode len x) = num x mod 256 ^ len"
proof -
  have h: "x ! 0 = h" "ok31 (words31 h) x" using assms by (simp_all add: i31_ok_def)
  have "length (br_i31_encode len x) = len \<and> be_num (br_i31_encode len x) = num x mod 256 ^ len"
  proof (cases "words31 h = 0")
    case True
    then show ?thesis using num_eq [OF assms] be_num_zeros [of len "[]"] by (simp add: br_i31_encode_def h)
  next
    case False
    have "rest x (words31 h) 1 = num x"
      using rest_ival [of 0 "words31 h" x] h(2) by (simp add: ok31_def num_eq [OF assms])
    then show ?thesis
      using encode_loop_value [OF h(2), of 1 0 0 len "[]"] False by (simp add: br_i31_encode_def h)
  qed
  then show "length (br_i31_encode len x) = len" "be_num (br_i31_encode len x) = num x mod 256 ^ len" by blast+
qed

end
