(* ===== verification/I31_Pow.thy ===== *)
theory I31_Pow
  imports I31_Codec
begin

text \<open>
  Modular exponentiation on the big integers of BearSSL: \<^verbatim>\<open>i31_modpow.c\<close>, bit by bit from the low end, and \<^verbatim>\<open>i31_modpow2.c\<close>, in windows
  from the high end, as wide as the scratch space allows. Shown: for an odd modulus both return the power,
  whatever the scratch arrays hold.
\<close>

section \<open>The code\<close>

text \<open>Conditional copy of the first words of an array: the words as their bytes in memory (the machine is
  little-endian).\<close>

definition CCOPY :: "u32 \<Rightarrow> u32 list \<Rightarrow> u32 list \<Rightarrow> nat \<Rightarrow> u32 list" where
  "CCOPY ctl dst src n =
     br_range_dec32le (length dst) (br_ccopy ctl (br_range_enc32le dst) (br_range_enc32le src) (4 * n))"

text \<open>\<open>memcpy\<close> of \<open>n\<close> words.\<close>

definition copy_words :: "u32 list \<Rightarrow> u32 list \<Rightarrow> nat \<Rightarrow> u32 list" where
  "copy_words dst src n = take n src @ drop n dst"

definition modpow_bit ::
    "byte list \<Rightarrow> u32 list \<Rightarrow> u32 \<Rightarrow> nat \<Rightarrow> nat \<Rightarrow> u32 list \<times> u32 list \<times> u32 list \<Rightarrow> u32 list \<times> u32 list \<times> u32 list" where
  "modpow_bit e m m0i mlen k s =
     (let (x, t1, t2) = s;
          ctl = drop_bit (k mod 8) (ucast (e ! (length e - 1 - k div 8))) AND 1;
          t2 = br_i31_montymul t2 x t1 m m0i;
          x = CCOPY ctl x t2 mlen;
          t2 = br_i31_montymul t2 t1 t1 m m0i;
          t1 = copy_words t1 t2 mlen
      in (x, t1, t2))"

definition br_i31_modpow :: "u32 list \<Rightarrow> byte list \<Rightarrow> u32 list \<Rightarrow> u32 \<Rightarrow> u32 list \<Rightarrow> u32 list \<Rightarrow> u32 list" where
  "br_i31_modpow x e m m0i t1 t2 =
     (let mlen = unat (drop_bit 5 (m ! 0 + 63));
          t1 = copy_words t1 x mlen;
          t1 = br_i31_to_monty t1 m;
          x = br_i31_zero x (m ! 0);
          x = x[1 := 1]
      in fst (fold (modpow_bit e m m0i mlen) [0..<unat (push_bit 3 (word_of_nat (length e)) :: u32)] (x, t1, t2)))"

section \<open>Powers in Montgomery representation\<close>

text \<open>An array that holds a number below the modulus.\<close>

definition residue :: "u32 \<Rightarrow> u32 list \<Rightarrow> u32 list \<Rightarrow> nat \<Rightarrow> bool" where
  "residue h m x v \<longleftrightarrow> i31_ok h x \<and> num x = v mod num m"

lemma residue_less: "0 < num m \<Longrightarrow> residue h m x v \<Longrightarrow> num x < num m"
  by (simp add: residue_def)

lemma cancel_mod:
  fixes r a b M :: nat
  assumes "coprime r M" and "(r * a) mod M = (r * b) mod M"
  shows "a mod M = b mod M"
proof -
  have half: "a mod M = b mod M" if "b \<le> a" "(r * a) mod M = (r * b) mod M" for a b
  proof -
    have "M dvd r * a - r * b" using that by (subst mod_eq_dvd_iff_nat [symmetric]) simp_all
    then have "M dvd r * (a - b)" by (simp only: diff_mult_distrib2)
    then have "M dvd a - b" using assms(1) by (simp add: coprime_dvd_mult_right_iff coprime_commute)
    then show ?thesis using that(1) by (simp add: mod_eq_dvd_iff_nat)
  qed
  show ?thesis
  proof (cases "b \<le> a")
    case True
    then show ?thesis by (rule half) (rule assms(2))
  next
    case False
    then show ?thesis using half [of a b] assms(2) by simp
  qed
qed

lemma modulus_coprime:
  assumes "modulus_ok h m m0i"
  shows "coprime (W31 ^ n) (num m)"
proof -
  obtain k where k: "words31 h = Suc k" "ival (Suc k) m = num m" "inverse_ok m0i m"
    using modulus_words [OF assms] by blast
  obtain q where q: "num m = unat (m ! 1) + W31 * q" using ival_mod [of k m] k(2) by auto
  have e: "even W31" by (simp add: W31_def)
  have "W31 dvd unat m0i * unat (m ! 1) + 1" using k(3) by (simp add: inverse_ok_def)
  then have "odd (unat (m ! 1))" using e by (metis dvd_trans even_add even_mult_iff odd_one)
  then have "odd (num m)" using q e by simp
  then have "coprime (2 :: nat) (num m)" by simp
  then show ?thesis by (simp add: W31_power_2)
qed

text \<open>The product of two numbers, one of them in Montgomery representation, and of two that are.\<close>

lemma montymul_residue:
  assumes "modulus_ok h m m0i" "residue h m x u" "residue h m y (W31 ^ words31 h * v)" "words31 h < length d"
  shows "residue h m (br_i31_montymul d x y m m0i) (u * v)" and "length (br_i31_montymul d x y m m0i) = length d"
proof -
  have m: "0 < num m" using assms(1) by (simp add: modulus_ok_def)
  let ?R = "W31 ^ words31 h" and ?z = "br_i31_montymul d x y m m0i"
  have x: "i31_ok h x" "ok31 (words31 h) x" "num x = u mod num m" "num x = ival (words31 h) x"
    using assms(2) by (simp_all add: residue_def flip: num_eq [of h]) (simp add: i31_ok_def)
  have y: "i31_ok h y" "num y = (?R * v) mod num m" "num y < num m" using assms(3) m by (simp_all add: residue_def)
  note v = montymul_value [OF assms(1) x(2) y(1,3) assms(4)]
  have "(?R * num ?z) mod num m = (num x * num y) mod num m" using v(4) x(4) by simp
  also have "\<dots> = (u * (?R * v)) mod num m" unfolding x(3) y(2) by (rule mod_mult_eq)
  finally have "(?R * num ?z) mod num m = (?R * (u * v)) mod num m" by (simp only: mult.left_commute)
  then have "num ?z mod num m = (u * v) mod num m" by (rule cancel_mod [OF modulus_coprime [OF assms(1)]])
  then show "residue h m ?z (u * v)" using v(1,3) by (simp add: residue_def)
  show "length ?z = length d" by (rule v(2))
qed

lemma montymul_both:
  assumes "modulus_ok h m m0i" "residue h m x (W31 ^ words31 h * u)" "residue h m y (W31 ^ words31 h * v)" "words31 h < length d"
  shows "residue h m (br_i31_montymul d x y m m0i) (W31 ^ words31 h * (u * v))"
  using montymul_residue(1) [OF assms] by (simp only: mult.assoc)

lemma enc_append: "br_range_enc32le (xs @ ys) = br_range_enc32le xs @ br_range_enc32le ys"
  by (induction xs) simp_all

lemma CCOPY_value:
  assumes "n \<le> length dst" "n \<le> length src"
  shows "CCOPY (of_bool p) dst src n = (if p then copy_words dst src n else dst)"
proof -
  let ?e = br_range_enc32le
  have s: "?e src = ?e (take n src) @ ?e (drop n src)" "?e dst = ?e (take n dst) @ ?e (drop n dst)"
    by (simp_all flip: enc_append)
  have "take (4 * n) (?e src) @ drop (4 * n) (?e dst) = ?e (copy_words dst src n)"
    unfolding s using assms by (simp add: copy_words_def enc_append)
  then have "br_ccopy (of_bool p) (?e dst) (?e src) (4 * n) = ?e (if p then copy_words dst src n else dst)"
    using assms br_ccopy_eq [of "4 * n" "?e dst" "?e src" p] by simp
  moreover have "length (if p then copy_words dst src n else dst) = length dst" using assms by (simp add: copy_words_def)
  ultimately show ?thesis using range_dec_enc(1) [of "if p then copy_words dst src n else dst" "[]"] by (simp add: CCOPY_def)
qed

lemma length_copy_words: "n \<le> length dst \<Longrightarrow> n \<le> length src \<Longrightarrow> length (copy_words dst src n) = length dst"
  by (simp add: copy_words_def)

lemma copy_words_nth: "i < n \<Longrightarrow> n \<le> length src \<Longrightarrow> copy_words dst src n ! i = src ! i"
  by (simp add: copy_words_def nth_append)

lemma same_words:
  assumes "residue h m x v" "y ! 0 = h" "words31 h < length y" "\<And>i. i < words31 h \<Longrightarrow> y ! Suc i = x ! Suc i"
  shows "residue h m y v"
proof -
  have "i31_ok h y" using assms by (auto simp: residue_def i31_ok_def ok31_def)
  moreover have "num y = num x"
    unfolding num_eq [OF calculation] using assms(1,4) by (subst num_eq [of h]) (auto simp: residue_def intro: ival_cong)
  ultimately show ?thesis using assms(1) by (simp add: residue_def)
qed

lemma copy_residue:
  assumes "residue h m src v" "words31 h < n" "n \<le> length src" "n \<le> length dst"
  shows "residue h m (copy_words dst src n) v"
proof (rule same_words [OF assms(1)])
  have n: "copy_words dst src n ! i = src ! i" if "i \<le> words31 h" for i
    using that assms(2,3) by (intro copy_words_nth) simp_all
  then show "copy_words dst src n ! 0 = h" using assms(1) by (simp add: residue_def i31_ok_def)
  show "copy_words dst src n ! Suc i = src ! Suc i" if "i < words31 h" for i using that n by simp
qed (use assms(2-4) in \<open>simp add: length_copy_words\<close>)

section \<open>From the low end\<close>

lemma byte_bits: "(\<Sum>j<8. of_bool (bit b j) * 2 ^ j) = unat (b :: byte)"
proof -
  have "take_bit 8 (unat b) = (\<Sum>j<8. push_bit j (of_bool (bit (unat b) j)))"
    by (simp only: take_bit_sum lessThan_atLeast0)
  moreover have "take_bit 8 (unat b) = unat b" using unat_byte [of b] by (simp add: take_bit_nat_eq_self)
  ultimately show ?thesis by (simp add: push_bit_eq_mult bit_unsigned_iff)
qed

lemma sum_append: "(\<Sum>k<n + m. f k) = (\<Sum>k<n. f k) + (\<Sum>j<m. f (n + j))" for f :: "nat \<Rightarrow> nat"
  by (induction m) simp_all

definition exponent_bit :: "byte list \<Rightarrow> nat \<Rightarrow> bool" where
  "exponent_bit e k = bit (e ! (length e - 1 - k div 8)) (k mod 8)"

lemma exponent_bits: "(\<Sum>k<8 * length e. of_bool (exponent_bit e k) * 2 ^ k) = be_num e"
proof (induction e)
  case (Cons b bs)
  let ?f = "\<lambda>k. of_bool (exponent_bit (b # bs) k) * (2 :: nat) ^ k" and ?n = "8 * length bs"
  have low: "?f k = of_bool (exponent_bit bs k) * 2 ^ k" if "k < ?n" for k
  proof -
    have "k div 8 < length bs" using that by (simp add: less_mult_imp_div_less mult.commute)
    then have "(b # bs) ! (length bs - k div 8) = bs ! (length bs - 1 - k div 8)" by (simp add: nth_Cons')
    then show ?thesis by (simp add: exponent_bit_def)
  qed
  have high: "?f (?n + j) = 2 ^ ?n * (of_bool (bit b j) * 2 ^ j)" if "j < 8" for j
    using that by (simp add: exponent_bit_def power_add)
  have "(\<Sum>k<?n + 8. ?f k) = (\<Sum>k<?n. ?f k) + (\<Sum>j<8. ?f (?n + j))"
    by (rule sum_append)
  also have "(\<Sum>k<?n. ?f k) = be_num bs" using low Cons by simp
  also have "(\<Sum>j<8. ?f (?n + j)) = 2 ^ ?n * unat b" using high by (simp flip: sum_distrib_left add: byte_bits)
  finally show ?case by (simp add: power_256 add.commute mult.commute)
qed simp

lemma modpow_bit_value:
  assumes "modulus_ok h m m0i" "mlen = Suc (words31 h)"
    and "residue h m x (b ^ v)" "residue h m t1 (W31 ^ words31 h * b ^ u)"
    and "mlen \<le> length x" "mlen \<le> length t1" "mlen \<le> length t2"
    and "modpow_bit e m m0i mlen k (x, t1, t2) = (x', t1', t2')"
  shows "residue h m x' (b ^ (v + of_bool (exponent_bit e k) * u))" and "residue h m t1' (W31 ^ words31 h * b ^ (2 * u))"
    and "length x' = length x" "length t1' = length t1" "length t2' = length t2"
proof -
  let ?b = "e ! (length e - 1 - k div 8)"
  define ctl where "ctl = (drop_bit (k mod 8) (ucast ?b) AND 1 :: u32)"
  have "k mod 8 < 32" using mod_less_divisor [of 8 k] by linarith
  then have "odd (drop_bit (k mod 8) (ucast ?b :: u32)) \<longleftrightarrow> bit ?b (k mod 8)" by (simp flip: bit_0 add: bit_simps)
  then have c: "ctl = of_bool (exponent_bit e k)" by (simp add: ctl_def and_one_eq mod_2_eq_odd exponent_bit_def)
  define s where "s = br_i31_montymul t2 x t1 m m0i"
  have l: "words31 h < length t2" using assms(2,7) by simp
  note s = montymul_residue [OF assms(1,3,4) l, folded s_def]
  have ls: "words31 h < length s" using l s(2) by simp
  define q where "q = br_i31_montymul s t1 t1 m m0i"
  have q: "residue h m q (W31 ^ words31 h * (b ^ u * b ^ u))" "length q = length t2"
    unfolding q_def using montymul_both [OF assms(1,4,4) ls] montymul_residue(2) [OF assms(1,4,4) ls] s(2) by simp_all
  have e: "x' = (if exponent_bit e k then copy_words x s mlen else x)" "t1' = copy_words t1 q mlen" "t2' = q"
    using assms(8) CCOPY_value [of mlen x s "exponent_bit e k"] assms(5,7) s(2)
    unfolding modpow_bit_def Let_def prod.case ctl_def [symmetric] c s_def [symmetric] q_def [symmetric] by auto
  show "residue h m x' (b ^ (v + of_bool (exponent_bit e k) * u))"
    unfolding e(1) using copy_residue [OF s(1), of mlen x] assms(2,3,5,7) s(2) by (simp add: power_add)
  show "residue h m t1' (W31 ^ words31 h * b ^ (2 * u))"
    unfolding e(2) using copy_residue [OF q(1), of mlen t1] assms(2,6,7) q(2) by (simp add: mult_2 power_add)
  show "length x' = length x" "length t1' = length t1" "length t2' = length t2"
    unfolding e using assms(5-7) s(2) q(2) by (simp_all add: length_copy_words)
qed

theorem modpow_value:
  assumes "modulus_ok h m m0i" "bits_ok h m" "i31_ok h x" "num x < num m" "length e < 2 ^ 29"
    and "words31 h < length t1" "words31 h < length t2"
  shows "i31_ok h (br_i31_modpow x e m m0i t1 t2)" and "num (br_i31_modpow x e m m0i t1 t2) = num x ^ be_num e mod num m"
proof -
  let ?n = "words31 h" let ?mlen = "Suc ?n" let ?R = "W31 ^ ?n" let ?b = "num x"
  obtain i where i: "?n = Suc i" "m ! 0 = h" "header_ok h" "0 < num m" using modulus_words [OF assms(1)] by blast
  have m: "i31_ok h m" "1 < num m" using assms(1) by (simp_all add: modulus_ok_def)
  have x: "?n < length x" using assms(3) by (simp add: i31_ok_def ok31_def)
  define y where "y = br_i31_to_monty (copy_words t1 x ?mlen) m"
  define z where "z = (br_i31_zero x h)[1 := 1]"
  have "residue h m x ?b" using assms(3,4) by (simp add: residue_def)
  then have c: "residue h m (copy_words t1 x ?mlen) ?b" using x assms(6) by (intro copy_residue) simp_all
  then have "i31_ok h (copy_words t1 x ?mlen)" "num (copy_words t1 x ?mlen) = ?b" using assms(4) by (simp_all add: residue_def)
  note t = to_monty_value [OF m(1) assms(2) i(4) this(1), folded y_def, unfolded this(2), OF assms(4)]
  have y: "residue h m y (?R * ?b ^ 1)" "length y = length t1"
    using t x assms(6) by (simp_all add: residue_def length_copy_words)
  have z: "residue h m z (?b ^ 0)" "length z = length x"
  proof -
    have z0: "i31_ok h (br_i31_zero x h)" using zero_ok [OF x i(3)] by simp
    have l: "1 < length (br_i31_zero x h)" using x i(1) by simp
    have zok: "i31_ok h z" using z0 l by (auto simp: z_def i31_ok_def ok31_def nth_list_update)
    have "ival (Suc j) z = 1" if "j \<le> i" for j
      using that
    proof (induction j)
      case (Suc j)
      then have "z ! Suc (Suc j) = 0" by (simp add: z_def zero_nth i(1))
      then show ?case using Suc by simp
    qed (use l in \<open>simp add: z_def\<close>)
    then have "num z = 1" by (simp add: num_eq [OF zok] i(1) del: ival.simps)
    then show "residue h m z (?b ^ 0)" using zok m(2) by (simp add: residue_def)
    show "length z = length x" using x by (simp add: z_def)
  qed
  let ?f = "modpow_bit e m m0i ?mlen" and ?v = "\<lambda>k. (\<Sum>j<k. of_bool (exponent_bit e j) * 2 ^ j)"
  have run: "\<exists>x' t1' t2'. fold ?f [0..<k] (z, y, t2) = (x', t1', t2') \<and> residue h m x' (?b ^ ?v k) \<and>
      residue h m t1' (?R * ?b ^ (2 ^ k)) \<and> length x' = length x \<and> length t1' = length t1 \<and> length t2' = length t2" for k
  proof (induction k)
    case 0
    then show ?case using y z by simp
  next
    case (Suc k)
    then obtain x' t1' t2' where IH: "fold ?f [0..<k] (z, y, t2) = (x', t1', t2')" "residue h m x' (?b ^ ?v k)"
      "residue h m t1' (?R * ?b ^ (2 ^ k))" "length x' = length x" "length t1' = length t1" "length t2' = length t2" by blast
    obtain x2 t12 t22 where s: "?f k (x', t1', t2') = (x2, t12, t22)" by (metis prod_cases3)
    have l: "?mlen \<le> length x'" "?mlen \<le> length t1'" "?mlen \<le> length t2'" using x assms(6,7) IH(4-6) by simp_all
    note v = modpow_bit_value [OF assms(1) refl IH(2,3) l s]
    show ?case unfolding fold_upt_Suc IH(1) s using v IH(4-6) by simp
  qed
  have ml: "unat (drop_bit 5 (h + 63)) = ?mlen" by (rule loop_words [OF i(3)])
  have el: "unat (push_bit 3 (word_of_nat (length e)) :: u32) = 8 * length e"
    using assms(5) by (simp add: unat_push_bit unsigned_of_nat take_bit_nat_eq_self)
  have r: "br_i31_modpow x e m m0i t1 t2 = fst (fold ?f [0..<8 * length e] (z, y, t2))"
    by (simp only: br_i31_modpow_def Let_def ml el i(2) y_def z_def)
  have "residue h m (br_i31_modpow x e m m0i t1 t2) (?b ^ be_num e)"
    using run [of "8 * length e"] unfolding r exponent_bits by auto
  then show "i31_ok h (br_i31_modpow x e m m0i t1 t2)" "num (br_i31_modpow x e m m0i t1 t2) = ?b ^ be_num e mod num m"
    by (simp_all add: residue_def)
qed

section \<open>In windows\<close>

text \<open>The widest window, up to five bits, whose table fits.\<close>

definition window_len :: "nat \<Rightarrow> nat \<Rightarrow> nat" where
  "window_len mwlen twlen =
     (case find (\<lambda>w. (2 ^ w + 1) * mwlen \<le> twlen) [5, 4, 3, 2] of Some w \<Rightarrow> w | None \<Rightarrow> 1)"

text \<open>The entry of the table for \<open>bits\<close>, found without telling which.\<close>

definition pick_word :: "u32 \<Rightarrow> u32 list \<Rightarrow> nat \<Rightarrow> u32 list \<Rightarrow> u32 list" where
  "pick_word msk entry v t2 = t2[v := t2 ! v OR (msk AND entry ! v)]"

definition pick_entry :: "u32 list list \<Rightarrow> u32 \<Rightarrow> nat \<Rightarrow> nat \<Rightarrow> u32 list \<Rightarrow> u32 list" where
  "pick_entry table bits mwlen u t2 =
     (let msk = - EQ (word_of_nat u) bits in fold (pick_word msk (table ! u)) [1..<mwlen] t2)"

text \<open>The next bits of the exponent: how many, their value, and the exponent, the accumulator and its length after them.\<close>

definition next_bits :: "nat \<Rightarrow> byte list \<Rightarrow> u32 \<Rightarrow> nat \<Rightarrow> nat \<times> u32 \<times> byte list \<times> u32 \<times> nat" where
  "next_bits win_len e acc acc_len =
     (let (k, e, acc, acc_len) =
        (if acc_len < win_len then
           if length e > 0 then (win_len, tl e, push_bit 8 acc OR ucast (hd e), acc_len + 8) else (acc_len, e, acc, acc_len)
         else (win_len, e, acc, acc_len))
      in (k, drop_bit (acc_len - k) acc AND (push_bit k 1 - 1), e, acc, acc_len - k))"

definition square_step :: "u32 list \<Rightarrow> u32 \<Rightarrow> nat \<Rightarrow> u32 list \<times> u32 list \<Rightarrow> u32 list \<times> u32 list" where
  "square_step m m0i mlen s =
     (let (x, t1) = s; t1 = br_i31_montymul t1 x x m m0i in (copy_words x t1 mlen, t1))"

text \<open>\<open>table ! u\<close> is the block that the code calls \<open>base\<close> after \<open>u\<close> steps.\<close>

partial_function (option) opt_loop ::
    "u32 list list \<Rightarrow> u32 list \<Rightarrow> u32 \<Rightarrow> nat \<Rightarrow> nat \<Rightarrow> nat \<Rightarrow> byte list \<Rightarrow> u32 \<Rightarrow> nat \<Rightarrow>
     u32 list \<Rightarrow> u32 list \<Rightarrow> u32 list \<Rightarrow> u32 list option" where
  "opt_loop table m m0i mlen mwlen win_len e acc acc_len x t1 t2 =
     (if 0 < acc_len \<or> 0 < length e then
        let (k, bits, e, acc, acc_len) = next_bits win_len e acc acc_len;
            (x, t1) = (square_step m m0i mlen ^^ k) (x, t1);
            t2 = (if 1 < win_len then
                    fold (pick_entry table bits mwlen) [1..<2 ^ k] (br_i31_zero t2 (m ! 0))
                  else t2);
            t1 = br_i31_montymul t1 x t2 m m0i;
            x = CCOPY (NEQ bits 0) x t1 mlen
        in opt_loop table m m0i mlen mwlen win_len e acc acc_len x t1 t2
      else Some x)"

definition table_entry :: "u32 list \<Rightarrow> u32 list \<Rightarrow> u32 \<Rightarrow> nat \<Rightarrow> u32 list list \<Rightarrow> u32 list list" where
  "table_entry x m m0i u table = table[u := br_i31_montymul (table ! u) (table ! (u - 1)) x m m0i]"

text \<open>The scratch space is cut into blocks of \<open>mwlen\<close> words: \<open>t1\<close>, \<open>t2\<close> and the entries of the table from the first one on. The flag and
  the array.\<close>

definition br_i31_modpow_opt ::
    "u32 list \<Rightarrow> byte list \<Rightarrow> u32 list \<Rightarrow> u32 \<Rightarrow> u32 list \<Rightarrow> (u32 \<times> u32 list) option" where
  "br_i31_modpow_opt x e m m0i tmp =
     (let mlen = unat (drop_bit 5 (m ! 0 + 63));
          mwlen = mlen + mlen mod 2;
          t1 = take mwlen tmp;
          t2 = take mwlen (drop mwlen tmp)
      in if length tmp < 2 * mwlen then Some (0, x)
         else
           let win_len = window_len mwlen (length tmp);
               x = br_i31_to_monty x m;
               table = map (\<lambda>u. take mwlen (drop ((u + 1) * mwlen) tmp)) [0..<2 ^ win_len];
               (t2, table) =
                 (if win_len = 1 then (copy_words t2 x mlen, table)
                  else (t2, fold (table_entry x m m0i) [2..<2 ^ win_len] (table[1 := copy_words (table ! 1) x mlen])));
               x = br_i31_zero x (m ! 0);
               x = x[words31 (m ! 0) := 1];
               x = br_i31_muladd_small x 0 m
           in map_option (\<lambda>x. (1, br_i31_from_monty x m m0i)) (opt_loop table m m0i mlen mwlen win_len e 0 0 x t1 t2))"

lemma window_len_fits:
  "1 \<le> window_len mwlen twlen" "window_len mwlen twlen \<le> 5"
  "window_len mwlen twlen \<noteq> 1 \<Longrightarrow> (2 ^ window_len mwlen twlen + 1) * mwlen \<le> twlen"
  by (simp add: window_len_def, simp add: window_len_def) (auto simp: window_len_def split: if_splits)

lemma fold_pick:
  "fold (\<lambda>u s. if u = b then g s else s) [i..<j] s = (if i \<le> b \<and> b < j then g s else s)"
proof (induction j)
  case (Suc j)
  then show ?case by (cases "i \<le> j") (auto simp: less_Suc_eq)
qed simp

lemma pick_words_value:
  assumes "n \<le> length t2"
  shows "fold (pick_word (- 1) c) [1..<n] t2 = map (\<lambda>v. if 1 \<le> v \<and> v < n then t2 ! v OR c ! v else t2 ! v) [0..<length t2]"
  using assms
proof (induction n)
  case (Suc n)
  show ?case
  proof (cases "1 \<le> n")
    case True
    then have "fold (pick_word (- 1) c) [1..<Suc n] t2 = pick_word (- 1) c n (fold (pick_word (- 1) c) [1..<n] t2)" by simp
    then show ?thesis using Suc True by (auto simp: pick_word_def intro!: nth_equalityI simp: nth_list_update)
  next
    case False
    then show ?thesis by (auto intro!: nth_equalityI)
  qed
qed (simp add: map_nth)

lemma pick_none: "fold (pick_word 0 c) vs t2 = t2"
  by (induction vs) (simp_all add: pick_word_def)

text \<open>The lookup gives the entry of the bits, or zero for none.\<close>

lemma pick_value:
  assumes "words31 h < mwlen" "mwlen \<le> length t2" "header_ok h" "n \<le> 32"
    and "unat bits < n" "\<And>u. 1 \<le> u \<Longrightarrow> u < n \<Longrightarrow> residue h m (table ! u) (w u)"
  shows "residue h m (fold (pick_entry table bits mwlen) [1..<n] (br_i31_zero t2 h)) (if bits = 0 then 0 else w (unat bits))"
    and "length (fold (pick_entry table bits mwlen) [1..<n] (br_i31_zero t2 h)) = length t2"
proof -
  let ?z = "br_i31_zero t2 h" and ?b = "unat bits"
  have zl: "length ?z = length t2" using assms(1,2) by simp
  have zok: "i31_ok h ?z" "num ?z = 0" using zero_ok [of h t2] assms(1-3) by simp_all
  let ?g = "fold (pick_word (- 1) (table ! ?b)) [1..<mwlen]"
  have "fold (pick_entry table bits mwlen) [1..<n] ?z = fold (\<lambda>u s. if u = ?b then ?g s else s) [1..<n] ?z"
  proof (rule fold_cong [OF refl refl])
    fix u assume "u \<in> set [1..<n]"
    then have "u < 2 ^ 32" using assms(4) by simp
    then have "(word_of_nat u :: u32) = bits \<longleftrightarrow> u = ?b"
      by (simp add: word_unat_eq_iff unsigned_of_nat take_bit_nat_eq_self)
    then show "pick_entry table bits mwlen u = (\<lambda>s. if u = ?b then ?g s else s)"
      by (auto simp: pick_entry_def Let_def EQ_eq pick_none)
  qed
  also have "\<dots> = (if bits = 0 then ?z else ?g ?z)"
    unfolding fold_pick using assms(5) by (auto simp: Suc_le_eq unat_gt_0)
  finally have r: "fold (pick_entry table bits mwlen) [1..<n] ?z = (if bits = 0 then ?z else ?g ?z)" .
  have g: "?g ?z = map (\<lambda>v. if 1 \<le> v \<and> v < mwlen then ?z ! v OR table ! ?b ! v else ?z ! v) [0..<length ?z]"
    using assms(2) by (intro pick_words_value) (simp add: zl)
  show "length (fold (pick_entry table bits mwlen) [1..<n] ?z) = length t2" unfolding r g by (simp add: zl)
  have "residue h m (?g ?z) (w ?b)" if "bits \<noteq> 0"
  proof -
    have t: "residue h m (table ! ?b) (w ?b)" using that assms(5) by (intro assms(6)) (simp_all add: Suc_le_eq unat_gt_0)
    have n: "?g ?z ! Suc i = table ! ?b ! Suc i" if "i < words31 h" for i
      unfolding g using that assms(1,2) by (simp add: zl zero_nth)
    have "0 < length t2" using assms(1,2) by linarith
    then have "?g ?z ! 0 = h" "words31 h < length (?g ?z)" unfolding g using zok(1) assms(1,2) zl by (simp_all add: i31_ok_def)
    then show ?thesis using same_words [OF t _ _ n] by blast
  qed
  then show "residue h m (fold (pick_entry table bits mwlen) [1..<n] ?z) (if bits = 0 then 0 else w ?b)"
    unfolding r using zok by (simp add: residue_def)
qed

lemma take_bits:
  fixes acc :: u32
  assumes "k \<le> al" "al \<le> 32" "k < 32"
  shows "unat (drop_bit (al - k) acc AND (push_bit k 1 - 1)) < 2 ^ k"
    and "unat acc mod 2 ^ al = unat (drop_bit (al - k) acc AND (push_bit k 1 - 1)) * 2 ^ (al - k) + unat acc mod 2 ^ (al - k)"
proof -
  have "push_bit k 1 - 1 = (mask k :: u32)" by (simp add: mask_eq_exp_minus_1)
  then have b: "unat (drop_bit (al - k) acc AND (push_bit k 1 - 1)) = unat acc div 2 ^ (al - k) mod 2 ^ k"
  proof -
    have "unat (take_bit k w) = unat w mod 2 ^ k" for w :: u32
      by (simp only: unsigned_take_bit_eq) (simp add: take_bit_eq_mod)
    then show ?thesis by (simp only: \<open>push_bit k 1 - 1 = mask k\<close> take_bit_eq_mask [symmetric] unat_drop_bit)
  qed
  show "unat (drop_bit (al - k) acc AND (push_bit k 1 - 1)) < 2 ^ k" unfolding b by simp
  have "(2 :: nat) ^ al = 2 ^ (al - k) * 2 ^ k" using assms(1) by (simp flip: power_add)
  then show "unat acc mod 2 ^ al = unat (drop_bit (al - k) acc AND (push_bit k 1 - 1)) * 2 ^ (al - k) + unat acc mod 2 ^ (al - k)"
    unfolding b by (simp add: mod_mult2_eq)
qed

lemma mod_dvd_add: "N dvd M \<Longrightarrow> (x mod M + y) mod N = (x + y) mod (N :: nat)"
  by (metis mod_add_left_eq mod_mod_cancel)

lemma take_byte:
  fixes acc :: u32
  assumes "al + 8 \<le> 32"
  shows "unat (push_bit 8 acc OR ucast (b :: byte)) mod 2 ^ (al + 8) = unat acc mod 2 ^ al * 256 + unat b"
proof -
  have b: "unat (ucast b :: u32) = unat b" using unat_byte [of b] by (simp add: unsigned_ucast_eq take_bit_nat_eq_self)
  have "2 ^ 8 dvd unat acc * 2 ^ 8 mod (2 :: nat) ^ 32"
    by (intro dvd_mod dvd_triv_right) (rule le_imp_power_dvd, simp)
  then have "unat (push_bit 8 acc OR ucast b) = unat acc * 2 ^ 8 mod 2 ^ 32 + unat b"
    using unat_byte [of b] by (subst or_disjoint [where j = 8]) (simp_all add: unat_push_bit b)
  moreover have d: "2 ^ (al + 8) dvd (2 :: nat) ^ 32" using assms by (rule le_imp_power_dvd)
  ultimately have "unat (push_bit 8 acc OR ucast b) mod 2 ^ (al + 8) = (unat acc * 2 ^ 8 + unat b) mod 2 ^ (al + 8)"
    by (simp only: mod_dvd_add)
  also have "\<dots> = (unat b + 256 * unat acc) mod (256 * 2 ^ al)" by (simp add: power_add algebra_simps)
  also have "\<dots> = 256 * (unat acc mod 2 ^ al) + unat b" by (rule low_high [OF unat_byte])
  finally show ?thesis by simp
qed

lemma next_bits_value:
  assumes "0 < win_len" "win_len \<le> 5" "acc_len \<le> 12" "0 < acc_len \<or> 0 < length e"
    and "next_bits win_len e acc acc_len = (k, bits, e', acc', acc_len')"
  shows "0 < k" "k \<le> win_len" "unat bits < 2 ^ k" "acc_len' \<le> 12" "8 * length e + acc_len = k + (8 * length e' + acc_len')"
    and "unat acc mod 2 ^ acc_len * 256 ^ length e + be_num e =
      (unat bits * 2 ^ acc_len' + unat acc' mod 2 ^ acc_len') * 256 ^ length e' + be_num e'"
proof -
  have "\<exists>acc1 al1. k \<le> al1 \<and> al1 \<le> 12 \<and> 0 < k \<and> k \<le> win_len \<and> acc_len' = al1 - k \<and> acc' = acc1 \<and>
    bits = (drop_bit (al1 - k) acc1 AND (push_bit k 1 - 1)) \<and> 8 * length e + acc_len = 8 * length e' + al1 \<and>
    unat acc mod 2 ^ acc_len * 256 ^ length e + be_num e = unat acc1 mod 2 ^ al1 * 256 ^ length e' + be_num e'"
  proof (cases "acc_len < win_len \<and> 0 < length e")
    case True
    then obtain b bs where e: "e = b # bs" by (cases e) auto
    let ?a = "push_bit 8 acc OR ucast b"
    have r: "k = win_len" "e' = bs" "acc' = ?a" "acc_len' = acc_len + 8 - win_len"
      "bits = (drop_bit (acc_len + 8 - win_len) ?a AND (push_bit win_len 1 - 1))"
      using assms(5) True by (auto simp: next_bits_def e Let_def)
    have "unat ?a mod 2 ^ (acc_len + 8) = unat acc mod 2 ^ acc_len * 256 + unat b" using assms(3) by (intro take_byte) simp
    then have "unat acc mod 2 ^ acc_len * 256 ^ length e + be_num e = unat ?a mod 2 ^ (acc_len + 8) * 256 ^ length bs + be_num bs"
      by (simp add: e algebra_simps)
    then show ?thesis
      unfolding r using True assms(1-3) by (intro exI [of _ ?a] exI [of _ "acc_len + 8"] conjI) (simp_all add: e)
  next
    case False
    then have "k = (if acc_len < win_len then acc_len else win_len)" "e' = e" "acc' = acc" "acc_len' = acc_len - k"
      "bits = (drop_bit (acc_len - k) acc AND (push_bit k 1 - 1))"
      using assms(5) by (auto simp: next_bits_def Let_def split: if_splits)
    then show ?thesis using False assms(1-4) by (intro exI [of _ acc] exI [of _ acc_len]) auto
  qed
  then obtain acc1 al1 where r: "k \<le> al1" "al1 \<le> 12" "0 < k" "k \<le> win_len" "acc_len' = al1 - k" "acc' = acc1"
    "bits = (drop_bit (al1 - k) acc1 AND (push_bit k 1 - 1))" "8 * length e + acc_len = 8 * length e' + al1"
    "unat acc mod 2 ^ acc_len * 256 ^ length e + be_num e = unat acc1 mod 2 ^ al1 * 256 ^ length e' + be_num e'" by blast
  have kl: "al1 \<le> 32" "k < 32" using r(1,2) by simp_all
  note t = take_bits [OF r(1) kl, of acc1, folded r(7)]
  show "0 < k" "k \<le> win_len" "unat bits < 2 ^ k" "acc_len' \<le> 12" "8 * length e + acc_len = k + (8 * length e' + acc_len')"
    using r t(1) by simp_all
  show "unat acc mod 2 ^ acc_len * 256 ^ length e + be_num e =
      (unat bits * 2 ^ acc_len' + unat acc' mod 2 ^ acc_len') * 256 ^ length e' + be_num e'"
    unfolding r(9) t(2) r(5,6) ..
qed

lemma squares_value:
  assumes "modulus_ok h m m0i" "words31 h < mlen" "mlen \<le> length x" "mlen \<le> length t1" "residue h m x (W31 ^ words31 h * b ^ v)"
  shows "\<exists>x' t1'. (square_step m m0i mlen ^^ k) (x, t1) = (x', t1') \<and> length x' = length x \<and> length t1' = length t1 \<and>
    residue h m x' (W31 ^ words31 h * b ^ (2 ^ k * v))"
proof (induction k)
  case (Suc k)
  then obtain x' t1' where IH: "(square_step m m0i mlen ^^ k) (x, t1) = (x', t1')" "length x' = length x" "length t1' = length t1"
    "residue h m x' (W31 ^ words31 h * b ^ (2 ^ k * v))" by blast
  let ?s = "br_i31_montymul t1' x' x' m m0i"
  have l: "words31 h < length t1'" using assms(2,4) IH(3) by simp
  have s: "residue h m ?s (W31 ^ words31 h * (b ^ (2 ^ k * v) * b ^ (2 ^ k * v)))" "length ?s = length t1"
    using montymul_both [OF assms(1) IH(4,4) l] montymul_residue(2) [OF assms(1) IH(4,4) l] IH(3) by simp_all
  have "b ^ (2 ^ k * v) * b ^ (2 ^ k * v) = b ^ (2 ^ Suc k * v)" by (simp add: mult_2 algebra_simps flip: power_add)
  then have "residue h m (copy_words x' ?s mlen) (W31 ^ words31 h * b ^ (2 ^ Suc k * v))"
    using copy_residue [OF s(1) assms(2), of x'] assms(3,4) IH(2) s(2) by simp
  moreover have "(square_step m m0i mlen ^^ Suc k) (x, t1) = square_step m m0i mlen (x', t1')" by (simp add: IH(1))
  then have "(square_step m m0i mlen ^^ Suc k) (x, t1) = (copy_words x' ?s mlen, ?s)" by (simp add: square_step_def Let_def)
  ultimately show ?case using IH(2) s(2) assms(3,4) by (simp add: length_copy_words del: funpow.simps)
qed (use assms in simp)

text \<open>The loop comes back, with the power.\<close>

lemma opt_loop_value:
  assumes "modulus_ok h m m0i" "words31 h < mlen" "mlen \<le> mwlen" "0 < win_len" "win_len \<le> 5"
    and "win_len \<noteq> 1 \<longrightarrow> (\<forall>u. 1 \<le> u \<longrightarrow> u < 2 ^ win_len \<longrightarrow> residue h m (table ! u) (W31 ^ words31 h * b ^ u))"
    and "acc_len \<le> 12" "residue h m x (W31 ^ words31 h * b ^ v)" "mlen \<le> length x" "mlen \<le> length t1" "mwlen \<le> length t2"
    and "win_len = 1 \<longrightarrow> residue h m t2 (W31 ^ words31 h * b)"
  shows "\<exists>x'. opt_loop table m m0i mlen mwlen win_len e acc acc_len x t1 t2 = Some x' \<and> length x' = length x \<and>
    residue h m x' (W31 ^ words31 h * b ^ (v * 2 ^ (acc_len + 8 * length e) + (unat acc mod 2 ^ acc_len * 256 ^ length e + be_num e)))"
  using assms(7-12)
proof (induction "8 * length e + acc_len" arbitrary: e acc acc_len x v t1 t2 rule: less_induct)
  case less
  show ?case
  proof (cases "0 < acc_len \<or> 0 < length e")
    case False
    then show ?thesis using less.prems(2) by (subst opt_loop.simps) simp
  next
    case True
    obtain k bits e' acc' al' where n: "next_bits win_len e acc acc_len = (k, bits, e', acc', al')" by (metis prod_cases5)
    note nb = next_bits_value [OF assms(4,5) less.prems(1) True n]
    let ?R = "W31 ^ words31 h"
    obtain x1 t11 where q: "(square_step m m0i mlen ^^ k) (x, t1) = (x1, t11)" "length x1 = length x" "length t11 = length t1"
      "residue h m x1 (?R * b ^ (2 ^ k * v))"
      using squares_value [OF assms(1,2) less.prems(3,4,2), of k] by blast
    define t21 where "t21 = (if 1 < win_len then fold (pick_entry table bits mwlen) [1..<2 ^ k] (br_i31_zero t2 (m ! 0)) else t2)"
    define d where "d = br_i31_montymul t11 x1 t21 m m0i"
    have h: "m ! 0 = h" "header_ok h" using modulus_words [OF assms(1)] by blast+
    have t21: "length t21 = length t2" "\<exists>c. residue h m t21 (?R * c) \<and> (bits \<noteq> 0 \<longrightarrow> c = b ^ unat bits)"
    proof -
      have "length t21 = length t2 \<and> (\<exists>c. residue h m t21 (?R * c) \<and> (bits \<noteq> 0 \<longrightarrow> c = b ^ unat bits))"
      proof (cases "1 < win_len")
        case True
        have "(2 :: nat) ^ k \<le> 2 ^ 5" using nb(2) assms(5) by (intro power_increasing) simp_all
        then have k: "(2 :: nat) ^ k \<le> 32" by simp
        have w: "words31 h < mwlen" using assms(2,3) by simp
        have tb: "residue h m (table ! u) (?R * b ^ u)" if "1 \<le> u" "u < 2 ^ k" for u
        proof -
          have "(2 :: nat) ^ k \<le> 2 ^ win_len" using nb(2) by (intro power_increasing) simp_all
          then have "u < 2 ^ win_len" using that by linarith
          then show ?thesis using assms(6) that True by simp
        qed
        note p = pick_value [where w = "\<lambda>u. ?R * b ^ u", OF w less.prems(5) h(2) k nb(3) tb]
        have t: "t21 = fold (pick_entry table bits mwlen) [1..<2 ^ k] (br_i31_zero t2 h)" using True by (simp add: t21_def h(1))
        have "residue h m t21 (?R * (if bits = 0 then 0 else b ^ unat bits))"
          using p(1) unfolding t by (cases "bits = 0") simp_all
        then show ?thesis using p(2) unfolding t by auto
      next
        case False
        then have w: "win_len = 1" using assms(4) by simp
        then have k: "k = 1" using nb(1,2) by simp
        have "t21 = t2" using False by (simp add: t21_def)
        moreover have "b = b ^ unat bits" if "bits \<noteq> 0"
        proof -
          have "unat bits \<noteq> 0" using that by (simp add: unsigned_eq_0_iff)
          then have "unat bits = 1" using nb(3) k by simp
          then show ?thesis by simp
        qed
        ultimately show ?thesis using less.prems(6) w by blast
      qed
      then show "length t21 = length t2" "\<exists>c. residue h m t21 (?R * c) \<and> (bits \<noteq> 0 \<longrightarrow> c = b ^ unat bits)" by blast+
    qed
    obtain c where c: "residue h m t21 (?R * c)" "bits \<noteq> 0 \<Longrightarrow> c = b ^ unat bits" using t21(2) by blast
    have l: "words31 h < length t11" using assms(2) less.prems(4) q(3) by simp
    have dl: "residue h m d (?R * (b ^ (2 ^ k * v) * c))" "length d = length t1"
      unfolding d_def using montymul_both [OF assms(1) q(4) c(1) l] montymul_residue(2) [OF assms(1) q(4) c(1) l] q(3) by simp_all
    define x2 where "x2 = CCOPY (NEQ bits 0) x1 d mlen"
    have x2e: "x2 = (if bits \<noteq> 0 then copy_words x1 d mlen else x1)"
      unfolding x2_def NEQ_eq by (rule CCOPY_value) (use less.prems(3,4) q(2) dl(2) in simp_all)
    have x2l: "length x2 = length x" unfolding x2e using less.prems(3,4) q(2) dl(2) by (simp add: length_copy_words)
    have x2: "residue h m x2 (?R * b ^ (2 ^ k * v + unat bits))"
    proof (cases "bits = 0")
      case False
      then have "residue h m d (?R * b ^ (2 ^ k * v + unat bits))" using dl(1) c(2) by (simp add: power_add)
      then show ?thesis unfolding x2e using False copy_residue [OF _ assms(2), of m d _ x1] less.prems(3,4) q(2) dl(2) by simp
    qed (use q(4) x2e in simp)
    have s: "opt_loop table m m0i mlen mwlen win_len e acc acc_len x t1 t2 =
        opt_loop table m m0i mlen mwlen win_len e' acc' al' x2 d t21"
      using True by (subst opt_loop.simps) 
        (simp only: n Let_def prod.case q(1) t21_def [symmetric] d_def [symmetric] x2_def [symmetric] if_True)
    have lt: "8 * length e' + al' < 8 * length e + acc_len" using nb(1,5) by simp
    have w1: "win_len = 1 \<longrightarrow> residue h m t21 (?R * b)" using less.prems(6) by (simp add: t21_def)
    have L: "mlen \<le> length x2" "mlen \<le> length d" "mwlen \<le> length t21" using less.prems(3-5) x2l dl(2) t21(1) by simp_all
    obtain x' where x': "opt_loop table m m0i mlen mwlen win_len e' acc' al' x2 d t21 = Some x'" "length x' = length x2"
      "residue h m x' (?R * b ^ ((2 ^ k * v + unat bits) * 2 ^ (al' + 8 * length e') + (unat acc' mod 2 ^ al' * 256 ^ length e' + be_num e')))"
      using less.hyps [OF lt nb(4) x2 L w1] by blast
    have "(2 ^ k * v + unat bits) * 2 ^ (al' + 8 * length e') + (unat acc' mod 2 ^ al' * 256 ^ length e' + be_num e') =
        v * 2 ^ (acc_len + 8 * length e) + (unat acc mod 2 ^ acc_len * 256 ^ length e + be_num e)"
    proof -
      have "acc_len + 8 * length e = k + (al' + 8 * length e')" using nb(5) by simp
      then have p: "(2 :: nat) ^ (acc_len + 8 * length e) = 2 ^ k * 2 ^ (al' + 8 * length e')" by (simp only: power_add)
      show ?thesis unfolding nb(6) p by (simp add: power_add power_256 algebra_simps)
    qed
    then show ?thesis unfolding s using x' x2l by simp
  qed
qed

lemma top_power:
  assumes "modulus_ok h m m0i" "bits_ok h m"
  shows "W31 ^ (words31 h - 1) < num m"
proof -
  obtain k where k: "words31 h = Suc k" "ok31 (Suc k) m" "ival (Suc k) m = num m" "header_ok h"
    using modulus_words [OF assms(1)] by blast
  have o: "coprime W31 (num m)" using modulus_coprime [OF assms(1), of 1] by simp
  have m: "1 < num m" using assms(1) by (simp add: modulus_ok_def)
  show ?thesis
  proof (cases k)
    case 0
    then show ?thesis using m by (simp add: k(1))
  next
    case (Suc i)
    have "31 < unat h"
    proof (rule ccontr)
      assume "\<not> 31 < unat h"
      then have "words31 h \<le> 1" unfolding words31_of [OF k(4)] by simp
      then show False using k(1) Suc by simp
    qed
    then have "0 < unat (m ! Suc k)"
      using assms(2) by (auto simp: bits_ok_def k(1) Let_def split: if_splits intro: less_le_trans [OF zero_less_power [OF zero_less_numeral]])
    then have "W31 ^ k * 1 \<le> W31 ^ k * unat (m ! Suc k)" by (intro mult_le_mono2) simp
    also have "\<dots> \<le> ival (Suc k) m" by simp
    finally have "W31 ^ k \<le> num m" unfolding k(3) by simp
    moreover have "W31 ^ k \<noteq> num m"
    proof
      assume e: "W31 ^ k = num m"
      have "W31 dvd num m" unfolding e [symmetric] Suc by simp
      then have "is_unit W31" using o by (meson coprime_common_divisor dvd_refl)
      then show False by (simp add: W31_def)
    qed
    ultimately show ?thesis by (simp add: k(1))
  qed
qed

lemma table_value:
  assumes "modulus_ok h m m0i" "words31 h < mwlen" "residue h m x (W31 ^ words31 h * b)"
    and "\<And>u. 1 \<le> u \<Longrightarrow> u < n \<Longrightarrow> length (table ! u) = mwlen" "n \<le> length table" "residue h m (table ! 1) (W31 ^ words31 h * b)" "2 \<le> k" "k \<le> n"
  shows "length (fold (table_entry x m m0i) [2..<k] table) = length table \<and>
    (\<forall>u. 1 \<le> u \<longrightarrow> u < n \<longrightarrow> length (fold (table_entry x m m0i) [2..<k] table ! u) = mwlen) \<and>
    (\<forall>u. 1 \<le> u \<longrightarrow> u < k \<longrightarrow> residue h m (fold (table_entry x m m0i) [2..<k] table ! u) (W31 ^ words31 h * b ^ u))"
  using assms(7,8)
proof (induction k)
  case (Suc k)
  show ?case
  proof (cases "2 \<le> k")
    case False
    then have "k = 1" using Suc.prems by simp
    moreover have "[2..<Suc 1] = ([] :: nat list)" by simp
    moreover have "u = 1" if "1 \<le> u" "u < Suc 1" for u using that by simp
    ultimately show ?thesis using assms(4,6) by (simp add: less_Suc_eq)
  next
    case True
    define t where "t = fold (table_entry x m m0i) [2..<k] table"
    have IH: "length t = length table" "\<And>u. 1 \<le> u \<Longrightarrow> u < n \<Longrightarrow> length (t ! u) = mwlen"
      "\<And>u. 1 \<le> u \<Longrightarrow> u < k \<Longrightarrow> residue h m (t ! u) (W31 ^ words31 h * b ^ u)"
      using Suc True by (simp_all add: t_def)
    have k: "k < n" "1 \<le> k - 1" "k - 1 < k" "1 \<le> k" using True Suc.prems by simp_all
    have l: "words31 h < length (t ! k)" using IH(2) [OF k(4,1)] assms(2) by simp
    let ?e = "br_i31_montymul (t ! k) (t ! (k - 1)) x m m0i"
    have e: "residue h m ?e (W31 ^ words31 h * (b ^ (k - 1) * b))" "length ?e = mwlen"
      using montymul_both [OF assms(1) IH(3) [OF k(2,3)] assms(3) l] montymul_residue(2) [OF assms(1) IH(3) [OF k(2,3)] assms(3) l] IH(2) [OF k(4,1)]
      by simp_all
    have p: "b ^ (k - 1) * b = b ^ k" using k(4) by (cases k) simp_all
    have "fold (table_entry x m m0i) [2..<Suc k] table = t[k := ?e]" using True by (simp add: t_def table_entry_def)
    moreover have "residue h m ?e (W31 ^ words31 h * b ^ k)" using e(1) unfolding p .
    ultimately show ?thesis using IH e(2) k(1) assms(5) by (auto simp: nth_list_update less_Suc_eq)
  qed
qed simp

theorem modpow_opt_value:
  assumes "modulus_ok h m m0i" "bits_ok h m" "i31_ok h x" "num x < num m" "2 * (words31 h + 2) \<le> length tmp"
  shows "\<exists>x'. br_i31_modpow_opt x e m m0i tmp = Some (1, x') \<and> i31_ok h x' \<and> length x' = length x \<and>
    num x' = num x ^ be_num e mod num m"
proof -
  obtain i where i: "words31 h = Suc i" "m ! 0 = h" "header_ok h" "0 < num m" using modulus_words [OF assms(1)] by blast
  have m: "i31_ok h m" "1 < num m" using assms(1) by (simp_all add: modulus_ok_def)
  let ?mlen = "Suc (words31 h)" and ?R = "W31 ^ words31 h" and ?b = "num x"
  define mwlen where "mwlen = ?mlen + ?mlen mod 2"
  have mw: "?mlen \<le> mwlen" "2 * mwlen \<le> length tmp" "words31 h < mwlen"
    using assms(5) mod_less_divisor [of 2 ?mlen] by (auto simp: mwlen_def)
  define w where "w = window_len mwlen (length tmp)"
  have w: "1 \<le> w" "w \<le> 5" "w \<noteq> 1 \<Longrightarrow> (2 ^ w + 1) * mwlen \<le> length tmp" unfolding w_def by (fact window_len_fits)+
  have x: "words31 h < length x" using assms(3) by (simp add: i31_ok_def ok31_def)
  define y where "y = br_i31_to_monty x m"
  note t = to_monty_value [OF m(1) assms(2) i(4) assms(3,4), folded y_def]
  have y: "residue h m y (?R * ?b)" "length y = length x" using t by (simp_all add: residue_def)
  define t1 where "t1 = take mwlen tmp"
  define t2 where "t2 = take mwlen (drop mwlen tmp)"
  have l: "length t1 = mwlen" "length t2 = mwlen" using mw(2) by (simp_all add: t1_def t2_def)
  define table where "table = map (\<lambda>u. take mwlen (drop ((u + 1) * mwlen) tmp)) [0..<2 ^ w]"
  define tb where "tb = (if w = 1 then (copy_words t2 y ?mlen, table)
    else (t2, fold (table_entry y m m0i) [2..<2 ^ w] (table[1 := copy_words (table ! 1) y ?mlen])))"
  have cy: "residue h m (copy_words d y ?mlen) (?R * ?b)" if "mwlen \<le> length d" for d
    using copy_residue [OF y(1), of ?mlen d] mw(1) that x y(2) by simp
  have entries: "\<forall>u. 1 \<le> u \<longrightarrow> u < 2 ^ w \<longrightarrow> residue h m (snd tb ! u) (?R * ?b ^ u)" if "w \<noteq> 1"
  proof -
    have w2: "2 \<le> w" using that w(1) by simp
    have "2 ^ 2 \<le> (2 :: nat) ^ w" using w2 by (intro power_increasing) simp_all
    then have k: "4 \<le> (2 :: nat) ^ w" by simp
    have tl: "length (table ! u) = mwlen" if "u < 2 ^ w" for u
    proof -
      have "(u + 2) * mwlen \<le> (2 ^ w + 1) * mwlen" using that by (intro mult_le_mono1) simp
      then have "(u + 1) * mwlen + mwlen \<le> length tmp" using w(3) \<open>w \<noteq> 1\<close> by (simp add: algebra_simps)
      then show ?thesis using that by (simp add: table_def)
    qed
    let ?t = "table[1 := copy_words (table ! 1) y ?mlen]"
    have lt: "length ?t = 2 ^ w" by (simp add: table_def)
    have one: "1 < (2 :: nat) ^ w" using k by simp
    have t1: "?t ! 1 = copy_words (table ! 1) y ?mlen" using one by (simp add: table_def)
    have c1: "length (copy_words (table ! 1) y ?mlen) = mwlen" "residue h m (?t ! 1) (?R * ?b)"
      using tl [OF one] mw(1) x y(2) cy [of "table ! 1"] unfolding t1 by (simp_all add: length_copy_words)
    have tl2: "length (?t ! u) = mwlen" if "1 \<le> u" "u < 2 ^ w" for u
      using tl [OF that(2)] c1(1) t1 that by (cases "u = 1") (simp_all add: table_def)
    have k2: "2 \<le> (2 :: nat) ^ w" using k by simp
    have ln: "2 ^ w \<le> length ?t" using lt by simp
    note tv = table_value [where n = "2 ^ w" and k = "2 ^ w" and table = ?t, OF assms(1) mw(3) y(1) tl2 ln c1(2) k2 order_refl]
    show ?thesis using tv that by (simp add: tb_def)
  qed
  have tb2: "mwlen \<le> length (fst tb)" "w = 1 \<longrightarrow> residue h m (fst tb) (?R * ?b)"
    using l(2) cy [of t2] mw(1) x y(2) by (simp_all add: tb_def length_copy_words)
  define z where "z = br_i31_muladd_small ((br_i31_zero y h)[words31 h := 1]) 0 m"
  have z: "residue h m z (?R * ?b ^ 0)" "length z = length x"
  proof -
    let ?z = "br_i31_zero y h"
    have yl: "words31 h < length y" using x y(2) by simp
    have z0: "i31_ok h ?z" using zero_ok [OF yl i(3)] by simp
    have zok: "i31_ok h (?z[words31 h := 1])" using z0 yl by (auto simp: i31_ok_def ok31_def i(1) nth_list_update)
    have zn: "num (?z[words31 h := 1]) = W31 ^ i"
      unfolding num_eq [OF zok] using ival_zero [of i h y] yl by (simp add: i(1))
    have lt: "num (?z[words31 h := 1]) < num m" using top_power [OF assms(1,2)] unfolding zn by (simp add: i(1))
    have u0: "unat (0 :: u32) < W31" by simp
    note v = muladd_small_value [OF m(1) assms(2) i(4) zok lt u0, folded z_def]
    have "num z = ?R mod num m" using v(3) [unfolded zn] by (simp add: i(1))
    then show "residue h m z (?R * ?b ^ 0)" using v(1) i(4) by (simp add: residue_def)
    show "length z = length x" using v(2) yl y(2) by simp
  qed
  have ml: "unat (drop_bit 5 (h + 63)) = ?mlen" by (rule loop_words [OF i(3)])
  have w1: "w \<noteq> 1 \<longrightarrow> (\<forall>u. 1 \<le> u \<longrightarrow> u < 2 ^ w \<longrightarrow> residue h m (snd tb ! u) (?R * ?b ^ u))" using entries by blast
  have lx: "?mlen \<le> length z" "?mlen \<le> length t1" using x z(2) l(1) mw(1) by simp_all
  have lw: "words31 h < ?mlen" by simp
  have w0: "0 < w" using w(1) by simp
  have al: "(0 :: nat) \<le> 12" by simp
  obtain x' where x': "opt_loop (snd tb) m m0i ?mlen mwlen w e 0 0 z t1 (fst tb) = Some x'" "length x' = length z"
    "residue h m x' (?R * ?b ^ be_num e)"
    using opt_loop_value [OF assms(1) lw mw(1) w0 w(2) w1 al z(1) lx tb2, of e 0] by auto
  have e: "br_i31_modpow_opt x e m m0i tmp = Some (1, br_i31_from_monty x' m m0i)"
  proof -
    have n: "\<not> length tmp < 2 * mwlen" using mw(2) by simp
    show ?thesis
      unfolding br_i31_modpow_opt_def Let_def i(2) ml mwlen_def [symmetric]
      by (simp only: n if_False w_def [symmetric] y_def [symmetric] t1_def [symmetric] t2_def [symmetric] table_def [symmetric]
          tb_def [symmetric] split_beta z_def [symmetric] x'(1) option.map)
  qed
  have xl: "i31_ok h x'" "num x' < num m" using x'(3) i(4) by (simp_all add: residue_def)
  note f = from_monty_value [OF assms(1) xl]
  have "(?R * num (br_i31_from_monty x' m m0i)) mod num m = (?R * ?b ^ be_num e) mod num m"
    using f(4) x'(3) by (simp add: residue_def)
  then have "num (br_i31_from_monty x' m m0i) mod num m = ?b ^ be_num e mod num m"
    by (rule cancel_mod [OF modulus_coprime [OF assms(1)]])
  then show ?thesis unfolding e using f(1-3) x'(2) z(2) by simp
qed




end
