(* ===== verification/Rsa_Pub.thy ===== *)
theory Rsa_Pub
  imports I31_Pow
begin

text \<open>
  The RSA public-key operation of BearSSL (\<^verbatim>\<open>rsa_i31_pub.c\<close>) on its big integers. Shown: the call returns for every key and operand, its
  flag says exactly whether the modulus is odd and the operand below it, and then the operand is replaced by its
  power modulo the modulus: RSAEP and RSAVP1 of RFC 8017.
\<close>

section \<open>The code\<close>

text \<open>The scratch space of the call, in words, without its header word; \<open>BR_MAX_RSA_SIZE\<close> is 4096.\<close>

definition TLEN :: nat where
  "TLEN = 4 * (2 + (4096 + 30) div 31)"

record br_rsa_public_key =
  rsa_n :: "byte list"
  rsa_e :: "byte list"

text \<open>The words for \<open>z\<close> bits, counted on from \<open>fwlen\<close>.\<close>

function count_words :: "int \<Rightarrow> nat \<Rightarrow> nat" where
  "count_words z fwlen = (if 0 < z then count_words (z - 31) (fwlen + 1) else fwlen)"
  by pat_completeness auto
termination by (relation "measure (\<lambda>(z, _). nat z)") auto

declare count_words.simps [simp del]

definition rsa_fwlen :: "nat \<Rightarrow> nat" where
  "rsa_fwlen nlen = (let fwlen = count_words (8 * int nlen) 1 in fwlen + fwlen mod 2)"

text \<open>The flag and the operand's bytes; \<open>tmp\<close> is the uninitialised scratch space, and \<open>None\<close> stands for a call that does not return.\<close>

definition br_rsa_i31_public :: "byte list \<Rightarrow> br_rsa_public_key \<Rightarrow> u32 list \<Rightarrow> (u32 \<times> byte list) option" where
  "br_rsa_i31_public x pk tmp =
     (let n = dropWhile (\<lambda>b. b = 0) (rsa_n pk);
          nlen = length n
      in if nlen = 0 \<or> 4096 div 8 < nlen \<or> length x \<noteq> nlen then Some (0, x)
         else
           let fwlen = rsa_fwlen nlen;
               m = take fwlen tmp;
               a = take fwlen (drop fwlen tmp);
               t = take (TLEN - 2 * fwlen) (drop (2 * fwlen) tmp);
               m = br_i31_decode m n;
               m0i = br_i31_ninv31 (m ! 1);
               r = m0i AND 1;
               (a, ok) = br_i31_decode_mod a x m;
               r = r AND ok
           in map_option (\<lambda>(_, a). (r, br_i31_encode (length x) a)) (br_i31_modpow_opt a (rsa_e pk) m m0i t))"

section \<open>The arrays fit\<close>

lemma count_words_value: "0 \<le> z \<Longrightarrow> count_words z k = k + nat ((z + 30) div 31)"
proof (induction z k rule: count_words.induct)
  case (1 z k)
  show ?case
  proof (cases "0 < z")
    case True
    show ?thesis
    proof (cases "31 \<le> z")
      case True
      have "(z + 30) div 31 = (z - 31 + 30) div 31 + 1" by simp
      then show ?thesis using 1 True by (subst count_words.simps) (simp add: nat_add_distrib)
    next
      case False
      then have "(z + 30) div 31 = 1" using \<open>0 < z\<close> by simp
      then show ?thesis using False \<open>0 < z\<close> by (simp add: count_words.simps)
    qed
  next
    case False
    then show ?thesis using 1 by (simp add: count_words.simps)
  qed
qed

lemma rsa_fwlen_value: "rsa_fwlen n = (let k = 1 + (8 * n + 30) div 31 in k + k mod 2)"
proof -
  have "nat ((8 * int n + 30) div 31) = (8 * n + 30) div 31" by linarith
  then show ?thesis by (simp add: rsa_fwlen_def count_words_value)
qed

lemma rsa_fwlen_bound: "n \<le> 512 \<Longrightarrow> rsa_fwlen n \<le> 134"
proof -
  assume "n \<le> 512"
  then have b: "1 + (8 * n + 30) div 31 \<le> 134" by simp
  have k: "k + k mod 2 \<le> 134" if "k \<le> 134" for k :: nat
    using that by (cases "k = 134") auto
  show ?thesis unfolding rsa_fwlen_value Let_def by (rule k [OF b])
qed

text \<open>A modulus that fills its words takes a number of words divisible by eight, so that the rounding adds a word.\<close>

lemma rsa_fwlen_room: "8 * n < 31 * (rsa_fwlen n - 1)"
proof -
  define q where "q = (8 * n + 30) div 31"
  have q: "8 * n \<le> 31 * q" unfolding q_def by linarith
  show ?thesis
  proof (cases "even q")
    case True
    then show ?thesis using q by (simp add: rsa_fwlen_value q_def [symmetric] mod_2_eq_odd)
  next
    case False
    then have "8 * n \<noteq> 31 * q" using dvd_triv_left [of 2 "4 * n"] by fastforce
    then show ?thesis using q False by (simp add: rsa_fwlen_value q_def [symmetric] mod_2_eq_odd)
  qed
qed

section \<open>The exponentiation ends\<close>

lemma opt_loop_ends:
  assumes "0 < win_len" "win_len \<le> 5" "acc_len \<le> 12"
  shows "\<exists>x'. opt_loop table m m0i mlen mwlen win_len e acc acc_len x t1 t2 = Some x'"
  using assms(3)
proof (induction "8 * length e + acc_len" arbitrary: e acc acc_len x t1 t2 rule: less_induct)
  case less
  show ?case
  proof (cases "0 < acc_len \<or> 0 < length e")
    case True
    obtain k bits e' acc' al' where n: "next_bits win_len e acc acc_len = (k, bits, e', acc', al')" by (metis prod_cases5)
    note nb = next_bits_value [OF assms(1,2) less.prems True n]
    have "8 * length e' + al' < 8 * length e + acc_len" using nb(1,5) by simp
    then show ?thesis using True less.hyps [of e' al', OF _ nb(4)]
      by (subst opt_loop.simps) (simp only: n Let_def split_beta fst_conv snd_conv if_True)
  qed (simp add: opt_loop.simps)
qed

lemma modpow_opt_ends: "\<exists>r. br_i31_modpow_opt x e m m0i tmp = Some r"
proof -
  have "0 < window_len a b" for a b using window_len_fits(1) [of a b] by simp
  then show ?thesis
    using opt_loop_ends [OF _ window_len_fits(2), of _ _ 0] by (fastforce simp: br_i31_modpow_opt_def Let_def split_beta)
qed

section \<open>The power\<close>

lemma low_word_odd:
  assumes "i31_ok h m" "0 < words31 h"
  shows "odd (unat (m ! 1)) \<longleftrightarrow> odd (num m)"
proof -
  obtain k where k: "words31 h = Suc k" using assms(2) by (cases "words31 h") simp_all
  obtain q where "num m = unat (m ! 1) + W31 * q" using ival_mod [of k m] num_eq [OF assms(1)] k by auto
  moreover have "even W31" by (simp add: W31_def)
  ultimately show ?thesis by simp
qed

lemma ninv31_flag: "br_i31_ninv31 x AND 1 = of_bool (odd (unat x))"
proof (cases "odd (unat x)")
  case False
  then have "even x" using odd_unat by blast
  then have "x AND 1 = 0" by (simp add: and_one_eq even_iff_mod_2_eq_zero)
  then show ?thesis using False by (simp add: br_i31_ninv31_def MUX_def)
qed (simp add: ninv31_value)

lemma be_num_dropWhile: "be_num (dropWhile (\<lambda>b. b = 0) bs) = be_num bs"
  by (induction bs) simp_all

lemma be_num_pos: "dropWhile (\<lambda>b. b = 0) bs \<noteq> [] \<Longrightarrow> be_num bs \<noteq> 0"
  by (induction bs) (auto simp: unsigned_eq_0_iff split: if_splits)

theorem rsa_public_value:
  assumes "dropWhile (\<lambda>b. b = 0) (rsa_n pk) = n" "n \<noteq> []" "length n \<le> 512" "length x = length n" "length tmp = 1 + TLEN"
  shows "\<exists>y. br_rsa_i31_public x pk tmp = Some (of_bool (odd (be_num n) \<and> be_num x < be_num n), y) \<and>
    (odd (be_num n) \<longrightarrow> 1 < be_num n \<longrightarrow> be_num x < be_num n \<longrightarrow>
      length y = length x \<and> be_num y = be_num x ^ be_num (rsa_e pk) mod be_num n)"
proof -
  let ?N = "be_num n" and ?X = "be_num x" and ?E = "be_num (rsa_e pk)"
  define f where "f = rsa_fwlen (length n)"
  have TL: "TLEN = 540" by (simp add: TLEN_def)
  have f: "f \<le> 134" "8 * length n < 31 * (f - 1)" unfolding f_def using rsa_fwlen_bound [OF assms(3)] rsa_fwlen_room by simp_all
  define m0 where "m0 = take f tmp"
  define a0 where "a0 = take f (drop f tmp)"
  define t where "t = take (TLEN - 2 * f) (drop (2 * f) tmp)"
  have l: "length m0 = f" "length a0 = f" "length t = TLEN - 2 * f" using f(1) assms(5) by (simp_all add: m0_def a0_def t_def TL)
  define m where "m = br_i31_decode m0 n"
  define m0i where "m0i = br_i31_ninv31 (m ! 1)"
  have N: "?N \<noteq> 0" using be_num_pos [of "rsa_n pk"] assms(1,2) be_num_dropWhile [of "rsa_n pk"] by simp
  have lm: "8 * length n < 31 * (length m0 - 1)" using f(2) l(1) by simp
  have ln: "length n < 2 ^ 20" using assms(3) by simp
  obtain h where h: "i31_ok h m" "bits_ok h m" "num m = ?N" "length m = f" "0 < words31 h" "31 * (words31 h - 1) < 8 * length n"
    using decode_value [OF lm ln N] l(1) unfolding m_def by auto
  have wf: "words31 h < length a0"
    using h(6) f(2) l(2) by linarith
  obtain a ok where a: "br_i31_decode_mod a0 x m = (a, ok)" by fastforce
  note d = decode_mod_value [OF h(1) wf, of x, unfolded a fst_conv snd_conv h(3)]
  have r: "(m0i AND 1) AND ok = of_bool (odd ?N \<and> ?X < ?N)"
    unfolding m0i_def ninv31_flag low_word_odd [OF h(1,5)] h(3) d(1) by simp
  obtain q where q: "br_i31_modpow_opt a (rsa_e pk) m m0i t = Some q" using modpow_opt_ends by blast
  have c: "\<not> (length n = 0 \<or> 4096 div 8 < length n \<or> length x \<noteq> length n)" using assms(2-4) by simp
  have e: "br_rsa_i31_public x pk tmp = Some (of_bool (odd ?N \<and> ?X < ?N), br_i31_encode (length x) (snd q))"
    unfolding br_rsa_i31_public_def assms(1) Let_def
    by (simp only: c if_False f_def [symmetric] m0_def [symmetric] a0_def [symmetric] t_def [symmetric] m_def [symmetric]
        m0i_def [symmetric] a q option.map r split_beta fst_conv snd_conv)
  have "length (br_i31_encode (length x) (snd q)) = length x \<and> be_num (br_i31_encode (length x) (snd q)) = ?X ^ ?E mod ?N"
    if p: "odd ?N" "1 < ?N" "?X < ?N"
  proof -
    have "odd (unat (m ! 1))" using low_word_odd [OF h(1,5)] h(3) p(1) by simp
    then have "inverse_ok m0i m" unfolding inverse_ok_def m0i_def by (rule ninv31_value(1))
    then have mo: "modulus_ok h m m0i" using h(1,3) p(2) by (simp add: modulus_ok_def)
    have na: "num a = ?X" using d(4) p(3) by simp
    have lt: "num a < num m" using na h(3) p(3) by simp
    have "words31 h - 1 < 133"
    proof (rule ccontr)
      assume "\<not> words31 h - 1 < 133"
      then have "31 * 133 \<le> 31 * (words31 h - 1)" by (intro mult_le_mono2) simp
      then show False using h(6) assms(3) by linarith
    qed
    then have "2 * (words31 h + 2) \<le> 272" by simp
    moreover have "272 \<le> 540 - 2 * f" using f(1) by simp
    ultimately have lt2: "2 * (words31 h + 2) \<le> length t" unfolding l(3) TL by (rule order_trans)
    obtain x' where x': "snd q = x'" "i31_ok h x'" "num x' = num a ^ ?E mod num m"
      using modpow_opt_value [OF mo h(2) d(2) lt lt2, of "rsa_e pk"] q by auto
    have "?X ^ ?E mod ?N < 256 ^ length x" using be_num_bound [of n] assms(4) N by (simp add: order.strict_trans1 [of _ ?N] less_imp_le)
    then show ?thesis using encode_value [OF x'(2), of "length x"] x'(1,3) na h(3) by simp
  qed
  then show ?thesis unfolding e by blast
qed

end
