(* ===== verification/Rsa_Sig.thy ===== *)
theory Rsa_Sig
  imports Rsa_Pub
begin

text \<open>
  RSA signatures in BearSSL, PKCS#1 v1.5: the padding of a hash value (\<^verbatim>\<open>rsa_pkcs1_sig_pad.c\<close>), its removal
  (\<^verbatim>\<open>rsa_pkcs1_sig_unpad.c\<close>) and the verification of a signature (\<^verbatim>\<open>rsa_i31_pkcs1_vrfy.c\<close>). Shown: removal accepts exactly the encoded
  messages of RFC 8017, with and without the NULL parameter; it undoes the padding; and a signature is accepted exactly when the
  public-key operation takes it to the encoded message.
\<close>

section \<open>The code\<close>

definition pad1 :: "byte list" where
  "pad1 = [0x00, 0x01, 0xFF, 0xFF, 0xFF, 0xFF, 0xFF, 0xFF, 0xFF, 0xFF]"

text \<open>The loop over the bytes \<open>0xFF\<close>.\<close>

function skip_ff :: "byte list \<Rightarrow> nat \<Rightarrow> nat" where
  "skip_ff sig u = (if u < length sig then if sig ! u \<noteq> 0xFF then u else skip_ff sig (u + 1) else u)"
  by pat_completeness auto
termination by (relation "measure (\<lambda>(sig, u). length sig - u)") auto

declare skip_ff.simps [simp del]

text \<open>What follows the last \<open>0xFF\<close> before the hash value, in the array \<open>pad2\<close>, and how long it is; \<open>zlen\<close> is the length that the signature
  leaves for it (as an \<open>int\<close>: a difference below zero wraps to a length far above the others, and is refused too).\<close>

definition sig_header :: "byte list \<Rightarrow> nat \<Rightarrow> int \<Rightarrow> byte list \<Rightarrow> (nat \<times> byte list) option" where
  "sig_header hash_oid hash_len zlen pad2 =
     (let x3 = unat (hash_oid ! 0);
          pad_len = x3 + 9;
          pad2 = replicate pad_len 0 @ drop pad_len pad2
      in map_option
           (\<lambda>(x2, pad_len, pad2).
              let pad2 = pad2[1 := 0x30, 2 := word_of_nat (x2 + hash_len + 4), 3 := 0x30, 4 := word_of_nat x2, 5 := 0x06];
                  pad2 = take 6 pad2 @ take (x3 + 1) hash_oid @ drop (6 + (x3 + 1)) pad2
              in (pad_len, pad2[pad_len - 2 := 0x04, pad_len - 1 := word_of_nat hash_len]))
           (if zlen = int pad_len then Some (x3 + 2, pad_len, pad2)
            else if zlen = int pad_len + 2 then Some (x3 + 4, pad_len + 2, pad2[pad_len + 2 - 4 := 0x05])
            else None))"

text \<open>The flag and the buffer of the hash value. No identifier stands for the null pointer; \<open>pad2\<close> is the uninitialised array on the stack.\<close>

definition br_rsa_pkcs1_sig_unpad ::
    "byte list \<Rightarrow> byte list option \<Rightarrow> nat \<Rightarrow> byte list \<Rightarrow> byte list \<Rightarrow> u32 \<times> byte list" where
  "br_rsa_pkcs1_sig_unpad sig hash_oid hash_len hash_out pad2 =
     (if length sig < 11 then (0, hash_out)
      else if take (length pad1) sig \<noteq> pad1 then (0, hash_out)
      else
        let u = skip_ff sig (length pad1);
            done = (1, take hash_len (drop (length sig - hash_len) sig) @ drop hash_len hash_out)
        in case hash_oid of
             None \<Rightarrow> if length sig - u \<noteq> hash_len + 1 \<or> sig ! u \<noteq> 0x00 then (0, hash_out) else done
           | Some hash_oid \<Rightarrow>
               (case sig_header hash_oid hash_len (int (length sig) - int u - int hash_len) pad2 of
                  None \<Rightarrow> (0, hash_out)
                | Some (pad_len, pad2) \<Rightarrow>
                    if take pad_len pad2 \<noteq> take pad_len (drop u sig) then (0, hash_out) else done))"

definition br_rsa_i31_pkcs1_vrfy ::
    "byte list \<Rightarrow> byte list option \<Rightarrow> nat \<Rightarrow> br_rsa_public_key \<Rightarrow> byte list \<Rightarrow> u32 list \<Rightarrow> byte list \<Rightarrow> (u32 \<times> byte list) option" where
  "br_rsa_i31_pkcs1_vrfy x hash_oid hash_len pk hash_out tmp pad2 =
     (if 4096 div 8 < length x then Some (0, hash_out)
      else
        map_option
          (\<lambda>(r, sig). if r = 0 then (0, hash_out) else br_rsa_pkcs1_sig_unpad sig hash_oid hash_len hash_out pad2)
          (br_rsa_i31_public x pk tmp))"

text \<open>The padding, into a buffer \<open>x\<close>; the flag and the buffer.\<close>

definition write_at :: "nat \<Rightarrow> byte list \<Rightarrow> byte list \<Rightarrow> byte list" where
  "write_at u bs x = take u x @ bs @ drop (u + length bs) x"

definition br_rsa_pkcs1_sig_pad :: "byte list option \<Rightarrow> byte list \<Rightarrow> u32 \<Rightarrow> byte list \<Rightarrow> u32 \<times> byte list" where
  "br_rsa_pkcs1_sig_pad hash_oid hash n_bitlen x =
     (let xlen = unat (drop_bit 3 (n_bitlen + 7)); hash_len = length hash
      in case hash_oid of
           None \<Rightarrow>
             if xlen < hash_len + 11 then (0, x)
             else
               let u = xlen - hash_len;
                   x = write_at 2 (replicate (u - 3) 0xFF) (x[0 := 0x00, 1 := 0x01]);
                   x = x[u - 1 := 0x00]
               in (1, write_at u hash x)
         | Some hash_oid \<Rightarrow>
             let x3 = unat (hash_oid ! 0)
             in if xlen < x3 + hash_len + 21 then (0, x)
                else
                  let u = xlen - x3 - hash_len - 11;
                      x = write_at 2 (replicate (u - 2) 0xFF) (x[0 := 0x00, 1 := 0x01]);
                      x = x[u := 0x00, u + 1 := 0x30, u + 2 := word_of_nat (x3 + hash_len + 8), u + 3 := 0x30,
                        u + 4 := word_of_nat (x3 + 4), u + 5 := 0x06];
                      x = write_at (u + 6) (take (x3 + 1) hash_oid) x;
                      u = u + (x3 + 7);
                      x = x[u := 0x05, u + 1 := 0x00, u + 2 := 0x04, u + 3 := word_of_nat hash_len]
                  in (1, write_at (u + 4) hash x))"

section \<open>The encoded message\<close>

text \<open>The DigestInfo of RFC 8017 for a hash identifier (its length byte first), with or without a NULL parameter, and EMSA-PKCS1-v1\_5.
  Without an identifier the hash value stands for itself.\<close>

definition digest_header :: "byte list \<Rightarrow> bool \<Rightarrow> nat \<Rightarrow> byte list" where
  "digest_header hash_oid null hash_len =
     (let x3 = length hash_oid - 1; x2 = x3 + (if null then 4 else 2)
      in [0x30, word_of_nat (x2 + hash_len + 4), 0x30, word_of_nat x2, 0x06] @ hash_oid @ (if null then [0x05, 0x00] else []) @
         [0x04, word_of_nat hash_len])"

definition digest_info :: "byte list option \<Rightarrow> bool \<Rightarrow> byte list \<Rightarrow> byte list" where
  "digest_info hash_oid null hash =
     (case hash_oid of None \<Rightarrow> hash | Some hash_oid \<Rightarrow> digest_header hash_oid null (length hash) @ hash)"

definition emsa_pkcs1 :: "nat \<Rightarrow> byte list \<Rightarrow> byte list" where
  "emsa_pkcs1 k t = [0x00, 0x01] @ replicate k 0xFF @ [0x00] @ t"

definition pkcs1_encodings :: "byte list option \<Rightarrow> byte list \<Rightarrow> byte list set" where
  "pkcs1_encodings hash_oid hash = {emsa_pkcs1 k (digest_info hash_oid null hash) | k null. 8 \<le> k}"

text \<open>An identifier starts with its length, and its header fits the array.\<close>

definition oid_ok :: "byte list option \<Rightarrow> bool" where
  "oid_ok hash_oid = (case hash_oid of None \<Rightarrow> True | Some oid \<Rightarrow> length oid = unat (oid ! 0) + 1 \<and> length oid \<le> 33)"

section \<open>Removing the padding\<close>

lemma skip_ff_value:
  "r = [] \<or> hd r \<noteq> 0xFF \<Longrightarrow> skip_ff (xs @ replicate k 0xFF @ r) (length xs) = length xs + k"
proof (induction k arbitrary: xs)
  case 0
  then show ?case by (cases r) (simp_all add: skip_ff.simps nth_append)
next
  case (Suc k)
  have "skip_ff (xs @ replicate (Suc k) 0xFF @ r) (length xs) = skip_ff ((xs @ [0xFF]) @ replicate k 0xFF @ r) (length (xs @ [0xFF]))"
    by (subst skip_ff.simps) (simp add: nth_append)
  then show ?case using Suc.IH [OF Suc.prems, of "xs @ [0xFF]"] by simp
qed

lemma padded_split:
  assumes "take (length pad1) sig = pad1"
  obtains k r where "sig = [0x00, 0x01] @ replicate k 0xFF @ r" "8 \<le> k" "r = [] \<or> hd r \<noteq> 0xFF"
proof -
  define t where "t = drop (length pad1) sig"
  define j where "j = length (takeWhile (\<lambda>b. b = 0xFF) t)"
  define r where "r = dropWhile (\<lambda>b. b = 0xFF) t"
  have "takeWhile (\<lambda>b. b = 0xFF) t = replicate j 0xFF"
    unfolding j_def by (rule replicate_length_same [symmetric]) (metis set_takeWhileD)
  then have t: "t = replicate j 0xFF @ r" unfolding r_def by (metis takeWhile_dropWhile_id)
  have "sig = pad1 @ t" unfolding t_def using assms by (metis append_take_drop_id)
  also have "\<dots> = [0x00, 0x01] @ replicate (8 + j) 0xFF @ r" unfolding t pad1_def by (simp add: replicate_add eval_nat_numeral)
  finally show thesis
  proof (rule that)
    show "r = [] \<or> hd r \<noteq> 0xFF" unfolding r_def using hd_dropWhile [of "\<lambda>b. b = 0xFF" t] by blast
  qed simp
qed

lemma drop_behind: "length xs = n \<Longrightarrow> drop n (xs @ ys) = ys"
  by simp

lemma take_before: "length xs = n \<Longrightarrow> take n (xs @ ys) = xs"
  by simp

lemma length_digest_header: "oid_ok (Some oid) \<Longrightarrow> length (digest_header oid null n) = unat (oid ! 0) + (if null then 10 else 8)"
  by (simp add: digest_header_def Let_def oid_ok_def)

lemma sig_header_value:
  assumes "oid_ok (Some oid)" "length pad2 = 43" "unat (oid ! 0) = x3"
  shows "(case sig_header oid n zlen pad2 of None \<Rightarrow> None | Some (p, bs) \<Rightarrow> Some (p, take p bs)) =
    (if \<exists>null. zlen = int (length (0 # digest_header oid null n))
     then Some (nat zlen, 0 # digest_header oid (zlen = int x3 + 11) n) else None)"
proof -
  have l: "length oid = x3 + 1" "x3 \<le> 32" using assms(1,3) by (simp_all add: oid_ok_def)
  define rest where "rest = drop (x3 + 9) pad2"
  have "2 \<le> length rest" using l(2) assms(2) by (simp add: rest_def)
  then obtain c d rs where rest: "rest = c # d # rs" by (cases rest; cases "tl rest") auto
  define z where "z = replicate (x3 + 1) (0 :: byte)"
  have z: "length z = x3 + 1" by (simp add: z_def)
  have p: "replicate (x3 + 9) 0 @ rest = [0, 0, 0, 0, 0, 0] @ z @ [0, 0] @ rest"
  proof -
    have "replicate (x3 + 9) (0 :: byte) = replicate (6 + (x3 + 1) + 2) 0" by (simp add: add.commute)
    also have "\<dots> = replicate 6 0 @ z @ replicate 2 0" unfolding z_def by (simp only: replicate_add append_assoc)
    finally show ?thesis by (simp add: eval_nat_numeral)
  qed
  have e: "zlen = int (length (0 # digest_header oid null n)) \<longleftrightarrow> zlen = int x3 + (if null then 11 else 9)" for null
    unfolding length_Cons length_digest_header [OF assms(1)] assms(3) by auto
  then have ex: "(\<exists>null. zlen = int (length (0 # digest_header oid null n))) \<longleftrightarrow> zlen = int x3 + 9 \<or> zlen = int x3 + 11"
    by (metis (full_types))
  have t: "take (x3 + 1) oid = oid" using l(1) by simp
  have d: "drop (7 + x3) (0 # 0 # 0 # 0 # 0 # 0 # z @ w) = w" for w
  proof -
    have "length ([0, 0, 0, 0, 0, 0] @ z) = 7 + x3" using z by simp
    from drop_behind [OF this, of w] show ?thesis by (simp only: append_Cons append_Nil append_assoc)
  qed
  have h: "digest_header oid null n = [0x30, word_of_nat (x3 + (if null then 4 else 2) + n + 4), 0x30,
      word_of_nat (x3 + (if null then 4 else 2)), 0x06] @ oid @ (if null then [0x05, 0x00] else []) @ [0x04, word_of_nat n]" for null
    by (simp add: digest_header_def l(1))
  have t9: "take (x3 + 9) (a1 # a2 # a3 # a4 # a5 # a6 # oid @ b1 # b2 # ws) = a1 # a2 # a3 # a4 # a5 # a6 # oid @ [b1, b2]"
    for a1 a2 a3 a4 a5 a6 b1 b2 ws
    using take_before [of "[a1, a2, a3, a4, a5, a6] @ oid @ [b1, b2]" "x3 + 9" ws] l(1) by simp
  have t11: "take (11 + x3) (a1 # a2 # a3 # a4 # a5 # a6 # oid @ b1 # b2 # b3 # b4 # ws) =
      a1 # a2 # a3 # a4 # a5 # a6 # oid @ [b1, b2, b3, b4]" for a1 a2 a3 a4 a5 a6 b1 b2 b3 b4 ws
    using take_before [of "[a1, a2, a3, a4, a5, a6] @ oid @ [b1, b2, b3, b4]" "11 + x3" ws] l(1) by simp
  consider (plain) "zlen = int x3 + 9" | (null) "zlen = int x3 + 11" | (none) "zlen \<noteq> int x3 + 9" "zlen \<noteq> int x3 + 11" by blast
  then show ?thesis
  proof cases
    case plain
    then have "nat zlen = x3 + 9" by simp
    with plain show ?thesis
      unfolding sig_header_def Let_def assms(3) rest_def [symmetric] p t ex
      by (simp add: d h list_update_append l(1) t9)
  next
    case null
    then have "nat zlen = x3 + 11" by simp
    with null show ?thesis
      unfolding sig_header_def Let_def assms(3) rest_def [symmetric] p t ex
      by (simp add: d h list_update_append l(1) z rest t11)
  next
    case none
    then show ?thesis unfolding sig_header_def Let_def assms(3) ex by simp
  qed
qed


lemma sig_tail:
  assumes "oid_ok hash_oid" "length pad2 = 43"
  shows "(case hash_oid of
      None \<Rightarrow> length r = n + 1 \<and> r ! 0 = 0
    | Some oid \<Rightarrow> (case sig_header oid n (int (length r) - int n) pad2 of None \<Rightarrow> False | Some (p, bs) \<Rightarrow> take p bs = take p r)) \<longleftrightarrow>
    (\<exists>null h. length h = n \<and> r = 0 # digest_info hash_oid null h)"
proof (cases hash_oid)
  case None
  then show ?thesis by (cases r) (auto simp: digest_info_def)
next
  case (Some oid)
  note o = assms(1) [unfolded Some]
  let ?H = "\<lambda>null. 0 # digest_header oid null n" and ?z = "int (length r) - int n"
  have H: "length (?H null) = unat (oid ! 0) + (if null then 11 else 9)" for null
    by (simp add: length_digest_header [OF o])
  have z: "?z = int (length (?H null)) \<longleftrightarrow> length r = length (?H null) + n" for null by linarith
  have "(case sig_header oid n ?z pad2 of None \<Rightarrow> False | Some (p, bs) \<Rightarrow> take p bs = take p r) \<longleftrightarrow>
      (\<exists>null. length r = length (?H null) + n \<and> take (length (?H null)) r = ?H null)"
  proof (cases "\<exists>null. ?z = int (length (?H null))")
    case True
    then obtain null where null: "?z = int (length (?H null))" by blast
    have u: "null' = null" if "?z = int (length (?H null'))" for null' using that unfolding null H by (cases null; cases null') simp_all
    have m: "(?z = int (unat (oid ! 0)) + 11) = null" unfolding null H by simp
    have nz: "nat ?z = length (?H null)" unfolding null by (rule nat_int)
    have "(case sig_header oid n ?z pad2 of None \<Rightarrow> None | Some (p, bs) \<Rightarrow> Some (p, take p bs)) = Some (length (?H null), ?H null)"
      using sig_header_value [OF o assms(2) refl, of n ?z] unfolding m nz if_P [OF True] .
    then obtain p bs where h: "sig_header oid n ?z pad2 = Some (p, bs)" "p = length (?H null)" "take p bs = ?H null"
      by (cases "sig_header oid n ?z pad2") auto
    show ?thesis using u unfolding h(1) by (simp only: option.case prod.case h(2,3) z [symmetric]) (use null h(3) in \<open>auto simp: h(2)\<close>)
  next
    case False
    then have "sig_header oid n ?z pad2 = None"
      using sig_header_value [OF o assms(2) refl, of n ?z] by (auto split: option.splits if_splits)
    then show ?thesis using False unfolding z by simp
  qed
  also have "\<dots> \<longleftrightarrow> (\<exists>null h. length h = n \<and> r = ?H null @ h)"
  proof -
    have q: "length r = length xs + n \<and> take (length xs) r = xs \<longleftrightarrow> (\<exists>h. length h = n \<and> r = xs @ h)" for xs
    proof
      assume a: "length r = length xs + n \<and> take (length xs) r = xs"
      then have "r = xs @ drop (length xs) r" by (metis append_take_drop_id)
      then show "\<exists>h. length h = n \<and> r = xs @ h" using a by (intro exI [of _ "drop (length xs) r"]) simp
    qed auto
    show ?thesis by (simp only: q)
  qed
  finally show ?thesis by (auto simp: Some digest_info_def)
qed

lemma sig_unpad_value:
  assumes "sig = [0x00, 0x01] @ replicate k 0xFF @ r" "8 \<le> k" "r = [] \<or> hd r \<noteq> 0xFF"
    and "oid_ok hash_oid" "length pad2 = 43" "length hash_out = n"
  shows "br_rsa_pkcs1_sig_unpad sig hash_oid n hash_out pad2 =
    (if \<exists>null h. length h = n \<and> r = 0 # digest_info hash_oid null h then (1, drop (length r - n) r) else (0, hash_out))"
proof -
  let ?C = "\<exists>null h. length h = n \<and> r = 0 # digest_info hash_oid null h"
  obtain j where j: "k = 8 + j" using assms(2) le_Suc_ex by blast
  have sig: "sig = pad1 @ replicate j 0xFF @ r" unfolding assms(1) j by (simp add: pad1_def replicate_add eval_nat_numeral)
  have p: "length pad1 = 10" by (simp add: pad1_def)
  have u: "skip_ff sig 10 = 10 + j" unfolding sig p [symmetric] by (rule skip_ff_value [OF assms(3)])
  have l: "length sig = 10 + j + length r" by (simp add: sig p)
  have d: "drop (10 + j) sig = r" by (simp add: sig p)
  have nth: "sig ! (10 + j) = r ! 0" if "length r = n + 1" using that by (cases r) (simp_all add: sig p nth_append)
  have out: "take n (drop (length sig - n) sig) @ drop n hash_out = drop (length r - n) r" if "n \<le> length r"
  proof -
    have "length sig - n = 10 + j + (length r - n)" using that by (simp add: l)
    then have "drop (length sig - n) sig = drop (length r - n) r" using d by (metis add.commute drop_drop)
    then show ?thesis using that assms(6) by simp
  qed
  note t = sig_tail [OF assms(4,5), of r n]
  have C: "r \<noteq> [] \<and> n \<le> length r" if ?C using that by (auto simp: digest_info_def split: option.splits)
  show ?thesis
  proof (cases "length sig < 11")
    case True
    then have "r = []" using l by simp
    then have "\<not> ?C" using C by blast
    then show ?thesis using True by (simp add: br_rsa_pkcs1_sig_unpad_def)
  next
    case False
    have tk: "take (length pad1) sig = pad1" by (simp add: sig)
    show ?thesis
    proof (cases hash_oid)
      case None
      have t': "(\<not> (length sig - (10 + j) \<noteq> n + 1 \<or> sig ! (10 + j) \<noteq> 0)) \<longleftrightarrow> ?C"
        using t nth unfolding None option.case by (auto simp: l)
      show ?thesis
        unfolding br_rsa_pkcs1_sig_unpad_def Let_def p u using False tk t' out C unfolding None by (auto simp: p)
    next
      case (Some oid)
      have z: "int (length sig) - int (10 + j) - int n = int (length r) - int n" by (simp add: l)
      show ?thesis
        unfolding br_rsa_pkcs1_sig_unpad_def Let_def p u using False tk t out C unfolding Some option.case z d
        by (auto simp: p split: option.splits)
    qed
  qed
qed

text \<open>Exactly the encoded messages are accepted, and the hash value in them is returned.\<close>

lemma sig_unpad_accepts:
  assumes "oid_ok hash_oid" "length pad2 = 43" "length hash_out = n" "length hash = n"
  shows "br_rsa_pkcs1_sig_unpad sig hash_oid n hash_out pad2 = (1, hash) \<longleftrightarrow> sig \<in> pkcs1_encodings hash_oid hash"
proof
  assume a: "br_rsa_pkcs1_sig_unpad sig hash_oid n hash_out pad2 = (1, hash)"
  then have "take (length pad1) sig = pad1" by (auto simp: br_rsa_pkcs1_sig_unpad_def split: if_splits)
  then obtain k r where s: "sig = [0x00, 0x01] @ replicate k 0xFF @ r" "8 \<le> k" "r = [] \<or> hd r \<noteq> 0xFF" by (rule padded_split)
  obtain null h where h: "length h = n" "r = 0 # digest_info hash_oid null h" "hash = drop (length r - n) r"
    using a unfolding sig_unpad_value [OF s assms(1-3)] by (auto split: if_splits)
  have "hash = h" unfolding h(3) h(2) using h(1) by (cases hash_oid) (simp_all add: digest_info_def drop_Cons')
  then show "sig \<in> pkcs1_encodings hash_oid hash"
    using s(1,2) h(2) by (auto simp: pkcs1_encodings_def emsa_pkcs1_def)
next
  assume "sig \<in> pkcs1_encodings hash_oid hash"
  then obtain k null where k: "sig = emsa_pkcs1 k (digest_info hash_oid null hash)" "8 \<le> k" by (auto simp: pkcs1_encodings_def)
  let ?r = "0 # digest_info hash_oid null hash"
  have s: "sig = [0x00, 0x01] @ replicate k 0xFF @ ?r" by (simp add: k(1) emsa_pkcs1_def)
  have r: "?r = [] \<or> hd ?r \<noteq> 0xFF" by simp
  have d: "drop (length ?r - n) ?r = hash" using assms(4) by (cases hash_oid) (simp_all add: digest_info_def drop_Cons')
  show "br_rsa_pkcs1_sig_unpad sig hash_oid n hash_out pad2 = (1, hash)"
    unfolding sig_unpad_value [OF s k(2) r assms(1-3)] d using assms(4) by auto
qed


section \<open>Padding\<close>

lemma split_length: "length xs = a + b \<Longrightarrow> \<exists>ys zs. xs = ys @ zs \<and> length ys = a \<and> length zs = b"
  by (intro exI [of _ "take a xs"] exI [of _ "drop a xs"]) simp

lemma write_at_behind: "length xs = u \<Longrightarrow> length ys = length bs \<Longrightarrow> write_at u bs (xs @ ys @ zs) = xs @ bs @ zs"
  by (simp add: write_at_def)

lemma write_at_last: "length xs = u \<Longrightarrow> length ys = length bs \<Longrightarrow> write_at u bs (xs @ ys) = xs @ bs"
  by (simp add: write_at_def)

lemma update_behind: "length xs = u \<Longrightarrow> (xs @ ys)[u + i := v] = xs @ ys[i := v]" "length xs = u \<Longrightarrow> (xs @ ys)[u := v] = xs @ ys[0 := v]"
  by (auto simp: list_update_append)

lemma sig_pad_null:
  assumes "length x = unat (drop_bit 3 (n_bitlen + 7))" "length hash + 11 \<le> length x"
  shows "br_rsa_pkcs1_sig_pad None hash n_bitlen x = (1, emsa_pkcs1 (length x - length hash - 3) hash)"
proof -
  obtain k where k: "length x = 2 + (k + (1 + length hash))" using le_Suc_ex [OF assms(2)] by (auto simp: add.commute add.left_commute intro: that [of "_ + 8"])
  obtain ab y where x: "x = ab @ y" "length ab = 2" "length y = k + (1 + length hash)" using split_length [OF k] by blast
  obtain f z where y: "y = f @ z" "length f = k" "length z = 1 + length hash" using split_length [OF x(3)] by blast
  obtain c h where z: "z = c @ h" "length c = 1" "length h = length hash" using split_length [OF y(3)] by blast
  obtain a b where ab: "ab = [a, b]" using x(2) by (auto simp: length_Suc_conv eval_nat_numeral)
  obtain d where c: "c = [d]" using z(2) by (auto simp: length_Suc_conv)
  have n: "\<not> length x < length hash + 11" using assms(2) by simp
  have u: "length x - length hash = k + 3" "k + 3 - 3 = k" "k + 3 - 1 = k + 2" "length x - length hash - 3 = k" using k by simp_all
  have p2: "write_at 2 (replicate k 0xFF) (x[0 := 0x00, 1 := 0x01]) = ([0x00, 0x01] @ replicate k 0xFF) @ [d] @ h"
    using write_at_behind [of "[0x00, 0x01]" 2 f "replicate k 0xFF" "[d] @ h"] y(2) unfolding x(1) y(1) z(1) c ab by simp
  have l: "length ([0x00, 0x01] @ replicate k 0xFF) = k + 2" by simp
  have l3: "length (([0x00, 0x01] @ replicate k 0xFF) @ [0x00]) = k + 3" by simp
  show ?thesis
    unfolding br_rsa_pkcs1_sig_pad_def Let_def assms(1) [symmetric] option.case if_not_P [OF n] u p2 update_behind(2) [OF l]
    using write_at_last [OF l3 z(3)] by (simp add: emsa_pkcs1_def)
qed

lemma sig_pad_some:
  assumes "length x = unat (drop_bit 3 (n_bitlen + 7))" "oid_ok (Some oid)" "length (digest_header oid True (length hash)) + length hash + 11 \<le> length x"
  shows "br_rsa_pkcs1_sig_pad (Some oid) hash n_bitlen x =
    (1, emsa_pkcs1 (length x - length (digest_info (Some oid) True hash) - 3) (digest_info (Some oid) True hash))"
proof -
  define x3 where "x3 = unat (oid ! 0)"
  have o: "length oid = x3 + 1" using assms(2) by (simp add: oid_ok_def x3_def)
  have lh: "length (digest_header oid True m) = x3 + 10" for m by (simp add: length_digest_header [OF assms(2)] x3_def)
  have a: "x3 + length hash + 21 \<le> length x" using assms(3) unfolding lh by simp
  obtain k where k: "length x = 2 + (k + (6 + ((x3 + 1) + (4 + length hash))))"
    using le_Suc_ex [OF a] by (auto simp: add.commute add.left_commute intro: that [of "_ + 8"])
  obtain ab y where x: "x = ab @ y" "length ab = 2" "length y = k + (6 + ((x3 + 1) + (4 + length hash)))" using split_length [OF k] by blast
  obtain f z where y: "y = f @ z" "length f = k" "length z = 6 + ((x3 + 1) + (4 + length hash))" using split_length [OF x(3)] by blast
  obtain c w where z: "z = c @ w" "length c = 6" "length w = (x3 + 1) + (4 + length hash)" using split_length [OF y(3)] by blast
  obtain q v where w: "w = q @ v" "length q = x3 + 1" "length v = 4 + length hash" using split_length [OF z(3)] by blast
  obtain t h where v: "v = t @ h" "length t = 4" "length h = length hash" using split_length [OF w(3)] by blast
  obtain a b where ab: "ab = [a, b]" using x(2) by (auto simp: length_Suc_conv eval_nat_numeral)
  obtain c0 c1 c2 c3 c4 c5 where c: "c = [c0, c1, c2, c3, c4, c5]" using z(2) by (auto simp: length_Suc_conv eval_nat_numeral)
  obtain t0 t1 t2 t3 where t: "t = [t0, t1, t2, t3]" using v(2) by (auto simp: length_Suc_conv eval_nat_numeral)
  let ?P = "[0x00, 0x01] @ replicate k 0xFF :: byte list"
  have n: "\<not> length x < x3 + length hash + 21" using a by simp
  have u: "length x - x3 - length hash - 11 = k + 2" "k + 2 - 2 = k" using k by simp_all
  have p2: "write_at 2 (replicate k 0xFF) (x[0 := 0x00, 1 := 0x01]) = ?P @ c @ q @ t @ h"
    using write_at_behind [of "[0x00, 0x01]" 2 f "replicate k 0xFF" "c @ q @ t @ h"] y(2) unfolding x(1) y(1) z(1) w(1) v(1) ab by simp
  have l: "length ?P = k + 2" by simp
  let ?C = "[0x00, 0x30, word_of_nat (x3 + length hash + 8), 0x30, word_of_nat (x3 + 4), 0x06] :: byte list"
  have up1: "(?P @ c @ q @ t @ h)[k + 2 := 0x00, k + 2 + 1 := 0x30, k + 2 + 2 := word_of_nat (x3 + length hash + 8), k + 2 + 3 := 0x30,
      k + 2 + 4 := word_of_nat (x3 + 4), k + 2 + 5 := 0x06] = (?P @ ?C) @ q @ t @ h"
    unfolding update_behind [OF l] c by simp
  have lc: "length (?P @ ?C) = k + 2 + 6" by simp
  have tk: "take (x3 + 1) oid = oid" using o by simp
  have lq: "length q = length oid" using w(2) o by simp
  have l4: "length (?P @ ?C @ oid) = k + 2 + (x3 + 7)" using o by simp
  let ?T = "[0x05, 0x00, 0x04, word_of_nat (length hash)] :: byte list"
  have up2: "((?P @ ?C) @ oid @ t @ h)[k + 2 + (x3 + 7) := 0x05, k + 2 + (x3 + 7) + 1 := 0x00, k + 2 + (x3 + 7) + 2 := 0x04,
      k + 2 + (x3 + 7) + 3 := word_of_nat (length hash)] = (?P @ ?C @ oid @ ?T) @ h"
  proof -
    have as: "(?P @ ?C) @ oid @ t @ h = (?P @ ?C @ oid) @ t @ h" by simp
    show ?thesis unfolding as unfolding update_behind [OF l4] t by simp
  qed
  have l5: "length (?P @ ?C @ oid @ ?T) = k + 2 + (x3 + 7) + 4" using o by simp
  have "length x - length (digest_info (Some oid) True hash) - 3 = k" using k by (simp add: digest_info_def lh)
  moreover have "x3 + length hash + 8 = x3 + 4 + length hash + 4" by simp
  ultimately show ?thesis
    unfolding br_rsa_pkcs1_sig_pad_def Let_def assms(1) [symmetric] option.case x3_def [symmetric] if_not_P [OF n] u p2 up1 tk
      write_at_behind [OF lc lq] up2 write_at_last [OF l5 v(3)]
    by (simp add: emsa_pkcs1_def digest_info_def digest_header_def o)
qed


text \<open>The removal undoes the padding.\<close>

lemma sig_pad_encodes:
  assumes "oid_ok hash_oid" "length x = unat (drop_bit 3 (n_bitlen + 7))" "br_rsa_pkcs1_sig_pad hash_oid hash n_bitlen x = (1, em)"
  shows "em \<in> pkcs1_encodings hash_oid hash" and "length em = length x"
proof -
  have "em \<in> pkcs1_encodings hash_oid hash \<and> length em = length x"
  proof (cases hash_oid)
    case None
    have l: "length hash + 11 \<le> length x"
      using assms(2,3) by (auto simp: None br_rsa_pkcs1_sig_pad_def Let_def split: if_splits)
    have "em = emsa_pkcs1 (length x - length hash - 3) (digest_info None True hash)"
      using assms(3) unfolding None sig_pad_null [OF assms(2) l] by (simp add: digest_info_def)
    then show ?thesis using l None by (auto simp: pkcs1_encodings_def emsa_pkcs1_def digest_info_def)
  next
    case (Some oid)
    have lh: "length (digest_header oid True m) = unat (oid ! 0) + 10" for m
      using length_digest_header [of oid True m] assms(1) by (simp add: Some)
    have "unat (oid ! 0) + length hash + 21 \<le> length x"
      using assms(2,3) by (auto simp: Some br_rsa_pkcs1_sig_pad_def Let_def split: if_splits)
    then have l: "length (digest_header oid True (length hash)) + length hash + 11 \<le> length x" by (simp only: lh)
    have "em = emsa_pkcs1 (length x - length (digest_info (Some oid) True hash) - 3) (digest_info (Some oid) True hash)"
      using assms(3) unfolding Some sig_pad_some [OF assms(2) assms(1) [unfolded Some] l] by simp
    moreover have "length (digest_info (Some oid) True hash) + 11 \<le> length x" using l by (simp add: digest_info_def)
    ultimately show ?thesis using Some by (auto simp: pkcs1_encodings_def emsa_pkcs1_def)
  qed
  then show "em \<in> pkcs1_encodings hash_oid hash" "length em = length x" by blast+
qed

text \<open>C40: Removing the padding of an RSA signature gives back exactly the hash value that was padded, for every hash identifier, hash value and
  modulus length at which the padding succeeds, whatever the buffers hold.\<close>

theorem padding_roundtrip:
  assumes "oid_ok hash_oid" "length x = unat (drop_bit 3 (n_bitlen + 7))" "br_rsa_pkcs1_sig_pad hash_oid hash n_bitlen x = (1, em)"
    and "length pad2 = 43" "length hash_out = length hash"
  shows "br_rsa_pkcs1_sig_unpad em hash_oid (length hash) hash_out pad2 = (1, hash)"
  using sig_unpad_accepts [OF assms(1,4,5) refl] sig_pad_encodes(1) [OF assms(1-3)] by blast

section \<open>Verification\<close>

lemma be_num_inj: "length xs = length ys \<Longrightarrow> be_num xs = be_num ys \<Longrightarrow> xs = ys"
proof (induction xs ys rule: list_induct2)
  case (Cons x xs y ys)
  let ?M = "256 ^ length ys :: nat"
  have b: "be_num xs < ?M" "be_num ys < ?M" using be_num_bound [of xs] be_num_bound [of ys] Cons.hyps by simp_all
  have e: "be_num xs + ?M * unat x = be_num ys + ?M * unat y" using Cons.prems Cons.hyps by (simp add: algebra_simps)
  have "(be_num xs + ?M * unat x) mod ?M = be_num xs" "(be_num xs + ?M * unat x) div ?M = unat x" using b(1) by simp_all
  moreover have "(be_num ys + ?M * unat y) mod ?M = be_num ys" "(be_num ys + ?M * unat y) div ?M = unat y" using b(2) by simp_all
  ultimately have "be_num xs = be_num ys" "unat x = unat y" using e by metis+
  then show ?case using Cons.IH by (simp add: unsigned_word_eqI)
qed simp

text \<open>C38: A signature is accepted for a hash value exactly when it is as long as the modulus and below it, and its power with the public exponent modulo
  the modulus is an encoded message of PKCS\#1 v1.5 for that hash: the verification of RFC 8017 for every odd modulus of up to 4096
  bits, whatever the scratch space holds. The call always returns.\<close>

theorem rsa_signature_verified:
  assumes "dropWhile (\<lambda>b. b = 0) (rsa_n pk) = n" "n \<noteq> []" "length n \<le> 512" "odd (be_num n)" "1 < be_num n"
    and "oid_ok hash_oid" "length pad2 = 43" "length hash_out = hash_len" "length hash = hash_len" "length tmp = 1 + TLEN"
  shows "br_rsa_i31_pkcs1_vrfy x hash_oid hash_len pk hash_out tmp pad2 = Some (1, hash) \<longleftrightarrow>
    length x = length n \<and> be_num x < be_num n \<and>
    (\<exists>em \<in> pkcs1_encodings hash_oid hash. length em = length x \<and> be_num em = be_num x ^ be_num (rsa_e pk) mod be_num n)"
proof (cases "length x = length n")
  case False
  have "br_rsa_i31_public x pk tmp = Some (0, x)"
    unfolding br_rsa_i31_public_def assms(1) Let_def using False by simp
  then show ?thesis using False by (simp add: br_rsa_i31_pkcs1_vrfy_def)
next
  case True
  obtain y where y: "br_rsa_i31_public x pk tmp = Some (of_bool (odd (be_num n) \<and> be_num x < be_num n), y)"
    "be_num x < be_num n \<Longrightarrow> length y = length x \<and> be_num y = be_num x ^ be_num (rsa_e pk) mod be_num n"
    using rsa_public_value [OF assms(1-3) True assms(10)] assms(4,5) by blast
  have l: "\<not> 4096 div 8 < length x" using True assms(3) by simp
  show ?thesis
  proof (cases "be_num x < be_num n")
    case False
    then show ?thesis using l y(1) by (simp add: br_rsa_i31_pkcs1_vrfy_def)
  next
    case lt: True
    have "br_rsa_i31_pkcs1_vrfy x hash_oid hash_len pk hash_out tmp pad2 = Some (br_rsa_pkcs1_sig_unpad y hash_oid hash_len hash_out pad2)"
      using l y(1) lt assms(4) by (simp add: br_rsa_i31_pkcs1_vrfy_def)
    then have "br_rsa_i31_pkcs1_vrfy x hash_oid hash_len pk hash_out tmp pad2 = Some (1, hash) \<longleftrightarrow> y \<in> pkcs1_encodings hash_oid hash"
      using sig_unpad_accepts [OF assms(6-9)] by simp
    also have "\<dots> \<longleftrightarrow> (\<exists>em \<in> pkcs1_encodings hash_oid hash. length em = length x \<and> be_num em = be_num x ^ be_num (rsa_e pk) mod be_num n)"
      using y(2) [OF lt] be_num_inj by (metis (no_types))
    finally show ?thesis using True lt by blast
  qed
qed


theorem rsa_signature_verified_witness:
  "br_rsa_i31_pkcs1_vrfy [0, 0, 0, 0, 0, 0, 0, 0, 255, 255, 255, 255] None 1 \<lparr>rsa_n = [255, 253, 255, 253, 0, 0, 0, 3, 0, 0, 255, 213], rsa_e = [3]\<rparr>
    [0] (replicate 541 0) (replicate 43 0) = Some (1, [42])"
proof -
  let ?n = "[255, 253, 255, 253, 0, 0, 0, 3, 0, 0, 255, 213] :: byte list" and ?x = "[0, 0, 0, 0, 0, 0, 0, 0, 255, 255, 255, 255] :: byte list"
  let ?em = "[0, 1, 255, 255, 255, 255, 255, 255, 255, 255, 0, 42] :: byte list"
  have "?em = emsa_pkcs1 8 (digest_info None True [42])" by (simp add: emsa_pkcs1_def digest_info_def eval_nat_numeral)
  then have em: "?em \<in> pkcs1_encodings None [42]" by (auto simp: pkcs1_encodings_def)
  have v: "be_num ?n = 79225744607284876126950850517" "be_num ?x = 4294967295" "be_num ?em = 2417851639229258349346858" "be_num [3] = 3" by simp_all
  have p: "be_num ?em = be_num ?x ^ be_num [3] mod be_num ?n" unfolding v by simp
  have "br_rsa_i31_pkcs1_vrfy ?x None 1 \<lparr>rsa_n = ?n, rsa_e = [3]\<rparr> [0] (replicate 541 0) (replicate 43 0) = Some (1, [42]) \<longleftrightarrow>
    length ?x = length ?n \<and> be_num ?x < be_num ?n \<and>
    (\<exists>em \<in> pkcs1_encodings None [42]. length em = length ?x \<and> be_num em = be_num ?x ^ be_num (rsa_e \<lparr>rsa_n = ?n, rsa_e = [3]\<rparr>) mod be_num ?n)"
    by (rule rsa_signature_verified) (simp_all only: v, simp_all add: oid_ok_def TLEN_def)
  moreover have "be_num ?x < be_num ?n" unfolding v by simp
  moreover have "length ?x = length ?n" by simp
  moreover have "\<exists>em \<in> pkcs1_encodings None [42]. length em = length ?x \<and>
      be_num em = be_num ?x ^ be_num (rsa_e \<lparr>rsa_n = ?n, rsa_e = [3]\<rparr>) mod be_num ?n"
    unfolding br_rsa_public_key.simps using p by (intro bexI [OF _ em] conjI) simp_all
  ultimately show ?thesis by (simp only: simp_thms)
qed

theorem padding_roundtrip_witness:
  "br_rsa_pkcs1_sig_unpad (emsa_pkcs1 8 (digest_info (Some [2, 0x2A, 3]) True [5, 6])) (Some [2, 0x2A, 3]) 2 [0, 0] (replicate 43 7) = (1, [5, 6])"
proof -
  have "br_rsa_pkcs1_sig_pad (Some [2, 0x2A, 3]) [5, 6] 200 (replicate 25 1) = (1, emsa_pkcs1 8 (digest_info (Some [2, 0x2A, 3]) True [5, 6]))"
    by code_simp
  moreover have "oid_ok (Some [2, 0x2A, 3])" by (simp add: oid_ok_def)
  moreover have "length (replicate 25 (1 :: byte)) = unat (drop_bit 3 ((200 :: u32) + 7))" by simp
  ultimately show ?thesis using padding_roundtrip [of "Some [2, 0x2A, 3]" "replicate 25 1" 200 "[5, 6]" _ "replicate 43 7" "[0, 0]"]
    by (simp add: numeral_2_eq_2)
qed

end
