(* ===== verification/Spec2Isabelle.thy ===== *)
theory Spec2Isabelle
  imports CString Pmm Kheap Io Keyboard Serial Speaker Paging64 Paging32 Vfs Jurkvfs Fat32 Pci E1000 Framebuffer Devfs Mounts Vmem Loader Interrupts Shell Login Wget Jurkstore Wifi Prf Rec_Chapol Rsa_Sig
begin

text \<open>
  A verification library for JurkOS: a C kernel (\<^verbatim>\<open>source/kernel\<close>) and the programs that run on the
  installed system (\<^verbatim>\<open>NoneCompiled\<close>: the first process with its login and shell, a downloader, a package
  store and a network manager).

  \<^bold>\<open>How the program is put together.\<close> The boot loader hands \<^verbatim>\<open>kernel_main\<close> the memory size, a frame buffer and
  modules (disk images, programs). The kernel starts the serial line and the console, the page allocator and
  the heap, segments, interrupts and the keyboard, scans the PCI bus, starts the network card, builds the
  device tree, mounts a disk as root, and runs an init program or, where there is none, its emergency shell.
  The user programs are linked against a C library of another kernel and know this one only through system
  calls, shell commands and files.

  \<^bold>\<open>Kernel: memory.\<close>
  \<^item> \<open>Prelude\<close>: the machine types of \<^verbatim>\<open>include/types.h\<close>, byte-addressed memory as a total function, address
    ranges; the collections \<open>mem_simps\<close> and \<open>region_simps\<close>.
  \<^item> \<open>CString\<close>: \<^verbatim>\<open>lib/string.c\<close>, over that memory. Shown: copying, overlapping or not, and comparison.
  \<^item> \<open>Page_Alloc\<close>: the contract of a page allocator, a locale. \<open>Pmm\<close>: \<^verbatim>\<open>mem/pmm.c\<close>, the bitmap and the counter
    of free pages; the locale is interpreted on it. Shown: the counter agrees with the bitmap, which page or run
    of pages a call returns, and when there is none.
  \<^item> \<open>Kheap\<close>: \<^verbatim>\<open>mem/kheap.c\<close>, block headers in a store from addresses; refined to a list of blocks. Shown:
    first fit, coalescing, round trip of the two.
  \<^item> \<open>Page_Tree\<close>: page tables of any depth, a locale over the allocator contract; \<open>Paging64\<close>, \<open>Paging32\<close>:
    \<^verbatim>\<open>arch/x86_64/paging.c\<close> and \<^verbatim>\<open>arch/x86/paging.c\<close>, on which it is interpreted. Shown: the tables implement a
    flat map of pages under any sequence of calls.

  \<^bold>\<open>Kernel: devices.\<close>
  \<^item> \<open>Io\<close>: \<^verbatim>\<open>include/io.h\<close>; effects on the hardware are a trace, what ports answer is a parameter (\<open>devices\<close>).
    \<open>Serial\<close>, \<open>Speaker\<close>, \<open>Pci\<close>, \<open>E1000\<close>, \<open>Keyboard\<close>, \<open>Framebuffer\<close>: the files of \<^verbatim>\<open>drivers\<close>. \<open>Bounded_Queue\<close> is
    the contract of the keyboard buffer, a locale interpreted in \<open>Keyboard\<close>. Shown: what a format string sends,
    which functions a bus scan records, isolation of the packet buffers, first-in first-out order and line
    editing, and that no drawing leaves the frame buffer.
  \<^item> \<open>Interrupts\<close>: \<^verbatim>\<open>gdt.c\<close> and \<^verbatim>\<open>idt.c\<close> of both architectures. Shown: which vector reaches which stub, that the
    controllers are acknowledged, and that both kernels do the same.

  \<^bold>\<open>Kernel: files, programs, boot.\<close>
  \<^item> \<open>Vfs\<close>: \<^verbatim>\<open>fs/vfs.c\<close>, a node store; function pointers are the tags of a datatype. \<open>Bytes\<close>: packed structures
    in an image. \<open>Directory\<close>: the contract of listing and searching, a locale, interpreted in \<open>Jurkvfs\<close>
    (\<^verbatim>\<open>fs/jurkvfs.c\<close>), \<open>Fat32\<close> (\<^verbatim>\<open>fs/fat32.c\<close>) and \<open>Devfs\<close> (\<^verbatim>\<open>fs/devfs.c\<close>). \<open>Mounts\<close>: what a disk promises to
    a lookup, a locale interpreted on both disk formats, and the mounts of boot. Shown: a lookup walks the
    names of its path, reads return slices of the file, searching finds what listing shows, and where
    lookups lead after boot.
  \<^item> \<open>Vmem\<close> and \<open>Loader\<close>: memory seen through the page tables, and \<^verbatim>\<open>loader\<close>. Shown: what a loaded ELF or flat
    file leaves in memory, and the rejection of unusable ones.
  \<^item> \<open>Shell\<close>: \<^verbatim>\<open>kernel_main.c\<close>, the commands of the emergency shell and the boot sequence, over one record that
    holds the states of all of the above. Shown: the machine always reaches the shell, and what \<^verbatim>\<open>cat\<close> prints.

  \<^bold>\<open>User programs.\<close>
  \<^item> \<open>Stdio\<close>: strings, line reading and number parsing as the C library defines them; a session is what is
    still to be typed, what was printed, and the rest of the world. \<open>Posix\<close>: the record of system calls.
  \<^item> \<open>Textutils\<close>, \<open>Fileutils\<close>, \<open>Usershell\<close>, \<open>Login\<close>: \<^verbatim>\<open>main.c\<close>, the commands, the shell, and setup, login and crash
    report of the first process. Shown: what the text commands print, that a copy is complete, the order in
    which programs are searched, which passwords are accepted, and the round trip of base64.
  \<^item> \<open>Wget\<close>: \<^verbatim>\<open>wget.c\<close>. Shown: round trip of URL parsing, and that exactly the body is saved.
  \<^item> \<open>Jurkstore\<close>: \<^verbatim>\<open>jurkstore.c\<close>. Shown: every reachable state is well typed, the one out-of-bounds access, and
    the round trip of metadata files.
  \<^item> \<open>Wifi\<close>: \<^verbatim>\<open>wifi.c\<close>. Shown: what a scan lists, what a password prompt shows and takes, and the round trip of
    the file of saved networks.

  \<^bold>\<open>TLS library.\<close> The downloader is linked with BearSSL (\<^verbatim>\<open>source/bearssl\<close>); its hashing layer, one of
    its authenticated ciphers with the record layer on it, and RSA signatures with their arithmetic are modelled.
  \<^item> \<open>Ct\<close>: the arithmetic without branches of \<^verbatim>\<open>src/inner.h\<close> and the encodings of \<^verbatim>\<open>src/codec\<close>, with the collections
    \<open>ct\<close> and \<open>codec\<close>. Shown: what each primitive decides, and round trips.
  \<^item> \<open>Block_Hash\<close>: the buffering and padding all hash functions share; the contract of a block size and a round
    function, a locale. \<open>Hash_Class\<close>: the table of functions through which a hash function is called, and its
    contract, a locale. \<open>Sha2\<close>, \<open>Md5_Sha1\<close>: the files of \<^verbatim>\<open>src/hash\<close>; both locales are interpreted on each function.
    Shown: a message in any pieces gives the value the standards define.
  \<^item> \<open>Hmac\<close>, \<open>Prf\<close>: \<^verbatim>\<open>mac/hmac.c\<close>, \<^verbatim>\<open>kdf/hkdf.c\<close>, \<^verbatim>\<open>ssl/prf*.c\<close>, \<^verbatim>\<open>hash/mgf1.c\<close>, proved inside the locale of the
    table. Shown: they compute HMAC, HKDF, the pseudorandom functions of TLS and the masks of RSA padding.
  \<^item> \<open>Chacha20\<close>, \<open>Poly1305\<close>, \<open>Poly1305_Tag\<close>: \<^verbatim>\<open>symcipher/chacha20_ct.c\<close> and \<^verbatim>\<open>symcipher/poly1305_ctmul.c\<close>. Shown: the stream
    is that of RFC 8439; no product or carry of the five-word numbers overflows; the tag is that of the RFC, for any
    stream cipher, except where the last carries run through all words, where it is another one; and decryption
    undoes encryption.
  \<^item> \<open>Rec_Chapol\<close>: \<^verbatim>\<open>ssl/ssl_rec_chapol.c\<close>, on any pair of functions with the laws of an authenticated cipher, a locale that is
    interpreted on the two above. Shown: a receiver reads every record of a sender in order, and refuses exactly the records
    whose tag is wrong.
  \<^item> \<open>I31\<close>, \<open>I31_Mont\<close>, \<open>I31_Red\<close>, \<open>I31_Codec\<close>, \<open>I31_Pow\<close>: the big integers of \<^verbatim>\<open>int/i31_*.c\<close>. An array is a header word and words
    of 31 bits; \<open>num\<close> is its value. Shown: every operation computes the number it is named for, no intermediate word overflows,
    estimated quotients are corrected, and both exponentiations give the power for every odd modulus.
  \<^item> \<open>Rsa_Pub\<close>, \<open>Rsa_Sig\<close>: \<^verbatim>\<open>rsa/rsa_i31_pub.c\<close>, \<^verbatim>\<open>rsa_pkcs1_sig_pad.c\<close>, \<^verbatim>\<open>rsa_pkcs1_sig_unpad.c\<close> and \<^verbatim>\<open>rsa_i31_pkcs1_vrfy.c\<close>. Shown: the
    public-key operation returns and is that of RFC 8017, and exactly the signatures of the RFC are accepted.

  \<^bold>\<open>Conventions.\<close> A record of a theory is the static data of its file; an operation takes it and returns it
  updated. Machine integers have their width (\<^verbatim>\<open>uint32_t\<close> is \<^typ>\<open>32 word\<close>); where the code computes with
  \<^verbatim>\<open>int\<close> on small numbers the model uses \<^typ>\<open>int\<close>, and says so. Results of fallible calls are options or sums.
  No loop is cut off by fuel: counted loops recurse on their counter or carry a termination proof, and every
  loop that need not end is a \<^theory_text>\<open>partial_function\<close>, whose value \<^term>\<open>None\<close> means that it does not come back; the
  theorems about such loops state that there is a value. \<^term>\<open>None\<close> also stands for undefined behaviour (a null or
  wild pointer, an array left) where a theory says so.

  \<^bold>\<open>Parameters.\<close> What is not in the repository is an argument: what ports and device registers read
  (\<open>devices\<close>), the loaded program (\<open>app\<close>, \<open>runner\<close>), the system calls (\<open>posix\<close>), sockets and TLS (\<open>net\<close>), the state of a
  network interface (\<open>netdev\<close>). Theorems that need a fact about them assume it, and are tried on a
  concrete system (\<open>map_posix\<close>, \<open>bare_devices\<close> and others).

  \<^bold>\<open>Not modelled.\<close> The rest of BearSSL is third-party code kept in the tree (the other big integers, curves, private RSA keys, the other ciphers,
  certificates, the handshake, much of it generated); the downloader sees it through \<open>net\<close>. The assembly stubs (\<^verbatim>\<open>entry.s\<close>, \<^verbatim>\<open>interrupts.s\<close>) and linker scripts have no semantics here: the
  stubs appear as names in the gates. The protocol structures of the boot loader (\<^verbatim>\<open>limine.h\<close>) are data filled in from
  outside; their contents are arguments of the boot sequence. The 32-bit boot sequence differs from the 64-bit one by
  conditional compilation and is modelled where it has files of its own. Terminal attributes, buffering modes and
  delays have no effect on the modelled state. The rest of the repository is the boot medium, prebuilt
  binaries, key maps and build files.
\<close>

end
